(* ===== verification/Prelude.thy ===== *)
theory Prelude
  imports Main "HOL-Library.Monad_Syntax" "HOL-Library.Word"
begin

text \<open>
  Shared vocabulary of the detector models.

  A C++ operation that may have no defined result (reading the top of an empty
  \<open>std::stack\<close>, \<open>std::map::at\<close> on a missing key, dereferencing a null
  pointer, indexing an array out of its bounds) returns an \<open>option\<close>: \<open>None\<close>
  is the undefined or throwing case.  All detectors define \<open>NDEBUG\<close> before
  including \<open>cassert\<close> (\<open>Common.H\<close>), so an \<open>assert\<close> of the source is no branch
  of the model.  A \<open>std::stack\<close> is a list whose head is the top; a \<open>std::map\<close> is
  a partial function.
\<close>

section \<open>Types named by the headers\<close>

datatype AccessType = READ | WRITE

type_synonym ADDRINT = "64 word"
type_synonym THREADID = nat

named_theorems wf_intro \<open>introduction rules for the well-formedness invariants\<close>
named_theorems frame \<open>what an operation leaves unchanged\<close>

section \<open>Containers\<close>

text \<open>\<open>std::map::insert\<close> and \<open>std::unordered_map::insert\<close> keep an existing entry.\<close>

definition map_insert :: "('k \<rightharpoonup> 'v) \<Rightarrow> 'k \<Rightarrow> 'v \<Rightarrow> ('k \<rightharpoonup> 'v)" where
  "map_insert m k v = (case m k of None \<Rightarrow> m(k \<mapsto> v) | Some _ \<Rightarrow> m)"

fun stack_top :: "'a list \<Rightarrow> 'a option" where
  "stack_top [] = None"
| "stack_top (x # _) = Some x"

fun stack_pop :: "'a list \<Rightarrow> 'a list option" where
  "stack_pop [] = None"
| "stack_pop (_ # xs) = Some xs"

lemma map_insert_fresh: "m k = None \<Longrightarrow> map_insert m k v = m(k \<mapsto> v)"
  by (simp add: map_insert_def)

lemma map_insert_present [simp]: "m k = Some w \<Longrightarrow> map_insert m k v = m"
  by (simp add: map_insert_def)

lemma map_insert_apply:
  "map_insert m k v j = (if j = k \<and> m k = None then Some v else m j)"
  by (auto simp: map_insert_def split: option.splits)

lemma dom_map_insert [simp]: "dom (map_insert m k v) = insert k (dom m)"
  by (auto simp: map_insert_def split: option.splits)

lemma map_le_map_insert [simp, intro]: "m \<subseteq>\<^sub>m map_insert m k v"
  by (auto simp: map_le_def map_insert_apply)

lemma map_insert_cases:
  assumes "map_insert m k v j = Some w"
  obtains (old) "m j = Some w" | (new) "m k = None" "j = k" "w = v"
  using assms by (auto simp: map_insert_apply split: if_splits)

lemma stack_top_Some [simp]: "stack_top xs = Some x \<longleftrightarrow> (\<exists>ys. xs = x # ys)"
  by (cases xs) auto

lemma stack_pop_Some [simp]: "stack_pop xs = Some ys \<longleftrightarrow> (\<exists>x. xs = x # ys)"
  by (cases xs) auto

lemma stack_top_None [simp]: "stack_top xs = None \<longleftrightarrow> xs = []"
  by (cases xs) auto

lemma stack_pop_None [simp]: "stack_pop xs = None \<longleftrightarrow> xs = []"
  by (cases xs) auto

section \<open>The option monad\<close>

lemmas bind_Some_iff = bind_eq_Some_conv

lemma bind_SomeE:
  assumes "x \<bind> f = Some z"
  obtains y where "x = Some y" "f y = Some z"
  using assms by (auto simp: bind_eq_Some_conv)

text \<open>
  Evaluation of a monadic program by rewriting: the continuation is left alone until the
  value bound is known.
\<close>

lemma bind_weak_cong: "x = y \<Longrightarrow> Option.bind x f = Option.bind y f"
  by simp

lemma let_weak: "x = y \<Longrightarrow> Let x f = Let y f"
  by simp

lemmas eval_cong = bind_weak_cong let_weak prod.case_cong_weak option.case_cong_weak
  list.case_cong_weak

section \<open>Runs over lists of events\<close>

text \<open>A run stops at the first event without a defined result.\<close>

fun run :: "('s \<Rightarrow> 'e \<Rightarrow> 's option) \<Rightarrow> 's \<Rightarrow> 'e list \<Rightarrow> 's option" where
  "run step s [] = Some s"
| "run step s (e # es) = step s e \<bind> (\<lambda>s'. run step s' es)"

lemma run_append: "run step s (xs @ ys) = run step s xs \<bind> (\<lambda>t. run step t ys)"
  by (induction xs arbitrary: s) (auto split: Option.bind_split)

lemma run_invariant:
  assumes step: "\<And>s e s'. step s e = Some s' \<Longrightarrow> P s \<Longrightarrow> P s'"
  shows "run step s es = Some s' \<Longrightarrow> P s \<Longrightarrow> P s'"
  by (induction es arbitrary: s) (auto simp: bind_eq_Some_conv dest: step)

lemma run_relates:
  assumes "\<And>s. R s s" and "\<And>s t u. R s t \<Longrightarrow> R t u \<Longrightarrow> R s u"
    and "\<And>s e s'. step s e = Some s' \<Longrightarrow> R s s'"
  shows "run step s es = Some s' \<Longrightarrow> R s s'"
  by (induction es arbitrary: s) (auto simp: bind_eq_Some_conv intro: assms)

section \<open>The contract of a race reporter\<close>

text \<open>
  Every detector records its races with \<open>all_violations.insert\<close>, so a report, once
  made, is never changed or withdrawn.  Each detector interprets this contract on its
  own step function.
\<close>

locale race_reporter =
  fixes step :: "'s \<Rightarrow> 'e \<Rightarrow> 's option"
    and reports :: "'s \<Rightarrow> ('a \<rightharpoonup> 'v)"
  assumes step_keeps: "step s e = Some s' \<Longrightarrow> reports s \<subseteq>\<^sub>m reports s'"
begin

lemma run_keeps: "run step s es = Some s' \<Longrightarrow> reports s \<subseteq>\<^sub>m reports s'"
  by (rule run_relates [where R = "\<lambda>s t. reports s \<subseteq>\<^sub>m reports t"])
    (auto intro: step_keeps map_le_trans)

lemma first_report_stays:
  assumes "run step s es = Some s'" "reports s a = Some v"
  shows "reports s' a = Some v"
proof -
  have "a \<in> dom (reports s)" using assms(2) by blast
  then have "reports s a = reports s' a"
    using run_keeps [OF assms(1)] unfolding map_le_def by blast
  then show ?thesis using assms(2) by simp
qed

lemma first_report_of_prefix:
  assumes "run step s (es @ fs) = Some u" "run step s es = Some t" "reports t a = Some v"
  shows "reports u a = Some v"
proof -
  have "run step t fs = Some u" using assms(1,2) by (simp add: run_append)
  then show ?thesis using assms(3) by (rule first_report_stays)
qed

end

end
