(* ===== verification/LcaHash.thy ===== *)
theory LcaHash
  imports Prelude
begin

text \<open>
  The direct-mapped cache of parallelism queries of \<open>spd3-lib\<close>
  (\<open>src/lca_hash.cpp\<close>, \<open>include/lca_hash.H\<close>): a table of \<open>LCA_TABLE_SIZE\<close>
  pointers indexed by the address of the first node modulo the table size.  An entry
  remembers one partner of that node, the answer for the pair and the pair's lowest
  common ancestor.  A colliding node evicts the entry.  Addresses and node indices are
  natural numbers; the per-entry spin lock only makes the field updates atomic.
\<close>

section \<open>The table\<close>

datatype ParallelStatus = NA | TRUE | FALSE

record lca_hash =
  curAddr :: nat
  remAddr :: nat
  lca_result :: bool
  lca :: nat

type_synonym lca_table = "nat \<rightharpoonup> lca_hash"

definition LCA_TABLE_SIZE :: nat where
  "LCA_TABLE_SIZE = 16000"

definition getHTIndex :: "nat \<Rightarrow> nat" where
  "getHTIndex arg = arg mod LCA_TABLE_SIZE"

definition getHTElement :: "lca_table \<Rightarrow> nat \<Rightarrow> lca_hash option" where
  "getHTElement t arg =
     (case t (getHTIndex arg) of
        Some e \<Rightarrow> if curAddr e = arg then Some e else None
      | None \<Rightarrow> None)"

definition setHTElement :: "lca_table \<Rightarrow> nat \<Rightarrow> lca_hash \<Rightarrow> lca_table" where
  "setHTElement t arg entry = t(getHTIndex arg \<mapsto> entry)"

definition createHashTable :: lca_table where
  "createHashTable = (\<lambda>_. None)"

definition updateEntry :: "lca_table \<Rightarrow> nat \<Rightarrow> nat \<Rightarrow> bool \<Rightarrow> nat \<Rightarrow> lca_table" where
  "updateEntry t cur_addr rem_addr result l =
     (case getHTElement t cur_addr of
        None \<Rightarrow> setHTElement t cur_addr
                 \<lparr>curAddr = cur_addr, remAddr = rem_addr, lca_result = result, lca = l\<rparr>
      | Some e \<Rightarrow> t(getHTIndex cur_addr \<mapsto>
                 e\<lparr>remAddr := rem_addr, lca_result := result, lca := l\<rparr>))"

definition checkParallel :: "lca_table \<Rightarrow> nat \<Rightarrow> nat \<Rightarrow> ParallelStatus" where
  "checkParallel t cur_addr rem_addr =
     (case getHTElement t cur_addr of
        Some cur \<Rightarrow>
          if remAddr cur = rem_addr then (if lca_result cur then TRUE else FALSE)
          else (case getHTElement t rem_addr of
                  Some rem \<Rightarrow>
                    if remAddr rem = cur_addr then (if lca_result rem then TRUE else FALSE)
                    else NA
                | None \<Rightarrow> NA)
      | None \<Rightarrow>
          (case getHTElement t rem_addr of
             Some rem \<Rightarrow>
               if remAddr rem = cur_addr then (if lca_result rem then TRUE else FALSE)
               else NA
           | None \<Rightarrow> NA))"

definition getLCA :: "lca_table \<Rightarrow> nat \<Rightarrow> nat \<Rightarrow> nat option" where
  "getLCA t cur_addr rem_addr =
     (case getHTElement t cur_addr of
        Some cur \<Rightarrow>
          if remAddr cur = rem_addr then Some (lca cur)
          else (case getHTElement t rem_addr of
                  Some rem \<Rightarrow> if remAddr rem = cur_addr then Some (lca rem) else None
                | None \<Rightarrow> None)
      | None \<Rightarrow>
          (case getHTElement t rem_addr of
             Some rem \<Rightarrow> if remAddr rem = cur_addr then Some (lca rem) else None
           | None \<Rightarrow> None))"

section \<open>What a client of the cache relies on\<close>

text \<open>
  A fact \<open>V a b r l\<close> says that \<open>r\<close> is the right answer for the pair \<open>(a, b)\<close> and
  \<open>l\<close> its lowest common ancestor.  A cache is sound for \<open>V\<close> when it only holds such
  facts; clients look up pairs in either order.
\<close>

type_synonym pair_fact = "nat \<Rightarrow> nat \<Rightarrow> bool \<Rightarrow> nat \<Rightarrow> bool"

locale pair_cache =
  fixes check :: "'t \<Rightarrow> nat \<Rightarrow> nat \<Rightarrow> ParallelStatus"
    and ancestor :: "'t \<Rightarrow> nat \<Rightarrow> nat \<Rightarrow> nat option"
    and update :: "'t \<Rightarrow> nat \<Rightarrow> nat \<Rightarrow> bool \<Rightarrow> nat \<Rightarrow> 't"
    and fresh :: 't
    and sound :: "pair_fact \<Rightarrow> 't \<Rightarrow> bool"
  assumes fresh_sound: "sound V fresh"
    and update_sound: "sound V t \<Longrightarrow> V a b r l \<Longrightarrow> sound V (update t a b r l)"
    and check_hit: "sound V t \<Longrightarrow> check t a b = (if r then TRUE else FALSE) \<Longrightarrow>
          (\<exists>l. V a b r l \<or> V b a r l)"
    and ancestor_hit: "sound V t \<Longrightarrow> ancestor t a b = Some l \<Longrightarrow> (\<exists>r. V a b r l \<or> V b a r l)"
    and sound_mono: "sound V t \<Longrightarrow> (\<And>a b r l. V a b r l \<Longrightarrow> W a b r l) \<Longrightarrow> sound W t"
begin

lemma update_both_sound:
  assumes "sound V t" "V a b r l" "V b a r l"
  shows "sound V (update (update t a b r l) b a r l)"
  using assms by (intro update_sound)

lemma check_answer:
  assumes s: "sound V t" and c: "check t a b \<noteq> NA"
    and V: "\<And>a b r l. V a b r l \<Longrightarrow> r = ans a b" and sym: "ans a b = ans b a"
  shows "check t a b = TRUE \<longleftrightarrow> ans a b"
proof (cases "check t a b")
  case TRUE
  then have "\<exists>l. V a b True l \<or> V b a True l" using check_hit [OF s, of a b True] by simp
  then show ?thesis using TRUE V sym by blast
next
  case FALSE
  then have "\<exists>l. V a b False l \<or> V b a False l" using check_hit [OF s, of a b False] by simp
  then show ?thesis using FALSE V sym by auto
next
  case NA
  with c show ?thesis by contradiction
qed

lemma ancestor_answer:
  assumes s: "sound V t" and a: "ancestor t a b = Some l"
    and V: "\<And>a b r l. V a b r l \<Longrightarrow> l = anc a b" and sym: "anc a b = anc b a"
  shows "l = anc a b"
  using ancestor_hit [OF s a] V sym by metis

end

section \<open>The code's table is such a cache\<close>

definition table_sound :: "pair_fact \<Rightarrow> lca_table \<Rightarrow> bool" where
  "table_sound V t \<longleftrightarrow>
     (\<forall>i e. t i = Some e \<longrightarrow> V (curAddr e) (remAddr e) (lca_result e) (lca e))"

lemma getHTElement_Some:
  "getHTElement t a = Some e \<longleftrightarrow> t (getHTIndex a) = Some e \<and> curAddr e = a"
  by (auto simp: getHTElement_def split: option.splits)

lemma updateEntry_entry:
  "updateEntry t a b r l =
     t(getHTIndex a \<mapsto> \<lparr>curAddr = a, remAddr = b, lca_result = r, lca = l\<rparr>)"
  by (auto simp: updateEntry_def setHTElement_def getHTElement_def split: option.splits)

interpretation lca_cache: pair_cache checkParallel getLCA updateEntry createHashTable table_sound
proof
  show "table_sound V createHashTable" for V
    by (simp add: table_sound_def createHashTable_def)
  show "table_sound V (updateEntry t a b r l)" if "table_sound V t" "V a b r l" for V t a b r l
    using that by (simp add: table_sound_def updateEntry_entry)
  show "\<exists>l. V a b r l \<or> V b a r l"
    if "table_sound V t" "checkParallel t a b = (if r then TRUE else FALSE)" for V t a b r
    using that unfolding table_sound_def checkParallel_def
    by (auto simp: getHTElement_Some split: option.splits if_splits) metis+
  show "\<exists>r. V a b r l \<or> V b a r l"
    if "table_sound V t" "getLCA t a b = Some l" for V t a b l
    using that unfolding table_sound_def getLCA_def
    by (auto simp: getHTElement_Some split: option.splits if_splits) metis+
  show "table_sound W t" if "table_sound V t" "\<And>a b r l. V a b r l \<Longrightarrow> W a b r l" for V W t
    using that by (simp add: table_sound_def)
qed

text \<open>A pair just stored is found, in both orders.\<close>

lemma check_after_update:
  "checkParallel (updateEntry t a b r l) a b = (if r then TRUE else FALSE)"
  by (simp add: checkParallel_def getHTElement_def updateEntry_entry)

lemma getLCA_after_update: "getLCA (updateEntry t a b r l) a b = Some l"
  by (simp add: getLCA_def getHTElement_def updateEntry_entry)

lemma check_after_update_swapped:
  "checkParallel (updateEntry (updateEntry t a b r l) b a r l) a b = (if r then TRUE else FALSE)"
  by (auto simp: checkParallel_def getHTElement_def updateEntry_entry)

end
