(* ===== verification/TaskGraph.thy ===== *)
theory TaskGraph
  imports LcaHash
begin

text \<open>
  The dynamic program structure tree of \<open>spd3-lib\<close> (\<open>include/AFTask.H\<close>,
  \<open>include/AFTaskGraph.H\<close>, \<open>src/AFTaskGraph.cpp\<close>): its state and its operations.
  Nodes live in one array \<open>tgraph_nodes\<close>; a node pointer of the source is the index
  of the node in that array, and its address, which keys the LCA cache, is
  \<open>node_addr\<close>.  Each \<open>Capture\<close> operation runs under the global lock, so it is one
  step of the model.  The two globals the operations share with the detector,
  \<open>tidToTaskIdMap\<close> and the LCA table, are fields of the same record.
\<close>

section \<open>Data\<close>

datatype NodeType = NO_TYPE | ASYNC | FINISH | STEP

record AFTask =
  taskId :: nat
  parent :: nat
  cur_step :: nat
  type :: NodeType
  depth :: nat
  seq_num :: nat
  num_children :: nat
  young_ns_child :: NodeType
  sp_root_n_wt_flag :: bool

record AFTaskGraph =
  tgraph_base :: nat
  tgraph_nodes :: "nat \<Rightarrow> AFTask"
  last_allocated_node :: nat
  cur :: "THREADID \<Rightarrow> nat list"
  temp_cur_map :: "nat \<rightharpoonup> nat"
  tidToTaskIdMap :: "THREADID \<Rightarrow> nat list"
  lcaHashTable :: lca_table

definition NUM_GRAPH_NODES :: nat where
  "NUM_GRAPH_NODES = 134217728"

definition NUM_THREADS :: nat where
  "NUM_THREADS = 64"

text \<open>
  \<open>sizeof(struct AFTask)\<close> is 64: six words, the type padded to a word, and the type of the
  youngest child with the flag padded to a word.
\<close>

definition node_addr :: "AFTaskGraph \<Rightarrow> nat \<Rightarrow> nat" where
  "node_addr g i = tgraph_base g + 64 * i"

abbreviation node :: "AFTaskGraph \<Rightarrow> nat \<Rightarrow> AFTask" where
  "node g i \<equiv> tgraph_nodes g i"

definition upd_node :: "AFTaskGraph \<Rightarrow> nat \<Rightarrow> (AFTask \<Rightarrow> AFTask) \<Rightarrow> AFTaskGraph" where
  "upd_node g i f = g\<lparr>tgraph_nodes := (tgraph_nodes g)(i := f (tgraph_nodes g i))\<rparr>"

section \<open>Nodes\<close>

definition initialize_task :: "AFTaskGraph \<Rightarrow> nat \<Rightarrow> NodeType \<Rightarrow> nat \<Rightarrow> AFTaskGraph" where
  "initialize_task g index node_type val =
     upd_node g index (\<lambda>_.
       \<lparr>taskId = val, parent = 0, cur_step = 0, type = node_type, depth = 0, seq_num = 0,
        num_children = 0, young_ns_child = NO_TYPE, sp_root_n_wt_flag = False\<rparr>)"

text \<open>The array has \<open>NUM_GRAPH_NODES\<close> slots; beyond them there is no memory.\<close>

definition create_node :: "AFTaskGraph \<Rightarrow> NodeType \<Rightarrow> nat \<Rightarrow> (nat \<times> AFTaskGraph) option" where
  "create_node g node_type task_id =
     (let index = Suc (last_allocated_node g)
      in if index < NUM_GRAPH_NODES
         then Some (index,
                initialize_task (g\<lparr>last_allocated_node := index\<rparr>) index node_type task_id)
         else None)"

text \<open>
  The assignments the source repeats wherever it hangs a new node below a node \<open>p\<close>:
  \<open>parent\<close>, \<open>depth\<close>, \<open>seq_num\<close> and the parent's \<open>num_children\<close>.
\<close>

definition new_child :: "AFTaskGraph \<Rightarrow> NodeType \<Rightarrow> nat \<Rightarrow> nat \<Rightarrow> (nat \<times> AFTaskGraph) option" where
  "new_child g node_type task_id p =
     do {
       (i, g1) \<leftarrow> create_node g node_type task_id;
       let g2 = upd_node g1 i (\<lambda>n. n\<lparr>parent := p, depth := depth (node g1 p) + 1,
                                     seq_num := num_children (node g1 p)\<rparr>);
       let g3 = upd_node g2 p (\<lambda>n. n\<lparr>num_children := num_children n + 1\<rparr>);
       Some (i, g3)
     }"

text \<open>
  A new \<open>STEP\<close> child of \<open>p\<close>, which becomes \<open>p\<close>'s current step.
\<close>

definition new_step :: "AFTaskGraph \<Rightarrow> nat \<Rightarrow> AFTaskGraph option" where
  "new_step g p =
     do {
       (s, g1) \<leftarrow> new_child g STEP (taskId (node g p)) p;
       Some (upd_node g1 p (\<lambda>n. n\<lparr>cur_step := s\<rparr>))
     }"

section \<open>The operations\<close>

definition thread_top :: "(THREADID \<Rightarrow> 'a list) \<Rightarrow> THREADID \<Rightarrow> 'a option" where
  "thread_top st threadid = (if threadid < NUM_THREADS then stack_top (st threadid) else None)"

definition push :: "(THREADID \<Rightarrow> 'a list) \<Rightarrow> THREADID \<Rightarrow> 'a \<Rightarrow> (THREADID \<Rightarrow> 'a list)" where
  "push st threadid x = st(threadid := x # st threadid)"

definition pop :: "(THREADID \<Rightarrow> 'a list) \<Rightarrow> THREADID \<Rightarrow> (THREADID \<Rightarrow> 'a list) option" where
  "pop st threadid =
     (if threadid < NUM_THREADS
      then map_option (\<lambda>xs. st(threadid := xs)) (stack_pop (st threadid)) else None)"

text \<open>The constructor: a \<open>FINISH\<close> root in slot 1, on thread 0's stack.\<close>

definition AFTaskGraph_new :: "nat \<Rightarrow> AFTaskGraph option" where
  "AFTaskGraph_new base =
     do {
       (head_node, g) \<leftarrow> create_node
          \<lparr>tgraph_base = base,
           tgraph_nodes = (\<lambda>_. \<lparr>taskId = 0, parent = 0, cur_step = 0, type = NO_TYPE, depth = 0,
             seq_num = 0, num_children = 0, young_ns_child = NO_TYPE,
             sp_root_n_wt_flag = False\<rparr>),
           last_allocated_node = 0, cur = (\<lambda>_. []), temp_cur_map = Map.empty,
           tidToTaskIdMap = (\<lambda>_. []), lcaHashTable = createHashTable\<rparr> FINISH 0;
       let g = g\<lparr>cur := push (cur g) 0 head_node\<rparr>;
       Some (upd_node g head_node (\<lambda>n. n\<lparr>depth := 0, sp_root_n_wt_flag := True\<rparr>))
     }"

definition getCurTask :: "AFTaskGraph \<Rightarrow> THREADID \<Rightarrow> nat option" where
  "getCurTask g threadid =
     do { i \<leftarrow> thread_top (cur g) threadid; Some (cur_step (node g i)) }"

definition checkForStep :: "AFTask \<Rightarrow> bool" where
  "checkForStep cur_node \<longleftrightarrow> young_ns_child cur_node = ASYNC"

definition CaptureSpawnOnly :: "AFTaskGraph \<Rightarrow> THREADID \<Rightarrow> nat \<Rightarrow> AFTaskGraph option" where
  "CaptureSpawnOnly g threadid task_id =
     do {
       cur_index \<leftarrow> thread_top (cur g) threadid;
       (newNode, cur_node, g) \<leftarrow>
         (if checkForStep (node g cur_index) then do {
            (newNode, g) \<leftarrow> new_child g ASYNC task_id cur_index;
            let g = upd_node g cur_index (\<lambda>n. n\<lparr>young_ns_child := ASYNC\<rparr>);
            Some (newNode, cur_index, g)
          } else do {
            (newFinish, g) \<leftarrow> new_child g FINISH (taskId (node g cur_index)) cur_index;
            let g = upd_node g cur_index (\<lambda>n. n\<lparr>young_ns_child := FINISH\<rparr>);
            (newNode, g) \<leftarrow> new_child g ASYNC task_id newFinish;
            let g = upd_node g newFinish (\<lambda>n. n\<lparr>young_ns_child := ASYNC\<rparr>);
            Some (newNode, newFinish, g\<lparr>cur := push (cur g) threadid newFinish\<rparr>)
          });
       g \<leftarrow> new_step g newNode;
       g \<leftarrow> new_step g cur_node;
       Some (g\<lparr>temp_cur_map := map_insert (temp_cur_map g) task_id newNode\<rparr>)
     }"

definition CaptureSpawnAndWait :: "AFTaskGraph \<Rightarrow> THREADID \<Rightarrow> nat \<Rightarrow> AFTaskGraph option" where
  "CaptureSpawnAndWait g threadid task_id =
     do {
       cur_index \<leftarrow> thread_top (cur g) threadid;
       (newFinish, g) \<leftarrow> new_child g FINISH task_id cur_index;
       let g = upd_node g cur_index (\<lambda>n. n\<lparr>young_ns_child := FINISH\<rparr>);
       let g = upd_node g newFinish (\<lambda>n. n\<lparr>sp_root_n_wt_flag := True\<rparr>);
       g \<leftarrow> new_step g newFinish;
       Some (g\<lparr>temp_cur_map := map_insert (temp_cur_map g) task_id newFinish\<rparr>)
     }"

definition CaptureSetTaskId ::
    "AFTaskGraph \<Rightarrow> THREADID \<Rightarrow> nat \<Rightarrow> bool \<Rightarrow> AFTaskGraph option" where
  "CaptureSetTaskId g threadid task_id sp_only =
     (if sp_only then CaptureSpawnOnly g threadid task_id
      else CaptureSpawnAndWait g threadid task_id)"

definition CaptureExecute :: "AFTaskGraph \<Rightarrow> THREADID \<Rightarrow> nat \<Rightarrow> AFTaskGraph option" where
  "CaptureExecute g threadid task_id =
     do {
       temp_cur \<leftarrow> temp_cur_map g task_id;
       let g = g\<lparr>temp_cur_map := (temp_cur_map g)(task_id := None)\<rparr>;
       if threadid < NUM_THREADS then
         Some (g\<lparr>cur := push (cur g) threadid temp_cur,
                 tidToTaskIdMap :=
                   push (tidToTaskIdMap g) threadid (taskId (node g temp_cur))\<rparr>)
       else None
     }"

definition CaptureReturn :: "AFTaskGraph \<Rightarrow> THREADID \<Rightarrow> AFTaskGraph option" where
  "CaptureReturn g threadid =
     do {
       ids \<leftarrow> pop (tidToTaskIdMap g) threadid;
       let g = g\<lparr>tidToTaskIdMap := ids\<rparr>;
       cur_index \<leftarrow> thread_top (cur g) threadid;
       g \<leftarrow> (if type (node g cur_index) = FINISH \<and> \<not> sp_root_n_wt_flag (node g cur_index)
             then do { st \<leftarrow> pop (cur g) threadid; Some (g\<lparr>cur := st\<rparr>) }
             else Some g);
       st \<leftarrow> pop (cur g) threadid;
       Some (g\<lparr>cur := st\<rparr>)
     }"

definition CaptureWait :: "AFTaskGraph \<Rightarrow> THREADID \<Rightarrow> AFTaskGraph option" where
  "CaptureWait g threadid =
     do { cur_index \<leftarrow> thread_top (cur g) threadid; new_step g cur_index }"

definition CaptureWaitOnly :: "AFTaskGraph \<Rightarrow> THREADID \<Rightarrow> AFTaskGraph option" where
  "CaptureWaitOnly g threadid =
     do {
       st \<leftarrow> pop (cur g) threadid;
       let g = g\<lparr>cur := st\<rparr>;
       cur_index \<leftarrow> thread_top (cur g) threadid;
       new_step g cur_index
     }"

section \<open>Queries\<close>

text \<open>
  The loop that climbs from the deeper of the two nodes until the depths agree.  It
  returns the node reached and \<open>prev\<close>, the node visited before it (null at first).
\<close>

partial_function (option) climb ::
    "(nat \<Rightarrow> AFTask) \<Rightarrow> nat \<Rightarrow> nat \<Rightarrow> nat option \<Rightarrow> (nat \<times> nat option) option" where
  "climb ns d n prev =
     (if depth (ns n) = d then Some (n, prev) else climb ns d (parent (ns n)) (Some n))"

text \<open>The loop that climbs from both nodes until they meet.\<close>

partial_function (option) climb_both ::
    "(nat \<Rightarrow> AFTask) \<Rightarrow> nat \<Rightarrow> nat option \<Rightarrow> nat \<Rightarrow> nat option
       \<Rightarrow> (nat \<times> nat option \<times> nat option) option" where
  "climb_both ns c prev_c r prev_r =
     (if r = c then Some (c, prev_c, prev_r)
      else climb_both ns (parent (ns c)) (Some c) (parent (ns r)) (Some r))"

declare climb.simps [code] climb_both.simps [code]

text \<open>
  Both phases: the meeting point and the last node visited on either side.  Either
  side may be null when one node is an ancestor of the other.
\<close>

definition meet ::
    "(nat \<Rightarrow> AFTask) \<Rightarrow> nat \<Rightarrow> nat \<Rightarrow> (nat \<times> nat option \<times> nat option) option" where
  "meet ns c r =
     (if depth (ns c) > depth (ns r) then do {
        (c', prev_c) \<leftarrow> climb ns (depth (ns r)) c None;
        climb_both ns c' prev_c r None
      } else if depth (ns r) > depth (ns c) then do {
        (r', prev_r) \<leftarrow> climb ns (depth (ns c)) r None;
        climb_both ns c None r' prev_r
      } else climb_both ns c None r None)"

text \<open>
  \<open>parallel\<close>: first the cache, then the tree; the answer is stored under both
  orders of the pair.
\<close>

definition parallel :: "AFTaskGraph \<Rightarrow> nat \<Rightarrow> nat \<Rightarrow> (bool \<times> AFTaskGraph) option" where
  "parallel g cur_task remote_task =
     (let ca = node_addr g cur_task; ra = node_addr g remote_task
      in case checkParallel (lcaHashTable g) ca ra of
           TRUE \<Rightarrow> Some (True, g)
         | FALSE \<Rightarrow> Some (False, g)
         | NA \<Rightarrow> do {
             (l, prev_c, prev_r) \<leftarrow> meet (tgraph_nodes g) cur_task remote_task;
             prev_cur_task \<leftarrow> prev_c;
             prev_remote_task \<leftarrow> prev_r;
             let cur_index = seq_num (node g prev_cur_task);
             let rem_index = seq_num (node g prev_remote_task);
             let ret_val = (if rem_index < cur_index then type (node g prev_remote_task) = ASYNC
                            else type (node g prev_cur_task) = ASYNC);
             let t = updateEntry (lcaHashTable g) ca ra ret_val l;
             let t = updateEntry t ra ca ret_val l;
             Some (ret_val, g\<lparr>lcaHashTable := t\<rparr>)
           })"

definition LCA :: "AFTaskGraph \<Rightarrow> nat \<Rightarrow> nat \<Rightarrow> nat option" where
  "LCA g cur_task remote_task =
     (case getLCA (lcaHashTable g) (node_addr g cur_task) (node_addr g remote_task) of
        Some cached_lca \<Rightarrow> Some cached_lca
      | None \<Rightarrow> map_option fst (meet (tgraph_nodes g) cur_task remote_task))"

definition areParallel ::
    "AFTaskGraph \<Rightarrow> nat \<Rightarrow> nat \<Rightarrow> THREADID \<Rightarrow> (bool \<times> AFTaskGraph) option" where
  "areParallel g cur_task remote_task threadid =
     (if cur_task = taskId (node g remote_task) then Some (False, g)
      else do {
        cur_task_ptr \<leftarrow> thread_top (cur g) threadid;
        if taskId (node g cur_task_ptr) = taskId (node g remote_task) then Some (False, g)
        else parallel g (cur_step (node g cur_task_ptr)) remote_task
      })"

text \<open>The equations that evaluate runs on concrete input.\<close>

lemmas graph_eval =
  AFTaskGraph_new_def create_node_def initialize_task_def upd_node_def new_child_def
  new_step_def NUM_GRAPH_NODES_def NUM_THREADS_def thread_top_def push_def pop_def
  getCurTask_def checkForStep_def CaptureSpawnOnly_def CaptureSpawnAndWait_def
  CaptureSetTaskId_def CaptureExecute_def CaptureReturn_def CaptureWaitOnly_def
  climb.simps climb_both.simps meet_def parallel_def LCA_def areParallel_def node_addr_def
  LCA_TABLE_SIZE_def getHTIndex_def getHTElement_def setHTElement_def createHashTable_def
  updateEntry_def checkParallel_def getLCA_def

end
