(* ===== verification/Dpst.thy ===== *)
theory Dpst
  imports TaskGraph
begin

text \<open>
  The program structure tree as a mathematical object: which arrays of nodes are trees,
  the path from a node to the root, the reference notions of lowest common ancestor and
  of logically parallel steps, and the proof that the climbing loops of
  \<open>AFTaskGraph.cpp\<close> end on every well-formed tree and find what these notions say.
\<close>

section \<open>Well-formed trees\<close>

text \<open>
  Slots \<open>1\<close> to \<open>m\<close> are in use.  Slot 1 is the root; every other node hangs below a
  node with a smaller index that is no step, is one level deeper than it, and its
  sequence number is one its parent has handed out; younger siblings have larger
  sequence numbers.
\<close>

definition wf_tree :: "(nat \<Rightarrow> AFTask) \<Rightarrow> nat \<Rightarrow> bool" where
  "wf_tree ns m \<longleftrightarrow>
     0 < m \<and> type (ns 1) = FINISH \<and> depth (ns 1) = 0 \<and>
     (\<forall>i. 1 < i \<and> i \<le> m \<longrightarrow>
        0 < parent (ns i) \<and> parent (ns i) < i \<and> type (ns (parent (ns i))) \<noteq> STEP \<and>
        depth (ns i) = depth (ns (parent (ns i))) + 1 \<and>
        seq_num (ns i) < num_children (ns (parent (ns i)))) \<and>
     (\<forall>i j. 1 < i \<and> i < j \<and> j \<le> m \<and> parent (ns i) = parent (ns j) \<longrightarrow>
        seq_num (ns i) < seq_num (ns j))"

lemma wf_treeD:
  assumes "wf_tree ns m"
  shows wf_tree_root: "0 < m" "type (ns 1) = FINISH" "depth (ns 1) = 0"
    and wf_tree_node: "1 < i \<Longrightarrow> i \<le> m \<Longrightarrow> 0 < parent (ns i)"
      "1 < i \<Longrightarrow> i \<le> m \<Longrightarrow> parent (ns i) < i"
      "1 < i \<Longrightarrow> i \<le> m \<Longrightarrow> type (ns (parent (ns i))) \<noteq> STEP"
      "1 < i \<Longrightarrow> i \<le> m \<Longrightarrow> depth (ns i) = depth (ns (parent (ns i))) + 1"
      "1 < i \<Longrightarrow> i \<le> m \<Longrightarrow> seq_num (ns i) < num_children (ns (parent (ns i)))"
    and wf_tree_siblings: "1 < i \<Longrightarrow> i < j \<Longrightarrow> j \<le> m \<Longrightarrow> parent (ns i) = parent (ns j) \<Longrightarrow>
      seq_num (ns i) < seq_num (ns j)"
  using assms unfolding wf_tree_def by blast+

lemma wf_tree_siblings_distinct:
  assumes "wf_tree ns m" "1 < i" "i \<le> m" "1 < j" "j \<le> m" "parent (ns i) = parent (ns j)" "i \<noteq> j"
  shows "seq_num (ns i) \<noteq> seq_num (ns j)"
  using wf_tree_siblings [OF assms(1), of i j] wf_tree_siblings [OF assms(1), of j i] assms(2-7)
  by (metis less_irrefl linorder_neq_iff)

section \<open>Paths to the root\<close>

function root_path :: "(nat \<Rightarrow> AFTask) \<Rightarrow> nat \<Rightarrow> nat list" where
  "root_path ns i =
     (if 1 < i \<and> parent (ns i) < i then i # root_path ns (parent (ns i)) else [i])"
  by pat_completeness auto
termination by (relation "measure snd") auto

declare root_path.simps [simp del]

abbreviation anc :: "(nat \<Rightarrow> AFTask) \<Rightarrow> nat \<Rightarrow> nat \<Rightarrow> bool" where
  "anc ns x i \<equiv> x \<in> set (root_path ns i)"

lemma root_path_root: "i \<le> 1 \<Longrightarrow> root_path ns i = [i]"
  by (simp add: root_path.simps)

lemma root_path_node:
  "wf_tree ns m \<Longrightarrow> 1 < i \<Longrightarrow> i \<le> m \<Longrightarrow> root_path ns i = i # root_path ns (parent (ns i))"
  using wf_tree_node(2) [of ns m i] by (subst root_path.simps) simp

lemma anc_refl [simp, intro]: "anc ns i i"
  by (subst root_path.simps) auto

lemma anc_node_iff:
  "wf_tree ns m \<Longrightarrow> 1 < i \<Longrightarrow> i \<le> m \<Longrightarrow> anc ns x i \<longleftrightarrow> x = i \<or> anc ns x (parent (ns i))"
  by (simp add: root_path_node)

lemma anc_root_iff [simp]: "anc ns x (Suc 0) \<longleftrightarrow> x = 1"
  by (simp add: root_path_root)

text \<open>Induction from the root down, the shape of most proofs about nodes.\<close>

lemma node_induct [consumes 3, case_names root child]:
  assumes wf: "wf_tree ns m" and i: "0 < i" "i \<le> m"
    and root: "P 1"
    and child: "\<And>i. 1 < i \<Longrightarrow> i \<le> m \<Longrightarrow> 0 < parent (ns i) \<Longrightarrow> parent (ns i) < i \<Longrightarrow>
                  P (parent (ns i)) \<Longrightarrow> P i"
  shows "P i"
  using i
proof (induction i rule: less_induct)
  case (less i)
  show ?case
  proof (cases "i = 1")
    case True
    then show ?thesis using root by simp
  next
    case False
    with less.prems have i: "1 < i" "i \<le> m" by simp_all
    note p = wf_tree_node(1,2) [OF wf i]
    have "P (parent (ns i))" by (rule less.IH [OF p(2,1)]) (use p i in simp)
    then show ?thesis using child i p by blast
  qed
qed

lemma anc_range:
  assumes "wf_tree ns m" "0 < i" "i \<le> m" "anc ns x i"
  shows "0 < x" "x \<le> i" "x \<le> m"
proof -
  have "anc ns x i \<longrightarrow> 0 < x \<and> x \<le> i"
    using assms(1-3)
  proof (induction i rule: node_induct)
    case root
    show ?case by simp
  next
    case (child i)
    then show ?case by (auto simp: anc_node_iff [OF assms(1) child.hyps(1,2)])
  qed
  then show "0 < x" "x \<le> i" "x \<le> m" using assms by auto
qed

lemma anc_one:
  assumes "wf_tree ns m" "0 < i" "i \<le> m"
  shows "anc ns 1 i"
  using assms
proof (induction i rule: node_induct)
  case root
  show ?case by simp
next
  case (child i)
  then show ?case by (simp add: anc_node_iff [OF assms(1) child.hyps(1,2)])
qed

lemma anc_depth:
  assumes "wf_tree ns m" "0 < i" "i \<le> m" "anc ns x i"
  shows "depth (ns x) \<le> depth (ns i) \<and> (depth (ns x) = depth (ns i) \<longrightarrow> x = i)"
proof -
  have "anc ns x i \<longrightarrow> depth (ns x) \<le> depth (ns i) \<and> (depth (ns x) = depth (ns i) \<longrightarrow> x = i)"
    using assms(1-3)
  proof (induction i rule: node_induct)
    case root
    show ?case by simp
  next
    case (child i)
    then show ?case
      using wf_tree_node(4) [OF assms(1) child.hyps(1,2)]
      by (auto simp: anc_node_iff [OF assms(1) child.hyps(1,2)])
  qed
  then show ?thesis using assms(4) by blast
qed

lemma anc_trans:
  assumes "wf_tree ns m" "0 < z" "z \<le> m" "anc ns x y" "anc ns y z"
  shows "anc ns x z"
proof -
  have "anc ns y z \<longrightarrow> anc ns x z"
    using assms(1-3)
  proof (induction z rule: node_induct)
    case root
    show ?case using assms(4) by auto
  next
    case (child i)
    then show ?case using assms(4) by (auto simp: anc_node_iff [OF assms(1) child.hyps(1,2)])
  qed
  then show ?thesis using assms(5) by blast
qed

lemma anc_parent:
  assumes "wf_tree ns m" "0 < z" "z \<le> m" "anc ns x z" "1 < x"
  shows "anc ns (parent (ns x)) z"
proof -
  have "x \<le> m" using anc_range(3) [OF assms(1-4)] .
  then have "anc ns (parent (ns x)) x"
    using assms(1,5) by (simp add: anc_node_iff)
  then show ?thesis using anc_trans [OF assms(1-3)] assms(4) by blast
qed

text \<open>The ancestors of a node are linearly ordered by depth.\<close>

lemma anc_linear:
  assumes "wf_tree ns m" "0 < z" "z \<le> m" "anc ns x z" "anc ns y z" "depth (ns x) \<le> depth (ns y)"
  shows "anc ns x y"
proof -
  have "anc ns x z \<and> anc ns y z \<longrightarrow> anc ns x y"
    using assms(1-3)
  proof (induction z rule: node_induct)
    case root
    show ?case by simp
  next
    case (child i)
    show ?case
    proof
      assume xy: "anc ns x i \<and> anc ns y i"
      show "anc ns x y"
      proof (cases "y = i")
        case True
        then show ?thesis using xy by blast
      next
        case False
        then have y: "anc ns y (parent (ns i))"
          using xy child.hyps assms(1) by (simp add: anc_node_iff)
        have "depth (ns y) < depth (ns i)"
          using anc_depth [OF assms(1) child.hyps(3) _ y] child.hyps
            wf_tree_node(4) [OF assms(1) child.hyps(1,2)] by simp
        then have "x \<noteq> i" using assms(6) by auto
        then have "anc ns x (parent (ns i))"
          using xy child.hyps assms(1) by (simp add: anc_node_iff)
        then show ?thesis using child.IH y by blast
      qed
    qed
  qed
  then show ?thesis using assms(4,5) by blast
qed

lemma anc_same_depth:
  assumes "wf_tree ns m" "0 < z" "z \<le> m" "anc ns x z" "anc ns y z" "depth (ns x) = depth (ns y)"
  shows "x = y"
proof -
  have "anc ns x y" using anc_linear assms by simp
  then show ?thesis
    using anc_depth [OF assms(1), of y x] anc_range [OF assms(1-3,5)] assms(6) by blast
qed

lemma anc_not_step:
  assumes "wf_tree ns m" "0 < z" "z \<le> m" "anc ns x z" "x \<noteq> z"
  shows "type (ns x) \<noteq> STEP"
proof -
  have "anc ns x z \<longrightarrow> x = z \<or> type (ns x) \<noteq> STEP"
    using assms(1-3)
  proof (induction z rule: node_induct)
    case root
    show ?case by simp
  next
    case (child i)
    then show ?case
      using wf_tree_node(3) [OF assms(1) child.hyps(1,2)]
      by (auto simp: anc_node_iff [OF assms(1) child.hyps(1,2)])
  qed
  then show ?thesis using assms(4,5) by blast
qed

section \<open>Lowest common ancestors and parallel steps\<close>

definition is_lca :: "(nat \<Rightarrow> AFTask) \<Rightarrow> nat \<Rightarrow> nat \<Rightarrow> nat \<Rightarrow> bool" where
  "is_lca ns l a b \<longleftrightarrow>
     anc ns l a \<and> anc ns l b \<and>
     (\<forall>z \<in> set (root_path ns a). anc ns z b \<longrightarrow> anc ns z l)"

text \<open>
  The two children of the lowest common ancestor through which the paths of \<open>a\<close> and
  \<open>b\<close> leave it.
\<close>

definition branches :: "(nat \<Rightarrow> AFTask) \<Rightarrow> nat \<Rightarrow> nat \<Rightarrow> nat \<Rightarrow> nat \<Rightarrow> bool" where
  "branches ns a b x y \<longleftrightarrow>
     anc ns x a \<and> anc ns y b \<and> x \<noteq> y \<and> 1 < x \<and> 1 < y \<and> parent (ns x) = parent (ns y)"

text \<open>
  Two nodes may run in parallel when the older of these two children (the smaller
  sequence number) is an \<open>ASYNC\<close> node.
\<close>

definition mhp :: "(nat \<Rightarrow> AFTask) \<Rightarrow> nat \<Rightarrow> nat \<Rightarrow> bool" where
  "mhp ns a b \<longleftrightarrow>
     (\<exists>x \<in> set (root_path ns a). \<exists>y \<in> set (root_path ns b).
        branches ns a b x y \<and>
        type (ns (if seq_num (ns y) < seq_num (ns x) then y else x)) = ASYNC)"

lemma is_lca_sym: "is_lca ns l a b \<Longrightarrow> is_lca ns l b a"
  by (auto simp: is_lca_def)

lemma is_lca_unique:
  assumes "wf_tree ns m" "0 < a" "a \<le> m" "is_lca ns l a b" "is_lca ns l' a b"
  shows "l = l'"
proof -
  have la: "anc ns l a" "anc ns l' a" and "anc ns l l'" "anc ns l' l"
    using assms(4,5) by (auto simp: is_lca_def)
  then show ?thesis
    using anc_range [OF assms(1-3)] anc_range(2) [OF assms(1)] la by (meson le_antisym)
qed

lemma branches_sym: "branches ns a b x y \<Longrightarrow> branches ns b a y x"
  by (auto simp: branches_def)

lemma branches_siblings_depth:
  assumes "wf_tree ns m" "0 < a" "a \<le> m" "0 < b" "b \<le> m" "branches ns a b x y"
  shows "depth (ns x) = depth (ns y)" "x \<le> m" "y \<le> m"
    "depth (ns x) = depth (ns (parent (ns x))) + 1"
  using assms(6) anc_range(3) [OF assms(1-3), of x] anc_range(3) [OF assms(1,4,5), of y]
  unfolding branches_def
  by (auto simp: wf_tree_node(4) [OF assms(1)])

lemma branches_lca:
  assumes wf: "wf_tree ns m" and a: "0 < a" "a \<le> m" and b: "0 < b" "b \<le> m"
    and br: "branches ns a b x y"
  shows "is_lca ns (parent (ns x)) a b"
  unfolding is_lca_def
proof (intro conjI ballI impI)
  note d = branches_siblings_depth [OF wf a b br]
  show xa: "anc ns (parent (ns x)) a"
    by (rule anc_parent [OF wf a]) (use br in \<open>auto simp: branches_def\<close>)
  have "anc ns (parent (ns y)) b"
    by (rule anc_parent [OF wf b]) (use br in \<open>auto simp: branches_def\<close>)
  then show "anc ns (parent (ns x)) b" using br by (simp add: branches_def)
  fix z assume z: "z \<in> set (root_path ns a)" "anc ns z b"
  have "depth (ns z) < depth (ns x)"
  proof (rule ccontr)
    assume "\<not> depth (ns z) < depth (ns x)"
    then have "anc ns x z" using anc_linear [OF wf a] br z(1) by (auto simp: branches_def)
    then have "anc ns x b" using anc_trans [OF wf b] z(2) by blast
    then show False using anc_same_depth [OF wf b] br d(1) by (auto simp: branches_def)
  qed
  then show "anc ns z (parent (ns x))"
    using anc_linear [OF wf a z(1) xa] d(4) by simp
qed

lemma branches_unique:
  assumes wf: "wf_tree ns m" and a: "0 < a" "a \<le> m" and b: "0 < b" "b \<le> m"
    and br: "branches ns a b x y" and br': "branches ns a b x' y'"
  shows "x = x' \<and> y = y'"
proof -
  note d = branches_siblings_depth [OF wf a b br]
  note d' = branches_siblings_depth [OF wf a b br']
  have "parent (ns x) = parent (ns x')"
    using is_lca_unique [OF wf a branches_lca [OF wf a b br] branches_lca [OF wf a b br']] .
  then have "depth (ns x) = depth (ns x')" using d(4) d'(4) by simp
  then show ?thesis
    using anc_same_depth [OF wf a, of x x'] anc_same_depth [OF wf b, of y y'] br br' d(1) d'(1)
    by (auto simp: branches_def)
qed

lemma mhp_branches:
  assumes "wf_tree ns m" "0 < a" "a \<le> m" "0 < b" "b \<le> m" "branches ns a b x y"
  shows "mhp ns a b \<longleftrightarrow> type (ns (if seq_num (ns y) < seq_num (ns x) then y else x)) = ASYNC"
proof
  assume "mhp ns a b"
  then obtain x' y' where "branches ns a b x' y'"
    and t: "type (ns (if seq_num (ns y') < seq_num (ns x') then y' else x')) = ASYNC"
    unfolding mhp_def by blast
  with branches_unique [OF assms(1-6)] have "x = x' \<and> y = y'" by blast
  with t show "type (ns (if seq_num (ns y) < seq_num (ns x) then y else x)) = ASYNC"
    by (simp split: if_splits)
next
  assume "type (ns (if seq_num (ns y) < seq_num (ns x) then y else x)) = ASYNC"
  moreover have "x \<in> set (root_path ns a)" "y \<in> set (root_path ns b)"
    using assms(6) by (auto simp: branches_def)
  ultimately show "mhp ns a b" unfolding mhp_def using assms(6) by blast
qed

lemma mhp_imp_branches: "mhp ns a b \<Longrightarrow> \<exists>x y. branches ns a b x y"
  by (auto simp: mhp_def)

lemma mhp_sym_imp:
  assumes "wf_tree ns m" "0 < a" "a \<le> m" "0 < b" "b \<le> m" "mhp ns a b"
  shows "mhp ns b a"
proof -
  from assms(6) obtain x y where br: "branches ns a b x y" by (blast dest: mhp_imp_branches)
  have x: "1 < x" "x \<le> m" and y: "1 < y" "y \<le> m"
    using br branches_siblings_depth [OF assms(1-5) br] by (auto simp: branches_def)
  have "seq_num (ns x) \<noteq> seq_num (ns y)"
    using wf_tree_siblings_distinct [OF assms(1) x y] br by (auto simp: branches_def)
  then show ?thesis
    using mhp_branches [OF assms(1-5) br] assms(6)
      mhp_branches [OF assms(1,4,5,2,3) branches_sym [OF br]]
    by (auto split: if_splits)
qed

lemma mhp_sym:
  assumes "wf_tree ns m" "0 < a" "a \<le> m" "0 < b" "b \<le> m"
  shows "mhp ns a b \<longleftrightarrow> mhp ns b a"
  using mhp_sym_imp assms by blast

lemma mhp_irrefl:
  assumes "wf_tree ns m" "0 < a" "a \<le> m"
  shows "\<not> mhp ns a a"
proof
  assume "mhp ns a a"
  then obtain x y where br: "branches ns a a x y" by (blast dest: mhp_imp_branches)
  then show False
    using anc_same_depth [OF assms, of x y] branches_siblings_depth(1) [OF assms assms(2,3) br]
    by (auto simp: branches_def)
qed

section \<open>The climbing loops\<close>

lemma climb_spec:
  assumes wf: "wf_tree ns m"
  shows "0 < n \<Longrightarrow> n \<le> m \<Longrightarrow> d \<le> depth (ns n) \<Longrightarrow>
    \<exists>n' prev'. climb ns d n prev = Some (n', prev') \<and> anc ns n' n \<and> depth (ns n') = d \<and>
      (n' = n \<longrightarrow> prev' = prev) \<and>
      (n' \<noteq> n \<longrightarrow> (\<exists>p. prev' = Some p \<and> anc ns p n \<and> 1 < p \<and> parent (ns p) = n'))"
proof (induction n arbitrary: prev rule: less_induct)
  case (less n)
  show ?case
  proof (cases "depth (ns n) = d")
    case True
    then show ?thesis by (subst climb.simps) auto
  next
    case False
    with less.prems wf_tree_root(3) [OF wf] have n1: "1 < n"
      by (metis One_nat_def Suc_leI le_zero_eq less_one nat_less_le)
    note node = wf_tree_node [OF wf n1 less.prems(2)]
    have "parent (ns n) \<le> m" "d \<le> depth (ns (parent (ns n)))"
      using node less.prems False by auto
    from less.IH [OF node(2) node(1) this, of "Some n"] obtain n' prev' where
      IH: "climb ns d (parent (ns n)) (Some n) = Some (n', prev')"
        "anc ns n' (parent (ns n))" "depth (ns n') = d"
        "n' = parent (ns n) \<longrightarrow> prev' = Some n"
        "n' \<noteq> parent (ns n) \<longrightarrow>
           (\<exists>p. prev' = Some p \<and> anc ns p (parent (ns n)) \<and> 1 < p \<and> parent (ns p) = n')"
      by blast
    have "climb ns d n prev = Some (n', prev')"
      using False IH(1) by (subst climb.simps) simp
    moreover have "n' \<noteq> n" using IH(3) False by auto
    ultimately show ?thesis
      using IH n1 less.prems(2) by (auto simp: anc_node_iff [OF wf])
  qed
qed

lemma climb_both_spec:
  assumes wf: "wf_tree ns m"
  shows "0 < c \<Longrightarrow> c \<le> m \<Longrightarrow> 0 < r \<Longrightarrow> r \<le> m \<Longrightarrow> depth (ns c) = depth (ns r) \<Longrightarrow>
    (c = r \<and> climb_both ns c pc r pr = Some (c, pc, pr)) \<or>
    (c \<noteq> r \<and> (\<exists>x y. branches ns c r x y \<and>
        climb_both ns c pc r pr = Some (parent (ns x), Some x, Some y)))"
proof (induction c arbitrary: r pc pr rule: less_induct)
  case (less c)
  show ?case
  proof (cases "r = c")
    case True
    then show ?thesis by (subst (1) climb_both.simps) simp
  next
    case False
    have "1 < c"
    proof (rule ccontr)
      assume "\<not> 1 < c"
      then have "c = 1" using less.prems by simp
      then have "depth (ns c) = 0" using wf_tree_root(3) [OF wf] by simp
      have "1 < r" using less.prems False \<open>c = 1\<close> by simp
      then show False
        using wf_tree_node(4) [OF wf _ less.prems(4)] less.prems(5) \<open>depth (ns c) = 0\<close> by simp
    qed
    note node = wf_tree_node [OF wf this less.prems(2)]
    have "1 < r"
      using less.prems node(4) wf_tree_root(3) [OF wf] by (metis One_nat_def Suc_lessI add_is_0
          less_one not_less_iff_gr_or_eq zero_neq_one)
    note rnode = wf_tree_node [OF wf this less.prems(4)]
    have step: "climb_both ns c pc r pr =
        climb_both ns (parent (ns c)) (Some c) (parent (ns r)) (Some r)"
      using False by (subst climb_both.simps) simp
    show ?thesis
    proof (cases "parent (ns c) = parent (ns r)")
      case True
      then have "branches ns c r c r" using False \<open>1 < c\<close> \<open>1 < r\<close> by (simp add: branches_def)
      moreover have "climb_both ns c pc r pr = Some (parent (ns c), Some c, Some r)"
        unfolding step using True by (subst climb_both.simps) simp
      ultimately show ?thesis using False by blast
    next
      case neq: False
      with less.IH [OF node(2,1) _ rnode(1), of "Some c" "Some r"] node rnode less.prems
      obtain x y where br: "branches ns (parent (ns c)) (parent (ns r)) x y" and
        "climb_both ns (parent (ns c)) (Some c) (parent (ns r)) (Some r) =
           Some (parent (ns x), Some x, Some y)"
        by force
      moreover have "branches ns c r x y"
        using br \<open>1 < c\<close> \<open>1 < r\<close> less.prems by (auto simp: branches_def anc_node_iff [OF wf])
      ultimately show ?thesis using False step by auto
    qed
  qed
qed

text \<open>The two phases together: they end, and they find the lowest common ancestor.\<close>

lemma branches_up:
  assumes "wf_tree ns m" "0 < a" "a \<le> m" "0 < b" "b \<le> m" "anc ns c a" "anc ns r b"
    "branches ns c r x y"
  shows "branches ns a b x y"
  using assms(8) anc_trans [OF assms(1-3) _ assms(6)] anc_trans [OF assms(1,4,5) _ assms(7)]
  by (auto simp: branches_def)

lemma is_lca_ancestor: "anc ns b a \<Longrightarrow> is_lca ns b a b"
  by (auto simp: is_lca_def)

lemma meet_spec:
  assumes wf: "wf_tree ns m" and a: "0 < a" "a \<le> m" and b: "0 < b" "b \<le> m"
  shows "(\<exists>pc pr. (anc ns a b \<or> anc ns b a) \<and>
            meet ns a b = Some (if anc ns b a then b else a, pc, pr)) \<or>
         (\<exists>x y. branches ns a b x y \<and> meet ns a b = Some (parent (ns x), Some x, Some y))"
proof (cases "depth (ns a) > depth (ns b)")
  case True
  from climb_spec [OF wf a, of "depth (ns b)" None] True obtain n' prev' where
    c: "climb ns (depth (ns b)) a None = Some (n', prev')" "anc ns n' a" "depth (ns n') = depth (ns b)"
    by auto
  note r = anc_range [OF wf a c(2)]
  have m: "meet ns a b = climb_both ns n' prev' b None"
    using True c(1) by (simp add: meet_def)
  from climb_both_spec [OF wf r(1) r(3) b c(3), of prev' None] show ?thesis
    using c(2) m branches_up [OF wf a b c(2) anc_refl] by auto
next
  case le: False
  show ?thesis
  proof (cases "depth (ns b) > depth (ns a)")
    case True
    from climb_spec [OF wf b, of "depth (ns a)" None] True obtain n' prev' where
      c: "climb ns (depth (ns a)) b None = Some (n', prev')" "anc ns n' b"
        "depth (ns n') = depth (ns a)"
      by auto
    note r = anc_range [OF wf b c(2)]
    have m: "meet ns a b = climb_both ns a None n' prev'"
      using True c(1) by (simp add: meet_def)
    have "\<not> anc ns b a" using anc_depth [OF wf a, of b] True by auto
    with climb_both_spec [OF wf a r(1) r(3) c(3) [symmetric], of None prev'] show ?thesis
      using c(2) m branches_up [OF wf a b anc_refl c(2)] by auto
  next
    case False
    with le have "depth (ns a) = depth (ns b)" "meet ns a b = climb_both ns a None b None"
      by (auto simp: meet_def)
    with climb_both_spec [OF wf a b, of None None] show ?thesis by auto
  qed
qed

lemma meet_lca:
  assumes "wf_tree ns m" "0 < a" "a \<le> m" "0 < b" "b \<le> m"
  shows "\<exists>l pc pr. meet ns a b = Some (l, pc, pr) \<and> is_lca ns l a b"
  using meet_spec [OF assms]
proof (elim disjE exE conjE)
  fix pc pr assume "meet ns a b = Some (if anc ns b a then b else a, pc, pr)" "anc ns b a"
  then show ?thesis using is_lca_ancestor [of b ns a] by auto
next
  fix pc pr assume "meet ns a b = Some (if anc ns b a then b else a, pc, pr)" "anc ns a b"
  then show ?thesis
    using is_lca_ancestor [of b ns a] is_lca_sym [OF is_lca_ancestor [of a ns b]]
    by (cases "anc ns b a") auto
next
  fix x y assume "branches ns a b x y" "meet ns a b = Some (parent (ns x), Some x, Some y)"
  then show ?thesis using branches_lca [OF assms] by auto
qed

lemma meet_steps:
  assumes "wf_tree ns m" "0 < a" "a \<le> m" "0 < b" "b \<le> m"
    and "type (ns a) = STEP" "type (ns b) = STEP" "a \<noteq> b"
  shows "\<exists>x y. branches ns a b x y \<and> meet ns a b = Some (parent (ns x), Some x, Some y)"
  using meet_spec [OF assms(1-5)] anc_not_step [OF assms(1-3), of b]
    anc_not_step [OF assms(1,4,5), of a] assms(6-8) by auto

end
