(* ===== verification/DpstOps.thy ===== *)
theory DpstOps
  imports Dpst
begin

text \<open>
  Correctness of the operations of \<open>AFTaskGraph\<close>: every \<open>Capture\<close> operation keeps the
  tree, the per-thread stacks, the map of spawned tasks and the LCA cache well formed,
  and only ever extends the tree; \<open>parallel\<close>, \<open>areParallel\<close> and \<open>LCA\<close> return, with
  or without a cache hit, what the tree says.
\<close>

section \<open>Growing trees\<close>

definition shape_le :: "AFTask \<Rightarrow> AFTask \<Rightarrow> bool" where
  "shape_le n n' \<longleftrightarrow>
     parent n' = parent n \<and> type n' = type n \<and> depth n' = depth n \<and> seq_num n' = seq_num n \<and>
     taskId n' = taskId n \<and> num_children n \<le> num_children n'"

definition allocated :: "AFTaskGraph \<Rightarrow> nat \<Rightarrow> bool" where
  "allocated g i \<longleftrightarrow> 0 < i \<and> i \<le> last_allocated_node g"

definition extends :: "AFTaskGraph \<Rightarrow> AFTaskGraph \<Rightarrow> bool" where
  "extends g g' \<longleftrightarrow>
     last_allocated_node g \<le> last_allocated_node g' \<and> tgraph_base g' = tgraph_base g \<and>
     (\<forall>i. allocated g i \<longrightarrow> shape_le (node g i) (node g' i))"

lemma shape_le_refl [simp, intro]: "shape_le n n"
  by (simp add: shape_le_def)

lemma shape_le_trans: "shape_le a b \<Longrightarrow> shape_le b c \<Longrightarrow> shape_le a c"
  by (auto simp: shape_le_def)

lemma extends_refl [simp, intro]: "extends g g"
  by (simp add: extends_def)

lemma extends_trans: "extends g h \<Longrightarrow> extends h k \<Longrightarrow> extends g k"
  unfolding extends_def allocated_def by (auto intro: shape_le_trans)

lemma extends_allocated: "extends g g' \<Longrightarrow> allocated g i \<Longrightarrow> allocated g' i"
  by (auto simp: extends_def allocated_def)

lemma extends_shape: "extends g g' \<Longrightarrow> allocated g i \<Longrightarrow> shape_le (node g i) (node g' i)"
  by (simp add: extends_def)

lemma extends_node:
  assumes "extends g g'" "allocated g i"
  shows "parent (node g' i) = parent (node g i)" "type (node g' i) = type (node g i)"
    "depth (node g' i) = depth (node g i)" "seq_num (node g' i) = seq_num (node g i)"
    "taskId (node g' i) = taskId (node g i)"
  using extends_shape [OF assms] by (simp_all add: shape_le_def)

lemma wf_tree_shape:
  assumes "wf_tree ns m" "\<And>i. 0 < i \<Longrightarrow> i \<le> m \<Longrightarrow> shape_le (ns i) (ns' i)"
  shows "wf_tree ns' m"
proof -
  note root = wf_tree_root [OF assms(1)]
  note sh = assms(2) [unfolded shape_le_def]
  show ?thesis
    unfolding wf_tree_def
  proof (intro conjI allI impI)
    show "0 < m" "type (ns' 1) = FINISH" "depth (ns' 1) = 0"
      using root sh [of 1] by auto
  next
    fix i assume i: "1 < i \<and> i \<le> m"
    then have i1: "1 < i" "i \<le> m" by auto
    note node = wf_tree_node [OF assms(1) i1]
    have p: "parent (ns i) \<le> m" using node(2) i by simp
    from sh [of i] sh [OF node(1) p] i node
    show "0 < parent (ns' i)" "parent (ns' i) < i" "type (ns' (parent (ns' i))) \<noteq> STEP"
      "depth (ns' i) = depth (ns' (parent (ns' i))) + 1"
      "seq_num (ns' i) < num_children (ns' (parent (ns' i)))"
      by auto
  next
    fix i j assume "1 < i \<and> i < j \<and> j \<le> m \<and> parent (ns' i) = parent (ns' j)"
    then show "seq_num (ns' i) < seq_num (ns' j)"
      using sh [of i] sh [of j] wf_tree_siblings [OF assms(1), of i j] by auto
  qed
qed

lemma wf_tree_new_node:
  assumes "wf_tree ns m" "0 < p" "p \<le> m" "type (ns p) \<noteq> STEP"
    and "parent r = p" "depth r = depth (ns p) + 1" "seq_num r = num_children (ns p)"
  shows "wf_tree (ns(Suc m := r, p := (ns p)\<lparr>num_children := num_children (ns p) + 1\<rparr>)) (Suc m)"
    (is "wf_tree ?ns _")
proof -
  note root = wf_tree_root [OF assms(1)]
  have old: "shape_le (ns i) (?ns i)" if "i \<le> m" for i
    using that by (auto simp: shape_le_def)
  then have wf: "wf_tree ?ns m" by (intro wf_tree_shape [OF assms(1)])
  have new: "?ns (Suc m) = r" using assms(3) by auto
  have sib: "seq_num (?ns i) < seq_num r" if "1 < i" "i \<le> m" "parent (?ns i) = p" for i
    using wf_tree_node(5) [OF assms(1), of i] that assms(7) by (auto split: if_splits)
  show ?thesis
    unfolding wf_tree_def
  proof (intro conjI allI impI)
    show "0 < Suc m" "type (?ns 1) = FINISH" "depth (?ns 1) = 0"
      using root wf_tree_root [OF wf] by auto
  next
    fix i assume i: "1 < i \<and> i \<le> Suc m"
    show "0 < parent (?ns i)" "parent (?ns i) < i" "type (?ns (parent (?ns i))) \<noteq> STEP"
      "depth (?ns i) = depth (?ns (parent (?ns i))) + 1"
      "seq_num (?ns i) < num_children (?ns (parent (?ns i)))"
    proof -
      consider "i = Suc m" | "i \<le> m" using i by linarith
      then have "0 < parent (?ns i) \<and> parent (?ns i) < i \<and> type (?ns (parent (?ns i))) \<noteq> STEP \<and>
        depth (?ns i) = depth (?ns (parent (?ns i))) + 1 \<and>
        seq_num (?ns i) < num_children (?ns (parent (?ns i)))"
      proof cases
        case 1
        then show ?thesis using assms(2-7) new by auto
      next
        case 2
        then show ?thesis using i wf_tree_node [OF wf, of i] by blast
      qed
      then show "0 < parent (?ns i)" "parent (?ns i) < i" "type (?ns (parent (?ns i))) \<noteq> STEP"
        "depth (?ns i) = depth (?ns (parent (?ns i))) + 1"
        "seq_num (?ns i) < num_children (?ns (parent (?ns i)))" by blast+
    qed
  next
    fix i j assume ij: "1 < i \<and> i < j \<and> j \<le> Suc m \<and> parent (?ns i) = parent (?ns j)"
    show "seq_num (?ns i) < seq_num (?ns j)"
    proof (cases "j = Suc m")
      case True
      then show ?thesis using ij new sib [of i] assms(5) by auto
    next
      case False
      then show ?thesis using ij wf_tree_siblings [OF wf, of i j] by simp
    qed
  qed
qed

section \<open>Paths and queries do not change when the tree grows\<close>

lemma root_path_extends:
  assumes "wf_tree (tgraph_nodes g) (last_allocated_node g)" "extends g g'" "allocated g i"
  shows "root_path (tgraph_nodes g') i = root_path (tgraph_nodes g) i"
proof -
  have "0 < i" "i \<le> last_allocated_node g" using assms(3) by (auto simp: allocated_def)
  with assms(1) show ?thesis
  proof (induction i rule: node_induct)
    case root
    show ?case by (simp add: root_path_root)
  next
    case (child i)
    have "allocated g i" using child.hyps by (simp add: allocated_def)
    then have "parent (node g' i) = parent (node g i)" using extends_node(1) [OF assms(2)] by blast
    then show ?case
      using child by (subst (1 2) root_path.simps) simp
  qed
qed

lemma anc_allocated:
  assumes "wf_tree (tgraph_nodes g) (last_allocated_node g)" "allocated g i"
    "anc (tgraph_nodes g) x i"
  shows "allocated g x"
  using anc_range [OF assms(1) _ _ assms(3)] assms(2) by (simp add: allocated_def)

lemma is_lca_extends:
  assumes "wf_tree (tgraph_nodes g) (last_allocated_node g)" "extends g g'"
    "allocated g a" "allocated g b"
  shows "is_lca (tgraph_nodes g') l a b \<longleftrightarrow> is_lca (tgraph_nodes g) l a b"
  using root_path_extends [OF assms(1,2)] anc_allocated [OF assms(1,3)] assms(3,4)
  unfolding is_lca_def by (metis (no_types, lifting))

lemma branches_extends:
  assumes "wf_tree (tgraph_nodes g) (last_allocated_node g)" "extends g g'"
    "allocated g a" "allocated g b"
  shows "branches (tgraph_nodes g') a b x y \<longleftrightarrow> branches (tgraph_nodes g) a b x y"
proof -
  have "parent (node g' z) = parent (node g z)" if "anc (tgraph_nodes g) z a \<or> anc (tgraph_nodes g) z b" for z
    using that anc_allocated [OF assms(1)] assms(3,4) extends_node(1) [OF assms(2)] by blast
  then show ?thesis
    using root_path_extends [OF assms(1,2)] assms(3,4) unfolding branches_def by auto
qed

lemma mhp_extends:
  assumes "wf_tree (tgraph_nodes g) (last_allocated_node g)" "extends g g'"
    "allocated g a" "allocated g b"
  shows "mhp (tgraph_nodes g') a b \<longleftrightarrow> mhp (tgraph_nodes g) a b"
proof -
  have *: "type (node g' z) = type (node g z) \<and> seq_num (node g' z) = seq_num (node g z)"
    if "anc (tgraph_nodes g) z a \<or> anc (tgraph_nodes g) z b" for z
    using that anc_allocated [OF assms(1)] assms(3,4) extends_node(2,4) [OF assms(2)] by blast
  show ?thesis
    unfolding mhp_def branches_extends [OF assms] root_path_extends [OF assms(1,2,3)]
      root_path_extends [OF assms(1,2,4)]
    using * by (intro bex_cong refl conj_cong) (auto simp: branches_def)
qed

section \<open>The invariant\<close>

definition is_step :: "AFTaskGraph \<Rightarrow> nat \<Rightarrow> bool" where
  "is_step g s \<longleftrightarrow> allocated g s \<and> type (node g s) = STEP"

text \<open>What the LCA cache may hold for a pair of node addresses.\<close>

definition pair_valid :: "AFTaskGraph \<Rightarrow> pair_fact" where
  "pair_valid g a b r l \<longleftrightarrow>
     (\<exists>i j. a = node_addr g i \<and> b = node_addr g j \<and> is_step g i \<and> is_step g j \<and> i \<noteq> j \<and>
            r = mhp (tgraph_nodes g) i j \<and> is_lca (tgraph_nodes g) l i j)"

definition wf_core :: "AFTaskGraph \<Rightarrow> bool" where
  "wf_core g \<longleftrightarrow>
     wf_tree (tgraph_nodes g) (last_allocated_node g) \<and>
     (\<forall>i. allocated g i \<and> cur_step (node g i) \<noteq> 0 \<longrightarrow>
        is_step g (cur_step (node g i)) \<and> parent (node g (cur_step (node g i))) = i \<and>
        taskId (node g (cur_step (node g i))) = taskId (node g i)) \<and>
     table_sound (pair_valid g) (lcaHashTable g)"

text \<open>
  A node that can be on top of a thread's stack: a task or finish scope with a current
  step (only the root may lack one).
\<close>

definition task_node :: "AFTaskGraph \<Rightarrow> nat \<Rightarrow> bool" where
  "task_node g i \<longleftrightarrow>
     allocated g i \<and> type (node g i) \<noteq> STEP \<and> (i \<noteq> 1 \<longrightarrow> cur_step (node g i) \<noteq> 0)"

definition wf_graph :: "AFTaskGraph \<Rightarrow> bool" where
  "wf_graph g \<longleftrightarrow>
     wf_core g \<and> (\<forall>t. \<forall>i \<in> set (cur g t). task_node g i) \<and>
     (\<forall>k i. temp_cur_map g k = Some i \<longrightarrow> task_node g i)"

lemma wf_core_tree: "wf_core g \<Longrightarrow> wf_tree (tgraph_nodes g) (last_allocated_node g)"
  by (simp add: wf_core_def)

lemma wf_core_table: "wf_core g \<Longrightarrow> table_sound (pair_valid g) (lcaHashTable g)"
  by (simp add: wf_core_def)

lemma wf_core_cur_step:
  assumes "wf_core g" "allocated g i" "cur_step (node g i) \<noteq> 0"
  shows "is_step g (cur_step (node g i))" "parent (node g (cur_step (node g i))) = i"
    "taskId (node g (cur_step (node g i))) = taskId (node g i)"
  using assms unfolding wf_core_def by blast+

lemma is_step_extends: "extends g g' \<Longrightarrow> is_step g s \<Longrightarrow> is_step g' s"
  by (simp add: is_step_def extends_allocated extends_node)

lemma pair_valid_extends:
  assumes "wf_tree (tgraph_nodes g) (last_allocated_node g)" "extends g g'" "pair_valid g a b r l"
  shows "pair_valid g' a b r l"
proof -
  from assms(3) obtain i j where ij: "a = node_addr g i" "b = node_addr g j" "is_step g i"
    "is_step g j" "i \<noteq> j" "r = mhp (tgraph_nodes g) i j" "is_lca (tgraph_nodes g) l i j"
    unfolding pair_valid_def by blast
  then have al: "allocated g i" "allocated g j" by (auto simp: is_step_def)
  have "node_addr g' k = node_addr g k" for k
    using assms(2) by (simp add: node_addr_def extends_def)
  then show ?thesis
    unfolding pair_valid_def
    using ij is_step_extends [OF assms(2)] mhp_extends [OF assms(1,2) al]
      is_lca_extends [OF assms(1,2) al] by metis
qed

lemma table_sound_extends:
  assumes "wf_tree (tgraph_nodes g) (last_allocated_node g)" "extends g g'"
    "table_sound (pair_valid g) t"
  shows "table_sound (pair_valid g') t"
  using lca_cache.sound_mono [OF assms(3)] pair_valid_extends [OF assms(1,2)] by blast

text \<open>
  Updates that leave the tree's shape alone: setting \<open>young_ns_child\<close>, the root flag
  or a valid \<open>cur_step\<close>.
\<close>

lemma extends_upd_node:
  assumes "\<And>n. shape_le n (f n)"
  shows "extends g (upd_node g i f)"
  using assms by (auto simp: extends_def upd_node_def)

lemma upd_node_frame [simp]:
  "last_allocated_node (upd_node g i f) = last_allocated_node g"
  "tgraph_base (upd_node g i f) = tgraph_base g" "cur (upd_node g i f) = cur g"
  "temp_cur_map (upd_node g i f) = temp_cur_map g"
  "tidToTaskIdMap (upd_node g i f) = tidToTaskIdMap g"
  "lcaHashTable (upd_node g i f) = lcaHashTable g"
  "tgraph_nodes (upd_node g i f) = (tgraph_nodes g)(i := f (tgraph_nodes g i))"
  "allocated (upd_node g i f) = allocated g"
  by (auto simp: upd_node_def allocated_def)

lemma wf_core_upd:
  assumes wf: "wf_core g" and sh: "\<And>n. shape_le n (f n)"
    and cs: "cur_step (f (node g i)) \<noteq> cur_step (node g i) \<Longrightarrow>
      is_step g (cur_step (f (node g i))) \<and> parent (node g (cur_step (f (node g i)))) = i \<and>
      taskId (node g (cur_step (f (node g i)))) = taskId (node g i)"
  shows "wf_core (upd_node g i f)"
proof -
  let ?g = "upd_node g i f"
  have ext: "extends g ?g" by (rule extends_upd_node [OF sh])
  have tree: "wf_tree (tgraph_nodes ?g) (last_allocated_node ?g)"
    using wf_tree_shape [OF wf_core_tree [OF wf], of "tgraph_nodes ?g"] sh by auto
  have ty: "type (f n) = type n" "parent (f n) = parent n" "taskId (f n) = taskId n" for n
    using sh [of n] by (auto simp: shape_le_def)
  have "is_step ?g (cur_step (node ?g j)) \<and> parent (node ?g (cur_step (node ?g j))) = j \<and>
        taskId (node ?g (cur_step (node ?g j))) = taskId (node ?g j)"
    if "allocated ?g j" "cur_step (node ?g j) \<noteq> 0" for j
    using that wf_core_cur_step [OF wf, of j] cs ty
    by (cases "cur_step (f (node g i)) = cur_step (node g i)")
      (auto simp: is_step_def split: if_splits)
  then show ?thesis
    using tree table_sound_extends [OF wf_core_tree [OF wf] ext wf_core_table [OF wf]]
    unfolding wf_core_def by auto
qed

end
