(* ===== verification/DpstInv.thy ===== *)
theory DpstInv
  imports DpstOps
begin

text \<open>
  One preservation lemma per operation of \<open>AFTaskGraph\<close>, and the correctness of the
  three queries.  The operations are compositions of \<open>new_child\<close>, \<open>new_step\<close> and
  updates of single fields, so the lemmas are too.
\<close>

section \<open>Building blocks\<close>

lemma restore_field [simp]:
  "g\<lparr>cur := cur g\<rparr> = g" "g\<lparr>lcaHashTable := lcaHashTable g\<rparr> = (g :: AFTaskGraph)"
  by (cases g; simp)+

text \<open>\<open>grows g g'\<close>: the tree is extended and no node loses its current step.\<close>

definition grows :: "AFTaskGraph \<Rightarrow> AFTaskGraph \<Rightarrow> bool" where
  "grows g g' \<longleftrightarrow> extends g g' \<and>
     (\<forall>i. allocated g i \<and> cur_step (node g i) \<noteq> 0 \<longrightarrow> cur_step (node g' i) \<noteq> 0)"

lemma grows_refl [simp, intro]: "grows g g"
  by (simp add: grows_def)

lemma grows_trans: "grows g h \<Longrightarrow> grows h k \<Longrightarrow> grows g k"
  unfolding grows_def by (meson extends_allocated extends_trans)

lemma grows_extends: "grows g g' \<Longrightarrow> extends g g'"
  by (simp add: grows_def)

lemma grows_allocated: "grows g g' \<Longrightarrow> allocated g i \<Longrightarrow> allocated g' i"
  by (auto dest: grows_extends extends_allocated)

lemma task_node_grows: "grows g g' \<Longrightarrow> task_node g i \<Longrightarrow> task_node g' i"
  unfolding grows_def task_node_def by (metis extends_allocated extends_node(2))

text \<open>The fields that are no part of the tree.\<close>

definition same_frame :: "AFTaskGraph \<Rightarrow> AFTaskGraph \<Rightarrow> bool" where
  "same_frame g g' \<longleftrightarrow>
     cur g' = cur g \<and> temp_cur_map g' = temp_cur_map g \<and> tidToTaskIdMap g' = tidToTaskIdMap g"

lemma same_frame_trans: "same_frame g h \<Longrightarrow> same_frame h k \<Longrightarrow> same_frame g k"
  by (simp add: same_frame_def)

lemma same_frame_refl [simp, intro]: "same_frame g g"
  by (simp add: same_frame_def)

lemma same_frame_upd_node [simp, intro]: "same_frame g (upd_node g i f)"
  by (simp add: same_frame_def)

lemma grows_upd_node:
  assumes "\<And>n. shape_le n (f n)" "\<And>n. cur_step n \<noteq> 0 \<Longrightarrow> cur_step (f n) \<noteq> 0"
  shows "grows g (upd_node g i f)"
  using extends_upd_node [OF assms(1)] assms(2) by (auto simp: grows_def)

lemma new_child_eq:
  assumes "new_child g nt tid p = Some (i, g')" "p \<le> last_allocated_node g"
  shows "i = Suc (last_allocated_node g) \<and>
    g' = g\<lparr>last_allocated_node := i,
      tgraph_nodes := (tgraph_nodes g)
        (i := \<lparr>taskId = tid, parent = p, cur_step = 0, type = nt,
               depth = depth (node g p) + 1, seq_num = num_children (node g p), num_children = 0,
               young_ns_child = NO_TYPE, sp_root_n_wt_flag = False\<rparr>,
         p := (node g p)\<lparr>num_children := num_children (node g p) + 1\<rparr>)\<rparr>"
proof -
  have ne: "p \<noteq> Suc (last_allocated_node g)" using assms(2) by simp
  have lim: "Suc (last_allocated_node g) < NUM_GRAPH_NODES"
    using assms(1) by (simp add: new_child_def create_node_def Let_def split: if_splits)
  show ?thesis
    using assms(1) ne lim
    unfolding new_child_def create_node_def initialize_task_def upd_node_def Let_def
    by (simp only: if_True bind.bind_lunit option.inject prod.case prod.inject) clarsimp
qed

lemma new_child_core:
  assumes wf: "wf_core g" and p: "allocated g p" "type (node g p) \<noteq> STEP"
    and nc: "new_child g nt tid p = Some (i, g')"
  shows "wf_core g'" "grows g g'" "same_frame g g'" "allocated g' i" "\<not> allocated g i"
    "type (node g' i) = nt" "parent (node g' i) = p" "taskId (node g' i) = tid"
    "cur_step (node g' i) = 0"
proof -
  have pl: "p \<le> last_allocated_node g" "0 < p" using p(1) by (auto simp: allocated_def)
  note eq = new_child_eq [OF nc pl(1)]
  have i: "i = Suc (last_allocated_node g)" using eq by blast
  have g': "last_allocated_node g' = i" "same_frame g g'" "tgraph_base g' = tgraph_base g"
    "lcaHashTable g' = lcaHashTable g"
    and ns: "tgraph_nodes g' = (tgraph_nodes g)
        (i := \<lparr>taskId = tid, parent = p, cur_step = 0, type = nt,
               depth = depth (node g p) + 1, seq_num = num_children (node g p), num_children = 0,
               young_ns_child = NO_TYPE, sp_root_n_wt_flag = False\<rparr>,
         p := (node g p)\<lparr>num_children := num_children (node g p) + 1\<rparr>)"
    using eq by (simp_all add: same_frame_def)
  have pi: "p \<noteq> i" using pl i by simp
  have tree: "wf_tree (tgraph_nodes g') (last_allocated_node g')"
    unfolding ns g'(1) i by (rule wf_tree_new_node [OF wf_core_tree [OF wf] pl(2,1) p(2)]) simp_all
  have ext: "extends g g'"
    using i g' pi by (auto simp: extends_def allocated_def ns shape_le_def)
  have cs: "cur_step (node g' j) = cur_step (node g j)" if "allocated g j" for j
    using that i by (auto simp: ns allocated_def)
  have new: "cur_step (node g' i) = 0" using pi by (simp add: ns)
  have step: "is_step g' (cur_step (node g' j)) \<and> parent (node g' (cur_step (node g' j))) = j \<and>
      taskId (node g' (cur_step (node g' j))) = taskId (node g' j)"
    if "allocated g' j" "cur_step (node g' j) \<noteq> 0" for j
  proof -
    have "j \<noteq> i" using that(2) new by auto
    then have j: "allocated g j" using that(1) i g'(1) by (auto simp: allocated_def)
    note s = wf_core_cur_step [OF wf j] cs [OF j] that(2)
    have "is_step g (cur_step (node g j))" using s by simp
    then have a: "allocated g (cur_step (node g j))" by (simp add: is_step_def)
    show ?thesis
      using s is_step_extends [OF ext] extends_node [OF ext a] extends_node(5) [OF ext j] by simp
  qed
  show "wf_core g'"
    unfolding wf_core_def using tree step table_sound_extends [OF wf_core_tree [OF wf] ext
        wf_core_table [OF wf]] g'(4) by auto
  show "grows g g'" using ext cs by (simp add: grows_def)
  show "same_frame g g'" by (rule g'(2))
  show "allocated g' i" "\<not> allocated g i" using i g'(1) by (auto simp: allocated_def)
  show "type (node g' i) = nt" "parent (node g' i) = p" "taskId (node g' i) = tid"
    "cur_step (node g' i) = 0" using pi by (simp_all add: ns)
qed

lemma new_step_core:
  assumes wf: "wf_core g" and p: "allocated g p" "type (node g p) \<noteq> STEP"
    and ns: "new_step g p = Some g'"
  shows "wf_core g'" "grows g g'" "same_frame g g'" "cur_step (node g' p) \<noteq> 0"
proof -
  from ns obtain s g1 where s: "new_child g STEP (taskId (node g p)) p = Some (s, g1)"
    and g': "g' = upd_node g1 p (\<lambda>n. n\<lparr>cur_step := s\<rparr>)"
    by (auto simp: new_step_def bind_eq_Some_conv)
  note c = new_child_core [OF wf p s]
  have s0: "s \<noteq> 0" using c(4) by (simp add: allocated_def)
  have tid: "taskId (node g1 p) = taskId (node g p)"
    using extends_node(5) [OF grows_extends [OF c(2)] p(1)] .
  show "wf_core g'"
    unfolding g' by (rule wf_core_upd [OF c(1)])
      (use c tid in \<open>auto simp: shape_le_def is_step_def\<close>)
  have "grows g1 g'" unfolding g' by (rule grows_upd_node) (auto simp: shape_le_def s0)
  then show "grows g g'" using c(2) grows_trans by blast
  show "same_frame g g'" using c(3) g' same_frame_trans same_frame_upd_node by blast
  show "cur_step (node g' p) \<noteq> 0" using s0 by (simp add: g')
qed

text \<open>Fields outside the tree do not matter for the core invariant.\<close>

lemma wf_core_frame_irrelevant [simp]:
  "wf_core (g\<lparr>cur := c\<rparr>) = wf_core g"
  "wf_core (g\<lparr>temp_cur_map := tm\<rparr>) = wf_core g"
  "wf_core (g\<lparr>tidToTaskIdMap := ids\<rparr>) = wf_core g"
  by (simp_all add: wf_core_def is_step_def allocated_def pair_valid_def [abs_def] node_addr_def)

lemma grows_frame_irrelevant [simp]:
  "grows g (h\<lparr>cur := c\<rparr>) = grows g h" "grows g (h\<lparr>temp_cur_map := tm\<rparr>) = grows g h"
  "grows g (h\<lparr>tidToTaskIdMap := ids\<rparr>) = grows g h"
  by (simp_all add: grows_def extends_def)

lemma task_node_frame_irrelevant [simp]:
  "task_node (g\<lparr>cur := c\<rparr>) i = task_node g i"
  "task_node (g\<lparr>temp_cur_map := tm\<rparr>) i = task_node g i"
  "task_node (g\<lparr>tidToTaskIdMap := ids\<rparr>) i = task_node g i"
  by (simp_all add: task_node_def allocated_def)

lemma thread_top_Some: "thread_top st t = Some x \<longleftrightarrow> t < NUM_THREADS \<and> (\<exists>xs. st t = x # xs)"
  by (auto simp: thread_top_def)

lemma pop_Some: "pop st t = Some st' \<longleftrightarrow>
    t < NUM_THREADS \<and> (\<exists>x xs. st t = x # xs \<and> st' = st(t := xs))"
  by (auto simp: pop_def)

lemma wf_graph_core: "wf_graph g \<Longrightarrow> wf_core g"
  by (simp add: wf_graph_def)

lemma wf_graph_top: "wf_graph g \<Longrightarrow> thread_top (cur g) t = Some i \<Longrightarrow> task_node g i"
  by (auto simp: wf_graph_def thread_top_Some) (metis list.set_intros(1))

lemma wf_graph_pop:
  "wf_graph g \<Longrightarrow> pop (cur g) t = Some st \<Longrightarrow> wf_graph (g\<lparr>cur := st\<rparr>)"
  by (auto simp: wf_graph_def pop_Some) (metis list.set_intros(2))

lemma task_node_allocated: "task_node g i \<Longrightarrow> allocated g i"
  by (simp add: task_node_def)

lemma task_node_type: "task_node g i \<Longrightarrow> type (node g i) \<noteq> STEP"
  by (simp add: task_node_def)

text \<open>
  Putting the pieces together: the tree grew, the stacks and the map changed only by
  task nodes of the new graph.
\<close>

lemma wf_graph_grows:
  assumes "wf_graph g" "wf_core g'" "grows g g'"
    and "\<And>t i. i \<in> set (cur g' t) \<Longrightarrow> i \<in> set (cur g t) \<or> task_node g' i"
    and "\<And>k i. temp_cur_map g' k = Some i \<Longrightarrow> temp_cur_map g k = Some i \<or> task_node g' i"
  shows "wf_graph g'"
  using assms task_node_grows [OF assms(3)] unfolding wf_graph_def by blast

section \<open>The operations\<close>

lemma AFTaskGraph_new_wf:
  assumes "AFTaskGraph_new base = Some g"
  shows "wf_graph g"
  using assms
  by (auto simp: AFTaskGraph_new_def create_node_def initialize_task_def upd_node_def Let_def
      bind_eq_Some_conv wf_graph_def wf_core_def wf_tree_def allocated_def task_node_def
      table_sound_def createHashTable_def push_def split: if_splits)

lemma CaptureWait_wf:
  assumes "wf_graph g" "CaptureWait g t = Some g'"
  shows "wf_graph g' \<and> grows g g'"
proof -
  from assms(2) obtain i where i: "thread_top (cur g) t = Some i" "new_step g i = Some g'"
    by (auto simp: CaptureWait_def bind_eq_Some_conv)
  have tn: "task_node g i" using wf_graph_top [OF assms(1) i(1)] .
  note c = new_step_core [OF wf_graph_core [OF assms(1)] task_node_allocated [OF tn]
      task_node_type [OF tn] i(2)]
  show ?thesis
    using wf_graph_grows [OF assms(1) c(1,2)] c(2,3) by (auto simp: same_frame_def)
qed

lemma CaptureWaitOnly_wf:
  assumes "wf_graph g" "CaptureWaitOnly g t = Some g'"
  shows "wf_graph g' \<and> grows g g'"
proof -
  from assms(2) obtain st where st: "pop (cur g) t = Some st" "CaptureWait (g\<lparr>cur := st\<rparr>) t = Some g'"
    by (auto simp: CaptureWaitOnly_def CaptureWait_def bind_eq_Some_conv Let_def)
  have "wf_graph g' \<and> grows (g\<lparr>cur := st\<rparr>) g'"
    using CaptureWait_wf wf_graph_pop [OF assms(1) st(1)] st(2) by blast
  then show ?thesis by (auto simp: grows_def extends_def allocated_def)
qed

lemma CaptureExecute_wf:
  assumes "wf_graph g" "CaptureExecute g t k = Some g'"
  shows "wf_graph g' \<and> grows g g'"
proof -
  from assms(2) obtain i where i: "temp_cur_map g k = Some i"
    and g': "g' = g\<lparr>temp_cur_map := (temp_cur_map g)(k := None), cur := push (cur g) t i,
                 tidToTaskIdMap := push (tidToTaskIdMap g) t (taskId (node g i))\<rparr>"
    by (auto simp: CaptureExecute_def bind_eq_Some_conv Let_def split: if_splits)
  have "task_node g i" using assms(1) i by (auto simp: wf_graph_def)
  then show ?thesis
    using assms(1) unfolding g' wf_graph_def by (auto simp: push_def)
qed

lemma CaptureReturn_wf:
  assumes "wf_graph g" "CaptureReturn g t = Some g'"
  shows "wf_graph g' \<and> grows g g'"
proof -
  have ids: "wf_graph (g\<lparr>tidToTaskIdMap := ids\<rparr>)" for ids
    using assms(1) by (auto simp: wf_graph_def)
  from assms(2) obtain ids st1 st where
    "g' = g\<lparr>tidToTaskIdMap := ids, cur := st\<rparr>" "pop st1 t = Some st"
    "st1 = cur g \<or> pop (cur g) t = Some st1"
    by (auto simp: CaptureReturn_def bind_eq_Some_conv Let_def split: if_splits)
  then show ?thesis
    using wf_graph_pop [OF ids [of ids], of t] wf_graph_pop [of "g\<lparr>tidToTaskIdMap := ids, cur := st1\<rparr>" t]
    by auto
qed

lemma CaptureSpawnAndWait_wf:
  assumes "wf_graph g" "CaptureSpawnAndWait g t k = Some g'"
  shows "wf_graph g' \<and> grows g g'"
proof -
  from assms(2) obtain i f g1 g2 where i: "thread_top (cur g) t = Some i"
    and f: "new_child g FINISH k i = Some (f, g1)"
    and s: "new_step (upd_node (upd_node g1 i (\<lambda>n. n\<lparr>young_ns_child := FINISH\<rparr>)) f
              (\<lambda>n. n\<lparr>sp_root_n_wt_flag := True\<rparr>)) f = Some g2"
    and g': "g' = g2\<lparr>temp_cur_map := map_insert (temp_cur_map g2) k f\<rparr>"
    by (auto simp: CaptureSpawnAndWait_def bind_eq_Some_conv Let_def)
  have tn: "task_node g i" using wf_graph_top [OF assms(1) i] .
  note c = new_child_core [OF wf_graph_core [OF assms(1)] task_node_allocated [OF tn]
      task_node_type [OF tn] f]
  let ?u = "upd_node (upd_node g1 i (\<lambda>n. n\<lparr>young_ns_child := FINISH\<rparr>)) f
              (\<lambda>n. n\<lparr>sp_root_n_wt_flag := True\<rparr>)"
  have u: "wf_core ?u" by (intro wf_core_upd c(1)) (auto simp: shape_le_def)
  have gu: "grows g1 ?u"
    by (rule grows_trans; rule grows_upd_node) (auto simp: shape_le_def)
  have uf: "allocated ?u f" "type (node ?u f) \<noteq> STEP"
    using c(4,6) by auto
  note n = new_step_core [OF u uf s]
  have gr: "grows g g2" using c(2) gu n(2) grows_trans by blast
  have fr: "same_frame g g2" using c(3) n(3) same_frame_trans same_frame_upd_node by metis
  have "task_node g2 f"
    using uf n(2,4) extends_node(2) [OF grows_extends [OF n(2)] uf(1)] grows_allocated
    by (auto simp: task_node_def)
  then have "wf_graph g'"
    using wf_graph_grows [OF assms(1), of g'] n(1) gr fr
    by (auto simp: g' same_frame_def elim: map_insert_cases)
  then show ?thesis using gr g' by simp
qed

text \<open>The branch of \<open>CaptureSpawnOnly\<close> that opens a finish scope first.\<close>

lemma spawn_branch_wf:
  assumes wf: "wf_core g" and i: "task_node g i"
    and f: "new_child g FINISH tid i = Some (f, g1)"
    and n: "new_child (upd_node g1 i (\<lambda>n. n\<lparr>young_ns_child := FINISH\<rparr>)) ASYNC k f = Some (a, g2)"
  shows "wf_core (upd_node g2 f (\<lambda>n. n\<lparr>young_ns_child := ASYNC\<rparr>))"
    "grows g (upd_node g2 f (\<lambda>n. n\<lparr>young_ns_child := ASYNC\<rparr>))"
    "same_frame g g2" "allocated g2 a" "type (node g2 a) = ASYNC"
    "allocated g2 f" "type (node g2 f) = FINISH" "a \<noteq> f"
proof -
  note c1 = new_child_core [OF wf task_node_allocated [OF i] task_node_type [OF i] f]
  let ?u = "upd_node g1 i (\<lambda>n. n\<lparr>young_ns_child := FINISH\<rparr>)"
  have u: "wf_core ?u" by (intro wf_core_upd c1(1)) (auto simp: shape_le_def)
  have gu: "grows g1 ?u" by (rule grows_upd_node) (auto simp: shape_le_def)
  have uf: "allocated ?u f" "type (node ?u f) = FINISH" using c1(4,6) by auto
  note c2 = new_child_core [OF u uf(1) _ n]
  have c2': "wf_core g2" "grows ?u g2" "same_frame ?u g2" "allocated g2 a" "\<not> allocated ?u a"
    "type (node g2 a) = ASYNC"
    using c2 uf(2) by auto
  show "wf_core (upd_node g2 f (\<lambda>n. n\<lparr>young_ns_child := ASYNC\<rparr>))"
    by (intro wf_core_upd c2'(1)) (auto simp: shape_le_def)
  have "grows g2 (upd_node g2 f (\<lambda>n. n\<lparr>young_ns_child := ASYNC\<rparr>))"
    by (rule grows_upd_node) (auto simp: shape_le_def)
  then show "grows g (upd_node g2 f (\<lambda>n. n\<lparr>young_ns_child := ASYNC\<rparr>))"
    using c1(2) gu c2'(2) grows_trans by meson
  show "same_frame g g2" using c1(3) c2'(3) same_frame_trans same_frame_upd_node by meson
  show "allocated g2 a" "type (node g2 a) = ASYNC" by (fact c2')+
  show "allocated g2 f" using uf(1) c2'(2) grows_allocated by blast
  show "type (node g2 f) = FINISH"
    using extends_node(2) [OF grows_extends [OF c2'(2)] uf(1)] uf(2) by simp
  show "a \<noteq> f" using c2'(5) uf(1) by blast
qed

lemma spawn_branch_async_wf:
  assumes wf: "wf_core g" and i: "task_node g i" and n: "new_child g ASYNC k i = Some (a, g1)"
  shows "wf_core (upd_node g1 i (\<lambda>n. n\<lparr>young_ns_child := ASYNC\<rparr>))"
    "grows g (upd_node g1 i (\<lambda>n. n\<lparr>young_ns_child := ASYNC\<rparr>))"
    "same_frame g g1" "allocated g1 a" "type (node g1 a) = ASYNC"
    "allocated g1 i" "type (node g1 i) \<noteq> STEP" "a \<noteq> i"
proof -
  note c = new_child_core [OF wf task_node_allocated [OF i] task_node_type [OF i] n]
  show "wf_core (upd_node g1 i (\<lambda>n. n\<lparr>young_ns_child := ASYNC\<rparr>))"
    by (intro wf_core_upd c(1)) (auto simp: shape_le_def)
  have "grows g1 (upd_node g1 i (\<lambda>n. n\<lparr>young_ns_child := ASYNC\<rparr>))"
    by (rule grows_upd_node) (auto simp: shape_le_def)
  then show "grows g (upd_node g1 i (\<lambda>n. n\<lparr>young_ns_child := ASYNC\<rparr>))"
    using c(2) grows_trans by blast
  show "same_frame g g1" "allocated g1 a" "type (node g1 a) = ASYNC" by (fact c)+
  show "allocated g1 i" using task_node_allocated [OF i] c(2) grows_allocated by blast
  show "type (node g1 i) \<noteq> STEP"
    using extends_node(2) [OF grows_extends [OF c(2)] task_node_allocated [OF i]]
      task_node_type [OF i] by simp
  show "a \<noteq> i" using c(5) task_node_allocated [OF i] by blast
qed

text \<open>The common tail: a step for the new task, a step for the spawner's scope.\<close>

lemma spawn_tail_wf:
  assumes wf: "wf_core g" and a: "allocated g a" "type (node g a) \<noteq> STEP"
    and c: "allocated g c" "type (node g c) \<noteq> STEP"
    and s: "new_step g a = Some g1" "new_step g1 c = Some g2"
  shows "wf_core g2" "grows g g2" "same_frame g g2" "task_node g2 a" "task_node g2 c"
proof -
  note n1 = new_step_core [OF wf a s(1)]
  have c1: "allocated g1 c" "type (node g1 c) \<noteq> STEP"
    using c n1(2) grows_allocated extends_node(2) [OF grows_extends [OF n1(2)] c(1)] by auto
  note n2 = new_step_core [OF n1(1) c1 s(2)]
  show gr: "wf_core g2" "grows g g2" "same_frame g g2"
    using n1 n2 grows_trans same_frame_trans by blast+
  have "task_node g1 a"
    using a n1(2,4) extends_node(2) [OF grows_extends [OF n1(2)] a(1)] grows_allocated
    by (auto simp: task_node_def)
  then show "task_node g2 a" using task_node_grows [OF n2(2)] by blast
  show "task_node g2 c"
    using c1 n2(2,4) extends_node(2) [OF grows_extends [OF n2(2)] c1(1)] grows_allocated
    by (auto simp: task_node_def)
qed

lemma CaptureSpawnOnly_wf:
  assumes "wf_graph g" "CaptureSpawnOnly g t k = Some g'"
  shows "wf_graph g' \<and> grows g g'"
proof -
  from assms(2) obtain i where i: "thread_top (cur g) t = Some i"
    by (auto simp: CaptureSpawnOnly_def bind_eq_Some_conv)
  have tn: "task_node g i" using wf_graph_top [OF assms(1) i] .
  note core = wf_graph_core [OF assms(1)]
  obtain h a c st g1 g2 where h: "wf_core h" "grows g h" "same_frame g h"
    and ac: "allocated h a" "type (node h a) \<noteq> STEP" "allocated h c" "type (node h c) \<noteq> STEP"
    and st: "st = cur h \<or> st = push (cur h) t c"
    and tail: "new_step (h\<lparr>cur := st\<rparr>) a = Some g1" "new_step g1 c = Some g2"
    and g': "g' = g2\<lparr>temp_cur_map := map_insert (temp_cur_map g2) k a\<rparr>"
  proof (cases "checkForStep (node g i)")
    case True
    with assms(2) i obtain a h0 g1 g2 where n: "new_child g ASYNC k i = Some (a, h0)"
      and t1: "new_step (upd_node h0 i (\<lambda>n. n\<lparr>young_ns_child := ASYNC\<rparr>)) a = Some g1"
      and t2: "new_step g1 i = Some g2"
      and g': "g' = g2\<lparr>temp_cur_map := map_insert (temp_cur_map g2) k a\<rparr>"
      by (auto simp: CaptureSpawnOnly_def bind_eq_Some_conv Let_def)
    note b = spawn_branch_async_wf [OF core tn n]
    let ?h = "upd_node h0 i (\<lambda>n. n\<lparr>young_ns_child := ASYNC\<rparr>)"
    have "same_frame g ?h" using b(3) same_frame_trans same_frame_upd_node by blast
    moreover have "?h\<lparr>cur := cur ?h\<rparr> = ?h" by (rule restore_field)
    ultimately show thesis
      using that [OF b(1,2), of a i "cur ?h" g1 g2] b(4-8) t1 t2 g'
      by (simp del: upd_node_frame(3))
  next
    case False
    with assms(2) i obtain f h0 a h1 g1 g2 where
      f: "new_child g FINISH (taskId (node g i)) i = Some (f, h0)"
      and n: "new_child (upd_node h0 i (\<lambda>n. n\<lparr>young_ns_child := FINISH\<rparr>)) ASYNC k f = Some (a, h1)"
      and t1: "new_step ((upd_node h1 f (\<lambda>n. n\<lparr>young_ns_child := ASYNC\<rparr>))
                  \<lparr>cur := push (cur h1) t f\<rparr>) a = Some g1"
      and t2: "new_step g1 f = Some g2"
      and g': "g' = g2\<lparr>temp_cur_map := map_insert (temp_cur_map g2) k a\<rparr>"
      by (auto simp: CaptureSpawnOnly_def bind_eq_Some_conv Let_def)
    note b = spawn_branch_wf [OF core tn f n]
    let ?h = "upd_node h1 f (\<lambda>n. n\<lparr>young_ns_child := ASYNC\<rparr>)"
    have "same_frame g ?h" using b(3) same_frame_trans same_frame_upd_node by blast
    then show thesis
      using that [OF b(1,2), of a f "push (cur ?h) t f" g1 g2] b t1 t2 g' by simp
  qed
  have h': "wf_core (h\<lparr>cur := st\<rparr>)" "allocated (h\<lparr>cur := st\<rparr>) a" "type (node (h\<lparr>cur := st\<rparr>) a) \<noteq> STEP"
    "allocated (h\<lparr>cur := st\<rparr>) c" "type (node (h\<lparr>cur := st\<rparr>) c) \<noteq> STEP"
    using h(1) ac by (auto simp: allocated_def)
  note r = spawn_tail_wf [OF h'(1-5) tail]
  have "grows g (h\<lparr>cur := st\<rparr>)" using h(2) by simp
  then have gr: "grows g g2" using r(2) grows_trans by blast
  have fr: "cur g2 = st" "temp_cur_map g2 = temp_cur_map g"
    using r(3) h(3) by (auto simp: same_frame_def)
  have cur: "i \<in> set (cur g u) \<or> task_node g' i" if "i \<in> set (cur g' u)" for i u
    using that fr(1) st h(3) r(5)
    by (auto simp: g' same_frame_def push_def split: if_splits)
  have tmp: "temp_cur_map g j = Some i \<or> task_node g' i" if "temp_cur_map g' j = Some i" for i j
    using that fr(2) r(4) by (auto simp: g' elim: map_insert_cases)
  have "wf_graph g'"
    using wf_graph_grows [OF assms(1), of g'] r(1) gr cur tmp by (simp add: g')
  then show ?thesis using gr g' by simp
qed

lemma CaptureSetTaskId_wf:
  "wf_graph g \<Longrightarrow> CaptureSetTaskId g t k sp = Some g' \<Longrightarrow> wf_graph g' \<and> grows g g'"
  using CaptureSpawnOnly_wf [of g t k g'] CaptureSpawnAndWait_wf [of g t k g']
  by (cases sp) (simp_all add: CaptureSetTaskId_def)

section \<open>The queries\<close>

lemma node_addr_inj [simp]: "node_addr g i = node_addr g j \<longleftrightarrow> i = j"
  by (simp add: node_addr_def)

lemma is_step_range: "is_step g s \<Longrightarrow> 0 < s \<and> s \<le> last_allocated_node g \<and> type (node g s) = STEP"
  by (simp add: is_step_def allocated_def)

lemma pair_valid_answer:
  "pair_valid g (node_addr g i) (node_addr g j) r l \<Longrightarrow>
     r = mhp (tgraph_nodes g) i j \<and> is_lca (tgraph_nodes g) l i j"
  by (auto simp: pair_valid_def)

lemma wf_core_table_update:
  assumes "wf_core g" "table_sound (pair_valid g) t"
  shows "wf_core (g\<lparr>lcaHashTable := t\<rparr>)"
  using assms by (simp add: wf_core_def is_step_def allocated_def pair_valid_def [abs_def] node_addr_def)

lemma parallel_correct:
  assumes wf: "wf_core g" and a: "is_step g a" and b: "is_step g b" and ab: "a \<noteq> b"
  shows "\<exists>t. parallel g a b = Some (mhp (tgraph_nodes g) a b, g\<lparr>lcaHashTable := t\<rparr>) \<and>
             wf_core (g\<lparr>lcaHashTable := t\<rparr>)"
proof -
  note tree = wf_core_tree [OF wf] and tab = wf_core_table [OF wf]
  have a': "0 < a" "a \<le> last_allocated_node g" "type (node g a) = STEP"
    and b': "0 < b" "b \<le> last_allocated_node g" "type (node g b) = STEP"
    using is_step_range [OF a] is_step_range [OF b] by auto
  have sym: "mhp (tgraph_nodes g) a b = mhp (tgraph_nodes g) b a"
    by (rule mhp_sym [OF tree a'(1,2) b'(1,2)])
  let ?ca = "node_addr g a" and ?ra = "node_addr g b"
  show ?thesis
  proof (cases "checkParallel (lcaHashTable g) ?ca ?ra")
    case NA
    obtain x y where br: "branches (tgraph_nodes g) a b x y" and
      m: "meet (tgraph_nodes g) a b = Some (parent (node g x), Some x, Some y)"
      using meet_steps [OF tree a'(1,2) b'(1,2) a'(3) b'(3) ab] by blast
    define l where "l = parent (node g x)"
    have lca: "is_lca (tgraph_nodes g) l a b"
      unfolding l_def by (rule branches_lca [OF tree a'(1,2) b'(1,2) br])
    let ?r = "mhp (tgraph_nodes g) a b"
    define t where "t = updateEntry (updateEntry (lcaHashTable g) ?ca ?ra ?r l) ?ra ?ca ?r l"
    have "pair_valid g ?ca ?ra ?r l" "pair_valid g ?ra ?ca ?r l"
      unfolding pair_valid_def using a b ab lca is_lca_sym [OF lca] sym by blast+
    then have t: "table_sound (pair_valid g) t"
      unfolding t_def by (rule lca_cache.update_both_sound [OF tab])
    have "parallel g a b = Some (?r, g\<lparr>lcaHashTable := t\<rparr>)"
      using NA m mhp_branches [OF tree a'(1,2) b'(1,2) br]
      by (simp add: parallel_def Let_def t_def l_def split: if_splits)
    then show ?thesis using wf_core_table_update [OF wf t] by blast
  next
    case TRUE
    obtain l where "pair_valid g ?ca ?ra True l \<or> pair_valid g ?ra ?ca True l"
      using lca_cache.check_hit [OF tab, of ?ca ?ra True] TRUE by auto
    then have "mhp (tgraph_nodes g) a b"
      using pair_valid_answer sym by blast
    then have "parallel g a b = Some (mhp (tgraph_nodes g) a b, g)"
      using TRUE by (simp add: parallel_def)
    then show ?thesis using wf by (intro exI [of _ "lcaHashTable g"]) simp
  next
    case FALSE
    obtain l where "pair_valid g ?ca ?ra False l \<or> pair_valid g ?ra ?ca False l"
      using lca_cache.check_hit [OF tab, of ?ca ?ra False] FALSE by auto
    then have "\<not> mhp (tgraph_nodes g) a b"
      using pair_valid_answer sym by blast
    then have "parallel g a b = Some (mhp (tgraph_nodes g) a b, g)"
      using FALSE by (simp add: parallel_def)
    then show ?thesis using wf by (intro exI [of _ "lcaHashTable g"]) simp
  qed
qed

lemma LCA_correct:
  assumes wf: "wf_core g" and a: "allocated g a" and b: "allocated g b"
  shows "\<exists>l. LCA g a b = Some l \<and> is_lca (tgraph_nodes g) l a b"
proof (cases "getLCA (lcaHashTable g) (node_addr g a) (node_addr g b)")
  case None
  then show ?thesis
    using meet_lca [OF wf_core_tree [OF wf], of a b] a b by (auto simp: LCA_def allocated_def)
next
  case (Some l)
  obtain r where "pair_valid g (node_addr g a) (node_addr g b) r l \<or>
      pair_valid g (node_addr g b) (node_addr g a) r l"
    using lca_cache.ancestor_hit [OF wf_core_table [OF wf] Some] by blast
  then have "is_lca (tgraph_nodes g) l a b"
    using pair_valid_answer is_lca_sym by blast
  then show ?thesis using Some by (simp add: LCA_def)
qed

end
