(* ===== verification/Shadow.thy ===== *)
theory Shadow
  imports Prelude
begin

unbundle bit_operations_syntax

text \<open>
  The two-level shadow space every detector keeps its per-address metadata in: a primary
  table of 1024 pointers, each null or pointing to a zero-filled page of \<open>2 ^ 22\<close> cells
  obtained from \<open>mmap\<close> at the first access.  Primary index and page offset are computed
  from the address with shifts and masks.  The locale states what the detectors rely on;
  it is interpreted on the code's table.
\<close>

section \<open>Index computation\<close>

definition SS_PRIMARY_TABLE_ENTRIES :: nat where
  "SS_PRIMARY_TABLE_ENTRIES = 1024"

definition SS_SEC_TABLE_ENTRIES :: nat where
  "SS_SEC_TABLE_ENTRIES = 4 * 1024 * 1024"

definition primary_index :: "ADDRINT \<Rightarrow> nat" where
  "primary_index addr = unat (drop_bit 22 addr AND 0x3ff)"

definition page_offset :: "ADDRINT \<Rightarrow> nat" where
  "page_offset addr = unat (addr AND 0x3fffff)"

lemma and_3ff: "(w :: 64 word) AND 0x3ff = take_bit 10 w"
  by (simp add: take_bit_eq_mask mask_eq_exp_minus_1)

lemma and_3fffff: "(w :: 64 word) AND 0x3fffff = take_bit 22 w"
  by (simp add: take_bit_eq_mask mask_eq_exp_minus_1)

lemma unat_take_bit_less:
  "unat (take_bit n (w :: 'a::len word)) < 2 ^ n"
  by (simp add: unsigned_take_bit_eq)

lemma primary_index_bound: "primary_index addr < SS_PRIMARY_TABLE_ENTRIES"
  using unat_take_bit_less [of 10 "drop_bit 22 addr"]
  by (simp add: primary_index_def and_3ff SS_PRIMARY_TABLE_ENTRIES_def)

lemma page_offset_bound: "page_offset addr < SS_SEC_TABLE_ENTRIES"
  using unat_take_bit_less [of 22 addr]
  by (simp add: page_offset_def and_3fffff SS_SEC_TABLE_ENTRIES_def)

definition same_cell :: "ADDRINT \<Rightarrow> ADDRINT \<Rightarrow> bool" where
  "same_cell a b \<longleftrightarrow> primary_index a = primary_index b \<and> page_offset a = page_offset b"

lemma take_bit_split:
  "take_bit 32 a = take_bit 32 b \<longleftrightarrow>
     take_bit 10 (drop_bit 22 a) = take_bit 10 (drop_bit 22 b) \<and> take_bit 22 a = take_bit 22 b"
  for a b :: "64 word"
proof (intro iffI conjI)
  assume *: "take_bit 32 a = take_bit 32 b"
  have bits: "bit a n = bit b n" if "n < 32" for n
  proof -
    have "bit (take_bit 32 a) n = bit (take_bit 32 b) n" by (simp only: *)
    with that show ?thesis by (simp add: bit_take_bit_iff)
  qed
  show "take_bit 10 (drop_bit 22 a) = take_bit 10 (drop_bit 22 b)"
    by (rule bit_eqI) (auto simp: bit_take_bit_iff bit_drop_bit_eq bits)
  show "take_bit 22 a = take_bit 22 b"
    by (rule bit_eqI) (auto simp: bit_take_bit_iff bits)
next
  assume "take_bit 10 (drop_bit 22 a) = take_bit 10 (drop_bit 22 b) \<and> take_bit 22 a = take_bit 22 b"
  then have hi: "take_bit 10 (drop_bit 22 a) = take_bit 10 (drop_bit 22 b)"
    and lo: "take_bit 22 a = take_bit 22 b" by auto
  have hib: "bit a (n + 22) = bit b (n + 22)" if "n < 10" for n
  proof -
    have "bit (take_bit 10 (drop_bit 22 a)) n = bit (take_bit 10 (drop_bit 22 b)) n"
      by (simp only: hi)
    with that show ?thesis by (simp add: bit_take_bit_iff bit_drop_bit_eq add.commute)
  qed
  have lob: "bit a n = bit b n" if "n < 22" for n
  proof -
    have "bit (take_bit 22 a) n = bit (take_bit 22 b) n" by (simp only: lo)
    with that show ?thesis by (simp add: bit_take_bit_iff)
  qed
  have "bit a n = bit b n" if "n < 32" for n
    using lob [of n] hib [of "n - 22"] that by (cases "n < 22") auto
  then show "take_bit 32 a = take_bit 32 b"
    by (intro bit_eqI) (auto simp: bit_take_bit_iff)
qed

lemma same_cell_low_bits: "same_cell a b \<longleftrightarrow> take_bit 32 a = take_bit 32 b"
  unfolding same_cell_def primary_index_def page_offset_def and_3ff and_3fffff
    take_bit_split unfolding word_unat_eq_iff ..

lemma same_cell_refl [simp, intro]: "same_cell a a"
  by (simp add: same_cell_def)

lemma same_cell_sym: "same_cell a b \<Longrightarrow> same_cell b a"
  by (simp add: same_cell_def)

lemma same_cell_trans: "same_cell a b \<Longrightarrow> same_cell b c \<Longrightarrow> same_cell a c"
  by (simp add: same_cell_def)

section \<open>The table\<close>

type_synonym 'c shadow_space = "nat \<Rightarrow> (nat \<Rightarrow> 'c) option"

text \<open>\<open>zero\<close> is the all-zero cell of a fresh page.\<close>

definition touch_page :: "'c \<Rightarrow> 'c shadow_space \<Rightarrow> nat \<Rightarrow> 'c shadow_space" where
  "touch_page zero sh p = (case sh p of None \<Rightarrow> sh(p \<mapsto> (\<lambda>_. zero)) | Some _ \<Rightarrow> sh)"

definition cell_at :: "'c \<Rightarrow> 'c shadow_space \<Rightarrow> ADDRINT \<Rightarrow> 'c" where
  "cell_at zero sh addr =
     (case touch_page zero sh (primary_index addr) (primary_index addr) of
        None \<Rightarrow> zero | Some page \<Rightarrow> page (page_offset addr))"

definition put_cell :: "'c \<Rightarrow> 'c shadow_space \<Rightarrow> ADDRINT \<Rightarrow> 'c \<Rightarrow> 'c shadow_space" where
  "put_cell zero sh addr c =
     (let p = primary_index addr; sh' = touch_page zero sh p
      in case sh' p of None \<Rightarrow> sh' | Some page \<Rightarrow> sh'(p \<mapsto> page(page_offset addr := c)))"

lemma touch_page_present: "touch_page zero sh p p \<noteq> None"
  by (auto simp: touch_page_def split: option.splits)

lemma cell_at_touch: "cell_at zero (touch_page zero sh p) a = cell_at zero sh a"
  by (auto simp: cell_at_def touch_page_def split: option.splits)

lemma cell_at_put:
  "cell_at zero (put_cell zero sh a c) b = (if same_cell a b then c else cell_at zero sh b)"
  by (auto simp: cell_at_def put_cell_def touch_page_def same_cell_def Let_def
      split: option.splits if_splits)

lemma cell_at_same: "same_cell a b \<Longrightarrow> cell_at zero sh a = cell_at zero sh b"
  by (auto simp: cell_at_def same_cell_def split: option.splits)

lemma cell_at_empty [simp]: "cell_at zero (\<lambda>_. None) a = zero"
  by (simp add: cell_at_def touch_page_def)

text \<open>The cell of one address, for the evaluation of concrete runs.\<close>

lemma shadow_eval:
  "primary_index 64 = 0" "page_offset 64 = 64"
  "cell_at z sh 64 = (case sh 0 of None \<Rightarrow> z | Some p \<Rightarrow> p 64)"
  "put_cell z sh 64 c = sh(0 \<mapsto> (case sh 0 of None \<Rightarrow> (\<lambda>_. z) | Some p \<Rightarrow> p)(64 := c))"
  "touch_page z sh 0 = (if sh 0 = None then sh(0 \<mapsto> (\<lambda>_. z)) else sh)"
  by (simp_all add: primary_index_def page_offset_def cell_at_def touch_page_def put_cell_def
      Let_def split: option.splits)

section \<open>What the detectors rely on\<close>

locale cell_store =
  fixes get :: "'s \<Rightarrow> ADDRINT \<Rightarrow> 'c"
    and put :: "'s \<Rightarrow> ADDRINT \<Rightarrow> 'c \<Rightarrow> 's"
    and same :: "ADDRINT \<Rightarrow> ADDRINT \<Rightarrow> bool"
  assumes get_put: "get (put s a c) b = (if same a b then c else get s b)"
    and get_same: "same a b \<Longrightarrow> get s a = get s b"
    and same_refl: "same a a"
    and same_sym: "same a b \<Longrightarrow> same b a"
begin

lemma get_put_self [simp]: "get (put s a c) a = c"
  by (simp add: get_put same_refl)

lemma get_put_other: "\<not> same a b \<Longrightarrow> get (put s a c) b = get s b"
  by (simp add: get_put)

lemma get_put_put: "get (put (put s a c) a d) b = get (put s a d) b"
  by (simp add: get_put)

lemma all_cells_put:
  assumes "\<And>b. P b (get s b)" and "\<And>b. same a b \<Longrightarrow> P b c"
  shows "P b (get (put s a c) b)"
  using assms by (simp add: get_put)

end

interpretation shadow: cell_store "cell_at zero" "put_cell zero" same_cell for zero
  by unfold_locales (auto simp: cell_at_put same_cell_sym intro: cell_at_same)

text \<open>
  C17: for every address the primary index and the page offset stay inside the two tables,
  and two addresses are sent to the same shadow cell exactly when their low 32 bits agree:
  the primary index keeps bits 22 to 31, the offset bits 0 to 21, and the upper half of
  the address is dropped.
\<close>

theorem shadow_index_low_32_bits:
  "primary_index a < SS_PRIMARY_TABLE_ENTRIES \<and> page_offset a < SS_SEC_TABLE_ENTRIES \<and>
   (primary_index a = primary_index b \<and> page_offset a = page_offset b
      \<longleftrightarrow> take_bit 32 a = take_bit 32 b)"
  using primary_index_bound [of a] page_offset_bound [of a] same_cell_low_bits [of a b]
  by (simp add: same_cell_def)

end
