(* ===== verification/Spd3.thy ===== *)
theory Spd3
  imports DpstInv Shadow
begin

text \<open>
  The SPD3 detector (\<open>spd3-lib/src/DR_Detector.cpp\<close>, \<open>src/exec_calls.cpp\<close> and the
  TBB wrappers of \<open>include/t_debug_task.h\<close>).  Per address it keeps the last writing
  step and two reading steps; an access is compared with them through the program
  structure tree.  The handler of an access holds the lock of its shadow cell, the
  handlers of task events hold the global lock, so each is one step of the model.
\<close>

section \<open>State\<close>

record Dr_Address_Data =
  wr_task :: "nat option"
  r1_task :: "nat option"
  r2_task :: "nat option"

record violation_data =
  task :: nat
  accessType :: AccessType

record violation =
  a1 :: violation_data
  a2 :: violation_data

record spd3 =
  taskGraph :: AFTaskGraph
  shadow :: "Dr_Address_Data shadow_space"
  all_violations :: "ADDRINT \<rightharpoonup> violation"
  task_id_ctr :: nat

definition zero_cell :: Dr_Address_Data where
  "zero_cell = \<lparr>wr_task = None, r1_task = None, r2_task = None\<rparr>"

definition TD_Activate :: "nat \<Rightarrow> spd3 option" where
  "TD_Activate base =
     do {
       g \<leftarrow> AFTaskGraph_new base;
       Some \<lparr>taskGraph = g, shadow = (\<lambda>_. None), all_violations = Map.empty, task_id_ctr = 0\<rparr>
     }"

section \<open>The access handler\<close>

definition exceptions :: "spd3 \<Rightarrow> THREADID \<Rightarrow> ADDRINT \<Rightarrow> bool" where
  "exceptions s threadid addr \<longleftrightarrow>
     tidToTaskIdMap (taskGraph s) threadid = [] \<or>
     stack_top (tidToTaskIdMap (taskGraph s) threadid) = Some 0 \<or>
     all_violations s addr \<noteq> None"

text \<open>\<open>ptr != NULL && areParallel(...)\<close>; the query may fill the LCA cache.\<close>

definition and_parallel ::
    "AFTaskGraph \<Rightarrow> nat \<Rightarrow> nat option \<Rightarrow> THREADID \<Rightarrow> (bool \<times> AFTaskGraph) option" where
  "and_parallel g tid ptr threadid =
     (case ptr of None \<Rightarrow> Some (False, g) | Some n \<Rightarrow> areParallel g tid n threadid)"

definition report ::
    "(ADDRINT \<rightharpoonup> violation) \<Rightarrow> ADDRINT \<Rightarrow> nat \<Rightarrow> AccessType \<Rightarrow> nat \<Rightarrow> AccessType
       \<Rightarrow> (ADDRINT \<rightharpoonup> violation)" where
  "report viol addr cur_node at stored st =
     map_insert viol addr \<lparr>a1 = \<lparr>task = cur_node, accessType = at\<rparr>,
                           a2 = \<lparr>task = stored, accessType = st\<rparr>\<rparr>"

text \<open>The race checks against the stored writer and, for a write, the two readers.\<close>

definition check_races ::
    "AFTaskGraph \<Rightarrow> (ADDRINT \<rightharpoonup> violation) \<Rightarrow> nat \<Rightarrow> THREADID \<Rightarrow> ADDRINT \<Rightarrow> AccessType
       \<Rightarrow> nat \<Rightarrow> Dr_Address_Data \<Rightarrow> (AFTaskGraph \<times> (ADDRINT \<rightharpoonup> violation)) option" where
  "check_races g viol tid threadid addr at cur_node c =
     do {
       (p, g) \<leftarrow> and_parallel g tid (wr_task c) threadid;
       let viol = (if p then report viol addr cur_node at (the (wr_task c)) WRITE else viol);
       if at = WRITE then do {
         (p1, g) \<leftarrow> and_parallel g tid (r1_task c) threadid;
         if p1 then Some (g, report viol addr cur_node at (the (r1_task c)) READ)
         else do {
           (p2, g) \<leftarrow> and_parallel g tid (r2_task c) threadid;
           Some (g, if p2 then report viol addr cur_node at (the (r2_task c)) READ else viol)
         }
       } else Some (g, viol)
     }"

text \<open>The update of the shadow cell.\<close>

definition update_cell ::
    "AFTaskGraph \<Rightarrow> nat \<Rightarrow> THREADID \<Rightarrow> AccessType \<Rightarrow> nat \<Rightarrow> Dr_Address_Data
       \<Rightarrow> (AFTaskGraph \<times> Dr_Address_Data) option" where
  "update_cell g tid threadid at cur_node c =
     (if at = WRITE then Some (g, c\<lparr>wr_task := Some cur_node\<rparr>)
      else case r1_task c of
        None \<Rightarrow> Some (g, c\<lparr>r1_task := Some cur_node\<rparr>)
      | Some r1 \<Rightarrow>
          (case r2_task c of
             None \<Rightarrow> Some (g, c\<lparr>r2_task := Some cur_node\<rparr>)
           | Some r2 \<Rightarrow> do {
               (cur_r1, g) \<leftarrow> areParallel g tid r1 threadid;
               (cur_r2, g) \<leftarrow> areParallel g tid r2 threadid;
               if \<not> cur_r1 \<and> \<not> cur_r2 then
                 Some (g, c\<lparr>r1_task := Some cur_node, r2_task := None\<rparr>)
               else if cur_r1 \<and> cur_r2 then do {
                 lca12 \<leftarrow> LCA g r1 r2;
                 lca1s \<leftarrow> LCA g r1 cur_node;
                 Some (g, if depth (node g lca1s) < depth (node g lca12)
                          then c\<lparr>r1_task := Some cur_node\<rparr> else c)
               } else Some (g, c)
             }))"

definition RecordMem :: "spd3 \<Rightarrow> THREADID \<Rightarrow> ADDRINT \<Rightarrow> AccessType \<Rightarrow> spd3 option" where
  "RecordMem s threadid addr at =
     (if \<not> threadid < NUM_THREADS then None
      else if exceptions s threadid addr then Some s
      else do {
        tid \<leftarrow> stack_top (tidToTaskIdMap (taskGraph s) threadid);
        curStepNode \<leftarrow> getCurTask (taskGraph s) threadid;
        let sh = touch_page zero_cell (shadow s) (primary_index addr);
        let addr_vec = cell_at zero_cell sh addr;
        (g, viol) \<leftarrow> check_races (taskGraph s) (all_violations s) tid threadid addr at
                        curStepNode addr_vec;
        (g, addr_vec) \<leftarrow> update_cell g tid threadid at curStepNode addr_vec;
        Some (s\<lparr>taskGraph := g, all_violations := viol,
                shadow := put_cell zero_cell sh addr addr_vec\<rparr>)
      })"

section \<open>Task events\<close>

text \<open>
  The wrappers around the TBB calls.  The call into TBB itself is the argument \<open>tbb\<close>,
  a function on the detector's state (while TBB runs, other tasks run their handlers).
\<close>

definition spawn :: "(nat \<Rightarrow> spd3 \<Rightarrow> spd3 option) \<Rightarrow> spd3 \<Rightarrow> THREADID \<Rightarrow> spd3 option" where
  "spawn tbb s threadid =
     do {
       let t = task_id_ctr s + 1;
       g \<leftarrow> CaptureSetTaskId (taskGraph s) threadid t True;
       tbb t (s\<lparr>task_id_ctr := t, taskGraph := g\<rparr>)
     }"

definition spawn_root_and_wait ::
    "(nat \<Rightarrow> spd3 \<Rightarrow> spd3 option) \<Rightarrow> spd3 \<Rightarrow> THREADID \<Rightarrow> spd3 option" where
  "spawn_root_and_wait tbb s threadid =
     do {
       let root = task_id_ctr s + 1;
       g \<leftarrow> CaptureSetTaskId (taskGraph s) threadid root False;
       tbb root (s\<lparr>task_id_ctr := root, taskGraph := g\<rparr>)
     }"

definition wait_for_all :: "(spd3 \<Rightarrow> spd3 option) \<Rightarrow> spd3 \<Rightarrow> THREADID \<Rightarrow> spd3 option" where
  "wait_for_all tbb s threadid =
     do {
       s \<leftarrow> tbb s;
       g \<leftarrow> CaptureWaitOnly (taskGraph s) threadid;
       Some (s\<lparr>taskGraph := g\<rparr>)
     }"

definition spawn_and_wait_for_all ::
    "(nat \<Rightarrow> spd3 \<Rightarrow> spd3 option) \<Rightarrow> spd3 \<Rightarrow> THREADID \<Rightarrow> spd3 option" where
  "spawn_and_wait_for_all tbb s threadid =
     do {
       let child = task_id_ctr s + 1;
       g \<leftarrow> CaptureSetTaskId (taskGraph s) threadid child True;
       s \<leftarrow> tbb child (s\<lparr>task_id_ctr := child, taskGraph := g\<rparr>);
       g \<leftarrow> CaptureWaitOnly (taskGraph s) threadid;
       Some (s\<lparr>taskGraph := g\<rparr>)
     }"

definition exec_begin :: "spd3 \<Rightarrow> THREADID \<Rightarrow> nat \<Rightarrow> spd3 option" where
  "exec_begin s threadid task_id =
     do { g \<leftarrow> CaptureExecute (taskGraph s) threadid task_id; Some (s\<lparr>taskGraph := g\<rparr>) }"

definition exec_end :: "spd3 \<Rightarrow> THREADID \<Rightarrow> spd3 option" where
  "exec_end s threadid =
     do { g \<leftarrow> CaptureReturn (taskGraph s) threadid; Some (s\<lparr>taskGraph := g\<rparr>) }"

text \<open>
  An execution is a sequence of handler calls.  The TBB call of a wrapper is the
  identity here: what it runs are the events that follow.
\<close>

datatype event =
    Spawn THREADID
  | SpawnRoot THREADID
  | WaitDone THREADID
  | ExecBegin THREADID nat
  | ExecEnd THREADID
  | Access THREADID ADDRINT AccessType

fun spd3_step :: "spd3 \<Rightarrow> event \<Rightarrow> spd3 option" where
  "spd3_step s (Spawn t) = spawn (\<lambda>_. Some) s t"
| "spd3_step s (SpawnRoot t) = spawn_root_and_wait (\<lambda>_. Some) s t"
| "spd3_step s (WaitDone t) = wait_for_all Some s t"
| "spd3_step s (ExecBegin t k) = exec_begin s t k"
| "spd3_step s (ExecEnd t) = exec_end s t"
| "spd3_step s (Access t a k) = RecordMem s t a k"

lemma spawn_and_wait_for_all_events:
  "spawn_and_wait_for_all tbb s t =
     spd3_step s (Spawn t) \<bind> tbb (task_id_ctr s + 1) \<bind> (\<lambda>s. spd3_step s (WaitDone t))"
  by (simp add: spawn_and_wait_for_all_def spawn_def wait_for_all_def Let_def bind_assoc)

end
