(* ===== verification/TaskIds.thy ===== *)
theory TaskIds
  imports DpstInv
begin

text \<open>
  Task identifiers in the program structure tree.  Every task has one node of its own,
  the \<open>ASYNC\<close> or flagged \<open>FINISH\<close> node made by its spawn; the finish scopes and steps
  below it inherit its identifier.  Hence two steps with one identifier are never
  parallel, the shortcut \<open>areParallel\<close> takes; and the stack of task identifiers of a
  thread matches its stack of nodes.
\<close>

section \<open>The node of a task\<close>

definition own :: "AFTaskGraph \<Rightarrow> nat \<Rightarrow> bool" where
  "own g i \<longleftrightarrow> i = 1 \<or> taskId (node g i) \<noteq> taskId (node g (parent (node g i)))"

definition ids_ok :: "AFTaskGraph \<Rightarrow> nat \<Rightarrow> bool" where
  "ids_ok g c \<longleftrightarrow>
     (\<forall>i. allocated g i \<longrightarrow> taskId (node g i) \<le> c) \<and>
     (\<forall>i. allocated g i \<longrightarrow> type (node g i) \<noteq> NO_TYPE \<and> (type (node g i) = ASYNC \<longrightarrow> own g i) \<and>
        (type (node g i) = FINISH \<longrightarrow> (sp_root_n_wt_flag (node g i) \<longleftrightarrow> own g i))) \<and>
     (\<forall>i j. allocated g i \<and> allocated g j \<and> own g i \<and> own g j \<and>
        taskId (node g i) = taskId (node g j) \<longrightarrow> i = j)"

lemma ids_okD:
  assumes "ids_ok g c"
  shows ids_ok_le: "allocated g i \<Longrightarrow> taskId (node g i) \<le> c"
    and ids_ok_type: "allocated g i \<Longrightarrow> type (node g i) \<noteq> NO_TYPE"
    and ids_ok_async: "allocated g i \<Longrightarrow> type (node g i) = ASYNC \<Longrightarrow> own g i"
    and ids_ok_flag: "allocated g i \<Longrightarrow> type (node g i) = FINISH \<Longrightarrow>
      sp_root_n_wt_flag (node g i) \<longleftrightarrow> own g i"
    and ids_ok_unique: "allocated g i \<Longrightarrow> allocated g j \<Longrightarrow> own g i \<Longrightarrow> own g j \<Longrightarrow>
      taskId (node g i) = taskId (node g j) \<Longrightarrow> i = j"
  using assms unfolding ids_ok_def by blast+

lemma parent_allocated:
  assumes "wf_core g" "allocated g i" "i \<noteq> 1"
  shows "allocated g (parent (node g i))"
  using wf_tree_node(1,2) [OF wf_core_tree [OF assms(1)], of i] assms(2,3)
  by (auto simp: allocated_def)

lemma own_extends:
  assumes "wf_core g" "extends g g'" "allocated g i"
  shows "own g' i \<longleftrightarrow> own g i"
  using extends_node(1,5) [OF assms(2,3)] parent_allocated [OF assms(1,3)]
    extends_node(5) [OF assms(2)] by (cases "i = 1") (simp_all add: own_def)

text \<open>
  Above every node there is the node of its task, and everything between the two
  carries the task's identifier.
\<close>

lemma task_root_above:
  assumes "wf_tree (tgraph_nodes g) m" "0 < i" "i \<le> m"
  shows "\<exists>r. anc (tgraph_nodes g) r i \<and> own g r \<and> taskId (node g r) = taskId (node g i) \<and>
    (\<forall>z. anc (tgraph_nodes g) r z \<and> anc (tgraph_nodes g) z i \<longrightarrow>
       taskId (node g z) = taskId (node g i))"
  using assms
proof (induction i rule: node_induct)
  case root
  show ?case by (intro exI [of _ 1]) (auto simp: own_def)
next
  case (child i)
  show ?case
  proof (cases "own g i")
    case True
    have i0: "0 < i" using child.hyps(1) by simp
    have "z = i" if "anc (tgraph_nodes g) i z" "anc (tgraph_nodes g) z i" for z
      using anc_range [OF assms(1) i0 child.hyps(2) that(2)] anc_range(2) [OF assms(1) _ _ that(1)]
      by (intro antisym)
    then show ?thesis using True by (intro exI [of _ i]) auto
  next
    case False
    then have eq: "taskId (node g (parent (node g i))) = taskId (node g i)"
      by (simp add: own_def)
    from child.IH obtain r where r: "anc (tgraph_nodes g) r (parent (node g i))" "own g r"
      "taskId (node g r) = taskId (node g i)"
      "\<forall>z. anc (tgraph_nodes g) r z \<and> anc (tgraph_nodes g) z (parent (node g i)) \<longrightarrow>
         taskId (node g z) = taskId (node g i)" using eq by auto
    have up: "anc (tgraph_nodes g) z i \<longleftrightarrow> z = i \<or> anc (tgraph_nodes g) z (parent (node g i))" for z
      by (rule anc_node_iff [OF assms(1) child.hyps(1,2)])
    show ?thesis
      unfolding up using r by (intro exI [of _ r]) blast
  qed
qed

theorem same_task_not_mhp:
  assumes wf: "wf_core g" and ids: "ids_ok g c" and a: "is_step g a" and b: "is_step g b"
    and eq: "taskId (node g a) = taskId (node g b)"
  shows "\<not> mhp (tgraph_nodes g) a b"
proof
  let ?ns = "tgraph_nodes g" and ?m = "last_allocated_node g"
  note tree = wf_core_tree [OF wf]
  have a': "0 < a" "a \<le> ?m" and b': "0 < b" "b \<le> ?m"
    using is_step_range [OF a] is_step_range [OF b] by auto
  assume m: "mhp ?ns a b"
  then obtain x y where br: "branches ?ns a b x y" by (blast dest: mhp_imp_branches)
  let ?p = "parent (node g x)"
  have xy: "anc ?ns x a" "anc ?ns y b" "1 < x" "1 < y" "parent (node g y) = ?p"
    using br by (auto simp: branches_def)
  have al: "allocated g x" "allocated g y"
    using anc_allocated [OF tree, of a x] anc_allocated [OF tree, of b y] a b xy
    by (auto simp: is_step_def)
  have "type (node g x) = ASYNC \<or> type (node g y) = ASYNC"
    using m mhp_branches [OF tree a' b' br] by (auto split: if_splits)
  then have o: "own g x \<or> own g y"
    using ids_ok_async [OF ids] al by blast
  obtain r where r: "anc ?ns r a" "own g r" "taskId (node g r) = taskId (node g a)"
    "\<And>z. anc ?ns r z \<Longrightarrow> anc ?ns z a \<Longrightarrow> taskId (node g z) = taskId (node g a)"
    using task_root_above [OF tree a'] by blast
  obtain q where q: "anc ?ns q b" "own g q" "taskId (node g q) = taskId (node g b)"
    "\<And>z. anc ?ns q z \<Longrightarrow> anc ?ns z b \<Longrightarrow> taskId (node g z) = taskId (node g b)"
    using task_root_above [OF tree b'] by blast
  have "allocated g r" "allocated g q"
    using anc_allocated [OF tree _ r(1)] anc_allocated [OF tree _ q(1)] a b
    by (simp_all add: is_step_def)
  moreover have "taskId (node g r) = taskId (node g q)" using r(3) q(3) eq by metis
  ultimately have rq: "r = q" using ids_ok_unique [OF ids _ _ r(2) q(2)] by blast
  have "anc ?ns r ?p"
    using branches_lca [OF tree a' b' br] r(1) q(1) rq by (simp add: is_lca_def)
  moreover have px: "anc ?ns ?p x" "anc ?ns ?p y"
    using anc_node_iff [OF tree, of x] anc_node_iff [OF tree, of y] al xy
    by (auto simp: allocated_def)
  moreover have xm: "0 < x" "x \<le> ?m" "0 < y" "y \<le> ?m" using al by (auto simp: allocated_def)
  ultimately have rx: "anc ?ns r x" and ry: "anc ?ns r y" and pa: "anc ?ns ?p a"
    using anc_trans [OF tree xm(1,2), of r ?p] anc_trans [OF tree xm(3,4), of r ?p]
      anc_trans [OF tree a', of ?p x] xy by blast+
  have "taskId (node g x) = taskId (node g a)" using r(4) [OF rx xy(1)] .
  moreover have "taskId (node g y) = taskId (node g a)" using q(4) [of y] ry xy(2) rq eq by simp
  moreover have "taskId (node g ?p) = taskId (node g a)" using r(4) [OF \<open>anc ?ns r ?p\<close> pa] .
  ultimately show False using o xy by (auto simp: own_def)
qed

section \<open>Every operation keeps the identifiers in order\<close>

definition same_flags :: "AFTaskGraph \<Rightarrow> AFTaskGraph \<Rightarrow> bool" where
  "same_flags g g' \<longleftrightarrow>
     (\<forall>i. allocated g i \<longrightarrow> sp_root_n_wt_flag (node g' i) = sp_root_n_wt_flag (node g i))"

lemma ids_ok_upd:
  assumes "wf_core g" "ids_ok g c" "\<And>n. shape_le n (f n)"
    "\<And>n. sp_root_n_wt_flag (f n) = sp_root_n_wt_flag n"
  shows "ids_ok (upd_node g i f) c"
proof -
  have e: "extends g (upd_node g i f)" using extends_upd_node [OF assms(3)] .
  have s: "type (f n) = type n" "taskId (f n) = taskId n" for n
    using assms(3) [of n] by (simp_all add: shape_le_def)
  have fl: "sp_root_n_wt_flag (node (upd_node g i f) j) = sp_root_n_wt_flag (node g j)" for j
    using assms(4) by simp
  have nd: "taskId (node (upd_node g i f) j) = taskId (node g j)"
      "type (node (upd_node g i f) j) = type (node g j)" for j
    using s by simp_all
  show ?thesis
    using assms(2) own_extends [OF assms(1) e]
    unfolding ids_ok_def fl nd upd_node_frame(8) by blast
qed

text \<open>A new node either inherits its parent's identifier or brings a fresh one.\<close>

lemma new_child_flags:
  assumes "new_child g nt tid p = Some (i, g')" "allocated g p"
  shows "same_flags g g'" "\<not> sp_root_n_wt_flag (node g' i)"
    "\<And>j. allocated g' j \<longleftrightarrow> allocated g j \<or> j = i" "p \<noteq> i"
proof -
  have "p \<le> last_allocated_node g" using assms(2) by (simp add: allocated_def)
  note eq = new_child_eq [OF assms(1) this]
  then obtain i: "i = Suc (last_allocated_node g)" by blast
  show "p \<noteq> i" using i \<open>p \<le> _\<close> by simp
  show "same_flags g g'" "\<not> sp_root_n_wt_flag (node g' i)"
    "\<And>j. allocated g' j \<longleftrightarrow> allocated g j \<or> j = i"
    using eq \<open>p \<noteq> i\<close> by (auto simp: same_flags_def allocated_def)
qed

lemma new_child_ids:
  assumes wf: "wf_core g" and ids: "ids_ok g c" and p: "allocated g p" "type (node g p) \<noteq> STEP"
    and nc: "new_child g nt tid p = Some (i, g')" and nt: "nt \<noteq> NO_TYPE"
    and tid: "tid = taskId (node g p) \<and> nt \<noteq> ASYNC \<and> d = c \<or>
              c < tid \<and> nt \<noteq> FINISH \<and> d = tid"
  shows "ids_ok g' d"
proof -
  note c = new_child_core [OF wf p nc] and f = new_child_flags [OF nc p(1)]
  note ext = grows_extends [OF c(2)]
  have own: "own g' j \<longleftrightarrow> own g j" if "allocated g j" for j
    using own_extends [OF wf ext that] .
  have i1: "i \<noteq> 1" using c(5) p(1) by (auto simp: allocated_def)
  have owni: "own g' i \<longleftrightarrow> tid \<noteq> taskId (node g p)"
    using c(7,8) extends_node(5) [OF ext p(1)] i1 by (simp add: own_def)
  have le: "taskId (node g j) \<le> c" if "allocated g j" for j using ids_ok_le [OF ids that] .
  show ?thesis
    unfolding ids_ok_def f(3)
  proof (intro conjI allI impI)
    fix j assume j: "allocated g j \<or> j = i"
    show "taskId (node g' j) \<le> d"
      using j le [of j] extends_node(5) [OF ext, of j] c(8) tid le [OF p(1)] by auto
    show "type (node g' j) \<noteq> NO_TYPE"
      using j ids_ok_type [OF ids, of j] extends_node(2) [OF ext, of j] c(6) nt by auto
    show "own g' j" if "type (node g' j) = ASYNC"
      using j that ids_ok_async [OF ids, of j] own [of j] extends_node(2) [OF ext, of j] owni tid
        c(6) le [OF p(1)] by auto
    show "sp_root_n_wt_flag (node g' j) = own g' j" if "type (node g' j) = FINISH"
      using j that ids_ok_flag [OF ids, of j] own [of j] extends_node(2) [OF ext, of j] owni tid
        c(6) f(1,2) by (auto simp: same_flags_def)
  next
    fix j k assume jk: "(allocated g j \<or> j = i) \<and> (allocated g k \<or> k = i) \<and> own g' j \<and> own g' k \<and>
      taskId (node g' j) = taskId (node g' k)"
    show "j = k"
    proof (cases "j = i \<or> k = i")
      case True
      then have "c < tid" using jk owni tid by auto
      moreover have "taskId (node g' l) \<le> c" if "allocated g l" for l
        using le [OF that] extends_node(5) [OF ext that] by simp
      ultimately show ?thesis using jk c(8) True by (metis leD)
    next
      case False
      then show ?thesis
        using jk ids_ok_unique [OF ids, of j k] own extends_node(5) [OF ext] by auto
    qed
  qed
qed

lemma new_step_ids:
  assumes wf: "wf_core g" and ids: "ids_ok g c" and p: "allocated g p" "type (node g p) \<noteq> STEP"
    and ns: "new_step g p = Some g'"
  shows "ids_ok g' c"
proof -
  from ns obtain s g1 where s: "new_child g STEP (taskId (node g p)) p = Some (s, g1)"
    and g': "g' = upd_node g1 p (\<lambda>n. n\<lparr>cur_step := s\<rparr>)"
    by (auto simp: new_step_def bind_eq_Some_conv)
  have "ids_ok g1 c" by (rule new_child_ids [OF wf ids p s]) simp_all
  then show ?thesis
    unfolding g' using new_child_core(1) [OF wf p s]
    by (intro ids_ok_upd) (auto simp: shape_le_def)
qed

end
