(* ===== verification/TaskStacks.thy ===== *)
theory TaskStacks
  imports TaskIds
begin

text \<open>
  How the operations of \<open>AFTaskGraph\<close> act on the identifiers and on the per-thread
  stacks: case rules that split an operation into the nodes it makes, preservation of
  \<open>ids_ok\<close>, and the discipline that ties a thread's stack of nodes to its stack of
  task identifiers.
\<close>

section \<open>Case rules\<close>

lemma CaptureSpawnOnly_cases:
  assumes "CaptureSpawnOnly g t k = Some g'"
  obtains (same) i a g0 g1 g2 where
      "thread_top (cur g) t = Some i" "checkForStep (node g i)"
      "new_child g ASYNC k i = Some (a, g0)"
      "new_step (upd_node g0 i (\<lambda>n. n\<lparr>young_ns_child := ASYNC\<rparr>)) a = Some g1"
      "new_step g1 i = Some g2"
      "g' = g2\<lparr>temp_cur_map := map_insert (temp_cur_map g2) k a\<rparr>"
  | (scope) i f a h0 h1 g1 g2 where
      "thread_top (cur g) t = Some i" "\<not> checkForStep (node g i)"
      "new_child g FINISH (taskId (node g i)) i = Some (f, h0)"
      "new_child (upd_node h0 i (\<lambda>n. n\<lparr>young_ns_child := FINISH\<rparr>)) ASYNC k f = Some (a, h1)"
      "new_step ((upd_node h1 f (\<lambda>n. n\<lparr>young_ns_child := ASYNC\<rparr>))
          \<lparr>cur := push (cur h1) t f\<rparr>) a = Some g1"
      "new_step g1 f = Some g2"
      "g' = g2\<lparr>temp_cur_map := map_insert (temp_cur_map g2) k a\<rparr>"
proof -
  from assms obtain i where i: "thread_top (cur g) t = Some i"
    by (auto simp: CaptureSpawnOnly_def bind_eq_Some_conv)
  show thesis
  proof (cases "checkForStep (node g i)")
    case True
    with assms i that(1) show ?thesis
      by (auto simp: CaptureSpawnOnly_def bind_eq_Some_conv Let_def)
  next
    case False
    with assms i that(2) show ?thesis
      by (auto simp: CaptureSpawnOnly_def bind_eq_Some_conv Let_def)
  qed
qed

lemma CaptureSpawnAndWait_cases:
  assumes "CaptureSpawnAndWait g t k = Some g'"
  obtains i f g1 g2 where "thread_top (cur g) t = Some i" "new_child g FINISH k i = Some (f, g1)"
    "new_step (upd_node (upd_node g1 i (\<lambda>n. n\<lparr>young_ns_child := FINISH\<rparr>)) f
       (\<lambda>n. n\<lparr>sp_root_n_wt_flag := True\<rparr>)) f = Some g2"
    "g' = g2\<lparr>temp_cur_map := map_insert (temp_cur_map g2) k f\<rparr>"
  using assms that by (auto simp: CaptureSpawnAndWait_def bind_eq_Some_conv Let_def)

section \<open>Identifiers\<close>

lemma ids_ok_frame_irrelevant [simp]:
  "ids_ok (g\<lparr>cur := c\<rparr>) = ids_ok g" "ids_ok (g\<lparr>temp_cur_map := tm\<rparr>) = ids_ok g"
  "ids_ok (g\<lparr>tidToTaskIdMap := ids\<rparr>) = ids_ok g" "ids_ok (g\<lparr>lcaHashTable := tb\<rparr>) = ids_ok g"
  by (simp_all add: ids_ok_def [abs_def] own_def allocated_def)

lemma own_frame_irrelevant [simp]:
  "own (g\<lparr>cur := c\<rparr>) = own g" "own (g\<lparr>temp_cur_map := tm\<rparr>) = own g"
  "own (g\<lparr>tidToTaskIdMap := ids\<rparr>) = own g" "own (g\<lparr>lcaHashTable := tb\<rparr>) = own g"
  by (simp_all add: own_def [abs_def])

lemma upd_young_wf:
  assumes "wf_core g" "ids_ok g c"
  shows "wf_core (upd_node g i (\<lambda>n. n\<lparr>young_ns_child := y\<rparr>))"
    "ids_ok (upd_node g i (\<lambda>n. n\<lparr>young_ns_child := y\<rparr>)) c"
  using assms by (auto intro!: wf_core_upd ids_ok_upd simp: shape_le_def)

lemma CaptureWait_ids:
  assumes "wf_graph g" "ids_ok g c" "CaptureWait g t = Some g'"
  shows "ids_ok g' c"
proof -
  from assms(3) obtain i where i: "thread_top (cur g) t = Some i" "new_step g i = Some g'"
    by (auto simp: CaptureWait_def bind_eq_Some_conv)
  have tn: "task_node g i" using wf_graph_top [OF assms(1) i(1)] .
  show ?thesis
    by (rule new_step_ids [OF wf_graph_core [OF assms(1)] assms(2) task_node_allocated [OF tn]
          task_node_type [OF tn] i(2)])
qed

text \<open>The flagged finish scope of \<open>CaptureSpawnAndWait\<close>.\<close>

lemma new_root_ids:
  assumes wf: "wf_core g" and ids: "ids_ok g c" and p: "allocated g p" "type (node g p) \<noteq> STEP"
    and nc: "new_child g FINISH k p = Some (f, g1)" and k: "c < k"
  shows "ids_ok (upd_node g1 f (\<lambda>n. n\<lparr>sp_root_n_wt_flag := True\<rparr>)) k"
    (is "ids_ok ?u k")
proof -
  note c = new_child_core [OF wf p nc] and fl = new_child_flags [OF nc p(1)]
  note ext = grows_extends [OF c(2)]
  have own: "own g1 j \<longleftrightarrow> own g j" if "allocated g j" for j using own_extends [OF wf ext that] .
  have le: "taskId (node g1 j) \<le> c" if "allocated g j" for j
    using ids_ok_le [OF ids that] extends_node(5) [OF ext that] by simp
  have f1: "f \<noteq> 1" using c(5) p(1) by (auto simp: allocated_def)
  have ownf: "own g1 f" using c(7,8) le [OF p(1)] k f1 by (auto simp: own_def)
  have eu: "own ?u j = own g1 j" for j by (simp add: own_def)
  have flj: "sp_root_n_wt_flag (node g1 j) = sp_root_n_wt_flag (node g j)" if "allocated g j" for j
    using fl(1) that by (simp add: same_flags_def)
  show ?thesis
    unfolding ids_ok_def eu upd_node_frame(8) fl(3)
  proof (intro conjI allI impI)
    fix j assume j: "allocated g j \<or> j = f"
    show "taskId (node ?u j) \<le> k" using j le [of j] c(8) k by auto
    show "type (node ?u j) \<noteq> NO_TYPE"
      using j ids_ok_type [OF ids, of j] extends_node(2) [OF ext, of j] c(6) by auto
    show "own g1 j" if "type (node ?u j) = ASYNC"
      using j that ids_ok_async [OF ids, of j] own [of j] extends_node(2) [OF ext, of j] ownf
      by (auto split: if_splits)
    show "sp_root_n_wt_flag (node ?u j) = own g1 j" if "type (node ?u j) = FINISH"
      using j that ids_ok_flag [OF ids, of j] own [of j] extends_node(2) [OF ext, of j] ownf
        flj [of j] by (auto split: if_splits)
  next
    fix i j assume ij: "(allocated g i \<or> i = f) \<and> (allocated g j \<or> j = f) \<and> own g1 i \<and> own g1 j \<and>
      taskId (node ?u i) = taskId (node ?u j)"
    then have tid: "taskId (node g1 i) = taskId (node g1 j)" by (auto split: if_splits)
    show "i = j"
    proof (cases "i = f \<or> j = f")
      case True
      then show ?thesis using ij tid le c(8) k by (metis leD)
    next
      case False
      then show ?thesis
        using ij tid ids_ok_unique [OF ids, of i j] own extends_node(5) [OF ext] by auto
    qed
  qed
qed

lemma CaptureSpawnAndWait_ids:
  assumes "wf_graph g" "ids_ok g c" "c < k" "CaptureSpawnAndWait g t k = Some g'"
  shows "ids_ok g' k"
  using assms(4)
proof (cases rule: CaptureSpawnAndWait_cases)
  case (1 i f g1 g2)
  note core = wf_graph_core [OF assms(1)]
  have tn: "task_node g i" using wf_graph_top [OF assms(1) 1(1)] .
  note p = task_node_allocated [OF tn] task_node_type [OF tn]
  note c = new_child_core [OF core p 1(2)]
  let ?v = "upd_node g1 f (\<lambda>n. n\<lparr>sp_root_n_wt_flag := True\<rparr>)"
  let ?u = "upd_node (upd_node g1 i (\<lambda>n. n\<lparr>young_ns_child := FINISH\<rparr>)) f
     (\<lambda>n. n\<lparr>sp_root_n_wt_flag := True\<rparr>)"
  have eq: "?u = upd_node ?v i (\<lambda>n. n\<lparr>young_ns_child := FINISH\<rparr>)"
    using p c(5) by (auto simp: upd_node_def fun_upd_twist)
  have v: "wf_core ?v" "ids_ok ?v k"
    using new_root_ids [OF core assms(2) p 1(2) assms(3)] c(1)
    by (auto intro!: wf_core_upd simp: shape_le_def)
  have u: "wf_core ?u" "ids_ok ?u k" unfolding eq using upd_young_wf [OF v] by auto
  have "allocated ?u f" "type (node ?u f) \<noteq> STEP" using c(4,6) by auto
  then have "ids_ok g2 k" by (rule new_step_ids [OF u _ _ 1(3)])
  then show ?thesis by (simp add: 1(4))
qed

lemma CaptureSpawnOnly_ids:
  assumes "wf_graph g" "ids_ok g c" "c < k" "CaptureSpawnOnly g t k = Some g'"
  shows "ids_ok g' k"
  using assms(4)
proof (cases rule: CaptureSpawnOnly_cases)
  case (same i a g0 g1 g2)
  note core = wf_graph_core [OF assms(1)]
  have tn: "task_node g i" using wf_graph_top [OF assms(1) same(1)] .
  note p = task_node_allocated [OF tn] task_node_type [OF tn]
  note b = spawn_branch_async_wf [OF core tn same(3)]
  let ?u = "upd_node g0 i (\<lambda>n. n\<lparr>young_ns_child := ASYNC\<rparr>)"
  have u: "ids_ok ?u k"
    using new_child_core(1) [OF core p same(3)] new_child_ids [OF core assms(2) p same(3), of k] assms(3)
    by (auto intro: upd_young_wf)
  have ac: "allocated ?u a" "type (node ?u a) \<noteq> STEP" "allocated ?u i" "type (node ?u i) \<noteq> STEP"
    using b by auto
  note s1 = new_step_core [OF b(1) ac(1,2) same(4)]
  have i1: "allocated g1 i" "type (node g1 i) \<noteq> STEP"
    using ac s1(2) grows_allocated extends_node(2) [OF grows_extends [OF s1(2)] ac(3)] by auto
  have "ids_ok g2 k"
    by (rule new_step_ids [OF s1(1) new_step_ids [OF b(1) u ac(1,2) same(4)] i1 same(5)])
  then show ?thesis by (simp add: same(6))
next
  case (scope i f a h0 h1 g1 g2)
  note core = wf_graph_core [OF assms(1)]
  have tn: "task_node g i" using wf_graph_top [OF assms(1) scope(1)] .
  note p = task_node_allocated [OF tn] task_node_type [OF tn]
  note b = spawn_branch_wf [OF core tn scope(3,4)]
  note c = new_child_core [OF core p scope(3)]
  let ?w = "upd_node h0 i (\<lambda>n. n\<lparr>young_ns_child := FINISH\<rparr>)"
  have w: "wf_core ?w" "ids_ok ?w c"
    using upd_young_wf [OF c(1) new_child_ids [OF core assms(2) p scope(3), of c]] by auto
  have wf: "allocated ?w f" "type (node ?w f) \<noteq> STEP" using c(4,6) by auto
  let ?u = "(upd_node h1 f (\<lambda>n. n\<lparr>young_ns_child := ASYNC\<rparr>))\<lparr>cur := push (cur h1) t f\<rparr>"
  have u: "wf_core ?u" "ids_ok ?u k"
    using new_child_core(1) [OF w(1) wf scope(4)] new_child_ids [OF w wf scope(4), of k] assms(3)
    by (auto intro!: upd_young_wf)
  have ac: "allocated ?u a" "type (node ?u a) \<noteq> STEP" "allocated ?u f" "type (node ?u f) \<noteq> STEP"
    using b by (auto simp: allocated_def)
  note s1 = new_step_core [OF u(1) ac(1,2) scope(5)]
  have f1: "allocated g1 f" "type (node g1 f) \<noteq> STEP"
    using ac s1(2) grows_allocated extends_node(2) [OF grows_extends [OF s1(2)] ac(3)] by auto
  have "ids_ok g2 k"
    by (rule new_step_ids [OF s1(1) new_step_ids [OF u ac(1,2) scope(5)] f1 scope(6)])
  then show ?thesis by (simp add: scope(7))
qed

section \<open>Stacks\<close>

text \<open>
  A stack of nodes, top first, holds task nodes, below each of which there may be the
  open finish scopes of that task; the stack of identifiers has one entry per task.
\<close>

fun stack_ok :: "AFTaskGraph \<Rightarrow> nat list \<Rightarrow> nat list \<Rightarrow> bool" where
  "stack_ok g [] ts \<longleftrightarrow> ts = []"
| "stack_ok g (i # cs) ts \<longleftrightarrow>
     (if own g i
      then if i = 1 then cs = [] \<and> ts = []
           else ts \<noteq> [] \<and> hd ts = taskId (node g i) \<and> stack_ok g cs (tl ts)
      else cs \<noteq> [] \<and> parent (node g i) = hd cs \<and> taskId (node g i) = taskId (node g (hd cs)) \<and>
           stack_ok g cs ts)"

definition linked :: "AFTaskGraph \<Rightarrow> nat \<Rightarrow> bool" where
  "linked g c \<longleftrightarrow>
     ids_ok g c \<and> (\<forall>t. stack_ok g (cur g t) (tidToTaskIdMap g t)) \<and>
     (\<forall>k i. temp_cur_map g k = Some i \<longrightarrow> own g i \<and> i \<noteq> 1 \<and> taskId (node g i) = k)"

lemma linkedD:
  assumes "linked g c"
  shows linked_ids: "ids_ok g c"
    and linked_stack: "stack_ok g (cur g t) (tidToTaskIdMap g t)"
    and linked_temp: "temp_cur_map g k = Some i \<Longrightarrow> own g i \<and> i \<noteq> 1 \<and> taskId (node g i) = k"
  using assms unfolding linked_def by blast+

lemma stack_ok_cong:
  assumes "\<And>i. i \<in> set cs \<Longrightarrow> own g' i = own g i \<and> taskId (node g' i) = taskId (node g i) \<and>
      parent (node g' i) = parent (node g i)"
  shows "stack_ok g' cs ts = stack_ok g cs ts"
  using assms
proof (induction cs arbitrary: ts)
  case (Cons i cs)
  then have "cs \<noteq> [] \<Longrightarrow> taskId (node g' (hd cs)) = taskId (node g (hd cs))" by simp
  then show ?case using Cons by auto
qed simp

text \<open>While a thread runs a task, the top of its node stack belongs to that task.\<close>

lemma stack_ok_top:
  "stack_ok g (i # cs) (k # ts) \<Longrightarrow> taskId (node g i) = k \<and> i \<noteq> 1"
proof (induction cs arbitrary: i)
  case Nil
  then show ?case by (auto split: if_splits)
next
  case (Cons j cs)
  show ?case
  proof (cases "own g i")
    case True
    then show ?thesis using Cons.prems by (auto split: if_splits)
  next
    case False
    then have "taskId (node g i) = taskId (node g j)" "stack_ok g (j # cs) (k # ts)"
      using Cons.prems by auto
    moreover have "i \<noteq> 1" using False by (auto simp: own_def)
    ultimately show ?thesis using Cons.IH [of j] by simp
  qed
qed

lemma linked_top:
  assumes "linked g c" "tidToTaskIdMap g t \<noteq> []"
  obtains i cs where "cur g t = i # cs" "i \<noteq> 1" "taskId (node g i) = hd (tidToTaskIdMap g t)"
proof -
  obtain k ts where ts: "tidToTaskIdMap g t = k # ts" using assms(2) by (cases "tidToTaskIdMap g t") auto
  obtain i cs where i: "cur g t = i # cs"
    using linked_stack [OF assms(1), of t] ts by (cases "cur g t") auto
  show thesis
    using that [OF i] stack_ok_top [of g i cs k ts] linked_stack [OF assms(1), of t] ts i by simp
qed

text \<open>What may sit on a stack is allocated, so growing the tree changes none of this.\<close>

lemma linked_grows:
  assumes wf: "wf_graph g" and gr: "grows g g'" and l: "linked g c" and ids: "ids_ok g' c'"
    and st: "\<And>t. cur g' t = cur g t \<and> tidToTaskIdMap g' t = tidToTaskIdMap g t \<or>
      stack_ok g' (cur g' t) (tidToTaskIdMap g' t)"
    and tm: "\<And>k i. temp_cur_map g' k = Some i \<Longrightarrow>
      temp_cur_map g k = Some i \<or> own g' i \<and> i \<noteq> 1 \<and> taskId (node g' i) = k"
  shows "linked g' c'"
proof -
  note ext = grows_extends [OF gr]
  have al: "own g' i = own g i \<and> taskId (node g' i) = taskId (node g i) \<and>
      parent (node g' i) = parent (node g i)" if "task_node g i" for i
    using own_extends [OF wf_graph_core [OF wf] ext] extends_node(1,5) [OF ext]
      task_node_allocated [OF that] by blast
  have "stack_ok g' (cur g t) (tidToTaskIdMap g t)" for t
    using linked_stack [OF l, of t] wf al
    by (subst stack_ok_cong [where g = g]) (auto simp: wf_graph_def)
  then have "stack_ok g' (cur g' t) (tidToTaskIdMap g' t)" for t
    using st [of t] by auto
  moreover have "own g' i \<and> i \<noteq> 1 \<and> taskId (node g' i) = k" if "temp_cur_map g' k = Some i" for k i
    using tm [OF that]
  proof
    assume *: "temp_cur_map g k = Some i"
    then have "task_node g i" using wf by (auto simp: wf_graph_def)
    then show ?thesis using linked_temp [OF l *] al by auto
  qed
  ultimately show ?thesis using ids unfolding linked_def by blast
qed

lemma stack_ok_grows:
  assumes "wf_graph g" "grows g g'" "stack_ok g cs ts" "\<And>i. i \<in> set cs \<Longrightarrow> task_node g i"
  shows "stack_ok g' cs ts"
proof -
  note ext = grows_extends [OF assms(2)]
  have "allocated g i" if "i \<in> set cs" for i using task_node_allocated [OF assms(4) [OF that]] .
  then show ?thesis
    using assms(3) own_extends [OF wf_graph_core [OF assms(1)] ext] extends_node(1,5) [OF ext]
    by (subst stack_ok_cong [where g = g]) auto
qed

lemma wf_graph_stack: "wf_graph g \<Longrightarrow> i \<in> set (cur g t) \<Longrightarrow> task_node g i"
  by (auto simp: wf_graph_def)

section \<open>The operations keep stacks and identifiers linked\<close>

text \<open>What a spawn does to the stacks and to the map of spawned tasks.\<close>

lemma CaptureSpawnOnly_effect:
  assumes wf: "wf_graph g" and sp: "CaptureSpawnOnly g t k = Some g'"
  obtains i cs c a where "cur g t = i # cs" "tidToTaskIdMap g' = tidToTaskIdMap g"
    "temp_cur_map g' = map_insert (temp_cur_map g) k a" "taskId (node g' a) = k" "a \<noteq> 1"
    "taskId (node g' (parent (node g' a))) = taskId (node g i)" "\<not> allocated g a"
    "c = i \<and> checkForStep (node g i) \<and> cur g' = cur g \<or>
     \<not> allocated g c \<and> \<not> own g' c \<and> c \<noteq> 1 \<and> taskId (node g' c) = taskId (node g i) \<and>
       parent (node g' c) = i \<and> type (node g' c) = FINISH \<and> \<not> checkForStep (node g i) \<and> cur g' = push (cur g) t c"
    "parent (node g' a) = c" "allocated g' a" "type (node g' a) = ASYNC"
  using sp
proof (cases rule: CaptureSpawnOnly_cases)
  case (same i a g0 g1 g2)
  note core = wf_graph_core [OF wf]
  have tn: "task_node g i" using wf_graph_top [OF wf same(1)] .
  note p = task_node_allocated [OF tn] task_node_type [OF tn]
  note b = spawn_branch_async_wf [OF core tn same(3)]
  note n = new_child_core [OF core p same(3)]
  let ?u = "upd_node g0 i (\<lambda>n. n\<lparr>young_ns_child := ASYNC\<rparr>)"
  have ac: "allocated ?u a" "type (node ?u a) \<noteq> STEP" "allocated ?u i" "type (node ?u i) \<noteq> STEP"
    using b by auto
  note s = spawn_tail_wf [OF b(1) ac same(4,5)]
  note ext = grows_extends [OF s(2)]
  have gi: "taskId (node g2 i) = taskId (node g i)"
    using extends_node(5) [OF ext ac(3)] extends_node(5) [OF grows_extends [OF b(2)] p(1)] by simp
  have a2: "taskId (node g2 a) = k" "parent (node g2 a) = i" "type (node g2 a) = ASYNC" "allocated g2 a"
    using extends_node [OF ext ac(1)] n(6,7,8) b(8) extends_allocated [OF ext ac(1)] by auto
  obtain cs where cs: "cur g t = i # cs" using same(1) by (auto simp: thread_top_Some)
  have fr: "same_frame g g2" using b(3) s(3) same_frame_trans same_frame_upd_node by blast
  have "a \<noteq> 1" using n(5) p(1) by (auto simp: allocated_def)
  show thesis
    by (rule that [OF cs, of a i])
      (use a2 gi fr n(5) same(2,6) \<open>a \<noteq> 1\<close> in \<open>auto simp: same_frame_def allocated_def\<close>)
next
  case (scope i f a h0 h1 g1 g2)
  note core = wf_graph_core [OF wf]
  have tn: "task_node g i" using wf_graph_top [OF wf scope(1)] .
  note p = task_node_allocated [OF tn] task_node_type [OF tn]
  note b = spawn_branch_wf [OF core tn scope(3,4)]
  note n = new_child_core [OF core p scope(3)]
  let ?w = "upd_node h0 i (\<lambda>n. n\<lparr>young_ns_child := FINISH\<rparr>)"
  have w: "wf_core ?w" by (intro wf_core_upd n(1)) (auto simp: shape_le_def)
  have wf': "allocated ?w f" "type (node ?w f) \<noteq> STEP" using n(4,6) by auto
  note m = new_child_core [OF w wf' scope(4)]
  let ?u = "(upd_node h1 f (\<lambda>n. n\<lparr>young_ns_child := ASYNC\<rparr>))\<lparr>cur := push (cur h1) t f\<rparr>"
  have u: "wf_core ?u" using b(1) by simp
  have ac: "allocated ?u a" "type (node ?u a) \<noteq> STEP" "allocated ?u f" "type (node ?u f) \<noteq> STEP"
    using b by (auto simp: allocated_def)
  note s = spawn_tail_wf [OF u ac scope(5,6)]
  note ext = grows_extends [OF s(2)]
  have gu: "extends g ?u" using grows_extends [OF b(2)] by (simp add: extends_def allocated_def)
  have gi: "taskId (node g2 i) = taskId (node g i)"
    using extends_node(5) [OF extends_trans [OF gu ext] p(1)] .
  have f1: "taskId (node ?u f) = taskId (node g i)" "parent (node ?u f) = i"
    using n(7,8) extends_node [OF grows_extends [OF m(2)] wf'(1)] by (auto split: if_splits)
  have f2: "taskId (node g2 f) = taskId (node g i)" "parent (node g2 f) = i" "type (node g2 f) = FINISH"
    using extends_node [OF ext ac(3)] f1 b(7) by auto
  have a2: "taskId (node g2 a) = k" "parent (node g2 a) = f" "type (node g2 a) = ASYNC" "allocated g2 a"
    using extends_node [OF ext ac(1)] m(6,7,8) b(8) extends_allocated [OF ext ac(1)] by auto
  obtain cs where cs: "cur g t = i # cs" using scope(1) by (auto simp: thread_top_Some)
  have fr: "same_frame g h1" by (rule b(3))
  have na: "\<not> allocated g a" using m(5) n(2) grows_allocated by auto
  have "a \<noteq> 1" "f \<noteq> 1" using n(5) na p(1) by (auto simp: allocated_def)
  then have "\<not> own g2 f" using f2 gi by (simp add: own_def)
  show thesis
    by (rule that [OF cs, of a f])
      (use a2 f2 gi fr s(3) na n(5) scope(2,7) \<open>a \<noteq> 1\<close> \<open>f \<noteq> 1\<close> \<open>\<not> own g2 f\<close> in
        \<open>auto simp: same_frame_def allocated_def own_def\<close>)
qed

lemma CaptureSpawnOnly_linked:
  assumes wf: "wf_graph g" and l: "linked g c" and k: "c < k"
    and sp: "CaptureSpawnOnly g t k = Some g'"
  shows "linked g' k"
proof -
  have gr: "grows g g'" using CaptureSpawnOnly_wf [OF wf sp] by blast
  note ext = grows_extends [OF gr]
  from sp obtain i cs f a where e: "cur g t = i # cs" "tidToTaskIdMap g' = tidToTaskIdMap g"
    "temp_cur_map g' = map_insert (temp_cur_map g) k a" "taskId (node g' a) = k" "a \<noteq> 1"
    "taskId (node g' (parent (node g' a))) = taskId (node g i)"
    "cur g' = cur g \<or> \<not> own g' f \<and> taskId (node g' f) = taskId (node g i) \<and> parent (node g' f) = i \<and>
       cur g' = push (cur g) t f"
    by (rule CaptureSpawnOnly_effect [OF wf]) blast
  have tn: "task_node g i" using wf_graph_stack [OF wf, of i t] e(1) by simp
  have i: "taskId (node g i) \<le> c" "taskId (node g' i) = taskId (node g i)"
    using ids_ok_le [OF linked_ids [OF l]] extends_node(5) [OF ext] task_node_allocated [OF tn] by auto
  have oa: "own g' a" using e(4-6) i(1) k by (simp add: own_def)
  have st: "stack_ok g' (cur g' t) (tidToTaskIdMap g' t)" if "\<not> own g' f"
    "taskId (node g' f) = taskId (node g i)" "parent (node g' f) = i" "cur g' = push (cur g) t f"
  proof -
    have "stack_ok g' (i # cs) (tidToTaskIdMap g t)"
      using stack_ok_grows [OF wf gr linked_stack [OF l, of t]] wf_graph_stack [OF wf, of _ t] e(1)
      by metis
    then show ?thesis using that e(1,2) i(2) by (simp add: push_def)
  qed
  show ?thesis
  proof (rule linked_grows [OF wf gr l CaptureSpawnOnly_ids [OF wf linked_ids [OF l] k sp]])
    show "cur g' u = cur g u \<and> tidToTaskIdMap g' u = tidToTaskIdMap g u \<or>
        stack_ok g' (cur g' u) (tidToTaskIdMap g' u)" for u
      using st e(2,7) by (cases "u = t") (auto simp: push_def)
    show "temp_cur_map g j = Some i \<or> own g' i \<and> i \<noteq> 1 \<and> taskId (node g' i) = j"
      if "temp_cur_map g' j = Some i" for j i
      using that oa e(3-5) by (auto elim: map_insert_cases)
  qed
qed

lemma CaptureSpawnAndWait_linked:
  assumes wf: "wf_graph g" and l: "linked g c" and k: "c < k"
    and sp: "CaptureSpawnAndWait g t k = Some g'"
  shows "linked g' k"
proof -
  have gr: "grows g g'" using CaptureSpawnAndWait_wf [OF wf sp] by blast
  note ids = CaptureSpawnAndWait_ids [OF wf linked_ids [OF l] k sp]
  from sp obtain i f g1 g2 where d: "thread_top (cur g) t = Some i" "new_child g FINISH k i = Some (f, g1)"
    "new_step (upd_node (upd_node g1 i (\<lambda>n. n\<lparr>young_ns_child := FINISH\<rparr>)) f
       (\<lambda>n. n\<lparr>sp_root_n_wt_flag := True\<rparr>)) f = Some g2"
    "g' = g2\<lparr>temp_cur_map := map_insert (temp_cur_map g2) k f\<rparr>"
    by (rule CaptureSpawnAndWait_cases)
  have tn: "task_node g i" using wf_graph_top [OF wf d(1)] .
  note p = task_node_allocated [OF tn] task_node_type [OF tn]
  note c = new_child_core [OF wf_graph_core [OF wf] p d(2)]
  let ?u = "upd_node (upd_node g1 i (\<lambda>n. n\<lparr>young_ns_child := FINISH\<rparr>)) f
       (\<lambda>n. n\<lparr>sp_root_n_wt_flag := True\<rparr>)"
  have u: "wf_core ?u" by (intro wf_core_upd c(1)) (auto simp: shape_le_def)
  have uf: "allocated ?u f" "type (node ?u f) \<noteq> STEP" using c(4,6) by auto
  note n = new_step_core [OF u uf d(3)]
  have fr: "same_frame g g2" using c(3) n(3) same_frame_trans same_frame_upd_node by metis
  have f1: "f \<noteq> 1" using c(5) p(1) by (auto simp: allocated_def)
  have "allocated g2 f" using uf(1) n(2) grows_allocated by blast
  moreover have tf: "taskId (node g' f) = k" "type (node g2 f) = FINISH" "sp_root_n_wt_flag (node g2 f)"
  proof -
    have "taskId (node g2 f) = taskId (node ?u f)" "type (node g2 f) = type (node ?u f)"
      using extends_node [OF grows_extends [OF n(2)] uf(1)] by auto
    then show "taskId (node g' f) = k" "type (node g2 f) = FINISH" using c(6,8) d(4) by auto
    from d(3) obtain s h where h: "new_child ?u STEP (taskId (node ?u f)) f = Some (s, h)"
      "g2 = upd_node h f (\<lambda>n. n\<lparr>cur_step := s\<rparr>)"
      by (auto simp: new_step_def bind_eq_Some_conv)
    then show "sp_root_n_wt_flag (node g2 f)"
      using new_child_flags(1) [OF h(1) uf(1)] uf(1) by (auto simp: same_flags_def)
  qed
  ultimately have "own g' f" using ids_ok_flag [OF ids, of f] d(4) by (auto simp: allocated_def)
  then show ?thesis
    using linked_grows [OF wf gr l ids] fr tf f1 d(4)
    by (auto simp: same_frame_def elim!: map_insert_cases)
qed

text \<open>The top of the stack is a finish scope opened by \<open>CaptureSpawnOnly\<close>.\<close>

definition scope_on_top :: "AFTaskGraph \<Rightarrow> nat list \<Rightarrow> bool" where
  "scope_on_top g xs \<longleftrightarrow>
     (case xs of [] \<Rightarrow> False
      | i # _ \<Rightarrow> type (node g i) = FINISH \<and> \<not> sp_root_n_wt_flag (node g i))"

lemma scope_on_top_own:
  assumes "wf_graph g" "ids_ok g c" "i \<in> set (cur g t)"
  shows "scope_on_top g (i # xs) \<longleftrightarrow> \<not> own g i"
proof -
  have tn: "task_node g i" using wf_graph_stack [OF assms(1,3)] .
  note al = task_node_allocated [OF tn]
  show ?thesis
    using tn ids_ok_type [OF assms(2) al] ids_ok_flag [OF assms(2) al] ids_ok_async [OF assms(2) al]
    by (cases "type (node g i)") (auto simp: scope_on_top_def task_node_def)
qed

lemma CaptureExecute_linked:
  assumes "wf_graph g" "linked g c" "CaptureExecute g t k = Some g'"
  shows "linked g' c"
proof -
  from assms(3) obtain i where i: "temp_cur_map g k = Some i"
    and g': "g' = g\<lparr>temp_cur_map := (temp_cur_map g)(k := None), cur := push (cur g) t i,
                 tidToTaskIdMap := push (tidToTaskIdMap g) t (taskId (node g i))\<rparr>"
    by (auto simp: CaptureExecute_def bind_eq_Some_conv Let_def split: if_splits)
  note o = linked_temp [OF assms(2) i]
  have so: "stack_ok g' xs ys = stack_ok g xs ys" for xs ys
    by (rule stack_ok_cong) (simp add: g')
  have "stack_ok g (cur g' u) (tidToTaskIdMap g' u)" for u
    using linked_stack [OF assms(2), of u] linked_stack [OF assms(2), of t] o
    by (auto simp: g' push_def)
  then show ?thesis
    using assms(2) unfolding linked_def so by (auto simp: g')
qed

lemma stack_ok_task:
  "stack_ok g (i # cs) ts \<Longrightarrow> own g i \<Longrightarrow> ts \<noteq> [] \<Longrightarrow> stack_ok g cs (tl ts)"
  by (auto split: if_splits)

lemma stack_ok_scope: "stack_ok g (i # cs) ts \<Longrightarrow> \<not> own g i \<Longrightarrow> stack_ok g cs ts"
  by (auto split: if_splits)

text \<open>
  \<open>CaptureReturn\<close> closes at most one scope before it pops the task, so it needs the
  task below at most one open scope; \<open>CaptureWaitOnly\<close> pops whatever is on top, so it
  needs an open scope there.
\<close>

lemma CaptureReturn_linked:
  assumes wf: "wf_graph g" and l: "linked g c" and r: "CaptureReturn g t = Some g'"
    and d: "scope_on_top g (cur g t) \<Longrightarrow> \<not> scope_on_top g (tl (cur g t))"
  shows "linked g' c"
proof -
  from r obtain k ts where ts: "tidToTaskIdMap g t = k # ts" and t: "t < NUM_THREADS"
    by (auto simp: CaptureReturn_def bind_eq_Some_conv pop_Some)
  obtain i cs where i: "cur g t = i # cs"
    by (rule linked_top [OF l, of t]) (use ts in auto)
  note st = linked_stack [OF l, of t, unfolded i ts]
  have own: "scope_on_top g (j # xs) \<longleftrightarrow> \<not> own g j" if "j \<in> set (cur g t)" for j xs
    using scope_on_top_own [OF wf linked_ids [OF l] that] .
  let ?h = "\<lambda>ds. g\<lparr>tidToTaskIdMap := (tidToTaskIdMap g)(t := ts), cur := (cur g)(t := ds)\<rparr>"
  obtain ds where g': "g' = ?h ds" and ds: "stack_ok g ds ts"
  proof (cases "scope_on_top g (cur g t)")
    case True
    then have no: "\<not> own g i" using own [of i cs] i by simp
    then obtain j ds where cs: "cs = j # ds" using st by (cases cs) auto
    have "own g j" using d [OF True] own [of j ds] i cs by simp
    then have "stack_ok g ds ts"
      using stack_ok_task [of g j ds "k # ts"] stack_ok_scope [OF st no] cs by simp
    moreover have "g' = ?h ds"
      using r i cs t ts True
      by (simp add: CaptureReturn_def pop_def thread_top_def scope_on_top_def)
    ultimately show thesis using that by blast
  next
    case False
    then have "own g i" using own [of i cs] i by simp
    then have "stack_ok g cs ts" using stack_ok_task [OF st] by simp
    moreover have "g' = ?h cs"
      using r i t ts False
      by (auto simp: CaptureReturn_def pop_def thread_top_def scope_on_top_def Let_def)
    ultimately show thesis using that by blast
  qed
  have so: "stack_ok g' xs ys = stack_ok g xs ys" for xs ys
    by (rule stack_ok_cong) (simp add: g')
  show ?thesis
    using l ds unfolding linked_def so by (auto simp: g')
qed

lemma CaptureWaitOnly_linked:
  assumes wf: "wf_graph g" and l: "linked g c" and w: "CaptureWaitOnly g t = Some g'"
    and d: "scope_on_top g (cur g t)"
  shows "linked g' c"
proof -
  from w obtain i cs where i: "cur g t = i # cs" and
    wt: "CaptureWait (g\<lparr>cur := (cur g)(t := cs)\<rparr>) t = Some g'" (is "CaptureWait ?h t = _")
    by (auto simp: CaptureWaitOnly_def CaptureWait_def bind_eq_Some_conv Let_def pop_Some)
  have "\<not> own g i" using d scope_on_top_own [OF wf linked_ids [OF l], of i t cs] i by simp
  then have cs: "stack_ok g cs (tidToTaskIdMap g t)"
    using linked_stack [OF l, of t] stack_ok_scope [of g i cs] i by metis
  have "\<forall>x \<in> set cs. task_node g x"
    using wf_graph_stack [OF wf, of _ t] i by (metis list.set_intros(2))
  then have h: "wf_graph ?h" using wf by (auto simp: wf_graph_def)
  have so: "stack_ok ?h xs ys = stack_ok g xs ys" for xs ys by (rule stack_ok_cong) simp
  have "stack_ok g (cur ?h u) (tidToTaskIdMap ?h u)" for u
    using cs linked_stack [OF l, of u] by simp
  then have lh: "linked ?h c" using l unfolding linked_def so by simp
  from wt obtain j where j: "thread_top (cur ?h) t = Some j" "new_step ?h j = Some g'"
    by (auto simp: CaptureWait_def bind_eq_Some_conv)
  have tn: "task_node ?h j" using wf_graph_top [OF h j(1)] .
  note n = new_step_core [OF wf_graph_core [OF h] task_node_allocated [OF tn] task_node_type [OF tn] j(2)]
  show ?thesis
    using linked_grows [OF h n(2) lh CaptureWait_ids [OF h linked_ids [OF lh] wt]] n(3)
    by (auto simp: same_frame_def)
qed

lemma linked_mono:
  assumes "linked g c" "c \<le> d"
  shows "linked g d"
  using assms unfolding linked_def ids_ok_def by (meson le_trans)

lemma AFTaskGraph_new_linked:
  assumes "AFTaskGraph_new base = Some g"
  shows "linked g 0"
  using assms
  by (auto simp: AFTaskGraph_new_def create_node_def initialize_task_def upd_node_def Let_def
      bind_eq_Some_conv linked_def ids_ok_def own_def allocated_def push_def split: if_splits)

section \<open>The query of the detector\<close>

text \<open>
  While a thread runs a task, its stack top has a current step, and \<open>areParallel\<close> with
  the task's identifier decides \<open>mhp\<close> for that step: both shortcuts are right.
\<close>

lemma running_step:
  assumes wf: "wf_graph g" and l: "linked g c" and run: "tidToTaskIdMap g t \<noteq> []"
    and t: "t < NUM_THREADS"
  obtains i where "thread_top (cur g) t = Some i" "getCurTask g t = Some (cur_step (node g i))"
    "is_step g (cur_step (node g i))" "taskId (node g (cur_step (node g i))) = hd (tidToTaskIdMap g t)"
    "taskId (node g i) = hd (tidToTaskIdMap g t)"
proof -
  obtain i cs where i: "cur g t = i # cs" "i \<noteq> 1" "taskId (node g i) = hd (tidToTaskIdMap g t)"
    by (rule linked_top [OF l run])
  have tn: "task_node g i" using wf_graph_stack [OF wf, of i t] i(1) by simp
  then have "cur_step (node g i) \<noteq> 0" using i(2) by (simp add: task_node_def)
  note s = wf_core_cur_step [OF wf_graph_core [OF wf] task_node_allocated [OF tn] this]
  show thesis
    by (rule that [of i]) (use i t s in \<open>auto simp: thread_top_def getCurTask_def\<close>)
qed

lemma areParallel_correct:
  assumes wf: "wf_graph g" and l: "linked g c" and k: "tidToTaskIdMap g t = k # ks"
    and t: "t < NUM_THREADS" and s: "getCurTask g t = Some s" and r: "is_step g r"
  shows "\<exists>tb. areParallel g k r t = Some (mhp (tgraph_nodes g) s r, g\<lparr>lcaHashTable := tb\<rparr>) \<and>
    wf_core (g\<lparr>lcaHashTable := tb\<rparr>)"
proof -
  have run: "tidToTaskIdMap g t \<noteq> []" using k by simp
  obtain i where i: "thread_top (cur g) t = Some i" "getCurTask g t = Some (cur_step (node g i))"
    "is_step g (cur_step (node g i))" "taskId (node g (cur_step (node g i))) = k"
    "taskId (node g i) = k"
    by (rule running_step [OF wf l run t]) (simp add: k)
  have si: "s = cur_step (node g i)" using s i(2) by simp
  note core = wf_graph_core [OF wf]
  show ?thesis
  proof (cases "k = taskId (node g r)")
    case True
    have "\<not> mhp (tgraph_nodes g) s r"
      using same_task_not_mhp [OF core linked_ids [OF l] i(3) r] i(4) True si by simp
    then show ?thesis
      using True core by (intro exI [of _ "lcaHashTable g"]) (simp add: areParallel_def)
  next
    case False
    then have "areParallel g k r t = parallel g s r"
      using i si by (simp add: areParallel_def)
    moreover have "s \<noteq> r" using False i(4) si by auto
    ultimately show ?thesis using parallel_correct [OF core _ r, of s] i(3) si by simp
  qed
qed

end
