(* ===== verification/Spd3Sound.thy ===== *)
theory Spd3Sound
  imports Spd3 TaskStacks
begin

text \<open>
  Correctness of the SPD3 access handler.  A reference rule on the program structure
  tree says which access is a race and what the shadow cell becomes; \<open>RecordMem\<close>, with
  its cache, its shortcuts and its climbing loops, implements it.  Over whole runs of a
  disciplined client, every reported violation is a pair of recorded accesses to one
  shadow cell that conflict and are logically parallel.
\<close>

section \<open>The reference rule\<close>

definition par_with :: "(nat \<Rightarrow> AFTask) \<Rightarrow> nat \<Rightarrow> nat option \<Rightarrow> bool" where
  "par_with ns s p \<longleftrightarrow> (case p of None \<Rightarrow> False | Some n \<Rightarrow> mhp ns s n)"

definition ref_race :: "(nat \<Rightarrow> AFTask) \<Rightarrow> nat \<Rightarrow> AccessType \<Rightarrow> Dr_Address_Data
    \<Rightarrow> (nat \<times> AccessType) option" where
  "ref_race ns s k c =
     (if par_with ns s (wr_task c) then Some (the (wr_task c), WRITE)
      else if k = WRITE \<and> par_with ns s (r1_task c) then Some (the (r1_task c), READ)
      else if k = WRITE \<and> par_with ns s (r2_task c) then Some (the (r2_task c), READ)
      else None)"

definition ref_lca :: "(nat \<Rightarrow> AFTask) \<Rightarrow> nat \<Rightarrow> nat \<Rightarrow> nat" where
  "ref_lca ns a b = hd (filter (\<lambda>z. z \<in> set (root_path ns b)) (root_path ns a))"

definition ref_cell :: "(nat \<Rightarrow> AFTask) \<Rightarrow> nat \<Rightarrow> AccessType \<Rightarrow> Dr_Address_Data
    \<Rightarrow> Dr_Address_Data" where
  "ref_cell ns s k c =
     (if k = WRITE then c\<lparr>wr_task := Some s\<rparr>
      else case (r1_task c, r2_task c) of
             (None, _) \<Rightarrow> c\<lparr>r1_task := Some s\<rparr>
           | (Some r1, None) \<Rightarrow> c\<lparr>r2_task := Some s\<rparr>
           | (Some r1, Some r2) \<Rightarrow>
               if \<not> mhp ns s r1 \<and> \<not> mhp ns s r2 then c\<lparr>r1_task := Some s, r2_task := None\<rparr>
               else if mhp ns s r1 \<and> mhp ns s r2 \<and>
                       depth (ns (ref_lca ns r1 s)) < depth (ns (ref_lca ns r1 r2))
               then c\<lparr>r1_task := Some s\<rparr>
               else c)"

definition cell_steps :: "Dr_Address_Data \<Rightarrow> nat set" where
  "cell_steps c = set_option (wr_task c) \<union> set_option (r1_task c) \<union> set_option (r2_task c)"

text \<open>The first common node on the way up is the lowest common ancestor.\<close>

lemma root_path_depths:
  assumes "wf_tree ns m" "0 < i" "i \<le> m"
  shows "\<exists>xs. root_path ns i = i # xs \<and> (\<forall>x \<in> set xs. anc ns x i \<and> depth (ns x) < depth (ns i))"
proof -
  have "root_path ns i = i # tl (root_path ns i)" by (subst (1 2) root_path.simps) simp
  moreover have "distinct (root_path ns i)"
    using assms
  proof (induction i rule: node_induct)
    case root
    show ?case by (simp add: root_path_root)
  next
    case (child i)
    have "i \<notin> set (root_path ns (parent (ns i)))"
      using anc_range(2) [OF assms(1) child.hyps(3), of i] child.hyps by auto
    then show ?case using child.IH root_path_node [OF assms(1) child.hyps(1,2)] by simp
  qed
  ultimately have "root_path ns i = i # tl (root_path ns i)" "i \<notin> set (tl (root_path ns i))"
    by (auto simp: distinct_tl) (metis distinct.simps(2))
  then show ?thesis
    using anc_depth [OF assms] by (metis le_neq_implies_less list.set_intros(2))
qed

lemma first_common_ancestor:
  assumes wf: "wf_tree ns m" and i: "0 < i" "i \<le> m" and l: "l \<in> set (root_path ns i)"
    and P: "P l" and top: "\<And>z. z \<in> set (root_path ns i) \<Longrightarrow> P z \<Longrightarrow> anc ns z l"
  shows "hd (filter P (root_path ns i)) = l"
  using wf i l top
proof (induction i rule: node_induct)
  case root
  then show ?case using P by (simp add: root_path_root)
next
  case (child i)
  note rp = root_path_node [OF wf child.hyps(1,2)]
  have i0: "0 < i" using child.hyps(1) by simp
  show ?case
  proof (cases "P i")
    case True
    then have "anc ns i l" using child.prems(2) [of i] by simp
    moreover have "anc ns l i" using child.prems(1) .
    ultimately have "i = l"
      using anc_range [OF wf i0 child.hyps(2), of l] anc_range(2) [OF wf _ _ \<open>anc ns i l\<close>]
      by (intro antisym) auto
    then show ?thesis using True rp by simp
  next
    case False
    then have "l \<noteq> i" using P by auto
    then have "l \<in> set (root_path ns (parent (ns i)))" using child.prems(1) rp by simp
    then show ?thesis using child.IH child.prems(2) False rp by simp
  qed
qed

lemma ref_lca_correct:
  assumes "wf_tree ns m" "0 < a" "a \<le> m" "is_lca ns l a b"
  shows "ref_lca ns a b = l"
  unfolding ref_lca_def
  by (rule first_common_ancestor [OF assms(1-3)]) (use assms(4) in \<open>auto simp: is_lca_def\<close>)

section \<open>The handler implements the rule\<close>

text \<open>What holds while a thread runs a task with current step \<open>s\<close>.\<close>

definition running :: "AFTaskGraph \<Rightarrow> nat \<Rightarrow> THREADID \<Rightarrow> nat \<Rightarrow> nat \<Rightarrow> bool" where
  "running g c t k s \<longleftrightarrow>
     wf_graph g \<and> linked g c \<and> t < NUM_THREADS \<and> stack_top (tidToTaskIdMap g t) = Some k \<and>
     getCurTask g t = Some s"

lemma wf_graph_cache:
  assumes "wf_graph g" "wf_core (g\<lparr>lcaHashTable := tb\<rparr>)"
  shows "wf_graph (g\<lparr>lcaHashTable := tb\<rparr>)"
  using assms by (auto simp: wf_graph_def task_node_def allocated_def)

lemma linked_cache: "linked g c \<Longrightarrow> linked (g\<lparr>lcaHashTable := tb\<rparr>) c"
proof -
  have "stack_ok (g\<lparr>lcaHashTable := tb\<rparr>) xs ys = stack_ok g xs ys" for xs ys
    by (rule stack_ok_cong) simp
  then show "linked g c \<Longrightarrow> linked (g\<lparr>lcaHashTable := tb\<rparr>) c" by (simp add: linked_def)
qed

lemma running_cache:
  "running g c t k s \<Longrightarrow> wf_core (g\<lparr>lcaHashTable := tb\<rparr>) \<Longrightarrow> running (g\<lparr>lcaHashTable := tb\<rparr>) c t k s"
  unfolding running_def by (auto intro: wf_graph_cache linked_cache simp: getCurTask_def)

lemma is_step_cache [simp]: "is_step (g\<lparr>lcaHashTable := tb\<rparr>) n = is_step g n"
  by (simp add: is_step_def allocated_def)

text \<open>A query leaves the state as it was, up to the cache.\<close>

abbreviation cached :: "AFTaskGraph \<Rightarrow> lca_table \<Rightarrow> AFTaskGraph" where
  "cached g tb \<equiv> g\<lparr>lcaHashTable := tb\<rparr>"

lemma areParallel_cached:
  assumes "running g c t k s" "is_step g n" "wf_core (cached g tb)"
  obtains tb' where "areParallel (cached g tb) k n t = Some (mhp (tgraph_nodes g) s n, cached g tb')"
    "wf_core (cached g tb')"
  using areParallel_correct [of "cached g tb" c t k _ s n] running_cache [OF assms(1,3)] assms(2) that
  unfolding running_def by fastforce

lemma and_parallel_cached:
  assumes "running g c t k s" "set_option p \<subseteq> Collect (is_step g)" "wf_core (cached g tb)"
  obtains tb' where "and_parallel (cached g tb) k p t = Some (par_with (tgraph_nodes g) s p, cached g tb')"
    "wf_core (cached g tb')"
proof (cases p)
  case None
  then show thesis using that assms(3) by (simp add: and_parallel_def par_with_def)
next
  case (Some n)
  then have "is_step g n" using assms(2) by simp
  then show thesis
    using areParallel_cached [OF assms(1) _ assms(3)] that Some
    by (auto simp: and_parallel_def par_with_def)
qed

lemma running_core: "running g c t k s \<Longrightarrow> wf_core (cached g (lcaHashTable g))"
  by (simp add: running_def wf_graph_core)

definition record_race ::
    "(ADDRINT \<rightharpoonup> violation) \<Rightarrow> ADDRINT \<Rightarrow> nat \<Rightarrow> AccessType \<Rightarrow> (nat \<times> AccessType) option
       \<Rightarrow> (ADDRINT \<rightharpoonup> violation)" where
  "record_race viol a s k r =
     (case r of None \<Rightarrow> viol
      | Some (n, kn) \<Rightarrow> viol(a \<mapsto> \<lparr>a1 = \<lparr>task = s, accessType = k\<rparr>,
                                   a2 = \<lparr>task = n, accessType = kn\<rparr>\<rparr>))"

lemma check_races_correct:
  assumes run: "running g c t k s" and st: "cell_steps d \<subseteq> Collect (is_step g)"
    and new: "viol a = None"
  obtains tb where "check_races g viol k t a at s d =
      Some (cached g tb, record_race viol a s at (ref_race (tgraph_nodes g) s at d))"
    "wf_core (cached g tb)"
proof -
  let ?par = "par_with (tgraph_nodes g) s"
  have st': "set_option (wr_task d) \<subseteq> Collect (is_step g)"
    "set_option (r1_task d) \<subseteq> Collect (is_step g)" "set_option (r2_task d) \<subseteq> Collect (is_step g)"
    using st by (auto simp: cell_steps_def)
  obtain tb1 where 1: "and_parallel (cached g (lcaHashTable g)) k (wr_task d) t =
      Some (?par (wr_task d), cached g tb1)" "wf_core (cached g tb1)"
    by (rule and_parallel_cached [OF run st'(1) running_core [OF run]])
  obtain tb2 where 2: "and_parallel (cached g tb1) k (r1_task d) t =
      Some (?par (r1_task d), cached g tb2)" "wf_core (cached g tb2)"
    by (rule and_parallel_cached [OF run st'(2) 1(2)])
  obtain tb3 where 3: "and_parallel (cached g tb2) k (r2_task d) t =
      Some (?par (r2_task d), cached g tb3)" "wf_core (cached g tb3)"
    by (rule and_parallel_cached [OF run st'(3) 2(2)])
  have ins: "map_insert (viol(a \<mapsto> v)) a w = viol(a \<mapsto> v)" "map_insert viol a w = viol(a \<mapsto> w)" for v w
    using new by (simp_all add: map_insert_fresh)
  show thesis
    by (rule that [of "if at = WRITE then if ?par (r1_task d) then tb2 else tb3 else tb1"])
      (use 1 2 3 in \<open>auto simp: check_races_def ref_race_def record_race_def report_def ins Let_def\<close>)
qed

lemma LCA_cached:
  assumes "wf_core (cached g tb)" "is_step g a" "is_step g b"
  shows "LCA (cached g tb) a b = Some (ref_lca (tgraph_nodes g) a b)"
proof -
  have al: "allocated (cached g tb) a" "allocated (cached g tb) b"
    using assms(2,3) by (simp_all add: is_step_def allocated_def)
  then obtain l where l: "LCA (cached g tb) a b = Some l" "is_lca (tgraph_nodes g) l a b"
    using LCA_correct [OF assms(1)] by auto
  then show ?thesis
    using ref_lca_correct [OF wf_core_tree [OF assms(1)], of a l b] al by (simp add: allocated_def)
qed

lemma update_cell_correct:
  assumes run: "running g c t k s" and st: "cell_steps d \<subseteq> Collect (is_step g)" and s: "is_step g s"
    and tb: "wf_core (cached g tb)"
  obtains tb' where "update_cell (cached g tb) k t at s d =
      Some (cached g tb', ref_cell (tgraph_nodes g) s at d)"
    "wf_core (cached g tb')"
proof (cases "at = WRITE \<or> r1_task d = None \<or> r2_task d = None")
  case True
  then show thesis
    using that [OF _ tb] by (auto simp: update_cell_def ref_cell_def split: option.splits)
next
  case False
  then obtain r1 r2 where r: "r1_task d = Some r1" "r2_task d = Some r2" and at: "at \<noteq> WRITE" by auto
  have rs: "is_step g r1" "is_step g r2" using st r by (auto simp: cell_steps_def)
  obtain tb1 where 1: "areParallel (cached g tb) k r1 t = Some (mhp (tgraph_nodes g) s r1, cached g tb1)"
    "wf_core (cached g tb1)" by (rule areParallel_cached [OF run rs(1) tb])
  obtain tb2 where 2: "areParallel (cached g tb1) k r2 t = Some (mhp (tgraph_nodes g) s r2, cached g tb2)"
    "wf_core (cached g tb2)" by (rule areParallel_cached [OF run rs(2) 1(2)])
  show thesis
    by (rule that [OF _ 2(2)])
      (use 1 2 r at in \<open>auto simp: update_cell_def ref_cell_def LCA_cached [OF 2(2)] rs s Let_def\<close>)
qed

lemma RecordMem_refines:
  assumes run: "running (taskGraph s) c t k n"
    and st: "\<And>b. cell_steps (cell_at zero_cell (shadow s) b) \<subseteq> Collect (is_step (taskGraph s))"
    and n: "is_step (taskGraph s) n" and x: "\<not> exceptions s t a"
  obtains tb where "wf_core (cached (taskGraph s) tb)"
    "RecordMem s t a at = Some (s\<lparr>taskGraph := cached (taskGraph s) tb,
       all_violations := record_race (all_violations s) a n at
         (ref_race (tgraph_nodes (taskGraph s)) n at (cell_at zero_cell (shadow s) a)),
       shadow := put_cell zero_cell (touch_page zero_cell (shadow s) (primary_index a)) a
         (ref_cell (tgraph_nodes (taskGraph s)) n at (cell_at zero_cell (shadow s) a))\<rparr>)"
proof -
  let ?d = "cell_at zero_cell (shadow s) a"
  have new: "all_violations s a = None" using x by (simp add: exceptions_def)
  obtain tb1 where 1: "check_races (taskGraph s) (all_violations s) k t a at n ?d =
      Some (cached (taskGraph s) tb1, record_race (all_violations s) a n at
        (ref_race (tgraph_nodes (taskGraph s)) n at ?d))" "wf_core (cached (taskGraph s) tb1)"
    by (rule check_races_correct [where viol = "all_violations s" and a = a, OF run st new])
  obtain tb2 where 2: "update_cell (cached (taskGraph s) tb1) k t at n ?d =
      Some (cached (taskGraph s) tb2, ref_cell (tgraph_nodes (taskGraph s)) n at ?d)"
    "wf_core (cached (taskGraph s) tb2)"
    by (rule update_cell_correct [OF run st n 1(2)])
  have r: "t < NUM_THREADS" "stack_top (tidToTaskIdMap (taskGraph s) t) = Some k"
    "getCurTask (taskGraph s) t = Some n"
    using run by (auto simp: running_def)
  show thesis
    by (rule that [OF 2(2)])
      (use r(1) x in \<open>simp add: RecordMem_def r(2,3) 1(1) 2(1) cell_at_touch Let_def del: stack_top_Some\<close>)
qed

end
