(* ===== verification/ForkJoin.thy ===== *)
theory ForkJoin
  imports TaskStacks
begin

text \<open>
  What spawning and waiting mean for the order of steps: a spawned task runs in parallel
  with the continuation of its spawner and after everything the spawner did before; a
  wait orders the closed finish scope before what follows.  Old answers never change.
\<close>

section \<open>Siblings decide\<close>

lemma mhp_siblings:
  assumes wf: "wf_tree (tgraph_nodes g) (last_allocated_node g)"
    and x: "allocated g x" "x \<noteq> 1" and y: "allocated g y" "y \<noteq> 1"
    and p: "parent (node g x) = parent (node g y)" and xy: "x < y"
    and a: "allocated g a" "anc (tgraph_nodes g) x a" and b: "allocated g b" "anc (tgraph_nodes g) y b"
  shows "mhp (tgraph_nodes g) a b \<longleftrightarrow> type (node g x) = ASYNC"
    and "mhp (tgraph_nodes g) b a \<longleftrightarrow> type (node g x) = ASYNC"
proof -
  let ?m = "last_allocated_node g"
  have r: "0 < a" "a \<le> ?m" "0 < b" "b \<le> ?m" "1 < x" "1 < y" "y \<le> ?m"
    using a b x y by (auto simp: allocated_def)
  have br: "branches (tgraph_nodes g) a b x y"
    using a(2) b(2) p xy r by (simp add: branches_def)
  have "seq_num (node g x) < seq_num (node g y)"
    using wf_tree_siblings [OF wf r(5) xy r(7) p] .
  then show "mhp (tgraph_nodes g) a b \<longleftrightarrow> type (node g x) = ASYNC"
    using mhp_branches [OF wf r(1-4) br] by simp
  then show "mhp (tgraph_nodes g) b a \<longleftrightarrow> type (node g x) = ASYNC"
    using mhp_sym [OF wf r(1-4)] by simp
qed

lemma child_anc:
  assumes "wf_core g" "allocated g i" "i \<noteq> 1"
  shows "anc (tgraph_nodes g) (parent (node g i)) i"
  using anc_node_iff [OF wf_core_tree [OF assms(1)], of i] assms(2,3) by (auto simp: allocated_def)

text \<open>The step a node gets from \<open>new_step\<close> is younger than everything before it.\<close>

lemma new_step_fresh:
  assumes wf: "wf_core g" and p: "allocated g p" "type (node g p) \<noteq> STEP"
    and ns: "new_step g p = Some g'"
  shows "is_step g' (cur_step (node g' p))" "parent (node g' (cur_step (node g' p))) = p"
    "last_allocated_node g < cur_step (node g' p)"
    "\<And>j. j \<noteq> p \<Longrightarrow> allocated g j \<Longrightarrow> cur_step (node g' j) = cur_step (node g j)"
proof -
  from ns obtain s g1 where s: "new_child g STEP (taskId (node g p)) p = Some (s, g1)"
    and g': "g' = upd_node g1 p (\<lambda>n. n\<lparr>cur_step := s\<rparr>)"
    by (auto simp: new_step_def bind_eq_Some_conv)
  have pl: "p \<le> last_allocated_node g" using p(1) by (simp add: allocated_def)
  note c = new_child_core [OF wf p s] and e = new_child_eq [OF s pl]
  note n = new_step_core [OF wf p ns]
  show "is_step g' (cur_step (node g' p))" "parent (node g' (cur_step (node g' p))) = p"
    using wf_core_cur_step [OF n(1) _ n(4)] grows_allocated [OF n(2) p(1)] by auto
  show "last_allocated_node g < cur_step (node g' p)" using e by (simp add: g')
  show "cur_step (node g' j) = cur_step (node g j)" if "j \<noteq> p" "allocated g j" for j
    using that e by (auto simp: g' allocated_def)
qed

section \<open>Spawning\<close>

text \<open>
  After the spawn, \<open>a\<close> is the new task's node; its first step is parallel with the
  spawner's next step, and a step the spawner was in before is ordered with both.
\<close>

lemma spawn_order:
  assumes wf: "wf_core h" and a: "allocated h a" "type (node h a) = ASYNC" "parent (node h a) = c"
    and c: "allocated h c" "type (node h c) \<noteq> STEP" and ac: "a \<noteq> 1"
    and s: "new_step h a = Some g1" "new_step g1 c = Some g2"
  shows "mhp (tgraph_nodes g2) (cur_step (node g2 a)) (cur_step (node g2 c))"
    "is_step g2 (cur_step (node g2 a))" "is_step g2 (cur_step (node g2 c))"
    "\<And>x p. allocated h x \<Longrightarrow> x \<noteq> 1 \<Longrightarrow> type (node h x) = STEP \<Longrightarrow>
       parent (node h x) = c \<and> x < a \<or> c \<noteq> 1 \<and> parent (node h x) = parent (node h c) \<and> x < c \<Longrightarrow>
       \<not> mhp (tgraph_nodes g2) x (cur_step (node g2 a)) \<and>
       \<not> mhp (tgraph_nodes g2) x (cur_step (node g2 c))"
proof -
  have at: "type (node h a) \<noteq> STEP" using a(2) by simp
  have ne: "a \<noteq> c"
    using wf_tree_node(2) [OF wf_core_tree [OF wf], of a] a(1,3) ac by (auto simp: allocated_def)
  note n1 = new_step_core [OF wf a(1) at s(1)] and f1 = new_step_fresh [OF wf a(1) at s(1)]
  have c1: "allocated g1 c" "type (node g1 c) \<noteq> STEP"
    using c n1(2) grows_allocated extends_node(2) [OF grows_extends [OF n1(2)] c(1)] by auto
  note n2 = new_step_core [OF n1(1) c1 s(2)] and f2 = new_step_fresh [OF n1(1) c1 s(2)]
  have gr: "grows h g2" using n1(2) n2(2) grows_trans by blast
  note ext = grows_extends [OF gr]
  note tree = wf_core_tree [OF n2(1)]
  have a2: "allocated g2 a" "type (node g2 a) = ASYNC" "parent (node g2 a) = c"
    using extends_node [OF ext a(1)] a extends_allocated [OF ext a(1)] by auto
  have c2: "allocated g2 c" using extends_allocated [OF ext c(1)] .
  let ?s = "cur_step (node g2 a)" and ?r = "cur_step (node g2 c)"
  have "cur_step (node g1 a) \<noteq> 0" by (rule n1(4))
  then have s0: "?s \<noteq> 0" using n2(2) grows_allocated [OF n1(2) a(1)] by (simp add: grows_def)
  note st = wf_core_cur_step [OF n2(1) a2(1) s0]
  show "is_step g2 ?s" "is_step g2 ?r" by (fact st(1), fact f2(1))
  have al: "allocated g2 ?s" "allocated g2 ?r" using st(1) f2(1) by (simp_all add: is_step_def)
  have "0 < c" using c(1) by (simp add: allocated_def)
  then have r1: "?r \<noteq> 1" "?s \<noteq> 1"
    using wf_tree_root(2) [OF tree] f2(1) st(1) by (auto simp: is_step_def)
  have "a \<le> last_allocated_node g1"
    using grows_allocated [OF n1(2) a(1)] by (simp add: allocated_def)
  then have ar: "a < ?r" using f2(3) by simp
  have as: "anc (tgraph_nodes g2) a ?s" using child_anc [OF n2(1) al(1) r1(2)] st(2) by simp
  have cs: "anc (tgraph_nodes g2) c ?r" using child_anc [OF n2(1) al(2) r1(1)] f2(2) by simp
  have ca: "anc (tgraph_nodes g2) c a" using child_anc [OF n2(1) a2(1) ac] a2(3) by simp
  have sm: "0 < ?s" "?s \<le> last_allocated_node g2" using al(1) by (auto simp: allocated_def)
  show "mhp (tgraph_nodes g2) ?s ?r"
    using mhp_siblings(1) [OF tree a2(1) ac al(2) r1(1) _ ar al(1) as al(2)] a2 f2(2) by simp
  fix x :: nat and p :: nat
  assume x: "allocated h x" "x \<noteq> 1" "type (node h x) = STEP"
    and px: "parent (node h x) = c \<and> x < a \<or> c \<noteq> 1 \<and> parent (node h x) = parent (node h c) \<and> x < c"
  have x2: "allocated g2 x" "type (node g2 x) \<noteq> ASYNC" "parent (node g2 x) = parent (node h x)"
    using extends_node [OF ext x(1)] x extends_allocated [OF ext x(1)] by auto
  from px show "\<not> mhp (tgraph_nodes g2) x ?s \<and> \<not> mhp (tgraph_nodes g2) x ?r"
  proof (elim disjE conjE)
    assume "parent (node h x) = c" "x < a"
    then show ?thesis
      using mhp_siblings(1) [OF tree x2(1) x(2) a2(1) ac _ _ x2(1) anc_refl al(1) as]
        mhp_siblings(1) [OF tree x2(1) x(2) al(2) r1(1) _ _ x2(1) anc_refl al(2) anc_refl]
        x2 a2 f2(2) ar by simp
  next
    assume q: "c \<noteq> 1" "parent (node h x) = parent (node h c)" "x < c"
    have "anc (tgraph_nodes g2) c ?s" using anc_trans [OF tree sm ca as] .
    then show ?thesis
      using mhp_siblings(1) [OF tree x2(1) x(2) c2 q(1) _ q(3) x2(1) anc_refl al(1)]
        mhp_siblings(1) [OF tree x2(1) x(2) c2 q(1) _ q(3) x2(1) anc_refl al(2) cs]
        x2 q(2) extends_node(1) [OF ext c(1)] by simp
  qed
qed

text \<open>Both branches of \<open>CaptureSpawnOnly\<close> reach this situation.\<close>

lemma CaptureSpawnOnly_shape:
  assumes wf: "wf_graph g" and sp: "CaptureSpawnOnly g t k = Some g'"
  obtains i h a c g1 g2 where "thread_top (cur g) t = Some i" "wf_core h" "grows g h"
    "allocated h a" "type (node h a) = ASYNC" "parent (node h a) = c" "a \<noteq> 1"
    "allocated h c" "type (node h c) \<noteq> STEP" "new_step h a = Some g1" "new_step g1 c = Some g2"
    "g' = g2\<lparr>temp_cur_map := map_insert (temp_cur_map g) k a\<rparr>"
    "thread_top (cur g') t = Some c" "\<not> allocated g a"
    "c = i \<or> \<not> allocated g c \<and> c \<noteq> 1 \<and> parent (node h c) = i"
  using sp
proof (cases rule: CaptureSpawnOnly_cases)
  case (same i a g0 g1 g2)
  note core = wf_graph_core [OF wf]
  have tn: "task_node g i" using wf_graph_top [OF wf same(1)] .
  note p = task_node_allocated [OF tn] task_node_type [OF tn]
  note b = spawn_branch_async_wf [OF core tn same(3)]
  note n = new_child_core [OF core p same(3)]
  let ?u = "upd_node g0 i (\<lambda>n. n\<lparr>young_ns_child := ASYNC\<rparr>)"
  have ac: "allocated ?u a" "type (node ?u a) = ASYNC" "parent (node ?u a) = i"
    "allocated ?u i" "type (node ?u i) \<noteq> STEP" "type (node ?u a) \<noteq> STEP"
    using b n(7) by auto
  have a1: "a \<noteq> 1" using n(5) p(1) by (auto simp: allocated_def)
  have fr: "same_frame g g2"
    using b(3) spawn_tail_wf(3) [OF b(1) ac(1,6,4,5) same(4,5)] same_frame_trans same_frame_upd_node
    by metis
  show thesis
    by (rule that [OF same(1) b(1,2) ac(1-3) a1 ac(4,5) same(4,5)])
      (use same(1,6) fr n(5) in \<open>auto simp: same_frame_def\<close>)
next
  case (scope i f a h0 h1 g1 g2)
  note core = wf_graph_core [OF wf]
  have tn: "task_node g i" using wf_graph_top [OF wf scope(1)] .
  note p = task_node_allocated [OF tn] task_node_type [OF tn]
  note b = spawn_branch_wf [OF core tn scope(3,4)]
  note n = new_child_core [OF core p scope(3)]
  let ?w = "upd_node h0 i (\<lambda>n. n\<lparr>young_ns_child := FINISH\<rparr>)"
  have w: "wf_core ?w" by (intro wf_core_upd n(1)) (auto simp: shape_le_def)
  have wf': "allocated ?w f" "type (node ?w f) \<noteq> STEP" using n(4,6) by auto
  note m = new_child_core [OF w wf' scope(4)]
  let ?u = "(upd_node h1 f (\<lambda>n. n\<lparr>young_ns_child := ASYNC\<rparr>))\<lparr>cur := push (cur h1) t f\<rparr>"
  have u: "wf_core ?u" "grows g ?u" using b(1,2) by simp_all
  have pf: "parent (node h1 f) = i"
    using n(7) extends_node(1) [OF grows_extends [OF m(2)] wf'(1)] by (auto split: if_splits)
  have ac: "allocated ?u a" "type (node ?u a) = ASYNC" "parent (node ?u a) = f"
    "allocated ?u f" "type (node ?u f) \<noteq> STEP" "type (node ?u a) \<noteq> STEP" "parent (node ?u f) = i"
    using b m(7) pf by (auto simp: allocated_def)
  have na: "\<not> allocated g a" using m(5) n(2) grows_allocated by auto
  have a1: "a \<noteq> 1" "f \<noteq> 1" using n(5) na p(1) by (auto simp: allocated_def)
  have fr: "cur g2 = push (cur g) t f" "temp_cur_map g2 = temp_cur_map g"
    using b(3) spawn_tail_wf(3) [OF u(1) ac(1,6,4,5) scope(5,6)] by (auto simp: same_frame_def)
  have t: "t < NUM_THREADS" using scope(1) by (simp add: thread_top_Some)
  show thesis
    by (rule that [OF scope(1) u ac(1-3) a1(1) ac(4,5) scope(5,6)])
      (use scope(7) fr t n(5) na ac(7) a1 in \<open>auto simp: push_def thread_top_def\<close>)
qed

lemma CaptureSpawnOnly_order:
  assumes wf: "wf_graph g" and sp: "CaptureSpawnOnly g t k = Some g'" and fresh: "temp_cur_map g k = None"
  obtains a c where "temp_cur_map g' k = Some a" "getCurTask g' t = Some c"
    "is_step g' (cur_step (node g' a))" "is_step g' c"
    "mhp (tgraph_nodes g') (cur_step (node g' a)) c"
    "\<And>s. getCurTask g t = Some s \<Longrightarrow> s \<noteq> 0 \<Longrightarrow>
       \<not> mhp (tgraph_nodes g') s (cur_step (node g' a)) \<and> \<not> mhp (tgraph_nodes g') s c"
proof -
  from sp obtain i h a c g1 g2 where i: "thread_top (cur g) t = Some i" and h: "wf_core h" "grows g h"
    and a: "allocated h a" "type (node h a) = ASYNC" "parent (node h a) = c" "a \<noteq> 1"
    and c: "allocated h c" "type (node h c) \<noteq> STEP"
    and s: "new_step h a = Some g1" "new_step g1 c = Some g2"
    and g': "g' = g2\<lparr>temp_cur_map := map_insert (temp_cur_map g) k a\<rparr>"
    and top: "thread_top (cur g') t = Some c" "\<not> allocated g a"
    and ci: "c = i \<or> \<not> allocated g c \<and> c \<noteq> 1 \<and> parent (node h c) = i"
    by (rule CaptureSpawnOnly_shape [OF wf])
  note o = spawn_order [OF h(1) a(1-3) c a(4) s]
  note core = wf_graph_core [OF wf] and ext = grows_extends [OF h(2)]
  have tn: "task_node g i" using wf_graph_top [OF wf i] .
  have nodes: "tgraph_nodes g' = tgraph_nodes g2" "is_step g' = is_step g2"
    by (simp_all add: g' is_step_def [abs_def] allocated_def)
  have old: "\<not> mhp (tgraph_nodes g2) x (cur_step (node g2 a)) \<and>
      \<not> mhp (tgraph_nodes g2) x (cur_step (node g2 c))"
    if "getCurTask g t = Some x" "x \<noteq> 0" for x
  proof -
    have x: "x = cur_step (node g i)" using that(1) i by (auto simp: getCurTask_def)
    note w = wf_core_cur_step [OF core task_node_allocated [OF tn], folded x, OF that(2)]
    then have ax: "allocated g x" "type (node g x) = STEP" by (simp_all add: is_step_def)
    have x1: "x \<noteq> 1" using wf_tree_root(2) [OF wf_core_tree [OF core]] ax(2) by auto
    have lt: "x < j" if "\<not> allocated g j" "allocated h j" for j
      using ax(1) that by (auto simp: allocated_def)
    have "parent (node h x) = i" "type (node h x) = STEP"
      using extends_node [OF ext ax(1)] w(2) ax(2) by auto
    then show ?thesis
      using o(4) [of x] extends_allocated [OF ext ax(1)] x1 ci lt [OF top(2) a(1)] lt [OF _ c(1)] by auto
  qed
  show thesis
    by (rule that [of a "cur_step (node g2 c)"])
      (use o(1-3) old top(1) fresh in
        \<open>auto simp: g' getCurTask_def map_insert_fresh is_step_def allocated_def\<close>)
qed

section \<open>Waiting\<close>

text \<open>
  The step after a wait is ordered after everything below the finish scope that the wait
  closes.
\<close>

lemma CaptureWaitOnly_order:
  assumes wf: "wf_graph g" and l: "linked g c" and w: "CaptureWaitOnly g t = Some g'"
    and d: "scope_on_top g (cur g t)"
  obtains f s where "thread_top (cur g) t = Some f" "getCurTask g' t = Some s" "is_step g' s"
    "\<And>x. allocated g x \<Longrightarrow> anc (tgraph_nodes g) f x \<Longrightarrow>
       \<not> mhp (tgraph_nodes g') x s \<and> \<not> mhp (tgraph_nodes g') s x"
proof -
  from w obtain f cs where f: "cur g t = f # cs" and t: "t < NUM_THREADS" and
    wt: "CaptureWait (g\<lparr>cur := (cur g)(t := cs)\<rparr>) t = Some g'" (is "CaptureWait ?h t = _")
    by (auto simp: CaptureWaitOnly_def CaptureWait_def bind_eq_Some_conv Let_def pop_Some)
  note core = wf_graph_core [OF wf]
  have tf: "task_node g f" using wf_graph_stack [OF wf, of f t] f by simp
  have no: "\<not> own g f" using d scope_on_top_own [OF wf linked_ids [OF l], of f t cs] f by simp
  then obtain j ds where cs: "cs = j # ds" "parent (node g f) = j"
    using linked_stack [OF l, of t] f by (cases cs) auto
  have f1: "f \<noteq> 1" using no by (auto simp: own_def)
  have tj: "task_node g j" using wf_graph_stack [OF wf, of j t] f cs by simp
  have h: "wf_core ?h" using core by simp
  have jh: "allocated ?h j" "type (node ?h j) \<noteq> STEP"
    using task_node_allocated [OF tj] task_node_type [OF tj] by (simp_all add: allocated_def)
  have ns: "new_step ?h j = Some g'"
    using wt t cs by (simp add: CaptureWait_def thread_top_def)
  note n = new_step_core [OF h jh ns] and fr = new_step_fresh [OF h jh ns]
  have ext: "extends g g'" using grows_extends [OF n(2)] by (simp add: extends_def allocated_def)
  note al = task_node_allocated [OF tf]
  let ?s = "cur_step (node g' j)"
  have s: "allocated g' ?s" "?s \<noteq> 1" "f < ?s"
    using fr(1,3) wf_tree_root(2) [OF wf_core_tree [OF n(1)]] al by (auto simp: is_step_def allocated_def)
  have ff: "type (node g' f) = FINISH" "parent (node g' f) = j"
    using extends_node [OF ext al] d f cs by (auto simp: scope_on_top_def)
  have ord: "\<not> mhp (tgraph_nodes g') x ?s \<and> \<not> mhp (tgraph_nodes g') ?s x"
    if x: "allocated g x" "anc (tgraph_nodes g) f x" for x
  proof -
    have "anc (tgraph_nodes g') f x"
      using x root_path_extends [OF wf_core_tree [OF core] ext x(1)] by simp
    then show ?thesis
      using mhp_siblings [OF wf_core_tree [OF n(1)] extends_allocated [OF ext al] f1 s(1,2) _ s(3)
          extends_allocated [OF ext x(1)] _ s(1) anc_refl] ff fr(2) by simp
  qed
  show thesis
    by (rule that [of f ?s])
      (use f t cs n(3) fr(1) ord in \<open>auto simp: thread_top_def getCurTask_def same_frame_def\<close>)
qed

section \<open>Old answers stay\<close>

lemma mhp_stable:
  assumes "wf_graph g" "grows g g'" "is_step g a" "is_step g b"
  shows "mhp (tgraph_nodes g') a b \<longleftrightarrow> mhp (tgraph_nodes g) a b"
  using mhp_extends [OF wf_core_tree [OF wf_graph_core [OF assms(1)]] grows_extends [OF assms(2)]]
    assms(3,4) by (simp add: is_step_def)

end
