(* ===== verification/Spd3Runs.thy ===== *)
theory Spd3Runs
  imports Spd3Sound ForkJoin
begin

text \<open>
  Runs of the SPD3 detector.  A run is traced: each access that the handler examines is
  recorded with the step that made it.  The discipline asked of the client is that it
  waits only where it has spawned since the last wait, and returns from a task with at
  most one open finish scope; \<open>Spd3Bugs\<close> shows what happens otherwise.
\<close>

section \<open>Traced runs\<close>

type_synonym access = "nat \<times> ADDRINT \<times> AccessType"

definition disciplined :: "spd3 \<Rightarrow> event \<Rightarrow> bool" where
  "disciplined s e \<longleftrightarrow>
     (let g = taskGraph s
      in case e of
           WaitDone t \<Rightarrow> scope_on_top g (cur g t)
         | ExecEnd t \<Rightarrow> \<not> (scope_on_top g (cur g t) \<and> scope_on_top g (tl (cur g t)))
         | _ \<Rightarrow> True)"

definition accesses :: "spd3 \<Rightarrow> event \<Rightarrow> access list" where
  "accesses s e =
     (case e of
        Access t a k \<Rightarrow> if exceptions s t a then []
                        else [(the (getCurTask (taskGraph s) t), a, k)]
      | _ \<Rightarrow> [])"

definition traced_step :: "spd3 \<times> access list \<Rightarrow> event \<Rightarrow> (spd3 \<times> access list) option" where
  "traced_step sh e =
     (if disciplined (fst sh) e
      then do { s' \<leftarrow> spd3_step (fst sh) e; Some (s', snd sh @ accesses (fst sh) e) }
      else None)"

text \<open>The states and histories of disciplined runs from a fresh detector.\<close>

definition reachable :: "spd3 \<Rightarrow> access list \<Rightarrow> bool" where
  "reachable s h \<longleftrightarrow>
     (\<exists>base s0 es. TD_Activate base = Some s0 \<and> run traced_step (s0, []) es = Some (s, h))"

section \<open>The invariant\<close>

definition cell_ok :: "access list \<Rightarrow> ADDRINT \<Rightarrow> Dr_Address_Data \<Rightarrow> bool" where
  "cell_ok h a d \<longleftrightarrow>
     (\<forall>n. wr_task d = Some n \<longrightarrow> (\<exists>b. same_cell a b \<and> (n, b, WRITE) \<in> set h)) \<and>
     (\<forall>n. r1_task d = Some n \<or> r2_task d = Some n \<longrightarrow> (\<exists>b. same_cell a b \<and> (n, b, READ) \<in> set h))"

definition real_race :: "AFTaskGraph \<Rightarrow> access list \<Rightarrow> ADDRINT \<Rightarrow> violation \<Rightarrow> bool" where
  "real_race g h a v \<longleftrightarrow>
     (task (a1 v), a, accessType (a1 v)) \<in> set h \<and>
     (\<exists>b. same_cell a b \<and> (task (a2 v), b, accessType (a2 v)) \<in> set h) \<and>
     (accessType (a1 v) = WRITE \<or> accessType (a2 v) = WRITE) \<and>
     mhp (tgraph_nodes g) (task (a1 v)) (task (a2 v))"

definition spd3_inv :: "spd3 \<Rightarrow> access list \<Rightarrow> bool" where
  "spd3_inv s h \<longleftrightarrow>
     wf_graph (taskGraph s) \<and> linked (taskGraph s) (task_id_ctr s) \<and>
     (\<forall>(n, a, k) \<in> set h. is_step (taskGraph s) n) \<and>
     (\<forall>a. cell_ok h a (cell_at zero_cell (shadow s) a)) \<and>
     (\<forall>a v. all_violations s a = Some v \<longrightarrow> real_race (taskGraph s) h a v)"

lemma spd3_invD:
  assumes "spd3_inv s h"
  shows inv_graph: "wf_graph (taskGraph s)"
    and inv_linked: "linked (taskGraph s) (task_id_ctr s)"
    and inv_hist: "(n, a, k) \<in> set h \<Longrightarrow> is_step (taskGraph s) n"
    and inv_cell: "cell_ok h a (cell_at zero_cell (shadow s) a)"
    and inv_race: "all_violations s a = Some v \<Longrightarrow> real_race (taskGraph s) h a v"
  using assms unfolding spd3_inv_def by blast+

lemma inv_cell_steps:
  assumes "spd3_inv s h"
  shows "cell_steps (cell_at zero_cell (shadow s) a) \<subseteq> Collect (is_step (taskGraph s))"
  using inv_cell [OF assms, of a] inv_hist [OF assms] unfolding cell_ok_def cell_steps_def
  by (auto simp: elem_set)

lemma real_race_extends:
  assumes wf: "wf_core g" and e: "extends g g'" and h: "\<And>n a k. (n, a, k) \<in> set h \<Longrightarrow> is_step g n"
    and r: "real_race g h a v" and sub: "set h \<subseteq> set h'"
  shows "real_race g' h' a v"
proof -
  have "allocated g (task (a1 v))" "allocated g (task (a2 v))"
    using r h unfolding real_race_def is_step_def by blast+
  then show ?thesis
    using r mhp_extends [OF wf_core_tree [OF wf] e] sub unfolding real_race_def by blast
qed

text \<open>Task events only change the tree and the counter.\<close>

lemma inv_task_event:
  assumes inv: "spd3_inv s h" and g: "wf_graph g'" "grows (taskGraph s) g'" "linked g' c"
    and s': "taskGraph s' = g'" "task_id_ctr s' = c" "shadow s' = shadow s"
      "all_violations s' = all_violations s"
  shows "spd3_inv s' h"
proof -
  note ext = grows_extends [OF g(2)] and core = wf_graph_core [OF inv_graph [OF inv]]
  have "real_race g' h a v" if "all_violations s a = Some v" for a v
    by (rule real_race_extends [OF core ext _ inv_race [OF inv that]]) (use inv_hist [OF inv] in auto)
  then show ?thesis
    using inv g is_step_extends [OF ext] unfolding spd3_inv_def s' by auto
qed

lemma spawn_inv:
  assumes inv: "spd3_inv s h" and "spawn (\<lambda>_. Some) s t = Some s'"
  shows "spd3_inv s' h"
proof -
  note l = inv_linked [OF inv] and wf = inv_graph [OF inv]
  from assms(2) obtain g where g: "CaptureSpawnOnly (taskGraph s) t (task_id_ctr s + 1) = Some g"
    "s' = s\<lparr>task_id_ctr := task_id_ctr s + 1, taskGraph := g\<rparr>"
    by (auto simp: spawn_def CaptureSetTaskId_def bind_eq_Some_conv Let_def)
  have "linked g (task_id_ctr s + 1)" by (rule CaptureSpawnOnly_linked [OF wf l _ g(1)]) simp
  then show ?thesis
    using inv_task_event [OF inv _ _ _ _ _ _ _ , of g "task_id_ctr s + 1" s']
      CaptureSpawnOnly_wf [OF wf g(1)] g(2) by simp
qed

lemma spawn_root_inv:
  assumes inv: "spd3_inv s h" and "spawn_root_and_wait (\<lambda>_. Some) s t = Some s'"
  shows "spd3_inv s' h"
proof -
  note l = inv_linked [OF inv] and wf = inv_graph [OF inv]
  from assms(2) obtain g where g: "CaptureSpawnAndWait (taskGraph s) t (task_id_ctr s + 1) = Some g"
    "s' = s\<lparr>task_id_ctr := task_id_ctr s + 1, taskGraph := g\<rparr>"
    by (auto simp: spawn_root_and_wait_def CaptureSetTaskId_def bind_eq_Some_conv Let_def)
  have "linked g (task_id_ctr s + 1)" by (rule CaptureSpawnAndWait_linked [OF wf l _ g(1)]) simp
  then show ?thesis
    using inv_task_event [OF inv, of g "task_id_ctr s + 1" s']
      CaptureSpawnAndWait_wf [OF wf g(1)] g(2) by simp
qed

lemma graph_event_inv:
  assumes inv: "spd3_inv s h" and "s' = s\<lparr>taskGraph := g\<rparr>"
    and "wf_graph g \<and> grows (taskGraph s) g" "linked g (task_id_ctr s)"
  shows "spd3_inv s' h"
  by (rule inv_task_event [OF inv, of g "task_id_ctr s"]) (use assms in simp_all)

lemma task_event_inv:
  assumes inv: "spd3_inv s h" and d: "disciplined s e" and st: "spd3_step s e = Some s'"
    and e: "\<And>t a k. e \<noteq> Access t a k"
  shows "spd3_inv s' h"
proof (cases e)
  case (Spawn t)
  then show ?thesis using spawn_inv [OF inv] st by simp
next
  case (SpawnRoot t)
  then show ?thesis using spawn_root_inv [OF inv] st by simp
next
  case (WaitDone t)
  with st obtain g where g: "CaptureWaitOnly (taskGraph s) t = Some g" "s' = s\<lparr>taskGraph := g\<rparr>"
    by (auto simp: wait_for_all_def bind_eq_Some_conv)
  have "scope_on_top (taskGraph s) (cur (taskGraph s) t)"
    using d WaitDone by (simp add: disciplined_def Let_def)
  then show ?thesis
    using graph_event_inv [OF inv g(2) CaptureWaitOnly_wf [OF inv_graph [OF inv] g(1)]]
      CaptureWaitOnly_linked [OF inv_graph [OF inv] inv_linked [OF inv] g(1)] by blast
next
  case (ExecBegin t k)
  with st obtain g where g: "CaptureExecute (taskGraph s) t k = Some g" "s' = s\<lparr>taskGraph := g\<rparr>"
    by (auto simp: exec_begin_def bind_eq_Some_conv)
  show ?thesis
    using graph_event_inv [OF inv g(2) CaptureExecute_wf [OF inv_graph [OF inv] g(1)]]
      CaptureExecute_linked [OF inv_graph [OF inv] inv_linked [OF inv] g(1)] by blast
next
  case (ExecEnd t)
  with st obtain g where g: "CaptureReturn (taskGraph s) t = Some g" "s' = s\<lparr>taskGraph := g\<rparr>"
    by (auto simp: exec_end_def bind_eq_Some_conv)
  have "scope_on_top (taskGraph s) (cur (taskGraph s) t) \<Longrightarrow>
      \<not> scope_on_top (taskGraph s) (tl (cur (taskGraph s) t))"
    using d ExecEnd by (simp add: disciplined_def Let_def)
  then show ?thesis
    using graph_event_inv [OF inv g(2) CaptureReturn_wf [OF inv_graph [OF inv] g(1)]]
      CaptureReturn_linked [OF inv_graph [OF inv] inv_linked [OF inv] g(1)] by blast
next
  case (Access t a k)
  then show ?thesis using e by blast
qed

text \<open>Accesses.\<close>

lemma access_running:
  assumes inv: "spd3_inv s h" and x: "\<not> exceptions s t a" and t: "t < NUM_THREADS"
  obtains k n where "running (taskGraph s) (task_id_ctr s) t k n" "is_step (taskGraph s) n"
    "getCurTask (taskGraph s) t = Some n"
proof -
  have ne: "tidToTaskIdMap (taskGraph s) t \<noteq> []" using x by (simp add: exceptions_def)
  then obtain k ks where k: "tidToTaskIdMap (taskGraph s) t = k # ks" by (meson neq_Nil_conv)
  show thesis
    by (rule running_step [OF inv_graph [OF inv] inv_linked [OF inv] ne t])
      (use k t inv_graph [OF inv] inv_linked [OF inv] that in \<open>auto simp: running_def\<close>)
qed

lemma cell_ok_mono: "cell_ok h a d \<Longrightarrow> set h \<subseteq> set h' \<Longrightarrow> cell_ok h' a d"
  unfolding cell_ok_def by blast

lemma cell_ok_ref_cell:
  assumes "cell_ok h a d" "(n, a, k) \<in> set h"
  shows "cell_ok h a (ref_cell ns n k d)"
  using assms by (cases k) (auto simp: cell_ok_def ref_cell_def split: option.splits)

lemma ref_race_stored:
  assumes "cell_ok h a d" "ref_race ns n k d = Some (m, km)"
  shows "(\<exists>b. same_cell a b \<and> (m, b, km) \<in> set h) \<and> (k = WRITE \<or> km = WRITE) \<and> mhp ns n m"
  using assms by (auto simp: cell_ok_def ref_race_def par_with_def split: if_splits option.splits)

lemma access_inv:
  assumes inv: "spd3_inv s h" and st: "RecordMem s t a k = Some s'"
  shows "spd3_inv s' (h @ accesses s (Access t a k))"
proof (cases "exceptions s t a")
  case True
  then show ?thesis
    using st inv by (auto simp: RecordMem_def accesses_def split: if_splits)
next
  case False
  have t: "t < NUM_THREADS" using st by (simp add: RecordMem_def split: if_splits)
  obtain i n where run: "running (taskGraph s) (task_id_ctr s) t i n" "is_step (taskGraph s) n"
    "getCurTask (taskGraph s) t = Some n"
    by (rule access_running [OF inv False t])
  let ?ns = "tgraph_nodes (taskGraph s)" and ?d = "cell_at zero_cell (shadow s) a"
  let ?h = "h @ [(n, a, k)]"
  have h: "h @ accesses s (Access t a k) = ?h" using False run(3) by (simp add: accesses_def)
  obtain tb where tb: "wf_core (cached (taskGraph s) tb)" and s': "RecordMem s t a k =
     Some (s\<lparr>taskGraph := cached (taskGraph s) tb,
       all_violations := record_race (all_violations s) a n k (ref_race ?ns n k ?d),
       shadow := put_cell zero_cell (touch_page zero_cell (shadow s) (primary_index a)) a
         (ref_cell ?ns n k ?d)\<rparr>)"
    by (rule RecordMem_refines [OF run(1) inv_cell_steps [OF inv] run(2) False])
  let ?s = "s\<lparr>taskGraph := cached (taskGraph s) tb,
       all_violations := record_race (all_violations s) a n k (ref_race ?ns n k ?d),
       shadow := put_cell zero_cell (touch_page zero_cell (shadow s) (primary_index a)) a
         (ref_cell ?ns n k ?d)\<rparr>"
  have eq: "s' = ?s" using s' st by simp
  have ok: "cell_ok ?h b (cell_at zero_cell (shadow s) b)" for b
    using inv_cell [OF inv, of b] by (rule cell_ok_mono) auto
  have "cell_ok ?h b (cell_at zero_cell (shadow ?s) b)" for b
  proof (cases "same_cell a b")
    case True
    then have "cell_ok ?h a (ref_cell ?ns n k ?d)" using cell_ok_ref_cell [OF ok] by simp
    then have "cell_ok ?h b (ref_cell ?ns n k ?d)"
      using same_cell_trans [OF same_cell_sym [OF True]] unfolding cell_ok_def by blast
    then show ?thesis using True by (simp add: cell_at_put)
  next
    case False
    then show ?thesis using ok [of b] by (simp add: cell_at_put cell_at_touch)
  qed
  moreover have "real_race (cached (taskGraph s) tb) ?h b v" if viol: "all_violations ?s b = Some v" for b v
  proof (cases "all_violations s b = Some v")
    case True
    then have "real_race (taskGraph s) h b v" by (rule inv_race [OF inv])
    then show ?thesis by (auto simp: real_race_def)
  next
    case False
    then obtain m km where "ref_race ?ns n k ?d = Some (m, km)" "b = a"
      "v = \<lparr>a1 = \<lparr>task = n, accessType = k\<rparr>, a2 = \<lparr>task = m, accessType = km\<rparr>\<rparr>"
      using viol by (auto simp: record_race_def split: option.splits if_splits)
    then show ?thesis
      using ref_race_stored [OF inv_cell [OF inv]] unfolding real_race_def by fastforce
  qed
  ultimately show ?thesis
    unfolding h eq spd3_inv_def
    using wf_graph_cache [OF inv_graph [OF inv] tb] linked_cache [OF inv_linked [OF inv]]
      inv_hist [OF inv] run(2) by auto
qed

lemma traced_step_inv:
  assumes "traced_step sh e = Some sh'" "spd3_inv (fst sh) (snd sh)"
  shows "spd3_inv (fst sh') (snd sh')"
proof -
  from assms(1) have st: "disciplined (fst sh) e" "spd3_step (fst sh) e = Some (fst sh')"
    "snd sh' = snd sh @ accesses (fst sh) e"
    by (auto simp: traced_step_def bind_eq_Some_conv split: if_splits)
  show ?thesis
  proof (cases "\<exists>t a k. e = Access t a k")
    case True
    then show ?thesis using access_inv [OF assms(2)] st by auto
  next
    case False
    then have "accesses (fst sh) e = []" by (auto simp: accesses_def split: event.splits)
    then show ?thesis using task_event_inv [OF assms(2) st(1,2)] False st(3) by auto
  qed
qed

lemma TD_Activate_inv: "TD_Activate base = Some s \<Longrightarrow> spd3_inv s []"
  using AFTaskGraph_new_wf AFTaskGraph_new_linked
  by (auto simp: TD_Activate_def bind_eq_Some_conv spd3_inv_def cell_ok_def zero_cell_def)

lemma reachable_inv: "reachable s h \<Longrightarrow> spd3_inv s h"
  unfolding reachable_def
  using run_invariant [of traced_step "\<lambda>sh. spd3_inv (fst sh) (snd sh)"]
    traced_step_inv TD_Activate_inv by fastforce

section \<open>The reporter's contract\<close>

lemma record_race_keeps: "viol a = None \<Longrightarrow> viol \<subseteq>\<^sub>m record_race viol a s k r"
  by (auto simp: record_race_def map_le_def split: option.splits)

lemma check_races_keeps:
  "check_races g viol tid t a k n d = Some (g', viol') \<Longrightarrow> viol \<subseteq>\<^sub>m viol'"
  unfolding check_races_def report_def
  by (auto simp: bind_eq_Some_conv Let_def split: if_splits
      intro: map_le_trans [OF map_le_map_insert map_le_map_insert])

interpretation spd3_reports: race_reporter spd3_step all_violations
proof
  show "all_violations s \<subseteq>\<^sub>m all_violations s'" if "spd3_step s e = Some s'" for s s' e
    using that
    by (cases e) (auto simp: spawn_def spawn_root_and_wait_def wait_for_all_def exec_begin_def
        exec_end_def RecordMem_def Let_def bind_eq_Some_conv split: if_splits
        dest: check_races_keeps)
qed

end
