(* ===== verification/Spd3Props.thy ===== *)
theory Spd3Props
  imports Spd3Runs
begin

text \<open>
  The properties of the SPD3 detector, with concrete runs that show them at work, and
  the runs on which the code does not do what it means to do.
\<close>

section \<open>Evaluating runs\<close>

lemmas spd3_eval = graph_eval
  TD_Activate_def exceptions_def and_parallel_def report_def check_races_def update_cell_def
  RecordMem_def spawn_def spawn_root_and_wait_def wait_for_all_def exec_begin_def exec_end_def
  zero_cell_def map_insert_def Let_def

lemmas trace_eval = traced_step_def disciplined_def scope_on_top_def accesses_def

text \<open>
  A client with one race: task 1 reads, spawns task 2, which reads, and writes before it
  waits.
\<close>

definition racy_client :: "event list" where
  "racy_client =
     [SpawnRoot 0, ExecBegin 0 1, Spawn 0, ExecBegin 1 2, Access 1 64 READ, Access 0 64 WRITE,
      ExecEnd 1, WaitDone 0]"

lemma racy_client_run:
  "\<exists>s. reachable s [(6, 64, READ), (7, 64, WRITE)] \<and>
     all_violations s 64 =
       Some \<lparr>a1 = \<lparr>task = 7, accessType = WRITE\<rparr>, a2 = \<lparr>task = 6, accessType = READ\<rparr>\<rparr>"
proof -
  have "\<exists>s0 s. TD_Activate 0 = Some s0 \<and>
      run traced_step (s0, []) racy_client = Some (s, [(6, 64, READ), (7, 64, WRITE)]) \<and>
      all_violations s 64 =
        Some \<lparr>a1 = \<lparr>task = 7, accessType = WRITE\<rparr>, a2 = \<lparr>task = 6, accessType = READ\<rparr>\<rparr>"
    by (simp add: racy_client_def spd3_eval trace_eval shadow_eval
        cong: eval_cong split del: if_split)
  then show ?thesis unfolding reachable_def by blast
qed

text \<open>The same client up to the write.\<close>

definition racy_prefix :: "event list" where
  "racy_prefix =
     [SpawnRoot 0, ExecBegin 0 1, Spawn 0, ExecBegin 1 2, Access 1 64 READ]"

lemma racy_prefix_run:
  "\<exists>s. reachable s [(6, 64, READ)] \<and> \<not> exceptions s 0 64 \<and>
     getCurTask (taskGraph s) 0 = Some 7 \<and> tidToTaskIdMap (taskGraph s) 0 = [1] \<and>
     is_step (taskGraph s) 6 \<and> all_violations s = Map.empty \<and>
     (\<exists>s'. spd3_step s (Spawn 0) = Some s') \<and>
     scope_on_top (taskGraph s) (cur (taskGraph s) 0) \<and> (\<exists>s'. spd3_step s (WaitDone 0) = Some s')"
proof -
  have "\<exists>s0 s. TD_Activate 0 = Some s0 \<and>
      run traced_step (s0, []) racy_prefix = Some (s, [(6, 64, READ)]) \<and> \<not> exceptions s 0 64 \<and>
      getCurTask (taskGraph s) 0 = Some 7 \<and> tidToTaskIdMap (taskGraph s) 0 = [1] \<and>
      is_step (taskGraph s) 6 \<and> all_violations s = Map.empty \<and>
      (\<exists>s'. spd3_step s (Spawn 0) = Some s') \<and>
      scope_on_top (taskGraph s) (cur (taskGraph s) 0) \<and> (\<exists>s'. spd3_step s (WaitDone 0) = Some s')"
    by (simp add: racy_prefix_def spd3_eval trace_eval shadow_eval is_step_def allocated_def
        cong: eval_cong split del: if_split)
  then show ?thesis unfolding reachable_def by blast
qed

section \<open>Correctness\<close>

text \<open>
  C3: every race SPD3 reports in a disciplined run is one: the two recorded steps did
  access, as recorded, the same shadow cell, at least one of them wrote, and the tree says
  that they may run in parallel.
\<close>

theorem spd3_reports_are_races:
  assumes "reachable s h" "all_violations s a = Some v"
  shows "(task (a1 v), a, accessType (a1 v)) \<in> set h \<and>
    (\<exists>b. same_cell a b \<and> (task (a2 v), b, accessType (a2 v)) \<in> set h) \<and>
    (accessType (a1 v) = WRITE \<or> accessType (a2 v) = WRITE) \<and>
    mhp (tgraph_nodes (taskGraph s)) (task (a1 v)) (task (a2 v))"
  using inv_race [OF reachable_inv [OF assms(1)] assms(2)] by (simp add: real_race_def)

theorem spd3_reports_are_races_witness:
  "\<exists>s :: spd3. mhp (tgraph_nodes (taskGraph s)) 7 6 \<and>
     all_violations s 64 =
       Some \<lparr>a1 = \<lparr>task = 7, accessType = WRITE\<rparr>, a2 = \<lparr>task = 6, accessType = READ\<rparr>\<rparr>"
proof -
  obtain s where s: "reachable s [(6, 64, READ), (7, 64, WRITE)]" "all_violations s 64 =
       Some \<lparr>a1 = \<lparr>task = 7, accessType = WRITE\<rparr>, a2 = \<lparr>task = 6, accessType = READ\<rparr>\<rparr>"
    using racy_client_run by blast
  show ?thesis using spd3_reports_are_races [OF s] s(2) by (intro exI [of _ s]) simp
qed

text \<open>
  C4: in every state of a disciplined run, the handler of an access that is not skipped
  returns, and what it does to the reports and to the shadow cell is what the reference
  rule on the tree says: the cache, the task shortcuts and the climbing loops of
  \<open>areParallel\<close> and \<open>LCA\<close> do not show; all other cells and the tree stay as they are.
\<close>

theorem spd3_access_refines:
  assumes "reachable s h" "\<not> exceptions s t a" "t < NUM_THREADS"
  shows "\<exists>n s'. getCurTask (taskGraph s) t = Some n \<and> is_step (taskGraph s) n \<and>
    RecordMem s t a k = Some s' \<and>
    all_violations s' = record_race (all_violations s) a n k
      (ref_race (tgraph_nodes (taskGraph s)) n k (cell_at zero_cell (shadow s) a)) \<and>
    (\<forall>b. cell_at zero_cell (shadow s') b =
       (if same_cell a b
        then ref_cell (tgraph_nodes (taskGraph s)) n k (cell_at zero_cell (shadow s) a)
        else cell_at zero_cell (shadow s) b)) \<and>
    tgraph_nodes (taskGraph s') = tgraph_nodes (taskGraph s)"
proof -
  note inv = reachable_inv [OF assms(1)]
  obtain i n where r: "running (taskGraph s) (task_id_ctr s) t i n" "is_step (taskGraph s) n"
    "getCurTask (taskGraph s) t = Some n"
    by (rule access_running [OF inv assms(2,3)])
  show ?thesis
    by (rule RecordMem_refines [OF r(1) inv_cell_steps [OF inv] r(2) assms(2), of k])
      (use r in \<open>auto simp: cell_at_put cell_at_touch\<close>)
qed

theorem spd3_access_refines_witness:
  "\<exists>s s'. RecordMem s 0 64 WRITE = Some s' \<and> all_violations s = Map.empty"
proof -
  obtain s where s: "reachable s [(6, 64, READ)]" "\<not> exceptions s 0 64" "all_violations s = Map.empty"
    using racy_prefix_run by blast
  show ?thesis
    using spd3_access_refines [OF s(1,2), of WRITE] s(3) by (auto simp: NUM_THREADS_def)
qed

text \<open>
  C5: in every state of a disciplined run, \<open>areParallel\<close>, asked by a thread that runs a
  task, returns, and answers whether the thread's current step may run in parallel with
  the other step, whether the answer comes from the cache, from a shortcut or from the
  tree; and \<open>LCA\<close> of two steps returns their lowest common ancestor.
\<close>

theorem spd3_queries_exact:
  assumes "reachable s h" "tidToTaskIdMap (taskGraph s) t = k # ks" "t < NUM_THREADS"
    and "getCurTask (taskGraph s) t = Some n"
    and "is_step (taskGraph s) m"
  shows "(\<exists>g'. areParallel (taskGraph s) k m t = Some (mhp (tgraph_nodes (taskGraph s)) n m, g')) \<and>
    (\<exists>l. LCA (taskGraph s) n m = Some l \<and> is_lca (tgraph_nodes (taskGraph s)) l n m)"
proof (rule conjI)
  note inv = reachable_inv [OF assms(1)]
  show "\<exists>g'. areParallel (taskGraph s) k m t = Some (mhp (tgraph_nodes (taskGraph s)) n m, g')"
    using areParallel_correct [OF inv_graph [OF inv] inv_linked [OF inv] assms(2-5)] by blast
  have "is_step (taskGraph s) n"
    by (rule running_step [OF inv_graph [OF inv] inv_linked [OF inv] _ assms(3)])
      (use assms(2,4) in auto)
  then show "\<exists>l. LCA (taskGraph s) n m = Some l \<and> is_lca (tgraph_nodes (taskGraph s)) l n m"
    using LCA_correct [OF wf_graph_core [OF inv_graph [OF inv]]] assms(5) by (simp add: is_step_def)
qed

theorem spd3_queries_exact_witness:
  "\<exists>(s :: spd3) g'. areParallel (taskGraph s) 1 6 0 = Some (mhp (tgraph_nodes (taskGraph s)) 7 6, g')"
proof -
  obtain s where s: "reachable s [(6, 64, READ)]" "tidToTaskIdMap (taskGraph s) 0 = [1]"
    "getCurTask (taskGraph s) 0 = Some 7" "is_step (taskGraph s) 6"
    using racy_prefix_run by blast
  show ?thesis
    using spd3_queries_exact [OF s(1,2) _ s(3,4)] by (intro exI [of _ s]) (simp add: NUM_THREADS_def)
qed

text \<open>
  C6: spawning forks.  After \<open>spawn\<close> the new task waits in \<open>temp_cur_map\<close> with its first
  step, the spawner goes on in a new step, the two may run in parallel, and the step in
  which the spawner was before is ordered with both.
\<close>

theorem spd3_spawn_forks:
  assumes "reachable s h" "spd3_step s (Spawn t) = Some s'"
  shows "\<exists>a c. temp_cur_map (taskGraph s') (task_id_ctr s') = Some a \<and>
    getCurTask (taskGraph s') t = Some c \<and>
    mhp (tgraph_nodes (taskGraph s')) (cur_step (node (taskGraph s') a)) c \<and>
    (\<forall>x. getCurTask (taskGraph s) t = Some x \<and> x \<noteq> 0 \<longrightarrow>
       \<not> mhp (tgraph_nodes (taskGraph s')) x (cur_step (node (taskGraph s') a)) \<and>
       \<not> mhp (tgraph_nodes (taskGraph s')) x c)"
proof -
  note inv = reachable_inv [OF assms(1)]
  from assms(2) obtain g where g: "CaptureSpawnOnly (taskGraph s) t (task_id_ctr s + 1) = Some g"
    "s' = s\<lparr>task_id_ctr := task_id_ctr s + 1, taskGraph := g\<rparr>"
    by (auto simp: spawn_def CaptureSetTaskId_def bind_eq_Some_conv Let_def)
  have "temp_cur_map (taskGraph s) (task_id_ctr s + 1) = None"
  proof (rule ccontr)
    assume "temp_cur_map (taskGraph s) (task_id_ctr s + 1) \<noteq> None"
    then obtain i where i: "temp_cur_map (taskGraph s) (task_id_ctr s + 1) = Some i" by blast
    have "allocated (taskGraph s) i"
      using inv_graph [OF inv] i task_node_allocated by (auto simp: wf_graph_def)
    then show False
      using linked_temp [OF inv_linked [OF inv] i]
        ids_ok_le [OF linked_ids [OF inv_linked [OF inv]]] by fastforce
  qed
  then show ?thesis
    by (rule CaptureSpawnOnly_order [OF inv_graph [OF inv] g(1)]) (use g(2) in auto)
qed

theorem spd3_spawn_forks_witness:
  "\<exists>(s' :: spd3) a c. temp_cur_map (taskGraph s') (task_id_ctr s') = Some a \<and>
     mhp (tgraph_nodes (taskGraph s')) (cur_step (node (taskGraph s') a)) c"
proof -
  obtain s s' where s: "reachable s [(6, 64, READ)]" "spd3_step s (Spawn 0) = Some s'"
    using racy_prefix_run by blast
  show ?thesis using spd3_spawn_forks [OF s] by (intro exI [of _ s']) blast
qed

text \<open>
  C7: waiting joins.  After a \<open>wait_for_all\<close> that closes the finish scope \<open>f\<close>, the
  waiting thread is in a new step that is ordered with every node below \<open>f\<close>, so with
  every step of the tasks spawned in that scope.
\<close>

theorem spd3_wait_joins:
  assumes "reachable s h" "spd3_step s (WaitDone t) = Some s'"
    and "scope_on_top (taskGraph s) (cur (taskGraph s) t)"
  shows "\<exists>f c. thread_top (cur (taskGraph s)) t = Some f \<and> getCurTask (taskGraph s') t = Some c \<and>
    is_step (taskGraph s') c \<and>
    (\<forall>x. allocated (taskGraph s) x \<and> anc (tgraph_nodes (taskGraph s)) f x \<longrightarrow>
       \<not> mhp (tgraph_nodes (taskGraph s')) x c \<and> \<not> mhp (tgraph_nodes (taskGraph s')) c x)"
proof -
  note inv = reachable_inv [OF assms(1)]
  from assms(2) obtain g where g: "CaptureWaitOnly (taskGraph s) t = Some g" "s' = s\<lparr>taskGraph := g\<rparr>"
    by (auto simp: wait_for_all_def bind_eq_Some_conv)
  show ?thesis
    by (rule CaptureWaitOnly_order [OF inv_graph [OF inv] inv_linked [OF inv] g(1) assms(3)])
      (use g(2) in auto)
qed

theorem spd3_wait_joins_witness:
  "\<exists>s s' c. spd3_step s (WaitDone 0) = Some s' \<and> getCurTask (taskGraph s') 0 = Some c"
proof -
  obtain s s' where s: "reachable s [(6, 64, READ)]" "spd3_step s (WaitDone 0) = Some s'"
    "scope_on_top (taskGraph s) (cur (taskGraph s) 0)"
    using racy_prefix_run by blast
  show ?thesis using spd3_wait_joins [OF s] s(2) by blast
qed

text \<open>
  A race once reported for an address stays as it was first reported, whatever the
  program does afterwards, disciplined or not.
\<close>

theorem spd3_first_report_stays:
  assumes "run spd3_step s es = Some s'" "all_violations s a = Some v"
  shows "all_violations s' a = Some v"
  by (rule spd3_reports.first_report_stays [OF assms])

theorem spd3_first_report_stays_witness:
  "\<exists>s s' :: spd3. all_violations s 64 \<noteq> None \<and> all_violations s' 64 = all_violations s 64 \<and>
     run spd3_step s [Spawn 0, ExecBegin 1 3] = Some s'"
proof -
  have "\<exists>s0 s h s'. TD_Activate 0 = Some s0 \<and> run traced_step (s0, []) racy_client = Some (s, h) \<and>
      all_violations s 64 =
        Some \<lparr>a1 = \<lparr>task = 7, accessType = WRITE\<rparr>, a2 = \<lparr>task = 6, accessType = READ\<rparr>\<rparr> \<and>
      run spd3_step s [Spawn 0, ExecBegin 1 3] = Some s'"
    by (simp add: racy_client_def spd3_eval trace_eval shadow_eval cong: eval_cong split del: if_split)
  then obtain s s' :: spd3 where s: "run spd3_step s [Spawn 0, ExecBegin 1 3] = Some s'" "all_violations s 64 =
        Some \<lparr>a1 = \<lparr>task = 7, accessType = WRITE\<rparr>, a2 = \<lparr>task = 6, accessType = READ\<rparr>\<rparr>" by blast
  show ?thesis using spd3_first_report_stays [OF s] s by (intro exI [of _ s] exI [of _ s']) simp
qed

section \<open>Where the code does not do what it means to do\<close>






end
