(* ===== verification/Locks.thy ===== *)
theory Locks
  imports Prelude
begin

text \<open>
  What the detectors share for threads: the spin lock \<open>my_getlock\<close>/\<open>my_releaselock\<close> of
  \<open>Common.H\<close> as a step relation over the atomic operations of its threads, with mutual
  exclusion; and \<open>get_cur_tid\<close> of \<open>exec_calls.cpp\<close>, which numbers the threads.
  \<open>PIN_LOCK\<close> is a pthread mutex, a library object; its critical sections are single steps
  of the other theories.
\<close>

section \<open>The spin lock\<close>

text \<open>
  Where a thread is in \<open>my_getlock\<close>: outside, in the inner loop that reads the lock, at
  the compare-and-swap with the value read, or holding the lock.
\<close>

datatype pc = Outside | Spinning | Swapping nat | Holding

record spin =
  lock_word :: nat
  pcs :: "THREADID \<Rightarrow> pc"

text \<open>The compare-and-swap of the library: it returns the old value.\<close>

definition compare_and_swap :: "nat \<Rightarrow> nat \<Rightarrow> nat \<Rightarrow> nat \<times> nat" where
  "compare_and_swap word new_value comparand =
     (word, if word = comparand then new_value else word)"

definition my_getlock_read :: "spin \<Rightarrow> THREADID \<Rightarrow> spin" where
  "my_getlock_read s t =
     (let oldx = lock_word s
      in s\<lparr>pcs := (pcs s)(t := if oldx = 1 then Spinning else Swapping oldx)\<rparr>)"

definition my_getlock_swap :: "spin \<Rightarrow> THREADID \<Rightarrow> nat \<Rightarrow> spin" where
  "my_getlock_swap s t oldx =
     (let (r, w) = compare_and_swap (lock_word s) 1 oldx
      in s\<lparr>lock_word := w, pcs := (pcs s)(t := if r = oldx then Holding else Spinning)\<rparr>)"

definition my_releaselock :: "spin \<Rightarrow> THREADID \<Rightarrow> spin" where
  "my_releaselock s t = s\<lparr>lock_word := 0, pcs := (pcs s)(t := Outside)\<rparr>"

text \<open>Any thread may take its next atomic step; only a holder releases.\<close>

inductive spin_step :: "spin \<Rightarrow> spin \<Rightarrow> bool" where
  enter: "pcs s t = Outside \<Longrightarrow> spin_step s (s\<lparr>pcs := (pcs s)(t := Spinning)\<rparr>)"
| read: "pcs s t = Spinning \<Longrightarrow> spin_step s (my_getlock_read s t)"
| swap: "pcs s t = Swapping oldx \<Longrightarrow> spin_step s (my_getlock_swap s t oldx)"
| release: "pcs s t = Holding \<Longrightarrow> spin_step s (my_releaselock s t)"

definition spin_init :: spin where
  "spin_init = \<lparr>lock_word = 0, pcs = (\<lambda>_. Outside)\<rparr>"

definition spin_reachable :: "spin \<Rightarrow> bool" where
  "spin_reachable = spin_step\<^sup>*\<^sup>* spin_init"

inductive_cases spin_stepE: "spin_step s s'"

text \<open>
  The word is 1 exactly while some thread holds the lock, at most one does, and no thread
  is about to swap a 1.
\<close>

definition holders :: "spin \<Rightarrow> THREADID set" where
  "holders s = {t. pcs s t = Holding}"

definition spin_inv :: "spin \<Rightarrow> bool" where
  "spin_inv s \<longleftrightarrow>
     (lock_word s = 0 \<and> holders s = {} \<or> lock_word s = 1 \<and> (\<exists>t. holders s = {t})) \<and>
     (\<forall>t. pcs s t \<noteq> Swapping 1)"

lemma spin_inv_init: "spin_inv spin_init"
  by (simp add: spin_inv_def spin_init_def holders_def)

lemma holders_upd:
  "holders (s\<lparr>pcs := (pcs s)(t := x)\<rparr>) = (if x = Holding then insert t (holders s) else holders s - {t})"
  "holders (s\<lparr>lock_word := w\<rparr>) = holders s"
  "holders (s\<lparr>lock_word := w, pcs := (pcs s)(t := x)\<rparr>) =
     (if x = Holding then insert t (holders s) else holders s - {t})"
  by (auto simp: holders_def)

lemma spin_inv_step:
  assumes "spin_step s s'" "spin_inv s"
  shows "spin_inv s'"
  using assms
proof (cases rule: spin_step.cases)
  case (enter t)
  then have "t \<notin> holders s" by (simp add: holders_def)
  then show ?thesis using enter assms(2) by (auto simp: spin_inv_def holders_upd)
next
  case (read t)
  then have "t \<notin> holders s" by (simp add: holders_def)
  then show ?thesis
    using read assms(2) by (auto simp: spin_inv_def my_getlock_read_def Let_def holders_upd)
next
  case (swap t oldx)
  then have "oldx \<noteq> 1" "t \<notin> holders s" using assms(2) by (auto simp: spin_inv_def holders_def)
  then show ?thesis
    using swap assms(2)
    by (auto simp: spin_inv_def my_getlock_swap_def compare_and_swap_def holders_upd)
next
  case (release t)
  then have "t \<in> holders s" by (simp add: holders_def)
  then have "holders s = {t}" using assms(2) unfolding spin_inv_def by auto
  then show ?thesis
    using release assms(2) by (auto simp: spin_inv_def my_releaselock_def holders_upd)
qed

lemma spin_inv_reachable: "spin_reachable s \<Longrightarrow> spin_inv s"
  unfolding spin_reachable_def
  by (induction rule: rtranclp_induct) (auto intro: spin_inv_init spin_inv_step)

text \<open>
  The spin lock excludes: in every interleaving of the atomic operations of any number
  of threads, at most one thread is between \<open>my_getlock\<close> and \<open>my_releaselock\<close>, and while
  one is, every other thread that reads the lock goes on spinning.
\<close>

lemma spin_lock_excludes:
  assumes "spin_reachable s" "pcs s t = Holding"
  shows "(\<forall>u. pcs s u = Holding \<longrightarrow> u = t) \<and> pcs (my_getlock_read s u) u = Spinning \<and>
    (pcs s u = Swapping v \<longrightarrow> pcs (my_getlock_swap s u v) u = Spinning)"
proof -
  have "t \<in> holders s" using assms(2) by (simp add: holders_def)
  then have "lock_word s = 1" "holders s = {t}" "\<And>u. pcs s u \<noteq> Swapping 1"
    using spin_inv_reachable [OF assms(1)] by (auto simp: spin_inv_def)
  then show ?thesis
    by (auto simp: my_getlock_read_def my_getlock_swap_def compare_and_swap_def holders_def)
qed

section \<open>Thread numbers\<close>

record thread_ids =
  tid_map :: "nat \<rightharpoonup> nat"
  tid_ctr :: nat

text \<open>\<open>pthd_id\<close> is what \<open>tbb::this_tbb_thread::get_id()\<close> returns.\<close>

definition get_cur_tid :: "thread_ids \<Rightarrow> nat \<Rightarrow> nat \<times> thread_ids" where
  "get_cur_tid s pthd_id =
     (case tid_map s pthd_id of
        None \<Rightarrow> (let my_tid = tid_ctr s
                 in (my_tid, \<lparr>tid_map = map_insert (tid_map s) pthd_id my_tid, tid_ctr = my_tid + 1\<rparr>))
      | Some my_tid \<Rightarrow> (my_tid, s))"

definition thread_ids_init :: thread_ids where
  "thread_ids_init = \<lparr>tid_map = Map.empty, tid_ctr = 0\<rparr>"

definition thread_ids_ok :: "thread_ids \<Rightarrow> bool" where
  "thread_ids_ok s \<longleftrightarrow> inj_on (tid_map s) (dom (tid_map s)) \<and> ran (tid_map s) = {..<tid_ctr s}"

lemma thread_ids_ok_init: "thread_ids_ok thread_ids_init"
  by (simp add: thread_ids_ok_def thread_ids_init_def)

lemma get_cur_tid_ok:
  assumes "thread_ids_ok s" "get_cur_tid s p = (i, s')"
  shows "thread_ids_ok s' \<and> tid_map s' p = Some i \<and> tid_map s \<subseteq>\<^sub>m tid_map s'"
proof (cases "tid_map s p")
  case None
  have s': "i = tid_ctr s" "tid_map s' = (tid_map s)(p \<mapsto> tid_ctr s)" "tid_ctr s' = tid_ctr s + 1"
    using assms(2) None by (auto simp: get_cur_tid_def Let_def map_insert_fresh)
  have nr: "Some (tid_ctr s) \<notin> tid_map s ` dom (tid_map s)"
  proof
    assume "Some (tid_ctr s) \<in> tid_map s ` dom (tid_map s)"
    then have "tid_ctr s \<in> ran (tid_map s)" by (force simp: ran_def)
    then show False using assms(1) by (simp add: thread_ids_ok_def)
  qed
  have "inj_on ((tid_map s)(p \<mapsto> tid_ctr s)) (insert p (dom (tid_map s)))"
  proof (rule inj_onI)
    fix x y assume xy: "x \<in> insert p (dom (tid_map s))" "y \<in> insert p (dom (tid_map s))"
      "((tid_map s)(p \<mapsto> tid_ctr s)) x = ((tid_map s)(p \<mapsto> tid_ctr s)) y"
    have ne: "tid_map s z \<noteq> Some (tid_ctr s)" for z
    proof
      assume "tid_map s z = Some (tid_ctr s)"
      then show False using nr imageI [of z "dom (tid_map s)" "tid_map s"] by (simp add: domI)
    qed
    have "x = p \<longleftrightarrow> y = p"
      using xy(3) ne [of x] ne [of y] by (cases "x = p"; cases "y = p") simp_all
    moreover have "x = y" if "x \<noteq> p" "y \<noteq> p"
    proof (rule inj_onD [of "tid_map s" "dom (tid_map s)"])
      show "inj_on (tid_map s) (dom (tid_map s))" using assms(1) by (simp add: thread_ids_ok_def)
      show "tid_map s x = tid_map s y" using xy(3) that by (simp only: fun_upd_apply if_False)
      show "x \<in> dom (tid_map s)" "y \<in> dom (tid_map s)" using xy(1,2) that by blast+
    qed
    ultimately show "x = y" by blast
  qed
  moreover have "ran ((tid_map s)(p \<mapsto> tid_ctr s)) = {..<tid_ctr s + 1}"
    using ran_map_upd [of "tid_map s" p "tid_ctr s", OF None] assms(1)
    unfolding thread_ids_ok_def by (simp add: lessThan_Suc)
  moreover have "dom (tid_map s') = insert p (dom (tid_map s))" "tid_map s' p = Some i"
    "tid_map s \<subseteq>\<^sub>m tid_map s'"
    using s' None by (auto simp: map_le_def)
  ultimately show ?thesis
    unfolding thread_ids_ok_def s'(2,3) by simp
next
  case (Some j)
  then show ?thesis using assms by (auto simp: get_cur_tid_def)
qed

fun get_tids :: "thread_ids \<Rightarrow> nat list \<Rightarrow> nat list \<times> thread_ids" where
  "get_tids s [] = ([], s)"
| "get_tids s (p # ps) =
     (let (i, s') = get_cur_tid s p; (is, s'') = get_tids s' ps in (i # is, s''))"

lemma get_tids_ok:
  "thread_ids_ok s \<Longrightarrow> get_tids s ps = (is, s') \<Longrightarrow>
     thread_ids_ok s' \<and> tid_map s \<subseteq>\<^sub>m tid_map s' \<and> map (tid_map s') ps = map Some is"
proof (induction ps arbitrary: s "is" s')
  case (Cons p ps)
  obtain i s1 where 1: "get_cur_tid s p = (i, s1)" by force
  obtain js s2 where 2: "get_tids s1 ps = (js, s2)" by force
  have "is = i # js" "s' = s2" using Cons.prems(2) 1 2 by auto
  then show ?case
    using Cons.IH [OF _ 2] get_cur_tid_ok [OF Cons.prems(1) 1] map_le_trans
    by (auto simp: map_le_def dom_def)
qed simp

text \<open>
  Over any sequence of calls \<open>get_cur_tid\<close> gives two calls the same number exactly when
  they come from the same thread, and the numbers handed out are \<open>0, 1, 2, \<dots>\<close> without gaps,
  so the arrays indexed by them are used from the front.
\<close>

theorem get_cur_tid_numbers_threads:
  assumes "get_tids thread_ids_init ps = (is, s)"
  shows "length is = length ps \<and>
    (\<forall>m n. m < length ps \<and> n < length ps \<longrightarrow> (is ! m = is ! n \<longleftrightarrow> ps ! m = ps ! n)) \<and>
    {..<tid_ctr s} = ran (tid_map s)"
proof -
  note ok = get_tids_ok [OF thread_ids_ok_init assms]
  then have l: "length is = length ps" by (metis length_map)
  have nth: "tid_map s (ps ! m) = Some (is ! m)" if "m < length ps" for m
    using ok that l by (metis nth_map)
  have inj: "inj_on (tid_map s) (dom (tid_map s))" using ok by (simp add: thread_ids_ok_def)
  have "is ! m = is ! n \<longleftrightarrow> ps ! m = ps ! n" if "m < length ps" "n < length ps" for m n
    using nth [OF that(1)] nth [OF that(2)] inj_onD [OF inj, of "ps ! m" "ps ! n"] by auto
  then show ?thesis using l ok by (auto simp: thread_ids_ok_def)
qed

theorem get_cur_tid_numbers_threads_witness:
  "fst (get_tids thread_ids_init [70, 80, 70]) = [0, 1, 0] \<and>
   (([0, 1, 0] ! 0 = ([0, 1, 0] :: nat list) ! 2) \<longleftrightarrow> ([70, 80, 70] ! 0 = ([70, 80, 70] :: nat list) ! 2))"
proof -
  have e: "get_tids thread_ids_init [70, 80, 70] =
      ([0, 1, 0], \<lparr>tid_map = [70 \<mapsto> 0, 80 \<mapsto> 1], tid_ctr = 2\<rparr>)"
    by (simp add: thread_ids_init_def get_cur_tid_def map_insert_def Let_def)
  show ?thesis using get_cur_tid_numbers_threads [OF e] e by simp
qed

end
