(* ===== verification/Epochs.thy ===== *)
theory Epochs
  imports Prelude
begin

unbundle bit_operations_syntax

text \<open>
  Epochs of the FastTrack detectors (\<open>fasttrack/include/Common.H\<close>,
  \<open>fasttrack/include/exec_calls.h\<close>): a task identifier and a clock packed into one
  64-bit word, the clock in the low 40 bits, the task in the next 23, and the top bit
  reserved; the word that has only the top bit set marks a variable as racy.
\<close>

section \<open>The layout\<close>

type_synonym size_t = "64 word"

definition NUM_TASK_BITS :: nat where
  "NUM_TASK_BITS = 23"

definition NUM_CLK_BITS :: nat where
  "NUM_CLK_BITS = 64 - NUM_TASK_BITS - 1"

definition MAX_NUM_TASKS :: size_t where
  "MAX_NUM_TASKS = push_bit NUM_TASK_BITS 1 - 1"

definition CLK_MASK :: size_t where
  "CLK_MASK = push_bit NUM_CLK_BITS 1 - 1"

definition EPOCH_BIT :: size_t where
  "EPOCH_BIT = push_bit (NUM_TASK_BITS + NUM_CLK_BITS) 1"

definition TASKID_MASK :: size_t where
  "TASKID_MASK = (EPOCH_BIT - 1) AND NOT CLK_MASK"

definition getReadEpochClock :: "size_t \<Rightarrow> size_t" where
  "getReadEpochClock epoch = epoch AND CLK_MASK"

definition getReadEpochTaskID :: "size_t \<Rightarrow> size_t" where
  "getReadEpochTaskID epoch = drop_bit NUM_CLK_BITS (epoch AND TASKID_MASK)"

definition getWriteClock :: "size_t \<Rightarrow> size_t" where
  "getWriteClock epoch = epoch AND CLK_MASK"

definition getWriteTaskID :: "size_t \<Rightarrow> size_t" where
  "getWriteTaskID epoch = drop_bit NUM_CLK_BITS epoch"

definition createReadEpoch :: "size_t \<Rightarrow> size_t \<Rightarrow> size_t" where
  "createReadEpoch taskid clk = push_bit NUM_CLK_BITS taskid OR clk"

definition createWriteEpoch :: "size_t \<Rightarrow> size_t \<Rightarrow> size_t" where
  "createWriteEpoch taskid clk = push_bit NUM_CLK_BITS taskid OR clk"

section \<open>Bit facts\<close>

lemma layout [simp]: "NUM_TASK_BITS = 23" "NUM_CLK_BITS = 40"
  by (simp_all add: NUM_TASK_BITS_def NUM_CLK_BITS_def)

lemma CLK_MASK_mask: "CLK_MASK = mask 40"
  by (simp add: CLK_MASK_def mask_eq_exp_minus_1 push_bit_eq_mult)

lemma EPOCH_BIT_exp: "EPOCH_BIT = 2 ^ 63"
  by (simp add: EPOCH_BIT_def push_bit_eq_mult)

lemma and_CLK_MASK: "e AND CLK_MASK = take_bit 40 e"
  by (simp add: CLK_MASK_mask take_bit_eq_mask)

lemma bit_TASKID_MASK: "bit TASKID_MASK n \<longleftrightarrow> 40 \<le> n \<and> n < 63"
proof -
  have "EPOCH_BIT - 1 = mask 63" by (simp add: EPOCH_BIT_exp mask_eq_exp_minus_1)
  then have eq: "TASKID_MASK = mask 63 AND NOT (mask 40)" by (simp add: TASKID_MASK_def CLK_MASK_mask)
  show ?thesis unfolding eq by (auto simp: bit_and_iff bit_mask_iff bit_not_iff)
qed

text \<open>What fits: a task below \<open>2\<^sup>2\<^sup>3\<close> and a clock below \<open>2\<^sup>4\<^sup>0\<close>.\<close>

definition fits :: "size_t \<Rightarrow> size_t \<Rightarrow> bool" where
  "fits t c \<longleftrightarrow> take_bit 23 t = t \<and> take_bit 40 c = c"

lemma bit_high:
  assumes "take_bit n w = w" "n \<le> m"
  shows "\<not> bit w m"
proof -
  have "bit (take_bit n w) m \<longleftrightarrow> m < n \<and> bit w m" by (simp add: bit_take_bit_iff)
  then show ?thesis using assms by simp
qed

lemma bit_epoch:
  assumes "fits t c"
  shows "bit (createWriteEpoch t c) n \<longleftrightarrow> (if n < 40 then bit c n else bit t (n - 40) \<and> n < 64)"
  using assms bit_high [of 40 c n] by (auto simp: createWriteEpoch_def fits_def bit_or_iff bit_push_bit_iff)

lemma createReadEpoch_eq: "createReadEpoch = createWriteEpoch"
  by (simp add: fun_eq_iff createReadEpoch_def createWriteEpoch_def)

lemma epoch_clock:
  assumes "fits t c"
  shows "getWriteClock (createWriteEpoch t c) = c" "getReadEpochClock (createWriteEpoch t c) = c"
proof -
  have "take_bit 40 (createWriteEpoch t c) = c"
    using assms bit_high [of 40 c]
    by (intro bit_eqI) (auto simp: bit_take_bit_iff bit_epoch fits_def dest: bit_imp_le_length)
  then show "getWriteClock (createWriteEpoch t c) = c" "getReadEpochClock (createWriteEpoch t c) = c"
    by (simp_all add: getWriteClock_def getReadEpochClock_def and_CLK_MASK)
qed

lemma epoch_task:
  assumes "fits t c"
  shows "getWriteTaskID (createWriteEpoch t c) = t" "getReadEpochTaskID (createWriteEpoch t c) = t"
proof -
  have lim: "n < 23" if "bit t n" for n
    using assms bit_high [of 23 t n] that by (auto simp: fits_def not_le [symmetric])
  show "getWriteTaskID (createWriteEpoch t c) = t"
    unfolding getWriteTaskID_def layout
    by (rule bit_eqI) (use lim in \<open>auto simp: bit_drop_bit_eq bit_epoch [OF assms] dest: lim\<close>)
  show "getReadEpochTaskID (createWriteEpoch t c) = t"
    unfolding getReadEpochTaskID_def layout
    by (rule bit_eqI) (use lim in \<open>auto simp: bit_drop_bit_eq bit_and_iff bit_TASKID_MASK
          bit_epoch [OF assms] dest: lim\<close>)
qed

lemma epoch_not_racy:
  assumes "fits t c"
  shows "createWriteEpoch t c \<noteq> EPOCH_BIT"
proof
  assume *: "createWriteEpoch t c = EPOCH_BIT"
  have "bit EPOCH_BIT 63" by (simp add: EPOCH_BIT_def bit_push_bit_iff)
  then have "bit t 23" using bit_epoch [OF assms, of 63] * by simp
  then show False using assms bit_high [of 23 t 23] by (simp add: fits_def)
qed

lemma epoch_zero:
  assumes "fits t c"
  shows "createWriteEpoch t c = 0 \<longleftrightarrow> t = 0 \<and> c = 0"
proof
  assume "createWriteEpoch t c = 0"
  then show "t = 0 \<and> c = 0"
    using epoch_clock(1) [OF assms] epoch_task(1) [OF assms]
    by (simp add: getWriteClock_def getWriteTaskID_def)
qed (simp add: createWriteEpoch_def)

text \<open>The zero word, a fresh variable's metadata, is task 0 at clock 0.\<close>

lemma epoch_of_zero [simp]:
  "getWriteTaskID 0 = 0" "getWriteClock 0 = 0" "getReadEpochTaskID 0 = 0" "getReadEpochClock 0 = 0"
  by (simp_all add: getWriteTaskID_def getWriteClock_def getReadEpochTaskID_def getReadEpochClock_def)

lemma fits_less: "t < MAX_NUM_TASKS \<Longrightarrow> c < 2 ^ 40 \<Longrightarrow> fits t c"
proof -
  assume *: "t < MAX_NUM_TASKS" "c < 2 ^ 40"
  then have "unat t < 2 ^ 23" "unat c < 2 ^ 40"
    by (simp_all add: word_less_nat_alt MAX_NUM_TASKS_def push_bit_eq_mult)
  then show ?thesis
    unfolding fits_def word_unat_eq_iff by (simp add: unsigned_take_bit_eq take_bit_nat_eq_self)
qed

text \<open>
  Packing and unpacking agree: for every task identifier below the table size and every
  clock below \<open>2\<^sup>4\<^sup>0\<close> the read and write accessors return the task and the clock the epoch was
  made from, different pairs give different epochs, and no such epoch is the racy marker.
\<close>

theorem epoch_round_trip:
  assumes "t < MAX_NUM_TASKS" "c < 2 ^ 40"
  shows "getWriteTaskID (createWriteEpoch t c) = t \<and> getWriteClock (createWriteEpoch t c) = c \<and>
    getReadEpochTaskID (createReadEpoch t c) = t \<and> getReadEpochClock (createReadEpoch t c) = c \<and>
    createWriteEpoch t c \<noteq> EPOCH_BIT \<and>
    (\<forall>u d. u < MAX_NUM_TASKS \<and> d < 2 ^ 40 \<and> createWriteEpoch u d = createWriteEpoch t c \<longrightarrow>
       u = t \<and> d = c)"
proof -
  have f: "fits t c" using fits_less assms .
  have "u = t \<and> d = c" if "u < MAX_NUM_TASKS" "d < 2 ^ 40" "createWriteEpoch u d = createWriteEpoch t c" for u d
    using epoch_task(1) [OF fits_less [OF that(1,2)]] epoch_clock(1) [OF fits_less [OF that(1,2)]]
      epoch_task(1) [OF f] epoch_clock(1) [OF f] that(3) by simp
  then show ?thesis
    using epoch_task [OF f] epoch_clock [OF f] epoch_not_racy [OF f]
    unfolding createReadEpoch_eq by blast
qed

theorem epoch_round_trip_witness:
  "getWriteTaskID (createWriteEpoch 5 7) = 5 \<and> getReadEpochClock (createReadEpoch 5 7) = 7"
  using epoch_round_trip [of 5 7] by (simp add: MAX_NUM_TASKS_def push_bit_eq_mult)

end
