(* ===== verification/FastTrack.thy ===== *)
theory FastTrack
  imports Epochs Shadow
begin

text \<open>
  The FastTrack detector for tasks (\<open>fasttrack/src/Dr_Detector.cpp\<close>, \<open>src/exec_calls.cpp\<close>,
  \<open>include/exec_calls.h\<close>, \<open>include/t_debug_task.h\<close>) as built: read vectors are
  \<open>unordered_map\<close>s, statistics and debugging are off.  \<open>REPORT_DATA_RACES\<close>, 0 in
  \<open>Common.H\<close>, is a field of the state, so both builds are covered.  A \<open>TaskState*\<close> is the
  key under which the task map holds it; a read vector is reached through the address
  that \<open>new\<close> returned, which is an argument of the handlers that allocate one.  Each
  handler runs under the locks of what it touches and is one step of the model.
\<close>

section \<open>Vector clocks\<close>

text \<open>An array of \<open>MAX_NUM_TASKS\<close> words.\<close>

type_synonym vclock = "size_t \<Rightarrow> size_t"

definition zero_vc :: vclock where
  "zero_vc = (\<lambda>_. 0)"

definition copy_vc :: "vclock \<Rightarrow> vclock \<Rightarrow> vclock" where
  "copy_vc src dst = (\<lambda>i. if i < MAX_NUM_TASKS then src i else dst i)"

definition join_vc :: "vclock \<Rightarrow> vclock \<Rightarrow> vclock" where
  "join_vc src tgt = (\<lambda>i. if i < MAX_NUM_TASKS then max (src i) (tgt i) else src i)"

text \<open>Reading or writing an index beyond the array has no defined result.\<close>

definition at_vc :: "vclock \<Rightarrow> size_t \<Rightarrow> size_t option" where
  "at_vc vc index = (if index < MAX_NUM_TASKS then Some (vc index) else None)"

definition update_vc :: "vclock \<Rightarrow> size_t \<Rightarrow> size_t \<Rightarrow> vclock option" where
  "update_vc vc index new_val = (if index < MAX_NUM_TASKS then Some (vc(index := new_val)) else None)"

text \<open>\<open>update_vc(vc, i, vc[i] + 1)\<close>.\<close>

definition tick_vc :: "vclock \<Rightarrow> size_t \<Rightarrow> vclock option" where
  "tick_vc vc index = do { c \<leftarrow> at_vc vc index; update_vc vc index (c + 1) }"

section \<open>State\<close>

record TaskState =
  m_taskid :: size_t
  parent :: "size_t option"
  mytask :: "nat option"
  m_vector_clock :: vclock
  m_child :: "size_t list"

definition new_TaskState :: "size_t \<Rightarrow> TaskState" where
  "new_TaskState ptaskid =
     \<lparr>m_taskid = ptaskid, parent = None, mytask = None, m_vector_clock = zero_vc, m_child = []\<rparr>"

text \<open>An \<open>unordered_map<size_t, size_t>\<close>, in iteration order.\<close>

type_synonym read_map = "(size_t \<times> size_t) list"

definition umap_insert :: "read_map \<Rightarrow> size_t \<Rightarrow> size_t \<Rightarrow> read_map" where
  "umap_insert m k v = (if k \<in> fst ` set m then m else (k, v) # m)"

record VarState =
  m_rd_epoch :: size_t
  m_wr_epoch :: size_t
  m_is_vector :: bool
  m_rd_vc :: read_map

definition new_VarState :: VarState where
  "new_VarState = \<lparr>m_rd_epoch = 0, m_wr_epoch = 0, m_is_vector = False, m_rd_vc = []\<rparr>"

definition isReadVector :: "VarState \<Rightarrow> bool" where
  "isReadVector v = m_is_vector v"

definition isRacy :: "VarState \<Rightarrow> bool" where
  "isRacy v \<longleftrightarrow> m_wr_epoch v = EPOCH_BIT"

definition setRacy :: "VarState \<Rightarrow> VarState" where
  "setRacy v = v\<lparr>m_wr_epoch := EPOCH_BIT\<rparr>"

definition clearReadVector :: "VarState \<Rightarrow> VarState" where
  "clearReadVector v = v\<lparr>m_rd_vc := [], m_is_vector := False\<rparr>"

text \<open>The map of a new read vector; the caller stores its address.\<close>

definition createReadVector :: "size_t \<Rightarrow> size_t \<Rightarrow> size_t \<Rightarrow> size_t \<Rightarrow> read_map" where
  "createReadVector ftid fclock stid sclock = umap_insert (umap_insert [] ftid fclock) stid sclock"

record ViolationData =
  tid :: size_t
  accessType :: AccessType

record Violation =
  a1 :: ViolationData
  a2 :: ViolationData

record races =
  REPORT_DATA_RACES :: bool
  all_violations :: "ADDRINT \<rightharpoonup> Violation"

definition error ::
    "races \<Rightarrow> ADDRINT \<Rightarrow> size_t \<Rightarrow> AccessType \<Rightarrow> size_t \<Rightarrow> AccessType \<Rightarrow> races" where
  "error r addr ftid ftype stid stype =
     (if REPORT_DATA_RACES r
      then r\<lparr>all_violations := map_insert (all_violations r) addr
               \<lparr>a1 = \<lparr>tid = ftid, accessType = ftype\<rparr>, a2 = \<lparr>tid = stid, accessType = stype\<rparr>\<rparr>\<rparr>
      else r)"

type_synonym heap = "size_t \<rightharpoonup> read_map"

definition element :: "TaskState \<Rightarrow> size_t \<Rightarrow> size_t option" where
  "element thread curtid = at_vc (m_vector_clock thread) curtid"

section \<open>Reads and writes\<close>

text \<open>\<open>id != curtid && clk > element(task, id)\<close>.\<close>

definition unordered_after :: "TaskState \<Rightarrow> size_t \<Rightarrow> size_t \<Rightarrow> size_t \<Rightarrow> bool option" where
  "unordered_after task curtid i clk =
     (if i \<noteq> curtid then do { e \<leftarrow> element task i; Some (e < clk) } else Some False)"

definition ftread :: "heap \<Rightarrow> races \<Rightarrow> ADDRINT \<Rightarrow> VarState \<Rightarrow> TaskState \<Rightarrow> size_t \<Rightarrow> size_t
    \<Rightarrow> size_t \<Rightarrow> (heap \<times> races \<times> VarState) option" where
  "ftread h r addr v task curtid curclock new_ptr =
     do {
       let rd_md = m_rd_epoch v;
       let wr_md = m_wr_epoch v;
       let wtid = getWriteTaskID wr_md;
       let wclk = getWriteClock wr_md;
       write_read \<leftarrow> unordered_after task curtid wtid wclk;
       if write_read then Some (h, error r addr wtid WRITE curtid READ, setRacy v)
       else if \<not> isReadVector v then do {
         let last_rd_tid = getReadEpochTaskID rd_md;
         let last_rd_clk = getReadEpochClock rd_md;
         e \<leftarrow> element task last_rd_tid;
         if last_rd_clk \<le> e then Some (h, r, v\<lparr>m_rd_epoch := createReadEpoch curtid curclock\<rparr>)
         else Some (h(new_ptr \<mapsto> createReadVector last_rd_tid last_rd_clk curtid curclock), r,
                    v\<lparr>m_is_vector := True, m_rd_epoch := new_ptr\<rparr>)
       } else do {
         tmp \<leftarrow> h rd_md;
         Some (h(rd_md \<mapsto> umap_insert tmp curtid curclock), r, v)
       }
     }"

text \<open>The loop over the read vector.\<close>

fun check_readers :: "races \<Rightarrow> ADDRINT \<Rightarrow> VarState \<Rightarrow> TaskState \<Rightarrow> size_t \<Rightarrow> read_map
    \<Rightarrow> (races \<times> VarState) option" where
  "check_readers r addr v task curtid [] = Some (r, v)"
| "check_readers r addr v task curtid ((k, c) # rest) =
     do {
       read_write \<leftarrow> unordered_after task curtid k c;
       if read_write then check_readers (error r addr k READ curtid WRITE) addr (setRacy v) task curtid rest
       else check_readers r addr v task curtid rest
     }"

definition ftwrite :: "heap \<Rightarrow> races \<Rightarrow> ADDRINT \<Rightarrow> VarState \<Rightarrow> TaskState \<Rightarrow> size_t \<Rightarrow> size_t
    \<Rightarrow> (heap \<times> races \<times> VarState) option" where
  "ftwrite h r addr v task_state curtid curclk =
     do {
       let rd_md = m_rd_epoch v;
       let wr_md = m_wr_epoch v;
       let last_wtid = getWriteTaskID wr_md;
       let last_wclk = getWriteClock wr_md;
       write_write \<leftarrow> (if wr_md > 0 then unordered_after task_state curtid last_wtid last_wclk
                         else Some False);
       if write_write then Some (h, error r addr last_wtid WRITE curtid WRITE, setRacy v)
       else if \<not> isReadVector v then do {
         (r, v) \<leftarrow>
           (if curtid \<noteq> last_wtid then do {
              let rd_clk = getReadEpochClock rd_md;
              let rd_tid = getReadEpochTaskID rd_md;
              read_write \<leftarrow> unordered_after task_state curtid rd_tid rd_clk;
              Some (if read_write then (error r addr rd_tid READ curtid WRITE, setRacy v) else (r, v))
            } else Some (r, v));
         Some (h, r, v\<lparr>m_rd_epoch := 0, m_wr_epoch := createWriteEpoch curtid curclk\<rparr>)
       } else do {
         tmp \<leftarrow> h rd_md;
         (r, v) \<leftarrow> check_readers r addr v task_state curtid tmp;
         let v = clearReadVector v;
         Some (h(rd_md \<mapsto> []), r, v\<lparr>m_wr_epoch := createWriteEpoch curtid curclk\<rparr>)
       }
     }"

section \<open>The detector\<close>

record fasttrack =
  taskid_taskstate_map :: "size_t \<rightharpoonup> TaskState"
  thrid_taskid_map :: "THREADID \<rightharpoonup> size_t list"
  lockmap :: "ADDRINT \<rightharpoonup> vclock"
  shadow_space :: "VarState option shadow_space"
  read_vectors :: heap
  races :: races
  task_id_ctr :: size_t

definition ft_init :: "bool \<Rightarrow> fasttrack" where
  "ft_init report_data_races =
     \<lparr>taskid_taskstate_map = Map.empty, thrid_taskid_map = Map.empty, lockmap = Map.empty,
      shadow_space = (\<lambda>_. None), read_vectors = Map.empty,
      races = \<lparr>REPORT_DATA_RACES = report_data_races, all_violations = Map.empty\<rparr>, task_id_ctr = 0\<rparr>"

text \<open>The access handler: find or make the task state, then the variable's fast and slow paths.\<close>

definition find_task :: "(size_t \<rightharpoonup> TaskState) \<Rightarrow> size_t \<Rightarrow> (TaskState \<times> (size_t \<rightharpoonup> TaskState)) option" where
  "find_task m t =
     (case m t of
        Some task_state \<Rightarrow> Some (task_state, m)
      | None \<Rightarrow> do {
          vc \<leftarrow> update_vc zero_vc t 1;
          let task_state = (new_TaskState t)\<lparr>m_vector_clock := vc\<rparr>;
          Some (task_state, m(t \<mapsto> task_state))
        })"

definition access_var :: "heap \<Rightarrow> races \<Rightarrow> ADDRINT \<Rightarrow> VarState option \<Rightarrow> TaskState \<Rightarrow> size_t
    \<Rightarrow> size_t \<Rightarrow> AccessType \<Rightarrow> size_t \<Rightarrow> (heap \<times> races \<times> VarState option) option" where
  "access_var h r addr var_state task_state t curclock accesstype new_ptr =
     (case var_state of
        None \<Rightarrow>
          Some (h, r, Some
            (if accesstype = READ then new_VarState\<lparr>m_rd_epoch := createReadEpoch t curclock\<rparr>
             else new_VarState\<lparr>m_wr_epoch := createWriteEpoch t curclock\<rparr>))
      | Some v \<Rightarrow>
          if isRacy v then Some (h, r, Some v)
          else if accesstype = READ then
            if m_rd_epoch v > 0 \<and> \<not> isReadVector v \<and> t = getReadEpochTaskID (m_rd_epoch v) \<and>
               curclock = getReadEpochClock (m_rd_epoch v)
            then Some (h, r, Some v)
            else do {
              (h, r, v) \<leftarrow> ftread h r addr v task_state t curclock new_ptr;
              Some (h, r, Some v)
            }
          else
            if m_wr_epoch v > 0 \<and> getWriteTaskID (m_wr_epoch v) = t \<and>
               getWriteClock (m_wr_epoch v) = curclock
            then Some (h, r, Some v)
            else do {
              (h, r, v) \<leftarrow> ftwrite h r addr v task_state t curclock;
              Some (h, r, Some v)
            })"

definition RecordMem :: "fasttrack \<Rightarrow> size_t \<Rightarrow> ADDRINT \<Rightarrow> AccessType \<Rightarrow> size_t \<Rightarrow> fasttrack option" where
  "RecordMem s t addr accesstype new_ptr =
     do {
       (task_state, m) \<leftarrow> find_task (taskid_taskstate_map s) t;
       curclock \<leftarrow> element task_state t;
       let sh = touch_page None (shadow_space s) (primary_index addr);
       let var_state = cell_at None sh addr;
       (h, r, var_state) \<leftarrow> access_var (read_vectors s) (races s) addr var_state task_state t
                               curclock accesstype new_ptr;
       Some (s\<lparr>taskid_taskstate_map := m, read_vectors := h, races := r,
               shadow_space := put_cell None sh addr var_state\<rparr>)
     }"

section \<open>Threads and tasks\<close>

definition exec_begin :: "fasttrack \<Rightarrow> THREADID \<Rightarrow> size_t \<Rightarrow> fasttrack" where
  "exec_begin s pthd_id taskId =
     s\<lparr>thrid_taskid_map := (thrid_taskid_map s)
         (pthd_id \<mapsto> taskId # (case thrid_taskid_map s pthd_id of None \<Rightarrow> [] | Some st \<Rightarrow> st))\<rparr>"

definition exec_end :: "fasttrack \<Rightarrow> THREADID \<Rightarrow> fasttrack option" where
  "exec_end s pthd_id =
     do {
       st \<leftarrow> stack_pop (case thrid_taskid_map s pthd_id of None \<Rightarrow> [] | Some st \<Rightarrow> st);
       Some (s\<lparr>thrid_taskid_map := (thrid_taskid_map s)(pthd_id \<mapsto> st)\<rparr>)
     }"

text \<open>The task a thread runs; a thread outside every task is in task 0.\<close>

definition get_cur_tid :: "fasttrack \<Rightarrow> THREADID \<Rightarrow> size_t \<times> fasttrack" where
  "get_cur_tid s pthd_id =
     (case thrid_taskid_map s pthd_id of
        Some (k # st) \<Rightarrow> (k, s)
      | _ \<Rightarrow> (0, s\<lparr>thrid_taskid_map := (thrid_taskid_map s)(pthd_id \<mapsto> [0])\<rparr>))"

text \<open>The current task's state, made without a clock when it is missing.\<close>

definition find_or_new :: "(size_t \<rightharpoonup> TaskState) \<Rightarrow> size_t \<Rightarrow> (size_t \<rightharpoonup> TaskState)" where
  "find_or_new m t = (case m t of Some _ \<Rightarrow> m | None \<Rightarrow> m(t \<mapsto> new_TaskState t))"

text \<open>
  The tail the spawning wrappers share: a new child state below the state of \<open>p\<close>, with
  a copy of its clock; both tick.  Every task state is stored under its own \<open>m_taskid\<close>,
  the index at which the parent ticks.
\<close>

definition fork :: "(size_t \<rightharpoonup> TaskState) \<Rightarrow> size_t \<Rightarrow> size_t \<Rightarrow> nat \<Rightarrow> (size_t \<rightharpoonup> TaskState) option" where
  "fork m p child t =
     do {
       let m = m(child \<mapsto> new_TaskState child);
       parent_task_state \<leftarrow> m p;
       child_vc \<leftarrow> tick_vc (copy_vc (m_vector_clock parent_task_state) zero_vc) child;
       parent_vc \<leftarrow> tick_vc (m_vector_clock parent_task_state) (m_taskid parent_task_state);
       Some (m(child \<mapsto> (new_TaskState child)\<lparr>m_vector_clock := child_vc, mytask := Some t,
                                             parent := Some p\<rparr>,
               p \<mapsto> parent_task_state\<lparr>m_vector_clock := parent_vc,
                                      m_child := m_child parent_task_state @ [child]\<rparr>))
     }"

text \<open>
  \<open>spawn\<close>: \<open>t\<close> is the TBB task, \<open>t_parent\<close> what \<open>t.parent()\<close> returns; a task allocated as
  an additional child is hung below the current task's parent.  The call into TBB that
  follows runs the events that follow.
\<close>

definition spawn :: "fasttrack \<Rightarrow> THREADID \<Rightarrow> nat \<Rightarrow> nat option \<Rightarrow> fasttrack option" where
  "spawn s pthd_id t t_parent =
     do {
       let child = task_id_ctr s + 1;
       let (parent_taskid, s) = get_cur_tid (s\<lparr>task_id_ctr := child\<rparr>) pthd_id;
       let m = find_or_new (taskid_taskstate_map s) parent_taskid;
       parent_task_state \<leftarrow> m parent_taskid;
       p \<leftarrow> (if t_parent \<noteq> mytask parent_task_state then parent parent_task_state
             else Some parent_taskid);
       m \<leftarrow> fork m p child t;
       Some (s\<lparr>taskid_taskstate_map := m\<rparr>)
     }"

definition spawn_root :: "fasttrack \<Rightarrow> THREADID \<Rightarrow> nat \<Rightarrow> fasttrack option" where
  "spawn_root s parent_pthd_id root =
     do {
       let root_taskid = task_id_ctr s + 1;
       let (parent_taskid, s) = get_cur_tid (s\<lparr>task_id_ctr := root_taskid\<rparr>) parent_pthd_id;
       let m = find_or_new (taskid_taskstate_map s) parent_taskid;
       m \<leftarrow> fork m parent_taskid root_taskid root;
       Some (s\<lparr>taskid_taskstate_map := m\<rparr>)
     }"

text \<open>
  The loop of \<open>Capturewait_for_all_task\<close> over the children \<open>cs\<close> of \<open>p\<close>: first a child's
  own children, then the child; the list of \<open>p\<close> is cleared after the last one.
\<close>

definition join_child :: "(size_t \<rightharpoonup> TaskState) \<Rightarrow> size_t \<Rightarrow> size_t \<Rightarrow> (size_t \<rightharpoonup> TaskState) option" where
  "join_child m p c =
     do {
       parent_task_state \<leftarrow> m p;
       child_task_state \<leftarrow> m c;
       Some (m(p \<mapsto> parent_task_state\<lparr>m_vector_clock :=
         join_vc (m_vector_clock parent_task_state) (m_vector_clock child_task_state)\<rparr>))
     }"

definition clear_children :: "(size_t \<rightharpoonup> TaskState) \<Rightarrow> size_t \<Rightarrow> (size_t \<rightharpoonup> TaskState) option" where
  "clear_children m p = do { st \<leftarrow> m p; Some (m(p \<mapsto> st\<lparr>m_child := []\<rparr>)) }"

partial_function (option) join_children ::
    "(size_t \<rightharpoonup> TaskState) \<Rightarrow> size_t \<Rightarrow> size_t list \<Rightarrow> (size_t \<rightharpoonup> TaskState) option" where
  "join_children m p cs =
     (case cs of
        [] \<Rightarrow> clear_children m p
      | c # cs' \<Rightarrow> do {
          child_task_state \<leftarrow> m c;
          m \<leftarrow> (if m_child child_task_state \<noteq> [] then join_children m c (m_child child_task_state)
                else Some m);
          m \<leftarrow> join_child m p c;
          join_children m p cs'
        })"

declare join_children.simps [code]

definition Capturewait_for_all_task ::
    "(size_t \<rightharpoonup> TaskState) \<Rightarrow> size_t \<Rightarrow> (size_t \<rightharpoonup> TaskState) option" where
  "Capturewait_for_all_task m p =
     do {
       parent_task_state \<leftarrow> m p;
       if m_child parent_task_state = [] then Some m
       else join_children m p (m_child parent_task_state)
     }"

definition Capturewait_for_all :: "fasttrack \<Rightarrow> THREADID \<Rightarrow> fasttrack option" where
  "Capturewait_for_all s pthd_id =
     do {
       let (parent_taskid, s) = get_cur_tid s pthd_id;
       m \<leftarrow> Capturewait_for_all_task (taskid_taskstate_map s) parent_taskid;
       Some (s\<lparr>taskid_taskstate_map := m\<rparr>)
     }"

text \<open>The three wrappers that wait, with the TBB call as argument.\<close>

definition wait_for_all ::
    "(fasttrack \<Rightarrow> fasttrack option) \<Rightarrow> fasttrack \<Rightarrow> THREADID \<Rightarrow> fasttrack option" where
  "wait_for_all tbb s pthd_id = do { s \<leftarrow> tbb s; Capturewait_for_all s pthd_id }"

definition spawn_root_and_wait ::
    "(fasttrack \<Rightarrow> fasttrack option) \<Rightarrow> fasttrack \<Rightarrow> THREADID \<Rightarrow> nat \<Rightarrow> fasttrack option" where
  "spawn_root_and_wait tbb s pthd_id root =
     do { s \<leftarrow> spawn_root s pthd_id root; s \<leftarrow> tbb s; Capturewait_for_all s pthd_id }"

text \<open>\<open>spawn_and_wait_for_all\<close> never looks at \<open>t.parent()\<close>.\<close>

definition spawn_and_wait_for_all ::
    "(fasttrack \<Rightarrow> fasttrack option) \<Rightarrow> fasttrack \<Rightarrow> THREADID \<Rightarrow> nat \<Rightarrow> fasttrack option" where
  "spawn_and_wait_for_all tbb s pthd_id child =
     do { s \<leftarrow> spawn_root s pthd_id child; s \<leftarrow> tbb s; Capturewait_for_all s pthd_id }"

section \<open>Locks\<close>

definition CaptureLockAcquire :: "fasttrack \<Rightarrow> size_t \<Rightarrow> ADDRINT \<Rightarrow> fasttrack option" where
  "CaptureLockAcquire s taskid lock_addr =
     do {
       t \<leftarrow> taskid_taskstate_map s taskid;
       let lm = map_insert (lockmap s) lock_addr zero_vc;
       lvc \<leftarrow> lm lock_addr;
       Some (s\<lparr>lockmap := lm, taskid_taskstate_map := (taskid_taskstate_map s)
                 (taskid \<mapsto> t\<lparr>m_vector_clock := join_vc (m_vector_clock t) lvc\<rparr>)\<rparr>)
     }"

definition CaptureLockRelease :: "fasttrack \<Rightarrow> size_t \<Rightarrow> ADDRINT \<Rightarrow> fasttrack option" where
  "CaptureLockRelease s t lock_addr =
     do {
       st \<leftarrow> taskid_taskstate_map s t;
       lvc \<leftarrow> lockmap s lock_addr;
       let lvc = copy_vc (m_vector_clock st) lvc;
       vc \<leftarrow> tick_vc (m_vector_clock st) (m_taskid st);
       Some (s\<lparr>lockmap := (lockmap s)(lock_addr \<mapsto> lvc),
               taskid_taskstate_map := (taskid_taskstate_map s)(t \<mapsto> st\<lparr>m_vector_clock := vc\<rparr>)\<rparr>)
     }"

section \<open>Events\<close>

datatype ft_event =
    FtSpawn THREADID nat "nat option"
  | FtSpawnRoot THREADID nat
  | FtWait THREADID
  | FtBegin THREADID size_t
  | FtEnd THREADID
  | FtAcquire size_t ADDRINT
  | FtRelease size_t ADDRINT
  | FtAccess size_t ADDRINT AccessType size_t

fun ft_step :: "fasttrack \<Rightarrow> ft_event \<Rightarrow> fasttrack option" where
  "ft_step s (FtSpawn th t tp) = spawn s th t tp"
| "ft_step s (FtSpawnRoot th t) = spawn_root s th t"
| "ft_step s (FtWait th) = Capturewait_for_all s th"
| "ft_step s (FtBegin th k) = Some (exec_begin s th k)"
| "ft_step s (FtEnd th) = exec_end s th"
| "ft_step s (FtAcquire t l) = CaptureLockAcquire s t l"
| "ft_step s (FtRelease t l) = CaptureLockRelease s t l"
| "ft_step s (FtAccess t a k p) = RecordMem s t a k p"

end
