(* ===== verification/FtWait.thy ===== *)
theory FtWait
  imports FastTrack
begin

text \<open>
  \<open>Capturewait_for_all_task\<close> ends and joins the waiting task with all its descendants:
  its recursion follows \<open>m_child\<close>, whose entries are younger tasks, and empties every list
  it has followed.  The lattice of vector clocks is stated as an interface.
\<close>

section \<open>The lattice of clocks\<close>

text \<open>What the happens-before argument uses of a join: which entries it covers.\<close>

locale clock_join =
  fixes join :: "'c \<Rightarrow> 'c \<Rightarrow> 'c"
    and reaches :: "'c \<Rightarrow> 'i \<Rightarrow> 'v \<Rightarrow> bool"
  assumes reaches_join: "reaches (join a b) i v \<longleftrightarrow> reaches a i v \<or> reaches b i v"
begin

lemma join_covers: "reaches a i v \<Longrightarrow> reaches (join a b) i v" "reaches b i v \<Longrightarrow> reaches (join a b) i v"
  by (simp_all add: reaches_join)

lemma join_same: "reaches (join a a) i v \<longleftrightarrow> reaches a i v"
  by (simp add: reaches_join)

lemma join_comm: "reaches (join a b) i v \<longleftrightarrow> reaches (join b a) i v"
  by (auto simp: reaches_join)

lemma join_assoc: "reaches (join (join a b) c) i v \<longleftrightarrow> reaches (join a (join b c)) i v"
  by (auto simp: reaches_join)

lemma reaches_fold:
  "reaches (foldl join a xs) i v \<longleftrightarrow> reaches a i v \<or> (\<exists>b \<in> set xs. reaches b i v)"
  by (induction xs arbitrary: a) (auto simp: reaches_join)

end

text \<open>\<open>knows vc i c\<close>: the clock has seen epoch \<open>c\<close> of task \<open>i\<close>.\<close>

definition knows :: "vclock \<Rightarrow> size_t \<Rightarrow> size_t \<Rightarrow> bool" where
  "knows vc i c \<longleftrightarrow> i < MAX_NUM_TASKS \<and> c \<le> vc i"

interpretation vc: clock_join join_vc knows
  by unfold_locales (auto simp: knows_def join_vc_def le_max_iff_disj)

lemma knows_copy [simp]: "knows (copy_vc a b) i c = knows a i c"
  by (simp add: knows_def copy_vc_def)

section \<open>Children\<close>

definition child_rel :: "(size_t \<rightharpoonup> TaskState) \<Rightarrow> (size_t \<times> size_t) set" where
  "child_rel m = {(a, b). \<exists>st. m a = Some st \<and> b \<in> set (m_child st)}"

definition descendants :: "(size_t \<rightharpoonup> TaskState) \<Rightarrow> size_t list \<Rightarrow> size_t set" where
  "descendants m cs = (child_rel m)\<^sup>* `` set cs"

text \<open>Children exist and are younger than their parents.\<close>

definition younger_children :: "(size_t \<rightharpoonup> TaskState) \<Rightarrow> bool" where
  "younger_children m \<longleftrightarrow> (\<forall>a b. (a, b) \<in> child_rel m \<longrightarrow> b \<in> dom m \<and> a < b)"

text \<open>The clock of a task, zero when it has no state.\<close>

definition clock :: "(size_t \<rightharpoonup> TaskState) \<Rightarrow> size_t \<Rightarrow> vclock" where
  "clock m a = (case m a of None \<Rightarrow> zero_vc | Some st \<Rightarrow> m_vector_clock st)"

lemma younger_childrenD:
  "younger_children m \<Longrightarrow> m a = Some st \<Longrightarrow> b \<in> set (m_child st) \<Longrightarrow> b \<in> dom m \<and> a < b"
  unfolding younger_children_def child_rel_def by blast

lemma descendants_younger:
  assumes "younger_children m" "(c, d) \<in> (child_rel m)\<^sup>*"
  shows "c \<le> d \<and> (c \<in> dom m \<longrightarrow> d \<in> dom m)"
  using assms(2)
proof (induction rule: rtrancl_induct)
  case (step y z)
  then show ?case using assms(1) unfolding younger_children_def by (meson order.strict_implies_order order.trans)
qed simp

lemma descendants_Nil [simp]: "descendants m [] = {}"
  by (simp add: descendants_def)

lemma descendants_Cons: "descendants m (c # cs) = descendants m [c] \<union> descendants m cs"
  by (auto simp: descendants_def)

lemma descendants_single:
  assumes "m c = Some st"
  shows "descendants m [c] = insert c (descendants m (m_child st))"
proof -
  have "(c, d) \<in> (child_rel m)\<^sup>* \<longleftrightarrow> d = c \<or> (\<exists>b \<in> set (m_child st). (b, d) \<in> (child_rel m)\<^sup>*)" for d
    using assms by (auto simp: child_rel_def elim: converse_rtranclE intro: converse_rtrancl_into_rtrancl)
  then show ?thesis by (auto simp: descendants_def)
qed

lemma descendants_closed: "d \<in> descendants m cs \<Longrightarrow> (d, e) \<in> child_rel m \<Longrightarrow> e \<in> descendants m cs"
  unfolding descendants_def by (auto intro: rtrancl_into_rtrancl)

section \<open>What the recursion does\<close>

text \<open>
  \<open>joined m m' p D\<close>: task \<open>p\<close> has taken in the clocks of the set \<open>D\<close>, whose members have no
  children left and whose own clocks have only grown within \<open>D\<close>; nothing else changed.
\<close>

definition joined :: "(size_t \<rightharpoonup> TaskState) \<Rightarrow> (size_t \<rightharpoonup> TaskState) \<Rightarrow> size_t \<Rightarrow> size_t set \<Rightarrow> bool" where
  "joined m m' p D \<longleftrightarrow>
     dom m' = dom m \<and>
     (\<forall>a. a \<notin> insert p D \<longrightarrow> m' a = m a) \<and>
     (\<forall>d \<in> D. \<forall>st. m' d = Some st \<longrightarrow> m_child st = []) \<and>
     (\<forall>d \<in> D. \<forall>i c. knows (clock m d) i c \<longrightarrow> knows (clock m' d) i c) \<and>
     (\<forall>d \<in> D. \<forall>i c. knows (clock m' d) i c \<longrightarrow> (\<exists>e \<in> D. knows (clock m e) i c)) \<and>
     (\<forall>i c. knows (clock m' p) i c \<longleftrightarrow> knows (clock m p) i c \<or> (\<exists>d \<in> D. knows (clock m d) i c)) \<and>
     (\<forall>a st st'. m a = Some st \<longrightarrow> m' a = Some st' \<longrightarrow>
        m_taskid st' = m_taskid st \<and> parent st' = parent st \<and> mytask st' = mytask st)"

lemma joinedD:
  assumes "joined m m' p D"
  shows joined_dom: "dom m' = dom m"
    and joined_other: "a \<notin> insert p D \<Longrightarrow> m' a = m a"
    and joined_childless: "d \<in> D \<Longrightarrow> m' d = Some st \<Longrightarrow> m_child st = []"
    and joined_grow: "d \<in> D \<Longrightarrow> knows (clock m d) i c \<Longrightarrow> knows (clock m' d) i c"
    and joined_within: "d \<in> D \<Longrightarrow> knows (clock m' d) i c \<Longrightarrow> \<exists>e \<in> D. knows (clock m e) i c"
    and joined_clock: "knows (clock m' p) i c \<longleftrightarrow>
      knows (clock m p) i c \<or> (\<exists>d \<in> D. knows (clock m d) i c)"
    and joined_ids: "m a = Some st \<Longrightarrow> m' a = Some st' \<Longrightarrow>
      m_taskid st' = m_taskid st \<and> parent st' = parent st \<and> mytask st' = mytask st"
  using assms unfolding joined_def by blast+

text \<open>Below a child \<open>c\<close> that has been finished there is nothing left to follow.\<close>

lemma descendants_after:
  assumes j: "joined m m1 c (descendants m [c])" and m2: "m2 = m1(p \<mapsto> st)"
    and st: "m p = Some st0" "m_child st = m_child st0" and p: "p \<notin> descendants m [c]"
  shows "child_rel m2 \<subseteq> child_rel m" "descendants m2 cs \<subseteq> descendants m cs"
    "descendants m cs \<subseteq> descendants m2 cs \<union> descendants m [c]"
proof -
  let ?D = "descendants m [c]"
  have same: "(a, b) \<in> child_rel m2 \<longleftrightarrow> (a, b) \<in> child_rel m" if "a \<notin> ?D" for a b
  proof -
    have "c \<in> ?D" by (auto simp: descendants_def)
    then have "a \<notin> insert c ?D" using that by auto
    then have "m1 a = m a" by (rule joined_other [OF j])
    then show ?thesis using st by (cases "a = p") (auto simp: child_rel_def m2)
  qed
  have none: "(a, b) \<notin> child_rel m2" if "a \<in> ?D" for a b
    using that joined_childless [OF j that] p by (auto simp: child_rel_def m2 split: if_splits)
  show sub: "child_rel m2 \<subseteq> child_rel m" using same none by auto
  then show "descendants m2 cs \<subseteq> descendants m cs"
    unfolding descendants_def by (intro Image_mono rtrancl_mono) auto
  have "d \<in> descendants m2 cs \<union> ?D" if "(a, d) \<in> (child_rel m)\<^sup>*" "a \<in> set cs" for a d
    using that
  proof (induction rule: rtrancl_induct)
    case base
    then show ?case by (auto simp: descendants_def)
  next
    case (step y z)
    show ?case
    proof (cases "y \<in> ?D")
      case True
      then show ?thesis using descendants_closed step.hyps(2) by blast
    next
      case False
      then show ?thesis using same [OF False] step descendants_closed [of y m2 cs z] by blast
    qed
  qed
  then show "descendants m cs \<subseteq> descendants m2 cs \<union> ?D"
    unfolding descendants_def by auto
qed

lemma joined_then:
  assumes j1: "joined m m1 c D1" and c: "c \<in> D1" and p: "p \<notin> D1" "p \<notin> E" "m p = Some st"
    and m2: "m2 = m1(p \<mapsto> st\<lparr>m_vector_clock := join_vc (m_vector_clock st) (clock m1 c)\<rparr>)"
    and j2: "joined m2 m3 p E" and ED: "E \<subseteq> D2" "D2 \<subseteq> E \<union> D1"
  shows "joined m m3 p (D1 \<union> D2)"
proof -
  have ins: "insert c D1 = D1" using c by auto
  have cl2: "clock m2 d = clock m1 d" if "d \<noteq> p" for d using that by (simp add: clock_def m2)
  have cl1: "clock m1 d = clock m d" if "d \<notin> D1" for d
    using joined_other [OF j1, of d] that ins by (simp add: clock_def)
  have cl3: "clock m3 d = clock m2 d" "m3 d = m2 d" if "d \<noteq> p" "d \<notin> E" for d
    using joined_other [OF j2, of d] that by (simp_all add: clock_def)
  have k2: "\<exists>e \<in> D1 \<union> D2. knows (clock m e) i v" if "d \<in> E \<union> D1" "knows (clock m2 d) i v" for d i v
  proof -
    have "d \<noteq> p" using that(1) p by auto
    then show ?thesis
      using that cl2 [of d] cl1 [of d] joined_within [OF j1, of d i v] ED by (cases "d \<in> D1") auto
  qed
  have m1p: "m1 p = Some st" using joined_other [OF j1, of p] p ins by simp
  have kp: "knows (clock m2 p) i v \<longleftrightarrow> knows (clock m p) i v \<or> (\<exists>d \<in> D1. knows (clock m d) i v)" for i v
  proof -
    have "knows (clock m2 p) i v \<longleftrightarrow> knows (clock m p) i v \<or> knows (clock m1 c) i v"
      using p(3) by (simp add: clock_def m2 vc.reaches_join)
    then show ?thesis using joined_clock [OF j1, of i v] c by auto
  qed
  have ids: "m_taskid st' = m_taskid s \<and> parent st' = parent s \<and> mytask st' = mytask s"
    if "m a = Some s" "m3 a = Some st'" for a s st'
  proof -
    have "a \<in> dom m1" "a \<in> dom m2" using that joined_dom [OF j1] by (auto simp: m2)
    then obtain s1 s2 where s: "m1 a = Some s1" "m2 a = Some s2" by blast
    have "m_taskid s2 = m_taskid s1 \<and> parent s2 = parent s1 \<and> mytask s2 = mytask s1"
      using s m1p by (auto simp: m2 split: if_splits)
    then show ?thesis using joined_ids [OF j1 that(1) s(1)] joined_ids [OF j2 s(2) that(2)] by simp
  qed
  show ?thesis
    unfolding joined_def
  proof (intro conjI allI ballI impI)
    show "dom m3 = dom m" using joined_dom [OF j1] joined_dom [OF j2] p(3) m1p by (auto simp: m2)
  next
    fix a assume "a \<notin> insert p (D1 \<union> D2)"
    then show "m3 a = m a"
      using joined_other [OF j2, of a] joined_other [OF j1, of a] ED ins by (auto simp: m2)
  next
    fix d s assume d: "d \<in> D1 \<union> D2" and s: "m3 d = Some s"
    show "m_child s = []"
    proof (cases "d \<in> E")
      case True
      then show ?thesis using joined_childless [OF j2 _ s] by blast
    next
      case False
      then have "d \<in> D1" "d \<noteq> p" using d ED p by auto
      then have "m1 d = Some s" using cl3(2) [of d] s False by (simp add: m2)
      then show ?thesis using joined_childless [OF j1 \<open>d \<in> D1\<close>] by blast
    qed
  next
    fix d i v assume d: "d \<in> D1 \<union> D2" "knows (clock m d) i v"
    have dp: "d \<noteq> p" using d(1) ED p by auto
    have "knows (clock m2 d) i v"
      using d joined_grow [OF j1, of d i v] cl1 [of d] cl2 [OF dp] by (cases "d \<in> D1") auto
    then show "knows (clock m3 d) i v"
      using joined_grow [OF j2, of d i v] cl3(1) [OF dp] by (cases "d \<in> E") auto
  next
    fix d i v assume d: "d \<in> D1 \<union> D2" "knows (clock m3 d) i v"
    have dp: "d \<noteq> p" using d(1) ED p by auto
    show "\<exists>e \<in> D1 \<union> D2. knows (clock m e) i v"
    proof (cases "d \<in> E")
      case True
      then obtain e where "e \<in> E" "knows (clock m2 e) i v" using joined_within [OF j2 _ d(2)] by blast
      then show ?thesis using k2 [of e] by blast
    next
      case False
      then show ?thesis using k2 [of d i v] d ED cl3(1) [OF dp False] by auto
    qed
  next
    fix i v
    have "(\<exists>d \<in> E. knows (clock m2 d) i v) \<Longrightarrow> \<exists>d \<in> D1 \<union> D2. knows (clock m d) i v" using k2 by blast
    moreover have "(\<exists>d \<in> D1. knows (clock m d) i v) \<or> (\<exists>d \<in> E. knows (clock m2 d) i v)"
      if "d \<in> D2" "knows (clock m d) i v" for d
    proof -
      have "d \<noteq> p" using that(1) ED p by auto
      moreover have "d \<in> E" if "d \<notin> D1" using that \<open>d \<in> D2\<close> ED by blast
      ultimately show ?thesis using that cl1 [of d] cl2 [of d] by (metis (full_types))
    qed
    ultimately show "knows (clock m3 p) i v \<longleftrightarrow>
        knows (clock m p) i v \<or> (\<exists>d \<in> D1 \<union> D2. knows (clock m d) i v)"
      unfolding joined_clock [OF j2] kp by blast
  next
    fix a s st' assume "m a = Some s" "m3 a = Some st'"
    then show "m_taskid st' = m_taskid s" "parent st' = parent s" "mytask st' = mytask s"
      using ids by blast+
  qed
qed

lemma joined_insert:
  assumes j: "joined m m1 c D" and st: "m1 c = Some st" "m_child st = []"
  shows "joined m m1 c (insert c D)"
  unfolding joined_def
proof (intro conjI allI ballI impI)
  show "dom m1 = dom m" by (rule joined_dom [OF j])
next
  fix a assume "a \<notin> insert c (insert c D)"
  then show "m1 a = m a" using joined_other [OF j, of a] by simp
next
  fix d s assume "d \<in> insert c D" "m1 d = Some s"
  then show "m_child s = []" using joined_childless [OF j, of d s] st by auto
next
  fix d i v assume "d \<in> insert c D" "knows (clock m d) i v"
  then show "knows (clock m1 d) i v" using joined_grow [OF j, of d i v] joined_clock [OF j, of i v] by auto
next
  fix d i v assume "d \<in> insert c D" "knows (clock m1 d) i v"
  then show "\<exists>e \<in> insert c D. knows (clock m e) i v"
    using joined_within [OF j, of d i v] joined_clock [OF j, of i v] by auto
next
  fix i v
  show "knows (clock m1 c) i v \<longleftrightarrow> knows (clock m c) i v \<or> (\<exists>d \<in> insert c D. knows (clock m d) i v)"
    using joined_clock [OF j, of i v] by auto
next
  fix a s s' assume "m a = Some s" "m1 a = Some s'"
  then show "m_taskid s' = m_taskid s" "parent s' = parent s" "mytask s' = mytask s"
    using joined_ids [OF j] by blast+
qed

lemma younger_children_sub:
  assumes "younger_children m" "child_rel m' \<subseteq> child_rel m" "dom m' = dom m"
  shows "younger_children m'"
  using assms unfolding younger_children_def by blast

lemma join_children_joined:
  assumes "younger_children m" "p \<in> dom m" "\<And>c. c \<in> set cs \<Longrightarrow> c \<in> dom m \<and> p < c"
  shows "\<exists>m'. join_children m p cs = Some m' \<and> joined m m' p (descendants m cs) \<and>
    (\<exists>st. m' p = Some st \<and> m_child st = [])"
  using assms
proof (induction "2 ^ 64 - unat p" arbitrary: m p cs rule: less_induct)
  case less
  note IH = less.hyps
  from less.prems show ?case
  proof (induction cs arbitrary: m)
    case Nil
    then obtain st where st: "m p = Some st" by blast
    then show ?case
      by (subst join_children.simps)
        (auto simp: clear_children_def joined_def clock_def split: option.split)
  next
    case (Cons c cs)
    obtain st where st: "m p = Some st" using Cons.prems(2) by blast
    have c: "c \<in> dom m" "p < c" using Cons.prems(3) [of c] by auto
    then obtain cst where cst: "m c = Some cst" by blast
    have dsc: "descendants m [c] = insert c (descendants m (m_child cst))"
      using cst by (rule descendants_single)
    have low: "c \<le> d" if "d \<in> descendants m [c]" for d
      using that descendants_younger [OF Cons.prems(1)] by (auto simp: descendants_def)
    then have pD: "p \<notin> descendants m [c]" using c(2) by (meson leD)
    obtain m1 where m1: "(if m_child cst \<noteq> [] then join_children m c (m_child cst) else Some m) = Some m1"
      and j1: "joined m m1 c (descendants m [c])"
    proof (cases "m_child cst = []")
      case True
      have "joined m m c {c}" using cst True by (auto simp: joined_def)
      then show thesis using that [of m] True dsc by simp
    next
      case False
      have "unat p < unat c" using c(2) by (simp add: word_less_nat_alt)
      moreover have "unat c < 2 ^ LENGTH(64)" by (rule unsigned_less)
      ultimately have lt: "2 ^ 64 - unat c < 2 ^ 64 - unat p" by (intro diff_less_mono2) simp_all
      have "\<exists>m1. join_children m c (m_child cst) = Some m1 \<and>
          joined m m1 c (descendants m (m_child cst)) \<and> (\<exists>st. m1 c = Some st \<and> m_child st = [])"
      proof (rule IH)
        show "2 ^ 64 - unat c < 2 ^ 64 - unat p" by (rule lt)
        show "younger_children m" by (rule Cons.prems(1))
        show "c \<in> dom m" by (rule c(1))
        show "d \<in> dom m \<and> c < d" if "d \<in> set (m_child cst)" for d
          by (rule younger_childrenD [OF Cons.prems(1) cst that])
      qed
      then obtain m1 where m1: "join_children m c (m_child cst) = Some m1"
        "joined m m1 c (descendants m (m_child cst))" "\<exists>st. m1 c = Some st \<and> m_child st = []"
        by blast
      have "joined m m1 c (insert c (descendants m (m_child cst)))"
        using m1(3) joined_insert [OF m1(2)] by blast
      then show thesis using that [of m1] m1(1) False dsc by simp
    qed
    have m1p: "m1 p = Some st" using joined_other [OF j1, of p] pD c(2) st by simp
    obtain cst1 where cst1: "m1 c = Some cst1" using joined_dom [OF j1] c(1) by blast
    let ?st = "st\<lparr>m_vector_clock := join_vc (m_vector_clock st) (clock m1 c)\<rparr>"
    let ?m2 = "m1(p \<mapsto> ?st)"
    have m2: "join_child m1 p c = Some ?m2"
      using m1p cst1 by (simp add: join_child_def clock_def)
    note da = descendants_after [OF j1 refl, where p = p and st = ?st and st0 = st, OF st]
    have da': "child_rel ?m2 \<subseteq> child_rel m" "descendants ?m2 cs \<subseteq> descendants m cs"
      "descendants m cs \<subseteq> descendants ?m2 cs \<union> descendants m [c]"
      using da pD by auto
    have dom2: "dom ?m2 = dom m" using joined_dom [OF j1] st by auto
    have y2: "younger_children ?m2" by (rule younger_children_sub [OF Cons.prems(1) da'(1) dom2])
    have "\<And>d. d \<in> set cs \<Longrightarrow> d \<in> dom ?m2 \<and> p < d" using Cons.prems(3) dom2 by auto
    then obtain m3 where m3: "join_children ?m2 p cs = Some m3" "joined ?m2 m3 p (descendants ?m2 cs)"
      "\<exists>st. m3 p = Some st \<and> m_child st = []"
      using Cons.IH [OF y2] dom2 Cons.prems(2) by blast
    have "d \<notin> descendants ?m2 cs" if "d = p" for d
      using that descendants_younger [OF y2] Cons.prems(3)
      by (force simp: descendants_def)
    then have "joined m m3 p (descendants m [c] \<union> descendants m cs)"
      using joined_then [OF j1 _ pD _ st refl m3(2) da'(2,3)] dsc by blast
    then have j: "joined m m3 p (descendants m (c # cs))" by (subst descendants_Cons)
    have "join_children m p (c # cs) = Some m3"
      using cst m1 m2 m3(1) by (subst join_children.simps) simp
    then show ?case using j m3(3) by blast
  qed
qed

text \<open>
  The wait as a whole: it returns; the waiting task has afterwards exactly what it, or a
  descendant, knew before; nobody below it has children left; other tasks are untouched.
\<close>

lemma Capturewait_joined:
  assumes "younger_children m" "m p = Some st"
  obtains m' where "Capturewait_for_all_task m p = Some m'"
    "joined m m' p (descendants m (m_child st))" "\<exists>st'. m' p = Some st' \<and> m_child st' = []"
proof (cases "m_child st = []")
  case True
  then have "Capturewait_for_all_task m p = Some m" "joined m m p (descendants m (m_child st))"
    using assms(2) by (auto simp: Capturewait_for_all_task_def joined_def)
  then show thesis using that assms(2) True by blast
next
  case False
  have "\<exists>m'. join_children m p (m_child st) = Some m' \<and> joined m m' p (descendants m (m_child st)) \<and>
      (\<exists>st'. m' p = Some st' \<and> m_child st' = [])"
    by (rule join_children_joined [OF assms(1)]) (use assms younger_childrenD in blast)+
  then show thesis using that False assms(2) by (auto simp: Capturewait_for_all_task_def)
qed

end
