(* ===== verification/FtHb.thy ===== *)
theory FtHb
  imports FtWait
begin

text \<open>
  The vector clocks decide happens-before.  A run is traced: for every task and lock a
  set of past accesses is kept next to the detector, updated the way the events order the
  program: a spawned task starts with its parent's past, a wait adds the pasts of all
  descendants, a lock hands over the past of its last release.  The clocks and the epochs
  taken from them agree with these sets.
\<close>

section \<open>Traced runs\<close>

text \<open>A logged access: task, clock of the task at that time, address, kind, and its past.\<close>

type_synonym ft_access = "size_t \<times> size_t \<times> ADDRINT \<times> AccessType \<times> nat set"

record ghost =
  past :: "size_t \<Rightarrow> nat set"
  lock_past :: "ADDRINT \<Rightarrow> nat set"
  log :: "ft_access list"
  dead :: "size_t set"

definition ghost_init :: ghost where
  "ghost_init = \<lparr>past = (\<lambda>_. {}), lock_past = (\<lambda>_. {}), log = [], dead = {}\<rparr>"

abbreviation tasks :: "fasttrack \<Rightarrow> size_t \<rightharpoonup> TaskState" where
  "tasks s \<equiv> taskid_taskstate_map s"

definition cur_task :: "fasttrack \<Rightarrow> THREADID \<Rightarrow> size_t" where
  "cur_task s th = fst (get_cur_tid s th)"

text \<open>The task below which a spawn hangs the new one.\<close>

definition spawn_parent :: "fasttrack \<Rightarrow> THREADID \<Rightarrow> nat option \<Rightarrow> size_t" where
  "spawn_parent s th t_parent =
     (case tasks s (cur_task s th) of
        None \<Rightarrow> cur_task s th
      | Some st \<Rightarrow> if t_parent \<noteq> mytask st then the (parent st) else cur_task s th)"

definition children :: "fasttrack \<Rightarrow> size_t \<Rightarrow> size_t list" where
  "children s p = (case tasks s p of None \<Rightarrow> [] | Some st \<Rightarrow> m_child st)"

definition now :: "fasttrack \<Rightarrow> size_t \<Rightarrow> size_t" where
  "now s t = (case tasks s t of None \<Rightarrow> 1 | Some st \<Rightarrow> m_vector_clock st t)"

definition ft_ghost :: "fasttrack \<Rightarrow> ghost \<Rightarrow> ft_event \<Rightarrow> ghost" where
  "ft_ghost s g e =
     (case e of
        FtSpawn th t tp \<Rightarrow>
          g\<lparr>past := (past g)(task_id_ctr s + 1 := past g (spawn_parent s th tp))\<rparr>
      | FtSpawnRoot th t \<Rightarrow> g\<lparr>past := (past g)(task_id_ctr s + 1 := past g (cur_task s th))\<rparr>
      | FtWait th \<Rightarrow>
          (let p = cur_task s th; D = descendants (tasks s) (children s p)
           in g\<lparr>past := (past g)(p := past g p \<union> \<Union> (past g ` D)), dead := dead g \<union> D\<rparr>)
      | FtAcquire t l \<Rightarrow> g\<lparr>past := (past g)(t := past g t \<union> lock_past g l)\<rparr>
      | FtRelease t l \<Rightarrow> g\<lparr>lock_past := (lock_past g)(l := past g t)\<rparr>
      | FtAccess t a k p \<Rightarrow>
          g\<lparr>past := (past g)(t := insert (length (log g)) (past g t)),
            log := log g @ [(t, now s t, a, k, past g t)]\<rparr>
      | _ \<Rightarrow> g)"

text \<open>
  What a program run by TBB does: tasks that run were spawned, and a task that a wait has
  joined does nothing more.
\<close>

definition ft_disciplined :: "fasttrack \<Rightarrow> ghost \<Rightarrow> ft_event \<Rightarrow> bool" where
  "ft_disciplined s g e \<longleftrightarrow>
     (case e of
        FtSpawn th t tp \<Rightarrow> spawn_parent s th tp \<notin> dead g
      | FtSpawnRoot th t \<Rightarrow> cur_task s th \<notin> dead g
      | FtWait th \<Rightarrow> cur_task s th \<notin> dead g
      | FtBegin th k \<Rightarrow> tasks s k \<noteq> None
      | FtEnd th \<Rightarrow> True
      | FtAcquire t l \<Rightarrow> t \<notin> dead g
      | FtRelease t l \<Rightarrow> t \<notin> dead g
      | FtAccess t a k p \<Rightarrow> t \<notin> dead g \<and> (t = 0 \<or> tasks s t \<noteq> None))"

definition ft_traced :: "fasttrack \<times> ghost \<Rightarrow> ft_event \<Rightarrow> (fasttrack \<times> ghost) option" where
  "ft_traced sg e =
     (if ft_disciplined (fst sg) (snd sg) e
      then do { s' \<leftarrow> ft_step (fst sg) e; Some (s', ft_ghost (fst sg) (snd sg) e) }
      else None)"

text \<open>Runs of fewer than \<open>2\<^sup>4\<^sup>0\<close> events, so that no clock outgrows its bits.\<close>

definition ft_reachable :: "fasttrack \<Rightarrow> ghost \<Rightarrow> bool" where
  "ft_reachable s g \<longleftrightarrow>
     (\<exists>report es. length es < 2 ^ 40 - 1 \<and> run ft_traced (ft_init report, ghost_init) es = Some (s, g))"

section \<open>The invariant\<close>

definition lock_clock :: "(ADDRINT \<rightharpoonup> vclock) \<Rightarrow> ADDRINT \<Rightarrow> vclock" where
  "lock_clock lm l = (case lm l of None \<Rightarrow> zero_vc | Some v \<Rightarrow> v)"

text \<open>The shape of the task map.\<close>

definition tree_ok :: "(size_t \<rightharpoonup> TaskState) \<Rightarrow> size_t \<Rightarrow> size_t set \<Rightarrow> bool" where
  "tree_ok m ctr dd \<longleftrightarrow>
     younger_children m \<and> dd \<subseteq> dom m \<and> ctr < MAX_NUM_TASKS \<and>
     (\<forall>a st. m a = Some st \<longrightarrow> m_taskid st = a \<and> a \<le> ctr \<and> (\<forall>q. parent st = Some q \<longrightarrow> q \<in> dom m)) \<and>
     (\<forall>a b. (a, b) \<in> child_rel m \<and> a \<notin> dd \<longrightarrow> b \<notin> dd) \<and>
     (\<forall>a a' b. (a, b) \<in> child_rel m \<and> (a', b) \<in> child_rel m \<longrightarrow> a = a')"

text \<open>
  The clocks: nobody else knows the current epoch of a live task, nobody knows an epoch of
  a task not yet spawned, no clock exceeds \<open>n\<close>.
\<close>

definition clocks_ok :: "(size_t \<rightharpoonup> TaskState) \<Rightarrow> (ADDRINT \<rightharpoonup> vclock) \<Rightarrow> size_t set \<Rightarrow> nat \<Rightarrow> bool" where
  "clocks_ok m lm dd n \<longleftrightarrow>
     (\<forall>u \<in> dom m - dd. 1 \<le> clock m u u \<and>
        (\<forall>a \<in> dom m - dd. a \<noteq> u \<longrightarrow> clock m a u < clock m u u) \<and> (\<forall>l. lock_clock lm l u < clock m u u)) \<and>
     (\<forall>u. u < MAX_NUM_TASKS \<and> u \<notin> dom m \<longrightarrow>
        (\<forall>a. clock m a u = 0) \<and> (\<forall>l. lock_clock lm l u = 0)) \<and>
     (\<forall>i < MAX_NUM_TASKS. (\<forall>a. unat (clock m a i) \<le> n) \<and> (\<forall>l. unat (lock_clock lm l i) \<le> n))"

text \<open>Every logged access is in the past of exactly those that know its epoch.\<close>

definition past_ok :: "(size_t \<rightharpoonup> TaskState) \<Rightarrow> (ADDRINT \<rightharpoonup> vclock) \<Rightarrow> ghost \<Rightarrow> nat \<Rightarrow> bool" where
  "past_ok m lm g n \<longleftrightarrow>
     (\<forall>i u c a k h. i < length (log g) \<and> log g ! i = (u, c, a, k, h) \<longrightarrow>
        u \<in> dom m \<and> 1 \<le> c \<and> unat c \<le> n \<and> h \<subseteq> {..<i} \<and> c \<le> clock m u u \<and>
        (\<forall>t \<in> dom m - dead g. i \<in> past g t \<longleftrightarrow> c \<le> clock m t u) \<and>
        (\<forall>l. i \<in> lock_past g l \<longleftrightarrow> c \<le> lock_clock lm l u)) \<and>
     (\<forall>t. past g t \<subseteq> {..<length (log g)}) \<and> (\<forall>l. lock_past g l \<subseteq> {..<length (log g)}) \<and>
     (\<forall>t. t \<notin> dom m \<longrightarrow> past g t = {})"

definition stacks_ok :: "fasttrack \<Rightarrow> bool" where
  "stacks_ok s \<longleftrightarrow> (\<forall>th st. thrid_taskid_map s th = Some st \<longrightarrow> set st \<subseteq> insert 0 (dom (tasks s)))"

definition hb_inv :: "fasttrack \<Rightarrow> ghost \<Rightarrow> nat \<Rightarrow> bool" where
  "hb_inv s g n \<longleftrightarrow>
     tree_ok (tasks s) (task_id_ctr s) (dead g) \<and> clocks_ok (tasks s) (lockmap s) (dead g) n \<and>
     past_ok (tasks s) (lockmap s) g n \<and> stacks_ok s"

lemma hb_inv_init: "hb_inv (ft_init r) ghost_init 0"
  by (simp add: hb_inv_def ft_init_def ghost_init_def tree_ok_def younger_children_def child_rel_def
      clocks_ok_def clock_def lock_clock_def past_ok_def stacks_ok_def zero_vc_def MAX_NUM_TASKS_def
      push_bit_eq_mult)

lemma tree_okD:
  assumes "tree_ok m ctr dd"
  shows tree_younger: "younger_children m" and tree_dead: "dd \<subseteq> dom m"
    and tree_ctr: "ctr < MAX_NUM_TASKS"
    and tree_id: "m a = Some st \<Longrightarrow> m_taskid st = a" and tree_le: "a \<in> dom m \<Longrightarrow> a \<le> ctr"
    and tree_parent: "m a = Some st \<Longrightarrow> parent st = Some q \<Longrightarrow> q \<in> dom m"
    and tree_live: "(a, b) \<in> child_rel m \<Longrightarrow> a \<notin> dd \<Longrightarrow> b \<notin> dd"
    and tree_one_parent: "(a, b) \<in> child_rel m \<Longrightarrow> (a', b) \<in> child_rel m \<Longrightarrow> a = a'"
  using assms unfolding tree_ok_def by blast+

lemma clocks_okD:
  assumes "clocks_ok m lm dd n"
  shows clocks_pos: "u \<in> dom m - dd \<Longrightarrow> 1 \<le> clock m u u"
    and clocks_other: "u \<in> dom m - dd \<Longrightarrow> a \<in> dom m - dd \<Longrightarrow> a \<noteq> u \<Longrightarrow> clock m a u < clock m u u"
    and clocks_lock: "u \<in> dom m - dd \<Longrightarrow> lock_clock lm l u < clock m u u"
    and clocks_unborn: "u < MAX_NUM_TASKS \<Longrightarrow> u \<notin> dom m \<Longrightarrow> clock m a u = 0"
      "u < MAX_NUM_TASKS \<Longrightarrow> u \<notin> dom m \<Longrightarrow> lock_clock lm l u = 0"
    and clocks_le: "i < MAX_NUM_TASKS \<Longrightarrow> unat (clock m a i) \<le> n"
      "i < MAX_NUM_TASKS \<Longrightarrow> unat (lock_clock lm l i) \<le> n"
  using assms unfolding clocks_ok_def by blast+

lemma past_okD:
  assumes "past_ok m lm g n"
  shows past_entry: "i < length (log g) \<Longrightarrow> log g ! i = (u, c, a, k, h) \<Longrightarrow>
      u \<in> dom m \<and> 1 \<le> c \<and> unat c \<le> n \<and> h \<subseteq> {..<i} \<and> c \<le> clock m u u"
    and past_iff: "i < length (log g) \<Longrightarrow> log g ! i = (u, c, a, k, h) \<Longrightarrow> t \<in> dom m - dead g \<Longrightarrow>
      i \<in> past g t \<longleftrightarrow> c \<le> clock m t u"
    and past_lock_iff: "i < length (log g) \<Longrightarrow> log g ! i = (u, c, a, k, h) \<Longrightarrow>
      i \<in> lock_past g l \<longleftrightarrow> c \<le> lock_clock lm l u"
    and past_bound: "past g t \<subseteq> {..<length (log g)}" "lock_past g l \<subseteq> {..<length (log g)}"
    and past_unborn: "t \<notin> dom m \<Longrightarrow> past g t = {}"
  using assms unfolding past_ok_def by blast+

lemma hb_invD:
  assumes "hb_inv s g n"
  shows hb_tree: "tree_ok (tasks s) (task_id_ctr s) (dead g)"
    and hb_clocks: "clocks_ok (tasks s) (lockmap s) (dead g) n"
    and hb_past: "past_ok (tasks s) (lockmap s) g n" and hb_stacks: "stacks_ok s"
  using assms by (simp_all add: hb_inv_def)

lemma stack_known:
  "stacks_ok s \<Longrightarrow> thrid_taskid_map s th = Some st \<Longrightarrow> x \<in> set st \<Longrightarrow> x = 0 \<or> x \<in> dom (tasks s)"
  unfolding stacks_ok_def by blast

lemma stacks_ok_upd:
  assumes "stacks_ok s" "set st \<subseteq> insert 0 (dom (tasks s))"
  shows "stacks_ok (s\<lparr>thrid_taskid_map := (thrid_taskid_map s)(th \<mapsto> st)\<rparr>)"
  using assms unfolding stacks_ok_def by (auto split: if_splits)

lemma cur_task_known:
  assumes "stacks_ok s"
  shows "cur_task s th = 0 \<or> cur_task s th \<in> dom (tasks s)"
proof (cases "thrid_taskid_map s th")
  case (Some st)
  then show ?thesis
    using stack_known [OF assms Some] by (cases st) (auto simp: cur_task_def get_cur_tid_def)
qed (simp add: cur_task_def get_cur_tid_def)

lemma get_cur_tid_frame:
  assumes "get_cur_tid s th = (k, s')"
  shows "k = cur_task s th" "tasks s' = tasks s" "lockmap s' = lockmap s"
    "task_id_ctr s' = task_id_ctr s" "shadow_space s' = shadow_space s"
    "read_vectors s' = read_vectors s" "races s' = races s" "stacks_ok s \<Longrightarrow> stacks_ok s'"
  using assms stacks_ok_upd [of s "[0]" th]
  by (auto simp: cur_task_def get_cur_tid_def split: option.splits list.splits)

end
