(* ===== verification/FtHbInv.thy ===== *)
theory FtHbInv
  imports FtHb
begin

text \<open>
  Every event of a disciplined run keeps the happens-before invariant of \<open>FtHb\<close>.
\<close>

section \<open>Clocks that tick\<close>

lemma inc_less:
  fixes x :: size_t
  assumes "unat x < 2 ^ 40"
  shows "x < x + 1" "unat (x + 1) = unat x + 1"
proof -
  have "x \<noteq> - 1"
  proof
    assume "x = - 1"
    then have "unat x = 2 ^ 64 - 1" by (simp add: unsigned_minus_1_eq_mask mask_eq_exp_minus_1)
    then show False using assms by simp
  qed
  then have "1 + x \<noteq> 0" by (metis add.commute add_eq_0_iff minus_equation_iff)
  then show u: "unat (x + 1) = unat x + 1" using unatSuc [of x] by (simp add: add.commute)
  show "x < x + 1" unfolding word_less_nat_alt u by simp
qed

lemma MAX_NUM_TASKS_unat: "x < MAX_NUM_TASKS \<Longrightarrow> unat x < 2 ^ 40"
  by (simp add: word_less_nat_alt MAX_NUM_TASKS_def push_bit_eq_mult)

lemma tick_vc_Some:
  "tick_vc vc i = Some vc' \<longleftrightarrow> i < MAX_NUM_TASKS \<and> vc' = vc(i := vc i + 1)"
  by (auto simp: tick_vc_def at_vc_def update_vc_def bind_eq_Some_conv)

section \<open>Spawning\<close>

lemma find_or_new_facts:
  assumes "p = 0 \<or> p \<in> dom m"
  shows "clock (find_or_new m p) a = clock m a" "child_rel (find_or_new m p) = child_rel m"
    "dom (find_or_new m p) = insert p (dom m)"
    "find_or_new m p a = Some st \<Longrightarrow> m a = Some st \<or> a = p \<and> a \<notin> dom m \<and> st = new_TaskState p"
  by (auto simp: find_or_new_def clock_def child_rel_def new_TaskState_def split: option.splits if_splits)

lemma fork_effect:
  assumes f: "fork m p c t = Some m'" and p: "m p = Some st" "m_taskid st = p" and c: "c \<notin> dom m"
  shows "c < MAX_NUM_TASKS" "p < MAX_NUM_TASKS" "c \<noteq> p" "dom m' = insert c (dom m)"
    "child_rel m' = insert (p, c) (child_rel m)"
    "i < MAX_NUM_TASKS \<Longrightarrow> clock m' c i = (if i = c then clock m p c + 1 else clock m p i)"
    "clock m' p = (clock m p)(p := clock m p p + 1)"
    "a \<noteq> c \<Longrightarrow> a \<noteq> p \<Longrightarrow> clock m' a = clock m a"
    "m' a = Some s \<Longrightarrow> (\<exists>s0. m a = Some s0 \<and> m_taskid s = m_taskid s0 \<and> parent s = parent s0 \<and>
       mytask s = mytask s0) \<or> a = c \<and> m_taskid s = c \<and> parent s = Some p"
proof -
  have ne: "c \<noteq> p" using p c by auto
  then obtain cv pv where v: "tick_vc (copy_vc (m_vector_clock st) zero_vc) c = Some cv"
    "tick_vc (m_vector_clock st) p = Some pv" and
    m': "m' = m(c \<mapsto> (new_TaskState c)\<lparr>m_vector_clock := cv, mytask := Some t, parent := Some p\<rparr>,
              p \<mapsto> st\<lparr>m_vector_clock := pv, m_child := m_child st @ [c]\<rparr>)"
    using f p by (auto simp: fork_def bind_eq_Some_conv Let_def)
  have v': "c < MAX_NUM_TASKS" "p < MAX_NUM_TASKS" "pv = (m_vector_clock st)(p := m_vector_clock st p + 1)"
    "cv = (copy_vc (m_vector_clock st) zero_vc)(c := copy_vc (m_vector_clock st) zero_vc c + 1)"
    using v by (auto simp: tick_vc_Some)
  show "c < MAX_NUM_TASKS" "p < MAX_NUM_TASKS" "c \<noteq> p" by (fact v' ne)+
  show "dom m' = insert c (dom m)" using p by (auto simp: m')
  show "child_rel m' = insert (p, c) (child_rel m)"
    using p c ne by (auto simp: child_rel_def m' new_TaskState_def split: if_splits)
  show "clock m' p = (clock m p)(p := clock m p p + 1)" using p v' by (simp add: clock_def m')
  show "clock m' c i = (if i = c then clock m p c + 1 else clock m p i)" if "i < MAX_NUM_TASKS"
    using p v' that ne by (simp add: clock_def m' copy_vc_def)
  show "clock m' a = clock m a" if "a \<noteq> c" "a \<noteq> p" using that by (simp add: clock_def m')
  show "(\<exists>s0. m a = Some s0 \<and> m_taskid s = m_taskid s0 \<and> parent s = parent s0 \<and>
       mytask s = mytask s0) \<or> a = c \<and> m_taskid s = c \<and> parent s = Some p" if "m' a = Some s"
    using that p by (auto simp: m' new_TaskState_def split: if_splits)
qed

lemma fork_returns:
  assumes "m p = Some st" "m_taskid st = p" "c \<noteq> p" "c < MAX_NUM_TASKS" "p < MAX_NUM_TASKS"
  shows "\<exists>m' st'. fork m p c t = Some m' \<and> m' c = Some st' \<and> parent st' = Some p \<and> mytask st' = Some t \<and>
    m_child st' = []"
proof -
  obtain cv pv where "tick_vc (copy_vc (m_vector_clock st) zero_vc) c = Some cv"
    "tick_vc (m_vector_clock st) p = Some pv" using assms(4,5) by (simp add: tick_vc_Some)
  then show ?thesis using assms(1-3) by (simp add: fork_def Let_def new_TaskState_def)
qed

text \<open>The situation of a spawn: a live parent, or task 0 before it has a state.\<close>

lemma fork_tree:
  assumes tr: "tree_ok m ctr dd" and p: "p \<in> dom m \<or> p = 0" "p \<notin> dd"
    and f: "fork (find_or_new m p) p (ctr + 1) t = Some m'"
  shows "tree_ok m' (ctr + 1) dd"
proof -
  let ?c = "ctr + 1"
  have pd: "p = 0 \<or> p \<in> dom m" using p by auto
  note fn = find_or_new_facts [OF pd]
  note lt = inc_less(1) [OF MAX_NUM_TASKS_unat [OF tree_ctr [OF tr]]]
  obtain st where st: "find_or_new m p p = Some st" using fn(3) by blast
  then have id: "m_taskid st = p"
    using fn(4) [OF st] tree_id [OF tr] by (auto simp: new_TaskState_def)
  have pc: "p \<le> ctr" using p tree_le [OF tr] by auto
  have cm: "?c \<notin> dom m" using tree_le [OF tr, of ?c] lt by (meson leD)
  then have c: "?c \<notin> dom (find_or_new m p)" using fn(3) pc lt by auto
  note e = fork_effect [OF f st id c]
  have sub: "b \<in> dom m \<and> a < b" if "(a, b) \<in> child_rel m" for a b
    using tree_younger [OF tr] that by (simp add: younger_children_def)
  show ?thesis
    unfolding tree_ok_def
  proof (intro conjI allI impI)
    show "younger_children m'"
      using sub pc lt unfolding younger_children_def e(4,5) fn(2,3) by auto
    show "dd \<subseteq> dom m'" using tree_dead [OF tr] e(4) fn(3) by auto
    show "?c < MAX_NUM_TASKS" by (fact e(1))
  next
    fix a s assume s: "m' a = Some s"
    from e(9) [OF s] show "m_taskid s = a"
    proof (elim disjE exE conjE)
      fix s0 assume "find_or_new m p a = Some s0" "m_taskid s = m_taskid s0"
      then show ?thesis using fn(4) [of a s0] tree_id [OF tr, of a s0] by (auto simp: new_TaskState_def)
    qed simp
    have "a \<in> insert ?c (insert p (dom m))" using s e(4) fn(3) by auto
    then have "a = ?c \<or> a \<le> ctr" using tree_le [OF tr, of a] pc by auto
    then show "a \<le> ?c" using lt by (metis order.refl order.strict_implies_order order.trans)
    fix q assume q: "parent s = Some q"
    from e(9) [OF s] show "q \<in> dom m'"
    proof (elim disjE exE conjE)
      fix s0 assume "find_or_new m p a = Some s0" "parent s = parent s0"
      then show ?thesis
        using fn(4) [of a s0] tree_parent [OF tr, of a s0 q] q e(4) fn(3) by (auto simp: new_TaskState_def)
    next
      assume "parent s = Some p"
      then show ?thesis using q e(4) fn(3) by auto
    qed
  next
    fix a b assume "(a, b) \<in> child_rel m' \<and> a \<notin> dd"
    then show "b \<notin> dd" using tree_live [OF tr] tree_dead [OF tr] cm e(5) fn(2) by auto
  next
    fix a a' b assume ab: "(a, b) \<in> child_rel m' \<and> (a', b) \<in> child_rel m'"
    have "(z, ?c) \<notin> child_rel m" for z using sub cm by blast
    then show "a = a'" using tree_one_parent [OF tr] ab e(5) fn(2) by auto
  qed
qed

lemma fork_clocks:
  assumes tr: "tree_ok m ctr dd" and cl: "clocks_ok m lm dd n" and n: "n < 2 ^ 40"
    and p: "p \<in> dom m \<or> p = 0" "p \<notin> dd"
    and f: "fork (find_or_new m p) p (ctr + 1) t = Some m'"
  shows "clocks_ok m' lm dd (n + 1)"
proof -
  let ?c = "ctr + 1"
  have pd: "p = 0 \<or> p \<in> dom m" using p by auto
  note fn = find_or_new_facts [OF pd]
  note lt = inc_less(1) [OF MAX_NUM_TASKS_unat [OF tree_ctr [OF tr]]]
  obtain st where st: "find_or_new m p p = Some st" using fn(3) by blast
  then have id: "m_taskid st = p"
    using fn(4) [OF st] tree_id [OF tr] by (auto simp: new_TaskState_def)
  have cm: "?c \<notin> dom m" using tree_le [OF tr, of ?c] lt by (meson leD)
  moreover have "?c \<noteq> p" 
  proof
    assume "?c = p"
    then show False using p cm lt by auto
  qed
  ultimately have c: "?c \<notin> dom (find_or_new m p)" using fn(3) by auto
  note e = fork_effect [OF f st id c, unfolded fn(1)]
  have pp: "clock m p p < clock m p p + 1" "unat (clock m p p + 1) = unat (clock m p p) + 1"
    using inc_less [of "clock m p p"] clocks_le(1) [OF cl e(2), of p] n by auto
  have z: "clock m a ?c = 0" "lock_clock lm l ?c = 0" for a l
    using clocks_unborn [OF cl e(1) cm] by auto
  have cc: "clock m' ?c i = (if i = ?c then 1 else clock m p i)" if "i < MAX_NUM_TASKS" for i
    using e(6) [OF that] z by simp
  have lm: "i < MAX_NUM_TASKS" if "i \<in> dom m" for i
    using tree_le [OF tr that] tree_ctr [OF tr] by simp
  have p0: "clock m a p = 0" "lock_clock lm l p = 0" "clock m p a = 0" if "p \<notin> dom m" for a l
    using that clocks_unborn [OF cl e(2)] by (auto simp: clock_def zero_vc_def split: option.splits)
  have pu: "clock m p u < clock m u u" if "u \<in> dom m - dd" "u \<noteq> p" for u
  proof (cases "p \<in> dom m")
    case True
    then show ?thesis using clocks_other [OF cl that(1), of p] p that(2) by auto
  next
    case False
    then have "clock m p u = 0" "clock m u u \<noteq> 0"
      using p0(3) [OF False, of u] clocks_pos [OF cl that(1)] by auto
    then show ?thesis by (simp add: word_gt_0)
  qed
  show ?thesis
    unfolding clocks_ok_def
  proof (intro conjI ballI allI impI)
    fix u assume u: "u \<in> dom m' - dd"
    consider "u = ?c" | "u = p" | "u \<in> dom m - dd" "u \<noteq> ?c" "u \<noteq> p"
      using u e(4) fn(3) by auto
    note ucases = this
    show "1 \<le> clock m' u u"
      by (cases rule: ucases)
        (use cc [OF e(1)] e(7) e(8) [of u] clocks_pos [OF cl, of u] pp(1) in
          \<open>auto simp: word_le_nat_alt pp(2)\<close>)
    show "lock_clock lm l u < clock m' u u" for l
    proof (cases rule: ucases)
      case 1
      then show ?thesis using cc [OF e(1)] z by simp
    next
      case 2
      have "lock_clock lm l p \<le> clock m p p"
        using clocks_lock [OF cl, of p] p p0(2) by (cases "p \<in> dom m") (auto intro: order_less_imp_le)
      then show ?thesis using 2 e(7) pp(1) by simp
    next
      case 3
      then show ?thesis using clocks_lock [OF cl] e(8) by simp
    qed
    fix a assume a: "a \<in> dom m' - dd" "a \<noteq> u"
    consider "a = ?c" | "a = p" | "a \<in> dom m - dd" "a \<noteq> ?c" "a \<noteq> p"
      using a e(4) fn(3) by auto
    note acases = this
    show "clock m' a u < clock m' u u"
    proof (cases rule: ucases)
      case 1
      then have "clock m' a ?c = 0" using a z e(7) e(8) [of a] e(3) by (cases "a = p") auto
      then show ?thesis using 1 cc [OF e(1)] by simp
    next
      case 2
      have "clock m a p \<le> clock m p p" if "a \<in> dom m - dd"
        using clocks_other [OF cl, of p a] p p0(1) that a(2) 2
        by (cases "p \<in> dom m") (auto intro: order_less_imp_le)
      then have "clock m' a p \<le> clock m p p"
        by (cases rule: acases) (use 2 a e(3) e(8) [of a] cc [OF e(2)] in auto)
      then show ?thesis using 2 e(7) pp(1) by simp
    next
      case 3
      have "clock m a u < clock m u u" if "a \<in> dom m - dd"
        using clocks_other [OF cl, of u a] 3 that a(2) by auto
      then have "clock m' a u < clock m u u"
        by (cases rule: acases) (use 3 pu [of u] e(7) e(8) [of a] cc [OF lm, of u] in auto)
      then show ?thesis using 3 e(8) by simp
    qed
  next
    fix u a assume u: "u < MAX_NUM_TASKS \<and> u \<notin> dom m'"
    then have "u \<notin> dom m" "u \<noteq> ?c" "u \<noteq> p" using e(4) fn(3) by auto
    then show "clock m' a u = 0"
      using clocks_unborn(1) [OF cl, of u] u cc [of u] e(7) e(8) [of a] by (cases "a = ?c"; cases "a = p") auto
  next
    fix u l assume u: "u < MAX_NUM_TASKS \<and> u \<notin> dom m'"
    then show "lock_clock lm l u = 0" using clocks_unborn(2) [OF cl, of u] e(4) fn(3) by auto
  next
    fix i :: size_t and a assume i: "i < MAX_NUM_TASKS"
    have le: "unat (clock m b i) \<le> n + 1" for b using clocks_le(1) [OF cl i, of b] by simp
    have "unat (clock m p p + 1) \<le> n + 1" using pp(2) clocks_le(1) [OF cl e(2), of p] by simp
    then show "unat (clock m' a i) \<le> n + 1"
      using le cc [OF i] e(7) e(8) [of a] by (cases "a = ?c"; cases "a = p") auto
  next
    fix i :: size_t and l assume "i < MAX_NUM_TASKS"
    then show "unat (lock_clock lm l i) \<le> n + 1" using clocks_le(2) [OF cl, of i l] by simp
  qed
qed

lemma fork_past:
  assumes tr: "tree_ok m ctr (dead g)" and cl: "clocks_ok m lm (dead g) n" and n: "n < 2 ^ 40"
    and pa: "past_ok m lm g n" and p: "p \<in> dom m \<or> p = 0" "p \<notin> dead g"
    and f: "fork (find_or_new m p) p (ctr + 1) t = Some m'"
  shows "past_ok m' lm (g\<lparr>past := (past g)(ctr + 1 := past g p)\<rparr>) (n + 1)"
proof -
  let ?c = "ctr + 1" and ?g = "g\<lparr>past := (past g)(ctr + 1 := past g p)\<rparr>"
  have pd: "p = 0 \<or> p \<in> dom m" using p by auto
  note fn = find_or_new_facts [OF pd]
  note lt = inc_less(1) [OF MAX_NUM_TASKS_unat [OF tree_ctr [OF tr]]]
  obtain st where st: "find_or_new m p p = Some st" using fn(3) by blast
  then have id: "m_taskid st = p"
    using fn(4) [OF st] tree_id [OF tr] by (auto simp: new_TaskState_def)
  have cm: "?c \<notin> dom m" using tree_le [OF tr, of ?c] lt by (meson leD)
  moreover have "?c \<noteq> p"
  proof
    assume "?c = p"
    then show False using p cm lt by auto
  qed
  ultimately have c: "?c \<notin> dom (find_or_new m p)" using fn(3) by auto
  note e = fork_effect [OF f st id c, unfolded fn(1)]
  have pp: "clock m p p < clock m p p + 1"
    using inc_less [of "clock m p p"] clocks_le(1) [OF cl e(2), of p] n by auto
  show ?thesis
    unfolding past_ok_def
  proof (intro conjI allI ballI impI)
    fix i u x a k h assume i: "i < length (log ?g) \<and> log ?g ! i = (u, x, a, k, h)"
    then have i': "i < length (log g)" "log g ! i = (u, x, a, k, h)" by auto
    note en = past_entry [OF pa i']
    have uc: "u \<noteq> ?c" and ul: "u < MAX_NUM_TASKS"
      using en cm tree_le [OF tr, of u] tree_ctr [OF tr] by auto
    have cu: "clock m' ?c u = clock m p u" using e(6) [OF ul] uc by simp
    show "u \<in> dom m'" "1 \<le> x" "unat x \<le> n + 1" "h \<subseteq> {..<i}" using en e(4) fn(3) by auto
    have "clock m u u \<le> clock m' u u"
      using e(7) e(8) [OF uc] pp by (cases "u = p") auto
    then show "x \<le> clock m' u u" using en by auto
    show "i \<in> lock_past ?g l \<longleftrightarrow> x \<le> lock_clock lm l u" for l
      using past_lock_iff [OF pa i'] by simp
    have par: "i \<in> past g p \<longleftrightarrow> x \<le> clock m p u"
    proof (cases "p \<in> dom m")
      case True
      then show ?thesis using past_iff [OF pa i', of p] p(2) by simp
    next
      case False
      then have "clock m p u = 0" by (auto simp: clock_def zero_vc_def split: option.splits)
      then show ?thesis using past_unborn [OF pa False] en by auto
    qed
    fix t assume t: "t \<in> dom m' - dead ?g"
    consider "t = ?c" | "t = p" | "t \<in> dom m - dead g" "t \<noteq> ?c" "t \<noteq> p"
      using t e(4) fn(3) by auto
    then show "i \<in> past ?g t \<longleftrightarrow> x \<le> clock m' t u"
    proof cases
      case 1
      then show ?thesis using par cu by simp
    next
      case 2
      have "x \<le> clock m' p u \<longleftrightarrow> x \<le> clock m p u"
        using en e(7) pp by (cases "u = p") auto
      then show ?thesis using 2 par e(3) by simp
    next
      case 3
      then show ?thesis using past_iff [OF pa i' 3(1)] e(8) by simp
    qed
  next
    show "past ?g t \<subseteq> {..<length (log ?g)}" for t using past_bound(1) [OF pa] by simp
    show "lock_past ?g l \<subseteq> {..<length (log ?g)}" for l using past_bound(2) [OF pa] by simp
    show "past ?g t = {}" if "t \<notin> dom m'" for t
      using past_unborn [OF pa, of t] that e(4) fn(3) by auto
  qed
qed

section \<open>Waiting\<close>

lemma joined_child_rel:
  assumes "joined m m' p D" "\<exists>st. m' p = Some st \<and> m_child st = []"
  shows "child_rel m' \<subseteq> child_rel m" "(a, b) \<in> child_rel m' \<Longrightarrow> a \<notin> insert p D"
proof -
  have *: "a \<notin> insert p D" if "(a, b) \<in> child_rel m'" for a b
    using that joined_childless [OF assms(1)] assms(2) by (fastforce simp: child_rel_def)
  show "(a, b) \<in> child_rel m' \<Longrightarrow> a \<notin> insert p D" by (rule *)
  show "child_rel m' \<subseteq> child_rel m"
  proof
    fix x assume x: "x \<in> child_rel m'"
    obtain a b where ab: "x = (a, b)" by force
    then have "m' a = m a" using * [of a b] joined_other [OF assms(1), of a] x by auto
    then show "x \<in> child_rel m" using x ab by (simp add: child_rel_def)
  qed
qed

lemma live_descendants:
  assumes tr: "tree_ok m ctr dd" and p: "m p = Some st" "p \<notin> dd" and d: "d \<in> descendants m (m_child st)"
  shows "d \<notin> dd" "d \<in> dom m" "p < d"
proof -
  from d obtain c where c: "c \<in> set (m_child st)" "(c, d) \<in> (child_rel m)\<^sup>*"
    by (auto simp: descendants_def)
  have pc: "(p, c) \<in> child_rel m" using p c by (auto simp: child_rel_def)
  have y: "c \<in> dom m" "p < c" using tree_younger [OF tr] pc by (auto simp: younger_children_def)
  show "d \<in> dom m" "p < d" using descendants_younger [OF tree_younger [OF tr] c(2)] y by auto
  have "c \<notin> dd" using tree_live [OF tr pc p(2)] .
  with c(2) show "d \<notin> dd"
    by (induction rule: rtrancl_induct) (auto dest: tree_live [OF tr])
qed

lemma wait_tree:
  assumes tr: "tree_ok m ctr dd" and p: "m p = Some st" "p \<notin> dd"
    and j: "joined m m' p (descendants m (m_child st))" "\<exists>st'. m' p = Some st' \<and> m_child st' = []"
  shows "tree_ok m' ctr (dd \<union> descendants m (m_child st))"
proof -
  let ?D = "descendants m (m_child st)"
  note cr = joined_child_rel [OF j]
  note ld = live_descendants [OF tr p]
  show ?thesis
    unfolding tree_ok_def
  proof (intro conjI allI impI)
    show "younger_children m'"
      by (rule younger_children_sub [OF tree_younger [OF tr] cr(1) joined_dom [OF j(1)]])
    show "dd \<union> ?D \<subseteq> dom m'" using tree_dead [OF tr] ld(2) joined_dom [OF j(1)] by auto
    show "ctr < MAX_NUM_TASKS" by (rule tree_ctr [OF tr])
  next
    fix a s assume s: "m' a = Some s"
    then obtain s0 where s0: "m a = Some s0" using joined_dom [OF j(1)] by (metis domD domI)
    note ids = joined_ids [OF j(1) s0 s]
    show "m_taskid s = a" using ids tree_id [OF tr s0] by simp
    show "a \<le> ctr" using tree_le [OF tr, of a] s0 by auto
    show "q \<in> dom m'" if "parent s = Some q" for q
      using tree_parent [OF tr s0, of q] that ids joined_dom [OF j(1)] by simp
  next
    fix a b assume ab: "(a, b) \<in> child_rel m' \<and> a \<notin> dd \<union> ?D"
    then have a: "a \<notin> insert p ?D" "(a, b) \<in> child_rel m" using cr by blast+
    have "b \<notin> ?D"
    proof
      assume "b \<in> ?D"
      then obtain c where c: "c \<in> set (m_child st)" "(c, b) \<in> (child_rel m)\<^sup>*"
        by (auto simp: descendants_def)
      from c(2) show False
      proof (cases rule: rtranclE)
        case base
        then have "(p, b) \<in> child_rel m" using c(1) p(1) by (auto simp: child_rel_def)
        then show False using tree_one_parent [OF tr a(2)] a(1) by auto
      next
        case (step y)
        then have "y \<in> ?D" using c(1) by (auto simp: descendants_def)
        then show False using tree_one_parent [OF tr a(2) step(2)] a(1) by auto
      qed
    qed
    then show "b \<notin> dd \<union> ?D" using tree_live [OF tr a(2)] ab by auto
  next
    fix a a' b assume "(a, b) \<in> child_rel m' \<and> (a', b) \<in> child_rel m'"
    then show "a = a'" using tree_one_parent [OF tr] cr(1) by blast
  qed
qed

lemma wait_clocks:
  assumes tr: "tree_ok m ctr dd" and cl: "clocks_ok m lm dd n" and p: "m p = Some st" "p \<notin> dd"
    and j: "joined m m' p (descendants m (m_child st))"
  shows "clocks_ok m' lm (dd \<union> descendants m (m_child st)) n"
proof -
  let ?D = "descendants m (m_child st)"
  note ld = live_descendants [OF tr p]
  have D: "d \<in> dom m - dd" "d \<noteq> p" if "d \<in> ?D" for d using ld [OF that] by auto
  have pl: "p \<in> dom m - dd" using p by auto
  have lim: "i < MAX_NUM_TASKS" if "i \<in> dom m" for i
    using tree_le [OF tr that] tree_ctr [OF tr] by simp
  have other: "clock m' a = clock m a" if "a \<notin> insert p ?D" for a
    using joined_other [OF j that] by (simp add: clock_def)
  have up: "\<exists>e. knows (clock m e) i v \<and> (e = a \<or> e \<in> ?D)" if "knows (clock m' a) i v" for a i v
  proof -
    consider "a = p" | "a \<in> ?D" | "a \<notin> insert p ?D" by auto
    then show ?thesis
    proof cases
      case 1
      then show ?thesis using that joined_clock [OF j, of i v] by auto
    next
      case 2
      then show ?thesis using that joined_within [OF j, of a i v] by auto
    next
      case 3
      then show ?thesis using that other [OF 3] by auto
    qed
  qed
  have self: "knows (clock m' a) i (clock m' a i)" if "i < MAX_NUM_TASKS" for a i
    using that by (simp add: knows_def)
  have pge: "clock m p i \<le> clock m' p i" if "i < MAX_NUM_TASKS" for i
    using joined_clock [OF j, of i "clock m p i"] that by (simp add: knows_def)
  have uu: "clock m u u \<le> clock m' u u" if "u \<in> dom m - (dd \<union> ?D)" for u
    using that other [of u] pge [of p] lim [of p] p by (cases "u = p") auto
  show ?thesis
    unfolding clocks_ok_def
  proof (intro conjI ballI allI impI)
    fix u assume "u \<in> dom m' - (dd \<union> ?D)"
    then have u: "u \<in> dom m - (dd \<union> ?D)" "u \<in> dom m - dd" using joined_dom [OF j] by auto
    note lu = lim [of u]
    show "1 \<le> clock m' u u" using clocks_pos [OF cl u(2)] uu [OF u(1)] by simp
    show "lock_clock lm l u < clock m' u u" for l
      using clocks_lock [OF cl u(2), of l] uu [OF u(1)] by simp
    fix a assume "a \<in> dom m' - (dd \<union> ?D)" "a \<noteq> u"
    then have a: "a \<in> dom m - (dd \<union> ?D)" "a \<noteq> u" using joined_dom [OF j] by auto
    have "clock m' a u < clock m u u"
    proof (rule ccontr)
      assume "\<not> clock m' a u < clock m u u"
      then have "knows (clock m' a) u (clock m u u)" using lu u by (simp add: knows_def)
      then obtain e where e: "knows (clock m e) u (clock m u u)" "e = a \<or> e \<in> ?D"
        using up by blast
      then have "e \<in> dom m - dd" "e \<noteq> u" using a u D(1) [of e] by auto
      then show False using clocks_other [OF cl u(2), of e] e(1) unfolding knows_def by (meson leD)
    qed
    then show "clock m' a u < clock m' u u" using uu [OF u(1)] by simp
  next
    fix u a assume u: "u < MAX_NUM_TASKS \<and> u \<notin> dom m'"
    then have "u \<notin> dom m" using joined_dom [OF j] by simp
    then have z: "clock m e u = 0" for e using clocks_unborn(1) [OF cl, of u] u by simp
    obtain e where "knows (clock m e) u (clock m' a u)" using up [OF self] u by blast
    then show "clock m' a u = 0" using z by (simp add: knows_def)
  next
    fix u l assume "u < MAX_NUM_TASKS \<and> u \<notin> dom m'"
    then show "lock_clock lm l u = 0" using clocks_unborn(2) [OF cl, of u] joined_dom [OF j] by simp
  next
    fix i :: size_t and a assume i: "i < MAX_NUM_TASKS"
    obtain e where "knows (clock m e) i (clock m' a i)" using up [OF self [OF i]] by blast
    then have "unat (clock m' a i) \<le> unat (clock m e i)" by (simp add: knows_def word_le_nat_alt)
    then show "unat (clock m' a i) \<le> n" using clocks_le(1) [OF cl i, of e] by simp
  next
    fix i :: size_t and l assume "i < MAX_NUM_TASKS"
    then show "unat (lock_clock lm l i) \<le> n" by (rule clocks_le(2) [OF cl])
  qed
qed

lemma wait_past:
  assumes tr: "tree_ok m ctr (dead g)" and pa: "past_ok m lm g n" and p: "m p = Some st" "p \<notin> dead g"
    and j: "joined m m' p (descendants m (m_child st))"
    and g': "g' = g\<lparr>past := (past g)(p := past g p \<union> \<Union> (past g ` descendants m (m_child st))),
                  dead := dead g \<union> descendants m (m_child st)\<rparr>"
  shows "past_ok m' lm g' n"
proof -
  let ?D = "descendants m (m_child st)"
  note ld = live_descendants [OF tr p]
  have lim: "i < MAX_NUM_TASKS" if "i \<in> dom m" for i
    using tree_le [OF tr that] tree_ctr [OF tr] by simp
  have other: "clock m' a = clock m a" if "a \<notin> insert p ?D" for a
    using joined_other [OF j that] by (simp add: clock_def)
  have pl: "p \<in> dom m - dead g" using p by auto
  show ?thesis
    unfolding past_ok_def
  proof (intro conjI allI ballI impI)
    fix i u x a k h assume "i < length (log g') \<and> log g' ! i = (u, x, a, k, h)"
    then have i: "i < length (log g)" "log g ! i = (u, x, a, k, h)" by (auto simp: g')
    note en = past_entry [OF pa i]
    have ul: "u < MAX_NUM_TASKS" using en lim by blast
    have kn: "knows (clock mm t) u x \<longleftrightarrow> x \<le> clock mm t u" for mm t using ul by (simp add: knows_def)
    show "u \<in> dom m'" "1 \<le> x" "unat x \<le> n" "h \<subseteq> {..<i}" using en joined_dom [OF j] by auto
    have "knows (clock m u) u x" using en kn by simp
    then have "knows (clock m' u) u x"
      using other [of u] joined_grow [OF j, of u u x] joined_clock [OF j, of u x]
      by (cases "u = p"; cases "u \<in> ?D") auto
    then show "x \<le> clock m' u u" using kn by simp
    show "i \<in> lock_past g' l \<longleftrightarrow> x \<le> lock_clock lm l u" for l
      using past_lock_iff [OF pa i] by (simp add: g')
    fix t assume "t \<in> dom m' - dead g'"
    then have t: "t \<in> dom m - dead g" "t \<notin> ?D" using joined_dom [OF j] by (auto simp: g')
    show "i \<in> past g' t \<longleftrightarrow> x \<le> clock m' t u"
    proof (cases "t = p")
      case False
      then show ?thesis using past_iff [OF pa i t(1)] other [of t] t(2) by (simp add: g')
    next
      case True
      have "i \<in> past g d \<longleftrightarrow> knows (clock m d) u x" if "d \<in> ?D" for d
        using past_iff [OF pa i, of d] ld [OF that] kn by simp
      then show ?thesis
        using True past_iff [OF pa i pl] joined_clock [OF j, of u x] kn by (auto simp: g')
    qed
  next
    show "past g' t \<subseteq> {..<length (log g')}" for t using past_bound(1) [OF pa] by (auto simp: g')
    show "lock_past g' l \<subseteq> {..<length (log g')}" for l using past_bound(2) [OF pa] by (simp add: g')
    show "past g' t = {}" if "t \<notin> dom m'" for t
      using past_unborn [OF pa, of t] that joined_dom [OF j] p by (auto simp: g')
  qed
qed

section \<open>Locks\<close>

lemma upd_clock_tree:
  assumes tr: "tree_ok m ctr dd" and t: "m t = Some st"
  shows "tree_ok (m(t \<mapsto> st\<lparr>m_vector_clock := vc\<rparr>)) ctr dd"
proof -
  have "child_rel (m(t \<mapsto> st\<lparr>m_vector_clock := vc\<rparr>)) = child_rel m"
    using t by (auto simp: child_rel_def split: if_splits)
  moreover have "dom (m(t \<mapsto> st\<lparr>m_vector_clock := vc\<rparr>)) = dom m" using t by auto
  ultimately show ?thesis
    using tr t unfolding tree_ok_def younger_children_def by auto
qed

lemma lock_clock_insert [simp]: "lock_clock (map_insert lm l zero_vc) = lock_clock lm"
  by (auto simp: lock_clock_def map_insert_apply fun_eq_iff split: option.split)

text \<open>A live task takes in what a lock knows.\<close>

lemma acquire_inv:
  assumes tr: "tree_ok m ctr (dead g)" and cl: "clocks_ok m lm (dead g) n" and pa: "past_ok m lm g n"
    and t: "m t = Some st" "t \<notin> dead g"
    and m': "m' = m(t \<mapsto> st\<lparr>m_vector_clock := join_vc (m_vector_clock st) (lock_clock lm l)\<rparr>)"
  shows "clocks_ok m' lm (dead g) n"
    "past_ok m' lm (g\<lparr>past := (past g)(t := past g t \<union> lock_past g l)\<rparr>) n"
proof -
  have dm: "dom m' = dom m" using t m' by auto
  have lim: "i < MAX_NUM_TASKS" if "i \<in> dom m" for i
    using tree_le [OF tr that] tree_ctr [OF tr] by simp
  have other: "clock m' a = clock m a" if "a \<noteq> t" for a using that by (simp add: clock_def m')
  have new: "clock m' t i = max (clock m t i) (lock_clock lm l i)" if "i < MAX_NUM_TASKS" for i
    using that t by (simp add: clock_def m' join_vc_def)
  have tl: "t \<in> dom m - dead g" using t by auto
  have uu: "clock m' u u = clock m u u" if "u \<in> dom m - dead g" for u
    using new [OF lim] other [of u] clocks_lock [OF cl that, of l] that
    by (cases "u = t") (auto simp: max_absorb1 order_less_imp_le)
  show "clocks_ok m' lm (dead g) n"
    unfolding clocks_ok_def dm
  proof (intro conjI ballI allI impI)
    fix u assume u: "u \<in> dom m - dead g"
    show "1 \<le> clock m' u u" using uu [OF u] clocks_pos [OF cl u] by simp
    show "lock_clock lm l' u < clock m' u u" for l' using uu [OF u] clocks_lock [OF cl u] by simp
    show "clock m' a u < clock m' u u" if "a \<in> dom m - dead g" "a \<noteq> u" for a
      using uu [OF u] clocks_other [OF cl u that] clocks_lock [OF cl u, of l] other [of a]
        new [OF lim, of u] u by (cases "a = t") auto
  next
    fix u a assume u: "u < MAX_NUM_TASKS \<and> u \<notin> dom m"
    show "clock m' a u = 0"
      using clocks_unborn [OF cl] u other [of a] new [of u] by (cases "a = t") auto
  next
    fix u l' assume "u < MAX_NUM_TASKS \<and> u \<notin> dom m"
    then show "lock_clock lm l' u = 0" using clocks_unborn(2) [OF cl] by simp
  next
    fix i :: size_t and a assume i: "i < MAX_NUM_TASKS"
    then show "unat (clock m' a i) \<le> n"
      using clocks_le [OF cl i] other [of a] new [OF i] by (cases "a = t") (auto simp: max_def)
  next
    fix i :: size_t and l' assume "i < MAX_NUM_TASKS"
    then show "unat (lock_clock lm l' i) \<le> n" by (rule clocks_le(2) [OF cl])
  qed
  show "past_ok m' lm (g\<lparr>past := (past g)(t := past g t \<union> lock_past g l)\<rparr>) n" (is "past_ok _ _ ?g _")
    unfolding past_ok_def dm
  proof (intro conjI allI ballI impI)
    fix i u x a k h assume "i < length (log ?g) \<and> log ?g ! i = (u, x, a, k, h)"
    then have i: "i < length (log g)" "log g ! i = (u, x, a, k, h)" by auto
    note en = past_entry [OF pa i]
    have ul: "u < MAX_NUM_TASKS" using en lim by blast
    show "u \<in> dom m" "1 \<le> x" "unat x \<le> n" "h \<subseteq> {..<i}" using en by auto
    show "x \<le> clock m' u u"
      using en other [of u] new [OF ul] by (cases "u = t") (auto simp: le_max_iff_disj)
    show "i \<in> lock_past ?g l' \<longleftrightarrow> x \<le> lock_clock lm l' u" for l' using past_lock_iff [OF pa i] by simp
    show "i \<in> past ?g v \<longleftrightarrow> x \<le> clock m' v u" if "v \<in> dom m - dead ?g" for v
      using past_iff [OF pa i, of v] that past_lock_iff [OF pa i, of l] other [of v] new [OF ul]
      by (cases "v = t") (auto simp: le_max_iff_disj)
  next
    show "past ?g v \<subseteq> {..<length (log ?g)}" for v using past_bound [OF pa] by auto
    show "lock_past ?g l' \<subseteq> {..<length (log ?g)}" for l' using past_bound(2) [OF pa] by simp
    show "past ?g v = {}" if "v \<notin> dom m" for v using past_unborn [OF pa that] that t by auto
  qed
qed

text \<open>A live task publishes its clock in a lock, then ticks.\<close>

lemma release_inv:
  assumes tr: "tree_ok m ctr (dead g)" and cl: "clocks_ok m lm (dead g) n" and pa: "past_ok m lm g n"
    and n: "n < 2 ^ 40" and t: "m t = Some st" "t \<notin> dead g"
    and m': "m' = m(t \<mapsto> st\<lparr>m_vector_clock := (m_vector_clock st)(t := m_vector_clock st t + 1)\<rparr>)"
    and lm': "lm' = lm(l \<mapsto> copy_vc (m_vector_clock st) lvc)"
  shows "clocks_ok m' lm' (dead g) (n + 1)"
    "past_ok m' lm' (g\<lparr>lock_past := (lock_past g)(l := past g t)\<rparr>) (n + 1)"
proof -
  have dm: "dom m' = dom m" using t m' by auto
  have lim: "i < MAX_NUM_TASKS" if "i \<in> dom m" for i
    using tree_le [OF tr that] tree_ctr [OF tr] by simp
  have tl: "t \<in> dom m - dead g" and tm: "t < MAX_NUM_TASKS" using t lim by auto
  have other: "clock m' a = clock m a" if "a \<noteq> t" for a using that by (simp add: clock_def m')
  have new: "clock m' t = (clock m t)(t := clock m t t + 1)" using t by (simp add: clock_def m')
  have tick: "clock m t t < clock m t t + 1" "unat (clock m t t + 1) = unat (clock m t t) + 1"
    using inc_less [of "clock m t t"] clocks_le(1) [OF cl tm, of t] n by auto
  have lk: "lock_clock lm' l' i = (if l' = l then clock m t i else lock_clock lm l' i)"
    if "i < MAX_NUM_TASKS" for l' i
    using that t by (simp add: lock_clock_def lm' copy_vc_def clock_def)
  have uu: "clock m u u \<le> clock m' u u" for u using other [of u] new tick by (cases "u = t") auto
  have lt: "clock m t u < clock m' u u" if "u \<in> dom m - dead g" for u
    using clocks_other [OF cl that tl] other [of u] new tick(1) by (cases "u = t") auto
  show "clocks_ok m' lm' (dead g) (n + 1)"
    unfolding clocks_ok_def dm
  proof (intro conjI ballI allI impI)
    fix u assume u: "u \<in> dom m - dead g"
    show "1 \<le> clock m' u u" using uu [of u] clocks_pos [OF cl u] by simp
    show "lock_clock lm' l' u < clock m' u u" for l'
      using lk [OF lim] u lt [OF u] clocks_lock [OF cl u, of l'] uu [of u] by auto
    show "clock m' a u < clock m' u u" if "a \<in> dom m - dead g" "a \<noteq> u" for a
      using lt [OF u] clocks_other [OF cl u that] uu [of u] other [of a] new that(2)
      by (cases "a = t") auto
  next
    fix u a assume u: "u < MAX_NUM_TASKS \<and> u \<notin> dom m"
    then show "clock m' a u = 0"
      using clocks_unborn(1) [OF cl] other [of a] new tl by (cases "a = t") auto
  next
    fix u l' assume "u < MAX_NUM_TASKS \<and> u \<notin> dom m"
    then show "lock_clock lm' l' u = 0" using clocks_unborn [OF cl] lk by auto
  next
    fix i :: size_t and a assume i: "i < MAX_NUM_TASKS"
    have le: "unat (clock m b i) \<le> n + 1" for b using clocks_le(1) [OF cl i, of b] by simp
    have "unat (clock m t t + 1) \<le> n + 1" using tick(2) clocks_le(1) [OF cl tm, of t] by simp
    then show "unat (clock m' a i) \<le> n + 1" using le other [of a] new by (cases "a = t") auto
  next
    fix i :: size_t and l' assume i: "i < MAX_NUM_TASKS"
    show "unat (lock_clock lm' l' i) \<le> n + 1"
      using lk [OF i] clocks_le [OF cl i] by (auto intro: le_SucI)
  qed
  show "past_ok m' lm' (g\<lparr>lock_past := (lock_past g)(l := past g t)\<rparr>) (n + 1)" (is "past_ok _ _ ?g _")
    unfolding past_ok_def dm
  proof (intro conjI allI ballI impI)
    fix i u x a k h assume "i < length (log ?g) \<and> log ?g ! i = (u, x, a, k, h)"
    then have i: "i < length (log g)" "log g ! i = (u, x, a, k, h)" by auto
    note en = past_entry [OF pa i]
    have ul: "u < MAX_NUM_TASKS" using en lim by blast
    show "u \<in> dom m" "1 \<le> x" "unat x \<le> n + 1" "h \<subseteq> {..<i}" using en by auto
    show "x \<le> clock m' u u" using en uu [of u] by (meson order.trans)
    show "i \<in> lock_past ?g l' \<longleftrightarrow> x \<le> lock_clock lm' l' u" for l'
      using past_lock_iff [OF pa i, of l'] past_iff [OF pa i tl] lk [OF ul] by simp
    show "i \<in> past ?g v \<longleftrightarrow> x \<le> clock m' v u" if "v \<in> dom m - dead ?g" for v
    proof (cases "v = t")
      case True
      have "x \<le> clock m' t u \<longleftrightarrow> x \<le> clock m t u" using en new tick(1) by (cases "u = t") auto
      then show ?thesis using True past_iff [OF pa i tl] by simp
    next
      case False
      then show ?thesis using past_iff [OF pa i, of v] that other by simp
    qed
  next
    show "past ?g v \<subseteq> {..<length (log ?g)}" for v using past_bound [OF pa] by simp
    show "lock_past ?g l' \<subseteq> {..<length (log ?g)}" for l' using past_bound [OF pa] by simp
    show "past ?g v = {}" if "v \<notin> dom m" for v using past_unborn [OF pa that] by simp
  qed
qed

section \<open>Accesses\<close>

text \<open>Task 0 gets a state at its first access.\<close>

lemma find_task_inv:
  assumes tr: "tree_ok m ctr (dead g)" and cl: "clocks_ok m lm (dead g) n" and pa: "past_ok m lm g n"
    and f: "find_task m t = Some (ts, m')" and t: "t = 0 \<or> t \<in> dom m"
  shows "tree_ok m' ctr (dead g)" "clocks_ok m' lm (dead g) (n + 1)" "past_ok m' lm g (n + 1)"
    "m' t = Some ts" "dom m' = insert t (dom m)" "clock m' t t = (case m t of None \<Rightarrow> 1 | Some st \<Rightarrow> m_vector_clock st t)"
    "t \<in> dom m \<Longrightarrow> m' = m"
proof -
  have weak: "clocks_ok m lm (dead g) (n + 1)" "past_ok m lm g (n + 1)"
    using cl pa unfolding clocks_ok_def past_ok_def by (auto intro: le_SucI)
  have all: "tree_ok m' ctr (dead g) \<and> clocks_ok m' lm (dead g) (n + 1) \<and> past_ok m' lm g (n + 1) \<and>
    m' t = Some ts \<and> dom m' = insert t (dom m) \<and>
    clock m' t t = (case m t of None \<Rightarrow> 1 | Some st \<Rightarrow> m_vector_clock st t) \<and> (t \<in> dom m \<longrightarrow> m' = m)"
  proof (cases "m t")
    case (Some st)
    then have "m' = m" "ts = st" using f by (auto simp: find_task_def)
    then show ?thesis using Some tr weak by (auto simp: clock_def)
  next
    case None
    then have t0: "t = 0" using t by auto
    have m': "m' = m(t \<mapsto> ts)" and ts: "ts = (new_TaskState t)\<lparr>m_vector_clock := zero_vc(t := 1)\<rparr>"
      using f None by (auto simp: find_task_def bind_eq_Some_conv update_vc_def Let_def split: if_splits)
    have lim: "i < MAX_NUM_TASKS" if "i \<in> insert 0 (dom m)" for i
    proof (cases "i = 0")
      case False
      then show ?thesis using tree_le [OF tr, of i] tree_ctr [OF tr] that by (meson insertE le_less_trans)
    qed (simp add: MAX_NUM_TASKS_def push_bit_eq_mult)
    have cr: "child_rel m' = child_rel m"
      using None by (auto simp: child_rel_def m' ts new_TaskState_def split: if_splits)
    have new: "clock m' t = zero_vc(t := 1)" by (simp add: clock_def m' ts)
    have other: "clock m' a = clock m a" if "a \<noteq> t" for a using that by (simp add: clock_def m')
    have tm: "t < MAX_NUM_TASKS" "t \<notin> dom m" using lim t0 None by auto
    have td: "t \<notin> dead g" using tree_dead [OF tr] tm by auto
    have z: "clock m a t = 0" "lock_clock lm l t = 0" for a l using clocks_unborn [OF cl tm] by auto
    have dm: "dom m' = insert t (dom m)" by (auto simp: m')
    have tree: "tree_ok m' ctr (dead g)"
      using tr None t0 unfolding tree_ok_def younger_children_def cr
      by (auto simp: m' ts new_TaskState_def split: if_splits)
    have pos: "0 < clock m u u" if "u \<in> dom m - dead g" for u
      using clocks_pos [OF cl that] by (auto simp: word_gt_0)
    have clocks: "clocks_ok m' lm (dead g) (n + 1)"
      unfolding clocks_ok_def dm
    proof (intro conjI ballI allI impI)
      fix u assume u: "u \<in> insert t (dom m) - dead g"
      show "1 \<le> clock m' u u" using u clocks_pos [OF cl, of u] new other [of u] by (cases "u = t") auto
      show "lock_clock lm l u < clock m' u u" for l
        using u clocks_lock [OF cl, of u] new other [of u] z by (cases "u = t") auto
      show "clock m' a u < clock m' u u" if "a \<in> insert t (dom m) - dead g" "a \<noteq> u" for a
        using u that clocks_other [OF cl, of u a] new other [of u] other [of a] z pos [of u]
        by (cases "u = t"; cases "a = t") (auto simp: zero_vc_def)
    next
      fix u a assume "u < MAX_NUM_TASKS \<and> u \<notin> insert t (dom m)"
      then show "clock m' a u = 0"
        using clocks_unborn(1) [OF cl, of u a] new other [of a] by (cases "a = t") (auto simp: zero_vc_def)
    next
      fix u l assume "u < MAX_NUM_TASKS \<and> u \<notin> insert t (dom m)"
      then show "lock_clock lm l u = 0" using clocks_unborn(2) [OF cl] by auto
    next
      fix i :: size_t and a assume i: "i < MAX_NUM_TASKS"
      then show "unat (clock m' a i) \<le> n + 1"
        using clocks_le(1) [OF cl i, of a] new other [of a] by (cases "a = t") (auto simp: zero_vc_def)
    next
      fix i :: size_t and l assume "i < MAX_NUM_TASKS"
      then show "unat (lock_clock lm l i) \<le> n + 1" using clocks_le(2) [OF cl, of i l] by simp
    qed
    have past: "past_ok m' lm g (n + 1)"
      unfolding past_ok_def dm
    proof (intro conjI allI ballI impI)
      fix i u x a k h assume "i < length (log g) \<and> log g ! i = (u, x, a, k, h)"
      then have i: "i < length (log g)" "log g ! i = (u, x, a, k, h)" by auto
      note en = past_entry [OF pa i]
      have ut: "u \<noteq> t" using en tm by auto
      show "u \<in> insert t (dom m)" "1 \<le> x" "unat x \<le> n + 1" "h \<subseteq> {..<i}" using en by auto
      show "x \<le> clock m' u u" using en other [OF ut] by simp
      show "i \<in> lock_past g l \<longleftrightarrow> x \<le> lock_clock lm l u" for l using past_lock_iff [OF pa i] .
      show "i \<in> past g v \<longleftrightarrow> x \<le> clock m' v u" if "v \<in> insert t (dom m) - dead g" for v
      proof (cases "v = t")
        case True
        then show ?thesis using past_unborn [OF pa tm(2)] en new ut by (auto simp: zero_vc_def)
      next
        case False
        then show ?thesis using past_iff [OF pa i, of v] that other by auto
      qed
    next
      show "past g v \<subseteq> {..<length (log g)}" "lock_past g l \<subseteq> {..<length (log g)}" for v l
        using past_bound [OF pa] by auto
      show "past g v = {}" if "v \<notin> insert t (dom m)" for v using past_unborn [OF pa] that by simp
    qed
    have "m' t = Some ts" "clock m' t t = 1" using new by (simp_all add: m')
    then show ?thesis using tree clocks past None dm tm(2) by simp
  qed
  then show "tree_ok m' ctr (dead g)" "clocks_ok m' lm (dead g) (n + 1)" "past_ok m' lm g (n + 1)"
    "m' t = Some ts" "dom m' = insert t (dom m)"
    "clock m' t t = (case m t of None \<Rightarrow> 1 | Some st \<Rightarrow> m_vector_clock st t)" by blast+
  show "t \<in> dom m \<Longrightarrow> m' = m" using all by blast
qed

text \<open>Logging an access of a live task.\<close>

lemma log_access_past:
  assumes tr: "tree_ok m ctr (dead g)" and cl: "clocks_ok m lm (dead g) n" and pa: "past_ok m lm g n"
    and t: "t \<in> dom m - dead g"
  shows "past_ok m lm (g\<lparr>past := (past g)(t := insert (length (log g)) (past g t)),
      log := log g @ [(t, clock m t t, a, k, past g t)]\<rparr>) n" (is "past_ok _ _ ?g _")
proof -
  have tm: "t < MAX_NUM_TASKS" using tree_le [OF tr, of t] tree_ctr [OF tr] t by auto
  have pb: "x < Suc (length (log g))" if "x \<in> past g v" for x v
    using past_bound(1) [OF pa, of v] that by (meson lessThan_iff less_SucI subsetD)
  show ?thesis
    unfolding past_ok_def
  proof (intro conjI allI ballI impI)
    fix i u x b j h assume i: "i < length (log ?g) \<and> log ?g ! i = (u, x, b, j, h)"
    have *: "u \<in> dom m \<and> 1 \<le> x \<and> unat x \<le> n \<and> h \<subseteq> {..<i} \<and> x \<le> clock m u u \<and>
      (\<forall>v \<in> dom m - dead g. i \<in> past ?g v \<longleftrightarrow> x \<le> clock m v u) \<and>
      (\<forall>l. i \<in> lock_past ?g l \<longleftrightarrow> x \<le> lock_clock lm l u)"
    proof (cases "i < length (log g)")
      case True
      then have i': "i < length (log g)" "log g ! i = (u, x, b, j, h)" using i by (auto simp: nth_append)
      show ?thesis
        using past_entry [OF pa i'] past_iff [OF pa i'] past_lock_iff [OF pa i'] True by auto
    next
      case False
      then have i': "i = length (log g)" "u = t" "x = clock m t t" "h = past g t"
        using i by (auto simp: nth_append less_Suc_eq)
      have "i \<notin> past g v" "i \<notin> lock_past g l" for v l using past_bound [OF pa] i'(1) by auto
      then show ?thesis
        using i' t clocks_pos [OF cl t] clocks_le(1) [OF cl tm] past_bound(1) [OF pa]
          clocks_other [OF cl t] clocks_lock [OF cl t] by (auto simp: not_le)
    qed
    then show "u \<in> dom m" "1 \<le> x" "unat x \<le> n" "h \<subseteq> {..<i}" "x \<le> clock m u u" by blast+
    show "i \<in> past ?g v \<longleftrightarrow> x \<le> clock m v u" if "v \<in> dom m - dead ?g" for v using * that by simp
    show "i \<in> lock_past ?g l \<longleftrightarrow> x \<le> lock_clock lm l u" for l using * by blast
  next
    show "past ?g v \<subseteq> {..<length (log ?g)}" for v
      using pb by auto
    show "lock_past ?g l \<subseteq> {..<length (log ?g)}" for l
      using past_bound(2) [OF pa, of l] by (auto dest!: subsetD intro: less_SucI)
    show "past ?g v = {}" if "v \<notin> dom m" for v using past_unborn [OF pa that] that t by auto
  qed
qed

end
