(* ===== verification/FtRuns.thy ===== *)
theory FtRuns
  imports FtHbInv
begin

text \<open>
  Every event keeps the invariant of \<open>FtHb\<close>, so it holds in every reachable state with the
  number of events as bound of the clocks.  From it: a clock comparison answers whether an
  access happened before.
\<close>

section \<open>Every event keeps the invariant\<close>

lemma clocks_ok_mono: "clocks_ok m lm dd n \<Longrightarrow> n \<le> n' \<Longrightarrow> clocks_ok m lm dd n'"
  unfolding clocks_ok_def by (meson order.trans)

lemma past_ok_mono: "past_ok m lm g n \<Longrightarrow> n \<le> n' \<Longrightarrow> past_ok m lm g n'"
  unfolding past_ok_def by (meson order.trans)

lemma stacks_ok_dom:
  assumes "stacks_ok s" "thrid_taskid_map s' = thrid_taskid_map s" "dom (tasks s) \<subseteq> dom (tasks s')"
  shows "stacks_ok s'"
  using assms unfolding stacks_ok_def by (metis (no_types, lifting) insert_mono order.trans)

lemma hb_invI:
  assumes "tree_ok (tasks s) (task_id_ctr s) (dead g)" "clocks_ok (tasks s) (lockmap s) (dead g) n"
    "past_ok (tasks s) (lockmap s) g n" "stacks_ok s"
  shows "hb_inv s g n"
  using assms by (simp add: hb_inv_def)

lemma cur_task_ctr [simp]: "cur_task (s\<lparr>task_id_ctr := c\<rparr>) th = cur_task s th"
  by (simp add: cur_task_def get_cur_tid_def split: option.splits list.splits)

text \<open>A spawn forks below a known live task.\<close>

lemma forked_inv:
  assumes inv: "hb_inv s g n" and n: "n < 2 ^ 40" and p: "p \<in> dom (tasks s) \<or> p = 0" "p \<notin> dead g"
    and f: "fork (find_or_new (tasks s) p) p (task_id_ctr s + 1) t = Some m'"
    and s': "tasks s' = m'" "lockmap s' = lockmap s" "task_id_ctr s' = task_id_ctr s + 1"
    and st: "stacks_ok (s'\<lparr>taskid_taskstate_map := tasks s\<rparr>)"
  shows "hb_inv s' (g\<lparr>past := (past g)(task_id_ctr s + 1 := past g p)\<rparr>) (n + 1)"
proof (rule hb_invI)
  note tr = hb_tree [OF inv] and cl = hb_clocks [OF inv] and pa = hb_past [OF inv]
  show "tree_ok (tasks s') (task_id_ctr s') (dead (g\<lparr>past := (past g)(task_id_ctr s + 1 := past g p)\<rparr>))"
    using fork_tree [OF tr p f] by (simp add: s')
  show "clocks_ok (tasks s') (lockmap s') (dead (g\<lparr>past := (past g)(task_id_ctr s + 1 := past g p)\<rparr>)) (n + 1)"
    using fork_clocks [OF tr cl n p f] by (simp add: s')
  show "past_ok (tasks s') (lockmap s') (g\<lparr>past := (past g)(task_id_ctr s + 1 := past g p)\<rparr>) (n + 1)"
    using fork_past [OF tr cl n pa p f] by (simp add: s')
  have "dom (tasks s) \<subseteq> dom m'"
  proof -
    have pd: "p = 0 \<or> p \<in> dom (tasks s)" using p by blast
    have "p \<in> dom (find_or_new (tasks s) p)" using find_or_new_facts(3) [OF pd] by blast
    then obtain st where "find_or_new (tasks s) p p = Some st" by blast
    then have "dom m' \<supseteq> dom (find_or_new (tasks s) p)"
      using f by (auto simp: fork_def Let_def bind_eq_Some_conv)
    then show ?thesis using find_or_new_facts(3) [OF pd] by blast
  qed
  then show "stacks_ok s'" by (intro stacks_ok_dom [OF st]) (auto simp: s')
qed

lemma ft_spawn_root_inv:
  assumes inv: "hb_inv s g n" and n: "n < 2 ^ 40" and p: "cur_task s th \<notin> dead g"
    and f: "spawn_root s th t = Some s'"
  shows "hb_inv s' (g\<lparr>past := (past g)(task_id_ctr s + 1 := past g (cur_task s th))\<rparr>) (n + 1)"
proof -
  obtain k s1 where gc: "get_cur_tid (s\<lparr>task_id_ctr := task_id_ctr s + 1\<rparr>) th = (k, s1)" by fastforce
  note fr = get_cur_tid_frame [OF gc]
  have so: "stacks_ok (s\<lparr>task_id_ctr := task_id_ctr s + 1\<rparr>)"
    by (rule stacks_ok_dom [OF hb_stacks [OF inv]]) auto
  from f gc fr obtain m' where m': "fork (find_or_new (tasks s) (cur_task s th)) (cur_task s th) (task_id_ctr s + 1) t = Some m'"
    "s' = s1\<lparr>taskid_taskstate_map := m'\<rparr>"
    by (auto simp: spawn_root_def Let_def bind_eq_Some_conv)
  show ?thesis
  proof (rule forked_inv [OF inv n _ p m'(1)])
    show "cur_task s th \<in> dom (tasks s) \<or> cur_task s th = 0"
      using cur_task_known [OF hb_stacks [OF inv]] by blast
    show "stacks_ok (s'\<lparr>taskid_taskstate_map := tasks s\<rparr>)"
      by (rule stacks_ok_dom [OF fr(8) [OF so]]) (auto simp: m' fr)
  qed (simp_all add: m' fr)
qed

lemma spawn_fork:
  assumes tr: "tree_ok (tasks s) (task_id_ctr s) dd" and so: "stacks_ok s"
    and f: "spawn s th t tp = Some s'"
  obtains s1 m' where
    "spawn_parent s th tp \<in> dom (tasks s) \<or> spawn_parent s th tp = 0"
    "fork (find_or_new (tasks s) (spawn_parent s th tp)) (spawn_parent s th tp) (task_id_ctr s + 1) t = Some m'"
    "get_cur_tid (s\<lparr>task_id_ctr := task_id_ctr s + 1\<rparr>) th = (cur_task s th, s1)"
    "s' = s1\<lparr>taskid_taskstate_map := m'\<rparr>"
proof -
  obtain k s1 where gc0: "get_cur_tid (s\<lparr>task_id_ctr := task_id_ctr s + 1\<rparr>) th = (k, s1)" by fastforce
  note fr = get_cur_tid_frame [OF gc0]
  have gc: "get_cur_tid (s\<lparr>task_id_ctr := task_id_ctr s + 1\<rparr>) th = (cur_task s th, s1)"
    using gc0 fr(1) by simp
  let ?k = "cur_task s th" let ?m = "find_or_new (tasks s) ?k"
  from f gc fr(2) obtain st p m' where st: "?m ?k = Some st"
    and pp: "(if tp \<noteq> mytask st then parent st else Some ?k) = Some p"
    and m': "fork ?m p (task_id_ctr s + 1) t = Some m'" "s' = s1\<lparr>taskid_taskstate_map := m'\<rparr>"
    by (auto simp: spawn_def Let_def bind_eq_Some_conv)
  show thesis
  proof (cases "tasks s ?k")
    case None
    then have "st = new_TaskState ?k" using st by (simp add: find_or_new_def)
    then have "p = ?k" using pp by (auto simp: new_TaskState_def split: if_splits)
    moreover have "spawn_parent s th tp = ?k" using None by (simp add: spawn_parent_def)
    ultimately show thesis
      using that cur_task_known [OF so, of th] m' gc by metis
  next
    case (Some st')
    then have eq: "?m = tasks s" "st' = st" using st by (simp_all add: find_or_new_def)
    have sp: "spawn_parent s th tp = p" using Some pp eq by (auto simp: spawn_parent_def split: if_splits)
    have "p \<in> dom (tasks s)" using pp Some eq tree_parent [OF tr, of ?k st] by (auto split: if_splits)
    then have "find_or_new (tasks s) p = tasks s" by (auto simp: find_or_new_def)
    then show thesis using that sp \<open>p \<in> dom (tasks s)\<close> m' gc eq by metis
  qed
qed

lemma ft_spawn_inv:
  assumes inv: "hb_inv s g n" and n: "n < 2 ^ 40" and p: "spawn_parent s th tp \<notin> dead g"
    and f: "spawn s th t tp = Some s'"
  shows "hb_inv s' (g\<lparr>past := (past g)(task_id_ctr s + 1 := past g (spawn_parent s th tp))\<rparr>) (n + 1)"
proof -
  obtain s1 m' where *: "spawn_parent s th tp \<in> dom (tasks s) \<or> spawn_parent s th tp = 0"
    "fork (find_or_new (tasks s) (spawn_parent s th tp)) (spawn_parent s th tp) (task_id_ctr s + 1) t = Some m'"
    "get_cur_tid (s\<lparr>task_id_ctr := task_id_ctr s + 1\<rparr>) th = (cur_task s th, s1)"
    "s' = s1\<lparr>taskid_taskstate_map := m'\<rparr>"
    by (rule spawn_fork [OF hb_tree [OF inv] hb_stacks [OF inv] f])
  note fr = get_cur_tid_frame [OF *(3)]
  have so: "stacks_ok (s\<lparr>task_id_ctr := task_id_ctr s + 1\<rparr>)"
    by (rule stacks_ok_dom [OF hb_stacks [OF inv]]) auto
  show ?thesis
  proof (rule forked_inv [OF inv n *(1) p *(2)])
    show "stacks_ok (s'\<lparr>taskid_taskstate_map := tasks s\<rparr>)"
      by (rule stacks_ok_dom [OF fr(8) [OF so]]) (auto simp: * fr)
  qed (simp_all add: * fr)
qed

lemma wait_inv:
  assumes inv: "hb_inv s g n" and p: "cur_task s th \<notin> dead g" and f: "Capturewait_for_all s th = Some s'"
  shows "hb_inv s' (ft_ghost s g (FtWait th)) (n + 1)"
proof -
  obtain k s1 where gc0: "get_cur_tid s th = (k, s1)" by fastforce
  note fr = get_cur_tid_frame [OF gc0]
  let ?k = "cur_task s th"
  note tr = hb_tree [OF inv] and cl = hb_clocks [OF inv] and pa = hb_past [OF inv]
  from f gc0 fr obtain m' where m': "Capturewait_for_all_task (tasks s) ?k = Some m'"
    "s' = s1\<lparr>taskid_taskstate_map := m'\<rparr>" by (auto simp: Capturewait_for_all_def bind_eq_Some_conv)
  then obtain st where st: "tasks s ?k = Some st" by (auto simp: Capturewait_for_all_task_def bind_eq_Some_conv)
  let ?D = "descendants (tasks s) (m_child st)"
  have j: "joined (tasks s) m' ?k ?D" "\<exists>st'. m' ?k = Some st' \<and> m_child st' = []"
    using Capturewait_joined [OF tree_younger [OF tr] st] m'(1) by (metis option.inject)+
  have g': "ft_ghost s g (FtWait th) = g\<lparr>past := (past g)(?k := past g ?k \<union> \<Union> (past g ` ?D)), dead := dead g \<union> ?D\<rparr>"
    by (simp add: ft_ghost_def children_def st Let_def)
  show ?thesis
  proof (rule hb_invI)
    show "tree_ok (tasks s') (task_id_ctr s') (dead (ft_ghost s g (FtWait th)))"
      using wait_tree [OF tr st p j] by (simp add: m' fr g')
    show "clocks_ok (tasks s') (lockmap s') (dead (ft_ghost s g (FtWait th))) (n + 1)"
      using clocks_ok_mono [OF wait_clocks [OF tr cl st p j(1)]] by (simp add: m' fr g')
    show "past_ok (tasks s') (lockmap s') (ft_ghost s g (FtWait th)) (n + 1)"
      using past_ok_mono [OF wait_past [OF tr pa st p j(1) g']] by (simp add: m' fr)
    show "stacks_ok s'"
      by (rule stacks_ok_dom [OF fr(8) [OF hb_stacks [OF inv]]]) (auto simp: m' fr joined_dom [OF j(1)])
  qed
qed

lemma acquire_step_inv:
  assumes inv: "hb_inv s g n" and p: "t \<notin> dead g" and f: "CaptureLockAcquire s t l = Some s'"
  shows "hb_inv s' (ft_ghost s g (FtAcquire t l)) (n + 1)"
proof -
  note tr = hb_tree [OF inv] and cl = hb_clocks [OF inv] and pa = hb_past [OF inv]
  from f obtain st where st: "tasks s t = Some st" by (auto simp: CaptureLockAcquire_def bind_eq_Some_conv)
  have lk: "map_insert (lockmap s) l zero_vc l = Some (lock_clock (lockmap s) l)"
    by (auto simp: map_insert_apply lock_clock_def split: option.splits)
  have s': "s' = s\<lparr>lockmap := map_insert (lockmap s) l zero_vc, taskid_taskstate_map := (tasks s)
      (t \<mapsto> st\<lparr>m_vector_clock := join_vc (m_vector_clock st) (lock_clock (lockmap s) l)\<rparr>)\<rparr>"
    using f st lk by (auto simp: CaptureLockAcquire_def bind_eq_Some_conv)
  note a = acquire_inv [OF tr cl pa st p refl, of l]
  show ?thesis
  proof (rule hb_invI)
    show "tree_ok (tasks s') (task_id_ctr s') (dead (ft_ghost s g (FtAcquire t l)))"
      using upd_clock_tree [OF tr st] by (simp add: s' ft_ghost_def)
    show "clocks_ok (tasks s') (lockmap s') (dead (ft_ghost s g (FtAcquire t l))) (n + 1)"
      using clocks_ok_mono [OF a(1), of "n + 1"] by (simp add: s' ft_ghost_def clocks_ok_def)
    show "past_ok (tasks s') (lockmap s') (ft_ghost s g (FtAcquire t l)) (n + 1)"
      using past_ok_mono [OF a(2), of "n + 1"] by (simp add: s' ft_ghost_def past_ok_def)
    show "stacks_ok s'" by (rule stacks_ok_dom [OF hb_stacks [OF inv]]) (auto simp: s')
  qed
qed

lemma release_step_inv:
  assumes inv: "hb_inv s g n" and n: "n < 2 ^ 40" and p: "t \<notin> dead g" and f: "CaptureLockRelease s t l = Some s'"
  shows "hb_inv s' (ft_ghost s g (FtRelease t l)) (n + 1)"
proof -
  note tr = hb_tree [OF inv] and cl = hb_clocks [OF inv] and pa = hb_past [OF inv]
  from f obtain st lvc where st: "tasks s t = Some st" "lockmap s l = Some lvc"
    by (auto simp: CaptureLockRelease_def bind_eq_Some_conv)
  have s': "s' = s\<lparr>lockmap := (lockmap s)(l \<mapsto> copy_vc (m_vector_clock st) lvc), taskid_taskstate_map := (tasks s)
      (t \<mapsto> st\<lparr>m_vector_clock := (m_vector_clock st)(t := m_vector_clock st t + 1)\<rparr>)\<rparr>"
    using f st tree_id [OF tr st(1)]
    by (auto simp: CaptureLockRelease_def bind_eq_Some_conv tick_vc_Some)
  note a = release_inv [OF tr cl pa n st(1) p refl refl, of l lvc]
  show ?thesis
  proof (rule hb_invI)
    show "tree_ok (tasks s') (task_id_ctr s') (dead (ft_ghost s g (FtRelease t l)))"
      using upd_clock_tree [OF tr st(1)] by (simp add: s' ft_ghost_def)
    show "clocks_ok (tasks s') (lockmap s') (dead (ft_ghost s g (FtRelease t l))) (n + 1)"
      using a(1) by (simp add: s' ft_ghost_def)
    show "past_ok (tasks s') (lockmap s') (ft_ghost s g (FtRelease t l)) (n + 1)"
      using a(2) by (simp add: s' ft_ghost_def)
    show "stacks_ok s'" by (rule stacks_ok_dom [OF hb_stacks [OF inv]]) (auto simp: s')
  qed
qed

text \<open>An access logs itself in the past of its task.\<close>

lemma ft_access_inv:
  assumes inv: "hb_inv s g n" and p: "t \<notin> dead g" "t = 0 \<or> tasks s t \<noteq> None"
    and f: "RecordMem s t a k ptr = Some s'"
  shows "hb_inv s' (ft_ghost s g (FtAccess t a k ptr)) (n + 1)"
proof -
  note tr = hb_tree [OF inv] and cl = hb_clocks [OF inv] and pa = hb_past [OF inv]
  let ?g = "ft_ghost s g (FtAccess t a k ptr)"
  from f obtain ts m' where ft: "find_task (tasks s) t = Some (ts, m')"
    by (auto simp: RecordMem_def bind_eq_Some_conv)
  have fr: "tasks s' = m'" "lockmap s' = lockmap s" "task_id_ctr s' = task_id_ctr s"
    "thrid_taskid_map s' = thrid_taskid_map s"
    using f ft by (auto simp: RecordMem_def bind_eq_Some_conv Let_def)
  have known: "t = 0 \<or> t \<in> dom (tasks s)" using p(2) by auto
  note ti = find_task_inv [OF tr cl pa ft known]
  have now: "now s t = clock m' t t" using ti(6) by (simp add: now_def split: option.splits)
  have live: "t \<in> dom m' - dead g" using ti(5) p(1) by blast
  note lg = log_access_past [OF ti(1,2,3) live, of a k]
  show ?thesis
  proof (rule hb_invI)
    show "tree_ok (tasks s') (task_id_ctr s') (dead ?g)" using ti(1) by (simp add: fr ft_ghost_def)
    show "clocks_ok (tasks s') (lockmap s') (dead ?g) (n + 1)" using ti(2) by (simp add: fr ft_ghost_def)
    show "past_ok (tasks s') (lockmap s') ?g (n + 1)" using lg by (simp add: fr ft_ghost_def now)
    show "stacks_ok s'" by (rule stacks_ok_dom [OF hb_stacks [OF inv]]) (auto simp: fr ti(5))
  qed
qed

theorem ft_traced_inv:
  assumes inv: "hb_inv s g n" and n: "n < 2 ^ 40" and f: "ft_traced (s, g) e = Some (s', g')"
  shows "hb_inv s' g' (n + 1)"
proof -
  from f have d: "ft_disciplined s g e" and st: "ft_step s e = Some s'" and g': "g' = ft_ghost s g e"
    by (auto simp: ft_traced_def bind_eq_Some_conv split: if_splits)
  have same: "hb_inv s' g (n + 1)" if "tasks s' = tasks s" "lockmap s' = lockmap s"
    "task_id_ctr s' = task_id_ctr s" "stacks_ok s'"
  proof (rule hb_invI)
    show "tree_ok (tasks s') (task_id_ctr s') (dead g)" using hb_tree [OF inv] that by simp
    show "clocks_ok (tasks s') (lockmap s') (dead g) (n + 1)"
      using clocks_ok_mono [OF hb_clocks [OF inv], of "n + 1"] that by simp
    show "past_ok (tasks s') (lockmap s') g (n + 1)"
      using past_ok_mono [OF hb_past [OF inv], of "n + 1"] that by simp
  qed (rule that(4))
  show ?thesis
  proof (cases e)
    case (FtSpawn th t tp)
    then show ?thesis using ft_spawn_inv [OF inv n, of th tp t s'] d st
      by (simp add: g' ft_ghost_def ft_disciplined_def)
  next
    case (FtSpawnRoot th t)
    then show ?thesis using ft_spawn_root_inv [OF inv n, of th t s'] d st
      by (simp add: g' ft_ghost_def ft_disciplined_def)
  next
    case (FtWait th)
    then show ?thesis using wait_inv [OF inv, of th s'] d st by (simp add: g' ft_disciplined_def)
  next
    case (FtBegin th k)
    have k: "k \<in> dom (tasks s)" using FtBegin d by (auto simp: ft_disciplined_def)
    have so: "stacks_ok (exec_begin s th k)"
      unfolding exec_begin_def
    proof (rule stacks_ok_upd [OF hb_stacks [OF inv]])
      show "set (k # (case thrid_taskid_map s th of None \<Rightarrow> [] | Some st \<Rightarrow> st)) \<subseteq> insert 0 (dom (tasks s))"
        using hb_stacks [OF inv] k by (cases "thrid_taskid_map s th") (auto simp: stacks_ok_def)
    qed
    then have "hb_inv s' g (n + 1)" using st FtBegin by (intro same) (auto simp: exec_begin_def)
    then show ?thesis using FtBegin by (simp add: g' ft_ghost_def)
  next
    case (FtEnd th)
    from st FtEnd obtain x st' where x: "thrid_taskid_map s th = Some (x # st')"
      "s' = s\<lparr>thrid_taskid_map := (thrid_taskid_map s)(th \<mapsto> st')\<rparr>"
      by (auto simp: exec_end_def bind_eq_Some_conv split: option.splits)
    have "stacks_ok s'" unfolding x(2)
      by (rule stacks_ok_upd [OF hb_stacks [OF inv]])
        (use hb_stacks [OF inv] x(1) in \<open>force simp: stacks_ok_def\<close>)
    then have "hb_inv s' g (n + 1)" by (intro same) (auto simp: x(2))
    then show ?thesis using FtEnd by (simp add: g' ft_ghost_def)
  next
    case (FtAcquire t l)
    then show ?thesis using acquire_step_inv [OF inv, of t l s'] d st by (simp add: g' ft_disciplined_def)
  next
    case (FtRelease t l)
    then show ?thesis using release_step_inv [OF inv n, of t l s'] d st by (simp add: g' ft_disciplined_def)
  next
    case (FtAccess t a k ptr)
    then show ?thesis using ft_access_inv [OF inv, of t a k ptr s'] d st by (simp add: g' ft_disciplined_def)
  qed
qed

lemma run_hb_inv:
  assumes "run ft_traced (s, g) es = Some (s', g')" "hb_inv s g n" "n + length es < 2 ^ 40"
  shows "hb_inv s' g' (n + length es)"
  using assms
proof (induction es arbitrary: s g n)
  case (Cons e es)
  from Cons.prems(1) obtain s1 g1 where 1: "ft_traced (s, g) e = Some (s1, g1)"
    "run ft_traced (s1, g1) es = Some (s', g')" by (auto simp: bind_eq_Some_conv)
  have "hb_inv s1 g1 (n + 1)" using ft_traced_inv [OF Cons.prems(2) _ 1(1)] Cons.prems(3) by simp
  then show ?case using Cons.IH [OF 1(2), of "n + 1"] Cons.prems(3) by simp
qed simp

lemma reachable_hb_inv:
  assumes "ft_reachable s g"
  obtains n where "hb_inv s g n" "n < 2 ^ 40 - 1"
proof -
  from assms obtain r es where es: "length es < 2 ^ 40 - 1" "run ft_traced (ft_init r, ghost_init) es = Some (s, g)"
    unfolding ft_reachable_def by blast
  have "hb_inv s g (0 + length es)" by (rule run_hb_inv [OF es(2) hb_inv_init]) (use es(1) in simp)
  then show thesis using that es(1) by simp
qed

section \<open>What a clock comparison answers\<close>

lemma unordered_after_past:
  assumes tr: "tree_ok m ctr (dead g)" and pa: "past_ok m lm g n" and t: "m t = Some ts" "t \<notin> dead g"
    and i: "i < length (log g)" "log g ! i = (u, c, a, k, h)"
  shows "unordered_after ts t u c = Some (i \<notin> past g t)"
proof -
  have td: "t \<in> dom m - dead g" using t by blast
  note iff = past_iff [OF pa i td] and en = past_entry [OF pa i]
  have u: "u < MAX_NUM_TASKS" using tree_le [OF tr, of u] en tree_ctr [OF tr] by (meson le_less_trans)
  have ts: "clock m t = m_vector_clock ts" by (simp add: clock_def t)
  show ?thesis
  proof (cases "u = t")
    case True
    then show ?thesis using iff en by (simp add: unordered_after_def)
  next
    case False
    then show ?thesis using iff u ts by (auto simp: unordered_after_def element_def at_vc_def)
  qed
qed

lemma entry_fits:
  assumes tr: "tree_ok m ctr (dead g)" and pa: "past_ok m lm g n" and n: "n < 2 ^ 40"
    and i: "i < length (log g)" "log g ! i = (u, c, a, k, h)"
  shows "fits u c" "1 \<le> c"
proof -
  note en = past_entry [OF pa i]
  have "u < MAX_NUM_TASKS" using tree_le [OF tr, of u] en tree_ctr [OF tr] by (meson le_less_trans)
  moreover have "c < 2 ^ 40" using en n by (simp add: word_less_nat_alt)
  ultimately show "fits u c" by (rule fits_less)
  show "1 \<le> c" using en by blast
qed

end
