(* ===== verification/FtWrites.thy ===== *)
theory FtWrites
  imports FtRuns
begin

text \<open>
  What the write epoch of a variable stands for: unless the variable is racy, the last
  logged write of its shadow cell.  So the write check compares the current task with that
  write, and a report whose first access is a write names two logged accesses of one
  cell, unordered by happens-before.
\<close>

section \<open>The log\<close>

definition var_at :: "fasttrack \<Rightarrow> ADDRINT \<Rightarrow> VarState option" where
  "var_at s a = cell_at None (shadow_space s) a"

definition write_at :: "ghost \<Rightarrow> ADDRINT \<Rightarrow> nat \<Rightarrow> bool" where
  "write_at g a i \<longleftrightarrow>
     i < length (log g) \<and> (\<exists>u c b h. log g ! i = (u, c, b, WRITE, h) \<and> same_cell a b)"

definition last_write :: "ghost \<Rightarrow> ADDRINT \<Rightarrow> nat \<Rightarrow> bool" where
  "last_write g a i \<longleftrightarrow> write_at g a i \<and> (\<forall>j. write_at g a j \<longrightarrow> j \<le> i)"

text \<open>The write epoch names the last write.\<close>

definition names_write :: "ghost \<Rightarrow> ADDRINT \<Rightarrow> size_t \<Rightarrow> bool" where
  "names_write g a e \<longleftrightarrow>
     e = 0 \<and> (\<forall>i. \<not> write_at g a i) \<or>
     (\<exists>i u c b h. last_write g a i \<and> log g ! i = (u, c, b, WRITE, h) \<and> e = createWriteEpoch u c)"

definition write_known :: "ghost \<Rightarrow> ADDRINT \<Rightarrow> VarState option \<Rightarrow> bool" where
  "write_known g a vs =
     (case vs of None \<Rightarrow> \<forall>i. \<not> write_at g a i | Some v \<Rightarrow> isRacy v \<or> names_write g a (m_wr_epoch v))"

text \<open>A race whose first access is a write: two logged accesses, the first not before the second.\<close>

definition write_race :: "ghost \<Rightarrow> ADDRINT \<Rightarrow> Violation \<Rightarrow> bool" where
  "write_race g a v \<longleftrightarrow>
     (\<exists>i j c d b hi hj. i < j \<and> j < length (log g) \<and>
        log g ! i = (tid (a1 v), c, b, WRITE, hi) \<and>
        log g ! j = (tid (a2 v), d, a, accessType (a2 v), hj) \<and>
        same_cell a b \<and> tid (a1 v) \<noteq> tid (a2 v) \<and> i \<notin> hj)"

definition writes_inv :: "fasttrack \<Rightarrow> ghost \<Rightarrow> bool" where
  "writes_inv s g \<longleftrightarrow>
     (\<forall>a. write_known g a (var_at s a)) \<and>
     (\<forall>a v. all_violations (races s) a = Some v \<and> accessType (a1 v) = WRITE \<longrightarrow> write_race g a v)"

text \<open>The log only grows.\<close>

definition logs :: "ghost \<Rightarrow> ft_access \<Rightarrow> ghost \<Rightarrow> bool" where
  "logs g x g' \<longleftrightarrow> log g' = log g @ [x]"

lemma write_at_log:
  assumes "logs g (t, c, b, k, h) g'"
  shows "write_at g' a i \<longleftrightarrow> write_at g a i \<or> i = length (log g) \<and> k = WRITE \<and> same_cell a b"
  using assms by (auto simp: logs_def write_at_def nth_append)

lemma write_at_less: "write_at g a i \<Longrightarrow> i < length (log g)"
  by (simp add: write_at_def)

lemma last_write_same:
  assumes "logs g (t, c, b, k, h) g'" "k = READ \<or> \<not> same_cell a b"
  shows "last_write g' a i \<longleftrightarrow> last_write g a i" "write_at g' a i \<longleftrightarrow> write_at g a i"
  using assms(2) by (auto simp: last_write_def write_at_log [OF assms(1)])

lemma names_write_same:
  assumes l: "logs g (t, c, b, k, h) g'" and k: "k = READ \<or> \<not> same_cell a b"
  shows "names_write g' a e \<longleftrightarrow> names_write g a e"
proof -
  have "log g' ! i = log g ! i" if "last_write g a i" for i
    using that l by (auto simp: last_write_def write_at_def logs_def nth_append)
  then have "(last_write g a i \<and> log g' ! i = x) \<longleftrightarrow> (last_write g a i \<and> log g ! i = x)" for i x by auto
  then show ?thesis unfolding names_write_def last_write_same [OF l k] by (metis (no_types, lifting))
qed

lemma names_write_new:
  assumes l: "logs g (t, c, b, WRITE, h) g'" and b: "same_cell a b"
  shows "names_write g' a (createWriteEpoch t c)"
proof -
  have "last_write g' a (length (log g))"
    unfolding last_write_def write_at_log [OF l] using b by (auto dest: write_at_less)
  moreover have "log g' ! length (log g) = (t, c, b, WRITE, h)" using l by (simp add: logs_def)
  ultimately show ?thesis unfolding names_write_def by blast
qed

lemma names_write_cell: "same_cell a b \<Longrightarrow> names_write g a e \<longleftrightarrow> names_write g b e"
proof -
  assume ab: "same_cell a b"
  then have "write_at g a = write_at g b"
    by (auto simp: write_at_def fun_eq_iff) (meson same_cell_sym same_cell_trans)+
  then show ?thesis by (simp add: names_write_def last_write_def)
qed

lemma write_race_log:
  assumes "logs g x g'" "write_race g a v"
  shows "write_race g' a v"
proof -
  have "log g' ! i = log g ! i" if "i < length (log g)" for i
    using that assms(1) by (simp add: logs_def nth_append)
  moreover have "length (log g') = Suc (length (log g))" using assms(1) by (simp add: logs_def)
  ultimately show ?thesis
    using assms(2) unfolding write_race_def by (smt (verit) less_SucI less_trans)
qed

section \<open>What the handlers do to the write epoch\<close>

text \<open>Only reports whose first access is a read are new.\<close>

definition read_reports :: "races \<Rightarrow> races \<Rightarrow> bool" where
  "read_reports r r' \<longleftrightarrow>
     REPORT_DATA_RACES r' = REPORT_DATA_RACES r \<and>
     (\<forall>a v. all_violations r' a = Some v \<longrightarrow> all_violations r a = Some v \<or> accessType (a1 v) = READ)"

lemma read_reports_refl [simp, intro]: "read_reports r r"
  by (simp add: read_reports_def)

lemma read_reports_error [simp, intro]: "read_reports r (error r a u READ t k)"
  by (auto simp: read_reports_def error_def map_insert_apply split: if_splits)

lemma read_reports_trans: "read_reports r s \<Longrightarrow> read_reports s t \<Longrightarrow> read_reports r t"
  unfolding read_reports_def by (metis (no_types, lifting))

lemma setRacy_racy [simp]: "isRacy (setRacy v)"
  by (simp add: isRacy_def setRacy_def)

lemma check_readers_reports:
  "check_readers r a v ts t rs = Some (r', v') \<Longrightarrow> read_reports r r'"
proof (induction r a v ts t rs rule: check_readers.induct)
  case (2 r addr v task curtid k c rest)
  from "2.prems" obtain b where b: "unordered_after task curtid k c = Some b" by (auto simp: bind_eq_Some_conv)
  show ?case
  proof (cases b)
    case True
    then show ?thesis using "2.IH"(1) [OF b] "2.prems" b read_reports_error read_reports_trans by auto
  next
    case False
    then show ?thesis using "2.IH"(2) [OF b] "2.prems" b by auto
  qed
qed simp

lemma ftread_cases:
  assumes f: "ftread h r a v ts t c ptr = Some (h', r', v')"
  obtains (race) "unordered_after ts t (getWriteTaskID (m_wr_epoch v)) (getWriteClock (m_wr_epoch v)) = Some True"
      "r' = error r a (getWriteTaskID (m_wr_epoch v)) WRITE t READ" "isRacy v'"
    | (no_race) "unordered_after ts t (getWriteTaskID (m_wr_epoch v)) (getWriteClock (m_wr_epoch v)) = Some False"
      "r' = r" "m_wr_epoch v' = m_wr_epoch v"
proof -
  from f obtain b where
    b: "unordered_after ts t (getWriteTaskID (m_wr_epoch v)) (getWriteClock (m_wr_epoch v)) = Some b"
    by (auto simp: ftread_def Let_def bind_eq_Some_conv)
  show thesis
  proof (cases b)
    case True
    then show thesis using f b by (intro race) (auto simp: ftread_def Let_def)
  next
    case False
    then show thesis
      using f b by (intro no_race) (auto simp: ftread_def Let_def bind_eq_Some_conv split: if_splits)
  qed
qed

lemma ftwrite_cases:
  assumes f: "ftwrite h r a v ts t c = Some (h', r', v')"
  obtains (race) "m_wr_epoch v > 0"
      "unordered_after ts t (getWriteTaskID (m_wr_epoch v)) (getWriteClock (m_wr_epoch v)) = Some True"
      "r' = error r a (getWriteTaskID (m_wr_epoch v)) WRITE t WRITE" "isRacy v'"
    | (no_race) "m_wr_epoch v > 0 \<Longrightarrow>
        unordered_after ts t (getWriteTaskID (m_wr_epoch v)) (getWriteClock (m_wr_epoch v)) = Some False"
      "read_reports r r'" "m_wr_epoch v' = createWriteEpoch t c"
proof -
  let ?ww = "if m_wr_epoch v > 0
    then unordered_after ts t (getWriteTaskID (m_wr_epoch v)) (getWriteClock (m_wr_epoch v)) else Some False"
  from f obtain b where b: "?ww = Some b" by (auto simp: ftwrite_def Let_def bind_eq_Some_conv)
  show thesis
  proof (cases b)
    case True
    then have w: "m_wr_epoch v > 0" using b by (auto split: if_splits)
    then show thesis using f b True by (intro race) (auto simp: ftwrite_def Let_def)
  next
    case False
    show thesis
    proof (rule no_race)
      show "unordered_after ts t (getWriteTaskID (m_wr_epoch v)) (getWriteClock (m_wr_epoch v)) = Some False"
        if "m_wr_epoch v > 0" using that b False by simp
      have rest: "read_reports r r' \<and> m_wr_epoch v' = createWriteEpoch t c"
      proof (cases "isReadVector v")
        case True
        then show ?thesis
          using f b False check_readers_reports
          by (auto simp: ftwrite_def Let_def bind_eq_Some_conv)
      next
        case nv: False
        show ?thesis
          using f b False nv by (auto simp: ftwrite_def Let_def bind_eq_Some_conv split: if_split_asm)
      qed
      then show "read_reports r r'" "m_wr_epoch v' = createWriteEpoch t c" by blast+
    qed
  qed
qed

section \<open>The write check is exact\<close>

lemma last_write_unique: "last_write g a i \<Longrightarrow> last_write g a j \<Longrightarrow> i = j"
  unfolding last_write_def by (meson le_antisym)

lemma unordered_zero: "unordered_after ts t 0 0 = Some False"
  by (simp add: unordered_after_def element_def at_vc_def MAX_NUM_TASKS_def push_bit_eq_mult)

lemma write_check:
  assumes tr: "tree_ok m ctr (dead g)" and pa: "past_ok m lm g n" and n: "n < 2 ^ 40"
    and t: "m t = Some ts" "t \<notin> dead g" and e: "names_write g a e"
  shows "unordered_after ts t (getWriteTaskID e) (getWriteClock e) =
    Some (\<exists>i. last_write g a i \<and> i \<notin> past g t)"
  using e unfolding names_write_def
proof (elim disjE exE conjE)
  assume "e = 0" and none: "\<forall>i. \<not> write_at g a i"
  then show ?thesis using unordered_zero [of ts t] by (simp add: last_write_def)
next
  fix i u c b h assume l: "last_write g a i" and x: "log g ! i = (u, c, b, WRITE, h)"
    and e: "e = createWriteEpoch u c"
  have i: "i < length (log g)" using l by (simp add: last_write_def write_at_def)
  note ft = entry_fits(1) [OF tr pa n i x]
  have "(\<exists>j. last_write g a j \<and> j \<notin> past g t) \<longleftrightarrow> i \<notin> past g t"
    using l last_write_unique by blast
  then show ?thesis
    using unordered_after_past [OF tr pa t i x] epoch_clock(1) [OF ft] epoch_task(1) [OF ft] by (simp add: e)
qed

text \<open>When the check answers yes, the logged write and the access make a race.\<close>

lemma write_check_race:
  assumes tr: "tree_ok m ctr (dead g)" and pa: "past_ok m lm g n" and n: "n < 2 ^ 40"
    and t: "m t = Some ts" "t \<notin> dead g" and e: "names_write g a e"
    and u: "unordered_after ts t (getWriteTaskID e) (getWriteClock e) = Some True"
    and l: "logs g (t, c, a, k, past g t) g'"
    and v: "v = \<lparr>a1 = \<lparr>tid = getWriteTaskID e, accessType = WRITE\<rparr>, a2 = \<lparr>tid = t, accessType = k\<rparr>\<rparr>"
  shows "write_race g' a v"
proof -
  obtain i where i: "last_write g a i" "i \<notin> past g t"
    using write_check [OF tr pa n t e] u by auto
  from e i(1) obtain u d b h where x: "log g ! i = (u, d, b, WRITE, h)" "e = createWriteEpoch u d"
    unfolding names_write_def last_write_def using last_write_unique [OF i(1)] by (metis last_write_def)
  have len: "i < length (log g)" using i(1) by (simp add: last_write_def write_at_def)
  note ft = entry_fits(1) [OF tr pa n len x(1)]
  have tu: "getWriteTaskID e = u" using epoch_task(1) [OF ft] x(2) by simp
  have ne: "u \<noteq> t" using u tu by (auto simp: unordered_after_def)
  have cell: "same_cell a b" using i(1) x(1) by (auto simp: last_write_def write_at_def)
  have "log g' ! i = (u, d, b, WRITE, h)" "log g' ! length (log g) = (t, c, a, k, past g t)"
    using l x(1) len by (auto simp: logs_def nth_append)
  moreover have "length (log g) < length (log g')" using l by (simp add: logs_def)
  ultimately show ?thesis
    unfolding write_race_def using len cell i(2) ne tu v
    by (intro exI [of _ i] exI [of _ "length (log g)"] exI [of _ d] exI [of _ c] exI [of _ b]
        exI [of _ h] exI [of _ "past g t"]) simp
qed

lemma error_new:
  assumes "all_violations (error r a u k t k') b = Some v"
  shows "all_violations r b = Some v \<or>
    b = a \<and> v = \<lparr>a1 = \<lparr>tid = u, accessType = k\<rparr>, a2 = \<lparr>tid = t, accessType = k'\<rparr>\<rparr>"
  using assms by (auto simp: error_def map_insert_apply split: if_splits)

text \<open>What an access may add to the reports, and what it leaves in the cell.\<close>

definition write_reports :: "ghost \<Rightarrow> ADDRINT \<Rightarrow> races \<Rightarrow> races \<Rightarrow> bool" where
  "write_reports g a r r' \<longleftrightarrow>
     (\<forall>b v. all_violations r' b = Some v \<and> accessType (a1 v) = WRITE \<longrightarrow>
        all_violations r b = Some v \<or> b = a \<and> write_race g a v)"

lemma write_reports_refl [simp, intro]: "write_reports g a r r"
  by (simp add: write_reports_def)

lemma read_write_reports [intro]: "read_reports r r' \<Longrightarrow> write_reports g a r r'"
  unfolding read_reports_def write_reports_def by (metis AccessType.distinct(1))

lemma error_write_reports:
  "write_race g a \<lparr>a1 = \<lparr>tid = u, accessType = k\<rparr>, a2 = \<lparr>tid = t, accessType = k'\<rparr>\<rparr> \<Longrightarrow>
     write_reports g a r (error r a u k t k')"
  unfolding write_reports_def by (auto dest!: error_new)

lemma ftread_known:
  assumes tr: "tree_ok m ctr (dead g)" and pa: "past_ok m lm g n" and n: "n < 2 ^ 40"
    and t: "m t = Some ts" "t \<notin> dead g" and nm: "names_write g a (m_wr_epoch v)"
    and l: "logs g (t, c, a, READ, past g t) g'"
    and f: "ftread h r a v ts t c ptr = Some (h', r', v')"
  shows "write_known g' a (Some v') \<and> write_reports g' a r r'"
  using f
proof (cases rule: ftread_cases)
  case race
  then show ?thesis
    using error_write_reports [OF write_check_race [OF tr pa n t nm race(1) l refl]]
    by (simp add: write_known_def)
next
  case no_race
  then show ?thesis using nm names_write_same [OF l] by (auto simp: write_known_def)
qed

lemma ftwrite_known:
  assumes tr: "tree_ok m ctr (dead g)" and pa: "past_ok m lm g n" and n: "n < 2 ^ 40"
    and t: "m t = Some ts" "t \<notin> dead g" and nm: "names_write g a (m_wr_epoch v)"
    and l: "logs g (t, c, a, WRITE, past g t) g'"
    and f: "ftwrite h r a v ts t c = Some (h', r', v')"
  shows "write_known g' a (Some v') \<and> write_reports g' a r r'"
  using f
proof (cases rule: ftwrite_cases)
  case race
  then show ?thesis
    using error_write_reports [OF write_check_race [OF tr pa n t nm race(2) l refl]]
    by (simp add: write_known_def)
next
  case no_race
  then show ?thesis using names_write_new [OF l] by (auto simp: write_known_def)
qed

text \<open>The fast path of a write: the same task at the same clock.\<close>

lemma same_epoch_known:
  assumes tr: "tree_ok m ctr (dead g)" and pa: "past_ok m lm g n" and n: "n < 2 ^ 40"
    and nm: "names_write g a e" and e: "e > 0" "getWriteTaskID e = t" "getWriteClock e = c"
    and l: "logs g (t, c, a, WRITE, h) g'"
  shows "names_write g' a e"
proof -
  from nm e(1) obtain i u d b h2 where x: "last_write g a i" "log g ! i = (u, d, b, WRITE, h2)"
    "e = createWriteEpoch u d" unfolding names_write_def by auto
  have len: "i < length (log g)" using x(1) by (simp add: last_write_def write_at_def)
  note ft = entry_fits(1) [OF tr pa n len x(2)]
  have "u = t" "d = c" using e(2,3) epoch_task(1) [OF ft] epoch_clock(1) [OF ft] x(3) by auto
  then show ?thesis using names_write_new [OF l] x(3) by simp
qed

lemma access_var_known:
  assumes tr: "tree_ok m ctr (dead g)" and pa: "past_ok m lm g n" and n: "n < 2 ^ 40"
    and t: "m t = Some ts" "t \<notin> dead g" and wk: "write_known g a vs"
    and l: "logs g (t, c, a, k, past g t) g'"
    and f: "access_var h r a vs ts t c k ptr = Some (h', r', vs')"
  shows "write_known g' a vs' \<and> write_reports g' a r r'"
proof (cases vs)
  case None
  show ?thesis
  proof (cases k)
    case READ
    have "names_write g' a 0"
      using wk None last_write_same(2) [OF l, of a] READ by (simp add: write_known_def names_write_def)
    then show ?thesis using f None READ by (auto simp: access_var_def write_known_def new_VarState_def)
  next
    case WRITE
    then show ?thesis
      using f None names_write_new [OF l [unfolded WRITE]]
      by (auto simp: access_var_def write_known_def new_VarState_def)
  qed
next
  case (Some v)
  show ?thesis
  proof (cases "isRacy v")
    case True
    then show ?thesis using f Some by (auto simp: access_var_def write_known_def)
  next
    case False
    then have nm: "names_write g a (m_wr_epoch v)" using wk Some by (simp add: write_known_def)
    show ?thesis
    proof (cases k)
      case READ
      have "names_write g' a (m_wr_epoch v)" using nm names_write_same [OF l] READ by blast
      then show ?thesis
        using f Some False READ ftread_known [OF tr pa n t nm l [unfolded READ]]
        by (auto simp: access_var_def bind_eq_Some_conv write_known_def split: if_split_asm)
    next
      case WRITE
      note l' = l [unfolded WRITE]
      show ?thesis
        using f Some False WRITE ftwrite_known [OF tr pa n t nm l'] same_epoch_known [OF tr pa n nm _ _ _ l']
        by (auto simp: access_var_def bind_eq_Some_conv write_known_def split: if_split_asm)
    qed
  qed
qed

section \<open>The verdict on one access\<close>

lemma error_reports: "REPORT_DATA_RACES r \<Longrightarrow> a \<in> dom (all_violations (error r a u k t k'))"
  by (auto simp: error_def map_insert_apply)

lemma access_var_slow:
  assumes "\<not> isRacy v" "access_var h r a (Some v) ts t c k ptr = Some (h', r', vs')"
    and "k = READ \<Longrightarrow> \<not> (m_rd_epoch v > 0 \<and> \<not> isReadVector v \<and>
           t = getReadEpochTaskID (m_rd_epoch v) \<and> c = getReadEpochClock (m_rd_epoch v))"
  obtains (read) v' where "vs' = Some v'" "k = READ" "ftread h r a v ts t c ptr = Some (h', r', v')"
    | (same_write) "vs' = Some v" "k = WRITE" "getWriteTaskID (m_wr_epoch v) = t" "m_wr_epoch v > 0"
    | (slow_write) v' where "vs' = Some v'" "k = WRITE" "ftwrite h r a v ts t c = Some (h', r', v')"
proof (cases k)
  case READ
  then show thesis
    using assms by (intro read [of "the vs'"]) (auto simp: access_var_def bind_eq_Some_conv split: if_split_asm)
next
  case WRITE
  show thesis
  proof (cases "m_wr_epoch v > 0 \<and> getWriteTaskID (m_wr_epoch v) = t \<and> getWriteClock (m_wr_epoch v) = c")
    case True
    then show thesis using assms(1,2) WRITE by (intro same_write) (auto simp: access_var_def)
  next
    case False
    then show thesis
      using assms(1,2) WRITE by (intro slow_write [of "the vs'"]) (auto simp: access_var_def bind_eq_Some_conv split: if_split_asm)
  qed
qed

lemma access_check:
  assumes tr: "tree_ok m ctr (dead g)" and pa: "past_ok m lm g n" and n: "n < 2 ^ 40"
    and t: "m t = Some ts" "t \<notin> dead g" and nm: "names_write g a (m_wr_epoch v)" and c: "fits t c"
    and nr: "\<not> isRacy v"
    and slow: "k = READ \<Longrightarrow> \<not> (m_rd_epoch v > 0 \<and> \<not> isReadVector v \<and>
           t = getReadEpochTaskID (m_rd_epoch v) \<and> c = getReadEpochClock (m_rd_epoch v))"
    and f: "access_var h r a (Some v) ts t c k ptr = Some (h', r', vs')"
  shows "\<exists>v'. vs' = Some v' \<and> (isRacy v' \<longleftrightarrow> (\<exists>i. last_write g a i \<and> i \<notin> past g t)) \<and>
    (isRacy v' \<and> REPORT_DATA_RACES r \<longrightarrow> a \<in> dom (all_violations r'))"
proof -
  note chk = write_check [OF tr pa n t nm]
  show ?thesis
  proof (cases rule: access_var_slow [OF nr f slow, case_names assumed read same_write slow_write])
    case assumed
    then show ?case .
  next
    case (read v')
    from read(3) show ?thesis
    proof (cases rule: ftread_cases)
      case race
      then show ?thesis using chk read(1) error_reports [of r a] by auto
    next
      case no_race
      then show ?thesis using chk read(1) nr by (auto simp: isRacy_def)
    qed
  next
    case same_write
    then show ?thesis using chk nr by (auto simp: unordered_after_def)
  next
    case (slow_write v')
    from slow_write(3) show ?thesis
    proof (cases rule: ftwrite_cases)
      case race
      then show ?thesis using chk slow_write(1) error_reports [of r a] by auto
    next
      case no_race
      have "unordered_after ts t (getWriteTaskID (m_wr_epoch v)) (getWriteClock (m_wr_epoch v)) = Some False"
        using no_race(1) unordered_zero [of ts t] by (cases "m_wr_epoch v = 0") (auto simp: word_gt_0)
      then have "\<not> (\<exists>i. last_write g a i \<and> i \<notin> past g t)" using chk by simp
      then show ?thesis using slow_write(1) no_race(3) epoch_not_racy [OF c] by (simp add: isRacy_def)
    qed
  qed
qed

section \<open>Every reachable state\<close>

lemma RecordMem_cell:
  assumes "RecordMem s t a k ptr = Some s'" "find_task (tasks s) t = Some (ts, m)"
  obtains h r vs where
    "access_var (read_vectors s) (races s) a (var_at s a) ts t (m_vector_clock ts t) k ptr = Some (h, r, vs)"
    "t < MAX_NUM_TASKS" "races s' = r" "\<forall>b. var_at s' b = (if same_cell a b then vs else var_at s b)"
proof -
  from assms obtain h r vs where
    *: "access_var (read_vectors s) (races s) a (var_at s a) ts t (m_vector_clock ts t) k ptr = Some (h, r, vs)"
    "t < MAX_NUM_TASKS" "races s' = r"
    "shadow_space s' = put_cell None (touch_page None (shadow_space s) (primary_index a)) a vs"
    by (auto simp: RecordMem_def bind_eq_Some_conv Let_def var_at_def cell_at_touch
        element_def at_vc_def split: if_split_asm)
  have "\<forall>b. var_at s' b = (if same_cell a b then vs else var_at s b)"
    by (simp add: var_at_def *(4) cell_at_put cell_at_touch)
  with *(1-3) show thesis by (rule that)
qed

lemma find_task_clock:
  assumes "find_task (tasks s) t = Some (ts, m)"
  shows "m_vector_clock ts t = now s t" "m t = Some ts"
  using assms
  by (auto simp: find_task_def now_def bind_eq_Some_conv update_vc_def Let_def zero_vc_def
      split: option.splits if_splits)

lemma write_known_cell: "same_cell a b \<Longrightarrow> write_known g a vs \<longleftrightarrow> write_known g b vs"
proof -
  assume ab: "same_cell a b"
  then have "write_at g a = write_at g b"
    by (auto simp: write_at_def fun_eq_iff) (meson same_cell_sym same_cell_trans)+
  then show ?thesis by (simp add: write_known_def names_write_def last_write_def split: option.split)
qed

lemma write_known_log:
  assumes "logs g (t, c, a, k, h) g'" "\<not> same_cell a b" "write_known g b vs"
  shows "write_known g' b vs"
proof -
  have n: "\<not> same_cell b a" using assms(2) same_cell_sym by blast
  then show ?thesis
    using assms(3) names_write_same [OF assms(1), of b] last_write_same(2) [OF assms(1), of b]
    by (auto simp: write_known_def split: option.splits)
qed

lemma writes_inv_access:
  assumes inv: "hb_inv s g n" and n: "n < 2 ^ 40 - 1" and w: "writes_inv s g"
    and p: "t \<notin> dead g" "t = 0 \<or> tasks s t \<noteq> None" and f: "RecordMem s t a k ptr = Some s'"
  shows "writes_inv s' (ft_ghost s g (FtAccess t a k ptr))"
proof -
  let ?g = "ft_ghost s g (FtAccess t a k ptr)"
  from f obtain ts m where ft: "find_task (tasks s) t = Some (ts, m)"
    by (auto simp: RecordMem_def bind_eq_Some_conv)
  have known: "t = 0 \<or> t \<in> dom (tasks s)" using p(2) by auto
  note ti = find_task_inv [OF hb_tree [OF inv] hb_clocks [OF inv] hb_past [OF inv] ft known]
  obtain h r vs where rm:
    "access_var (read_vectors s) (races s) a (var_at s a) ts t (m_vector_clock ts t) k ptr = Some (h, r, vs)"
    "t < MAX_NUM_TASKS" "races s' = r" "\<forall>b. var_at s' b = (if same_cell a b then vs else var_at s b)"
    by (rule RecordMem_cell [OF f ft])
  have l: "logs g (t, m_vector_clock ts t, a, k, past g t) ?g"
    using find_task_clock [OF ft] by (simp add: logs_def ft_ghost_def)
  have n1: "n + 1 < 2 ^ 40" using n by simp
  have wa: "write_known g a (var_at s a)" using w by (simp add: writes_inv_def)
  note step = access_var_known [OF ti(1,3) n1 ti(4) p(1) wa l rm(1)]
  show ?thesis
    unfolding writes_inv_def
  proof (intro conjI allI impI)
    fix b
    show "write_known ?g b (var_at s' b)"
    proof (cases "same_cell a b")
      case True
      then show ?thesis using step write_known_cell [OF True] by (simp add: rm(4))
    next
      case False
      then show ?thesis using write_known_log [OF l False] w by (simp add: rm(4) writes_inv_def)
    qed
  next
    fix b v assume v: "all_violations (races s') b = Some v \<and> accessType (a1 v) = WRITE"
    then have "all_violations (races s) b = Some v \<or> b = a \<and> write_race ?g a v"
      using step rm(3) by (auto simp: write_reports_def)
    then show "write_race ?g b v" using w v write_race_log [OF l] by (auto simp: writes_inv_def)
  qed
qed

lemma writes_inv_frame:
  assumes "writes_inv s g" "log g' = log g" "shadow_space s' = shadow_space s" "races s' = races s"
  shows "writes_inv s' g'"
proof -
  have w: "write_at g' = write_at g" "write_race g' = write_race g"
    by (simp_all add: write_at_def write_race_def assms(2) fun_eq_iff)
  then have "names_write g' = names_write g"
    by (simp add: names_write_def last_write_def assms(2) fun_eq_iff)
  then have "write_known g' a vs = write_known g a vs" for a vs by (simp add: write_known_def w split: option.split)
  then show ?thesis using assms by (simp add: writes_inv_def var_at_def w)
qed

lemma ft_step_frame:
  assumes "ft_step s e = Some s'" "\<And>t a k p. e \<noteq> FtAccess t a k p"
  shows "shadow_space s' = shadow_space s" "races s' = races s" "read_vectors s' = read_vectors s"
proof -
  have cur: "shadow_space s2 = shadow_space s1 \<and> races s2 = races s1 \<and> read_vectors s2 = read_vectors s1"
    if "get_cur_tid s1 th = (k, s2)" for s1 s2 th k using get_cur_tid_frame [OF that] by simp
  have "shadow_space s' = shadow_space s \<and> races s' = races s \<and> read_vectors s' = read_vectors s"
  proof (cases e)
    case (FtSpawn th t tp)
    then show ?thesis using assms(1) by (auto simp: spawn_def Let_def bind_eq_Some_conv split: prod.splits dest!: cur)
  next
    case (FtSpawnRoot th t)
    then show ?thesis using assms(1) by (auto simp: spawn_root_def Let_def bind_eq_Some_conv split: prod.splits dest!: cur)
  next
    case (FtWait th)
    then show ?thesis using assms(1) by (auto simp: Capturewait_for_all_def bind_eq_Some_conv split: prod.splits dest!: cur)
  qed (use assms in \<open>auto simp: exec_begin_def exec_end_def CaptureLockAcquire_def CaptureLockRelease_def
      Let_def bind_eq_Some_conv\<close>)
  then show "shadow_space s' = shadow_space s" "races s' = races s" "read_vectors s' = read_vectors s" by blast+
qed

lemma ft_ghost_log: "(\<And>t a k p. e \<noteq> FtAccess t a k p) \<Longrightarrow> log (ft_ghost s g e) = log g"
  by (cases e) (auto simp: ft_ghost_def Let_def)

lemma writes_inv_step:
  assumes inv: "hb_inv s g n" and n: "n < 2 ^ 40 - 1" and w: "writes_inv s g"
    and f: "ft_traced (s, g) e = Some (s', g')"
  shows "writes_inv s' g'"
proof -
  from f have d: "ft_disciplined s g e" and st: "ft_step s e = Some s'" and g': "g' = ft_ghost s g e"
    by (auto simp: ft_traced_def bind_eq_Some_conv split: if_splits)
  show ?thesis
  proof (cases "\<exists>t a k p. e = FtAccess t a k p")
    case True
    then obtain t a k p where e: "e = FtAccess t a k p" by blast
    show ?thesis unfolding g' e
      by (rule writes_inv_access [OF inv n w]) (use d st e in \<open>simp_all add: ft_disciplined_def\<close>)
  next
    case False
    then have ne: "e \<noteq> FtAccess t a k p" for t a k p by blast
    show ?thesis
      using writes_inv_frame [OF w _ ft_step_frame(1,2) [OF st ne]] ft_ghost_log [OF ne] g' by blast
  qed
qed

lemma writes_inv_init: "writes_inv (ft_init r) ghost_init"
  by (simp add: writes_inv_def write_known_def var_at_def ft_init_def ghost_init_def write_at_def)

lemma run_writes_inv:
  assumes "run ft_traced (s, g) es = Some (s', g')" "hb_inv s g n" "writes_inv s g" "n + length es < 2 ^ 40"
  shows "writes_inv s' g'"
  using assms
proof (induction es arbitrary: s g n)
  case (Cons e es)
  from Cons.prems(1) obtain s1 g1 where 1: "ft_traced (s, g) e = Some (s1, g1)"
    "run ft_traced (s1, g1) es = Some (s', g')" by (auto simp: bind_eq_Some_conv)
  have "hb_inv s1 g1 (n + 1)" using ft_traced_inv [OF Cons.prems(2) _ 1(1)] Cons.prems(4) by simp
  moreover have "writes_inv s1 g1" using writes_inv_step [OF Cons.prems(2) _ Cons.prems(3) 1(1)] Cons.prems(4) by simp
  ultimately show ?case using Cons.IH [OF 1(2), of "n + 1"] Cons.prems(4) by simp
qed simp

lemma reachable_writes_inv:
  assumes "ft_reachable s g"
  shows "writes_inv s g"
proof -
  from assms obtain r es where es: "length es < 2 ^ 40 - 1" "run ft_traced (ft_init r, ghost_init) es = Some (s, g)"
    unfolding ft_reachable_def by blast
  show ?thesis by (rule run_writes_inv [OF es(2) hb_inv_init writes_inv_init]) (use es(1) in simp)
qed

end
