(* ===== verification/FtProps.thy ===== *)
theory FtProps
  imports FtWrites
begin

text \<open>
  The properties of the FastTrack detector: what its clocks and its write check decide, what
  a wait does, and three runs on which the read side does not do what it means to do.
\<close>

section \<open>Evaluating runs\<close>

lemma MAX_NUM_TASKS_val: "MAX_NUM_TASKS = 8388607" by (simp add: MAX_NUM_TASKS_def push_bit_eq_mult)

lemma epoch_eval:
  assumes "t < 8388607" "c < 1099511627776"
  shows "getWriteTaskID (createWriteEpoch t c) = t" "getWriteClock (createWriteEpoch t c) = c"
    "getReadEpochTaskID (createReadEpoch t c) = t" "getReadEpochClock (createReadEpoch t c) = c"
    "createWriteEpoch t c = EPOCH_BIT \<longleftrightarrow> False" "createWriteEpoch t c > 0 \<longleftrightarrow> t > 0 \<or> c > 0"
    "createReadEpoch t c > 0 \<longleftrightarrow> t > 0 \<or> c > 0"
proof -
  have f: "fits t c" using fits_less [of t c] assms by (simp add: MAX_NUM_TASKS_val)
  show "getWriteTaskID (createWriteEpoch t c) = t" "getWriteClock (createWriteEpoch t c) = c"
    "getReadEpochTaskID (createReadEpoch t c) = t" "getReadEpochClock (createReadEpoch t c) = c"
    "createWriteEpoch t c = EPOCH_BIT \<longleftrightarrow> False"
    using epoch_task [OF f] epoch_clock [OF f] epoch_not_racy [OF f] by (simp_all add: createReadEpoch_eq)
  show "createWriteEpoch t c > 0 \<longleftrightarrow> t > 0 \<or> c > 0" "createReadEpoch t c > 0 \<longleftrightarrow> t > 0 \<or> c > 0"
    using epoch_zero [OF f] by (auto simp: createReadEpoch_eq word_gt_0)
qed

lemma epoch_bit_nonzero [simp]: "0 \<noteq> EPOCH_BIT" "EPOCH_BIT \<noteq> 0"
  by (simp_all add: EPOCH_BIT_def push_bit_eq_mult)

lemma shadow_at_64:
  "primary_index 64 = 0" "page_offset 64 = 64"
  "cell_at z sh 64 = (case sh 0 of None \<Rightarrow> z | Some p \<Rightarrow> p 64)"
  "put_cell z sh 64 c = sh(0 \<mapsto> (case sh 0 of None \<Rightarrow> (\<lambda>_. z) | Some p \<Rightarrow> p)(64 := c))"
  "touch_page z sh 0 = (if sh 0 = None then sh(0 \<mapsto> (\<lambda>_. z)) else sh)"
  by (simp_all add: primary_index_def page_offset_def cell_at_def touch_page_def put_cell_def
      Let_def split: option.splits)

lemma descendants_Cons_eval:
  "m c = Some st \<Longrightarrow> descendants m (c # cs) = insert c (descendants m (m_child st) \<union> descendants m cs)"
  using descendants_Cons [of m c cs] descendants_single [of m c st] by auto

lemmas ft_eval = ft_init_def ft_traced_def ft_disciplined_def ft_ghost_def ghost_init_def
  cur_task_def now_def children_def spawn_root_def RecordMem_def find_task_def update_vc_def at_vc_def tick_vc_def
  copy_vc_def element_def get_cur_tid_def find_or_new_def fork_def new_TaskState_def new_VarState_def
  access_var_def isRacy_def setRacy_def isReadVector_def clearReadVector_def ftread_def ftwrite_def
  unordered_after_def createReadVector_def umap_insert_def Capturewait_for_all_def
  Capturewait_for_all_task_def join_children.simps join_child_def clear_children_def join_vc_def
  MAX_NUM_TASKS_val zero_vc_def error_def Let_def epoch_eval shadow_at_64 descendants_Cons_eval map_insert_def






text \<open>Task 1 writes; task 0 may write at the same time.\<close>

definition write_client :: "ft_event list" where
  "write_client = [FtSpawnRoot 0 1, FtAccess 1 64 WRITE 0]"

lemma write_client_run:
  "\<exists>s g ts v s'. ft_reachable s g \<and> tasks s 0 = Some ts \<and> m_child ts = [1] \<and> cur_task s 0 = 0 \<and> dead g = {} \<and>
     log g = [(1, 1, 64, WRITE, {})] \<and> past g 0 = {} \<and> var_at s 64 = Some v \<and> \<not> isRacy v \<and>
     RecordMem s 0 64 WRITE 0 = Some s' \<and> REPORT_DATA_RACES (races s)"
proof -
  have "\<exists>s g ts v s'. run ft_traced (ft_init True, ghost_init) write_client = Some (s, g) \<and>
     tasks s 0 = Some ts \<and> m_child ts = [1] \<and> cur_task s 0 = 0 \<and> dead g = {} \<and>
     log g = [(1, 1, 64, WRITE, {})] \<and> past g 0 = {} \<and> var_at s 64 = Some v \<and> \<not> isRacy v \<and>
     RecordMem s 0 64 WRITE 0 = Some s' \<and> REPORT_DATA_RACES (races s)"
    by (simp add: write_client_def ft_eval var_at_def cong: eval_cong split del: if_split)
  moreover have "length write_client < 2 ^ 40 - 1" by (simp add: write_client_def)
  ultimately show ?thesis unfolding ft_reachable_def by blast
qed

lemma write_race_run:
  "\<exists>s g. ft_reachable s g \<and>
     all_violations (races s) 64 = Some \<lparr>a1 = \<lparr>tid = 1, accessType = WRITE\<rparr>, a2 = \<lparr>tid = 0, accessType = WRITE\<rparr>\<rparr>"
proof -
  have "\<exists>s g. run ft_traced (ft_init True, ghost_init) (write_client @ [FtAccess 0 64 WRITE 0]) = Some (s, g) \<and>
     all_violations (races s) 64 = Some \<lparr>a1 = \<lparr>tid = 1, accessType = WRITE\<rparr>, a2 = \<lparr>tid = 0, accessType = WRITE\<rparr>\<rparr>"
    by (simp add: write_client_def ft_eval cong: eval_cong split del: if_split)
  moreover have "length (write_client @ [FtAccess 0 64 WRITE 0]) < 2 ^ 40 - 1" by (simp add: write_client_def)
  ultimately show ?thesis unfolding ft_reachable_def by blast
qed

section \<open>Correctness\<close>







text \<open>
  C23: a wait returns, however deep the tree of children is, and leaves the waiting task
  without children and with a clock that knows exactly what it or a descendant knew before;
  tasks outside the subtree keep their state.
\<close>

theorem ft_wait_joins:
  assumes "ft_reachable s g" "cur_task s th = p" "tasks s p = Some st" "p \<notin> dead g"
  shows "\<exists>s' st'. wait_for_all Some s th = Some s' \<and> tasks s' p = Some st' \<and> m_child st' = [] \<and>
    (\<forall>i c. i < MAX_NUM_TASKS \<longrightarrow>
       (c \<le> m_vector_clock st' i \<longleftrightarrow>
          c \<le> m_vector_clock st i \<or>
          (\<exists>d \<in> descendants (tasks s) (m_child st). c \<le> clock (tasks s) d i))) \<and>
    (\<forall>a. a \<notin> insert p (descendants (tasks s) (m_child st)) \<longrightarrow> tasks s' a = tasks s a)"
proof -
  obtain n where inv: "hb_inv s g n" by (rule reachable_hb_inv [OF assms(1)])
  let ?D = "descendants (tasks s) (m_child st)"
  obtain m' where m': "Capturewait_for_all_task (tasks s) p = Some m'" and j: "joined (tasks s) m' p ?D"
    and e: "\<exists>st'. m' p = Some st' \<and> m_child st' = []"
    by (rule Capturewait_joined [OF tree_younger [OF hb_tree [OF inv]] assms(3)])
  obtain k s1 where gc: "get_cur_tid s th = (k, s1)" by fastforce
  note fr = get_cur_tid_frame [OF gc]
  from e obtain st' where st': "m' p = Some st'" "m_child st' = []" by blast
  have ret: "wait_for_all Some s th = Some (s1\<lparr>taskid_taskstate_map := m'\<rparr>)"
    using gc fr(1,2) m' assms(2) by (simp add: wait_for_all_def Capturewait_for_all_def)
  have clk: "clock m' p = m_vector_clock st'" "clock (tasks s) p = m_vector_clock st"
    using st'(1) assms(3) by (simp_all add: clock_def)
  show ?thesis
    using ret st' joined_clock [OF j] joined_other [OF j]
    by (intro exI [of _ "s1\<lparr>taskid_taskstate_map := m'\<rparr>"] exI [of _ st']) (auto simp: knows_def clk)
qed

theorem ft_wait_joins_witness:
  "\<exists>s s' st'. wait_for_all Some s 0 = Some s' \<and> tasks s' 0 = Some st' \<and> m_child st' = []"
proof -
  obtain s g ts where r: "ft_reachable s g" "tasks s 0 = Some ts" "cur_task s 0 = 0" "dead g = {}"
    using write_client_run by blast
  show ?thesis using ft_wait_joins [OF r(1,3,2)] r(4) by auto
qed

text \<open>
  A spawn returns as long as task identifiers are left; the new task hangs below the
  spawner, starts with the spawner's clock and ticks its own entry to 1, and the spawner
  ticks its own entry; every other task keeps its clock.
\<close>

lemma ft_spawn_forks_the_clock:
  assumes "ft_reachable s g" "task_id_ctr s + 1 < MAX_NUM_TASKS"
  shows "\<exists>s'. spawn_root s th root = Some s' \<and> task_id_ctr s' = task_id_ctr s + 1 \<and>
    (\<exists>st. tasks s' (task_id_ctr s + 1) = Some st \<and> parent st = Some (cur_task s th) \<and>
       mytask st = Some root \<and> m_child st = []) \<and>
    (\<forall>i < MAX_NUM_TASKS. clock (tasks s') (task_id_ctr s + 1) i =
       (if i = task_id_ctr s + 1 then 1 else clock (tasks s) (cur_task s th) i)) \<and>
    clock (tasks s') (cur_task s th) =
      (clock (tasks s) (cur_task s th))(cur_task s th := clock (tasks s) (cur_task s th) (cur_task s th) + 1) \<and>
    (\<forall>a. a \<noteq> task_id_ctr s + 1 \<and> a \<noteq> cur_task s th \<longrightarrow> clock (tasks s') a = clock (tasks s) a)"
proof -
  obtain n where inv: "hb_inv s g n" by (rule reachable_hb_inv [OF assms(1)])
  note tr = hb_tree [OF inv] and cl = hb_clocks [OF inv]
  let ?c = "task_id_ctr s + 1" and ?p = "cur_task s th"
  let ?m = "find_or_new (tasks s) ?p"
  have known: "?p = 0 \<or> ?p \<in> dom (tasks s)" by (rule cur_task_known [OF hb_stacks [OF inv]])
  note fn = find_or_new_facts [OF known]
  obtain st where st: "?m ?p = Some st" "m_taskid st = ?p"
    using fn(3,4) tree_id [OF tr] by (fastforce simp: new_TaskState_def)
  have lt: "task_id_ctr s < ?c" using inc_less(1) [OF MAX_NUM_TASKS_unat [OF tree_ctr [OF tr]]] .
  have old: "a < ?c" if "a = 0 \<or> a \<in> dom (tasks s)" for a
    using that tree_le [OF tr, of a] lt by (metis le_less_trans word_zero_le)
  have c: "?c \<notin> dom (tasks s)" "?c \<noteq> ?p" "?p < MAX_NUM_TASKS"
    using old [of ?c] old [OF known] assms(2) by (auto intro: less_trans)
  obtain m' st' where m': "fork ?m ?p ?c root = Some m'" "m' ?c = Some st'" "parent st' = Some ?p"
    "mytask st' = Some root" "m_child st' = []"
    using fork_returns [where m = "find_or_new (tasks s) (cur_task s th)", OF st c(2) assms(2) c(3)] by blast
  have cm: "?c \<notin> dom ?m" using c fn(3) by simp
  note eff = fork_effect [where m = "find_or_new (tasks s) (cur_task s th)", OF m'(1) st cm]
  have new: "clock (tasks s) ?p ?c = 0" by (rule clocks_unborn(1) [OF cl assms(2) c(1)])
  obtain k s1 where gc: "get_cur_tid (s\<lparr>task_id_ctr := ?c\<rparr>) th = (k, s1)" by fastforce
  note fr = get_cur_tid_frame [OF gc]
  have ret: "spawn_root s th root = Some (s1\<lparr>taskid_taskstate_map := m'\<rparr>)"
    using gc fr(1,2) m'(1) by (simp add: spawn_root_def)
  show ?thesis
  proof (intro exI [of _ "s1\<lparr>taskid_taskstate_map := m'\<rparr>"] conjI)
    show "\<forall>i < MAX_NUM_TASKS. clock (tasks (s1\<lparr>taskid_taskstate_map := m'\<rparr>)) ?c i =
       (if i = ?c then 1 else clock (tasks s) ?p i)" using eff(6) new by (simp add: fn(1))
  qed (use ret fr(4) m' eff(7,8) in \<open>simp_all add: fn(1)\<close>)
qed

text \<open>
  A lock hands over what its last holder knew: after a release of \<open>l\<close> by task \<open>t\<close>, an
  acquire of \<open>l\<close> by any task \<open>u\<close>, in any later state in which \<open>l\<close> still holds that clock,
  makes each entry of \<open>u\<close>'s clock the maximum of its own and the releasing task's, and the
  release ticks the releasing task's own entry and no other.
\<close>

lemma ft_lock_hands_over:
  assumes "ft_reachable s g" "CaptureLockRelease s t l = Some s1" "lockmap s2 l = lockmap s1 l"
    and "CaptureLockAcquire s2 u l = Some s3" "i < MAX_NUM_TASKS"
  shows "clock (tasks s3) u i = max (clock (tasks s2) u i) (clock (tasks s) t i) \<and>
    clock (tasks s1) t i = (if i = t then clock (tasks s) t i + 1 else clock (tasks s) t i)"
proof -
  obtain n where inv: "hb_inv s g n" by (rule reachable_hb_inv [OF assms(1)])
  from assms(2) obtain st lvc vc where st: "tasks s t = Some st"
    "tick_vc (m_vector_clock st) (m_taskid st) = Some vc" "lockmap s1 l = Some (copy_vc (m_vector_clock st) lvc)"
    "tasks s1 = (tasks s)(t \<mapsto> st\<lparr>m_vector_clock := vc\<rparr>)"
    by (auto simp: CaptureLockRelease_def bind_eq_Some_conv Let_def)
  from assms(4) obtain su where su: "tasks s2 u = Some su" "tasks s3 = (tasks s2)
      (u \<mapsto> su\<lparr>m_vector_clock := join_vc (m_vector_clock su) (copy_vc (m_vector_clock st) lvc)\<rparr>)"
    using st(3) assms(3) by (auto simp: CaptureLockAcquire_def bind_eq_Some_conv)
  have "m_taskid st = t" by (rule tree_id [OF hb_tree [OF inv] st(1)])
  then show ?thesis
    using st su assms(5) by (simp add: clock_def join_vc_def copy_vc_def tick_vc_Some)
qed

section \<open>Reports stay\<close>

lemma check_readers_keeps:
  "check_readers r a v ts t rs = Some (r', v') \<Longrightarrow> all_violations r \<subseteq>\<^sub>m all_violations r'"
proof (induction r a v ts t rs rule: check_readers.induct)
  case (2 r addr v task curtid k c rest)
  from "2.prems" obtain b where b: "unordered_after task curtid k c = Some b" by (auto simp: bind_eq_Some_conv)
  have e: "all_violations r \<subseteq>\<^sub>m all_violations (error r addr k READ curtid WRITE)" by (simp add: error_def)
  show ?case
  proof (cases b)
    case True
    then show ?thesis using "2.IH"(1) [OF b] "2.prems" b map_le_trans [OF e] by auto
  next
    case False
    then show ?thesis using "2.IH"(2) [OF b] "2.prems" b by auto
  qed
qed simp

lemma error_keeps: "all_violations r \<subseteq>\<^sub>m all_violations (error r a u k t k')"
  by (simp add: error_def)

lemma ftread_keeps:
  "ftread h r a v ts t c ptr = Some (h', r', v') \<Longrightarrow> all_violations r \<subseteq>\<^sub>m all_violations r'"
  by (erule ftread_cases) (auto intro: error_keeps)

lemma ftwrite_keeps:
  assumes f: "ftwrite h r a v ts t c = Some (h', r', v')"
  shows "all_violations r \<subseteq>\<^sub>m all_violations r'"
proof (cases "isReadVector v")
  case True
  then show ?thesis
    using f check_readers_keeps
    by (auto simp: ftwrite_def Let_def bind_eq_Some_conv intro: error_keeps split: if_split_asm)
next
  case False
  then show ?thesis
    using f by (auto simp: ftwrite_def Let_def bind_eq_Some_conv intro: error_keeps split: if_split_asm)
qed

lemma access_var_keeps:
  "access_var h r a vs ts t c k ptr = Some (h', r', vs') \<Longrightarrow> all_violations r \<subseteq>\<^sub>m all_violations r'"
  by (auto simp: access_var_def bind_eq_Some_conv split: option.splits if_split_asm
      dest: ftread_keeps ftwrite_keeps)

lemma ft_step_keeps:
  assumes "ft_step s e = Some s'"
  shows "all_violations (races s) \<subseteq>\<^sub>m all_violations (races s')"
proof (cases "\<exists>t a k p. e = FtAccess t a k p")
  case True
  then obtain t a k p where r: "RecordMem s t a k p = Some s'" using assms by auto
  then obtain ts m where ft: "find_task (tasks s) t = Some (ts, m)"
    by (auto simp: RecordMem_def bind_eq_Some_conv)
  obtain h r' vs where rm:
    "access_var (read_vectors s) (races s) a (var_at s a) ts t (m_vector_clock ts t) k p = Some (h, r', vs)"
    "t < MAX_NUM_TASKS" "races s' = r'" "\<forall>b. var_at s' b = (if same_cell a b then vs else var_at s b)"
    by (rule RecordMem_cell [OF r ft])
  show ?thesis using access_var_keeps [OF rm(1)] rm(3) by simp
next
  case False
  then have "e \<noteq> FtAccess t a k p" for t a k p by blast
  then show ?thesis using ft_step_frame(2) [OF assms] by simp
qed

interpretation ft_reports: race_reporter ft_step "\<lambda>s. all_violations (races s)"
  by unfold_locales (rule ft_step_keeps)

text \<open>
  A race FastTrack has recorded for an address is never changed or withdrawn, whatever
  events follow.
\<close>

theorem ft_first_report_stays:
  assumes "run ft_step s es = Some s'" "all_violations (races s) a = Some v"
  shows "all_violations (races s') a = Some v"
  using assms by (rule ft_reports.first_report_stays)

theorem ft_first_report_stays_witness:
  "\<exists>s s' :: fasttrack. run ft_step s [FtBegin 0 1, FtEnd 0] = Some s' \<and> all_violations (races s') 64 \<noteq> None"
proof -
  obtain s g where r: "ft_reachable s g" "all_violations (races s) 64 =
      Some \<lparr>a1 = \<lparr>tid = 1, accessType = WRITE\<rparr>, a2 = \<lparr>tid = 0, accessType = WRITE\<rparr>\<rparr>"
    using write_race_run by blast
  obtain s' where s': "run ft_step s [FtBegin 0 1, FtEnd 0] = Some s'"
    by (simp add: exec_begin_def exec_end_def split: option.splits)
  show ?thesis using ft_first_report_stays [OF s' r(2)] s' by (intro exI [of _ s] exI [of _ s']) simp
qed

section \<open>The read side\<close>






end
