(* ===== verification/FtOpt.thy ===== *)
theory FtOpt
  imports Shadow "HOL-Library.AList"
begin

unbundle bit_operations_syntax

text \<open>
  The optimised FastTrack detector (\<open>fasttrack-opt/src/Dr_Detector.cpp\<close>,
  \<open>fasttrack-opt/src/exec_calls.cpp\<close>, \<open>fasttrack-opt/include/exec_calls.h\<close>,
  \<open>fasttrack-opt/include/t_debug_task.h\<close>) as \<open>Common.H\<close> configures it: \<open>JOINSET\<close>, \<open>CACHING\<close>,
  \<open>ENABLE_MAPS\<close> and \<open>REPORT_DATA_RACES\<close> 1, \<open>EPOCH_POINTER\<close>, \<open>READ_SHARED_SAME_EPOCH_FLAG\<close>,
  \<open>STATS\<close>, \<open>DEBUG_TIME\<close> and \<open>TASK_GRAPH\<close> 0, assertions off.  It keeps FastTrack's epochs and read
  vectors per variable, but represents the clock of a task by the clocks of its ancestors,
  two of them in arrays, and a join set.  Task numbers are natural numbers that index
  arrays of \<open>MAX_NUM_TASKS\<close> entries; clocks and epochs keep their width.  A \<open>TaskState*\<close> is the
  task's index; an \<open>unordered_map\<close> is an association list in iteration order, owned by one
  task (\<open>my_vc\<close>) or never written again (\<open>root_vc\<close>).  A handler is one step.
\<close>

section \<open>Epochs\<close>

definition NUM_TASK_BITS :: nat where
  "NUM_TASK_BITS = 22"

definition NUM_CLK_BITS :: nat where
  "NUM_CLK_BITS = 64 - NUM_TASK_BITS - 1"

definition MAX_NUM_TASKS :: nat where
  "MAX_NUM_TASKS = 2 ^ NUM_TASK_BITS"

definition CLK_MASK :: "64 word" where
  "CLK_MASK = push_bit NUM_CLK_BITS 1 - 1"

definition EPOCH_BIT :: "64 word" where
  "EPOCH_BIT = push_bit (NUM_TASK_BITS + NUM_CLK_BITS) 1"

definition TASKID_MASK :: "64 word" where
  "TASKID_MASK = (EPOCH_BIT - 1) AND NOT CLK_MASK"

definition getReadEpochClock :: "64 word \<Rightarrow> 64 word" where
  "getReadEpochClock epoch = epoch AND CLK_MASK"

definition getReadEpochTaskID :: "64 word \<Rightarrow> nat" where
  "getReadEpochTaskID epoch = unat (drop_bit NUM_CLK_BITS (epoch AND TASKID_MASK))"

definition getWriteClock :: "64 word \<Rightarrow> 64 word" where
  "getWriteClock epoch = epoch AND CLK_MASK"

definition getWriteTaskID :: "64 word \<Rightarrow> nat" where
  "getWriteTaskID epoch = unat (drop_bit NUM_CLK_BITS (epoch AND TASKID_MASK))"

definition createReadEpoch :: "nat \<Rightarrow> 64 word \<Rightarrow> 64 word" where
  "createReadEpoch taskid clk = push_bit NUM_CLK_BITS (of_nat taskid) OR clk"

definition createWriteEpoch :: "nat \<Rightarrow> 64 word \<Rightarrow> 64 word" where
  "createWriteEpoch taskid clk = push_bit NUM_CLK_BITS (of_nat taskid) OR clk"

section \<open>State\<close>

definition NUM_THREADS :: nat where
  "NUM_THREADS = 64"

definition NUM_FIXED_TASK_ENTRIES :: nat where
  "NUM_FIXED_TASK_ENTRIES = 2"

definition MAX_MVC_SIZE :: nat where
  "MAX_MVC_SIZE = 100"

definition INT_MAX :: "32 word" where
  "INT_MAX = 0x7fffffff"

type_synonym vc_map = "(nat \<times> 32 word) list"

record TaskState =
  cached_tid :: "nat \<Rightarrow> nat"
  cached_clock :: "nat \<Rightarrow> 32 word"
  depth :: nat
  parent_taskId :: nat
  mytask :: "nat option"
  child_list :: "nat list option"
  my_vc :: "vc_map option"
  root_vc :: "vc_map option"
  taskId :: nat
  clock :: "32 word"

text \<open>Task states live in zero-filled memory; their constructor never runs.\<close>

definition zero_TaskState :: TaskState where
  "zero_TaskState =
     \<lparr>cached_tid = (\<lambda>_. 0), cached_clock = (\<lambda>_. 0), depth = 0, parent_taskId = 0, mytask = None,
      child_list = None, my_vc = None, root_vc = None, taskId = 0, clock = 0\<rparr>"

type_synonym read_map = "(nat \<times> 64 word) list"

record VarState =
  m_rd_epoch :: "64 word"
  m_wr_epoch :: "64 word"
  m_rvc :: read_map

definition new_VarState :: VarState where
  "new_VarState = \<lparr>m_rd_epoch = 0, m_wr_epoch = 0, m_rvc = []\<rparr>"

definition isReadVector :: "VarState \<Rightarrow> bool" where
  "isReadVector v \<longleftrightarrow> drop_bit (NUM_CLK_BITS + NUM_TASK_BITS) (m_rd_epoch v) = 1"

text \<open>\<open>unordered_map::insert\<close>: a key that is present keeps its value.\<close>

definition umap_insert :: "('k \<times> 'v) list \<Rightarrow> 'k \<Rightarrow> 'v \<Rightarrow> ('k \<times> 'v) list" where
  "umap_insert m k v = (if k \<in> fst ` set m then m else m @ [(k, v)])"

definition umap_insert_all :: "('k \<times> 'v) list \<Rightarrow> ('k \<times> 'v) list \<Rightarrow> ('k \<times> 'v) list" where
  "umap_insert_all m r = foldl (\<lambda>m (k, v). umap_insert m k v) m r"

definition createReadVector :: "VarState \<Rightarrow> nat \<Rightarrow> 64 word \<Rightarrow> nat \<Rightarrow> 64 word \<Rightarrow> VarState" where
  "createReadVector v ftid fclock stid sclock =
     v\<lparr>m_rvc := umap_insert (umap_insert [] ftid fclock) stid sclock, m_rd_epoch := EPOCH_BIT\<rparr>"

definition clearReadVector :: "VarState \<Rightarrow> VarState" where
  "clearReadVector v = v\<lparr>m_rvc := [], m_rd_epoch := 0\<rparr>"

definition isRacy :: "VarState \<Rightarrow> bool" where
  "isRacy v \<longleftrightarrow> m_wr_epoch v = EPOCH_BIT"

definition setRacy :: "VarState \<Rightarrow> VarState" where
  "setRacy v = v\<lparr>m_wr_epoch := EPOCH_BIT\<rparr>"

record ViolationData =
  tid :: nat
  accessType :: AccessType

record Violation =
  a1 :: ViolationData
  a2 :: ViolationData

record ftopt =
  shadow_space :: "VarState option shadow_space"
  tstate_nodes :: "nat \<Rightarrow> TaskState"
  joinset :: "nat \<Rightarrow> nat"
  cur :: "THREADID \<Rightarrow> nat list"
  task_id_ctr :: nat
  lockmap :: "ADDRINT \<rightharpoonup> vc_map"
  all_violations :: "ADDRINT \<rightharpoonup> Violation"

definition error :: "ftopt \<Rightarrow> ADDRINT \<Rightarrow> nat \<Rightarrow> AccessType \<Rightarrow> nat \<Rightarrow> AccessType \<Rightarrow> ftopt" where
  "error s addr ftid ftype stid stype =
     s\<lparr>all_violations := map_insert (all_violations s) addr
         \<lparr>a1 = \<lparr>tid = ftid, accessType = ftype\<rparr>, a2 = \<lparr>tid = stid, accessType = stype\<rparr>\<rparr>\<rparr>"

definition TD_Activate :: ftopt where
  "TD_Activate =
     \<lparr>shadow_space = (\<lambda>_. None),
      tstate_nodes = (\<lambda>_. zero_TaskState)(0 := zero_TaskState\<lparr>clock := 1\<rparr>),
      joinset = (\<lambda>_. 0), cur = (\<lambda>_. [])(0 := [0]), task_id_ctr = 0, lockmap = Map.empty,
      all_violations = Map.empty\<rparr>"

definition task_at :: "ftopt \<Rightarrow> nat \<Rightarrow> TaskState option" where
  "task_at s t = (if t < MAX_NUM_TASKS then Some (tstate_nodes s t) else None)"

definition cur_top :: "ftopt \<Rightarrow> THREADID \<Rightarrow> nat option" where
  "cur_top s threadId = (if threadId < NUM_THREADS then stack_top (cur s threadId) else None)"

definition upd_node :: "nat \<Rightarrow> (TaskState \<Rightarrow> TaskState) \<Rightarrow> ftopt \<Rightarrow> ftopt" where
  "upd_node t f s = s\<lparr>tstate_nodes := (tstate_nodes s)(t := f (tstate_nodes s t))\<rparr>"

section \<open>Order of an access with the current task\<close>

fun cached_lookup :: "TaskState \<Rightarrow> nat \<Rightarrow> nat list \<Rightarrow> 32 word option" where
  "cached_lookup x t [] = None"
| "cached_lookup x t (i # is) = (if cached_tid x i = t then Some (cached_clock x i) else cached_lookup x t is)"

text \<open>A null map has no entries.\<close>

definition vc_find :: "vc_map option \<Rightarrow> nat \<Rightarrow> 32 word option" where
  "vc_find vc t = (case vc of None \<Rightarrow> None | Some m \<Rightarrow> map_of m t)"

definition parent_clock :: "TaskState \<Rightarrow> nat \<Rightarrow> 32 word" where
  "parent_clock cur_task t =
     (case cached_lookup cur_task t [0..<NUM_FIXED_TASK_ENTRIES] of
        Some c \<Rightarrow> c
      | None \<Rightarrow>
          if NUM_FIXED_TASK_ENTRIES < depth cur_task then
            (case vc_find (my_vc cur_task) t of
               Some c \<Rightarrow> c
             | None \<Rightarrow> (case vc_find (root_vc cur_task) t of Some c \<Rightarrow> c | None \<Rightarrow> 0))
          else 0)"

text \<open>\<open>joinset\<close> is indexed by task number plus one.\<close>

partial_function (option) find_root :: "ftopt \<Rightarrow> nat \<Rightarrow> nat option" where
  "find_root s index =
     (if MAX_NUM_TASKS < index then None
      else let next_index = joinset s index
           in if next_index \<noteq> 0 then find_root s next_index else Some index)"

declare find_root.simps [code]

definition access_clock :: "ftopt \<Rightarrow> nat \<Rightarrow> TaskState \<Rightarrow> nat \<Rightarrow> 32 word option" where
  "access_clock s cur_taskId cur_task t =
     (if taskId cur_task = t then Some (clock cur_task)
      else if parent_clock cur_task t \<noteq> 0 then Some (parent_clock cur_task t)
      else do {
        root \<leftarrow> find_root s (t + 1);
        let root_tid = root - 1;
        Some (if root_tid = cur_taskId \<or> parent_clock cur_task root_tid \<noteq> 0 then INT_MAX else 0)
      })"

text \<open>Whether an access of task \<open>t\<close> at clock \<open>clk\<close> is unordered; clock 0 is no access.\<close>

definition unordered :: "ftopt \<Rightarrow> nat \<Rightarrow> TaskState \<Rightarrow> nat \<Rightarrow> 64 word \<Rightarrow> bool option" where
  "unordered s cur_taskId cur_task t clk =
     (if 0 < clk then do { a \<leftarrow> access_clock s cur_taskId cur_task t; Some (ucast a < clk) }
      else Some False)"

section \<open>Accesses\<close>

definition read_same_epoch :: "nat \<Rightarrow> TaskState \<Rightarrow> VarState \<Rightarrow> bool" where
  "read_same_epoch cur_taskId cur_task v \<longleftrightarrow>
     0 < m_rd_epoch v \<and> \<not> isReadVector v \<and>
     cur_taskId = getReadEpochTaskID (m_rd_epoch v) \<and> ucast (clock cur_task) = getReadEpochClock (m_rd_epoch v)"

definition write_same_epoch :: "nat \<Rightarrow> TaskState \<Rightarrow> VarState \<Rightarrow> bool" where
  "write_same_epoch cur_taskId cur_task v \<longleftrightarrow>
     0 < m_wr_epoch v \<and>
     getWriteTaskID (m_wr_epoch v) = cur_taskId \<and> getWriteClock (m_wr_epoch v) = ucast (clock cur_task)"

text \<open>The result is the new variable state and the task and kind of the access raced with.\<close>

definition read_access ::
    "ftopt \<Rightarrow> nat \<Rightarrow> TaskState \<Rightarrow> VarState \<Rightarrow> (VarState \<times> (nat \<times> AccessType) option) option" where
  "read_access s cur_taskId cur_task v =
     do {
       let wtid = getWriteTaskID (m_wr_epoch v);
       write_read \<leftarrow> unordered s cur_taskId cur_task wtid (getWriteClock (m_wr_epoch v));
       if write_read then Some (setRacy v, Some (wtid, WRITE))
       else if \<not> isReadVector v then do {
         let last_rd_tid = getReadEpochTaskID (m_rd_epoch v);
         let last_rd_clk = getReadEpochClock (m_rd_epoch v);
         concurrent \<leftarrow> unordered s cur_taskId cur_task last_rd_tid last_rd_clk;
         Some (if concurrent
               then createReadVector v last_rd_tid last_rd_clk cur_taskId (ucast (clock cur_task))
               else v\<lparr>m_rd_epoch := createReadEpoch cur_taskId (ucast (clock cur_task))\<rparr>, None)
       } else
         Some (v\<lparr>m_rvc := umap_insert (m_rvc v) cur_taskId (ucast (clock cur_task))\<rparr>, None)
     }"

text \<open>The loop over a copy of the read vector, up to the first race.\<close>

fun racing_reader :: "ftopt \<Rightarrow> nat \<Rightarrow> TaskState \<Rightarrow> read_map \<Rightarrow> nat option option" where
  "racing_reader s cur_taskId cur_task [] = Some None"
| "racing_reader s cur_taskId cur_task ((t, clk) # rvc) =
     do {
       read_write \<leftarrow> unordered s cur_taskId cur_task t clk;
       if read_write then Some (Some t) else racing_reader s cur_taskId cur_task rvc
     }"

definition write_access ::
    "ftopt \<Rightarrow> nat \<Rightarrow> TaskState \<Rightarrow> VarState \<Rightarrow> (VarState \<times> (nat \<times> AccessType) option) option" where
  "write_access s cur_taskId cur_task v =
     do {
       let last_wtid = getWriteTaskID (m_wr_epoch v);
       write_write \<leftarrow> unordered s cur_taskId cur_task last_wtid (getWriteClock (m_wr_epoch v));
       if write_write then Some (setRacy v, Some (last_wtid, WRITE))
       else if \<not> isReadVector v then do {
         let rd_tid = getReadEpochTaskID (m_rd_epoch v);
         read_write \<leftarrow> unordered s cur_taskId cur_task rd_tid (getReadEpochClock (m_rd_epoch v));
         Some (if read_write then (setRacy v, Some (rd_tid, READ))
               else (v\<lparr>m_rd_epoch := 0, m_wr_epoch := createWriteEpoch cur_taskId (ucast (clock cur_task))\<rparr>, None))
       } else do {
         r \<leftarrow> racing_reader s cur_taskId cur_task (m_rvc v);
         Some (case r of
                 Some t \<Rightarrow> ((setRacy v)\<lparr>m_rvc := []\<rparr>, Some (t, READ))
               | None \<Rightarrow> ((clearReadVector v)\<lparr>m_wr_epoch :=
                           createWriteEpoch cur_taskId (ucast (clock cur_task))\<rparr>, None))
       }
     }"

definition first_access :: "nat \<Rightarrow> TaskState \<Rightarrow> AccessType \<Rightarrow> VarState" where
  "first_access cur_taskId cur_task accesstype =
     (case accesstype of
        READ \<Rightarrow> new_VarState\<lparr>m_rd_epoch := createReadEpoch cur_taskId (ucast (clock cur_task))\<rparr>
      | WRITE \<Rightarrow> new_VarState\<lparr>m_wr_epoch := createWriteEpoch cur_taskId (ucast (clock cur_task))\<rparr>)"

definition access_var ::
    "ftopt \<Rightarrow> nat \<Rightarrow> TaskState \<Rightarrow> AccessType \<Rightarrow> VarState option
       \<Rightarrow> (VarState \<times> (nat \<times> AccessType) option) option" where
  "access_var s cur_taskId cur_task accesstype var_state =
     (case var_state of
        None \<Rightarrow> Some (first_access cur_taskId cur_task accesstype, None)
      | Some v \<Rightarrow>
          if isRacy v then Some (v, None)
          else (case accesstype of
                  READ \<Rightarrow> if read_same_epoch cur_taskId cur_task v then Some (v, None)
                          else read_access s cur_taskId cur_task v
                | WRITE \<Rightarrow> if write_same_epoch cur_taskId cur_task v then Some (v, None)
                           else write_access s cur_taskId cur_task v))"

definition RecordMem :: "ftopt \<Rightarrow> THREADID \<Rightarrow> ADDRINT \<Rightarrow> AccessType \<Rightarrow> ftopt option" where
  "RecordMem s threadId addr accesstype =
     (if NUM_THREADS \<le> threadId then None
      else case cur s threadId of
        [] \<Rightarrow> Some s
      | cur_taskId # _ \<Rightarrow> do {
          cur_task \<leftarrow> task_at s cur_taskId;
          let sh = touch_page None (shadow_space s) (primary_index addr);
          (v, race) \<leftarrow> access_var s cur_taskId cur_task accesstype (cell_at None sh addr);
          let s = s\<lparr>shadow_space := put_cell None sh addr (Some v)\<rparr>;
          Some (case race of None \<Rightarrow> s | Some (t, k) \<Rightarrow> error s addr t k cur_taskId accesstype)
        })"

section \<open>Locks\<close>

text \<open>
  The clocks of the lock go to the task, one entry at a time: \<open>d\<close> is the number of entries
  the task has.
\<close>

definition join_entry :: "nat \<Rightarrow> 32 word \<Rightarrow> nat \<Rightarrow> TaskState \<Rightarrow> TaskState \<times> nat" where
  "join_entry t c d x =
     (if t = taskId x then (x, d)
      else case find (\<lambda>i. cached_tid x i = t) [0..<min NUM_FIXED_TASK_ENTRIES d] of
        Some i \<Rightarrow> (x\<lparr>cached_clock := (cached_clock x)(i := max (cached_clock x i) c)\<rparr>, d)
      | None \<Rightarrow>
          if d < NUM_FIXED_TASK_ENTRIES then
            (x\<lparr>cached_tid := (cached_tid x)(d := t), cached_clock := (cached_clock x)(d := c)\<rparr>, d + 1)
          else
            let m = (case my_vc x of None \<Rightarrow> [] | Some m \<Rightarrow> m)
            in case map_of m t of
                 None \<Rightarrow> (x\<lparr>my_vc := Some (AList.update t c m)\<rparr>, d + 1)
               | Some c' \<Rightarrow> (x\<lparr>my_vc := Some (if c' < c then AList.update t c m else m)\<rparr>, d))"

definition CaptureLockAcquire :: "ftopt \<Rightarrow> THREADID \<Rightarrow> ADDRINT \<Rightarrow> ftopt option" where
  "CaptureLockAcquire s threadId lock_addr =
     do {
       cur_taskId \<leftarrow> cur_top s threadId;
       cur_task \<leftarrow> task_at s cur_taskId;
       let lvc = (case lockmap s lock_addr of None \<Rightarrow> [] | Some m \<Rightarrow> m);
       let (cur_task, cur_depth) = foldl (\<lambda>(x, d) (t, c). join_entry t c d x) (cur_task, depth cur_task) lvc;
       Some (upd_node cur_taskId (\<lambda>_. cur_task\<lparr>depth := cur_depth\<rparr>)
               (s\<lparr>lockmap := (lockmap s)(lock_addr \<mapsto> lvc)\<rparr>))
     }"

definition CaptureLockRelease :: "ftopt \<Rightarrow> THREADID \<Rightarrow> ADDRINT \<Rightarrow> ftopt option" where
  "CaptureLockRelease s threadId lock_addr =
     do {
       cur_taskId \<leftarrow> cur_top s threadId;
       cur_task \<leftarrow> task_at s cur_taskId;
       _ \<leftarrow> lockmap s lock_addr;
       let combined = foldl (\<lambda>m i. AList.update (cached_tid cur_task i) (cached_clock cur_task i) m) []
                        [0..<min NUM_FIXED_TASK_ENTRIES (depth cur_task)];
       let combined = (case my_vc cur_task of None \<Rightarrow> combined | Some m \<Rightarrow> umap_insert_all combined m);
       let lvc = AList.update cur_taskId (clock cur_task) combined;
       Some (upd_node cur_taskId (\<lambda>x. x\<lparr>clock := clock x + 1\<rparr>) (s\<lparr>lockmap := (lockmap s)(lock_addr \<mapsto> lvc)\<rparr>))
     }"

section \<open>Tasks\<close>

definition exec_begin :: "ftopt \<Rightarrow> THREADID \<Rightarrow> nat \<Rightarrow> ftopt option" where
  "exec_begin s threadId t =
     (if NUM_THREADS \<le> threadId then None
      else do {
        let s = s\<lparr>cur := (cur s)(threadId := t # cur s threadId)\<rparr>;
        _ \<leftarrow> task_at s t;
        Some (upd_node t (\<lambda>x. x\<lparr>child_list := map_option (\<lambda>_. []) (child_list x)\<rparr>) s)
      })"

definition exec_end :: "ftopt \<Rightarrow> THREADID \<Rightarrow> ftopt option" where
  "exec_end s threadId =
     do {
       _ \<leftarrow> cur_top s threadId;
       Some (s\<lparr>cur := (cur s)(threadId := tl (cur s threadId))\<rparr>)
     }"

definition copy_below :: "nat \<Rightarrow> (nat \<Rightarrow> 'a) \<Rightarrow> (nat \<Rightarrow> 'a) \<Rightarrow> nat \<Rightarrow> 'a" where
  "copy_below n src dst = (\<lambda>i. if i < n then src i else dst i)"

text \<open>The clocks a child gets: two in arrays, others in its map, or in \<open>root_vc\<close> when there are many.\<close>

definition inherit_vc :: "TaskState \<Rightarrow> TaskState \<Rightarrow> TaskState option" where
  "inherit_vc cur_task child_task =
     (let n = min (depth cur_task) NUM_FIXED_TASK_ENTRIES;
          child_task = child_task\<lparr>
            cached_tid := copy_below n (cached_tid cur_task) (cached_tid child_task),
            cached_clock := copy_below n (cached_clock cur_task) (cached_clock child_task),
            my_vc := (if NUM_FIXED_TASK_ENTRIES \<le> depth cur_task then Some [] else my_vc child_task)\<rparr>
      in case my_vc cur_task of
           None \<Rightarrow> Some (child_task\<lparr>root_vc := root_vc cur_task\<rparr>)
         | Some m \<Rightarrow>
             if MAX_MVC_SIZE < length m then
               Some (child_task\<lparr>root_vc :=
                 Some (umap_insert_all m (case root_vc cur_task of None \<Rightarrow> [] | Some r \<Rightarrow> r))\<rparr>)
             else do {
               _ \<leftarrow> my_vc child_task;
               Some (child_task\<lparr>root_vc := root_vc cur_task, my_vc := Some m\<rparr>)
             })"

definition record_parent :: "nat \<Rightarrow> TaskState \<Rightarrow> TaskState \<Rightarrow> TaskState option" where
  "record_parent cur_taskId cur_task child_task =
     (let d = depth cur_task in
      if d < NUM_FIXED_TASK_ENTRIES then
        Some (child_task\<lparr>cached_tid := (cached_tid child_task)(d := cur_taskId),
                         cached_clock := (cached_clock child_task)(d := clock cur_task)\<rparr>)
      else do {
        m \<leftarrow> my_vc child_task;
        Some (child_task\<lparr>my_vc := Some (AList.update cur_taskId (clock cur_task) m)\<rparr>)
      })"

text \<open>The child's number is new, so the two task states are different.\<close>

definition CaptureSpawn :: "ftopt \<Rightarrow> nat \<Rightarrow> nat \<Rightarrow> nat \<Rightarrow> ftopt option" where
  "CaptureSpawn s t cur_taskId child_taskId =
     do {
       cur_task \<leftarrow> task_at s cur_taskId;
       child_task \<leftarrow> task_at s child_taskId;
       let child_task = child_task\<lparr>taskId := child_taskId, depth := depth cur_task + 1\<rparr>;
       child_task \<leftarrow> inherit_vc cur_task child_task;
       child_task \<leftarrow> record_parent cur_taskId cur_task child_task;
       let cur_task = cur_task\<lparr>clock := clock cur_task + 1,
             child_list := Some ((case child_list cur_task of None \<Rightarrow> [] | Some cs \<Rightarrow> cs) @ [child_taskId])\<rparr>;
       let child_task = child_task\<lparr>parent_taskId := cur_taskId, mytask := Some t, clock := clock child_task + 1\<rparr>;
       Some (s\<lparr>tstate_nodes := (tstate_nodes s)(cur_taskId := cur_task, child_taskId := child_task)\<rparr>)
     }"

text \<open>
  \<open>spawn\<close> of the TBB task \<open>t\<close>: if the TBB parent of \<open>t\<close> is not the current task, the parent of
  the current task is charged.
\<close>

definition spawn :: "ftopt \<Rightarrow> THREADID \<Rightarrow> nat \<Rightarrow> nat option \<Rightarrow> ftopt option" where
  "spawn s threadId t tbb_parent =
     do {
       let s = s\<lparr>task_id_ctr := task_id_ctr s + 1\<rparr>;
       cur_taskId \<leftarrow> cur_top s threadId;
       cur_task \<leftarrow> task_at s cur_taskId;
       let p = (if tbb_parent \<noteq> mytask cur_task then parent_taskId cur_task else cur_taskId);
       CaptureSpawn s t p (task_id_ctr s)
     }"

section \<open>Waiting\<close>

definition kids :: "TaskState \<Rightarrow> nat list" where
  "kids x = (case child_list x of None \<Rightarrow> [] | Some cs \<Rightarrow> cs)"

definition clear_list :: "nat \<Rightarrow> ftopt \<Rightarrow> ftopt" where
  "clear_list t = upd_node t (\<lambda>x. x\<lparr>child_list := map_option (\<lambda>_. []) (child_list x)\<rparr>)"

partial_function (option) wait_children :: "ftopt \<Rightarrow> nat \<Rightarrow> nat list \<Rightarrow> ftopt option" where
  "wait_children s t cs =
     (case cs of
        [] \<Rightarrow> Some (clear_list t s)
      | c # cs' \<Rightarrow> do {
          x \<leftarrow> task_at s c;
          s \<leftarrow> (if kids x = [] then Some s else wait_children s c (kids x));
          let s = s\<lparr>joinset := (joinset s)(taskId (tstate_nodes s c) + 1 := taskId (tstate_nodes s t) + 1)\<rparr>;
          wait_children s t cs'
        })"

declare wait_children.simps [code]

definition Capturewait_for_all_task :: "ftopt \<Rightarrow> nat \<Rightarrow> ftopt option" where
  "Capturewait_for_all_task s t =
     do { x \<leftarrow> task_at s t; if kids x = [] then Some s else wait_children s t (kids x) }"

definition Capturewait_for_all :: "ftopt \<Rightarrow> THREADID \<Rightarrow> ftopt option" where
  "Capturewait_for_all s threadId = do { t \<leftarrow> cur_top s threadId; Capturewait_for_all_task s t }"

text \<open>The wrappers that wait, with the TBB call as argument.\<close>

definition spawn_root_and_wait ::
    "(ftopt \<Rightarrow> ftopt option) \<Rightarrow> ftopt \<Rightarrow> THREADID \<Rightarrow> nat \<Rightarrow> ftopt option" where
  "spawn_root_and_wait tbb s threadId t =
     do {
       let s = s\<lparr>task_id_ctr := task_id_ctr s + 1\<rparr>;
       cur_taskId \<leftarrow> cur_top s threadId;
       s \<leftarrow> CaptureSpawn s t cur_taskId (task_id_ctr s);
       s \<leftarrow> tbb s;
       Capturewait_for_all s threadId
     }"

definition spawn_and_wait_for_all ::
    "(ftopt \<Rightarrow> ftopt option) \<Rightarrow> ftopt \<Rightarrow> THREADID \<Rightarrow> nat \<Rightarrow> ftopt option" where
  "spawn_and_wait_for_all tbb s threadId t =
     do {
       let s = s\<lparr>task_id_ctr := task_id_ctr s + 1\<rparr>;
       cur_taskId \<leftarrow> cur_top s threadId;
       s \<leftarrow> CaptureSpawn s t cur_taskId (task_id_ctr s);
       s \<leftarrow> tbb s;
       cs \<leftarrow> child_list (tstate_nodes s cur_taskId);
       if cs \<noteq> [] then Capturewait_for_all s threadId else Some s
     }"

definition wait_for_all ::
    "(ftopt \<Rightarrow> ftopt option) \<Rightarrow> ftopt \<Rightarrow> THREADID \<Rightarrow> ftopt option" where
  "wait_for_all tbb s threadId = do { s \<leftarrow> tbb s; Capturewait_for_all s threadId }"

section \<open>Events\<close>

text \<open>
  A run is a sequence of handler calls.  \<open>FoSpawnRoot\<close> is the spawn of a task below the current
  one whatever its TBB parent is, the first half of the two wrappers that spawn and wait.
\<close>

datatype fo_event =
    FoSpawn THREADID nat "nat option"
  | FoSpawnRoot THREADID nat
  | FoWait THREADID
  | FoBegin THREADID nat
  | FoEnd THREADID
  | FoAcquire THREADID ADDRINT
  | FoRelease THREADID ADDRINT
  | FoAccess THREADID ADDRINT AccessType

fun fo_step :: "ftopt \<Rightarrow> fo_event \<Rightarrow> ftopt option" where
  "fo_step s (FoSpawn th t q) = spawn s th t q"
| "fo_step s (FoSpawnRoot th t) =
     do {
       cur_taskId \<leftarrow> cur_top s th;
       CaptureSpawn (s\<lparr>task_id_ctr := task_id_ctr s + 1\<rparr>) t cur_taskId (task_id_ctr s + 1)
     }"
| "fo_step s (FoWait th) = Capturewait_for_all s th"
| "fo_step s (FoBegin th t) = exec_begin s th t"
| "fo_step s (FoEnd th) = exec_end s th"
| "fo_step s (FoAcquire th l) = CaptureLockAcquire s th l"
| "fo_step s (FoRelease th l) = CaptureLockRelease s th l"
| "fo_step s (FoAccess th a k) = RecordMem s th a k"

lemma spawn_root_and_wait_events:
  "spawn_root_and_wait tbb s th t =
     fo_step s (FoSpawnRoot th t) \<bind> tbb \<bind> (\<lambda>s. fo_step s (FoWait th))"
  by (simp add: spawn_root_and_wait_def cur_top_def Let_def bind_assoc)

end
