(* ===== verification/FrTree.thy ===== *)
theory FrTree
  imports "HOL-Library.Word"
begin

text \<open>
  The tree of spawned tasks behind FasTracer and the optimised FastTrack.  \<open>line t\<close> is the
  path from the main task 0 to \<open>t\<close>; \<open>D\<close> are the tasks some wait has joined, so the deepest task on the path that is not
  in \<open>D\<close> is the one that \<open>t\<close>'s accesses have been joined into.  What a task has seen of
  another is a matter of these paths and of the clocks \<open>k\<close> at which the branches were
  spawned.  The last section is what the two reader slots rest on.
\<close>

section \<open>Paths\<close>

definition tree_ok :: "nat \<Rightarrow> (nat \<Rightarrow> nat list) \<Rightarrow> bool" where
  "tree_ok n line \<longleftrightarrow>
     (\<forall>t \<le> n. line t \<noteq> [] \<and> hd (line t) = 0 \<and> last (line t) = t \<and> sorted_wrt (<) (line t) \<and>
        (\<forall>i < length (line t). line (line t ! i) = take (Suc i) (line t)))"

lemma tree_line:
  assumes "tree_ok n line" "t \<le> n"
  shows "line t \<noteq> []" "hd (line t) = 0" "last (line t) = t" "sorted_wrt (<) (line t)"
    "distinct (line t)" "t \<in> set (line t)" "0 \<in> set (line t)"
  using assms by (auto simp: tree_ok_def strict_sorted_iff intro: hd_in_set last_in_set; metis hd_in_set last_in_set)+

lemma tree_prefix:
  assumes tr: "tree_ok n line" "t \<le> n" and a: "a \<in> set (line t)"
  shows "a \<le> t" "line a = take (length (line a)) (line t)" "0 < length (line a)"
    "length (line a) \<le> length (line t)" "line t ! (length (line a) - 1) = a"
proof -
  obtain i where i: "i < length (line t)" "line t ! i = a" using a by (auto simp: in_set_conv_nth)
  have l: "line a = take (Suc i) (line t)" using tr i by (auto simp: tree_ok_def)
  then have len: "length (line a) = Suc i" using i(1) by simp
  then show "line a = take (length (line a)) (line t)" "0 < length (line a)"
    "length (line a) \<le> length (line t)" "line t ! (length (line a) - 1) = a"
    using l i by simp_all
  have "line t ! i \<le> line t ! (length (line t) - 1)"
    using tree_line(4) [OF tr] i(1) by (cases "i = length (line t) - 1") (auto simp: sorted_wrt_iff_nth_less less_imp_le)
  then show "a \<le> t" using tree_line(1,3) [OF tr] i by (simp add: last_conv_nth)
qed

lemma tree_trans:
  assumes "tree_ok n line" "t \<le> n" "b \<in> set (line t)" "a \<in> set (line b)"
  shows "a \<in> set (line t)"
  using tree_prefix(2) [OF assms(1,2,3)] assms(4) by (metis in_set_takeD)

lemma tree_antisym:
  assumes tr: "tree_ok n line" and "a \<in> set (line b)" "b \<in> set (line a)" "a \<le> n" "b \<le> n"
  shows "a = b"
  using tree_prefix(1) [OF tr] assms by (meson antisym)

lemma tree_length_le:
  assumes tr: "tree_ok n line" "t \<le> n" and ab: "a \<in> set (line t)" "b \<in> set (line t)"
  shows "a \<in> set (line b) \<longleftrightarrow> length (line a) \<le> length (line b)"
proof
  assume "a \<in> set (line b)"
  moreover have "b \<le> n" using tree_prefix(1) [OF tr ab(2)] tr(2) by simp
  ultimately show "length (line a) \<le> length (line b)" using tree_prefix(4) [OF tr(1)] by blast
next
  assume le: "length (line a) \<le> length (line b)"
  note pa = tree_prefix [OF tr ab(1)] and pb = tree_prefix [OF tr ab(2)]
  have "line b ! (length (line a) - 1) = line t ! (length (line a) - 1)"
    using pb(2) pa(3) le by (metis diff_less nth_take order.strict_trans2 zero_less_one)
  then have "line b ! (length (line a) - 1) = a" using pa(5) by simp
  moreover have "length (line a) - 1 < length (line b)" using le pa(3) by linarith
  ultimately show "a \<in> set (line b)" by (metis nth_mem)
qed

lemma tree_linear:
  assumes tr: "tree_ok n line" "t \<le> n" and ab: "a \<in> set (line t)" "b \<in> set (line t)"
  shows "a \<in> set (line b) \<or> b \<in> set (line a)"
  using tree_length_le [OF tr ab] tree_length_le [OF tr ab(2,1)] by linarith

text \<open>The child of \<open>a\<close> on the way to \<open>t\<close>.\<close>

definition branch :: "(nat \<Rightarrow> nat list) \<Rightarrow> nat \<Rightarrow> nat \<Rightarrow> nat" where
  "branch line t a = line t ! length (line a)"

lemma proper_length:
  assumes tr: "tree_ok n line" "t \<le> n" and a: "a \<in> set (line t)" "a \<noteq> t"
  shows "length (line a) < length (line t)"
proof -
  have "t \<in> set (line a) \<Longrightarrow> False"
    using tree_antisym [OF tr(1) a(1) _ _ tr(2)] a tree_prefix(1) [OF tr a(1)] tr(2) by simp
  then show ?thesis using tree_length_le [OF tr tree_line(6) [OF tr] a(1)] not_le by blast
qed

lemma branch_on_line:
  assumes tr: "tree_ok n line" "t \<le> n" and a: "a \<in> set (line t)" "a \<noteq> t"
  shows "branch line t a \<in> set (line t)" "length (line (branch line t a)) = Suc (length (line a))"
    "a \<in> set (line (branch line t a))"
proof -
  note l = proper_length [OF tr a]
  then show b: "branch line t a \<in> set (line t)" by (simp add: branch_def)
  have "line (branch line t a) = take (Suc (length (line a))) (line t)"
    using tr l by (simp add: tree_ok_def branch_def)
  then show len: "length (line (branch line t a)) = Suc (length (line a))" using l by simp
  show "a \<in> set (line (branch line t a))" using tree_length_le [OF tr a(1) b] len by simp
qed

lemma branch_same:
  assumes tr: "tree_ok n line" "t \<le> n" and b: "b \<in> set (line t)" and a: "a \<in> set (line b)" "a \<noteq> b"
  shows "branch line t a = branch line b a"
proof -
  have bn: "b \<le> n" using tree_prefix(1) [OF tr b] tr(2) by simp
  show ?thesis
    using proper_length [OF tr(1) bn a] tree_prefix(2) [OF tr b] by (metis branch_def nth_take)
qed

section \<open>Joined tasks\<close>

definition dead_ok :: "nat \<Rightarrow> (nat \<Rightarrow> nat list) \<Rightarrow> nat set \<Rightarrow> bool" where
  "dead_ok n line D \<longleftrightarrow> D \<subseteq> {1..n} \<and> (\<forall>t \<in> D. \<forall>u \<le> n. t \<in> set (line u) \<longrightarrow> u \<in> D)"

definition top :: "(nat \<Rightarrow> nat list) \<Rightarrow> nat set \<Rightarrow> nat \<Rightarrow> nat" where
  "top line D t = last (filter (\<lambda>x. x \<notin> D) (line t))"

lemma dead_below: "dead_ok n line D \<Longrightarrow> t \<in> D \<Longrightarrow> u \<le> n \<Longrightarrow> t \<in> set (line u) \<Longrightarrow> u \<in> D"
  by (simp add: dead_ok_def)

lemma top_live:
  assumes tr: "tree_ok n line" "t \<le> n" and d: "dead_ok n line D"
  shows "top line D t \<in> set (line t)" "top line D t \<notin> D"
proof -
  have "0 \<in> set (filter (\<lambda>x. x \<notin> D) (line t))" using tree_line(7) [OF tr] d by (auto simp: dead_ok_def)
  then have "filter (\<lambda>x. x \<notin> D) (line t) \<noteq> []" by (metis empty_iff empty_set)
  then have "top line D t \<in> set (filter (\<lambda>x. x \<notin> D) (line t))" unfolding top_def by (rule last_in_set)
  then show "top line D t \<in> set (line t)" "top line D t \<notin> D" by auto
qed

lemma sorted_last_max: "sorted_wrt (<) (xs :: nat list) \<Longrightarrow> x \<in> set xs \<Longrightarrow> x \<le> last xs"
  by (induction xs) (auto simp: less_imp_le)

text \<open>It is the deepest one.\<close>

lemma top_deepest:
  assumes tr: "tree_ok n line" "t \<le> n" and d: "dead_ok n line D" and l: "l \<in> set (line t)" "l \<notin> D"
  shows "l \<in> set (line (top line D t))"
proof -
  let ?f = "filter (\<lambda>x. x \<notin> D) (line t)"
  note tp = top_live [OF tr d]
  have "sorted_wrt (<) ?f" using tree_line(4) [OF tr] by (rule sorted_wrt_filter)
  then have le: "l \<le> top line D t" unfolding top_def using l by (intro sorted_last_max) auto
  have tn: "top line D t \<le> n" using tree_prefix(1) [OF tr tp(1)] tr(2) by simp
  show ?thesis
  proof (rule disjE [OF tree_linear [OF tr l(1) tp(1)]])
    assume m: "top line D t \<in> set (line l)"
    have "l \<le> n" using tree_prefix(1) [OF tr l(1)] tr(2) by simp
    then have "top line D t \<le> l" using tree_prefix(1) [OF tr(1) _ m] by simp
    then show ?thesis using le tree_line(6) [OF tr(1) tn] by (metis le_antisym)
  qed
qed

lemma top_le:
  assumes "tree_ok n line" "t \<le> n" "dead_ok n line D"
  shows "top line D t \<le> n"
  using tree_prefix(1) [OF assms(1,2) top_live(1) [OF assms]] assms(2) by simp

lemma top_self:
  assumes tr: "tree_ok n line" "t \<le> n" and d: "dead_ok n line D" and t: "t \<notin> D"
  shows "top line D t = t"
  using top_deepest [OF tr d tree_line(6) [OF tr] t] top_live(1) [OF tr d] top_le [OF tr d] tr
    tree_antisym by metis

lemma top_dead:
  assumes tr: "tree_ok n line" "t \<le> n" and d: "dead_ok n line D" and t: "t \<in> D"
    and p: "p \<in> set (line t)" "p \<noteq> t" "length (line t) = Suc (length (line p))"
  shows "top line D t = top line D p"
proof -
  have "line t = line p @ [t]"
    using tree_prefix(2) [OF tr p(1)] p(3) tree_line(1,3) [OF tr]
    by (metis append_butlast_last_id butlast_conv_take diff_Suc_1)
  then show ?thesis using t by (simp add: top_def)
qed

section \<open>What a task has seen\<close>

definition vis :: "(nat \<Rightarrow> nat list) \<Rightarrow> (nat \<Rightarrow> 32 word) \<Rightarrow> nat set \<Rightarrow> nat \<Rightarrow> nat \<Rightarrow> 32 word \<Rightarrow> bool" where
  "vis line k D w t c \<longleftrightarrow>
     w = t \<or> (if t \<in> set (line w) then c \<le> k (branch line w t) else top line D t \<in> set (line w))"

text \<open>What \<open>w\<close> will have seen after a wait.\<close>

definition pot :: "(nat \<Rightarrow> nat list) \<Rightarrow> (nat \<Rightarrow> 32 word) \<Rightarrow> nat set \<Rightarrow> nat \<Rightarrow> nat \<Rightarrow> 32 word \<Rightarrow> bool" where
  "pot line k D w t c \<longleftrightarrow> vis line k D w t c \<or> w \<in> set (line t)"

lemma vis_pot: "vis line k D w t c \<Longrightarrow> pot line k D w t c"
  by (simp add: pot_def)

lemma vis_self [simp]: "vis line k D t t c"
  by (simp add: vis_def)

text \<open>What comes from outside of a subtree is seen by the whole subtree.\<close>

lemma vis_inherited:
  assumes tr: "tree_ok n line" "w \<le> n" "t \<le> n" and l: "l \<in> set (line w)"
    and v: "vis line k D l t c" "l \<notin> set (line t)"
  shows "vis line k D w t c"
proof -
  have ln: "l \<le> n" using tree_prefix(1) [OF tr(1,2) l] tr(2) by simp
  have ne: "l \<noteq> t" using v(2) tree_line(6) [OF tr(1) ln] by blast
  show ?thesis
  proof (cases "t \<in> set (line l)")
    case True
    have "branch line w t = branch line l t" using branch_same [OF tr(1,2) l True] ne by simp
    moreover have "t \<in> set (line w)" using tree_trans [OF tr(1,2) l True] .
    ultimately show ?thesis using v(1) ne True by (auto simp: vis_def)
  next
    case False
    then have "top line D t \<in> set (line l)" using v(1) ne by (simp add: vis_def)
    then have "top line D t \<in> set (line w)" using tree_trans [OF tr(1,2) l] by blast
    moreover have "t \<notin> set (line w)" using tree_linear [OF tr(1,2) l] False v(2) by blast
    ultimately show ?thesis by (simp add: vis_def)
  qed
qed

text \<open>What a task has seen its ancestors have seen or will have after a wait.\<close>

lemma vis_above:
  assumes tr: "tree_ok n line" "w \<le> n" "t \<le> n" and d: "dead_ok n line D" and l: "l \<in> set (line w)"
    and v: "vis line k D w t c"
  shows "pot line k D l t c"
proof (cases "l \<in> set (line t)")
  case False
  have ln: "l \<le> n" using tree_prefix(1) [OF tr(1,2) l] tr(2) by simp
  have ne: "l \<noteq> t" "w \<noteq> t" using False l tree_line(6) [OF tr(1) ln] by blast+
  show ?thesis
  proof (cases "t \<in> set (line w)")
    case True
    then have tl: "t \<in> set (line l)" using tree_linear [OF tr(1,2) l] False by blast
    then have "branch line w t = branch line l t" using branch_same [OF tr(1,2) l] ne by simp
    then show ?thesis using v True tl ne by (simp add: pot_def vis_def)
  next
    case nt: False
    then have tw: "top line D t \<in> set (line w)" using v ne by (simp add: vis_def)
    have "\<not> l \<in> set (line (top line D t))"
      using False tree_trans [OF tr(1,3) top_live(1) [OF tr(1,3) d]] by blast
    then have "top line D t \<in> set (line l)" using tree_linear [OF tr(1,2) l tw] by blast
    moreover have "t \<notin> set (line l)" using nt tree_trans [OF tr(1,2) l] by blast
    ultimately show ?thesis by (simp add: pot_def vis_def)
  qed
qed (simp add: pot_def)

section \<open>Two readers are enough\<close>

text \<open>
  The current task \<open>w\<close> parts from \<open>t2\<close> not below where \<open>t1\<close> does: who will have seen
  \<open>w\<close> and \<open>t2\<close> will have seen \<open>t1\<close>.
\<close>

lemma drop_first:
  assumes tr: "tree_ok n line" "w \<le> n" "t2 \<le> n" and l: "l \<in> set (line w)"
    and c: "\<And>x. x \<in> set (line w) \<Longrightarrow> x \<in> set (line t2) \<Longrightarrow> x \<in> set (line t1)"
    and p: "pot line k D l t2 c2" and v: "\<not> vis line k D w t2 c2"
  shows "pot line k D l t1 c1"
proof (cases "l \<in> set (line t2)")
  case True
  then show ?thesis using c [OF l] by (simp add: pot_def)
next
  case False
  then have "vis line k D l t2 c2" using p by (simp add: pot_def)
  then show ?thesis using vis_inherited [OF tr l _ False] v by metis
qed

text \<open>
  The current task \<open>w\<close> and \<open>t1\<close> share a branch \<open>a\<close> that \<open>t2\<close> is not in: who has seen both
  \<open>t1\<close> and \<open>t2\<close> is an ancestor of \<open>w\<close>.
\<close>

lemma drop_current:
  assumes tr: "tree_ok n line" "w \<le> n" "t1 \<le> n" "t2 \<le> n" "l \<le> n" and d: "dead_ok n line D"
    and w: "w \<notin> D"
    and a: "a \<in> set (line w)" "a \<in> set (line t1)" "a \<notin> set (line t2)"
    and v: "\<not> vis line k D w t2 c2" and p: "pot line k D l t1 c1" "pot line k D l t2 c2"
  shows "l \<in> set (line w)"
proof (rule ccontr)
  assume nl: "l \<notin> set (line w)"
  have an: "a \<le> n" using tree_prefix(1) [OF tr(1,2) a(1)] tr(2) by simp
  have al: "a \<notin> D" using dead_below [OF d _ tr(2) a(1)] w by blast
  have la: "a \<in> set (line l)"
  proof (cases "l \<in> set (line t1)")
    case True
    then show ?thesis using tree_linear [OF tr(1,3) a(2)] nl tree_trans [OF tr(1,2) a(1)] by blast
  next
    case False
    then have ne: "l \<noteq> t1" "vis line k D l t1 c1" using p(1) tree_line(6) [OF tr(1,3)] by (auto simp: pot_def)
    have "a \<in> set (line (top line D t1))" using top_deepest [OF tr(1,3) d a(2) al] .
    then show ?thesis
      using ne a(2) tree_trans [OF tr(1,5)] by (auto simp: vis_def split: if_splits)
  qed
  have nt: "l \<notin> set (line t2)" using a(3) la tree_trans [OF tr(1,4)] by blast
  then have vl: "vis line k D l t2 c2" "l \<noteq> t2" using p(2) tree_line(6) [OF tr(1,4)] by (auto simp: pot_def)
  have in_a: "x \<in> set (line a)" if "x \<in> set (line l)" "a \<notin> set (line x)" for x
    using tree_linear [OF tr(1,5) that(1) la] that(2) by blast
  have "vis line k D a t2 c2"
  proof (cases "t2 \<in> set (line l)")
    case True
    have ta: "t2 \<in> set (line a)" "t2 \<noteq> a" using in_a [OF True a(3)] a(3) tree_line(6) [OF tr(1,4)] by blast+
    then show ?thesis
      using vl True branch_same [OF tr(1,5) la ta] by (simp add: vis_def)
  next
    case False
    then have tl: "top line D t2 \<in> set (line l)" using vl by (simp add: vis_def)
    have "a \<notin> set (line (top line D t2))" using a(3) tree_trans [OF tr(1,4) top_live(1) [OF tr(1,4) d]] by blast
    then have "top line D t2 \<in> set (line a)" by (rule in_a [OF tl])
    moreover have "t2 \<notin> set (line a)" using False tree_trans [OF tr(1,5) la] by blast
    ultimately show ?thesis by (simp add: vis_def)
  qed
  then show False using vis_inherited [OF tr(1,2,4) a(1)] a(3) v by blast
qed

text \<open>And no task other than \<open>w\<close> on that line has seen them.\<close>

lemma drop_current_seen:
  assumes tr: "tree_ok n line" "w \<le> n" "t1 \<le> n" "t2 \<le> n" and d: "dead_ok n line D" and w: "w \<notin> D"
    and a: "a \<in> set (line w)" "a \<in> set (line t1)" "a \<notin> set (line t2)"
    and v: "\<not> vis line k D w t2 c2" and l: "l \<in> set (line w)"
    and s: "vis line k D l t1 c1" "vis line k D l t2 c2"
  shows False
proof -
  have ln: "l \<le> n" using tree_prefix(1) [OF tr(1,2) l] tr(2) by simp
  have al: "a \<notin> D" using dead_below [OF d _ tr(2) a(1)] w by blast
  show False
  proof (cases "l \<in> set (line t2)")
    case True
    then have "l \<in> set (line a) \<and> l \<noteq> a" using tree_linear [OF tr(1,2) l a(1)] a(3) tree_trans [OF tr(1,4)] by blast
    then have na: "a \<notin> set (line l)" using tree_antisym [OF tr(1)] ln tree_prefix(1) [OF tr(1,2) a(1)] tr(2) by (metis order.trans)
    have "a \<in> set (line (top line D t1))" using top_deepest [OF tr(1,3) d a(2) al] .
    then show False
      using s(1) na a(2) tree_trans [OF tr(1) ln] by (auto simp: vis_def split: if_splits)
  next
    case False
    then show False using vis_inherited [OF tr(1,2,4) l s(2)] v by blast
  qed
qed

section \<open>A new task\<close>

definition add_task :: "nat \<Rightarrow> nat \<Rightarrow> (nat \<Rightarrow> nat list) \<Rightarrow> nat \<Rightarrow> nat list" where
  "add_task p n line = line(Suc n := line p @ [Suc n])"

lemma add_task_old: "t \<le> n \<Longrightarrow> add_task p n line t = line t"
  by (simp add: add_task_def)

lemma add_task_new: "add_task p n line (Suc n) = line p @ [Suc n]"
  by (simp add: add_task_def)

lemma tree_line_le: "tree_ok n line \<Longrightarrow> t \<le> n \<Longrightarrow> x \<in> set (line t) \<Longrightarrow> x \<le> n"
  using tree_prefix(1) by (meson order.trans)

lemma tree_ok_add:
  assumes tr: "tree_ok n line" and p: "p \<le> n"
  shows "tree_ok (Suc n) (add_task p n line)"
  unfolding tree_ok_def
proof (intro allI impI)
  fix t assume t: "t \<le> Suc n"
  show "add_task p n line t \<noteq> [] \<and> hd (add_task p n line t) = 0 \<and> last (add_task p n line t) = t \<and>
      sorted_wrt (<) (add_task p n line t) \<and>
      (\<forall>i < length (add_task p n line t). add_task p n line (add_task p n line t ! i) = take (Suc i) (add_task p n line t))"
  proof (cases "t = Suc n")
    case False
    then have tn: "t \<le> n" using t by simp
    have "line t ! i \<le> n" if "i < length (line t)" for i using tree_line_le [OF tr tn] that by simp
    then show ?thesis using tr tn by (simp add: add_task_old tree_ok_def)
  next
    case True
    note l = tree_line [OF tr p]
    have lt: "\<forall>x \<in> set (line p). x < Suc n" using tree_line_le [OF tr p] by (simp add: less_Suc_eq_le)
    have "add_task p n line ((line p @ [Suc n]) ! i) = take (Suc i) (line p @ [Suc n])" if "i < Suc (length (line p))" for i
    proof (cases "i < length (line p)")
      case True
      then have "line p ! i \<le> n" using tree_line_le [OF tr p] by simp
      then show ?thesis using True tr p by (simp add: nth_append add_task_old tree_ok_def)
    next
      case False
      then show ?thesis using that by (simp add: nth_append add_task_new less_Suc_eq)
    qed
    then show ?thesis using True l(1,2,4) lt by (simp add: add_task_new sorted_wrt_append)
  qed
qed

lemma dead_ok_add:
  assumes tr: "tree_ok n line" and p: "p \<le> n" "p \<notin> D" and d: "dead_ok n line D"
  shows "dead_ok (Suc n) (add_task p n line) D"
proof -
  have "u \<in> D" if "t \<in> D" "u \<le> Suc n" "t \<in> set (add_task p n line u)" for t u
  proof (cases "u = Suc n")
    case True
    have "t \<le> n" using d that(1) by (auto simp: dead_ok_def)
    then have "t \<in> set (line p)" using that(3) True by (simp add: add_task_new)
    then show ?thesis using dead_below [OF d that(1) p(1)] p(2) by blast
  next
    case False
    then show ?thesis using that dead_below [OF d that(1)] by (simp add: add_task_old)
  qed
  moreover have "D \<subseteq> {1..Suc n}" using d by (fastforce simp: dead_ok_def)
  ultimately show ?thesis unfolding dead_ok_def by blast
qed

lemma branch_add_old:
  assumes tr: "tree_ok n line" and t: "t \<le> n" "a \<in> set (line t)"
  shows "branch (add_task p n line) t a = branch line t a"
  using tree_line_le [OF tr t] t(1) by (simp add: branch_def add_task_old)

lemma branch_add_new:
  assumes tr: "tree_ok n line" and p: "p \<le> n" and a: "a \<in> set (line p)"
  shows "branch (add_task p n line) (Suc n) a = (if a = p then Suc n else branch line p a)"
  using tree_line_le [OF tr p a] proper_length [OF tr p a]
  by (simp add: branch_def add_task_old add_task_new nth_append)

lemma top_add_old:
  assumes tr: "tree_ok n line" and t: "t \<le> n"
  shows "top (add_task p n line) D t = top line D t"
  using t by (simp add: top_def add_task_old)

lemma vis_add_old:
  assumes tr: "tree_ok n line" and w: "w \<le> n" and t: "t \<le> n"
  shows "vis (add_task p n line) (k(Suc n := x)) D w t c \<longleftrightarrow> vis line k D w t c"
proof (cases "w = t")
  case False
  have "branch line w t \<le> n" if "t \<in> set (line w)"
    using branch_on_line(1) [OF tr w that] False tree_line_le [OF tr w] by metis
  then show ?thesis
    using False w branch_add_old [OF tr w] top_add_old [OF tr t] by (auto simp: vis_def add_task_old)
qed simp

text \<open>The new task has seen what its parent had seen, and the parent's clocks up to \<open>x\<close>.\<close>

lemma vis_add_new:
  assumes tr: "tree_ok n line" and p: "p \<le> n" and t: "t \<le> n" and d: "dead_ok n line D"
  shows "vis (add_task p n line) (k(Suc n := x)) D (Suc n) t c \<longleftrightarrow> (if t = p then c \<le> x else vis line k D p t c)"
proof (cases "t \<in> set (line p)")
  case True
  then have b: "branch (add_task p n line) (Suc n) t = (if t = p then Suc n else branch line p t)"
    using branch_add_new [OF tr p] by blast
  have "branch line p t \<le> n" if "p \<noteq> t"
    using branch_on_line(1) [OF tr p True] that tree_line_le [OF tr p] by metis
  then show ?thesis using t b True by (auto simp: vis_def add_task_new)
next
  case False
  have "top (add_task p n line) D t = top line D t" "top line D t \<noteq> Suc n"
    using top_add_old [OF tr t] top_le [OF tr t d] by auto
  then show ?thesis using t False tree_line(6) [OF tr p] by (auto simp: vis_def add_task_new)
qed

lemma pot_add_old:
  assumes tr: "tree_ok n line" and w: "w \<le> n" and t: "t \<le> n"
  shows "pot (add_task p n line) (k(Suc n := x)) D w t c \<longleftrightarrow> pot line k D w t c"
  using t by (simp add: pot_def add_task_old vis_add_old [OF tr w t])

lemma pot_add_new:
  assumes tr: "tree_ok n line" and p: "p \<le> n" and t: "t \<le> n" and d: "dead_ok n line D"
  shows "pot (add_task p n line) (k(Suc n := x)) D (Suc n) t c \<longleftrightarrow> (if t = p then c \<le> x else vis line k D p t c)"
proof -
  have "Suc n \<notin> set (line t)" using tree_line_le [OF tr t, of "Suc n"] by auto
  then show ?thesis using t by (simp add: pot_def add_task_old vis_add_new [OF tr p t d])
qed

section \<open>A wait\<close>

text \<open>\<open>p\<close> joins all tasks below it.\<close>

definition join_below :: "nat \<Rightarrow> nat \<Rightarrow> (nat \<Rightarrow> nat list) \<Rightarrow> nat set \<Rightarrow> nat set" where
  "join_below p n line D = D \<union> {t. t \<le> n \<and> p \<in> set (line t) \<and> t \<noteq> p}"

lemma dead_ok_join:
  assumes tr: "tree_ok n line" and p: "p \<le> n" and d: "dead_ok n line D"
  shows "dead_ok n line (join_below p n line D)"
proof -
  have "Suc 0 \<le> t" if "t \<le> n" "p \<in> set (line t)" "t \<noteq> p" for t
    using tree_prefix(1) [OF tr that(1,2)] that(3) by simp
  then have "join_below p n line D \<subseteq> {1..n}" using d by (auto simp: dead_ok_def join_below_def)
  moreover have "u \<in> join_below p n line D"
    if t: "t \<in> join_below p n line D" and u: "u \<le> n" "t \<in> set (line u)" for t u
  proof (cases "t \<in> D")
    case True
    then show ?thesis using dead_below [OF d _ u] by (simp add: join_below_def)
  next
    case False
    then have *: "t \<le> n" "p \<in> set (line t)" "t \<noteq> p" using t by (simp_all add: join_below_def)
    then have "p \<in> set (line u)" using tree_trans [OF tr u] by blast
    moreover have "u \<noteq> p" using * u tree_antisym [OF tr] p by metis
    ultimately show ?thesis using u by (simp add: join_below_def)
  qed
  ultimately show ?thesis unfolding dead_ok_def by blast
qed

lemma top_join_other:
  assumes tr: "tree_ok n line" "t \<le> n" and d: "dead_ok n line D" and np: "p \<notin> set (line t)"
  shows "top line (join_below p n line D) t = top line D t"
proof -
  have "x \<notin> join_below p n line D \<longleftrightarrow> x \<notin> D" if "x \<in> set (line t)" for x
    using np tree_trans [OF tr that] by (auto simp: join_below_def)
  then have "filter (\<lambda>x. x \<notin> join_below p n line D) (line t) = filter (\<lambda>x. x \<notin> D) (line t)"
    by (rule filter_cong [OF refl])
  then show ?thesis by (simp add: top_def)
qed

lemma top_join_below:
  assumes tr: "tree_ok n line" "t \<le> n" and d: "dead_ok n line D" and p: "p \<in> set (line t)" "p \<notin> D"
  shows "top line (join_below p n line D) t = p"
proof -
  have pn: "p \<le> n" using tree_line_le [OF tr p(1)] .
  note d' = dead_ok_join [OF tr(1) pn d] and tp = top_live [OF tr dead_ok_join [OF tr(1) pn d]]
  have "p \<notin> join_below p n line D" using p(2) by (simp add: join_below_def)
  then have *: "p \<in> set (line (top line (join_below p n line D) t))" using top_deepest [OF tr d' p(1)] by simp
  then show ?thesis using tp(2) top_le [OF tr d'] by (auto simp: join_below_def)
qed

text \<open>For everyone else nothing changes; \<open>p\<close> has now seen what it could have.\<close>

lemma vis_join_other:
  assumes tr: "tree_ok n line" "t \<le> n" "w \<le> n" and d: "dead_ok n line D" and p: "p \<notin> D"
    and w: "w \<notin> join_below p n line D" "w \<noteq> p"
  shows "vis line k (join_below p n line D) w t c \<longleftrightarrow> vis line k D w t c"
proof (cases "p \<in> set (line t)")
  case True
  have np: "p \<notin> set (line w)" using w tr(3) by (auto simp: join_below_def)
  have "t \<notin> set (line w)" using True np tree_trans [OF tr(1,3)] by blast
  moreover have "top line D t \<notin> set (line w)"
    using top_deepest [OF tr(1,2) d True p] np tree_trans [OF tr(1,3)] by blast
  moreover have "top line (join_below p n line D) t = p" by (rule top_join_below [OF tr(1,2) d True p])
  ultimately show ?thesis using np by (simp add: vis_def)
qed (simp add: vis_def top_join_other [OF tr(1,2) d])

lemma vis_join_self:
  assumes tr: "tree_ok n line" "t \<le> n" "p \<le> n" and d: "dead_ok n line D" and p: "p \<notin> D"
  shows "vis line k (join_below p n line D) p t c \<longleftrightarrow> pot line k D p t c"
proof (cases "p \<in> set (line t)")
  case True
  have "top line (join_below p n line D) t = p" by (rule top_join_below [OF tr(1,2) d True p])
  moreover have "p = t \<or> t \<notin> set (line p)" using tree_antisym [OF tr(1) True _ tr(3,2)] by blast
  ultimately show ?thesis using True tree_line(6) [OF tr(1,3)] by (auto simp: vis_def pot_def)
qed (simp add: vis_def pot_def top_join_other [OF tr(1,2) d])

lemma pot_join:
  assumes tr: "tree_ok n line" "t \<le> n" "w \<le> n" and d: "dead_ok n line D" and p: "p \<notin> D" "p \<le> n"
    and w: "w \<notin> join_below p n line D"
  shows "pot line k (join_below p n line D) w t c \<longleftrightarrow> pot line k D w t c"
proof (cases "w = p")
  case True
  then show ?thesis using vis_join_self [OF tr(1,2) p(2) d p(1)] by (metis pot_def)
next
  case False
  then show ?thesis by (simp add: pot_def vis_join_other [OF tr d p(1) w])
qed

end
