(* ===== verification/TaskPast.thy ===== *)
theory TaskPast
  imports FrTree Shadow
begin

text \<open>
  The happens-before order of a run with spawns and waits, kept next to the tree of tasks of
  \<open>FrTree\<close>, for detectors that represent it by clocks of spawns and joined tasks.  A spawned
  task has seen what its spawner had, a wait adds what all tasks below have seen, an access
  is seen by its own task.  \<open>pasts_ok\<close> says that what a task has seen is what \<open>vis\<close> of
  \<open>FrTree\<close> says; each kind of event keeps it.
\<close>

section \<open>The log and the past of every task\<close>

record log_entry =
  e_task :: nat
  e_clock :: "32 word"
  e_addr :: ADDRINT
  e_kind :: AccessType
  e_past :: "nat set"

record task_ghost =
  g_line :: "nat \<Rightarrow> nat list"
  g_fork :: "nat \<Rightarrow> 32 word"
  g_dead :: "nat set"
  g_past :: "nat \<Rightarrow> nat set"
  g_log :: "log_entry list"

definition ghost_init :: task_ghost where
  "ghost_init =
     \<lparr>g_line = (\<lambda>_. [0]), g_fork = (\<lambda>_. 0), g_dead = {}, g_past = (\<lambda>_. {}), g_log = []\<rparr>"

definition task_below :: "nat \<Rightarrow> task_ghost \<Rightarrow> nat \<Rightarrow> nat set" where
  "task_below n g p = {t. t \<le> n \<and> p \<in> set (g_line g t) \<and> t \<noteq> p}"

abbreviation sees :: "task_ghost \<Rightarrow> nat \<Rightarrow> nat \<Rightarrow> 32 word \<Rightarrow> bool" where
  "sees g w t c \<equiv> vis (g_line g) (g_fork g) (g_dead g) w t c"

definition log_ok :: "task_ghost \<Rightarrow> bool" where
  "log_ok g \<longleftrightarrow> (\<forall>j < length (g_log g). e_past (g_log g ! j) \<subseteq> {..<j} \<and> e_past (g_log g ! j) \<subseteq> g_past g (e_task (g_log g ! j)))"

section \<open>Races of a log\<close>

text \<open>Two accesses of one cell, one a write, of which the later has not seen the earlier.\<close>

definition race_at :: "log_entry list \<Rightarrow> ADDRINT \<Rightarrow> nat \<Rightarrow> nat \<Rightarrow> bool" where
  "race_at l a i j \<longleftrightarrow>
     i < j \<and> j < length l \<and> same_cell a (e_addr (l ! i)) \<and> same_cell a (e_addr (l ! j)) \<and>
     (e_kind (l ! i) = WRITE \<or> e_kind (l ! j) = WRITE) \<and> i \<notin> e_past (l ! j)"

definition race_free :: "log_entry list \<Rightarrow> ADDRINT \<Rightarrow> bool" where
  "race_free l a \<longleftrightarrow> (\<forall>i j. \<not> race_at l a i j)"

lemma race_at_snoc:
  "race_at (l @ [e]) a i j \<longleftrightarrow>
     race_at l a i j \<or> j = length l \<and> i < length l \<and> same_cell a (e_addr (l ! i)) \<and> same_cell a (e_addr e) \<and>
       (e_kind (l ! i) = WRITE \<or> e_kind e = WRITE) \<and> i \<notin> e_past e"
  by (auto simp: race_at_def nth_append less_Suc_eq)

lemma race_at_cell:
  assumes "same_cell a b"
  shows "race_at l a i j \<longleftrightarrow> race_at l b i j"
  using assms same_cell_sym same_cell_trans unfolding race_at_def by blast

lemma race_free_cell: "same_cell a b \<Longrightarrow> race_free l a \<longleftrightarrow> race_free l b"
  unfolding race_free_def using race_at_cell by blast

lemma race_stays: "\<not> race_free l a \<Longrightarrow> \<not> race_free (l @ [e]) a"
  by (auto simp: race_free_def race_at_snoc)

section \<open>What the past of a task is\<close>

definition pasts_ok :: "nat \<Rightarrow> (nat \<Rightarrow> 32 word) \<Rightarrow> task_ghost \<Rightarrow> bool" where
  "pasts_ok n clk g \<longleftrightarrow>
     (\<forall>i < length (g_log g). e_task (g_log g ! i) \<le> n \<and> 1 \<le> e_clock (g_log g ! i) \<and>
        e_clock (g_log g ! i) \<le> clk (e_task (g_log g ! i)) \<and> i \<in> g_past g (e_task (g_log g ! i))) \<and>
     (\<forall>w \<le> n. g_past g w \<subseteq> {..<length (g_log g)} \<and>
        g_past g w \<subseteq> g_past g (top (g_line g) (g_dead g) w) \<and>
        (w \<notin> g_dead g \<longrightarrow> (\<forall>i < length (g_log g).
           i \<in> g_past g w \<longleftrightarrow> sees g w (e_task (g_log g ! i)) (e_clock (g_log g ! i)))))"

lemma pasts_okD:
  assumes "pasts_ok n clk g"
  shows "\<And>i. i < length (g_log g) \<Longrightarrow> e_task (g_log g ! i) \<le> n"
    "\<And>i. i < length (g_log g) \<Longrightarrow> 1 \<le> e_clock (g_log g ! i)"
    "\<And>i. i < length (g_log g) \<Longrightarrow> e_clock (g_log g ! i) \<le> clk (e_task (g_log g ! i))"
    "\<And>i. i < length (g_log g) \<Longrightarrow> i \<in> g_past g (e_task (g_log g ! i))"
    "\<And>w. w \<le> n \<Longrightarrow> g_past g w \<subseteq> {..<length (g_log g)}"
    "\<And>w. w \<le> n \<Longrightarrow> g_past g w \<subseteq> g_past g (top (g_line g) (g_dead g) w)"
    "\<And>w i. w \<le> n \<Longrightarrow> w \<notin> g_dead g \<Longrightarrow> i < length (g_log g) \<Longrightarrow>
       i \<in> g_past g w \<longleftrightarrow> sees g w (e_task (g_log g ! i)) (e_clock (g_log g ! i))"
  using assms by (simp_all add: pasts_ok_def)

lemma pasts_ok_init: "pasts_ok n clk ghost_init"
  by (simp add: pasts_ok_def ghost_init_def)

text \<open>What the tree and the joined tasks of a run satisfy.\<close>

definition ghost_tree_ok :: "nat \<Rightarrow> task_ghost \<Rightarrow> bool" where
  "ghost_tree_ok n g \<longleftrightarrow> tree_ok n (g_line g) \<and> dead_ok n (g_line g) (g_dead g)"

lemma pasts_spawn:
  assumes "ghost_tree_ok n g" and pa: "pasts_ok n clk g" and p: "p \<le> n" "p \<notin> g_dead g"
    and clk: "\<And>u. u \<le> n \<Longrightarrow> clk u \<le> clk' u"
    and g': "g_line g' = add_task p n (g_line g)" "g_fork g' = (g_fork g)(Suc n := clk p)"
      "g_dead g' = g_dead g" "g_past g' = (g_past g)(Suc n := g_past g p)" "g_log g' = g_log g"
  shows "pasts_ok (Suc n) clk' g'"
proof -
  have tr: "tree_ok n (g_line g)" and dd: "dead_ok n (g_line g) (g_dead g)"
    using assms(1) by (simp_all add: ghost_tree_ok_def)
  have ns: "Suc n \<notin> g_dead g" using dd by (auto simp: dead_ok_def)
  have logs: "e_task (g_log g ! i) \<le> Suc n \<and> 1 \<le> e_clock (g_log g ! i) \<and>
      e_clock (g_log g ! i) \<le> clk' (e_task (g_log g ! i)) \<and> i \<in> g_past g' (e_task (g_log g ! i))"
    if "i < length (g_log g)" for i
    using pasts_okD(1-4) [OF pa that] clk [OF pasts_okD(1) [OF pa that]] by (auto simp: g' intro: order.trans)
  have "g_past g' w \<subseteq> {..<length (g_log g)} \<and> g_past g' w \<subseteq> g_past g' (top (g_line g') (g_dead g') w) \<and>
      (w \<notin> g_dead g \<longrightarrow> (\<forall>i < length (g_log g).
           i \<in> g_past g' w \<longleftrightarrow> sees g' w (e_task (g_log g ! i)) (e_clock (g_log g ! i))))" if w: "w \<le> Suc n" for w
  proof (cases "w = Suc n")
    case True
    have "top (add_task p n (g_line g)) (g_dead g) (Suc n) = Suc n"
      by (rule top_self [OF tree_ok_add [OF tr p(1)] order.refl dead_ok_add [OF tr p dd] ns])
    moreover have "sees g' (Suc n) (e_task (g_log g ! i)) (e_clock (g_log g ! i)) \<longleftrightarrow> i \<in> g_past g p" if "i < length (g_log g)" for i
      using vis_add_new [OF tr p(1) pasts_okD(1) [OF pa that] dd, of "g_fork g" "clk p" "e_clock (g_log g ! i)"]
        pasts_okD(3,4) [OF pa that] pasts_okD(7) [OF pa p that] by (auto simp: g')
    ultimately show ?thesis using True pasts_okD(5) [OF pa p(1)] by (simp add: g')
  next
    case False
    then have wn: "w \<le> n" using w by simp
    have "top (g_line g) (g_dead g) w \<noteq> Suc n" using top_le [OF tr wn dd] by simp
    moreover have "sees g' w (e_task (g_log g ! i)) (e_clock (g_log g ! i)) \<longleftrightarrow> sees g w (e_task (g_log g ! i)) (e_clock (g_log g ! i))"
      if "i < length (g_log g)" for i using vis_add_old [OF tr wn pasts_okD(1) [OF pa that]] by (simp add: g')
    ultimately show ?thesis using False pasts_okD(5-7) [OF pa wn] top_add_old [OF tr wn] by (simp add: g')
  qed
  then show ?thesis using logs by (simp add: pasts_ok_def g'(3,5))
qed

lemma pasts_wait:
  assumes "ghost_tree_ok n g" and pa: "pasts_ok n clk g" and p: "p \<le> n" "p \<notin> g_dead g"
    and clk: "\<And>u. u \<le> n \<Longrightarrow> clk u \<le> clk' u"
    and g': "g_line g' = g_line g" "g_fork g' = g_fork g" "g_dead g' = join_below p n (g_line g) (g_dead g)"
      "g_log g' = g_log g" "g_past g' = (g_past g)(p := g_past g p \<union> \<Union> (g_past g ` task_below n g p))"
  shows "pasts_ok n clk' g'"
proof -
  have tr: "tree_ok n (g_line g)" and dd: "dead_ok n (g_line g) (g_dead g)"
    using assms(1) by (simp_all add: ghost_tree_ok_def)
  let ?l = "g_line g" and ?k = "g_fork g" and ?D = "g_dead g" and ?B = "task_below n g p"
  let ?D' = "join_below p n ?l ?D"
  have mono: "g_past g w \<subseteq> g_past g' w" for w by (auto simp: g')
  have logs: "e_task (g_log g ! i) \<le> n \<and> 1 \<le> e_clock (g_log g ! i) \<and>
      e_clock (g_log g ! i) \<le> clk' (e_task (g_log g ! i)) \<and> i \<in> g_past g' (e_task (g_log g ! i))"
    if "i < length (g_log g)" for i
    using pasts_okD(1-4) [OF pa that] clk mono by (meson order.trans subsetD)
  have Bn: "w \<le> n" "p \<in> set (?l w)" "w \<noteq> p" if "w \<in> ?B" for w using that by (simp_all add: task_below_def)
  have sees_p: "i \<in> g_past g' p \<longleftrightarrow> sees g' p (e_task (g_log g ! i)) (e_clock (g_log g ! i))" if i: "i < length (g_log g)" for i
  proof -
    let ?t = "e_task (g_log g ! i)" and ?c = "e_clock (g_log g ! i)"
    note tn = pasts_okD(1) [OF pa i]
    have "i \<in> g_past g' p \<longleftrightarrow> pot ?l ?k ?D p ?t ?c"
    proof
      assume "i \<in> g_past g' p"
      then consider "i \<in> g_past g p" | w where "w \<in> ?B" "i \<in> g_past g w" by (auto simp: g')
      then show "pot ?l ?k ?D p ?t ?c"
      proof cases
        case 1
        then show ?thesis using pasts_okD(7) [OF pa p i] by (simp add: pot_def)
      next
        case (2 w)
        let ?u = "top ?l ?D w"
        have u: "?u \<le> n" "?u \<notin> ?D" "p \<in> set (?l ?u)" "i \<in> g_past g ?u"
          using top_le [OF tr Bn(1) dd] top_live(2) [OF tr Bn(1) dd] top_deepest [OF tr Bn(1) dd Bn(2) p(2)]
            pasts_okD(6) [OF pa Bn(1)] 2 by blast+
        then show ?thesis using vis_above [OF tr u(1) tn dd u(3)] pasts_okD(7) [OF pa u(1,2) i] by blast
      qed
    next
      assume "pot ?l ?k ?D p ?t ?c"
      then consider "sees g p ?t ?c" | "p \<in> set (?l ?t)" by (auto simp: pot_def)
      then show "i \<in> g_past g' p"
      proof cases
        case 1
        then show ?thesis using pasts_okD(7) [OF pa p i] mono by blast
      next
        case 2
        then have "?t = p \<or> ?t \<in> ?B" using tn by (simp add: task_below_def)
        then show ?thesis using pasts_okD(4) [OF pa i] by (auto simp: g')
      qed
    qed
    moreover have "sees g' p ?t ?c \<longleftrightarrow> pot ?l ?k ?D p ?t ?c" by (simp add: g' vis_join_self [OF tr tn p(1) dd p(2)])
    ultimately show ?thesis by blast
  qed
  have "g_past g' w \<subseteq> {..<length (g_log g)} \<and> g_past g' w \<subseteq> g_past g' (top (g_line g') (g_dead g') w) \<and>
      (w \<notin> g_dead g' \<longrightarrow> (\<forall>i < length (g_log g).
           i \<in> g_past g' w \<longleftrightarrow> sees g' w (e_task (g_log g ! i)) (e_clock (g_log g ! i))))" if w: "w \<le> n" for w
  proof (cases "w = p")
    case True
    have "p \<notin> ?D'" using p(2) by (simp add: join_below_def)
    then have "top ?l ?D' p = p" by (rule top_self [OF tr p(1) dead_ok_join [OF tr p(1) dd]])
    moreover have "g_past g' p \<subseteq> {..<length (g_log g)}"
      using pasts_okD(5) [OF pa p(1)] pasts_okD(5) [OF pa Bn(1)] by (force simp: g')
    ultimately show ?thesis using True sees_p by (simp add: g'(1-4))
  next
    case False
    have "g_past g' w \<subseteq> g_past g' (top ?l ?D' w)"
    proof (cases "p \<in> set (?l w)")
      case True
      then have "w \<in> ?B" using w False by (simp add: task_below_def)
      then show ?thesis using top_join_below [OF tr w dd True p(2)] False by (auto simp: g')
    next
      case np: False
      then show ?thesis using top_join_other [OF tr w dd np] pasts_okD(6) [OF pa w] mono False by (auto simp: g')
    qed
    moreover have "i \<in> g_past g' w \<longleftrightarrow> sees g' w (e_task (g_log g ! i)) (e_clock (g_log g ! i))"
      if "w \<notin> ?D'" "i < length (g_log g)" for i
    proof -
      have "w \<notin> ?D" using that(1) by (simp add: join_below_def)
      then show ?thesis
        using pasts_okD(7) [OF pa w _ that(2)] False
        by (simp add: g' vis_join_other [OF tr pasts_okD(1) [OF pa that(2)] w dd p(2) that(1) False])
    qed
    ultimately show ?thesis using pasts_okD(5) [OF pa w] False by (simp add: g')
  qed
  then show ?thesis using logs by (simp add: pasts_ok_def g'(4))
qed

text \<open>
  The access of task \<open>w\<close> that is logged next.  Nobody else has seen the clock a live task is at.
\<close>

definition logs :: "task_ghost \<Rightarrow> nat \<Rightarrow> 32 word \<Rightarrow> ADDRINT \<Rightarrow> AccessType \<Rightarrow> task_ghost" where
  "logs g w c a k =
     g\<lparr>g_past := (g_past g)(w := insert (length (g_log g)) (g_past g w)),
       g_log := g_log g @ [\<lparr>e_task = w, e_clock = c, e_addr = a, e_kind = k, e_past = g_past g w\<rparr>]\<rparr>"

lemma logs_simps [simp]:
  "g_line (logs g w c a k) = g_line g" "g_fork (logs g w c a k) = g_fork g" "g_dead (logs g w c a k) = g_dead g"
  "g_past (logs g w c a k) = (g_past g)(w := insert (length (g_log g)) (g_past g w))"
  "g_log (logs g w c a k) = g_log g @ [\<lparr>e_task = w, e_clock = c, e_addr = a, e_kind = k, e_past = g_past g w\<rparr>]"
  by (simp_all add: logs_def)

lemma pasts_access:
  assumes "ghost_tree_ok n g" and pa: "pasts_ok n clk g" and t: "t \<le> n" "t \<notin> g_dead g" "1 \<le> clk t"
    and own: "\<And>w. w \<le> n \<Longrightarrow> sees g w t (clk t) \<longleftrightarrow> w = t"
  shows "pasts_ok n clk (logs g t (clk t) a k)"
proof -
  have tr: "tree_ok n (g_line g)" and dd: "dead_ok n (g_line g) (g_dead g)"
    using assms(1) by (simp_all add: ghost_tree_ok_def)
  let ?g = "logs g t (clk t) a k" and ?m = "length (g_log g)"
  have "e_task (g_log ?g ! i) \<le> n \<and> 1 \<le> e_clock (g_log ?g ! i) \<and>
        e_clock (g_log ?g ! i) \<le> clk (e_task (g_log ?g ! i)) \<and> i \<in> g_past ?g (e_task (g_log ?g ! i))"
    if "i < Suc ?m" for i
    using that pasts_okD(1-4) [OF pa, of i] t by (cases "i = ?m") (auto simp: nth_append)
  moreover have "g_past ?g w \<subseteq> {..<Suc ?m}" if "w \<le> n" for w
    using pasts_okD(5) [OF pa that] by (auto simp: lessThan_Suc)
  moreover have "g_past ?g w \<subseteq> g_past ?g (top (g_line g) (g_dead g) w)" if "w \<le> n" for w
    using pasts_okD(6) [OF pa that] top_self [OF tr t(1) dd t(2)] by auto
  moreover have "i \<in> g_past ?g w \<longleftrightarrow> sees g w (e_task (g_log ?g ! i)) (e_clock (g_log ?g ! i))"
    if w: "w \<le> n" "w \<notin> g_dead g" and i: "i < Suc ?m" for w i
  proof (cases "i = ?m")
    case True
    have "?m \<notin> g_past g w" using pasts_okD(5) [OF pa w(1)] by auto
    then show ?thesis using True own [OF w(1)] by (auto simp: nth_append)
  next
    case False
    then have "i < ?m" using i by simp
    then have "i \<in> g_past ?g w \<longleftrightarrow> i \<in> g_past g w" "g_log ?g ! i = g_log g ! i" by (auto simp: nth_append)
    then show ?thesis using pasts_okD(7) [OF pa w \<open>i < ?m\<close>] by simp
  qed
  ultimately show ?thesis by (simp add: pasts_ok_def)
qed

lemma log_ok_logs:
  assumes "log_ok g" "pasts_ok n clk g" "w \<le> n"
  shows "log_ok (logs g w c a k)"
proof -
  have "g_past g w \<subseteq> {..<length (g_log g)}" by (rule pasts_okD(5) [OF assms(2,3)])
  then show ?thesis using assms(1) by (auto simp: log_ok_def nth_append less_Suc_eq)
qed

section \<open>Pasts are closed\<close>

text \<open>Who has seen an access has seen what its task had seen then.\<close>

definition past_closed :: "nat \<Rightarrow> task_ghost \<Rightarrow> bool" where
  "past_closed n g \<longleftrightarrow> (\<forall>w \<le> n. \<forall>j \<in> g_past g w. e_past (g_log g ! j) \<subseteq> g_past g w)"

lemma past_closedD: "past_closed n g \<Longrightarrow> w \<le> n \<Longrightarrow> j \<in> g_past g w \<Longrightarrow> i \<in> e_past (g_log g ! j) \<Longrightarrow> i \<in> g_past g w"
  unfolding past_closed_def by blast

lemma past_closed_init: "past_closed n ghost_init"
  by (simp add: past_closed_def ghost_init_def)

lemma past_closed_spawn:
  assumes "past_closed n g" "p \<le> n" "g_past g' = (g_past g)(Suc n := g_past g p)" "g_log g' = g_log g"
  shows "past_closed (Suc n) g'"
  using assms(1,2) by (auto simp: past_closed_def assms(3,4) le_Suc_eq)

lemma past_closed_wait:
  assumes "past_closed n g" "p \<le> n" "g_past g' = (g_past g)(p := g_past g p \<union> \<Union> (g_past g ` task_below n g p))"
    "g_log g' = g_log g"
  shows "past_closed n g'"
proof -
  have "w \<le> n" if "w \<in> task_below n g p" for w using that by (simp add: task_below_def)
  then show ?thesis using assms(1,2) unfolding past_closed_def assms(3,4) by (fastforce split: if_splits)
qed

lemma past_closed_logs:
  assumes cl: "past_closed n g" and pa: "pasts_ok n clk g" and w: "w \<le> n"
  shows "past_closed n (logs g w c a k)"
proof -
  have "j < length (g_log g)" if "u \<le> n" "j \<in> g_past g u" for u j using pasts_okD(5) [OF pa that(1)] that(2) by blast
  then show ?thesis using cl w unfolding past_closed_def logs_simps by (auto simp: nth_append) blast+
qed

end
