(* ===== verification/FoRuns.thy ===== *)
theory FoRuns
  imports FtOpt TaskPast
begin

text \<open>
  Runs of the optimised FastTrack that take no locks, with the happens-before order of
  \<open>TaskPast\<close> kept next to them, and the invariant that ties task states, join set and child
  lists to the tree of tasks.  A spawn keeps it, whatever the depth: the clocks of the
  path are spread over the two arrays, the task's own map and the shared root map.
\<close>

section \<open>Traced runs\<close>

abbreviation below :: "ftopt \<Rightarrow> task_ghost \<Rightarrow> nat \<Rightarrow> nat set" where
  "below s g p \<equiv> task_below (task_id_ctr s) g p"

abbreviation node :: "ftopt \<Rightarrow> nat \<Rightarrow> TaskState" where
  "node s t \<equiv> tstate_nodes s t"

abbreviation par :: "ftopt \<Rightarrow> nat \<Rightarrow> nat" where
  "par s t \<equiv> parent_taskId (tstate_nodes s t)"

definition spawn_ghost :: "ftopt \<Rightarrow> task_ghost \<Rightarrow> nat \<Rightarrow> task_ghost" where
  "spawn_ghost s g p =
     g\<lparr>g_line := add_task p (task_id_ctr s) (g_line g),
       g_fork := (g_fork g)(Suc (task_id_ctr s) := clock (node s p)),
       g_past := (g_past g)(Suc (task_id_ctr s) := g_past g p)\<rparr>"

definition wait_ghost :: "ftopt \<Rightarrow> task_ghost \<Rightarrow> nat \<Rightarrow> task_ghost" where
  "wait_ghost s g p =
     g\<lparr>g_dead := join_below p (task_id_ctr s) (g_line g) (g_dead g),
       g_past := (g_past g)(p := g_past g p \<union> \<Union> (g_past g ` below s g p))\<rparr>"

definition fo_ghost_step :: "ftopt \<Rightarrow> task_ghost \<Rightarrow> fo_event \<Rightarrow> task_ghost" where
  "fo_ghost_step s g e =
     (case e of
        FoSpawn th t q \<Rightarrow> spawn_ghost s g (hd (cur s th))
      | FoSpawnRoot th t \<Rightarrow> spawn_ghost s g (hd (cur s th))
      | FoWait th \<Rightarrow> wait_ghost s g (hd (cur s th))
      | FoAccess th a k \<Rightarrow> logs g (hd (cur s th)) (clock (node s (hd (cur s th)))) a k
      | _ \<Rightarrow> g)"

text \<open>
  What a program without locks does under TBB: a task that runs was spawned and runs once, a
  task that \<open>spawn\<close> gets has the current task as its TBB parent, and a task does nothing more
  once a wait has joined it.
\<close>

definition active :: "ftopt \<Rightarrow> task_ghost \<Rightarrow> THREADID \<Rightarrow> bool" where
  "active s g th \<longleftrightarrow> (case cur s th of [] \<Rightarrow> False | t # _ \<Rightarrow> t \<notin> g_dead g)"

definition fo_disciplined :: "ftopt \<Rightarrow> task_ghost \<Rightarrow> fo_event \<Rightarrow> bool" where
  "fo_disciplined s g e \<longleftrightarrow>
     (case e of
        FoSpawn th t q \<Rightarrow> active s g th \<and> q = mytask (node s (hd (cur s th)))
      | FoSpawnRoot th t \<Rightarrow> active s g th
      | FoWait th \<Rightarrow> active s g th
      | FoBegin th t \<Rightarrow> t \<le> task_id_ctr s \<and> kids (node s t) = []
      | FoEnd th \<Rightarrow> True
      | FoAcquire th l \<Rightarrow> False
      | FoRelease th l \<Rightarrow> False
      | FoAccess th a k \<Rightarrow> active s g th)"

definition fo_traced :: "ftopt \<times> task_ghost \<Rightarrow> fo_event \<Rightarrow> (ftopt \<times> task_ghost) option" where
  "fo_traced p e =
     (if fo_disciplined (fst p) (snd p) e
      then do { s \<leftarrow> fo_step (fst p) e; Some (s, fo_ghost_step (fst p) (snd p) e) }
      else None)"

definition fo_reaches :: "fo_event list \<Rightarrow> ftopt \<Rightarrow> task_ghost \<Rightarrow> bool" where
  "fo_reaches es s g \<longleftrightarrow> run fo_traced (TD_Activate, ghost_init) es = Some (s, g)"

section \<open>The invariant\<close>

text \<open>The clock of an ancestor, from the maps; the task's own map goes first.\<close>

definition mapped :: "TaskState \<Rightarrow> nat \<Rightarrow> 32 word option" where
  "mapped x t = (case vc_find (my_vc x) t of Some c \<Rightarrow> Some c | None \<Rightarrow> vc_find (root_vc x) t)"

text \<open>The clocks of the ancestors at depth two and more.\<close>

definition deep_clock :: "(nat \<Rightarrow> nat list) \<Rightarrow> (nat \<Rightarrow> 32 word) \<Rightarrow> nat \<Rightarrow> nat \<Rightarrow> 32 word option" where
  "deep_clock line k t u =
     (if u \<in> set (line t) \<and> u \<noteq> t \<and> 2 < length (line u) then Some (k (branch line t u)) else None)"

definition node_ok :: "(nat \<Rightarrow> nat list) \<Rightarrow> (nat \<Rightarrow> 32 word) \<Rightarrow> nat \<Rightarrow> TaskState \<Rightarrow> bool" where
  "node_ok line k t x \<longleftrightarrow>
     taskId x = t \<and> length (line t) = Suc (depth x) \<and>
     (t \<noteq> 0 \<longrightarrow> parent_taskId x < t \<and> line t = line (parent_taskId x) @ [t]) \<and>
     (\<forall>i < 2. cached_tid x i = (if i < depth x then line t ! i else 0) \<and>
        cached_clock x i = (if i < depth x then k (line t ! Suc i) else 0)) \<and>
     (my_vc x = None \<longleftrightarrow> depth x < 3) \<and> mapped x = deep_clock line k t"

text \<open>The clocks at which the branches of a task were spawned differ and lie below its clock.\<close>

definition forks_ok :: "ftopt \<Rightarrow> (nat \<Rightarrow> 32 word) \<Rightarrow> bool" where
  "forks_ok s k \<longleftrightarrow>
     (\<forall>t \<le> task_id_ctr s. 1 \<le> clock (node s t) \<and> unat (clock (node s t)) \<le> Suc (task_id_ctr s)) \<and>
     (\<forall>t \<le> task_id_ctr s. t \<noteq> 0 \<longrightarrow> 1 \<le> k t \<and> k t < clock (node s (par s t)))"

text \<open>A live task lists its live children, and the join set leads a joined task to its parent.\<close>

definition live_children :: "ftopt \<Rightarrow> nat set \<Rightarrow> nat \<Rightarrow> nat set" where
  "live_children s D t = {c. c \<le> task_id_ctr s \<and> c \<noteq> 0 \<and> par s c = t \<and> c \<notin> D}"

definition lists_ok :: "ftopt \<Rightarrow> nat set \<Rightarrow> bool" where
  "lists_ok s D \<longleftrightarrow>
     (\<forall>t \<le> task_id_ctr s. t \<notin> D \<longrightarrow> distinct (kids (node s t)) \<and> set (kids (node s t)) = live_children s D t)"

definition joins_ok :: "ftopt \<Rightarrow> nat set \<Rightarrow> bool" where
  "joins_ok s D \<longleftrightarrow> (\<forall>t. joinset s (Suc t) = (if t \<in> D then Suc (par s t) else 0))"

definition fo_inv :: "ftopt \<Rightarrow> task_ghost \<Rightarrow> bool" where
  "fo_inv s g \<longleftrightarrow>
     task_id_ctr s < MAX_NUM_TASKS \<and> tree_ok (task_id_ctr s) (g_line g) \<and>
     dead_ok (task_id_ctr s) (g_line g) (g_dead g) \<and>
     (\<forall>t \<le> task_id_ctr s. node_ok (g_line g) (g_fork g) t (node s t)) \<and>
     (\<forall>t > task_id_ctr s. node s t = zero_TaskState) \<and>
     forks_ok s (g_fork g) \<and> lists_ok s (g_dead g) \<and> joins_ok s (g_dead g) \<and>
     (\<forall>th. set (cur s th) \<subseteq> {..task_id_ctr s}) \<and> (\<forall>th \<ge> NUM_THREADS. cur s th = [])"

lemma fo_invD:
  assumes "fo_inv s g"
  shows "task_id_ctr s < MAX_NUM_TASKS" "tree_ok (task_id_ctr s) (g_line g)"
    "dead_ok (task_id_ctr s) (g_line g) (g_dead g)"
    "\<And>t. t \<le> task_id_ctr s \<Longrightarrow> node_ok (g_line g) (g_fork g) t (node s t)"
    "\<And>t. task_id_ctr s < t \<Longrightarrow> node s t = zero_TaskState"
    "forks_ok s (g_fork g)" "lists_ok s (g_dead g)" "joins_ok s (g_dead g)"
    "\<And>th. set (cur s th) \<subseteq> {..task_id_ctr s}" "\<And>th. NUM_THREADS \<le> th \<Longrightarrow> cur s th = []"
  using assms by (simp_all add: fo_inv_def)

lemma fo_kids_zero [simp]: "kids zero_TaskState = []"
  by (simp add: kids_def zero_TaskState_def)

lemma fo_inv_init: "fo_inv TD_Activate ghost_init"
proof -
  have "tree_ok 0 (\<lambda>_. [0])" by (simp add: tree_ok_def)
  moreover have "deep_clock (\<lambda>_. [0]) k 0 = (\<lambda>_. None)" for k by (auto simp: deep_clock_def)
  moreover have "mapped (zero_TaskState\<lparr>clock := 1\<rparr>) = (\<lambda>_. None)"
    by (simp add: fun_eq_iff mapped_def vc_find_def zero_TaskState_def)
  ultimately show ?thesis
    by (simp add: fo_inv_def TD_Activate_def ghost_init_def dead_ok_def node_ok_def forks_ok_def lists_ok_def live_children_def
        joins_ok_def zero_TaskState_def MAX_NUM_TASKS_def NUM_TASK_BITS_def kids_def subset_iff NUM_THREADS_def)
qed

lemma fo_active_top:
  assumes "fo_inv s g" "active s g th"
  obtains t ts where "cur s th = t # ts" "t \<le> task_id_ctr s" "t \<notin> g_dead g" "t < MAX_NUM_TASKS"
    "task_at s t = Some (node s t)" "th < NUM_THREADS" "cur_top s th = Some t"
proof -
  from assms(2) obtain t ts where t: "cur s th = t # ts" "t \<notin> g_dead g"
    by (auto simp: active_def split: list.splits)
  moreover have "t \<le> task_id_ctr s" using fo_invD(9) [OF assms(1), of th] t by simp
  moreover have "th < NUM_THREADS" using fo_invD(10) [OF assms(1), of th] t(1) by (metis list.distinct(1) not_le)
  ultimately show thesis using that fo_invD(1) [OF assms(1)] by (simp add: task_at_def cur_top_def)
qed

lemma fo_line_par:
  assumes inv: "fo_inv s g" and t: "t \<le> task_id_ctr s" "t \<noteq> 0"
  shows "g_line g t = g_line g (par s t) @ [t]" "par s t < t" "par s t \<le> task_id_ctr s"
    "par s t \<in> set (g_line g t)"
proof -
  show l: "g_line g t = g_line g (par s t) @ [t]" "par s t < t"
    using fo_invD(4) [OF inv t(1)] t(2) by (simp_all add: node_ok_def)
  then show p: "par s t \<le> task_id_ctr s" using t(1) by simp
  show "par s t \<in> set (g_line g t)" using tree_line(6) [OF fo_invD(2) [OF inv] p] l(1) by simp
qed

end
