(* ===== verification/FoSpawn.thy ===== *)
theory FoSpawn
  imports FoRuns
begin

text \<open>
  A spawn keeps the invariant of \<open>FoRuns\<close>: looking a task up in the new task state finds
  the clock of its branch, whether the path fits the arrays and the map or a large map has
  been moved to the root map.
\<close>

section \<open>The new task state\<close>

definition child_node :: "TaskState \<Rightarrow> nat \<Rightarrow> nat \<Rightarrow> nat \<Rightarrow> TaskState" where
  "child_node x p c t =
     (let d = depth x; n = min d NUM_FIXED_TASK_ENTRIES;
          ct = copy_below n (cached_tid x) (\<lambda>_. 0); cc = copy_below n (cached_clock x) (\<lambda>_. 0);
          m = (case my_vc x of None \<Rightarrow> [] | Some m \<Rightarrow> m); r = (case root_vc x of None \<Rightarrow> [] | Some r \<Rightarrow> r);
          big = MAX_MVC_SIZE < length m in
      \<lparr>cached_tid = (if d < NUM_FIXED_TASK_ENTRIES then ct(d := p) else ct),
       cached_clock = (if d < NUM_FIXED_TASK_ENTRIES then cc(d := clock x) else cc),
       depth = d + 1, parent_taskId = p, mytask = Some t, child_list = None,
       my_vc = (if d < NUM_FIXED_TASK_ENTRIES then None else Some (AList.update p (clock x) (if big then [] else m))),
       root_vc = (if big then Some (umap_insert_all m r) else root_vc x), taskId = c, clock = 1\<rparr>)"

definition spawner :: "TaskState \<Rightarrow> nat \<Rightarrow> TaskState" where
  "spawner x c = x\<lparr>clock := clock x + 1, child_list := Some (kids x @ [c])\<rparr>"

lemma fo_CaptureSpawn_eq:
  assumes x: "node_ok line k p (tstate_nodes s p)" and p: "p < MAX_NUM_TASKS" and c: "tstate_nodes s c = zero_TaskState" "p \<noteq> c"
  shows "CaptureSpawn s t p c =
    (if c < MAX_NUM_TASKS
     then Some (s\<lparr>tstate_nodes := (tstate_nodes s)(p := spawner (tstate_nodes s p) c, c := child_node (tstate_nodes s p) p c t)\<rparr>)
     else None)"
proof (cases "c < MAX_NUM_TASKS")
  case True
  let ?x = "tstate_nodes s p"
  note ev = CaptureSpawn_def task_at_def inherit_vc_def record_parent_def Let_def child_node_def spawner_def kids_def
    zero_TaskState_def NUM_FIXED_TASK_ENTRIES_def
  have d: "my_vc ?x = None \<longleftrightarrow> depth ?x < 3" using x by (simp add: node_ok_def)
  consider "depth ?x < 2" "my_vc ?x = None" | "depth ?x = 2" "my_vc ?x = None" | m where "3 \<le> depth ?x" "my_vc ?x = Some m"
    using d by (cases "my_vc ?x") (auto simp: not_less less_Suc_eq numeral_eq_Suc)
  then show ?thesis
  proof cases
    case (3 m)
    then show ?thesis using True p c by (cases "MAX_MVC_SIZE < length m") (auto simp: ev split: option.splits)
  qed (use True p c in \<open>auto simp: ev split: option.splits\<close>)
qed (simp add: CaptureSpawn_def task_at_def)

section \<open>The new task state is right\<close>

lemma map_of_umap_insert:
  "map_of (umap_insert m k v) = (if k \<in> dom (map_of m) then map_of m else (map_of m)(k \<mapsto> v))"
  by (auto simp: umap_insert_def fun_eq_iff dom_map_of_conv_image_fst map_add_def split: option.splits)
    (metis map_of_eq_None_iff option.distinct(1))

lemma map_of_umap_insert_all: "map_of (umap_insert_all m r) = map_of r ++ map_of m"
proof (induction r arbitrary: m)
  case (Cons e r)
  obtain k v where e: "e = (k, v)" by (cases e)
  have "map_of (umap_insert_all m (e # r)) = map_of r ++ map_of (umap_insert m k v)"
    using Cons.IH [of "umap_insert m k v"] by (simp add: umap_insert_all_def e)
  then show ?case by (auto simp: e map_of_umap_insert fun_eq_iff map_add_def split: option.splits)
qed (simp add: umap_insert_all_def)

lemma mapped_child:
  assumes "my_vc x = None \<longleftrightarrow> depth x < 3"
  shows "mapped (child_node x p c t) = (if depth x < 2 then mapped x else (mapped x)(p \<mapsto> clock x))"
  using assms
  by (auto simp: mapped_def child_node_def Let_def vc_find_def NUM_FIXED_TASK_ENTRIES_def fun_eq_iff update_conv'
      map_of_umap_insert_all map_add_def MAX_MVC_SIZE_def split: option.splits)

lemma deep_clock_child:
  assumes tr: "tree_ok n line" and p: "p \<le> n"
  shows "deep_clock (add_task p n line) (k(Suc n := c)) (Suc n) =
    (if length (line p) < 3 then deep_clock line k p else (deep_clock line k p)(p \<mapsto> c))"
proof
  fix u
  have le: "x \<le> n" if "x \<in> set (line p)" for x using tree_line_le [OF tr p that] .
  have br: "branch line p u \<le> n" if "u \<in> set (line p)" "u \<noteq> p"
    using branch_on_line(1) [OF tr p that] le by blast
  have self: "p \<in> set (line p)" by (rule tree_line(6) [OF tr p])
  have ns: "Suc n \<notin> set (line p)" using le [of "Suc n"] by auto
  show "deep_clock (add_task p n line) (k(Suc n := c)) (Suc n) u =
    (if length (line p) < 3 then deep_clock line k p else (deep_clock line k p)(p \<mapsto> c)) u"
  proof (cases "u \<in> set (line p)")
    case True
    have "u \<le> n" by (rule le [OF True])
    then show ?thesis
      using True self p br branch_add_new [OF tr p True]
      by (cases "u = p") (auto simp: deep_clock_def add_task_new add_task_old)
  next
    case False
    then show ?thesis using self by (auto simp: deep_clock_def add_task_new)
  qed
qed

lemma fo_node_ok_child:
  assumes tr: "tree_ok n line" and p: "p \<le> n" and x: "node_ok line k p x"
  shows "node_ok (add_task p n line) (k(Suc n := clock x)) (Suc n) (child_node x p (Suc n) t)"
proof -
  have len: "length (line p) = Suc (depth x)" and my: "my_vc x = None \<longleftrightarrow> depth x < 3" using x by (simp_all add: node_ok_def)
  have le: "line p ! i \<le> n" if "i \<le> depth x" for i using tree_line_le [OF tr p, of "line p ! i"] len that by simp
  have lp: "line p ! depth x = p" using tree_line(1,3) [OF tr p] len by (simp add: last_conv_nth)
  have cached: "cached_tid x i = line p ! i" "cached_clock x i = k (line p ! Suc i)" if "i < depth x" "i < 2" for i
    using x that by (simp_all add: node_ok_def)
  have at: "add_task p n line (Suc n) ! i = (if i \<le> depth x then line p ! i else Suc n)" if "i \<le> Suc (depth x)" for i
    using that len by (simp add: add_task_new nth_append less_Suc_eq_le)
  have kat: "(k(Suc n := clock x)) (add_task p n line (Suc n) ! Suc i) = (if i < depth x then k (line p ! Suc i) else clock x)"
    if "i \<le> depth x" for i
  proof -
    have "line p ! Suc i \<noteq> Suc n" if "i < depth x" using le [of "Suc i"] that by auto
    then show ?thesis using that at [of "Suc i"] by auto
  qed
  let ?y = "child_node x p (Suc n) t"
  have y: "taskId ?y = Suc n" "depth ?y = Suc (depth x)" "parent_taskId ?y = p" "my_vc ?y = None \<longleftrightarrow> depth x < 2"
    by (simp_all add: child_node_def Let_def NUM_FIXED_TASK_ENTRIES_def)
  have "cached_tid ?y i = (if i < Suc (depth x) then add_task p n line (Suc n) ! i else 0) \<and>
      cached_clock ?y i = (if i < Suc (depth x) then (k(Suc n := clock x)) (add_task p n line (Suc n) ! Suc i) else 0)" if "i < 2" for i
    using that at [of i] kat [of i] cached [of i] lp
    by (cases "i = depth x") (auto simp: child_node_def Let_def copy_below_def NUM_FIXED_TASK_ENTRIES_def)
  moreover have "mapped ?y = deep_clock (add_task p n line) (k(Suc n := clock x)) (Suc n)"
    using x len mapped_child [OF my] deep_clock_child [OF tr p] by (simp add: node_ok_def)
  ultimately show ?thesis using y p len by (simp add: node_ok_def add_task_old add_task_new)
qed

section \<open>The invariant after a spawn\<close>

lemma fo_node_ok_old:
  assumes tr: "tree_ok n line" and t: "t \<le> n" and x: "node_ok line k t x"
  shows "node_ok (add_task p n line) (k(Suc n := c)) t x"
proof -
  have len: "length (line t) = Suc (depth x)" using x by (simp add: node_ok_def)
  have k: "(k(Suc n := c)) (line t ! Suc i) = k (line t ! Suc i)" if "i < depth x" for i
  proof -
    have "line t ! Suc i \<le> n" using tree_line_le [OF tr t, of "line t ! Suc i"] len that by simp
    then show ?thesis by simp
  qed
  have "t \<noteq> 0 \<Longrightarrow> parent_taskId x < t" using x by (simp add: node_ok_def)
  then have l: "add_task p n line t = line t" "t \<noteq> 0 \<Longrightarrow> add_task p n line (parent_taskId x) = line (parent_taskId x)"
    using t by (simp_all add: add_task_old)
  have "deep_clock (add_task p n line) (k(Suc n := c)) t = deep_clock line k t"
  proof
    fix u
    have "branch line t u \<le> n" if "u \<in> set (line t)" "u \<noteq> t"
      using branch_on_line(1) [OF tr t that] tree_line_le [OF tr t] by blast
    moreover have "u \<le> n" if "u \<in> set (line t)" using tree_line_le [OF tr t that] .
    ultimately show "deep_clock (add_task p n line) (k(Suc n := c)) t u = deep_clock line k t u"
      using branch_add_old [OF tr t] l(1) by (auto simp: deep_clock_def add_task_old)
  qed
  then show ?thesis using x k l by (simp add: node_ok_def)
qed

lemma fo_node_ok_spawner: "node_ok line k t (spawner x c) \<longleftrightarrow> node_ok line k t x"
proof -
  have "mapped (spawner x c) = mapped x" by (simp add: spawner_def mapped_def fun_eq_iff cong: option.case_cong)
  then show ?thesis by (simp add: node_ok_def) (simp add: spawner_def)
qed

lemma fo_spawner_simps [simp]:
  "kids (spawner x c) = kids x @ [c]" "clock (spawner x c) = clock x + 1"
  "parent_taskId (spawner x c) = parent_taskId x"
  by (simp_all add: spawner_def kids_def)

lemma fo_child_node_simps [simp]:
  "kids (child_node x p c t) = []" "clock (child_node x p c t) = 1" "parent_taskId (child_node x p c t) = p"
  by (simp_all add: child_node_def kids_def Let_def)

text \<open>Clocks are counted by the tasks spawned, so they do not wrap around.\<close>

lemma fo_clock_small:
  assumes "fo_inv s g" "t \<le> task_id_ctr s"
  shows "unat (clock (node s t)) \<le> Suc (task_id_ctr s)" "unat (clock (node s t)) < 2 ^ 31 - 1"
    "1 \<le> clock (node s t)" "unat (clock (node s t) + 1) = Suc (unat (clock (node s t)))"
    "clock (node s t) < clock (node s t) + 1" "clock (node s t) \<le> INT_MAX"
proof -
  show a: "1 \<le> clock (node s t)" "unat (clock (node s t)) \<le> Suc (task_id_ctr s)"
    using fo_invD(6) [OF assms(1)] assms(2) by (simp_all add: forks_ok_def)
  then show b: "unat (clock (node s t)) < 2 ^ 31 - 1"
    using fo_invD(1) [OF assms(1)] by (simp add: MAX_NUM_TASKS_def NUM_TASK_BITS_def)
  then show c: "unat (clock (node s t) + 1) = Suc (unat (clock (node s t)))" by (simp add: unat_word_ariths)
  then show "clock (node s t) < clock (node s t) + 1" by (simp add: word_less_nat_alt)
  show "clock (node s t) \<le> INT_MAX" using b by (simp add: word_le_nat_alt INT_MAX_def)
qed

definition spawned :: "ftopt \<Rightarrow> nat \<Rightarrow> nat \<Rightarrow> ftopt" where
  "spawned s p t =
     s\<lparr>task_id_ctr := Suc (task_id_ctr s),
       tstate_nodes := (tstate_nodes s)(p := spawner (node s p) (Suc (task_id_ctr s)),
         Suc (task_id_ctr s) := child_node (node s p) p (Suc (task_id_ctr s)) t)\<rparr>"

lemma fo_spawn_result:
  assumes inv: "fo_inv s g" and d: "fo_disciplined s g e" and st: "fo_step s e = Some s'"
    and e: "e = FoSpawn th t q \<or> e = FoSpawnRoot th t"
  obtains p ts where "cur s th = p # ts" "p \<le> task_id_ctr s" "p \<notin> g_dead g" "s' = spawned s p t"
    "Suc (task_id_ctr s) < MAX_NUM_TASKS" "fo_ghost_step s g e = spawn_ghost s g p"
proof -
  have a: "active s g th" using d e by (auto simp: fo_disciplined_def)
  obtain p ts where p: "cur s th = p # ts" "p \<le> task_id_ctr s" "p \<notin> g_dead g" "p < MAX_NUM_TASKS"
    "task_at s p = Some (node s p)" "cur_top s th = Some p"
    by (rule fo_active_top [OF inv a])
  let ?s = "s\<lparr>task_id_ctr := Suc (task_id_ctr s)\<rparr>"
  have eq: "CaptureSpawn ?s t p (Suc (task_id_ctr s)) =
    (if Suc (task_id_ctr s) < MAX_NUM_TASKS then Some (spawned s p t) else None)"
    using fo_CaptureSpawn_eq [of "g_line g" "g_fork g" p ?s "Suc (task_id_ctr s)" t] fo_invD(4,5) [OF inv] p by (simp add: spawned_def)
  have "cur_top ?s th = cur_top s th" "task_at ?s p = task_at s p" by (simp_all add: cur_top_def task_at_def)
  then have "CaptureSpawn ?s t p (Suc (task_id_ctr s)) = Some s'"
    using st d e p(1,5,6) by (auto simp: spawn_def fo_disciplined_def Let_def)
  then show thesis using that p eq e by (auto simp: fo_ghost_step_def split: if_splits)
qed

lemma fo_spawned_node:
  "p \<le> task_id_ctr s \<Longrightarrow> t \<le> task_id_ctr s \<Longrightarrow>
     node (spawned s p x) t = (if t = p then spawner (node s p) (Suc (task_id_ctr s)) else node s t)"
  "node (spawned s p x) (Suc (task_id_ctr s)) = child_node (node s p) p (Suc (task_id_ctr s)) x"
  "task_id_ctr (spawned s p x) = Suc (task_id_ctr s)"
  by (simp_all add: spawned_def)

lemma fo_spawn_forks:
  assumes inv: "fo_inv s g" and p: "p \<le> task_id_ctr s"
  shows "forks_ok (spawned s p x) ((g_fork g)(Suc (task_id_ctr s) := clock (node s p)))"
proof -
  let ?n = "task_id_ctr s" and ?k = "g_fork g" and ?s = "spawned s p x"
  let ?k' = "?k(Suc ?n := clock (node s p))"
  note cp = fo_clock_small [OF inv p]
  have par: "par ?s t = (if t = Suc ?n then p else par s t)" if "t \<le> Suc ?n" for t
    using that p by (cases "t = Suc ?n") (simp_all add: fo_spawned_node)
  have le: "1 \<le> clock (node s p) + 1" using cp(3,5) by simp
  have clk: "1 \<le> clock (node ?s t) \<and> unat (clock (node ?s t)) \<le> Suc (Suc ?n)" if "t \<le> Suc ?n" for t
  proof (cases "t = Suc ?n")
    case False
    then have tn: "t \<le> ?n" using that by simp
    show ?thesis using fo_clock_small(1,3) [OF inv tn] cp(1,4) le by (simp add: fo_spawned_node(1) [OF p tn])
  qed (simp add: fo_spawned_node)
  have pclk: "clock (node s (par s t)) \<le> clock (node ?s (par s t))" if "t \<le> ?n" "t \<noteq> 0" for t
    using fo_line_par(3) [OF inv that] cp(5) by (auto simp: fo_spawned_node(1) [OF p])
  have kold: "1 \<le> ?k t" "?k t < clock (node s (par s t))" if "t \<le> ?n" "t \<noteq> 0" for t
    using fo_invD(6) [OF inv] that unfolding forks_ok_def by blast+
  have "1 \<le> ?k' t \<and> ?k' t < clock (node ?s (par ?s t))" if t: "t \<le> Suc ?n" "t \<noteq> 0" for t
  proof (cases "t = Suc ?n")
    case True
    then show ?thesis using cp p by (simp add: par fo_spawned_node)
  next
    case False
    then have tn: "t \<le> ?n" using t by simp
    have "?k t < clock (node ?s (par s t))" using kold(2) [OF tn t(2)] pclk [OF tn t(2)] by (rule order.strict_trans2)
    then show ?thesis using kold(1) [OF tn t(2)] False tn by (simp add: par)
  qed
  then show ?thesis using clk unfolding forks_ok_def fo_spawned_node(3) by blast
qed

lemma fo_spawned_inv:
  assumes inv: "fo_inv s g" and p: "p \<le> task_id_ctr s" "p \<notin> g_dead g" and lim: "Suc (task_id_ctr s) < MAX_NUM_TASKS"
  shows "fo_inv (spawned s p t) (spawn_ghost s g p)"
proof -
  let ?n = "task_id_ctr s" and ?D = "g_dead g" and ?l = "g_line g" and ?k = "g_fork g" and ?s = "spawned s p t"
  let ?k' = "?k(Suc ?n := clock (node s p))"
  note tr = fo_invD(2) [OF inv] and dd = fo_invD(3) [OF inv]
  have g': "g_line (spawn_ghost s g p) = add_task p ?n ?l" "g_fork (spawn_ghost s g p) = ?k'"
    "g_dead (spawn_ghost s g p) = ?D"
    by (simp_all add: spawn_ghost_def)
  have ns: "Suc ?n \<notin> ?D" and dn: "u \<in> ?D \<Longrightarrow> u \<le> ?n" for u using dd by (auto simp: dead_ok_def)
  have nodes: "node_ok (add_task p ?n ?l) ?k' u (node ?s u)" if u: "u \<le> Suc ?n" for u
  proof (cases "u = Suc ?n")
    case True
    then show ?thesis using fo_node_ok_child [OF tr p(1) fo_invD(4) [OF inv p(1)]] by (simp add: fo_spawned_node)
  next
    case False
    then have un: "u \<le> ?n" using u by simp
    show ?thesis using fo_node_ok_old [OF tr un fo_invD(4) [OF inv un]]
      by (auto simp: fo_spawned_node(1) [OF p(1) un] fo_node_ok_spawner)
  qed
  have par: "par ?s u = (if u = Suc ?n then p else par s u)" if "u \<le> Suc ?n" for u
    using that p by (cases "u = Suc ?n") (simp_all add: fo_spawned_node)
  have "distinct (kids (node ?s u)) \<and> set (kids (node ?s u)) = live_children ?s ?D u" if u: "u \<le> Suc ?n" "u \<notin> ?D" for u
  proof (cases "u = Suc ?n")
    case True
    have "par ?s c \<noteq> Suc ?n" if "c \<le> Suc ?n" "c \<noteq> 0" for c
      using that par [of c] p(1) fo_line_par(3) [OF inv, of c] by (cases "c = Suc ?n") auto
    then show ?thesis using True by (auto simp: fo_spawned_node live_children_def)
  next
    case False
    then have un: "u \<le> ?n" using u by simp
    have k: "distinct (kids (node s u))" "set (kids (node s u)) = live_children s ?D u"
      using fo_invD(7) [OF inv] un u(2) by (simp_all add: lists_ok_def)
    moreover have "live_children ?s ?D u = live_children s ?D u \<union> (if u = p then {Suc ?n} else {})"
      using ns par by (auto simp: le_Suc_eq live_children_def fo_spawned_node)
    moreover have "kids (node ?s u) = kids (node s u) @ (if u = p then [Suc ?n] else [])"
      by (simp add: fo_spawned_node(1) [OF p(1) un])
    moreover have "Suc ?n \<notin> live_children s ?D u" by (simp add: live_children_def)
    ultimately show ?thesis by auto
  qed
  then have lists: "lists_ok ?s ?D" by (simp add: lists_ok_def fo_spawned_node)
  have js: "joinset ?s = joinset s" "cur ?s = cur s" by (simp_all add: spawned_def)
  have joins: "joins_ok ?s ?D" using fo_invD(8) [OF inv] ns par [OF le_SucI [OF dn]] by (simp add: joins_ok_def js)
  have zero: "node ?s u = zero_TaskState" if "Suc ?n < u" for u
    using fo_invD(5) [OF inv, of u] that p(1) by (simp add: spawned_def)
  have "set (cur ?s th) \<subseteq> {..Suc ?n}" for th using fo_invD(9) [OF inv, of th] by (auto simp: js)
  then show ?thesis
    unfolding fo_inv_def g' fo_spawned_node(3)
    using lim tree_ok_add [OF tr p(1)] dead_ok_add [OF tr p dd] nodes zero
      fo_spawn_forks [OF inv p(1), of t] lists joins fo_invD(10) [OF inv] js by simp
qed

end
