(* ===== verification/FoWait.thy ===== *)
theory FoWait
  imports FoSpawn
begin

text \<open>
  Waiting returns, for every tree of children: it leads the join set from every live task
  below to its parent and clears their child lists.  Every event of a disciplined run keeps
  the invariant of \<open>FoRuns\<close>.
\<close>

section \<open>What the loop does\<close>

definition clear_kids :: "TaskState \<Rightarrow> TaskState" where
  "clear_kids x = x\<lparr>child_list := map_option (\<lambda>_. []) (child_list x)\<rparr>"

text \<open>\<open>p\<close> and the tasks \<open>C\<close> lose their lists, the tasks \<open>C\<close> are joined to their parents.\<close>

definition joined :: "ftopt \<Rightarrow> nat \<Rightarrow> nat set \<Rightarrow> ftopt" where
  "joined s p C =
     s\<lparr>tstate_nodes := (\<lambda>x. if x = p \<or> x \<in> C then clear_kids (node s x) else node s x),
       joinset := (\<lambda>y. if y \<noteq> 0 \<and> y - 1 \<in> C then Suc (par s (y - 1)) else joinset s y)\<rparr>"

definition live_below :: "ftopt \<Rightarrow> task_ghost \<Rightarrow> nat set \<Rightarrow> nat set" where
  "live_below s g cs = {x. x \<le> task_id_ctr s \<and> x \<notin> g_dead g \<and> (\<exists>c \<in> cs. c \<in> set (g_line g x))}"

lemma fo_clear_kids_simps [simp]:
  "kids (clear_kids x) = []" "parent_taskId (clear_kids x) = parent_taskId x" "taskId (clear_kids x) = taskId x"
  "clock (clear_kids x) = clock x" "clear_kids (clear_kids x) = clear_kids x"
  by (auto simp: clear_kids_def kids_def option.map_comp o_def split: option.splits)

lemma fo_clear_kids_empty: "kids x = [] \<Longrightarrow> clear_kids x = x"
  by (cases "child_list x") (auto simp: clear_kids_def kids_def)

lemma fo_clear_zero [simp]: "clear_kids zero_TaskState = zero_TaskState"
  by (simp add: fo_clear_kids_empty)

lemma fo_node_ok_clear [simp]: "node_ok line k t (clear_kids x) \<longleftrightarrow> node_ok line k t x"
proof -
  have "mapped (clear_kids x) = mapped x" by (simp add: clear_kids_def mapped_def fun_eq_iff cong: option.case_cong)
  then show ?thesis by (simp add: node_ok_def) (simp add: clear_kids_def)
qed

lemma fo_joined_simps [simp]:
  "task_id_ctr (joined s p C) = task_id_ctr s"   "cur (joined s p C) = cur s"
  "par (joined s p C) x = par s x" "taskId (node (joined s p C) x) = taskId (node s x)"
  "node (joined s p C) x = (if x = p \<or> x \<in> C then clear_kids (node s x) else node s x)"
  "joinset (joined s p C) (Suc x) = (if x \<in> C then Suc (par s x) else joinset s (Suc x))"
  by (simp_all add: joined_def)

lemma fo_joined_empty: "kids (node s p) = [] \<Longrightarrow> joined s p {} = s"
  by (rule ftopt.equality) (auto simp: joined_def fo_clear_kids_empty fun_eq_iff)

lemma fo_joined_Nil: "joined s p {} = clear_list p s"
  by (rule ftopt.equality) (auto simp: joined_def clear_list_def upd_node_def clear_kids_def)

lemma fo_joined_Cons:
  assumes "taskId (node s c) = c" "taskId (node s p) = p" "par s c = p" "c \<noteq> p"
  shows "joined (let s2 = joined s c C in s2\<lparr>joinset := (joinset s2)(taskId (node s2 c) + 1 := taskId (node s2 p) + 1)\<rparr>) p E =
    joined s p (insert c (C \<union> E))"
  using assms by (intro ftopt.equality) (auto simp: joined_def Let_def fun_eq_iff)

section \<open>The loop returns\<close>

lemma fo_live_above:
  assumes inv: "fo_inv s g" and x: "x \<le> task_id_ctr s" "x \<notin> g_dead g" "c \<in> set (g_line g x)"
  shows "c \<le> task_id_ctr s" "c \<notin> g_dead g"
  using tree_line_le [OF fo_invD(2) [OF inv] x(1,3)] dead_below [OF fo_invD(3) [OF inv] _ x(1,3)] x(2) by blast+

lemma fo_child_line:
  assumes inv: "fo_inv s g" and x: "x \<le> task_id_ctr s" "p \<in> set (g_line g x)" "x \<noteq> p"
  shows "par s (branch (g_line g) x p) = p" "branch (g_line g) x p \<noteq> 0" "branch (g_line g) x p \<in> set (g_line g x)"
proof -
  note tr = fo_invD(2) [OF inv]
  let ?c = "branch (g_line g) x p"
  note b = branch_on_line [OF tr x(1,2) x(3) [symmetric]]
  show "?c \<in> set (g_line g x)" by (rule b(1))
  have cn: "?c \<le> task_id_ctr s" using tree_line_le [OF tr x(1) b(1)] .
  have pn: "p \<le> task_id_ctr s" using tree_line_le [OF tr x(1,2)] .
  have "0 < length (g_line g p)" using tree_line(1) [OF tr pn] by simp
  then have "1 < length (g_line g ?c)" using b(2) by simp
  moreover have "g_line g 0 = [0]"
    using fo_invD(4) [OF inv, of 0] tree_line(1-4) [OF tr, of 0]
    by (cases "g_line g 0" rule: rev_cases) (auto simp: sorted_wrt_append hd_append split: if_splits)
  ultimately show c0: "?c \<noteq> 0" by (metis One_nat_def length_Cons less_irrefl list.size(3))
  note l = fo_line_par [OF inv cn c0]
  have ne: "p \<noteq> ?c" using b(2) by auto
  have "p \<in> set (g_line g (par s ?c))"
    using b(3) ne l(1) by simp
  moreover have "length (g_line g (par s ?c)) = length (g_line g p)" using b(2) l(1) by simp
  ultimately have "par s ?c \<in> set (g_line g p)"
    using tree_length_le [OF tr l(3) tree_line(6) [OF tr l(3)], of p] by simp
  then show "par s ?c = p" using tree_antisym [OF tr _ \<open>p \<in> set (g_line g (par s ?c))\<close> l(3) pn] by simp
qed

lemma fo_child_branch:
  assumes inv: "fo_inv s g" and x: "x \<le> task_id_ctr s" "c \<in> set (g_line g x)" "c \<noteq> 0"
  shows "branch (g_line g) x (par s c) = c" "par s c \<in> set (g_line g x)"
proof -
  note tr = fo_invD(2) [OF inv]
  have cn: "c \<le> task_id_ctr s" using tree_line_le [OF tr x(1,2)] .
  note l = fo_line_par [OF inv cn x(3)] and p = tree_prefix [OF tr x(1,2)]
  have "length (g_line g c) = Suc (length (g_line g (par s c)))" using l(1) by simp
  then show "branch (g_line g) x (par s c) = c" using p(5) by (simp add: branch_def)
  show "par s c \<in> set (g_line g x)" using tree_trans [OF tr x(1,2) l(4)] .
qed

lemma fo_live_below_child:
  assumes inv: "fo_inv s g" and c: "c \<le> task_id_ctr s" "c \<notin> g_dead g"
  shows "live_below s g {c} = insert c (live_below s g (live_children s (g_dead g) c))"
proof (intro set_eqI iffI)
  fix x assume "x \<in> live_below s g {c}"
  then have x: "x \<le> task_id_ctr s" "x \<notin> g_dead g" "c \<in> set (g_line g x)" by (simp_all add: live_below_def)
  show "x \<in> insert c (live_below s g (live_children s (g_dead g) c))"
  proof (cases "x = c")
    case False
    note b = fo_child_line [OF inv x(1,3) False]
    have "branch (g_line g) x c \<in> live_children s (g_dead g) c"
      using b fo_live_above [OF inv x(1,2) b(3)] by (simp add: live_children_def)
    then show ?thesis using x b(3) by (auto simp: live_below_def)
  qed simp
next
  fix x assume x: "x \<in> insert c (live_below s g (live_children s (g_dead g) c))"
  show "x \<in> live_below s g {c}"
  proof (cases "x = c")
    case True
    then show ?thesis using c tree_line(6) [OF fo_invD(2) [OF inv] c(1)] by (simp add: live_below_def)
  next
    case False
    then obtain d where d: "d \<noteq> 0" "par s d = c" "d \<in> set (g_line g x)" "x \<le> task_id_ctr s" "x \<notin> g_dead g"
      using x by (auto simp: live_below_def live_children_def)
    then show ?thesis using fo_child_branch(2) [OF inv d(4,3,1)] by (simp add: live_below_def)
  qed
qed

lemma fo_live_below_Un: "live_below s g (A \<union> B) = live_below s g A \<union> live_below s g B"
  by (auto simp: live_below_def)

definition same_tree :: "ftopt \<Rightarrow> ftopt \<Rightarrow> bool" where
  "same_tree s s1 \<longleftrightarrow> (\<forall>x \<le> task_id_ctr s. par s1 x = par s x \<and> taskId (node s1 x) = x)"

lemma fo_wait_children_joined:
  assumes inv: "fo_inv s g"
  shows "p \<le> task_id_ctr s \<Longrightarrow> same_tree s s1 \<Longrightarrow> distinct cs \<Longrightarrow> set cs \<subseteq> live_children s (g_dead g) p \<Longrightarrow>
    (\<forall>x \<in> live_below s g (set cs). kids (node s1 x) = kids (node s x)) \<Longrightarrow>
    wait_children s1 p cs = Some (joined s1 p (live_below s g (set cs)))"
proof (induction "task_id_ctr s - p" arbitrary: p s1 cs rule: less_induct)
  case (less p)
  note outer = less.hyps and pn = less.prems(1)
  show ?case using less.prems(2-)
  proof (induction cs arbitrary: s1)
    case Nil
    then show ?case by (simp add: wait_children.simps live_below_def fo_joined_Nil)
  next
    case (Cons c cs)
    let ?D = "g_dead g" and ?n = "task_id_ctr s"
    let ?ks = "kids (node s c)" and ?B = "live_below s g (live_children s (g_dead g) c)"
    have c: "c \<le> ?n" "c \<noteq> 0" "par s c = p" "c \<notin> ?D" using Cons.prems(3) by (simp_all add: live_children_def)
    have pc: "p < c" using fo_line_par(2) [OF inv c(1,2)] c(3) by simp
    have ks: "distinct ?ks" "set ?ks = live_children s ?D c"
      using fo_invD(7) [OF inv] c by (simp_all add: lists_ok_def)
    have split: "live_below s g (set (c # cs)) = insert c ?B \<union> live_below s g (set cs)"
      using fo_live_below_Un [of s g "{c}" "set cs"] fo_live_below_child [OF inv c(1,4)] by simp
    have k1: "kids (node s1 c) = ?ks" "\<forall>x \<in> ?B. kids (node s1 x) = kids (node s x)"
      "\<forall>x \<in> live_below s g (set cs). kids (node s1 x) = kids (node s x)"
      using Cons.prems(4) unfolding split by blast+
    have tid: "taskId (node s1 c) = c" "taskId (node s1 p) = p" "par s1 c = p"
      using Cons.prems(1) c pn by (simp_all add: same_tree_def)
    have "wait_children s1 c ?ks = Some (joined s1 c ?B)" if "?ks \<noteq> []"
      using outer [OF _ c(1) Cons.prems(1) ks(1)] ks(2) k1(2) pc c(1) by simp
    moreover have "s1 = joined s1 c ?B" if "?ks = []"
      using that ks(2) fo_joined_empty [of s1 c] k1(1) by (simp add: live_below_def)
    moreover have "task_at s1 c = Some (node s1 c)" using c(1) fo_invD(1) [OF inv] by (simp add: task_at_def)
    ultimately have eq: "wait_children s1 p (c # cs) =
        wait_children (let s2 = joined s1 c ?B in
          s2\<lparr>joinset := (joinset s2)(taskId (node s2 c) + 1 := taskId (node s2 p) + 1)\<rparr>) p cs" (is "_ = wait_children ?s3 p cs")
      using k1(1) tid(1) c(2) by (subst wait_children.simps) (auto simp: Let_def simp del: fo_joined_simps)
    have "same_tree s ?s3" using Cons.prems(1) by (auto simp: same_tree_def Let_def)
    moreover have "\<forall>x \<in> live_below s g (set cs). kids (node ?s3 x) = kids (node s x)"
    proof
      fix x assume x: "x \<in> live_below s g (set cs)"
      then obtain d where d: "d \<in> set cs" "d \<in> set (g_line g x)" "x \<le> ?n" "x \<notin> ?D" by (auto simp: live_below_def)
      have dp: "par s d = p" "d \<noteq> 0" using Cons.prems(3) d(1) by (auto simp: live_children_def)
      have "c \<notin> set (g_line g x)"
      proof
        assume "c \<in> set (g_line g x)"
        then have "c = d" using fo_child_branch(1) [OF inv d(3) _ c(2)] fo_child_branch(1) [OF inv d(3,2) dp(2)] c(3) dp(1) by simp
        then show False using d(1) Cons.prems(2) by simp
      qed
      then have "x \<notin> live_below s g {c}" by (simp add: live_below_def)
      then have "x \<noteq> c" "x \<notin> ?B" using fo_live_below_child [OF inv c(1,4)] by blast+
      then show "kids (node ?s3 x) = kids (node s x)" using k1(3) x by (simp add: Let_def)
    qed
    ultimately have "wait_children ?s3 p cs = Some (joined ?s3 p (live_below s g (set cs)))"
      using Cons.IH [of ?s3] Cons.prems(2,3) by simp
    then show ?case
      using eq fo_joined_Cons [OF tid(1,2,3), of ?B "live_below s g (set cs)"] pc unfolding split by simp
  qed
qed

section \<open>The invariant after a wait\<close>

lemma fo_live_below_all:
  assumes inv: "fo_inv s g" and p: "p \<le> task_id_ctr s" "p \<notin> g_dead g"
  shows "live_below s g (set (kids (node s p))) = below s g p - g_dead g" "p \<notin> below s g p"
proof -
  have "set (kids (node s p)) = live_children s (g_dead g) p"
    using fo_invD(7) [OF inv] p by (simp add: lists_ok_def)
  then have "insert p (live_below s g (set (kids (node s p)))) = live_below s g {p}"
    using fo_live_below_child [OF inv p] by simp
  moreover have "p \<notin> live_below s g (set (kids (node s p)))"
  proof
    assume "p \<in> live_below s g (set (kids (node s p)))"
    then obtain c where c: "c \<in> live_children s (g_dead g) p" "c \<in> set (g_line g p)"
      using \<open>set (kids (node s p)) = _\<close> by (auto simp: live_below_def)
    then have "c \<le> task_id_ctr s" "c \<noteq> 0" "par s c = p" by (simp_all add: live_children_def)
    then show False using fo_line_par(2) [OF inv] tree_prefix(1) [OF fo_invD(2) [OF inv] p(1) c(2)] by (metis not_le)
  qed
  moreover show "p \<notin> below s g p" by (simp add: task_below_def)
  moreover have "live_below s g {p} = insert p (below s g p - g_dead g)"
    using p tree_line(6) [OF fo_invD(2) [OF inv] p(1)] by (auto simp: live_below_def task_below_def)
  ultimately show "live_below s g (set (kids (node s p))) = below s g p - g_dead g"
    using insert_ident [of p "live_below s g (set (kids (node s p)))" "below s g p - g_dead g"] by simp
qed

text \<open>A wait always returns.\<close>

lemma fo_wait_task_eq:
  assumes inv: "fo_inv s g" and p: "p \<le> task_id_ctr s" "p \<notin> g_dead g"
  shows "Capturewait_for_all_task s p = Some (joined s p (below s g p - g_dead g))"
proof -
  have t: "task_at s p = Some (node s p)"
    using p(1) fo_invD(1) [OF inv] by (simp add: task_at_def)
  have k: "distinct (kids (node s p))" "set (kids (node s p)) = live_children s (g_dead g) p"
    using fo_invD(7) [OF inv] p by (simp_all add: lists_ok_def)
  note lb = fo_live_below_all(1) [OF inv p]
  show ?thesis
  proof (cases "kids (node s p) = []")
    case True
    have "live_below s g (set (kids (node s p))) = {}" using True by (simp add: live_below_def)
    then have "joined s p (below s g p - g_dead g) = s" using fo_joined_empty [OF True] lb by metis
    then show ?thesis using True t by (simp add: Capturewait_for_all_task_def)
  next
    case False
    have "same_tree s s" using fo_invD(4) [OF inv] by (simp add: same_tree_def node_ok_def)
    then have "wait_children s p (kids (node s p)) = Some (joined s p (below s g p - g_dead g))"
      using fo_wait_children_joined [OF inv p(1) _ k(1)] k(2) lb by simp
    then show ?thesis using False t by (simp add: Capturewait_for_all_task_def)
  qed
qed

lemma fo_below_par:
  assumes inv: "fo_inv s g" and c: "c \<le> task_id_ctr s" "c \<noteq> 0" and p: "p \<in> set (g_line g c)" "c \<noteq> p"
  shows "par s c = p \<or> par s c \<in> below s g p"
  using fo_line_par [OF inv c] p by (auto simp: task_below_def)

lemma fo_joined_inv:
  assumes inv: "fo_inv s g" and p: "p \<le> task_id_ctr s" "p \<notin> g_dead g"
  shows "fo_inv (joined s p (below s g p - g_dead g)) (wait_ghost s g p)"
proof -
  let ?n = "task_id_ctr s" and ?D = "g_dead g" and ?D' = "join_below p (task_id_ctr s) (g_line g) (g_dead g)"
  let ?C = "below s g p - ?D" let ?s = "joined s p ?C"
  note tr = fo_invD(2) [OF inv] and dd = fo_invD(3) [OF inv]
  have g': "g_line (wait_ghost s g p) = g_line g" "g_fork (wait_ghost s g p) = g_fork g" "g_dead (wait_ghost s g p) = ?D'"
    by (simp_all add: wait_ghost_def)
  have D': "?D' = ?D \<union> below s g p" by (auto simp: join_below_def task_below_def)
  have Cn: "x \<le> ?n" if "x \<in> ?C" for x using that by (simp add: task_below_def)
  have nodes: "\<forall>t \<le> ?n. node_ok (g_line g) (g_fork g) t (node ?s t)" using fo_invD(4) [OF inv] by simp
  have "node ?s t = zero_TaskState" if "?n < t" for t
  proof -
    have "t \<noteq> p" "t \<notin> ?C" using that p(1) Cn [of t] by auto
    then show ?thesis using fo_invD(5) [OF inv that] by simp
  qed
  then have zeros: "\<forall>t > ?n. node ?s t = zero_TaskState" by blast
  have clk: "clock (node ?s t) = clock (node s t)" for t by simp
  then have forks: "forks_ok ?s (g_fork g)"
    using fo_invD(6) [OF inv] unfolding forks_ok_def fo_joined_simps(1,3) clk by blast
  have "distinct (kids (node ?s t)) \<and> set (kids (node ?s t)) = live_children ?s ?D' t" if t: "t \<le> ?n" "t \<notin> ?D'" for t
  proof (cases "t = p")
    case True
    have "c \<in> ?D'" if "c \<le> ?n" "c \<noteq> 0" "par s c = p" for c
      using fo_line_par [OF inv that(1,2)] that by (auto simp: D' task_below_def)
    then have no: "c \<notin> live_children ?s ?D' p" for c by (cases "c \<le> ?n \<and> c \<noteq> 0") (auto simp: live_children_def)
    have "live_children ?s ?D' p = {}" by (rule equals0I) (use no in blast)
    then show ?thesis using True by simp
  next
    case False
    have "live_children ?s ?D' t = live_children s ?D t"
    proof -
      have "c \<notin> below s g p" if "c \<le> ?n" "c \<noteq> 0" "par s c = t" for c
        using fo_below_par [OF inv that(1,2), of p] that(3) False t by (auto simp: D' task_below_def)
      then show ?thesis by (auto simp: live_children_def D')
    qed
    moreover have "t \<notin> ?C" "t \<notin> ?D" using t by (auto simp: D')
    ultimately show ?thesis using fo_invD(7) [OF inv] t False by (simp add: lists_ok_def)
  qed
  then have lists: "lists_ok ?s ?D'" by (simp add: lists_ok_def)
  have "joinset ?s (Suc t) = (if t \<in> ?D' then Suc (par ?s t) else 0)" for t
    using fo_invD(8) [OF inv] by (auto simp: joins_ok_def D')
  then have joins: "joins_ok ?s ?D'" unfolding joins_ok_def by blast
  show ?thesis
    unfolding fo_inv_def g'
    using fo_invD(1,9,10) [OF inv] tr dead_ok_join [OF tr p(1) dd] nodes zeros forks lists joins by simp
qed

lemma fo_wait_step:
  assumes inv: "fo_inv s g" and a: "active s g th"
  obtains p ts where "cur s th = p # ts" "p \<le> task_id_ctr s" "p \<notin> g_dead g"
    "fo_step s (FoWait th) = Some (joined s p (below s g p - g_dead g))"
    "fo_ghost_step s g (FoWait th) = wait_ghost s g p"
proof -
  obtain p ts where p: "cur s th = p # ts" "p \<le> task_id_ctr s" "p \<notin> g_dead g" "cur_top s th = Some p"
    by (rule fo_active_top [OF inv a])
  then show thesis
    using that fo_wait_task_eq [OF inv p(2,3)] by (simp add: Capturewait_for_all_def fo_ghost_step_def)
qed

section \<open>The other events\<close>

lemma fo_inv_frame:
  assumes inv: "fo_inv s g"
    and s': "task_id_ctr s' = task_id_ctr s" "joinset s' = joinset s" "tstate_nodes s' = tstate_nodes s"
      "\<And>th. set (cur s' th) \<subseteq> {..task_id_ctr s}" "\<And>th. NUM_THREADS \<le> th \<Longrightarrow> cur s' th = []"
    and g': "g_line g' = g_line g" "g_fork g' = g_fork g" "g_dead g' = g_dead g"
  shows "fo_inv s' g'"
proof -
  have sub: "live_children s' D t = live_children s D t" for D t by (simp only: live_children_def s'(1,3))
  show ?thesis
    using inv s'(4,5) by (simp add: fo_inv_def g' s'(1-3) forks_ok_def lists_ok_def joins_ok_def sub)
qed

lemma fo_clear_list_empty: "kids (node s t) = [] \<Longrightarrow> upd_node t (\<lambda>x. x\<lparr>child_list := map_option (\<lambda>_. []) (child_list x)\<rparr>) s = s"
  using fo_clear_kids_empty [of "node s t"] by (simp add: upd_node_def clear_kids_def)

lemma fo_begin_step:
  assumes "fo_disciplined s g (FoBegin th t)" "fo_step s (FoBegin th t) = Some s'"
  shows "th < NUM_THREADS" "s' = s\<lparr>cur := (cur s)(th := t # cur s th)\<rparr>" "t \<le> task_id_ctr s"
proof -
  have t: "t \<le> task_id_ctr s" "kids (node s t) = []" using assms(1) by (simp_all add: fo_disciplined_def)
  then show "th < NUM_THREADS" "s' = s\<lparr>cur := (cur s)(th := t # cur s th)\<rparr>" "t \<le> task_id_ctr s"
    using assms(2) fo_clear_list_empty [of "s\<lparr>cur := (cur s)(th := t # cur s th)\<rparr>" t]
    by (auto simp: exec_begin_def Let_def bind_eq_Some_conv split: if_splits)
qed

lemma fo_end_step: "fo_step s (FoEnd th) = Some s' \<Longrightarrow> s' = s\<lparr>cur := (cur s)(th := tl (cur s th))\<rparr>"
  by (auto simp: exec_end_def bind_eq_Some_conv)

lemma fo_access_shape:
  assumes "RecordMem s th a k = Some s'"
  obtains sh vi where "s' = s\<lparr>shadow_space := sh, all_violations := vi\<rparr>"
proof (cases "cur s th")
  case Nil
  then have "s' = s\<lparr>shadow_space := shadow_space s, all_violations := all_violations s\<rparr>"
    using assms by (simp add: RecordMem_def split: if_splits)
  then show thesis by (rule that)
next
  case (Cons t ts)
  then obtain sh r where "s' = (case r of None \<Rightarrow> s\<lparr>shadow_space := sh\<rparr> | Some (t', k') \<Rightarrow> error (s\<lparr>shadow_space := sh\<rparr>) a t' k' t k)"
    using assms by (auto simp: RecordMem_def Let_def bind_eq_Some_conv split: if_splits)
  then have "s' = s\<lparr>shadow_space := sh, all_violations := all_violations s'\<rparr>"
    by (cases r) (auto simp: error_def)
  then show thesis by (rule that)
qed

lemma fo_access_frame:
  assumes "RecordMem s th a k = Some s'"
  shows "task_id_ctr s' = task_id_ctr s" "joinset s' = joinset s" "tstate_nodes s' = tstate_nodes s" "cur s' = cur s"
  by (rule fo_access_shape [OF assms], simp)+

lemma fo_step_inv:
  assumes inv: "fo_inv s g" and d: "fo_disciplined s g e" and st: "fo_step s e = Some s'"
  shows "fo_inv s' (fo_ghost_step s g e)"
proof (cases e)
  case (FoSpawn th t q)
  then have "e = FoSpawn th t q \<or> e = FoSpawnRoot th t" ..
  from fo_spawn_result [OF inv d st this] show ?thesis using fo_spawned_inv [OF inv] by metis
next
  case (FoSpawnRoot th t)
  then have "e = FoSpawn th t None \<or> e = FoSpawnRoot th t" ..
  from fo_spawn_result [OF inv d st this] show ?thesis using fo_spawned_inv [OF inv] by metis
next
  case (FoWait th)
  then have "active s g th" using d by (simp add: fo_disciplined_def)
  from fo_wait_step [OF inv this] show ?thesis using fo_joined_inv [OF inv] st FoWait by (metis option.inject)
next
  case (FoBegin th t)
  note s' = fo_begin_step [OF d [unfolded FoBegin] st [unfolded FoBegin]]
  show ?thesis
    by (rule fo_inv_frame [OF inv]) (use s' fo_invD(9,10) [OF inv] in \<open>auto simp: FoBegin fo_ghost_step_def\<close>)
next
  case (FoEnd th)
  have "set (tl (cur s th)) \<subseteq> {..task_id_ctr s}" for th using fo_invD(9) [OF inv, of th] by (cases "cur s th") auto
  then show ?thesis
    by (intro fo_inv_frame [OF inv])
      (use fo_end_step [of s th s'] st fo_invD(9,10) [OF inv] in \<open>auto simp: FoEnd fo_ghost_step_def\<close>)
next
  case (FoAccess th a k)
  then have "RecordMem s th a k = Some s'" using st by simp
  note f = fo_access_frame [OF this]
  show ?thesis
    by (rule fo_inv_frame [OF inv]) (use fo_invD(9,10) [OF inv] in \<open>auto simp: f FoAccess fo_ghost_step_def\<close>)
qed (use d in \<open>simp_all add: fo_disciplined_def\<close>)

end
