(* ===== verification/FoHb.thy ===== *)
theory FoHb
  imports FoWait
begin

text \<open>
  The clock that the optimised FastTrack compares an access with decides the happens-before
  order: \<open>access_clock\<close> reaches the clock of an access exactly if the current task has seen it.
\<close>

section \<open>Lookups\<close>

lemma cached_lookup_two:
  "cached_lookup x t [0..<NUM_FIXED_TASK_ENTRIES] =
     (if cached_tid x 0 = t then Some (cached_clock x 0) else if cached_tid x 1 = t then Some (cached_clock x 1) else None)"
  by (simp add: NUM_FIXED_TASK_ENTRIES_def upt_rec)

lemma parent_clock_mapped:
  "cached_lookup x t [0..<NUM_FIXED_TASK_ENTRIES] = None \<Longrightarrow>
     parent_clock x t = (if 2 < depth x then case mapped x t of Some c \<Rightarrow> c | None \<Rightarrow> 0 else 0)"
  by (simp add: parent_clock_def mapped_def NUM_FIXED_TASK_ENTRIES_def split: option.split)

lemma fo_parent_clock_eq:
  assumes inv: "fo_inv s g" and w: "w \<le> task_id_ctr s"
  shows "parent_clock (node s w) t =
    (if t \<in> set (g_line g w) \<and> t \<noteq> w then g_fork g (branch (g_line g) w t) else 0)"
proof -
  let ?x = "node s w" and ?l = "g_line g w"
  note tr = fo_invD(2) [OF inv]
  have nw: "node_ok (g_line g) (g_fork g) w ?x" using fo_invD(4) [OF inv w] .
  have len: "length ?l = Suc (depth ?x)" and cached: "\<And>i. i < 2 \<Longrightarrow> cached_tid ?x i = (if i < depth ?x then ?l ! i else 0)"
    "\<And>i. i < 2 \<Longrightarrow> cached_clock ?x i = (if i < depth ?x then g_fork g (?l ! Suc i) else 0)"
    and my: "mapped ?x = deep_clock (g_line g) (g_fork g) w"
    using nw by (simp_all add: node_ok_def)
  have last: "?l ! depth ?x = w" using tree_line(1,3) [OF tr w] len by (simp add: last_conv_nth)
  have eq: "?l ! i = ?l ! j \<longleftrightarrow> i = j" if "i \<le> depth ?x" "j \<le> depth ?x" for i j
    using that len tree_line(5) [OF tr w] by (simp add: nth_eq_iff_index_eq)
  have first: "?l ! 0 = 0" using tree_line(1,2) [OF tr w] by (metis hd_conv_nth)
  show ?thesis
  proof (cases "t \<in> set ?l \<and> t \<noteq> w")
    case True
    let ?d = "length (g_line g t) - 1"
    have d: "?l ! ?d = t" "0 < length (g_line g t)" using tree_prefix(3,5) [OF tr w] True by blast+
    have lt: "?d < depth ?x" using proper_length [OF tr w, of t] True len d(2) by linarith
    have b: "branch (g_line g) w t = ?l ! Suc ?d" using d(2) by (simp add: branch_def)
    consider "?d = 0" | "?d = 1" | "2 \<le> ?d" by linarith
    then show ?thesis
    proof cases
      case 1
      then show ?thesis using True b d lt cached [of 0] by (simp add: parent_clock_def cached_lookup_two)
    next
      case 2
      then have "?l ! 0 \<noteq> t" using eq [of 0 1] d lt by simp
      then show ?thesis using True 2 b d lt cached [of 0] cached [of 1] by (simp add: parent_clock_def cached_lookup_two)
    next
      case 3
      then have "?l ! 0 \<noteq> t" "?l ! 1 \<noteq> t" "2 < depth ?x" using eq [of 0 ?d] eq [of 1 ?d] d lt by auto
      then have "cached_lookup ?x t [0..<NUM_FIXED_TASK_ENTRIES] = None"
        using cached(1) [of 0] cached(1) [of 1] by (simp add: cached_lookup_two)
      moreover have "2 < length (g_line g t)" using 3 d(2) by linarith
      ultimately show ?thesis using True \<open>2 < depth ?x\<close> by (simp add: parent_clock_mapped my deep_clock_def)
    qed
  next
    case False
    have none: "deep_clock (g_line g) (g_fork g) w t = None" using False by (auto simp: deep_clock_def)
    have ne: "?l ! i \<noteq> t" if "i < depth ?x" for i
    proof
      assume "?l ! i = t"
      then show False using that False len eq [of i "depth ?x"] last nth_mem [of i ?l] by auto
    qed
    show ?thesis
    proof (cases "cached_lookup ?x t [0..<NUM_FIXED_TASK_ENTRIES]")
      case None
      then show ?thesis using False none by (auto simp: parent_clock_mapped my)
    next
      case (Some c)
      then have "c = 0" using ne [of 0] ne [of 1] cached [of 0] cached [of 1] by (auto simp: cached_lookup_two split: if_splits)
      then show ?thesis using False Some by (auto simp: parent_clock_def)
    qed
  qed
qed

lemma fo_find_root_eq:
  assumes inv: "fo_inv s g"
  shows "t \<le> task_id_ctr s \<Longrightarrow> find_root s (Suc t) = Some (Suc (top (g_line g) (g_dead g) t))"
proof (induction t rule: less_induct)
  case (less t)
  note tr = fo_invD(2) [OF inv] and dd = fo_invD(3) [OF inv]
  have lim: "\<not> MAX_NUM_TASKS < Suc t" using less.prems(1) fo_invD(1) [OF inv] by simp
  have j: "joinset s (Suc t) = (if t \<in> g_dead g then Suc (par s t) else 0)"
    using fo_invD(8) [OF inv] by (simp add: joins_ok_def)
  show ?case
  proof (cases "t \<in> g_dead g")
    case True
    then have t: "t \<noteq> 0" using dd by (auto simp: dead_ok_def)
    note l = fo_line_par [OF inv less.prems(1) t]
    have "top (g_line g) (g_dead g) t = top (g_line g) (g_dead g) (par s t)"
      using top_dead [OF tr less.prems(1) dd True l(4)] l(1,2) by simp
    then show ?thesis using less.IH [OF l(2,3)] j lim True by (subst find_root.simps) simp
  next
    case False
    then show ?thesis using top_self [OF tr less.prems(1) dd False] lim j by (subst find_root.simps) simp
  qed
qed

section \<open>The comparison\<close>

lemma fo_fork_pos:
  assumes inv: "fo_inv s g" and w: "w \<le> task_id_ctr s" and t: "t \<in> set (g_line g w)" "t \<noteq> w"
  shows "1 \<le> g_fork g (branch (g_line g) w t)" "g_fork g (branch (g_line g) w t) < clock (node s t)"
proof -
  note b = fo_child_line [OF inv w t(1) t(2) [symmetric]]
  have n: "branch (g_line g) w t \<le> task_id_ctr s" using tree_line_le [OF fo_invD(2) [OF inv] w b(3)] .
  have "1 \<le> g_fork g (branch (g_line g) w t) \<and>
      g_fork g (branch (g_line g) w t) < clock (node s (par s (branch (g_line g) w t)))"
    using fo_invD(6) [OF inv] n b(2) by (simp add: forks_ok_def)
  then show "1 \<le> g_fork g (branch (g_line g) w t)" "g_fork g (branch (g_line g) w t) < clock (node s t)"
    using b(1) by simp_all
qed

lemma fo_access_clock_vis:
  assumes inv: "fo_inv s g" and w: "w \<le> task_id_ctr s" and t: "t \<le> task_id_ctr s" and c: "1 \<le> c" "c \<le> clock (node s t)"
  obtains a where "access_clock s w (node s w) t = Some a" "c \<le> a \<longleftrightarrow> sees g w t c"
proof -
  let ?l = "g_line g" and ?D = "g_dead g" and ?r = "top (g_line g) (g_dead g) t"
  note tr = fo_invD(2) [OF inv] and dd = fo_invD(3) [OF inv]
  have id: "taskId (node s w) = w" using fo_invD(4) [OF inv w(1)] by (simp add: node_ok_def)
  have zero: "\<not> c \<le> 0" using c(1) by auto
  have big: "c \<le> INT_MAX" using c(2) fo_clock_small(6) [OF inv t] by (rule order.trans)
  note pc = fo_parent_clock_eq [OF inv w] and fr = fo_find_root_eq [OF inv t]
  consider "w = t" | "w \<noteq> t" "t \<in> set (?l w)" | "w \<noteq> t" "t \<notin> set (?l w)" "?r = w"
    | "w \<noteq> t" "t \<notin> set (?l w)" "?r \<noteq> w" "?r \<in> set (?l w)" | "w \<noteq> t" "t \<notin> set (?l w)" "?r \<noteq> w" "?r \<notin> set (?l w)"
    by blast
  then show thesis
  proof cases
    case 1
    then show ?thesis using that [of "clock (node s t)"] id c(2) by (simp add: access_clock_def)
  next
    case 2
    then have "g_fork g (branch ?l w t) \<noteq> 0" using fo_fork_pos(1) [OF inv w 2(2)] by auto
    then show ?thesis using that [of "g_fork g (branch ?l w t)"] 2 id pc by (simp add: access_clock_def vis_def)
  next
    case 3
    then show ?thesis using that [of INT_MAX] id pc fr big tree_line(6) [OF tr w] by (simp add: access_clock_def vis_def)
  next
    case 4
    then have "g_fork g (branch ?l w ?r) \<noteq> 0" using fo_fork_pos(1) [OF inv w 4(4)] by auto
    then show ?thesis using that [of INT_MAX] 4 id pc fr big by (simp add: access_clock_def vis_def)
  next
    case 5
    then show ?thesis using that [of 0] id pc fr zero by (simp add: access_clock_def vis_def)
  qed
qed

lemma unat_ucast_clock: "unat (ucast (c :: 32 word) :: 64 word) = unat c"
proof -
  have "unat c < 2 ^ 32" using unsigned_less [of c, where ?'a = nat] by simp
  then show ?thesis by (simp add: unsigned_ucast_eq take_bit_nat_eq_self)
qed

lemma fo_unordered_vis:
  assumes inv: "fo_inv s g" and w: "w \<le> task_id_ctr s" and t: "t \<le> task_id_ctr s" and c: "1 \<le> c" "c \<le> clock (node s t)"
  shows "unordered s w (node s w) t (ucast c) = Some (\<not> sees g w t c)"
proof -
  obtain a where a: "access_clock s w (node s w) t = Some a" "c \<le> a \<longleftrightarrow> sees g w t c"
    by (rule fo_access_clock_vis [OF assms])
  have "0 < (ucast c :: 64 word)" using c(1) by (simp add: word_less_nat_alt word_le_nat_alt unat_ucast_clock)
  moreover have "(ucast a :: 64 word) < ucast c \<longleftrightarrow> a < c" by (simp add: word_less_nat_alt unat_ucast_clock)
  ultimately show ?thesis using a by (auto simp: unordered_def)
qed

section \<open>What tasks have seen, along a run\<close>

abbreviation past_ok :: "ftopt \<Rightarrow> task_ghost \<Rightarrow> bool" where
  "past_ok s g \<equiv> pasts_ok (task_id_ctr s) (\<lambda>t. clock (node s t)) g"

lemma fo_ghost_tree: "fo_inv s g \<Longrightarrow> ghost_tree_ok (task_id_ctr s) g"
  by (simp add: ghost_tree_ok_def fo_invD)

lemma fo_sees_own_only:
  assumes inv: "fo_inv s g" and u: "u \<le> task_id_ctr s" and w: "w \<le> task_id_ctr s" "w \<notin> g_dead g"
  shows "sees g u w (clock (node s w)) \<longleftrightarrow> u = w"
proof -
  have "top (g_line g) (g_dead g) w = w" by (rule top_self [OF fo_invD(2) [OF inv] w(1) fo_invD(3) [OF inv] w(2)])
  then show ?thesis using fo_fork_pos(2) [OF inv u, of w] by (auto simp: vis_def not_le [symmetric])
qed

lemma fo_past_spawned:
  assumes inv: "fo_inv s g" and pa: "past_ok s g" and p: "p \<le> task_id_ctr s" "p \<notin> g_dead g"
  shows "past_ok (spawned s p t) (spawn_ghost s g p)"
proof -
  have "clock (node s u) \<le> clock (node (spawned s p t) u)" if "u \<le> task_id_ctr s" for u
    using less_imp_le [OF fo_clock_small(5) [OF inv p(1)]] by (simp add: fo_spawned_node(1) [OF p(1) that])
  then have "pasts_ok (Suc (task_id_ctr s)) (\<lambda>u. clock (node (spawned s p t) u)) (spawn_ghost s g p)"
    by (rule pasts_spawn [OF fo_ghost_tree [OF inv] pa p]) (simp_all add: spawn_ghost_def)
  then show ?thesis by (simp add: fo_spawned_node(3))
qed

lemma fo_past_joined:
  assumes inv: "fo_inv s g" and pa: "past_ok s g" and p: "p \<le> task_id_ctr s" "p \<notin> g_dead g"
  shows "past_ok (joined s p C) (wait_ghost s g p)"
proof -
  have "pasts_ok (task_id_ctr s) (\<lambda>u. clock (node (joined s p C) u)) (wait_ghost s g p)"
    by (rule pasts_wait [OF fo_ghost_tree [OF inv] pa p]) (simp_all add: wait_ghost_def)
  then show ?thesis by simp
qed

lemma fo_past_logs:
  assumes inv: "fo_inv s g" and pa: "past_ok s g" and w: "w \<le> task_id_ctr s" "w \<notin> g_dead g"
  shows "past_ok s (logs g w (clock (node s w)) a k)"
  by (rule pasts_access [OF fo_ghost_tree [OF inv] pa w fo_clock_small(3) [OF inv w(1)] fo_sees_own_only [OF inv _ w]])

end
