(* ===== verification/FoDetect.thy ===== *)
theory FoDetect
  imports FoHb
begin

text \<open>
  What a shadow cell of the optimised FastTrack knows of the accesses so far: its write
  epoch is the last write, and all other writes were seen by it; its read epoch, or the
  entries of its read vector, are reads.  An access keeps this or completes a race.
\<close>

section \<open>Epoch words\<close>

lemma fo_layout: "NUM_CLK_BITS = 41" "NUM_TASK_BITS = 22" "MAX_NUM_TASKS = 2 ^ 22"
  by (simp_all add: NUM_CLK_BITS_def NUM_TASK_BITS_def MAX_NUM_TASKS_def)

lemma fo_CLK_MASK: "CLK_MASK = mask 41"
  by (simp add: CLK_MASK_def fo_layout mask_eq_exp_minus_1 push_bit_eq_mult)

lemma fo_EPOCH_BIT: "EPOCH_BIT = push_bit 63 1"
  by (simp add: EPOCH_BIT_def fo_layout)

lemma fo_TASKID_MASK: "bit TASKID_MASK n \<longleftrightarrow> 41 \<le> n \<and> n < 63"
proof -
  have "EPOCH_BIT - 1 = mask 63" by (simp add: fo_EPOCH_BIT mask_eq_exp_minus_1 push_bit_eq_mult)
  then have eq: "TASKID_MASK = mask 63 AND NOT (mask 41)" by (simp add: TASKID_MASK_def fo_CLK_MASK)
  show ?thesis unfolding eq by (auto simp: bit_and_iff bit_mask_iff bit_not_iff)
qed

text \<open>A task and a 32-bit clock, packed.\<close>

definition pack :: "nat \<Rightarrow> 32 word \<Rightarrow> 64 word" where
  "pack t c = createWriteEpoch t (ucast c)"

lemma createReadEpoch_pack: "createReadEpoch t (ucast c) = pack t c" "createWriteEpoch t (ucast c) = pack t c"
  by (simp_all add: pack_def createReadEpoch_def createWriteEpoch_def)

lemma task_bits:
  assumes "t < MAX_NUM_TASKS" "bit (of_nat t :: 64 word) m"
  shows "m < 22"
proof (rule ccontr)
  assume m: "\<not> m < 22"
  have "t < 2 ^ 22" using assms(1) by (simp add: fo_layout)
  also have "\<dots> \<le> 2 ^ m" using m by (intro power_increasing) simp_all
  finally have "\<not> bit t m" by (simp add: bit_iff_odd)
  moreover have "unat (of_nat t :: 64 word) = t" using assms(1) by (simp add: unat_of_nat fo_layout)
  then have "bit t m \<longleftrightarrow> bit (of_nat t :: 64 word) m" by (metis bit_unsigned_iff possible_bit_nat)
  ultimately show False using assms(2) by simp
qed

lemma bit_pack:
  assumes "t < MAX_NUM_TASKS"
  shows "bit (pack t c) n \<longleftrightarrow> (if n < 41 then bit c n else n < 63 \<and> bit (of_nat t :: 64 word) (n - 41))"
proof -
  have c: "bit (ucast c :: 64 word) n \<longleftrightarrow> bit c n" using bit_imp_le_length [of c n] by (auto simp: bit_ucast_iff)
  show ?thesis
    using task_bits [OF assms, of "n - 41"] bit_imp_le_length [of c n]
    by (auto simp: pack_def createWriteEpoch_def fo_layout bit_or_iff bit_push_bit_iff c)
qed

lemma pack_clock:
  assumes "t < MAX_NUM_TASKS"
  shows "getWriteClock (pack t c) = ucast c" "getReadEpochClock (pack t c) = ucast c"
proof -
  have "pack t c AND CLK_MASK = ucast c"
  proof (rule bit_eqI)
    fix n assume "possible_bit TYPE(64 word) n"
    have "n < 41" if "bit c n" using bit_imp_le_length [OF that] by simp
    then show "bit (pack t c AND CLK_MASK) n \<longleftrightarrow> bit (ucast c :: 64 word) n"
      using \<open>possible_bit _ n\<close> by (auto simp: bit_and_iff fo_CLK_MASK bit_mask_iff bit_pack [OF assms] bit_ucast_iff)
  qed
  then show "getWriteClock (pack t c) = ucast c" "getReadEpochClock (pack t c) = ucast c"
    by (simp_all add: getWriteClock_def getReadEpochClock_def)
qed

lemma pack_task:
  assumes t: "t < MAX_NUM_TASKS"
  shows "getWriteTaskID (pack t c) = t" "getReadEpochTaskID (pack t c) = t"
proof -
  have "drop_bit 41 (pack t c AND TASKID_MASK) = of_nat t"
    by (rule bit_eqI) (use task_bits [OF t] in \<open>auto simp: bit_drop_bit_eq bit_and_iff fo_TASKID_MASK bit_pack [OF t] dest: task_bits [OF t]\<close>)
  moreover have "unat (of_nat t :: 64 word) = t" using t by (simp add: unat_of_nat fo_layout)
  ultimately show "getWriteTaskID (pack t c) = t" "getReadEpochTaskID (pack t c) = t"
    by (simp_all add: getWriteTaskID_def getReadEpochTaskID_def fo_layout)
qed

lemma pack_plain:
  assumes t: "t < MAX_NUM_TASKS"
  shows "pack t c \<noteq> EPOCH_BIT" "drop_bit 63 (pack t c) \<noteq> 1" "1 \<le> c \<Longrightarrow> 0 < pack t c"
proof -
  have "bit (EPOCH_BIT) 63" by (simp add: fo_EPOCH_BIT bit_push_bit_iff)
  moreover have "\<not> bit (pack t c) 63" by (simp add: bit_pack [OF t])
  ultimately show "pack t c \<noteq> EPOCH_BIT" by metis
  have "bit (drop_bit 63 (pack t c)) 0 = bit (pack t c) 63" by (simp add: bit_drop_bit_eq)
  then show "drop_bit 63 (pack t c) \<noteq> 1" using \<open>\<not> bit (pack t c) 63\<close> by (metis bit_1_0)
  show "0 < pack t c" if "1 \<le> c"
  proof -
    have "getWriteClock 0 = 0" by (simp add: getWriteClock_def)
    moreover have "unat (ucast c :: 64 word) \<noteq> 0" using that by (simp add: unat_ucast_clock word_le_nat_alt)
    ultimately show ?thesis using pack_clock(1) [OF t, of c] by (metis unsigned_0 word_neq_0_conv)
  qed
qed

lemma fo_epoch_zero: "getWriteClock 0 = 0" "getReadEpochClock 0 = 0" "\<not> drop_bit 63 (0 :: 64 word) = 1" "0 \<noteq> EPOCH_BIT"
    "drop_bit 63 EPOCH_BIT = 1"
  by (simp_all add: getWriteClock_def getReadEpochClock_def fo_EPOCH_BIT push_bit_eq_mult drop_bit_eq_div)

section \<open>What a cell knows\<close>

definition at_cell :: "log_entry list \<Rightarrow> ADDRINT \<Rightarrow> AccessType \<Rightarrow> nat \<Rightarrow> bool" where
  "at_cell l a k i \<longleftrightarrow> i < length l \<and> same_cell a (e_addr (l ! i)) \<and> e_kind (l ! i) = k"

definition epoch_of :: "log_entry \<Rightarrow> 64 word" where
  "epoch_of e = pack (e_task e) (e_clock e)"

definition write_ok :: "log_entry list \<Rightarrow> ADDRINT \<Rightarrow> 64 word \<Rightarrow> bool" where
  "write_ok l a e \<longleftrightarrow>
     e = 0 \<and> (\<forall>i. \<not> at_cell l a WRITE i) \<or>
     (\<exists>j. at_cell l a WRITE j \<and> e = epoch_of (l ! j) \<and> (\<forall>i. at_cell l a WRITE i \<longrightarrow> i = j \<or> i \<in> e_past (l ! j)))"

text \<open>A read epoch whose task is still in it stands for a check of all writes.\<close>

definition reader_ok :: "ftopt \<Rightarrow> task_ghost \<Rightarrow> ADDRINT \<Rightarrow> 64 word \<Rightarrow> bool" where
  "reader_ok s g a e \<longleftrightarrow>
     (\<exists>j. at_cell (g_log g) a READ j \<and> e = epoch_of (g_log g ! j) \<and>
        (e_task (g_log g ! j) \<notin> g_dead g \<and> clock (node s (e_task (g_log g ! j))) = e_clock (g_log g ! j) \<longrightarrow>
           (\<forall>i. at_cell (g_log g) a WRITE i \<longrightarrow> i \<in> g_past g (e_task (g_log g ! j)))))"

definition map_ok :: "log_entry list \<Rightarrow> ADDRINT \<Rightarrow> read_map \<Rightarrow> bool" where
  "map_ok l a m \<longleftrightarrow>
     (\<forall>p \<in> set m. \<exists>j. at_cell l a READ j \<and> fst p = e_task (l ! j) \<and> snd p = ucast (e_clock (l ! j)))"

definition var_ok :: "ftopt \<Rightarrow> task_ghost \<Rightarrow> ADDRINT \<Rightarrow> VarState \<Rightarrow> bool" where
  "var_ok s g a v \<longleftrightarrow>
     write_ok (g_log g) a (m_wr_epoch v) \<and>
     (if isReadVector v then map_ok (g_log g) a (m_rvc v) else m_rd_epoch v = 0 \<or> reader_ok s g a (m_rd_epoch v))"

definition cell_ok :: "ftopt \<Rightarrow> task_ghost \<Rightarrow> ADDRINT \<Rightarrow> VarState option \<Rightarrow> bool" where
  "cell_ok s g a v = (case v of None \<Rightarrow> \<forall>k i. \<not> at_cell (g_log g) a k i | Some v \<Rightarrow> var_ok s g a v)"

lemma at_cell_snoc:
  "at_cell (l @ [e]) a k i \<longleftrightarrow> at_cell l a k i \<or> i = length l \<and> same_cell a (e_addr e) \<and> e_kind e = k"
  by (auto simp: at_cell_def nth_append less_Suc_eq)

lemma at_cell_nth [simp]: "at_cell l a k i \<Longrightarrow> (l @ es) ! i = l ! i"
  by (simp add: at_cell_def nth_append)

lemma at_cell_eq: "same_cell a b \<Longrightarrow> at_cell l a k i \<longleftrightarrow> at_cell l b k i"
  unfolding at_cell_def using same_cell_sym same_cell_trans by blast

lemma cell_ok_same: "same_cell a b \<Longrightarrow> cell_ok s g a v \<longleftrightarrow> cell_ok s g b v"
  using at_cell_eq [of a b]
  by (simp add: cell_ok_def var_ok_def write_ok_def reader_ok_def map_ok_def split: option.split)

text \<open>Pasts, joined tasks and clocks only grow; what happens on other cells does not matter.\<close>

lemma cell_ok_grows:
  assumes pa: "past_ok s g" and v: "cell_ok s g a v"
    and at: "\<And>k i. at_cell (g_log g') a k i \<longleftrightarrow> at_cell (g_log g) a k i" and lg: "\<And>i. i < length (g_log g) \<Longrightarrow> g_log g' ! i = g_log g ! i"
    and gr: "\<And>t. t \<le> task_id_ctr s \<Longrightarrow> g_past g t \<subseteq> g_past g' t" "g_dead g \<subseteq> g_dead g'"
      "\<And>t. t \<le> task_id_ctr s \<Longrightarrow> clock (node s t) \<le> clock (node s' t)"
  shows "cell_ok s' g' a v"
proof -
  have nth: "g_log g' ! i = g_log g ! i" if "at_cell (g_log g) a k i" for k i
    using that lg by (simp add: at_cell_def)
  have wr: "write_ok (g_log g') a e \<longleftrightarrow> write_ok (g_log g) a e" for e
    using at nth unfolding write_ok_def by metis
  have mp: "map_ok (g_log g') a m \<longleftrightarrow> map_ok (g_log g) a m" for m
    using at nth unfolding map_ok_def by metis
  have "reader_ok s' g' a e" if "reader_ok s g a e" for e
  proof -
    from that obtain j where "at_cell (g_log g) a READ j \<and> e = epoch_of (g_log g ! j) \<and>
        (e_task (g_log g ! j) \<notin> g_dead g \<and> clock (node s (e_task (g_log g ! j))) = e_clock (g_log g ! j) \<longrightarrow>
        (\<forall>i. at_cell (g_log g) a WRITE i \<longrightarrow> i \<in> g_past g (e_task (g_log g ! j))))"
      unfolding reader_ok_def ..
    then have j: "at_cell (g_log g) a READ j" "e = epoch_of (g_log g ! j)"
      and q: "e_task (g_log g ! j) \<notin> g_dead g \<and> clock (node s (e_task (g_log g ! j))) = e_clock (g_log g ! j) \<longrightarrow>
        (\<forall>i. at_cell (g_log g) a WRITE i \<longrightarrow> i \<in> g_past g (e_task (g_log g ! j)))" by blast+
    have jl: "j < length (g_log g)" using j(1) by (simp add: at_cell_def)
    note t = pasts_okD(1) [OF pa jl] and c = pasts_okD(3) [OF pa jl]
    have "at_cell (g_log g') a READ j" "e = epoch_of (g_log g' ! j)" using j at lg [OF jl] by simp_all
    moreover have "\<forall>i. at_cell (g_log g') a WRITE i \<longrightarrow> i \<in> g_past g' (e_task (g_log g' ! j))"
      if "e_task (g_log g' ! j) \<notin> g_dead g'" "clock (node s' (e_task (g_log g' ! j))) = e_clock (g_log g' ! j)"
    proof -
      have "clock (node s (e_task (g_log g ! j))) = e_clock (g_log g ! j)"
        using that(2) gr(3) [OF t] c lg [OF jl] by simp
      then show ?thesis using that(1) q gr(1) [OF t] gr(2) lg [OF jl] at by auto
    qed
    ultimately show ?thesis unfolding reader_ok_def by blast
  qed
  then show ?thesis using v at wr mp by (auto simp: cell_ok_def var_ok_def split: option.splits if_splits)
qed

end
