(* ===== verification/FoRace.thy ===== *)
theory FoRace
  imports FoDetect
begin

text \<open>
  What the optimised FastTrack reports in a run without locks: only races, and every race
  whose first access is a write.
\<close>

section \<open>The parts of an access\<close>

abbreviation now :: "ftopt \<Rightarrow> task_ghost \<Rightarrow> nat \<Rightarrow> ADDRINT \<Rightarrow> AccessType \<Rightarrow> task_ghost" where
  "now s g w a k \<equiv> logs g w (clock (node s w)) a k"

definition fo_live :: "ftopt \<Rightarrow> task_ghost \<Rightarrow> nat \<Rightarrow> bool" where
  "fo_live s g w \<longleftrightarrow> fo_inv s g \<and> past_ok s g \<and> past_closed (task_id_ctr s) g \<and> w \<le> task_id_ctr s \<and> w \<notin> g_dead g"

definition writes_seen :: "task_ghost \<Rightarrow> ADDRINT \<Rightarrow> nat \<Rightarrow> bool" where
  "writes_seen g a w \<longleftrightarrow> (\<forall>i. at_cell (g_log g) a WRITE i \<longrightarrow> i \<in> g_past g w)"

lemma fo_liveD:
  assumes "fo_live s g w"
  shows "fo_inv s g" "past_ok s g" "past_closed (task_id_ctr s) g" "w \<le> task_id_ctr s" "w \<notin> g_dead g" "w < MAX_NUM_TASKS"
  using assms fo_invD(1) [of s g] by (auto simp: fo_live_def)

lemma logged_entry:
  assumes "past_ok s g" "fo_inv s g" "at_cell (g_log g) a k i"
  shows "e_task (g_log g ! i) \<le> task_id_ctr s" "e_task (g_log g ! i) < MAX_NUM_TASKS" "1 \<le> e_clock (g_log g ! i)"
    "e_clock (g_log g ! i) \<le> clock (node s (e_task (g_log g ! i)))" "i < length (g_log g)"
  using pasts_okD(1-3) [OF assms(1), of i] fo_invD(1) [OF assms(2)] assms(3) by (auto simp: at_cell_def)

lemma entry_unordered:
  assumes L: "fo_live s g w" and i: "at_cell (g_log g) a k i"
  shows "unordered s w (node s w) (e_task (g_log g ! i)) (ucast (e_clock (g_log g ! i))) = Some (i \<notin> g_past g w)"
proof -
  note l = fo_liveD [OF L] and e = logged_entry [OF fo_liveD(2,1) [OF L] i]
  show ?thesis using fo_unordered_vis [OF l(1,4) e(1,3,4)] pasts_okD(7) [OF l(2,4,5) e(5)] by simp
qed

lemma race_completed:
  assumes "at_cell (g_log g) a k' i" "i \<notin> g_past g w" "k = WRITE \<or> k' = WRITE"
  shows "race_at (g_log (now s g w a k)) a i (length (g_log g))"
  using assms by (auto simp: race_at_snoc at_cell_def)

lemma write_unordered:
  assumes L: "fo_live s g w" and wr: "write_ok (g_log g) a e"
  obtains b where "unordered s w (node s w) (getWriteTaskID e) (getWriteClock e) = Some b"
    "b \<Longrightarrow> \<exists>j. at_cell (g_log g) a WRITE j \<and> j \<notin> g_past g w" "\<not> b \<Longrightarrow> writes_seen g a w"
proof -
  note l = fo_liveD [OF L]
  from wr consider "e = 0" "\<forall>i. \<not> at_cell (g_log g) a WRITE i"
    | j where "at_cell (g_log g) a WRITE j" "e = epoch_of (g_log g ! j)"
        "\<forall>i. at_cell (g_log g) a WRITE i \<longrightarrow> i = j \<or> i \<in> e_past (g_log g ! j)"
    unfolding write_ok_def by blast
  then show thesis
  proof cases
    case 1
    then show thesis using that [of False] by (simp add: unordered_def fo_epoch_zero writes_seen_def)
  next
    case (2 j)
    have "unordered s w (node s w) (getWriteTaskID e) (getWriteClock e) = Some (j \<notin> g_past g w)"
      using entry_unordered [OF L 2(1)] logged_entry(2) [OF l(2,1) 2(1)] by (simp add: 2(2) epoch_of_def pack_task pack_clock)
    moreover have "writes_seen g a w" if "j \<in> g_past g w"
      using 2(3) past_closedD [OF l(3,4) that] that unfolding writes_seen_def by blast
    ultimately show thesis using that [of "j \<notin> g_past g w"] 2(1) by blast
  qed
qed

lemma reader_entry:
  assumes "fo_live s g w" "reader_ok s g a e"
  obtains j where "at_cell (g_log g) a READ j" "getReadEpochTaskID e = e_task (g_log g ! j)"
    "getReadEpochClock e = ucast (e_clock (g_log g ! j))"
proof -
  note l = fo_liveD [OF assms(1)]
  obtain j where j: "at_cell (g_log g) a READ j" "e = epoch_of (g_log g ! j)"
    using assms(2) unfolding reader_ok_def by blast
  then show thesis using that logged_entry(2) [OF l(2,1) j(1)] by (simp add: epoch_of_def pack_task pack_clock)
qed

lemma read_unordered:
  assumes L: "fo_live s g w" and rd: "e = 0 \<or> reader_ok s g a e"
  obtains b where "unordered s w (node s w) (getReadEpochTaskID e) (getReadEpochClock e) = Some b"
    "b \<Longrightarrow> \<exists>j. at_cell (g_log g) a READ j \<and> getReadEpochTaskID e = e_task (g_log g ! j) \<and>
       getReadEpochClock e = ucast (e_clock (g_log g ! j)) \<and> j \<notin> g_past g w"
proof (cases "e = 0")
  case True
  then show thesis using that [of False] by (simp add: unordered_def fo_epoch_zero)
next
  case False
  then have "reader_ok s g a e" using rd by blast
  from reader_entry [OF L this] show thesis using that entry_unordered [OF L] by metis
qed

lemma racing_reader_sound:
  assumes L: "fo_live s g w"
  shows "map_ok (g_log g) a m \<Longrightarrow>
    \<exists>r. racing_reader s w (node s w) m = Some r \<and> (r \<noteq> None \<longrightarrow> (\<exists>j. at_cell (g_log g) a READ j \<and> j \<notin> g_past g w))"
proof (induction m)
  case (Cons p m)
  then obtain j where j: "at_cell (g_log g) a READ j" "fst p = e_task (g_log g ! j)" "snd p = ucast (e_clock (g_log g ! j))"
    by (auto simp: map_ok_def)
  have "unordered s w (node s w) (fst p) (snd p) = Some (j \<notin> g_past g w)"
    using entry_unordered [OF L j(1)] j(2,3) by simp
  moreover have "map_ok (g_log g) a m" using Cons.prems by (simp add: map_ok_def)
  ultimately show ?case using Cons.IH j(1) by (cases p) auto
qed simp

section \<open>The new state of the variable\<close>

lemma write_ok_plain:
  assumes L: "fo_live s g w" and "write_ok (g_log g) a e"
  shows "e \<noteq> EPOCH_BIT"
proof (cases "e = 0")
  case False
  then obtain j where j: "at_cell (g_log g) a WRITE j" "e = epoch_of (g_log g ! j)" using assms(2) unfolding write_ok_def by blast
  then show ?thesis using pack_plain(1) logged_entry(2) [OF fo_liveD(2,1) [OF L] j(1)] by (simp add: epoch_of_def)
qed (simp add: fo_epoch_zero)

lemma isReadVector_epoch: "isReadVector v \<longleftrightarrow> drop_bit 63 (m_rd_epoch v) = 1"
  by (simp add: isReadVector_def fo_layout)

lemma logged_cells: "at_cell (g_log (now s g w a k)) a k' i \<longleftrightarrow> at_cell (g_log g) a k' i \<or> i = length (g_log g) \<and> k' = k"
  using same_cell_refl by (auto simp: at_cell_snoc)

lemma keep_write: "write_ok (g_log g) a e \<Longrightarrow> write_ok (g_log (now s g w a READ)) a e"
  unfolding write_ok_def logged_cells by (auto simp: nth_append at_cell_def)

lemma keep_map: "map_ok (g_log g) a m \<Longrightarrow> map_ok (g_log (now s g w a k)) a m"
  unfolding map_ok_def logged_cells by (force simp: nth_append at_cell_def)

lemma keep_reader:
  assumes "reader_ok s g a e"
  shows "reader_ok s (now s g w a READ) a e"
proof -
  from assms obtain j where j: "at_cell (g_log g) a READ j \<and> e = epoch_of (g_log g ! j) \<and>
      (e_task (g_log g ! j) \<notin> g_dead g \<and> clock (node s (e_task (g_log g ! j))) = e_clock (g_log g ! j) \<longrightarrow>
         (\<forall>i. at_cell (g_log g) a WRITE i \<longrightarrow> i \<in> g_past g (e_task (g_log g ! j))))"
    unfolding reader_ok_def ..
  then have "g_log (now s g w a READ) ! j = g_log g ! j" by (simp add: at_cell_def nth_append)
  then show ?thesis using j unfolding reader_ok_def logged_cells by (intro exI [of _ j]) auto
qed

lemma new_reader:
  assumes "writes_seen g a w"
  shows "reader_ok s (now s g w a READ) a (pack w (clock (node s w)))"
  unfolding reader_ok_def logged_cells
  by (rule exI [of _ "length (g_log g)"]) (use assms in \<open>auto simp: epoch_of_def writes_seen_def\<close>)

lemma new_map_entry:
  assumes "map_ok (g_log g) a m"
  shows "map_ok (g_log (now s g w a READ)) a (umap_insert m w (ucast (clock (node s w))))"
proof -
  have "\<exists>j. at_cell (g_log (now s g w a READ)) a READ j \<and> w = e_task (g_log (now s g w a READ) ! j) \<and>
      ucast (clock (node s w)) = (ucast (e_clock (g_log (now s g w a READ) ! j)) :: 64 word)"
    unfolding logged_cells by (rule exI [of _ "length (g_log g)"]) simp
  then show ?thesis using keep_map [OF assms, of w s] by (auto simp: umap_insert_def map_ok_def)
qed

text \<open>The result of an access by \<open>w\<close>: no race and a cell that knows it, or a race it completes.\<close>

definition checked :: "ftopt \<Rightarrow> task_ghost \<Rightarrow> nat \<Rightarrow> ADDRINT \<Rightarrow> AccessType \<Rightarrow> (VarState \<times> (nat \<times> AccessType) option) option \<Rightarrow> bool" where
  "checked s g w a k r \<longleftrightarrow>
     (\<exists>v q. r = Some (v, q) \<and>
        (if q = None then \<not> isRacy v \<and> var_ok s (now s g w a k) a v \<and> writes_seen g a w
         else isRacy v \<and> (\<exists>i. race_at (g_log (now s g w a k)) a i (length (g_log g)))))"

lemma fo_checked_race:
  assumes "at_cell (g_log g) a k' i" "i \<notin> g_past g w" "k = WRITE \<or> k' = WRITE" "isRacy v"
  shows "checked s g w a k (Some (v, Some q))"
  using race_completed [OF assms(1-3), of s] assms(4) by (auto simp: checked_def)

lemma first_checked:
  assumes L: "fo_live s g w" and n: "\<forall>k i. \<not> at_cell (g_log g) a k i"
  shows "checked s g w a k (Some (first_access w (node s w) k, None))"
proof -
  note l = fo_liveD [OF L]
  have ws: "writes_seen g a w" using n by (simp add: writes_seen_def)
  have no: "write_ok (g_log g) a 0" using n by (simp add: write_ok_def)
  have pl: "pack w (clock (node s w)) \<noteq> EPOCH_BIT" "drop_bit 63 (pack w (clock (node s w))) \<noteq> 1"
    using pack_plain(1,2) [OF l(6)] by blast+
  have wr: "write_ok (g_log (now s g w a WRITE)) a (pack w (clock (node s w)))"
    unfolding write_ok_def logged_cells using n by (intro disjI2 exI [of _ "length (g_log g)"]) (simp add: epoch_of_def)
  show ?thesis
    using ws pl wr keep_write [OF no, of w s] new_reader [OF ws, of s]
    by (cases k) (auto simp: checked_def first_access_def new_VarState_def isRacy_def isReadVector_epoch var_ok_def
        createReadEpoch_pack fo_epoch_zero)
qed

lemma fo_read_checked:
  assumes L: "fo_live s g w" and v: "var_ok s g a v"
  shows "checked s g w a READ (read_access s w (node s w) v)"
proof -
  note l = fo_liveD [OF L]
  have wr: "write_ok (g_log g) a (m_wr_epoch v)" using v by (simp add: var_ok_def)
  have nr: "m_wr_epoch v \<noteq> EPOCH_BIT" by (rule write_ok_plain [OF L wr])
  obtain b where b: "unordered s w (node s w) (getWriteTaskID (m_wr_epoch v)) (getWriteClock (m_wr_epoch v)) = Some b"
    "b \<Longrightarrow> \<exists>j. at_cell (g_log g) a WRITE j \<and> j \<notin> g_past g w" "\<not> b \<Longrightarrow> writes_seen g a w"
    by (rule write_unordered [OF L wr]) blast
  show ?thesis
  proof (cases b)
    case True
    then obtain j where "at_cell (g_log g) a WRITE j" "j \<notin> g_past g w" using b(2) by blast
    then show ?thesis using True b(1) by (auto simp: read_access_def setRacy_def isRacy_def intro: fo_checked_race)
  next
    case False
    note ws = b(3) [OF False]
    show ?thesis
    proof (cases "isReadVector v")
      case True
      then have "map_ok (g_log g) a (m_rvc v)" using v by (simp add: var_ok_def)
      from new_map_entry [OF this, of w s] show ?thesis
        using False True b(1) nr ws keep_write [OF wr, of w s]
        by (simp add: read_access_def checked_def var_ok_def isRacy_def isReadVector_def)
    next
      case nv: False
      then have rd: "m_rd_epoch v = 0 \<or> reader_ok s g a (m_rd_epoch v)" using v by (simp add: var_ok_def)
      obtain c where c: "unordered s w (node s w) (getReadEpochTaskID (m_rd_epoch v)) (getReadEpochClock (m_rd_epoch v)) = Some c"
        "c \<Longrightarrow> \<exists>j. at_cell (g_log g) a READ j \<and> getReadEpochTaskID (m_rd_epoch v) = e_task (g_log g ! j) \<and>
           getReadEpochClock (m_rd_epoch v) = ucast (e_clock (g_log g ! j)) \<and> j \<notin> g_past g w"
        by (rule read_unordered [OF L rd]) blast
      show ?thesis
      proof (cases c)
        case True
        then have "map_ok (g_log g) a (umap_insert [] (getReadEpochTaskID (m_rd_epoch v)) (getReadEpochClock (m_rd_epoch v)))"
          using c(2) by (auto simp: map_ok_def umap_insert_def)
        from new_map_entry [OF this, of w s] show ?thesis
          using False True b(1) c(1) nv nr ws keep_write [OF wr, of w s]
          by (simp add: read_access_def checked_def var_ok_def isRacy_def isReadVector_epoch createReadVector_def fo_epoch_zero)
      next
        case nc: False
        show ?thesis
          using False nc b(1) c(1) nv nr ws keep_write [OF wr, of w s] new_reader [OF ws, of s] pack_plain(2) [OF l(6)]
          by (simp add: read_access_def checked_def var_ok_def isRacy_def isReadVector_epoch createReadEpoch_pack)
      qed
    qed
  qed
qed

lemma fo_write_checked:
  assumes L: "fo_live s g w" and v: "var_ok s g a v"
  shows "checked s g w a WRITE (write_access s w (node s w) v)"
proof -
  note l = fo_liveD [OF L]
  have wr: "write_ok (g_log g) a (m_wr_epoch v)" using v by (simp add: var_ok_def)
  let ?e = "pack w (clock (node s w))"
  obtain b where b: "unordered s w (node s w) (getWriteTaskID (m_wr_epoch v)) (getWriteClock (m_wr_epoch v)) = Some b"
    "b \<Longrightarrow> \<exists>j. at_cell (g_log g) a WRITE j \<and> j \<notin> g_past g w" "\<not> b \<Longrightarrow> writes_seen g a w"
    by (rule write_unordered [OF L wr]) blast
  show ?thesis
  proof (cases b)
    case True
    then obtain j where "at_cell (g_log g) a WRITE j" "j \<notin> g_past g w" using b(2) by blast
    then show ?thesis using True b(1) by (auto simp: write_access_def setRacy_def isRacy_def intro: fo_checked_race)
  next
    case False
    note ws = b(3) [OF False]
    have new: "write_ok (g_log (now s g w a WRITE)) a ?e"
      unfolding write_ok_def logged_cells
      using ws by (intro disjI2 exI [of _ "length (g_log g)"]) (auto simp: epoch_of_def writes_seen_def)
    have plain: "?e \<noteq> EPOCH_BIT" by (rule pack_plain(1) [OF l(6)])
    show ?thesis
    proof (cases "isReadVector v")
      case True
      then have "map_ok (g_log g) a (m_rvc v)" using v by (simp add: var_ok_def)
      then obtain r where r: "racing_reader s w (node s w) (m_rvc v) = Some r"
        "r \<noteq> None \<longrightarrow> (\<exists>j. at_cell (g_log g) a READ j \<and> j \<notin> g_past g w)"
        using racing_reader_sound [OF L] by blast
      show ?thesis
      proof (cases r)
        case None
        then show ?thesis
          using False True b(1) r(1) ws new plain
          by (simp add: write_access_def checked_def var_ok_def isRacy_def isReadVector_epoch clearReadVector_def
              createReadEpoch_pack fo_epoch_zero)
      next
        case (Some t)
        then obtain j where "at_cell (g_log g) a READ j" "j \<notin> g_past g w" using r(2) by blast
        then show ?thesis using False True b(1) r(1) Some
          by (auto simp: write_access_def setRacy_def isRacy_def intro: fo_checked_race)
      qed
    next
      case nv: False
      then have rd: "m_rd_epoch v = 0 \<or> reader_ok s g a (m_rd_epoch v)" using v by (simp add: var_ok_def)
      obtain c where c: "unordered s w (node s w) (getReadEpochTaskID (m_rd_epoch v)) (getReadEpochClock (m_rd_epoch v)) = Some c"
        "c \<Longrightarrow> \<exists>j. at_cell (g_log g) a READ j \<and> getReadEpochTaskID (m_rd_epoch v) = e_task (g_log g ! j) \<and>
           getReadEpochClock (m_rd_epoch v) = ucast (e_clock (g_log g ! j)) \<and> j \<notin> g_past g w"
        by (rule read_unordered [OF L rd]) blast
      show ?thesis
      proof (cases c)
        case True
        then obtain j where "at_cell (g_log g) a READ j" "j \<notin> g_past g w" using c(2) by blast
        then show ?thesis using False True nv b(1) c(1)
          by (auto simp: write_access_def setRacy_def isRacy_def intro: fo_checked_race)
      next
        case nc: False
        show ?thesis
          using False nc nv b(1) c(1) ws new plain
          by (simp add: write_access_def checked_def var_ok_def isRacy_def isReadVector_epoch createReadEpoch_pack fo_epoch_zero)
      qed
    qed
  qed
qed

section \<open>Accesses in the same epoch\<close>

lemma read_same_checked:
  assumes L: "fo_live s g w" and v: "var_ok s g a v" "\<not> isRacy v" and same: "read_same_epoch w (node s w) v"
  shows "checked s g w a READ (Some (v, None))"
proof -
  note l = fo_liveD [OF L]
  have nv: "\<not> isReadVector v" "m_rd_epoch v \<noteq> 0" using same by (auto simp: read_same_epoch_def)
  then have rd: "reader_ok s g a (m_rd_epoch v)" and wr: "write_ok (g_log g) a (m_wr_epoch v)" using v by (auto simp: var_ok_def)
  from rd obtain j where j: "at_cell (g_log g) a READ j \<and> m_rd_epoch v = epoch_of (g_log g ! j) \<and>
      (e_task (g_log g ! j) \<notin> g_dead g \<and> clock (node s (e_task (g_log g ! j))) = e_clock (g_log g ! j) \<longrightarrow>
         (\<forall>i. at_cell (g_log g) a WRITE i \<longrightarrow> i \<in> g_past g (e_task (g_log g ! j))))"
    unfolding reader_ok_def ..
  then have "e_task (g_log g ! j) < MAX_NUM_TASKS" using logged_entry(2) [OF l(2,1)] by blast
  note e = pack_task(2) [OF this] pack_clock(2) [OF this]
  have t: "e_task (g_log g ! j) = w" "ucast (clock (node s w)) = (ucast (e_clock (g_log g ! j)) :: 64 word)"
    using same j e unfolding read_same_epoch_def epoch_of_def by metis+
  then have "clock (node s w) = e_clock (g_log g ! j)" by (metis unat_ucast_clock word_unat_eq_iff)
  then have "writes_seen g a w" using j t(1) l(5) by (simp add: writes_seen_def)
  then show ?thesis using v nv keep_write [OF wr, of w s] keep_reader [OF rd, of w] by (simp add: checked_def var_ok_def)
qed

lemma write_same_checked:
  assumes L: "fo_live s g w" and v: "var_ok s g a v" "\<not> isRacy v" and same: "write_same_epoch w (node s w) v"
  shows "checked s g w a WRITE (Some (v, None))"
proof -
  note l = fo_liveD [OF L]
  let ?c = "clock (node s w)" and ?g = "now s g w a WRITE"
  have "write_ok (g_log g) a (m_wr_epoch v)" "m_wr_epoch v \<noteq> 0" using v same by (auto simp: var_ok_def write_same_epoch_def)
  then obtain j where j: "at_cell (g_log g) a WRITE j" "m_wr_epoch v = epoch_of (g_log g ! j)"
    "\<forall>i. at_cell (g_log g) a WRITE i \<longrightarrow> i = j \<or> i \<in> e_past (g_log g ! j)"
    unfolding write_ok_def by blast
  note e = logged_entry [OF l(2,1) j(1)]
  have t: "e_task (g_log g ! j) = w" "ucast ?c = (ucast (e_clock (g_log g ! j)) :: 64 word)"
    using same e(2) j(2) by (simp_all add: write_same_epoch_def epoch_of_def pack_task pack_clock)
  then have c: "e_clock (g_log g ! j) = ?c" by (metis unat_ucast_clock word_unat_eq_iff)
  have only: "j \<in> g_past g u \<longleftrightarrow> u = w" if "u \<le> task_id_ctr s" "u \<notin> g_dead g" for u
    using pasts_okD(7) [OF l(2) that e(5)] fo_sees_own_only [OF l(1) that(1) l(4,5)] t(1) c by simp
  have ws: "writes_seen g a w"
    using j(3) only [OF l(4,5)] past_closedD [OF l(3,4)] unfolding writes_seen_def by blast
  have wr: "write_ok (g_log ?g) a (m_wr_epoch v)"
    unfolding write_ok_def logged_cells
    using ws by (intro disjI2 exI [of _ "length (g_log g)"]) (auto simp: j(2) epoch_of_def t(1) c writes_seen_def)
  have "reader_ok s ?g a x" if "reader_ok s g a x" for x
  proof -
    from that obtain r where r: "at_cell (g_log g) a READ r \<and> x = epoch_of (g_log g ! r) \<and>
        (e_task (g_log g ! r) \<notin> g_dead g \<and> clock (node s (e_task (g_log g ! r))) = e_clock (g_log g ! r) \<longrightarrow>
           (\<forall>i. at_cell (g_log g) a WRITE i \<longrightarrow> i \<in> g_past g (e_task (g_log g ! r))))"
      unfolding reader_ok_def ..
    let ?t = "e_task (g_log g ! r)"
    have rl: "g_log ?g ! r = g_log g ! r" using r by (simp add: at_cell_def nth_append)
    have "\<forall>i. at_cell (g_log ?g) a WRITE i \<longrightarrow> i \<in> g_past ?g ?t"
      if q: "?t \<notin> g_dead g" "clock (node s ?t) = e_clock (g_log g ! r)"
    proof -
      have seen: "\<forall>i. at_cell (g_log g) a WRITE i \<longrightarrow> i \<in> g_past g ?t" using r q by blast
      moreover have "?t \<le> task_id_ctr s" using logged_entry(1) [OF l(2,1)] r by blast
      ultimately have "?t = w" using only q(1) j(1) by blast
      then show ?thesis using seen unfolding logged_cells by auto
    qed
    then show ?thesis unfolding reader_ok_def using r rl logged_cells by (intro exI [of _ r]) auto
  qed
  then show ?thesis using v wr ws keep_map by (auto simp: checked_def var_ok_def split: if_splits)
qed

lemma access_checked:
  assumes L: "fo_live s g w" and v: "cell_ok s g a v" and nr: "\<And>x. v = Some x \<Longrightarrow> \<not> isRacy x"
  shows "checked s g w a k (access_var s w (node s w) k v)"
proof (cases v)
  case None
  then show ?thesis using first_checked [OF L] v by (simp add: access_var_def cell_ok_def)
next
  case (Some x)
  then have "var_ok s g a x" "\<not> isRacy x" using v nr by (simp_all add: cell_ok_def)
  then show ?thesis
    using Some fo_read_checked [OF L] fo_write_checked [OF L] read_same_checked [OF L] write_same_checked [OF L]
    by (cases k) (simp_all add: access_var_def)
qed

section \<open>Reports\<close>

definition reported :: "ftopt \<Rightarrow> ADDRINT \<Rightarrow> bool" where
  "reported s a \<longleftrightarrow> (\<exists>b. same_cell a b \<and> all_violations s b \<noteq> None)"

definition racy_cell :: "VarState option \<Rightarrow> bool" where
  "racy_cell v \<longleftrightarrow> (\<exists>x. v = Some x \<and> isRacy x)"

text \<open>No race on the cell has a write as its first access.\<close>

definition no_write_first :: "log_entry list \<Rightarrow> ADDRINT \<Rightarrow> bool" where
  "no_write_first l a \<longleftrightarrow> (\<forall>i j. race_at l a i j \<longrightarrow> e_kind (l ! i) = READ)"

definition det_ok :: "ftopt \<Rightarrow> task_ghost \<Rightarrow> bool" where
  "det_ok s g \<longleftrightarrow>
     (\<forall>a. let v = cell_at None (shadow_space s) a in
        (racy_cell v \<longleftrightarrow> reported s a) \<and> (reported s a \<longrightarrow> \<not> race_free (g_log g) a) \<and>
        (\<not> reported s a \<longrightarrow> cell_ok s g a v \<and> no_write_first (g_log g) a))"

lemma fo_detD:
  assumes "det_ok s g"
  shows "racy_cell (cell_at None (shadow_space s) a) \<longleftrightarrow> reported s a" "reported s a \<Longrightarrow> \<not> race_free (g_log g) a"
    "\<not> reported s a \<Longrightarrow> cell_ok s g a (cell_at None (shadow_space s) a)" "\<not> reported s a \<Longrightarrow> no_write_first (g_log g) a"
  using assms unfolding det_ok_def Let_def by blast+

lemma fo_detI:
  assumes "\<And>a. racy_cell (cell_at None (shadow_space s) a) \<longleftrightarrow> reported s a" "\<And>a. reported s a \<Longrightarrow> \<not> race_free (g_log g) a"
    "\<And>a. \<not> reported s a \<Longrightarrow> cell_ok s g a (cell_at None (shadow_space s) a)" "\<And>a. \<not> reported s a \<Longrightarrow> no_write_first (g_log g) a"
  shows "det_ok s g"
  using assms by (simp add: det_ok_def Let_def)

lemma fo_reported_cell: "same_cell a b \<Longrightarrow> reported s a \<longleftrightarrow> reported s b"
  unfolding reported_def using same_cell_sym same_cell_trans by blast

lemma no_write_first_cell: "same_cell a b \<Longrightarrow> no_write_first l a \<longleftrightarrow> no_write_first l b"
  unfolding no_write_first_def using race_at_cell by blast

lemma no_write_first_now:
  assumes "no_write_first (g_log g) a" "writes_seen g a w"
  shows "no_write_first (g_log (now s g w a k)) a"
proof -
  have "e_kind ((g_log (now s g w a k)) ! i) = READ" if "race_at (g_log (now s g w a k)) a i j" for i j
  proof -
    have "race_at (g_log g) a i j \<or> i < length (g_log g) \<and> same_cell a (e_addr (g_log g ! i)) \<and> i \<notin> g_past g w"
      using that unfolding logs_simps race_at_snoc by auto
    then consider "race_at (g_log g) a i j" | "i < length (g_log g)" "same_cell a (e_addr (g_log g ! i))" "i \<notin> g_past g w"
      by blast
    then show ?thesis
    proof cases
      case 1
      then show ?thesis using assms(1) by (auto simp: no_write_first_def race_at_def nth_append)
    next
      case 2
      then have "e_kind (g_log g ! i) \<noteq> WRITE" using assms(2) by (auto simp: writes_seen_def at_cell_def)
      then show ?thesis using 2(1) by (cases "e_kind (g_log g ! i)") (simp_all add: nth_append)
    qed
  qed
  then show ?thesis by (simp add: no_write_first_def)
qed

text \<open>The access does not change what the other cells know.\<close>

lemma fo_other_cell:
  assumes L: "fo_live s g w" and n: "\<not> same_cell b a"
  shows "race_free (g_log (now s g w a k)) b \<longleftrightarrow> race_free (g_log g) b"
    "no_write_first (g_log g) b \<Longrightarrow> no_write_first (g_log (now s g w a k)) b"
    "cell_ok s g b v \<Longrightarrow> cell_ok s (now s g w a k) b v"
proof -
  show "race_free (g_log (now s g w a k)) b \<longleftrightarrow> race_free (g_log g) b"
    using n by (auto simp: race_free_def race_at_snoc)
  show "no_write_first (g_log (now s g w a k)) b" if "no_write_first (g_log g) b"
    using that n by (auto simp: no_write_first_def race_at_snoc) (auto simp: race_at_def nth_append)
  show "cell_ok s (now s g w a k) b v" if "cell_ok s g b v"
    by (rule cell_ok_grows [OF fo_liveD(2) [OF L] that]) (use n in \<open>auto simp: at_cell_snoc nth_append\<close>)
qed

end
