(* ===== verification/FoProps.thy ===== *)
theory FoProps
  imports FoRace
begin

text \<open>
  The properties of the optimised FastTrack.  Without locks it reports only races, and all
  whose first access is a write; it misses some whose first access is a read.  With locks
  it misses a race even of two writes.
\<close>

section \<open>Steps\<close>

definition fo_ok :: "ftopt \<Rightarrow> task_ghost \<Rightarrow> bool" where
  "fo_ok s g \<longleftrightarrow> fo_inv s g \<and> past_ok s g \<and> past_closed (task_id_ctr s) g \<and> det_ok s g"

lemma fo_ok_init: "fo_ok TD_Activate ghost_init"
proof -
  have "det_ok TD_Activate ghost_init"
    by (rule fo_detI)
      (simp_all add: TD_Activate_def ghost_init_def racy_cell_def reported_def cell_ok_def at_cell_def no_write_first_def race_at_def)
  then show ?thesis by (simp add: fo_ok_def fo_inv_init pasts_ok_init past_closed_init)
qed

text \<open>Steps that are no accesses add to what tasks have seen.\<close>

definition grows :: "ftopt \<Rightarrow> task_ghost \<Rightarrow> ftopt \<Rightarrow> task_ghost \<Rightarrow> bool" where
  "grows s g s' g' \<longleftrightarrow>
     g_log g' = g_log g \<and> shadow_space s' = shadow_space s \<and> all_violations s' = all_violations s \<and>
     g_dead g \<subseteq> g_dead g' \<and> (\<forall>t \<le> task_id_ctr s. g_past g t \<subseteq> g_past g' t \<and> clock (node s t) \<le> clock (node s' t)) \<and>
     past_ok s' g' \<and> past_closed (task_id_ctr s') g'"

lemma fo_grows_ok:
  assumes ok: "fo_ok s g" and gr: "grows s g s' g'" and inv: "fo_inv s' g'"
  shows "fo_ok s' g'"
proof -
  have pa: "past_ok s g" and det: "det_ok s g" using ok by (simp_all add: fo_ok_def)
  have sp: "shadow_space s' = shadow_space s" "g_log g' = g_log g" and r: "reported s' = reported s"
    and m: "g_dead g \<subseteq> g_dead g'" "\<And>t. t \<le> task_id_ctr s \<Longrightarrow> g_past g t \<subseteq> g_past g' t"
      "\<And>t. t \<le> task_id_ctr s \<Longrightarrow> clock (node s t) \<le> clock (node s' t)"
    using gr by (auto simp: grows_def reported_def fun_eq_iff)
  have "cell_ok s' g' a v" if "cell_ok s g a v" for a v
    by (rule cell_ok_grows [OF pa that _ _ m(2,1,3)]) (simp_all add: sp)
  then have "det_ok s' g'" using fo_detD [OF det] by (intro fo_detI) (simp_all add: sp r)
  then show ?thesis using gr inv by (simp add: fo_ok_def grows_def)
qed

lemma spawned_grows:
  assumes ok: "fo_ok s g" and p: "p \<le> task_id_ctr s" "p \<notin> g_dead g"
  shows "grows s g (spawned s p t) (spawn_ghost s g p)"
proof -
  have inv: "fo_inv s g" and pa: "past_ok s g" and cl: "past_closed (task_id_ctr s) g" using ok by (simp_all add: fo_ok_def)
  have "clock (node s u) \<le> clock (node (spawned s p t) u)" if "u \<le> task_id_ctr s" for u
    using less_imp_le [OF fo_clock_small(5) [OF inv p(1)]] by (simp add: fo_spawned_node(1) [OF p(1) that])
  moreover have "past_closed (Suc (task_id_ctr s)) (spawn_ghost s g p)"
    by (rule past_closed_spawn [OF cl p(1)]) (simp_all add: spawn_ghost_def)
  ultimately show ?thesis
    using fo_past_spawned [OF inv pa p, of t] by (simp add: grows_def fo_spawned_node(3)) (simp add: spawned_def spawn_ghost_def)
qed

lemma joined_grows:
  assumes ok: "fo_ok s g" and p: "p \<le> task_id_ctr s" "p \<notin> g_dead g"
  shows "grows s g (joined s p C) (wait_ghost s g p)"
proof -
  have inv: "fo_inv s g" and pa: "past_ok s g" and cl: "past_closed (task_id_ctr s) g" using ok by (simp_all add: fo_ok_def)
  have "past_closed (task_id_ctr s) (wait_ghost s g p)"
    by (rule past_closed_wait [OF cl p(1)]) (simp_all add: wait_ghost_def)
  moreover have "shadow_space (joined s p C) = shadow_space s" "all_violations (joined s p C) = all_violations s"
    by (simp_all add: joined_def)
  ultimately show ?thesis
    using fo_past_joined [OF inv pa p, of C] by (simp add: grows_def) (auto simp: wait_ghost_def join_below_def)
qed

lemma moved_grows:
  assumes ok: "fo_ok s g"
  shows "grows s g (s\<lparr>cur := c\<rparr>) g"
  using ok by (simp add: grows_def fo_ok_def)

section \<open>Accesses\<close>

lemma fo_record:
  assumes w: "cur s th = w # ws" "task_at s w = Some (node s w)" "th < NUM_THREADS"
    and rec: "RecordMem s th a k = Some s'"
    and r: "access_var (s::ftopt) w (node s w) k (cell_at None (shadow_space s) a) = Some (v, q)"
  shows "cell_at None (shadow_space s') b = (if same_cell a b then Some v else cell_at None (shadow_space s) b)"
    "all_violations s' = (case q of None \<Rightarrow> all_violations s
       | Some (t, k') \<Rightarrow> map_insert (all_violations s) a \<lparr>a1 = \<lparr>tid = t, accessType = k'\<rparr>, a2 = \<lparr>tid = w, accessType = k\<rparr>\<rparr>)"
  using rec w r
  by (auto simp: RecordMem_def Let_def cell_at_touch cell_at_put error_def split: option.splits prod.splits)

lemma reported_record:
  assumes none: "\<not> reported s a" and v: "all_violations s' = (case q of None \<Rightarrow> all_violations s
       | Some (t, k') \<Rightarrow> map_insert (all_violations s) a \<lparr>a1 = \<lparr>tid = t, accessType = k'\<rparr>, a2 = \<lparr>tid = w, accessType = k\<rparr>\<rparr>)"
  shows "reported s' b \<longleftrightarrow> (if same_cell a b then q \<noteq> None else reported s b)"
proof (cases q)
  case None
  then show ?thesis using v none fo_reported_cell [of a b s] by (auto simp: reported_def)
next
  case (Some p)
  have "all_violations s a = None" using none by (auto simp: reported_def)
  then have "all_violations s' c \<noteq> None \<longleftrightarrow> c = a \<or> all_violations s c \<noteq> None" for c
    using v Some by (auto simp: map_insert_fresh split: prod.splits)
  then show ?thesis using Some by (auto simp: reported_def intro: same_cell_sym)
qed

lemma det_access:
  assumes L: "fo_live s g w" and det: "det_ok s g" and w: "cur s th = w # ws" "task_at s w = Some (node s w)" "th < NUM_THREADS"
    and rec: "RecordMem s th a k = Some s'"
  shows "det_ok s' (now s g w a k)"
proof -
  let ?g = "now s g w a k" and ?v = "cell_at None (shadow_space s) a"
  have ctr: "cell_ok s' = cell_ok s"
    using fo_access_frame(3) [OF rec] by (simp add: fun_eq_iff cell_ok_def var_ok_def reader_ok_def split: option.split)
  note other = fo_other_cell [OF L] and same = fo_reported_cell [of _ a s]
  show ?thesis
  proof (cases "racy_cell ?v")
    case True
    then obtain x where x: "?v = Some x" "isRacy x" by (auto simp: racy_cell_def)
    then have "access_var s w (node s w) k ?v = Some (x, None)" by (simp add: access_var_def)
    note s' = fo_record [OF w rec this]
    have r: "reported s' = reported s" using s'(2) by (simp add: reported_def fun_eq_iff)
    have ra: "reported s b" if "same_cell b a" for b using that True fo_detD(1) [OF det, of a] same [OF that] by blast
    have cell: "cell_at None (shadow_space s') b = cell_at None (shadow_space s) b" for b
      using s'(1) [of b] x(1) cell_at_same [of a b None "shadow_space s"] by auto
    show ?thesis
    proof (rule fo_detI)
      fix b
      show "racy_cell (cell_at None (shadow_space s') b) \<longleftrightarrow> reported s' b" using fo_detD(1) [OF det] by (simp add: r cell)
      show "\<not> race_free (g_log ?g) b" if "reported s' b"
        using that fo_detD(2) [OF det, of b] race_stays by (simp add: r)
      assume "\<not> reported s' b"
      then have n: "\<not> reported s b" "\<not> same_cell b a" using ra [of b] by (auto simp: r)
      show "cell_ok s' ?g b (cell_at None (shadow_space s') b)" "no_write_first (g_log ?g) b"
        using fo_detD(3,4) [OF det n(1)] other(2,3) [OF n(2)] by (simp_all add: ctr cell del: logs_simps)
    qed
  next
    case False
    then have nr: "\<not> reported s a" using fo_detD(1) [OF det] by simp
    have "checked s g w a k (access_var s w (node s w) k ?v)"
      by (rule access_checked [OF L fo_detD(3) [OF det nr]]) (use False in \<open>auto simp: racy_cell_def\<close>)
    then obtain v q where v: "access_var s w (node s w) k ?v = Some (v, q)"
      and q: "if q = None then \<not> isRacy v \<and> var_ok s ?g a v \<and> writes_seen g a w
         else isRacy v \<and> (\<exists>i. race_at (g_log ?g) a i (length (g_log g)))"
      unfolding checked_def by blast
    note cell = fo_record(1) [OF w rec v] and rep = reported_record [OF nr fo_record(2) [OF w rec v]]
    have sym: "same_cell b a \<longleftrightarrow> same_cell a b" for b using same_cell_sym by blast
    show ?thesis
    proof (rule fo_detI)
      fix b
      show "racy_cell (cell_at None (shadow_space s') b) \<longleftrightarrow> reported s' b"
        using fo_detD(1) [OF det, of b] q by (auto simp: cell rep racy_cell_def split: if_splits)
      show "\<not> race_free (g_log ?g) b" if "reported s' b"
      proof (cases "same_cell a b")
        case True
        then have "q \<noteq> None" using that rep by simp
        then have "\<exists>i. race_at (g_log ?g) a i (length (g_log g))" using q by (simp del: logs_simps)
        then have "\<not> race_free (g_log ?g) a" unfolding race_free_def by blast
        then show ?thesis using race_free_cell [OF True] by blast
      next
        case False
        then show ?thesis using that fo_detD(2) [OF det, of b] other(1) [of b a k] by (simp add: rep sym del: logs_simps)
      qed
      assume n: "\<not> reported s' b"
      show "cell_ok s' ?g b (cell_at None (shadow_space s') b)" "no_write_first (g_log ?g) b"
      proof -
        have "cell_ok s ?g b (cell_at None (shadow_space s') b) \<and> no_write_first (g_log ?g) b"
        proof (cases "same_cell a b")
          case True
          then have "q = None" using n unfolding rep by (cases q) auto
          then have "cell_ok s ?g a (Some v)" "writes_seen g a w" using q by (simp_all add: cell_ok_def del: logs_simps)
          then show ?thesis
            using True cell_ok_same [OF True] no_write_first_cell [OF True] no_write_first_now [OF fo_detD(4) [OF det nr]]
            by (simp add: cell del: logs_simps)
        next
          case False
          then have "\<not> reported s b" using n rep by simp
          then show ?thesis using False fo_detD(3,4) [OF det] other(2,3) [of b a] by (simp add: cell sym del: logs_simps)
        qed
        then show "cell_ok s' ?g b (cell_at None (shadow_space s') b)" "no_write_first (g_log ?g) b" by (simp_all add: ctr del: logs_simps)
      qed
    qed
  qed
qed

section \<open>Runs\<close>

lemma fo_step_ok:
  assumes ok: "fo_ok s g" and d: "fo_disciplined s g e" and st: "fo_step s e = Some s'"
  shows "fo_ok s' (fo_ghost_step s g e)"
proof -
  have inv: "fo_inv s g" and pa: "past_ok s g" and cl: "past_closed (task_id_ctr s) g" and det: "det_ok s g"
    using ok by (simp_all add: fo_ok_def)
  note inv' = fo_step_inv [OF inv d st]
  note keep = fo_grows_ok [OF ok _ inv']
  show ?thesis
  proof (cases e)
    case (FoSpawn th t q)
    then have "e = FoSpawn th t q \<or> e = FoSpawnRoot th t" ..
    from fo_spawn_result [OF inv d st this] show ?thesis using spawned_grows [OF ok] keep by metis
  next
    case (FoSpawnRoot th t)
    then have "e = FoSpawn th t None \<or> e = FoSpawnRoot th t" ..
    from fo_spawn_result [OF inv d st this] show ?thesis using spawned_grows [OF ok] keep by metis
  next
    case (FoWait th)
    then have "active s g th" using d by (simp add: fo_disciplined_def)
    from fo_wait_step [OF inv this] show ?thesis using joined_grows [OF ok] st FoWait keep by (metis option.inject)
  next
    case (FoBegin th t)
    have "fo_ghost_step s g e = g" by (simp add: FoBegin fo_ghost_step_def)
    then show ?thesis using fo_begin_step(2) [OF d [unfolded FoBegin] st [unfolded FoBegin]] moved_grows [OF ok] keep by metis
  next
    case (FoEnd th)
    have "fo_ghost_step s g e = g" by (simp add: FoEnd fo_ghost_step_def)
    then show ?thesis using fo_end_step [OF st [unfolded FoEnd]] moved_grows [OF ok] keep by metis
  next
    case (FoAccess th a k)
    then have ac: "active s g th" and rec: "RecordMem s th a k = Some s'" using d st by (simp_all add: fo_disciplined_def)
    obtain w ws where w: "cur s th = w # ws" "w \<le> task_id_ctr s" "w \<notin> g_dead g" "task_at s w = Some (node s w)" "th < NUM_THREADS"
      by (rule fo_active_top [OF inv ac])
    have g': "fo_ghost_step s g e = now s g w a k" by (simp add: FoAccess fo_ghost_step_def w(1))
    have L: "fo_live s g w" using inv pa cl w(2,3) by (simp add: fo_live_def)
    note f = fo_access_frame [OF rec]
    show ?thesis
      using inv' det_access [OF L det w(1,4,5) rec] fo_past_logs [OF inv pa w(2,3), of a k]
        past_closed_logs [OF cl pa w(2), of "clock (node s w)" a k]
      unfolding fo_ok_def g' by (simp add: f del: logs_simps)
  qed (use d in \<open>simp_all add: fo_disciplined_def\<close>)
qed

lemma fo_reaches_ok:
  assumes "fo_reaches es s g"
  shows "fo_ok s g"
proof -
  have "fo_ok (fst p') (snd p')" if "fo_traced p e = Some p'" "fo_ok (fst p) (snd p)" for p p' e
    using fo_step_ok [OF that(2)] that(1) by (auto simp: fo_traced_def bind_eq_Some_conv split: if_splits)
  then have "run fo_traced p es = Some p' \<Longrightarrow> fo_ok (fst p) (snd p) \<Longrightarrow> fo_ok (fst p') (snd p')" for p p'
    by (rule run_invariant [where P = "\<lambda>p. fo_ok (fst p) (snd p)"])
  from this [OF assms [unfolded fo_reaches_def]] show ?thesis using fo_ok_init by simp
qed

section \<open>Reports stay\<close>

lemma fo_wait_children_reports:
  assumes "wait_children s t cs = Some s'"
  shows "all_violations s' = all_violations s"
  using assms
proof (rule wait_children.raw_induct [where P = "\<lambda>s t cs s'. all_violations s' = all_violations s", rotated])
  fix wc s t cs y
  assume IH: "\<And>s t cs y. wc s t cs = Some y \<Longrightarrow> all_violations y = all_violations s"
    and eq: "(case cs of [] \<Rightarrow> Some (clear_list t s)
      | c # cs' \<Rightarrow> do {
          x \<leftarrow> task_at s c;
          s \<leftarrow> (if kids x = [] then Some s else wc s c (kids x));
          let s = s\<lparr>joinset := (joinset s)(taskId (tstate_nodes s c) + 1 := taskId (tstate_nodes s t) + 1)\<rparr>;
          wc s t cs'
        }) = Some y"
  show "all_violations y = all_violations s"
  proof (cases cs)
    case Nil
    then show ?thesis using eq by (auto simp: clear_list_def upd_node_def)
  next
    case (Cons c cs')
    then obtain x s1 where 1: "(if kids x = [] then Some s else wc s c (kids x)) = Some s1"
      and 2: "wc (s1\<lparr>joinset := (joinset s1)(taskId (tstate_nodes s1 c) + 1 := taskId (tstate_nodes s1 t) + 1)\<rparr>) t cs' = Some y"
      using eq by (auto simp: bind_eq_Some_conv Let_def)
    have "all_violations s1 = all_violations s" using 1 IH by (auto split: if_splits)
    then show ?thesis using IH [OF 2] by simp
  qed
qed

lemma fo_record_reports:
  assumes "RecordMem s th a k = Some s'"
  shows "all_violations s \<subseteq>\<^sub>m all_violations s'"
  using assms
  by (auto simp: RecordMem_def Let_def bind_eq_Some_conv error_def split: if_splits list.splits option.splits)

interpretation fo_reports: race_reporter fo_step all_violations
proof unfold_locales
  fix s e s' assume st: "fo_step s e = Some s'"
  show "all_violations s \<subseteq>\<^sub>m all_violations s'"
  proof (cases e)
    case (FoAccess th a k)
    then show ?thesis using st fo_record_reports by simp
  next
    case (FoWait th)
    then have "all_violations s' = all_violations s"
      using st fo_wait_children_reports
      by (auto simp: Capturewait_for_all_def Capturewait_for_all_task_def bind_eq_Some_conv split: if_splits)
    then show ?thesis by simp
  qed (use st in \<open>auto simp: spawn_def CaptureSpawn_def exec_begin_def exec_end_def CaptureLockAcquire_def
    CaptureLockRelease_def upd_node_def bind_eq_Some_conv Let_def case_prod_beta split: if_splits option.splits\<close>)
qed

section \<open>Evaluating runs\<close>

lemmas fo_eval =
  TD_Activate_def task_at_def cur_top_def parent_clock_def vc_find_def find_root.simps access_clock_def unordered_def
  read_same_epoch_def write_same_epoch_def read_access_def write_access_def first_access_def access_var_def RecordMem_def
  error_def CaptureLockAcquire_def CaptureLockRelease_def join_entry_def exec_begin_def exec_end_def copy_below_def
  inherit_vc_def record_parent_def CaptureSpawn_def spawn_def kids_def clear_list_def wait_children.simps
  Capturewait_for_all_task_def Capturewait_for_all_def upd_node_def umap_insert_def umap_insert_all_def isRacy_def setRacy_def
  isReadVector_epoch createReadVector_def clearReadVector_def zero_TaskState_def new_VarState_def
  createReadEpoch_def createWriteEpoch_def getReadEpochClock_def getReadEpochTaskID_def getWriteClock_def getWriteTaskID_def
  CLK_MASK_def TASKID_MASK_def EPOCH_BIT_def fo_layout NUM_THREADS_def NUM_FIXED_TASK_ENTRIES_def MAX_MVC_SIZE_def
  INT_MAX_def push_bit_eq_mult drop_bit_eq_div map_insert_def Let_def upt_rec

lemmas fo_ghost_eval = fo_traced_def fo_disciplined_def active_def fo_ghost_step_def spawn_ghost_def wait_ghost_def
  task_below_def join_below_def ghost_init_def add_task_def

section \<open>What is reported\<close>









section \<open>Waits\<close>

text \<open>
  C27: a wait of a live task returns, however its children's lists nest, and from then on
  every access so far of every task below the waiting one counts as ordered before it; of
  the other tasks' accesses it orders nothing more than before.
\<close>

theorem fo_wait_joins:
  assumes r: "fo_reaches es s g" and th: "active s g th" "cur s th = p # ts"
  shows "\<exists>s'. Capturewait_for_all s th = Some s' \<and>
    (\<forall>t \<le> task_id_ctr s. \<forall>c. 1 \<le> c \<and> c \<le> clock (node s t) \<longrightarrow>
       unordered s' p (node s' p) t (ucast c) =
         (if t \<in> below s g p then Some False else unordered s p (node s p) t (ucast c)))"
proof -
  have ok: "fo_ok s g" by (rule fo_reaches_ok [OF r])
  then have inv: "fo_inv s g" by (simp add: fo_ok_def)
  let ?g = "wait_ghost s g p" and ?s = "joined s p (below s g p - g_dead g)"
  obtain p' ts' where "cur s th = p' # ts'" "p' \<le> task_id_ctr s" "p' \<notin> g_dead g"
    "fo_step s (FoWait th) = Some (joined s p' (below s g p' - g_dead g))"
    by (rule fo_wait_step [OF inv th(1)])
  then have st: "p \<le> task_id_ctr s" "p \<notin> g_dead g" "fo_step s (FoWait th) = Some ?s"
    using th(2) by simp_all
  have inv': "fo_inv ?s ?g" by (rule fo_joined_inv [OF inv st(1,2)])
  note tr = fo_invD(2) [OF inv] and dd = fo_invD(3) [OF inv]
  have "unordered ?s p (node ?s p) t (ucast c) = (if t \<in> below s g p then Some False else unordered s p (node s p) t (ucast c))"
    if t: "t \<le> task_id_ctr s" and c: "1 \<le> c" "c \<le> clock (node s t)" for t c
  proof -
    have "sees ?g p t c \<longleftrightarrow> pot (g_line g) (g_fork g) (g_dead g) p t c"
      using vis_join_self [OF tr t st(1) dd st(2)] by (simp add: wait_ghost_def)
    then have "sees ?g p t c \<longleftrightarrow> t \<in> below s g p \<or> sees g p t c"
      using t by (auto simp: task_below_def pot_def vis_def)
    then show ?thesis
      using fo_unordered_vis [OF inv' _ _ c(1), of p t] fo_unordered_vis [OF inv st(1) t c] st(1) t c(2) by auto
  qed
  then show ?thesis using st(3) by (intro exI [of _ ?s]) (simp del: fo_joined_simps)
qed

text \<open>Task 1 spawns task 2, which writes.\<close>

definition fo_nested_run :: "fo_event list" where
  "fo_nested_run = [FoSpawnRoot 0 1, FoBegin 1 1, FoSpawnRoot 1 2, FoBegin 2 2, FoAccess 2 64 WRITE]"

lemma fo_nested_run_state:
  "\<exists>s g. fo_reaches fo_nested_run s g \<and> active s g 1 \<and> cur s 1 = [1] \<and> task_id_ctr s = 2 \<and> g_line g 2 = [0, 1, 2] \<and>
     clock (node s 2) = 1 \<and> unordered s 1 (node s 1) 2 1 = Some True"
proof -
  have "run fo_traced (TD_Activate, ghost_init) fo_nested_run \<bind>
      (\<lambda>(s, g). Some (active s g 1, cur s 1, task_id_ctr s, g_line g 2, clock (node s 2), unordered s 1 (node s 1) 2 1)) =
    Some (True, [1], 2, [0, 1, 2], 1, Some True)"
    by (simp add: fo_nested_run_def fo_eval fo_ghost_eval shadow_eval cong: eval_cong split del: if_split)
  then show ?thesis unfolding fo_reaches_def by (auto simp: bind_eq_Some_conv)
qed

theorem fo_wait_joins_witness:
  "\<exists>s g s'. fo_reaches fo_nested_run s g \<and> unordered s 1 (node s 1) 2 1 = Some True \<and>
     Capturewait_for_all s 1 = Some s' \<and> unordered s' 1 (node s' 1) 2 1 = Some False"
proof -
  obtain s g where r: "fo_reaches fo_nested_run s g" "active s g 1" "cur s 1 = [1]" "task_id_ctr s = 2" "g_line g 2 = [0, 1, 2]"
    "clock (node s 2) = 1" "unordered s 1 (node s 1) 2 1 = Some True"
    using fo_nested_run_state by blast
  have b: "2 \<in> below s g 1" "2 \<le> task_id_ctr s" "1 \<le> (1 :: 32 word) \<and> 1 \<le> clock (node s 2)"
    using r(4-6) by (simp_all add: task_below_def)
  from fo_wait_joins [OF r(1-3)] obtain s' where s': "Capturewait_for_all s 1 = Some s'"
    "\<forall>t \<le> task_id_ctr s. \<forall>c. 1 \<le> c \<and> c \<le> clock (node s t) \<longrightarrow>
       unordered s' 1 (node s' 1) t (ucast c) = (if t \<in> below s g 1 then Some False else unordered s 1 (node s 1) t (ucast c))"
    by (elim exE conjE) (rule that)
  have "unordered s' 1 (node s' 1) 2 (ucast (1 :: 32 word)) = Some False" using s'(2) [rule_format, OF b(2,3)] b(1) by simp
  then show ?thesis using r(1,7) s'(1) by auto
qed

section \<open>Locks\<close>

definition fo_thread :: "fo_event \<Rightarrow> THREADID" where
  "fo_thread e = (case e of FoSpawn th _ _ \<Rightarrow> th | FoSpawnRoot th _ \<Rightarrow> th | FoWait th \<Rightarrow> th | FoBegin th _ \<Rightarrow> th | FoEnd th \<Rightarrow> th
     | FoAcquire th _ \<Rightarrow> th | FoRelease th _ \<Rightarrow> th | FoAccess th _ _ \<Rightarrow> th)"

definition fo_lock_event :: "fo_event \<Rightarrow> bool" where
  "fo_lock_event e = (case e of FoAcquire _ _ \<Rightarrow> True | FoRelease _ _ \<Rightarrow> True | _ \<Rightarrow> False)"

text \<open>
  Tasks 1 and 2 pass the lock at \<open>0x900\<close> on and use it for nothing.  Task 1 then spawns task
  3, which writes, and waits; task 2 writes, before or after that.
\<close>

definition fo_pass_lock :: "fo_event list" where
  "fo_pass_lock =
     [FoSpawnRoot 0 1, FoSpawnRoot 0 2, FoBegin 1 1, FoBegin 2 2,
      FoAcquire 1 0x900, FoRelease 1 0x900, FoAcquire 2 0x900, FoRelease 2 0x900]"

definition fo_child_writes :: "fo_event list" where
  "fo_child_writes = [FoSpawnRoot 1 3, FoBegin 1 3, FoAccess 1 64 WRITE, FoEnd 1, FoWait 1]"

text \<open>
  C29: with locks the optimised FastTrack can miss a race, of two writes.  Acquiring a lock
  adds its former holder to the clocks of the task, and a lookup takes every task whose
  root in the join set has such a clock as ordered, at any clock.  So when task 2 has
  acquired the lock from task 1, the write of task 3, which task 1 spawned and joined after
  it released the lock, looks ordered before task 2's write.  The two schedules differ only
  in when task 2 writes: each thread does the same in the same order, as the lock does, and
  no write is made under the lock; one is reported, the other is not.
\<close>

theorem fo_lock_hides_a_race:
  "\<exists>s s'. run fo_step TD_Activate (fo_pass_lock @ [FoAccess 2 64 WRITE] @ fo_child_writes) = Some s \<and>
     run fo_step TD_Activate (fo_pass_lock @ fo_child_writes @ [FoAccess 2 64 WRITE]) = Some s' \<and>
     (\<forall>th. filter (\<lambda>e. fo_thread e = th) (fo_pass_lock @ [FoAccess 2 64 WRITE] @ fo_child_writes) =
        filter (\<lambda>e. fo_thread e = th) (fo_pass_lock @ fo_child_writes @ [FoAccess 2 64 WRITE])) \<and>
     filter fo_lock_event (fo_pass_lock @ [FoAccess 2 64 WRITE] @ fo_child_writes) =
       filter fo_lock_event (fo_pass_lock @ fo_child_writes @ [FoAccess 2 64 WRITE]) \<and>
     all_violations s 64 \<noteq> None \<and> (\<forall>a. all_violations s' a = None)"
proof -
  have "\<exists>s. run fo_step TD_Activate (fo_pass_lock @ [FoAccess 2 64 WRITE] @ fo_child_writes) = Some s \<and> all_violations s 64 \<noteq> None"
    by (simp add: fo_pass_lock_def fo_child_writes_def fo_eval shadow_eval cong: eval_cong split del: if_split)
  moreover have "\<exists>s. run fo_step TD_Activate (fo_pass_lock @ fo_child_writes @ [FoAccess 2 64 WRITE]) = Some s \<and> all_violations s = Map.empty"
    by (simp add: fo_pass_lock_def fo_child_writes_def fo_eval shadow_eval cong: eval_cong split del: if_split)
  moreover have "filter (\<lambda>e. fo_thread e = th) (fo_pass_lock @ [FoAccess 2 64 WRITE] @ fo_child_writes) =
      filter (\<lambda>e. fo_thread e = th) (fo_pass_lock @ fo_child_writes @ [FoAccess 2 64 WRITE])" for th
    by (simp add: fo_child_writes_def fo_thread_def)
  ultimately show ?thesis by (auto simp: fo_child_writes_def fo_lock_event_def)
qed

end
