(* ===== verification/OmHeap.thy ===== *)
theory OmHeap
  imports Prelude
begin

unbundle bit_operations_syntax

text \<open>
  The memory of one order-maintenance structure of C-RACER (\<open>cracer/include/blist.h\<close>,
  \<open>cracer/include/om.h\<close>, the constants of \<open>cracer/include/Common.H\<close>): the nodes that stand
  for strands, the sublists that hold them, and the tree above the sublists.  An address is
  a natural number, a pointer is \<open>None\<close> (null) or \<open>Some\<close> address, freeing an object removes it,
  and a dereference of null or of a freed object has no result.  The English and the Hebrew
  structure never share an object, so each has a memory of its own.
\<close>

section \<open>Constants\<close>

type_synonym label_t = "64 word"

definition MAX_LABEL :: label_t where
  "MAX_LABEL = - 1"

definition NODE_INTERVAL :: label_t where
  "NODE_INTERVAL = push_bit 58 1"

definition SUBLIST_SIZE :: nat where
  "SUBLIST_SIZE = 64"

definition MAX_LEVEL :: nat where
  "MAX_LEVEL = 64"

section \<open>Objects\<close>

type_synonym ptr = "nat option"

abbreviation NULL :: ptr where
  "NULL \<equiv> None"

record bl_node =
  bl_label :: label_t
  bl_next :: ptr
  bl_prev :: ptr
  bl_list :: ptr

record blist =
  head :: ptr
  tail :: ptr
  above :: ptr
  heavy :: bool

text \<open>
  \<open>left\<close> and \<open>prev\<close>, \<open>right\<close> and \<open>next\<close>, \<open>below\<close> and \<open>split_nodes\<close> are unions: one field each.
\<close>

record tl_node =
  tl_label :: label_t
  level :: nat
  num_leaves :: nat
  parent :: ptr
  left :: ptr
  right :: ptr
  below :: ptr
  needs_rebalance :: bool

abbreviation split_nodes :: "tl_node \<Rightarrow> ptr" where
  "split_nodes \<equiv> below"

section \<open>The memory\<close>

record om_heap =
  nodes :: "nat \<rightharpoonup> bl_node"
  lists :: "nat \<rightharpoonup> blist"
  tls :: "nat \<rightharpoonup> tl_node"
  fresh :: nat

definition empty_heap :: om_heap where
  "empty_heap = \<lparr>nodes = Map.empty, lists = Map.empty, tls = Map.empty, fresh = 0\<rparr>"

definition node_at :: "om_heap \<Rightarrow> ptr \<Rightarrow> bl_node option" where
  "node_at h p = do { a \<leftarrow> p; nodes h a }"

definition list_at :: "om_heap \<Rightarrow> ptr \<Rightarrow> blist option" where
  "list_at h p = do { a \<leftarrow> p; lists h a }"

definition tl_at :: "om_heap \<Rightarrow> ptr \<Rightarrow> tl_node option" where
  "tl_at h p = do { a \<leftarrow> p; tls h a }"

text \<open>Assignments to fields of the object behind a pointer.\<close>

definition upd_node :: "ptr \<Rightarrow> (bl_node \<Rightarrow> bl_node) \<Rightarrow> om_heap \<Rightarrow> om_heap option" where
  "upd_node p f h = do { a \<leftarrow> p; n \<leftarrow> nodes h a; Some (h\<lparr>nodes := (nodes h)(a \<mapsto> f n)\<rparr>) }"

definition upd_list :: "ptr \<Rightarrow> (blist \<Rightarrow> blist) \<Rightarrow> om_heap \<Rightarrow> om_heap option" where
  "upd_list p f h = do { a \<leftarrow> p; l \<leftarrow> lists h a; Some (h\<lparr>lists := (lists h)(a \<mapsto> f l)\<rparr>) }"

definition upd_tl :: "ptr \<Rightarrow> (tl_node \<Rightarrow> tl_node) \<Rightarrow> om_heap \<Rightarrow> om_heap option" where
  "upd_tl p f h = do { a \<leftarrow> p; n \<leftarrow> tls h a; Some (h\<lparr>tls := (tls h)(a \<mapsto> f n)\<rparr>) }"

text \<open>
  \<open>malloc\<close> and \<open>free\<close>.  The contents of fresh memory are indeterminate; the model starts
  them at zero.
\<close>

definition new_node :: "om_heap \<Rightarrow> ptr \<times> om_heap" where
  "new_node h = (Some (fresh h), h\<lparr>nodes := (nodes h)(fresh h \<mapsto>
     \<lparr>bl_label = 0, bl_next = NULL, bl_prev = NULL, bl_list = NULL\<rparr>), fresh := fresh h + 1\<rparr>)"

definition new_list :: "om_heap \<Rightarrow> ptr \<times> om_heap" where
  "new_list h = (Some (fresh h), h\<lparr>lists := (lists h)(fresh h \<mapsto>
     \<lparr>head = NULL, tail = NULL, above = NULL, heavy = False\<rparr>), fresh := fresh h + 1\<rparr>)"

definition new_tl :: "om_heap \<Rightarrow> ptr \<times> om_heap" where
  "new_tl h = (Some (fresh h), h\<lparr>tls := (tls h)(fresh h \<mapsto>
     \<lparr>tl_label = 0, level = 0, num_leaves = 0, parent = NULL, left = NULL, right = NULL,
      below = NULL, needs_rebalance = False\<rparr>), fresh := fresh h + 1\<rparr>)"

definition free_node :: "ptr \<Rightarrow> om_heap \<Rightarrow> om_heap option" where
  "free_node p h = do { a \<leftarrow> p; _ \<leftarrow> nodes h a; Some (h\<lparr>nodes := (nodes h)(a := None)\<rparr>) }"

definition free_list :: "ptr \<Rightarrow> om_heap \<Rightarrow> om_heap option" where
  "free_list p h = do { a \<leftarrow> p; _ \<leftarrow> lists h a; Some (h\<lparr>lists := (lists h)(a := None)\<rparr>) }"

definition free_tl :: "ptr \<Rightarrow> om_heap \<Rightarrow> om_heap option" where
  "free_tl p h = do { a \<leftarrow> p; _ \<leftarrow> tls h a; Some (h\<lparr>tls := (tls h)(a := None)\<rparr>) }"

lemmas heap_access = node_at_def list_at_def tl_at_def upd_node_def upd_list_def upd_tl_def
  new_node_def new_list_def new_tl_def free_node_def free_list_def free_tl_def

lemma heap_access_Some [simp]:
  "node_at h (Some a) = nodes h a" "list_at h (Some a) = lists h a" "tl_at h (Some a) = tls h a"
  "node_at h NULL = None" "list_at h NULL = None" "tl_at h NULL = None"
  by (simp_all add: node_at_def list_at_def tl_at_def)

lemma upd_Some:
  "upd_node p f h = Some h' \<longleftrightarrow> (\<exists>a n. p = Some a \<and> nodes h a = Some n \<and> h' = h\<lparr>nodes := (nodes h)(a \<mapsto> f n)\<rparr>)"
  "upd_list p g h = Some h' \<longleftrightarrow> (\<exists>a l. p = Some a \<and> lists h a = Some l \<and> h' = h\<lparr>lists := (lists h)(a \<mapsto> g l)\<rparr>)"
  "upd_tl p k h = Some h' \<longleftrightarrow> (\<exists>a n. p = Some a \<and> tls h a = Some n \<and> h' = h\<lparr>tls := (tls h)(a \<mapsto> k n)\<rparr>)"
  by (auto simp: heap_access bind_eq_Some_conv)

end
