(* ===== verification/Blist.thy ===== *)
theory Blist
  imports OmHeap
begin

text \<open>
  The lower-level list of the order-maintenance structure (\<open>cracer/src/blist.cpp\<close>,
  \<open>insert_internal\<close> of \<open>cracer/include/blist.h\<close>).  The fields \<open>in_use\<close>, \<open>active_insert\<close> and
  \<open>last_insert_id\<close> serve assertions and one message only and are left out.
\<close>

section \<open>Operations\<close>

text \<open>Link \<open>n\<close> after \<open>base\<close>; without a base it becomes the only node, with label 0.\<close>

definition insert_internal :: "om_heap \<Rightarrow> ptr \<Rightarrow> ptr \<Rightarrow> ptr \<Rightarrow> om_heap option" where
  "insert_internal h self base n =
     do {
       h \<leftarrow> (if base = NULL then do {
              h \<leftarrow> upd_list self (\<lambda>l. l\<lparr>tail := n, head := n\<rparr>) h;
              upd_node n (\<lambda>x. x\<lparr>bl_next := NULL, bl_prev := NULL, bl_label := 0\<rparr>) h
            } else do {
              l \<leftarrow> list_at h self;
              h \<leftarrow> (if base = tail l then do {
                     h \<leftarrow> upd_list self (\<lambda>l. l\<lparr>tail := n\<rparr>) h;
                     upd_node n (\<lambda>x. x\<lparr>bl_next := NULL\<rparr>) h
                   } else do {
                     b \<leftarrow> node_at h base;
                     h \<leftarrow> upd_node n (\<lambda>x. x\<lparr>bl_next := bl_next b\<rparr>) h;
                     upd_node (bl_next b) (\<lambda>x. x\<lparr>bl_prev := n\<rparr>) h
                   });
              h \<leftarrow> upd_node base (\<lambda>x. x\<lparr>bl_next := n\<rparr>) h;
              upd_node n (\<lambda>x. x\<lparr>bl_prev := base\<rparr>) h
            });
       upd_node n (\<lambda>x. x\<lparr>bl_list := self\<rparr>) h
     }"

text \<open>A label between \<open>base\<close> and its successor, 0 when there is none.\<close>

definition mid_label :: "label_t \<Rightarrow> label_t option \<Rightarrow> label_t" where
  "mid_label b nxt =
     (let next_label = (case nxt of None \<Rightarrow> MAX_LABEL | Some l \<Rightarrow> l);
          lab = drop_bit 1 b + drop_bit 1 next_label;
          lab = (if b AND next_label AND 1 = 1 then lab + 1 else lab);
          lab = (if nxt = None then lab + 1 else lab)
      in if b = lab then 0 else lab)"

definition get_new_label :: "om_heap \<Rightarrow> ptr \<Rightarrow> label_t option" where
  "get_new_label h base =
     do {
       b \<leftarrow> node_at h base;
       nxt \<leftarrow> (if bl_next b = NULL then Some None
               else do { n \<leftarrow> node_at h (bl_next b); Some (Some (bl_label n)) });
       Some (mid_label (bl_label b) nxt)
     }"

definition bl_create :: "om_heap \<Rightarrow> ptr \<Rightarrow> om_heap option" where
  "bl_create h self =
     upd_list self (\<lambda>l. l\<lparr>head := NULL, tail := NULL, above := NULL, heavy := False\<rparr>) h"

definition bl_new :: "om_heap \<Rightarrow> (ptr \<times> om_heap) option" where
  "bl_new h = do { let (self, h) = new_list h; h \<leftarrow> bl_create h self; Some (self, h) }"

text \<open>The loop of \<open>bl_destroy\<close> frees the node before the one it stands at.\<close>

partial_function (option) bl_destroy_from :: "om_heap \<Rightarrow> ptr \<Rightarrow> om_heap option" where
  "bl_destroy_from h it =
     (if it = NULL then Some h
      else do {
        n \<leftarrow> node_at h it;
        h \<leftarrow> free_node (bl_prev n) h;
        bl_destroy_from h (bl_next n)
      })"

declare bl_destroy_from.simps [code]

definition bl_destroy :: "om_heap \<Rightarrow> ptr \<Rightarrow> om_heap option" where
  "bl_destroy h self =
     do {
       l \<leftarrow> list_at h self;
       if head l = NULL then Some h
       else do {
         n \<leftarrow> node_at h (head l);
         h \<leftarrow> bl_destroy_from h (bl_next n);
         free_node (tail l) h
       }
     }"

definition bl_free :: "om_heap \<Rightarrow> ptr \<Rightarrow> om_heap option" where
  "bl_free h self =
     do {
       l \<leftarrow> list_at h self;
       h \<leftarrow> (if head l \<noteq> NULL then bl_destroy h self else Some h);
       free_list self h
     }"

definition bl_insert_initial :: "om_heap \<Rightarrow> ptr \<Rightarrow> (ptr \<times> om_heap) option" where
  "bl_insert_initial h self =
     do { let (n, h) = new_node h; h \<leftarrow> insert_internal h self NULL n; Some (n, h) }"

definition bl_insert :: "om_heap \<Rightarrow> ptr \<Rightarrow> ptr \<Rightarrow> (ptr \<times> om_heap) option" where
  "bl_insert h self base =
     do {
       lab \<leftarrow> get_new_label h base;
       if lab > 0 then do {
         let (n, h) = new_node h;
         h \<leftarrow> upd_node n (\<lambda>x. x\<lparr>bl_label := lab\<rparr>) h;
         h \<leftarrow> insert_internal h self base n;
         Some (n, h)
       } else Some (NULL, h)
     }"

definition bl_precedes :: "om_heap \<Rightarrow> ptr \<Rightarrow> ptr \<Rightarrow> bool option" where
  "bl_precedes h x y = do { x \<leftarrow> node_at h x; y \<leftarrow> node_at h y; Some (bl_label x < bl_label y) }"

partial_function (option) bl_count :: "om_heap \<Rightarrow> ptr \<Rightarrow> nat \<Rightarrow> nat option" where
  "bl_count h current count =
     (if current = NULL then Some count
      else do { n \<leftarrow> node_at h current; bl_count h (bl_next n) (count + 1) })"

declare bl_count.simps [code]

definition bl_size :: "om_heap \<Rightarrow> ptr \<Rightarrow> nat option" where
  "bl_size h self = do { l \<leftarrow> list_at h self; bl_count h (head l) 0 }"

section \<open>Labels\<close>

text \<open>The computation on natural numbers: the rounded-down mean, one more at the end.\<close>

lemma and_1_odd: "(w :: label_t) AND 1 = 1 \<longleftrightarrow> odd w"
  by (simp add: and_one_eq odd_iff_mod_2_eq_one)

lemma unat_half: "unat (drop_bit 1 (w :: label_t)) = unat w div 2"
  by (simp add: drop_bit_eq_div unat_div_distrib)

lemma odd_unat: "odd (w :: label_t) \<longleftrightarrow> odd (unat w)"
proof -
  have "bit (unat w) 0 \<longleftrightarrow> bit w 0" by (simp add: bit_unsigned_iff)
  then show ?thesis by (simp add: bit_0)
qed

lemma unat_add_small: "unat x + unat y < 2 ^ 64 \<Longrightarrow> unat (x + y) = unat x + unat (y :: label_t)"
  by (simp add: unat_word_ariths)

lemma label_less_max: "unat (w :: label_t) < 2 ^ 64"
  using unsigned_less [of w] by simp

definition mean :: "label_t \<Rightarrow> label_t \<Rightarrow> label_t" where
  "mean b m = (let lab = drop_bit 1 b + drop_bit 1 m in if b AND m AND 1 = 1 then lab + 1 else lab)"

lemma unat_mean: "unat (mean b m) = (unat b + unat m) div 2"
proof -
  have lim: "unat b < 2 ^ 64" "unat m < 2 ^ 64" by (rule label_less_max)+
  have sum: "unat (drop_bit 1 b + drop_bit 1 m) = unat b div 2 + unat m div 2"
    
  proof (subst unat_add_small)
    show "unat (drop_bit 1 b) + unat (drop_bit 1 m) < 2 ^ 64" unfolding unat_half using lim by simp
  qed (simp only: unat_half)
  have odds: "b AND m AND 1 = 1 \<longleftrightarrow> odd (unat b) \<and> odd (unat m)"
    by (auto simp: and_1_odd [symmetric] odd_unat [symmetric] bit_eq_iff bit_and_iff bit_1_iff bit_0)
  have half: "unat b div 2 < 2 ^ 63" "unat m div 2 < 2 ^ 63" using lim by auto
  show ?thesis
  proof (cases "odd (unat b) \<and> odd (unat m)")
    case True
    then have "unat (mean b m) = unat b div 2 + unat m div 2 + 1"
      using half sum odds by (simp add: mean_def Let_def, subst unat_add_small) auto
    then show ?thesis using True by (elim conjE oddE) simp
  next
    case False
    then have "\<not> b AND m AND 1 = 1" using odds by blast
    then have "unat (mean b m) = unat b div 2 + unat m div 2" using sum by (simp add: mean_def Let_def)
    then show ?thesis using False by (auto elim!: evenE oddE)
  qed
qed

lemma mid_label_mean:
  "mid_label b (Some m) = (if b = mean b m then 0 else mean b m)"
  "mid_label b None = (if b = mean b MAX_LABEL + 1 then 0 else mean b MAX_LABEL + 1)"
  by (simp_all add: mid_label_def mean_def Let_def)

lemma mid_label_between:
  assumes "b < m"
  shows "mid_label b (Some m) = 0 \<and> unat m = unat b + 1 \<or> b < mid_label b (Some m) \<and> mid_label b (Some m) < m"
proof -
  have lt: "unat b < unat m" using assms by (simp add: word_less_nat_alt)
  have "b = mean b m \<longleftrightarrow> unat b = (unat b + unat m) div 2" by (simp add: word_unat_eq_iff unat_mean)
  then show ?thesis
    using lt by (cases "unat m = unat b + 1") (auto simp: mid_label_mean word_less_nat_alt unat_mean)
qed

lemma mid_label_last: "mid_label b None = 0 \<and> b = MAX_LABEL \<or> b < mid_label b None"
proof (cases "b = MAX_LABEL")
  case True
  have "mean b MAX_LABEL = MAX_LABEL" using True by (simp add: word_unat_eq_iff unat_mean)
  then show ?thesis using True by (simp add: mid_label_mean MAX_LABEL_def)
next
  case False
  have mx: "unat MAX_LABEL = 2 ^ 64 - 1" by (simp add: MAX_LABEL_def unsigned_minus_1_eq_mask mask_eq_exp_minus_1)
  have "unat b \<noteq> 2 ^ 64 - 1" using False mx by (simp add: word_unat_eq_iff)
  then have b: "unat b < 2 ^ 64 - 1" using label_less_max [of b] by linarith
  then have "unat (mean b MAX_LABEL) + unat (1 :: label_t) < 2 ^ 64" using mx by (simp add: unat_mean)
  then have "unat (mean b MAX_LABEL + 1) = (unat b + (2 ^ 64 - 1)) div 2 + 1"
    using unat_add_small [of "mean b MAX_LABEL" 1] mx by (simp add: unat_mean)
  then have "b < mean b MAX_LABEL + 1" using b by (simp add: word_less_nat_alt)
  then show ?thesis by (auto simp: mid_label_mean)
qed

text \<open>
  The label computed for a new node is 0, the sign that there is no room, exactly when
  the base and its successor have consecutive labels or the base is last and has the
  greatest label; otherwise it lies strictly between, with no wrap-around anywhere.
\<close>

lemma new_label_between:
  assumes "\<And>m. nxt = Some m \<Longrightarrow> b < m"
  shows "(mid_label b nxt = 0 \<longleftrightarrow> (case nxt of None \<Rightarrow> b = MAX_LABEL | Some m \<Rightarrow> m = b + 1)) \<and>
    (mid_label b nxt \<noteq> 0 \<longrightarrow> b < mid_label b nxt \<and> (\<forall>m. nxt = Some m \<longrightarrow> mid_label b nxt < m))"
proof (cases nxt)
  case None
  have "\<not> MAX_LABEL < w" for w by (simp add: MAX_LABEL_def not_less)
  then have "b < mid_label b None \<Longrightarrow> b \<noteq> MAX_LABEL \<and> mid_label b None \<noteq> 0" by auto
  then show ?thesis using None mid_label_last [of b] by auto
next
  case (Some m)
  then have lt: "b < m" using assms by simp
  then have "unat b + 1 < 2 ^ 64" using label_less_max [of m] by (simp add: word_less_nat_alt)
  then have suc: "unat (b + 1) = unat b + 1" using unat_add_small [of b 1] by simp
  have "m = b + 1 \<longleftrightarrow> unat m = unat b + 1" using suc by (simp add: word_unat_eq_iff)
  moreover have "b < mid_label b (Some m) \<Longrightarrow> mid_label b (Some m) \<noteq> 0" by auto
  moreover have "\<not> (b < mid_label b (Some m) \<and> mid_label b (Some m) < m)" if "unat m = unat b + 1"
    using that by (auto simp: word_less_nat_alt)
  ultimately show ?thesis using Some mid_label_between [OF lt] by auto
qed

end
