(* ===== verification/OmTree.thy ===== *)
theory OmTree
  imports Blist
begin

text \<open>
  The order-maintenance structure (\<open>cracer/src/om.cpp\<close>): a tree over sublists whose leaves
  carry labels, so that two nodes of different sublists are compared by the labels of the
  leaves above them.  A sublist that runs out of labels is split, and the subtree above it
  that is not too full is rebuilt with evenly spread labels.  Levels, sizes and heights are
  natural numbers; the leaf counter wraps where the code checks for its overflow.

  \<open>capacity\<close> computes \<open>1 << height\<close> on \<open>int\<close>, which C++ defines below 31 only; the value the
  platform gives is the parameter \<open>shl1\<close> of the operations that reach it.
\<close>

section \<open>Nodes of the tree\<close>

definition is_leaf :: "tl_node \<Rightarrow> bool" where
  "is_leaf n \<longleftrightarrow> level n = MAX_LEVEL \<or> left n = NULL \<and> right n = NULL"

definition range_right :: "tl_node \<Rightarrow> label_t" where
  "range_right n = tl_label n"

definition range_left :: "tl_node \<Rightarrow> label_t option" where
  "range_left n =
     (if parent n = NULL then Some 0
      else if 0 < level n \<and> level n \<le> MAX_LEVEL
      then Some (signed_drop_bit (level n - 1) (push_bit (MAX_LEVEL - 1) MAX_LABEL) AND range_right n)
      else None)"

definition tl_height :: "tl_node \<Rightarrow> nat" where
  "tl_height n = MAX_LEVEL - level n"

definition capacity :: "(nat \<Rightarrow> label_t) \<Rightarrow> tl_node \<Rightarrow> label_t" where
  "capacity shl1 n = (if level n = 0 then MAX_LABEL else shl1 (tl_height n))"

text \<open>
  \<open>density(n) >= 0.75 + 0.25 * (level / height)\<close>, compared exactly; with height 0 the
  threshold is infinite or not a number.
\<close>

definition too_heavy :: "(nat \<Rightarrow> label_t) \<Rightarrow> tl_node \<Rightarrow> nat \<Rightarrow> bool" where
  "too_heavy shl1 n height =
     (if \<not> needs_rebalance n then False
      else height > 0 \<and>
        4 * num_leaves n * height \<ge> unat (capacity shl1 n) * (3 * height + level n))"

section \<open>Splitting a sublist\<close>

text \<open>The inner loop fills one new list; the outer one makes a leaf for each.\<close>

partial_function (option) split_chunk ::
    "om_heap \<Rightarrow> ptr \<Rightarrow> ptr \<Rightarrow> label_t \<Rightarrow> nat \<Rightarrow> (ptr \<times> om_heap) option" where
  "split_chunk h list current_node current_label list_size =
     (if current_node \<noteq> NULL \<and> list_size < SUBLIST_SIZE then do {
        n \<leftarrow> node_at h current_node;
        h \<leftarrow> upd_node current_node (\<lambda>x. x\<lparr>bl_label := current_label\<rparr>) h;
        h \<leftarrow> insert_internal h list (bl_prev n) current_node;
        split_chunk h list (bl_next n) (current_label + NODE_INTERVAL) (list_size + 1)
      } else Some (current_node, h))"

declare split_chunk.simps [code]

partial_function (option) split_lists ::
    "om_heap \<Rightarrow> ptr \<Rightarrow> ptr \<Rightarrow> ptr \<Rightarrow> nat \<Rightarrow> (nat \<times> om_heap) option" where
  "split_lists h above_self current_node prev_tl_node num_lists =
     (if current_node = NULL then Some (num_lists, h)
      else do {
        let (n, h) = new_tl h;
        h \<leftarrow> upd_tl n (\<lambda>x. x\<lparr>level := MAX_LEVEL, right := NULL, left := prev_tl_node,
                               num_leaves := 1\<rparr>) h;
        h \<leftarrow> (if prev_tl_node \<noteq> NULL then upd_tl prev_tl_node (\<lambda>x. x\<lparr>right := n\<rparr>) h
              else upd_tl above_self (\<lambda>x. x\<lparr>below := n\<rparr>) h);
        (list, h) \<leftarrow> bl_new h;
        h \<leftarrow> upd_tl n (\<lambda>x. x\<lparr>below := list\<rparr>) h;
        h \<leftarrow> upd_list list (\<lambda>l. l\<lparr>above := n\<rparr>) h;
        h \<leftarrow> upd_node current_node (\<lambda>x. x\<lparr>bl_prev := NULL\<rparr>) h;
        (current_node, h) \<leftarrow> split_chunk h list current_node 0 0;
        split_lists h above_self current_node n (num_lists + 1)
      })"

declare split_lists.simps [code]

definition split :: "om_heap \<Rightarrow> ptr \<Rightarrow> (nat \<times> om_heap) option" where
  "split h self =
     do {
       l \<leftarrow> list_at h self;
       (num_lists, h) \<leftarrow> split_lists h (above l) (head l) NULL 0;
       h \<leftarrow> upd_list self (\<lambda>l. l\<lparr>head := NULL, tail := NULL\<rparr>) h;
       h \<leftarrow> free_list self h;
       Some (num_lists, h)
     }"

section \<open>Rebuilding a subtree\<close>

definition set_array :: "ptr list \<Rightarrow> nat \<Rightarrow> ptr \<Rightarrow> ptr list option" where
  "set_array arr i x = (if i < length arr then Some (arr[i := x]) else None)"

definition get_array :: "ptr list \<Rightarrow> nat \<Rightarrow> ptr option" where
  "get_array arr i = (if i < length arr then Some (arr ! i) else None)"

text \<open>The leaves a split left behind a leaf, unlinked from each other.\<close>

partial_function (option) collect_split ::
    "om_heap \<Rightarrow> ptr list \<Rightarrow> nat \<Rightarrow> ptr \<Rightarrow> (ptr list \<times> om_heap) option" where
  "collect_split h arr index current =
     (if current = NULL then Some (arr, h)
      else do {
        arr \<leftarrow> set_array arr index current;
        c \<leftarrow> tl_at h current;
        h \<leftarrow> (if left c \<noteq> NULL then upd_tl (left c) (\<lambda>x. x\<lparr>right := NULL\<rparr>) h else Some h);
        h \<leftarrow> upd_tl current (\<lambda>x. x\<lparr>left := NULL\<rparr>) h;
        c \<leftarrow> tl_at h current;
        collect_split h arr (index + 1) (right c)
      })"

declare collect_split.simps [code]

partial_function (option) build_array_of_leaves ::
    "om_heap \<Rightarrow> ptr \<Rightarrow> ptr list \<Rightarrow> nat \<Rightarrow> nat \<Rightarrow> (ptr list \<times> om_heap) option" where
  "build_array_of_leaves h n arr left_index right_index =
     do {
       x \<leftarrow> tl_at h n;
       (arr, h) \<leftarrow>
         (if is_leaf x then
            if num_leaves x = 1 then do { arr \<leftarrow> set_array arr left_index n; Some (arr, h) }
            else collect_split h arr left_index (split_nodes x)
          else do {
            l \<leftarrow> tl_at h (left x);
            let mid = left_index + num_leaves l;
            (arr, h) \<leftarrow> build_array_of_leaves h (left x) arr left_index mid;
            (arr, h) \<leftarrow> build_array_of_leaves h (right x) arr mid right_index;
            h \<leftarrow> upd_tl n (\<lambda>x. x\<lparr>left := NULL, right := NULL\<rparr>) h;
            Some (arr, h)
          });
       x \<leftarrow> tl_at h n;
       h \<leftarrow> (if needs_rebalance x then free_tl n h else Some h);
       Some (arr, h)
     }"

declare build_array_of_leaves.simps [code]

partial_function (option) rebuild_recursive ::
    "om_heap \<Rightarrow> ptr \<Rightarrow> ptr list \<Rightarrow> nat \<Rightarrow> nat \<Rightarrow> label_t \<Rightarrow> label_t \<Rightarrow> (ptr \<times> om_heap) option" where
  "rebuild_recursive h par arr lindex rindex llab rlab =
     do {
       let size = rindex - lindex;
       (n, h) \<leftarrow> (if size = 1 then do { n \<leftarrow> get_array arr lindex; Some (n, h) }
                 else Some (new_tl h));
       h \<leftarrow> upd_tl n (\<lambda>x. x\<lparr>parent := par, needs_rebalance := False\<rparr>) h;
       if size = 1 then do {
         h \<leftarrow> upd_tl n (\<lambda>x. x\<lparr>tl_label := llab, level := MAX_LEVEL, left := NULL, right := NULL,
                                num_leaves := 1\<rparr>) h;
         Some (n, h)
       } else do {
         p \<leftarrow> tl_at h par;
         h \<leftarrow> upd_tl n (\<lambda>x. x\<lparr>level := level p + 1\<rparr>) h;
         let mindex = lindex + (size - size div 2);
         let mlab = llab + ((rlab - llab) div 2 + 1) - 1;
         (l, h) \<leftarrow> rebuild_recursive h n arr lindex mindex llab mlab;
         h \<leftarrow> upd_tl n (\<lambda>x. x\<lparr>left := l\<rparr>) h;
         (r, h) \<leftarrow> rebuild_recursive h n arr mindex rindex (mlab + 1) rlab;
         h \<leftarrow> upd_tl n (\<lambda>x. x\<lparr>right := r\<rparr>) h;
         h \<leftarrow> upd_tl n (\<lambda>x. x\<lparr>tl_label := rlab, num_leaves := size\<rparr>) h;
         Some (n, h)
       }
     }"

declare rebuild_recursive.simps [code]

text \<open>A leaf that was split becomes an internal node: its label and level.\<close>

definition leaf_to_internal :: "om_heap \<Rightarrow> ptr \<Rightarrow> om_heap option" where
  "leaf_to_internal h n =
     do {
       h \<leftarrow> upd_tl n (\<lambda>x. x\<lparr>below := NULL\<rparr>) h;
       x \<leftarrow> tl_at h n;
       if parent x \<noteq> NULL then do {
         p \<leftarrow> tl_at h (parent x);
         lab \<leftarrow> (if right p = n then Some (tl_label p)
                 else do {
                   pl \<leftarrow> range_left p;
                   Some ((range_right p - pl) div 2 + pl)
                 });
         upd_tl n (\<lambda>x. x\<lparr>tl_label := lab, level := level p + 1\<rparr>) h
       } else upd_tl n (\<lambda>x. x\<lparr>level := 0, tl_label := MAX_LABEL\<rparr>) h
     }"

definition rebuild :: "om_heap \<Rightarrow> ptr \<Rightarrow> om_heap option" where
  "rebuild h n =
     do {
       x \<leftarrow> tl_at h n;
       let array_size = num_leaves x;
       let was_leaf = (left x = NULL \<and> right x = NULL);
       (arr, h) \<leftarrow> build_array_of_leaves h n (replicate array_size NULL) 0 array_size;
       h \<leftarrow> (if was_leaf then leaf_to_internal h n else Some h);
       h \<leftarrow> upd_tl n (\<lambda>x. x\<lparr>left := NULL, right := NULL\<rparr>) h;
       x \<leftarrow> tl_at h n;
       llab \<leftarrow> range_left x;
       let rlab = tl_label x;
       let mindex = array_size - array_size div 2;
       let mlab = llab + ((rlab - llab) div 2 + 1) - 1;
       (l, h) \<leftarrow> rebuild_recursive h n arr 0 mindex llab mlab;
       h \<leftarrow> upd_tl n (\<lambda>x. x\<lparr>left := l\<rparr>) h;
       (r, h) \<leftarrow> rebuild_recursive h n arr mindex array_size (mlab + 1) rlab;
       upd_tl n (\<lambda>x. x\<lparr>right := r\<rparr>) h
     }"

partial_function (option) rebalance ::
    "(nat \<Rightarrow> label_t) \<Rightarrow> om_heap \<Rightarrow> ptr \<Rightarrow> nat \<Rightarrow> om_heap option" where
  "rebalance shl1 h n height =
     (if n = NULL then Some h
      else do {
        x \<leftarrow> tl_at h n;
        if \<not> needs_rebalance x then Some h
        else do {
          h \<leftarrow> upd_tl n (\<lambda>x. x\<lparr>needs_rebalance := False\<rparr>) h;
          if is_leaf x then rebuild h n
          else do {
            l \<leftarrow> tl_at h (left x);
            heavy \<leftarrow> (if too_heavy shl1 l height then Some True
                      else if right x = NULL then Some False
                      else do { r \<leftarrow> tl_at h (right x); Some (too_heavy shl1 r height) });
            if heavy then rebuild h n
            else do {
              h \<leftarrow> rebalance shl1 h (left x) height;
              rebalance shl1 h (right x) height
            }
          }
        }
      })"

declare rebalance.simps [code]

section \<open>The structure\<close>

record om =
  root :: ptr
  om_head :: ptr
  om_tail :: ptr
  om_height :: nat

definition om_rebalance :: "(nat \<Rightarrow> label_t) \<Rightarrow> om_heap \<Rightarrow> om \<Rightarrow> om_heap option" where
  "om_rebalance shl1 h self = rebalance shl1 h (root self) (om_height self)"

fun fast_log2 :: "nat \<Rightarrow> nat" where
  "fast_log2 x = (if x < 2 then 0 else fast_log2 (x div 2) + 1)"

declare fast_log2.simps [simp del]

definition fast_log2_ceil :: "nat \<Rightarrow> nat" where
  "fast_log2_ceil x = (if x - 2 ^ fast_log2 x \<noteq> 0 then fast_log2 x + 1 else fast_log2 x)"

text \<open>The walk to the root: sizes, marks and the height from the split leaf.\<close>

partial_function (option) grow_path :: "om_heap \<Rightarrow> ptr \<Rightarrow> nat \<Rightarrow> nat \<Rightarrow> (nat \<times> om_heap) option" where
  "grow_path h current k height =
     (if current = NULL then Some (height, h)
      else do {
        h \<leftarrow> upd_tl current (\<lambda>x. x\<lparr>num_leaves := (num_leaves x + k) mod 2 ^ 64,
                                     needs_rebalance := True\<rparr>) h;
        x \<leftarrow> tl_at h current;
        grow_path h (parent x) k (height + 1)
      })"

declare grow_path.simps [code]

definition relabel_one :: "om_heap \<Rightarrow> om \<Rightarrow> ptr \<Rightarrow> (om \<times> om_heap) option" where
  "relabel_one h self current =
     do {
       x \<leftarrow> tl_at h current;
       (num_split_lists, h) \<leftarrow> split h (below x);
       if num_split_lists > 1 then do {
         h \<leftarrow> upd_tl current (\<lambda>x. x\<lparr>left := NULL, right := NULL\<rparr>) h;
         (height, h) \<leftarrow> grow_path h current (num_split_lists - 1) (fast_log2_ceil num_split_lists - 1);
         Some (self\<lparr>om_height := max height (om_height self)\<rparr>, h)
       } else do {
         h \<leftarrow> upd_tl current (\<lambda>x. x\<lparr>needs_rebalance := False\<rparr>) h;
         x \<leftarrow> tl_at h current;
         s \<leftarrow> tl_at h (split_nodes x);
         let list = below s;
         h \<leftarrow> upd_tl (split_nodes x) (\<lambda>x. x\<lparr>level := MAX_LEVEL\<rparr>) h;
         h \<leftarrow> free_tl (split_nodes x) h;
         h \<leftarrow> upd_tl current (\<lambda>x. x\<lparr>below := list\<rparr>) h;
         h \<leftarrow> upd_list list (\<lambda>l. l\<lparr>above := current\<rparr>) h;
         Some (self, h)
       }
     }"

fun relabel_all :: "om_heap \<Rightarrow> om \<Rightarrow> ptr list \<Rightarrow> (om \<times> om_heap) option" where
  "relabel_all h self [] = Some (self, h)"
| "relabel_all h self (current # rest) =
     do { (self, h) \<leftarrow> relabel_one h self current; relabel_all h self rest }"

text \<open>A full structure makes the program exit, which leaves no result.\<close>

definition om_relabel ::
    "(nat \<Rightarrow> label_t) \<Rightarrow> om_heap \<Rightarrow> om \<Rightarrow> ptr list \<Rightarrow> (om \<times> om_heap) option" where
  "om_relabel shl1 h self heavy_lists =
     do {
       r \<leftarrow> tl_at h (root self);
       let old_size = num_leaves r;
       (self, h) \<leftarrow> relabel_all h self heavy_lists;
       r \<leftarrow> tl_at h (root self);
       if num_leaves r < old_size \<or> (MAX_LABEL + 1 \<noteq> 0 \<and> num_leaves r > unat (MAX_LABEL + 1))
       then None
       else do { h \<leftarrow> om_rebalance shl1 h self; Some (self, h) }
     }"

definition om_create :: "om_heap \<Rightarrow> (om \<times> om_heap) option" where
  "om_create h =
     do {
       let (r, h) = new_tl h;
       (list, h) \<leftarrow> bl_new h;
       h \<leftarrow> upd_tl r (\<lambda>x. x\<lparr>below := list\<rparr>) h;
       h \<leftarrow> upd_list list (\<lambda>l. l\<lparr>above := r\<rparr>) h;
       h \<leftarrow> upd_tl r (\<lambda>x. x\<lparr>level := MAX_LEVEL, num_leaves := 1, tl_label := 0,
                               needs_rebalance := False, parent := NULL, left := NULL,
                               right := NULL\<rparr>) h;
       Some (\<lparr>root = r, om_head = r, om_tail = r, om_height = 0\<rparr>, h)
     }"

definition om_new :: "(om \<times> om_heap) option" where
  "om_new = om_create empty_heap"

partial_function (option) destroy :: "om_heap \<Rightarrow> ptr \<Rightarrow> om_heap option" where
  "destroy h n =
     (if n = NULL then Some h
      else do {
        x \<leftarrow> tl_at h n;
        h \<leftarrow> (if level x < MAX_LEVEL then do { h \<leftarrow> destroy h (left x); destroy h (right x) }
              else bl_free h (below x));
        free_tl n h
      })"

declare destroy.simps [code]

definition om_destroy :: "om_heap \<Rightarrow> om \<Rightarrow> om_heap option" where
  "om_destroy h self = destroy h (root self)"

definition om_get_tl :: "om_heap \<Rightarrow> ptr \<Rightarrow> ptr option" where
  "om_get_tl h n = do { x \<leftarrow> node_at h n; l \<leftarrow> list_at h (bl_list x); Some (above l) }"

definition om_insert_initial :: "om_heap \<Rightarrow> om \<Rightarrow> (ptr \<times> om_heap) option" where
  "om_insert_initial h self = do { r \<leftarrow> tl_at h (root self); bl_insert_initial h (below r) }"

definition om_insert :: "om_heap \<Rightarrow> om \<Rightarrow> ptr \<Rightarrow> (ptr \<times> om_heap) option" where
  "om_insert h self base = do { b \<leftarrow> node_at h base; bl_insert h (bl_list b) base }"

definition om_precedes :: "om_heap \<Rightarrow> ptr \<Rightarrow> ptr \<Rightarrow> bool option" where
  "om_precedes h x y =
     (if x = NULL then Some True
      else if y = NULL then Some False
      else do {
        a \<leftarrow> node_at h x;
        b \<leftarrow> node_at h y;
        if bl_list a = bl_list b then Some (bl_label a < bl_label b)
        else do {
          la \<leftarrow> list_at h (bl_list a);
          lb \<leftarrow> list_at h (bl_list b);
          ta \<leftarrow> tl_at h (above la);
          tb \<leftarrow> tl_at h (above lb);
          Some (tl_label ta < tl_label tb)
        }
      })"

end
