(* ===== verification/CrStack.thy ===== *)
theory CrStack
  imports Prelude
begin

text \<open>
  The growing array of C-RACER (\<open>cracer/include/stack.h\<close>), which holds the leaves whose
  sublists wait for a relabeling.  The array has an explicit capacity and a 32-bit index of
  the top element, all ones when it is empty; a fresh cell, and one that \<open>reset\<close> has
  overwritten, has no value.  Stealing works on frames with flags and is not instantiated.
\<close>

section \<open>Operations\<close>

record 'a stk =
  cells :: "'a option list"
  st_capacity :: "32 word"
  st_head :: "32 word"
  st_tail :: "32 word"

definition DEFAULT_CAPACITY :: "32 word" where
  "DEFAULT_CAPACITY = 128"

definition Stack_t :: "unit \<Rightarrow> 'a stk" where
  "Stack_t _ = \<lparr>cells = replicate (unat DEFAULT_CAPACITY) None, st_capacity = DEFAULT_CAPACITY,
     st_head = - 1, st_tail = 0\<rparr>"

definition st_resize :: "'a stk \<Rightarrow> 32 word \<Rightarrow> 'a stk" where
  "st_resize s new_capacity =
     (let copy_end = (if st_capacity s > new_capacity then new_capacity else st_capacity s)
      in s\<lparr>cells := take (unat copy_end) (cells s) @ replicate (unat new_capacity - unat copy_end) None,
           st_capacity := new_capacity\<rparr>)"

definition st_double_cap :: "'a stk \<Rightarrow> 'a stk" where
  "st_double_cap s = st_resize s (st_capacity s * 2)"

definition st_halve_cap :: "'a stk \<Rightarrow> 'a stk" where
  "st_halve_cap s = st_resize s (st_capacity s div 2)"

definition st_push :: "'a stk \<Rightarrow> 'a stk" where
  "st_push s =
     (let s = s\<lparr>st_head := st_head s + 1\<rparr>
      in if st_head s = st_capacity s then st_double_cap s else s)"

definition st_pop :: "'a stk \<Rightarrow> 'a stk" where
  "st_pop s =
     (let s = s\<lparr>st_head := st_head s - 1\<rparr>
      in if st_capacity s > DEFAULT_CAPACITY \<and> st_head s < st_capacity s div 2 then st_halve_cap s else s)"

text \<open>Addresses of cells; one outside the array has no result.\<close>

definition st_cell :: "'a stk \<Rightarrow> 32 word \<Rightarrow> nat option" where
  "st_cell s i = (if unat i < length (cells s) then Some (unat i) else None)"

definition st_ancestor :: "'a stk \<Rightarrow> 32 word \<Rightarrow> nat option" where
  "st_ancestor s i = st_cell s (st_head s - i)"

definition st_at :: "'a stk \<Rightarrow> 32 word \<Rightarrow> nat option" where
  "st_at s i = st_cell s i"

definition top_cell :: "'a stk \<Rightarrow> nat option" where
  "top_cell s = st_ancestor s 0"

definition st_size :: "'a stk \<Rightarrow> 32 word" where
  "st_size s = st_head s + 1"

definition st_empty :: "'a stk \<Rightarrow> bool" where
  "st_empty s \<longleftrightarrow> st_size s = 0"

definition st_add :: "'a stk \<Rightarrow> 'a \<Rightarrow> 'a stk option" where
  "st_add s item =
     do { let s = st_push s; i \<leftarrow> top_cell s; Some (s\<lparr>cells := (cells s)[i := Some item]\<rparr>) }"

definition st_reset :: "'a stk \<Rightarrow> 'a stk" where
  "st_reset s =
     s\<lparr>cells := replicate (unat (st_size s)) None @ drop (unat (st_size s)) (cells s),
       st_head := - 1, st_tail := 0\<rparr>"

text \<open>\<open>AtomicStack_t::pop\<close>.\<close>

definition atomic_pop :: "'a stk \<Rightarrow> 'a stk option" where
  "atomic_pop s =
     (let s = st_pop s
      in if st_head s < st_tail s then do {
           i \<leftarrow> st_cell s (st_head s + 1);
           Some (s\<lparr>st_tail := st_tail s - 1, cells := (cells s)[i := None]\<rparr>)
         } else Some s)"

text \<open>The loop of \<open>st_transfer\<close>: \<open>i <= _head\<close> compares unsigned words.\<close>

partial_function (option) st_transfer_from :: "'a stk \<Rightarrow> 'a stk \<Rightarrow> 32 word \<Rightarrow> 'a stk option" where
  "st_transfer_from s orig i =
     (if i \<le> st_head s then do {
        let orig = st_push orig;
        j \<leftarrow> top_cell orig;
        k \<leftarrow> st_cell s i;
        st_transfer_from s (orig\<lparr>cells := (cells orig)[j := cells s ! k]\<rparr>) (i + 1)
      } else Some orig)"

declare st_transfer_from.simps [code]

definition st_transfer :: "'a stk \<Rightarrow> 'a stk \<Rightarrow> 'a stk option" where
  "st_transfer s orig =
     do { orig \<leftarrow> st_transfer_from s (st_reset orig) 0; Some (orig\<lparr>st_tail := st_tail s\<rparr>) }"

text \<open>What a reader of the first \<open>size\<close> cells sees.\<close>

definition st_contents :: "'a stk \<Rightarrow> 'a option list" where
  "st_contents s = take (unat (st_size s)) (cells s)"

section \<open>Refinement to a list\<close>

text \<open>The array has its capacity, at least the default, and holds the elements.\<close>

definition stk_ok :: "'a stk \<Rightarrow> bool" where
  "stk_ok s \<longleftrightarrow>
     length (cells s) = unat (st_capacity s) \<and> DEFAULT_CAPACITY \<le> st_capacity s \<and>
     unat (st_size s) \<le> unat (st_capacity s)"

lemma stk_ok_new: "stk_ok (Stack_t ())" "st_contents (Stack_t () :: 'a stk) = []"
  by (simp_all add: stk_ok_def Stack_t_def st_contents_def st_size_def)

lemma length_contents: "stk_ok s \<Longrightarrow> length (st_contents s) = unat (st_size s)"
  by (simp add: stk_ok_def st_contents_def)

lemma stk_ok_reset: "stk_ok s \<Longrightarrow> stk_ok (st_reset s) \<and> st_contents (st_reset s) = []"
  by (simp add: stk_ok_def st_reset_def st_contents_def st_size_def)

lemma push_refines:
  assumes ok: "stk_ok s" and small: "unat (st_size s) < 2 ^ 30"
  shows "st_head (st_push s) = st_size s" "unat (st_size s) < length (cells (st_push s))"
    "take (unat (st_size s)) (cells (st_push s)) = st_contents s"
    "length (cells (st_push s)) = unat (st_capacity (st_push s))" "DEFAULT_CAPACITY \<le> st_capacity (st_push s)"
proof -
  have len: "length (cells s) = unat (st_capacity s)" and le: "unat (st_size s) \<le> unat (st_capacity s)"
    and cap: "DEFAULT_CAPACITY \<le> st_capacity s" using ok by (auto simp: stk_ok_def)
  show "st_head (st_push s) = st_size s"
    by (simp add: st_push_def st_size_def st_double_cap_def st_resize_def Let_def)
  have "unat (st_size s) < length (cells (st_push s)) \<and> take (unat (st_size s)) (cells (st_push s)) = st_contents s \<and>
    length (cells (st_push s)) = unat (st_capacity (st_push s)) \<and> DEFAULT_CAPACITY \<le> st_capacity (st_push s)"
  proof (cases "st_size s = st_capacity s")
    case True
    have small': "unat (st_capacity s) < 2 ^ 30" using small True by simp
    have dbl: "unat (st_capacity s * 2) = 2 * unat (st_capacity s)"
      using small' by (simp add: unat_word_ariths)
    have pos: "unat (st_capacity s) > 0" using cap by (simp add: word_le_nat_alt DEFAULT_CAPACITY_def)
    have gr: "\<not> st_capacity s > st_capacity s * 2" using dbl by (simp add: word_less_nat_alt)
    have p: "st_push s = s\<lparr>st_head := st_size s, cells := cells s @ replicate (unat (st_capacity s)) None,
        st_capacity := st_capacity s * 2\<rparr>"
      using True gr dbl len by (simp add: st_push_def st_double_cap_def st_resize_def Let_def st_size_def)
    have "DEFAULT_CAPACITY \<le> st_capacity s * 2" using cap dbl by (simp add: word_le_nat_alt)
    then show ?thesis using p len dbl pos True by (simp add: st_contents_def)
  next
    case False
    then have "unat (st_size s) < unat (st_capacity s)" using le by (metis le_neq_implies_less word_unat_eq_iff)
    moreover have "st_push s = s\<lparr>st_head := st_size s\<rparr>" using False by (simp add: st_push_def st_size_def Let_def)
    ultimately show ?thesis using len cap by (simp add: st_contents_def)
  qed
  then show "unat (st_size s) < length (cells (st_push s))" "take (unat (st_size s)) (cells (st_push s)) = st_contents s"
    "length (cells (st_push s)) = unat (st_capacity (st_push s))" "DEFAULT_CAPACITY \<le> st_capacity (st_push s)" by blast+
qed

lemma st_add_ok:
  assumes ok: "stk_ok s" and small: "unat (st_size s) < 2 ^ 30"
  shows "\<exists>s'. st_add s x = Some s' \<and> stk_ok s' \<and> st_contents s' = st_contents s @ [Some x] \<and> \<not> st_empty s'"
proof -
  note p = push_refines [OF ok small]
  let ?s = "(st_push s)\<lparr>cells := (cells (st_push s))[unat (st_size s) := Some x]\<rparr>"
  have a: "st_add s x = Some ?s" using p(1,2) by (simp add: st_add_def top_cell_def st_ancestor_def st_cell_def Let_def)
  have sz: "unat (st_size ?s) = unat (st_size s) + 1"
    using small by (simp add: st_size_def [of "?s"] p(1) unat_word_ariths)
  have "st_contents ?s = take (unat (st_size s) + 1) ((cells (st_push s))[unat (st_size s) := Some x])"
    using sz by (simp add: st_contents_def)
  also have "\<dots> = take (unat (st_size s)) (cells (st_push s)) @ [Some x]"
    using p(2) by (simp add: take_Suc_conv_app_nth)
  finally have c: "st_contents ?s = st_contents s @ [Some x]" using p(3) by simp
  have "stk_ok ?s" using p sz by (simp add: stk_ok_def)
  moreover have "\<not> st_empty ?s" using sz by (auto simp: st_empty_def)
  ultimately show ?thesis using a c by blast
qed

lemma st_empty_contents: "stk_ok s \<Longrightarrow> st_empty s \<longleftrightarrow> st_contents s = []"
  using length_contents [of s] by (auto simp: st_empty_def word_unat_eq_iff)

text \<open>
  Adding to the array appends to the list of its elements, also when the array must
  grow, and the array stays well formed, for up to \<open>2\<^sup>3\<^sup>0\<close> elements; \<open>st_reset\<close> leaves the
  empty list.
\<close>

lemma stack_add_appends:
  assumes "stk_ok s" and "unat (st_size s) < 2 ^ 30"
  shows "(\<exists>s'. st_add s x = Some s' \<and> stk_ok s' \<and> st_contents s' = st_contents s @ [Some x] \<and> \<not> st_empty s') \<and>
    stk_ok (st_reset s) \<and> st_contents (st_reset s) = [] \<and> st_empty (st_reset s)"
  using st_add_ok [OF assms] stk_ok_reset [OF assms(1)] by (auto simp: st_empty_def st_reset_def st_size_def)

text \<open>
  \<open>st_transfer\<close> from an empty array has no defined result: the loop compares its signed index
  with the unsigned index of the top, which is all ones, and reads past the array.
\<close>

lemma stack_transfer_of_empty:
  assumes "stk_ok s" "st_empty s"
  shows "st_transfer s orig = None"
proof -
  have head: "st_head s = - 1" using assms(2) by (simp add: st_empty_def st_size_def eq_neg_iff_add_eq_0)
  have len: "length (cells s) = unat (st_capacity s)" using assms(1) by (simp add: stk_ok_def)
  have "st_transfer_from s orig i = None" if "unat i \<le> unat (st_capacity s)" for orig :: "'a stk" and i
    using that
  proof (induction "unat (st_capacity s) - unat i" arbitrary: i orig rule: less_induct)
    case less
    show ?case
    proof (cases "unat i = unat (st_capacity s)")
      case True
      then have "st_cell s i = None" using len by (simp add: st_cell_def)
      then show ?thesis
        by (subst st_transfer_from.simps) (simp add: head Let_def split: Option.bind_split)
    next
      case False
      then have lt: "unat i < unat (st_capacity s)" using less.prems by simp
      have "unat (st_capacity s) < 2 ^ 32" using unsigned_less [of "st_capacity s"] by simp
      then have suc: "unat (i + 1) = unat i + 1" using lt by (simp add: unat_word_ariths)
      have "st_transfer_from s orig' (i + 1) = None" for orig'
        by (rule less.hyps) (use lt suc in auto)
      then show ?thesis
        by (subst st_transfer_from.simps) (simp add: head Let_def split: Option.bind_split)
    qed
  qed
  then show ?thesis by (simp add: st_transfer_def)
qed

end
