(* ===== verification/Omrd.thy ===== *)
theory Omrd
  imports OmTree CrStack
begin

text \<open>
  The wrapper C-RACER puts around the order-maintenance structure (\<open>cracer/include/omrd.h\<close>,
  \<open>cracer/src/omrd.cpp\<close>): an insertion that finds no label marks its sublist heavy, asks for
  a relabeling of both structures and tries again.  An insertion, with the relabeling it
  starts, runs under the locks of all threads and is one step; the batch fields keep the
  protocol between the threads.
\<close>

section \<open>State\<close>

record omrd =
  m_heavy_nodes :: "ptr stk"
  m_ds :: om
  m_heap :: om_heap
  m_base :: ptr

record om_state =
  g_english :: omrd
  g_hebrew :: omrd
  g_relabel_id :: nat
  total_num_relabel :: nat
  g_batch_in_progress :: bool
  g_batch_owner_id :: "THREADID option"
  insert_failed :: "THREADID \<Rightarrow> bool"
  g_heavy_threshold :: nat

definition HALF_BITS :: nat where
  "HALF_BITS = 32"

text \<open>Which of the two structures an operation works on.\<close>

datatype which = English | Hebrew

fun get_ds :: "om_state \<Rightarrow> which \<Rightarrow> omrd" where
  "get_ds s English = g_english s"
| "get_ds s Hebrew = g_hebrew s"

fun set_ds :: "om_state \<Rightarrow> which \<Rightarrow> omrd \<Rightarrow> om_state" where
  "set_ds s English d = s\<lparr>g_english := d\<rparr>"
| "set_ds s Hebrew d = s\<lparr>g_hebrew := d\<rparr>"

section \<open>One structure\<close>

fun count_bits_from :: "nat \<Rightarrow> label_t \<Rightarrow> nat \<Rightarrow> nat" where
  "count_bits_from 0 label count = count"
| "count_bits_from (Suc fuel) label count =
     (if label = 0 then count else count_bits_from fuel (label AND (label - 1)) (count + 1))"

text \<open>A word has at most 64 bits to clear.\<close>

definition count_set_bits :: "label_t \<Rightarrow> nat" where
  "count_set_bits label = count_bits_from 64 label 0"

definition is_heavy :: "nat \<Rightarrow> om_heap \<Rightarrow> ptr \<Rightarrow> bool option" where
  "is_heavy threshold h n =
     do {
       x \<leftarrow> node_at h n;
       next_lab \<leftarrow> (if bl_next x = NULL then Some MAX_LABEL
                    else do { y \<leftarrow> node_at h (bl_next x); Some (bl_label y) });
       Some (next_lab - bl_label x < push_bit (64 - threshold) 1)
     }"

definition add_heavy :: "omrd \<Rightarrow> ptr \<Rightarrow> omrd option" where
  "add_heavy d base =
     do {
       t \<leftarrow> om_get_tl (m_heap d) base;
       st \<leftarrow> st_add (m_heavy_nodes d) t;
       Some (d\<lparr>m_heavy_nodes := st\<rparr>)
     }"

definition try_insert :: "omrd \<Rightarrow> ptr \<Rightarrow> (ptr \<times> omrd) option" where
  "try_insert d base =
     do {
       (n, h) \<leftarrow> (if base = NULL then om_insert_initial (m_heap d) (m_ds d)
                  else om_insert (m_heap d) (m_ds d) base);
       Some (n, d\<lparr>m_heap := h\<rparr>)
     }"

definition omrd_new :: "omrd option" where
  "omrd_new =
     do {
       (ds, h) \<leftarrow> om_new;
       (n, d) \<leftarrow> try_insert \<lparr>m_heavy_nodes = Stack_t (), m_ds = ds, m_heap = h, m_base = NULL\<rparr> NULL;
       Some (d\<lparr>m_base := n\<rparr>)
     }"

definition set_heavy_threshold :: "om_state \<Rightarrow> nat \<Rightarrow> nat \<times> om_state" where
  "set_heavy_threshold s new_threshold =
     (g_heavy_threshold s, s\<lparr>g_heavy_threshold := new_threshold\<rparr>)"

text \<open>\<open>CAS(&list->heavy, 0, 1)\<close>.\<close>

definition mark_heavy :: "omrd \<Rightarrow> ptr \<Rightarrow> (bool \<times> omrd) option" where
  "mark_heavy d list =
     do {
       l \<leftarrow> list_at (m_heap d) list;
       if heavy l then Some (False, d)
       else do {
         h \<leftarrow> upd_list list (\<lambda>l. l\<lparr>heavy := True\<rparr>) (m_heap d);
         Some (True, d\<lparr>m_heap := h\<rparr>)
       }
     }"

definition relabel :: "(nat \<Rightarrow> label_t) \<Rightarrow> omrd \<Rightarrow> omrd option" where
  "relabel shl1 d =
     (if st_empty (m_heavy_nodes d) then Some d
      else do {
        heavy_lists \<leftarrow> those (st_contents (m_heavy_nodes d));
        (ds, h) \<leftarrow> om_relabel shl1 (m_heap d) (m_ds d) heavy_lists;
        Some (d\<lparr>m_ds := ds, m_heap := h, m_heavy_nodes := st_reset (m_heavy_nodes d)\<rparr>)
      })"

section \<open>Both structures\<close>

definition batch_relabel :: "(nat \<Rightarrow> label_t) \<Rightarrow> om_state \<Rightarrow> om_state option" where
  "batch_relabel shl1 s =
     do {
       let s = s\<lparr>g_relabel_id := g_relabel_id s + 1\<rparr>;
       e \<leftarrow> relabel shl1 (g_english s);
       hb \<leftarrow> relabel shl1 (g_hebrew s);
       Some (s\<lparr>g_english := e, g_hebrew := hb, g_relabel_id := g_relabel_id s + 1,
               total_num_relabel := total_num_relabel s + 1\<rparr>)
     }"

definition tool_om_try_lock_all :: "om_state \<Rightarrow> THREADID \<Rightarrow> bool \<times> om_state" where
  "tool_om_try_lock_all s self =
     (if \<not> insert_failed s self then (False, s)
      else if odd (g_relabel_id s) then (False, s)
      else (True, s\<lparr>g_batch_in_progress := True, g_batch_owner_id := Some self\<rparr>))"

definition join_batch :: "(nat \<Rightarrow> label_t) \<Rightarrow> om_state \<Rightarrow> THREADID \<Rightarrow> om_state option" where
  "join_batch shl1 s threadId =
     do {
       let (locked, s) = tool_om_try_lock_all s threadId;
       s \<leftarrow> (if locked then batch_relabel shl1 s else Some s);
       Some (if g_batch_owner_id s = Some threadId
             then s\<lparr>g_batch_in_progress := False, g_batch_owner_id := None\<rparr> else s)
     }"

definition set_failed :: "om_state \<Rightarrow> THREADID \<Rightarrow> bool \<Rightarrow> om_state" where
  "set_failed s t b = s\<lparr>insert_failed := (insert_failed s)(t := b)\<rparr>"

text \<open>The heavy list of a base is registered once.\<close>

definition register_heavy :: "om_state \<Rightarrow> which \<Rightarrow> ptr \<Rightarrow> om_state option" where
  "register_heavy s w base =
     do {
       b \<leftarrow> node_at (m_heap (get_ds s w)) base;
       (won, d) \<leftarrow> mark_heavy (get_ds s w) (bl_list b);
       d \<leftarrow> (if won then add_heavy d base else Some d);
       Some (set_ds s w d)
     }"

text \<open>The loop runs until an insertion succeeds.\<close>

partial_function (option) slow_path ::
    "(nat \<Rightarrow> label_t) \<Rightarrow> om_state \<Rightarrow> which \<Rightarrow> THREADID \<Rightarrow> ptr \<Rightarrow> (ptr \<times> om_state) option" where
  "slow_path shl1 s w threadId base =
     do {
       let s = set_failed s threadId True;
       s \<leftarrow> register_heavy s w base;
       s \<leftarrow> join_batch shl1 s threadId;
       let s = set_failed s threadId False;
       (n, d) \<leftarrow> try_insert (get_ds s w) base;
       let s = set_ds s w d;
       if n = NULL then slow_path shl1 s w threadId base else Some (n, s)
     }"

declare slow_path.simps [code]

definition omrd_insert ::
    "(nat \<Rightarrow> label_t) \<Rightarrow> om_state \<Rightarrow> which \<Rightarrow> THREADID \<Rightarrow> ptr \<Rightarrow> (ptr \<times> om_state) option" where
  "omrd_insert shl1 s w threadId base =
     do {
       (n, d) \<leftarrow> try_insert (get_ds s w) base;
       let s = set_ds s w d;
       (n, s) \<leftarrow> (if n = NULL then slow_path shl1 s w threadId base else Some (n, s));
       x \<leftarrow> node_at (m_heap (get_ds s w)) n;
       l \<leftarrow> list_at (m_heap (get_ds s w)) (bl_list x);
       hvy \<leftarrow> is_heavy (g_heavy_threshold s) (m_heap (get_ds s w)) n;
       s \<leftarrow> (if \<not> heavy l \<and> hvy then register_heavy s w base else Some s);
       Some (n, s)
     }"

definition om_state_new :: "om_state option" where
  "om_state_new =
     do {
       e \<leftarrow> omrd_new;
       hb \<leftarrow> omrd_new;
       Some \<lparr>g_english = e, g_hebrew = hb, g_relabel_id = 0, total_num_relabel = 0,
         g_batch_in_progress = False, g_batch_owner_id = None, insert_failed = (\<lambda>_. False),
         g_heavy_threshold = HALF_BITS\<rparr>
     }"

end
