(* ===== verification/Cracer.thy ===== *)
theory Cracer
  imports Omrd
begin

text \<open>
  The C-RACER detector (\<open>cracer/src/Dr_Detector.cpp\<close>, \<open>cracer/src/exec_calls.cpp\<close>,
  \<open>cracer/include/exec_calls.h\<close>, \<open>cracer/include/t_debug_task.h\<close>).  A strand is a node in the
  English and a node in the Hebrew order; two strands are parallel when the orders
  disagree.  Task states live at addresses; the field \<open>flags\<close> is copied and never read and is
  left out.  The handlers that insert strands carry the parameter \<open>shl1\<close> of \<open>OmTree\<close>.
\<close>

section \<open>State\<close>

record TaskState =
  tid :: nat
  current_english :: ptr
  current_hebrew :: ptr
  cont_english :: ptr
  cont_hebrew :: ptr
  sync_english :: ptr
  sync_hebrew :: ptr
  child :: "nat list"
  complete :: bool
  execute :: bool
  task_parent :: ptr
  mytask :: "nat option"

definition new_TaskState :: "TaskState \<Rightarrow> TaskState" where
  "new_TaskState par =
     \<lparr>tid = 0, current_english = cont_english par, current_hebrew = cont_hebrew par,
      cont_english = NULL, cont_hebrew = NULL, sync_english = NULL, sync_hebrew = NULL,
      child = [], complete = False, execute = False, task_parent = NULL, mytask = None\<rparr>"

record var_access =
  estrand :: ptr
  hstrand :: ptr

definition new_var_access :: "ptr \<Rightarrow> ptr \<Rightarrow> var_access" where
  "new_var_access e h = \<lparr>estrand = e, hstrand = h\<rparr>"

definition update_acc_info :: "var_access \<Rightarrow> ptr \<Rightarrow> ptr \<Rightarrow> var_access" where
  "update_acc_info a e h = a\<lparr>estrand := e, hstrand := h\<rparr>"

record VarState =
  lreader :: "var_access option"
  rreader :: "var_access option"
  writer :: "var_access option"

definition new_VarState :: "bool \<Rightarrow> ptr \<Rightarrow> ptr \<Rightarrow> VarState" where
  "new_VarState is_read e h =
     (if is_read
      then \<lparr>lreader = Some (new_var_access e h), rreader = Some (new_var_access e h), writer = None\<rparr>
      else \<lparr>lreader = None, rreader = None, writer = Some (new_var_access e h)\<rparr>)"

record violation_data =
  v_tid :: nat
  v_accessType :: AccessType

record violation =
  v_a1 :: violation_data
  v_a2 :: violation_data

record cracer =
  om_st :: om_state
  task_states :: "nat \<rightharpoonup> TaskState"
  next_task :: nat
  cur :: "THREADID \<Rightarrow> nat list"
  temp_cur_map :: "nat \<rightharpoonup> nat"
  task_id_ctr :: nat
  var_map :: "ADDRINT \<rightharpoonup> VarState"
  violations :: "ADDRINT \<rightharpoonup> violation"

definition error :: "cracer \<Rightarrow> ADDRINT \<Rightarrow> nat \<Rightarrow> AccessType \<Rightarrow> nat \<Rightarrow> AccessType \<Rightarrow> cracer" where
  "error s addr ftid ftype stid stype =
     s\<lparr>violations := map_insert (violations s) addr
         \<lparr>v_a1 = \<lparr>v_tid = ftid, v_accessType = ftype\<rparr>, v_a2 = \<lparr>v_tid = stid, v_accessType = stype\<rparr>\<rparr>\<rparr>"

definition TD_Activate :: "cracer option" where
  "TD_Activate =
     do {
       om \<leftarrow> om_state_new;
       let main_task =
         \<lparr>tid = 0, current_english = m_base (g_english om), current_hebrew = m_base (g_hebrew om),
          cont_english = NULL, cont_hebrew = NULL, sync_english = NULL, sync_hebrew = NULL,
          child = [], complete = False, execute = False, task_parent = NULL, mytask = None\<rparr>;
       Some \<lparr>om_st = om, task_states = [0 \<mapsto> main_task], next_task = 1,
         cur = (\<lambda>_. [])(0 := [0]), temp_cur_map = Map.empty, task_id_ctr = 0,
         var_map = Map.empty, violations = Map.empty\<rparr>
     }"

section \<open>Accesses\<close>

definition precedes_english :: "cracer \<Rightarrow> ptr \<Rightarrow> ptr \<Rightarrow> bool option" where
  "precedes_english s x y = om_precedes (m_heap (g_english (om_st s))) x y"

definition precedes_hebrew :: "cracer \<Rightarrow> ptr \<Rightarrow> ptr \<Rightarrow> bool option" where
  "precedes_hebrew s x y = om_precedes (m_heap (g_hebrew (om_st s))) x y"

definition races_with :: "cracer \<Rightarrow> var_access \<Rightarrow> ptr \<Rightarrow> ptr \<Rightarrow> bool option" where
  "races_with s a curr_estrand curr_hstrand =
     do {
       prec_in_english \<leftarrow> precedes_english s (estrand a) curr_estrand;
       prec_in_hebrew \<leftarrow> precedes_hebrew s (hstrand a) curr_hstrand;
       Some (prec_in_english \<noteq> prec_in_hebrew)
     }"

text \<open>A missing access races with nothing.\<close>

definition opt_races_with :: "cracer \<Rightarrow> var_access option \<Rightarrow> ptr \<Rightarrow> ptr \<Rightarrow> bool option" where
  "opt_races_with s a e h = (case a of None \<Rightarrow> Some False | Some a \<Rightarrow> races_with s a e h)"

text \<open>The two readers: first and last in the English order among the parallel ones.\<close>

definition update_lreader :: "cracer \<Rightarrow> VarState \<Rightarrow> ptr \<Rightarrow> ptr \<Rightarrow> VarState option" where
  "update_lreader s v e h =
     do {
       let reader = (case lreader v of None \<Rightarrow> new_var_access e h | Some r \<Rightarrow> r);
       before \<leftarrow> precedes_english s e (estrand reader);
       is_leftmost \<leftarrow> (if before then Some True else precedes_hebrew s (hstrand reader) h);
       Some (v\<lparr>lreader := Some (if is_leftmost then update_acc_info reader e h else reader)\<rparr>)
     }"

definition update_rreader :: "cracer \<Rightarrow> VarState \<Rightarrow> ptr \<Rightarrow> ptr \<Rightarrow> VarState option" where
  "update_rreader s v e h =
     do {
       let reader = (case rreader v of None \<Rightarrow> new_var_access e h | Some r \<Rightarrow> r);
       is_rightmost \<leftarrow> precedes_english s (estrand reader) e;
       Some (v\<lparr>rreader := Some (if is_rightmost then update_acc_info reader e h else reader)\<rparr>)
     }"

text \<open>A race found ends the access; the result is the kind of the first access, if any.\<close>

definition read_access :: "cracer \<Rightarrow> VarState \<Rightarrow> ptr \<Rightarrow> ptr \<Rightarrow> (AccessType option \<times> VarState) option" where
  "read_access s v e h =
     do {
       write_read \<leftarrow> opt_races_with s (writer v) e h;
       if write_read then Some (Some WRITE, v)
       else do {
         v \<leftarrow> update_lreader s v e h;
         v \<leftarrow> update_rreader s v e h;
         Some (None, v)
       }
     }"

definition write_access :: "cracer \<Rightarrow> VarState \<Rightarrow> ptr \<Rightarrow> ptr \<Rightarrow> (AccessType option \<times> VarState) option" where
  "write_access s v e h =
     do {
       let w = (case writer v of None \<Rightarrow> new_var_access e h | Some w \<Rightarrow> w);
       let v = v\<lparr>writer := Some w\<rparr>;
       write_write \<leftarrow> races_with s w e h;
       if write_write then Some (Some WRITE, v)
       else do {
         let v = v\<lparr>writer := Some (update_acc_info w e h)\<rparr>;
         read_write \<leftarrow> opt_races_with s (lreader v) e h;
         if read_write then Some (Some READ, v)
         else do {
           read_write \<leftarrow> opt_races_with s (rreader v) e h;
           Some (if read_write then (Some READ, v) else (None, v))
         }
       }
     }"

definition RecordMem :: "cracer \<Rightarrow> THREADID \<Rightarrow> ADDRINT \<Rightarrow> AccessType \<Rightarrow> cracer option" where
  "RecordMem s threadId addr accesstype =
     (if violations s addr \<noteq> None then Some s
      else case cur s threadId of
        [] \<Rightarrow> Some s
      | t # _ \<Rightarrow> do {
          task_state \<leftarrow> task_states s t;
          let e = current_english task_state;
          let h = current_hebrew task_state;
          case var_map s addr of
            None \<Rightarrow> Some (s\<lparr>var_map := (var_map s)(addr \<mapsto> new_VarState (accesstype = READ) e h)\<rparr>)
          | Some v \<Rightarrow> do {
              (race, v) \<leftarrow> (if accesstype = READ then read_access s v e h else write_access s v e h);
              let s = s\<lparr>var_map := (var_map s)(addr \<mapsto> v)\<rparr>;
              Some (case race of
                      None \<Rightarrow> s
                    | Some ftype \<Rightarrow> error s addr 0 ftype (tid task_state) accesstype)
            }
        })"

text \<open>Locks are ignored.\<close>

definition CaptureLockAcquire :: "cracer \<Rightarrow> THREADID \<Rightarrow> ADDRINT \<Rightarrow> cracer" where
  "CaptureLockAcquire s threadId lock_addr = s"

definition CaptureLockRelease :: "cracer \<Rightarrow> THREADID \<Rightarrow> ADDRINT \<Rightarrow> cracer" where
  "CaptureLockRelease s threadId lock_addr = s"

section \<open>Tasks\<close>

definition upd_task :: "nat \<Rightarrow> (TaskState \<Rightarrow> TaskState) \<Rightarrow> cracer \<Rightarrow> cracer option" where
  "upd_task t f s =
     do { x \<leftarrow> task_states s t; Some (s\<lparr>task_states := (task_states s)(t \<mapsto> f x)\<rparr>) }"

definition cur_top :: "cracer \<Rightarrow> THREADID \<Rightarrow> nat option" where
  "cur_top s threadId = stack_top (cur s threadId)"

definition set_incomplete :: "cracer \<Rightarrow> THREADID \<Rightarrow> cracer option" where
  "set_incomplete s th = do { t \<leftarrow> cur_top s th; upd_task t (\<lambda>x. x\<lparr>complete := False\<rparr>) s }"

definition set_complete :: "cracer \<Rightarrow> THREADID \<Rightarrow> cracer option" where
  "set_complete s th = do { t \<leftarrow> cur_top s th; upd_task t (\<lambda>x. x\<lparr>complete := True\<rparr>) s }"

definition set_execute_true :: "cracer \<Rightarrow> THREADID \<Rightarrow> cracer option" where
  "set_execute_true s th = do { t \<leftarrow> cur_top s th; upd_task t (\<lambda>x. x\<lparr>execute := True\<rparr>) s }"

definition set_execute_false :: "cracer \<Rightarrow> THREADID \<Rightarrow> cracer option" where
  "set_execute_false s th = do { t \<leftarrow> cur_top s th; upd_task t (\<lambda>x. x\<lparr>execute := False\<rparr>) s }"

fun set_parents :: "cracer \<Rightarrow> nat list \<Rightarrow> ptr \<Rightarrow> cracer option" where
  "set_parents s [] p = Some s"
| "set_parents s (c # cs) p =
     do { s \<leftarrow> upd_task c (\<lambda>x. x\<lparr>task_parent := p\<rparr>) s; set_parents s cs p }"

definition clear_child_list :: "cracer \<Rightarrow> THREADID \<Rightarrow> cracer option" where
  "clear_child_list s threadId =
     do {
       t \<leftarrow> cur_top s threadId;
       cur_task \<leftarrow> task_states s t;
       parent_task \<leftarrow> task_parent cur_task;
       s \<leftarrow> upd_task parent_task (\<lambda>x. x\<lparr>child := child x @ child cur_task\<rparr>) s;
       s \<leftarrow> set_parents s (child cur_task) (Some parent_task);
       upd_task t (\<lambda>x. x\<lparr>child := []\<rparr>) s
     }"

definition exec_begin :: "cracer \<Rightarrow> THREADID \<Rightarrow> nat \<Rightarrow> cracer option" where
  "exec_begin s threadId taskId =
     do {
       cur_task \<leftarrow> temp_cur_map s taskId;
       let s = s\<lparr>temp_cur_map := (temp_cur_map s)(taskId := None),
                 cur := (cur s)(threadId := cur_task # cur s threadId)\<rparr>;
       s \<leftarrow> upd_task cur_task (\<lambda>x. x\<lparr>child := []\<rparr>) s;
       set_incomplete s threadId
     }"

definition exec_end :: "cracer \<Rightarrow> THREADID \<Rightarrow> cracer option" where
  "exec_end s threadId =
     do {
       s \<leftarrow> set_complete s threadId;
       st \<leftarrow> stack_pop (cur s threadId);
       Some (s\<lparr>cur := (cur s)(threadId := st)\<rparr>)
     }"

section \<open>Spawning\<close>

definition insert_english ::
    "(nat \<Rightarrow> label_t) \<Rightarrow> cracer \<Rightarrow> THREADID \<Rightarrow> ptr \<Rightarrow> (ptr \<times> cracer) option" where
  "insert_english shl1 s th base =
     do { (n, om) \<leftarrow> omrd_insert shl1 (om_st s) English th base; Some (n, s\<lparr>om_st := om\<rparr>) }"

definition insert_hebrew ::
    "(nat \<Rightarrow> label_t) \<Rightarrow> cracer \<Rightarrow> THREADID \<Rightarrow> ptr \<Rightarrow> (ptr \<times> cracer) option" where
  "insert_hebrew shl1 s th base =
     do { (n, om) \<leftarrow> omrd_insert shl1 (om_st s) Hebrew th base; Some (n, s\<lparr>om_st := om\<rparr>) }"

text \<open>The first spawn of a group makes the strand after the next sync.\<close>

definition make_sync :: "(nat \<Rightarrow> label_t) \<Rightarrow> cracer \<Rightarrow> THREADID \<Rightarrow> nat \<Rightarrow> cracer option" where
  "make_sync shl1 s th t =
     do {
       cur_task \<leftarrow> task_states s t;
       if sync_english cur_task = NULL then do {
         (e, s) \<leftarrow> insert_english shl1 s th (current_english cur_task);
         (h, s) \<leftarrow> insert_hebrew shl1 s th (current_hebrew cur_task);
         upd_task t (\<lambda>x. x\<lparr>sync_english := e, sync_hebrew := h\<rparr>) s
       } else Some s
     }"

text \<open>
  What the three spawning wrappers share: the strands of the child and of the continuation
  of the task at address \<open>t\<close>.
\<close>

definition fork_strands ::
    "(nat \<Rightarrow> label_t) \<Rightarrow> cracer \<Rightarrow> THREADID \<Rightarrow> nat \<Rightarrow> nat \<Rightarrow> nat \<Rightarrow> cracer option" where
  "fork_strands shl1 s th t taskid task =
     do {
       cur_task \<leftarrow> task_states s t;
       let c = next_task s;
       let s = s\<lparr>next_task := c + 1,
                 task_states := (task_states s)(c \<mapsto> (new_TaskState cur_task)\<lparr>tid := taskid\<rparr>)\<rparr>;
       s \<leftarrow> make_sync shl1 s th t;
       (child_e, s) \<leftarrow> insert_english shl1 s th (current_english cur_task);
       (cont_e, s) \<leftarrow> insert_english shl1 s th child_e;
       (cont_h, s) \<leftarrow> insert_hebrew shl1 s th (current_hebrew cur_task);
       (child_h, s) \<leftarrow> insert_hebrew shl1 s th cont_h;
       s \<leftarrow> upd_task c (\<lambda>x. x\<lparr>current_english := child_e, current_hebrew := child_h,
              cont_english := NULL, cont_hebrew := NULL, sync_english := NULL, sync_hebrew := NULL,
              task_parent := Some t, mytask := Some task\<rparr>) s;
       s \<leftarrow> upd_task t (\<lambda>x. x\<lparr>cont_english := cont_e, cont_hebrew := cont_h,
              current_english := cont_e, current_hebrew := cont_h, child := child x @ [c]\<rparr>) s;
       Some (s\<lparr>temp_cur_map := map_insert (temp_cur_map s) taskid c\<rparr>)
     }"

text \<open>
  \<open>spawn\<close>: \<open>of_this\<close> says whether the task's TBB parent is the spawning task; if not, the
  strands of the spawning task's parent are forked.
\<close>

definition spawn :: "(nat \<Rightarrow> label_t) \<Rightarrow> cracer \<Rightarrow> THREADID \<Rightarrow> nat \<Rightarrow> bool \<Rightarrow> cracer option" where
  "spawn shl1 s th task of_this =
     do {
       let s = s\<lparr>task_id_ctr := task_id_ctr s + 1\<rparr>;
       t \<leftarrow> cur_top s th;
       cur_task \<leftarrow> task_states s t;
       t \<leftarrow> (if of_this then Some t else task_parent cur_task);
       fork_strands shl1 s th t (task_id_ctr s) task
     }"

text \<open>Waiting: the subtree of children is deleted and the task goes on after its sync.\<close>

definition delete_task :: "cracer \<Rightarrow> nat \<Rightarrow> cracer option" where
  "delete_task s t =
     do { _ \<leftarrow> task_states s t; Some (s\<lparr>task_states := (task_states s)(t := None)\<rparr>) }"

definition after_sync :: "cracer \<Rightarrow> nat \<Rightarrow> cracer option" where
  "after_sync s t =
     do {
       s \<leftarrow> upd_task t (\<lambda>x. x\<lparr>child := []\<rparr>) s;
       upd_task t (\<lambda>x. if sync_english x \<noteq> NULL
         then x\<lparr>current_english := sync_english x, current_hebrew := sync_hebrew x,
                sync_english := NULL, sync_hebrew := NULL\<rparr>
         else x) s
     }"

partial_function (option) wait_children :: "cracer \<Rightarrow> nat \<Rightarrow> nat list \<Rightarrow> cracer option" where
  "wait_children s t cs =
     (case cs of
        [] \<Rightarrow> after_sync s t
      | c # cs' \<Rightarrow> do {
          x \<leftarrow> task_states s c;
          s \<leftarrow> (if child x \<noteq> [] then wait_children s c (child x) else Some s);
          s \<leftarrow> delete_task s c;
          wait_children s t cs'
        })"

declare wait_children.simps [code]

definition Capturewait_for_all :: "cracer \<Rightarrow> nat \<Rightarrow> cracer option" where
  "Capturewait_for_all s t = do { x \<leftarrow> task_states s t; wait_children s t (child x) }"

text \<open>The wrappers that wait, with the TBB call as argument.\<close>

definition spawn_root_and_wait ::
    "(nat \<Rightarrow> label_t) \<Rightarrow> (cracer \<Rightarrow> cracer option) \<Rightarrow> cracer \<Rightarrow> THREADID \<Rightarrow> nat \<Rightarrow> cracer option" where
  "spawn_root_and_wait shl1 tbb s th task =
     do {
       let s = s\<lparr>task_id_ctr := task_id_ctr s + 1\<rparr>;
       t \<leftarrow> cur_top s th;
       s \<leftarrow> fork_strands shl1 s th t (task_id_ctr s) task;
       s \<leftarrow> tbb s;
       Capturewait_for_all s t
     }"

definition spawn_and_wait_for_all ::
    "(nat \<Rightarrow> label_t) \<Rightarrow> (cracer \<Rightarrow> cracer option) \<Rightarrow> cracer \<Rightarrow> THREADID \<Rightarrow> nat \<Rightarrow> cracer option" where
  "spawn_and_wait_for_all shl1 tbb s th task =
     do {
       let s = s\<lparr>task_id_ctr := task_id_ctr s + 1\<rparr>;
       t \<leftarrow> cur_top s th;
       s \<leftarrow> fork_strands shl1 s th t (task_id_ctr s) task;
       s \<leftarrow> tbb s;
       Capturewait_for_all s t
     }"

definition wait_for_all ::
    "(cracer \<Rightarrow> cracer option) \<Rightarrow> cracer \<Rightarrow> THREADID \<Rightarrow> cracer option" where
  "wait_for_all tbb s th = do { t \<leftarrow> cur_top s th; s \<leftarrow> tbb s; Capturewait_for_all s t }"

end
