(* ===== verification/OmOrder.thy ===== *)
theory OmOrder
  imports OmTree
begin

text \<open>
  What a sublist on the memory stands for: the list of its nodes.  Insertion places the new
  node right after its base, keeps the labels increasing, and touches no other sublist.
\<close>

section \<open>Sublists\<close>

definition hd_ptr :: "nat list \<Rightarrow> ptr" where
  "hd_ptr xs = (case xs of [] \<Rightarrow> NULL | x # _ \<Rightarrow> Some x)"

definition last_ptr :: "nat list \<Rightarrow> ptr" where
  "last_ptr xs = (if xs = [] then NULL else Some (last xs))"

lemma hd_ptr_simps [simp]: "hd_ptr [] = NULL" "hd_ptr (x # xs) = Some x"
  by (simp_all add: hd_ptr_def)

lemma last_ptr_simps [simp]: "last_ptr [] = NULL" "last_ptr (xs @ [x]) = Some x"
  by (simp_all add: last_ptr_def)

text \<open>Doubly linked nodes of the list at \<open>L\<close>, the first with predecessor \<open>p\<close>, the last with successor \<open>q\<close>.\<close>

fun chain :: "(nat \<rightharpoonup> bl_node) \<Rightarrow> nat \<Rightarrow> ptr \<Rightarrow> nat list \<Rightarrow> ptr \<Rightarrow> bool" where
  "chain m L p [] q \<longleftrightarrow> True"
| "chain m L p (x # xs) q \<longleftrightarrow>
     (\<exists>n. m x = Some n \<and> bl_prev n = p \<and> bl_list n = Some L \<and>
        bl_next n = (if xs = [] then q else hd_ptr xs)) \<and> chain m L (Some x) xs q"

definition lab :: "(nat \<rightharpoonup> bl_node) \<Rightarrow> nat \<Rightarrow> label_t" where
  "lab m x = (case m x of None \<Rightarrow> 0 | Some n \<Rightarrow> bl_label n)"

text \<open>The sublist \<open>L\<close> below the leaf \<open>t\<close> holds \<open>xs\<close>, in the order of the labels.\<close>

definition list_ok :: "om_heap \<Rightarrow> nat \<Rightarrow> nat \<Rightarrow> nat list \<Rightarrow> bool" where
  "list_ok h t L xs \<longleftrightarrow>
     (\<exists>l. lists h L = Some l \<and> head l = hd_ptr xs \<and> tail l = last_ptr xs \<and> above l = Some t) \<and>
     chain (nodes h) L NULL xs NULL \<and> xs \<noteq> [] \<and> distinct xs \<and>
     sorted_wrt (<) (map (lab (nodes h)) xs)"

lemma chain_append:
  "chain m L p (xs @ ys) q \<longleftrightarrow>
     chain m L p xs (if ys = [] then q else hd_ptr ys) \<and> chain m L (if xs = [] then p else Some (last xs)) ys q"
  by (induction xs arbitrary: p) (auto simp: hd_ptr_def split: list.split)

lemma chain_cong:
  "(\<And>x. x \<in> set xs \<Longrightarrow> m' x = m x) \<Longrightarrow> chain m' L p xs q = chain m L p xs q"
  by (induction xs arbitrary: p) auto

lemma chain_node: "chain m L p xs q \<Longrightarrow> x \<in> set xs \<Longrightarrow> \<exists>n. m x = Some n \<and> bl_list n = Some L"
  by (induction xs arbitrary: p) auto

lemma lab_cong: "(\<And>x. x \<in> set xs \<Longrightarrow> m' x = m x) \<Longrightarrow> map (lab m') xs = map (lab m) xs"
  by (simp add: lab_def)

lemma list_ok_cong:
  assumes "list_ok h t L xs" "\<And>x. x \<in> set xs \<Longrightarrow> nodes h' x = nodes h x"
    and "map_option head (lists h' L) = map_option head (lists h L)"
      "map_option tail (lists h' L) = map_option tail (lists h L)"
      "map_option above (lists h' L) = map_option above (lists h L)"
  shows "list_ok h' t L xs"
proof -
  have labs: "map (lab (nodes h')) xs = map (lab (nodes h)) xs" using assms(2) by (rule lab_cong)
  have ch: "chain (nodes h') L NULL xs NULL = chain (nodes h) L NULL xs NULL" using assms(2) by (rule chain_cong)
  show ?thesis using assms(1,3-5) unfolding list_ok_def labs ch by auto
qed

lemma list_ok_node: "list_ok h t L xs \<Longrightarrow> x \<in> set xs \<Longrightarrow> \<exists>n. nodes h x = Some n \<and> bl_list n = Some L"
  unfolding list_ok_def by (blast dest: chain_node)

lemma list_okE:
  assumes "list_ok h t L xs"
  obtains l where "lists h L = Some l" "head l = hd_ptr xs" "tail l = last_ptr xs" "above l = Some t"
    "chain (nodes h) L NULL xs NULL" "xs \<noteq> []" "distinct xs" "sorted_wrt (<) (map (lab (nodes h)) xs)"
  using assms unfolding list_ok_def by blast

section \<open>Insertion after a base\<close>

fun insert_after :: "'a \<Rightarrow> 'a \<Rightarrow> 'a list \<Rightarrow> 'a list" where
  "insert_after b n [] = []"
| "insert_after b n (x # xs) = (if x = b then x # n # xs else x # insert_after b n xs)"

lemma insert_after_split: "b \<notin> set xs \<Longrightarrow> insert_after b n (xs @ b # ys) = xs @ b # n # ys"
  by (induction xs) auto

lemma insert_after_absent: "b \<notin> set xs \<Longrightarrow> insert_after b n xs = xs"
  by (induction xs) auto

lemma insert_after_append:
  "insert_after b n (xs @ ys) = (if b \<in> set xs then insert_after b n xs @ ys else xs @ insert_after b n ys)"
  by (induction xs) (auto simp: insert_after_absent)

lemma set_insert_after: "b \<in> set xs \<Longrightarrow> set (insert_after b n xs) = insert n (set xs)"
  by (induction xs) auto

lemma length_insert_after: "b \<in> set xs \<Longrightarrow> length (insert_after b n xs) = Suc (length xs)"
  by (induction xs) auto

lemma distinct_insert_after: "distinct xs \<Longrightarrow> n \<notin> set xs \<Longrightarrow> distinct (insert_after b n xs)"
proof (induction xs)
  case (Cons x xs)
  then show ?case by (cases "b \<in> set xs") (auto simp: set_insert_after insert_after_absent)
qed simp

lemma chain_next:
  assumes "chain m L p (xs @ b # ys) q"
  shows "\<exists>n. m b = Some n \<and> bl_next n = (if ys = [] then q else hd_ptr ys) \<and> bl_list n = Some L"
  using assms by (auto simp: chain_append)

text \<open>Linking a new node into a chain.\<close>

lemma chain_insert:
  assumes c: "chain m L p (xs @ b # ys) NULL" and d: "distinct (xs @ b # ys)" and n: "n \<notin> set (xs @ b # ys)"
    and b: "m b = Some nb"
    and m': "m' b = Some (nb\<lparr>bl_next := Some n\<rparr>)"
      "m' n = Some \<lparr>bl_label = l, bl_next = hd_ptr ys, bl_prev = Some b, bl_list = Some L\<rparr>"
      "\<And>y zs. ys = y # zs \<Longrightarrow> m' y = map_option (\<lambda>x. x\<lparr>bl_prev := Some n\<rparr>) (m y)"
      "\<And>x. x \<notin> {b, n} \<union> set (take 1 ys) \<Longrightarrow> m' x = m x"
  shows "chain m' L p (xs @ b # n # ys) NULL"
proof -
  have xs: "chain m' L p xs (Some b)"
  proof -
    have "m' x = m x" if "x \<in> set xs" for x
      using that d n by (intro m'(4)) (auto dest: in_set_takeD)
    then have "chain m' L p xs (Some b) = chain m L p xs (Some b)" by (rule chain_cong)
    then show ?thesis using c by (simp add: chain_append)
  qed
  have bn: "\<exists>nb'. m b = Some nb' \<and> bl_prev nb' = (if xs = [] then p else Some (last xs)) \<and> bl_list nb' = Some L"
    using c by (auto simp: chain_append)
  have ys: "chain m' L (Some n) ys NULL"
  proof (cases ys)
    case (Cons y zs)
    have "m' x = m x" if "x \<in> set zs" for x
      using that d n Cons by (intro m'(4)) auto
    then have "chain m' L (Some y) zs NULL = chain m L (Some y) zs NULL" by (rule chain_cong)
    then have "chain m' L (Some y) zs NULL" using c Cons by (simp add: chain_append)
    then show ?thesis using c Cons m'(3) [OF Cons] by (auto simp: chain_append)
  qed simp
  show ?thesis using xs ys bn b m'(1,2) by (auto simp: chain_append)
qed

lemma sorted_insert:
  assumes s: "sorted_wrt (<) (map f (xs @ b # ys))" and l: "f b < (l :: label_t)" "\<And>y zs. ys = y # zs \<Longrightarrow> l < f y"
  shows "sorted_wrt (<) (map f xs @ f b # l # map f ys)"
proof -
  have "x < l" if "x \<in> set (map f xs)" for x
  proof -
    have "x < f b" using s that by (auto simp: sorted_wrt_append)
    then show ?thesis using l(1) by (rule less_trans)
  qed
  moreover have "l < x" if "x \<in> set (map f ys)" for x
  proof (cases ys)
    case (Cons y zs)
    then have "x = f y \<or> f y < x" using s that by (auto simp: sorted_wrt_append)
    then show ?thesis using l(2) [OF Cons] less_trans by blast
  qed (use that in simp)
  ultimately show ?thesis using s l(1) by (auto simp: sorted_wrt_append)
qed

text \<open>Addresses not yet allocated are free in all three parts of the memory.\<close>

definition fresh_ok :: "om_heap \<Rightarrow> bool" where
  "fresh_ok h \<longleftrightarrow> (\<forall>a \<ge> fresh h. nodes h a = None \<and> lists h a = None \<and> tls h a = None)"

lemma fresh_okD:
  "fresh_ok h \<Longrightarrow> fresh h \<le> a \<Longrightarrow> nodes h a = None \<and> lists h a = None \<and> tls h a = None"
  by (simp add: fresh_ok_def)

text \<open>What linking a new node after a base that is in the list does to the memory.\<close>

lemma insert_internal_effect:
  assumes ok: "list_ok h t L (us @ b # ys)" and n: "nodes h n = Some \<lparr>bl_label = l, bl_next = x1, bl_prev = x2, bl_list = x3\<rparr>"
    and nb: "n \<notin> set (us @ b # ys)"
  shows "\<exists>h' nb l0. insert_internal h (Some L) (Some b) (Some n) = Some h' \<and>
    tls h' = tls h \<and> fresh h' = fresh h \<and> lists h L = Some l0 \<and>
    lists h' = (lists h)(L \<mapsto> (if ys = [] then l0\<lparr>tail := Some n\<rparr> else l0)) \<and>
    nodes h b = Some nb \<and> nodes h' b = Some (nb\<lparr>bl_next := Some n\<rparr>) \<and>
    nodes h' n = Some \<lparr>bl_label = l, bl_next = hd_ptr ys, bl_prev = Some b, bl_list = Some L\<rparr> \<and>
    (\<forall>y zs. ys = y # zs \<longrightarrow> nodes h' y = map_option (\<lambda>x. x\<lparr>bl_prev := Some n\<rparr>) (nodes h y)) \<and>
    (\<forall>x. x \<notin> {b, n} \<union> set (take 1 ys) \<longrightarrow> nodes h' x = nodes h x)"
proof -
  from ok obtain l0 where l0: "lists h L = Some l0" "tail l0 = last_ptr (us @ b # ys)"
    and ch: "chain (nodes h) L NULL (us @ b # ys) NULL" and d: "distinct (us @ b # ys)" by (rule list_okE)
  obtain nb where b: "nodes h b = Some nb" "bl_next nb = hd_ptr ys"
    using chain_next [OF ch] by (cases ys) auto
  have ne: "n \<noteq> b" using nb by auto
  show ?thesis
  proof (cases ys)
    case Nil
    then have "tail l0 = Some b" using l0(2) by (simp add: last_ptr_def)
    then show ?thesis
      using Nil l0 b n ne by (simp add: insert_internal_def upd_node_def upd_list_def fun_upd_twist)
  next
    case (Cons y zs)
    have "last (us @ b # ys) \<noteq> b" using d Cons by (auto simp: last_append)
    then have t: "tail l0 \<noteq> Some b" using l0(2) by (simp add: last_ptr_def)
    obtain ny where y: "nodes h y = Some ny" using ch Cons by (auto simp: chain_append)
    have dy: "y \<noteq> b" "y \<noteq> n" using d nb Cons by auto
    show ?thesis
      using Cons l0 b n ne t y dy
      by (simp add: insert_internal_def upd_node_def upd_list_def fun_upd_idem [of "lists h" L "Some l0"])
  qed
qed

text \<open>The label found for a node after \<open>b\<close>.\<close>

lemma get_new_label_chain:
  assumes "chain (nodes h) L p (us @ b # ys) NULL" "ys = [] \<or> (\<exists>y zs ny. ys = y # zs \<and> nodes h y = Some ny)"
  shows "get_new_label h (Some b) =
    Some (mid_label (lab (nodes h) b) (case ys of [] \<Rightarrow> None | y # _ \<Rightarrow> Some (lab (nodes h) y)))"
  using chain_next [OF assms(1)] assms(2) by (cases ys) (auto simp: get_new_label_def lab_def)

lemma new_label_bounds:
  assumes s: "sorted_wrt (<) (map f (us @ b # ys))"
    and l: "l = mid_label (f b) (case ys of [] \<Rightarrow> None | y # _ \<Rightarrow> Some (f y))" "l > 0"
  shows "f b < l" "ys = y # zs \<Longrightarrow> l < f y"
proof -
  have *: "f b < l \<and> (\<forall>y zs. ys = y # zs \<longrightarrow> l < f y)"
  proof (cases ys)
    case Nil
    then show ?thesis using l mid_label_last [of "f b"] by auto
  next
    case (Cons y zs)
    then have "f b < f y" using s by (auto simp: sorted_wrt_append)
    then show ?thesis using l mid_label_between [of "f b" "f y"] Cons by auto
  qed
  then show "f b < l" "ys = y # zs \<Longrightarrow> l < f y" by blast+
qed

text \<open>An insertion that finds a label puts the new node right after its base.\<close>

lemma bl_insert_ok:
  assumes ok: "list_ok h t L xs" and b: "b \<in> set xs" and fr: "fresh_ok h"
  shows "(\<exists>l. get_new_label h (Some b) = Some l \<and> l = 0) \<and> bl_insert h (Some L) (Some b) = Some (NULL, h) \<or>
    (\<exists>h'. bl_insert h (Some L) (Some b) = Some (Some (fresh h), h') \<and>
      list_ok h' t L (insert_after b (fresh h) xs) \<and> fresh_ok h' \<and> fresh h' = fresh h + 1 \<and> tls h' = tls h \<and>
      (\<forall>M. M \<noteq> L \<longrightarrow> lists h' M = lists h M) \<and> map_option heavy (lists h' L) = map_option heavy (lists h L) \<and>
      (\<forall>x. x \<notin> insert (fresh h) (set xs) \<longrightarrow> nodes h' x = nodes h x))"
proof -
  from ok obtain l0 where l0: "lists h L = Some l0" "head l0 = hd_ptr xs" "above l0 = Some t"
    and ch: "chain (nodes h) L NULL xs NULL" and d: "distinct xs" and s: "sorted_wrt (<) (map (lab (nodes h)) xs)"
    by (rule list_okE)
  from b obtain us ys where xs: "xs = us @ b # ys" by (meson split_list)
  let ?n = "fresh h"
  have nx: "?n \<notin> set xs"
  proof
    assume "?n \<in> set xs"
    then show False using list_ok_node [OF ok] fresh_okD [OF fr, of ?n] by fastforce
  qed
  have ex: "ys = [] \<or> (\<exists>y zs ny. ys = y # zs \<and> nodes h y = Some ny)"
    using list_ok_node [OF ok] xs by (cases ys) auto
  define l where "l = mid_label (lab (nodes h) b) (case ys of [] \<Rightarrow> None | y # _ \<Rightarrow> Some (lab (nodes h) y))"
  have gl: "get_new_label h (Some b) = Some l"
    using get_new_label_chain [OF ch [unfolded xs] ex] by (simp add: l_def)
  show ?thesis
  proof (cases "l > 0")
    case False
    then have "l = 0" by (simp add: word_gt_0)
    then show ?thesis using gl by (simp add: bl_insert_def)
  next
    case True
    define h1 where "h1 = h\<lparr>nodes := (nodes h)(?n \<mapsto> \<lparr>bl_label = l, bl_next = NULL, bl_prev = NULL, bl_list = NULL\<rparr>),
      fresh := ?n + 1\<rparr>"
    have up: "upd_node (Some ?n) (\<lambda>x. x\<lparr>bl_label := l\<rparr>) (snd (new_node h)) = Some h1"
      by (simp add: new_node_def upd_node_def h1_def)
    have ok1: "list_ok h1 t L xs" by (rule list_ok_cong [OF ok]) (use nx in \<open>auto simp: h1_def\<close>)
    obtain h' nb l1 where e: "insert_internal h1 (Some L) (Some b) (Some ?n) = Some h'"
      "tls h' = tls h1" "fresh h' = fresh h1" "lists h1 L = Some l1"
      "lists h' = (lists h1)(L \<mapsto> (if ys = [] then l1\<lparr>tail := Some ?n\<rparr> else l1))"
      "nodes h1 b = Some nb" "nodes h' b = Some (nb\<lparr>bl_next := Some ?n\<rparr>)"
      "nodes h' ?n = Some \<lparr>bl_label = l, bl_next = hd_ptr ys, bl_prev = Some b, bl_list = Some L\<rparr>"
      "\<forall>y zs. ys = y # zs \<longrightarrow> nodes h' y = map_option (\<lambda>x. x\<lparr>bl_prev := Some ?n\<rparr>) (nodes h1 y)"
      "\<forall>x. x \<notin> {b, ?n} \<union> set (take 1 ys) \<longrightarrow> nodes h' x = nodes h1 x"
      using insert_internal_effect [OF ok1 [unfolded xs], of ?n l NULL NULL NULL] nx xs by (auto simp: h1_def)
    have bl: "bl_insert h (Some L) (Some b) = Some (Some ?n, h')"
      using True gl up e(1) by (simp add: bl_insert_def new_node_def Let_def)
    have bs: "b \<notin> set us" using d xs by simp
    have ia: "insert_after b ?n xs = us @ b # ?n # ys" by (simp add: xs insert_after_split [OF bs])
    have bn: "b \<noteq> ?n" using nx b by auto
    have labs: "lab (nodes h') x = lab (nodes h) x" if x: "x \<in> set xs" for x
    proof -
      consider "x = b" | y zs where "ys = y # zs" "x = y" | "x \<notin> {b, ?n} \<union> set (take 1 ys)"
        using x nx by (cases ys) auto
      then show ?thesis
      proof cases
        case 1
        then show ?thesis using e(6,7) bn by (simp add: lab_def h1_def)
      next
        case (2 y zs)
        then have "nodes h1 x = nodes h x" using x nx by (auto simp: h1_def)
        then show ?thesis using 2 e(9) by (simp add: lab_def split: option.split)
      next
        case 3
        then show ?thesis using e(10) by (simp add: lab_def h1_def)
      qed
    qed
    have ch': "chain (nodes h') L NULL (us @ b # ?n # ys) NULL"
      by (rule chain_insert [where m = "nodes h1" and nb = nb and l = l])
        (use ok1 d nx xs e(6-10) in \<open>auto simp: list_ok_def\<close>)
    have mp: "map (lab (nodes h')) (us @ b # ?n # ys) =
      map (lab (nodes h)) us @ lab (nodes h) b # l # map (lab (nodes h)) ys"
      using labs xs e(8) by (simp add: lab_def [of _ ?n])
    have srt: "sorted_wrt (<) (map (lab (nodes h')) (insert_after b ?n xs))"
      unfolding ia mp
      by (rule sorted_insert [OF s [unfolded xs]]) (use new_label_bounds [OF s [unfolded xs] l_def True] in auto)
    have dist: "distinct (insert_after b ?n xs)" by (rule distinct_insert_after [OF d nx])
    have l1: "l1 = l0" using e(4) l0(1) by (simp add: h1_def)
    have lst: "lists h' L = Some (if ys = [] then l0\<lparr>tail := Some ?n\<rparr> else l0)" using e(5) l1 by simp
    have tl: "tail (if ys = [] then l0\<lparr>tail := Some ?n\<rparr> else l0) = last_ptr (insert_after b ?n xs)"
      unfolding ia using ok l0(1) by (auto simp: list_ok_def xs last_ptr_def)
    have hd: "head (if ys = [] then l0\<lparr>tail := Some ?n\<rparr> else l0) = hd_ptr (insert_after b ?n xs)"
      unfolding ia using l0(2) by (cases us) (simp_all add: xs)
    have ab: "above (if ys = [] then l0\<lparr>tail := Some ?n\<rparr> else l0) = Some t" using l0(3) by simp
    have "list_ok h' t L (insert_after b ?n xs)"
      unfolding list_ok_def
      using lst tl hd ab ch' srt dist unfolding ia by simp
    moreover have "fresh_ok h'"
      unfolding fresh_ok_def
    proof (intro allI impI)
      fix a assume a: "fresh h' \<le> a"
      then have f: "nodes h a = None \<and> lists h a = None \<and> tls h a = None"
        using fresh_okD [OF fr, of a] e(3) by (simp add: h1_def)
      have "a \<notin> set xs" using f list_ok_node [OF ok] by fastforce
      then have "a \<notin> {b, ?n} \<union> set (take 1 ys)" using a e(3) b xs by (auto simp: h1_def dest: in_set_takeD)
      then have "nodes h' a = nodes h1 a" using e(10) by blast
      then show "nodes h' a = None \<and> lists h' a = None \<and> tls h' a = None"
        using f a e(2,3,5) l0(1) by (auto simp: h1_def)
    qed
    moreover have "nodes h' x = nodes h x" if "x \<notin> insert ?n (set xs)" for x
      using that e(10) xs b by (auto simp: h1_def dest: in_set_takeD)
    moreover have "lists h' M = lists h M" if "M \<noteq> L" for M using that e(5) by (simp add: h1_def)
    moreover have "map_option heavy (lists h' L) = map_option heavy (lists h L)" using lst l0(1) by simp
    ultimately show ?thesis using bl e(2,3) by (simp add: h1_def)
  qed
qed

end
