(* ===== verification/OmShape.thy ===== *)
theory OmShape
  imports OmOrder
begin

text \<open>
  The tree above the sublists: its shape, what a shape on the memory requires of the records
  of its nodes, and that rebuilding a subtree spreads its leaves over the label range of the
  subtree without changing their order.
\<close>

section \<open>Shapes\<close>

text \<open>
  A leaf with its sublist, a leaf whose sublist was split and that waits to be rebuilt, with
  the leaves of the parts, and an internal node.  The numbers are addresses.
\<close>

datatype shape = Tip nat nat | Spl nat "(nat \<times> nat) list" | Bin nat shape shape

fun rt :: "shape \<Rightarrow> nat" where
  "rt (Tip t L) = t"
| "rt (Spl t ps) = t"
| "rt (Bin t a b) = t"

fun leaves :: "shape \<Rightarrow> (nat \<times> nat) list" where
  "leaves (Tip t L) = [(t, L)]"
| "leaves (Spl t ps) = ps"
| "leaves (Bin t a b) = leaves a @ leaves b"

abbreviation nl :: "shape \<Rightarrow> nat" where
  "nl S \<equiv> length (leaves S)"

fun taddrs :: "shape \<Rightarrow> nat list" where
  "taddrs (Tip t L) = [t]"
| "taddrs (Spl t ps) = t # map fst ps"
| "taddrs (Bin t a b) = t # taddrs a @ taddrs b"

text \<open>Whether a split leaf waits in the subtree, and the height once all are rebuilt.\<close>

fun pend :: "shape \<Rightarrow> bool" where
  "pend (Tip t L) = False"
| "pend (Spl t ps) = True"
| "pend (Bin t a b) = (pend a \<or> pend b)"

fun dep :: "shape \<Rightarrow> nat" where
  "dep (Tip t L) = 0"
| "dep (Spl t ps) = fast_log2_ceil (length ps)"
| "dep (Bin t a b) = Suc (max (dep a) (dep b))"

lemma rt_taddrs [simp]: "rt S \<in> set (taddrs S)"
  by (cases S) auto

lemma leaves_taddrs: "p \<in> set (leaves S) \<Longrightarrow> fst p \<in> set (taddrs S)"
  by (induction S) auto

text \<open>The label range of a node at depth \<open>\<ell>\<close> that starts at \<open>lo\<close>.\<close>

definition width :: "nat \<Rightarrow> nat" where
  "width d = 2 ^ (64 - d)"

lemma width_Suc: "d < 64 \<Longrightarrow> width d = 2 * width (Suc d)"
  by (simp add: width_def Suc_diff_Suc flip: power_Suc)

lemma width_pos [simp]: "0 < width d"
  by (simp add: width_def)

definition aligned :: "nat \<Rightarrow> nat \<Rightarrow> bool" where
  "aligned d lo \<longleftrightarrow> d \<le> 64 \<and> width d dvd lo \<and> lo + width d \<le> 2 ^ 64"

lemma aligned_0: "aligned 0 0"
  by (simp add: aligned_def width_def)

lemma aligned_child:
  assumes "aligned d lo" "d < 64"
  shows "aligned (Suc d) lo" "aligned (Suc d) (lo + width (Suc d))"
  using assms by (auto simp: aligned_def width_Suc dvd_add)

fun split_chain :: "(nat \<rightharpoonup> tl_node) \<Rightarrow> ptr \<Rightarrow> (nat \<times> nat) list \<Rightarrow> bool" where
  "split_chain m p [] \<longleftrightarrow> True"
| "split_chain m p (x # xs) \<longleftrightarrow>
     (\<exists>n. m (fst x) = Some n \<and> left n = p \<and> right n = hd_ptr (map fst xs) \<and> below n = Some (snd x) \<and>
        level n = MAX_LEVEL \<and> num_leaves n = 1) \<and> split_chain m (Some (fst x)) xs"

fun shape_ok :: "(nat \<rightharpoonup> tl_node) \<Rightarrow> ptr \<Rightarrow> nat \<Rightarrow> nat \<Rightarrow> shape \<Rightarrow> bool" where
  "shape_ok m p d lo (Tip t L) \<longleftrightarrow>
     (\<exists>n. m t = Some n \<and> parent n = p \<and> level n = MAX_LEVEL \<and> left n = NULL \<and> right n = NULL \<and>
        below n = Some L \<and> num_leaves n = 1 \<and> unat (tl_label n) = lo)"
| "shape_ok m p d lo (Spl t ps) \<longleftrightarrow>
     (\<exists>n. m t = Some n \<and> parent n = p \<and> level n = MAX_LEVEL \<and> left n = NULL \<and> right n = NULL \<and>
        split_nodes n = hd_ptr (map fst ps) \<and> num_leaves n = length ps \<and> unat (tl_label n) = lo) \<and>
     2 \<le> length ps \<and> split_chain m NULL ps"
| "shape_ok m p d lo (Bin t a b) \<longleftrightarrow>
     (\<exists>n. m t = Some n \<and> parent n = p \<and> level n = d \<and> left n = Some (rt a) \<and> right n = Some (rt b) \<and>
        num_leaves n = nl a + nl b \<and> unat (tl_label n) = lo + width d - 1) \<and> d < 64 \<and>
     shape_ok m (Some t) (Suc d) lo a \<and> shape_ok m (Some t) (Suc d) (lo + width (Suc d)) b"

definition flag :: "(nat \<rightharpoonup> tl_node) \<Rightarrow> nat \<Rightarrow> bool" where
  "flag m t = (case m t of None \<Rightarrow> False | Some n \<Rightarrow> needs_rebalance n)"

text \<open>The mark \<open>needs_rebalance\<close> is on the nodes above a split leaf.\<close>

fun flags_ok :: "(nat \<rightharpoonup> tl_node) \<Rightarrow> shape \<Rightarrow> bool" where
  "flags_ok m (Tip t L) \<longleftrightarrow> \<not> flag m t"
| "flags_ok m (Spl t ps) \<longleftrightarrow> flag m t"
| "flags_ok m (Bin t a b) \<longleftrightarrow> (flag m t = (pend a \<or> pend b)) \<and> flags_ok m a \<and> flags_ok m b"

lemma split_chain_cong:
  "(\<And>t. t \<in> fst ` set ps \<Longrightarrow> m' t = m t) \<Longrightarrow> split_chain m' p ps = split_chain m p ps"
  by (induction ps arbitrary: p) auto

lemma shape_cong:
  assumes "\<And>t. t \<in> set (taddrs S) \<Longrightarrow> m' t = m t"
  shows "shape_ok m' p d lo S = shape_ok m p d lo S" "flags_ok m' S = flags_ok m S"
proof -
  have *: "shape_ok m' p d lo S = shape_ok m p d lo S \<and> flags_ok m' S = flags_ok m S"
    using assms
  proof (induction S arbitrary: p d lo)
    case (Spl t ps)
    have "split_chain m' NULL ps = split_chain m NULL ps" by (rule split_chain_cong) (use Spl in auto)
    then show ?case using Spl by (simp add: flag_def)
  qed (simp_all add: flag_def)
  then show "shape_ok m' p d lo S = shape_ok m p d lo S" "flags_ok m' S = flags_ok m S" by blast+
qed

lemma shape_root: "shape_ok m p d lo S \<Longrightarrow> \<exists>n. m (rt S) = Some n \<and> num_leaves n = nl S \<and> parent n = p"
  by (cases S) auto

lemma flag_root: "flags_ok m S \<Longrightarrow> flag m (rt S) = pend S"
  by (cases S) auto

lemma nl_pos: "shape_ok m p d lo S \<Longrightarrow> 0 < nl S"
  by (induction S arbitrary: p d lo) auto

section \<open>The order of the leaves\<close>

definition tlab :: "(nat \<rightharpoonup> tl_node) \<Rightarrow> nat \<Rightarrow> label_t" where
  "tlab m t = (case m t of None \<Rightarrow> 0 | Some n \<Rightarrow> tl_label n)"

lemma leaf_labels:
  assumes "shape_ok m p d lo S" "\<not> pend S"
  shows "sorted_wrt (<) (map (\<lambda>x. tlab m (fst x)) (leaves S)) \<and>
    (\<forall>x \<in> set (leaves S). lo \<le> unat (tlab m (fst x)) \<and> unat (tlab m (fst x)) < lo + width d)"
  using assms
proof (induction S arbitrary: p d lo)
  case (Tip t L)
  then show ?case by (auto simp: tlab_def)
next
  case (Bin t a b)
  then have d: "d < 64" by auto
  have a: "sorted_wrt (<) (map (\<lambda>x. tlab m (fst x)) (leaves a)) \<and>
    (\<forall>x \<in> set (leaves a). lo \<le> unat (tlab m (fst x)) \<and> unat (tlab m (fst x)) < lo + width (Suc d))"
    using Bin.IH(1) [of "Some t" "Suc d" lo] Bin.prems by auto
  have b: "sorted_wrt (<) (map (\<lambda>x. tlab m (fst x)) (leaves b)) \<and>
    (\<forall>x \<in> set (leaves b). lo + width (Suc d) \<le> unat (tlab m (fst x)) \<and>
      unat (tlab m (fst x)) < lo + width (Suc d) + width (Suc d))"
    using Bin.IH(2) [of "Some t" "Suc d" "lo + width (Suc d)"] Bin.prems by auto
  have "tlab m (fst x) < tlab m (fst y)" if "x \<in> set (leaves a)" "y \<in> set (leaves b)" for x y
    using that a b by (force simp: word_less_nat_alt)
  then show ?case using a b width_Suc [OF d] by (fastforce simp: sorted_wrt_append)
qed simp

lemma shape_leaf:
  assumes "shape_ok m p d lo S" "(t, L) \<in> set (leaves S)"
  shows "\<exists>n. m t = Some n \<and> below n = Some L"
proof -
  have *: "split_chain m q ps \<Longrightarrow> (t, L) \<in> set ps \<Longrightarrow> \<exists>n. m t = Some n \<and> below n = Some L" for q ps
    by (induction ps arbitrary: q) auto
  show ?thesis using assms * by (induction S arbitrary: p d lo) auto
qed

section \<open>Sizes and heights\<close>

lemma fast_log2_bounds: "0 < n \<Longrightarrow> 2 ^ fast_log2 n \<le> n \<and> n < 2 * 2 ^ fast_log2 n"
proof (induction n rule: fast_log2.induct)
  case (1 n)
  show ?case
  proof (cases "n < 2")
    case True
    then show ?thesis using 1(2) by (simp add: fast_log2.simps [of n])
  next
    case False
    then have "2 ^ fast_log2 (n div 2) \<le> n div 2 \<and> n div 2 < 2 * 2 ^ fast_log2 (n div 2)" using 1(1) by simp
    then show ?thesis using False by (auto simp: fast_log2.simps [of n])
  qed
qed

lemma log2_ceil_le: "0 < n \<Longrightarrow> fast_log2_ceil n \<le> d \<longleftrightarrow> n \<le> 2 ^ d"
proof -
  assume n: "0 < n"
  define k where "k = fast_log2 n"
  have b: "2 ^ k \<le> n" "n < 2 ^ Suc k" using fast_log2_bounds [OF n] by (simp_all add: k_def)
  show ?thesis
  proof (cases "n = 2 ^ k")
    case True
    then have "fast_log2_ceil n = k" by (simp add: fast_log2_ceil_def k_def)
    then show ?thesis using True by simp
  next
    case False
    then have "fast_log2_ceil n = Suc k" using b by (simp add: fast_log2_ceil_def k_def)
    moreover have "n \<le> 2 ^ d \<longleftrightarrow> k < d"
    proof
      assume "n \<le> 2 ^ d"
      then have "(2 :: nat) ^ k < 2 ^ d" using b(1) False by linarith
      then show "k < d" by simp
    next
      assume "k < d"
      then have "(2 :: nat) ^ Suc k \<le> 2 ^ d" by (intro power_increasing) auto
      then show "n \<le> 2 ^ d" using b(2) by linarith
    qed
    ultimately show ?thesis by auto
  qed
qed

lemma nl_dep: "shape_ok m p d lo S \<Longrightarrow> nl S \<le> 2 ^ dep S"
proof (induction S arbitrary: p d lo)
  case (Spl t ps)
  then have "0 < length ps" by auto
  then show ?case using log2_ceil_le [of "length ps" "fast_log2_ceil (length ps)"] by simp
next
  case (Bin t a b)
  then have a: "nl a \<le> 2 ^ dep a" and b: "nl b \<le> 2 ^ dep b" by auto
  have "(2 :: nat) ^ dep a \<le> 2 ^ max (dep a) (dep b)" "(2 :: nat) ^ dep b \<le> 2 ^ max (dep a) (dep b)"
    by (intro power_increasing; simp)+
  then have "nl a + nl b \<le> 2 * 2 ^ max (dep a) (dep b)" using a b by linarith
  then show ?case by simp
qed simp

lemma ceil_half:
  assumes "2 \<le> (n :: nat)"
  shows "fast_log2_ceil (n - n div 2) + 1 \<le> fast_log2_ceil n" "fast_log2_ceil (n div 2) + 1 \<le> fast_log2_ceil n"
proof -
  obtain k where k: "fast_log2_ceil n = Suc k"
    using log2_ceil_le [of n 0] assms by (cases "fast_log2_ceil n") auto
  then have "n \<le> 2 ^ Suc k" using log2_ceil_le [of n "Suc k"] assms by simp
  then have "n - n div 2 \<le> 2 ^ k" "n div 2 \<le> 2 ^ k" by auto
  then show "fast_log2_ceil (n - n div 2) + 1 \<le> fast_log2_ceil n" "fast_log2_ceil (n div 2) + 1 \<le> fast_log2_ceil n"
    using k assms log2_ceil_le [of "n - n div 2" k] log2_ceil_le [of "n div 2" k] by auto
qed

end
