(* ===== verification/OmRebuild.thy ===== *)
theory OmRebuild
  imports OmShape
begin

text \<open>
  Rebuilding: the leaves of a subtree are collected, in order, and spread over the range of
  labels of the subtree; only records of the tree change.
\<close>

section \<open>Operations on the tree records only\<close>

text \<open>From \<open>h\<close> to \<open>h'\<close> only tree nodes in \<open>A\<close> and new ones changed.\<close>

definition tl_only :: "nat set \<Rightarrow> om_heap \<Rightarrow> om_heap \<Rightarrow> bool" where
  "tl_only A h h' \<longleftrightarrow>
     nodes h' = nodes h \<and> lists h' = lists h \<and> fresh h \<le> fresh h' \<and> fresh_ok h' \<and>
     (\<forall>t. t \<notin> A \<union> {fresh h..<fresh h'} \<longrightarrow> tls h' t = tls h t)"

lemma tl_only_refl: "fresh_ok h \<Longrightarrow> tl_only A h h"
  by (simp add: tl_only_def)

lemma tl_only_trans: "tl_only A h h1 \<Longrightarrow> tl_only B h1 h2 \<Longrightarrow> tl_only (A \<union> B) h h2"
  by (auto simp: tl_only_def)

lemma tl_only_mono: "tl_only A h h' \<Longrightarrow> A \<subseteq> B \<union> {fresh h..<fresh h'} \<Longrightarrow> tl_only B h h'"
  unfolding tl_only_def by blast

lemma tl_onlyD:
  assumes "tl_only A h h'"
  shows "nodes h' = nodes h" "lists h' = lists h" "fresh h \<le> fresh h'" "fresh_ok h'"
    "t \<notin> A \<Longrightarrow> t < fresh h \<or> fresh h' \<le> t \<Longrightarrow> tls h' t = tls h t"
  using assms by (auto simp: tl_only_def)

lemma fresh_tl: "fresh_ok h \<Longrightarrow> tls h t = Some n \<Longrightarrow> t < fresh h"
  using fresh_okD [of h t] by (cases "fresh h \<le> t") auto

text \<open>The record at \<open>t\<close> replaced.\<close>

abbreviation put_tl :: "nat \<Rightarrow> tl_node \<Rightarrow> om_heap \<Rightarrow> om_heap" where
  "put_tl t n h \<equiv> h\<lparr>tls := (tls h)(t \<mapsto> n)\<rparr>"

lemma upd_tl_at: "tls h t = Some n \<Longrightarrow> upd_tl (Some t) f h = Some (put_tl t (f n) h)"
  by (simp add: upd_tl_def)

lemma tl_only_put: "fresh_ok h \<Longrightarrow> t < fresh h \<Longrightarrow> tl_only {t} h (put_tl t n h)"
  by (auto simp: tl_only_def fresh_ok_def)

lemma tl_only_new:
  "fresh_ok h \<Longrightarrow> tl_only A h (h\<lparr>fresh := Suc (fresh h), tls := (tls h)(fresh h \<mapsto> n)\<rparr>)"
  by (auto simp: tl_only_def fresh_ok_def)

section \<open>Spreading the leaves\<close>

lemma mid_range:
  assumes "unat llab = lo" "unat (rlab :: label_t) = lo + 2 * w - 1" "0 < w"
    and mlab: "mlab = llab + ((rlab - llab) div 2 + 1) - 1"
  shows "unat mlab = lo + w - 1" "unat (mlab + 1) = lo + w"
proof -
  have lim: "lo + 2 * w \<le> 2 ^ 64" using assms(2,3) label_less_max [of rlab] by linarith
  have le: "llab \<le> rlab" using assms(1-3) by (simp add: word_le_nat_alt)
  have "unat (rlab - llab) = 2 * w - 1" using assms(1-3) by (simp add: unat_sub [OF le])
  then have half: "unat ((rlab - llab) div 2) = w - 1" using assms(3) by (simp add: unat_div_distrib)
  have "mlab = llab + (rlab - llab) div 2" using mlab by simp
  moreover have "unat (llab + (rlab - llab) div 2) = lo + (w - 1)"
    using half assms(1,3) lim by (subst unat_add_small) auto
  ultimately show m: "unat mlab = lo + w - 1" using assms(3) by simp
  show "unat (mlab + 1) = lo + w" using m assms(3) lim by (subst unat_add_small) auto
qed

text \<open>The records of the leaves to be placed.\<close>

definition leaves_at :: "(nat \<rightharpoonup> tl_node) \<Rightarrow> (nat \<times> nat) list \<Rightarrow> bool" where
  "leaves_at m ts \<longleftrightarrow> distinct (map fst ts) \<and> (\<forall>x \<in> set ts. \<exists>n. m (fst x) = Some n \<and> below n = Some (snd x))"

lemma leaves_at_cong:
  "leaves_at m ts \<Longrightarrow> (\<And>x. x \<in> set ts \<Longrightarrow> m' (fst x) = m (fst x)) \<Longrightarrow> leaves_at m' ts"
  by (simp add: leaves_at_def)

lemma leaves_at_fresh: "leaves_at (tls h) ts \<Longrightarrow> fresh_ok h \<Longrightarrow> x \<in> set ts \<Longrightarrow> fst x < fresh h"
  unfolding leaves_at_def by (blast intro: fresh_tl)

lemma leaves_at_append [simp]:
  "leaves_at m (xs @ ys) \<longleftrightarrow> leaves_at m xs \<and> leaves_at m ys \<and> fst ` set xs \<inter> fst ` set ys = {}"
  by (auto simp: leaves_at_def)

lemma rebuild_one:
  assumes "tls h t = Some n" "below n = Some L" "arr ! i = Some t" "i < length arr" "unat llab = lo" "fresh_ok h"
  shows "\<exists>h'. rebuild_recursive h par arr i (Suc i) llab rlab = Some (Some t, h') \<and>
    shape_ok (tls h') par d lo (Tip t L) \<and> flags_ok (tls h') (Tip t L) \<and> tl_only {t} h h'"
  using assms fresh_tl [OF assms(6,1)]
  by (subst rebuild_recursive.simps) (auto simp: get_array_def upd_tl_def flag_def tl_only_def fresh_ok_def)

text \<open>What placing the leaves \<open>ts\<close> below a node promises.\<close>

definition spreads :: "(nat \<times> nat) list \<Rightarrow> bool" where
  "spreads ts \<longleftrightarrow>
     (\<forall>h par pre post d llab lo rlab. leaves_at (tls h) ts \<and> length ts \<le> width d \<and> d \<le> 64 \<and>
        unat llab = lo \<and> unat rlab = lo + width d - 1 \<and> fresh_ok h \<and>
        (2 \<le> length ts \<longrightarrow> (\<exists>q n. par = Some q \<and> tls h q = Some n \<and> level n + 1 = d)) \<longrightarrow>
      (\<exists>S h'. rebuild_recursive h par (pre @ map (Some \<circ> fst) ts @ post) (length pre)
           (length pre + length ts) llab rlab = Some (Some (rt S), h') \<and>
         shape_ok (tls h') par d lo S \<and> flags_ok (tls h') S \<and> \<not> pend S \<and> leaves S = ts \<and>
         dep S \<le> fast_log2_ceil (length ts) \<and> distinct (taddrs S) \<and>
         set (taddrs S) \<subseteq> fst ` set ts \<union> {fresh h..<fresh h'} \<and> tl_only (fst ` set ts) h h'))"

lemma spreadsD:
  assumes "spreads ts" "leaves_at (tls h) ts" "length ts \<le> width d" "d \<le> 64" "unat llab = lo"
    "unat rlab = lo + width d - 1" "fresh_ok h"
    "2 \<le> length ts \<Longrightarrow> \<exists>q n. par = Some q \<and> tls h q = Some n \<and> level n + 1 = d"
  shows "\<exists>S h'. rebuild_recursive h par (pre @ map (Some \<circ> fst) ts @ post) (length pre) (length pre + length ts)
        llab rlab = Some (Some (rt S), h') \<and>
      shape_ok (tls h') par d lo S \<and> flags_ok (tls h') S \<and> \<not> pend S \<and> leaves S = ts \<and>
      dep S \<le> fast_log2_ceil (length ts) \<and> distinct (taddrs S) \<and>
      set (taddrs S) \<subseteq> fst ` set ts \<union> {fresh h..<fresh h'} \<and> tl_only (fst ` set ts) h h'"
  using assms unfolding spreads_def by blast

text \<open>The two halves of the leaves, placed one after the other below the node at \<open>f\<close>.\<close>

lemma spread_two:
  assumes sp: "spreads (take (length ts - length ts div 2) ts)" "spreads (drop (length ts - length ts div 2) ts)"
    and two: "2 \<le> length ts" and lv: "leaves_at (tls h) ts" and w: "length ts \<le> width d" and "d \<le> 64"
    and ll: "unat llab = lo" and rl: "unat rlab = lo + width d - 1" and fr: "fresh_ok h"
    and f: "tls h f = Some n0" "level n0 = d" "f \<notin> fst ` set ts"
    and mlab: "mlab = llab + ((rlab - llab) div 2 + 1) - 1"
    and arr: "arr = pre @ map (Some \<circ> fst) ts @ post" and k: "k = length ts - length ts div 2"
  shows "\<exists>A B h2 h4. rebuild_recursive h (Some f) arr (length pre) (length pre + k) llab mlab = Some (Some (rt A), h2) \<and>
    tls h2 f = Some n0 \<and>
    rebuild_recursive (put_tl f (n0\<lparr>left := Some (rt A)\<rparr>) h2) (Some f) arr (length pre + k)
      (length pre + length ts) (mlab + 1) rlab = Some (Some (rt B), h4) \<and>
    tls h4 f = Some (n0\<lparr>left := Some (rt A)\<rparr>) \<and>
    leaves (Bin f A B) = ts \<and> dep (Bin f A B) \<le> fast_log2_ceil (length ts) \<and> \<not> pend (Bin f A B) \<and>
    distinct (taddrs (Bin f A B)) \<and> set (taddrs (Bin f A B)) \<subseteq> insert f (fst ` set ts) \<union> {fresh h..<fresh h4} \<and>
    (\<forall>n5 p. left n5 = Some (rt A) \<and> right n5 = Some (rt B) \<and> level n5 = d \<and> num_leaves n5 = length ts \<and>
      tl_label n5 = rlab \<and> parent n5 = p \<and> \<not> needs_rebalance n5 \<longrightarrow>
      shape_ok (tls (put_tl f n5 h4)) p d lo (Bin f A B) \<and> flags_ok (tls (put_tl f n5 h4)) (Bin f A B) \<and>
      tl_only (insert f (fst ` set ts)) h (put_tl f n5 h4))"
proof -
  let ?n = "length ts"
  have ff: "f < fresh h" by (rule fresh_tl [OF fr f(1)])
  have d: "d < 64" using w two \<open>d \<le> 64\<close> by (cases "d = 64") (auto simp: width_def)
  then have d': "Suc d \<le> 64" by simp
  define tl1 where "tl1 = take k ts"
  define tl2 where "tl2 = drop k ts"
  have ts: "ts = tl1 @ tl2" and l1: "length tl1 = k" and l2: "length tl2 = ?n div 2"
    by (simp_all add: tl1_def tl2_def k)
  have sp1: "spreads tl1" and sp2: "spreads tl2" using sp by (simp_all add: tl1_def tl2_def k)
  have ws: "length tl1 \<le> width (Suc d)" "length tl2 \<le> width (Suc d)"
    using w l1 l2 k width_Suc [OF d] by auto
  have ml: "unat mlab = lo + width (Suc d) - 1" "unat (mlab + 1) = lo + width (Suc d)"
    using mid_range [OF ll _ width_pos mlab] rl width_Suc [OF d] by metis+
  have rl': "unat rlab = lo + width (Suc d) + width (Suc d) - 1" using rl width_Suc [OF d] by simp
  have arr1: "arr = pre @ map (Some \<circ> fst) tl1 @ (map (Some \<circ> fst) tl2 @ post)" by (simp add: ts arr)
  have arr2: "arr = (pre @ map (Some \<circ> fst) tl1) @ map (Some \<circ> fst) tl2 @ post" by (simp add: ts arr)
  have lv1: "leaves_at (tls h) tl1" and lv2: "leaves_at (tls h) tl2"
    and disj: "fst ` set tl1 \<inter> fst ` set tl2 = {}" using lv by (simp_all add: ts)
  have tsf: "x < fresh h" if "x \<in> fst ` set ts" for x using that leaves_at_fresh [OF lv fr] by auto
  have par1: "\<exists>q n. Some f = Some q \<and> tls h q = Some n \<and> level n + 1 = Suc d" using f by simp
  note S1 = spreadsD [OF sp1 lv1 ws(1) d' ll ml(1) fr par1, of pre "map (Some \<circ> fst) tl2 @ post"]
  obtain A h2 where A: "rebuild_recursive h (Some f) arr (length pre) (length pre + k) llab mlab = Some (Some (rt A), h2)"
    "shape_ok (tls h2) (Some f) (Suc d) lo A" "flags_ok (tls h2) A" "\<not> pend A" "leaves A = tl1"
    "dep A \<le> fast_log2_ceil k" "distinct (taddrs A)"
    "set (taddrs A) \<subseteq> fst ` set tl1 \<union> {fresh h..<fresh h2}" "tl_only (fst ` set tl1) h h2"
    using S1 unfolding arr1 [symmetric] l1 by (elim exE conjE) (rule that)
  have f2: "fresh h \<le> fresh h2" using tl_onlyD(3) [OF A(9)] .
  have n2: "tls h2 f = Some n0" using tl_onlyD(5) [OF A(9), of f] f ff by (auto simp: ts)
  define n2 where "n2 = n0\<lparr>left := Some (rt A)\<rparr>"
  define h3 where "h3 = put_tl f n2 h2"
  have o3: "tl_only {f} h2 h3"
    unfolding h3_def by (rule tl_only_put) (use tl_onlyD(4) [OF A(9)] f2 ff in auto)
  have lv3: "leaves_at (tls h3) tl2"
  proof (rule leaves_at_cong [OF lv2])
    fix x assume x: "x \<in> set tl2"
    then have "fst x < fresh h" "fst x \<noteq> f" using tsf f(3) by (auto simp: ts)
    then show "tls h3 (fst x) = tls h (fst x)"
      using tl_onlyD(5) [OF A(9), of "fst x"] x disj by (auto simp: h3_def)
  qed
  have par3: "\<exists>q n. Some f = Some q \<and> tls h3 q = Some n \<and> level n + 1 = Suc d"
    using f(2) by (simp add: h3_def n2_def)
  have len2: "length (pre @ map (Some \<circ> fst) tl1) = length pre + k" "length pre + k + ?n div 2 = length pre + ?n"
    using l1 k by simp_all
  note S2 = spreadsD [OF sp2 lv3 ws(2) d' ml(2) rl' tl_onlyD(4) [OF o3] par3, of "pre @ map (Some \<circ> fst) tl1" post]
  obtain B h4 where B:
    "rebuild_recursive h3 (Some f) arr (length pre + k) (length pre + ?n) (mlab + 1) rlab = Some (Some (rt B), h4)"
    "shape_ok (tls h4) (Some f) (Suc d) (lo + width (Suc d)) B" "flags_ok (tls h4) B" "\<not> pend B"
    "leaves B = tl2" "dep B \<le> fast_log2_ceil (?n div 2)" "distinct (taddrs B)"
    "set (taddrs B) \<subseteq> fst ` set tl2 \<union> {fresh h3..<fresh h4}" "tl_only (fst ` set tl2) h3 h4"
    using S2 unfolding arr2 [symmetric] l2 len2 by (elim exE conjE) (rule that)
  have n4: "tls h4 f = Some n2"
    using tl_onlyD(5) [OF B(9), of f] f2 ff f(3) by (auto simp: h3_def ts)
  have f34: "fresh h3 = fresh h2" "fresh h3 \<le> fresh h4" using tl_onlyD(3) [OF B(9)] by (simp_all add: h3_def)
  have Ap: "x \<noteq> f \<and> x < fresh h2 \<and> x \<notin> fst ` set tl2" if x: "x \<in> set (taddrs A)" for x
  proof -
    consider "x \<in> fst ` set tl1" | "fresh h \<le> x" "x < fresh h2"
      using subsetD [OF A(8) x] by (metis UnE atLeastLessThan_iff)
    then show ?thesis
    proof cases
      case 1
      then have "x \<in> fst ` set ts" "x \<notin> fst ` set tl2" using disj by (auto simp only: ts set_append image_Un)
      then show ?thesis using tsf [of x] f2 f(3) by auto
    next
      case 2
      then show ?thesis using tsf [of x] ts ff by force
    qed
  qed
  have Bp: "x \<noteq> f \<and> (x \<in> fst ` set tl2 \<or> fresh h2 \<le> x)" if x: "x \<in> set (taddrs B)" for x
  proof -
    consider "x \<in> fst ` set tl2" | "fresh h2 \<le> x"
      using subsetD [OF B(8) x] f34(1) by (metis UnE atLeastLessThan_iff)
    moreover have "x \<noteq> f" if "x \<in> fst ` set tl2" using that f(3) ts by force
    ultimately show ?thesis using f2 ff by cases auto
  qed
  let ?S = "Bin f A B"
  have last: "shape_ok (tls (put_tl f n5 h4)) p d lo ?S \<and> flags_ok (tls (put_tl f n5 h4)) ?S \<and>
      tl_only (insert f (fst ` set ts)) h (put_tl f n5 h4)"
    if n5: "left n5 = Some (rt A)" "right n5 = Some (rt B)" "level n5 = d" "num_leaves n5 = ?n" "tl_label n5 = rlab"
      "parent n5 = p" "\<not> needs_rebalance n5" for n5 p
  proof -
    define h5 where "h5 = put_tl f n5 h4"
    have o5: "tl_only {f} h4 h5"
      unfolding h5_def by (rule tl_only_put) (use tl_onlyD(4) [OF B(9)] f34 f2 ff in auto)
    have A5: "tls h5 x = tls h2 x" if "x \<in> set (taddrs A)" for x
      using tl_onlyD(5) [OF B(9), of x] Ap [OF that] f34 by (simp add: h5_def h3_def)
    have B5: "tls h5 x = tls h4 x" if "x \<in> set (taddrs B)" for x
      using Bp [OF that] by (simp add: h5_def)
    have "shape_ok (tls h5) p d lo ?S"
      using shape_cong(1) [of A "tls h5" "tls h2", OF A5] shape_cong(1) [of B "tls h5" "tls h4", OF B5]
        A(2,5) B(2,5) d rl ts n5
      by (auto simp: h5_def)
    moreover have "flags_ok (tls h5) ?S"
      using shape_cong(2) [of A "tls h5" "tls h2", OF A5] shape_cong(2) [of B "tls h5" "tls h4", OF B5]
        A(3,4) B(3,4) n5
      by (auto simp: h5_def flag_def)
    moreover have "tl_only (insert f (fst ` set ts)) h h5"
      by (rule tl_only_mono [OF tl_only_trans [OF tl_only_trans [OF tl_only_trans [OF A(9) o3] B(9)] o5]])
        (auto simp: ts)
    ultimately show ?thesis by (simp add: h5_def)
  qed
  have "distinct (taddrs ?S)" using A(7) B(7) Ap Bp by fastforce
  moreover have "set (taddrs ?S) \<subseteq> insert f (fst ` set ts) \<union> {fresh h..<fresh h4}"
    using A(8) B(8) f2 f34 by (auto simp: ts)
  moreover have "dep ?S \<le> fast_log2_ceil ?n" using A(6) B(6) ceil_half [OF two] k by auto
  moreover have "leaves ?S = ts" "\<not> pend ?S" using A(4,5) B(4,5) ts by simp_all
  moreover have "\<forall>n5 p. left n5 = Some (rt A) \<and> right n5 = Some (rt B) \<and> level n5 = d \<and> num_leaves n5 = ?n \<and>
      tl_label n5 = rlab \<and> parent n5 = p \<and> \<not> needs_rebalance n5 \<longrightarrow>
      shape_ok (tls (put_tl f n5 h4)) p d lo ?S \<and> flags_ok (tls (put_tl f n5 h4)) ?S \<and>
      tl_only (insert f (fst ` set ts)) h (put_tl f n5 h4)"
    using last by blast
  ultimately show ?thesis
    using A(1) B(1) n2 n4 unfolding h3_def n2_def by blast
qed

lemma rebuild_recursive_ok: "ts \<noteq> [] \<Longrightarrow> spreads ts"
proof (induction "length ts" arbitrary: ts rule: less_induct)
  case less
  show ?case
    unfolding spreads_def
  proof (intro allI impI, elim conjE)
    fix h par pre post d lo and llab rlab :: label_t
    let ?arr = "pre @ map (Some \<circ> fst) ts @ post"
    let ?i = "length pre" and ?n = "length ts"
    assume lv: "leaves_at (tls h) ts" and w: "?n \<le> width d" and d: "d \<le> 64" and ll: "unat llab = lo"
      and rl: "unat rlab = lo + width d - 1" and fr: "fresh_ok h"
      and par: "2 \<le> ?n \<longrightarrow> (\<exists>q n. par = Some q \<and> tls h q = Some n \<and> level n + 1 = d)"
    show "\<exists>S h'. rebuild_recursive h par ?arr ?i (?i + ?n) llab rlab = Some (Some (rt S), h') \<and>
       shape_ok (tls h') par d lo S \<and> flags_ok (tls h') S \<and> \<not> pend S \<and> leaves S = ts \<and>
       dep S \<le> fast_log2_ceil ?n \<and> distinct (taddrs S) \<and>
       set (taddrs S) \<subseteq> fst ` set ts \<union> {fresh h..<fresh h'} \<and> tl_only (fst ` set ts) h h'"
    proof (cases "?n = 1")
      case True
      then obtain t L where ts: "ts = [(t, L)]" by (metis One_nat_def length_Suc_conv length_0_conv surj_pair)
      obtain n where n: "tls h t = Some n" "below n = Some L" using lv by (auto simp: leaves_at_def ts)
      obtain h' where h': "rebuild_recursive h par ?arr ?i (Suc ?i) llab rlab = Some (Some t, h')"
        "shape_ok (tls h') par d lo (Tip t L)" "flags_ok (tls h') (Tip t L)" "tl_only {t} h h'"
        using rebuild_one [OF n, of ?arr ?i llab lo par rlab d] ll fr by (auto simp: ts)
      show ?thesis by (intro exI [of _ "Tip t L"] exI [of _ h']) (use h' in \<open>simp add: ts\<close>)
    next
      case False
      with less.prems(1) have two: "2 \<le> ?n" by (cases ts rule: remdups_adj.cases) auto
      obtain q np where q: "par = Some q" "tls h q = Some np" "level np + 1 = d" using par two by blast
      let ?f = "fresh h"
      have qf: "q < ?f" by (rule fresh_tl [OF fr q(2)])
      define mlab where "mlab = llab + ((rlab - llab) div 2 + 1) - 1"
      define n0 where "n0 = \<lparr>tl_label = 0, level = d, num_leaves = 0, parent = par, left = NULL, right = NULL,
        below = NULL, needs_rebalance = False\<rparr>"
      define h1 where "h1 = h\<lparr>fresh := Suc ?f, tls := (tls h)(?f \<mapsto> n0)\<rparr>"
      have o1: "tl_only {} h h1" unfolding h1_def by (rule tl_only_new [OF fr])
      have tsf: "x \<in> set ts \<Longrightarrow> fst x < ?f" for x by (rule leaves_at_fresh [OF lv fr])
      have lv1: "leaves_at (tls h1) ts" by (rule leaves_at_cong [OF lv]) (use tsf in \<open>force simp: h1_def\<close>)
      define k where "k = ?n - ?n div 2"
      have k0: "length (take (?n - ?n div 2) ts) < ?n" "take (?n - ?n div 2) ts \<noteq> []"
        "length (drop (?n - ?n div 2) ts) < ?n" "drop (?n - ?n div 2) ts \<noteq> []" using two by auto
      have n1: "tls h1 ?f = Some n0" "level n0 = d" "?f \<notin> fst ` set ts"
        using tsf less_irrefl by (auto simp: h1_def n0_def simp del: image_iff) (metis fst_conv less_irrefl)
      obtain A B h2 h4 where AB:
        "rebuild_recursive h1 (Some ?f) ?arr ?i (?i + k) llab mlab = Some (Some (rt A), h2)"
        "tls h2 ?f = Some n0"
        "rebuild_recursive (put_tl ?f (n0\<lparr>left := Some (rt A)\<rparr>) h2) (Some ?f) ?arr (?i + k) (?i + ?n) (mlab + 1) rlab =
          Some (Some (rt B), h4)"
        "tls h4 ?f = Some (n0\<lparr>left := Some (rt A)\<rparr>)"
        "leaves (Bin ?f A B) = ts" "dep (Bin ?f A B) \<le> fast_log2_ceil ?n" "\<not> pend (Bin ?f A B)"
        "distinct (taddrs (Bin ?f A B))" "set (taddrs (Bin ?f A B)) \<subseteq> insert ?f (fst ` set ts) \<union> {fresh h1..<fresh h4}"
        "\<forall>n5 p. left n5 = Some (rt A) \<and> right n5 = Some (rt B) \<and> level n5 = d \<and> num_leaves n5 = ?n \<and>
          tl_label n5 = rlab \<and> parent n5 = p \<and> \<not> needs_rebalance n5 \<longrightarrow>
          shape_ok (tls (put_tl ?f n5 h4)) p d lo (Bin ?f A B) \<and> flags_ok (tls (put_tl ?f n5 h4)) (Bin ?f A B) \<and>
          tl_only (insert ?f (fst ` set ts)) h1 (put_tl ?f n5 h4)"
        using spread_two [OF less.hyps [OF k0(1,2)] less.hyps [OF k0(3,4)] two lv1 w d ll rl tl_onlyD(4) [OF o1]
            n1 mlab_def refl k_def, of pre post]
        by (elim exE conjE) (rule that)
      define n5 where "n5 = n0\<lparr>left := Some (rt A), right := Some (rt B), tl_label := rlab, num_leaves := ?n\<rparr>"
      have "shape_ok (tls (put_tl ?f n5 h4)) par d lo (Bin ?f A B) \<and>
        flags_ok (tls (put_tl ?f n5 h4)) (Bin ?f A B) \<and> tl_only (insert ?f (fst ` set ts)) h1 (put_tl ?f n5 h4)"
        by (rule AB(10) [rule_format]) (simp add: n5_def n0_def)
      then have fin: "shape_ok (tls (put_tl ?f n5 h4)) par d lo (Bin ?f A B)"
        "flags_ok (tls (put_tl ?f n5 h4)) (Bin ?f A B)"
        "tl_only (insert ?f (fst ` set ts)) h1 (put_tl ?f n5 h4)" by blast+
      have f4: "Suc ?f \<le> fresh h4" using tl_onlyD(3) [OF fin(3)] by (simp add: h1_def)
      have "rebuild_recursive h par ?arr ?i (?i + ?n) llab rlab = Some (Some ?f, put_tl ?f n5 h4)"
        using False q qf AB(1-4) unfolding k_def
        by (subst rebuild_recursive.simps)
          (simp add: new_tl_def upd_tl_def h1_def n0_def n5_def mlab_def [symmetric] Let_def)
      moreover have "tl_only (fst ` set ts) h (put_tl ?f n5 h4)"
        by (rule tl_only_mono [OF tl_only_trans [OF o1 fin(3)]]) (use f4 in auto)
      moreover have "set (taddrs (Bin ?f A B)) \<subseteq> fst ` set ts \<union> {?f..<fresh (put_tl ?f n5 h4)}"
        by (rule subset_trans [OF AB(9)]) (use f4 in \<open>auto simp: h1_def\<close>)
      ultimately show ?thesis
        using fin(1,2) AB(5-8) by (intro exI [of _ "Bin ?f A B"] exI [of _ "put_tl ?f n5 h4"]) simp
    qed
  qed
qed

section \<open>Collecting the leaves\<close>

lemma set_array_at: "length pre = i \<Longrightarrow> set_array (pre @ x # post) i y = Some (pre @ y # post)"
  by (auto simp: set_array_def)

text \<open>The parts of a split leaf keep their sublists.\<close>

definition keeps_below :: "om_heap \<Rightarrow> om_heap \<Rightarrow> bool" where
  "keeps_below h h' \<longleftrightarrow> (\<forall>t n. tls h t = Some n \<longrightarrow> (\<exists>n'. tls h' t = Some n' \<and> below n' = below n))"

lemma keeps_below_trans: "keeps_below h h1 \<Longrightarrow> keeps_below h1 h2 \<Longrightarrow> keeps_below h h2"
  by (fastforce simp: keeps_below_def)

lemma keeps_below_put: "tls h t = Some n \<Longrightarrow> below n' = below n \<Longrightarrow> keeps_below h (put_tl t n' h)"
  by (auto simp: keeps_below_def)

lemma split_chain_below: "split_chain m p ps \<Longrightarrow> x \<in> set ps \<Longrightarrow> \<exists>n. m (fst x) = Some n \<and> below n = Some (snd x)"
  by (induction ps arbitrary: p) auto

lemma collect_split_ok:
  assumes "split_chain (tls h) p ps" "distinct (map fst ps)" "length mid = length ps" "fresh_ok h"
    "\<And>q. p = Some q \<Longrightarrow> q \<notin> fst ` set ps \<and> tls h q \<noteq> None" "i = length pre"
  shows "\<exists>h'. collect_split h (pre @ mid @ post) i (hd_ptr (map fst ps)) =
      Some (pre @ map (Some \<circ> fst) ps @ post, h') \<and>
    keeps_below h h' \<and> tl_only (fst ` set ps \<union> set_option p) h h' \<and> fresh h' = fresh h"
  using assms
proof (induction ps arbitrary: h p mid pre i)
  case Nil
  then show ?case by (subst collect_split.simps) (simp add: keeps_below_def tl_only_refl)
next
  case (Cons x ps)
  obtain t L where x: "x = (t, L)" by fastforce
  obtain y mid' where mid: "mid = y # mid'" "length mid' = length ps" using Cons.prems(3) by (cases mid) auto
  obtain n where n: "tls h t = Some n" "left n = p" "right n = hd_ptr (map fst ps)" "below n = Some L"
    and ch: "split_chain (tls h) (Some t) ps" using Cons.prems(1) x by auto
  have tf: "t < fresh h" by (rule fresh_tl [OF Cons.prems(4) n(1)])
  have tps: "t \<notin> fst ` set ps" using Cons.prems(2) x by auto
  have "\<exists>h1. (if left n \<noteq> NULL then upd_tl (left n) (\<lambda>x. x\<lparr>right := NULL\<rparr>) h else Some h) = Some h1 \<and>
    keeps_below h h1 \<and> tl_only (set_option p) h h1 \<and> fresh h1 = fresh h \<and> tls h1 t = Some n"
  proof (cases p)
    case None
    then show ?thesis using n Cons.prems(4) by (simp add: keeps_below_def tl_only_refl)
  next
    case (Some q)
    then obtain nq where q: "tls h q = Some nq" "q \<noteq> t" using Cons.prems(5) x by auto
    show ?thesis
      using Some n q upd_tl_at [OF q(1)] tl_only_put [OF Cons.prems(4) fresh_tl [OF Cons.prems(4) q(1)]]
      by (auto intro: keeps_below_put)
  qed
  then obtain h1 where h1: "(if left n \<noteq> NULL then upd_tl (left n) (\<lambda>x. x\<lparr>right := NULL\<rparr>) h else Some h) = Some h1"
    "keeps_below h h1" "tl_only (set_option p) h h1" "fresh h1 = fresh h" "tls h1 t = Some n" by blast
  define h2 where "h2 = put_tl t (n\<lparr>left := NULL\<rparr>) h1"
  have o2: "tl_only {t} h1 h2" unfolding h2_def
    by (rule tl_only_put) (use tl_onlyD(4) [OF h1(3)] h1(4) tf in auto)
  have k2: "keeps_below h1 h2" unfolding h2_def by (rule keeps_below_put [OF h1(5)]) simp
  have p: "q \<notin> fst ` set ps" if "p = Some q" for q using Cons.prems(5) [OF that] by auto
  have ch2: "split_chain (tls h2) (Some t) ps"
  proof (subst split_chain_cong [where m = "tls h"])
    fix s assume s: "s \<in> fst ` set ps"
    have "s < fresh h" using s split_chain_below [OF ch] fresh_tl [OF Cons.prems(4)] by auto
    then show "tls h2 s = tls h s"
      using tl_onlyD(5) [OF h1(3), of s] p s tps by (cases p) (auto simp: h2_def)
  qed (rule ch)
  have f2: "fresh h2 = fresh h" using h1(4) by (simp add: h2_def)
  have ex: "\<exists>h'. collect_split h2 ((pre @ [Some t]) @ mid' @ post) (i + 1) (hd_ptr (map fst ps)) =
      Some ((pre @ [Some t]) @ map (Some \<circ> fst) ps @ post, h') \<and>
    keeps_below h2 h' \<and> tl_only (fst ` set ps \<union> set_option (Some t)) h2 h' \<and> fresh h' = fresh h2"
    by (rule Cons.IH [OF ch2 _ mid(2) tl_onlyD(4) [OF o2]])
      (use Cons.prems(2,6) tps in \<open>auto simp: x h2_def\<close>)
  then obtain h' where h': "collect_split h2 ((pre @ [Some t]) @ mid' @ post) (i + 1) (hd_ptr (map fst ps)) =
      Some ((pre @ [Some t]) @ map (Some \<circ> fst) ps @ post, h')"
    "keeps_below h2 h'" "tl_only (fst ` set ps \<union> set_option (Some t)) h2 h'" "fresh h' = fresh h2" by blast
  have "collect_split h (pre @ mid @ post) i (hd_ptr (map fst (x # ps))) =
      Some (pre @ map (Some \<circ> fst) (x # ps) @ post, h')"
    using h'(1) h1(1,5) n set_array_at [OF Cons.prems(6) [symmetric], of y "mid' @ post" "Some t"]
    by (subst collect_split.simps) (simp add: mid x upd_tl_at h2_def del: hd_ptr_simps(1))
  moreover have "keeps_below h h'" by (rule keeps_below_trans [OF keeps_below_trans [OF h1(2) k2] h'(2)])
  moreover have "tl_only (fst ` set (x # ps) \<union> set_option p) h h'"
    by (rule tl_only_mono [OF tl_only_trans [OF tl_only_trans [OF h1(3) o2] h'(3)]]) (auto simp: x)
  ultimately show ?case using h'(4) f2 by (intro exI [of _ h']) simp
qed

text \<open>No leaf with a sublist is marked: it would be freed.\<close>

fun tips_ok :: "(nat \<rightharpoonup> tl_node) \<Rightarrow> shape \<Rightarrow> bool" where
  "tips_ok m (Tip t L) \<longleftrightarrow> \<not> flag m t"
| "tips_ok m (Spl t ps) \<longleftrightarrow> True"
| "tips_ok m (Bin t a b) \<longleftrightarrow> tips_ok m a \<and> tips_ok m b"

lemma flags_tips: "flags_ok m S \<Longrightarrow> tips_ok m S"
  by (induction S) auto

lemma tips_cong: "(\<And>t. t \<in> set (taddrs S) \<Longrightarrow> m' t = m t) \<Longrightarrow> tips_ok m' S = tips_ok m S"
  by (induction S) (auto simp: flag_def)

lemma leaves_at_shape:
  assumes "shape_ok m p d lo S" "distinct (taddrs S)"
  shows "leaves_at m (leaves S)"
  using assms
proof (induction S arbitrary: p d lo)
  case (Spl t ps)
  then show ?case using split_chain_below [of m NULL ps] by (auto simp: leaves_at_def)
next
  case (Bin t a b)
  then have "leaves_at m (leaves a)" "leaves_at m (leaves b)" by auto
  moreover have "fst ` set (leaves a) \<inter> fst ` set (leaves b) = {}"
    using Bin.prems(2) leaves_taddrs by fastforce
  ultimately show ?case by simp
qed (auto simp: leaves_at_def)

definition freed :: "bool \<Rightarrow> nat \<Rightarrow> om_heap \<Rightarrow> om_heap" where
  "freed b t h = (if b then h\<lparr>tls := (tls h)(t := None)\<rparr> else h)"

lemma tl_only_freed: "fresh_ok h \<Longrightarrow> t < fresh h \<Longrightarrow> tl_only {t} h (freed b t h)"
  by (auto simp: tl_only_def fresh_ok_def freed_def)

lemma build_array_ok:
  assumes "shape_ok (tls h) p d lo S" "tips_ok (tls h) S" "distinct (taddrs S)" "fresh_ok h" "length mid = nl S"
    "i = length pre"
  shows "\<exists>h'. build_array_of_leaves h (Some (rt S)) (pre @ mid @ post) i r =
      Some (pre @ map (Some \<circ> fst) (leaves S) @ post, h') \<and>
    leaves_at (tls h') (leaves S) \<and> tl_only (set (taddrs S)) h h' \<and> fresh h' = fresh h \<and>
    (\<not> flag (tls h) (rt S) \<longrightarrow>
      tls h' (rt S) = map_option (\<lambda>n. n\<lparr>left := NULL, right := NULL\<rparr>) (tls h (rt S)))"
  using assms
proof (induction S arbitrary: h p d lo mid pre post i r)
  case (Tip t L)
  then obtain y where y: "mid = [y]" by (cases mid) auto
  obtain n where n: "tls h t = Some n" "num_leaves n = 1" "is_leaf n" "\<not> needs_rebalance n" "below n = Some L"
    "left n = NULL" "right n = NULL"
    using Tip.prems(1,2) by (auto simp: is_leaf_def flag_def)
  have nn: "n = n\<lparr>left := NULL, right := NULL\<rparr>" using n(6,7) by (cases n) simp
  show ?case
    using n(1-5) nn set_array_at [OF Tip.prems(6) [symmetric], of y post "Some t"] Tip.prems(4)
    by (subst build_array_of_leaves.simps) (simp add: y leaves_at_def tl_only_refl)
next
  case (Spl t ps)
  obtain n where n: "tls h t = Some n" "num_leaves n = length ps" "is_leaf n" "left n = NULL" "right n = NULL"
    "below n = hd_ptr (map fst ps)" "num_leaves n \<noteq> 1"
    using Spl.prems(1) by (auto simp: is_leaf_def)
  have nn: "n = n\<lparr>left := NULL, right := NULL\<rparr>" using n(4,5) by (cases n) simp
  have ch: "split_chain (tls h) NULL ps" and tps: "t \<notin> fst ` set ps" using Spl.prems(1,3) by auto
  have tf: "t < fresh h" by (rule fresh_tl [OF Spl.prems(4) n(1)])
  obtain h' where h': "collect_split h (pre @ mid @ post) i (hd_ptr (map fst ps)) =
      Some (pre @ map (Some \<circ> fst) ps @ post, h')"
    "keeps_below h h'" "tl_only (fst ` set ps \<union> set_option NULL) h h'" "fresh h' = fresh h"
    using collect_split_ok [OF ch _ _ Spl.prems(4), of mid i pre post] Spl.prems(3,5,6) by auto
  have tn: "tls h' t = Some n" using tl_onlyD(5) [OF h'(3), of t] tps tf n(1) by simp
  let ?h = "freed (needs_rebalance n) t h'"
  have "leaves_at (tls ?h) ps"
    unfolding leaves_at_def
  proof (intro conjI ballI)
    fix x assume x: "x \<in> set ps"
    obtain nx where "tls h (fst x) = Some nx" "below nx = Some (snd x)" using split_chain_below [OF ch x] by blast
    then have "\<exists>n'. tls h' (fst x) = Some n' \<and> below n' = Some (snd x)" using h'(2) by (fastforce simp: keeps_below_def)
    moreover have "fst x \<noteq> t" using x tps by auto
    ultimately show "\<exists>n'. tls ?h (fst x) = Some n' \<and> below n' = Some (snd x)" by (simp add: freed_def)
  qed (use Spl.prems(3) in simp)
  moreover have "tl_only (set (taddrs (Spl t ps))) h ?h"
    by (rule tl_only_mono [OF tl_only_trans [OF h'(3) tl_only_freed [where t = t]]])
      (use tl_onlyD(4) [OF h'(3)] h'(4) tf in auto)
  moreover have "build_array_of_leaves h (Some (rt (Spl t ps))) (pre @ mid @ post) i r =
      Some (pre @ map (Some \<circ> fst) (leaves (Spl t ps)) @ post, ?h)"
    using n h'(1) tn by (subst build_array_of_leaves.simps) (auto simp: free_tl_def freed_def)
  ultimately show ?case
    using n(1) nn tn h'(4) by (intro exI [of _ ?h]) (simp add: flag_def freed_def)
next
  case (Bin t a b)
  obtain n where n: "tls h t = Some n" "num_leaves n = nl a + nl b" "left n = Some (rt a)" "right n = Some (rt b)"
    "\<not> is_leaf n"
    using Bin.prems(1) by (auto simp: is_leaf_def MAX_LEVEL_def)
  have a: "shape_ok (tls h) (Some t) (Suc d) lo a" and b: "shape_ok (tls h) (Some t) (Suc d) (lo + width (Suc d)) b"
    using Bin.prems(1) by auto
  have tips: "tips_ok (tls h) a" "tips_ok (tls h) b" using Bin.prems(2) by auto
  have dist: "distinct (taddrs a)" "distinct (taddrs b)" "set (taddrs a) \<inter> set (taddrs b) = {}"
    "t \<notin> set (taddrs a)" "t \<notin> set (taddrs b)" using Bin.prems(3) by auto
  have tf: "t < fresh h" by (rule fresh_tl [OF Bin.prems(4) n(1)])
  obtain ra where ra: "tls h (rt a) = Some ra" "num_leaves ra = nl a" using shape_root [OF a] by blast
  define m1 where "m1 = take (nl a) mid"
  define m2 where "m2 = drop (nl a) mid"
  have mid: "mid = m1 @ m2" "length m1 = nl a" "length m2 = nl b"
    using Bin.prems(5) by (simp_all add: m1_def m2_def)
  let ?j = "i + nl a"
  let ?pa = "map (Some \<circ> fst) (leaves a)" and ?pb = "map (Some \<circ> fst) (leaves b)"
  obtain h1 where h1: "build_array_of_leaves h (Some (rt a)) (pre @ m1 @ m2 @ post) i ?j = Some (pre @ ?pa @ m2 @ post, h1)"
    "leaves_at (tls h1) (leaves a)" "tl_only (set (taddrs a)) h h1" "fresh h1 = fresh h"
    using Bin.IH(1) [OF a tips(1) dist(1) Bin.prems(4) mid(2) Bin.prems(6), of "m2 @ post" ?j] by blast
  have b1: "tls h1 s = tls h s" if "s \<in> set (taddrs b) \<union> {t}" for s
    using tl_onlyD(5) [OF h1(3), of s] that dist h1(4) by (metis Int_iff Un_iff all_not_in_conv leI singletonD)
  have sb: "shape_ok (tls h1) (Some t) (Suc d) (lo + width (Suc d)) b" "tips_ok (tls h1) b"
    using b tips(2) shape_cong(1) [of b "tls h1" "tls h"] tips_cong [of b "tls h1" "tls h"] b1 by auto
  obtain h2 where h2: "build_array_of_leaves h1 (Some (rt b)) ((pre @ ?pa) @ m2 @ post) ?j r = Some ((pre @ ?pa) @ ?pb @ post, h2)"
    "leaves_at (tls h2) (leaves b)" "tl_only (set (taddrs b)) h1 h2" "fresh h2 = fresh h1"
    using Bin.IH(2) [OF sb dist(2) tl_onlyD(4) [OF h1(3)] mid(3), of ?j "pre @ ?pa" post r] Bin.prems(6) by auto
  have a2: "tls h2 s = tls h1 s" if "s \<in> set (taddrs a) \<union> {t}" for s
    using tl_onlyD(5) [OF h2(3), of s] that dist h2(4) by (metis Int_iff Un_iff all_not_in_conv leI singletonD)
  have t2: "tls h2 t = Some n" using a2 [of t] b1 [of t] n(1) by simp
  define h3 where "h3 = put_tl t (n\<lparr>left := NULL, right := NULL\<rparr>) h2"
  have o3: "tl_only {t} h2 h3"
    unfolding h3_def by (rule tl_only_put) (use tl_onlyD(4) [OF h2(3)] h1(4) h2(4) tf in auto)
  define h4 where "h4 = freed (needs_rebalance n) t h3"
  have o4: "tl_only {t} h3 h4"
    unfolding h4_def by (rule tl_only_freed) (use tl_onlyD(4) [OF o3] h1(4) h2(4) tf in \<open>auto simp: h3_def\<close>)
  have h4t: "tls h4 s = tls h2 s" if "s \<noteq> t" for s using that by (simp add: h4_def h3_def freed_def)
  have nt: "fst x \<noteq> t" if "x \<in> set (leaves a) \<union> set (leaves b)" for x
    using that leaves_taddrs dist(4,5) by blast
  have "leaves_at (tls h2) (leaves a)"
    by (rule leaves_at_cong [OF h1(2)]) (use a2 leaves_taddrs in blast)
  moreover have "fst ` set (leaves a) \<inter> fst ` set (leaves b) = {}" using dist(3) leaves_taddrs by fastforce
  ultimately have "leaves_at (tls h2) (leaves (Bin t a b))" using h2(2) by simp
  then have "leaves_at (tls h4) (leaves (Bin t a b))"
    by (rule leaves_at_cong) (use nt h4t in auto)
  moreover have "tl_only (set (taddrs (Bin t a b))) h h4"
    by (rule tl_only_mono [OF tl_only_trans [OF tl_only_trans [OF tl_only_trans [OF h1(3) h2(3)] o3] o4]]) auto
  moreover have "build_array_of_leaves h (Some (rt (Bin t a b))) (pre @ mid @ post) i r =
      Some (pre @ map (Some \<circ> fst) (leaves (Bin t a b)) @ post, h4)"
    using n ra h1(1) h2(1) t2
    by (subst build_array_of_leaves.simps) (auto simp: mid(1) upd_tl_at h3_def h4_def freed_def free_tl_def)
  ultimately show ?case
    using n(1) h1(4) h2(4) by (intro exI [of _ h4]) (simp add: flag_def h4_def h3_def freed_def)
qed

end
