(* ===== verification/OmRebalance.thy ===== *)
theory OmRebalance
  imports OmRebuild
begin

text \<open>
  Rebuilding and rebalancing as a whole (\<open>rebuild\<close>, \<open>rebalance\<close> of \<open>cracer/src/om.cpp\<close>): the
  walk from the root ends with no leaf waiting, the leaves in the same order, and every
  subtree within its range of labels.
\<close>

section \<open>The range of a node\<close>

lemma high_bits:
  assumes "1 \<le> d" "d \<le> 63"
  shows "signed_drop_bit (d - 1) (push_bit 63 (- 1)) AND w = push_bit (64 - d) (drop_bit (64 - d) (w :: label_t))"
proof (rule bit_eqI)
  fix i assume "possible_bit TYPE(label_t) i"
  then have i: "i < 64" by simp
  have top: "bit (push_bit 63 (- 1 :: label_t)) j \<longleftrightarrow> j = 63" for j
    by (simp only: bit_push_bit_iff bit_minus_1_iff possible_bit_word) auto
  show "bit (signed_drop_bit (d - 1) (push_bit 63 (- 1)) AND w) i =
    bit (push_bit (64 - d) (drop_bit (64 - d) w)) i"
    unfolding bit_and_iff bit_signed_drop_bit_iff top
    using assms i by (cases "i < 64 - d"; cases "i = 64 - d") (auto simp: bit_push_bit_iff bit_drop_bit_eq)
qed

lemma unat_high_bits: "unat (push_bit k (drop_bit k (w :: label_t))) = unat w div 2 ^ k * 2 ^ k"
proof -
  have "unat w div 2 ^ k * 2 ^ k \<le> unat w" by (simp add: div_times_less_eq_dividend)
  then have lim: "unat w div 2 ^ k * 2 ^ k < 2 ^ 64" using label_less_max [of w] by linarith
  have "unat (push_bit k (drop_bit k w)) = take_bit 64 (push_bit k (unat (drop_bit k w)))"
    by (simp add: unsigned_push_bit_eq)
  also have "unat (drop_bit k w) = unat w div 2 ^ k"
    using label_less_max [of w] by (simp add: unsigned_drop_bit_eq drop_bit_eq_div [of k "unat w"] take_bit_nat_eq_self
      del: drop_bit_eq_div)
  finally show ?thesis using lim by (simp only: push_bit_eq_mult take_bit_nat_eq_self)
qed

lemma range_left_ok:
  assumes "level n = d" "d < 64" "unat (tl_label n) = lo + width d - 1" "aligned d lo" "parent n = NULL \<longleftrightarrow> d = 0"
  shows "\<exists>l. range_left n = Some l \<and> unat l = lo"
proof (cases "d = 0")
  case True
  then have "lo = 0" using assms(4) by (auto simp: aligned_def width_def)
  then show ?thesis using True assms(5) by (simp add: range_left_def)
next
  case False
  then have d: "1 \<le> d" "d \<le> 63" using assms(2) by auto
  have k: "width d = 2 ^ (64 - d)" by (simp add: width_def)
  obtain q where q: "lo = width d * q" using assms(4) by (auto simp: aligned_def)
  obtain w where wd: "width d = Suc w" using gr0_implies_Suc [OF width_pos] by blast
  have "(lo + width d - 1) div width d = q"
    unfolding q by (rule div_nat_eqI) (use wd in \<open>simp_all add: mult.commute\<close>)
  then have "(lo + width d - 1) div 2 ^ (64 - d) * 2 ^ (64 - d) = lo" using q k by simp
  then have "unat (push_bit (64 - d) (drop_bit (64 - d) (tl_label n))) = lo"
    unfolding unat_high_bits assms(3) .
  then show ?thesis
    using False assms(1,2,5) high_bits [OF d, of "tl_label n"]
    by (auto simp: range_left_def range_right_def MAX_LEVEL_def MAX_LABEL_def)
qed

section \<open>Rebuilding\<close>

text \<open>The node at \<open>t\<close> is a child, with the range at \<open>lo\<close>, of the node \<open>p\<close>; or it is the root.\<close>

definition child_of :: "(nat \<rightharpoonup> tl_node) \<Rightarrow> ptr \<Rightarrow> nat \<Rightarrow> nat \<Rightarrow> nat \<Rightarrow> bool" where
  "child_of m p d lo t \<longleftrightarrow>
     (case p of None \<Rightarrow> d = 0 \<and> lo = 0
      | Some q \<Rightarrow> 0 < d \<and> (\<exists>n lq. m q = Some n \<and> level n = d - 1 \<and> unat (tl_label n) = lq + width (d - 1) - 1 \<and>
          aligned (d - 1) lq \<and> (parent n = NULL \<longleftrightarrow> d = 1) \<and>
          lo = (if right n = Some t then lq + width d else lq)))"

lemma leaf_to_internal_ok:
  assumes n: "tls h t = Some n" and c: "child_of (tls h) p d lo t" and p: "parent n = p" "p \<noteq> Some t"
    and d: "d < 64" and a: "aligned d lo"
  shows "\<exists>lab. leaf_to_internal h (Some t) = Some (put_tl t (n\<lparr>below := NULL, tl_label := lab, level := d\<rparr>) h) \<and>
    unat lab = lo + width d - 1"
proof (cases p)
  case None
  then have "unat MAX_LABEL = lo + width d - 1" using c
    by (simp add: child_of_def MAX_LABEL_def width_def unsigned_minus_1_eq_mask mask_eq_exp_minus_1)
  then show ?thesis
    using n p None c by (intro exI [of _ MAX_LABEL], cases n) (simp add: leaf_to_internal_def upd_tl_at child_of_def)
next
  case (Some q)
  obtain nq lq where q: "tls h q = Some nq" "level nq = d - 1" "unat (tl_label nq) = lq + width (d - 1) - 1"
    "aligned (d - 1) lq" "parent nq = NULL \<longleftrightarrow> d = 1" "lo = (if right nq = Some t then lq + width d else lq)" "0 < d"
    using c Some by (auto simp: child_of_def)
  have wd: "width (d - 1) = 2 * width d" using q(7) d width_Suc [of "d - 1"] by simp
  have qt: "q \<noteq> t" using p Some by auto
  show ?thesis
  proof (cases "right nq = Some t")
    case True
    then have "unat (tl_label nq) = lo + width d - 1" using q(3,6) wd by simp
    then show ?thesis using n p Some q(1,2,7) qt True
      by (intro exI [of _ "tl_label nq"]) (simp add: leaf_to_internal_def upd_tl_at)
  next
    case False
    obtain l where l: "range_left nq = Some l" "unat l = lq"
      using range_left_ok [OF q(2) less_imp_diff_less [OF d] q(3,4)] q(5,7) by auto
    define lab where "lab = (range_right nq - l) div 2 + l"
    have le: "l \<le> tl_label nq" using l(2) q(3) wd width_pos [of d] unfolding word_le_nat_alt by linarith
    have "unat ((tl_label nq - l) div 2) = (2 * width d - 1) div 2"
      using l q(3) wd by (simp add: unat_div_distrib unat_sub [OF le])
    then have half: "unat ((tl_label nq - l) div 2) = width d - 1" using width_pos [of d] by linarith
    have lim: "lq + width (d - 1) \<le> 2 ^ 64" using q(4) by (simp add: aligned_def)
    have "unat lab = width d - 1 + lq"
    proof -
      have "width d - 1 + lq < 2 ^ 64" using lim wd width_pos [of d] by linarith
      then show ?thesis unfolding lab_def range_right_def using half l(2) by (subst unat_add_small) simp_all
    qed
    then have "unat lab = lo + width d - 1" using q(6) False width_pos [of d] by simp
    then show ?thesis
      using n p Some q(1,2,7) qt False l
      by (intro exI [of _ lab]) (simp add: leaf_to_internal_def upd_tl_at lab_def)
  qed
qed

lemma rebuild_ok:
  assumes s: "shape_ok (tls h) p d lo S" and fl: "\<not> flag (tls h) (rt S)" and tips: "tips_ok (tls h) S"
    and dist: "distinct (taddrs S)" and fr: "fresh_ok h" and al: "aligned d lo" and w: "nl S \<le> width d"
    and two: "2 \<le> nl S" and c: "child_of (tls h) p d lo (rt S)" and p: "\<And>q. p = Some q \<Longrightarrow> q \<notin> set (taddrs S)"
  shows "\<exists>S' h'. rebuild h (Some (rt S)) = Some h' \<and> rt S' = rt S \<and> shape_ok (tls h') p d lo S' \<and>
    flags_ok (tls h') S' \<and> \<not> pend S' \<and> leaves S' = leaves S \<and> dep S' \<le> fast_log2_ceil (nl S) \<and>
    distinct (taddrs S') \<and> set (taddrs S') \<subseteq> set (taddrs S) \<union> {fresh h..<fresh h'} \<and>
    tl_only (set (taddrs S)) h h'"
proof -
  let ?t = "rt S" and ?n = "nl S" and ?arr = "map (Some \<circ> fst) (leaves S)"
  have d: "d < 64" using w two al by (cases "d = 64") (auto simp: width_def aligned_def)
  obtain n where n: "tls h ?t = Some n" "num_leaves n = ?n" "parent n = p" using shape_root [OF s] by blast
  have pt: "p \<noteq> Some ?t" using p by auto
  have tf: "?t < fresh h" by (rule fresh_tl [OF fr n(1)])
  have shape: "left n = NULL \<and> right n = NULL \<or>
      level n = d \<and> unat (tl_label n) = lo + width d - 1 \<and> left n \<noteq> NULL"
    "\<not> needs_rebalance n" "?t \<notin> fst ` set (leaves S)"
    using s n(1) two fl dist leaves_taddrs by (cases S; force simp: flag_def)+
  obtain h1 where h1: "build_array_of_leaves h (Some ?t) (replicate ?n NULL) 0 ?n = Some (?arr, h1)"
    "leaves_at (tls h1) (leaves S)" "tl_only (set (taddrs S)) h h1" "fresh h1 = fresh h"
    "tls h1 ?t = Some (n\<lparr>left := NULL, right := NULL\<rparr>)"
    using build_array_ok [OF s tips dist fr, of "replicate ?n NULL" 0 "[]" "[]" ?n] fl n(1) by auto
  define n1 where "n1 = n\<lparr>left := NULL, right := NULL\<rparr>"
  have c1: "child_of (tls h1) p d lo ?t"
  proof (cases p)
    case (Some q)
    then obtain nq where "tls h q = Some nq" using c by (auto simp: child_of_def)
    then have "tls h1 q = tls h q" using tl_onlyD(5) [OF h1(3) p [OF Some]] fresh_tl [OF fr] h1(4) by metis
    then show ?thesis using c Some by (simp add: child_of_def)
  qed (use c in \<open>simp add: child_of_def\<close>)
  have "\<exists>n2. (if left n = NULL \<and> right n = NULL then leaf_to_internal h1 (Some ?t) else Some h1) =
      Some (put_tl ?t n2 h1) \<and>
    level n2 = d \<and> unat (tl_label n2) = lo + width d - 1 \<and> parent n2 = p \<and> num_leaves n2 = ?n \<and>
    \<not> needs_rebalance n2"
  proof (cases "left n = NULL \<and> right n = NULL")
    case True
    have "parent n1 = p" using n(3) by (simp add: n1_def)
    from leaf_to_internal_ok [OF h1(5) [folded n1_def] c1 this pt d al] obtain lab where
      "leaf_to_internal h1 (Some ?t) = Some (put_tl ?t (n1\<lparr>below := NULL, tl_label := lab, level := d\<rparr>) h1)"
      "unat lab = lo + width d - 1" by blast
    then show ?thesis using True n shape(2)
      by (intro exI [of _ "n1\<lparr>below := NULL, tl_label := lab, level := d\<rparr>"]) (simp add: n1_def)
  next
    case False
    have "put_tl ?t n1 h1 = h1" using h1(5) by (simp add: n1_def fun_upd_idem)
    then show ?thesis using False shape n by (intro exI [of _ n1]) (auto simp: n1_def)
  qed
  then obtain n2 where n2: "(if left n = NULL \<and> right n = NULL then leaf_to_internal h1 (Some ?t) else Some h1) =
      Some (put_tl ?t n2 h1)" "level n2 = d" "unat (tl_label n2) = lo + width d - 1" "parent n2 = p"
    "num_leaves n2 = ?n" "\<not> needs_rebalance n2" by blast
  define n3 where "n3 = n2\<lparr>left := NULL, right := NULL\<rparr>"
  define h3 where "h3 = put_tl ?t n3 h1"
  have o3: "tl_only {?t} h1 h3" unfolding h3_def by (rule tl_only_put) (use tl_onlyD(4) [OF h1(3)] h1(4) tf in auto)
  have lv3: "leaves_at (tls h3) (leaves S)" by (rule leaves_at_cong [OF h1(2)]) (use shape(3) in \<open>force simp: h3_def\<close>)
  obtain llab where ll: "range_left n3 = Some llab" "unat llab = lo"
    using range_left_ok [of n3 d lo] n2 d al c by (auto simp: n3_def child_of_def split: option.splits)
  have n3: "tls h3 ?t = Some n3" "level n3 = d" "?t \<notin> fst ` set (leaves S)"
    using n2(2) shape(3) by (simp_all add: h3_def n3_def)
  define mlab where "mlab = llab + ((tl_label n3 - llab) div 2 + 1) - 1"
  define k where "k = ?n - ?n div 2"
  have parts: "take (?n - ?n div 2) (leaves S) \<noteq> []" "drop (?n - ?n div 2) (leaves S) \<noteq> []" using two by auto
  have rl: "unat (tl_label n3) = lo + width d - 1" using n2(3) by (simp add: n3_def)
  have d64: "d \<le> 64" using d by simp
  obtain A B h4 h5 where AB:
    "rebuild_recursive h3 (Some ?t) ?arr (length ([] :: ptr list)) (length ([] :: ptr list) + k) llab mlab =
      Some (Some (rt A), h4)"
    "tls h4 ?t = Some n3"
    "rebuild_recursive (put_tl ?t (n3\<lparr>left := Some (rt A)\<rparr>) h4) (Some ?t) ?arr (length ([] :: ptr list) + k)
      (length ([] :: ptr list) + ?n) (mlab + 1) (tl_label n3) = Some (Some (rt B), h5)"
    "tls h5 ?t = Some (n3\<lparr>left := Some (rt A)\<rparr>)"
    "leaves (Bin ?t A B) = leaves S" "dep (Bin ?t A B) \<le> fast_log2_ceil ?n" "\<not> pend (Bin ?t A B)"
    "distinct (taddrs (Bin ?t A B))"
    "set (taddrs (Bin ?t A B)) \<subseteq> insert ?t (fst ` set (leaves S)) \<union> {fresh h3..<fresh h5}"
    "\<forall>n5 p. left n5 = Some (rt A) \<and> right n5 = Some (rt B) \<and> level n5 = d \<and> num_leaves n5 = ?n \<and>
      tl_label n5 = tl_label n3 \<and> parent n5 = p \<and> \<not> needs_rebalance n5 \<longrightarrow>
      shape_ok (tls (put_tl ?t n5 h5)) p d lo (Bin ?t A B) \<and> flags_ok (tls (put_tl ?t n5 h5)) (Bin ?t A B) \<and>
      tl_only (insert ?t (fst ` set (leaves S))) h3 (put_tl ?t n5 h5)"
    using spread_two [OF rebuild_recursive_ok [OF parts(1)] rebuild_recursive_ok [OF parts(2)] two lv3 w d64 ll(2) rl
        tl_onlyD(4) [OF o3] n3 mlab_def _ k_def, of ?arr "[]" "[]"]
    by (elim exE conjE meta_impE) (simp, rule that, assumption+)
  define n5 where "n5 = n3\<lparr>left := Some (rt A), right := Some (rt B)\<rparr>"
  have fin: "shape_ok (tls (put_tl ?t n5 h5)) p d lo (Bin ?t A B) \<and> flags_ok (tls (put_tl ?t n5 h5)) (Bin ?t A B) \<and>
      tl_only (insert ?t (fst ` set (leaves S))) h3 (put_tl ?t n5 h5)"
    by (rule AB(10) [rule_format]) (use n2 in \<open>simp add: n5_def n3_def\<close>)
  have lt: "fst ` set (leaves S) \<subseteq> set (taddrs S)" using leaves_taddrs by auto
  have "rebuild h (Some ?t) = Some (put_tl ?t n5 h5)"
    using n(1,2) h1(1) n2(1) ll(1) AB(1-4)
    by (simp add: rebuild_def upd_tl_at h3_def n3_def n5_def mlab_def k_def Let_def)
  moreover have "tl_only (set (taddrs S)) h (put_tl ?t n5 h5)"
    by (rule tl_only_mono [OF tl_only_trans [OF tl_only_trans [OF h1(3) o3] conjunct2 [OF conjunct2 [OF fin]]]])
      (use lt in auto)
  moreover have "set (taddrs (Bin ?t A B)) \<subseteq> set (taddrs S) \<union> {fresh h..<fresh (put_tl ?t n5 h5)}"
    by (rule subset_trans [OF AB(9)]) (use lt h1(4) in \<open>auto simp: h3_def\<close>)
  ultimately show ?thesis using fin AB(5-8) by (intro exI [of _ "Bin ?t A B"] exI [of _ "put_tl ?t n5 h5"]) auto
qed

section \<open>Rebalancing\<close>

lemma split_chain_flag:
  "m t = Some n \<Longrightarrow> split_chain (m(t \<mapsto> n\<lparr>needs_rebalance := v\<rparr>)) p ps = split_chain m p ps"
  by (induction ps arbitrary: p) auto

lemma shape_flag:
  "m t = Some n \<Longrightarrow> shape_ok (m(t \<mapsto> n\<lparr>needs_rebalance := v\<rparr>)) p d lo S = shape_ok m p d lo S"
  by (induction S arbitrary: p d lo) (auto simp: split_chain_flag)

lemma tips_unflag: "tips_ok m S \<Longrightarrow> m t = Some n \<Longrightarrow> tips_ok (m(t \<mapsto> n\<lparr>needs_rebalance := False\<rparr>)) S"
  by (induction S) (auto simp: flag_def)

lemma shape_dom: "shape_ok m p d lo S \<Longrightarrow> s \<in> set (taddrs S) \<Longrightarrow> \<exists>n. m s = Some n"
proof (induction S arbitrary: p d lo)
  case (Spl t ps)
  then show ?case using split_chain_below [of m NULL ps] by auto
qed auto

lemma shape_fresh: "shape_ok (tls h) p d lo S \<Longrightarrow> fresh_ok h \<Longrightarrow> s \<in> set (taddrs S) \<Longrightarrow> s < fresh h"
  using shape_dom fresh_tl by blast

text \<open>The value of \<open>1 << h\<close> where C++ defines it.\<close>

definition shl_ok :: "(nat \<Rightarrow> label_t) \<Rightarrow> bool" where
  "shl_ok shl1 \<longleftrightarrow> (\<forall>k < 31. unat (shl1 k) = 2 ^ k)"

text \<open>A subtree that is not too heavy has fewer leaves than labels.\<close>

lemma not_heavy_fits:
  assumes s: "shape_ok m p d lo S" and f: "flags_ok m S" "pend S" and x: "m (rt S) = Some x"
    and light: "\<not> too_heavy shl1 x H" and H: "d + dep S \<le> H" and n: "nl S < 2 ^ 31" and d: "0 < d" "d \<le> 64"
    and shl: "shl_ok shl1"
  shows "nl S \<le> width d"
proof -
  have "needs_rebalance x" using flag_root [OF f(1)] f(2) x by (simp add: flag_def)
  then have lt: "4 * num_leaves x * H < unat (capacity shl1 x) * (3 * H + level x)"
    using light H d(1) by (auto simp: too_heavy_def not_le)
  show ?thesis
  proof (cases S)
    case (Tip t L)
    then show ?thesis using width_pos [of d] by (simp add: Suc_le_eq del: width_pos)
  next
    case (Spl t ps)
    then have "unat (capacity shl1 x) = 1" "level x = 64" "num_leaves x = length ps" "2 \<le> length ps"
      using s x shl by (auto simp: capacity_def tl_height_def MAX_LEVEL_def shl_ok_def)
    then have "4 * length ps * H < 3 * H + 64" using lt by simp
    moreover have "8 * H \<le> 4 * length ps * H" using \<open>2 \<le> length ps\<close> by (intro mult_right_mono) auto
    ultimately have "H \<le> 12" by linarith
    then have "fast_log2_ceil (length ps) \<le> 64 - d" using H Spl by simp
    moreover have "0 < length ps" using \<open>2 \<le> length ps\<close> by linarith
    ultimately show ?thesis using log2_ceil_le [of "length ps" "64 - d"] Spl by (simp add: width_def)
  next
    case (Bin t a b)
    then have lx: "level x = d" "num_leaves x = nl S" "d < 64" using s x by auto
    show ?thesis
    proof (cases "64 - d < 31")
      case True
      then have "unat (capacity shl1 x) = width d"
        using shl lx d by (simp add: capacity_def tl_height_def MAX_LEVEL_def shl_ok_def width_def)
      then have "4 * nl S * H < width d * (3 * H + d)" using lt lx by simp
      also have "\<dots> \<le> width d * (4 * H)" using H by (intro mult_left_mono) auto
      finally have "nl S * (4 * H) < width d * (4 * H)" by (simp add: mult.commute mult.left_commute)
      then show ?thesis using mult_less_cancel2 less_imp_le by blast
    next
      case False
      then have "(2 :: nat) ^ 31 \<le> width d" unfolding width_def by (intro power_increasing) auto
      then show ?thesis using n by linarith
    qed
  qed
qed

text \<open>What a call of \<open>rebalance\<close> promises of a subtree.\<close>

definition rebalanced :: "om_heap \<Rightarrow> om_heap \<Rightarrow> ptr \<Rightarrow> nat \<Rightarrow> nat \<Rightarrow> nat \<Rightarrow> shape \<Rightarrow> shape \<Rightarrow> bool" where
  "rebalanced h h' p d lo H S S' \<longleftrightarrow>
     rt S' = rt S \<and> shape_ok (tls h') p d lo S' \<and> flags_ok (tls h') S' \<and> \<not> pend S' \<and> leaves S' = leaves S \<and>
     d + dep S' \<le> H \<and> distinct (taddrs S') \<and> set (taddrs S') \<subseteq> set (taddrs S) \<union> {fresh h..<fresh h'} \<and>
     tl_only (set (taddrs S)) h h'"

lemma unflag_rebuild:
  assumes s: "shape_ok (tls h) p d lo S" and fl: "flags_ok (tls h) S" and dist: "distinct (taddrs S)"
    and fr: "fresh_ok h" and al: "aligned d lo" and c: "child_of (tls h) p d lo (rt S)"
    and p: "\<And>q. p = Some q \<Longrightarrow> q \<notin> set (taddrs S)" and w: "nl S \<le> width d" and two: "2 \<le> nl S"
    and H: "d + dep S \<le> H" and n: "tls h (rt S) = Some n"
  shows "\<exists>S' h'. rebuild (put_tl (rt S) (n\<lparr>needs_rebalance := False\<rparr>) h) (Some (rt S)) = Some h' \<and>
    rebalanced h h' p d lo H S S'"
proof -
  define h1 where "h1 = put_tl (rt S) (n\<lparr>needs_rebalance := False\<rparr>) h"
  have o1: "tl_only {rt S} h h1" unfolding h1_def by (rule tl_only_put [OF fr fresh_tl [OF fr n]])
  have s1: "shape_ok (tls h1) p d lo S" using s n by (simp add: h1_def shape_flag)
  have t1: "tips_ok (tls h1) S" using tips_unflag [OF flags_tips [OF fl] n] by (simp add: h1_def)
  have f1: "\<not> flag (tls h1) (rt S)" by (simp add: h1_def flag_def)
  have c1: "child_of (tls h1) p d lo (rt S)"
    using c p by (cases p) (auto simp: child_of_def h1_def)
  obtain S' h' where R: "rebuild h1 (Some (rt S)) = Some h'" "rt S' = rt S" "shape_ok (tls h') p d lo S'"
    "flags_ok (tls h') S'" "\<not> pend S'" "leaves S' = leaves S" "dep S' \<le> fast_log2_ceil (nl S)"
    "distinct (taddrs S')" "set (taddrs S') \<subseteq> set (taddrs S) \<union> {fresh h1..<fresh h'}"
    "tl_only (set (taddrs S)) h1 h'"
    using rebuild_ok [OF s1 f1 t1 dist tl_onlyD(4) [OF o1] al w two c1 p] by blast
  have "fast_log2_ceil (nl S) \<le> dep S" using log2_ceil_le [of "nl S" "dep S"] nl_dep [OF s] two by linarith
  then have "d + dep S' \<le> H" using R(7) H by simp
  moreover have "tl_only (set (taddrs S)) h h'" by (rule tl_only_mono [OF tl_only_trans [OF o1 R(10)]]) auto
  ultimately show ?thesis
    using R by (intro exI [of _ S'] exI [of _ h']) (simp add: rebalanced_def h1_def)
qed

lemma rebalance_ok:
  assumes "shape_ok (tls h) p d lo S" "flags_ok (tls h) S" "distinct (taddrs S)" "fresh_ok h" "aligned d lo"
    "child_of (tls h) p d lo (rt S)" "\<And>q. p = Some q \<Longrightarrow> q \<notin> set (taddrs S)"
    "pend S \<Longrightarrow> nl S \<le> width d" "d + dep S \<le> H" "nl S < 2 ^ 31" "shl_ok shl1"
  shows "\<exists>S' h'. rebalance shl1 h (Some (rt S)) H = Some h' \<and> rebalanced h h' p d lo H S S'"
  using assms
proof (induction S arbitrary: h p d lo)
  case (Tip t L)
  then obtain n where "tls h t = Some n" "\<not> needs_rebalance n" by (auto simp: flag_def)
  then have "rebalance shl1 h (Some (rt (Tip t L))) H = Some h" by (subst rebalance.simps) simp
  moreover have "rebalanced h h p d lo H (Tip t L) (Tip t L)"
    using Tip.prems by (simp add: rebalanced_def tl_only_refl)
  ultimately show ?case by blast
next
  case (Spl t ps)
  obtain n where n: "tls h t = Some n" "is_leaf n" "needs_rebalance n"
    using Spl.prems(1,2) by (auto simp: flag_def is_leaf_def)
  obtain S' h' where "rebuild (put_tl t (n\<lparr>needs_rebalance := False\<rparr>) h) (Some t) = Some h'"
    "rebalanced h h' p d lo H (Spl t ps) S'"
    using unflag_rebuild [OF Spl.prems(1-7), of H n] Spl.prems(1,8,9) n(1) by auto
  then show ?case
    using n by (intro exI [of _ S'] exI [of _ h']) (subst rebalance.simps, simp add: upd_tl_at)
next
  case (Bin t a b)
  let ?S = "Bin t a b"
  show ?case
  proof (cases "pend ?S")
    case False
    then obtain n where "tls h t = Some n" "\<not> needs_rebalance n" using Bin.prems(1,2) by (auto simp: flag_def)
    then have "rebalance shl1 h (Some (rt ?S)) H = Some h" by (subst rebalance.simps) simp
    moreover have "rebalanced h h p d lo H ?S ?S" using Bin.prems False by (simp add: rebalanced_def tl_only_refl)
    ultimately show ?thesis by blast
  next
    case True
    obtain n where n: "tls h t = Some n" "needs_rebalance n" "\<not> is_leaf n" "left n = Some (rt a)" "right n = Some (rt b)"
      "level n = d" "unat (tl_label n) = lo + width d - 1" "parent n = p" "num_leaves n = nl a + nl b"
      using Bin.prems(1,2) True by (auto simp: flag_def is_leaf_def MAX_LEVEL_def)
    have d: "d < 64" and sa: "shape_ok (tls h) (Some t) (Suc d) lo a"
      and sb: "shape_ok (tls h) (Some t) (Suc d) (lo + width (Suc d)) b" using Bin.prems(1) by auto
    have dist: "distinct (taddrs a)" "distinct (taddrs b)" "set (taddrs a) \<inter> set (taddrs b) = {}"
      "t \<notin> set (taddrs a)" "t \<notin> set (taddrs b)" using Bin.prems(3) by auto
    have rts: "rt a \<noteq> t" "rt b \<noteq> t" "rt a \<noteq> rt b"
      using dist rt_taddrs [of a] rt_taddrs [of b] by (metis disjoint_iff)+
    obtain la where la: "tls h (rt a) = Some la" using shape_root [OF sa] by blast
    obtain lb where lb: "tls h (rt b) = Some lb" using shape_root [OF sb] by blast
    define n1 where "n1 = n\<lparr>needs_rebalance := False\<rparr>"
    define h1 where "h1 = put_tl t n1 h"
    have tf: "t < fresh h" by (rule fresh_tl [OF Bin.prems(4) n(1)])
    have o1: "tl_only {t} h h1" unfolding h1_def by (rule tl_only_put [OF Bin.prems(4) tf])
    let ?heavy = "too_heavy shl1 la H \<or> too_heavy shl1 lb H"
    have unfold: "rebalance shl1 h (Some t) H =
      (if ?heavy then rebuild h1 (Some t)
       else do { h \<leftarrow> rebalance shl1 h1 (Some (rt a)) H; rebalance shl1 h (Some (rt b)) H })"
      using n la lb rts by (subst rebalance.simps) (simp add: upd_tl_at h1_def n1_def)
    show ?thesis
    proof (cases ?heavy)
      case True
      have two: "2 \<le> nl ?S" unfolding leaves.simps length_append using nl_pos [OF sa] nl_pos [OF sb] by linarith
      obtain S' h' where "rebuild (put_tl (rt ?S) (n\<lparr>needs_rebalance := False\<rparr>) h) (Some (rt ?S)) = Some h'"
        "rebalanced h h' p d lo H ?S S'"
        using unflag_rebuild [OF Bin.prems(1-7) Bin.prems(8) [OF \<open>pend ?S\<close>] two Bin.prems(9), of n] n(1) by auto
      then show ?thesis using True unfold by (auto simp: h1_def n1_def)
    next
      case False
      have d1: "0 < Suc d" "Suc d \<le> 64" using d by auto
      have al: "aligned (Suc d) lo" "aligned (Suc d) (lo + width (Suc d))"
        using aligned_child [OF Bin.prems(5) d] by blast+
      have Hs: "Suc d + dep a \<le> H" "Suc d + dep b \<le> H" and ns: "nl a < 2 ^ 31" "nl b < 2 ^ 31"
        using Bin.prems(9,10) by auto
      have fits: "pend a \<Longrightarrow> nl a \<le> width (Suc d)" "pend b \<Longrightarrow> nl b \<le> width (Suc d)"
        using not_heavy_fits [OF sa _ _ la _ Hs(1) ns(1) d1 Bin.prems(11)]
          not_heavy_fits [OF sb _ _ lb _ Hs(2) ns(2) d1 Bin.prems(11)] Bin.prems(2) False by auto
      have ta: "tls h1 s = tls h s" if "s \<in> set (taddrs a) \<union> set (taddrs b)" for s
        using that dist by (auto simp: h1_def)
      have sa1: "shape_ok (tls h1) (Some t) (Suc d) lo a" "flags_ok (tls h1) a"
        using sa Bin.prems(2) shape_cong [of a "tls h1" "tls h"] ta by auto
      have pn: "parent n = NULL \<longleftrightarrow> d = 0"
        using Bin.prems(6) n(8) by (auto simp: child_of_def split: option.splits)
      have kid: "child_of m (Some t) (Suc d) lo (rt a)" "child_of m (Some t) (Suc d) (lo + width (Suc d)) (rt b)"
        if "m t = Some n1" for m
        using that n pn Bin.prems(5) rts by (auto simp: child_of_def n1_def)
      have tn1: "tls h1 t = Some n1" by (simp add: h1_def)
      have pa: "\<And>q. Some t = Some q \<Longrightarrow> q \<notin> set (taddrs a)" and pb: "\<And>q. Some t = Some q \<Longrightarrow> q \<notin> set (taddrs b)"
        using dist by auto
      obtain A h2 where A: "rebalance shl1 h1 (Some (rt a)) H = Some h2" "rebalanced h1 h2 (Some t) (Suc d) lo H a A"
        using Bin.IH(1) [OF sa1 dist(1) tl_onlyD(4) [OF o1] al(1) kid(1) [where m = "tls h1", OF tn1] pa fits(1) Hs(1) ns(1) Bin.prems(11)]
        by blast
      have A': "rt A = rt a" "shape_ok (tls h2) (Some t) (Suc d) lo A" "flags_ok (tls h2) A" "\<not> pend A"
        "leaves A = leaves a" "Suc d + dep A \<le> H" "distinct (taddrs A)"
        "set (taddrs A) \<subseteq> set (taddrs a) \<union> {fresh h1..<fresh h2}" "tl_only (set (taddrs a)) h1 h2"
        using A(2) by (simp_all add: rebalanced_def)
      have f1: "fresh h1 = fresh h" by (simp add: h1_def)
      have old: "tls h2 s = tls h1 s" if "s < fresh h" "s \<notin> set (taddrs a)" for s
        using tl_onlyD(5) [OF A'(9) that(2)] that(1) f1 by simp
      have bf: "s < fresh h" "s \<notin> set (taddrs a)" if "s \<in> set (taddrs b)" for s
        using shape_fresh [OF sb Bin.prems(4) that] dist(3) that by auto
      have tb: "tls h2 s = tls h s" if "s \<in> set (taddrs b)" for s
        using old [OF bf [OF that]] ta [of s] that by simp
      have sb2: "shape_ok (tls h2) (Some t) (Suc d) (lo + width (Suc d)) b" "flags_ok (tls h2) b"
        using sb Bin.prems(2) shape_cong [of b "tls h2" "tls h"] tb by auto
      have tn2: "tls h2 t = Some n1" using old [OF tf dist(4)] tn1 by simp
      obtain B h3 where B: "rebalance shl1 h2 (Some (rt b)) H = Some h3"
        "rebalanced h2 h3 (Some t) (Suc d) (lo + width (Suc d)) H b B"
        using Bin.IH(2) [OF sb2 dist(2) tl_onlyD(4) [OF A'(9)] al(2) kid(2) [where m = "tls h2", OF tn2] pb fits(2) Hs(2) ns(2)
            Bin.prems(11)] by blast
      have B': "rt B = rt b" "shape_ok (tls h3) (Some t) (Suc d) (lo + width (Suc d)) B" "flags_ok (tls h3) B"
        "\<not> pend B" "leaves B = leaves b" "Suc d + dep B \<le> H" "distinct (taddrs B)"
        "set (taddrs B) \<subseteq> set (taddrs b) \<union> {fresh h2..<fresh h3}" "tl_only (set (taddrs b)) h2 h3"
        using B(2) by (simp_all add: rebalanced_def)
      have f2: "fresh h \<le> fresh h2" "fresh h2 \<le> fresh h3"
        using tl_onlyD(3) [OF A'(9)] f1 tl_onlyD(3) [OF B'(9)] by simp_all
      have Af: "s < fresh h2 \<and> s \<noteq> t \<and> s \<notin> set (taddrs b)" if s: "s \<in> set (taddrs A)" for s
        using shape_fresh [OF A'(2) tl_onlyD(4) [OF A'(9)] s] subsetD [OF A'(8) s] dist(3,4) bf(1) [of s] tf f1 by auto
      have Bf: "s \<noteq> t \<and> (s \<in> set (taddrs b) \<or> fresh h2 \<le> s)" if s: "s \<in> set (taddrs B)" for s
        using subsetD [OF B'(8) s] dist(5) tf f2 by auto
      have A3: "tls h3 s = tls h2 s" if "s \<in> set (taddrs A) \<union> {t}" for s
        using tl_onlyD(5) [OF B'(9), of s] Af [of s] that dist(5) tf f2 by auto
      have A4: "shape_ok (tls h3) (Some t) (Suc d) lo A" "flags_ok (tls h3) A"
        using A'(2,3) shape_cong [of A "tls h3" "tls h2"] A3 by auto
      have tn3: "tls h3 t = Some n1" using A3 [of t] tn2 by simp
      let ?T = "Bin t A B"
      have "rebalance shl1 h (Some (rt ?S)) H = Some h3" using unfold False A(1) B(1) by simp
      moreover have "shape_ok (tls h3) p d lo ?T"
        using tn3 n A4(1) B'(1,2,5) A'(1,5) d by (simp add: n1_def)
      moreover have "flags_ok (tls h3) ?T" using tn3 A4(2) B'(3,4) A'(4) by (simp add: flag_def n1_def)
      moreover have "distinct (taddrs ?T)" using A'(7) B'(7) Af Bf by fastforce
      moreover have "set (taddrs ?T) \<subseteq> set (taddrs ?S) \<union> {fresh h..<fresh h3}"
        using A'(8) B'(8) f1 f2 by auto
      moreover have "tl_only (set (taddrs ?S)) h h3"
        by (rule tl_only_mono [OF tl_only_trans [OF tl_only_trans [OF o1 A'(9)] B'(9)]]) auto
      ultimately show ?thesis
        using A'(4-6) B'(4-6) by (intro exI [of _ ?T] exI [of _ h3]) (simp add: rebalanced_def)
    qed
  qed
qed

end
