(* ===== verification/OmSplit.thy ===== *)
theory OmSplit
  imports OmRebalance
begin

text \<open>
  Splitting a sublist (\<open>split\<close> of \<open>cracer/src/om.cpp\<close>): its nodes, in order, fill new
  sublists of at most 64 nodes with evenly spread labels, each below a new leaf.
\<close>

section \<open>The nodes of one new sublist\<close>

definition even_label :: "nat \<Rightarrow> label_t" where
  "even_label i = of_nat i * NODE_INTERVAL"

lemma unat_even_label: "i < 64 \<Longrightarrow> unat (even_label i) = i * 2 ^ 58"
proof -
  assume i: "i < 64"
  have "unat NODE_INTERVAL = 2 ^ 58" by (simp add: NODE_INTERVAL_def push_bit_eq_mult)
  then show ?thesis using i by (simp add: even_label_def unat_word_ariths unat_of_nat)
qed

lemma even_labels_sorted: "n \<le> 64 \<Longrightarrow> sorted_wrt (<) (map even_label [0..<n])"
  by (simp add: sorted_wrt_map sorted_wrt_iff_nth_less word_less_nat_alt unat_even_label)

text \<open>The list \<open>M\<close> below \<open>t\<close> holds \<open>acc\<close> with the first even labels.\<close>

definition chunk_ok :: "om_heap \<Rightarrow> nat \<Rightarrow> nat \<Rightarrow> nat list \<Rightarrow> bool" where
  "chunk_ok h t M acc \<longleftrightarrow>
     lists h M = Some \<lparr>head = hd_ptr acc, tail = last_ptr acc, above = Some t, heavy = False\<rparr> \<and>
     chain (nodes h) M NULL acc NULL \<and> distinct acc \<and> map (lab (nodes h)) acc = map even_label [0..<length acc]"

lemma hd_ptr_append: "xs \<noteq> [] \<Longrightarrow> hd_ptr (xs @ ys) = hd_ptr xs"
  by (cases xs) simp_all

text \<open>One node moved to the end of the new list.\<close>

lemma move_node:
  assumes ok: "chunk_ok h t M acc" and c: "chain (nodes h) L (last_ptr acc) (x # rest) NULL"
    and d: "distinct (acc @ x # rest)" and lab: "l = even_label (length acc)"
  shows "\<exists>n h1 h2. nodes h x = Some n \<and> bl_prev n = last_ptr acc \<and> bl_next n = hd_ptr rest \<and>
    upd_node (Some x) (\<lambda>x. x\<lparr>bl_label := l\<rparr>) h = Some h1 \<and>
    insert_internal h1 (Some M) (last_ptr acc) (Some x) = Some h2 \<and>
    chunk_ok h2 t M (acc @ [x]) \<and> chain (nodes h2) L (last_ptr (acc @ [x])) rest NULL \<and>
    tls h2 = tls h \<and> fresh h2 = fresh h \<and> dom (nodes h2) = dom (nodes h) \<and> dom (lists h2) = dom (lists h) \<and>
    (\<forall>y. y \<notin> set (acc @ [x]) \<longrightarrow> nodes h2 y = nodes h y) \<and> (\<forall>K. K \<noteq> M \<longrightarrow> lists h2 K = lists h K)"
proof -
  obtain n where n: "nodes h x = Some n" "bl_prev n = last_ptr acc" "bl_next n = hd_ptr rest"
    using c by (auto simp: hd_ptr_def split: list.split)
  have lM: "lists h M = Some \<lparr>head = hd_ptr acc, tail = last_ptr acc, above = Some t, heavy = False\<rparr>"
    and ch: "chain (nodes h) M NULL acc NULL" and labs: "map (lab (nodes h)) acc = map even_label [0..<length acc]"
    using ok by (simp_all add: chunk_ok_def)
  define h1 where "h1 = h\<lparr>nodes := (nodes h)(x \<mapsto> n\<lparr>bl_label := l\<rparr>)\<rparr>"
  have h1: "upd_node (Some x) (\<lambda>x. x\<lparr>bl_label := l\<rparr>) h = Some h1" using n by (simp add: upd_node_def h1_def)
  have crest: "chain m L (Some x) rest NULL" if "\<And>y. y \<in> set rest \<Longrightarrow> m y = nodes h y" for m
  proof -
    have "chain m L (Some x) rest NULL = chain (nodes h) L (Some x) rest NULL" using that by (rule chain_cong)
    then show ?thesis using c by simp
  qed
  show ?thesis
  proof (cases acc rule: rev_cases)
    case Nil
    define h2 where "h2 = h\<lparr>nodes := (nodes h)(x \<mapsto> \<lparr>bl_label = 0, bl_next = NULL, bl_prev = NULL, bl_list = Some M\<rparr>),
      lists := (lists h)(M \<mapsto> \<lparr>head = Some x, tail = Some x, above = Some t, heavy = False\<rparr>)\<rparr>"
    have "insert_internal h1 (Some M) NULL (Some x) = Some h2"
      using n lM by (cases n) (simp add: insert_internal_def upd_node_def upd_list_def h1_def h2_def Nil)
    moreover have "chunk_ok h2 t M [x]"
      by (simp add: chunk_ok_def h2_def lab_def even_label_def last_ptr_def)
    moreover have "chain (nodes h2) L (Some x) rest NULL" using d by (intro crest) (auto simp: h2_def)
    ultimately show ?thesis
      using Nil n h1 lM d by (intro exI [of _ n] exI [of _ h1] exI [of _ h2]) (auto simp: h2_def last_ptr_def)
  next
    case (snoc us b)
    have nx: "x \<notin> set (us @ [b])" "b \<notin> set us" "x \<noteq> b" using d snoc by auto
    obtain nb where b: "nodes h b = Some nb" using chain_node [OF ch, of b] snoc by auto
    define h2 where "h2 = h\<lparr>nodes := (nodes h)(b \<mapsto> nb\<lparr>bl_next := Some x\<rparr>,
        x \<mapsto> \<lparr>bl_label = l, bl_next = NULL, bl_prev = Some b, bl_list = Some M\<rparr>),
      lists := (lists h)(M \<mapsto> \<lparr>head = hd_ptr acc, tail = Some x, above = Some t, heavy = False\<rparr>)\<rparr>"
    have ins: "insert_internal h1 (Some M) (last_ptr acc) (Some x) = Some h2"
      using n lM b nx(3)
      by (cases n) (simp add: insert_internal_def upd_node_def upd_list_def h1_def h2_def snoc fun_upd_twist)
    have cM: "chain (nodes h2) M NULL (us @ b # x # []) NULL"
      by (rule chain_insert [where m = "nodes h" and nb = nb and l = l])
        (use ch snoc nx b d in \<open>auto simp: h2_def\<close>)
    have la: "map (lab (nodes h2)) acc = map (lab (nodes h)) acc"
      unfolding map_eq_conv using nx b by (auto simp: lab_def h2_def snoc)
    have lx: "lab (nodes h2) x = l" by (simp add: lab_def h2_def)
    have acc: "acc \<noteq> []" "acc @ [x] = us @ [b, x]" using snoc by simp_all
    have "map (lab (nodes h2)) (acc @ [x]) = map even_label [0..<length (acc @ [x])]"
      using la labs lx lab by simp
    moreover have "lists h2 M = Some \<lparr>head = hd_ptr (acc @ [x]), tail = last_ptr (acc @ [x]), above = Some t, heavy = False\<rparr>"
      unfolding last_ptr_simps hd_ptr_append [OF acc(1)] by (simp add: h2_def)
    moreover have "chain (nodes h2) M NULL (acc @ [x]) NULL" unfolding acc(2) by (rule cM)
    ultimately have "chunk_ok h2 t M (acc @ [x])" using d by (simp add: chunk_ok_def)
    moreover have "chain (nodes h2) L (last_ptr (acc @ [x])) rest NULL"
      unfolding last_ptr_simps using d snoc by (intro crest) (auto simp: h2_def)
    moreover have "tls h2 = tls h \<and> fresh h2 = fresh h \<and> dom (nodes h2) = dom (nodes h) \<and> dom (lists h2) = dom (lists h) \<and>
        (\<forall>y. y \<notin> set (acc @ [x]) \<longrightarrow> nodes h2 y = nodes h y) \<and> (\<forall>K. K \<noteq> M \<longrightarrow> lists h2 K = lists h K)"
      using n(1) b lM by (auto simp: h2_def snoc)
    ultimately show ?thesis using n h1 ins by blast
  qed
qed

section \<open>One new sublist\<close>

text \<open>Only the nodes in \<open>A\<close> and the list \<open>M\<close> changed; nothing was allocated or freed.\<close>

definition list_only :: "nat set \<Rightarrow> nat \<Rightarrow> om_heap \<Rightarrow> om_heap \<Rightarrow> bool" where
  "list_only A M h h' \<longleftrightarrow>
     tls h' = tls h \<and> fresh h' = fresh h \<and> dom (nodes h') = dom (nodes h) \<and> dom (lists h') = dom (lists h) \<and>
     (\<forall>y. y \<notin> A \<longrightarrow> nodes h' y = nodes h y) \<and> (\<forall>K. K \<noteq> M \<longrightarrow> lists h' K = lists h K)"

lemma list_only_trans: "list_only A M h h1 \<Longrightarrow> list_only B M h1 h2 \<Longrightarrow> list_only (A \<union> B) M h h2"
  by (simp add: list_only_def)

lemma list_only_fresh: "list_only A M h h' \<Longrightarrow> fresh_ok h \<Longrightarrow> fresh_ok h'"
  unfolding list_only_def fresh_ok_def by (metis domIff)

lemma split_chunk_ok:
  assumes "chunk_ok h t M acc" "chain (nodes h) L (last_ptr acc) rest NULL" "distinct (acc @ rest)" "length acc \<le> 64"
  shows "\<exists>h'. split_chunk h (Some M) (hd_ptr rest) (even_label (length acc)) (length acc) =
      Some (hd_ptr (drop (64 - length acc) rest), h') \<and>
    chunk_ok h' t M (acc @ take (64 - length acc) rest) \<and>
    chain (nodes h') L (last_ptr (acc @ take (64 - length acc) rest)) (drop (64 - length acc) rest) NULL \<and>
    list_only (set (acc @ take (64 - length acc) rest)) M h h'"
  using assms
proof (induction rest arbitrary: h acc)
  case Nil
  then show ?case by (subst split_chunk.simps) (simp add: list_only_def)
next
  case (Cons x rest)
  show ?case
  proof (cases "length acc < 64")
    case False
    then have "length acc = 64" using Cons.prems(4) by simp
    then show ?thesis
      using Cons.prems by (subst split_chunk.simps) (simp add: SUBLIST_SIZE_def list_only_def del: chain.simps)
  next
    case True
    obtain n h1 h2 where S: "nodes h x = Some n" "bl_prev n = last_ptr acc" "bl_next n = hd_ptr rest"
      "upd_node (Some x) (\<lambda>y. y\<lparr>bl_label := even_label (length acc)\<rparr>) h = Some h1"
      "insert_internal h1 (Some M) (last_ptr acc) (Some x) = Some h2"
      "chunk_ok h2 t M (acc @ [x])" "chain (nodes h2) L (last_ptr (acc @ [x])) rest NULL"
      and o2: "list_only (set (acc @ [x])) M h h2"
      using move_node [OF Cons.prems(1-3) refl] unfolding list_only_def by blast
    have k: "64 - length acc = Suc (64 - length (acc @ [x]))" using True by simp
    have lab: "even_label (length acc) + NODE_INTERVAL = even_label (length (acc @ [x]))"
      by (simp add: even_label_def distrib_right)
    have "distinct ((acc @ [x]) @ rest)" "length (acc @ [x]) \<le> 64" using Cons.prems(3) True by auto
    from Cons.IH [OF S(6,7) this] obtain h' where
      h': "split_chunk h2 (Some M) (hd_ptr rest) (even_label (length (acc @ [x]))) (length (acc @ [x])) =
        Some (hd_ptr (drop (64 - length (acc @ [x])) rest), h')"
      "chunk_ok h' t M ((acc @ [x]) @ take (64 - length (acc @ [x])) rest)"
      "chain (nodes h') L (last_ptr ((acc @ [x]) @ take (64 - length (acc @ [x])) rest))
        (drop (64 - length (acc @ [x])) rest) NULL"
      "list_only (set ((acc @ [x]) @ take (64 - length (acc @ [x])) rest)) M h2 h'"
      by blast
    have acc': "(acc @ [x]) @ take (64 - length (acc @ [x])) rest = acc @ take (64 - length acc) (x # rest)"
      "drop (64 - length (acc @ [x])) rest = drop (64 - length acc) (x # rest)"
      unfolding k by simp_all
    have "split_chunk h (Some M) (hd_ptr (x # rest)) (even_label (length acc)) (length acc) =
        split_chunk h2 (Some M) (hd_ptr rest) (even_label (length (acc @ [x]))) (length (acc @ [x]))"
      using True S(1-5) lab by (subst split_chunk.simps) (simp add: SUBLIST_SIZE_def)
    moreover have "list_only (set (acc @ take (64 - length acc) (x # rest))) M h h'"
    proof -
      have "set (acc @ [x]) \<union> set ((acc @ [x]) @ take (64 - length (acc @ [x])) rest) =
        set (acc @ take (64 - length acc) (x # rest))" unfolding acc' by (auto simp: k)
      then show ?thesis using list_only_trans [OF o2 h'(4)] by (simp only:)
    qed
    ultimately show ?thesis using h'(1-3) unfolding acc' by (intro exI [of _ h']) simp
  qed
qed

section \<open>All new sublists\<close>

fun chunks :: "nat list \<Rightarrow> nat list list" where
  "chunks [] = []"
| "chunks (x # xs) = (x # take 63 xs) # chunks (drop 63 xs)"

lemma concat_chunks: "concat (chunks xs) = xs"
  by (induction xs rule: chunks.induct) simp_all

lemma chunks_nonempty: "xs \<noteq> [] \<Longrightarrow> chunks xs \<noteq> []"
  by (cases xs) simp_all

text \<open>A list with evenly spread labels; the leaves and lists \<open>ps\<close> hold the parts \<open>css\<close>.\<close>

definition spread_ok :: "om_heap \<Rightarrow> nat \<Rightarrow> nat \<Rightarrow> nat list \<Rightarrow> bool" where
  "spread_ok h t L xs \<longleftrightarrow>
     list_ok h t L xs \<and> map (lab (nodes h)) xs = map even_label [0..<length xs] \<and> length xs \<le> 64"

definition parts_ok :: "om_heap \<Rightarrow> (nat \<times> nat) list \<Rightarrow> nat list list \<Rightarrow> bool" where
  "parts_ok h ps css \<longleftrightarrow> list_all2 (\<lambda>p c. spread_ok h (fst p) (snd p) c) ps css"

lemma spread_ok_cong:
  assumes "spread_ok h t L xs" "\<And>x. x \<in> set xs \<Longrightarrow> nodes h' x = nodes h x" "lists h' L = lists h L"
  shows "spread_ok h' t L xs"
proof -
  have "list_ok h' t L xs" by (rule list_ok_cong [where h = h]) (use assms in \<open>simp_all add: spread_ok_def\<close>)
  moreover have "map (lab (nodes h')) xs = map (lab (nodes h)) xs" using assms(2) by (rule lab_cong)
  ultimately show ?thesis using assms(1) by (simp add: spread_ok_def del: map_eq_conv)
qed

lemma chunk_spread_ok: "chunk_ok h t M acc \<Longrightarrow> acc \<noteq> [] \<Longrightarrow> length acc \<le> 64 \<Longrightarrow> spread_ok h t M acc"
  using even_labels_sorted [of "length acc"] by (simp add: chunk_ok_def list_ok_def spread_ok_def)

lemma bl_new_eq:
  "bl_new h = Some (Some (fresh h), h\<lparr>lists := (lists h)(fresh h \<mapsto>
     \<lparr>head = NULL, tail = NULL, above = NULL, heavy = False\<rparr>), fresh := fresh h + 1\<rparr>)"
  by (simp add: bl_new_def new_list_def bl_create_def upd_list_def)

text \<open>
  One round of the outer loop links a new leaf, after the previous one or below the old leaf,
  with a new empty list.
\<close>

definition target :: "nat \<Rightarrow> ptr \<Rightarrow> nat" where
  "target t prev = (case prev of None \<Rightarrow> t | Some q \<Rightarrow> q)"

definition link :: "ptr \<Rightarrow> ptr \<Rightarrow> tl_node \<Rightarrow> tl_node" where
  "link prev n x = (case prev of None \<Rightarrow> x\<lparr>below := n\<rparr> | Some _ \<Rightarrow> x\<lparr>right := n\<rparr>)"

lemma link_NULL: "link NULL n = (\<lambda>x. x\<lparr>below := n\<rparr>)"
  by (simp add: link_def fun_eq_iff)

definition linked :: "om_heap \<Rightarrow> nat \<Rightarrow> ptr \<Rightarrow> nat \<Rightarrow> tl_node \<Rightarrow> bl_node \<Rightarrow> om_heap" where
  "linked h t prev x n0 nx =
     h\<lparr>fresh := fresh h + 2,
       tls := (tls h)(target t prev \<mapsto> link prev (Some (fresh h)) n0,
         fresh h \<mapsto> \<lparr>tl_label = 0, level = MAX_LEVEL, num_leaves = 1, parent = NULL, left = prev, right = NULL,
           below = Some (fresh h + 1), needs_rebalance = False\<rparr>),
       lists := (lists h)(fresh h + 1 \<mapsto> \<lparr>head = NULL, tail = NULL, above = Some (fresh h), heavy = False\<rparr>),
       nodes := (nodes h)(x \<mapsto> nx\<lparr>bl_prev := NULL\<rparr>)\<rparr>"

lemma split_lists_round:
  assumes "nodes h x = Some nx" "tls h (target t prev) = Some n0" "fresh_ok h"
  shows "split_lists h (Some t) (Some x) prev k =
    do {
      (cur, h') \<leftarrow> split_chunk (linked h t prev x n0 nx) (Some (fresh h + 1)) (Some x) 0 0;
      split_lists h' (Some t) cur (Some (fresh h)) (k + 1)
    }"
proof -
  have tf: "target t prev < fresh h" by (rule fresh_tl [OF assms(3,2)])
  have le: "nodes h (Suc (fresh h)) = None" using assms(3) by (simp add: fresh_ok_def)
  show ?thesis
    using assms(1,2) tf
    by (subst split_lists.simps)
      (cases prev; simp add: new_tl_def bl_new_eq upd_tl_def upd_list_def upd_node_def linked_def link_def target_def
        fun_upd_twist)
qed

text \<open>What the outer loop leaves.\<close>

definition parts_made :: "om_heap \<Rightarrow> om_heap \<Rightarrow> nat \<Rightarrow> ptr \<Rightarrow> nat list \<Rightarrow> (nat \<times> nat) list \<Rightarrow> bool" where
  "parts_made h h' t prev xs ps \<longleftrightarrow>
     parts_ok h' ps (chunks xs) \<and> split_chain (tls h') prev ps \<and> distinct (map fst ps) \<and> distinct (map snd ps) \<and>
     fst ` set ps \<subseteq> {fresh h..<fresh h'} \<and> snd ` set ps \<subseteq> {fresh h..<fresh h'} \<and> fresh h \<le> fresh h' \<and> fresh_ok h' \<and>
     (\<forall>p \<in> set ps. map_option heavy (lists h' (snd p)) = Some False) \<and>
     (\<forall>y. y \<notin> set xs \<longrightarrow> nodes h' y = nodes h y) \<and> (\<forall>K < fresh h. lists h' K = lists h K) \<and>
     (\<forall>s < fresh h. s \<noteq> target t prev \<longrightarrow> tls h' s = tls h s) \<and>
     tls h' (target t prev) =
       (if xs = [] then tls h (target t prev) else map_option (link prev (hd_ptr (map fst ps))) (tls h (target t prev)))"

lemma split_lists_ok:
  assumes "chain (nodes h) L p xs NULL" "distinct xs" "fresh_ok h" "tls h (target t prev) \<noteq> None"
  shows "\<exists>ps h'. split_lists h (Some t) (hd_ptr xs) prev k = Some (k + length ps, h') \<and> parts_made h h' t prev xs ps"
  using assms
proof (induction xs arbitrary: h p prev k rule: chunks.induct)
  case 1
  then show ?case
    by (intro exI [of _ "[]"] exI [of _ h]) (subst split_lists.simps, simp add: parts_made_def parts_ok_def)
next
  case (2 x xs)
  obtain nx where nx: "nodes h x = Some nx" "bl_next nx = (if xs = [] then NULL else hd_ptr xs)" "bl_list nx = Some L"
    using 2(2) by auto
  obtain n0 where n0: "tls h (target t prev) = Some n0" using 2(5) by blast
  define h1 where "h1 = linked h t prev x n0 nx"
  let ?n = "fresh h" and ?M = "fresh h + 1" and ?c = "x # take 63 xs" and ?r = "drop 63 xs"
  have xf: "x < fresh h" using fresh_okD [OF 2(4), of x] nx(1) by (cases "fresh h \<le> x") auto
  have tf: "target t prev < fresh h" by (rule fresh_tl [OF 2(4) n0])
  have fr1: "fresh_ok h1" using 2(4) xf tf by (auto simp: fresh_ok_def h1_def linked_def)
  have ch1: "chain (nodes h1) L NULL (x # xs) NULL"
  proof -
    have "x \<notin> set xs" using 2(3) by simp
    then have "chain (nodes h1) L (Some x) xs NULL = chain (nodes h) L (Some x) xs NULL"
      by (intro chain_cong) (auto simp: h1_def linked_def)
    then show ?thesis using 2(2) nx by (auto simp: h1_def linked_def)
  qed
  have ck: "chunk_ok h1 ?n ?M []" by (simp add: chunk_ok_def h1_def linked_def)
  obtain h2 where h2: "split_chunk h1 (Some ?M) (Some x) 0 0 = Some (hd_ptr ?r, h2)"
    "chunk_ok h2 ?n ?M ?c" "chain (nodes h2) L (last_ptr ?c) ?r NULL" "list_only (set ?c) ?M h1 h2"
    using split_chunk_ok [OF ck, of L "x # xs"] ch1 2(3) by (auto simp: even_label_def)
  have fr2: "fresh_ok h2" by (rule list_only_fresh [OF h2(4) fr1])
  have t2: "tls h2 = tls h1" "fresh h2 = fresh h + 2" using h2(4) by (simp_all add: list_only_def h1_def linked_def)
  define n1 where "n1 = \<lparr>tl_label = 0, level = MAX_LEVEL, num_leaves = 1, parent = NULL, left = prev, right = NULL,
    below = Some ?M, needs_rebalance = False\<rparr>"
  have tn: "tls h2 ?n = Some n1" unfolding t2 by (simp add: h1_def linked_def n1_def)
  have dr: "distinct ?r" "set ?c \<inter> set ?r = {}"
    using 2(3) set_drop_subset [of 63 xs] set_take_disj_set_drop_if_distinct [of xs 63 63] by auto
  obtain ps h' where ps: "split_lists h2 (Some t) (hd_ptr ?r) (Some ?n) (k + 1) = Some (k + 1 + length ps, h')"
    "parts_made h2 h' t (Some ?n) ?r ps"
    using 2(1) [OF h2(3) dr(1) fr2, of "Some ?n" "k + 1"] tn by (auto simp: target_def)
  have P: "parts_ok h' ps (chunks ?r)" "split_chain (tls h') (Some ?n) ps" "distinct (map fst ps)" "distinct (map snd ps)"
    "fst ` set ps \<subseteq> {fresh h + 2..<fresh h'}" "snd ` set ps \<subseteq> {fresh h + 2..<fresh h'}" "fresh h + 2 \<le> fresh h'" "fresh_ok h'"
    "\<And>p. p \<in> set ps \<Longrightarrow> map_option heavy (lists h' (snd p)) = Some False"
    "\<And>y. y \<notin> set ?r \<Longrightarrow> nodes h' y = nodes h2 y" "\<And>K. K < fresh h + 2 \<Longrightarrow> lists h' K = lists h2 K"
    "\<And>s. s < fresh h + 2 \<Longrightarrow> s \<noteq> ?n \<Longrightarrow> tls h' s = tls h2 s"
    "tls h' ?n = (if ?r = [] then tls h2 ?n else map_option (link (Some ?n) (hd_ptr (map fst ps))) (tls h2 ?n))"
    using ps(2) unfolding parts_made_def t2(2) by (auto simp: target_def)
  let ?ps = "(?n, ?M) # ps"
  have lc: "spread_ok h2 ?n ?M ?c" by (rule chunk_spread_ok [OF h2(2)]) auto
  have "nodes h' y = nodes h2 y" if "y \<in> set ?c" for y using P(10) [of y] dr(2) that by blast
  then have "spread_ok h' ?n ?M ?c" by (rule spread_ok_cong [OF lc]) (use P(11) [of ?M] in simp_all)
  then have "parts_ok h' ?ps (chunks (x # xs))" using P(1) by (simp add: parts_ok_def)
  moreover have "split_chain (tls h') prev ?ps"
  proof -
    have "ps = [] \<longleftrightarrow> ?r = []" using P(1) chunks_nonempty [of ?r] by (auto simp: parts_ok_def)
    then have "tls h' ?n = Some (n1\<lparr>right := hd_ptr (map fst ps)\<rparr>)"
      using P(13) tn by (cases "?r = []") (simp_all add: link_def n1_def)
    then show ?thesis using P(2) by (simp add: n1_def)
  qed
  moreover have "distinct (map fst ?ps)" "distinct (map snd ?ps)" using P(3-6) by fastforce+
  moreover have "fst ` set ?ps \<subseteq> {fresh h..<fresh h'}" "snd ` set ?ps \<subseteq> {fresh h..<fresh h'}"
    using P(5-7) by fastforce+
  moreover have "\<forall>p \<in> set ?ps. map_option heavy (lists h' (snd p)) = Some False"
    using P(9) P(11) [of ?M] h2(2) by (auto simp: chunk_ok_def)
  moreover have "nodes h' y = nodes h y" if "y \<notin> set (x # xs)" for y
  proof -
    have "y \<notin> set ?r" "y \<notin> set ?c" using that by (auto dest: in_set_takeD in_set_dropD)
    then have "nodes h' y = nodes h1 y" using P(10) [of y] h2(4) by (simp add: list_only_def)
    then show ?thesis using that by (simp add: h1_def linked_def)
  qed
  moreover have "lists h' K = lists h K" if "K < fresh h" for K
    using P(11) [of K] h2(4) that by (simp add: list_only_def h1_def linked_def)
  moreover have "tls h' s = tls h s" if "s < fresh h" "s \<noteq> target t prev" for s
    using P(12) [of s] that by (simp add: t2 h1_def linked_def)
  moreover have "tls h' (target t prev) = map_option (link prev (hd_ptr (map fst ?ps))) (tls h (target t prev))"
    using P(12) [of "target t prev"] tf n0 by (simp add: t2 h1_def linked_def)
  ultimately have "parts_made h h' t prev (x # xs) ?ps" using P(7,8) unfolding parts_made_def by simp
  moreover have "split_lists h (Some t) (hd_ptr (x # xs)) prev k = Some (k + length ?ps, h')"
    using split_lists_round [OF nx(1) n0 2(4), of k] h2(1) ps(1) by (simp add: h1_def)
  ultimately show ?case by blast
qed

section \<open>A whole split\<close>

text \<open>The list \<open>L\<close> below the leaf \<open>t\<close> became the parts \<open>ps\<close>.\<close>

definition split_done :: "om_heap \<Rightarrow> om_heap \<Rightarrow> nat \<Rightarrow> nat \<Rightarrow> nat list \<Rightarrow> (nat \<times> nat) list \<Rightarrow> bool" where
  "split_done h h' t L xs ps \<longleftrightarrow>
     ps \<noteq> [] \<and> parts_ok h' ps (chunks xs) \<and> split_chain (tls h') NULL ps \<and> distinct (map fst ps) \<and>
     distinct (map snd ps) \<and> fst ` set ps \<subseteq> {fresh h..<fresh h'} \<and> snd ` set ps \<subseteq> {fresh h..<fresh h'} \<and>
     fresh h \<le> fresh h' \<and> fresh_ok h' \<and> (\<forall>p \<in> set ps. map_option heavy (lists h' (snd p)) = Some False) \<and>
     (\<forall>y. y \<notin> set xs \<longrightarrow> nodes h' y = nodes h y) \<and> (\<forall>K < fresh h. K \<noteq> L \<longrightarrow> lists h' K = lists h K) \<and>
     (\<forall>s < fresh h. s \<noteq> t \<longrightarrow> tls h' s = tls h s) \<and>
     tls h' t = map_option (\<lambda>x. x\<lparr>below := hd_ptr (map fst ps)\<rparr>) (tls h t)"

lemma parts_ok_cong:
  assumes "parts_ok h ps css" "nodes h' = nodes h" "\<And>p. p \<in> set ps \<Longrightarrow> lists h' (snd p) = lists h (snd p)"
  shows "parts_ok h' ps css"
proof -
  have *: "p \<in> set ps \<Longrightarrow> spread_ok h (fst p) (snd p) c \<Longrightarrow> spread_ok h' (fst p) (snd p) c" for p c
    by (erule spread_ok_cong) (simp_all add: assms)
  show ?thesis
    unfolding parts_ok_def
    by (rule list.rel_mono_strong [OF assms(1) [unfolded parts_ok_def]]) (use * in auto)
qed

lemma split_ok:
  assumes ok: "list_ok h t L xs" and fr: "fresh_ok h" and t: "tls h t \<noteq> None"
  shows "\<exists>ps h'. split h (Some L) = Some (length ps, h') \<and> split_done h h' t L xs ps"
proof -
  obtain l where l: "lists h L = Some l" "head l = hd_ptr xs" "above l = Some t" and ch: "chain (nodes h) L NULL xs NULL"
    and xs: "xs \<noteq> []" "distinct xs" using ok by (rule list_okE)
  have Lf: "L < fresh h" using fresh_okD [OF fr, of L] l(1) by (cases "fresh h \<le> L") auto
  obtain ps h1 where s: "split_lists h (Some t) (hd_ptr xs) NULL 0 = Some (length ps, h1)"
    and m: "parts_made h h1 t NULL xs ps"
    using split_lists_ok [OF ch xs(2) fr, of t NULL 0] t by (auto simp: target_def)
  have P: "parts_ok h1 ps (chunks xs)" "snd ` set ps \<subseteq> {fresh h..<fresh h1}" "fresh_ok h1" "lists h1 L = Some l"
    using m l(1) Lf unfolding parts_made_def by auto
  define h2 where "h2 = h1\<lparr>lists := (lists h1)(L := None)\<rparr>"
  have "split h (Some L) = Some (length ps, h2)"
    using l s P(4) by (simp add: split_def upd_list_def free_list_def h2_def)
  moreover have L: "snd p \<noteq> L" if "p \<in> set ps" for p using P(2) Lf that by fastforce
  have "parts_ok h2 ps (chunks xs)" by (rule parts_ok_cong [OF P(1)]) (use L in \<open>auto simp: h2_def\<close>)
  moreover have "ps \<noteq> []" using P(1) chunks_nonempty [OF xs(1)] by (auto simp: parts_ok_def)
  moreover have "fresh_ok h2" using P(3) by (auto simp: h2_def fresh_ok_def)
  ultimately show ?thesis
    using m xs(1) L unfolding parts_made_def split_done_def
    by (intro exI [of _ ps] exI [of _ h2]) (auto simp: h2_def target_def link_NULL)
qed

section \<open>Room for an insertion\<close>

text \<open>After every node of \<open>A\<close>, a union of lists, there is a label left.\<close>

definition rooms :: "om_heap \<Rightarrow> nat set \<Rightarrow> bool" where
  "rooms h A \<longleftrightarrow>
     (\<forall>x \<in> A. \<exists>n l. nodes h x = Some n \<and> (\<forall>y. bl_next n = Some y \<longrightarrow> y \<in> A) \<and>
        get_new_label h (Some x) = Some l \<and> l > 0)"

lemma rooms_Un: "rooms h A \<Longrightarrow> rooms h B \<Longrightarrow> rooms h (A \<union> B)"
  unfolding rooms_def by (metis UnCI UnE)

lemma rooms_cong:
  assumes "rooms h A" "\<And>x. x \<in> A \<Longrightarrow> nodes h' x = nodes h x"
  shows "rooms h' A"
  unfolding rooms_def
proof
  fix x assume x: "x \<in> A"
  then obtain n l where n: "nodes h x = Some n" "\<forall>y. bl_next n = Some y \<longrightarrow> y \<in> A" "get_new_label h (Some x) = Some l" "l > 0"
    using assms(1) unfolding rooms_def by blast
  have "get_new_label h' (Some x) = get_new_label h (Some x)"
    using n(1,2) assms(2) x by (cases "bl_next n") (auto simp: get_new_label_def)
  then show "\<exists>n l. nodes h' x = Some n \<and> (\<forall>y. bl_next n = Some y \<longrightarrow> y \<in> A) \<and>
      get_new_label h' (Some x) = Some l \<and> l > 0"
    using n assms(2) [OF x] by auto
qed

lemma spread_rooms:
  assumes "spread_ok h t L xs"
  shows "rooms h (set xs)"
  unfolding rooms_def
proof
  fix x assume x: "x \<in> set xs"
  have lo: "list_ok h t L xs" and ev: "map (lab (nodes h)) xs = map even_label [0..<length xs]" "length xs \<le> 64"
    using assms by (simp_all add: spread_ok_def)
  have ch: "chain (nodes h) L NULL xs NULL" using lo by (simp add: list_ok_def)
  obtain us ys where xs: "xs = us @ x # ys" using x by (meson split_list)
  obtain n where n: "nodes h x = Some n" "bl_next n = (if ys = [] then NULL else hd_ptr ys)"
    using chain_next [OF ch [unfolded xs]] by blast
  have ex: "ys = [] \<or> (\<exists>y zs ny. ys = y # zs \<and> nodes h y = Some ny)"
    using list_ok_node [OF lo] xs by (cases ys) auto
  let ?k = "length us"
  have labs: "lab (nodes h) (xs ! i) = even_label i" if "i < length xs" for i
    using arg_cong [OF ev(1), of "\<lambda>zs. zs ! i"] that by simp
  have lx: "unat (lab (nodes h) x) = ?k * 2 ^ 58" and k: "?k < 64"
    using labs [of ?k] ev(2) xs unat_even_label [of ?k] by (simp_all add: nth_append)
  define l where "l = mid_label (lab (nodes h) x) (case ys of [] \<Rightarrow> None | y # _ \<Rightarrow> Some (lab (nodes h) y))"
  have "l > 0"
  proof (cases ys)
    case Nil
    have "unat (lab (nodes h) x) \<noteq> unat MAX_LABEL"
      using lx k by (simp add: MAX_LABEL_def unsigned_minus_1_eq_mask mask_eq_exp_minus_1)
    then have "lab (nodes h) x \<noteq> MAX_LABEL" by auto
    then have "lab (nodes h) x < l" using mid_label_last [of "lab (nodes h) x"] Nil by (simp add: l_def)
    then show ?thesis by (rule le_less_trans [OF word_zero_le])
  next
    case (Cons y zs)
    have i: "Suc ?k < length xs" "xs ! Suc ?k = y" using xs Cons by (simp_all add: nth_append)
    have ly: "unat (lab (nodes h) y) = Suc ?k * 2 ^ 58"
      using labs [OF i(1)] i ev(2) unat_even_label [of "Suc ?k"] by simp
    then have lt: "lab (nodes h) x < lab (nodes h) y" using lx by (simp add: word_less_nat_alt)
    have "unat (lab (nodes h) y) \<noteq> unat (lab (nodes h) x) + 1" using lx ly by simp
    then have "lab (nodes h) x < l" using mid_label_between [OF lt] Cons by (simp add: l_def)
    then show ?thesis by (rule le_less_trans [OF word_zero_le])
  qed
  moreover have "get_new_label h (Some x) = Some l"
    using get_new_label_chain [OF ch [unfolded xs] ex] by (simp add: l_def)
  moreover have "\<forall>y. bl_next n = Some y \<longrightarrow> y \<in> set xs" using n(2) xs by (cases ys) auto
  ultimately show "\<exists>n l. nodes h x = Some n \<and> (\<forall>y. bl_next n = Some y \<longrightarrow> y \<in> set xs) \<and>
      get_new_label h (Some x) = Some l \<and> l > 0"
    using n(1) by blast
qed

lemma parts_rooms: "parts_ok h ps css \<Longrightarrow> rooms h (set (concat css))"
  unfolding parts_ok_def
proof (induction rule: list_all2_induct)
  case Nil
  then show ?case by (simp add: rooms_def)
next
  case (Cons p ps c css)
  then show ?case using rooms_Un [OF spread_rooms [OF Cons(1)] Cons(3)] by simp
qed

lemma parts_lists: "parts_ok h ps css \<Longrightarrow> list_all2 (\<lambda>p xs. list_ok h (fst p) (snd p) xs) ps css"
  unfolding parts_ok_def by (erule list.rel_mono_strong) (simp add: spread_ok_def)

end
