(* ===== verification/OmRelabel.thy ===== *)
theory OmRelabel
  imports OmSplit
begin

text \<open>
  Relabeling (\<open>om_relabel\<close> of \<open>cracer/src/om.cpp\<close>): every heavy sublist is split, the tree is
  rebalanced, and the order of the nodes is the one before.
\<close>

section \<open>Replacing a leaf\<close>

fun tip :: "nat \<Rightarrow> nat \<Rightarrow> shape \<Rightarrow> bool" where
  "tip t L (Tip s K) \<longleftrightarrow> s = t \<and> K = L"
| "tip t L (Spl s ps) \<longleftrightarrow> False"
| "tip t L (Bin s a b) \<longleftrightarrow> tip t L a \<or> tip t L b"

fun graft :: "nat \<Rightarrow> shape \<Rightarrow> shape \<Rightarrow> shape" where
  "graft t T (Tip s K) = (if s = t then T else Tip s K)"
| "graft t T (Spl s ps) = Spl s ps"
| "graft t T (Bin s a b) = Bin s (graft t T a) (graft t T b)"

lemma tip_taddrs: "tip t L S \<Longrightarrow> t \<in> set (taddrs S)"
  by (induction S) auto

lemma tip_leaf: "tip t L S \<Longrightarrow> (t, L) \<in> set (leaves S)"
  by (induction S) auto

lemma leaf_tip: "\<not> pend S \<Longrightarrow> (t, L) \<in> set (leaves S) \<Longrightarrow> tip t L S"
  by (induction S) auto

lemma graft_absent: "t \<notin> set (taddrs S) \<Longrightarrow> graft t T S = S"
  by (induction S) auto

lemma rt_graft: "rt T = t \<Longrightarrow> rt (graft t T S) = rt S"
  by (cases S) auto

lemma leaves_graft:
  assumes "tip t L S" "distinct (taddrs S)"
  shows "\<exists>us vs. leaves S = us @ (t, L) # vs \<and> leaves (graft t T S) = us @ leaves T @ vs"
  using assms
proof (induction S)
  case (Bin s a b)
  show ?case
  proof (cases "tip t L a")
    case True
    then have "graft t T b = b" using tip_taddrs [OF True] Bin.prems(2) by (intro graft_absent) auto
    moreover obtain us vs where "leaves a = us @ (t, L) # vs" "leaves (graft t T a) = us @ leaves T @ vs"
      using Bin.IH(1) [OF True] Bin.prems(2) by auto
    ultimately show ?thesis by (intro exI [of _ us] exI [of _ "vs @ leaves b"]) simp
  next
    case False
    then have b: "tip t L b" using Bin.prems(1) by simp
    then have "graft t T a = a" using tip_taddrs [OF b] Bin.prems(2) by (intro graft_absent) auto
    moreover obtain us vs where "leaves b = us @ (t, L) # vs" "leaves (graft t T b) = us @ leaves T @ vs"
      using Bin.IH(2) [OF b] Bin.prems(2) by auto
    ultimately show ?thesis by (intro exI [of _ "leaves a @ us"] exI [of _ vs]) simp
  qed
next
  case (Tip s K)
  then show ?case by (intro exI [of _ "[]"]) simp
qed simp

lemma tip_graft: "tip u K S \<Longrightarrow> u \<noteq> t \<Longrightarrow> tip u K (graft t T S)"
  by (induction S) auto

lemma taddrs_graft: "set (taddrs (graft t T S)) \<subseteq> set (taddrs S) \<union> set (taddrs T)"
  by (induction S) auto

lemma distinct_graft:
  assumes "distinct (taddrs S)" "distinct (taddrs T)" "set (taddrs T) \<inter> set (taddrs S) \<subseteq> {t}"
  shows "distinct (taddrs (graft t T S))"
  using assms
proof (induction S)
  case (Bin s a b)
  have part: "distinct (taddrs (graft t T a))" "distinct (taddrs (graft t T b))"
    using Bin.IH Bin.prems by auto
  have one: "graft t T a = a \<or> graft t T b = b"
    using Bin.prems(1) graft_absent [of t a T] graft_absent [of t b T] by auto
  show ?case
  proof (cases "s = t")
    case True
    then have "graft t T a = a" "graft t T b = b" using Bin.prems(1) by (simp_all add: graft_absent)
    then show ?thesis using Bin.prems by simp
  next
    case False
    have sub: "set (taddrs (graft t T a)) \<subseteq> set (taddrs a) \<union> set (taddrs T)"
      "set (taddrs (graft t T b)) \<subseteq> set (taddrs b) \<union> set (taddrs T)" by (rule taddrs_graft)+
    have s: "s \<notin> set (taddrs (graft t T a))" "s \<notin> set (taddrs (graft t T b))"
      using sub Bin.prems False by auto
    have T: "x \<in> set (taddrs T) \<Longrightarrow> x \<in> set (taddrs a) \<union> set (taddrs b) \<Longrightarrow> x = t" for x using Bin.prems(3) by auto
    have "set (taddrs (graft t T a)) \<inter> set (taddrs (graft t T b)) = {}"
    proof (cases "t \<in> set (taddrs a)")
      case True
      then have tb: "t \<notin> set (taddrs b)" using Bin.prems(1) by auto
      then have "graft t T b = b" by (rule graft_absent)
      then show ?thesis using sub(1) T tb Bin.prems(1) by fastforce
    next
      case False
      then have "graft t T a = a" by (rule graft_absent)
      then show ?thesis using sub(2) T False Bin.prems(1) by fastforce
    qed
    then show ?thesis using part s by simp
  qed
qed auto

section \<open>The walk to the root\<close>

lemma grow_step:
  "tls h t = Some n \<Longrightarrow> grow_path h (Some t) k ht =
    grow_path (put_tl t (n\<lparr>num_leaves := (num_leaves n + k) mod 2 ^ 64, needs_rebalance := True\<rparr>) h) (parent n) k (ht + 1)"
  by (subst grow_path.simps) (simp add: upd_tl_at)

text \<open>One step of the walk, from a subtree whose changed records are in \<open>A\<close>.\<close>

lemma grow_parent:
  assumes o1: "tl_only A h h1" and f: "fresh h1 = fresh h" and u: "tls h u = Some n" "u \<notin> A" and fr: "fresh_ok h"
    and c: "(num_leaves n + k) mod 2 ^ 64 = c"
    and h2: "h2 = put_tl u (n\<lparr>num_leaves := c, needs_rebalance := True\<rparr>) h1"
  shows "grow_path h1 (Some u) k ht = grow_path h2 (parent n) k (ht + 1)" "tl_only (insert u A) h h2"
    "fresh h2 = fresh h" "s < fresh h \<Longrightarrow> s \<notin> insert u A \<Longrightarrow> tls h2 s = tls h s" "s \<noteq> u \<Longrightarrow> tls h2 s = tls h1 s"
    "tls h2 u = Some (n\<lparr>num_leaves := c, needs_rebalance := True\<rparr>)"
proof -
  have uf: "u < fresh h" by (rule fresh_tl [OF fr u(1)])
  have u1: "tls h1 u = Some n" using tl_onlyD(5) [OF o1 u(2)] u(1) uf by simp
  show "grow_path h1 (Some u) k ht = grow_path h2 (parent n) k (ht + 1)"
    using grow_step [OF u1, of k ht] c h2 by simp
  have o2: "tl_only {u} h1 h2" unfolding h2 by (rule tl_only_put) (use tl_onlyD(4) [OF o1] uf f in auto)
  show o: "tl_only (insert u A) h h2" by (rule tl_only_mono [OF tl_only_trans [OF o1 o2]]) auto
  show "fresh h2 = fresh h" "tls h2 u = Some (n\<lparr>num_leaves := c, needs_rebalance := True\<rparr>)" using f h2 by simp_all
  show "s < fresh h \<Longrightarrow> s \<notin> insert u A \<Longrightarrow> tls h2 s = tls h s" using tl_onlyD(5) [OF o] by blast
  show "s \<noteq> u \<Longrightarrow> tls h2 s = tls h1 s" using h2 by simp
qed

lemma pend_graft: "tip t L S \<Longrightarrow> pend (graft t (Spl t ps) S)"
  by (induction S) auto

lemma grow_path_ok:
  assumes "shape_ok m p d lo S" "flags_ok m S" "tip t L S" "distinct (taddrs S)"
    "\<forall>s \<in> set (taddrs S) - {t}. tls h s = m s"
    "tls h t = map_option (\<lambda>x. x\<lparr>below := hd_ptr (map fst ps)\<rparr>) (m t)"
    "split_chain (tls h) NULL ps" "fst ` set ps \<inter> set (taddrs S) = {}" "2 \<le> length ps"
    "nl S + length ps \<le> 2 ^ 64" "fresh_ok h"
  shows "\<exists>h' j. grow_path h (Some t) (length ps - 1) ht = grow_path h' p (length ps - 1) (ht + j) \<and> 1 \<le> j \<and>
    dep (graft t (Spl t ps) S) \<le> max (dep S) (j - 1 + fast_log2_ceil (length ps)) \<and>
    shape_ok (tls h') p d lo (graft t (Spl t ps) S) \<and> flags_ok (tls h') (graft t (Spl t ps) S) \<and>
    tl_only (set (taddrs S)) h h' \<and> fresh h' = fresh h"
  using assms
proof (induction S arbitrary: p d lo)
  case (Tip s K)
  then have s: "s = t" "K = L" by auto
  obtain n where n: "m t = Some n" "parent n = p" "level n = MAX_LEVEL" "left n = NULL" "right n = NULL"
    "num_leaves n = 1" "unat (tl_label n) = lo" using Tip.prems(1) s by auto
  define n1 where "n1 = n\<lparr>below := hd_ptr (map fst ps)\<rparr>"
  have t: "tls h t = Some n1" using Tip.prems(6) n(1) by (simp add: n1_def)
  define n2 where "n2 = n1\<lparr>num_leaves := length ps, needs_rebalance := True\<rparr>"
  define h' where "h' = put_tl t n2 h"
  have "grow_path h (Some t) (length ps - 1) ht = grow_path h' p (length ps - 1) (ht + 1)"
  proof -
    have "(num_leaves n1 + (length ps - 1)) mod 2 ^ 64 = length ps" using n(6) Tip.prems(9,10) by (simp add: n1_def)
    then show ?thesis using grow_step [OF t, of "length ps - 1" ht] n(2) by (simp add: n1_def n2_def h'_def)
  qed
  moreover have "split_chain (tls h') NULL ps"
  proof (subst split_chain_cong [where m = "tls h"])
    show "tls h' x = tls h x" if "x \<in> fst ` set ps" for x using that Tip.prems(8) s by (auto simp: h'_def)
  qed (rule Tip.prems(7))
  moreover have "tl_only {t} h h'"
    unfolding h'_def by (rule tl_only_put [OF Tip.prems(11) fresh_tl [OF Tip.prems(11) t]])
  moreover have "tls h' t = Some n2" "fresh h' = fresh h" by (simp_all add: h'_def)
  ultimately show ?case
    using n Tip.prems(9) s
    by (intro exI [of _ h'] exI [of _ 1]) (auto simp: n2_def n1_def flag_def)
next
  case (Spl s qs)
  then show ?case by simp
next
  case (Bin u a b)
  let ?T = "Spl t ps" and ?k = "length ps - 1"
  obtain n where n: "m u = Some n" "parent n = p" "level n = d" "left n = Some (rt a)" "right n = Some (rt b)"
    "num_leaves n = nl a + nl b" "unat (tl_label n) = lo + width d - 1"
    and d: "d < 64" and sa: "shape_ok m (Some u) (Suc d) lo a"
    and sb: "shape_ok m (Some u) (Suc d) (lo + width (Suc d)) b" using Bin.prems(1) by auto
  have fa: "flags_ok m a" "flags_ok m b" using Bin.prems(2) by auto
  have dist: "distinct (taddrs a)" "distinct (taddrs b)" "set (taddrs a) \<inter> set (taddrs b) = {}"
    "u \<notin> set (taddrs a)" "u \<notin> set (taddrs b)" using Bin.prems(4) by auto
  have ut: "u \<noteq> t" using Bin.prems(3) dist tip_taddrs by auto
  have hu: "tls h u = Some n" using Bin.prems(5) ut n(1) by auto
  have old: "\<forall>s \<in> set (taddrs a) - {t}. tls h s = m s" "\<forall>s \<in> set (taddrs b) - {t}. tls h s = m s"
    "fst ` set ps \<inter> set (taddrs a) = {}" "fst ` set ps \<inter> set (taddrs b) = {}"
    "nl a + length ps \<le> 2 ^ 64" "nl b + length ps \<le> 2 ^ 64" using Bin.prems(5,8,10) by auto
  define c where "c = nl a + nl b + ?k"
  have md: "(num_leaves n + ?k) mod 2 ^ 64 = c" using Bin.prems(9,10) n(6) by (simp add: c_def)
  have same: "s < fresh h \<and> (s \<noteq> t \<longrightarrow> tls h s = m s)" if s: "s \<in> set (taddrs (Bin u a b))" for s
  proof -
    obtain ns where "m s = Some ns" using shape_dom [OF Bin.prems(1) s] by blast
    then have "\<exists>ns. tls h s = Some ns" using s Bin.prems(5,6) by (cases "s = t") auto
    then show ?thesis using s Bin.prems(5) fresh_tl [OF Bin.prems(11)] by auto
  qed
  show ?case
  proof (cases "tip t L a")
    case True
    have ty: "t \<notin> set (taddrs b)" using tip_taddrs [OF True] dist(3) by auto
    have gy: "graft t ?T b = b" by (rule graft_absent [OF ty])
    obtain h1 j where h1: "grow_path h (Some t) ?k ht = grow_path h1 (Some u) ?k (ht + j)" "1 \<le> j"
      "dep (graft t ?T a) \<le> max (dep a) (j - 1 + fast_log2_ceil (length ps))"
      "shape_ok (tls h1) (Some u) (Suc d) lo (graft t ?T a)" "flags_ok (tls h1) (graft t ?T a)"
      "tl_only (set (taddrs a)) h h1" "fresh h1 = fresh h"
      using Bin.IH(1) [OF sa fa(1) True dist(1) old(1) Bin.prems(6,7) old(3) Bin.prems(9) old(5) Bin.prems(11)]
      by blast
    define h2 where "h2 = put_tl u (n\<lparr>num_leaves := c, needs_rebalance := True\<rparr>) h1"
    note up = grow_parent [OF h1(6,7) hu dist(4) Bin.prems(11) md h2_def]
    have y: "tls h2 s = m s" if s: "s \<in> set (taddrs b)" for s
    proof -
      have "s \<notin> insert u (set (taddrs a))" "s \<noteq> t" using s dist ty by auto
      then show ?thesis using up(4) [of s] same [of s] s by simp
    qed
    have x: "tls h2 s = tls h1 s" if "s \<in> set (taddrs (graft t ?T a))" for s
      using subsetD [OF taddrs_graft that] dist(4) Bin.prems(8) ut by (intro up(5)) auto
    have "shape_ok (tls h2) p d lo (graft t ?T (Bin u a b))"
      using n d gy h1(4) sb up(6) shape_cong(1) [of "graft t ?T a" "tls h2" "tls h1", OF x]
        shape_cong(1) [of b "tls h2" m, OF y] leaves_graft [OF True dist(1), of ?T] Bin.prems(9)
      by (auto simp: rt_graft c_def)
    moreover have "flags_ok (tls h2) (graft t ?T (Bin u a b))"
      using gy h1(5) fa up(6) pend_graft [OF True] shape_cong(2) [of "graft t ?T a" "tls h2" "tls h1", OF x]
        shape_cong(2) [of b "tls h2" m, OF y]
      by (simp add: flag_def)
    moreover have "tl_only (set (taddrs (Bin u a b))) h h2" by (rule tl_only_mono [OF up(2)]) auto
    moreover have "grow_path h (Some t) ?k ht = grow_path h2 p ?k (ht + (j + 1))"
      using h1(1) up(1) [of "ht + j"] n(2) by simp
    moreover have "dep (graft t ?T (Bin u a b)) \<le> max (dep (Bin u a b)) (j + 1 - 1 + fast_log2_ceil (length ps))"
      using h1(2,3) gy by auto
    ultimately show ?thesis using up(3) by (intro exI [of _ h2] exI [of _ "j + 1"]) auto
  next
    case False
    then have True: "tip t L b" using Bin.prems(3) by simp
    have ty: "t \<notin> set (taddrs a)" using tip_taddrs [OF True] dist(3) by auto
    have gy: "graft t ?T a = a" by (rule graft_absent [OF ty])
    obtain h1 j where h1: "grow_path h (Some t) ?k ht = grow_path h1 (Some u) ?k (ht + j)" "1 \<le> j"
      "dep (graft t ?T b) \<le> max (dep b) (j - 1 + fast_log2_ceil (length ps))"
      "shape_ok (tls h1) (Some u) (Suc d) (lo + width (Suc d)) (graft t ?T b)" "flags_ok (tls h1) (graft t ?T b)"
      "tl_only (set (taddrs b)) h h1" "fresh h1 = fresh h"
      using Bin.IH(2) [OF sb fa(2) True dist(2) old(2) Bin.prems(6,7) old(4) Bin.prems(9) old(6) Bin.prems(11)]
      by blast
    define h2 where "h2 = put_tl u (n\<lparr>num_leaves := c, needs_rebalance := True\<rparr>) h1"
    note up = grow_parent [OF h1(6,7) hu dist(5) Bin.prems(11) md h2_def]
    have y: "tls h2 s = m s" if s: "s \<in> set (taddrs a)" for s
    proof -
      have "s \<notin> insert u (set (taddrs b))" "s \<noteq> t" using s dist ty by auto
      then show ?thesis using up(4) [of s] same [of s] s by simp
    qed
    have x: "tls h2 s = tls h1 s" if "s \<in> set (taddrs (graft t ?T b))" for s
      using subsetD [OF taddrs_graft that] dist(5) Bin.prems(8) ut by (intro up(5)) auto
    have "shape_ok (tls h2) p d lo (graft t ?T (Bin u a b))"
      using n d gy h1(4) sa up(6) shape_cong(1) [of "graft t ?T b" "tls h2" "tls h1", OF x]
        shape_cong(1) [of a "tls h2" m, OF y] leaves_graft [OF True dist(2), of ?T] Bin.prems(9)
      by (auto simp: rt_graft c_def)
    moreover have "flags_ok (tls h2) (graft t ?T (Bin u a b))"
      using gy h1(5) fa up(6) pend_graft [OF True] shape_cong(2) [of "graft t ?T b" "tls h2" "tls h1", OF x]
        shape_cong(2) [of a "tls h2" m, OF y]
      by (simp add: flag_def)
    moreover have "tl_only (set (taddrs (Bin u a b))) h h2" by (rule tl_only_mono [OF up(2)]) auto
    moreover have "grow_path h (Some t) ?k ht = grow_path h2 p ?k (ht + (j + 1))"
      using h1(1) up(1) [of "ht + j"] n(2) by simp
    moreover have "dep (graft t ?T (Bin u a b)) \<le> max (dep (Bin u a b)) (j + 1 - 1 + fast_log2_ceil (length ps))"
      using h1(2,3) gy by auto
    ultimately show ?thesis using up(3) by (intro exI [of _ h2] exI [of _ "j + 1"]) auto
  qed
qed

end
