(* ===== verification/OmStruct.thy ===== *)
theory OmStruct
  imports OmRelabel
begin

text \<open>
  The order-maintenance structure as a whole: a tree whose leaves hold sublists, the sequence
  of nodes it stands for, and that relabeling keeps this sequence.
\<close>

section \<open>The structure and its sequence of nodes\<close>

definition tree_ok :: "om_heap \<Rightarrow> om \<Rightarrow> shape \<Rightarrow> bool" where
  "tree_ok h m S \<longleftrightarrow>
     root m = Some (rt S) \<and> shape_ok (tls h) NULL 0 0 S \<and> flags_ok (tls h) S \<and> distinct (taddrs S) \<and>
     dep S \<le> om_height m \<and> fresh_ok h"

text \<open>\<open>c\<close> gives the nodes of the list at an address.\<close>

definition order :: "(nat \<Rightarrow> nat list) \<Rightarrow> (nat \<times> nat) list \<Rightarrow> nat list" where
  "order c ps = concat (map (\<lambda>p. c (snd p)) ps)"

definition lists_ok :: "om_heap \<Rightarrow> (nat \<Rightarrow> nat list) \<Rightarrow> (nat \<times> nat) list \<Rightarrow> bool" where
  "lists_ok h c ps \<longleftrightarrow>
     distinct (map snd ps) \<and> distinct (order c ps) \<and> (\<forall>p \<in> set ps. list_ok h (fst p) (snd p) (c (snd p)))"

text \<open>The leaves whose list is marked heavy.\<close>

definition heavies :: "om_heap \<Rightarrow> (nat \<times> nat) list \<Rightarrow> nat set" where
  "heavies h ps = fst ` {p \<in> set ps. map_option heavy (lists h (snd p)) = Some True}"

lemma order_append [simp]: "order c (ps @ qs) = order c ps @ order c qs"
  by (simp add: order_def)

lemma order_Cons [simp]: "order c (p # ps) = c (snd p) @ order c ps" "order c [] = []"
  by (simp_all add: order_def)

lemma order_part: "p \<in> set ps \<Longrightarrow> set (c (snd p)) \<subseteq> set (order c ps)"
  by (auto simp: order_def)

lemma order_cong: "(\<And>p. p \<in> set ps \<Longrightarrow> c (snd p) = c' (snd p)) \<Longrightarrow> order c ps = order c' ps"
  by (simp add: order_def cong: map_cong)

lemma lists_nonempty: "lists_ok h c ps \<Longrightarrow> p \<in> set ps \<Longrightarrow> c (snd p) \<noteq> []"
  by (auto simp: lists_ok_def list_ok_def)

lemma leaves_le_order:
  assumes "lists_ok h c ps"
  shows "length ps \<le> length (order c ps)"
proof -
  have "\<forall>p \<in> set ps. c (snd p) \<noteq> []" using lists_nonempty [OF assms] by blast
  then show ?thesis by (induction ps) (auto simp: Suc_le_eq add_strict_increasing)
qed

lemma list_fresh: "fresh_ok h \<Longrightarrow> list_ok h t L xs \<Longrightarrow> L < fresh h"
  by (erule list_okE) (metis fresh_okD not_le option.distinct(1))

section \<open>Relabeling one heavy list\<close>

text \<open>The contents after the list of a leaf became the parts \<open>ps\<close>.\<close>

definition recontent :: "(nat \<times> nat) list \<Rightarrow> nat list list \<Rightarrow> (nat \<Rightarrow> nat list) \<Rightarrow> nat \<Rightarrow> nat list" where
  "recontent ps css c K = (case map_of (zip (map snd ps) css) K of None \<Rightarrow> c K | Some xs \<Rightarrow> xs)"

lemma recontent_parts:
  assumes "distinct (map snd ps)" "length css = length ps"
  shows "map (\<lambda>p. recontent ps css c (snd p)) ps = css"
proof (rule nth_equalityI)
  fix i assume "i < length (map (\<lambda>p. recontent ps css c (snd p)) ps)"
  then have i: "i < length ps" by simp
  have "map_of (zip (map snd ps) css) (map snd ps ! i) = Some (css ! i)"
    by (rule map_of_zip_nth) (use assms i in auto)
  then show "map (\<lambda>p. recontent ps css c (snd p)) ps ! i = css ! i" using i by (simp add: recontent_def)
qed (simp add: assms)

lemma recontent_other: "K \<notin> snd ` set ps \<Longrightarrow> length css = length ps \<Longrightarrow> recontent ps css c K = c K"
  by (auto simp: recontent_def split: option.split dest!: map_of_SomeD set_zip_leftD)

text \<open>The lists after the split of \<open>(t, L)\<close>, whose leaf is replaced by \<open>qs\<close>, the parts at their final leaves.\<close>

lemma lists_replace:
  assumes ok: "lists_ok h c (us @ (t, L) # vs)" and fr: "fresh_ok h"
    and len: "length css = length qs" and css: "concat css = c L" and d: "distinct (map snd qs)"
    and new: "\<forall>q \<in> set qs. fresh h \<le> snd q"
    and parts: "list_all2 (\<lambda>q xs. list_ok h' (fst q) (snd q) xs) qs css"
    and other: "\<forall>y. y \<notin> set (c L) \<longrightarrow> nodes h' y = nodes h y" "\<forall>K < fresh h. K \<noteq> L \<longrightarrow> lists h' K = lists h K"
  shows "lists_ok h' (recontent qs css c) (us @ qs @ vs)"
    "order (recontent qs css c) (us @ qs @ vs) = order c (us @ (t, L) # vs)"
proof -
  let ?c = "recontent qs css c"
  have lf: "snd p < fresh h" if "p \<in> set us \<union> set vs" for p
    using that ok fr by (auto simp: lists_ok_def intro: list_fresh)
  have keep: "?c (snd p) = c (snd p)" if "p \<in> set us \<union> set vs" for p
    by (rule recontent_other [OF _ len]) (use lf [OF that] new in force)
  have os: "order ?c us = order c us" "order ?c vs = order c vs" using keep by (auto intro!: order_cong)
  have oq: "order ?c qs = c L" unfolding order_def recontent_parts [OF d len] css ..
  show o: "order ?c (us @ qs @ vs) = order c (us @ (t, L) # vs)" using os oq by simp
  have old: "snd ` (set us \<union> set vs) \<subseteq> {..<fresh h}" using lf by blast
  have "snd ` set qs \<subseteq> {fresh h..}" using new by blast
  then have "snd ` set us \<inter> snd ` set qs = {}" "snd ` set vs \<inter> snd ` set qs = {}" using old by fastforce+
  moreover have "distinct (map snd us)" "distinct (map snd vs)" "snd ` set us \<inter> snd ` set vs = {}"
    using ok by (auto simp: lists_ok_def)
  ultimately have "distinct (map snd (us @ qs @ vs))" using d by auto
  moreover have "distinct (order ?c (us @ qs @ vs))" unfolding o using ok by (simp add: lists_ok_def)
  moreover have "list_ok h' (fst p) (snd p) (?c (snd p))" if p: "p \<in> set (us @ qs @ vs)" for p
  proof (cases "p \<in> set qs")
    case True
    then obtain i where i: "i < length qs" "p = qs ! i" by (metis in_set_conv_nth)
    have "?c (snd (qs ! i)) = css ! i"
      using recontent_parts [OF d len, of c] i(1) by (metis (no_types, lifting) nth_map)
    then show ?thesis using list_all2_nthD [OF parts i(1)] i(2) by simp
  next
    case False
    then have p: "p \<in> set us \<union> set vs" using that by auto
    have lp: "list_ok h (fst p) (snd p) (c (snd p))" using ok p by (auto simp: lists_ok_def)
    have "snd p \<noteq> L" using ok p by (auto simp: lists_ok_def)
    then have l: "lists h' (snd p) = lists h (snd p)" using other(2) lf [OF p] by simp
    have "set (c (snd p)) \<inter> set (c L) = {}" using ok p by (auto simp: lists_ok_def order_def)
    then have "nodes h' x = nodes h x" if "x \<in> set (c (snd p))" for x using other(1) that by blast
    then have "list_ok h' (fst p) (snd p) (c (snd p))" by (rule list_ok_cong [OF lp]) (use l in simp_all)
    then show ?thesis using keep [OF p] by simp
  qed
  ultimately show "lists_ok h' ?c (us @ qs @ vs)" by (simp add: lists_ok_def)
qed

lemma heavies_replace:
  assumes "distinct (map fst (us @ (t, L) # vs))" "\<forall>q \<in> set qs. map_option heavy (lists h' (snd q)) = Some False"
    and "\<And>p. p \<in> set us \<union> set vs \<Longrightarrow> lists h' (snd p) = lists h (snd p)"
  shows "heavies h' (us @ qs @ vs) \<subseteq> heavies h (us @ (t, L) # vs) - {t}"
proof
  fix u assume "u \<in> heavies h' (us @ qs @ vs)"
  then obtain p where p: "p \<in> set (us @ qs @ vs)" "map_option heavy (lists h' (snd p)) = Some True" "u = fst p"
    by (auto simp: heavies_def)
  then have "p \<in> set us \<union> set vs" using assms(2) by auto
  then show "u \<in> heavies h (us @ (t, L) # vs) - {t}"
  proof -
    have "lists h' (snd p) = lists h (snd p)" using assms(3) \<open>p \<in> set us \<union> set vs\<close> .
    then have "u \<in> heavies h (us @ (t, L) # vs)"
      using p \<open>p \<in> set us \<union> set vs\<close> unfolding heavies_def by auto
    moreover have "fst p \<noteq> t" using assms(1) \<open>p \<in> set us \<union> set vs\<close> by auto
    ultimately show ?thesis using p(3) by simp
  qed
qed

lemma graft_tip_ok:
  assumes "shape_ok m p d lo S" "tip t L S" "distinct (taddrs S)" "\<forall>s \<in> set (taddrs S) - {t}. m' s = m s"
    "m' t = map_option (\<lambda>x. x\<lparr>below := Some K\<rparr>) (m t)"
  shows "shape_ok m' p d lo (graft t (Tip t K) S)" "flags_ok m S \<Longrightarrow> flags_ok m' (graft t (Tip t K) S)"
    "dep (graft t (Tip t K) S) = dep S" "pend (graft t (Tip t K) S) = pend S"
proof -
  have "shape_ok m' p d lo (graft t (Tip t K) S) \<and> (flags_ok m S \<longrightarrow> flags_ok m' (graft t (Tip t K) S)) \<and>
    dep (graft t (Tip t K) S) = dep S \<and> pend (graft t (Tip t K) S) = pend S \<and> nl (graft t (Tip t K) S) = nl S"
    using assms
  proof (induction S arbitrary: p d lo)
    case (Bin u a b)
    have "u \<noteq> t" using Bin.prems(2,3) tip_taddrs [of t L a] tip_taddrs [of t L b] by auto
    then have u: "m' u = m u" using Bin.prems(4) by simp
    have fu: "flag m' u = flag m u" using u by (simp add: flag_def)
    have rts: "rt (graft t (Tip t K) a) = rt a" "rt (graft t (Tip t K) b) = rt b" by (simp_all add: rt_graft)
    show ?case
    proof (cases "tip t L a")
      case True
      then have tb: "t \<notin> set (taddrs b)" using tip_taddrs Bin.prems(3) by auto
      have same: "shape_ok m' q e l b = shape_ok m q e l b" "flags_ok m' b = flags_ok m b" for q e l
        by (rule shape_cong; use Bin.prems(4) tb in auto)+
      show ?thesis
        using Bin.IH(1) [of "Some u" "Suc d" lo] Bin.prems True u fu rts graft_absent [OF tb] same by auto
    next
      case False
      then have b: "tip t L b" using Bin.prems(2) by simp
      then have ta: "t \<notin> set (taddrs a)" using tip_taddrs Bin.prems(3) by auto
      have same: "shape_ok m' q e l a = shape_ok m q e l a" "flags_ok m' a = flags_ok m a" for q e l
        by (rule shape_cong; use Bin.prems(4) ta in auto)+
      show ?thesis
        using Bin.IH(2) [of "Some u" "Suc d" "lo + width (Suc d)"] Bin.prems b u fu rts graft_absent [OF ta] same by auto
    qed
  qed (auto simp: flag_def)
  then show "shape_ok m' p d lo (graft t (Tip t K) S)" "flags_ok m S \<Longrightarrow> flags_ok m' (graft t (Tip t K) S)"
    "dep (graft t (Tip t K) S) = dep S" "pend (graft t (Tip t K) S) = pend S" by blast+
qed

text \<open>What relabeling one heavy list, below the leaf \<open>t\<close>, keeps.\<close>

definition touched :: "nat set \<Rightarrow> shape \<Rightarrow> (nat \<Rightarrow> nat list) \<Rightarrow> nat set" where
  "touched ts S c = \<Union> {set (c K) | u K. u \<in> ts \<and> tip u K S}"

definition relabeled :: "om_heap \<Rightarrow> om_heap \<Rightarrow> om \<Rightarrow> nat set \<Rightarrow> shape \<Rightarrow> shape \<Rightarrow> (nat \<Rightarrow> nat list) \<Rightarrow> (nat \<Rightarrow> nat list) \<Rightarrow> bool" where
  "relabeled h h' m' ts S S' c c' \<longleftrightarrow>
     tree_ok h' m' S' \<and> lists_ok h' c' (leaves S') \<and> order c' (leaves S') = order c (leaves S) \<and>
     (\<forall>u K. u \<notin> ts \<longrightarrow> tip u K S \<longrightarrow> tip u K S' \<and> c' K = c K) \<and>
     (\<forall>x. x \<notin> touched ts S c \<longrightarrow> nodes h' x = nodes h x) \<and>
     (\<forall>u K. u \<in> ts \<longrightarrow> tip u K S \<longrightarrow> rooms h' (set (c K))) \<and>
     heavies h' (leaves S') \<subseteq> heavies h (leaves S) - ts \<and> nl S \<le> nl S'"

lemma tip_record:
  assumes "shape_ok m p d lo S" "flags_ok m S" "tip t L S"
  shows "\<exists>n. m t = Some n \<and> below n = Some L \<and> left n = NULL \<and> right n = NULL \<and> \<not> needs_rebalance n"
proof -
  have "flags_ok m S \<Longrightarrow> tip t L S \<Longrightarrow> \<not> flag m t" by (induction S) auto
  then have f: "\<not> flag m t" using assms by blast
  have "shape_ok m p d lo S \<Longrightarrow> tip t L S \<Longrightarrow> \<exists>n. m t = Some n \<and> below n = Some L \<and> left n = NULL \<and> right n = NULL"
    by (induction S arbitrary: p d lo) auto
  then show ?thesis using assms f by (auto simp: flag_def)
qed

lemma length_chunks: "length (chunks xs) \<le> length xs"
  by (induction xs rule: chunks.induct) auto

lemma tip_unique: "tip t K S \<Longrightarrow> tip t L S \<Longrightarrow> distinct (taddrs S) \<Longrightarrow> K = L"
proof (induction S)
  case (Bin s a b)
  then show ?case using tip_taddrs [of t] by fastforce
qed auto

lemma touched_one: "tip t L S \<Longrightarrow> distinct (taddrs S) \<Longrightarrow> touched {t} S c = set (c L)"
  by (auto simp: touched_def dest: tip_unique)

lemma tip_lists_fresh: "lists_ok h c (leaves S) \<Longrightarrow> fresh_ok h \<Longrightarrow> tip u K S \<Longrightarrow> K < fresh h"
  using tip_leaf [of u K S] list_fresh by (fastforce simp: lists_ok_def)

text \<open>The list did not fit one sublist: the leaf waits with the parts.\<close>

lemma relabel_many:
  assumes tr: "tree_ok h m S" and ls: "lists_ok h c (leaves S)" and tip: "tip t L S"
    and small: "length (order c (leaves S)) < 2 ^ 31"
    and sp: "split h (Some L) = Some (length ps, h1)" and D: "split_done h h1 t L (c L) ps" and two: "1 < length ps"
  shows "\<exists>S' c' m' h'. relabel_one h m (Some t) = Some (m', h') \<and> relabeled h h' m' {t} S S' c c'"
proof -
  have sh: "shape_ok (tls h) NULL 0 0 S" and fl: "flags_ok (tls h) S" and dist: "distinct (taddrs S)"
    and fr: "fresh_ok h" and rt: "root m = Some (rt S)" and dp: "dep S \<le> om_height m"
    using tr by (simp_all add: tree_ok_def)
  obtain n where n: "tls h t = Some n" "below n = Some L" "left n = NULL" "right n = NULL" "\<not> needs_rebalance n"
    using tip_record [OF sh fl tip] by blast
  have sf: "s < fresh h" if "s \<in> set (taddrs S)" for s by (rule shape_fresh [OF sh fr that])
  have d: "parts_ok h1 ps (chunks (c L))" "split_chain (tls h1) NULL ps" "distinct (map fst ps)" "distinct (map snd ps)"
    "fst ` set ps \<subseteq> {fresh h..<fresh h1}" "snd ` set ps \<subseteq> {fresh h..<fresh h1}" "fresh_ok h1"
    "\<forall>p \<in> set ps. map_option heavy (lists h1 (snd p)) = Some False"
    "\<forall>y. y \<notin> set (c L) \<longrightarrow> nodes h1 y = nodes h y" "\<forall>K < fresh h. K \<noteq> L \<longrightarrow> lists h1 K = lists h K"
    "\<forall>s < fresh h. s \<noteq> t \<longrightarrow> tls h1 s = tls h s"
    "tls h1 t = map_option (\<lambda>x. x\<lparr>below := hd_ptr (map fst ps)\<rparr>) (tls h t)"
    using D by (simp_all add: split_done_def)
  let ?T = "Spl t ps"
  obtain us vs where uv: "leaves S = us @ (t, L) # vs" "leaves (graft t ?T S) = us @ ps @ vs"
    using leaves_graft [OF tip dist, of ?T] by auto
  have old: "\<forall>s \<in> set (taddrs S) - {t}. tls h1 s = tls h s" using sf d(11) by auto
  have sep: "fst ` set ps \<inter> set (taddrs S) = {}" using d(5) sf by fastforce
  have len: "length ps = length (chunks (c L))" using d(1) by (auto simp: parts_ok_def dest: list_all2_lengthD)
  have "length (c L) \<le> length (order c (leaves S))" using uv(1) by simp
  then have sz: "nl S + length ps \<le> 2 ^ 64"
    using leaves_le_order [OF ls] length_chunks [of "c L"] len small by simp
  have two': "2 \<le> length ps" using two by simp
  obtain h3 j where g: "grow_path h1 (Some t) (length ps - 1) (fast_log2_ceil (length ps) - 1) =
      grow_path h3 NULL (length ps - 1) (fast_log2_ceil (length ps) - 1 + j)" "1 \<le> j"
    "dep (graft t ?T S) \<le> max (dep S) (j - 1 + fast_log2_ceil (length ps))"
    "shape_ok (tls h3) NULL 0 0 (graft t ?T S)" "flags_ok (tls h3) (graft t ?T S)"
    "tl_only (set (taddrs S)) h1 h3" "fresh h3 = fresh h1"
    using grow_path_ok [OF sh fl tip dist old d(12,2) sep two' sz d(7)] by blast
  define m' where "m' = m\<lparr>om_height := max (fast_log2_ceil (length ps) - 1 + j) (om_height m)\<rparr>"
  have "put_tl t (n\<lparr>below := hd_ptr (map fst ps), left := NULL, right := NULL\<rparr>) h1 = h1"
    using d(12) n by (simp add: fun_upd_idem)
  then have run: "relabel_one h m (Some t) = Some (m', h3)"
    using n sp two g(1) d(12) grow_path.simps [of h3 NULL]
    by (simp add: relabel_one_def upd_tl_def m'_def)
  have "0 < length ps" using two by linarith
  from log2_ceil_le [OF this, of 0] have "1 \<le> fast_log2_ceil (length ps)" using two by (simp add: not_le Suc_le_eq)
  then have dep: "dep (graft t ?T S) \<le> om_height m'" using g(2,3) dp by (auto simp: m'_def)
  have "t \<notin> fst ` set ps" using sep tip_taddrs [OF tip] by blast
  then have dist': "distinct (taddrs (graft t ?T S))"
    using d(3) sep by (intro distinct_graft [OF dist]) auto
  have tree: "tree_ok h3 m' (graft t ?T S)"
    unfolding tree_ok_def using rt g(4,5) dist' dep tl_onlyD(4) [OF g(6)] by (simp add: m'_def rt_graft)
  have nl3: "nodes h3 = nodes h1" "lists h3 = lists h1" using tl_onlyD(1,2) [OF g(6)] by simp_all
  have p3': "parts_ok h3 ps (chunks (c L))" using parts_ok_cong [OF d(1), of h3] nl3 by simp
  then have p3: "list_all2 (\<lambda>p xs. list_ok h3 (fst p) (snd p) xs) ps (chunks (c L))" by (rule parts_lists)
  have rooms: "rooms h3 (set (c L))" using parts_rooms [OF p3'] by (simp only: concat_chunks)
  have new: "\<forall>q \<in> set ps. fresh h \<le> snd q" using d(6) by fastforce
  note rep = lists_replace [OF ls [unfolded uv(1)] fr len [symmetric] concat_chunks d(4) new p3, unfolded nl3, OF d(9,10)]
  have lf: "lists h3 (snd p) = lists h (snd p)" if "p \<in> set us \<union> set vs" for p
  proof -
    have "list_ok h (fst p) (snd p) (c (snd p))" "snd p \<noteq> L" using ls uv(1) that by (auto simp: lists_ok_def)
    then show ?thesis using d(10) list_fresh [OF fr] nl3 by metis
  qed
  have dl: "distinct (map fst (leaves S))" using leaves_at_shape [OF sh dist] by (simp add: leaves_at_def)
  have "heavies h3 (leaves (graft t ?T S)) \<subseteq> heavies h (leaves S) - {t}"
    unfolding uv by (rule heavies_replace [OF dl [unfolded uv(1)]]) (use d(8) nl3 lf in auto)
  moreover have keepc: "recontent ps (chunks (c L)) c K = c K" if "tip u K S" for u K
    by (rule recontent_other [OF _ len [symmetric]]) (use tip_lists_fresh [OF ls fr that] new in force)
  ultimately have "relabeled h h3 m' {t} S (graft t ?T S) c (recontent ps (chunks (c L)) c)"
    unfolding relabeled_def touched_one [OF tip dist]
    using tree rep uv two tip_graft d(9) nl3(1) rooms keepc tip_unique [OF tip _ dist] by auto
  then show ?thesis using run by blast
qed

text \<open>The list fits one sublist, which goes below the leaf.\<close>

lemma relabel_single:
  assumes tr: "tree_ok h m S" and ls: "lists_ok h c (leaves S)" and tip: "tip t L S"
    and sp: "split h (Some L) = Some (1, h1)" and D: "split_done h h1 t L (c L) [(t1, L1)]"
  shows "\<exists>S' c' m' h'. relabel_one h m (Some t) = Some (m', h') \<and> relabeled h h' m' {t} S S' c c'"
proof -
  have sh: "shape_ok (tls h) NULL 0 0 S" and fl: "flags_ok (tls h) S" and dist: "distinct (taddrs S)"
    and fr: "fresh_ok h" and rt: "root m = Some (rt S)" and dp: "dep S \<le> om_height m"
    using tr by (simp_all add: tree_ok_def)
  obtain n where n: "tls h t = Some n" "below n = Some L" "left n = NULL" "right n = NULL" "\<not> needs_rebalance n"
    using tip_record [OF sh fl tip] by blast
  have sf: "s < fresh h" if "s \<in> set (taddrs S)" for s by (rule shape_fresh [OF sh fr that])
  have tf: "t < fresh h" by (rule sf [OF tip_taddrs [OF tip]])
  have d: "parts_ok h1 [(t1, L1)] (chunks (c L))" "split_chain (tls h1) NULL [(t1, L1)]"
    "fresh h \<le> t1" "t1 < fresh h1" "fresh h \<le> L1" "L1 < fresh h1" "fresh_ok h1"
    "map_option heavy (lists h1 L1) = Some False"
    "\<forall>y. y \<notin> set (c L) \<longrightarrow> nodes h1 y = nodes h y" "\<forall>K < fresh h. K \<noteq> L \<longrightarrow> lists h1 K = lists h K"
    "\<forall>s < fresh h. s \<noteq> t \<longrightarrow> tls h1 s = tls h s"
    "tls h1 t = map_option (\<lambda>x. x\<lparr>below := Some t1\<rparr>) (tls h t)"
    using D by (auto simp: split_done_def)
  obtain n1 where n1: "tls h1 t1 = Some n1" "below n1 = Some L1" using d(2) by auto
  obtain l1 where l1: "lists h1 L1 = Some l1" "\<not> heavy l1" using d(8) by auto
  have tt: "t \<noteq> t1" using tf d(3) by simp
  let ?T = "Tip t L1"
  obtain us vs where uv: "leaves S = us @ (t, L) # vs" "leaves (graft t ?T S) = us @ [(t, L1)] @ vs"
    using leaves_graft [OF tip dist, of ?T] by auto
  define h3 where "h3 = h1\<lparr>tls := (tls h1)(t1 := None, t \<mapsto> n\<lparr>below := Some L1\<rparr>),
    lists := (lists h1)(L1 \<mapsto> l1\<lparr>above := Some t\<rparr>)\<rparr>"
  have run: "relabel_one h m (Some t) = Some (m, h3)"
    using n sp n1 l1 tt d(12)
    by (simp add: relabel_one_def upd_tl_def upd_list_def free_tl_def h3_def fun_upd_twist) (cases n; simp)
  have fr3: "fresh_ok h3" using d(6,7) tf d(3,4) by (auto simp: fresh_ok_def h3_def)
  have old: "\<forall>s \<in> set (taddrs S) - {t}. tls h3 s = tls h s"
  proof
    fix s assume s: "s \<in> set (taddrs S) - {t}"
    then have "s < fresh h" using sf by blast
    then show "tls h3 s = tls h s" using s d(3,11) by (simp add: h3_def)
  qed
  have at: "tls h3 t = map_option (\<lambda>x. x\<lparr>below := Some L1\<rparr>) (tls h t)" using n(1) by (simp add: h3_def)
  note g = graft_tip_ok [OF sh tip dist old at]
  have dist': "distinct (taddrs (graft t ?T S))" by (rule distinct_graft [OF dist]) auto
  have tree: "tree_ok h3 m (graft t ?T S)"
    unfolding tree_ok_def using rt g(1,3) g(2) [OF fl] dist' dp fr3 by (simp add: rt_graft)
  obtain xs where xs: "chunks (c L) = [xs]" "list_ok h1 t1 L1 xs"
    using parts_lists [OF d(1)] by (auto simp: list_all2_Cons1)
  have "list_ok h3 t L1 xs"
    using xs(2) l1(1) by (simp add: list_ok_def h3_def)
  moreover have "rooms h1 (set (c L))" using parts_rooms [OF d(1)] by (simp only: concat_chunks)
  then have rooms: "rooms h3 (set (c L))" by (rule rooms_cong) (simp add: h3_def)
  ultimately have p3: "list_all2 (\<lambda>p xs. list_ok h3 (fst p) (snd p) xs) [(t, L1)] (chunks (c L))" using xs(1) by simp
  have len: "length (chunks (c L)) = length [(t, L1)]" using xs(1) by simp
  have n3: "\<forall>y. y \<notin> set (c L) \<longrightarrow> nodes h3 y = nodes h y" using d(9) by (simp add: h3_def)
  have l3: "\<forall>K < fresh h. K \<noteq> L \<longrightarrow> lists h3 K = lists h K" using d(5,10) by (simp add: h3_def)
  have new: "\<forall>q \<in> set [(t, L1)]. fresh h \<le> snd q" using d(5) by simp
  have d1: "distinct (map snd [(t, L1)])" by simp
  note rep = lists_replace [OF ls [unfolded uv(1)] fr len concat_chunks d1 new p3 n3 l3]
  have lf: "lists h3 (snd p) = lists h (snd p)" if "p \<in> set us \<union> set vs" for p
  proof -
    have "list_ok h (fst p) (snd p) (c (snd p))" "snd p \<noteq> L" using ls uv(1) that by (auto simp: lists_ok_def)
    then show ?thesis using l3 list_fresh [OF fr] by metis
  qed
  have dl: "distinct (map fst (leaves S))" using leaves_at_shape [OF sh dist] by (simp add: leaves_at_def)
  have "heavies h3 (leaves (graft t ?T S)) \<subseteq> heavies h (leaves S) - {t}"
    unfolding uv by (rule heavies_replace [OF dl [unfolded uv(1)]]) (use l1(2) lf in \<open>auto simp: h3_def\<close>)
  moreover have keepc: "recontent [(t, L1)] (chunks (c L)) c K = c K" if "tip u K S" for u K
    by (rule recontent_other [OF _ len]) (use tip_lists_fresh [OF ls fr that] d(5) in simp)
  ultimately have "relabeled h h3 m {t} S (graft t ?T S) c (recontent [(t, L1)] (chunks (c L)) c)"
    unfolding relabeled_def touched_one [OF tip dist]
    using tree rep uv tip_graft n3 rooms keepc tip_unique [OF tip _ dist] by auto
  then show ?thesis using run by blast
qed

lemma relabel_one_ok:
  assumes tr: "tree_ok h m S" and ls: "lists_ok h c (leaves S)" and tip: "tip t L S"
    and small: "length (order c (leaves S)) < 2 ^ 31"
  shows "\<exists>S' c' m' h'. relabel_one h m (Some t) = Some (m', h') \<and> relabeled h h' m' {t} S S' c c'"
proof -
  have sh: "shape_ok (tls h) NULL 0 0 S" and fr: "fresh_ok h" using tr by (simp_all add: tree_ok_def)
  have tl: "(t, L) \<in> set (leaves S)" by (rule tip_leaf [OF tip])
  have lo: "list_ok h t L (c L)" using ls tl by (auto simp: lists_ok_def)
  have "tls h t \<noteq> None" using shape_leaf [OF sh tl] by auto
  then obtain ps h1 where s: "split h (Some L) = Some (length ps, h1)" "split_done h h1 t L (c L) ps"
    using split_ok [OF lo fr] by blast
  show ?thesis
  proof (cases "1 < length ps")
    case True
    then show ?thesis by (rule relabel_many [OF tr ls tip small s])
  next
    case False
    have "ps \<noteq> []" using s(2) by (simp add: split_done_def)
    then obtain t1 L1 where "ps = [(t1, L1)]" using False by (cases ps) auto
    then show ?thesis using relabel_single [OF tr ls tip, of h1 t1 L1] s by simp
  qed
qed

section \<open>Relabeling all heavy lists\<close>

lemma touched_disjoint:
  assumes ls: "lists_ok h c (leaves S)" and A: "tip u K S" "u \<notin> B"
  shows "set (c K) \<inter> touched B S c = {}"
proof -
  have "set (c K) \<inter> set (c M) = {}" if "v \<in> B" "tip v M S" for v M
  proof -
    have mem: "(u, K) \<in> set (leaves S)" "(v, M) \<in> set (leaves S)" and ne: "(u, K) \<noteq> (v, M)"
      using A that tip_leaf by auto
    obtain us vs where uv: "leaves S = us @ (u, K) # vs" using mem(1) by (meson split_list)
    then have "(v, M) \<in> set us \<or> (v, M) \<in> set vs" using mem(2) ne by auto
    then have "set (c M) \<subseteq> set (order c us) \<union> set (order c vs)"
      using order_part [of "(v, M)" us c] order_part [of "(v, M)" vs c] by auto
    moreover have "distinct (order c us @ c K @ order c vs)" using ls uv by (simp add: lists_ok_def)
    ultimately show ?thesis by auto
  qed
  then show ?thesis unfolding touched_def by blast
qed

lemma relabeled_trans:
  assumes ls: "lists_ok h c (leaves S)" and dist: "distinct (taddrs S)"
    and R1: "relabeled h h1 m1 A S S1 c c1" and R2: "relabeled h1 h2 m2 B S1 S2 c1 c2"
    and AB: "A \<inter> B = {}" and tips: "\<forall>u \<in> B. \<exists>K. tip u K S"
  shows "relabeled h h2 m2 (A \<union> B) S S2 c c2"
proof -
  have r1: "\<forall>u K. u \<notin> A \<longrightarrow> tip u K S \<longrightarrow> tip u K S1 \<and> c1 K = c K" "\<forall>x. x \<notin> touched A S c \<longrightarrow> nodes h1 x = nodes h x"
    "\<forall>u K. u \<in> A \<longrightarrow> tip u K S \<longrightarrow> rooms h1 (set (c K))" using R1 by (simp_all add: relabeled_def)
  have r2: "\<forall>u K. u \<notin> B \<longrightarrow> tip u K S1 \<longrightarrow> tip u K S2 \<and> c2 K = c1 K" "\<forall>x. x \<notin> touched B S1 c1 \<longrightarrow> nodes h2 x = nodes h1 x"
    "\<forall>u K. u \<in> B \<longrightarrow> tip u K S1 \<longrightarrow> rooms h2 (set (c1 K))" using R2 by (simp_all add: relabeled_def)
  have d1: "distinct (taddrs S1)" using R1 by (simp add: relabeled_def tree_ok_def)
  have B: "u \<notin> A" if "u \<in> B" for u using AB that by blast
  have bwd: "tip u K S \<and> c1 K = c K" if u: "u \<in> B" "tip u K S1" for u K
  proof -
    obtain L where L: "tip u L S" using tips u(1) by blast
    then have "tip u L S1" using r1(1) B [OF u(1)] by blast
    then have "L = K" using u(2) d1 tip_unique by blast
    then show ?thesis using L r1(1) B [OF u(1)] by blast
  qed
  have tB: "touched B S1 c1 = touched B S c"
  proof (intro set_eqI iffI)
    fix x assume "x \<in> touched B S1 c1"
    then show "x \<in> touched B S c" using bwd unfolding touched_def by fastforce
  next
    fix x assume "x \<in> touched B S c"
    then obtain u K where "u \<in> B" "tip u K S" "x \<in> set (c K)" unfolding touched_def by blast
    then show "x \<in> touched B S1 c1" using r1(1) B unfolding touched_def by fastforce
  qed
  have tAB: "touched (A \<union> B) S c = touched A S c \<union> touched B S c" unfolding touched_def by blast
  have "rooms h2 (set (c K))" if u: "u \<in> A \<union> B" "tip u K S" for u K
  proof (cases "u \<in> B")
    case True
    then have "tip u K S1 \<and> c1 K = c K" using r1(1) B u(2) by blast
    then show ?thesis using r2(3) True by metis
  next
    case False
    then have rm: "rooms h1 (set (c K))" using r1(3) u by blast
    have "set (c K) \<inter> touched B S c = {}" by (rule touched_disjoint [OF ls u(2) False])
    then have "\<forall>x \<in> set (c K). nodes h2 x = nodes h1 x" using r2(2) tB by auto
    then show ?thesis using rooms_cong [OF rm] by blast
  qed
  moreover have "nodes h2 x = nodes h x" if "x \<notin> touched (A \<union> B) S c" for x
    using that r1(2) r2(2) tB tAB by simp
  moreover have "tip u K S2 \<and> c2 K = c K" if "u \<notin> A \<union> B" "tip u K S" for u K
    using that r1(1) r2(1) by (metis UnI1 UnI2)
  ultimately show ?thesis using R1 R2 unfolding relabeled_def by auto
qed

lemma relabel_all_ok:
  assumes "tree_ok h m S" "lists_ok h c (leaves S)" "distinct ts" "\<forall>t \<in> set ts. \<exists>L. tip t L S"
    "length (order c (leaves S)) < 2 ^ 31"
  shows "\<exists>S' c' m' h'. relabel_all h m (map Some ts) = Some (m', h') \<and> relabeled h h' m' (set ts) S S' c c'"
  using assms
proof (induction ts arbitrary: h m S c)
  case Nil
  then have "relabeled h h m (set []) S S c c" by (simp add: relabeled_def touched_def)
  then show ?case by auto
next
  case (Cons t ts)
  obtain L where "tip t L S" using Cons.prems(4) by auto
  then obtain S1 c1 m1 h1 where one: "relabel_one h m (Some t) = Some (m1, h1)" "relabeled h h1 m1 {t} S S1 c c1"
    using relabel_one_ok [OF Cons.prems(1,2) _ Cons.prems(5)] by blast
  have r: "tree_ok h1 m1 S1" "lists_ok h1 c1 (leaves S1)" "order c1 (leaves S1) = order c (leaves S)"
    "\<And>u K. u \<noteq> t \<Longrightarrow> tip u K S \<Longrightarrow> tip u K S1" using one(2) by (simp_all add: relabeled_def)
  have dist: "distinct (taddrs S)" using Cons.prems(1) by (simp add: tree_ok_def)
  have tips: "\<forall>u \<in> set ts. \<exists>K. tip u K S1"
  proof
    fix u assume u: "u \<in> set ts"
    then have "u \<noteq> t" using Cons.prems(3) by auto
    moreover obtain K where "tip u K S" using Cons.prems(4) u by auto
    ultimately show "\<exists>K. tip u K S1" using r(4) by blast
  qed
  have "distinct ts" "length (order c1 (leaves S1)) < 2 ^ 31" using Cons.prems(3,5) r(3) by simp_all
  from Cons.IH [OF r(1,2) this(1) tips this(2)] obtain S2 c2 m2 h2 where
    two: "relabel_all h1 m1 (map Some ts) = Some (m2, h2)" "relabeled h1 h2 m2 (set ts) S1 S2 c1 c2" by blast
  have "relabeled h h2 m2 (set (t # ts)) S S2 c c2" using relabeled_trans [OF Cons.prems(2) dist one(2) two(2)] Cons.prems(3,4) by simp
  then show ?case using one(1) two(1) by auto
qed

lemma lists_ok_same:
  assumes "lists_ok h c ps" "nodes h' = nodes h" "lists h' = lists h"
  shows "lists_ok h' c ps"
proof -
  have "list_ok h' (fst p) (snd p) (c (snd p))" if "p \<in> set ps" for p
    by (rule list_ok_cong [where h = h]) (use assms that in \<open>simp_all add: lists_ok_def\<close>)
  then show ?thesis using assms(1) by (simp add: lists_ok_def)
qed

text \<open>The structure between operations: no leaf waits.\<close>

definition om_ok :: "om_heap \<Rightarrow> om \<Rightarrow> shape \<Rightarrow> (nat \<Rightarrow> nat list) \<Rightarrow> bool" where
  "om_ok h m S c \<longleftrightarrow> tree_ok h m S \<and> \<not> pend S \<and> lists_ok h c (leaves S)"

lemma om_relabel_ok:
  assumes ok: "om_ok h m S c" and ts: "distinct ts" "fst ` set (leaves S) \<supseteq> set ts"
    and small: "length (order c (leaves S)) < 2 ^ 31" and shl: "shl_ok shl1"
  shows "\<exists>S' c' m' h'. om_relabel shl1 h m (map Some ts) = Some (m', h') \<and> om_ok h' m' S' c' \<and>
    order c' (leaves S') = order c (leaves S) \<and> heavies h' (leaves S') \<subseteq> heavies h (leaves S) - set ts \<and>
    (\<forall>u K. u \<in> set ts \<longrightarrow> (u, K) \<in> set (leaves S) \<longrightarrow> rooms h' (set (c K)))"
proof -
  have tr: "tree_ok h m S" "\<not> pend S" "lists_ok h c (leaves S)" using ok by (simp_all add: om_ok_def)
  have tips: "\<forall>t \<in> set ts. \<exists>L. tip t L S" using ts(2) leaf_tip [OF tr(2)] by fastforce
  obtain S1 c1 m1 h1 where run: "relabel_all h m (map Some ts) = Some (m1, h1)"
    and R: "relabeled h h1 m1 (set ts) S S1 c c1" using relabel_all_ok [OF tr(1,3) ts(1) tips small] by blast
  have r: "tree_ok h1 m1 S1" "lists_ok h1 c1 (leaves S1)" "order c1 (leaves S1) = order c (leaves S)"
    "heavies h1 (leaves S1) \<subseteq> heavies h (leaves S) - set ts" "nl S \<le> nl S1" using R by (simp_all add: relabeled_def)
  have rm: "\<forall>u K. u \<in> set ts \<longrightarrow> tip u K S \<longrightarrow> rooms h1 (set (c K))" using R by (simp add: relabeled_def)
  have t1: "root m1 = Some (rt S1)" "shape_ok (tls h1) NULL 0 0 S1" "flags_ok (tls h1) S1" "distinct (taddrs S1)"
    "dep S1 \<le> om_height m1" "fresh_ok h1" using r(1) by (simp_all add: tree_ok_def)
  have few: "nl S1 < 2 ^ 31" using leaves_le_order [OF r(2)] r(3) small by simp
  then have fits: "pend S1 \<Longrightarrow> nl S1 \<le> width 0" by (simp add: width_def)
  have c0: "child_of (tls h1) NULL 0 0 (rt S1)" by (simp add: child_of_def)
  have H: "0 + dep S1 \<le> om_height m1" using t1(5) by simp
  obtain S2 h2 where reb: "rebalance shl1 h1 (Some (rt S1)) (om_height m1) = Some h2"
    and B: "rebalanced h1 h2 NULL 0 0 (om_height m1) S1 S2"
    using rebalance_ok [OF t1(2-4,6) aligned_0 c0 _ fits H few shl] by blast
  have b: "rt S2 = rt S1" "shape_ok (tls h2) NULL 0 0 S2" "flags_ok (tls h2) S2" "\<not> pend S2" "leaves S2 = leaves S1"
    "dep S2 \<le> om_height m1" "distinct (taddrs S2)" and o2: "tl_only (set (taddrs S1)) h1 h2"
    using B by (simp_all add: rebalanced_def)
  note same = tl_onlyD(1,2) [OF o2]
  have rooms: "\<forall>u K. u \<in> set ts \<longrightarrow> (u, K) \<in> set (leaves S) \<longrightarrow> rooms h2 (set (c K))"
    using rm leaf_tip [OF tr(2)] rooms_cong [of h1 _ h2] same(1) by metis
  have "om_ok h2 m1 S2 c1"
    unfolding om_ok_def tree_ok_def
    using t1(1) b tl_onlyD(4) [OF o2] lists_ok_same [OF r(2) same] by simp
  moreover have "heavies h2 (leaves S2) = heavies h1 (leaves S1)" by (simp add: heavies_def b(5) same)
  moreover have "om_relabel shl1 h m (map Some ts) = Some (m1, h2)"
  proof -
    have root0: "root m = Some (rt S)" and sh0: "shape_ok (tls h) NULL 0 0 S" using tr(1) by (simp_all add: tree_ok_def)
    obtain n0 where n0: "tls h (rt S) = Some n0" "num_leaves n0 = nl S" using shape_root [OF sh0] by blast
    obtain n1 where n1: "tls h1 (rt S1) = Some n1" "num_leaves n1 = nl S1" using shape_root [OF t1(2)] by blast
    have max0: "MAX_LABEL + 1 = 0" by (simp add: MAX_LABEL_def)
    show ?thesis
      using root0 n0 run t1(1) n1 r(5) reb max0
      by (simp add: om_relabel_def om_rebalance_def)
  qed
  ultimately show ?thesis
    using r(3,4) b(5) rooms by (intro exI [of _ S2] exI [of _ c1] exI [of _ m1] exI [of _ h2]) simp
qed

section \<open>Insertion and comparison\<close>

lemma order_leaf:
  assumes "lists_ok h c ps" "x \<in> set (order c ps)"
  obtains us t L vs where "ps = us @ (t, L) # vs" "x \<in> set (c L)" "x \<notin> set (order c us)" "x \<notin> set (order c vs)"
proof -
  obtain p where p: "p \<in> set ps" "x \<in> set (c (snd p))" using assms(2) by (auto simp: order_def)
  then obtain us vs where uv: "ps = us @ p # vs" by (meson split_list)
  have "distinct (order c ps)" using assms(1) by (simp add: lists_ok_def)
  then have "x \<notin> set (order c us)" "x \<notin> set (order c vs)" using p(2) uv by auto
  then show ?thesis using that [of us "fst p" "snd p" vs] uv p(2) by simp
qed

text \<open>An insertion that finds a label extends the sequence; otherwise nothing changes.\<close>

lemma om_insert_ok:
  assumes ok: "om_ok h m S c" and b: "b \<in> set (order c (leaves S))"
  shows "om_insert h m (Some b) = Some (NULL, h) \<and> (\<forall>A. rooms h A \<longrightarrow> b \<notin> A) \<or>
    (\<exists>c' h'. om_insert h m (Some b) = Some (Some (fresh h), h') \<and> om_ok h' m S c' \<and>
      order c' (leaves S) = insert_after b (fresh h) (order c (leaves S)) \<and> fresh h \<notin> set (order c (leaves S)) \<and>
      heavies h' (leaves S) = heavies h (leaves S))"
proof -
  have tr: "tree_ok h m S" "\<not> pend S" and ls: "lists_ok h c (leaves S)" using ok by (simp_all add: om_ok_def)
  have fr: "fresh_ok h" using tr by (simp add: tree_ok_def)
  obtain us t L vs where uv: "leaves S = us @ (t, L) # vs" "b \<in> set (c L)" "b \<notin> set (order c us)" "b \<notin> set (order c vs)"
    using order_leaf [OF ls b] by blast
  have lo: "list_ok h t L (c L)" using ls uv(1) by (auto simp: lists_ok_def)
  obtain n where n: "nodes h b = Some n" "bl_list n = Some L" using list_ok_node [OF lo uv(2)] by blast
  have run: "om_insert h m (Some b) = bl_insert h (Some L) (Some b)" using n by (simp add: om_insert_def)
  have nf: "fresh h \<notin> set (order c (leaves S))"
  proof
    assume "fresh h \<in> set (order c (leaves S))"
    then obtain p where "p \<in> set (leaves S)" "fresh h \<in> set (c (snd p))" by (auto simp: order_def)
    then have "\<exists>n. nodes h (fresh h) = Some n" using ls list_ok_node by (fastforce simp: lists_ok_def)
    then show False using fresh_okD [OF fr, of "fresh h"] by simp
  qed
  show ?thesis
    using bl_insert_ok [OF lo uv(2) fr]
  proof (elim disjE exE conjE)
    fix h' assume h': "bl_insert h (Some L) (Some b) = Some (Some (fresh h), h')"
      "list_ok h' t L (insert_after b (fresh h) (c L))" "fresh_ok h'" "tls h' = tls h"
      "\<forall>M. M \<noteq> L \<longrightarrow> lists h' M = lists h M" "map_option heavy (lists h' L) = map_option heavy (lists h L)"
      "\<forall>x. x \<notin> insert (fresh h) (set (c L)) \<longrightarrow> nodes h' x = nodes h x"
    define c' where "c' = c(L := insert_after b (fresh h) (c L))"
    have L: "snd p \<noteq> L" if "p \<in> set us \<union> set vs" for p using ls uv(1) that by (auto simp: lists_ok_def)
    have os: "order c' us = order c us" "order c' vs = order c vs" by (rule order_cong; simp add: c'_def L)+
    have o: "order c' (leaves S) = insert_after b (fresh h) (order c (leaves S))"
      using uv os by (simp add: c'_def insert_after_append)
    have "list_ok h' (fst p) (snd p) (c' (snd p))" if p: "p \<in> set (leaves S)" for p
    proof (cases "p \<in> set us \<union> set vs")
      case True
      have lp: "list_ok h (fst p) (snd p) (c (snd p))" using ls p by (simp add: lists_ok_def)
      have "distinct (order c us @ c L @ order c vs)" using ls uv(1) by (simp add: lists_ok_def)
      moreover have "set (c (snd p)) \<subseteq> set (order c us) \<union> set (order c vs)"
        using True order_part [of p us c] order_part [of p vs c] by blast
      ultimately have "set (c (snd p)) \<inter> set (c L) = {}" by auto
      moreover have "fresh h \<notin> set (c (snd p))" using nf p by (auto simp: order_def)
      ultimately have "\<forall>x \<in> set (c (snd p)). x \<notin> insert (fresh h) (set (c L))" by auto
      then have "nodes h' x = nodes h x" if "x \<in> set (c (snd p))" for x using h'(7) that by simp
      then have "list_ok h' (fst p) (snd p) (c (snd p))"
        by (rule list_ok_cong [OF lp]) (use h'(5) L [OF True] in simp_all)
      then show ?thesis using L [OF True] by (simp add: c'_def)
    next
      case False
      then show ?thesis using p uv(1) h'(2) by (auto simp: c'_def)
    qed
    moreover have "distinct (order c' (leaves S))"
      unfolding o using ls nf by (intro distinct_insert_after) (simp_all add: lists_ok_def)
    ultimately have "lists_ok h' c' (leaves S)" using ls by (simp add: lists_ok_def)
    then have "om_ok h' m S c'" using tr h'(3,4) by (simp add: om_ok_def tree_ok_def)
    moreover have "heavies h' (leaves S) = heavies h (leaves S)"
    proof -
      have "map_option heavy (lists h' K) = map_option heavy (lists h K)" for K
        using h'(5,6) by (cases "K = L") auto
      then show ?thesis by (simp only: heavies_def)
    qed
    ultimately show ?thesis using h'(1) o nf run by auto
  next
    fix l assume l: "get_new_label h (Some b) = Some l" "l = 0" "bl_insert h (Some L) (Some b) = Some (NULL, h)"
    have "b \<notin> A" if "rooms h A" for A using that l(1,2) unfolding rooms_def by fastforce
    then show ?thesis using l(3) run by simp
  qed
qed

text \<open>\<open>x\<close> stands before \<open>y\<close> in a list without repetition.\<close>

fun before :: "'a list \<Rightarrow> 'a \<Rightarrow> 'a \<Rightarrow> bool" where
  "before [] x y \<longleftrightarrow> False"
| "before (z # zs) x y \<longleftrightarrow> z = x \<and> y \<in> set zs \<or> before zs x y"

lemma before_in: "before zs x y \<Longrightarrow> x \<in> set zs \<and> y \<in> set zs"
  by (induction zs) auto

lemma before_append: "before (us @ vs) x y \<longleftrightarrow> before us x y \<or> x \<in> set us \<and> y \<in> set vs \<or> before vs x y"
  by (induction us) auto

lemma before_sorted:
  "sorted_wrt (<) (map f zs) \<Longrightarrow> x \<in> set zs \<Longrightarrow> y \<in> set zs \<Longrightarrow> before zs x y \<longleftrightarrow> f x < (f y :: 'b :: linorder)"
  by (induction zs) (auto dest: before_in)

lemma before_asym: "distinct zs \<Longrightarrow> before zs x y \<Longrightarrow> \<not> before zs y x"
  by (induction zs) (auto dest: before_in)

lemma before_trans: "distinct zs \<Longrightarrow> before zs x y \<Longrightarrow> before zs y z \<Longrightarrow> before zs x z"
  by (induction zs) (auto dest: before_in)

lemma before_total: "x \<in> set zs \<Longrightarrow> y \<in> set zs \<Longrightarrow> x \<noteq> y \<Longrightarrow> before zs x y \<or> before zs y x"
  by (induction zs) auto

lemma before_flip: "distinct zs \<Longrightarrow> x \<in> set zs \<Longrightarrow> y \<in> set zs \<Longrightarrow> x \<noteq> y \<Longrightarrow> before zs x y \<longleftrightarrow> \<not> before zs y x"
  using before_asym before_total by metis

lemma before_irrefl: "distinct zs \<Longrightarrow> \<not> before zs x x"
  using before_asym by metis

lemma before_insert:
  assumes "distinct zs" "b \<in> set zs" "n \<notin> set zs"
  shows "x \<noteq> n \<Longrightarrow> y \<noteq> n \<Longrightarrow> before (insert_after b n zs) x y \<longleftrightarrow> before zs x y"
    "before (insert_after b n zs) b n" "before (insert_after b n zs) n y \<longleftrightarrow> before zs b y"
    "x \<noteq> b \<Longrightarrow> before (insert_after b n zs) x n \<longleftrightarrow> before zs x b"
proof -
  from assms(2) obtain us vs where zs: "zs = us @ b # vs" by (meson split_list)
  then have "b \<notin> set us" using assms(1) by simp
  then have "insert_after b n zs = us @ b # n # vs" unfolding zs by (rule insert_after_split)
  then show "x \<noteq> n \<Longrightarrow> y \<noteq> n \<Longrightarrow> before (insert_after b n zs) x y \<longleftrightarrow> before zs x y"
    "before (insert_after b n zs) b n" "before (insert_after b n zs) n y \<longleftrightarrow> before zs b y"
    "x \<noteq> b \<Longrightarrow> before (insert_after b n zs) x n \<longleftrightarrow> before zs x b"
    using assms(1,3) zs by (auto simp: before_append dest: before_in)
qed

text \<open>The comparison of two nodes decides which stands before the other.\<close>

lemma om_precedes_order:
  assumes ok: "om_ok h m S c" and x: "x \<in> set (order c (leaves S))" and y: "y \<in> set (order c (leaves S))"
  shows "om_precedes h (Some x) (Some y) = Some (before (order c (leaves S)) x y)"
proof -
  have ls: "lists_ok h c (leaves S)" and sh: "shape_ok (tls h) NULL 0 0 S" and np: "\<not> pend S"
    using ok by (simp_all add: om_ok_def tree_ok_def)
  have dis: "distinct (order c (leaves S))" using ls by (simp add: lists_ok_def)
  have at: "\<exists>n l nt. nodes h z = Some n \<and> bl_list n = Some (snd p) \<and> lists h (snd p) = Some l \<and>
      above l = Some (fst p) \<and> tls h (fst p) = Some nt" if "p \<in> set (leaves S)" "z \<in> set (c (snd p))" for p z
  proof -
    have lo: "list_ok h (fst p) (snd p) (c (snd p))" using ls that(1) by (simp add: lists_ok_def)
    have "\<exists>nt. tls h (fst p) = Some nt" using shape_leaf [OF sh, of "fst p" "snd p"] that(1) by auto
    then show ?thesis using list_ok_node [OF lo that(2)] list_okE [OF lo] by metis
  qed
  have rel: "om_precedes h (Some u) (Some v) = Some (tlab (tls h) (fst p) < tlab (tls h) (fst q))"
    if "p \<in> set (leaves S)" "q \<in> set (leaves S)" "snd p \<noteq> snd q" "u \<in> set (c (snd p))" "v \<in> set (c (snd q))" for p q u v
    using at [OF that(1,4)] at [OF that(2,5)] that(3) by (auto simp: om_precedes_def tlab_def)
  obtain us t L vs where uv: "leaves S = us @ (t, L) # vs" "x \<in> set (c L)" "x \<notin> set (order c us)" "x \<notin> set (order c vs)"
    by (rule order_leaf [OF ls x])
  have lv: "sorted_wrt (<) (map (\<lambda>x. tlab (tls h) (fst x)) (leaves S))" using leaf_labels [OF sh np] by blast
  have dl: "distinct (map snd (leaves S))" using ls by (simp add: lists_ok_def)
  consider "y \<in> set (c L)" | q where "q \<in> set us" "y \<in> set (c (snd q))" | q where "q \<in> set vs" "y \<in> set (c (snd q))"
    using y uv(1) by (auto simp: order_def)
  then show ?thesis
  proof cases
    case 1
    have p: "(t, L) \<in> set (leaves S)" using uv(1) by simp
    have lo: "list_ok h t L (c L)" using ls p by (auto simp: lists_ok_def)
    have "sorted_wrt (<) (map (lab (nodes h)) (c L))" using lo by (simp add: list_ok_def)
    then have b: "before (c L) x y \<longleftrightarrow> lab (nodes h) x < lab (nodes h) y" by (rule before_sorted [OF _ uv(2) 1])
    have "y \<notin> set (order c us)" "y \<notin> set (order c vs)" using dis uv(1) 1 by auto
    then have "before (order c (leaves S)) x y \<longleftrightarrow> before (c L) x y"
      using uv by (auto simp: before_append dest: before_in)
    then show ?thesis using at [OF p, of x] at [OF p, of y] uv(2) 1 b by (auto simp: om_precedes_def lab_def)
  next
    case (2 q)
    then have "tlab (tls h) (fst q) < tlab (tls h) t" using lv uv(1) by (auto simp: sorted_wrt_append)
    then have "om_precedes h (Some x) (Some y) = Some False"
      using rel [of "(t, L)" q x y] 2 uv(1,2) dl by (auto simp: image_iff)
    moreover have "before (order c (leaves S)) y x"
      using 2 uv(1,2) order_part [of q us c] by (auto simp: before_append)
    ultimately show ?thesis using before_asym [OF dis, of y x] by simp
  next
    case (3 q)
    then have "tlab (tls h) t < tlab (tls h) (fst q)" using lv uv(1) by (auto simp: sorted_wrt_append)
    then have "om_precedes h (Some x) (Some y) = Some True"
      using rel [of "(t, L)" q x y] 3 uv(1,2) dl by (auto simp: image_iff)
    moreover have "before (order c (leaves S)) x y"
      using 3 uv(1,2) order_part [of q vs c] by (auto simp: before_append)
    ultimately show ?thesis by simp
  qed
qed

end
