(* ===== verification/OmrdInv.thy ===== *)
theory OmrdInv
  imports Omrd OmStruct
begin

text \<open>
  The wrapper around the order-maintenance structures keeps them correct: the heavy leaves are
  the ones the array holds, a relabeling makes room after every node of a heavy list, so the
  slow path of an insertion succeeds in its first round.
\<close>

section \<open>One structure\<close>

definition ds_ok :: "omrd \<Rightarrow> shape \<Rightarrow> (nat \<Rightarrow> nat list) \<Rightarrow> bool" where
  "ds_ok d S c \<longleftrightarrow>
     om_ok (m_heap d) (m_ds d) S c \<and> stk_ok (m_heavy_nodes d) \<and>
     (\<exists>ts. st_contents (m_heavy_nodes d) = map (\<lambda>t. Some (Some t)) ts \<and> distinct ts \<and>
        set ts = heavies (m_heap d) (leaves S))"

text \<open>The structure stands for the sequence \<open>xs\<close>.\<close>

definition ds_order :: "omrd \<Rightarrow> nat list \<Rightarrow> bool" where
  "ds_order d xs \<longleftrightarrow> (\<exists>S c. ds_ok d S c \<and> order c (leaves S) = xs)"

lemma ds_order_distinct: "ds_order d xs \<Longrightarrow> distinct xs"
  by (auto simp: ds_order_def ds_ok_def om_ok_def lists_ok_def)

lemma precedes_order:
  "ds_order d xs \<Longrightarrow> x \<in> set xs \<Longrightarrow> y \<in> set xs \<Longrightarrow> om_precedes (m_heap d) (Some x) (Some y) = Some (before xs x y)"
  by (auto simp: ds_order_def ds_ok_def om_precedes_order)

subsection \<open>Trying to insert\<close>

lemma try_insert_ok:
  assumes ok: "ds_ok d S c" and b: "b \<in> set (order c (leaves S))"
  shows "try_insert d (Some b) = Some (NULL, d) \<and> (\<forall>A. rooms (m_heap d) A \<longrightarrow> b \<notin> A) \<or>
    (\<exists>n d' c'. try_insert d (Some b) = Some (Some n, d') \<and> ds_ok d' S c' \<and> n \<notin> set (order c (leaves S)) \<and>
      order c' (leaves S) = insert_after b n (order c (leaves S)))"
proof -
  have om: "om_ok (m_heap d) (m_ds d) S c" using ok by (simp add: ds_ok_def)
  from om_insert_ok [OF om b] show ?thesis
  proof (elim disjE exE conjE)
    assume "om_insert (m_heap d) (m_ds d) (Some b) = Some (NULL, m_heap d)" "\<forall>A. rooms (m_heap d) A \<longrightarrow> b \<notin> A"
    then show ?thesis by (simp add: try_insert_def)
  next
    fix c' h' assume h': "om_insert (m_heap d) (m_ds d) (Some b) = Some (Some (fresh (m_heap d)), h')"
      "om_ok h' (m_ds d) S c'" "order c' (leaves S) = insert_after b (fresh (m_heap d)) (order c (leaves S))"
      "fresh (m_heap d) \<notin> set (order c (leaves S))" "heavies h' (leaves S) = heavies (m_heap d) (leaves S)"
    have "ds_ok (d\<lparr>m_heap := h'\<rparr>) S c'" using ok h'(2,5) by (simp add: ds_ok_def)
    moreover have "try_insert d (Some b) = Some (Some (fresh (m_heap d)), d\<lparr>m_heap := h'\<rparr>)"
      using h'(1) by (simp add: try_insert_def)
    ultimately show ?thesis using h'(3,4) by blast
  qed
qed

subsection \<open>Marking a list heavy\<close>

text \<open>What \<open>register_heavy\<close> does to one structure.\<close>

definition mark_base :: "omrd \<Rightarrow> ptr \<Rightarrow> omrd option" where
  "mark_base d base =
     do {
       b \<leftarrow> node_at (m_heap d) base;
       (won, d) \<leftarrow> mark_heavy d (bl_list b);
       if won then add_heavy d base else Some d
     }"

lemma register_heavy_eq: "register_heavy s w base = map_option (set_ds s w) (mark_base (get_ds s w) base)"
  by (simp add: register_heavy_def mark_base_def map_option_bind split: Option.bind_split prod.split)

lemma mark_list_ok: "list_ok h t L xs \<Longrightarrow> lists h K = Some l \<Longrightarrow>
    list_ok (h\<lparr>lists := (lists h)(K \<mapsto> l\<lparr>heavy := True\<rparr>)\<rparr>) t L xs"
  by (erule list_ok_cong) (auto simp: map_option_case)

lemma om_ok_mark:
  assumes ok: "om_ok h m S c" and l: "lists h L = Some l"
  shows "om_ok (h\<lparr>lists := (lists h)(L \<mapsto> l\<lparr>heavy := True\<rparr>)\<rparr>) m S c"
proof -
  have "lists_ok h c (leaves S)" and tr: "tree_ok h m S" using ok by (simp_all add: om_ok_def)
  then have "lists_ok (h\<lparr>lists := (lists h)(L \<mapsto> l\<lparr>heavy := True\<rparr>)\<rparr>) c (leaves S)"
    using mark_list_ok [OF _ l] by (simp add: lists_ok_def)
  moreover have "tree_ok (h\<lparr>lists := (lists h)(L \<mapsto> l\<lparr>heavy := True\<rparr>)\<rparr>) m S"
    using tr l fresh_okD [of h L] by (auto simp: tree_ok_def fresh_ok_def)
  ultimately show ?thesis using ok by (simp add: om_ok_def)
qed

lemma mark_base_ok:
  assumes ok: "ds_ok d S c" and b: "b \<in> set (order c (leaves S))" and small: "length (order c (leaves S)) < 2 ^ 30"
  shows "\<exists>d' t L. mark_base d (Some b) = Some d' \<and> ds_ok d' S c \<and> (t, L) \<in> set (leaves S) \<and> b \<in> set (c L) \<and>
    t \<in> heavies (m_heap d') (leaves S)"
proof -
  let ?h = "m_heap d"
  have om: "om_ok ?h (m_ds d) S c" and st: "stk_ok (m_heavy_nodes d)" using ok by (simp_all add: ds_ok_def)
  have ls: "lists_ok ?h c (leaves S)" and sh: "shape_ok (tls ?h) NULL 0 0 S" and dist: "distinct (taddrs S)"
    using om by (simp_all add: om_ok_def tree_ok_def)
  obtain ts where ts: "st_contents (m_heavy_nodes d) = map (\<lambda>t. Some (Some t)) ts" "distinct ts"
    "set ts = heavies ?h (leaves S)" using ok by (auto simp: ds_ok_def)
  obtain us t L vs where uv: "leaves S = us @ (t, L) # vs" "b \<in> set (c L)" by (rule order_leaf [OF ls b])
  have mem: "(t, L) \<in> set (leaves S)" using uv(1) by simp
  have lo: "list_ok ?h t L (c L)" using ls mem by (auto simp: lists_ok_def)
  obtain n where n: "nodes ?h b = Some n" "bl_list n = Some L" using list_ok_node [OF lo uv(2)] by blast
  obtain l where l: "lists ?h L = Some l" "above l = Some t" using lo by (rule list_okE)
  have dl: "distinct (map fst (leaves S))" using leaves_at_shape [OF sh dist] by (simp add: leaves_at_def)
  show ?thesis
  proof (cases "heavy l")
    case True
    then have "mark_base d (Some b) = Some d" using n l by (simp add: mark_base_def mark_heavy_def)
    moreover have "t \<in> heavies ?h (leaves S)" using mem l(1) True by (force simp: heavies_def)
    ultimately show ?thesis using ok mem uv(2) by blast
  next
    case False
    define h1 where "h1 = ?h\<lparr>lists := (lists ?h)(L \<mapsto> l\<lparr>heavy := True\<rparr>)\<rparr>"
    have om1: "om_ok h1 (m_ds d) S c" unfolding h1_def by (rule om_ok_mark [OF om l(1)])
    have hv: "heavies h1 (leaves S) = insert t (heavies ?h (leaves S))"
    proof -
      have "snd p = L \<longleftrightarrow> p = (t, L)" if "p \<in> set (leaves S)" for p
        using that mem ls by (auto simp: lists_ok_def distinct_map inj_on_def)
      then have "{p \<in> set (leaves S). map_option heavy (lists h1 (snd p)) = Some True} =
        insert (t, L) {p \<in> set (leaves S). map_option heavy (lists ?h (snd p)) = Some True}"
        using mem l(1) by (auto simp: h1_def)
      then show ?thesis by (simp add: heavies_def)
    qed
    have tn: "t \<notin> heavies ?h (leaves S)"
    proof
      assume "t \<in> heavies ?h (leaves S)"
      then obtain K where K: "(t, K) \<in> set (leaves S)" "map_option heavy (lists ?h K) = Some True"
        by (auto simp: heavies_def)
      have "K = L" by (rule eq_key_imp_eq_value [OF dl K(1) mem])
      then show False using K(2) l(1) False by simp
    qed
    have "length ts \<le> nl S"
      using card_mono [of "set (map fst (leaves S))" "set ts"] ts(2,3) distinct_card [OF ts(2)] card_length [of "map fst (leaves S)"]
      by (fastforce simp: heavies_def)
    then have "unat (st_size (m_heavy_nodes d)) < 2 ^ 30"
      using length_contents [OF st] ts(1) leaves_le_order [OF ls] small by simp
    from st_add_ok [OF st this, of "Some t"] obtain st' where
      st': "st_add (m_heavy_nodes d) (Some t) = Some st'" "stk_ok st'"
      "st_contents st' = st_contents (m_heavy_nodes d) @ [Some (Some t)]" by blast
    define d' where "d' = d\<lparr>m_heavy_nodes := st', m_heap := h1\<rparr>"
    have "mark_base d (Some b) = Some d'"
      using n l False st'(1)
      by (simp add: mark_base_def mark_heavy_def add_heavy_def om_get_tl_def upd_list_def d'_def h1_def)
    moreover have "ds_ok d' S c"
      unfolding ds_ok_def
    proof (intro conjI exI)
      show "st_contents (m_heavy_nodes d') = map (\<lambda>t. Some (Some t)) (ts @ [t])" using st'(3) ts(1) by (simp add: d'_def)
      show "distinct (ts @ [t])" using ts(2,3) tn by simp
      show "set (ts @ [t]) = heavies (m_heap d') (leaves S)" using ts(3) hv by (simp add: d'_def)
    qed (use om1 st'(2) in \<open>simp_all add: d'_def\<close>)
    moreover have "t \<in> heavies (m_heap d') (leaves S)" using hv by (simp add: d'_def)
    ultimately show ?thesis using mem uv(2) by blast
  qed
qed

subsection \<open>Relabeling\<close>

lemma those_map: "those (map (\<lambda>t. Some (f t)) ts) = Some (map f ts)"
  by (induction ts) simp_all

lemma relabel_ok:
  assumes ok: "ds_ok d S c" and small: "length (order c (leaves S)) < 2 ^ 30" and shl: "shl_ok shl1"
  shows "\<exists>d' S' c'. relabel shl1 d = Some d' \<and> ds_ok d' S' c' \<and> order c' (leaves S') = order c (leaves S) \<and>
    (\<forall>t L. t \<in> heavies (m_heap d) (leaves S) \<longrightarrow> (t, L) \<in> set (leaves S) \<longrightarrow> rooms (m_heap d') (set (c L)))"
proof -
  have om: "om_ok (m_heap d) (m_ds d) S c" and st: "stk_ok (m_heavy_nodes d)" using ok by (simp_all add: ds_ok_def)
  obtain ts where ts: "st_contents (m_heavy_nodes d) = map (\<lambda>t. Some (Some t)) ts" "distinct ts"
    "set ts = heavies (m_heap d) (leaves S)" using ok by (auto simp: ds_ok_def)
  show ?thesis
  proof (cases "ts = []")
    case True
    then have "relabel shl1 d = Some d" using ts(1) st_empty_contents [OF st] by (simp add: relabel_def)
    then show ?thesis using ok ts(3) True by auto
  next
    case False
    then have ne: "\<not> st_empty (m_heavy_nodes d)" using ts(1) st_empty_contents [OF st] by simp
    have sub: "set ts \<subseteq> fst ` set (leaves S)" unfolding ts(3) by (auto simp: heavies_def)
    have "length (order c (leaves S)) < 2 ^ 31" using small by simp
    from om_relabel_ok [OF om ts(2) sub this shl] obtain S' c' m' h' where
      r: "om_relabel shl1 (m_heap d) (m_ds d) (map Some ts) = Some (m', h')" "om_ok h' m' S' c'"
      "order c' (leaves S') = order c (leaves S)" "heavies h' (leaves S') \<subseteq> heavies (m_heap d) (leaves S) - set ts"
      "\<forall>u K. u \<in> set ts \<longrightarrow> (u, K) \<in> set (leaves S) \<longrightarrow> rooms h' (set (c K))" by blast
    define d' where "d' = d\<lparr>m_ds := m', m_heap := h', m_heavy_nodes := st_reset (m_heavy_nodes d)\<rparr>"
    have "relabel shl1 d = Some d'"
      using ne ts(1) r(1) by (simp add: relabel_def those_map d'_def)
    moreover have "ds_ok d' S' c'"
      using r(2,4) ts(3) stk_ok_reset [OF st] by (auto simp: ds_ok_def d'_def)
    ultimately show ?thesis using r(3,5) ts(3) by (auto simp: d'_def)
  qed
qed

section \<open>Both structures\<close>

text \<open>The English and the Hebrew structure stand for the sequences \<open>ord\<close>.\<close>

definition st_ok :: "om_state \<Rightarrow> (which \<Rightarrow> nat list) \<Rightarrow> bool" where
  "st_ok s ord \<longleftrightarrow> (\<forall>w. ds_order (get_ds s w) (ord w)) \<and> even (g_relabel_id s)"

lemma all_which: "(\<forall>w. P w) \<longleftrightarrow> P English \<and> P Hebrew"
  by (metis which.exhaust)

lemma get_set_ds [simp]: "get_ds (set_ds s w d) v = (if v = w then d else get_ds s v)"
  by (cases w; cases v) simp_all

lemma set_ds_fields [simp]:
  "g_relabel_id (set_ds s w d) = g_relabel_id s" "insert_failed (set_ds s w d) = insert_failed s"
  "g_heavy_threshold (set_ds s w d) = g_heavy_threshold s"
  by (cases w; simp)+

lemma get_ds_fields [simp]:
  "get_ds (set_failed s t v) w = get_ds s w" "get_ds (s\<lparr>g_batch_in_progress := p, g_batch_owner_id := q\<rparr>) w = get_ds s w"
  "g_relabel_id (set_failed s t v) = g_relabel_id s"
  by (cases w; simp add: set_failed_def)+

lemma join_batch_ok:
  assumes f: "insert_failed s th" and e: "even (g_relabel_id s)"
    and r: "relabel shl1 (g_english s) = Some d1" "relabel shl1 (g_hebrew s) = Some d2"
  shows "\<exists>s'. join_batch shl1 s th = Some s' \<and> g_english s' = d1 \<and> g_hebrew s' = d2 \<and> even (g_relabel_id s')"
  using assms by (simp add: join_batch_def tool_om_try_lock_all_def batch_relabel_def Let_def)

definition small :: "(which \<Rightarrow> nat list) \<Rightarrow> bool" where
  "small ord \<longleftrightarrow> (\<forall>w. length (ord w) < 2 ^ 30 - 1)"

lemma small_length:
  assumes "small ord"
  shows "length (ord v) < 2 ^ 30"
proof -
  have "length (ord v) < 2 ^ 30 - 1" using assms by (simp add: small_def)
  then show ?thesis by simp
qed

lemma st_okE:
  assumes "st_ok s ord"
  obtains S c where "ds_ok (get_ds s w) S c" "order c (leaves S) = ord w"
  using assms unfolding st_ok_def ds_order_def by blast

text \<open>The slow path ends in its first round.\<close>

lemma slow_path_ok:
  assumes ok: "st_ok s ord" and b: "b \<in> set (ord w)" and sm: "small ord" and shl: "shl_ok shl1"
  shows "\<exists>n s'. slow_path shl1 s w th (Some b) = Some (Some n, s') \<and> n \<notin> set (ord w) \<and>
    st_ok s' (ord(w := insert_after b n (ord w)))"
proof -
  define s1 where "s1 = set_failed s th True"
  have g1: "get_ds s1 v = get_ds s v" for v by (simp add: s1_def)
  have ds: "ds_order (get_ds s v) (ord v)" for v using ok by (simp add: st_ok_def)
  obtain S c where S: "ds_ok (get_ds s w) S c" "order c (leaves S) = ord w" using ds [of w] by (auto simp: ds_order_def)
  have len: "length (ord v) < 2 ^ 30" for v by (rule small_length [OF sm])
  obtain d1 t L where d1: "mark_base (get_ds s w) (Some b) = Some d1" "ds_ok d1 S c" "(t, L) \<in> set (leaves S)" "b \<in> set (c L)"
    "t \<in> heavies (m_heap d1) (leaves S)"
    using mark_base_ok [OF S(1)] unfolding S(2) using b len [of w] by blast
  have reg: "register_heavy s1 w (Some b) = Some (set_ds s1 w d1)" using d1(1) by (simp add: register_heavy_eq g1)
  let ?s2 = "set_ds s1 w d1"
  obtain d2 S2 c2 where d2: "relabel shl1 d1 = Some d2" "ds_ok d2 S2 c2" "order c2 (leaves S2) = ord w"
    "rooms (m_heap d2) (set (c L))"
    using relabel_ok [OF d1(2) _ shl] S(2) len [of w] d1(3,5) by auto
  have "\<exists>d'. relabel shl1 (get_ds ?s2 v) = Some d' \<and> ds_order d' (ord v) \<and> (v = w \<longrightarrow> d' = d2)" for v
  proof (cases "v = w")
    case True
    then show ?thesis using d2 by (auto simp: ds_order_def)
  next
    case False
    obtain T e where T: "ds_ok (get_ds s v) T e" "order e (leaves T) = ord v" using ds [of v] by (auto simp: ds_order_def)
    then show ?thesis using relabel_ok [OF T(1) _ shl] len [of v] False by (auto simp: g1 ds_order_def)
  qed
  then obtain dd where dd: "\<And>v. relabel shl1 (get_ds ?s2 v) = Some (dd v)" "\<And>v. ds_order (dd v) (ord v)" "dd w = d2"
    by metis
  have "insert_failed ?s2 th" "even (g_relabel_id ?s2)"
    using ok by (simp_all add: s1_def set_failed_def st_ok_def)
  from join_batch_ok [OF this, of shl1 "dd English" "dd Hebrew"] dd(1) [of English] dd(1) [of Hebrew]
  obtain s3 where s3: "join_batch shl1 ?s2 th = Some s3" "g_english s3 = dd English" "g_hebrew s3 = dd Hebrew"
    "even (g_relabel_id s3)" by auto
  have g3: "get_ds s3 v = dd v" for v using s3(2,3) by (cases v) simp_all
  obtain n d4 c4 where d4: "try_insert d2 (Some b) = Some (Some n, d4)" "ds_ok d4 S2 c4" "n \<notin> set (ord w)"
    "order c4 (leaves S2) = insert_after b n (ord w)"
    using try_insert_ok [OF d2(2), unfolded d2(3), OF b] d2(4) d1(4) by blast
  let ?s' = "set_ds (set_failed s3 th False) w d4"
  have "slow_path shl1 s w th (Some b) = Some (Some n, ?s')"
    using reg s3(1) d4(1) by (subst slow_path.simps) (simp add: s1_def [symmetric] g3 dd(3))
  moreover have "st_ok ?s' (ord(w := insert_after b n (ord w)))"
    using dd(2) d4(2,4) s3(4) by (auto simp: st_ok_def g3 ds_order_def)
  ultimately show ?thesis using d4(3) by blast
qed

lemma order_record:
  assumes ok: "ds_ok d S c" and x: "x \<in> set (order c (leaves S))"
  shows "\<exists>n l v. nodes (m_heap d) x = Some n \<and> list_at (m_heap d) (bl_list n) = Some l \<and>
    is_heavy thr (m_heap d) (Some x) = Some v"
proof -
  have ls: "lists_ok (m_heap d) c (leaves S)" using ok by (simp add: ds_ok_def om_ok_def)
  obtain us t L vs where uv: "leaves S = us @ (t, L) # vs" "x \<in> set (c L)" by (rule order_leaf [OF ls x])
  have lo: "list_ok (m_heap d) t L (c L)" using ls uv(1) by (auto simp: lists_ok_def)
  obtain l where l: "lists (m_heap d) L = Some l" and ch: "chain (nodes (m_heap d)) L NULL (c L) NULL"
    using lo by (rule list_okE)
  obtain as bs where xs: "c L = as @ x # bs" using uv(2) by (meson split_list)
  obtain n where n: "nodes (m_heap d) x = Some n" "bl_next n = (if bs = [] then NULL else hd_ptr bs)" "bl_list n = Some L"
    using chain_next [OF ch [unfolded xs]] by blast
  have "\<exists>v. is_heavy thr (m_heap d) (Some x) = Some v"
  proof (cases bs)
    case (Cons y ys)
    then obtain ny where "nodes (m_heap d) y = Some ny" using list_ok_node [OF lo, of y] xs by auto
    then show ?thesis using n Cons by (simp add: is_heavy_def)
  qed (use n in \<open>simp add: is_heavy_def\<close>)
  then show ?thesis using n l by simp
qed

text \<open>An insertion after a node in one of the orders.\<close>

lemma omrd_insert_ok:
  assumes ok: "st_ok s ord" and b: "b \<in> set (ord w)" and sm: "small ord" and shl: "shl_ok shl1"
  shows "\<exists>n s'. omrd_insert shl1 s w th (Some b) = Some (Some n, s') \<and> n \<notin> set (ord w) \<and>
    st_ok s' (ord(w := insert_after b n (ord w)))"
proof -
  obtain S c where S: "ds_ok (get_ds s w) S c" "order c (leaves S) = ord w" using ok by (rule st_okE)
  have bo: "b \<in> set (order c (leaves S))" using b S(2) by simp
  obtain n s1 where s1: "(do { (n, d) \<leftarrow> try_insert (get_ds s w) (Some b); let s = set_ds s w d;
      if n = NULL then slow_path shl1 s w th (Some b) else Some (n, s) }) = Some (Some n, s1)"
    "n \<notin> set (ord w)" "st_ok s1 (ord(w := insert_after b n (ord w)))"
  proof -
    from try_insert_ok [OF S(1) bo] show ?thesis
    proof (elim disjE exE conjE)
      assume t: "try_insert (get_ds s w) (Some b) = Some (NULL, get_ds s w)"
      have same: "set_ds s w (get_ds s w) = s" by (cases w) simp_all
      show ?thesis using slow_path_ok [OF ok b sm shl] t that by (auto simp: same)
    next
      fix n d' c' assume t: "try_insert (get_ds s w) (Some b) = Some (Some n, d')" "ds_ok d' S c'"
        "n \<notin> set (order c (leaves S))" "order c' (leaves S) = insert_after b n (order c (leaves S))"
      have "st_ok (set_ds s w d') (ord(w := insert_after b n (ord w)))"
        using ok t(2,4) S(2) by (auto simp: st_ok_def ds_order_def)
      then show ?thesis using t(1,3) S(2) that by simp
    qed
  qed
  let ?xs = "insert_after b n (ord w)"
  obtain S1 c1 where S1: "ds_ok (get_ds s1 w) S1 c1" "order c1 (leaves S1) = ?xs"
    using s1(3) by (rule st_okE [where w = w]) simp
  have mem: "n \<in> set ?xs" "b \<in> set ?xs" using b by (auto simp: set_insert_after)
  obtain x l v where x: "nodes (m_heap (get_ds s1 w)) n = Some x" "list_at (m_heap (get_ds s1 w)) (bl_list x) = Some l"
    "is_heavy (g_heavy_threshold s1) (m_heap (get_ds s1 w)) (Some n) = Some v"
    using order_record [OF S1(1), unfolded S1(2), OF mem(1), of "g_heavy_threshold s1"] by blast
  have run: "omrd_insert shl1 s w th (Some b) =
    (if \<not> heavy l \<and> v then do { s \<leftarrow> register_heavy s1 w (Some b); Some (Some n, s) } else Some (Some n, s1))"
  proof -
    from s1(1) obtain m d where t: "try_insert (get_ds s w) (Some b) = Some (m, d)"
      and r: "(if m = NULL then slow_path shl1 (set_ds s w d) w th (Some b) else Some (m, set_ds s w d)) = Some (Some n, s1)"
      by (auto simp: bind_eq_Some_conv Let_def)
    show ?thesis using x by (simp add: omrd_insert_def t Let_def r del: split_paired_Ex)
  qed
  show ?thesis
  proof (cases "\<not> heavy l \<and> v")
    case False
    then show ?thesis using run s1(2,3) by auto
  next
    case True
    have "length ?xs = Suc (length (ord w))" using b by (rule length_insert_after)
    moreover have "length (ord w) < 2 ^ 30 - 1" using sm by (simp add: small_def)
    ultimately have lx: "length ?xs < 2 ^ 30" by simp
    obtain d2 where d2: "mark_base (get_ds s1 w) (Some b) = Some d2" "ds_ok d2 S1 c1"
      using mark_base_ok [OF S1(1), unfolded S1(2), OF mem(2) lx] by blast
    have "ds_order d2 ?xs" using d2(2) S1(2) by (auto simp: ds_order_def)
    moreover have "\<forall>v. ds_order (get_ds s1 v) ((ord(w := ?xs)) v)" "even (g_relabel_id s1)"
      using s1(3) unfolding st_ok_def by blast+
    ultimately have "st_ok (set_ds s1 w d2) (ord(w := ?xs))" by (auto simp: st_ok_def split: if_splits)
    then show ?thesis using run True d2(1) s1(2) by (auto simp: register_heavy_eq)
  qed
qed

section \<open>The new structures\<close>

lemma omrd_new_ok: "\<exists>d b. omrd_new = Some d \<and> m_base d = Some b \<and> ds_order d [b]"
proof -
  define t where "t = \<lparr>tl_label = 0 :: label_t, level = MAX_LEVEL, num_leaves = 1, parent = NULL, left = NULL, right = NULL,
    below = Some 1, needs_rebalance = False\<rparr>"
  define h where "h = \<lparr>nodes = [2 \<mapsto> \<lparr>bl_label = 0, bl_next = NULL, bl_prev = NULL, bl_list = Some 1\<rparr>],
    lists = [1 \<mapsto> \<lparr>head = Some 2, tail = Some 2, above = Some 0, heavy = False\<rparr>], tls = [0 \<mapsto> t], fresh = 3\<rparr>"
  define m where "m = \<lparr>root = Some 0, om_head = Some 0, om_tail = Some 0, om_height = 0\<rparr>"
  define d where "d = \<lparr>m_heavy_nodes = Stack_t (), m_ds = m, m_heap = h, m_base = Some 2\<rparr>"
  have run: "omrd_new = Some d"
    by (simp add: omrd_new_def om_new_def om_create_def empty_heap_def new_tl_def bl_new_eq upd_tl_def upd_list_def
        try_insert_def om_insert_initial_def bl_insert_initial_def new_node_def insert_internal_def upd_node_def
        d_def m_def h_def t_def numeral_2_eq_2 numeral_3_eq_3)
  define c where "c = (\<lambda>_ :: nat. [2 :: nat])"
  have "list_ok h 0 1 [2]" by (simp add: list_ok_def h_def last_ptr_def)
  moreover have "tree_ok h m (Tip 0 1)"
    by (auto simp: tree_ok_def m_def h_def t_def flag_def fresh_ok_def)
  ultimately have "om_ok h m (Tip 0 1) c" by (simp add: om_ok_def lists_ok_def c_def)
  moreover have "heavies h (leaves (Tip 0 1)) = {}" by (simp add: heavies_def h_def)
  ultimately have "ds_ok d (Tip 0 1) c" using stk_ok_new by (simp add: ds_ok_def d_def)
  then have "ds_order d [2]" unfolding ds_order_def by (intro exI [of _ "Tip 0 1"] exI [of _ c]) (simp add: c_def)
  then show ?thesis using run by (auto simp: d_def)
qed

lemma om_state_new_ok:
  "\<exists>s b. om_state_new = Some s \<and> m_base (g_english s) = Some b \<and> m_base (g_hebrew s) = Some b \<and> st_ok s (\<lambda>_. [b])"
proof -
  obtain d b where d: "omrd_new = Some d" "m_base d = Some b" "ds_order d [b]" using omrd_new_ok by blast
  define s where "s = \<lparr>g_english = d, g_hebrew = d, g_relabel_id = 0, total_num_relabel = 0,
    g_batch_in_progress = False, g_batch_owner_id = None, insert_failed = (\<lambda>_. False), g_heavy_threshold = HALF_BITS\<rparr>"
  have "om_state_new = Some s" by (simp add: om_state_new_def d(1) s_def)
  moreover have "st_ok s (\<lambda>_. [b])" using d(3) by (simp add: st_ok_def all_which s_def)
  ultimately show ?thesis using d(2) by (auto simp: s_def)
qed

section \<open>The interface\<close>

text \<open>
  What a client relies on: the state stands for two sequences, a comparison tells which of two
  members stands first, and an insertion returns a new member right after the given one.
\<close>

locale order_pair =
  fixes stands :: "'s \<Rightarrow> (which \<Rightarrow> nat list) \<Rightarrow> bool"
    and prec :: "'s \<Rightarrow> which \<Rightarrow> nat \<Rightarrow> nat \<Rightarrow> bool option"
    and ins :: "'s \<Rightarrow> which \<Rightarrow> nat \<Rightarrow> (ptr \<times> 's) option"
  assumes stands_distinct: "stands s ord \<Longrightarrow> distinct (ord w)"
    and prec_before: "stands s ord \<Longrightarrow> x \<in> set (ord w) \<Longrightarrow> y \<in> set (ord w) \<Longrightarrow>
      prec s w x y = Some (before (ord w) x y)"
    and ins_after: "stands s ord \<Longrightarrow> small ord \<Longrightarrow> b \<in> set (ord w) \<Longrightarrow>
      \<exists>n s'. ins s w b = Some (Some n, s') \<and> n \<notin> set (ord w) \<and> stands s' (ord(w := insert_after b n (ord w)))"
begin

text \<open>The comparisons after an insertion, between the old members and with the new one.\<close>

lemma prec_after_ins:
  assumes st: "stands s ord" "small ord" and b: "b \<in> set (ord w)" and i: "ins s w b = Some (r, s')"
  shows "\<exists>n. r = Some n \<and> n \<notin> set (ord w) \<and> prec s' w b n = Some True \<and> prec s' w n b = Some False \<and>
    (\<forall>x \<in> set (ord w). \<forall>y \<in> set (ord w). prec s' w x y = prec s w x y) \<and>
    (\<forall>v. v \<noteq> w \<longrightarrow> (\<forall>x \<in> set (ord v). \<forall>y \<in> set (ord v). prec s' v x y = prec s v x y)) \<and>
    (\<forall>x \<in> set (ord w). x \<noteq> b \<longrightarrow> prec s' w n x = prec s w b x \<and> prec s' w x n = prec s w x b)"
proof -
  from ins_after [OF st b] i obtain n where n: "r = Some n" "n \<notin> set (ord w)"
    "stands s' (ord(w := insert_after b n (ord w)))" by auto
  let ?o = "ord(w := insert_after b n (ord w))"
  have m: "set (?o w) = insert n (set (ord w))" using b by (simp add: set_insert_after)
  note bi = before_insert [OF stands_distinct [OF st(1)] b n(2)]
  have p: "prec s' w x y = Some (before (?o w) x y)" if "x \<in> insert n (set (ord w))" "y \<in> insert n (set (ord w))" for x y
    by (rule prec_before [OF n(3)]) (use that m in auto)
  have p0: "prec s v x y = Some (before (ord v) x y)" if "x \<in> set (ord v)" "y \<in> set (ord v)" for v x y
    by (rule prec_before [OF st(1) that])
  have pv: "prec s' v x y = Some (before (ord v) x y)" if "v \<noteq> w" "x \<in> set (ord v)" "y \<in> set (ord v)" for v x y
    using prec_before [OF n(3), of x v y] that by simp
  have irr: "\<not> before (ord w) b b" using before_asym [OF stands_distinct [OF st(1)]] by blast
  have ne: "x \<noteq> n" if "x \<in> set (ord w)" for x using that n(2) by auto
  have "prec s' w b n = Some True" using p [of b n] b bi(2) by simp
  moreover have "prec s' w n b = Some False" using p [of n b] b bi(3) irr by simp
  moreover have "prec s' w x y = prec s w x y" if "x \<in> set (ord w)" "y \<in> set (ord w)" for x y
    using p [of x y] p0 [OF that] bi(1) ne that by simp
  moreover have "prec s' w n x = prec s w b x \<and> prec s' w x n = prec s w x b" if "x \<in> set (ord w)" "x \<noteq> b" for x
    using p [of n x] p [of x n] p0 [OF b that(1)] p0 [OF that(1) b] bi(3,4) that by simp
  ultimately show ?thesis using n(1,2) pv p0 by auto
qed

end

text \<open>The two structures of C-RACER provide it; \<open>th\<close> is the inserting thread.\<close>

interpretation om_orders: order_pair "\<lambda>s ord. st_ok s ord \<and> shl_ok shl1"
  "\<lambda>s w x y. om_precedes (m_heap (get_ds s w)) (Some x) (Some y)" "\<lambda>s w b. omrd_insert shl1 s w th (Some b)"
  for shl1 th
proof unfold_locales
  show "distinct (ord w)" if "st_ok s ord \<and> shl_ok shl1" for s ord w
    using that ds_order_distinct by (auto simp: st_ok_def)
  show "om_precedes (m_heap (get_ds s w)) (Some x) (Some y) = Some (before (ord w) x y)"
    if "st_ok s ord \<and> shl_ok shl1" "x \<in> set (ord w)" "y \<in> set (ord w)" for s ord w x y
    using that precedes_order by (auto simp: st_ok_def)
  show "\<exists>n s'. omrd_insert shl1 s w th (Some b) = Some (Some n, s') \<and> n \<notin> set (ord w) \<and>
      st_ok s' (ord(w := insert_after b n (ord w))) \<and> shl_ok shl1"
    if "st_ok s ord \<and> shl_ok shl1" "small ord" "b \<in> set (ord w)" for s ord w b
    using omrd_insert_ok [of s ord b w shl1 th] that by blast
qed

end
