(* ===== verification/CrAccess.thy ===== *)
theory CrAccess
  imports Cracer OmrdInv
begin

text \<open>
  What one address remembers (\<open>VarState::access\<close>): of all reads the last in the Hebrew and the
  last in the English order, and the last write.  These three decide whether a new access is
  parallel to any earlier one that conflicts.
\<close>

section \<open>Strands\<close>

type_synonym strand = "nat \<times> nat"

type_synonym orders = "which \<Rightarrow> nat list"

text \<open>A strand stays one value in the proofs below.\<close>

declare split_paired_Ex [simp del] split_paired_All [simp del]

text \<open>A strand comes before another when both orders say so; parallel when they disagree.\<close>

definition series :: "orders \<Rightarrow> strand \<Rightarrow> strand \<Rightarrow> bool" where
  "series ord a b \<longleftrightarrow> before (ord English) (fst a) (fst b) \<and> before (ord Hebrew) (snd a) (snd b)"

definition par :: "orders \<Rightarrow> strand \<Rightarrow> strand \<Rightarrow> bool" where
  "par ord a b \<longleftrightarrow> before (ord English) (fst a) (fst b) \<noteq> before (ord Hebrew) (snd a) (snd b)"

text \<open>The strands in use: a node of each order, none shared.\<close>

definition strands_ok :: "orders \<Rightarrow> strand set \<Rightarrow> bool" where
  "strands_ok ord V \<longleftrightarrow>
     (\<forall>w. distinct (ord w)) \<and> fst ` V \<subseteq> set (ord English) \<and> snd ` V \<subseteq> set (ord Hebrew) \<and>
     inj_on fst V \<and> inj_on snd V"

lemma strands_okD:
  assumes "strands_ok ord V" "a \<in> V" "b \<in> V"
  shows "fst a \<in> set (ord English)" "snd a \<in> set (ord Hebrew)" "fst a = fst b \<longleftrightarrow> a = b" "snd a = snd b \<longleftrightarrow> a = b"
  using assms by (auto simp: strands_ok_def dest: inj_onD)

lemma strands_flip:
  assumes st: "strands_ok ord V" and m: "a \<in> V" "b \<in> V" and "a \<noteq> b"
  shows "before (ord English) (fst a) (fst b) \<longleftrightarrow> \<not> before (ord English) (fst b) (fst a)"
    "before (ord Hebrew) (snd a) (snd b) \<longleftrightarrow> \<not> before (ord Hebrew) (snd b) (snd a)"
proof -
  have d: "distinct (ord w)" for w using st by (simp add: strands_ok_def)
  have ne: "fst a \<noteq> fst b" "snd a \<noteq> snd b" using strands_okD(3,4) [OF st m] assms(4) by simp_all
  show "before (ord English) (fst a) (fst b) \<longleftrightarrow> \<not> before (ord English) (fst b) (fst a)"
    by (rule before_flip [OF d strands_okD(1) [OF st m] strands_okD(1) [OF st m(2,1)] ne(1)])
  show "before (ord Hebrew) (snd a) (snd b) \<longleftrightarrow> \<not> before (ord Hebrew) (snd b) (snd a)"
    by (rule before_flip [OF d strands_okD(2) [OF st m] strands_okD(2) [OF st m(2,1)] ne(2)])
qed

lemma par_sym: "strands_ok ord V \<Longrightarrow> a \<in> V \<Longrightarrow> b \<in> V \<Longrightarrow> par ord a b \<longleftrightarrow> par ord b a"
  using strands_flip [of ord V a b] by (cases "a = b") (auto simp: par_def)

lemma strands_irrefl: "strands_ok ord V \<Longrightarrow> \<not> before (ord w) x x"
  by (simp add: strands_ok_def before_irrefl)

lemma not_par:
  assumes "strands_ok ord V" "a \<in> V" "b \<in> V"
  shows "\<not> par ord a b \<longleftrightarrow> a = b \<or> series ord a b \<or> series ord b a"
  using strands_flip [OF assms] strands_irrefl [OF assms(1)] by (cases "a = b") (auto simp: par_def series_def)

lemma series_trans:
  assumes "strands_ok ord V" "series ord a b" "series ord b c"
  shows "series ord a c"
proof -
  have d: "distinct (ord w)" for w using assms(1) by (simp add: strands_ok_def)
  show ?thesis
    using assms(2,3) before_trans [OF d [of English], of "fst a" "fst b" "fst c"]
      before_trans [OF d [of Hebrew], of "snd a" "snd b" "snd c"]
    by (simp add: series_def)
qed

lemma series_asym:
  assumes "strands_ok ord V" "series ord a b"
  shows "\<not> series ord b a"
  using assms before_asym [of "ord English" "fst a" "fst b"] by (simp add: series_def strands_ok_def)

section \<open>The three accesses\<close>

definition acc :: "strand \<Rightarrow> var_access" where
  "acc a = \<lparr>estrand = Some (fst a), hstrand = Some (snd a)\<rparr>"

lemma acc_simps [simp]:
  "new_var_access (Some (fst a)) (Some (snd a)) = acc a" "update_acc_info x (Some (fst a)) (Some (snd a)) = acc a"
  "estrand (acc a) = Some (fst a)" "hstrand (acc a) = Some (snd a)"
  by (simp_all add: acc_def new_var_access_def update_acc_info_def)

lemma acc_eq [simp]: "acc a = acc b \<longleftrightarrow> a = b"
  by (auto simp: acc_def prod_eq_iff)

definition last_in :: "nat list \<Rightarrow> (strand \<Rightarrow> nat) \<Rightarrow> strand set \<Rightarrow> strand \<Rightarrow> bool" where
  "last_in xs f R l \<longleftrightarrow> l \<in> R \<and> (\<forall>r \<in> R. f r = f l \<or> before xs (f r) (f l))"

text \<open>The record of an address after the reads \<open>R\<close> and the writes \<open>W\<close>, no two conflicting ones parallel.\<close>

definition var_ok :: "orders \<Rightarrow> VarState \<Rightarrow> strand set \<Rightarrow> strand set \<Rightarrow> bool" where
  "var_ok ord v R W \<longleftrightarrow>
     (if R = {} then lreader v = None \<and> rreader v = None
      else (\<exists>l. lreader v = Some (acc l) \<and> last_in (ord Hebrew) snd R l) \<and>
           (\<exists>r. rreader v = Some (acc r) \<and> last_in (ord English) fst R r)) \<and>
     (if W = {} then writer v = None
      else \<exists>w. writer v = Some (acc w) \<and> w \<in> W \<and> (\<forall>x \<in> W. x = w \<or> series ord x w))"

text \<open>The orders of the detector are \<open>ord\<close>.\<close>

definition cr_orders :: "cracer \<Rightarrow> orders \<Rightarrow> bool" where
  "cr_orders s ord \<longleftrightarrow> st_ok (om_st s) ord"

lemma precedes_before:
  assumes "cr_orders s ord"
  shows "x \<in> set (ord English) \<Longrightarrow> y \<in> set (ord English) \<Longrightarrow>
      precedes_english s (Some x) (Some y) = Some (before (ord English) x y)"
    "x \<in> set (ord Hebrew) \<Longrightarrow> y \<in> set (ord Hebrew) \<Longrightarrow>
      precedes_hebrew s (Some x) (Some y) = Some (before (ord Hebrew) x y)"
  using assms precedes_order [of "get_ds (om_st s) English"] precedes_order [of "get_ds (om_st s) Hebrew"]
  by (auto simp: cr_orders_def st_ok_def all_which precedes_english_def precedes_hebrew_def)

lemma races_with_par:
  assumes "cr_orders s ord" "strands_ok ord V" "a \<in> V" "b \<in> V"
  shows "races_with s (acc a) (Some (fst b)) (Some (snd b)) = Some (par ord a b)"
  using strands_okD [OF assms(2,3,4)] strands_okD [OF assms(2,4,3)]
  by (simp add: races_with_def precedes_before [OF assms(1)] par_def)

text \<open>The last write stands for all writes.\<close>

lemma writer_decides:
  assumes st: "strands_ok ord V" and W: "W \<subseteq> V" and a: "a \<in> V" "\<forall>x \<in> W. \<not> series ord a x"
    and w: "w \<in> W" "\<forall>x \<in> W. x = w \<or> series ord x w"
  shows "par ord w a \<longleftrightarrow> (\<exists>x \<in> W. par ord x a)"
proof
  assume "\<exists>x \<in> W. par ord x a"
  then obtain x where x: "x \<in> W" "par ord x a" by blast
  show "par ord w a"
  proof (rule ccontr)
    have mem: "w \<in> V" "x \<in> V" using w(1) x(1) W by auto
    assume "\<not> par ord w a"
    then have "w = a \<or> series ord w a" using not_par [OF st mem(1) a(1)] a(2) w(1) by blast
    moreover have "x = w \<or> series ord x w" using w(2) x(1) by blast
    ultimately have "x = a \<or> series ord x a" using series_trans [OF st, of x w a] by auto
    then show False using x(2) not_par [OF st mem(2) a(1)] by blast
  qed
qed (use w(1) in blast)

text \<open>The two readers stand for all reads.\<close>

lemma readers_decide:
  assumes st: "strands_ok ord V" and R: "R \<subseteq> V" and a: "a \<in> V" "\<forall>x \<in> R. \<not> series ord a x"
    and l: "last_in (ord Hebrew) snd R l" and r: "last_in (ord English) fst R r"
  shows "par ord l a \<or> par ord r a \<longleftrightarrow> (\<exists>x \<in> R. par ord x a)"
proof
  assume "\<exists>x \<in> R. par ord x a"
  then obtain x where x: "x \<in> R" "par ord x a" by blast
  have mem: "l \<in> R" "r \<in> R" "l \<in> V" "r \<in> V" "x \<in> V" using l r x(1) R by (auto simp: last_in_def)
  show "par ord l a \<or> par ord r a"
  proof (rule ccontr)
    assume "\<not> (par ord l a \<or> par ord r a)"
    then have la: "l = a \<or> series ord l a" and ra: "r = a \<or> series ord r a"
      using not_par [OF st _ a(1)] mem a(2) by blast+
    have d: "distinct (ord w)" for w using st by (simp add: strands_ok_def)
    have "snd x = snd a \<or> before (ord Hebrew) (snd x) (snd a)"
      using l x(1) la before_trans [OF d] by (fastforce simp: last_in_def series_def)
    moreover have "fst x = fst a \<or> before (ord English) (fst x) (fst a)"
      using r x(1) ra before_trans [OF d] by (fastforce simp: last_in_def series_def)
    ultimately have "x = a \<or> series ord x a"
      using strands_okD(3,4) [OF st mem(5) a(1)] by (auto simp: series_def)
    then show False using x(2) not_par [OF st mem(5) a(1)] by blast
  qed
qed (use l r in \<open>auto simp: last_in_def\<close>)

section \<open>One access\<close>

lemma last_in_insert:
  assumes "strands_ok ord V" "R \<subseteq> V" "a \<in> V" "last_in (ord w) f R l" "f = (if w = English then fst else snd)"
  shows "last_in (ord w) f (insert a R) (if before (ord w) (f l) (f a) then a else l)"
proof -
  have d: "distinct (ord w)" using assms(1) by (simp add: strands_ok_def)
  have l: "l \<in> R" "l \<in> V" "\<forall>r \<in> R. f r = f l \<or> before (ord w) (f r) (f l)" using assms(2,4) by (auto simp: last_in_def)
  have "f a \<in> set (ord w)" "f l \<in> set (ord w)"
    using strands_okD [OF assms(1,3) l(2)] strands_okD [OF assms(1) l(2) assms(3)] assms(5) by (cases w; simp)+
  then have tot: "f a = f l \<or> before (ord w) (f a) (f l) \<or> before (ord w) (f l) (f a)" using before_total by metis
  show ?thesis
  proof (cases "before (ord w) (f l) (f a)")
    case True
    then show ?thesis using l(3) before_trans [OF d] by (auto simp: last_in_def)
  next
    case False
    then show ?thesis using l tot by (auto simp: last_in_def)
  qed
qed

text \<open>A read races exactly when it is parallel to a write; otherwise it is remembered.\<close>

lemma read_access_ok:
  assumes o: "cr_orders s ord" and st: "strands_ok ord V" and sub: "R \<subseteq> V" "W \<subseteq> V" and a: "a \<in> V"
    and past: "\<forall>x \<in> R \<union> W. \<not> series ord a x" and v: "var_ok ord v R W"
  shows "\<exists>v'. read_access s v (Some (fst a)) (Some (snd a)) =
      Some (if \<exists>x \<in> W. par ord x a then Some WRITE else None, v') \<and>
    (\<not> (\<exists>x \<in> W. par ord x a) \<longrightarrow> var_ok ord v' (insert a R) W)"
proof -
  have wr: "opt_races_with s (writer v) (Some (fst a)) (Some (snd a)) = Some (\<exists>x \<in> W. par ord x a)"
  proof (cases "W = {}")
    case True
    then show ?thesis using v by (simp add: var_ok_def opt_races_with_def)
  next
    case False
    then obtain w where w: "writer v = Some (acc w)" "w \<in> W" "\<forall>x \<in> W. x = w \<or> series ord x w"
      using v by (auto simp: var_ok_def)
    have "w \<in> V" using w(2) sub(2) by blast
    then have "opt_races_with s (writer v) (Some (fst a)) (Some (snd a)) = Some (par ord w a)"
      using w(1) races_with_par [OF o st _ a] by (simp add: opt_races_with_def)
    moreover have "par ord w a \<longleftrightarrow> (\<exists>x \<in> W. par ord x a)"
      by (rule writer_decides [OF st sub(2) a _ w(2,3)]) (use past in blast)
    ultimately show ?thesis by simp
  qed
  show ?thesis
  proof (cases "\<exists>x \<in> W. par ord x a")
    case True
    then show ?thesis using wr by (simp add: read_access_def)
  next
    case False
    have am: "fst a \<in> set (ord English)" "snd a \<in> set (ord Hebrew)" using strands_okD [OF st a a] by simp_all
    note irr = strands_irrefl [OF st]
    have "\<exists>v1 v2. update_lreader s v (Some (fst a)) (Some (snd a)) = Some v1 \<and>
        update_rreader s v1 (Some (fst a)) (Some (snd a)) = Some v2 \<and> var_ok ord v2 (insert a R) W"
    proof (cases "R = {}")
      case True
      then show ?thesis
        using v am irr
        by (auto simp: var_ok_def update_lreader_def update_rreader_def precedes_before [OF o] last_in_def Let_def)
    next
      case False
      then obtain l r where l: "lreader v = Some (acc l)" "last_in (ord Hebrew) snd R l"
        and r: "rreader v = Some (acc r)" "last_in (ord English) fst R r" using v by (auto simp: var_ok_def)
      have lr: "l \<in> R" "r \<in> R" "l \<in> V" "r \<in> V" using l(2) r(2) sub(1) by (auto simp: last_in_def)
      have lm: "fst l \<in> set (ord English)" "snd l \<in> set (ord Hebrew)" using strands_okD [OF st lr(3,3)] by simp_all
      have rm: "fst r \<in> set (ord English)" using strands_okD [OF st lr(4,4)] by simp
      have "\<not> series ord a l" using past lr(1) by blast
      then have left: "before (ord English) (fst a) (fst l) \<Longrightarrow> a = l \<or> before (ord Hebrew) (snd l) (snd a)"
        using before_total [OF lm(2) am(2)] strands_okD(4) [OF st lr(3) a] by (auto simp: series_def)
      define l' where "l' = (if before (ord English) (fst a) (fst l) \<or> before (ord Hebrew) (snd l) (snd a) then a else l)"
      define r' where "r' = (if before (ord English) (fst r) (fst a) then a else r)"
      have "l' = (if before (ord Hebrew) (snd l) (snd a) then a else l)" using left by (auto simp: l'_def)
      then have L: "last_in (ord Hebrew) snd (insert a R) l'"
        using last_in_insert [OF st sub(1) a l(2)] by simp
      have R': "last_in (ord English) fst (insert a R) r'"
        unfolding r'_def using last_in_insert [OF st sub(1) a r(2)] by simp
      have "update_lreader s v (Some (fst a)) (Some (snd a)) = Some (v\<lparr>lreader := Some (acc l')\<rparr>)"
        using l(1) am lm by (simp add: update_lreader_def precedes_before [OF o] l'_def Let_def)
      moreover have "update_rreader s (v\<lparr>lreader := Some (acc l')\<rparr>) (Some (fst a)) (Some (snd a)) =
          Some (v\<lparr>lreader := Some (acc l'), rreader := Some (acc r')\<rparr>)"
        using r(1) am rm by (simp add: update_rreader_def precedes_before [OF o] r'_def Let_def)
      moreover have "var_ok ord (v\<lparr>lreader := Some (acc l'), rreader := Some (acc r')\<rparr>) (insert a R) W"
        using v L R' by (simp add: var_ok_def)
      ultimately show ?thesis by blast
    qed
    then show ?thesis using wr False by (auto simp: read_access_def)
  qed
qed

text \<open>A write races exactly when it is parallel to a read or a write; otherwise it is remembered.\<close>

lemma write_access_ok:
  assumes o: "cr_orders s ord" and st: "strands_ok ord V" and sub: "R \<subseteq> V" "W \<subseteq> V" and a: "a \<in> V"
    and past: "\<forall>x \<in> R \<union> W. \<not> series ord a x" and v: "var_ok ord v R W"
  shows "\<exists>v'. write_access s v (Some (fst a)) (Some (snd a)) =
      Some (if \<exists>x \<in> W. par ord x a then Some WRITE else if \<exists>x \<in> R. par ord x a then Some READ else None, v') \<and>
    (\<not> (\<exists>x \<in> R \<union> W. par ord x a) \<longrightarrow> var_ok ord v' R (insert a W))"
proof -
  obtain w where w: "(case writer v of None \<Rightarrow> new_var_access (Some (fst a)) (Some (snd a)) | Some w \<Rightarrow> w) = acc w" "w \<in> insert a W"
    "\<forall>x \<in> W. x = w \<or> series ord x w" "par ord w a \<longleftrightarrow> (\<exists>x \<in> W. par ord x a)"
  proof (cases "W = {}")
    case True
    have "\<not> par ord a a" using not_par [OF st a a] by blast
    then show ?thesis using v True that [of a] by (simp add: var_ok_def)
  next
    case False
    then obtain w where w: "writer v = Some (acc w)" "w \<in> W" "\<forall>x \<in> W. x = w \<or> series ord x w"
      using v by (auto simp: var_ok_def)
    have "par ord w a \<longleftrightarrow> (\<exists>x \<in> W. par ord x a)"
      by (rule writer_decides [OF st sub(2) a _ w(2,3)]) (use past in blast)
    then show ?thesis using w that [of w] by simp
  qed
  have wV: "w \<in> V" using w(2) a sub(2) by blast
  have ww: "races_with s (acc w) (Some (fst a)) (Some (snd a)) = Some (\<exists>x \<in> W. par ord x a)"
    using races_with_par [OF o st wV a] w(4) by simp
  show ?thesis
  proof (cases "\<exists>x \<in> W. par ord x a")
    case True
    then have "write_access s v (Some (fst a)) (Some (snd a)) = Some (Some WRITE, v\<lparr>writer := Some (acc w)\<rparr>)"
      using w(1) ww by (simp add: write_access_def Let_def)
    then show ?thesis using True by auto
  next
    case False
    have rd: "\<exists>p q. opt_races_with s (lreader v) (Some (fst a)) (Some (snd a)) = Some p \<and>
        opt_races_with s (rreader v) (Some (fst a)) (Some (snd a)) = Some q \<and> (p \<or> q \<longleftrightarrow> (\<exists>x \<in> R. par ord x a))"
    proof (cases "R = {}")
      case True
      then show ?thesis
        using v by (intro exI [of _ False]) (simp add: var_ok_def opt_races_with_def)
    next
      case nonempty: False
      then obtain l r where l: "lreader v = Some (acc l)" "last_in (ord Hebrew) snd R l"
        and r: "rreader v = Some (acc r)" "last_in (ord English) fst R r" using v by (auto simp: var_ok_def)
      have "l \<in> V" "r \<in> V" using l(2) r(2) sub(1) by (auto simp: last_in_def)
      moreover have "par ord l a \<or> par ord r a \<longleftrightarrow> (\<exists>x \<in> R. par ord x a)"
        by (rule readers_decide [OF st sub(1) a _ l(2) r(2)]) (use past in blast)
      ultimately show ?thesis using l(1) r(1) races_with_par [OF o st _ a] by (simp add: opt_races_with_def)
    qed
    then obtain p q where pq: "opt_races_with s (lreader v) (Some (fst a)) (Some (snd a)) = Some p"
      "opt_races_with s (rreader v) (Some (fst a)) (Some (snd a)) = Some q" "p \<or> q \<longleftrightarrow> (\<exists>x \<in> R. par ord x a)" by blast
    let ?v = "v\<lparr>writer := Some (acc a)\<rparr>"
    have "write_access s v (Some (fst a)) (Some (snd a)) = Some (if p \<or> q then Some READ else None, ?v)"
      using w(1) ww False pq(1,2) by (simp add: write_access_def Let_def)
    moreover have "\<forall>x \<in> W. x = a \<or> series ord x a"
      using False not_par [OF st _ a] sub(2) past by blast
    then have "var_ok ord ?v R (insert a W)" using v by (auto simp: var_ok_def)
    ultimately show ?thesis using False pq(3) by auto
  qed
qed

text \<open>The record the first access makes.\<close>

lemma new_var_ok: "var_ok ord (new_VarState rd (Some (fst a)) (Some (snd a))) (if rd then {a} else {}) (if rd then {} else {a})"
  by (auto simp: var_ok_def new_VarState_def last_in_def)

end
