(* ===== verification/CrFork.thy ===== *)
theory CrFork
  imports CrAccess
begin

text \<open>
  A spawn puts three new strands into the orders: in the English order the child, then the
  continuation, in the Hebrew order the continuation, then the child, and before both, for
  the first spawn of a group, the strand after the sync.
\<close>

section \<open>Two insertions after one node\<close>

text \<open>\<open>p\<close> after \<open>a\<close>, then \<open>q\<close> after \<open>p\<close>.\<close>

lemma insert_two:
  assumes d: "distinct xs" and a: "a \<in> set xs" and p: "p \<notin> set xs" and q: "q \<notin> insert p (set xs)"
    and zs: "zs = insert_after p q (insert_after a p xs)"
  shows "distinct zs" "set zs = insert p (insert q (set xs))"
    "before zs a p" "before zs a q" "before zs p q" "\<not> before zs p a" "\<not> before zs q a" "\<not> before zs q p"
    "\<And>x y. x \<in> set xs \<Longrightarrow> y \<in> set xs \<Longrightarrow> before zs x y \<longleftrightarrow> before xs x y"
    "\<And>x n. x \<in> set xs \<Longrightarrow> x \<noteq> a \<Longrightarrow> n \<in> {p, q} \<Longrightarrow> (before zs n x \<longleftrightarrow> before xs a x) \<and> (before zs x n \<longleftrightarrow> before xs x a)"
proof -
  let ?ys = "insert_after a p xs"
  have dy: "distinct ?ys" by (rule distinct_insert_after [OF d p])
  have sy: "set ?ys = insert p (set xs)" by (rule set_insert_after [OF a])
  have py: "p \<in> set ?ys" and qy: "q \<notin> set ?ys" using sy q by auto
  note y = before_insert [OF d a p]
  note z = before_insert [OF dy py qy, folded zs]
  show dz: "distinct zs" unfolding zs by (rule distinct_insert_after [OF dy qy])
  show "set zs = insert p (insert q (set xs))" unfolding zs set_insert_after [OF py] sy by auto
  have ne: "x \<noteq> p" "x \<noteq> q" if "x \<in> set xs" for x using that p q by auto
  have pq: "p \<noteq> q" using q by auto
  show "before zs p q" by (rule z(2))
  show ap: "before zs a p" using z(1) [of a p] y(2) ne [OF a] pq by simp
  show "before zs a q" using z(4) [of a] y(2) ne [OF a] by simp
  show "\<not> before zs p a" "\<not> before zs q a" "\<not> before zs q p"
    using before_asym [OF dz] ap \<open>before zs a q\<close> \<open>before zs p q\<close> by blast+
  show "before zs x y \<longleftrightarrow> before xs x y" if "x \<in> set xs" "y \<in> set xs" for x y
    using z(1) [of x y] y(1) [of x y] ne [OF that(1)] ne [OF that(2)] by simp
  show "(before zs n x \<longleftrightarrow> before xs a x) \<and> (before zs x n \<longleftrightarrow> before xs x a)"
    if "x \<in> set xs" "x \<noteq> a" "n \<in> {p, q}" for x n
    using that z(1) [of p x] z(1) [of x p] z(3) [of x] z(4) [of x] y(3) [of x] y(4) [of x] ne [OF that(1)] pq by auto
qed

section \<open>The strands of a spawn\<close>

text \<open>Between old strands nothing changes.\<close>

definition extends :: "orders \<Rightarrow> orders \<Rightarrow> bool" where
  "extends ord ord' \<longleftrightarrow>
     (\<forall>w. set (ord w) \<subseteq> set (ord' w) \<and> (\<forall>x \<in> set (ord w). \<forall>y \<in> set (ord w). before (ord' w) x y = before (ord w) x y))"

lemma orders_extend_refl: "extends ord ord"
  by (simp add: extends_def)

lemma orders_extend_trans: "extends o1 o2 \<Longrightarrow> extends o2 o3 \<Longrightarrow> extends o1 o3"
  unfolding extends_def by (metis subset_eq)

lemma extends_rel:
  assumes "extends ord ord'" "strands_ok ord V" "a \<in> V" "b \<in> V"
  shows "series ord' a b \<longleftrightarrow> series ord a b" "par ord' a b \<longleftrightarrow> par ord a b"
  using assms(1) strands_okD [OF assms(2-4)] strands_okD [OF assms(2,4,3)]
  by (simp_all add: extends_def series_def par_def)

text \<open>\<open>n\<close> stands to every strand of \<open>V\<close> other than \<open>a\<close> as \<open>a\<close> does.\<close>

definition like :: "orders \<Rightarrow> strand set \<Rightarrow> strand \<Rightarrow> strand \<Rightarrow> bool" where
  "like ord V a n \<longleftrightarrow>
     (\<forall>b \<in> V - {a}. (series ord n b \<longleftrightarrow> series ord a b) \<and> (series ord b n \<longleftrightarrow> series ord b a) \<and> (par ord b n \<longleftrightarrow> par ord b a))"

text \<open>The orders after the insertions for a child and a continuation of \<open>a\<close>.\<close>

definition forked :: "orders \<Rightarrow> strand \<Rightarrow> strand \<Rightarrow> strand \<Rightarrow> orders" where
  "forked ord a c k =
     ord(English := insert_after (fst c) (fst k) (insert_after (fst a) (fst c) (ord English)),
         Hebrew := insert_after (snd k) (snd c) (insert_after (snd a) (snd k) (ord Hebrew)))"

lemma forked_ok:
  assumes st: "strands_ok ord V" and a: "a \<in> V"
    and c: "fst c \<notin> set (ord English)" "snd c \<notin> insert (snd k) (set (ord Hebrew))"
    and k: "fst k \<notin> insert (fst c) (set (ord English))" "snd k \<notin> set (ord Hebrew)"
  shows "strands_ok (forked ord a c k) (insert c (insert k V))" "extends ord (forked ord a c k)"
    "c \<notin> V" "k \<notin> V" "c \<noteq> k"
    "series (forked ord a c k) a c" "series (forked ord a c k) a k" "par (forked ord a c k) c k"
    "like (forked ord a c k) V a c" "like (forked ord a c k) V a k"
proof -
  have d: "distinct (ord w)" for w using st by (simp add: strands_ok_def)
  have am: "fst a \<in> set (ord English)" "snd a \<in> set (ord Hebrew)" using strands_okD [OF st a a] by simp_all
  let ?o = "forked ord a c k"
  have E: "?o English = insert_after (fst c) (fst k) (insert_after (fst a) (fst c) (ord English))" by (simp add: forked_def)
  have H: "?o Hebrew = insert_after (snd k) (snd c) (insert_after (snd a) (snd k) (ord Hebrew))" by (simp add: forked_def)
  note e = insert_two [OF d am(1) c(1) k(1) E]
  note h = insert_two [OF d am(2) k(2) c(2) H]
  show c': "c \<notin> V"
  proof
    assume "c \<in> V"
    then show False using strands_okD(1) [OF st _ a] c(1) by blast
  qed
  show k': "k \<notin> V"
  proof
    assume "k \<in> V"
    then show False using strands_okD(2) [OF st _ a] k(2) by blast
  qed
  show "c \<noteq> k" using k(1) by (metis insertI1)
  show ext: "extends ord ?o"
    unfolding extends_def
  proof (intro allI conjI ballI)
    show "set (ord w) \<subseteq> set (?o w)" for w using e(2) h(2) by (cases w) auto
    show "before (?o w) x y = before (ord w) x y" if "x \<in> set (ord w)" "y \<in> set (ord w)" for w x y
      using e(9) h(9) that by (cases w) auto
  qed
  show "strands_ok ?o (insert c (insert k V))"
    unfolding strands_ok_def
  proof (intro conjI allI)
    show "distinct (?o w)" for w using e(1) h(1) by (cases w) auto
    show "fst ` insert c (insert k V) \<subseteq> set (?o English)" using st e(2) by (auto simp: strands_ok_def)
    show "snd ` insert c (insert k V) \<subseteq> set (?o Hebrew)" using st h(2) by (auto simp: strands_ok_def)
    have "fst ` V \<subseteq> set (ord English)" "snd ` V \<subseteq> set (ord Hebrew)" "inj_on fst V" "inj_on snd V"
      using st by (simp_all add: strands_ok_def)
    then show "inj_on fst (insert c (insert k V))" "inj_on snd (insert c (insert k V))"
      using c k c' k' by (auto simp: inj_on_insert)
  qed
  show "series ?o a c" "series ?o a k" using e(3,4) h(3,4) by (simp_all add: series_def)
  show "par ?o c k" using e(5) h(8) by (simp add: par_def)
  have rel: "(before (?o English) (fst n) (fst b) \<longleftrightarrow> before (?o English) (fst a) (fst b)) \<and>
      (before (?o English) (fst b) (fst n) \<longleftrightarrow> before (?o English) (fst b) (fst a)) \<and>
      (before (?o Hebrew) (snd n) (snd b) \<longleftrightarrow> before (?o Hebrew) (snd a) (snd b)) \<and>
      (before (?o Hebrew) (snd b) (snd n) \<longleftrightarrow> before (?o Hebrew) (snd b) (snd a))"
    if n: "n \<in> {c, k}" and b: "b \<in> V - {a}" for n b
  proof -
    have bV: "b \<in> V" and ba: "b \<noteq> a" using b by auto
    have bm: "fst b \<in> set (ord English)" "snd b \<in> set (ord Hebrew)" "fst b \<noteq> fst a" "snd b \<noteq> snd a"
      using strands_okD [OF st bV a] ba by simp_all
    have nm: "fst n \<in> {fst c, fst k}" "snd n \<in> {snd k, snd c}" using n by auto
    show ?thesis
      using e(10) [OF bm(1,3) nm(1)] e(9) [OF am(1) bm(1)] e(9) [OF bm(1) am(1)]
        h(10) [OF bm(2,4) nm(2)] h(9) [OF am(2) bm(2)] h(9) [OF bm(2) am(2)] by simp
  qed
  show "like ?o V a c" "like ?o V a k" using rel by (simp_all add: like_def series_def par_def)
qed

text \<open>The orders after the insertion of the strand after the sync.\<close>

definition synced :: "orders \<Rightarrow> strand \<Rightarrow> strand \<Rightarrow> orders" where
  "synced ord a y = ord(English := insert_after (fst a) (fst y) (ord English), Hebrew := insert_after (snd a) (snd y) (ord Hebrew))"

lemma synced_ok:
  assumes st: "strands_ok ord V" and a: "a \<in> V" and y: "fst y \<notin> set (ord English)" "snd y \<notin> set (ord Hebrew)"
  shows "strands_ok (synced ord a y) (insert y V)" "extends ord (synced ord a y)" "y \<notin> V" "series (synced ord a y) a y"
    "like (synced ord a y) V a y"
proof -
  have d: "distinct (ord w)" for w using st by (simp add: strands_ok_def)
  have am: "fst a \<in> set (ord English)" "snd a \<in> set (ord Hebrew)" using strands_okD [OF st a a] by simp_all
  let ?o = "synced ord a y"
  have E: "?o English = insert_after (fst a) (fst y) (ord English)" by (simp add: synced_def)
  have H: "?o Hebrew = insert_after (snd a) (snd y) (ord Hebrew)" by (simp add: synced_def)
  note e = before_insert [OF d am(1) y(1), folded E]
  note h = before_insert [OF d am(2) y(2), folded H]
  have sets: "set (?o English) = insert (fst y) (set (ord English))" "set (?o Hebrew) = insert (snd y) (set (ord Hebrew))"
    unfolding E H by (simp_all add: set_insert_after am)
  show y': "y \<notin> V"
  proof
    assume "y \<in> V"
    then show False using strands_okD(1) [OF st _ a] y(1) by blast
  qed
  have ne: "x \<noteq> fst y" if "x \<in> set (ord English)" for x using that y by auto
  have nh: "x \<noteq> snd y" if "x \<in> set (ord Hebrew)" for x using that y by auto
  show ext: "extends ord ?o"
    unfolding extends_def
  proof (intro allI conjI ballI)
    show "set (ord w) \<subseteq> set (?o w)" for w using sets by (cases w) auto
    show "before (?o w) x z = before (ord w) x z" if "x \<in> set (ord w)" "z \<in> set (ord w)" for w x z
      using e(1) [of x z] h(1) [of x z] that ne nh by (cases w) auto
  qed
  show "strands_ok ?o (insert y V)"
    unfolding strands_ok_def
  proof (intro conjI allI)
    show "distinct (?o w)" for w using distinct_insert_after [OF d] y E H by (cases w) auto
    show "fst ` insert y V \<subseteq> set (?o English)" "snd ` insert y V \<subseteq> set (?o Hebrew)" using st sets by (auto simp: strands_ok_def)
    have "fst ` V \<subseteq> set (ord English)" "snd ` V \<subseteq> set (ord Hebrew)" "inj_on fst V" "inj_on snd V"
      using st by (simp_all add: strands_ok_def)
    then show "inj_on fst (insert y V)" "inj_on snd (insert y V)" using y y' by (auto simp: inj_on_insert)
  qed
  show "series ?o a y" using e(2) h(2) by (simp add: series_def)
  have "(before (?o English) (fst y) (fst b) \<longleftrightarrow> before (?o English) (fst a) (fst b)) \<and>
      (before (?o English) (fst b) (fst y) \<longleftrightarrow> before (?o English) (fst b) (fst a)) \<and>
      (before (?o Hebrew) (snd y) (snd b) \<longleftrightarrow> before (?o Hebrew) (snd a) (snd b)) \<and>
      (before (?o Hebrew) (snd b) (snd y) \<longleftrightarrow> before (?o Hebrew) (snd b) (snd a))"
    if b: "b \<in> V - {a}" for b
  proof -
    have bV: "b \<in> V" and ba: "b \<noteq> a" using b by auto
    have bm: "fst b \<in> set (ord English)" "snd b \<in> set (ord Hebrew)" "fst b \<noteq> fst a" "snd b \<noteq> snd a"
      using strands_okD [OF st bV a] ba by simp_all
    show ?thesis
      using e(3) e(4) [OF bm(3)] e(1) [OF ne [OF am(1)] ne [OF bm(1)]] e(1) [OF ne [OF bm(1)] ne [OF am(1)]]
        h(3) h(4) [OF bm(4)] h(1) [OF nh [OF am(2)] nh [OF bm(2)]] h(1) [OF nh [OF bm(2)] nh [OF am(2)]] by simp
  qed
  then show "like ?o V a y" by (simp add: like_def series_def par_def)
qed

end
