(* ===== verification/CrSpawn.thy ===== *)
theory CrSpawn
  imports CrFork
begin

text \<open>
  What a spawn does to the state of C-RACER: the records of the spawner and of the child, and
  the orders with the strands \<open>CrFork\<close> describes.
\<close>

section \<open>Insertions by the detector\<close>

text \<open>The orders have room for \<open>n\<close> more nodes.\<close>

definition room_for :: "nat \<Rightarrow> orders \<Rightarrow> bool" where
  "room_for n ord \<longleftrightarrow> (\<forall>w. length (ord w) + n < 2 ^ 30)"

lemma room_small: "room_for n ord \<Longrightarrow> 0 < n \<Longrightarrow> small ord"
  unfolding room_for_def small_def by (metis Suc_leI add_le_mono1 le_add2 le_less_trans less_diff_conv add.commute One_nat_def add_le_mono le_refl)

lemma room_insert:
  assumes "room_for (Suc n) ord" "b \<in> set (ord w)"
  shows "room_for n (ord(w := insert_after b x (ord w)))"
proof -
  have "length (ord v) + Suc n < 2 ^ 30" for v using assms(1) by (simp only: room_for_def)
  then have "length ((ord(w := insert_after b x (ord w))) v) + n < 2 ^ 30" for v
    using length_insert_after [OF assms(2), of x] by (cases "v = w") (simp_all add: Suc_lessD)
  then show ?thesis unfolding room_for_def by (rule allI)
qed

lemma insert_english_ok:
  assumes "cr_orders s ord" "room_for (Suc n) ord" "shl_ok shl1" "b \<in> set (ord English)"
  shows "\<exists>x om. insert_english shl1 s th (Some b) = Some (Some x, s\<lparr>om_st := om\<rparr>) \<and> x \<notin> set (ord English) \<and>
    st_ok om (ord(English := insert_after b x (ord English))) \<and> room_for n (ord(English := insert_after b x (ord English)))"
  using om_orders.ins_after [of "om_st s" ord shl1 b English th] assms room_small [OF assms(2)] room_insert [OF assms(2,4)]
  by (auto simp: insert_english_def cr_orders_def)

lemma insert_hebrew_ok:
  assumes "cr_orders s ord" "room_for (Suc n) ord" "shl_ok shl1" "b \<in> set (ord Hebrew)"
  shows "\<exists>x om. insert_hebrew shl1 s th (Some b) = Some (Some x, s\<lparr>om_st := om\<rparr>) \<and> x \<notin> set (ord Hebrew) \<and>
    st_ok om (ord(Hebrew := insert_after b x (ord Hebrew))) \<and> room_for n (ord(Hebrew := insert_after b x (ord Hebrew)))"
  using om_orders.ins_after [of "om_st s" ord shl1 b Hebrew th] assms room_small [OF assms(2)] room_insert [OF assms(2,4)]
  by (auto simp: insert_hebrew_def cr_orders_def)

section \<open>The records of a spawn\<close>

text \<open>The strand a task runs in, and the one after its next sync.\<close>

definition runs_in :: "TaskState \<Rightarrow> strand \<Rightarrow> bool" where
  "runs_in x a \<longleftrightarrow> current_english x = Some (fst a) \<and> current_hebrew x = Some (snd a)"

definition syncs_to :: "TaskState \<Rightarrow> strand \<Rightarrow> bool" where
  "syncs_to x y \<longleftrightarrow> sync_english x = Some (fst y) \<and> sync_hebrew x = Some (snd y)"

lemma runs_in_inj: "runs_in x a \<Longrightarrow> runs_in x b \<Longrightarrow> a = b"
  by (simp add: runs_in_def prod_eq_iff)

lemma syncs_to_inj: "syncs_to x a \<Longrightarrow> syncs_to x b \<Longrightarrow> a = b"
  by (simp add: syncs_to_def prod_eq_iff)

definition spawned_task :: "nat \<Rightarrow> nat \<Rightarrow> nat \<Rightarrow> strand \<Rightarrow> TaskState" where
  "spawned_task taskid task t c =
     \<lparr>tid = taskid, current_english = Some (fst c), current_hebrew = Some (snd c), cont_english = NULL, cont_hebrew = NULL,
      sync_english = NULL, sync_hebrew = NULL, child = [], complete = False, execute = False,
      task_parent = Some t, mytask = Some task\<rparr>"

definition with_sync :: "TaskState \<Rightarrow> strand \<Rightarrow> TaskState" where
  "with_sync x y = x\<lparr>sync_english := Some (fst y), sync_hebrew := Some (snd y)\<rparr>"

definition continued :: "TaskState \<Rightarrow> nat \<Rightarrow> strand \<Rightarrow> TaskState" where
  "continued x n k =
     x\<lparr>cont_english := Some (fst k), cont_hebrew := Some (snd k), current_english := Some (fst k),
       current_hebrew := Some (snd k), child := child x @ [n]\<rparr>"

text \<open>The strand after the sync, when the spawn is the first of its group.\<close>

lemma make_sync_ok:
  assumes o: "cr_orders s ord" and st: "strands_ok ord V" and r: "room_for (Suc (Suc n)) ord" "shl_ok shl1"
    and x: "task_states s t = Some x" "runs_in x a" "a \<in> V" "sync_english x = NULL"
  shows "\<exists>y om. make_sync shl1 s th t = Some (s\<lparr>om_st := om, task_states := (task_states s)(t \<mapsto> with_sync x y)\<rparr>) \<and>
    fst y \<notin> set (ord English) \<and> snd y \<notin> set (ord Hebrew) \<and> st_ok om (synced ord a y) \<and> room_for n (synced ord a y)"
proof -
  have am: "fst a \<in> set (ord English)" "snd a \<in> set (ord Hebrew)" using strands_okD [OF st x(3,3)] by simp_all
  obtain e om1 where e: "insert_english shl1 s th (Some (fst a)) = Some (Some e, s\<lparr>om_st := om1\<rparr>)" "e \<notin> set (ord English)"
    "st_ok om1 (ord(English := insert_after (fst a) e (ord English)))"
    "room_for (Suc n) (ord(English := insert_after (fst a) e (ord English)))" using insert_english_ok [OF o r am(1)] by blast
  let ?o = "ord(English := insert_after (fst a) e (ord English))" and ?s = "s\<lparr>om_st := om1\<rparr>"
  have o1: "cr_orders ?s ?o" using e(3) by (simp add: cr_orders_def)
  have "snd a \<in> set (?o Hebrew)" using am(2) by simp
  then obtain h om2 where h: "insert_hebrew shl1 ?s th (Some (snd a)) = Some (Some h, ?s\<lparr>om_st := om2\<rparr>)" "h \<notin> set (?o Hebrew)"
    "st_ok om2 (?o(Hebrew := insert_after (snd a) h (?o Hebrew)))" "room_for n (?o(Hebrew := insert_after (snd a) h (?o Hebrew)))"
    using insert_hebrew_ok [OF o1 e(4) r(2)] by blast
  have sy: "?o(Hebrew := insert_after (snd a) h (?o Hebrew)) = synced ord a (e, h)" by (simp add: synced_def)
  have "make_sync shl1 s th t = Some (s\<lparr>om_st := om2, task_states := (task_states s)(t \<mapsto> with_sync x (e, h))\<rparr>)"
    using x e(1) h(1) by (simp add: make_sync_def runs_in_def upd_task_def with_sync_def)
  then show ?thesis using e(2) h(2-4) unfolding sy by (intro exI [of _ "(e, h)"] exI [of _ om2]) simp
qed

text \<open>The strands of the child and of the continuation.\<close>

lemma fork_inserts_ok:
  assumes o: "cr_orders s ord" and st: "strands_ok ord V" and r: "room_for 4 ord" "shl_ok shl1" and a: "a \<in> V"
  shows "\<exists>c k om om1 om2 om3. insert_english shl1 s th (Some (fst a)) = Some (Some (fst c), s\<lparr>om_st := om1\<rparr>) \<and>
    insert_english shl1 (s\<lparr>om_st := om1\<rparr>) th (Some (fst c)) = Some (Some (fst k), s\<lparr>om_st := om2\<rparr>) \<and>
    insert_hebrew shl1 (s\<lparr>om_st := om2\<rparr>) th (Some (snd a)) = Some (Some (snd k), s\<lparr>om_st := om3\<rparr>) \<and>
    insert_hebrew shl1 (s\<lparr>om_st := om3\<rparr>) th (Some (snd k)) = Some (Some (snd c), s\<lparr>om_st := om\<rparr>) \<and>
    fst c \<notin> set (ord English) \<and> snd c \<notin> insert (snd k) (set (ord Hebrew)) \<and>
    fst k \<notin> insert (fst c) (set (ord English)) \<and> snd k \<notin> set (ord Hebrew) \<and> st_ok om (forked ord a c k)"
proof -
  have am: "fst a \<in> set (ord English)" "snd a \<in> set (ord Hebrew)" using strands_okD [OF st a a] by simp_all
  have r4: "room_for (Suc 3) ord" using r(1) by (simp add: eval_nat_numeral)
  have twice: "(s\<lparr>om_st := x\<rparr>)\<lparr>om_st := y\<rparr> = s\<lparr>om_st := y\<rparr>" for x y by simp
  let ?e = "\<lambda>ord b n. ord(English := insert_after b n (ord English))"
  let ?h = "\<lambda>ord b n. ord(Hebrew := insert_after b n (ord Hebrew))"
  obtain ce om1 where 1: "insert_english shl1 s th (Some (fst a)) = Some (Some ce, s\<lparr>om_st := om1\<rparr>)" "ce \<notin> set (ord English)"
    "st_ok om1 (?e ord (fst a) ce)" "room_for 3 (?e ord (fst a) ce)" using insert_english_ok [OF o r4 r(2) am(1)] by blast
  let ?o1 = "?e ord (fst a) ce"
  have m1: "set (?o1 English) = insert ce (set (ord English))" using am(1) by (simp add: set_insert_after)
  have "cr_orders (s\<lparr>om_st := om1\<rparr>) ?o1" "room_for (Suc 2) ?o1" "ce \<in> set (?o1 English)"
    using 1(3,4) m1 by (simp_all add: cr_orders_def eval_nat_numeral)
  note ins = insert_english_ok [OF this(1,2) r(2) this(3), where th = th, unfolded twice]
  obtain ke om2 where 2: "insert_english shl1 (s\<lparr>om_st := om1\<rparr>) th (Some ce) = Some (Some ke, s\<lparr>om_st := om2\<rparr>)"
    "ke \<notin> set (?o1 English)" "st_ok om2 (?e ?o1 ce ke)" "room_for 2 (?e ?o1 ce ke)" using ins by blast
  let ?o2 = "?e ?o1 ce ke"
  have "cr_orders (s\<lparr>om_st := om2\<rparr>) ?o2" "room_for (Suc 1) ?o2" "snd a \<in> set (?o2 Hebrew)"
    using 2(3,4) am(2) by (simp_all add: cr_orders_def eval_nat_numeral)
  note ins = insert_hebrew_ok [OF this(1,2) r(2) this(3), where th = th, unfolded twice]
  obtain kh om3 where 3: "insert_hebrew shl1 (s\<lparr>om_st := om2\<rparr>) th (Some (snd a)) = Some (Some kh, s\<lparr>om_st := om3\<rparr>)"
    "kh \<notin> set (?o2 Hebrew)" "st_ok om3 (?h ?o2 (snd a) kh)" "room_for 1 (?h ?o2 (snd a) kh)" using ins by blast
  let ?o3 = "?h ?o2 (snd a) kh"
  have m3: "set (?o3 Hebrew) = insert kh (set (ord Hebrew))" using am(2) by (simp add: set_insert_after)
  have "cr_orders (s\<lparr>om_st := om3\<rparr>) ?o3" "room_for (Suc 0) ?o3" "kh \<in> set (?o3 Hebrew)"
    using 3(3,4) m3 by (simp_all add: cr_orders_def)
  note ins = insert_hebrew_ok [OF this(1,2) r(2) this(3), where th = th, unfolded twice]
  obtain ch om4 where 4: "insert_hebrew shl1 (s\<lparr>om_st := om3\<rparr>) th (Some kh) = Some (Some ch, s\<lparr>om_st := om4\<rparr>)"
    "ch \<notin> set (?o3 Hebrew)" "st_ok om4 (?h ?o3 kh ch)" using ins by blast
  have "?h ?o3 kh ch = forked ord a (ce, ch) (ke, kh)" by (auto simp: forked_def)
  then have "st_ok om4 (forked ord a (ce, ch) (ke, kh))" using 4(3) by simp
  then show ?thesis using 1(1,2) 2(1,2) 3(1,2) 4(1,2) m1 m3
    by - (rule exI [of _ "(ce, ch)"], rule exI [of _ "(ke, kh)"], rule exI [of _ om4], rule exI [of _ om1],
      rule exI [of _ om2], rule exI [of _ om3], simp)
qed

section \<open>The spawn\<close>

text \<open>
  \<open>y\<close> is the strand after the sync when there was none; \<open>ord0\<close> are the orders with it.
\<close>

definition grown :: "orders \<Rightarrow> TaskState \<Rightarrow> strand \<Rightarrow> strand \<Rightarrow> orders \<Rightarrow> bool" where
  "grown ord x a y ord0 \<longleftrightarrow>
     (if sync_english x = NULL then ord0 = synced ord a y \<and> fst y \<notin> set (ord English) \<and> snd y \<notin> set (ord Hebrew)
      else ord0 = ord \<and> syncs_to x y)"

definition new_strands :: "orders \<Rightarrow> strand \<Rightarrow> strand \<Rightarrow> bool" where
  "new_strands ord c k \<longleftrightarrow>
     fst c \<notin> set (ord English) \<and> snd c \<notin> insert (snd k) (set (ord Hebrew)) \<and>
     fst k \<notin> insert (fst c) (set (ord English)) \<and> snd k \<notin> set (ord Hebrew)"

lemma fork_strands_ok:
  assumes o: "cr_orders s ord" and st: "strands_ok ord V" and r: "room_for 6 ord" "shl_ok shl1"
    and x: "task_states s t = Some x" "runs_in x a" "a \<in> V" and sy: "sync_english x = NULL \<or> (\<exists>y \<in> V. syncs_to x y)"
    and n: "next_task s \<noteq> t"
  shows "\<exists>y ord0 c k om. fork_strands shl1 s th t taskid task =
      Some (s\<lparr>om_st := om, next_task := next_task s + 1,
        task_states := (task_states s)(next_task s \<mapsto> spawned_task taskid task t c,
          t \<mapsto> continued (with_sync x y) (next_task s) k),
        temp_cur_map := map_insert (temp_cur_map s) taskid (next_task s)\<rparr>) \<and>
    grown ord x a y ord0 \<and> new_strands ord0 c k \<and> st_ok om (forked ord0 a c k)"
proof -
  define n where "n = next_task s"
  let ?x0 = "(new_TaskState x)\<lparr>tid := taskid\<rparr>"
  define s0 where "s0 = s\<lparr>next_task := n + 1, task_states := (task_states s)(n \<mapsto> ?x0)\<rparr>"
  have o0: "cr_orders s0 ord" and x0: "task_states s0 t = Some x" using o x(1) n by (simp_all add: cr_orders_def s0_def n_def)
  have "\<exists>y ord0 om0. make_sync shl1 s0 th t = Some (s0\<lparr>om_st := om0, task_states := (task_states s0)(t \<mapsto> with_sync x y)\<rparr>) \<and>
      grown ord x a y ord0 \<and> st_ok om0 ord0 \<and> room_for 4 ord0 \<and> strands_ok ord0 (insert y V)"
  proof (cases "sync_english x = NULL")
    case True
    have "room_for (Suc (Suc 4)) ord" using r(1) by (simp add: eval_nat_numeral)
    from make_sync_ok [OF o0 st this r(2) x0 x(2,3) True, of th] obtain y om where
      y: "make_sync shl1 s0 th t = Some (s0\<lparr>om_st := om, task_states := (task_states s0)(t \<mapsto> with_sync x y)\<rparr>)"
      "fst y \<notin> set (ord English)" "snd y \<notin> set (ord Hebrew)" "st_ok om (synced ord a y)" "room_for 4 (synced ord a y)" by blast
    have "grown ord x a y (synced ord a y)" using True y(2,3) by (simp add: grown_def)
    then show ?thesis using y(1,4,5) synced_ok(1) [OF st x(3) y(2,3)] by blast
  next
    case False
    then obtain y where y: "y \<in> V" "syncs_to x y" using sy by (elim disjE bexE) simp_all
    then have "with_sync x y = x" by (simp add: with_sync_def syncs_to_def)
    then have "make_sync shl1 s0 th t = Some (s0\<lparr>om_st := om_st s0, task_states := (task_states s0)(t \<mapsto> with_sync x y)\<rparr>)"
      using x0 y(2) by (simp add: make_sync_def fun_upd_idem syncs_to_def)
    moreover have "grown ord x a y ord" using y(2) by (simp add: grown_def syncs_to_def)
    moreover have "room_for 4 ord" unfolding room_for_def using r(1) [unfolded room_for_def] by (meson add_le_mono le_less_trans order_refl numeral_le_iff semiring_norm)
    moreover have "st_ok (om_st s0) ord" "strands_ok ord (insert y V)" using o0 st y(1) by (simp_all add: cr_orders_def insert_absorb)
    ultimately show ?thesis by blast
  qed
  then obtain y ord0 om0 where y: "make_sync shl1 s0 th t = Some (s0\<lparr>om_st := om0, task_states := (task_states s0)(t \<mapsto> with_sync x y)\<rparr>)"
    "grown ord x a y ord0" "st_ok om0 ord0" "room_for 4 ord0" "strands_ok ord0 (insert y V)" by blast
  let ?s1 = "s0\<lparr>om_st := om0, task_states := (task_states s0)(t \<mapsto> with_sync x y)\<rparr>"
  have o1: "cr_orders ?s1 ord0" using y(3) by (simp add: cr_orders_def)
  have aV: "a \<in> insert y V" using x(3) by simp
  from fork_inserts_ok [OF o1 y(5,4) r(2) aV, of th] obtain c k om om1 om2 om3 where
    i: "insert_english shl1 ?s1 th (Some (fst a)) = Some (Some (fst c), ?s1\<lparr>om_st := om1\<rparr>)"
    "insert_english shl1 (?s1\<lparr>om_st := om1\<rparr>) th (Some (fst c)) = Some (Some (fst k), ?s1\<lparr>om_st := om2\<rparr>)"
    "insert_hebrew shl1 (?s1\<lparr>om_st := om2\<rparr>) th (Some (snd a)) = Some (Some (snd k), ?s1\<lparr>om_st := om3\<rparr>)"
    "insert_hebrew shl1 (?s1\<lparr>om_st := om3\<rparr>) th (Some (snd k)) = Some (Some (snd c), ?s1\<lparr>om_st := om\<rparr>)"
    "new_strands ord0 c k" "st_ok om (forked ord0 a c k)" unfolding new_strands_def by metis
  have xs: "current_english x = Some (fst a)" "current_hebrew x = Some (snd a)" using x(2) by (simp_all add: runs_in_def)
  have nt: "n \<noteq> t" "t \<noteq> n" using n by (simp_all add: n_def)
  define s1 where "s1 = ?s1"
  let ?m = "(task_states s)(n \<mapsto> spawned_task taskid task t c, t \<mapsto> continued (with_sync x y) n k)"
  have ts1: "task_states s1 n = Some ?x0" "task_states s1 t = Some (with_sync x y)" "temp_cur_map s1 = temp_cur_map s"
    using nt by (simp_all add: s1_def s0_def)
  have m: "(task_states s1)(n \<mapsto> spawned_task taskid task t c, t \<mapsto> continued (with_sync x y) n k) = ?m"
    using nt by (simp add: s1_def s0_def fun_upd_twist)
  have u1: "upd_task n (\<lambda>x. x\<lparr>current_english := Some (fst c), current_hebrew := Some (snd c),
      cont_english := NULL, cont_hebrew := NULL, sync_english := NULL, sync_hebrew := NULL,
      task_parent := Some t, mytask := Some task\<rparr>) (s1\<lparr>om_st := om\<rparr>) =
    Some (s1\<lparr>om_st := om, task_states := (task_states s1)(n \<mapsto> spawned_task taskid task t c)\<rparr>)"
    using ts1(1) by (simp add: upd_task_def spawned_task_def new_TaskState_def)
  have u2: "upd_task t (\<lambda>x. x\<lparr>cont_english := Some (fst k), cont_hebrew := Some (snd k),
      current_english := Some (fst k), current_hebrew := Some (snd k), child := child x @ [n]\<rparr>)
      (s1\<lparr>om_st := om, task_states := (task_states s1)(n \<mapsto> spawned_task taskid task t c)\<rparr>) =
    Some (s1\<lparr>om_st := om, task_states := ?m\<rparr>)"
    using ts1(2) nt m by (simp add: upd_task_def continued_def)
  have f0: "fork_strands shl1 s th t taskid task = do {
       s \<leftarrow> make_sync shl1 s0 th t;
       (child_e, s) \<leftarrow> insert_english shl1 s th (Some (fst a));
       (cont_e, s) \<leftarrow> insert_english shl1 s th child_e;
       (cont_h, s) \<leftarrow> insert_hebrew shl1 s th (Some (snd a));
       (child_h, s) \<leftarrow> insert_hebrew shl1 s th cont_h;
       s \<leftarrow> upd_task n (\<lambda>x. x\<lparr>current_english := child_e, current_hebrew := child_h,
              cont_english := NULL, cont_hebrew := NULL, sync_english := NULL, sync_hebrew := NULL,
              task_parent := Some t, mytask := Some task\<rparr>) s;
       s \<leftarrow> upd_task t (\<lambda>x. x\<lparr>cont_english := cont_e, cont_hebrew := cont_h,
              current_english := cont_e, current_hebrew := cont_h, child := child x @ [n]\<rparr>) s;
       Some (s\<lparr>temp_cur_map := map_insert (temp_cur_map s) taskid n\<rparr>)
     }"
    using x(1) xs by (simp add: fork_strands_def s0_def n_def Let_def)
  have "fork_strands shl1 s th t taskid task = Some (s1\<lparr>om_st := om, task_states := ?m,
      temp_cur_map := map_insert (temp_cur_map s) taskid n\<rparr>)"
    unfolding f0 using y(1) i(1-4) unfolding s1_def [symmetric] by (simp add: u1 u2 ts1(3) cong: eval_cong)
  moreover have "s1\<lparr>om_st := om, task_states := ?m, temp_cur_map := map_insert (temp_cur_map s) taskid n\<rparr> =
      s\<lparr>om_st := om, next_task := n + 1, task_states := ?m, temp_cur_map := map_insert (temp_cur_map s) taskid n\<rparr>"
    by (simp add: s1_def s0_def)
  ultimately have "fork_strands shl1 s th t taskid task = Some (s\<lparr>om_st := om, next_task := n + 1, task_states := ?m,
      temp_cur_map := map_insert (temp_cur_map s) taskid n\<rparr>)" by simp
  then show ?thesis using y(2) i(5,6) unfolding n_def by blast
qed

end
