(* ===== verification/CrWait.thy ===== *)
theory CrWait
  imports CrSpawn
begin

text \<open>
  The wait of C-RACER deletes the tasks below the waiting one and moves it to the strand after
  its sync.  The child lists form a forest in which children are younger than their parents, so
  the recursion ends and deletes every task once.
\<close>

section \<open>The forest of tasks\<close>

type_synonym tasks = "nat \<rightharpoonup> TaskState"

definition kids :: "tasks \<Rightarrow> (nat \<times> nat) set" where
  "kids m = {(a, b). \<exists>x. m a = Some x \<and> b \<in> set (child x)}"

definition subtree :: "tasks \<Rightarrow> nat list \<Rightarrow> nat set" where
  "subtree m cs = (kids m)\<^sup>* `` set cs"

text \<open>Children exist, are younger, know their parent and are listed once.\<close>

definition family :: "tasks \<Rightarrow> bool" where
  "family m \<longleftrightarrow>
     (\<forall>a x. m a = Some x \<longrightarrow> distinct (child x) \<and>
        (\<forall>b \<in> set (child x). a < b \<and> (\<exists>y. m b = Some y \<and> task_parent y = Some a)))"

lemma familyD:
  assumes "family m" "m a = Some x"
  shows "distinct (child x)" "b \<in> set (child x) \<Longrightarrow> a < b" "b \<in> set (child x) \<Longrightarrow> \<exists>y. m b = Some y \<and> task_parent y = Some a"
  using assms unfolding family_def by blast+

lemma kids_parent: "family m \<Longrightarrow> (a, b) \<in> kids m \<Longrightarrow> a < b \<and> (\<exists>y. m b = Some y \<and> task_parent y = Some a)"
  unfolding kids_def using familyD(2,3) by blast

lemma kids_unique: "family m \<Longrightarrow> (a, c) \<in> kids m \<Longrightarrow> (b, c) \<in> kids m \<Longrightarrow> a = b"
  using kids_parent [of m a c] kids_parent [of m b c] by auto

lemma kids_le: "family m \<Longrightarrow> (a, b) \<in> (kids m)\<^sup>* \<Longrightarrow> a \<le> b"
  by (erule rtrancl_induct) (auto dest: kids_parent)

lemma kids_dom: "family m \<Longrightarrow> (a, b) \<in> (kids m)\<^sup>* \<Longrightarrow> a \<in> dom m \<Longrightarrow> b \<in> dom m"
  by (erule rtrancl_induct) (auto dest: kids_parent)

text \<open>Two tasks above a third are one above the other.\<close>

lemma kids_chain:
  assumes fam: "family m" and a: "(a, d) \<in> (kids m)\<^sup>*" and b: "(b, d) \<in> (kids m)\<^sup>*"
  shows "(a, b) \<in> (kids m)\<^sup>* \<or> (b, a) \<in> (kids m)\<^sup>*"
  using a b
proof (induction rule: rtrancl_induct)
  case (step y z)
  show ?case
  proof (cases "b = z")
    case True
    then show ?thesis using step.hyps by (meson rtrancl.rtrancl_into_rtrancl)
  next
    case False
    then obtain w where "(b, w) \<in> (kids m)\<^sup>*" "(w, z) \<in> kids m" using step.prems by (meson rtranclE)
    moreover from this have "w = y" using kids_unique [OF fam _ step.hyps(2)] by blast
    ultimately show ?thesis using step.IH by blast
  qed
qed blast

lemma subtree_Nil [simp]: "subtree m [] = {}"
  by (simp add: subtree_def)

lemma subtree_Cons: "subtree m (c # cs) = subtree m [c] \<union> subtree m cs"
  by (auto simp: subtree_def)

lemma subtree_single:
  assumes "m c = Some x"
  shows "subtree m [c] = insert c (subtree m (child x))"
proof -
  have "(c, d) \<in> (kids m)\<^sup>* \<longleftrightarrow> d = c \<or> (\<exists>b \<in> set (child x). (b, d) \<in> (kids m)\<^sup>*)" for d
    using assms by (auto simp: kids_def elim: converse_rtranclE intro: converse_rtrancl_into_rtrancl)
  then show ?thesis by (auto simp: subtree_def)
qed

lemma subtree_young: "family m \<Longrightarrow> m t = Some x \<Longrightarrow> set cs \<subseteq> set (child x) \<Longrightarrow> d \<in> subtree m cs \<Longrightarrow> t < d"
  unfolding subtree_def using kids_le familyD(2) by (meson ImageE order.strict_trans2 subsetD)

lemma siblings_disjoint:
  assumes fam: "family m" and x: "m t = Some x" and cs: "child x = as @ c # cs"
  shows "subtree m [c] \<inter> subtree m cs = {}"
proof (rule ccontr)
  assume "subtree m [c] \<inter> subtree m cs \<noteq> {}"
  then obtain d e where d: "(c, d) \<in> (kids m)\<^sup>*" "(e, d) \<in> (kids m)\<^sup>*" "e \<in> set cs" by (auto simp: subtree_def)
  have ne: "c \<noteq> e" using familyD(1) [OF fam x] cs d(3) by auto
  have k: "(t, c) \<in> kids m" "(t, e) \<in> kids m" using x cs d(3) by (auto simp: kids_def)
  have no: False if "(u, v) \<in> (kids m)\<^sup>*" "u \<noteq> v" "(t, u) \<in> kids m" "(t, v) \<in> kids m" for u v
  proof -
    from that(1,2) obtain w where w: "(u, w) \<in> (kids m)\<^sup>*" "(w, v) \<in> kids m" by (meson rtranclE)
    then have "w = t" using kids_unique [OF fam w(2) that(4)] by simp
    then show False using kids_le [OF fam w(1)] kids_parent [OF fam that(3)] by simp
  qed
  show False using kids_chain [OF fam d(1,2)] no k ne by metis
qed

section \<open>What the recursion does\<close>

definition synced_task :: "TaskState \<Rightarrow> TaskState" where
  "synced_task x =
     (if sync_english x \<noteq> NULL
      then x\<lparr>child := [], current_english := sync_english x, current_hebrew := sync_hebrew x,
             sync_english := NULL, sync_hebrew := NULL\<rparr>
      else x\<lparr>child := []\<rparr>)"

lemma after_sync_eq:
  "task_states s t = Some x \<Longrightarrow> after_sync s t = Some (s\<lparr>task_states := (task_states s)(t \<mapsto> synced_task x)\<rparr>)"
  by (simp add: after_sync_def upd_task_def synced_task_def)

lemma wait_children_ok:
  assumes fam: "family m" and N: "\<forall>a \<in> dom m. a < N"
  shows "\<lbrakk>task_states s = m |` (- X); m t = Some x; t \<notin> X; child x = as @ cs; subtree m cs \<inter> X = {}\<rbrakk> \<Longrightarrow>
    wait_children s t cs = Some (s\<lparr>task_states := (m |` (- (X \<union> subtree m cs)))(t \<mapsto> synced_task x)\<rparr>)"
proof (induction "N - t" arbitrary: t s X x as cs rule: less_induct)
  case less
  note IH = less.hyps
  from less.prems show ?case
  proof (induction cs arbitrary: s X as)
    case Nil
    then show ?case by (subst wait_children.simps) (simp add: after_sync_eq)
  next
    case (Cons c cs)
    have tx: "m t = Some x" by (rule Cons.prems(2))
    have ch: "c \<in> set (child x)" using Cons.prems(4) by simp
    obtain y where y: "m c = Some y" and tc: "t < c" using familyD(2,3) [OF fam tx ch] by blast
    have sc: "subtree m [c] = insert c (subtree m (child y))" by (rule subtree_single [where m = m, OF y])
    have dis: "subtree m [c] \<inter> X = {}" "subtree m cs \<inter> X = {}" using Cons.prems(5) by (auto simp: subtree_Cons [of m c cs])
    have cX: "c \<notin> X" "subtree m (child y) \<inter> X = {}" using dis(1) sc by auto
    have lookup: "task_states s c = Some y" using Cons.prems(1) y cX(1) by simp
    define Y where "Y = X \<union> subtree m [c]"
    obtain s1 where s1: "(if child y \<noteq> [] then wait_children s c (child y) else Some s) = Some s1"
      "delete_task s1 c = Some (s\<lparr>task_states := m |` (- Y)\<rparr>)"
    proof (cases "child y = []")
      case True
      have "(m |` (- X))(c := None) = m |` (- Y)" using sc True by (auto simp: fun_eq_iff restrict_map_def Y_def)
      then have "delete_task s c = Some (s\<lparr>task_states := m |` (- Y)\<rparr>)"
        using lookup Cons.prems(1) by (simp add: delete_task_def)
      then show thesis using that [of s] True by simp
    next
      case False
      have "c < N" using N y by blast
      then have lt: "N - c < N - t" using tc by simp
      have "wait_children s c (child y) = Some (s\<lparr>task_states := (m |` (- (X \<union> subtree m (child y))))(c \<mapsto> synced_task y)\<rparr>)"
        by (rule IH [OF lt Cons.prems(1) y cX(1) _ cX(2), of "[]"]) simp
      moreover have "((m |` (- (X \<union> subtree m (child y))))(c \<mapsto> synced_task y))(c := None) = m |` (- Y)"
        using sc by (auto simp: fun_eq_iff restrict_map_def Y_def)
      ultimately show thesis using that False by (auto simp: delete_task_def)
    qed
    have tY: "t \<notin> Y" using Cons.prems(3) subtree_young [OF fam tx, of "[c]" t] ch by (auto simp: Y_def)
    have twice: "(s\<lparr>task_states := p\<rparr>)\<lparr>task_states := q\<rparr> = s\<lparr>task_states := q\<rparr>" for p q by simp
    have "child x = (as @ [c]) @ cs" using Cons.prems(4) by simp
    moreover have "subtree m cs \<inter> Y = {}" using dis(2) siblings_disjoint [OF fam tx Cons.prems(4)] by (auto simp: Y_def)
    ultimately have "wait_children (s\<lparr>task_states := m |` (- Y)\<rparr>) t cs =
        Some (s\<lparr>task_states := (m |` (- (Y \<union> subtree m cs)))(t \<mapsto> synced_task x)\<rparr>)"
      using Cons.IH [of "s\<lparr>task_states := m |` (- Y)\<rparr>" Y "as @ [c]", unfolded twice, OF _ tx tY] by simp
    moreover have "Y \<union> subtree m cs = X \<union> subtree m (c # cs)" by (auto simp: Y_def subtree_Cons [of m c cs])
    ultimately show ?case using lookup s1 by (subst wait_children.simps) simp
  qed
qed

text \<open>The wait as a whole.\<close>

lemma Capturewait_for_all_ok:
  assumes "family (task_states s)" "\<forall>a \<in> dom (task_states s). a < N" "task_states s t = Some x"
  shows "Capturewait_for_all s t = Some (s\<lparr>task_states :=
    (task_states s |` (- subtree (task_states s) (child x)))(t \<mapsto> synced_task x)\<rparr>)"
  using wait_children_ok [OF assms(1,2), of s "{}" t x "[]" "child x"] assms(3)
  by (simp add: Capturewait_for_all_def restrict_map_def)

end
