(* ===== verification/CrHb.thy ===== *)
theory CrHb
  imports CrWait
begin

text \<open>
  How the strands of the live tasks stand to each other.  \<open>C t a\<close> says that task \<open>t\<close> runs in
  strand \<open>a\<close>, \<open>P t y\<close> that \<open>y\<close> is the strand after its next sync, \<open>K\<close> are the child lists and
  \<open>A\<close> the strands some task has run in.  The strands before the running one, and the running
  one, are what the task has seen; a sync has seen what the tasks below it have.
\<close>

section \<open>The invariant\<close>

definition seen :: "orders \<Rightarrow> strand \<Rightarrow> strand \<Rightarrow> bool" where
  "seen ord x a \<longleftrightarrow> x = a \<or> series ord x a"

type_synonym strand_of = "nat \<Rightarrow> strand \<Rightarrow> bool"

definition hb_ok :: "orders \<Rightarrow> strand set \<Rightarrow> strand set \<Rightarrow> strand_of \<Rightarrow> strand_of \<Rightarrow> (nat \<times> nat) set \<Rightarrow> bool" where
  "hb_ok ord V A C P K \<longleftrightarrow>
     strands_ok ord V \<and> A \<subseteq> V \<and>
     (\<forall>t a b. C t a \<longrightarrow> C t b \<longrightarrow> a = b) \<and> (\<forall>t y z. P t y \<longrightarrow> P t z \<longrightarrow> y = z) \<and>
     (\<forall>t a. C t a \<longrightarrow> a \<in> A \<and> (\<forall>x \<in> A. \<not> series ord a x)) \<and>
     (\<forall>t y. P t y \<longrightarrow> y \<in> V \<and> y \<notin> A \<and> (\<forall>x \<in> A. \<not> series ord y x)) \<and>
     (\<forall>t u a. C t a \<longrightarrow> C u a \<longrightarrow> t = u) \<and>
     (\<forall>t y. P t y \<longrightarrow> (\<forall>x \<in> A. series ord x y \<longleftrightarrow> (\<exists>u b. C u b \<and> (t, u) \<in> K\<^sup>* \<and> seen ord x b))) \<and>
     (\<forall>t u y z. P t y \<longrightarrow> P u z \<longrightarrow> t \<noteq> u \<longrightarrow> y \<noteq> z \<and> (series ord y z \<longleftrightarrow> (u, t) \<in> K\<^sup>*))"

lemma hb_okD:
  assumes "hb_ok ord V A C P K"
  shows hb_strands: "strands_ok ord V" and hb_sub: "A \<subseteq> V"
    and hb_cur_fun: "C t a \<Longrightarrow> C t b \<Longrightarrow> a = b" and hb_pend_fun: "P t y \<Longrightarrow> P t z \<Longrightarrow> y = z"
    and hb_cur_in: "C t a \<Longrightarrow> a \<in> A" and hb_cur_last: "C t a \<Longrightarrow> x \<in> A \<Longrightarrow> \<not> series ord a x"
    and hb_pend_in: "P t y \<Longrightarrow> y \<in> V" and hb_pend_new: "P t y \<Longrightarrow> y \<notin> A"
    and hb_pend_last: "P t y \<Longrightarrow> x \<in> A \<Longrightarrow> \<not> series ord y x"
    and hb_cur_inj: "C t a \<Longrightarrow> C u a \<Longrightarrow> t = u"
    and hb_pend: "P t y \<Longrightarrow> x \<in> A \<Longrightarrow> series ord x y \<longleftrightarrow> (\<exists>u b. C u b \<and> (t, u) \<in> K\<^sup>* \<and> seen ord x b)"
    and hb_pends: "P t y \<Longrightarrow> P u z \<Longrightarrow> t \<noteq> u \<Longrightarrow> y \<noteq> z \<and> (series ord y z \<longleftrightarrow> (u, t) \<in> K\<^sup>*)"
  using assms unfolding hb_ok_def by (elim conjE; metis)+

text \<open>A running strand is before the sync of exactly the tasks above.\<close>

lemma cur_before_sync:
  assumes ok: "hb_ok ord V A C P K" and p: "P u z" and c: "C t a"
  shows "series ord a z \<longleftrightarrow> (u, t) \<in> K\<^sup>*"
proof -
  have "seen ord a b \<longleftrightarrow> v = t" if "C v b" for v b
    using hb_cur_last [OF ok c hb_cur_in [OF ok that]] hb_cur_inj [OF ok c] hb_cur_fun [OF ok c] that
    unfolding seen_def by metis
  then show ?thesis using hb_pend [OF ok p hb_cur_in [OF ok c]] c by blast
qed

text \<open>What two orders with the same old strands agree on.\<close>

lemma extends_seen:
  assumes "extends ord ord'" "strands_ok ord V" "x \<in> V" "a \<in> V"
  shows "seen ord' x a \<longleftrightarrow> seen ord x a"
  using extends_rel(1) [OF assms] by (simp add: seen_def)

lemma likeD:
  assumes "like ord V a n" "b \<in> V" "b \<noteq> a"
  shows "series ord n b \<longleftrightarrow> series ord a b" "series ord b n \<longleftrightarrow> series ord b a" "par ord b n \<longleftrightarrow> par ord b a"
  using assms unfolding like_def by blast+

text \<open>A new strand after \<open>a\<close> that is otherwise like it has seen what \<open>a\<close> has.\<close>

lemma like_seen:
  assumes ex: "extends ord ord'" and st: "strands_ok ord V" and a: "a \<in> V"
    and l: "series ord' a n" "like ord' V a n" and x: "x \<in> V"
  shows "series ord' x n \<longleftrightarrow> seen ord x a"
  using likeD(2) [OF l(2) x] l(1) extends_rel(1) [OF ex st x a] by (auto simp: seen_def)

lemma like_after:
  assumes st': "strands_ok ord' V'" and ex: "extends ord ord'" and st: "strands_ok ord V" and a: "a \<in> V"
    and l: "series ord' a n" "like ord' V a n" and x: "x \<in> V"
  shows "series ord' n x \<longleftrightarrow> x \<noteq> a \<and> series ord a x"
  using likeD(1) [OF l(2) x] series_asym [OF st' l(1)] extends_rel(1) [OF ex st a x] by auto

section \<open>The strand after a sync\<close>

lemma hb_sync:
  assumes ok: "hb_ok ord V A C P K" and c: "C t a" and np: "\<forall>y. \<not> P t y" and nk: "\<forall>u. (t, u) \<notin> K"
    and y: "fst y \<notin> set (ord English)" "snd y \<notin> set (ord Hebrew)"
  shows "hb_ok (synced ord a y) (insert y V) A C (\<lambda>u z. P u z \<or> u = t \<and> z = y) K"
proof -
  note st = hb_strands [OF ok] and sub = hb_sub [OF ok]
  have aA: "a \<in> A" and aV: "a \<in> V" using hb_cur_in [OF ok c] sub by auto
  let ?o = "synced ord a y"
  note n = synced_ok [OF st aV y]
  have old: "series ?o u v \<longleftrightarrow> series ord u v" "seen ?o u v \<longleftrightarrow> seen ord u v" if "u \<in> V" "v \<in> V" for u v
    using extends_rel(1) [OF n(2) st that] extends_seen [OF n(2) st that] by auto
  have before: "series ?o x y \<longleftrightarrow> seen ord x a" if "x \<in> V" for x by (rule like_seen [OF n(2) st aV n(4,5) that])
  have after: "series ?o y x \<longleftrightarrow> x \<noteq> a \<and> series ord a x" if "x \<in> V" for x by (rule like_after [OF n(1,2) st aV n(4,5) that])
  have below: "(t, u) \<in> K\<^sup>* \<longleftrightarrow> u = t" for u using nk by (auto elim: converse_rtranclE)
  have AV: "x \<in> V" if "x \<in> A" for x using that sub by auto
  have new: "\<not> series ?o y x" "series ?o x y \<longleftrightarrow> (\<exists>u b. C u b \<and> (t, u) \<in> K\<^sup>* \<and> seen ?o x b)" if x: "x \<in> A" for x
  proof -
    show "\<not> series ?o y x" using after [OF AV [OF x]] hb_cur_last [OF ok c x] by blast
    have "(\<exists>u b. C u b \<and> (t, u) \<in> K\<^sup>* \<and> seen ?o x b) \<longleftrightarrow> seen ?o x a" unfolding below using c hb_cur_fun [OF ok c] by metis
    then show "series ?o x y \<longleftrightarrow> (\<exists>u b. C u b \<and> (t, u) \<in> K\<^sup>* \<and> seen ?o x b)" using before [OF AV [OF x]] old(2) [OF AV [OF x] aV] by blast
  qed
  have pends: "y \<noteq> z \<and> (series ?o y z \<longleftrightarrow> (u, t) \<in> K\<^sup>*) \<and> (series ?o z y \<longleftrightarrow> (t, u) \<in> K\<^sup>*)" if p: "P u z" for u z
  proof -
    have ut: "u \<noteq> t" using p np by blast
    have zV: "z \<in> V" and za: "z \<noteq> a" using hb_pend_in [OF ok p] hb_pend_new [OF ok p] aA by auto
    have "series ?o z y \<longleftrightarrow> False" using before [OF zV] za hb_pend_last [OF ok p aA] by (simp add: seen_def)
    then show ?thesis using after [OF zV] za cur_before_sync [OF ok p c] below ut zV n(3) by blast
  qed
  show ?thesis
    unfolding hb_ok_def
  proof (intro conjI)
    show "strands_ok ?o (insert y V)" by (rule n(1))
    show "A \<subseteq> insert y V" using sub by blast
    show "\<forall>t a b. C t a \<longrightarrow> C t b \<longrightarrow> a = b" "\<forall>t u a. C t a \<longrightarrow> C u a \<longrightarrow> t = u" using hb_cur_fun [OF ok] hb_cur_inj [OF ok] by blast+
    show "\<forall>u z z'. P u z \<or> u = t \<and> z = y \<longrightarrow> P u z' \<or> u = t \<and> z' = y \<longrightarrow> z = z'" using hb_pend_fun [OF ok] np by blast
    show "\<forall>u b. C u b \<longrightarrow> b \<in> A \<and> (\<forall>x \<in> A. \<not> series ?o b x)"
      using hb_cur_in [OF ok] hb_cur_last [OF ok] old(1) AV by blast
    show "\<forall>u z. P u z \<or> u = t \<and> z = y \<longrightarrow> z \<in> insert y V \<and> z \<notin> A \<and> (\<forall>x \<in> A. \<not> series ?o z x)"
      using hb_pend_in [OF ok] hb_pend_new [OF ok] hb_pend_last [OF ok] old(1) AV n(3) new(1) by blast
    show "\<forall>u z. P u z \<or> u = t \<and> z = y \<longrightarrow> (\<forall>x \<in> A. series ?o x z \<longleftrightarrow> (\<exists>v b. C v b \<and> (u, v) \<in> K\<^sup>* \<and> seen ?o x b))"
    proof (intro allI impI ballI)
      fix u z x assume uz: "P u z \<or> u = t \<and> z = y" and x: "x \<in> A"
      have "(\<exists>v b. C v b \<and> (u, v) \<in> K\<^sup>* \<and> seen ?o x b) \<longleftrightarrow> (\<exists>v b. C v b \<and> (u, v) \<in> K\<^sup>* \<and> seen ord x b)"
        using old(2) [OF AV [OF x]] AV hb_cur_in [OF ok] by blast
      then show "series ?o x z \<longleftrightarrow> (\<exists>v b. C v b \<and> (u, v) \<in> K\<^sup>* \<and> seen ?o x b)"
        using uz new(2) [OF x] hb_pend [OF ok _ x, of u z] old(1) [OF AV [OF x] hb_pend_in [OF ok]] by blast
    qed
    show "\<forall>u v z z'. P u z \<or> u = t \<and> z = y \<longrightarrow> P v z' \<or> v = t \<and> z' = y \<longrightarrow> u \<noteq> v \<longrightarrow>
        z \<noteq> z' \<and> (series ?o z z' \<longleftrightarrow> (v, u) \<in> K\<^sup>*)"
      using hb_pends [OF ok] pends old(1) hb_pend_in [OF ok] by blast
  qed
qed

section \<open>A spawn\<close>

lemma only_one:
  assumes "Q w x" "\<And>v b. Q v b \<Longrightarrow> S b \<longleftrightarrow> b = x" "\<And>v. Q v x \<Longrightarrow> v = w"
  shows "(\<exists>v b. Q v b \<and> R v \<and> S b) \<longleftrightarrow> R w"
  using assms by metis

lemma kids_insert_leaf:
  assumes "\<forall>v. (n, v) \<notin> K" "\<forall>v. (v, n) \<notin> K"
  shows "(u, v) \<in> (insert (t, n) K)\<^sup>* \<longleftrightarrow> (u, v) \<in> K\<^sup>* \<or> v = n \<and> (u, t) \<in> K\<^sup>*"
proof -
  have "(n, v) \<in> K\<^sup>* \<longleftrightarrow> v = n" for v using assms(1) by (auto elim: converse_rtranclE)
  then show ?thesis by (auto simp: rtrancl_insert)
qed

lemma hb_fork:
  assumes ok: "hb_ok ord V A C P K" and c: "C t a" and n: "\<forall>v. (n, v) \<notin> K" "\<forall>v. (v, n) \<notin> K" "\<forall>b. \<not> C n b" "\<forall>z. \<not> P n z"
    and new: "new_strands ord d k"
  shows "hb_ok (forked ord a d k) (insert d (insert k V)) (insert d (insert k A))
    (\<lambda>u b. if u = t then b = k else if u = n then b = d else C u b) P (insert (t, n) K)"
proof -
  note st = hb_strands [OF ok] and sub = hb_sub [OF ok]
  have aA: "a \<in> A" and aV: "a \<in> V" using hb_cur_in [OF ok c] sub by auto
  let ?o = "forked ord a d k" and ?K = "insert (t, n) K" and ?C = "\<lambda>u b. if u = t then b = k else if u = n then b = d else C u b"
  have fresh: "fst d \<notin> set (ord English)" "snd d \<notin> insert (snd k) (set (ord Hebrew))"
    "fst k \<notin> insert (fst d) (set (ord English))" "snd k \<notin> set (ord Hebrew)" using new by (simp_all add: new_strands_def)
  note f = forked_ok [OF st aV fresh]
  have tn: "t \<noteq> n" using c n(3) by blast
  have old: "series ?o u v \<longleftrightarrow> series ord u v" "seen ?o u v \<longleftrightarrow> seen ord u v" if "u \<in> V" "v \<in> V" for u v
    using extends_rel(1) [OF f(2) st that] extends_seen [OF f(2) st that] by auto
  have AV: "x \<in> V" if "x \<in> A" for x using that sub by auto
  have before: "series ?o x e \<longleftrightarrow> seen ord x a" if "x \<in> V" "e = d \<or> e = k" for x e
    using like_seen [OF f(2) st aV f(6,9) that(1)] like_seen [OF f(2) st aV f(7,10) that(1)] that(2) by blast
  have after: "series ?o e x \<longleftrightarrow> x \<noteq> a \<and> series ord a x" if "x \<in> V" "e = d \<or> e = k" for x e
    using like_after [OF f(1,2) st aV f(6,9) that(1)] like_after [OF f(1,2) st aV f(7,10) that(1)] that(2) by blast
  have dk: "\<not> series ?o e e'" if "e = d \<or> e = k" "e' = d \<or> e' = k" for e e'
  proof -
    have m: "d \<in> insert d (insert k V)" "k \<in> insert d (insert k V)" by simp_all
    have "par ?o k d" using f(8) par_sym [OF f(1) m] by blast
    then show ?thesis using that f(8) strands_irrefl [OF f(1)] by (auto simp: par_def series_def)
  qed
  have anc: "(u, v) \<in> ?K\<^sup>* \<longleftrightarrow> (u, v) \<in> K\<^sup>* \<or> v = n \<and> (u, t) \<in> K\<^sup>*" for u v by (rule kids_insert_leaf [OF n(1,2)])
  have into: "(u, n) \<in> K\<^sup>* \<longleftrightarrow> u = n" for u using n(2) by (auto elim: rtranclE)
  have last: "\<not> series ?o b x" if b: "?C u b" and x: "x \<in> insert d (insert k A)" for u b x
  proof -
    have "\<not> series ?o e x" if e: "e = d \<or> e = k" for e
      using x after [OF AV e] dk [OF e] hb_cur_last [OF ok c] by blast
    moreover have "\<not> series ?o b x" if "C u b" "u \<noteq> t"
    proof -
      have ba: "b \<noteq> a" using hb_cur_inj [OF ok c] that by blast
      have bA: "b \<in> A" by (rule hb_cur_in [OF ok that(1)])
      have "\<not> seen ord b a" using ba hb_cur_last [OF ok that(1) aA] by (simp add: seen_def)
      then show ?thesis using x old(1) [OF AV [OF bA] AV] before [OF AV [OF bA]] hb_cur_last [OF ok that(1)] by blast
    qed
    ultimately show ?thesis using b by (metis (full_types))
  qed
  have cin: "b \<in> insert d (insert k A)" if "?C u b" for u b using that hb_cur_in [OF ok] by (metis insertCI)
  have inj: "u = v" if "?C u b" "?C v b" for u v b
    using that f(3-5) hb_cur_inj [OF ok] AV hb_cur_in [OF ok] by (metis (full_types))
  have pend: "series ?o x z \<longleftrightarrow> (\<exists>v b. ?C v b \<and> (u, v) \<in> ?K\<^sup>* \<and> seen ?o x b)"
    if p: "P u z" and x: "x \<in> insert d (insert k A)" for u z x
  proof -
    have zV: "z \<in> V" "z \<noteq> a" using hb_pend_in [OF ok p] hb_pend_new [OF ok p] aA by auto
    have un: "u \<noteq> n" using p n(4) by blast
    show ?thesis
    proof (cases "x \<in> A")
      case True
      have xk: "x \<noteq> k" "x \<noteq> d" using AV [OF True] f(3,4) by blast+
      have nk: "seen ?o x d \<longleftrightarrow> seen ord x a" "seen ?o x k \<longleftrightarrow> seen ord x a" using before [OF AV [OF True]] xk by (simp_all add: seen_def)
      have "(\<exists>v b. ?C v b \<and> (u, v) \<in> ?K\<^sup>* \<and> seen ?o x b) \<longleftrightarrow> (\<exists>v b. C v b \<and> (u, v) \<in> K\<^sup>* \<and> seen ord x b)" (is "?L \<longleftrightarrow> ?R")
      proof
        assume ?L
        then obtain v b where v: "?C v b" "(u, v) \<in> ?K\<^sup>*" "seen ?o x b" by blast
        have "(u, t) \<in> K\<^sup>* \<and> seen ord x a" if "v = t \<or> v = n" using that v nk tn anc into un by (metis (full_types))
        moreover have "C v b \<and> (u, v) \<in> K\<^sup>* \<and> seen ord x b" if "v \<noteq> t" "v \<noteq> n"
          using that v anc old(2) [OF AV [OF True] AV [OF hb_cur_in [OF ok]]] by auto
        ultimately show ?R using c by blast
      next
        assume ?R
        then obtain v b where v: "C v b" "(u, v) \<in> K\<^sup>*" "seen ord x b" by blast
        have vn: "v \<noteq> n" using v(1) n(3) by blast
        show ?L
        proof (cases "v = t")
          case True
          then have "seen ?o x k" using v(1,3) c hb_cur_fun [OF ok] nk(2) by blast
          then show ?thesis using True v(2) anc by (intro exI [of _ t] exI [of _ k]) simp
        next
          case False
          have "seen ?o x b" using v(3) old(2) [OF AV [OF \<open>x \<in> A\<close>] AV [OF hb_cur_in [OF ok v(1)]]] by blast
          then show ?thesis using False vn v(1,2) anc by (intro exI [of _ v] exI [of _ b]) simp
        qed
      qed
      then show ?thesis using old(1) [OF AV [OF True] zV(1)] hb_pend [OF ok p True] by blast
    next
      case False
      then have e: "x = d \<or> x = k" using x by blast
      define w where "w = (if x = k then t else n)"
      have w: "?C w x" using e f(5) tn by (auto simp: w_def)
      have s: "seen ?o x b \<longleftrightarrow> b = x" if "?C v b" for v b using last [OF w cin [OF that]] by (auto simp: seen_def)
      have "(\<exists>v b. ?C v b \<and> (u, v) \<in> ?K\<^sup>* \<and> seen ?o x b) \<longleftrightarrow> (u, w) \<in> ?K\<^sup>*"
        by (rule only_one [of ?C, OF w s inj [OF _ w]])
      also have "\<dots> \<longleftrightarrow> (u, t) \<in> K\<^sup>*" using anc into un tn by (simp add: w_def)
      finally show ?thesis using after [OF zV(1) e] zV(2) cur_before_sync [OF ok p c] by blast
    qed
  qed
  show ?thesis
    unfolding hb_ok_def
  proof (intro conjI)
    show "strands_ok ?o (insert d (insert k V))" by (rule f(1))
    show "insert d (insert k A) \<subseteq> insert d (insert k V)" using sub by blast
    show "\<forall>u a b. ?C u a \<longrightarrow> ?C u b \<longrightarrow> a = b" using hb_cur_fun [OF ok] by (metis (full_types))
    show "\<forall>u y z. P u y \<longrightarrow> P u z \<longrightarrow> y = z" using hb_pend_fun [OF ok] by blast
    show "\<forall>u b. ?C u b \<longrightarrow> b \<in> insert d (insert k A) \<and> (\<forall>x \<in> insert d (insert k A). \<not> series ?o b x)" using last cin by blast
    show "\<forall>u z. P u z \<longrightarrow> z \<in> insert d (insert k V) \<and> z \<notin> insert d (insert k A) \<and> (\<forall>x \<in> insert d (insert k A). \<not> series ?o z x)"
    proof (intro allI impI conjI ballI)
      fix u z assume p: "P u z"
      have zV: "z \<in> V" by (rule hb_pend_in [OF ok p])
      have "z \<noteq> a" using hb_pend_new [OF ok p] aA by blast
      then have "\<not> seen ord z a" using hb_pend_last [OF ok p aA] by (simp add: seen_def)
      then show "\<not> series ?o z x" if "x \<in> insert d (insert k A)" for x
        using that before [OF zV] old(1) [OF zV AV] hb_pend_last [OF ok p] by blast
      show "z \<in> insert d (insert k V)" "z \<notin> insert d (insert k A)" using zV hb_pend_new [OF ok p] f(3,4) by blast+
    qed
    show "\<forall>u v b. ?C u b \<longrightarrow> ?C v b \<longrightarrow> u = v" using inj by blast
    show "\<forall>u z. P u z \<longrightarrow> (\<forall>x \<in> insert d (insert k A). series ?o x z \<longleftrightarrow> (\<exists>v b. ?C v b \<and> (u, v) \<in> ?K\<^sup>* \<and> seen ?o x b))"
      using pend by blast
    show "\<forall>u v y z. P u y \<longrightarrow> P v z \<longrightarrow> u \<noteq> v \<longrightarrow> y \<noteq> z \<and> (series ?o y z \<longleftrightarrow> (v, u) \<in> ?K\<^sup>*)"
    proof (intro allI impI)
      fix u v y z assume p: "P u y" "P v z" "u \<noteq> v"
      have "(v, u) \<in> ?K\<^sup>* \<longleftrightarrow> (v, u) \<in> K\<^sup>*" using anc p(1) n(4) by blast
      then show "y \<noteq> z \<and> (series ?o y z \<longleftrightarrow> (v, u) \<in> ?K\<^sup>*)"
        using hb_pends [OF ok p] old(1) [OF hb_pend_in [OF ok p(1)] hb_pend_in [OF ok p(2)]] by blast
    qed
  qed
qed

section \<open>A wait\<close>

lemma hb_wait:
  assumes ok: "hb_ok ord V A C P (kids m)" and fam: "family m" and p: "P t y"
    and D: "D = {d. (t, d) \<in> (kids m)\<^sup>+}"
  shows "hb_ok ord V (insert y A) (\<lambda>u b. u \<notin> D \<and> (if u = t then b = y else C u b)) (\<lambda>u z. u \<notin> insert t D \<and> P u z)
    {(u, v) \<in> kids m. u \<notin> insert t D}"
proof -
  note st = hb_strands [OF ok] and sub = hb_sub [OF ok]
  let ?K = "kids m" and ?K' = "{(u, v) \<in> kids m. u \<notin> insert t D}"
  let ?C = "\<lambda>u b. u \<notin> D \<and> (if u = t then b = y else C u b)"
  have below: "(t, u) \<in> ?K\<^sup>* \<longleftrightarrow> u \<in> insert t D" for u using D by (auto simp: rtrancl_eq_or_trancl)
  have tD: "t \<notin> D"
  proof
    assume "t \<in> D"
    then have "(t, t) \<in> ?K\<^sup>+" using D by blast
    then obtain u where "(t, u) \<in> ?K\<^sup>*" "(u, t) \<in> ?K" using tranclD2 by metis
    then show False using kids_le [OF fam] kids_parent [OF fam] by (meson leD)
  qed
  have anc: "(u, v) \<in> ?K'\<^sup>* \<longleftrightarrow> (u, v) \<in> ?K\<^sup>*" if "v \<notin> D" for u v
  proof
    have "?K' \<subseteq> ?K" by auto
    then show "(u, v) \<in> ?K'\<^sup>* \<Longrightarrow> (u, v) \<in> ?K\<^sup>*" using rtrancl_mono by blast
    assume "(u, v) \<in> ?K\<^sup>*"
    then show "(u, v) \<in> ?K'\<^sup>*"
      using that
    proof (induction rule: rtrancl_induct)
      case (step q v)
      have "q \<notin> insert t D" using step.hyps(2) step.prems below [of q] below [of v] by (metis insertCI rtrancl.rtrancl_into_rtrancl insertE tD D mem_Collect_eq r_into_trancl trancl.trancl_into_trancl)
      then show ?case using step by (auto intro: rtrancl.rtrancl_into_rtrancl)
    qed simp
  qed
  have yV: "y \<in> V" "y \<notin> A" by (rule hb_pend_in [OF ok p], rule hb_pend_new [OF ok p])
  have "\<not> series ord y y" using strands_irrefl [OF st] by (simp add: series_def)
  then have ylast: "\<not> series ord y x" if "x \<in> insert y A" for x using hb_pend_last [OF ok p] that by blast
  have last: "b \<in> insert y A" "x \<in> insert y A \<Longrightarrow> \<not> series ord b x" if b: "?C u b" for u b x
  proof -
    have "b \<in> insert y A \<and> (x \<in> insert y A \<longrightarrow> \<not> series ord b x)"
    proof (cases "u = t")
      case True
      then show ?thesis using b ylast by simp
    next
      case False
      then have cu: "C u b" and "u \<notin> insert t D" using b by simp_all
      then have "\<not> series ord b y" using cur_before_sync [OF ok p cu] below by blast
      then show ?thesis using hb_cur_in [OF ok cu] hb_cur_last [OF ok cu] by blast
    qed
    then show "b \<in> insert y A" "x \<in> insert y A \<Longrightarrow> \<not> series ord b x" by blast+
  qed
  have inj: "u = v" if "?C u b" "?C v b" for u v b
    using that hb_cur_inj [OF ok] hb_cur_in [OF ok] yV(2) by (metis (full_types))
  have pend: "series ord x z \<longleftrightarrow> (\<exists>v b. ?C v b \<and> (u, v) \<in> ?K'\<^sup>* \<and> seen ord x b)"
    if pu: "P u z" "u \<notin> insert t D" and x: "x \<in> insert y A" for u z x
  proof (cases "x \<in> A")
    case True
    have xy: "seen ord x y \<longleftrightarrow> series ord x y" using True yV by (auto simp: seen_def)
    have "(\<exists>v b. ?C v b \<and> (u, v) \<in> ?K'\<^sup>* \<and> seen ord x b) \<longleftrightarrow> (\<exists>v b. C v b \<and> (u, v) \<in> ?K\<^sup>* \<and> seen ord x b)" (is "?L \<longleftrightarrow> ?R")
    proof
      assume ?L
      then obtain v b where v: "?C v b" "(u, v) \<in> ?K'\<^sup>*" "seen ord x b" by blast
      have uv: "(u, v) \<in> ?K\<^sup>*" using v(1,2) anc by blast
      show ?R
      proof (cases "v = t")
        case True
        then have "series ord x y" using v(1,3) xy by simp
        then obtain w e where "C w e" "(t, w) \<in> ?K\<^sup>*" "seen ord x e" using hb_pend [OF ok p \<open>x \<in> A\<close>] by blast
        then show ?thesis using uv True by (meson rtrancl_trans)
      qed (use v uv in auto)
    next
      assume ?R
      then obtain v b where v: "C v b" "(u, v) \<in> ?K\<^sup>*" "seen ord x b" by blast
      show ?L
      proof (cases "v \<in> insert t D")
        case True
        then have tv: "(t, v) \<in> ?K\<^sup>*" using below by blast
        then have "series ord x y" using hb_pend [OF ok p \<open>x \<in> A\<close>] v by blast
        moreover have "(u, t) \<in> ?K\<^sup>*" using kids_chain [OF fam v(2) tv] pu(2) below by blast
        then have "(u, t) \<in> ?K'\<^sup>*" using anc [OF tD] by blast
        ultimately show ?thesis using tD xy by (intro exI [of _ t] exI [of _ y]) simp
      next
        case False
        then show ?thesis using v anc by (intro exI [of _ v] exI [of _ b]) simp
      qed
    qed
    then show ?thesis using hb_pend [OF ok pu(1) True] by blast
  next
    case False
    then have xy: "x = y" using x by blast
    have s: "seen ord y b \<longleftrightarrow> b = y" if "?C v b" for v b using ylast last(1) [OF that] by (auto simp: seen_def)
    have w: "?C t y" using tD by simp
    have "(\<exists>v b. ?C v b \<and> (u, v) \<in> ?K'\<^sup>* \<and> seen ord y b) \<longleftrightarrow> (u, t) \<in> ?K'\<^sup>*"
      by (rule only_one [of ?C, OF w s inj [OF _ w]])
    then show ?thesis using hb_pends [OF ok p pu(1)] pu(2) anc [OF tD] xy by blast
  qed
  show ?thesis
    unfolding hb_ok_def
  proof (intro conjI)
    show "strands_ok ord V" by (rule st)
    show "insert y A \<subseteq> V" using sub yV by blast
    show "\<forall>u a b. ?C u a \<longrightarrow> ?C u b \<longrightarrow> a = b" using hb_cur_fun [OF ok] by (metis (full_types))
    show "\<forall>u z z'. u \<notin> insert t D \<and> P u z \<longrightarrow> u \<notin> insert t D \<and> P u z' \<longrightarrow> z = z'" using hb_pend_fun [OF ok] by blast
    show "\<forall>u b. ?C u b \<longrightarrow> b \<in> insert y A \<and> (\<forall>x \<in> insert y A. \<not> series ord b x)" using last by blast
    show "\<forall>u z. u \<notin> insert t D \<and> P u z \<longrightarrow> z \<in> V \<and> z \<notin> insert y A \<and> (\<forall>x \<in> insert y A. \<not> series ord z x)"
    proof (intro allI impI)
      fix u z assume uz: "u \<notin> insert t D \<and> P u z"
      then have "z \<noteq> y \<and> \<not> series ord z y" using hb_pends [OF ok _ p] below by blast
      then show "z \<in> V \<and> z \<notin> insert y A \<and> (\<forall>x \<in> insert y A. \<not> series ord z x)"
        using uz hb_pend_in [OF ok] hb_pend_new [OF ok] hb_pend_last [OF ok] by blast
    qed
    show "\<forall>u v b. ?C u b \<longrightarrow> ?C v b \<longrightarrow> u = v" using inj by blast
    show "\<forall>u z. u \<notin> insert t D \<and> P u z \<longrightarrow>
        (\<forall>x \<in> insert y A. series ord x z \<longleftrightarrow> (\<exists>v b. ?C v b \<and> (u, v) \<in> ?K'\<^sup>* \<and> seen ord x b))" using pend by blast
    show "\<forall>u v z z'. u \<notin> insert t D \<and> P u z \<longrightarrow> v \<notin> insert t D \<and> P v z' \<longrightarrow> u \<noteq> v \<longrightarrow>
        z \<noteq> z' \<and> (series ord z z' \<longleftrightarrow> (v, u) \<in> ?K'\<^sup>*)" using hb_pends [OF ok] anc by blast
  qed
qed

end
