(* ===== verification/CrRuns.thy ===== *)
theory CrRuns
  imports CrHb
begin

text \<open>
  Runs of C-RACER: the handlers as events, what they keep of the tasks, the stacks and the
  strands.
\<close>

section \<open>Events\<close>

text \<open>
  The wrappers that spawn and wait are a spawn, the run of TBB and a wait for the task that
  was on top before (\<open>wrappers_are_events\<close>); \<open>CrWait\<close> therefore names the task.  Nothing in
  the repository calls \<open>clear_child_list\<close>.
\<close>

datatype cr_event =
    CrSpawn THREADID nat bool
  | CrWait nat
  | CrBegin THREADID nat
  | CrEnd THREADID
  | CrExecute THREADID bool
  | CrAcquire THREADID ADDRINT
  | CrRelease THREADID ADDRINT
  | CrAccess THREADID ADDRINT AccessType

definition cr_step :: "(nat \<Rightarrow> label_t) \<Rightarrow> cracer \<Rightarrow> cr_event \<Rightarrow> cracer option" where
  "cr_step shl1 s e =
     (case e of
        CrSpawn th task of_this \<Rightarrow> spawn shl1 s th task of_this
      | CrWait t \<Rightarrow> Capturewait_for_all s t
      | CrBegin th taskId \<Rightarrow> exec_begin s th taskId
      | CrEnd th \<Rightarrow> exec_end s th
      | CrExecute th b \<Rightarrow> if b then set_execute_true s th else set_execute_false s th
      | CrAcquire th l \<Rightarrow> Some (CaptureLockAcquire s th l)
      | CrRelease th l \<Rightarrow> Some (CaptureLockRelease s th l)
      | CrAccess th a k \<Rightarrow> RecordMem s th a k)"

lemma spawn_own: "spawn shl1 s th task True =
    do { t \<leftarrow> cur_top s th; fork_strands shl1 (s\<lparr>task_id_ctr := task_id_ctr s + 1\<rparr>) th t (task_id_ctr s + 1) task }"
proof (cases "cur s th")
  case (Cons t ts)
  have "fork_strands shl1 (s\<lparr>task_id_ctr := task_id_ctr s + 1\<rparr>) th t (task_id_ctr s + 1) task = None" if "task_states s t = None"
    using that by (simp add: fork_strands_def)
  then show ?thesis using Cons by (cases "task_states s t") (simp_all add: spawn_def cur_top_def Let_def)
qed (simp add: spawn_def cur_top_def)

lemma wrappers_are_events:
  assumes "cur_top s th = Some t"
  shows "spawn_root_and_wait shl1 (\<lambda>s. run (cr_step shl1) s es) s th task = run (cr_step shl1) s (CrSpawn th task True # es @ [CrWait t])"
    "spawn_and_wait_for_all shl1 (\<lambda>s. run (cr_step shl1) s es) s th task = run (cr_step shl1) s (CrSpawn th task True # es @ [CrWait t])"
    "wait_for_all (\<lambda>s. run (cr_step shl1) s es) s th = run (cr_step shl1) s (es @ [CrWait t])"
proof -
  have "cur_top (s\<lparr>task_id_ctr := c\<rparr>) th = Some t" for c using assms by (simp add: cur_top_def)
  then show "spawn_root_and_wait shl1 (\<lambda>s. run (cr_step shl1) s es) s th task = run (cr_step shl1) s (CrSpawn th task True # es @ [CrWait t])"
    "spawn_and_wait_for_all shl1 (\<lambda>s. run (cr_step shl1) s es) s th task = run (cr_step shl1) s (CrSpawn th task True # es @ [CrWait t])"
    using assms
    by (simp_all add: spawn_root_and_wait_def spawn_and_wait_for_all_def cr_step_def spawn_own run_append Let_def
        split: Option.bind_split)
  show "wait_for_all (\<lambda>s. run (cr_step shl1) s es) s th = run (cr_step shl1) s (es @ [CrWait t])"
    using assms by (simp add: wait_for_all_def cr_step_def run_append split: Option.bind_split)
qed

section \<open>Tasks, stacks and strands\<close>

definition cur_at :: "tasks \<Rightarrow> strand_of" where
  "cur_at m t a \<longleftrightarrow> (\<exists>x. m t = Some x \<and> runs_in x a)"

definition pend_at :: "tasks \<Rightarrow> strand_of" where
  "pend_at m t y \<longleftrightarrow> (\<exists>x. m t = Some x \<and> syncs_to x y)"

text \<open>A task has a strand, a sync when it has children, and is listed by its parent.\<close>

definition task_ok :: "tasks \<Rightarrow> nat \<Rightarrow> TaskState \<Rightarrow> bool" where
  "task_ok m t x \<longleftrightarrow>
     (\<exists>a. runs_in x a) \<and> (sync_english x = NULL \<and> child x = [] \<or> (\<exists>y. syncs_to x y)) \<and>
     (\<forall>p. task_parent x = Some p \<longrightarrow> (p, t) \<in> kids m)"

definition tasks_ok :: "tasks \<Rightarrow> nat \<Rightarrow> bool" where
  "tasks_ok m n \<longleftrightarrow> family m \<and> (\<forall>t x. m t = Some x \<longrightarrow> t < n \<and> task_ok m t x)"

text \<open>A task that has not begun is on no stack and has no children.\<close>

definition begun_ok :: "cracer \<Rightarrow> bool" where
  "begun_ok s \<longleftrightarrow>
     (\<forall>th. \<forall>t \<in> set (cur s th). t < next_task s \<and> t \<notin> ran (temp_cur_map s)) \<and>
     inj_on (temp_cur_map s) (dom (temp_cur_map s)) \<and>
     (\<forall>c \<in> ran (temp_cur_map s). c < next_task s \<and> (\<forall>x. task_states s c = Some x \<longrightarrow> child x = []))"

definition cr_inv :: "cracer \<Rightarrow> orders \<Rightarrow> strand set \<Rightarrow> strand set \<Rightarrow> bool" where
  "cr_inv s ord V A \<longleftrightarrow>
     cr_orders s ord \<and> tasks_ok (task_states s) (next_task s) \<and> begun_ok s \<and>
     hb_ok ord V A (cur_at (task_states s)) (pend_at (task_states s)) (kids (task_states s))"

lemma tasks_okD:
  assumes "tasks_ok m n"
  shows "family m" "m t = Some x \<Longrightarrow> t < n" "m t = Some x \<Longrightarrow> task_ok m t x"
  using assms unfolding tasks_ok_def by blast+

text \<open>A change that leaves strands, children and parents alone.\<close>

definition task_view :: "TaskState \<Rightarrow> ptr \<times> ptr \<times> ptr \<times> ptr \<times> nat list \<times> ptr" where
  "task_view x = (current_english x, current_hebrew x, sync_english x, sync_hebrew x, child x, task_parent x)"

definition quiet :: "tasks \<Rightarrow> tasks \<Rightarrow> bool" where
  "quiet m m' \<longleftrightarrow> (\<forall>t. map_option task_view (m' t) = map_option task_view (m t))"

lemma quiet_refl: "quiet m m"
  by (simp add: quiet_def)

lemma quiet_upd: "m t = Some x \<Longrightarrow> task_view x' = task_view x \<Longrightarrow> quiet m (m(t \<mapsto> x'))"
  by (simp add: quiet_def)

lemma quiet_trans: "quiet m m1 \<Longrightarrow> quiet m1 m2 \<Longrightarrow> quiet m m2"
  by (simp add: quiet_def)

lemma quiet_sym: "quiet m m' \<Longrightarrow> quiet m' m"
  by (simp add: quiet_def)

lemma quietE:
  assumes "quiet m m'" "m' t = Some x'"
  obtains x where "m t = Some x" "\<And>a. runs_in x' a = runs_in x a" "\<And>a. syncs_to x' a = syncs_to x a"
    "sync_english x' = sync_english x" "child x' = child x" "task_parent x' = task_parent x"
proof -
  have "map_option task_view (m t) = Some (task_view x')" using assms by (metis quiet_def option.simps(9))
  then obtain x where x: "m t = Some x" "task_view x = task_view x'" by (cases "m t") simp_all
  show thesis by (rule that [OF x(1)]) (use x(2) in \<open>simp_all add: task_view_def runs_in_def syncs_to_def\<close>)
qed

lemma quiet_same:
  assumes "quiet m m'"
  shows "cur_at m' = cur_at m" "pend_at m' = pend_at m" "kids m' = kids m"
proof -
  have v: "map_option task_view (m' t) = map_option task_view (m t)" for t using assms by (simp add: quiet_def)
  have ex: "(\<exists>x. m' t = Some x \<and> Q (task_view x)) \<longleftrightarrow> (\<exists>x. m t = Some x \<and> Q (task_view x))" for Q t
    using v [of t] by (cases "m t"; cases "m' t") simp_all
  have "cur_at m' t a = cur_at m t a" for t a
    using ex [of t "\<lambda>(e, h, _). e = Some (fst a) \<and> h = Some (snd a)"] by (simp add: cur_at_def runs_in_def task_view_def)
  then show "cur_at m' = cur_at m" by blast
  have "pend_at m' t a = pend_at m t a" for t a
    using ex [of t "\<lambda>(_, _, e, h, _). e = Some (fst a) \<and> h = Some (snd a)"] by (simp add: pend_at_def syncs_to_def task_view_def)
  then show "pend_at m' = pend_at m" by blast
  have "(a, b) \<in> kids m' \<longleftrightarrow> (a, b) \<in> kids m" for a b
    using ex [of a "\<lambda>(_, _, _, _, c, _). b \<in> set c"] by (simp add: kids_def task_view_def)
  then show "kids m' = kids m" by auto
qed

lemma quiet_tasks_ok:
  assumes q: "quiet m m'" and ok: "tasks_ok m n"
  shows "tasks_ok m' n"
proof -
  note k = quiet_same(3) [OF q]
  have fam: "family m" by (rule tasks_okD(1) [OF ok])
  have "family m'"
    unfolding family_def
  proof (intro allI impI)
    fix a x' assume "m' a = Some x'"
    from quietE [OF q this] obtain x where x: "m a = Some x" "child x' = child x" by metis
    have "\<exists>y'. m' b = Some y' \<and> task_parent y' = Some a" if b: "b \<in> set (child x)" for b
    proof -
      from familyD(3) [OF fam x(1) b] obtain y where "m b = Some y" "task_parent y = Some a" by blast
      then show ?thesis using quietE [OF quiet_sym [OF q]] by metis
    qed
    then show "distinct (child x') \<and> (\<forall>b \<in> set (child x'). a < b \<and> (\<exists>y. m' b = Some y \<and> task_parent y = Some a))"
      using familyD(1,2) [OF fam x(1)] x(2) by simp
  qed
  moreover have "t < n \<and> task_ok m' t x'" if x': "m' t = Some x'" for t x'
  proof -
    from quietE [OF q x'] obtain x where x: "m t = Some x" "\<And>a. runs_in x' a = runs_in x a" "\<And>a. syncs_to x' a = syncs_to x a"
      "sync_english x' = sync_english x" "child x' = child x" "task_parent x' = task_parent x" by metis
    show ?thesis using tasks_okD(2,3) [OF ok x(1)] x(2-6) k by (simp add: task_ok_def)
  qed
  ultimately show ?thesis by (simp add: tasks_ok_def)
qed

section \<open>A spawn\<close>

text \<open>The task table after a spawn below \<open>t\<close>.\<close>

definition spawned :: "tasks \<Rightarrow> nat \<Rightarrow> nat \<Rightarrow> TaskState \<Rightarrow> strand \<Rightarrow> strand \<Rightarrow> strand \<Rightarrow> nat \<Rightarrow> nat \<Rightarrow> tasks" where
  "spawned m n t x y c k taskid task =
     m(n \<mapsto> spawned_task taskid task t c, t \<mapsto> continued (with_sync x y) n k)"

lemma spawned_fields [simp]:
  "runs_in (spawned_task i u t c) b \<longleftrightarrow> b = c" "\<not> syncs_to (spawned_task i u t c) b" "child (spawned_task i u t c) = []"
  "task_parent (spawned_task i u t c) = Some t" "sync_english (spawned_task i u t c) = NULL"
  "runs_in (continued x n k) b \<longleftrightarrow> b = k" "syncs_to (continued x n k) b \<longleftrightarrow> syncs_to x b" "child (continued x n k) = child x @ [n]"
  "task_parent (continued x n k) = task_parent x" "syncs_to (with_sync x y) b \<longleftrightarrow> b = y" "child (with_sync x y) = child x"
  "task_parent (with_sync x y) = task_parent x"
  by (auto simp: spawned_task_def continued_def with_sync_def runs_in_def syncs_to_def prod_eq_iff)

lemma spawned_tables:
  assumes x: "m t = Some x" and n: "m n = None" and y: "sync_english x = NULL \<or> syncs_to x y"
    and m'_def: "m' = spawned m n t x y c k taskid task"
  shows "cur_at m' = (\<lambda>u b. if u = t then b = k else if u = n then b = c else cur_at m u b)"
    "pend_at m' = (\<lambda>u z. pend_at m u z \<or> u = t \<and> z = y)" "kids m' = insert (t, n) (kids m)"
proof -
  have tn: "t \<noteq> n" using x n by auto
  have m': "m' t = Some (continued (with_sync x y) n k)" "m' n = Some (spawned_task taskid task t c)"
    "\<And>u. u \<noteq> t \<Longrightarrow> u \<noteq> n \<Longrightarrow> m' u = m u" using tn by (simp_all add: m'_def spawned_def)
  show "cur_at m' = (\<lambda>u b. if u = t then b = k else if u = n then b = c else cur_at m u b)"
    by (intro ext) (simp add: cur_at_def m')
  have "\<forall>z. syncs_to x z \<longrightarrow> z = y" using y syncs_to_inj [of x _ y] by (auto simp: syncs_to_def)
  then have "pend_at m' u z \<longleftrightarrow> pend_at m u z \<or> u = t \<and> z = y" for u z
    using m' n x tn by (cases "u = t"; cases "u = n") (auto simp: pend_at_def)
  then show "pend_at m' = (\<lambda>u z. pend_at m u z \<or> u = t \<and> z = y)" by blast
  have "(u, v) \<in> kids m' \<longleftrightarrow> (u, v) \<in> insert (t, n) (kids m)" for u v
    by (cases "u = t"; cases "u = n") (auto simp: kids_def m' n x tn)
  then show "kids m' = insert (t, n) (kids m)" by auto
qed

lemma spawned_tasks_ok:
  assumes ok: "tasks_ok m n" and x: "m t = Some x" and y: "sync_english x = NULL \<or> syncs_to x y"
  shows "tasks_ok (spawned m n t x y c k taskid task) (n + 1)"
proof -
  let ?m = "spawned m n t x y c k taskid task"
  have tn: "t < n" by (rule tasks_okD(2) [OF ok x])
  have n: "m n = None" using tasks_okD(2) [OF ok] by fastforce
  have m': "?m t = Some (continued (with_sync x y) n k)" "?m n = Some (spawned_task taskid task t c)"
    "\<And>u. u \<noteq> t \<Longrightarrow> u \<noteq> n \<Longrightarrow> ?m u = m u" using tn by (simp_all add: spawned_def)
  note kd = spawned_tables(3) [OF x n y refl, of c k taskid task]
  note fam = tasks_okD(1) [OF ok]
  have up: "\<exists>z. ?m b = Some z \<and> task_parent z = Some a" if "m b = Some w" "task_parent w = Some a" for a b w
    using that m' x n by (cases "b = t"; cases "b = n") auto
  have "family ?m"
    unfolding family_def
  proof (intro allI impI)
    fix a z assume z: "?m a = Some z"
    consider "a = t" "z = continued (with_sync x y) n k" | "a = n" "child z = []" | "m a = Some z" "a \<noteq> t" "a \<noteq> n" using z m' by (cases "a = t"; cases "a = n") auto
    then show "distinct (child z) \<and> (\<forall>b \<in> set (child z). a < b \<and> (\<exists>y. ?m b = Some y \<and> task_parent y = Some a))"
    proof cases
      case 1
      have "n \<notin> set (child x)" using familyD(3) [OF fam x] n by force
      then show ?thesis using 1 familyD [OF fam x] up m'(2) tn by (auto; fastforce)
    next
      case 3
      then show ?thesis using familyD [OF fam 3(1)] up by (meson)
    qed simp
  qed
  moreover have "u < n + 1 \<and> task_ok ?m u z" if z: "?m u = Some z" for u z
  proof -
    consider "u = t" "z = continued (with_sync x y) n k" | "u = n" "z = spawned_task taskid task t c" | "m u = Some z" "u \<noteq> t" "u \<noteq> n"
      using z m' by (cases "u = t"; cases "u = n") auto
    then show ?thesis
    proof cases
      case 1
      then show ?thesis using tasks_okD(3) [OF ok x] tn kd by (auto simp: task_ok_def)
    next
      case 2
      then show ?thesis using kd by (simp add: task_ok_def)
    next
      case 3
      then show ?thesis using tasks_okD(2,3) [OF ok 3(1)] kd by (auto simp: task_ok_def)
    qed
  qed
  ultimately show ?thesis by (simp add: tasks_ok_def)
qed

lemma begun_okD:
  assumes "begun_ok s"
  shows "t \<in> set (cur s th) \<Longrightarrow> t < next_task s" "t \<in> set (cur s th) \<Longrightarrow> t \<notin> ran (temp_cur_map s)"
    "inj_on (temp_cur_map s) (dom (temp_cur_map s))" "c \<in> ran (temp_cur_map s) \<Longrightarrow> c < next_task s"
    "c \<in> ran (temp_cur_map s) \<Longrightarrow> task_states s c = Some x \<Longrightarrow> child x = []"
  using assms unfolding begun_ok_def by blast+

lemma cr_invD:
  assumes "cr_inv s ord V A"
  shows "cr_orders s ord" "tasks_ok (task_states s) (next_task s)" "begun_ok s"
    "hb_ok ord V A (cur_at (task_states s)) (pend_at (task_states s)) (kids (task_states s))"
  using assms unfolding cr_inv_def by blast+

lemma ran_map_insert: "ran (map_insert m k v) \<subseteq> insert v (ran m)"
  by (auto simp: ran_def map_insert_apply split: if_splits)

lemma inj_map_insert:
  assumes "inj_on m (dom m)" "v \<notin> ran m"
  shows "inj_on (map_insert m k v) (dom (map_insert m k v))"
proof (cases "m k")
  case None
  then have "map_insert m k v = m(k \<mapsto> v)" by (rule map_insert_fresh)
  moreover have "inj_on (m(k \<mapsto> v)) (insert k (dom m))"
    using assms None by (auto simp: inj_on_def ran_def dom_def)
  ultimately show ?thesis by simp
qed (use assms(1) in simp)

text \<open>What the new strands have to do with the old ones.\<close>

definition forks :: "orders \<Rightarrow> orders \<Rightarrow> strand set \<Rightarrow> strand \<Rightarrow> strand \<Rightarrow> strand \<Rightarrow> strand \<Rightarrow> bool" where
  "forks ord ord' V a c k y \<longleftrightarrow>
     extends ord ord' \<and> c \<notin> V \<and> k \<notin> V \<and> c \<noteq> k \<and> series ord' a c \<and> series ord' a k \<and> par ord' c k \<and>
     series ord' c y \<and> series ord' k y \<and>
     (\<forall>x \<in> V. \<forall>e \<in> {c, k}. (series ord' x e \<longleftrightarrow> seen ord x a) \<and> (par ord' x e \<longleftrightarrow> par ord x a))"

lemma length_grown: "grown ord x a y ord0 \<Longrightarrow> fst a \<in> set (ord English) \<Longrightarrow> snd a \<in> set (ord Hebrew) \<Longrightarrow> length (ord0 w) \<le> length (ord w) + 1"
  by (cases w) (auto simp: grown_def synced_def length_insert_after split: if_splits)

lemma fork_ok:
  assumes inv: "cr_inv s ord V A" and r: "room_for 6 ord" "shl_ok shl1"
    and x: "task_states s t = Some x" "runs_in x a" and t: "t \<notin> ran (temp_cur_map s)"
  shows "\<exists>s' ord' V' y c k. fork_strands shl1 s th t taskid task = Some s' \<and> cr_inv s' ord' V' (insert c (insert k A)) \<and>
    V \<subseteq> V' \<and> (\<forall>w. length (ord' w) \<le> length (ord w) + 3) \<and> forks ord ord' V a c k y \<and>
    task_states s' = spawned (task_states s) (next_task s) t x y c k taskid task \<and> next_task s' = next_task s + 1 \<and>
    cur s' = cur s \<and> var_map s' = var_map s \<and> violations s' = violations s"
proof -
  let ?m = "task_states s" and ?n = "next_task s"
  note o = cr_invD(1) [OF inv] and tk = cr_invD(2) [OF inv] and bg = cr_invD(3) [OF inv] and hb = cr_invD(4) [OF inv]
  note st = hb_strands [OF hb]
  have C: "cur_at ?m t a" using x by (auto simp: cur_at_def)
  have aV: "a \<in> V" using hb_cur_in [OF hb C] hb_sub [OF hb] by blast
  have am: "fst a \<in> set (ord English)" "snd a \<in> set (ord Hebrew)" using strands_okD [OF st aV aV] by simp_all
  have n: "?m ?n = None" using tasks_okD(2) [OF tk] by fastforce
  have nt: "?n \<noteq> t" using n x(1) by auto
  have px: "pend_at ?m t y \<longleftrightarrow> syncs_to x y" for y using x(1) by (simp add: pend_at_def)
  have sy: "sync_english x = NULL \<and> child x = [] \<or> (\<exists>y. syncs_to x y)" using tasks_okD(3) [OF tk x(1)] by (simp add: task_ok_def)
  then have "sync_english x = NULL \<or> (\<exists>y \<in> V. syncs_to x y)" using hb_pend_in [OF hb] px by blast
  from fork_strands_ok [OF o st r x aV this nt, of th taskid task] obtain y ord0 c k om where
    run: "fork_strands shl1 s th t taskid task = Some (s\<lparr>om_st := om, next_task := ?n + 1,
        task_states := spawned ?m ?n t x y c k taskid task, temp_cur_map := map_insert (temp_cur_map s) taskid ?n\<rparr>)"
    and g: "grown ord x a y ord0" and new: "new_strands ord0 c k" and om: "st_ok om (forked ord0 a c k)"
    unfolding spawned_def by blast
  let ?m' = "spawned ?m ?n t x y c k taskid task"
  let ?s' = "s\<lparr>om_st := om, next_task := ?n + 1, task_states := ?m', temp_cur_map := map_insert (temp_cur_map s) taskid ?n\<rparr>"
  have y: "sync_english x = NULL \<or> syncs_to x y" using g by (auto simp: grown_def split: if_splits)
  note tabs = spawned_tables [OF x(1) n y refl, of c k taskid task]
  define V0 where "V0 = insert y V"
  have ext: "extends ord ord0 \<and> hb_ok ord0 V0 A (cur_at ?m) (\<lambda>u z. pend_at ?m u z \<or> u = t \<and> z = y) (kids ?m) \<and> series ord0 a y"
  proof (cases "sync_english x = NULL")
    case True
    then have f: "ord0 = synced ord a y" "fst y \<notin> set (ord English)" "snd y \<notin> set (ord Hebrew)" using g by (simp_all add: grown_def)
    have nos: "\<forall>y. \<not> syncs_to x y" using True by (simp add: syncs_to_def)
    then have "child x = []" using sy by blast
    then have nk: "\<forall>u. (t, u) \<notin> kids ?m" using x(1) by (simp add: kids_def)
    have np: "\<forall>y. \<not> pend_at ?m t y" using nos px by blast
    show ?thesis using hb_sync [OF hb C np nk f(2,3)] synced_ok(2,4) [OF st aV f(2,3)] unfolding f(1) V0_def by blast
  next
    case False
    then have f: "ord0 = ord" "syncs_to x y" using g by (simp_all add: grown_def)
    then have p: "pend_at ?m t y" using px by simp
    have "(\<lambda>u z. pend_at ?m u z \<or> u = t \<and> z = y) = pend_at ?m" using p by blast
    moreover have "V0 = V" using hb_pend_in [OF hb p] by (auto simp: V0_def)
    moreover have "series ord a y" using cur_before_sync [OF hb p C] by blast
    ultimately show ?thesis using hb f(1) orders_extend_refl by simp
  qed
  then have ex: "extends ord ord0" and hb0: "hb_ok ord0 V0 A (cur_at ?m) (\<lambda>u z. pend_at ?m u z \<or> u = t \<and> z = y) (kids ?m)"
    and ay: "series ord0 a y" by blast+
  note st0 = hb_strands [OF hb0]
  have VV: "V \<subseteq> V0" "y \<in> V0" and aV0: "a \<in> V0" using aV by (auto simp: V0_def)
  have fr: "fst c \<notin> set (ord0 English)" "snd c \<notin> insert (snd k) (set (ord0 Hebrew))"
    "fst k \<notin> insert (fst c) (set (ord0 English))" "snd k \<notin> set (ord0 Hebrew)" using new by (simp_all add: new_strands_def)
  note f = forked_ok [OF st0 aV0 fr]
  let ?o = "forked ord0 a c k"
  have nk1: "\<forall>v. (?n, v) \<notin> kids ?m" using n by (simp add: kids_def)
  have nk2: "\<forall>v. (v, ?n) \<notin> kids ?m" using n kids_parent [OF tasks_okD(1) [OF tk]] by (metis option.distinct(1))
  have nC: "\<forall>b. \<not> cur_at ?m ?n b" "\<forall>z. \<not> (pend_at ?m ?n z \<or> ?n = t \<and> z = y)" using n nt by (simp_all add: cur_at_def pend_at_def)
  have hb': "hb_ok ?o (insert c (insert k V0)) (insert c (insert k A)) (cur_at ?m') (pend_at ?m') (kids ?m')"
    unfolding tabs by (rule hb_fork [OF hb0 C nk1 nk2 nC new])
  have tk': "tasks_ok ?m' (?n + 1)" by (rule spawned_tasks_ok [OF tk x(1) y])
  have "begun_ok ?s'"
    unfolding begun_ok_def
  proof (intro conjI allI ballI impI)
    fix th u assume u: "u \<in> set (cur ?s' th)"
    then show "u < next_task ?s'" using begun_okD(1) [OF bg, of u th] by simp
    show "u \<notin> ran (temp_cur_map ?s')" using u begun_okD(1,2) [OF bg, of u th] ran_map_insert [of "temp_cur_map s" taskid ?n] by auto
  next
    have "?n \<notin> ran (temp_cur_map s)" using begun_okD(4) [OF bg, of ?n] by blast
    then show "inj_on (temp_cur_map ?s') (dom (temp_cur_map ?s'))" using inj_map_insert [OF begun_okD(3) [OF bg]] by simp
  next
    fix u assume "u \<in> ran (temp_cur_map ?s')"
    then have u: "u = ?n \<or> u \<in> ran (temp_cur_map s)" using ran_map_insert [of "temp_cur_map s" taskid ?n] by auto
    then show "u < next_task ?s'" using begun_okD(4) [OF bg, of u] by auto
    fix z assume "task_states ?s' u = Some z"
    then show "child z = []" using u t nt begun_okD(5) [OF bg, of u z] by (cases "u = ?n") (auto simp: spawned_def split: if_splits)
  qed
  then have inv': "cr_inv ?s' ?o (insert c (insert k V0)) (insert c (insert k A))"
    using om tk' hb' by (simp add: cr_inv_def cr_orders_def)
  have len: "length (?o w) \<le> length (ord w) + 3" for w
  proof -
    have am0: "fst a \<in> set (ord0 English)" "snd a \<in> set (ord0 Hebrew)" using strands_okD [OF st0 aV0 aV0] by simp_all
    have "length (?o w) = length (ord0 w) + 2"
      using am0 by (cases w) (simp_all add: forked_def length_insert_after set_insert_after)
    then show ?thesis using length_grown [OF g am, of w] by simp
  qed
  have ya: "y \<noteq> a" using ay strands_irrefl [OF st0] by (auto simp: series_def)
  have new_old: "series ?o x e \<longleftrightarrow> seen ord x a" "par ?o x e \<longleftrightarrow> par ord x a" if "x \<in> V" "e \<in> {c, k}" for x e
  proof -
    have xV0: "x \<in> V0" using that(1) VV by blast
    have "series ?o x e \<longleftrightarrow> seen ord0 x a"
      using like_seen [OF f(2) st0 aV0 f(6,9) xV0] like_seen [OF f(2) st0 aV0 f(7,10) xV0] that(2) by blast
    then show "series ?o x e \<longleftrightarrow> seen ord x a" using extends_seen [OF ex st that(1) aV] by simp
    show "par ?o x e \<longleftrightarrow> par ord x a"
    proof (cases "x = a")
      case True
      have "\<not> par ?o a e" using f(6,7) that(2) by (auto simp: par_def series_def)
      moreover have "\<not> par ord a a" using not_par [OF st aV aV] by blast
      ultimately show ?thesis using True by simp
    next
      case False
      have "par ?o x e \<longleftrightarrow> par ?o x a" using likeD(3) [OF f(9) xV0 False] likeD(3) [OF f(10) xV0 False] that(2) by blast
      then show ?thesis using extends_rel(2) [OF f(2) st0 xV0 aV0] extends_rel(2) [OF ex st that(1) aV] by simp
    qed
  qed
  have "series ?o c y" "series ?o k y"
    using likeD(1) [OF f(9) VV(2) ya] likeD(1) [OF f(10) VV(2) ya] ay extends_rel(1) [OF f(2) st0 aV0 VV(2)] by simp_all
  moreover have "c \<notin> V" "k \<notin> V" using f(3,4) VV by blast+
  ultimately have "forks ord ?o V a c k y"
    using orders_extend_trans [OF ex f(2)] f(5-8) new_old by (simp add: forks_def)
  moreover have "V \<subseteq> insert c (insert k V0)" using VV by blast
  ultimately show ?thesis using run inv' len
    by - (rule exI [of _ ?s'], rule exI [of _ ?o], rule exI [of _ "insert c (insert k V0)"], rule exI [of _ y], rule exI [of _ c],
      rule exI [of _ k], simp)
qed

end
