(* ===== verification/CrSteps.thy ===== *)
theory CrSteps
  imports CrRuns
begin

text \<open>
  The other events: a wait makes its task go on after the sync and forgets the tasks below;
  beginning, ending and the flags leave the strands alone.
\<close>

section \<open>A wait\<close>

definition waited :: "tasks \<Rightarrow> nat \<Rightarrow> TaskState \<Rightarrow> tasks" where
  "waited m t x = (m |` (- subtree m (child x)))(t \<mapsto> synced_task x)"

lemma synced_task_fields [simp]:
  "child (synced_task x) = []" "task_parent (synced_task x) = task_parent x" "sync_english (synced_task x) = NULL"
  "syncs_to (synced_task x) y \<longleftrightarrow> False"
  by (auto simp: synced_task_def syncs_to_def)

lemma synced_runs_in: "syncs_to x y \<Longrightarrow> runs_in (synced_task x) b \<longleftrightarrow> b = y"
  by (auto simp: synced_task_def syncs_to_def runs_in_def prod_eq_iff)

lemma subtree_below:
  assumes "m t = Some x"
  shows "subtree m (child x) = {d. (t, d) \<in> (kids m)\<^sup>+}"
proof -
  have "(t, d) \<in> (kids m)\<^sup>+ \<longleftrightarrow> (\<exists>b \<in> set (child x). (b, d) \<in> (kids m)\<^sup>*)" for d
    using assms by (auto simp: kids_def trancl_unfold_left)
  then show ?thesis by (auto simp: subtree_def)
qed

lemma below_irrefl:
  assumes fam: "family m"
  shows "(t, t) \<notin> (kids m)\<^sup>+"
proof
  assume "(t, t) \<in> (kids m)\<^sup>+"
  then obtain u where "(t, u) \<in> (kids m)\<^sup>*" "(u, t) \<in> kids m" by (meson tranclD2)
  then show False using kids_le [OF fam] kids_parent [OF fam] by (meson leD)
qed

lemma waited_tables:
  assumes fam: "family m" and x: "m t = Some x" and D: "D = {d. (t, d) \<in> (kids m)\<^sup>+}"
  shows "kids (waited m t x) = {(u, v) \<in> kids m. u \<notin> insert t D}"
    "pend_at (waited m t x) = (\<lambda>u z. u \<notin> insert t D \<and> pend_at m u z)"
    "syncs_to x y \<Longrightarrow> cur_at (waited m t x) = (\<lambda>u b. u \<notin> D \<and> (if u = t then b = y else cur_at m u b))"
proof -
  have tD: "t \<notin> D" using below_irrefl [OF fam] D by blast
  have sub: "subtree m (child x) = D" using subtree_below [where m = m, OF x] D by simp
  have m': "waited m t x t = Some (synced_task x)" "\<And>u. u \<noteq> t \<Longrightarrow> u \<in> D \<Longrightarrow> waited m t x u = None"
    "\<And>u. u \<noteq> t \<Longrightarrow> u \<notin> D \<Longrightarrow> waited m t x u = m u" by (simp_all add: waited_def sub)
  have "(u, v) \<in> kids (waited m t x) \<longleftrightarrow> (u, v) \<in> kids m \<and> u \<notin> insert t D" for u v
    using m' by (cases "u = t"; cases "u \<in> D") (simp_all add: kids_def)
  then show "kids (waited m t x) = {(u, v) \<in> kids m. u \<notin> insert t D}" by auto
  have "pend_at (waited m t x) u z \<longleftrightarrow> u \<notin> insert t D \<and> pend_at m u z" for u z
    using m' by (cases "u = t"; cases "u \<in> D") (simp_all add: pend_at_def)
  then show "pend_at (waited m t x) = (\<lambda>u z. u \<notin> insert t D \<and> pend_at m u z)" by blast
  assume y: "syncs_to x y"
  have "cur_at (waited m t x) u b \<longleftrightarrow> u \<notin> D \<and> (if u = t then b = y else cur_at m u b)" for u b
    using m' tD synced_runs_in [OF y] by (cases "u = t"; cases "u \<in> D") (simp_all add: cur_at_def)
  then show "cur_at (waited m t x) = (\<lambda>u b. u \<notin> D \<and> (if u = t then b = y else cur_at m u b))" by blast
qed

lemma waited_tasks_ok:
  assumes ok: "tasks_ok m n" and x: "m t = Some x" and y: "syncs_to x y"
  shows "tasks_ok (waited m t x) n"
proof -
  define D where "D = {d. (t, d) \<in> (kids m)\<^sup>+}"
  note fam = tasks_okD(1) [OF ok]
  have tD: "t \<notin> D" using below_irrefl [OF fam] D_def by blast
  have sub: "subtree m (child x) = D" using subtree_below [where m = m, OF x] D_def by simp
  have m': "waited m t x t = Some (synced_task x)" "\<And>u. u \<noteq> t \<Longrightarrow> u \<in> D \<Longrightarrow> waited m t x u = None"
    "\<And>u. u \<noteq> t \<Longrightarrow> u \<notin> D \<Longrightarrow> waited m t x u = m u" by (simp_all add: waited_def sub)
  note kd = waited_tables(1) [OF fam x D_def]
  have down: "v \<in> D" if "(u, v) \<in> kids m" "u \<in> insert t D" for u v using that D_def by (auto intro: trancl_into_trancl)
  have up: "v \<notin> D" if "(u, v) \<in> kids m" "u \<notin> insert t D" for u v
  proof
    assume "v \<in> D"
    then obtain w where "(t, w) \<in> (kids m)\<^sup>*" "(w, v) \<in> kids m" using D_def by (auto dest: tranclD2)
    moreover from this have "w = u" using kids_unique [OF fam _ that(1)] by blast
    ultimately show False using that(2) D_def by (auto simp: rtrancl_eq_or_trancl)
  qed
  have "family (waited m t x)"
    unfolding family_def
  proof (intro allI impI)
    fix a z assume z: "waited m t x a = Some z"
    show "distinct (child z) \<and> (\<forall>b \<in> set (child z). a < b \<and> (\<exists>y. waited m t x b = Some y \<and> task_parent y = Some a))"
    proof (cases "a = t")
      case True
      then show ?thesis using z m'(1) by auto
    next
      case False
      have aD: "a \<notin> D" using z m'(2) [OF False] by auto
      have mz: "m a = Some z" using z m'(3) [OF False aD] by simp
      have "\<exists>y. waited m t x b = Some y \<and> task_parent y = Some a" if b: "b \<in> set (child z)" for b
      proof -
        have "(a, b) \<in> kids m" using mz b by (auto simp: kids_def)
        then have "b \<notin> D" using up False aD by blast
        moreover obtain w where "m b = Some w" "task_parent w = Some a" using familyD(3) [OF fam mz b] by (elim exE conjE) simp
        ultimately show ?thesis using m'(1) m'(3) [of b] x by (cases "b = t") auto
      qed
      then show ?thesis using familyD(1,2) [OF fam mz] by blast
    qed
  qed
  moreover have "u < n \<and> task_ok (waited m t x) u z" if z: "waited m t x u = Some z" for u z
  proof -
    have uD: "u \<notin> D" using z m'(2) [of u] tD by (cases "u = t") auto
    obtain w where w: "m u = Some w" "task_parent z = task_parent w" "u \<noteq> t \<Longrightarrow> z = w"
      using z m'(1) m'(3) [OF _ uD] x by (cases "u = t") auto
    have tw: "u < n" "task_ok m u w" using tasks_okD(2,3) [OF ok w(1)] by simp_all
    have "\<exists>a. runs_in z a"
    proof (cases "u = t")
      case True
      then have "runs_in z y" using z m'(1) synced_runs_in [OF y] by simp
      then show ?thesis by blast
    qed (use tw(2) w(3) in \<open>simp add: task_ok_def\<close>)
    moreover have "sync_english z = NULL \<and> child z = [] \<or> (\<exists>y. syncs_to z y)"
    proof (cases "u = t")
      case True
      then have "z = synced_task x" using z m'(1) by simp
      then show ?thesis by simp
    qed (use tw(2) w(3) in \<open>simp add: task_ok_def\<close>)
    moreover have "(p, u) \<in> kids (waited m t x)" if p: "task_parent z = Some p" for p
    proof -
      have "(p, u) \<in> kids m" using tw(2) w(2) p by (simp add: task_ok_def)
      then show ?thesis using kd down uD by blast
    qed
    ultimately show ?thesis using tw(1) by (simp add: task_ok_def)
  qed
  ultimately show ?thesis by (simp add: tasks_ok_def)
qed

lemma begun_ok_upd:
  assumes "begun_ok s" "\<And>c z. c \<in> ran (temp_cur_map s) \<Longrightarrow> m' c = Some z \<Longrightarrow> child z = [] \<or> task_states s c = Some z"
  shows "begun_ok (s\<lparr>task_states := m'\<rparr>)"
  using assms unfolding begun_ok_def by fastforce

lemma quiet_begun:
  assumes "begun_ok s" "quiet (task_states s) m'"
  shows "begun_ok (s\<lparr>task_states := m'\<rparr>)"
  using assms(1) quietE [OF assms(2)] unfolding begun_ok_def by simp metis

lemma quiet_inv:
  assumes inv: "cr_inv s ord V A" and q: "quiet (task_states s) m'"
  shows "cr_inv (s\<lparr>task_states := m'\<rparr>) ord V A"
  using cr_invD [OF inv] quiet_begun [OF _ q] quiet_tasks_ok [OF q] quiet_same [OF q] by (simp add: cr_inv_def cr_orders_def)

lemma wait_ok:
  assumes inv: "cr_inv s ord V A" and x: "task_states s t = Some x"
  shows "Capturewait_for_all s t = Some (s\<lparr>task_states := waited (task_states s) t x\<rparr>)"
    "syncs_to x y \<Longrightarrow> cr_inv (s\<lparr>task_states := waited (task_states s) t x\<rparr>) ord V (insert y A)"
    "\<not> (\<exists>y. syncs_to x y) \<Longrightarrow> quiet (task_states s) (waited (task_states s) t x)"
proof -
  note tk = cr_invD(2) [OF inv] and bg = cr_invD(3) [OF inv] and hb = cr_invD(4) [OF inv]
  note fam = tasks_okD(1) [OF tk]
  let ?m = "task_states s"
  have N: "\<forall>a \<in> dom ?m. a < next_task s" using tasks_okD(2) [OF tk] by blast
  show "Capturewait_for_all s t = Some (s\<lparr>task_states := waited ?m t x\<rparr>)"
    unfolding waited_def by (rule Capturewait_for_all_ok [OF fam N x])
  define D where "D = {d. (t, d) \<in> (kids ?m)\<^sup>+}"
  note tabs = waited_tables [OF fam x D_def]
  {
    assume y: "syncs_to x y"
    have "pend_at ?m t y" using x y by (auto simp: pend_at_def)
    from hb_wait [OF hb fam this D_def]
    have "hb_ok ord V (insert y A) (cur_at (waited ?m t x)) (pend_at (waited ?m t x)) (kids (waited ?m t x))"
      unfolding tabs(1,2) tabs(3) [OF y] .
    moreover have "begun_ok (s\<lparr>task_states := waited ?m t x\<rparr>)"
      by (rule begun_ok_upd [OF bg]) (auto simp: waited_def restrict_map_def split: if_splits)
    ultimately show "cr_inv (s\<lparr>task_states := waited ?m t x\<rparr>) ord V (insert y A)"
      using cr_invD(1) [OF inv] waited_tasks_ok [OF tk x y] by (simp add: cr_inv_def cr_orders_def)
  next
    assume "\<not> (\<exists>y. syncs_to x y)"
    then have s: "sync_english x = NULL" "child x = []" using tasks_okD(3) [OF tk x] by (simp_all add: task_ok_def)
    then have "waited ?m t x = ?m(t \<mapsto> synced_task x)" by (simp add: waited_def restrict_map_def)
    moreover have "quiet ?m (?m(t \<mapsto> synced_task x))" using s by (intro quiet_upd [where m = "task_states s", OF x]) (simp add: task_view_def synced_task_def)
    ultimately show "quiet ?m (waited ?m t x)" by simp
  }
qed

end
