(* ===== verification/CrDetect.thy ===== *)
theory CrDetect
  imports CrSteps
begin

text \<open>
  The accesses of a run and what the detector remembers of them.  The log keeps, with every
  access, the earlier accesses its task had seen: its own, those of the task that spawned it
  up to the spawn, and after a wait those of the tasks waited for.  This relation is defined
  on the events alone; the detector decides it by the two orders.
\<close>

section \<open>The log of a run\<close>

record cr_entry =
  e_strand :: strand
  e_addr :: ADDRINT
  e_kind :: AccessType
  e_past :: "nat set"

record cr_ghost =
  g_past :: "nat \<Rightarrow> nat set"
  g_log :: "cr_entry list"

definition cr_ghost_init :: cr_ghost where
  "cr_ghost_init = \<lparr>g_past = (\<lambda>_. {}), g_log = []\<rparr>"

definition running :: "TaskState \<Rightarrow> strand" where
  "running x = (the (current_english x), the (current_hebrew x))"

definition children_of :: "cracer \<Rightarrow> nat \<Rightarrow> nat list" where
  "children_of s t = (case task_states s t of None \<Rightarrow> [] | Some x \<Rightarrow> child x)"

definition cr_ghost_step :: "cracer \<Rightarrow> cr_ghost \<Rightarrow> cr_event \<Rightarrow> cr_ghost" where
  "cr_ghost_step s g e =
     (case e of
        CrSpawn th task of_this \<Rightarrow>
          (case cur s th of [] \<Rightarrow> g | u # _ \<Rightarrow> g\<lparr>g_past := (g_past g)(next_task s := g_past g u)\<rparr>)
      | CrWait t \<Rightarrow>
          g\<lparr>g_past := (g_past g)(t := g_past g t \<union> \<Union> (g_past g ` subtree (task_states s) (children_of s t)))\<rparr>
      | CrAccess th a k \<Rightarrow>
          (case cur s th of
             [] \<Rightarrow> g
           | t # _ \<Rightarrow>
             (case task_states s t of
                None \<Rightarrow> g
              | Some x \<Rightarrow>
                g\<lparr>g_past := (g_past g)(t := insert (length (g_log g)) (g_past g t)),
                  g_log := g_log g @ [\<lparr>e_strand = running x, e_addr = a, e_kind = k, e_past = g_past g t\<rparr>]\<rparr>))
      | _ \<Rightarrow> g)"

definition cr_traced :: "(nat \<Rightarrow> label_t) \<Rightarrow> cracer \<times> cr_ghost \<Rightarrow> cr_event \<Rightarrow> (cracer \<times> cr_ghost) option" where
  "cr_traced shl1 p e = do { s \<leftarrow> cr_step shl1 (fst p) e; Some (s, cr_ghost_step (fst p) (snd p) e) }"

text \<open>Two accesses of one address, one a write, in parallel strands.\<close>

definition strand_at :: "cr_entry list \<Rightarrow> nat \<Rightarrow> strand" where
  "strand_at l i = e_strand (l ! i)"

definition conflict :: "cr_entry list \<Rightarrow> ADDRINT \<Rightarrow> nat \<Rightarrow> nat \<Rightarrow> bool" where
  "conflict l a i j \<longleftrightarrow>
     i < j \<and> j < length l \<and> e_addr (l ! i) = a \<and> e_addr (l ! j) = a \<and> (e_kind (l ! i) = WRITE \<or> e_kind (l ! j) = WRITE)"

definition strands_at :: "cr_entry list \<Rightarrow> ADDRINT \<Rightarrow> AccessType \<Rightarrow> strand set" where
  "strands_at l a k = e_strand ` {e \<in> set l. e_addr e = a \<and> e_kind e = k}"

lemma strands_at_Nil [simp]: "strands_at [] a k = {}"
  by (simp add: strands_at_def)

lemma strands_at_snoc: "strands_at (l @ [e]) a k = (if e_addr e = a \<and> e_kind e = k then insert (e_strand e) (strands_at l a k) else strands_at l a k)"
  by (auto simp: strands_at_def)

lemma strands_at_index: "b \<in> strands_at l a k \<longleftrightarrow> (\<exists>i < length l. e_addr (l ! i) = a \<and> e_kind (l ! i) = k \<and> strand_at l i = b)"
  unfolding strands_at_def strand_at_def by (simp add: image_iff in_set_conv_nth) metis

section \<open>The invariant\<close>

text \<open>Later accesses are not before earlier ones.\<close>

definition log_ok :: "orders \<Rightarrow> strand set \<Rightarrow> cr_entry list \<Rightarrow> bool" where
  "log_ok ord A l \<longleftrightarrow>
     (\<forall>i < length l. strand_at l i \<in> A) \<and> (\<forall>j < length l. \<forall>i < j. \<not> series ord (strand_at l j) (strand_at l i))"

text \<open>An address without a report has no race so far; a report names the kinds of a racing pair.\<close>

definition addr_ok :: "orders \<Rightarrow> cr_entry list \<Rightarrow> ADDRINT \<Rightarrow> violation option \<Rightarrow> VarState option \<Rightarrow> bool" where
  "addr_ok ord l a r v \<longleftrightarrow>
     (case r of
        None \<Rightarrow> (\<forall>i j. conflict l a i j \<longrightarrow> \<not> par ord (strand_at l i) (strand_at l j)) \<and>
          (case v of
             None \<Rightarrow> strands_at l a READ = {} \<and> strands_at l a WRITE = {}
           | Some v \<Rightarrow> var_ok ord v (strands_at l a READ) (strands_at l a WRITE))
      | Some r \<Rightarrow> \<exists>i j. conflict l a i j \<and> par ord (strand_at l i) (strand_at l j) \<and>
          e_kind (l ! i) = v_accessType (v_a1 r) \<and> e_kind (l ! j) = v_accessType (v_a2 r))"

definition det_ok :: "orders \<Rightarrow> cracer \<Rightarrow> cr_entry list \<Rightarrow> bool" where
  "det_ok ord s l \<longleftrightarrow> (\<forall>a. addr_ok ord l a (violations s a) (var_map s a))"

text \<open>What a task has seen are the accesses in or before its strand.\<close>

definition cr_past_ok :: "orders \<Rightarrow> strand_of \<Rightarrow> cr_ghost \<Rightarrow> bool" where
  "cr_past_ok ord C g \<longleftrightarrow>
     (\<forall>t. g_past g t \<subseteq> {..<length (g_log g)}) \<and>
     (\<forall>t a. C t a \<longrightarrow> (\<forall>i < length (g_log g). i \<in> g_past g t \<longleftrightarrow> seen ord (strand_at (g_log g) i) a)) \<and>
     (\<forall>j < length (g_log g). \<forall>i < j. i \<in> e_past (g_log g ! j) \<longleftrightarrow> seen ord (strand_at (g_log g) i) (strand_at (g_log g) j))"

section \<open>More strands change nothing\<close>

lemma last_in_extends:
  assumes "\<forall>x \<in> f ` R. \<forall>y \<in> f ` R. before xs' x y = before xs x y"
  shows "last_in xs' f R l \<longleftrightarrow> last_in xs f R l"
  using assms by (auto simp: last_in_def)

lemma var_ok_extends:
  assumes ex: "extends ord ord'" and st: "strands_ok ord V" and sub: "R \<subseteq> V" "W \<subseteq> V"
  shows "var_ok ord' v R W \<longleftrightarrow> var_ok ord v R W"
proof -
  have m: "fst ` R \<subseteq> set (ord English)" "snd ` R \<subseteq> set (ord Hebrew)" using st sub(1) unfolding strands_ok_def by blast+
  have b: "before (ord' w) x y = before (ord w) x y" if "x \<in> set (ord w)" "y \<in> set (ord w)" for w x y
    using ex that unfolding extends_def by blast
  have l: "last_in (ord' Hebrew) snd R l \<longleftrightarrow> last_in (ord Hebrew) snd R l" for l
    by (rule last_in_extends) (use b m(2) in blast)
  have r: "last_in (ord' English) fst R l \<longleftrightarrow> last_in (ord English) fst R l" for l
    by (rule last_in_extends) (use b m(1) in blast)
  have "(\<forall>x \<in> W. x = w \<or> series ord' x w) \<longleftrightarrow> (\<forall>x \<in> W. x = w \<or> series ord x w)" if "w \<in> W" for w
    using extends_rel(1) [OF ex st _] sub(2) that by blast
  then have "(\<exists>w. writer v = Some (acc w) \<and> w \<in> W \<and> (\<forall>x \<in> W. x = w \<or> series ord' x w)) \<longleftrightarrow>
      (\<exists>w. writer v = Some (acc w) \<and> w \<in> W \<and> (\<forall>x \<in> W. x = w \<or> series ord x w))" by blast
  then show ?thesis unfolding var_ok_def l r by simp
qed

lemma strands_at_sub:
  assumes "log_ok ord A l"
  shows "strands_at l a k \<subseteq> A"
proof
  fix b assume "b \<in> strands_at l a k"
  then obtain i where "i < length l" "strand_at l i = b" unfolding strands_at_index by metis
  then show "b \<in> A" using assms unfolding log_ok_def by metis
qed

lemma extends_logs:
  assumes ex: "extends ord ord'" and st: "strands_ok ord V" and A: "A \<subseteq> V" and l: "log_ok ord A l"
  shows "A \<subseteq> A' \<Longrightarrow> log_ok ord' A' l" "det_ok ord s l \<Longrightarrow> det_ok ord' s l"
proof -
  have m: "strand_at l i \<in> V" if "i < length l" for i using that l A unfolding log_ok_def by blast
  show "log_ok ord' A' l" if "A \<subseteq> A'"
    unfolding log_ok_def
  proof (intro conjI allI impI)
    show "strand_at l i \<in> A'" if "i < length l" for i using that \<open>A \<subseteq> A'\<close> l unfolding log_ok_def by blast
    fix j i assume j: "j < length l" and i: "i < j"
    have "\<not> series ord (strand_at l j) (strand_at l i)" using l i j unfolding log_ok_def by blast
    then show "\<not> series ord' (strand_at l j) (strand_at l i)" using extends_rel(1) [OF ex st m m] i j by simp
  qed
  have p: "conflict l a i j \<Longrightarrow> par ord' (strand_at l i) (strand_at l j) \<longleftrightarrow> par ord (strand_at l i) (strand_at l j)" for a i j
    using extends_rel(2) [OF ex st m m] by (simp add: conflict_def)
  have v: "var_ok ord' v (strands_at l a READ) (strands_at l a WRITE) \<longleftrightarrow> var_ok ord v (strands_at l a READ) (strands_at l a WRITE)" for v a
    using var_ok_extends [OF ex st] strands_at_sub [OF l] A by (meson order.trans)
  have "addr_ok ord l a r v \<longleftrightarrow> addr_ok ord' l a r v" for a r v
  proof (cases r)
    case None
    then show ?thesis using p v by (cases v) (simp_all add: addr_ok_def)
  next
    case (Some q)
    have "conflict l a i j \<and> par ord (strand_at l i) (strand_at l j) \<longleftrightarrow> conflict l a i j \<and> par ord' (strand_at l i) (strand_at l j)" for i j
      using p by blast
    then show ?thesis using Some by (simp add: addr_ok_def flip: conj_assoc)
  qed
  then show "det_ok ord s l \<Longrightarrow> det_ok ord' s l" by (simp add: det_ok_def)
qed

section \<open>An access\<close>

lemma conflict_snoc:
  "conflict (l @ [e]) a i j \<longleftrightarrow> conflict l a i j \<or>
    j = length l \<and> i < length l \<and> e_addr (l ! i) = a \<and> e_addr e = a \<and> (e_kind (l ! i) = WRITE \<or> e_kind e = WRITE)"
  by (auto simp: conflict_def nth_append)

lemma strand_snoc: "i < length l \<Longrightarrow> strand_at (l @ [e]) i = strand_at l i" "strand_at (l @ [e]) (length l) = e_strand e"
  by (simp_all add: strand_at_def nth_append)

lemma log_ok_snoc:
  assumes "log_ok ord A l" "e_strand e \<in> A" "\<forall>x \<in> A. \<not> series ord (e_strand e) x"
  shows "log_ok ord A (l @ [e])"
  unfolding log_ok_def
proof (intro conjI allI impI)
  show "strand_at (l @ [e]) i \<in> A" if "i < length (l @ [e])" for i
    using that assms(1,2) by (cases "i < length l") (auto simp: strand_snoc log_ok_def less_Suc_eq)
  fix j i assume j: "j < length (l @ [e])" and i: "i < j"
  show "\<not> series ord (strand_at (l @ [e]) j) (strand_at (l @ [e]) i)"
    using j i assms by (cases "j < length l") (auto simp: strand_snoc log_ok_def less_Suc_eq)
qed

text \<open>The new entry races with the earlier conflicting ones in parallel strands.\<close>

lemma addr_ok_reported:
  assumes "addr_ok ord l a (Some r) v"
  shows "addr_ok ord (l @ [e]) a (Some r) v'"
proof -
  from assms obtain i j where c: "conflict l a i j" "par ord (strand_at l i) (strand_at l j)"
    "e_kind (l ! i) = v_accessType (v_a1 r)" "e_kind (l ! j) = v_accessType (v_a2 r)" by (auto simp: addr_ok_def)
  then have "i < length l" "j < length l" by (simp_all add: conflict_def)
  then have "conflict (l @ [e]) a i j \<and> par ord (strand_at (l @ [e]) i) (strand_at (l @ [e]) j) \<and>
      e_kind ((l @ [e]) ! i) = v_accessType (v_a1 r) \<and> e_kind ((l @ [e]) ! j) = v_accessType (v_a2 r)"
    using c by (simp add: conflict_snoc strand_snoc nth_append)
  then show ?thesis unfolding addr_ok_def option.case by blast
qed

lemma addr_ok_other:
  assumes "addr_ok ord l a r v" "e_addr e \<noteq> a"
  shows "addr_ok ord (l @ [e]) a r v"
proof -
  have c: "conflict (l @ [e]) a i j \<longleftrightarrow> conflict l a i j" for i j using assms(2) by (simp add: conflict_snoc)
  show ?thesis
  proof (cases r)
    case None
    have "\<not> par ord (strand_at (l @ [e]) i) (strand_at (l @ [e]) j)" if "conflict l a i j" for i j
    proof -
      have "i < length l" "j < length l" using that by (simp_all add: conflict_def)
      then show ?thesis using that assms(1) None by (simp add: addr_ok_def strand_snoc)
    qed
    then show ?thesis using assms None unfolding addr_ok_def c by (cases v) (simp_all add: strands_at_snoc)
  next
    case (Some q)
    then show ?thesis using assms(1) addr_ok_reported by blast
  qed
qed

lemma addr_ok_report:
  assumes e: "e_addr e = a" and x: "x \<in> strands_at l a k" "par ord x (e_strand e)" "k = WRITE \<or> e_kind e = WRITE"
    and r: "v_accessType (v_a1 r) = k" "v_accessType (v_a2 r) = e_kind e"
  shows "addr_ok ord (l @ [e]) a (Some r) v"
proof -
  obtain i where i: "i < length l" "e_addr (l ! i) = a" "e_kind (l ! i) = k" "strand_at l i = x"
    using x(1) strands_at_index by blast
  then have "conflict (l @ [e]) a i (length l) \<and> par ord (strand_at (l @ [e]) i) (strand_at (l @ [e]) (length l)) \<and>
      e_kind ((l @ [e]) ! i) = v_accessType (v_a1 r) \<and> e_kind ((l @ [e]) ! length l) = v_accessType (v_a2 r)"
    using e x r by (simp add: conflict_snoc strand_snoc nth_append)
  then show ?thesis unfolding addr_ok_def option.case by blast
qed

lemma addr_ok_quiet:
  assumes ok: "addr_ok ord l a None v0" and e: "e_addr e = a"
    and no: "\<forall>x \<in> strands_at l a WRITE. \<not> par ord x (e_strand e)" "e_kind e = WRITE \<Longrightarrow> \<forall>x \<in> strands_at l a READ. \<not> par ord x (e_strand e)"
    and v: "var_ok ord v (if e_kind e = READ then insert (e_strand e) (strands_at l a READ) else strands_at l a READ)
      (if e_kind e = WRITE then insert (e_strand e) (strands_at l a WRITE) else strands_at l a WRITE)"
  shows "addr_ok ord (l @ [e]) a None (Some v)"
proof -
  have "\<not> par ord (strand_at (l @ [e]) i) (strand_at (l @ [e]) j)" if c: "conflict (l @ [e]) a i j" for i j
  proof (cases "conflict l a i j")
    case True
    then have "i < length l" "j < length l" by (simp_all add: conflict_def)
    then show ?thesis using ok True by (simp add: addr_ok_def strand_snoc)
  next
    case False
    then have i: "j = length l" "i < length l" "e_addr (l ! i) = a" "e_kind (l ! i) = WRITE \<or> e_kind e = WRITE"
      using c by (auto simp: conflict_snoc)
    then have "strand_at l i \<in> strands_at l a (e_kind (l ! i))" using strands_at_index by blast
    then have "\<not> par ord (strand_at l i) (e_strand e)" using no i(4) by (cases "e_kind (l ! i)") auto
    then show ?thesis using i(1,2) by (simp add: strand_snoc)
  qed
  moreover have "strands_at (l @ [e]) a k = (if e_kind e = k then insert (e_strand e) (strands_at l a k) else strands_at l a k)" for k
    using e by (simp add: strands_at_snoc)
  ultimately show ?thesis using v by (simp add: addr_ok_def)
qed

end
