(* ===== verification/CrTrace.thy ===== *)
theory CrTrace
  imports CrDetect
begin

text \<open>
  Every event of a run keeps the invariants of \<open>CrRuns\<close> and \<open>CrDetect\<close>; an access always
  returns, and so do spawns and waits of live tasks.
\<close>

section \<open>An access\<close>

definition same_tasks :: "cracer \<Rightarrow> cracer \<Rightarrow> bool" where
  "same_tasks s s' \<longleftrightarrow> om_st s' = om_st s \<and> task_states s' = task_states s \<and> next_task s' = next_task s \<and> cur s' = cur s \<and>
     temp_cur_map s' = temp_cur_map s"

lemma same_tasks_inv: "cr_inv s ord V A \<Longrightarrow> same_tasks s s' \<Longrightarrow> cr_inv s' ord V A"
  by (simp add: same_tasks_def cr_inv_def cr_orders_def begun_ok_def)

lemma det_ok_upd:
  assumes d: "det_ok ord s l" and e: "e_addr e = a" and a: "addr_ok ord (l @ [e]) a (violations s' a) (var_map s' a)"
    and o: "\<And>b. b \<noteq> a \<Longrightarrow> violations s' b = violations s b \<and> var_map s' b = var_map s b"
  shows "det_ok ord s' (l @ [e])"
  unfolding det_ok_def
proof
  fix b
  show "addr_ok ord (l @ [e]) b (violations s' b) (var_map s' b)"
  proof (cases "b = a")
    case True
    then show ?thesis using a by simp
  next
    case False
    then show ?thesis using d e o [OF False] by (simp add: det_ok_def addr_ok_other)
  qed
qed

lemma running_eq: "runs_in x b \<Longrightarrow> running x = b"
  by (simp add: runs_in_def running_def)

lemma access_ok:
  assumes inv: "cr_inv s ord V A" and l: "log_ok ord A l" and d: "det_ok ord s l"
    and t: "cur s th = t # ts" "task_states s t = Some x" "runs_in x b"
    and e: "e = \<lparr>e_strand = b, e_addr = a, e_kind = k, e_past = p\<rparr>"
  shows "\<exists>s'. RecordMem s th a k = Some s' \<and> same_tasks s s' \<and> det_ok ord s' (l @ [e])"
proof (cases "violations s a")
  case (Some r)
  have "addr_ok ord l a (Some r) (var_map s a)" using d Some unfolding det_ok_def by metis
  then have "det_ok ord s (l @ [e])" using d e Some addr_ok_reported by (intro det_ok_upd [where a = a]) simp_all
  moreover have "RecordMem s th a k = Some s" using Some by (simp add: RecordMem_def)
  ultimately show ?thesis by (auto simp: same_tasks_def)
next
  case None
  note o = cr_invD(1) [OF inv] and hb = cr_invD(4) [OF inv]
  note st = hb_strands [OF hb]
  let ?R = "strands_at l a READ" and ?W = "strands_at l a WRITE"
  have C: "cur_at (task_states s) t b" using t by (auto simp: cur_at_def)
  have bV: "b \<in> V" using hb_cur_in [OF hb C] hb_sub [OF hb] by blast
  have sub: "?R \<subseteq> V" "?W \<subseteq> V" using strands_at_sub [OF l] hb_sub [OF hb] by blast+
  have past: "\<forall>y \<in> ?R \<union> ?W. \<not> series ord b y" using strands_at_sub [OF l] hb_cur_last [OF hb C] by blast
  have ea: "e_addr e = a" "e_strand e = b" "e_kind e = k" using e by simp_all
  have cx: "current_english x = Some (fst b)" "current_hebrew x = Some (snd b)" using t(3) by (simp_all add: runs_in_def)
  have ad: "addr_ok ord l a None (var_map s a)" using d None unfolding det_ok_def by metis
  have fin: ?thesis if run: "RecordMem s th a k = Some s'" and a': "addr_ok ord (l @ [e]) a (violations s' a) (var_map s' a)"
    and fr: "s' = s\<lparr>var_map := (var_map s)(a \<mapsto> v), violations := vio\<rparr>" "\<And>c. c \<noteq> a \<Longrightarrow> vio c = violations s c" for s' v vio
  proof -
    have "det_ok ord s' (l @ [e])" by (rule det_ok_upd [OF d ea(1) a']) (simp add: fr)
    then show ?thesis using run by (auto simp: same_tasks_def fr(1))
  qed
  show ?thesis
  proof (cases "var_map s a")
    case v: None
    let ?v = "new_VarState (k = READ) (Some (fst b)) (Some (snd b))"
    have RW: "?R = {}" "?W = {}" using ad v by (simp_all add: addr_ok_def)
    have "RecordMem s th a k = Some (s\<lparr>var_map := (var_map s)(a \<mapsto> ?v), violations := violations s\<rparr>)"
      using None t(1,2) v cx by (simp add: RecordMem_def)
    moreover have "var_ok ord ?v (if k = READ then {b} else {}) (if k = WRITE then {b} else {})"
      using new_var_ok [of ord "k = READ" b] by (cases k) simp_all
    then have "addr_ok ord (l @ [e]) a None (Some ?v)" by (cases k; intro addr_ok_quiet [OF ad ea(1)]) (simp_all add: RW ea)
    ultimately show ?thesis using None by (intro fin) simp_all
  next
    case v: (Some v)
    have vo: "var_ok ord v ?R ?W" using ad v by (simp add: addr_ok_def)
    define upd where "upd = (\<lambda>v'. s\<lparr>var_map := (var_map s)(a \<mapsto> v')\<rparr>)"
    obtain race v' where acc: "(if k = READ then read_access s v (Some (fst b)) (Some (snd b)) else write_access s v (Some (fst b)) (Some (snd b))) =
        Some (race, v')"
      and race: "race = (if \<exists>y \<in> ?W. par ord y b then Some WRITE else if k = WRITE \<and> (\<exists>y \<in> ?R. par ord y b) then Some READ else None)"
      and ok: "race = None \<Longrightarrow> var_ok ord v' (if k = READ then insert b ?R else ?R) (if k = WRITE then insert b ?W else ?W)"
    proof (cases k)
      case READ
      then show thesis using read_access_ok [OF o st sub bV past vo] that by (auto split: if_splits)
    next
      case WRITE
      then show thesis using write_access_ok [OF o st sub bV past vo] that by (auto split: if_splits)
    qed
    have run: "RecordMem s th a k = Some (case race of None \<Rightarrow> upd v' | Some f \<Rightarrow> error (upd v') a 0 f (tid x) k)"
      using None t(1,2) v cx acc by (cases race) (simp_all add: RecordMem_def upd_def Let_def cong: bind_weak_cong)
    show ?thesis
    proof (cases race)
      case n: None
      have "addr_ok ord (l @ [e]) a None (Some v')"
        using race n ok [OF n] by (intro addr_ok_quiet [OF ad ea(1)]) (auto simp: ea split: if_splits)
      then show ?thesis using None run n by (intro fin [where v = v' and vio = "violations s"]) (simp_all add: upd_def)
    next
      case (Some f)
      let ?r = "\<lparr>v_a1 = \<lparr>v_tid = 0, v_accessType = f\<rparr>, v_a2 = \<lparr>v_tid = tid x, v_accessType = k\<rparr>\<rparr>"
      have "\<exists>y \<in> strands_at l a f. par ord y b \<and> (f = WRITE \<or> k = WRITE)" using race Some by (auto split: if_splits)
      then have "addr_ok ord (l @ [e]) a (Some ?r) (Some v')" by (auto intro: addr_ok_report [OF ea(1)] simp: ea)
      moreover have "error (upd v') a 0 f (tid x) k = s\<lparr>var_map := (var_map s)(a \<mapsto> v'), violations := (violations s)(a \<mapsto> ?r)\<rparr>"
        using None by (simp add: error_def upd_def map_insert_fresh)
      ultimately show ?thesis using run Some by (intro fin [where v = v' and vio = "(violations s)(a \<mapsto> ?r)"]) simp_all
    qed
  qed
qed

section \<open>A spawn\<close>

lemma spawned_cur:
  "t \<noteq> n \<Longrightarrow> cur_at (spawned m n t x y c k i j) u b \<longleftrightarrow> (if u = t then b = k else if u = n then b = c else cur_at m u b)"
  by (simp add: cur_at_def spawned_def)

text \<open>The task whose strands a spawn forks: the spawning one or its parent.\<close>

lemma spawn_forks:
  assumes inv: "cr_inv s ord V A" and r: "room_for 6 ord" "shl_ok shl1"
    and u: "cur s th = u # us" "task_states s u = Some xu" and t: "t = (if of_this then u else the (task_parent xu))"
    and p: "of_this \<or> task_parent xu \<noteq> NULL"
  shows "\<exists>x a s' ord' V' y c k. task_states s t = Some x \<and> runs_in x a \<and> spawn shl1 s th task of_this = Some s' \<and>
    cr_inv s' ord' V' (insert c (insert k A)) \<and> V \<subseteq> V' \<and> (\<forall>w. length (ord' w) \<le> length (ord w) + 3) \<and> forks ord ord' V a c k y \<and>
    task_states s' = spawned (task_states s) (next_task s) t x y c k (task_id_ctr s + 1) task \<and>
    var_map s' = var_map s \<and> violations s' = violations s"
proof -
  note tk = cr_invD(2) [OF inv] and bg = cr_invD(3) [OF inv]
  let ?s = "s\<lparr>task_id_ctr := task_id_ctr s + 1\<rparr>"
  have par: "(t, u) \<in> kids (task_states s)" if "\<not> of_this"
    using tasks_okD(3) [OF tk u(2)] that t p by (auto simp: task_ok_def)
  have run: "spawn shl1 s th task of_this = fork_strands shl1 ?s th t (task_id_ctr s + 1) task"
    using u p t by (cases "task_parent xu") (auto simp: spawn_def cur_top_def)
  have "\<exists>x. task_states s t = Some x" using u(2) t par by (cases of_this) (auto simp: kids_def)
  then obtain x where x: "task_states s t = Some x" by blast
  obtain a where a: "runs_in x a" using tasks_okD(3) [OF tk x] unfolding task_ok_def by blast
  have tr: "t \<notin> ran (temp_cur_map ?s)"
  proof (cases of_this)
    case True
    then show ?thesis using begun_okD(2) [OF bg, of u th] u(1) t by simp
  next
    case False
    then have "child x \<noteq> []" using par x by (auto simp: kids_def)
    then show ?thesis using begun_okD(5) [OF bg _ x] by auto
  qed
  have i: "cr_inv ?s ord V A" by (rule same_tasks_inv [OF inv]) (simp add: same_tasks_def)
  have x': "task_states ?s t = Some x" using x by simp
  from fork_ok [OF i r x' a tr, of th "task_id_ctr s + 1" task]
  show ?thesis unfolding run using x a by (simp del: One_nat_def add_Suc_right) blast
qed

lemma seen_forks:
  assumes f: "forks ord ord' V a c k y" and st: "strands_ok ord V" and x: "x \<in> V" and e: "e = c \<or> e = k"
  shows "seen ord' x e \<longleftrightarrow> seen ord x a"
proof -
  have "x \<noteq> e" "series ord' x e \<longleftrightarrow> seen ord x a" using f x e unfolding forks_def by blast+
  then show ?thesis by (simp add: seen_def)
qed

lemma past_mono:
  assumes ex: "extends ord ord'" and st: "strands_ok ord V" and l: "log_ok ord A (g_log g)" and A: "A \<subseteq> V"
    and p: "cr_past_ok ord C g" and g': "g_log g' = g_log g" and b: "\<forall>t. g_past g' t \<subseteq> {..<length (g_log g)}"
    and C: "\<And>t b i. C' t b \<Longrightarrow> i < length (g_log g) \<Longrightarrow> i \<in> g_past g' t \<longleftrightarrow> seen ord' (strand_at (g_log g) i) b"
  shows "cr_past_ok ord' C' g'"
  unfolding cr_past_ok_def g'
proof (intro conjI allI impI)
  show "g_past g' t \<subseteq> {..<length (g_log g)}" for t using b by blast
  show "i \<in> g_past g' t \<longleftrightarrow> seen ord' (strand_at (g_log g) i) b" if "C' t b" "i < length (g_log g)" for t b i by (rule C [OF that])
  fix j i assume j: "j < length (g_log g)" and i: "i < j"
  have m: "strand_at (g_log g) n \<in> V" if "n < length (g_log g)" for n using l A that unfolding log_ok_def by blast
  have "i \<in> e_past (g_log g ! j) \<longleftrightarrow> seen ord (strand_at (g_log g) i) (strand_at (g_log g) j)"
    using p j i unfolding cr_past_ok_def by blast
  then show "i \<in> e_past (g_log g ! j) \<longleftrightarrow> seen ord' (strand_at (g_log g) i) (strand_at (g_log g) j)"
    using extends_seen [OF ex st m m] i j by simp
qed

lemma spawn_past:
  assumes inv: "cr_inv s ord V A" and l: "log_ok ord A (g_log g)" and p: "cr_past_ok ord (cur_at (task_states s)) g"
    and t: "task_states s t = Some x" "runs_in x a" and f: "forks ord ord' V a c k y"
    and m': "m' = spawned (task_states s) (next_task s) t x y c k i j" and g': "g' = g\<lparr>g_past := (g_past g)(next_task s := g_past g t)\<rparr>"
  shows "cr_past_ok ord' (cur_at m') g'"
proof -
  note tk = cr_invD(2) [OF inv] and hb = cr_invD(4) [OF inv]
  note st = hb_strands [OF hb] and sub = hb_sub [OF hb]
  have ex: "extends ord ord'" using f unfolding forks_def by blast
  have tn: "t \<noteq> next_task s" using tasks_okD(2) [OF tk t(1)] by simp
  have Ct: "cur_at (task_states s) t a" using t by (auto simp: cur_at_def)
  show ?thesis
  proof (rule past_mono [OF ex st l sub p])
    show "g_log g' = g_log g" by (simp add: g')
    show "\<forall>u. g_past g' u \<subseteq> {..<length (g_log g)}" using p unfolding cr_past_ok_def g' by simp
    fix u b i assume u: "cur_at m' u b" and i: "i < length (g_log g)"
    have m: "strand_at (g_log g) i \<in> V" using l sub i unfolding log_ok_def by blast
    have old: "i \<in> g_past g v \<longleftrightarrow> seen ord (strand_at (g_log g) i) e" if "cur_at (task_states s) v e" for v e
      using p that i unfolding cr_past_ok_def by blast
    consider "u = t" "b = k" | "u = next_task s" "b = c" | "u \<noteq> t" "u \<noteq> next_task s" "cur_at (task_states s) u b"
      using u unfolding m' spawned_cur [OF tn] by (auto split: if_splits)
    then show "i \<in> g_past g' u \<longleftrightarrow> seen ord' (strand_at (g_log g) i) b"
    proof cases
      case 1
      then show ?thesis using old [OF Ct] seen_forks [OF f st m] tn by (simp add: g')
    next
      case 2
      then show ?thesis using old [OF Ct] seen_forks [OF f st m] by (simp add: g')
    next
      case 3
      have "b \<in> V" using hb_cur_in [OF hb 3(3)] sub by blast
      then show ?thesis using old [OF 3(3)] extends_seen [OF ex st m] 3(2) by (simp add: g')
    qed
  qed
qed

section \<open>A wait\<close>

lemma cr_wait_past:
  assumes inv: "cr_inv s ord V A" and l: "log_ok ord A (g_log g)" and p: "cr_past_ok ord (cur_at (task_states s)) g"
    and x: "task_states s t = Some x"
  shows "cr_past_ok ord (cur_at (waited (task_states s) t x)) (cr_ghost_step s g (CrWait t))"
proof -
  let ?m = "task_states s"
  note tk = cr_invD(2) [OF inv] and hb = cr_invD(4) [OF inv]
  note fam = tasks_okD(1) [OF tk] and st = hb_strands [OF hb] and sub = hb_sub [OF hb]
  define D where "D = {d. (t, d) \<in> (kids ?m)\<^sup>+}"
  have sD: "subtree ?m (child x) = D" unfolding D_def by (rule subtree_below [where m = "task_states s", OF x])
  have g': "cr_ghost_step s g (CrWait t) = g\<lparr>g_past := (g_past g)(t := g_past g t \<union> \<Union> (g_past g ` D))\<rparr>"
    using x sD by (simp add: cr_ghost_step_def children_of_def)
  have old: "i \<in> g_past g v \<longleftrightarrow> seen ord (strand_at (g_log g) i) e" if "cur_at ?m v e" "i < length (g_log g)" for v e i
    using p that unfolding cr_past_ok_def by blast
  show ?thesis
  proof (cases "\<exists>y. syncs_to x y")
    case True
    then obtain y where y: "syncs_to x y" by metis
    note C' = waited_tables(3) [OF fam x D_def y]
    have P: "pend_at ?m t y" using x y by (auto simp: pend_at_def)
    show ?thesis
    proof (rule past_mono [OF orders_extend_refl st l sub p])
        show "g_log (cr_ghost_step s g (CrWait t)) = g_log g" by (simp add: g')
      have "\<forall>u. g_past g u \<subseteq> {..<length (g_log g)}" using p unfolding cr_past_ok_def by blast
      then show "\<forall>u. g_past (cr_ghost_step s g (CrWait t)) u \<subseteq> {..<length (g_log g)}" unfolding g' by auto
      fix u b i assume u: "cur_at (waited ?m t x) u b" and i: "i < length (g_log g)"
      have iA: "strand_at (g_log g) i \<in> A" using l i unfolding log_ok_def by blast
      have uD: "u \<notin> D" and ub: "if u = t then b = y else cur_at ?m u b" using u unfolding C' by simp_all
      show "i \<in> g_past (cr_ghost_step s g (CrWait t)) u \<longleftrightarrow> seen ord (strand_at (g_log g) i) b"
      proof (cases "u = t")
        case False
        then show ?thesis using old [OF _ i, of u b] ub by (simp add: g')
      next
        case True
        have live: "\<exists>e. cur_at ?m v e" if "(t, v) \<in> (kids ?m)\<^sup>*" for v
        proof -
          have "v \<in> dom ?m" using kids_dom [OF fam that] x by blast
          then obtain z where z: "?m v = Some z" by blast
          then show ?thesis using tasks_okD(3) [OF tk z] unfolding task_ok_def cur_at_def by blast
        qed
        have "i \<in> g_past g t \<union> \<Union> (g_past g ` D) \<longleftrightarrow> (\<exists>v. (t, v) \<in> (kids ?m)\<^sup>* \<and> i \<in> g_past g v)"
          by (auto simp: D_def rtrancl_eq_or_trancl)
        also have "\<dots> \<longleftrightarrow> (\<exists>v e. cur_at ?m v e \<and> (t, v) \<in> (kids ?m)\<^sup>* \<and> seen ord (strand_at (g_log g) i) e)"
          using old [OF _ i] live by metis
        also have "\<dots> \<longleftrightarrow> series ord (strand_at (g_log g) i) y" using hb_pend [OF hb P iA] by simp
        also have "\<dots> \<longleftrightarrow> seen ord (strand_at (g_log g) i) y" using hb_pend_new [OF hb P] iA by (auto simp: seen_def)
        finally show ?thesis using True ub by (simp add: g')
      qed
    qed
  next
    case False
    have "quiet ?m (waited ?m t x)" by (rule wait_ok(3) [OF inv x False])
    then have "cur_at (waited ?m t x) = cur_at ?m" by (rule quiet_same(1))
    moreover have "child x = []" using tasks_okD(3) [OF tk x] False by (simp add: task_ok_def)
    then have "D = {}" using sD by simp
    ultimately show ?thesis using p by (simp add: g')
  qed
qed

lemma access_past:
  assumes inv: "cr_inv s ord V A" and l: "log_ok ord A (g_log g)" and p: "cr_past_ok ord (cur_at (task_states s)) g"
    and t: "task_states s t = Some x" "runs_in x b"
    and g': "g' = g\<lparr>g_past := (g_past g)(t := insert (length (g_log g)) (g_past g t)), g_log := g_log g @ [e]\<rparr>"
    and e: "e_strand e = b" "e_past e = g_past g t"
  shows "cr_past_ok ord (cur_at (task_states s)) g'"
proof -
  note hb = cr_invD(4) [OF inv]
  let ?l = "g_log g"
  have C: "cur_at (task_states s) t b" using t by (auto simp: cur_at_def)
  have in_range: "g_past g v \<subseteq> {..<length ?l}" for v using p unfolding cr_past_ok_def by blast
  have old: "i \<in> g_past g v \<longleftrightarrow> seen ord (strand_at ?l i) d" if "cur_at (task_states s) v d" "i < length ?l" for v d i
    using p that unfolding cr_past_ok_def by blast
  show ?thesis
    unfolding cr_past_ok_def
  proof (intro conjI allI impI)
    show "g_past g' u \<subseteq> {..<length (g_log g')}" for u using in_range [of u] in_range [of t] by (auto simp: g')
    fix u d i assume u: "cur_at (task_states s) u d" and i: "i < length (g_log g')"
    show "i \<in> g_past g' u \<longleftrightarrow> seen ord (strand_at (g_log g') i) d"
    proof (cases "i = length ?l")
      case True
      have "i \<notin> g_past g u" using in_range [of u] True by auto
      then have "i \<in> g_past g' u \<longleftrightarrow> u = t" using True by (simp add: g')
      also have "\<dots> \<longleftrightarrow> seen ord b d"
      proof
        show "u = t \<Longrightarrow> seen ord b d" using hb_cur_fun [OF hb C] u by (auto simp: seen_def)
        assume "seen ord b d"
        then have "b = d" using hb_cur_last [OF hb C hb_cur_in [OF hb u]] by (simp add: seen_def)
        then show "u = t" using hb_cur_inj [OF hb C] u by blast
      qed
      finally show ?thesis using True e by (simp add: g' strand_snoc)
    next
      case False
      then have "i < length ?l" using i by (simp add: g')
      then show ?thesis using old [OF u] False by (cases "u = t") (simp_all add: g' strand_snoc)
    qed
  next
    fix j i assume j: "j < length (g_log g')" and i: "i < j"
    show "i \<in> e_past (g_log g' ! j) \<longleftrightarrow> seen ord (strand_at (g_log g') i) (strand_at (g_log g') j)"
    proof (cases "j = length ?l")
      case True
      then show ?thesis using old [OF C] i e by (simp add: g' strand_snoc nth_append)
    next
      case False
      then have "j < length ?l" using j by (simp add: g')
      then show ?thesis using p i unfolding cr_past_ok_def by (simp add: g' strand_snoc nth_append)
    qed
  qed
qed

section \<open>Every event\<close>

text \<open>The invariant of runs; \<open>n\<close> events have grown each order by at most \<open>3 * n\<close>.\<close>

definition cr_ok :: "cracer \<Rightarrow> cr_ghost \<Rightarrow> orders \<Rightarrow> strand set \<Rightarrow> strand set \<Rightarrow> nat \<Rightarrow> bool" where
  "cr_ok s g ord V A n \<longleftrightarrow>
     cr_inv s ord V A \<and> log_ok ord A (g_log g) \<and> det_ok ord s (g_log g) \<and> (\<forall>w. length (ord w) \<le> 3 * n + 1)"

text \<open>A task spawns its own children.\<close>

definition own_child :: "cr_event \<Rightarrow> bool" where
  "own_child e \<longleftrightarrow> (case e of CrSpawn th task of_this \<Rightarrow> of_this | _ \<Rightarrow> True)"

definition keeps :: "cr_event \<Rightarrow> cracer \<Rightarrow> cr_ghost \<Rightarrow> orders \<Rightarrow> strand set \<Rightarrow> strand set \<Rightarrow> nat \<Rightarrow> cracer \<Rightarrow> cr_ghost \<Rightarrow> bool" where
  "keeps e s g ord V A n s' g' \<longleftrightarrow>
     (\<exists>ord' V' A'. cr_ok s' g' ord' V' A' (n + 1) \<and>
        (own_child e \<longrightarrow> cr_past_ok ord (cur_at (task_states s)) g \<longrightarrow> cr_past_ok ord' (cur_at (task_states s')) g'))"

lemma cr_ok_room: "cr_ok s g ord V A n \<Longrightarrow> n < 2 ^ 28 \<Longrightarrow> room_for 6 ord"
  unfolding room_for_def cr_ok_def by (auto dest!: spec [of "\<lambda>w. length (ord w) \<le> _"] intro: le_less_trans)

text \<open>Events that change no strand.\<close>

lemma keeps_still:
  assumes ok: "cr_ok s g ord V A n" and i: "cr_inv s' ord V A" and c: "cur_at (task_states s') = cur_at (task_states s)"
    and v: "var_map s' = var_map s" "violations s' = violations s"
  shows "keeps e s g ord V A n s' g"
proof -
  have "\<forall>w. length (ord w) \<le> 3 * (n + 1) + 1" using ok unfolding cr_ok_def by (meson add_le_mono1 le_add1 mult_le_mono2 order.trans)
  then have "cr_ok s' g ord V A (n + 1)" using ok i v by (simp add: cr_ok_def det_ok_def)
  then show ?thesis unfolding keeps_def c by blast
qed

lemma spawn_some:
  assumes "spawn shl1 s th task of_this = Some s'"
  obtains u xu where "cur_top s th = Some u" "task_states s u = Some xu" "(if of_this then Some u else task_parent xu) \<noteq> None"
proof -
  let ?s = "s\<lparr>task_id_ctr := task_id_ctr s + 1\<rparr>"
  from assms obtain u where u: "cur_top ?s th = Some u" and a: "(do { cur_task \<leftarrow> task_states ?s u;
      t \<leftarrow> (if of_this then Some u else task_parent cur_task); fork_strands shl1 ?s th t (task_id_ctr ?s) task }) = Some s'"
    unfolding spawn_def Let_def by (rule bind_SomeE)
  from a obtain xu where x: "task_states ?s u = Some xu" and b: "(do {
      t \<leftarrow> (if of_this then Some u else task_parent xu); fork_strands shl1 ?s th t (task_id_ctr ?s) task }) = Some s'" by (rule bind_SomeE)
  from b obtain t where "(if of_this then Some u else task_parent xu) = Some t" by (rule bind_SomeE)
  then show thesis using that u x by (simp add: cur_top_def)
qed

lemma spawn_keeps:
  assumes ok: "cr_ok s g ord V A n" and r: "n < 2 ^ 28" "shl_ok shl1" and f: "spawn shl1 s th task of_this = Some s'"
  shows "keeps (CrSpawn th task of_this) s g ord V A n s' (cr_ghost_step s g (CrSpawn th task of_this))"
proof -
  have inv: "cr_inv s ord V A" and l: "log_ok ord A (g_log g)" and d: "det_ok ord s (g_log g)" using ok by (simp_all add: cr_ok_def)
  note hb = cr_invD(4) [OF inv]
  from f obtain u xu where c: "cur_top s th = Some u" and u2: "task_states s u = Some xu"
    and tp: "(if of_this then Some u else task_parent xu) \<noteq> None" by (rule spawn_some)
  from c obtain us where u1: "cur s th = u # us" by (auto simp: cur_top_def)
  note u = u1 u2
  have p: "of_this \<or> task_parent xu \<noteq> NULL" using tp by (cases of_this) simp_all
  define t where "t = (if of_this then u else the (task_parent xu))"
  from spawn_forks [OF inv cr_ok_room [OF ok r(1)] r(2) u t_def p, of task] obtain x a s1 ord' V' y c k where
    x: "task_states s t = Some x" "runs_in x a" and run: "spawn shl1 s th task of_this = Some s1"
    and i: "cr_inv s1 ord' V' (insert c (insert k A))" "V \<subseteq> V'" and len: "\<forall>w. length (ord' w) \<le> length (ord w) + 3"
    and fk: "forks ord ord' V a c k y" and ts: "task_states s1 = spawned (task_states s) (next_task s) t x y c k (task_id_ctr s + 1) task"
    and v: "var_map s1 = var_map s" "violations s1 = violations s" by blast
  have s1: "s1 = s'" using run f by simp
  have ex: "extends ord ord'" using fk unfolding forks_def by blast
  note ext = extends_logs [OF ex hb_strands [OF hb] hb_sub [OF hb] l]
  let ?g = "cr_ghost_step s g (CrSpawn th task of_this)"
  have g': "?g = g\<lparr>g_past := (g_past g)(next_task s := g_past g u)\<rparr>" using u(1) by (simp add: cr_ghost_step_def)
  have "length (ord' w) \<le> 3 * (n + 1) + 1" for w
  proof -
    have "length (ord w) \<le> 3 * n + 1" using ok by (simp add: cr_ok_def)
    then show ?thesis using len [rule_format, of w] by simp
  qed
  moreover have "A \<subseteq> insert c (insert k A)" by blast
  then have "log_ok ord' (insert c (insert k A)) (g_log ?g)" unfolding g' using ext(1) by simp
  moreover have "det_ok ord' s' (g_log ?g)" using ext(2) [OF d] v unfolding s1 det_ok_def g' by simp
  ultimately have "cr_ok s' ?g ord' V' (insert c (insert k A)) (n + 1)" using i(1) unfolding s1 cr_ok_def by simp
  moreover have "cr_past_ok ord' (cur_at (task_states s')) ?g" if "of_this" "cr_past_ok ord (cur_at (task_states s)) g"
  proof (rule spawn_past [OF inv l that(2) x fk ts [unfolded s1]])
    have "t = u" using that(1) by (simp add: t_def)
    then show "?g = g\<lparr>g_past := (g_past g)(next_task s := g_past g t)\<rparr>" by (simp only: g')
  qed
  moreover have "own_child (CrSpawn th task of_this) \<longleftrightarrow> of_this" by (simp add: own_child_def)
  ultimately show ?thesis unfolding keeps_def by metis
qed

lemma access_keeps:
  assumes ok: "cr_ok s g ord V A n" and f: "RecordMem s th a k = Some s'"
  shows "keeps (CrAccess th a k) s g ord V A n s' (cr_ghost_step s g (CrAccess th a k))"
proof -
  have inv: "cr_inv s ord V A" and l: "log_ok ord A (g_log g)" and d: "det_ok ord s (g_log g)" using ok by (simp_all add: cr_ok_def)
  let ?g = "cr_ghost_step s g (CrAccess th a k)"
  show ?thesis
  proof (cases "\<exists>t ts x. cur s th = t # ts \<and> task_states s t = Some x")
    case False
    then have g': "?g = g" by (auto simp: cr_ghost_step_def split: list.split option.split)
    have "s' = s"
    proof (cases "cur s th")
      case (Cons t ts)
      then have "task_states s t = None" using False by (cases "task_states s t") auto
      then show ?thesis using f Cons by (simp add: RecordMem_def split: if_splits)
    qed (use f in \<open>simp add: RecordMem_def split: if_splits\<close>)
    then show ?thesis using keeps_still [OF ok inv] g' by simp
  next
    case True
    then obtain t ts x where t: "cur s th = t # ts" "task_states s t = Some x" by blast
    obtain b where b: "runs_in x b" using tasks_okD(3) [OF cr_invD(2) [OF inv] t(2)] unfolding task_ok_def by blast
    define e where "e = \<lparr>e_strand = b, e_addr = a, e_kind = k, e_past = g_past g t\<rparr>"
    from access_ok [OF inv l d t b e_def] f have s': "same_tasks s s'" "det_ok ord s' (g_log g @ [e])" by auto
    have g': "?g = g\<lparr>g_past := (g_past g)(t := insert (length (g_log g)) (g_past g t)), g_log := g_log g @ [e]\<rparr>"
      using t running_eq [OF b] by (simp add: cr_ghost_step_def e_def)
    note hb = cr_invD(4) [OF inv]
    have C: "cur_at (task_states s) t b" using t(2) b by (auto simp: cur_at_def)
    have e: "e_strand e = b" "e_past e = g_past g t" by (simp_all add: e_def)
    have "log_ok ord A (g_log g @ [e])"
      using log_ok_snoc [OF l, of e] hb_cur_in [OF hb C] hb_cur_last [OF hb C] e(1) by simp
    moreover have "length (ord w) \<le> 3 * (n + 1) + 1" for w
    proof -
      have "length (ord w) \<le> 3 * n + 1" using ok by (simp add: cr_ok_def)
      then show ?thesis by simp
    qed
    ultimately have "cr_ok s' ?g ord V A (n + 1)" using same_tasks_inv [OF inv s'(1)] s'(2) by (simp add: cr_ok_def g')
    moreover have "task_states s' = task_states s" using s'(1) by (simp add: same_tasks_def)
    moreover have "cr_past_ok ord (cur_at (task_states s)) ?g" if "cr_past_ok ord (cur_at (task_states s)) g"
      by (rule access_past [OF inv l that t(2) b g' e])
    ultimately show ?thesis unfolding keeps_def by metis
  qed
qed

lemma wait_keeps:
  assumes ok: "cr_ok s g ord V A n" and f: "Capturewait_for_all s t = Some s'"
  shows "keeps (CrWait t) s g ord V A n s' (cr_ghost_step s g (CrWait t))"
proof -
  have inv: "cr_inv s ord V A" and l: "log_ok ord A (g_log g)" and d: "det_ok ord s (g_log g)" using ok by (simp_all add: cr_ok_def)
  note hb = cr_invD(4) [OF inv]
  obtain x where x: "task_states s t = Some x" using f by (auto simp: Capturewait_for_all_def bind_eq_Some_conv)
  note w = wait_ok [OF inv x]
  have s': "s' = s\<lparr>task_states := waited (task_states s) t x\<rparr>" using w(1) f by simp
  let ?g = "cr_ghost_step s g (CrWait t)"
  have g': "g_log ?g = g_log g" by (simp add: cr_ghost_step_def)
  have "\<exists>A'. A \<subseteq> A' \<and> cr_inv s' ord V A'"
  proof (cases "\<exists>y. syncs_to x y")
    case True
    then obtain y where "syncs_to x y" by metis
    then show ?thesis using w(2) unfolding s' by blast
  next
    case False
    then show ?thesis using quiet_inv [OF inv w(3) [OF False]] unfolding s' by blast
  qed
  then obtain A' where A': "A \<subseteq> A'" "cr_inv s' ord V A'" by blast
  have "length (ord w) \<le> 3 * (n + 1) + 1" for w
  proof -
    have "length (ord w) \<le> 3 * n + 1" using ok by (simp add: cr_ok_def)
    then show ?thesis by simp
  qed
  moreover have "log_ok ord A' (g_log ?g)" unfolding g' by (rule extends_logs(1) [OF orders_extend_refl hb_strands [OF hb] hb_sub [OF hb] l A'(1)])
  moreover have "det_ok ord s' (g_log ?g)" using d unfolding g' det_ok_def by (simp add: s')
  ultimately have "cr_ok s' ?g ord V A' (n + 1)" using A'(2) by (simp add: cr_ok_def)
  moreover have "cr_past_ok ord (cur_at (task_states s')) ?g" if "cr_past_ok ord (cur_at (task_states s)) g"
    using cr_wait_past [OF inv l that x] by (simp add: s')
  ultimately show ?thesis unfolding keeps_def by blast
qed

end
