(* ===== verification/CrRace.thy ===== *)
theory CrRace
  imports CrTrace
begin

text \<open>
  The invariant holds in every reachable state, so the detector reports an address exactly
  when two accesses of it conflict and neither task had seen the other's access.
\<close>

section \<open>Beginning, ending and the flags\<close>

lemma upd_task_quiet:
  assumes "upd_task t f s = Some s'" "\<And>x. task_states s t = Some x \<Longrightarrow> task_view (f x) = task_view x"
  shows "\<exists>m'. s' = s\<lparr>task_states := m'\<rparr> \<and> quiet (task_states s) m'"
proof -
  from assms(1) obtain x where x: "task_states s t = Some x" and s': "s' = s\<lparr>task_states := (task_states s)(t \<mapsto> f x)\<rparr>"
    by (auto simp: upd_task_def bind_eq_Some_conv)
  have "quiet (task_states s) ((task_states s)(t \<mapsto> f x))"
    by (rule quiet_upd [where m = "task_states s", OF x assms(2) [OF x]])
  then show ?thesis using s' by blast
qed

lemma flag_keeps:
  assumes ok: "cr_ok s g ord V A n" and f: "do { t \<leftarrow> cur_top s th; upd_task t f s } = Some s'" and v: "\<And>x. task_view (f x) = task_view x"
  shows "keeps e s g ord V A n s' g"
proof -
  have inv: "cr_inv s ord V A" using ok by (simp add: cr_ok_def)
  from f obtain t where "upd_task t f s = Some s'" by (auto simp: bind_eq_Some_conv)
  then obtain m' where m': "s' = s\<lparr>task_states := m'\<rparr>" "quiet (task_states s) m'" using upd_task_quiet v by blast
  have "cr_inv s' ord V A" using quiet_inv [OF inv m'(2)] m'(1) by simp
  then show ?thesis using quiet_same(1) [OF m'(2)] by (intro keeps_still [OF ok]) (simp_all add: m'(1))
qed

lemma end_keeps:
  assumes ok: "cr_ok s g ord V A n" and f: "exec_end s th = Some s'"
  shows "keeps (CrEnd th) s g ord V A n s' g"
proof -
  have inv: "cr_inv s ord V A" using ok by (simp add: cr_ok_def)
  from f obtain s1 st where 1: "set_complete s th = Some s1" "stack_pop (cur s1 th) = Some st" "s' = s1\<lparr>cur := (cur s1)(th := st)\<rparr>"
    by (auto simp: exec_end_def bind_eq_Some_conv)
  from 1(1) obtain t where "upd_task t (\<lambda>x. x\<lparr>complete := True\<rparr>) s = Some s1" by (auto simp: set_complete_def bind_eq_Some_conv)
  then obtain m' where m': "s1 = s\<lparr>task_states := m'\<rparr>" "quiet (task_states s) m'"
    using upd_task_quiet [of t "\<lambda>x. x\<lparr>complete := True\<rparr>"] by (auto simp: task_view_def)
  have i: "cr_inv s1 ord V A" using quiet_inv [OF inv m'(2)] m'(1) by simp
  have sub: "set (cur s' th') \<subseteq> set (cur s1 th')" for th' using 1(2) by (auto simp: 1(3))
  have "begun_ok s1" by (rule cr_invD(3) [OF i])
  moreover have "next_task s' = next_task s1" "temp_cur_map s' = temp_cur_map s1" "task_states s' = task_states s1" by (simp_all add: 1(3))
  ultimately have "begun_ok s'" using sub unfolding begun_ok_def by (metis subsetD)
  then have "cr_inv s' ord V A" using i by (simp add: cr_inv_def cr_orders_def 1(3))
  then show ?thesis using quiet_same(1) [OF m'(2)] by (intro keeps_still [OF ok]) (simp_all add: 1(3) m'(1))
qed

lemma begin_keeps:
  assumes ok: "cr_ok s g ord V A n" and f: "exec_begin s th i = Some s'"
  shows "keeps (CrBegin th i) s g ord V A n s' g"
proof -
  have inv: "cr_inv s ord V A" using ok by (simp add: cr_ok_def)
  note bg = cr_invD(3) [OF inv]
  from f obtain c where c: "temp_cur_map s i = Some c" by (auto simp: exec_begin_def bind_eq_Some_conv)
  define s1 where "s1 = s\<lparr>temp_cur_map := (temp_cur_map s)(i := None), cur := (cur s)(th := c # cur s th)\<rparr>"
  have cr: "c \<in> ran (temp_cur_map s)" using c by (auto simp: ran_def)
  have ran: "ran ((temp_cur_map s)(i := None)) \<subseteq> ran (temp_cur_map s) - {c}"
  proof
    fix u assume "u \<in> ran ((temp_cur_map s)(i := None))"
    then obtain j where j: "j \<noteq> i" "temp_cur_map s j = Some u" by (auto simp: ran_def split: if_splits)
    have "u \<noteq> c"
    proof
      assume "u = c"
      then have "j = i" using inj_onD [OF begun_okD(3) [OF bg], of j i] j(2) c by auto
      then show False using j(1) by simp
    qed
    then show "u \<in> ran (temp_cur_map s) - {c}" using j by (auto simp: ran_def)
  qed
  have "begun_ok s1"
    unfolding begun_ok_def
  proof (intro conjI allI ballI impI)
    fix th' u assume u: "u \<in> set (cur s1 th')"
    then have "u = c \<or> u \<in> set (cur s th')" by (auto simp: s1_def split: if_splits)
    then show "u < next_task s1" "u \<notin> ran (temp_cur_map s1)"
      using begun_okD(1,2) [OF bg, of u th'] begun_okD(4) [OF bg cr] ran by (auto simp: s1_def)
  next
    show "inj_on (temp_cur_map s1) (dom (temp_cur_map s1))"
      using begun_okD(3) [OF bg] by (auto simp: s1_def inj_on_def)
  next
    fix u assume "u \<in> ran (temp_cur_map s1)"
    then have u: "u \<in> ran (temp_cur_map s)" using ran by (auto simp: s1_def)
    then show "u < next_task s1" using begun_okD(4) [OF bg] by (simp add: s1_def)
    show "child z = []" if "task_states s1 u = Some z" for z using begun_okD(5) [OF bg u] that by (simp add: s1_def)
  qed
  then have i1: "cr_inv s1 ord V A" using inv by (simp add: cr_inv_def cr_orders_def s1_def)
  from f c obtain s2 where 2: "upd_task c (\<lambda>x. x\<lparr>child := []\<rparr>) s1 = Some s2" "set_incomplete s2 th = Some s'"
    by (auto simp: exec_begin_def bind_eq_Some_conv s1_def Let_def)
  have "task_view (x\<lparr>child := []\<rparr>) = task_view x" if "task_states s1 c = Some x" for x
    using begun_okD(5) [OF bg cr] that by (simp add: task_view_def s1_def)
  from upd_task_quiet [OF 2(1) this] obtain m2 where m2: "s2 = s1\<lparr>task_states := m2\<rparr>" "quiet (task_states s1) m2" by blast
  have i2: "cr_inv s2 ord V A" using quiet_inv [OF i1 m2(2)] m2(1) by simp
  from 2(2) obtain t where "upd_task t (\<lambda>x. x\<lparr>complete := False\<rparr>) s2 = Some s'" by (auto simp: set_incomplete_def bind_eq_Some_conv)
  then obtain m3 where m3: "s' = s2\<lparr>task_states := m3\<rparr>" "quiet (task_states s2) m3"
    using upd_task_quiet [of t "\<lambda>x. x\<lparr>complete := False\<rparr>"] by (auto simp: task_view_def)
  have i3: "cr_inv s' ord V A" using quiet_inv [OF i2 m3(2)] m3(1) by simp
  have "cur_at (task_states s') = cur_at (task_states s)"
    using quiet_same(1) [OF m2(2)] quiet_same(1) [OF m3(2)] by (simp add: m3(1) m2(1) s1_def)
  then show ?thesis using i3 by (intro keeps_still [OF ok]) (simp_all add: m3(1) m2(1) s1_def)
qed

section \<open>Runs\<close>

lemma step_keeps:
  assumes ok: "cr_ok s g ord V A n" and n: "n < 2 ^ 28" "shl_ok shl1" and f: "cr_traced shl1 (s, g) e = Some (s', g')"
  shows "keeps e s g ord V A n s' g'"
proof -
  from f have st: "cr_step shl1 s e = Some s'" and g': "g' = cr_ghost_step s g e" by (auto simp: cr_traced_def bind_eq_Some_conv)
  have inv: "cr_inv s ord V A" using ok by (simp add: cr_ok_def)
  show ?thesis
  proof (cases e)
    case (CrSpawn th task own)
    then show ?thesis using spawn_keeps [OF ok n] st unfolding g' by (simp add: cr_step_def)
  next
    case (CrWait t)
    then show ?thesis using wait_keeps [OF ok] st unfolding g' by (simp add: cr_step_def)
  next
    case (CrBegin th i)
    then show ?thesis using begin_keeps [OF ok] st unfolding g' by (simp add: cr_step_def cr_ghost_step_def)
  next
    case (CrEnd th)
    then show ?thesis using end_keeps [OF ok] st unfolding g' by (simp add: cr_step_def cr_ghost_step_def)
  next
    case (CrExecute th b)
    then have g: "g' = g" by (simp add: g' cr_ghost_step_def)
    show ?thesis
    proof (cases b)
      case True
      then have "set_execute_true s th = Some s'" using st CrExecute by (simp add: cr_step_def)
      then show ?thesis unfolding g set_execute_true_def by (rule flag_keeps [OF ok]) (simp add: task_view_def)
    next
      case False
      then have "set_execute_false s th = Some s'" using st CrExecute by (simp add: cr_step_def)
      then show ?thesis unfolding g set_execute_false_def by (rule flag_keeps [OF ok]) (simp add: task_view_def)
    qed
  next
    case (CrAcquire th l)
    then have "s' = s" "g' = g" using st by (simp_all add: g' cr_step_def cr_ghost_step_def CaptureLockAcquire_def)
    then show ?thesis using keeps_still [OF ok inv] by simp
  next
    case (CrRelease th l)
    then have "s' = s" "g' = g" using st by (simp_all add: g' cr_step_def cr_ghost_step_def CaptureLockRelease_def)
    then show ?thesis using keeps_still [OF ok inv] by simp
  next
    case (CrAccess th a k)
    then show ?thesis using access_keeps [OF ok] st unfolding g' by (simp add: cr_step_def)
  qed
qed

lemma run_keeps_ok:
  assumes "run (cr_traced shl1) (s, g) es = Some (s', g')" "cr_ok s g ord V A n" "n + length es \<le> 2 ^ 28" "shl_ok shl1"
  shows "\<exists>ord' V' A'. cr_ok s' g' ord' V' A' (n + length es) \<and>
    (list_all own_child es \<longrightarrow> cr_past_ok ord (cur_at (task_states s)) g \<longrightarrow> cr_past_ok ord' (cur_at (task_states s')) g')"
  using assms
proof (induction es arbitrary: s g ord V A n)
  case Nil
  then show ?case by auto
next
  case (Cons e es)
  from Cons.prems(1) obtain s1 g1 where 1: "cr_traced shl1 (s, g) e = Some (s1, g1)"
    "run (cr_traced shl1) (s1, g1) es = Some (s', g')" by (auto simp: bind_eq_Some_conv)
  have "n < 2 ^ 28" using Cons.prems(3) by simp
  from step_keeps [OF Cons.prems(2) this Cons.prems(4) 1(1)] obtain ord1 V1 A1 where
    k: "cr_ok s1 g1 ord1 V1 A1 (n + 1)"
    "own_child e \<longrightarrow> cr_past_ok ord (cur_at (task_states s)) g \<longrightarrow> cr_past_ok ord1 (cur_at (task_states s1)) g1"
    unfolding keeps_def by blast
  have "n + 1 + length es \<le> 2 ^ 28" using Cons.prems(3) by simp
  from Cons.IH [OF 1(2) k(1) this Cons.prems(4)] k(2) show ?case by (auto simp: add.assoc)
qed

lemma activate_ok:
  assumes "TD_Activate = Some s"
  shows "\<exists>ord a. cr_ok s cr_ghost_init ord {a} {a} 0 \<and> cr_past_ok ord (cur_at (task_states s)) cr_ghost_init"
proof -
  obtain om b where om: "om_state_new = Some om" "m_base (g_english om) = Some b" "m_base (g_hebrew om) = Some b" "st_ok om (\<lambda>_. [b])"
    using om_state_new_ok by blast
  define x where "x = \<lparr>tid = 0, current_english = Some b, current_hebrew = Some b, cont_english = NULL, cont_hebrew = NULL,
    sync_english = NULL, sync_hebrew = NULL, child = [], complete = False, execute = False, task_parent = NULL, mytask = None\<rparr>"
  have s: "s = \<lparr>om_st = om, task_states = [0 \<mapsto> x], next_task = 1, cur = (\<lambda>_. [])(0 := [0]), temp_cur_map = Map.empty,
      task_id_ctr = 0, var_map = Map.empty, violations = Map.empty\<rparr>"
    using assms om(2,3) unfolding TD_Activate_def om(1) by (simp add: x_def)
  let ?m = "[0 \<mapsto> x] :: tasks" and ?o = "\<lambda>_ :: which. [b]" and ?a = "(b, b)"
  have C: "cur_at ?m t a \<longleftrightarrow> t = 0 \<and> a = ?a" for t a
    by (auto simp: cur_at_def runs_in_def x_def prod_eq_iff)
  have P: "\<not> pend_at ?m t y" for t y by (auto simp: pend_at_def syncs_to_def x_def)
  have K: "kids ?m = {}" by (auto simp: kids_def x_def split: if_splits)
  have no: "\<not> series ?o ?a ?a" by (simp add: series_def before_irrefl)
  have "hb_ok ?o {?a} {?a} (cur_at ?m) (pend_at ?m) (kids ?m)"
    unfolding hb_ok_def C K using P no by (simp add: strands_ok_def)
  moreover have "tasks_ok ?m 1"
    by (auto simp: tasks_ok_def family_def task_ok_def x_def runs_in_def intro: exI [of _ ?a])
  moreover have "begun_ok s" by (auto simp: begun_ok_def s)
  ultimately have "cr_inv s ?o {?a} {?a}" using om(4) by (simp add: cr_inv_def cr_orders_def s)
  moreover have "det_ok ?o s []" by (simp add: det_ok_def addr_ok_def conflict_def s)
  ultimately have "cr_ok s cr_ghost_init ?o {?a} {?a} 0" by (simp add: cr_ok_def log_ok_def cr_ghost_init_def)
  moreover have "cr_past_ok ?o (cur_at (task_states s)) cr_ghost_init" by (simp add: cr_past_ok_def cr_ghost_init_def)
  ultimately show ?thesis by blast
qed

text \<open>States reached from the activation, with their log.\<close>

definition cr_reaches :: "(nat \<Rightarrow> label_t) \<Rightarrow> cr_event list \<Rightarrow> cracer \<Rightarrow> cr_ghost \<Rightarrow> bool" where
  "cr_reaches shl1 es s g \<longleftrightarrow>
     length es \<le> 2 ^ 28 \<and> (\<exists>s0. TD_Activate = Some s0 \<and> run (cr_traced shl1) (s0, cr_ghost_init) es = Some (s, g))"

lemma reaches_ok:
  assumes "cr_reaches shl1 es s g" "shl_ok shl1"
  shows "\<exists>ord V A. cr_ok s g ord V A (length es) \<and> (list_all own_child es \<longrightarrow> cr_past_ok ord (cur_at (task_states s)) g)"
proof -
  obtain s0 where s0: "TD_Activate = Some s0" "run (cr_traced shl1) (s0, cr_ghost_init) es = Some (s, g)" and n: "length es \<le> 2 ^ 28"
    using assms(1) unfolding cr_reaches_def by blast
  obtain ord a where i: "cr_ok s0 cr_ghost_init ord {a} {a} 0" "cr_past_ok ord (cur_at (task_states s0)) cr_ghost_init"
    using activate_ok [OF s0(1)] by blast
  show ?thesis using run_keeps_ok [OF s0(2) i(1) _ assms(2)] n i(2) by auto
qed

text \<open>Two accesses of one address, one a write, of which the later has not seen the earlier.\<close>

definition race_at :: "cr_entry list \<Rightarrow> ADDRINT \<Rightarrow> nat \<Rightarrow> nat \<Rightarrow> bool" where
  "race_at l a i j \<longleftrightarrow> conflict l a i j \<and> i \<notin> e_past (l ! j)"

lemma race_par:
  assumes ok: "cr_ok s g ord V A n" and p: "cr_past_ok ord C g" and c: "conflict (g_log g) a i j"
  shows "race_at (g_log g) a i j \<longleftrightarrow> par ord (strand_at (g_log g) i) (strand_at (g_log g) j)"
proof -
  let ?l = "g_log g"
  have inv: "cr_inv s ord V A" and l: "log_ok ord A ?l" using ok by (simp_all add: cr_ok_def)
  note hb = cr_invD(4) [OF inv]
  have ij: "i < j" "j < length ?l" using c by (simp_all add: conflict_def)
  have m: "strand_at ?l i \<in> V" "strand_at ?l j \<in> V" using l ij hb_sub [OF hb] unfolding log_ok_def by auto
  have "i \<in> e_past (?l ! j) \<longleftrightarrow> seen ord (strand_at ?l i) (strand_at ?l j)" using p ij unfolding cr_past_ok_def by blast
  moreover have "\<not> series ord (strand_at ?l j) (strand_at ?l i)" using l ij unfolding log_ok_def by blast
  ultimately show ?thesis using not_par [OF hb_strands [OF hb] m] c by (auto simp: race_at_def seen_def)
qed

lemma reports_iff:
  assumes ok: "cr_ok s g ord V A n"
  shows "violations s a \<noteq> None \<longleftrightarrow> (\<exists>i j. conflict (g_log g) a i j \<and> par ord (strand_at (g_log g) i) (strand_at (g_log g) j))"
proof -
  have "addr_ok ord (g_log g) a (violations s a) (var_map s a)" using ok by (simp add: cr_ok_def det_ok_def)
  then show ?thesis by (cases "violations s a") (auto simp: addr_ok_def)
qed

end
