(* ===== verification/CrProps.thy ===== *)
theory CrProps
  imports CrRace
begin

text \<open>The properties of C-RACER and of its order-maintenance structure.\<close>

section \<open>Concrete runs\<close>

text \<open>\<open>1 << height\<close> on \<open>int\<close>, with a result for the heights for which C++ defines none.\<close>

definition int_shl :: "nat \<Rightarrow> label_t" where
  "int_shl k = push_bit k 1"

lemma int_shl_ok: "shl_ok int_shl"
  unfolding shl_ok_def
proof (intro allI impI)
  fix k :: nat assume k: "k < 31"
  then have "unat (word_of_nat (2 ^ k) :: label_t) = 2 ^ k" by (simp only: unsigned_of_nat) (simp add: take_bit_nat_eq_self)
  then show "unat (int_shl k) = 2 ^ k" by (simp add: int_shl_def push_bit_eq_mult)
qed

text \<open>The tasks below a list of children, computed by following the lists.\<close>

lemma subtree_code [code]:
  "subtree m cs =
     (case cs of
        [] \<Rightarrow> {}
      | c # cs' \<Rightarrow> insert c ((case m c of None \<Rightarrow> {} | Some x \<Rightarrow> subtree m (child x)) \<union> subtree m cs'))"
proof (cases cs)
  case (Cons c cs')
  show ?thesis
  proof (cases "m c")
    case None
    have "(c, d) \<in> (kids m)\<^sup>* \<longleftrightarrow> d = c" for d using None by (auto simp: kids_def elim: converse_rtranclE)
    then have "subtree m [c] = {c}" by (auto simp: subtree_def)
    then show ?thesis using Cons None subtree_Cons [of m c cs'] by simp
  next
    case (Some x)
    then show ?thesis using Cons subtree_Cons [of m c cs'] subtree_single [where m = m, OF Some] by simp
  qed
qed simp

definition cr_demo :: "cr_event list \<Rightarrow> (cracer \<times> cr_ghost) option" where
  "cr_demo es = do { s0 \<leftarrow> TD_Activate; run (cr_traced int_shl) (s0, cr_ghost_init) es }"

lemma demo_reaches:
  assumes "cr_demo es = Some (s, g)" "length es \<le> 2 ^ 28"
  shows "cr_reaches int_shl es s g"
  using assms by (auto simp: cr_demo_def cr_reaches_def bind_eq_Some_conv)

text \<open>A write of the main task while its child runs, and a read of the child.\<close>

definition racing_run :: "cr_event list" where
  "racing_run = [CrSpawn 0 7 True, CrBegin 1 1, CrAccess 0 5 WRITE, CrAccess 1 5 READ]"

text \<open>A child that writes and spawns a sibling, which reads.\<close>

definition sibling_run :: "cr_event list" where
  "sibling_run = [CrSpawn 0 7 True, CrBegin 1 1, CrAccess 1 5 WRITE, CrSpawn 1 8 False, CrBegin 2 2, CrAccess 2 5 READ]"

definition summary :: "cracer \<times> cr_ghost \<Rightarrow> violation option \<times> (ADDRINT \<times> AccessType \<times> nat set) list" where
  "summary p = (violations (fst p) 5, map (\<lambda>e. (e_addr e, e_kind e, e_past e)) (g_log (snd p)))"

lemma racing_run_summary:
  "map_option summary (cr_demo racing_run) =
    Some (Some \<lparr>v_a1 = \<lparr>v_tid = 0, v_accessType = WRITE\<rparr>, v_a2 = \<lparr>v_tid = 1, v_accessType = READ\<rparr>\<rparr>,
      [(5, WRITE, {}), (5, READ, {})])"
  by code_simp

lemma sibling_run_summary:
  "map_option summary (cr_demo sibling_run) =
    Some (Some \<lparr>v_a1 = \<lparr>v_tid = 0, v_accessType = WRITE\<rparr>, v_a2 = \<lparr>v_tid = 2, v_accessType = READ\<rparr>\<rparr>,
      [(5, WRITE, {}), (5, READ, {0})])"
  by code_simp

section \<open>Races\<close>



text \<open>
  C36: a task that spawns a sibling (a task whose TBB parent is its own parent) forks the strands
  of the parent, so the sibling is taken to be parallel with what its spawner did before: in this
  run a read of the sibling, which has seen the write, is reported as racing with it.
\<close>

theorem cr_reports_a_false_race:
  "\<exists>s g r. cr_reaches int_shl sibling_run s g \<and> violations s 5 = Some r \<and> v_a1 r = \<lparr>v_tid = 0, v_accessType = WRITE\<rparr> \<and>
    v_a2 r = \<lparr>v_tid = 2, v_accessType = READ\<rparr> \<and> \<not> (\<exists>i j. race_at (g_log g) 5 i j)"
proof -
  obtain s g where d: "cr_demo sibling_run = Some (s, g)"
    and v: "violations s 5 = Some \<lparr>v_a1 = \<lparr>v_tid = 0, v_accessType = WRITE\<rparr>, v_a2 = \<lparr>v_tid = 2, v_accessType = READ\<rparr>\<rparr>"
    and m: "map (\<lambda>e. (e_addr e, e_kind e, e_past e)) (g_log g) = [(5, WRITE, {}), (5, READ, {0})]"
    using sibling_run_summary by (auto simp: summary_def)
  have r: "cr_reaches int_shl sibling_run s g" by (rule demo_reaches [OF d]) (simp add: sibling_run_def)
  obtain e f where l: "g_log g = [e, f]" "e_past f = {0}" using m by (auto simp: map_eq_Cons_conv)
  have "\<not> race_at (g_log g) 5 i j" for i j
  proof
    assume "race_at (g_log g) 5 i j"
    then have "i < j \<and> j < 2 \<and> i \<notin> e_past ([e, f] ! j)" by (auto simp: race_at_def conflict_def l)
    then have "i < j" "j < 2" "i \<notin> e_past ([e, f] ! j)" by blast+
    then have "j = 1" "i = 0" by simp_all
    then show False using \<open>i \<notin> _\<close> l(2) by simp
  qed
  then show ?thesis using r v by force
qed

section \<open>Reports stay\<close>

lemma upd_task_violations [frame]: "upd_task t f s = Some s' \<Longrightarrow> violations s' = violations s"
  by (auto simp: upd_task_def bind_eq_Some_conv)

lemma insert_violations [frame]:
  "insert_english shl1 s th b = Some (n, s') \<Longrightarrow> violations s' = violations s"
  "insert_hebrew shl1 s th b = Some (n, s') \<Longrightarrow> violations s' = violations s"
  by (auto simp: insert_english_def insert_hebrew_def bind_eq_Some_conv)

lemma make_sync_violations [frame]: "make_sync shl1 s th t = Some s' \<Longrightarrow> violations s' = violations s"
  by (auto simp: make_sync_def bind_eq_Some_conv dest!: frame split: if_splits)

lemma fork_violations [frame]: "fork_strands shl1 s th t i j = Some s' \<Longrightarrow> violations s' = violations s"
  by (auto simp: fork_strands_def bind_eq_Some_conv Let_def dest!: frame)

lemma wait_children_violations [frame]: "wait_children s t cs = Some s' \<Longrightarrow> violations s' = violations s"
proof (erule wait_children.raw_induct [rotated])
  fix w s t cs s'
  assume w: "\<And>s t cs s'. w s t cs = Some s' \<Longrightarrow> violations s' = violations s"
    and "(case cs of [] \<Rightarrow> after_sync s t
      | c # cs' \<Rightarrow> do { x \<leftarrow> task_states s c; s \<leftarrow> (if child x \<noteq> [] then w s c (child x) else Some s);
          s \<leftarrow> delete_task s c; w s t cs' }) = Some s'"
  then show "violations s' = violations s"
    by (cases cs) (auto simp: after_sync_def delete_task_def bind_eq_Some_conv dest!: frame w split: if_splits)
qed

lemma cr_step_keeps:
  assumes "cr_step shl1 s e = Some s'"
  shows "violations s \<subseteq>\<^sub>m violations s'"
proof (cases e)
  case (CrAccess th a k)
  then have "RecordMem s th a k = Some s'" using assms by (simp add: cr_step_def)
  then show ?thesis
    by (auto simp: RecordMem_def bind_eq_Some_conv Let_def error_def split: if_splits list.splits option.splits)
next
  case (CrBegin th i)
  then have "violations s' = violations s"
    using assms by (auto simp: cr_step_def exec_begin_def set_incomplete_def bind_eq_Some_conv Let_def dest!: frame)
  then show ?thesis by simp
next
  case (CrSpawn th i own)
  then have "violations s' = violations s"
    using assms by (auto simp: cr_step_def spawn_def bind_eq_Some_conv Let_def dest!: frame split: if_splits)
  then show ?thesis by simp
next
  case (CrWait t)
  then have "violations s' = violations s"
    using assms by (auto simp: cr_step_def Capturewait_for_all_def bind_eq_Some_conv dest!: frame)
  then show ?thesis by simp
qed (use assms in \<open>auto simp: cr_step_def exec_end_def set_complete_def set_execute_true_def set_execute_false_def
      CaptureLockAcquire_def CaptureLockRelease_def bind_eq_Some_conv dest!: frame split: if_splits\<close>)

interpretation cr_reports: race_reporter "cr_step shl1" violations for shl1
  by unfold_locales (rule cr_step_keeps)

text \<open>
  A race C-RACER has recorded for an address is never changed or withdrawn, whatever events
  follow.
\<close>

theorem cr_first_report_stays:
  assumes "run (cr_step shl1) s es = Some s'" "violations s a = Some r"
  shows "violations s' a = Some r"
  using assms by (rule cr_reports.first_report_stays)

theorem cr_first_report_stays_witness:
  "\<exists>s s'. run (cr_step int_shl) s [CrAccess 1 5 WRITE, CrAcquire 1 9] = Some s' \<and> violations s' 5 \<noteq> None"
proof -
  obtain s g where "cr_demo racing_run = Some (s, g)"
    and v: "violations s 5 = Some \<lparr>v_a1 = \<lparr>v_tid = 0, v_accessType = WRITE\<rparr>, v_a2 = \<lparr>v_tid = 1, v_accessType = READ\<rparr>\<rparr>"
    using racing_run_summary by (auto simp: summary_def)
  have "run (cr_step int_shl) s [CrAccess 1 5 WRITE, CrAcquire 1 9] = Some s"
    using v by (simp add: cr_step_def RecordMem_def CaptureLockAcquire_def)
  then show ?thesis using cr_first_report_stays [OF _ v] by blast
qed

section \<open>Spawns and waits\<close>

text \<open>The comparisons of the detector, on the strands of two task states.\<close>

definition ordered_before :: "cracer \<Rightarrow> TaskState \<Rightarrow> TaskState \<Rightarrow> bool" where
  "ordered_before s x y \<longleftrightarrow>
     precedes_english s (current_english x) (current_english y) = Some True \<and>
     precedes_hebrew s (current_hebrew x) (current_hebrew y) = Some True"

definition in_parallel :: "cracer \<Rightarrow> TaskState \<Rightarrow> TaskState \<Rightarrow> bool" where
  "in_parallel s x y \<longleftrightarrow>
     races_with s (new_var_access (current_english x) (current_hebrew x)) (current_english y) (current_hebrew y) = Some True"

lemma ordered_series:
  assumes "cr_orders s ord" "strands_ok ord V" "a \<in> V" "b \<in> V" "runs_in x a" "runs_in y b"
  shows "ordered_before s x y \<longleftrightarrow> series ord a b"
  using strands_okD [OF assms(2,3,4)] strands_okD [OF assms(2,4,3)] assms(5,6)
  by (simp add: ordered_before_def runs_in_def series_def precedes_before [OF assms(1)])

lemma parallel_par:
  assumes "cr_orders s ord" "strands_ok ord V" "a \<in> V" "b \<in> V" "runs_in x a" "runs_in y b"
  shows "in_parallel s x y \<longleftrightarrow> par ord a b"
  using races_with_par [OF assms(1-4)] assms(5,6) by (simp add: in_parallel_def runs_in_def)

text \<open>
  C31: in every reachable state a spawn by a running task returns; the child and the continuation
  of the spawner are parallel, both come after the strand of the spawner before the spawn, and
  every other task is parallel with the child and with the continuation exactly when it was
  parallel with the spawner.
\<close>

theorem cr_spawn_forks:
  assumes "cr_reaches shl1 es s g" "length es < 2 ^ 28" "shl_ok shl1"
    and t: "cur s th = t # ts" "task_states s t = Some x"
  shows "\<exists>s' x' z. spawn shl1 s th task True = Some s' \<and> task_states s' t = Some x' \<and> task_states s' (next_task s) = Some z \<and>
    task_parent z = Some t \<and> child x' = child x @ [next_task s] \<and>
    in_parallel s' z x' \<and> ordered_before s' x x' \<and> ordered_before s' x z \<and>
    (\<forall>u v. u \<noteq> t \<longrightarrow> task_states s u = Some v \<longrightarrow>
      task_states s' u = Some v \<and> in_parallel s' v z = in_parallel s v x \<and> in_parallel s' v x' = in_parallel s v x)"
proof -
  obtain ord V A where ok: "cr_ok s g ord V A (length es)" using reaches_ok [OF assms(1,3)] by blast
  have inv: "cr_inv s ord V A" using ok by (simp add: cr_ok_def)
  note hb = cr_invD(4) [OF inv]
  note st = hb_strands [OF hb]
  obtain x0 a s' ord' V' y c k where f: "task_states s t = Some x0" "runs_in x0 a" "spawn shl1 s th task True = Some s'"
    "cr_inv s' ord' V' (insert c (insert k A))" "V \<subseteq> V'" "forks ord ord' V a c k y"
    "task_states s' = spawned (task_states s) (next_task s) t x0 y c k (task_id_ctr s + 1) task"
    using spawn_forks [OF inv cr_ok_room [OF ok assms(2)] assms(3) t, of t True task] by auto
  have x0: "x0 = x" using f(1) t(2) by simp
  note o' = cr_invD(1) [OF f(4)] and hb' = cr_invD(4) [OF f(4)]
  note st' = hb_strands [OF hb']
  have aV: "a \<in> V" using hb_cur_in [OF hb, of t a] hb_sub [OF hb] t(2) f(2) x0 by (auto simp: cur_at_def)
  have ck: "c \<in> V'" "k \<in> V'" "a \<in> V'" using hb_sub [OF hb'] f(5) aV by blast+
  define x' where "x' = continued (with_sync x y) (next_task s) k"
  define z where "z = spawned_task (task_id_ctr s + 1) task t c"
  have tn: "t \<noteq> next_task s" using tasks_okD(2) [OF cr_invD(2) [OF inv] t(2)] by simp
  have m': "task_states s' t = Some x'" "task_states s' (next_task s) = Some z"
    using tn by (simp_all add: f(7) spawned_def x0 x'_def z_def)
  have r: "runs_in x' k" "runs_in z c" "runs_in x a" using f(2) by (simp_all add: x'_def z_def x0)
  have fk: "series ord' a c" "series ord' a k" "par ord' c k" using f(6) by (simp_all add: forks_def)
  have others: "task_states s' u = Some v \<and> in_parallel s' v z = in_parallel s v x \<and> in_parallel s' v x' = in_parallel s v x"
    if u: "u \<noteq> t" "task_states s u = Some v" for u v
  proof -
    have un: "u \<noteq> next_task s" using tasks_okD(2) [OF cr_invD(2) [OF inv] u(2)] by simp
    obtain b where b: "runs_in v b" using tasks_okD(3) [OF cr_invD(2) [OF inv] u(2)] unfolding task_ok_def by blast
    then have bV: "b \<in> V" using hb_cur_in [OF hb, of u b] hb_sub [OF hb] u(2) by (auto simp: cur_at_def)
    have "in_parallel s' v z \<longleftrightarrow> par ord' b c" "in_parallel s' v x' \<longleftrightarrow> par ord' b k" "in_parallel s v x \<longleftrightarrow> par ord b a"
      using parallel_par [OF o' st' _ ck(1) b r(2)] parallel_par [OF o' st' _ ck(2) b r(1)]
        parallel_par [OF cr_invD(1) [OF inv] st bV aV b r(3)] bV f(5) by auto
    moreover have "par ord' b c \<longleftrightarrow> par ord b a" "par ord' b k \<longleftrightarrow> par ord b a" using f(6) bV unfolding forks_def by blast+
    ultimately show ?thesis using u un by (simp add: f(7) spawned_def)
  qed
  have "in_parallel s' z x'" using parallel_par [OF o' st' ck(1,2) r(2,1)] fk(3) by simp
  moreover have "ordered_before s' x x'" "ordered_before s' x z"
    using ordered_series [OF o' st' ck(3,2) r(3,1)] ordered_series [OF o' st' ck(3,1) r(3,2)] fk(1,2) by simp_all
  moreover have "task_parent z = Some t" "child x' = child x @ [next_task s]" by (simp_all add: z_def x'_def)
  ultimately show ?thesis using f(3) m' others by blast
qed

lemma init_reaches:
  "\<exists>s x. cr_reaches int_shl [] s cr_ghost_init \<and> cur s 0 = [0] \<and> task_states s 0 = Some x \<and> next_task s = 1 \<and> child x = []"
proof -
  have "map_option (\<lambda>s. (cur s 0, map_option child (task_states s 0), next_task s)) TD_Activate = Some ([0], Some [], 1)" by code_simp
  then obtain s x where "TD_Activate = Some s" "cur s 0 = [0]" "task_states s 0 = Some x" "child x = []" "next_task s = 1" by auto
  then show ?thesis by (auto simp: cr_reaches_def)
qed

theorem cr_spawn_forks_witness:
  "\<exists>s s' x' z. cr_reaches int_shl [] s cr_ghost_init \<and> spawn int_shl s 0 7 True = Some s' \<and> task_states s' 0 = Some x' \<and>
    task_states s' 1 = Some z \<and> in_parallel s' z x'"
proof -
  obtain s x where s: "cr_reaches int_shl [] s cr_ghost_init" "cur s 0 = [0]" "task_states s 0 = Some x" "next_task s = 1"
    using init_reaches by blast
  show ?thesis using cr_spawn_forks [OF s(1) _ int_shl_ok s(2,3), of 7] s(1,4) by auto
qed

text \<open>
  C32: in every reachable state a wait of a live task returns, deletes exactly the tasks below it
  and leaves the others alone; when there was anything to wait for, the waiting task goes on in
  a strand that comes after its own strand and after those of all the tasks deleted.
\<close>

theorem cr_wait_joins:
  assumes "cr_reaches shl1 es s g" "shl_ok shl1" and x: "task_states s t = Some x"
  defines "D \<equiv> subtree (task_states s) (child x)"
  shows "\<exists>s' x'. Capturewait_for_all s t = Some s' \<and> dom (task_states s') = dom (task_states s) - D \<and>
    (\<forall>u. u \<notin> D \<longrightarrow> u \<noteq> t \<longrightarrow> task_states s' u = task_states s u) \<and> task_states s' t = Some x' \<and> child x' = [] \<and>
    (child x \<noteq> [] \<longrightarrow> (\<forall>u v. u = t \<or> u \<in> D \<longrightarrow> task_states s u = Some v \<longrightarrow> ordered_before s' v x'))"
proof -
  obtain ord V A where ok: "cr_ok s g ord V A (length es)" using reaches_ok [OF assms(1,2)] by blast
  have inv: "cr_inv s ord V A" using ok by (simp add: cr_ok_def)
  note hb = cr_invD(4) [OF inv] and tk = cr_invD(2) [OF inv]
  note fam = tasks_okD(1) [OF tk] and st = hb_strands [OF hb]
  let ?m = "task_states s" and ?s' = "s\<lparr>task_states := waited (task_states s) t x\<rparr>" and ?x' = "synced_task x"
  have D: "D = {d. (t, d) \<in> (kids ?m)\<^sup>+}" unfolding D_def by (rule subtree_below [where m = "task_states s", OF x])
  have tD: "t \<notin> D" using below_irrefl [OF fam] D by blast
  have dm: "dom (waited ?m t x) = dom ?m - D" using x tD by (auto simp: waited_def D_def)
  have same: "waited ?m t x u = ?m u" if "u \<notin> D" "u \<noteq> t" for u using that by (simp add: waited_def D_def)
  have after: "ordered_before ?s' v ?x'" if ch: "child x \<noteq> []" and u: "u = t \<or> u \<in> D" "?m u = Some v" for u v
  proof -
    obtain y where y: "syncs_to x y" using tasks_okD(3) [OF tk x] ch unfolding task_ok_def by blast
    have p: "pend_at ?m t y" using x y by (auto simp: pend_at_def)
    obtain b where b: "runs_in v b" using tasks_okD(3) [OF tk u(2)] unfolding task_ok_def by blast
    have C: "cur_at ?m u b" using u(2) b by (auto simp: cur_at_def)
    have "(t, u) \<in> (kids ?m)\<^sup>*" using u(1) D by (auto simp: rtrancl_eq_or_trancl)
    then have "series ord b y" using cur_before_sync [OF hb p C] by blast
    moreover have "b \<in> V" "y \<in> V" using hb_cur_in [OF hb C] hb_sub [OF hb] hb_pend_in [OF hb p] by blast+
    moreover have "runs_in ?x' y" using synced_runs_in [OF y] by simp
    moreover have "cr_orders ?s' ord" using cr_invD(1) [OF inv] by (simp add: cr_orders_def)
    ultimately show ?thesis using ordered_series [OF _ st _ _ b] by blast
  qed
  show ?thesis
  proof (intro exI conjI)
    show "Capturewait_for_all s t = Some ?s'" by (rule wait_ok(1) [OF inv x])
    show "task_states ?s' t = Some ?x'" by (simp add: waited_def)
  qed (use dm same after in auto)
qed

theorem cr_wait_joins_witness:
  "\<exists>s s' x. Capturewait_for_all s 0 = Some s' \<and> task_states s 0 = Some x \<and> child x = [1] \<and> 1 \<in> dom (task_states s) \<and> 1 \<notin> dom (task_states s')"
proof -
  have "map_option (\<lambda>(s, g). (map_option child (task_states s 0), map_option child (task_states s 1))) (cr_demo racing_run) = Some (Some [1], Some [])"
    by code_simp
  then obtain s g x z where d: "cr_demo racing_run = Some (s, g)" and x: "task_states s 0 = Some x" "child x = [1]" "task_states s 1 = Some z"
    by auto
  have r: "cr_reaches int_shl racing_run s g" by (rule demo_reaches [OF d]) (simp add: racing_run_def)
  have "1 \<in> subtree (task_states s) (child x)" using x(2) by (simp add: subtree_def)
  moreover from cr_wait_joins [OF r int_shl_ok x(1)] obtain s' where "Capturewait_for_all s 0 = Some s'"
    "dom (task_states s') = dom (task_states s) - subtree (task_states s) (child x)" by (elim exE conjE) (rule that)
  moreover have "1 \<in> dom (task_states s)" using x(3) by blast
  ultimately show ?thesis using x(1,2) by (intro exI [of _ s] exI [of _ s'] exI [of _ x]) simp
qed

section \<open>Every handler returns\<close>

text \<open>The task on top of a thread's stack, if it has not been deleted.\<close>

definition top_task :: "cracer \<Rightarrow> THREADID \<Rightarrow> TaskState option" where
  "top_task s th = do { t \<leftarrow> cur_top s th; task_states s t }"

definition enabled :: "cracer \<Rightarrow> cr_event \<Rightarrow> bool" where
  "enabled s e \<longleftrightarrow>
     (case e of
        CrSpawn th task own \<Rightarrow> (case top_task s th of None \<Rightarrow> False | Some x \<Rightarrow> own \<or> task_parent x \<noteq> NULL)
      | CrWait t \<Rightarrow> task_states s t \<noteq> None
      | CrBegin th i \<Rightarrow> (case temp_cur_map s i of None \<Rightarrow> False | Some c \<Rightarrow> task_states s c \<noteq> None)
      | CrEnd th \<Rightarrow> top_task s th \<noteq> None
      | CrExecute th b \<Rightarrow> top_task s th \<noteq> None
      | CrAcquire th l \<Rightarrow> True
      | CrRelease th l \<Rightarrow> True
      | CrAccess th a k \<Rightarrow> violations s a \<noteq> None \<or> cur s th = [] \<or> top_task s th \<noteq> None)"

lemma top_task_Some: "top_task s th = Some x \<longleftrightarrow> (\<exists>t ts. cur s th = t # ts \<and> task_states s t = Some x)"
  by (auto simp: top_task_def cur_top_def bind_eq_Some_conv)

lemma flag_returns: "(do { t \<leftarrow> cur_top s th; upd_task t f s }) \<noteq> None \<longleftrightarrow> top_task s th \<noteq> None"
  by (cases "cur s th") (auto simp: cur_top_def upd_task_def top_task_def split: Option.bind_split)

lemma begin_returns: "exec_begin s th i \<noteq> None \<longleftrightarrow> enabled s (CrBegin th i)"
proof (cases "temp_cur_map s i")
  case (Some c)
  then show ?thesis
    by (cases "task_states s c") (simp_all add: exec_begin_def enabled_def upd_task_def set_incomplete_def cur_top_def)
qed (simp add: exec_begin_def enabled_def)

text \<open>
  C33: in every reachable state each handler call returns, unless it starts from a thread with no
  live task on its stack, from a task that has been deleted, or with an unknown task identifier:
  no insertion runs out of labels, no relabeling fails and no loop runs on.
\<close>

theorem cr_handlers_return:
  assumes "cr_reaches shl1 es s g" "length es < 2 ^ 28" "shl_ok shl1"
  shows "cr_step shl1 s e \<noteq> None \<longleftrightarrow> enabled s e"
proof -
  obtain ord V A where ok: "cr_ok s g ord V A (length es)" using reaches_ok [OF assms(1,3)] by blast
  have inv: "cr_inv s ord V A" and l: "log_ok ord A (g_log g)" and d: "det_ok ord s (g_log g)" using ok by (simp_all add: cr_ok_def)
  note tk = cr_invD(2) [OF inv]
  show ?thesis
  proof (cases e)
    case (CrSpawn th task own)
    show ?thesis
    proof
      assume "cr_step shl1 s e \<noteq> None"
      then obtain s' where "spawn shl1 s th task own = Some s'" using CrSpawn by (auto simp: cr_step_def)
      then obtain u xu where "cur_top s th = Some u" "task_states s u = Some xu" "(if own then Some u else task_parent xu) \<noteq> None"
        by (rule spawn_some)
      then show "enabled s e" using CrSpawn by (cases own) (auto simp: enabled_def top_task_def)
    next
      assume "enabled s e"
      then obtain x where "top_task s th = Some x" "own \<or> task_parent x \<noteq> NULL" using CrSpawn by (auto simp: enabled_def split: option.splits)
      then obtain u us where "cur s th = u # us" "task_states s u = Some x" "own \<or> task_parent x \<noteq> NULL" by (auto simp: top_task_Some)
      from spawn_forks [OF inv cr_ok_room [OF ok assms(2)] assms(3) this(1,2) refl this(3), of task]
      obtain s' where "spawn shl1 s th task own = Some s'" by (elim exE conjE) (rule that)
      then show "cr_step shl1 s e \<noteq> None" using CrSpawn by (simp add: cr_step_def)
    qed
  next
    case (CrWait t)
    then show ?thesis using wait_ok(1) [OF inv, of t]
      by (cases "task_states s t") (auto simp: cr_step_def enabled_def Capturewait_for_all_def)
  next
    case (CrBegin th i)
    then show ?thesis using begin_returns by (simp add: cr_step_def)
  next
    case (CrEnd th)
    have "set_complete s th \<noteq> None \<longleftrightarrow> top_task s th \<noteq> None" unfolding set_complete_def by (rule flag_returns)
    moreover have "cur s' th \<noteq> []" if "set_complete s th = Some s'" for s'
      using that by (auto simp: set_complete_def cur_top_def upd_task_def bind_eq_Some_conv)
    ultimately show ?thesis using CrEnd
      by (cases "set_complete s th") (auto simp: cr_step_def enabled_def exec_end_def neq_Nil_conv)
  next
    case (CrExecute th b)
    then show ?thesis using flag_returns by (cases b) (simp_all add: cr_step_def enabled_def set_execute_true_def set_execute_false_def)
  next
    case (CrAccess th a k)
    show ?thesis
    proof (cases "top_task s th")
      case None
      show ?thesis
      proof (cases "cur s th")
        case Nil
        then show ?thesis using CrAccess by (simp add: cr_step_def enabled_def RecordMem_def)
      next
        case (Cons t ts)
        then have "task_states s t = None" using None by (simp add: top_task_def cur_top_def)
        then show ?thesis using Cons None CrAccess by (simp add: cr_step_def enabled_def RecordMem_def)
      qed
    next
      case (Some x)
      then obtain t ts where t: "cur s th = t # ts" "task_states s t = Some x" by (auto simp: top_task_Some)
      obtain b where "runs_in x b" using tasks_okD(3) [OF tk t(2)] unfolding task_ok_def by blast
      from access_ok [OF inv l d t this refl, of a k "{}"] show ?thesis using CrAccess Some by (auto simp: cr_step_def enabled_def)
    qed
  qed (simp_all add: cr_step_def enabled_def)
qed

theorem cr_handlers_return_witness:
  "\<exists>s. cr_reaches int_shl [] s cr_ghost_init \<and> cr_step int_shl s (CrSpawn 0 7 True) \<noteq> None \<and> cr_step int_shl s (CrBegin 0 1) = None"
proof -
  have "map_option (\<lambda>s. (enabled s (CrSpawn 0 7 True), enabled s (CrBegin 0 1))) TD_Activate = Some (True, False)" by code_simp
  then obtain s where s: "TD_Activate = Some s" "enabled s (CrSpawn 0 7 True)" "\<not> enabled s (CrBegin 0 1)" by auto
  then have r: "cr_reaches int_shl [] s cr_ghost_init" by (simp add: cr_reaches_def)
  have n: "cr_step int_shl s e \<noteq> None \<longleftrightarrow> enabled s e" for e by (rule cr_handlers_return [OF r _ int_shl_ok]) simp
  have "cr_step int_shl s (CrSpawn 0 7 True) \<noteq> None" "cr_step int_shl s (CrBegin 0 1) = None" using n s(2,3) by blast+
  then show ?thesis using r by blast
qed

section \<open>The orders\<close>

text \<open>
  C34: insertion refines the insertion into a sequence: in structures that stand for two sequences
  of fewer than \<open>2\<^sup>3\<^sup>0 - 1\<close> nodes, an insertion after a node returns a new node right after it,
  whether or not labels have run out, and leaves the other sequence as it is.
\<close>

theorem om_insert_refines:
  assumes "st_ok s ord" "small ord" "shl_ok shl1" "b \<in> set (ord w)"
  shows "\<exists>n s'. omrd_insert shl1 s w th (Some b) = Some (Some n, s') \<and> n \<notin> set (ord w) \<and>
    st_ok s' (ord(w := insert_after b n (ord w)))"
  using omrd_insert_ok [OF assms(1,4,2,3)] by blast

lemma new_state: "\<exists>s b. om_state_new = Some s \<and> st_ok s (\<lambda>_. [b])"
  using om_state_new_ok by blast

lemma small_new: "small (\<lambda>_. [b])"
  by (simp add: small_def)

theorem om_insert_refines_witness:
  "\<exists>s b n s'. om_state_new = Some s \<and> omrd_insert int_shl s Hebrew 0 (Some b) = Some (Some n, s') \<and> st_ok s' ((\<lambda>_. [b])(Hebrew := [b, n]))"
proof -
  obtain s b where s: "om_state_new = Some s" "st_ok s (\<lambda>_. [b])" using new_state by blast
  from om_insert_refines [OF s(2) small_new int_shl_ok, of b Hebrew 0]
  obtain n s' where "omrd_insert int_shl s Hebrew 0 (Some b) = Some (Some n, s')"
    "st_ok s' ((\<lambda>_. [b])(Hebrew := insert_after b n [b]))" by auto
  then show ?thesis using s(1) by auto
qed

text \<open>
  After an insertion the comparison of two nodes answers as before, the new node is after
  its base, and it compares with every other node as its base does, so a client may rely on the
  order alone.
\<close>

theorem om_compare_after_insert:
  assumes "st_ok s ord" "small ord" "shl_ok shl1" "b \<in> set (ord w)" "omrd_insert shl1 s w th (Some b) = Some (r, s')"
  shows "\<exists>n. r = Some n \<and> om_precedes (m_heap (get_ds s' w)) (Some b) (Some n) = Some True \<and>
    (\<forall>x \<in> set (ord w). \<forall>y \<in> set (ord w). om_precedes (m_heap (get_ds s' w)) (Some x) (Some y) = om_precedes (m_heap (get_ds s w)) (Some x) (Some y)) \<and>
    (\<forall>x \<in> set (ord w). x \<noteq> b \<longrightarrow>
      om_precedes (m_heap (get_ds s' w)) (Some n) (Some x) = om_precedes (m_heap (get_ds s w)) (Some b) (Some x))"
  using om_orders.prec_after_ins [of s ord shl1 b w th r s'] assms by blast

theorem om_compare_after_insert_witness:
  "\<exists>s b n s'. omrd_insert int_shl s English 0 (Some b) = Some (Some n, s') \<and> om_precedes (m_heap (get_ds s' English)) (Some b) (Some n) = Some True"
proof -
  obtain s b where s: "om_state_new = Some s" "st_ok s (\<lambda>_. [b])" using new_state by blast
  obtain n s' where r: "omrd_insert int_shl s English 0 (Some b) = Some (Some n, s')"
    using omrd_insert_ok [OF s(2) _ small_new int_shl_ok, of b English 0] by auto
  show ?thesis using om_compare_after_insert [OF s(2) small_new int_shl_ok _ r] r by auto
qed

text \<open>
  C35: a relabeling of the heavy sublists, with its splits, label moves and tree rebuilds, always
  returns and keeps the sequence the structure stands for.
\<close>

theorem om_relabel_keeps_the_order:
  assumes "ds_order d xs" "length xs < 2 ^ 30" "shl_ok shl1"
  shows "\<exists>d'. relabel shl1 d = Some d' \<and> ds_order d' xs"
proof -
  obtain S c where S: "ds_ok d S c" "order c (leaves S) = xs" using assms(1) by (auto simp: ds_order_def)
  show ?thesis using relabel_ok [OF S(1) _ assms(3)] S(2) assms(2) by (auto simp: ds_order_def)
qed

theorem om_relabel_keeps_the_order_witness:
  "\<exists>d b d'. omrd_new = Some d \<and> relabel int_shl d = Some d' \<and> ds_order d' [b]"
proof -
  obtain d b where d: "omrd_new = Some d" "ds_order d [b]" using omrd_new_ok by blast
  show ?thesis using om_relabel_keeps_the_order [OF d(2) _ int_shl_ok] d(1) by auto
qed

text \<open>
  The slow path of an insertion, a loop until an insertion succeeds, ends in its first round:
  the relabeling it requests leaves room after every node of the heavy list.
\<close>

theorem om_slow_path_ends:
  assumes "st_ok s ord" "small ord" "shl_ok shl1" "b \<in> set (ord w)"
  shows "\<exists>n s'. slow_path shl1 s w th (Some b) = Some (Some n, s') \<and> st_ok s' (ord(w := insert_after b n (ord w)))"
  using slow_path_ok [OF assms(1,4,2,3)] by blast

theorem om_slow_path_ends_witness:
  "\<exists>s b n s'. om_state_new = Some s \<and> slow_path int_shl s English 3 (Some b) = Some (Some n, s')"
proof -
  obtain s b where s: "om_state_new = Some s" "st_ok s (\<lambda>_. [b])" using new_state by blast
  show ?thesis using om_slow_path_ends [OF s(2) small_new int_shl_ok, of b English 3] s(1) by auto
qed

end
