(* ===== verification/FasTracer.thy ===== *)
theory FasTracer
  imports Shadow "HOL-Library.AList"
begin

text \<open>
  The FasTracer detector (\<open>fastracer/src/Dr_Detector.cpp\<close>, \<open>fastracer/src/exec_calls.cpp\<close>,
  \<open>fastracer/include/exec_calls.h\<close>, \<open>fastracer/include/t_debug_task.h\<close>) as \<open>Common.H\<close>
  configures it: \<open>JOINSET\<close> 1, \<open>EPOCH_POINTER\<close>, \<open>LINE_NO_PASS\<close>, \<open>STATS\<close>, \<open>DEBUG_TIME\<close> and
  \<open>TASK_GRAPH\<close> 0.  Task numbers index arrays of \<open>MAX_NUM_TASKS\<close> entries and are natural
  numbers; an index beyond an array has no defined result.  Clocks and locksets keep their
  width.  A \<open>TaskState*\<close> is the task's index; an \<open>unordered_map\<close> is an association list, owned
  by one task (\<open>my_vc\<close>) or never written again (\<open>root_vc\<close>).  A handler runs under the locks
  of what it touches and is one step.
\<close>

section \<open>State\<close>

definition MAX_NUM_TASKS :: nat where
  "MAX_NUM_TASKS = 4194304"

definition MAX_TASK_DEPTH :: nat where
  "MAX_TASK_DEPTH = 30"

definition NUM_THREADS :: nat where
  "NUM_THREADS = 64"

definition NUM_FIXED_TASK_ENTRIES :: nat where
  "NUM_FIXED_TASK_ENTRIES = 2"

definition NUM_FIXED_VAR_ENTRIES :: nat where
  "NUM_FIXED_VAR_ENTRIES = 3"

definition MAX_MVC_SIZE :: nat where
  "MAX_MVC_SIZE = 100"

definition INT_MAX :: "32 word" where
  "INT_MAX = 0x7fffffff"

type_synonym vc_map = "(nat \<times> 32 word) list"

record TaskState =
  m_vc :: "nat \<Rightarrow> 32 word"
  depth :: nat
  cached_tid :: "nat \<Rightarrow> nat"
  cached_clock :: "nat \<Rightarrow> 32 word"
  lockset :: "32 word"
  parent_taskId :: nat
  mytask :: "nat option"
  child_list :: "nat list option"
  my_vc :: "vc_map option"
  root_vc :: "vc_map option"
  taskId :: nat
  clock :: "32 word"

text \<open>Task states live in zero-filled memory; their constructor never runs.\<close>

definition zero_TaskState :: TaskState where
  "zero_TaskState =
     \<lparr>m_vc = (\<lambda>_. 0), depth = 0, cached_tid = (\<lambda>_. 0), cached_clock = (\<lambda>_. 0), lockset = 0,
      parent_taskId = 0, mytask = None, child_list = None, my_vc = None, root_vc = None,
      taskId = 0, clock = 0\<rparr>"

record LockState =
  ls_lockset :: "64 word"
  rtid1 :: nat
  rc1 :: "32 word"
  rtid2 :: nat
  rc2 :: "32 word"
  wtid1 :: nat
  wc1 :: "32 word"
  wtid2 :: nat
  wc2 :: "32 word"

definition new_LockState :: LockState where
  "new_LockState =
     \<lparr>ls_lockset = 0, rtid1 = 0, rc1 = 0, rtid2 = 0, rc2 = 0, wtid1 = 0, wc1 = 0, wtid2 = 0, wc2 = 0\<rparr>"

record VarState =
  var_v :: "LockState list"
  cursize :: nat
  is_racy :: nat

definition new_VarState :: VarState where
  "new_VarState =
     \<lparr>var_v = replicate NUM_FIXED_VAR_ENTRIES new_LockState, cursize = 0, is_racy = 0\<rparr>"

definition isRacy :: "VarState \<Rightarrow> bool" where
  "isRacy v \<longleftrightarrow> is_racy v = 1"

definition setRacy :: "VarState \<Rightarrow> VarState" where
  "setRacy v = v\<lparr>is_racy := 1\<rparr>"

record violation_data =
  vd_tid :: nat
  vd_accessType :: AccessType

record violation =
  vi_a1 :: violation_data
  vi_a2 :: violation_data

record fastracer =
  shadow_space :: "VarState shadow_space"
  tstate_nodes :: "nat \<Rightarrow> TaskState"
  joinset :: "nat \<Rightarrow> nat"
  num_dead_tasks :: nat
  dead_clock_value :: "32 word"
  cur :: "THREADID \<Rightarrow> nat list"
  task_id_ctr :: nat
  lock_map :: "ADDRINT \<rightharpoonup> 64 word"
  lock_ticker :: nat
  all_violations :: "ADDRINT \<rightharpoonup> violation"

definition error :: "fastracer \<Rightarrow> ADDRINT \<Rightarrow> nat \<Rightarrow> AccessType \<Rightarrow> nat \<Rightarrow> AccessType \<Rightarrow> fastracer" where
  "error s addr ftid ftype stid stype =
     s\<lparr>all_violations := map_insert (all_violations s) addr
         \<lparr>vi_a1 = \<lparr>vd_tid = ftid, vd_accessType = ftype\<rparr>,
          vi_a2 = \<lparr>vd_tid = stid, vd_accessType = stype\<rparr>\<rparr>\<rparr>"

definition TD_Activate :: fastracer where
  "TD_Activate =
     \<lparr>shadow_space = (\<lambda>_. None),
      tstate_nodes = (\<lambda>_. zero_TaskState)(0 := zero_TaskState\<lparr>clock := 1\<rparr>),
      joinset = (\<lambda>_. 0), num_dead_tasks = 0, dead_clock_value = 0, cur = (\<lambda>_. [])(0 := [0]),
      task_id_ctr = 0, lock_map = Map.empty, lock_ticker = 0, all_violations = Map.empty\<rparr>"

definition task_at :: "fastracer \<Rightarrow> nat \<Rightarrow> TaskState option" where
  "task_at s t = (if t < MAX_NUM_TASKS then Some (tstate_nodes s t) else None)"

definition cur_top :: "fastracer \<Rightarrow> THREADID \<Rightarrow> nat option" where
  "cur_top s threadId = (if threadId < NUM_THREADS then stack_top (cur s threadId) else None)"

section \<open>Order of an access with the current task\<close>

text \<open>The clock of an ancestor when the branch to the current task was spawned; 0 for others.\<close>

definition parent_clock :: "fastracer \<Rightarrow> TaskState \<Rightarrow> nat \<Rightarrow> 32 word option" where
  "parent_clock s cur_task t =
     do {
       access_task \<leftarrow> task_at s t;
       let access_depth = depth access_task;
       if depth cur_task \<le> access_depth then Some 0
       else if access_depth < NUM_FIXED_TASK_ENTRIES then
         Some (if cached_tid cur_task access_depth = t then cached_clock cur_task access_depth else 0)
       else do {
         m \<leftarrow> my_vc cur_task;
         Some (case map_of m t of None \<Rightarrow> 0 | Some c \<Rightarrow> c)
       }
     }"

text \<open>\<open>joinset\<close> is indexed by task number plus one.\<close>

partial_function (option) find_root :: "fastracer \<Rightarrow> nat \<Rightarrow> nat option" where
  "find_root s index =
     (if MAX_NUM_TASKS < index then None
      else let next_index = joinset s index
           in if next_index \<noteq> 0 then find_root s next_index else Some index)"

declare find_root.simps [code]

definition check_dead :: "fastracer \<Rightarrow> nat \<Rightarrow> 32 word \<Rightarrow> bool" where
  "check_dead s t c \<longleftrightarrow>
     0 < t \<and> t \<le> num_dead_tasks s \<or> t = 0 \<and> c \<le> dead_clock_value s"

text \<open>
  The clock up to which the current task has seen task \<open>t\<close>: its own, what its branch was
  spawned with, everything if \<open>t\<close> was joined into it or an ancestor, else nothing.
\<close>

definition access_clock :: "fastracer \<Rightarrow> nat \<Rightarrow> TaskState \<Rightarrow> nat \<Rightarrow> 32 word option" where
  "access_clock s cur_taskId cur_task t =
     (if taskId cur_task = t then Some (clock cur_task)
      else do {
        c \<leftarrow> parent_clock s cur_task t;
        if c \<noteq> 0 then Some c
        else do {
          root \<leftarrow> find_root s (t + 1);
          let root_tid = root - 1;
          if root_tid = cur_taskId then Some INT_MAX
          else do {
            p \<leftarrow> parent_clock s cur_task root_tid;
            Some (if p \<noteq> 0 then INT_MAX else 0)
          }
        }
      })"

text \<open>An unused slot of a lock state has clock 0 and is ordered before everything.\<close>

definition slot_clock :: "fastracer \<Rightarrow> nat \<Rightarrow> TaskState \<Rightarrow> nat \<Rightarrow> 32 word \<Rightarrow> 32 word option" where
  "slot_clock s cur_taskId cur_task t c =
     (if 0 < c then access_clock s cur_taskId cur_task t else Some 0)"

definition slot_races :: "fastracer \<Rightarrow> nat \<Rightarrow> TaskState \<Rightarrow> nat \<Rightarrow> 32 word \<Rightarrow> bool option" where
  "slot_races s cur_taskId cur_task t c =
     do { a \<leftarrow> slot_clock s cur_taskId cur_task t c; Some (a < c) }"

text \<open>
  Where the paths of two accesses and the current task part, by the clocks of the spawns
  on the paths: the current task is kept if it leaves before the two do.
\<close>

fun diverge :: "(nat \<Rightarrow> 32 word) \<Rightarrow> (nat \<Rightarrow> 32 word) \<Rightarrow> (nat \<Rightarrow> 32 word) \<Rightarrow> nat \<Rightarrow> nat \<Rightarrow> nat" where
  "diverge vc1 vc2 cur_vc i 0 = i"
| "diverge vc1 vc2 cur_vc i (Suc k) =
     (if vc1 i = vc2 i \<and> vc1 i = cur_vc i then diverge vc1 vc2 cur_vc (Suc i) k else i)"

definition leaves_first :: "fastracer \<Rightarrow> TaskState \<Rightarrow> nat \<Rightarrow> nat \<Rightarrow> bool option" where
  "leaves_first s cur_task tid1 tid2 =
     do {
       a \<leftarrow> task_at s tid1;
       b \<leftarrow> task_at s tid2;
       let k = min (min (depth a) (depth b)) (depth cur_task);
       let i = diverge (m_vc a) (m_vc b) (m_vc cur_task) 0 k;
       if i = depth cur_task then Some True
       else if i < MAX_TASK_DEPTH then
         Some (m_vc cur_task i \<noteq> m_vc a i \<and> m_vc cur_task i \<noteq> m_vc b i)
       else None
     }"

section \<open>Accesses\<close>

definition entry_at :: "VarState \<Rightarrow> nat \<Rightarrow> LockState option" where
  "entry_at v i = (if i < length (var_v v) then Some (var_v v ! i) else None)"

definition put_entry :: "VarState \<Rightarrow> nat \<Rightarrow> LockState \<Rightarrow> VarState option" where
  "put_entry v i x = (if i < length (var_v v) then Some (v\<lparr>var_v := (var_v v)[i := x]\<rparr>) else None)"

text \<open>The indices of the loops \<open>i = 0; i <= cursize\<close>.\<close>

definition indices :: "VarState \<Rightarrow> nat list" where
  "indices v = [0..<cursize v + 1]"

definition entry_dead :: "fastracer \<Rightarrow> LockState \<Rightarrow> bool" where
  "entry_dead s x \<longleftrightarrow>
     check_dead s (rtid1 x) (rc1 x) \<and> check_dead s (rtid2 x) (rc2 x) \<and>
     check_dead s (wtid1 x) (wc1 x) \<and> check_dead s (wtid2 x) (wc2 x)"

fun first_access :: "fastracer \<Rightarrow> VarState \<Rightarrow> nat list \<Rightarrow> bool option" where
  "first_access s v [] = Some True"
| "first_access s v (i # is) =
     do { x \<leftarrow> entry_at v i; if entry_dead s x then first_access s v is else Some False }"

definition memset_v :: "VarState \<Rightarrow> VarState" where
  "memset_v v =
     v\<lparr>var_v := replicate (cursize v + 1) new_LockState @ drop (cursize v + 1) (var_v v), cursize := 0\<rparr>"

definition start_read :: "nat \<Rightarrow> TaskState \<Rightarrow> VarState \<Rightarrow> VarState option" where
  "start_read cur_taskId cur_task v =
     (let v = memset_v v in
      do {
        x \<leftarrow> entry_at v 0;
        put_entry v 0 (x\<lparr>rtid1 := cur_taskId, rc1 := clock cur_task, ls_lockset := ucast (lockset cur_task)\<rparr>)
      })"

definition start_write :: "nat \<Rightarrow> TaskState \<Rightarrow> VarState \<Rightarrow> VarState option" where
  "start_write cur_taskId cur_task v =
     (let v = memset_v v in
      do { x \<leftarrow> entry_at v 0; put_entry v 0 (x\<lparr>wtid1 := cur_taskId, wc1 := clock cur_task\<rparr>) })"

text \<open>How the loop over the lock states ends.\<close>

datatype verdict = SameEpoch | RaceWith nat AccessType | Scanned "nat option"

definition read_same_epoch :: "nat \<Rightarrow> TaskState \<Rightarrow> LockState \<Rightarrow> bool" where
  "read_same_epoch cur_taskId cur_task x \<longleftrightarrow>
     rtid1 x = cur_taskId \<and> rc1 x = clock cur_task \<or> rtid2 x = cur_taskId \<and> rc2 x = clock cur_task"

definition write_same_epoch :: "nat \<Rightarrow> TaskState \<Rightarrow> LockState \<Rightarrow> bool" where
  "write_same_epoch cur_taskId cur_task x \<longleftrightarrow>
     wtid1 x = cur_taskId \<and> wc1 x = clock cur_task \<or> wtid2 x = cur_taskId \<and> wc2 x = clock cur_task"

definition race_with_write :: "fastracer \<Rightarrow> nat \<Rightarrow> TaskState \<Rightarrow> LockState \<Rightarrow> verdict option" where
  "race_with_write s cur_taskId cur_task x =
     do {
       r1 \<leftarrow> slot_races s cur_taskId cur_task (wtid1 x) (wc1 x);
       if r1 then Some (RaceWith (wtid1 x) WRITE)
       else do {
         r2 \<leftarrow> slot_races s cur_taskId cur_task (wtid2 x) (wc2 x);
         Some (if r2 then RaceWith (wtid2 x) WRITE else Scanned None)
       }
     }"

definition race_with_read :: "fastracer \<Rightarrow> nat \<Rightarrow> TaskState \<Rightarrow> LockState \<Rightarrow> verdict option" where
  "race_with_read s cur_taskId cur_task x =
     do {
       r1 \<leftarrow> slot_races s cur_taskId cur_task (rtid1 x) (rc1 x);
       if r1 then Some (RaceWith (rtid1 x) READ)
       else do {
         r2 \<leftarrow> slot_races s cur_taskId cur_task (rtid2 x) (rc2 x);
         Some (if r2 then RaceWith (rtid2 x) READ else Scanned None)
       }
     }"

fun scan_read ::
    "fastracer \<Rightarrow> nat \<Rightarrow> TaskState \<Rightarrow> VarState \<Rightarrow> 64 word \<Rightarrow> nat option \<Rightarrow> nat list \<Rightarrow> verdict option" where
  "scan_read s cur_taskId cur_task v curlockset curLockState [] = Some (Scanned curLockState)"
| "scan_read s cur_taskId cur_task v curlockset curLockState (i # is) =
     do {
       x \<leftarrow> entry_at v i;
       let curLockState = (if ls_lockset x = curlockset then Some i else curLockState);
       if ls_lockset x AND curlockset \<noteq> 0 then scan_read s cur_taskId cur_task v curlockset curLockState is
       else if read_same_epoch cur_taskId cur_task x then Some SameEpoch
       else do {
         r \<leftarrow> race_with_write s cur_taskId cur_task x;
         case r of
           RaceWith t k \<Rightarrow> Some r
         | _ \<Rightarrow> scan_read s cur_taskId cur_task v curlockset curLockState is
       }
     }"

fun scan_write ::
    "fastracer \<Rightarrow> nat \<Rightarrow> TaskState \<Rightarrow> VarState \<Rightarrow> 64 word \<Rightarrow> nat option \<Rightarrow> nat list \<Rightarrow> verdict option" where
  "scan_write s cur_taskId cur_task v curlockset curLockState [] = Some (Scanned curLockState)"
| "scan_write s cur_taskId cur_task v curlockset curLockState (i # is) =
     do {
       x \<leftarrow> entry_at v i;
       let curLockState = (if ls_lockset x = curlockset then Some i else curLockState);
       if ls_lockset x AND curlockset \<noteq> 0 then scan_write s cur_taskId cur_task v curlockset curLockState is
       else if write_same_epoch cur_taskId cur_task x then Some SameEpoch
       else do {
         r \<leftarrow> race_with_write s cur_taskId cur_task x;
         case r of
           RaceWith t k \<Rightarrow> Some r
         | _ \<Rightarrow> do {
             r \<leftarrow> race_with_read s cur_taskId cur_task x;
             case r of
               RaceWith t k \<Rightarrow> Some r
             | _ \<Rightarrow> scan_write s cur_taskId cur_task v curlockset curLockState is
           }
       }
     }"

text \<open>Where the access is remembered in the lock state of its lockset.\<close>

definition update_readers :: "fastracer \<Rightarrow> nat \<Rightarrow> TaskState \<Rightarrow> LockState \<Rightarrow> LockState option" where
  "update_readers s cur_taskId cur_task x =
     do {
       a1 \<leftarrow> slot_clock s cur_taskId cur_task (rtid1 x) (rc1 x);
       if rc1 x \<le> a1 then Some (x\<lparr>rtid1 := cur_taskId, rc1 := clock cur_task\<rparr>)
       else do {
         a2 \<leftarrow> slot_clock s cur_taskId cur_task (rtid2 x) (rc2 x);
         if rc2 x \<le> a2 then Some (x\<lparr>rtid2 := cur_taskId, rc2 := clock cur_task\<rparr>)
         else do {
           b \<leftarrow> leaves_first s cur_task (rtid1 x) (rtid2 x);
           Some (if b then x\<lparr>rtid1 := cur_taskId, rc1 := clock cur_task\<rparr> else x)
         }
       }
     }"

definition update_writers :: "fastracer \<Rightarrow> nat \<Rightarrow> TaskState \<Rightarrow> LockState \<Rightarrow> LockState option" where
  "update_writers s cur_taskId cur_task x =
     do {
       a1 \<leftarrow> slot_clock s cur_taskId cur_task (wtid1 x) (wc1 x);
       if wc1 x \<le> a1 then Some (x\<lparr>wtid1 := cur_taskId, wc1 := clock cur_task\<rparr>)
       else do {
         a2 \<leftarrow> slot_clock s cur_taskId cur_task (wtid2 x) (wc2 x);
         if wc2 x \<le> a2 then Some (x\<lparr>wtid2 := cur_taskId, wc2 := clock cur_task\<rparr>)
         else do {
           b \<leftarrow> leaves_first s cur_task (wtid1 x) (wtid2 x);
           Some (if b then x\<lparr>wtid1 := cur_taskId, wc1 := clock cur_task\<rparr> else x)
         }
       }
     }"

text \<open>A new lock state goes to \<open>v[cursize]\<close>, whatever is there.\<close>

definition add_entry :: "VarState \<Rightarrow> LockState \<Rightarrow> VarState option" where
  "add_entry v x = do { v \<leftarrow> put_entry v (cursize v) x; Some (v\<lparr>cursize := cursize v + 1\<rparr>) }"

definition read_access ::
    "fastracer \<Rightarrow> nat \<Rightarrow> TaskState \<Rightarrow> VarState \<Rightarrow> (VarState \<times> (nat \<times> AccessType) option) option" where
  "read_access s cur_taskId cur_task v =
     do {
       let curlockset = ucast (lockset cur_task);
       first \<leftarrow> first_access s v (indices v);
       if first then do { v \<leftarrow> start_read cur_taskId cur_task v; Some (v, None) }
       else do {
         r \<leftarrow> scan_read s cur_taskId cur_task v curlockset None (indices v);
         case r of
           SameEpoch \<Rightarrow> Some (v, None)
         | RaceWith t k \<Rightarrow> Some (setRacy v, Some (t, k))
         | Scanned (Some i) \<Rightarrow> do {
             x \<leftarrow> entry_at v i;
             x \<leftarrow> update_readers s cur_taskId cur_task x;
             v \<leftarrow> put_entry v i x;
             Some (v, None)
           }
         | Scanned None \<Rightarrow> do {
             v \<leftarrow> add_entry v (new_LockState\<lparr>rc1 := clock cur_task, rtid1 := cur_taskId, ls_lockset := curlockset\<rparr>);
             Some (v, None)
           }
       }
     }"

definition write_access ::
    "fastracer \<Rightarrow> nat \<Rightarrow> TaskState \<Rightarrow> VarState \<Rightarrow> (VarState \<times> (nat \<times> AccessType) option) option" where
  "write_access s cur_taskId cur_task v =
     do {
       let curlockset = ucast (lockset cur_task);
       first \<leftarrow> first_access s v (indices v);
       if first then do { v \<leftarrow> start_write cur_taskId cur_task v; Some (v, None) }
       else do {
         r \<leftarrow> scan_write s cur_taskId cur_task v curlockset None (indices v);
         case r of
           SameEpoch \<Rightarrow> Some (v, None)
         | RaceWith t k \<Rightarrow> Some (setRacy v, Some (t, k))
         | Scanned (Some i) \<Rightarrow> do {
             x \<leftarrow> entry_at v i;
             x \<leftarrow> update_writers s cur_taskId cur_task x;
             v \<leftarrow> put_entry v i x;
             Some (v, None)
           }
         | Scanned None \<Rightarrow> do {
             v \<leftarrow> add_entry v (new_LockState\<lparr>wc1 := clock cur_task, wtid1 := cur_taskId, ls_lockset := curlockset\<rparr>);
             Some (v, None)
           }
       }
     }"

text \<open>\<open>var_state\<close> points into the page and is never null.\<close>

definition RecordMem :: "fastracer \<Rightarrow> THREADID \<Rightarrow> ADDRINT \<Rightarrow> AccessType \<Rightarrow> fastracer option" where
  "RecordMem s threadId addr accesstype =
     (if NUM_THREADS \<le> threadId then None
      else case cur s threadId of
        [] \<Rightarrow> Some s
      | cur_taskId # _ \<Rightarrow> do {
          cur_task \<leftarrow> task_at s cur_taskId;
          let s = s\<lparr>shadow_space := touch_page new_VarState (shadow_space s) (primary_index addr)\<rparr>;
          let var_state = cell_at new_VarState (shadow_space s) addr;
          if isRacy var_state then Some s
          else do {
            (var_state, race) \<leftarrow>
              (case accesstype of
                 READ \<Rightarrow> read_access s cur_taskId cur_task var_state
               | WRITE \<Rightarrow> write_access s cur_taskId cur_task var_state);
            let s = s\<lparr>shadow_space := put_cell new_VarState (shadow_space s) addr var_state\<rparr>;
            Some (case race of
                    None \<Rightarrow> s
                  | Some (t, k) \<Rightarrow> error s addr t k cur_taskId accesstype)
          }
        })"

section \<open>Locks\<close>

text \<open>
  The number of a lock is a bit of a \<open>size_t\<close>, defined for 64 locks; the task keeps the low
  32 bits.
\<close>

definition lock_id :: "fastracer \<Rightarrow> ADDRINT \<Rightarrow> (64 word \<times> fastracer) option" where
  "lock_id s lock_addr =
     (case lock_map s lock_addr of
        None \<Rightarrow>
          if lock_ticker s < 64 then
            (let l = push_bit (lock_ticker s) 1
             in Some (l, s\<lparr>lock_ticker := lock_ticker s + 1, lock_map := (lock_map s)(lock_addr \<mapsto> l)\<rparr>))
          else None
      | Some l \<Rightarrow> Some (l, s))"

definition upd_node :: "nat \<Rightarrow> (TaskState \<Rightarrow> TaskState) \<Rightarrow> fastracer \<Rightarrow> fastracer" where
  "upd_node t f s = s\<lparr>tstate_nodes := (tstate_nodes s)(t := f (tstate_nodes s t))\<rparr>"

definition CaptureLockAcquire :: "fastracer \<Rightarrow> THREADID \<Rightarrow> ADDRINT \<Rightarrow> fastracer option" where
  "CaptureLockAcquire s threadId lock_addr =
     do {
       t \<leftarrow> cur_top s threadId;
       _ \<leftarrow> task_at s t;
       (l, s) \<leftarrow> lock_id s lock_addr;
       Some (upd_node t (\<lambda>x. x\<lparr>lockset := ucast (ucast (lockset x) OR l)\<rparr>) s)
     }"

definition CaptureLockRelease :: "fastracer \<Rightarrow> THREADID \<Rightarrow> ADDRINT \<Rightarrow> fastracer option" where
  "CaptureLockRelease s threadId lock_addr =
     do {
       t \<leftarrow> cur_top s threadId;
       _ \<leftarrow> task_at s t;
       (l, s) \<leftarrow> lock_id s lock_addr;
       Some (upd_node t (\<lambda>x. x\<lparr>lockset := ucast (ucast (lockset x) AND NOT l)\<rparr>) s)
     }"

section \<open>Tasks\<close>

definition exec_begin :: "fastracer \<Rightarrow> THREADID \<Rightarrow> nat \<Rightarrow> fastracer option" where
  "exec_begin s threadId t =
     (if NUM_THREADS \<le> threadId then None
      else do {
        let s = s\<lparr>cur := (cur s)(threadId := t # cur s threadId)\<rparr>;
        _ \<leftarrow> task_at s t;
        Some (upd_node t (\<lambda>x. x\<lparr>child_list := map_option (\<lambda>_. []) (child_list x)\<rparr>) s)
      })"

definition exec_end :: "fastracer \<Rightarrow> THREADID \<Rightarrow> fastracer option" where
  "exec_end s threadId =
     do {
       _ \<leftarrow> cur_top s threadId;
       Some (s\<lparr>cur := (cur s)(threadId := tl (cur s threadId))\<rparr>)
     }"

text \<open>\<open>unordered_map::insert\<close> of a whole range: present keys stay.\<close>

definition vc_insert :: "vc_map \<Rightarrow> vc_map \<Rightarrow> vc_map" where
  "vc_insert m r = m @ filter (\<lambda>(k, _). k \<notin> fst ` set m) r"

definition copy_below :: "nat \<Rightarrow> (nat \<Rightarrow> 'a) \<Rightarrow> (nat \<Rightarrow> 'a) \<Rightarrow> nat \<Rightarrow> 'a" where
  "copy_below n src dst = (\<lambda>i. if i < n then src i else dst i)"

text \<open>The ancestor clocks a child gets: two levels in arrays, deeper ones in its map.\<close>

definition inherit_vc :: "TaskState \<Rightarrow> TaskState \<Rightarrow> TaskState option" where
  "inherit_vc cur_task child_task =
     (let n = min (depth cur_task) NUM_FIXED_TASK_ENTRIES;
          child_task = child_task\<lparr>
            cached_tid := copy_below n (cached_tid cur_task) (cached_tid child_task),
            cached_clock := copy_below n (cached_clock cur_task) (cached_clock child_task),
            my_vc := (if NUM_FIXED_TASK_ENTRIES \<le> depth cur_task then Some [] else my_vc child_task)\<rparr>
      in case my_vc cur_task of
           None \<Rightarrow> Some (child_task\<lparr>root_vc := root_vc cur_task\<rparr>)
         | Some m \<Rightarrow>
             if MAX_MVC_SIZE < length m then
               Some (child_task\<lparr>root_vc := Some (case root_vc cur_task of None \<Rightarrow> m | Some r \<Rightarrow> vc_insert m r)\<rparr>)
             else do {
               _ \<leftarrow> my_vc child_task;
               Some (child_task\<lparr>root_vc := root_vc cur_task, my_vc := Some m\<rparr>)
             })"

definition record_parent :: "nat \<Rightarrow> TaskState \<Rightarrow> TaskState \<Rightarrow> TaskState option" where
  "record_parent cur_taskId cur_task child_task =
     (let d = depth cur_task in
      if d < NUM_FIXED_TASK_ENTRIES then
        Some (child_task\<lparr>cached_tid := (cached_tid child_task)(d := cur_taskId),
                         cached_clock := (cached_clock child_task)(d := clock cur_task)\<rparr>)
      else do {
        m \<leftarrow> my_vc child_task;
        Some (child_task\<lparr>my_vc := Some (AList.update cur_taskId (clock cur_task) m)\<rparr>)
      })"

text \<open>The child's number is new, so the two task states are different.\<close>

definition CaptureSpawn :: "fastracer \<Rightarrow> nat \<Rightarrow> nat \<Rightarrow> nat \<Rightarrow> fastracer option" where
  "CaptureSpawn s t cur_taskId child_taskId =
     do {
       cur_task \<leftarrow> task_at s cur_taskId;
       child_task \<leftarrow> task_at s child_taskId;
       let d = depth cur_task;
       let child_task = child_task\<lparr>taskId := child_taskId, depth := d + 1,
             m_vc := copy_below d (m_vc cur_task) (m_vc child_task)\<rparr>;
       child_task \<leftarrow> inherit_vc cur_task child_task;
       child_task \<leftarrow> record_parent cur_taskId cur_task child_task;
       let cur_task = cur_task\<lparr>clock := clock cur_task + 1\<rparr>;
       child_task \<leftarrow> (if d < MAX_TASK_DEPTH
         then Some (child_task\<lparr>m_vc := (m_vc child_task)(d := clock cur_task)\<rparr>) else None);
       let cur_task = cur_task\<lparr>child_list :=
             Some ((case child_list cur_task of None \<Rightarrow> [] | Some cs \<Rightarrow> cs) @ [child_taskId])\<rparr>;
       let child_task = child_task\<lparr>parent_taskId := cur_taskId, mytask := Some t,
             lockset := lockset cur_task, clock := clock child_task + 1\<rparr>;
       Some (s\<lparr>tstate_nodes := (tstate_nodes s)(cur_taskId := cur_task, child_taskId := child_task)\<rparr>)
     }"

text \<open>
  \<open>spawn\<close>: \<open>of_this\<close> says whether the task's TBB parent is the spawning task; if not, the
  spawning task's parent is charged.
\<close>

definition spawn :: "fastracer \<Rightarrow> THREADID \<Rightarrow> nat \<Rightarrow> bool \<Rightarrow> fastracer option" where
  "spawn s threadId t of_this =
     do {
       let s = s\<lparr>task_id_ctr := task_id_ctr s + 1\<rparr>;
       cur_taskId \<leftarrow> cur_top s threadId;
       cur_task \<leftarrow> task_at s cur_taskId;
       let p = (if of_this then cur_taskId else parent_taskId cur_task);
       CaptureSpawn s t p (task_id_ctr s)
     }"

section \<open>Waiting\<close>

definition kids :: "TaskState \<Rightarrow> nat list" where
  "kids x = (case child_list x of None \<Rightarrow> [] | Some cs \<Rightarrow> cs)"

definition clear_list :: "nat \<Rightarrow> fastracer \<Rightarrow> fastracer" where
  "clear_list t = upd_node t (\<lambda>x. x\<lparr>child_list := map_option (\<lambda>_. []) (child_list x)\<rparr>)"

text \<open>When the main task has waited, all tasks so far are over.\<close>

definition reset_dead :: "nat \<Rightarrow> fastracer \<Rightarrow> fastracer" where
  "reset_dead t s =
     (let s = clear_list t s;
          s = s\<lparr>num_dead_tasks := task_id_ctr s, dead_clock_value := clock (tstate_nodes s t)\<rparr>
      in upd_node t (\<lambda>x. x\<lparr>clock := clock x + 1\<rparr>) s)"

partial_function (option) wait_children :: "fastracer \<Rightarrow> nat \<Rightarrow> nat list \<Rightarrow> fastracer option" where
  "wait_children s t cs =
     (case cs of
        [] \<Rightarrow> Some (clear_list t s)
      | c # cs' \<Rightarrow> do {
          x \<leftarrow> task_at s c;
          s \<leftarrow> (if kids x = [] then Some s
                else if taskId x = 0 then Some (reset_dead c s)
                else wait_children s c (kids x));
          let s = s\<lparr>joinset := (joinset s)(taskId (tstate_nodes s c) + 1 := taskId (tstate_nodes s t) + 1)\<rparr>;
          wait_children s t cs'
        })"

declare wait_children.simps [code]

definition Capturewait_for_all_task :: "fastracer \<Rightarrow> nat \<Rightarrow> fastracer option" where
  "Capturewait_for_all_task s t =
     do {
       x \<leftarrow> task_at s t;
       if kids x = [] then Some s
       else if taskId x = 0 then Some (reset_dead t s)
       else wait_children s t (kids x)
     }"

definition Capturewait_for_all :: "fastracer \<Rightarrow> THREADID \<Rightarrow> fastracer option" where
  "Capturewait_for_all s threadId = do { t \<leftarrow> cur_top s threadId; Capturewait_for_all_task s t }"

text \<open>The wrappers that wait, with the TBB call as argument.\<close>

definition spawn_root_and_wait ::
    "(fastracer \<Rightarrow> fastracer option) \<Rightarrow> fastracer \<Rightarrow> THREADID \<Rightarrow> nat \<Rightarrow> fastracer option" where
  "spawn_root_and_wait tbb s threadId t =
     do {
       let s = s\<lparr>task_id_ctr := task_id_ctr s + 1\<rparr>;
       cur_taskId \<leftarrow> cur_top s threadId;
       s \<leftarrow> CaptureSpawn s t cur_taskId (task_id_ctr s);
       s \<leftarrow> tbb s;
       Capturewait_for_all s threadId
     }"

definition spawn_and_wait_for_all ::
    "(fastracer \<Rightarrow> fastracer option) \<Rightarrow> fastracer \<Rightarrow> THREADID \<Rightarrow> nat \<Rightarrow> fastracer option" where
  "spawn_and_wait_for_all tbb s threadId t =
     do {
       let s = s\<lparr>task_id_ctr := task_id_ctr s + 1\<rparr>;
       cur_taskId \<leftarrow> cur_top s threadId;
       s \<leftarrow> CaptureSpawn s t cur_taskId (task_id_ctr s);
       s \<leftarrow> tbb s;
       Capturewait_for_all s threadId
     }"

definition wait_for_all ::
    "(fastracer \<Rightarrow> fastracer option) \<Rightarrow> fastracer \<Rightarrow> THREADID \<Rightarrow> fastracer option" where
  "wait_for_all tbb s threadId = do { s \<leftarrow> tbb s; Capturewait_for_all s threadId }"

section \<open>Events\<close>

datatype fr_event =
    FrSpawn THREADID nat bool
  | FrWait THREADID
  | FrBegin THREADID nat
  | FrEnd THREADID
  | FrAcquire THREADID ADDRINT
  | FrRelease THREADID ADDRINT
  | FrAccess THREADID ADDRINT AccessType

fun fr_step :: "fastracer \<Rightarrow> fr_event \<Rightarrow> fastracer option" where
  "fr_step s (FrSpawn th t of_this) = spawn s th t of_this"
| "fr_step s (FrWait th) = Capturewait_for_all s th"
| "fr_step s (FrBegin th t) = exec_begin s th t"
| "fr_step s (FrEnd th) = exec_end s th"
| "fr_step s (FrAcquire th l) = CaptureLockAcquire s th l"
| "fr_step s (FrRelease th l) = CaptureLockRelease s th l"
| "fr_step s (FrAccess th a k) = RecordMem s th a k"

end
