(* ===== verification/FrRuns.thy ===== *)
theory FrRuns
  imports FasTracer TaskPast
begin

text \<open>
  Runs of FasTracer with the happens-before order kept next to them, and the invariant
  that ties the task states, the join set and the child lists to the tree of tasks.  The
  order is that of \<open>TaskPast\<close>, defined on the events alone.
\<close>

section \<open>Traced runs\<close>

abbreviation below :: "fastracer \<Rightarrow> task_ghost \<Rightarrow> nat \<Rightarrow> nat set" where
  "below s g p \<equiv> task_below (task_id_ctr s) g p"

definition fr_ghost_step :: "fastracer \<Rightarrow> task_ghost \<Rightarrow> fr_event \<Rightarrow> task_ghost" where
  "fr_ghost_step s g e =
     (case e of
        FrSpawn th t of_this \<Rightarrow>
          (case cur s th of
             [] \<Rightarrow> g
           | p # _ \<Rightarrow>
               g\<lparr>g_line := add_task p (task_id_ctr s) (g_line g),
                 g_fork := (g_fork g)(Suc (task_id_ctr s) := clock (tstate_nodes s p)),
                 g_past := (g_past g)(Suc (task_id_ctr s) := g_past g p)\<rparr>)
      | FrWait th \<Rightarrow>
          (case cur s th of
             [] \<Rightarrow> g
           | p # _ \<Rightarrow>
               g\<lparr>g_dead := g_dead g \<union> below s g p,
                 g_past := (g_past g)(p := g_past g p \<union> \<Union> (g_past g ` below s g p))\<rparr>)
      | FrAccess th a k \<Rightarrow>
          (case cur s th of
             [] \<Rightarrow> g
           | t # _ \<Rightarrow>
               g\<lparr>g_past := (g_past g)(t := insert (length (g_log g)) (g_past g t)),
                 g_log := g_log g @ [\<lparr>e_task = t, e_clock = clock (tstate_nodes s t), e_addr = a,
                   e_kind = k, e_past = g_past g t\<rparr>]\<rparr>)
      | _ \<Rightarrow> g)"

text \<open>
  What a program run by TBB does: a task that runs was spawned, runs once, spawns its own
  children, and does nothing more once a wait has joined it.
\<close>

definition active :: "fastracer \<Rightarrow> task_ghost \<Rightarrow> THREADID \<Rightarrow> bool" where
  "active s g th \<longleftrightarrow> (case cur s th of [] \<Rightarrow> False | t # _ \<Rightarrow> t \<notin> g_dead g)"

definition fr_disciplined :: "fastracer \<Rightarrow> task_ghost \<Rightarrow> fr_event \<Rightarrow> bool" where
  "fr_disciplined s g e \<longleftrightarrow>
     (case e of
        FrSpawn th t of_this \<Rightarrow> of_this \<and> active s g th
      | FrWait th \<Rightarrow> active s g th
      | FrBegin th t \<Rightarrow> t \<le> task_id_ctr s \<and> kids (tstate_nodes s t) = []
      | FrEnd th \<Rightarrow> True
      | FrAcquire th l \<Rightarrow> active s g th
      | FrRelease th l \<Rightarrow> active s g th
      | FrAccess th a k \<Rightarrow> active s g th)"

definition fr_traced :: "fastracer \<times> task_ghost \<Rightarrow> fr_event \<Rightarrow> (fastracer \<times> task_ghost) option" where
  "fr_traced p e =
     (if fr_disciplined (fst p) (snd p) e
      then do { s \<leftarrow> fr_step (fst p) e; Some (s, fr_ghost_step (fst p) (snd p) e) }
      else None)"

definition fr_reaches :: "fr_event list \<Rightarrow> fastracer \<Rightarrow> task_ghost \<Rightarrow> bool" where
  "fr_reaches es s g \<longleftrightarrow> run fr_traced (TD_Activate, ghost_init) es = Some (s, g)"

section \<open>The invariant\<close>

abbreviation node :: "fastracer \<Rightarrow> nat \<Rightarrow> TaskState" where
  "node s t \<equiv> tstate_nodes s t"

abbreviation par :: "fastracer \<Rightarrow> nat \<Rightarrow> nat" where
  "par s t \<equiv> parent_taskId (tstate_nodes s t)"

text \<open>
  What a task state holds: the clocks of the path, in the two arrays and the map, the
  map present exactly below depth 2 and never large.
\<close>

definition node_ok :: "(nat \<Rightarrow> nat list) \<Rightarrow> (nat \<Rightarrow> 32 word) \<Rightarrow> nat \<Rightarrow> TaskState \<Rightarrow> bool" where
  "node_ok line k t x \<longleftrightarrow>
     taskId x = t \<and> length (line t) = Suc (depth x) \<and> depth x \<le> MAX_TASK_DEPTH \<and> root_vc x = None \<and>
     (t \<noteq> 0 \<longrightarrow> parent_taskId x < t \<and> line t = line (parent_taskId x) @ [t]) \<and>
     (\<forall>i. m_vc x i = (if i < depth x then k (line t ! Suc i) + 1 else 0)) \<and>
     (\<forall>i < min (depth x) 2. cached_tid x i = line t ! i \<and> cached_clock x i = k (line t ! Suc i)) \<and>
     (case my_vc x of
        None \<Rightarrow> depth x < 3
      | Some m \<Rightarrow> 3 \<le> depth x \<and> length m \<le> depth x \<and>
          (\<forall>i < depth x. 2 \<le> i \<longrightarrow> map_of m (line t ! i) = Some (k (line t ! Suc i))) \<and>
          fst ` set m \<subseteq> set (line t))"

text \<open>The clocks at which the branches of a task were spawned differ and lie below its clock.\<close>

definition forks_ok :: "fastracer \<Rightarrow> (nat \<Rightarrow> 32 word) \<Rightarrow> bool" where
  "forks_ok s k \<longleftrightarrow>
     (\<forall>t \<le> task_id_ctr s. 1 \<le> clock (node s t) \<and>
        unat (clock (node s t)) + (if kids (node s t) = [] then 0 else 1) \<le> 2 * task_id_ctr s + 1) \<and>
     (\<forall>t \<le> task_id_ctr s. t \<noteq> 0 \<longrightarrow> 1 \<le> k t \<and> k t < clock (node s (par s t)) \<and>
        (\<forall>u \<le> task_id_ctr s. u \<noteq> 0 \<and> par s u = par s t \<and> u \<noteq> t \<longrightarrow> k u \<noteq> k t))"

text \<open>A live task lists its live children, and the join set leads a joined task to its parent.\<close>

definition live_children :: "fastracer \<Rightarrow> nat set \<Rightarrow> nat \<Rightarrow> nat set" where
  "live_children s D t = {c. c \<le> task_id_ctr s \<and> c \<noteq> 0 \<and> par s c = t \<and> c \<notin> D}"

definition lists_ok :: "fastracer \<Rightarrow> nat set \<Rightarrow> bool" where
  "lists_ok s D \<longleftrightarrow>
     (\<forall>t \<le> task_id_ctr s. t \<notin> D \<longrightarrow> distinct (kids (node s t)) \<and> set (kids (node s t)) = live_children s D t)"

definition join_entry :: "fastracer \<Rightarrow> nat set \<Rightarrow> nat \<Rightarrow> bool" where
  "join_entry s D t \<longleftrightarrow>
     (if t \<le> num_dead_tasks s then joinset s (Suc t) \<in> {0, Suc (par s t)}
      else joinset s (Suc t) = (if t \<in> D then Suc (par s t) else 0))"

definition joins_ok :: "fastracer \<Rightarrow> nat set \<Rightarrow> bool" where
  "joins_ok s D \<longleftrightarrow>
     joinset s 1 = 0 \<and> (\<forall>t > task_id_ctr s. joinset s (Suc t) = 0) \<and>
     (\<forall>t \<le> task_id_ctr s. t \<noteq> 0 \<longrightarrow> join_entry s D t)"

text \<open>What the main task's waits have finished.\<close>

definition finished_ok :: "fastracer \<Rightarrow> (nat \<Rightarrow> 32 word) \<Rightarrow> nat set \<Rightarrow> bool" where
  "finished_ok s k D \<longleftrightarrow>
     num_dead_tasks s \<le> task_id_ctr s \<and> {1..num_dead_tasks s} \<subseteq> D \<and>
     dead_clock_value s < clock (node s 0) \<and>
     (\<forall>t \<le> task_id_ctr s. num_dead_tasks s < t \<longrightarrow>
        (par s t = 0 \<longrightarrow> t \<notin> D \<and> dead_clock_value s < k t) \<and> (par s t \<noteq> 0 \<longrightarrow> num_dead_tasks s < par s t))"

definition fr_inv :: "fastracer \<Rightarrow> task_ghost \<Rightarrow> bool" where
  "fr_inv s g \<longleftrightarrow>
     task_id_ctr s < MAX_NUM_TASKS \<and> tree_ok (task_id_ctr s) (g_line g) \<and>
     dead_ok (task_id_ctr s) (g_line g) (g_dead g) \<and>
     (\<forall>t \<le> task_id_ctr s. node_ok (g_line g) (g_fork g) t (node s t)) \<and>
     (\<forall>t > task_id_ctr s. node s t = zero_TaskState) \<and>
     forks_ok s (g_fork g) \<and> lists_ok s (g_dead g) \<and> joins_ok s (g_dead g) \<and>
     finished_ok s (g_fork g) (g_dead g) \<and> (\<forall>th. set (cur s th) \<subseteq> {..task_id_ctr s}) \<and>
     (\<forall>th \<ge> NUM_THREADS. cur s th = [])"

lemma fr_invD:
  assumes "fr_inv s g"
  shows "task_id_ctr s < MAX_NUM_TASKS" "tree_ok (task_id_ctr s) (g_line g)"
    "dead_ok (task_id_ctr s) (g_line g) (g_dead g)"
    "\<And>t. t \<le> task_id_ctr s \<Longrightarrow> node_ok (g_line g) (g_fork g) t (node s t)"
    "\<And>t. task_id_ctr s < t \<Longrightarrow> node s t = zero_TaskState"
    "forks_ok s (g_fork g)" "lists_ok s (g_dead g)" "joins_ok s (g_dead g)"
    "finished_ok s (g_fork g) (g_dead g)" "\<And>th. set (cur s th) \<subseteq> {..task_id_ctr s}"
    "\<And>th. NUM_THREADS \<le> th \<Longrightarrow> cur s th = []"
  using assms by (simp_all add: fr_inv_def)

lemma kids_zero [simp]: "kids zero_TaskState = []"
  by (simp add: kids_def zero_TaskState_def)

lemma kids_update [simp]:
  "kids (x\<lparr>clock := c\<rparr>) = kids x" "kids (x\<lparr>lockset := l\<rparr>) = kids x"
  "kids (x\<lparr>child_list := Some cs\<rparr>) = cs" "kids (x\<lparr>child_list := map_option (\<lambda>_. []) cl\<rparr>) = []"
  by (auto simp: kids_def split: option.splits)

lemma fr_inv_init: "fr_inv TD_Activate ghost_init"
proof -
  have "tree_ok 0 (\<lambda>_. [0])" by (simp add: tree_ok_def)
  then show ?thesis
    by (simp add: fr_inv_def TD_Activate_def ghost_init_def dead_ok_def node_ok_def forks_ok_def lists_ok_def live_children_def
        joins_ok_def finished_ok_def zero_TaskState_def MAX_NUM_TASKS_def kids_def subset_iff NUM_THREADS_def)
qed

lemma active_top:
  assumes "fr_inv s g" "active s g th"
  obtains t ts where "cur s th = t # ts" "t \<le> task_id_ctr s" "t \<notin> g_dead g" "t < MAX_NUM_TASKS"
    "task_at s t = Some (node s t)" "th < NUM_THREADS"
proof -
  from assms(2) obtain t ts where t: "cur s th = t # ts" "t \<notin> g_dead g"
    by (auto simp: active_def split: list.splits)
  moreover have "t \<le> task_id_ctr s" using fr_invD(10) [OF assms(1), of th] t by simp
  moreover have "th < NUM_THREADS" using fr_invD(11) [OF assms(1), of th] t(1) by (metis list.distinct(1) not_le)
  ultimately show thesis using that fr_invD(1) [OF assms(1)] by (simp add: task_at_def)
qed

lemma line_par:
  assumes inv: "fr_inv s g" and t: "t \<le> task_id_ctr s" "t \<noteq> 0"
  shows "g_line g t = g_line g (par s t) @ [t]" "par s t < t" "par s t \<le> task_id_ctr s"
    "par s t \<in> set (g_line g t)"
proof -
  show l: "g_line g t = g_line g (par s t) @ [t]" "par s t < t"
    using fr_invD(4) [OF inv t(1)] t(2) by (simp_all add: node_ok_def)
  then show p: "par s t \<le> task_id_ctr s" using t(1) by simp
  show "par s t \<in> set (g_line g t)" using tree_line(6) [OF fr_invD(2) [OF inv] p] l(1) by simp
qed

end
