(* ===== verification/FrSpawn.thy ===== *)
theory FrSpawn
  imports FrRuns
begin

text \<open>
  A spawn keeps the invariant of \<open>FrRuns\<close>: the new task state holds the clocks of its
  path, the map is allocated exactly when it is needed and stays small.
\<close>

section \<open>The new task state\<close>

definition child_node :: "TaskState \<Rightarrow> nat \<Rightarrow> nat \<Rightarrow> nat \<Rightarrow> TaskState" where
  "child_node x p c t =
     (let d = depth x; n = min d NUM_FIXED_TASK_ENTRIES;
          ct = copy_below n (cached_tid x) (\<lambda>_. 0); cc = copy_below n (cached_clock x) (\<lambda>_. 0) in
      \<lparr>m_vc = (copy_below d (m_vc x) (\<lambda>_. 0))(d := clock x + 1), depth = d + 1,
       cached_tid = (if d < NUM_FIXED_TASK_ENTRIES then ct(d := p) else ct),
       cached_clock = (if d < NUM_FIXED_TASK_ENTRIES then cc(d := clock x) else cc),
       lockset = lockset x, parent_taskId = p, mytask = Some t, child_list = None,
       my_vc = (if d < NUM_FIXED_TASK_ENTRIES then None
                else Some (AList.update p (clock x) (case my_vc x of None \<Rightarrow> [] | Some m \<Rightarrow> m))),
       root_vc = root_vc x, taskId = c, clock = 1\<rparr>)"

definition spawner :: "TaskState \<Rightarrow> nat \<Rightarrow> TaskState" where
  "spawner x c = x\<lparr>clock := clock x + 1, child_list := Some (kids x @ [c])\<rparr>"

lemma length_update_le: "length (AList.update k v m) \<le> Suc (length m)"
  by (induction m) auto

lemma depth_map:
  assumes "node_ok line k t x"
  shows "depth x \<le> 30" "my_vc x = None \<longleftrightarrow> depth x < 3" "\<And>m. my_vc x = Some m \<Longrightarrow> length m \<le> 30"
  using assms by (auto simp: node_ok_def MAX_TASK_DEPTH_def split: option.splits)

lemma CaptureSpawn_eq:
  assumes x: "node_ok line k p (tstate_nodes s p)" and p: "p < MAX_NUM_TASKS" and c: "tstate_nodes s c = zero_TaskState" "p \<noteq> c"
  shows "CaptureSpawn s t p c =
    (if c < MAX_NUM_TASKS \<and> depth (tstate_nodes s p) < MAX_TASK_DEPTH
     then Some (s\<lparr>tstate_nodes := (tstate_nodes s)(p := spawner (tstate_nodes s p) c, c := child_node (tstate_nodes s p) p c t)\<rparr>)
     else None)"
proof (cases "c < MAX_NUM_TASKS")
  case True
  let ?x = "tstate_nodes s p"
  note d = depth_map [OF x]
  have big: "\<not> MAX_MVC_SIZE < length m" if "my_vc ?x = Some m" for m
    using d(3) [OF that] by (simp add: MAX_MVC_SIZE_def)
  note ev = CaptureSpawn_def task_at_def inherit_vc_def record_parent_def Let_def child_node_def spawner_def kids_def
    zero_TaskState_def NUM_FIXED_TASK_ENTRIES_def
  consider "depth ?x < 2" "my_vc ?x = None" | "depth ?x = 2" "my_vc ?x = None" | m where "3 \<le> depth ?x" "my_vc ?x = Some m"
    using d(2) by (cases "my_vc ?x") (auto simp: not_less less_Suc_eq numeral_eq_Suc)
  then show ?thesis
  proof cases
    case 1
    then show ?thesis using True p c by (auto simp: ev split: option.splits)
  next
    case 2
    then show ?thesis using True p c by (auto simp: ev split: option.splits)
  next
    case (3 m)
    then show ?thesis using True p c big [OF 3(2)] by (auto simp: ev split: option.splits)
  qed
qed (simp add: CaptureSpawn_def task_at_def)

section \<open>The new task state is right\<close>

lemma node_ok_child:
  assumes tr: "tree_ok n line" and p: "p \<le> n" and x: "node_ok line k p x" and d: "depth x < MAX_TASK_DEPTH"
  shows "node_ok (add_task p n line) (k(Suc n := clock x)) (Suc n) (child_node x p (Suc n) t)"
proof -
  have len: "length (line p) = Suc (depth x)" using x by (simp add: node_ok_def)
  have le: "line p ! i \<le> n" if "i \<le> depth x" for i using tree_line_le [OF tr p, of "line p ! i"] len that by simp
  have lp: "line p ! depth x = p" using tree_line(1,3) [OF tr p] len by (simp add: last_conv_nth)
  have ne: "line p ! i \<noteq> p" if "i < depth x" for i
    using tree_line(5) [OF tr p] lp len that by (metis less_Suc_eq nat_neq_iff nth_eq_iff_index_eq)
  have m_vc: "m_vc x i = (if i < depth x then k (line p ! Suc i) + 1 else 0)" for i
    using x by (simp add: node_ok_def)
  have cached: "cached_tid x i = line p ! i" "cached_clock x i = k (line p ! Suc i)" if "i < depth x" "i < 2" for i
    using x that by (simp_all add: node_ok_def)
  have new: "add_task p n line (Suc n) = line p @ [Suc n]" by (rule add_task_new)
  have at: "add_task p n line (Suc n) ! i = (if i \<le> depth x then line p ! i else Suc n)" if "i \<le> Suc (depth x)" for i
    using that len by (simp add: new nth_append less_Suc_eq_le)
  have kat: "(k(Suc n := clock x)) (add_task p n line (Suc n) ! Suc i) = (if i < depth x then k (line p ! Suc i) else clock x)"
    if "i \<le> depth x" for i
  proof -
    have "line p ! Suc i \<noteq> Suc n" if "i < depth x" using le [of "Suc i"] that by auto
    then show ?thesis using that at [of "Suc i"] by auto
  qed
  let ?y = "child_node x p (Suc n) t"
  have y: "taskId ?y = Suc n" "depth ?y = Suc (depth x)" "root_vc ?y = None" "parent_taskId ?y = p"
    using x by (simp_all add: child_node_def Let_def node_ok_def)
  have "m_vc ?y i = (if i < Suc (depth x) then (k(Suc n := clock x)) (add_task p n line (Suc n) ! Suc i) + 1 else 0)" for i
    using kat [of i] m_vc [of i] by (auto simp: child_node_def Let_def copy_below_def)
  moreover have "cached_tid ?y i = add_task p n line (Suc n) ! i \<and>
      cached_clock ?y i = (k(Suc n := clock x)) (add_task p n line (Suc n) ! Suc i)" if "i < min (Suc (depth x)) 2" for i
    using that at [of i] kat [of i] cached [of i] lp
    by (auto simp: child_node_def Let_def copy_below_def NUM_FIXED_TASK_ENTRIES_def)
  moreover have "case my_vc ?y of None \<Rightarrow> depth ?y < 3
      | Some m \<Rightarrow> 3 \<le> depth ?y \<and> length m \<le> depth ?y \<and>
          (\<forall>i < depth ?y. 2 \<le> i \<longrightarrow>
            map_of m (add_task p n line (Suc n) ! i) = Some ((k(Suc n := clock x)) (add_task p n line (Suc n) ! Suc i))) \<and>
          fst ` set m \<subseteq> set (add_task p n line (Suc n))"
  proof (cases "depth x < 2")
    case True
    then show ?thesis by (simp add: child_node_def Let_def NUM_FIXED_TASK_ENTRIES_def)
  next
    case False
    let ?m = "case my_vc x of None \<Rightarrow> [] | Some m \<Rightarrow> m"
    have my: "my_vc ?y = Some (AList.update p (clock x) ?m)"
      using False by (simp add: child_node_def Let_def NUM_FIXED_TASK_ENTRIES_def)
    have m: "length ?m \<le> depth x" "\<And>i. i < depth x \<Longrightarrow> 2 \<le> i \<Longrightarrow> map_of ?m (line p ! i) = Some (k (line p ! Suc i))"
      "fst ` set ?m \<subseteq> set (line p)"
      using x by (auto simp: node_ok_def split: option.splits)
    have "length (AList.update p (clock x) ?m) \<le> Suc (depth x)"
      using m(1) length_update_le [of p "clock x" ?m] by simp
    moreover have "map_of (AList.update p (clock x) ?m) (add_task p n line (Suc n) ! i) =
        Some ((k(Suc n := clock x)) (add_task p n line (Suc n) ! Suc i))" if "i < Suc (depth x)" "2 \<le> i" for i
      using that at [of i] kat [of i] m(2) [of i] lp ne [of i] by (auto simp: update_conv' less_Suc_eq)
    moreover have "fst ` set (AList.update p (clock x) ?m) \<subseteq> set (add_task p n line (Suc n))"
      using m(3) tree_line(6) [OF tr p] by (auto simp: new dom_update)
    ultimately show ?thesis using False y my by simp
  qed
  ultimately show ?thesis using y d p len new by (simp add: node_ok_def add_task_old)
qed

section \<open>The invariant after a spawn\<close>

lemma node_ok_old:
  assumes tr: "tree_ok n line" and t: "t \<le> n" and x: "node_ok line k t x"
  shows "node_ok (add_task p n line) (k(Suc n := c)) t x"
proof -
  have len: "length (line t) = Suc (depth x)" using x by (simp add: node_ok_def)
  have k: "(k(Suc n := c)) (line t ! Suc i) = k (line t ! Suc i)" if "i < depth x" for i
  proof -
    have "line t ! Suc i \<le> n" using tree_line_le [OF tr t, of "line t ! Suc i"] len that by simp
    then show ?thesis by simp
  qed
  have "t \<noteq> 0 \<Longrightarrow> parent_taskId x < t" using x by (simp add: node_ok_def)
  then have l: "add_task p n line t = line t" "t \<noteq> 0 \<Longrightarrow> add_task p n line (parent_taskId x) = line (parent_taskId x)"
    using t by (simp_all add: add_task_old)
  show ?thesis using x k l by (simp add: node_ok_def split: option.splits)
qed

lemma node_ok_spawner: "node_ok line k t (spawner x c) \<longleftrightarrow> node_ok line k t x"
  by (simp add: node_ok_def spawner_def cong: option.case_cong)

lemma spawner_simps [simp]:
  "kids (spawner x c) = kids x @ [c]" "clock (spawner x c) = clock x + 1"
  "parent_taskId (spawner x c) = parent_taskId x"
  by (simp_all add: spawner_def kids_def)

lemma child_node_simps [simp]:
  "kids (child_node x p c t) = []" "clock (child_node x p c t) = 1" "parent_taskId (child_node x p c t) = p"
  by (simp_all add: child_node_def kids_def Let_def)

lemma unat_inc: "unat (c :: 32 word) < 2 ^ 32 - 1 \<Longrightarrow> unat (c + 1) = Suc (unat c)"
  by (simp add: unat_word_ariths)

text \<open>Clocks are counted by the tasks spawned, so they do not wrap around.\<close>

lemma clock_small:
  assumes "fr_inv s g" "t \<le> task_id_ctr s"
  shows "unat (clock (node s t)) \<le> 2 * task_id_ctr s + 1" "unat (clock (node s t)) < 2 ^ 31 - 1"
    "1 \<le> clock (node s t)" "unat (clock (node s t) + 1) = Suc (unat (clock (node s t)))"
    "clock (node s t) < clock (node s t) + 1"
proof -
  have f: "1 \<le> clock (node s t)" "unat (clock (node s t)) + (if kids (node s t) = [] then 0 else 1) \<le> 2 * task_id_ctr s + 1"
    using fr_invD(6) [OF assms(1)] assms(2) by (simp_all add: forks_ok_def)
  show a: "1 \<le> clock (node s t)" "unat (clock (node s t)) \<le> 2 * task_id_ctr s + 1"
    using f by simp_all
  then show b: "unat (clock (node s t)) < 2 ^ 31 - 1" using fr_invD(1) [OF assms(1)] by (simp add: MAX_NUM_TASKS_def)
  then show c: "unat (clock (node s t) + 1) = Suc (unat (clock (node s t)))" by (simp add: unat_inc)
  then show "clock (node s t) < clock (node s t) + 1" by (simp add: word_less_nat_alt)
qed

definition spawned :: "fastracer \<Rightarrow> nat \<Rightarrow> nat \<Rightarrow> fastracer" where
  "spawned s p t =
     s\<lparr>task_id_ctr := Suc (task_id_ctr s),
       tstate_nodes := (tstate_nodes s)(p := spawner (node s p) (Suc (task_id_ctr s)),
         Suc (task_id_ctr s) := child_node (node s p) p (Suc (task_id_ctr s)) t)\<rparr>"

lemma spawn_result:
  assumes inv: "fr_inv s g" and d: "fr_disciplined s g (FrSpawn th t b)" and st: "fr_step s (FrSpawn th t b) = Some s'"
  obtains p ts where "cur s th = p # ts" "p \<le> task_id_ctr s" "p \<notin> g_dead g" "s' = spawned s p t"
    "Suc (task_id_ctr s) < MAX_NUM_TASKS" "depth (node s p) < MAX_TASK_DEPTH"
proof -
  have b: "b" and a: "active s g th" using d by (simp_all add: fr_disciplined_def)
  obtain p ts where p: "cur s th = p # ts" "p \<le> task_id_ctr s" "p \<notin> g_dead g" "p < MAX_NUM_TASKS"
    by (rule active_top [OF inv a])
  let ?s = "s\<lparr>task_id_ctr := Suc (task_id_ctr s)\<rparr>"
  have eq: "CaptureSpawn ?s t p (Suc (task_id_ctr s)) =
    (if Suc (task_id_ctr s) < MAX_NUM_TASKS \<and> depth (node s p) < MAX_TASK_DEPTH then Some (spawned s p t) else None)"
    using CaptureSpawn_eq [of "g_line g" "g_fork g" p ?s "Suc (task_id_ctr s)" t] fr_invD(4,5) [OF inv] p by (simp add: spawned_def)
  have "CaptureSpawn ?s t p (Suc (task_id_ctr s)) = Some s'"
    using st b p(1) by (auto simp: spawn_def cur_top_def Let_def bind_eq_Some_conv split: if_splits)
  then show thesis using that p eq by (simp split: if_splits)
qed

lemma spawned_node:
  "p \<le> task_id_ctr s \<Longrightarrow> t \<le> task_id_ctr s \<Longrightarrow>
     node (spawned s p x) t = (if t = p then spawner (node s p) (Suc (task_id_ctr s)) else node s t)"
  "node (spawned s p x) (Suc (task_id_ctr s)) = child_node (node s p) p (Suc (task_id_ctr s)) x"
  "task_id_ctr (spawned s p x) = Suc (task_id_ctr s)"
  by (simp_all add: spawned_def)

lemma fr_spawn_forks:
  assumes inv: "fr_inv s g" and p: "p \<le> task_id_ctr s"
  shows "forks_ok (spawned s p x) ((g_fork g)(Suc (task_id_ctr s) := clock (node s p)))"
proof -
  let ?n = "task_id_ctr s" and ?k = "g_fork g" and ?s = "spawned s p x"
  let ?k' = "?k(Suc ?n := clock (node s p))"
  have old: "unat (clock (node s t)) + (if kids (node s t) = [] then 0 else 1) \<le> 2 * ?n + 1" "1 \<le> clock (node s t)"
    if "t \<le> ?n" for t using fr_invD(6) [OF inv] that by (simp_all add: forks_ok_def)
  note cp = clock_small [OF inv p]
  have par: "par ?s t = (if t = Suc ?n then p else par s t)" if "t \<le> Suc ?n" for t
    using that p by (cases "t = Suc ?n") (simp_all add: spawned_node)
  have le: "1 \<le> clock (node s p) + 1" using cp(3,5) by simp
  have clk: "1 \<le> clock (node ?s t) \<and>
      unat (clock (node ?s t)) + (if kids (node ?s t) = [] then 0 else 1) \<le> 2 * Suc ?n + 1" if "t \<le> Suc ?n" for t
  proof (cases "t = Suc ?n")
    case True
    then show ?thesis by (simp add: spawned_node)
  next
    case False
    then have tn: "t \<le> ?n" using that by simp
    show ?thesis using old [OF tn] cp(1,4) le by (simp add: spawned_node(1) [OF p tn])
  qed
  have pclk: "clock (node s (par s t)) \<le> clock (node ?s (par s t))" if "t \<le> ?n" "t \<noteq> 0" for t
    using line_par(3) [OF inv that] cp(5) by (auto simp: spawned_node(1) [OF p])
  have kold: "1 \<le> ?k t" "?k t < clock (node s (par s t))" "\<And>u. u \<le> ?n \<Longrightarrow> u \<noteq> 0 \<Longrightarrow> par s u = par s t \<Longrightarrow> u \<noteq> t \<Longrightarrow> ?k u \<noteq> ?k t"
    if "t \<le> ?n" "t \<noteq> 0" for t using fr_invD(6) [OF inv] that unfolding forks_ok_def by blast+
  have "1 \<le> ?k' t \<and> ?k' t < clock (node ?s (par ?s t)) \<and>
      (\<forall>u \<le> Suc ?n. u \<noteq> 0 \<and> par ?s u = par ?s t \<and> u \<noteq> t \<longrightarrow> ?k' u \<noteq> ?k' t)" if t: "t \<le> Suc ?n" "t \<noteq> 0" for t
  proof (cases "t = Suc ?n")
    case True
    have "?k u \<noteq> clock (node s p)" if "u \<le> ?n" "u \<noteq> 0" "par s u = p" for u using kold(2) [OF that(1,2)] that(3) by auto
    then show ?thesis using True cp p by (auto simp: par spawned_node le_Suc_eq)
  next
    case False
    then have tn: "t \<le> ?n" using t by simp
    have "clock (node s p) \<noteq> ?k t" if "p = par s t" using kold(2) [OF tn t(2)] that by auto
    then have "\<forall>u \<le> Suc ?n. u \<noteq> 0 \<and> par ?s u = par ?s t \<and> u \<noteq> t \<longrightarrow> ?k' u \<noteq> ?k' t"
      using kold(3) [OF tn t(2)] False tn by (auto simp: par le_Suc_eq)
    moreover have "?k t < clock (node ?s (par s t))" using kold(2) [OF tn t(2)] pclk [OF tn t(2)] by (rule order.strict_trans2)
    ultimately show ?thesis using kold(1) [OF tn t(2)] False tn by (simp add: par)
  qed
  then show ?thesis using clk unfolding forks_ok_def spawned_node(3) by blast
qed

lemma fr_spawn_inv:
  assumes inv: "fr_inv s g" and d: "fr_disciplined s g (FrSpawn th t b)" and st: "fr_step s (FrSpawn th t b) = Some s'"
  shows "fr_inv s' (fr_ghost_step s g (FrSpawn th t b))"
proof -
  obtain p ts where p: "cur s th = p # ts" "p \<le> task_id_ctr s" "p \<notin> g_dead g" and s': "s' = spawned s p t"
    and lim: "Suc (task_id_ctr s) < MAX_NUM_TASKS" "depth (node s p) < MAX_TASK_DEPTH"
    by (rule spawn_result [OF inv d st])
  let ?n = "task_id_ctr s" and ?D = "g_dead g" and ?l = "g_line g" and ?k = "g_fork g"
  let ?k' = "?k(Suc ?n := clock (node s p))"
  note tr = fr_invD(2) [OF inv] and dd = fr_invD(3) [OF inv]
  have g': "g_line (fr_ghost_step s g (FrSpawn th t b)) = add_task p ?n ?l" "g_fork (fr_ghost_step s g (FrSpawn th t b)) = ?k'"
    "g_dead (fr_ghost_step s g (FrSpawn th t b)) = ?D"
    using p(1) by (simp_all add: fr_ghost_step_def)
  have ns: "Suc ?n \<notin> ?D" using dd by (auto simp: dead_ok_def)
  have nodes: "node_ok (add_task p ?n ?l) ?k' u (node s' u)" if u: "u \<le> Suc ?n" for u
  proof (cases "u = Suc ?n")
    case True
    then show ?thesis using node_ok_child [OF tr p(2) fr_invD(4) [OF inv p(2)] lim(2)] by (simp add: s' spawned_node)
  next
    case False
    then have un: "u \<le> ?n" using u by simp
    show ?thesis using node_ok_old [OF tr un fr_invD(4) [OF inv un]]
      by (auto simp: s' spawned_node(1) [OF p(2) un] node_ok_spawner)
  qed
  have par: "par s' u = (if u = Suc ?n then p else par s u)" if "u \<le> Suc ?n" for u
    using that p by (cases "u = Suc ?n") (simp_all add: s' spawned_node)
  have "distinct (kids (node s' u)) \<and> set (kids (node s' u)) = live_children s' ?D u" if u: "u \<le> Suc ?n" "u \<notin> ?D" for u
  proof (cases "u = Suc ?n")
    case True
    have "par s' c \<noteq> Suc ?n" if "c \<le> Suc ?n" "c \<noteq> 0" for c
      using that par [of c] p(2) line_par(3) [OF inv, of c] by (cases "c = Suc ?n") auto
    then show ?thesis using True by (auto simp: s' spawned_node live_children_def)
  next
    case False
    then have un: "u \<le> ?n" using u by simp
    have k: "distinct (kids (node s u))" "set (kids (node s u)) = live_children s ?D u"
      using fr_invD(7) [OF inv] un u(2) by (simp_all add: lists_ok_def)
    moreover have "live_children s' ?D u = live_children s ?D u \<union> (if u = p then {Suc ?n} else {})"
      using ns par by (auto simp: le_Suc_eq live_children_def s' spawned_node)
    moreover have "kids (node s' u) = kids (node s u) @ (if u = p then [Suc ?n] else [])"
      by (simp add: s' spawned_node(1) [OF p(2) un])
    moreover have "Suc ?n \<notin> live_children s ?D u" by (simp add: live_children_def)
    ultimately show ?thesis by auto
  qed
  then have lists: "lists_ok s' ?D" by (simp add: lists_ok_def s' spawned_node)
  have js: "joinset s' = joinset s" "num_dead_tasks s' = num_dead_tasks s" "dead_clock_value s' = dead_clock_value s"
    "cur s' = cur s" "task_id_ctr s' = Suc ?n"
    by (simp_all add: s' spawned_def)
  note jo = fr_invD(8) [OF inv] and fi = fr_invD(9) [OF inv]
  have nd: "num_dead_tasks s \<le> ?n" "{1..num_dead_tasks s} \<subseteq> ?D" using fi by (simp_all add: finished_ok_def)
  have "join_entry s' ?D u" if u: "u \<le> Suc ?n" "u \<noteq> 0" for u
  proof (cases "u = Suc ?n")
    case True
    then show ?thesis using jo ns nd(1) by (simp add: joins_ok_def join_entry_def js)
  next
    case False
    then have "u \<le> ?n" "par s' u = par s u" using u par by simp_all
    moreover have "join_entry s ?D u" using jo u(2) \<open>u \<le> ?n\<close> by (simp add: joins_ok_def)
    ultimately show ?thesis by (simp only: join_entry_def js)
  qed
  then have joins: "joins_ok s' ?D" using jo by (simp add: joins_ok_def js)
  have "num_dead_tasks s < p" if "p \<noteq> 0" using that nd(2) p(3) by (meson atLeastAtMost_iff not_le less_one subsetD)
  moreover have "dead_clock_value s < clock (node s 0)" using fi by (simp add: finished_ok_def)
  moreover have "clock (node s 0) \<le> clock (node s' 0)"
    using less_imp_le [OF clock_small(5) [OF inv, of 0]] p(2) by (simp add: s' spawned_node)
  ultimately have fin: "finished_ok s' ?k' ?D"
    using fi ns nd(1) by (auto simp: finished_ok_def js par le_Suc_eq intro: order.strict_trans2)
  have zero: "node s' u = zero_TaskState" if "Suc ?n < u" for u
    using fr_invD(5) [OF inv, of u] that p(2) by (simp add: s' spawned_def)
  have "set (cur s' th) \<subseteq> {..Suc ?n}" for th using fr_invD(10) [OF inv, of th] by (auto simp: js)
  then show ?thesis
    unfolding fr_inv_def g' js(5)
    using lim(1) tree_ok_add [OF tr p(2)] dead_ok_add [OF tr p(2,3) dd] nodes zero
      fr_spawn_forks [OF inv p(2), of t] lists joins fin fr_invD(11) [OF inv] by (simp add: s' js(4) [unfolded s'])
qed

end
