(* ===== verification/FrWait.thy ===== *)
theory FrWait
  imports FrSpawn
begin

text \<open>
  Waiting returns, for every tree of children: it leads the join set from every live task
  below to its parent and clears their child lists.  Waits and the events that only move
  stacks and locks keep the invariant of \<open>FrRuns\<close>.
\<close>

section \<open>What the loop does\<close>

definition clear_kids :: "TaskState \<Rightarrow> TaskState" where
  "clear_kids x = x\<lparr>child_list := map_option (\<lambda>_. []) (child_list x)\<rparr>"

text \<open>\<open>p\<close> and the tasks \<open>C\<close> lose their lists, the tasks \<open>C\<close> are joined to their parents.\<close>

definition joined :: "fastracer \<Rightarrow> nat \<Rightarrow> nat set \<Rightarrow> fastracer" where
  "joined s p C =
     s\<lparr>tstate_nodes := (\<lambda>x. if x = p \<or> x \<in> C then clear_kids (node s x) else node s x),
       joinset := (\<lambda>y. if y \<noteq> 0 \<and> y - 1 \<in> C then Suc (par s (y - 1)) else joinset s y)\<rparr>"

definition live_below :: "fastracer \<Rightarrow> task_ghost \<Rightarrow> nat set \<Rightarrow> nat set" where
  "live_below s g cs = {x. x \<le> task_id_ctr s \<and> x \<notin> g_dead g \<and> (\<exists>c \<in> cs. c \<in> set (g_line g x))}"

lemma clear_kids_simps [simp]:
  "kids (clear_kids x) = []" "parent_taskId (clear_kids x) = parent_taskId x" "taskId (clear_kids x) = taskId x"
  "clock (clear_kids x) = clock x" "clear_kids (clear_kids x) = clear_kids x"
  by (auto simp: clear_kids_def option.map_comp o_def)

lemma clear_kids_empty: "kids x = [] \<Longrightarrow> clear_kids x = x"
  by (cases "child_list x") (auto simp: clear_kids_def kids_def)

lemma clear_zero [simp]: "clear_kids zero_TaskState = zero_TaskState"
  by (simp add: clear_kids_empty)

lemma same_lockset [simp]: "\<exists>l. x = x\<lparr>lockset := l\<rparr>" for x :: TaskState
  by (rule exI [of _ "lockset x"]) simp

lemma node_ok_clear [simp]: "node_ok line k t (clear_kids x) \<longleftrightarrow> node_ok line k t x"
  by (simp add: node_ok_def clear_kids_def cong: option.case_cong)

lemma joined_simps [simp]:
  "task_id_ctr (joined s p C) = task_id_ctr s" "num_dead_tasks (joined s p C) = num_dead_tasks s"
  "dead_clock_value (joined s p C) = dead_clock_value s" "cur (joined s p C) = cur s"
  "par (joined s p C) x = par s x" "taskId (node (joined s p C) x) = taskId (node s x)"
  "node (joined s p C) x = (if x = p \<or> x \<in> C then clear_kids (node s x) else node s x)"
  "joinset (joined s p C) (Suc x) = (if x \<in> C then Suc (par s x) else joinset s (Suc x))"
  by (simp_all add: joined_def)

lemma joined_empty: "kids (node s p) = [] \<Longrightarrow> joined s p {} = s"
  by (rule fastracer.equality) (auto simp: joined_def clear_kids_empty fun_eq_iff)

lemma joined_Nil: "joined s p {} = clear_list p s"
  by (rule fastracer.equality) (auto simp: joined_def clear_list_def upd_node_def clear_kids_def)

lemma joined_Cons:
  assumes "taskId (node s c) = c" "taskId (node s p) = p" "par s c = p" "c \<noteq> p"
  shows "joined (let s2 = joined s c C in s2\<lparr>joinset := (joinset s2)(taskId (node s2 c) + 1 := taskId (node s2 p) + 1)\<rparr>) p E =
    joined s p (insert c (C \<union> E))"
  using assms by (intro fastracer.equality) (auto simp: joined_def Let_def fun_eq_iff)

section \<open>The loop returns\<close>

lemma live_above:
  assumes inv: "fr_inv s g" and x: "x \<le> task_id_ctr s" "x \<notin> g_dead g" "c \<in> set (g_line g x)"
  shows "c \<le> task_id_ctr s" "c \<notin> g_dead g"
  using tree_line_le [OF fr_invD(2) [OF inv] x(1,3)] dead_below [OF fr_invD(3) [OF inv] _ x(1,3)] x(2) by blast+

lemma child_line:
  assumes inv: "fr_inv s g" and x: "x \<le> task_id_ctr s" "p \<in> set (g_line g x)" "x \<noteq> p"
  shows "par s (branch (g_line g) x p) = p" "branch (g_line g) x p \<noteq> 0" "branch (g_line g) x p \<in> set (g_line g x)"
proof -
  note tr = fr_invD(2) [OF inv]
  let ?c = "branch (g_line g) x p"
  note b = branch_on_line [OF tr x(1,2) x(3) [symmetric]]
  show "?c \<in> set (g_line g x)" by (rule b(1))
  have cn: "?c \<le> task_id_ctr s" using tree_line_le [OF tr x(1) b(1)] .
  have pn: "p \<le> task_id_ctr s" using tree_line_le [OF tr x(1,2)] .
  have "0 < length (g_line g p)" using tree_line(1) [OF tr pn] by simp
  then have "1 < length (g_line g ?c)" using b(2) by simp
  moreover have "g_line g 0 = [0]"
    using fr_invD(4) [OF inv, of 0] tree_line(1-4) [OF tr, of 0]
    by (cases "g_line g 0" rule: rev_cases) (auto simp: sorted_wrt_append hd_append split: if_splits)
  ultimately show c0: "?c \<noteq> 0" by (metis One_nat_def length_Cons less_irrefl list.size(3))
  note l = line_par [OF inv cn c0]
  have ne: "p \<noteq> ?c" using b(2) by auto
  have "p \<in> set (g_line g (par s ?c))"
    using b(3) ne l(1) by simp
  moreover have "length (g_line g (par s ?c)) = length (g_line g p)" using b(2) l(1) by simp
  ultimately have "par s ?c \<in> set (g_line g p)"
    using tree_length_le [OF tr l(3) tree_line(6) [OF tr l(3)], of p] by simp
  then show "par s ?c = p" using tree_antisym [OF tr _ \<open>p \<in> set (g_line g (par s ?c))\<close> l(3) pn] by simp
qed

lemma child_branch:
  assumes inv: "fr_inv s g" and x: "x \<le> task_id_ctr s" "c \<in> set (g_line g x)" "c \<noteq> 0"
  shows "branch (g_line g) x (par s c) = c" "par s c \<in> set (g_line g x)"
proof -
  note tr = fr_invD(2) [OF inv]
  have cn: "c \<le> task_id_ctr s" using tree_line_le [OF tr x(1,2)] .
  note l = line_par [OF inv cn x(3)] and p = tree_prefix [OF tr x(1,2)]
  have "length (g_line g c) = Suc (length (g_line g (par s c)))" using l(1) by simp
  then show "branch (g_line g) x (par s c) = c" using p(5) by (simp add: branch_def)
  show "par s c \<in> set (g_line g x)" using tree_trans [OF tr x(1,2) l(4)] .
qed

lemma live_below_child:
  assumes inv: "fr_inv s g" and c: "c \<le> task_id_ctr s" "c \<notin> g_dead g"
  shows "live_below s g {c} = insert c (live_below s g (live_children s (g_dead g) c))"
proof (intro set_eqI iffI)
  fix x assume "x \<in> live_below s g {c}"
  then have x: "x \<le> task_id_ctr s" "x \<notin> g_dead g" "c \<in> set (g_line g x)" by (simp_all add: live_below_def)
  show "x \<in> insert c (live_below s g (live_children s (g_dead g) c))"
  proof (cases "x = c")
    case False
    note b = child_line [OF inv x(1,3) False]
    have "branch (g_line g) x c \<in> live_children s (g_dead g) c"
      using b live_above [OF inv x(1,2) b(3)] by (simp add: live_children_def)
    then show ?thesis using x b(3) by (auto simp: live_below_def)
  qed simp
next
  fix x assume x: "x \<in> insert c (live_below s g (live_children s (g_dead g) c))"
  show "x \<in> live_below s g {c}"
  proof (cases "x = c")
    case True
    then show ?thesis using c tree_line(6) [OF fr_invD(2) [OF inv] c(1)] by (simp add: live_below_def)
  next
    case False
    then obtain d where d: "d \<noteq> 0" "par s d = c" "d \<in> set (g_line g x)" "x \<le> task_id_ctr s" "x \<notin> g_dead g"
      using x by (auto simp: live_below_def live_children_def)
    then show ?thesis using child_branch(2) [OF inv d(4,3,1)] by (simp add: live_below_def)
  qed
qed

lemma live_below_Un: "live_below s g (A \<union> B) = live_below s g A \<union> live_below s g B"
  by (auto simp: live_below_def)

definition same_tree :: "fastracer \<Rightarrow> fastracer \<Rightarrow> bool" where
  "same_tree s s1 \<longleftrightarrow> (\<forall>x \<le> task_id_ctr s. par s1 x = par s x \<and> taskId (node s1 x) = x)"

lemma wait_children_joined:
  assumes inv: "fr_inv s g"
  shows "p \<le> task_id_ctr s \<Longrightarrow> same_tree s s1 \<Longrightarrow> distinct cs \<Longrightarrow> set cs \<subseteq> live_children s (g_dead g) p \<Longrightarrow>
    (\<forall>x \<in> live_below s g (set cs). kids (node s1 x) = kids (node s x)) \<Longrightarrow>
    wait_children s1 p cs = Some (joined s1 p (live_below s g (set cs)))"
proof (induction "task_id_ctr s - p" arbitrary: p s1 cs rule: less_induct)
  case (less p)
  note outer = less.hyps and pn = less.prems(1)
  show ?case using less.prems(2-)
  proof (induction cs arbitrary: s1)
    case Nil
    then show ?case by (simp add: wait_children.simps live_below_def joined_Nil)
  next
    case (Cons c cs)
    let ?D = "g_dead g" and ?n = "task_id_ctr s"
    let ?ks = "kids (node s c)" and ?B = "live_below s g (live_children s (g_dead g) c)"
    have c: "c \<le> ?n" "c \<noteq> 0" "par s c = p" "c \<notin> ?D" using Cons.prems(3) by (simp_all add: live_children_def)
    have pc: "p < c" using line_par(2) [OF inv c(1,2)] c(3) by simp
    have ks: "distinct ?ks" "set ?ks = live_children s ?D c"
      using fr_invD(7) [OF inv] c by (simp_all add: lists_ok_def)
    have split: "live_below s g (set (c # cs)) = insert c ?B \<union> live_below s g (set cs)"
      using live_below_Un [of s g "{c}" "set cs"] live_below_child [OF inv c(1,4)] by simp
    have k1: "kids (node s1 c) = ?ks" "\<forall>x \<in> ?B. kids (node s1 x) = kids (node s x)"
      "\<forall>x \<in> live_below s g (set cs). kids (node s1 x) = kids (node s x)"
      using Cons.prems(4) unfolding split by blast+
    have tid: "taskId (node s1 c) = c" "taskId (node s1 p) = p" "par s1 c = p"
      using Cons.prems(1) c pn by (simp_all add: same_tree_def)
    have "wait_children s1 c ?ks = Some (joined s1 c ?B)" if "?ks \<noteq> []"
      using outer [OF _ c(1) Cons.prems(1) ks(1)] ks(2) k1(2) pc c(1) by simp
    moreover have "s1 = joined s1 c ?B" if "?ks = []"
      using that ks(2) joined_empty [of s1 c] k1(1) by (simp add: live_below_def)
    moreover have "task_at s1 c = Some (node s1 c)" using c(1) fr_invD(1) [OF inv] by (simp add: task_at_def)
    ultimately have eq: "wait_children s1 p (c # cs) =
        wait_children (let s2 = joined s1 c ?B in
          s2\<lparr>joinset := (joinset s2)(taskId (node s2 c) + 1 := taskId (node s2 p) + 1)\<rparr>) p cs" (is "_ = wait_children ?s3 p cs")
      using k1(1) tid(1) c(2) by (subst wait_children.simps) (auto simp: Let_def simp del: joined_simps)
    have "same_tree s ?s3" using Cons.prems(1) by (auto simp: same_tree_def Let_def)
    moreover have "\<forall>x \<in> live_below s g (set cs). kids (node ?s3 x) = kids (node s x)"
    proof
      fix x assume x: "x \<in> live_below s g (set cs)"
      then obtain d where d: "d \<in> set cs" "d \<in> set (g_line g x)" "x \<le> ?n" "x \<notin> ?D" by (auto simp: live_below_def)
      have dp: "par s d = p" "d \<noteq> 0" using Cons.prems(3) d(1) by (auto simp: live_children_def)
      have "c \<notin> set (g_line g x)"
      proof
        assume "c \<in> set (g_line g x)"
        then have "c = d" using child_branch(1) [OF inv d(3) _ c(2)] child_branch(1) [OF inv d(3,2) dp(2)] c(3) dp(1) by simp
        then show False using d(1) Cons.prems(2) by simp
      qed
      then have "x \<notin> live_below s g {c}" by (simp add: live_below_def)
      then have "x \<noteq> c" "x \<notin> ?B" using live_below_child [OF inv c(1,4)] by blast+
      then show "kids (node ?s3 x) = kids (node s x)" using k1(3) x by (simp add: Let_def)
    qed
    ultimately have "wait_children ?s3 p cs = Some (joined ?s3 p (live_below s g (set cs)))"
      using Cons.IH [of ?s3] Cons.prems(2,3) by simp
    then show ?case
      using eq joined_Cons [OF tid(1,2,3), of ?B "live_below s g (set cs)"] pc unfolding split by simp
  qed
qed

section \<open>The invariant after a wait\<close>

lemma live_below_all:
  assumes inv: "fr_inv s g" and p: "p \<le> task_id_ctr s" "p \<notin> g_dead g"
  shows "live_below s g (set (kids (node s p))) = below s g p - g_dead g" "p \<notin> below s g p"
proof -
  have "set (kids (node s p)) = live_children s (g_dead g) p"
    using fr_invD(7) [OF inv] p by (simp add: lists_ok_def)
  then have "insert p (live_below s g (set (kids (node s p)))) = live_below s g {p}"
    using live_below_child [OF inv p] by simp
  moreover have "p \<notin> live_below s g (set (kids (node s p)))"
  proof
    assume "p \<in> live_below s g (set (kids (node s p)))"
    then obtain c where c: "c \<in> live_children s (g_dead g) p" "c \<in> set (g_line g p)"
      using \<open>set (kids (node s p)) = _\<close> by (auto simp: live_below_def)
    then have "c \<le> task_id_ctr s" "c \<noteq> 0" "par s c = p" by (simp_all add: live_children_def)
    then show False using line_par(2) [OF inv] tree_prefix(1) [OF fr_invD(2) [OF inv] p(1) c(2)] by (metis not_le)
  qed
  moreover show "p \<notin> below s g p" by (simp add: task_below_def)
  moreover have "live_below s g {p} = insert p (below s g p - g_dead g)"
    using p tree_line(6) [OF fr_invD(2) [OF inv] p(1)] by (auto simp: live_below_def task_below_def)
  ultimately show "live_below s g (set (kids (node s p))) = below s g p - g_dead g"
    using insert_ident [of p "live_below s g (set (kids (node s p)))" "below s g p - g_dead g"] by simp
qed

text \<open>A wait always returns.\<close>

lemma wait_task_eq:
  assumes inv: "fr_inv s g" and p: "p \<le> task_id_ctr s" "p \<notin> g_dead g"
  shows "Capturewait_for_all_task s p =
    Some (if p = 0 \<and> kids (node s 0) \<noteq> [] then reset_dead 0 s else joined s p (below s g p - g_dead g))"
proof -
  have t: "task_at s p = Some (node s p)" "taskId (node s p) = p"
    using p(1) fr_invD(1,4) [OF inv] by (simp_all add: task_at_def node_ok_def)
  have k: "distinct (kids (node s p))" "set (kids (node s p)) = live_children s (g_dead g) p"
    using fr_invD(7) [OF inv] p by (simp_all add: lists_ok_def)
  note lb = live_below_all(1) [OF inv p]
  show ?thesis
  proof (cases "kids (node s p) = []")
    case True
    have "live_below s g (set (kids (node s p))) = {}" using True by (simp add: live_below_def)
    then have "joined s p (below s g p - g_dead g) = s" using joined_empty [OF True] lb by metis
    then show ?thesis using True t by (auto simp: Capturewait_for_all_task_def)
  next
    case False
    have "same_tree s s" using fr_invD(4) [OF inv] by (simp add: same_tree_def node_ok_def)
    then have "wait_children s p (kids (node s p)) = Some (joined s p (below s g p - g_dead g))"
      using wait_children_joined [OF inv p(1) _ k(1)] k(2) lb by simp
    then show ?thesis using False t by (auto simp: Capturewait_for_all_task_def)
  qed
qed

lemma wait_dead:
  "cur s th = p # ts \<Longrightarrow> g_dead (fr_ghost_step s g (FrWait th)) = join_below p (task_id_ctr s) (g_line g) (g_dead g)"
  "g_line (fr_ghost_step s g (FrWait th)) = g_line g" "g_fork (fr_ghost_step s g (FrWait th)) = g_fork g"
  by (auto simp: fr_ghost_step_def join_below_def task_below_def split: list.splits)

lemma below_par:
  assumes inv: "fr_inv s g" and c: "c \<le> task_id_ctr s" "c \<noteq> 0" and p: "p \<in> set (g_line g c)" "c \<noteq> p"
  shows "par s c = p \<or> par s c \<in> below s g p"
  using line_par [OF inv c] p by (auto simp: task_below_def)

lemma joined_inv:
  assumes inv: "fr_inv s g" and p: "p \<le> task_id_ctr s" "p \<notin> g_dead g"
    and z: "p = 0 \<Longrightarrow> kids (node s 0) = []"
    and g': "g_line g' = g_line g" "g_fork g' = g_fork g" "g_dead g' = join_below p (task_id_ctr s) (g_line g) (g_dead g)"
  shows "fr_inv (joined s p (below s g p - g_dead g)) g'"
proof -
  let ?n = "task_id_ctr s" and ?D = "g_dead g" and ?D' = "join_below p (task_id_ctr s) (g_line g) (g_dead g)"
  let ?C = "below s g p - ?D" let ?s = "joined s p ?C"
  note tr = fr_invD(2) [OF inv] and dd = fr_invD(3) [OF inv]
  have D': "?D' = ?D \<union> below s g p" by (auto simp: join_below_def task_below_def)
  have p0: "?C = {}" if "p = 0"
    using live_below_all(1) [OF inv p] z [OF that] that by (simp add: live_below_def)
  have Cn: "x \<le> ?n" "x \<noteq> 0" if "x \<in> ?C" for x
    using that tree_prefix(1) [OF tr, of x p] by (auto simp: task_below_def)
  have nodes: "\<forall>t \<le> ?n. node_ok (g_line g) (g_fork g) t (node ?s t)" using fr_invD(4) [OF inv] by simp
  have "node ?s t = zero_TaskState" if "?n < t" for t
  proof -
    have "t \<noteq> p" "t \<notin> ?C" using that p(1) Cn(1) [of t] by auto
    then show ?thesis using fr_invD(5) [OF inv that] by simp
  qed
  then have zeros: "\<forall>t > ?n. node ?s t = zero_TaskState" by blast
  have "unat (clock (node ?s t)) + (if kids (node ?s t) = [] then 0 else 1) \<le> 2 * ?n + 1" if "t \<le> ?n" for t
  proof -
    have "unat (clock (node s t)) + (if kids (node s t) = [] then 0 else 1) \<le> 2 * ?n + 1"
      using fr_invD(6) [OF inv] that by (simp add: forks_ok_def)
    then show ?thesis by (auto split: if_splits)
  qed
  moreover have clk: "clock (node ?s t) = clock (node s t)" for t by simp
  ultimately have forks: "forks_ok ?s (g_fork g)"
    using fr_invD(6) [OF inv] unfolding forks_ok_def joined_simps(1,5) clk by blast
  have "distinct (kids (node ?s t)) \<and> set (kids (node ?s t)) = live_children ?s ?D' t" if t: "t \<le> ?n" "t \<notin> ?D'" for t
  proof (cases "t = p")
    case True
    have "c \<in> ?D'" if "c \<le> ?n" "c \<noteq> 0" "par s c = p" for c
      using line_par [OF inv that(1,2)] that by (auto simp: D' task_below_def)
    then have no: "c \<notin> live_children ?s ?D' p" for c by (cases "c \<le> ?n \<and> c \<noteq> 0") (auto simp: live_children_def)
    have "live_children ?s ?D' p = {}" by (rule equals0I) (use no in blast)
    then show ?thesis using True by simp
  next
    case False
    have "live_children ?s ?D' t = live_children s ?D t"
    proof -
      have "c \<notin> below s g p" if "c \<le> ?n" "c \<noteq> 0" "par s c = t" for c
        using below_par [OF inv that(1,2), of p] that(3) False t by (auto simp: D' task_below_def)
      then show ?thesis by (auto simp: live_children_def D')
    qed
    moreover have "t \<notin> ?C" "t \<notin> ?D" using t by (auto simp: D')
    ultimately show ?thesis using fr_invD(7) [OF inv] t False by (simp add: lists_ok_def)
  qed
  then have lists: "lists_ok ?s ?D'" by (simp add: lists_ok_def)
  note fi = fr_invD(9) [OF inv] and jo = fr_invD(8) [OF inv]
  have nd: "t \<in> ?D" if "t \<le> num_dead_tasks s" "t \<noteq> 0" for t using fi that by (auto simp: finished_ok_def)
  have "join_entry ?s ?D' t" if t: "t \<le> ?n" "t \<noteq> 0" for t
  proof -
    have e: "join_entry s ?D t" using jo t by (simp add: joins_ok_def)
    show ?thesis
    proof (cases "t \<in> ?C")
      case True
      then show ?thesis using nd [OF _ t(2)] by (auto simp: join_entry_def D')
    next
      case False
      then have "t \<in> ?D' \<longleftrightarrow> t \<in> ?D" by (auto simp: D')
      moreover have "par ?s t = par s t" "joinset ?s (Suc t) = joinset s (Suc t)" using False by auto
      ultimately show ?thesis using e by (simp only: join_entry_def joined_simps(2))
    qed
  qed
  moreover have "joinset ?s 1 = 0" using jo Cn(2) by (auto simp: joined_def joins_ok_def)
  moreover have "joinset ?s (Suc t) = 0" if "?n < t" for t
  proof -
    have "t \<notin> ?C" using that Cn(1) [of t] by auto
    then show ?thesis using jo that by (simp add: joins_ok_def)
  qed
  ultimately have joins: "joins_ok ?s ?D'" by (simp add: joins_ok_def)
  have "t \<notin> ?D'" if t: "t \<le> ?n" "num_dead_tasks s < t" "par s t = 0" for t
  proof -
    have "t \<notin> ?D" "t \<noteq> 0" using fi t by (auto simp: finished_ok_def)
    moreover have "t \<notin> ?C" if "p \<noteq> 0"
    proof
      assume c: "t \<in> ?C"
      then have "par s t = p \<or> par s t \<in> below s g p"
        using below_par [OF inv t(1) \<open>t \<noteq> 0\<close>, of p] by (simp add: task_below_def)
      then have "p \<in> set (g_line g 0)" using that t(3) by (simp add: task_below_def)
      then show False using tree_prefix(1) [OF tr, of 0 p] that by simp
    qed
    ultimately show ?thesis using p0 by (auto simp: D')
  qed
  then have fin: "finished_ok ?s (g_fork g) ?D'"
    using fi unfolding finished_ok_def joined_simps(1,2,3,5) clk D' by blast
  show ?thesis
    unfolding fr_inv_def g'
    using fr_invD(1,10,11) [OF inv] tr dead_ok_join [OF tr p(1) dd] nodes zeros forks lists joins fin by simp
qed

lemma reset_inv:
  assumes inv: "fr_inv s g" and k: "kids (node s 0) \<noteq> []"
    and g': "g_line g' = g_line g" "g_fork g' = g_fork g" "g_dead g' = join_below 0 (task_id_ctr s) (g_line g) (g_dead g)"
  shows "fr_inv (reset_dead 0 s) g'"
proof -
  let ?n = "task_id_ctr s" and ?D = "g_dead g" and ?D' = "join_below 0 (task_id_ctr s) (g_line g) (g_dead g)"
  let ?s = "reset_dead 0 s"
  note tr = fr_invD(2) [OF inv] and dd = fr_invD(3) [OF inv] and c0 = clock_small [OF inv le0]
  have D': "?D' = {1..?n}"
    using dead_ok_join [OF tr le0 dd] tree_line(7) [OF tr] by (fastforce simp: join_below_def dead_ok_def)
  have s: "task_id_ctr ?s = ?n" "joinset ?s = joinset s" "cur ?s = cur s" "num_dead_tasks ?s = ?n"
    "dead_clock_value ?s = clock (node s 0)"
    "\<And>t. node ?s t = (if t = 0 then (clear_kids (node s 0))\<lparr>clock := clock (node s 0) + 1\<rparr> else node s t)"
    by (simp_all add: reset_dead_def clear_list_def upd_node_def Let_def clear_kids_def)
  have par: "par ?s t = par s t" for t by (simp add: s)
  have nk: "node_ok (g_line g) (g_fork g) 0 ((clear_kids (node s 0))\<lparr>clock := c\<rparr>)" for c
    using fr_invD(4) [OF inv le0] by (simp add: node_ok_def clear_kids_def cong: option.case_cong)
  have "unat (clock (node s 0)) + 1 \<le> 2 * ?n + 1" using fr_invD(6) [OF inv] k by (auto simp: forks_ok_def)
  moreover have "1 \<le> clock (node s 0) + 1" using c0(3,5) by simp
  ultimately have clk: "\<forall>t \<le> ?n. 1 \<le> clock (node ?s t) \<and> unat (clock (node ?s t)) + (if kids (node ?s t) = [] then 0 else 1) \<le> 2 * ?n + 1"
    using fr_invD(6) [OF inv] c0(4) by (auto simp: forks_ok_def s)
  have "clock (node s t) \<le> clock (node ?s t)" for t using less_imp_le [OF c0(5)] by (simp add: s)
  then have "forks_ok ?s (g_fork g)"
    using fr_invD(6) [OF inv] clk unfolding forks_ok_def par s(1) by (meson order.strict_trans2)
  moreover have "lists_ok ?s ?D'" by (auto simp: lists_ok_def D' live_children_def s)
  moreover have "joins_ok ?s ?D'"
  proof -
    have "joinset s (Suc t) \<in> {0, Suc (par s t)}" if "t \<le> ?n" "t \<noteq> 0" for t
      using fr_invD(8) [OF inv] that by (auto simp: joins_ok_def join_entry_def split: if_splits)
    then have "join_entry ?s ?D' t" if "t \<le> ?n" "t \<noteq> 0" for t using that by (simp add: join_entry_def s(1-5) par)
    then show ?thesis using fr_invD(8) [OF inv] by (simp add: joins_ok_def s(1-5))
  qed
  moreover have "finished_ok ?s (g_fork g) ?D'" using c0(5) by (simp add: finished_ok_def s D')
  ultimately show ?thesis
    unfolding fr_inv_def g'
    using fr_invD(1,4,5,10,11) [OF inv] tr dead_ok_join [OF tr le0 dd] nk by (simp add: s)
qed

lemma wait_inv_step:
  assumes inv: "fr_inv s g" and d: "fr_disciplined s g (FrWait th)"
  shows "\<exists>s'. fr_step s (FrWait th) = Some s' \<and> fr_inv s' (fr_ghost_step s g (FrWait th))"
proof -
  have a: "active s g th" using d by (simp add: fr_disciplined_def)
  obtain p ts where p: "cur s th = p # ts" "p \<le> task_id_ctr s" "p \<notin> g_dead g" "th < NUM_THREADS"
    by (rule active_top [OF inv a])
  have st: "fr_step s (FrWait th) = Capturewait_for_all_task s p"
    using p(1,4) by (simp add: Capturewait_for_all_def cur_top_def)
  note g' = wait_dead(2,3) [of s g th] wait_dead(1) [OF p(1), of g]
  show ?thesis
  proof (cases "p = 0 \<and> kids (node s 0) \<noteq> []")
    case True
    then show ?thesis using st wait_task_eq [OF inv p(2,3)] reset_inv [OF inv _ g'(1,2)] g'(3) by simp
  next
    case False
    then show ?thesis using st wait_task_eq [OF inv p(2,3)] joined_inv [OF inv p(2,3) _ g'] by auto
  qed
qed

section \<open>The other events\<close>

lemma fr_inv_frame:
  assumes inv: "fr_inv s g"
    and s': "task_id_ctr s' = task_id_ctr s" "joinset s' = joinset s" "num_dead_tasks s' = num_dead_tasks s"
      "dead_clock_value s' = dead_clock_value s" "\<And>t. task_id_ctr s < t \<Longrightarrow> node s' t = node s t"
      "\<And>t. \<exists>l. node s' t = (node s t)\<lparr>lockset := l\<rparr>"
      "\<And>th. set (cur s' th) \<subseteq> {..task_id_ctr s}" "\<And>th. NUM_THREADS \<le> th \<Longrightarrow> cur s' th = []"
    and g': "g_line g' = g_line g" "g_fork g' = g_fork g" "g_dead g' = g_dead g"
  shows "fr_inv s' g'"
proof -
  have nd: "kids (node s' t) = kids (node s t)" "clock (node s' t) = clock (node s t)" "par s' t = par s t"
    "node_ok line k t (node s' t) \<longleftrightarrow> node_ok line k t (node s t)" for t line k
  proof -
    obtain l where "node s' t = (node s t)\<lparr>lockset := l\<rparr>" using s'(6) by blast
    then show "kids (node s' t) = kids (node s t)" "clock (node s' t) = clock (node s t)" "par s' t = par s t"
      "node_ok line k t (node s' t) \<longleftrightarrow> node_ok line k t (node s t)"
      by (simp_all add: node_ok_def cong: option.case_cong)
  qed
  have sub: "live_children s' D t = live_children s D t" "join_entry s' D t \<longleftrightarrow> join_entry s D t" for D t
    by (simp_all only: live_children_def join_entry_def s'(1-4) nd)
  have "forks_ok s' (g_fork g)" using fr_invD(6) [OF inv] by (simp only: forks_ok_def s'(1) nd)
  moreover have "lists_ok s' (g_dead g)" using fr_invD(7) [OF inv] by (simp only: lists_ok_def s'(1) nd sub)
  moreover have "joins_ok s' (g_dead g)" using fr_invD(8) [OF inv] by (simp add: joins_ok_def s'(1,2) sub)
  moreover have "finished_ok s' (g_fork g) (g_dead g)" using fr_invD(9) [OF inv] by (simp add: finished_ok_def s'(1-4) nd)
  moreover have "\<forall>t \<le> task_id_ctr s. node_ok (g_line g) (g_fork g) t (node s' t)"
    using fr_invD(4) [OF inv] by (simp add: nd)
  moreover have "\<forall>t > task_id_ctr s. node s' t = zero_TaskState" using fr_invD(5) [OF inv] s'(5) by simp
  ultimately show ?thesis
    unfolding fr_inv_def g' s'(1) using fr_invD(1-3) [OF inv] s'(7,8) by blast
qed

lemma clear_list_empty: "kids (node s t) = [] \<Longrightarrow> upd_node t (\<lambda>x. x\<lparr>child_list := map_option (\<lambda>_. []) (child_list x)\<rparr>) s = s"
  using clear_kids_empty [of "node s t"] by (simp add: upd_node_def clear_kids_def)

lemma access_shape:
  assumes "RecordMem s th a k = Some s'"
  obtains sh vi where "s' = s\<lparr>shadow_space := sh, all_violations := vi\<rparr>"
proof (cases "cur s th")
  case Nil
  then have "s' = s\<lparr>shadow_space := shadow_space s, all_violations := all_violations s\<rparr>"
    using assms by (simp add: RecordMem_def split: if_splits)
  then show thesis by (rule that)
next
  case (Cons t ts)
  let ?sh = "touch_page new_VarState (shadow_space s) (primary_index a)"
  let ?v = "cell_at new_VarState ?sh a"
  show thesis
  proof (cases "isRacy ?v")
    case True
    then have "s' = s\<lparr>shadow_space := ?sh, all_violations := all_violations s\<rparr>"
      using assms Cons by (simp add: RecordMem_def Let_def bind_eq_Some_conv split: if_splits)
    then show thesis by (rule that)
  next
    case False
    then obtain v r where "s' = (case r of None \<Rightarrow> s\<lparr>shadow_space := put_cell new_VarState ?sh a v\<rparr>
        | Some (t', k') \<Rightarrow> error (s\<lparr>shadow_space := put_cell new_VarState ?sh a v\<rparr>) a t' k' t k)"
      using assms Cons by (auto simp: RecordMem_def Let_def bind_eq_Some_conv split: if_splits)
    then have "s' = s\<lparr>shadow_space := put_cell new_VarState ?sh a v, all_violations := all_violations s'\<rparr>"
      by (cases r) (auto simp: error_def)
    then show thesis by (rule that)
  qed
qed

lemma access_frame:
  assumes "RecordMem s th a k = Some s'"
  shows "task_id_ctr s' = task_id_ctr s" "joinset s' = joinset s" "num_dead_tasks s' = num_dead_tasks s"
    "dead_clock_value s' = dead_clock_value s" "tstate_nodes s' = tstate_nodes s" "cur s' = cur s"
  by (rule access_shape [OF assms], simp)+

lemma lock_id_frame:
  assumes "lock_id s l = Some (i, s')"
  shows "task_id_ctr s' = task_id_ctr s" "joinset s' = joinset s" "num_dead_tasks s' = num_dead_tasks s"
    "dead_clock_value s' = dead_clock_value s" "tstate_nodes s' = tstate_nodes s" "cur s' = cur s"
  using assms by (auto simp: lock_id_def Let_def split: if_splits option.splits)

lemma lock_step_inv:
  assumes inv: "fr_inv s g" and t: "cur_top s th = Some t" and l: "lock_id s l = Some (i, s1)"
    and s': "s' = upd_node t (\<lambda>x. x\<lparr>lockset := f x\<rparr>) s1"
  shows "fr_inv s' g"
proof -
  have tn: "t \<le> task_id_ctr s"
    using t fr_invD(10) [OF inv, of th] by (auto simp: cur_top_def split: if_splits)
  have "\<exists>l. node s' u = (node s u)\<lparr>lockset := l\<rparr>" for u
  proof (cases "u = t")
    case False
    have "node s' u = (node s u)\<lparr>lockset := lockset (node s u)\<rparr>"
      using False by (simp add: s' upd_node_def lock_id_frame [OF l])
    then show ?thesis by blast
  qed (auto simp: s' upd_node_def lock_id_frame [OF l])
  then show ?thesis
    by (intro fr_inv_frame [OF inv]) (use tn fr_invD(10,11) [OF inv] in \<open>auto simp: s' upd_node_def lock_id_frame [OF l]\<close>)
qed

lemma fr_step_inv:
  assumes inv: "fr_inv s g" and d: "fr_disciplined s g e" and st: "fr_step s e = Some s'"
  shows "fr_inv s' (fr_ghost_step s g e)"
proof (cases e)
  case (FrSpawn th t b)
  then show ?thesis using fr_spawn_inv [OF inv] d st by blast
next
  case (FrWait th)
  then show ?thesis using wait_inv_step [OF inv] d st by fastforce
next
  case (FrBegin th t)
  then have t: "t \<le> task_id_ctr s" "kids (node s t) = []" using d by (simp_all add: fr_disciplined_def)
  have s': "th < NUM_THREADS" "s' = s\<lparr>cur := (cur s)(th := t # cur s th)\<rparr>"
    using st FrBegin t(2) clear_list_empty [of "s\<lparr>cur := (cur s)(th := t # cur s th)\<rparr>" t]
    by (auto simp: exec_begin_def Let_def bind_eq_Some_conv split: if_splits)
  show ?thesis
    by (rule fr_inv_frame [OF inv])
      (use t s' fr_invD(10,11) [OF inv] in \<open>auto simp: FrBegin fr_ghost_step_def\<close>)
next
  case (FrEnd th)
  then have s': "s' = s\<lparr>cur := (cur s)(th := tl (cur s th))\<rparr>" using st by (auto simp: exec_end_def bind_eq_Some_conv)
  have "set (tl (cur s th)) \<subseteq> {..task_id_ctr s}" for th using fr_invD(10) [OF inv, of th] by (cases "cur s th") auto
  then show ?thesis
    by (intro fr_inv_frame [OF inv])
      (use s' fr_invD(10,11) [OF inv] in \<open>auto simp: FrEnd fr_ghost_step_def\<close>)
next
  case (FrAcquire th l)
  then show ?thesis
    using st lock_step_inv [OF inv] by (auto simp: CaptureLockAcquire_def bind_eq_Some_conv fr_ghost_step_def)
next
  case (FrRelease th l)
  then show ?thesis
    using st lock_step_inv [OF inv] by (auto simp: CaptureLockRelease_def bind_eq_Some_conv fr_ghost_step_def)
next
  case (FrAccess th a k)
  then have "RecordMem s th a k = Some s'" using st by simp
  note f = access_frame [OF this]
  have "\<exists>l. node s t = (node s t)\<lparr>lockset := l\<rparr>" for t by (rule exI [of _ "lockset (node s t)"]) simp
  then show ?thesis
    by (intro fr_inv_frame [OF inv])
      (use fr_invD(10,11) [OF inv] in \<open>auto simp: f FrAccess fr_ghost_step_def split: list.split\<close>)
qed

lemma fr_reaches_inv:
  assumes "fr_reaches es s g"
  shows "fr_inv s g"
proof -
  have "fr_inv (fst p') (snd p')" if "fr_traced p e = Some p'" "fr_inv (fst p) (snd p)" for p p' e
    using fr_step_inv [OF that(2)] that(1) by (auto simp: fr_traced_def bind_eq_Some_conv split: if_splits)
  then have "run fr_traced p es = Some p' \<Longrightarrow> fr_inv (fst p) (snd p) \<Longrightarrow> fr_inv (fst p') (snd p')" for p p'
    by (rule run_invariant [where P = "\<lambda>p. fr_inv (fst p) (snd p)"])
  from this [OF assms [unfolded fr_reaches_def]] show ?thesis using fr_inv_init by simp
qed

end
