(* ===== verification/FrHb.thy ===== *)
theory FrHb
  imports FrWait
begin

text \<open>
  The clock that FasTracer compares an access with decides the happens-before order: for
  accesses the main task's waits have not finished, \<open>access_clock\<close> reaches the clock of the
  access exactly if the current task has seen it.
\<close>

section \<open>Lookups\<close>

lemma parent_clock_eq:
  assumes inv: "fr_inv s g" and w: "w \<le> task_id_ctr s" and t: "t \<le> task_id_ctr s"
  shows "parent_clock s (node s w) t =
    Some (if t \<in> set (g_line g w) \<and> t \<noteq> w then g_fork g (branch (g_line g) w t) else 0)"
proof -
  let ?x = "node s w" and ?d = "depth (node s t)"
  note tr = fr_invD(2) [OF inv]
  have nw: "node_ok (g_line g) (g_fork g) w ?x" and nt: "node_ok (g_line g) (g_fork g) t (node s t)"
    using fr_invD(4) [OF inv] w t by blast+
  have len: "length (g_line g w) = Suc (depth ?x)" "length (g_line g t) = Suc ?d"
    using nw nt by (simp_all add: node_ok_def)
  have at: "task_at s t = Some (node s t)" using t fr_invD(1) [OF inv] by (simp add: task_at_def)
  show ?thesis
  proof (cases "t \<in> set (g_line g w) \<and> t \<noteq> w")
    case True
    then have lt: "?d < depth ?x" using proper_length [OF tr w, of t] True len by simp
    have on: "g_line g w ! ?d = t" using tree_prefix(5) [OF tr w] True len by force
    have b: "branch (g_line g) w t = g_line g w ! Suc ?d" using len by (simp add: branch_def)
    show ?thesis
    proof (cases "?d < 2")
      case True
      then have "cached_tid ?x ?d = t \<and> cached_clock ?x ?d = g_fork g (g_line g w ! Suc ?d)"
        using nw lt on by (simp add: node_ok_def)
      then show ?thesis
        using True lt at b \<open>t \<in> _ \<and> _\<close> by (simp add: parent_clock_def NUM_FIXED_TASK_ENTRIES_def)
    next
      case False
      then obtain m where m: "my_vc ?x = Some m" "map_of m t = Some (g_fork g (g_line g w ! Suc ?d))"
        using nw lt on by (auto simp: node_ok_def split: option.splits)
      then show ?thesis
        using False lt at b \<open>t \<in> _ \<and> _\<close> by (simp add: parent_clock_def NUM_FIXED_TASK_ENTRIES_def)
    qed
  next
    case False
    show ?thesis
    proof (cases "depth ?x \<le> ?d")
      case True
      then show ?thesis using False at by (auto simp: parent_clock_def)
    next
      case lt: False
      then have ne: "t \<noteq> w" "t \<notin> set (g_line g w)" using False by auto
      have "?d < length (g_line g w)" using lt len by simp
      then have on: "g_line g w ! ?d \<noteq> t" using ne(2) nth_mem by metis
      show ?thesis
      proof (cases "?d < 2")
        case True
        then have "cached_tid ?x ?d \<noteq> t" using nw lt on by (simp add: node_ok_def)
        then show ?thesis using True lt at ne by (simp add: parent_clock_def NUM_FIXED_TASK_ENTRIES_def)
      next
        case False
        then obtain m where m: "my_vc ?x = Some m" "fst ` set m \<subseteq> set (g_line g w)"
          using nw lt by (auto simp: node_ok_def split: option.splits)
        then have "map_of m t = None" using ne by (auto simp: map_of_eq_None_iff)
        then show ?thesis using False lt at ne m by (simp add: parent_clock_def NUM_FIXED_TASK_ENTRIES_def)
      qed
    qed
  qed
qed

lemma find_root_eq:
  assumes inv: "fr_inv s g"
  shows "t \<le> task_id_ctr s \<Longrightarrow> t = 0 \<or> num_dead_tasks s < t \<Longrightarrow>
    find_root s (Suc t) = Some (Suc (top (g_line g) (g_dead g) t))"
proof (induction t rule: less_induct)
  case (less t)
  note tr = fr_invD(2) [OF inv] and dd = fr_invD(3) [OF inv] and jo = fr_invD(8) [OF inv]
  have lim: "\<not> MAX_NUM_TASKS < Suc t" using less.prems(1) fr_invD(1) [OF inv] by simp
  show ?case
  proof (cases "t \<in> g_dead g")
    case True
    then have t: "t \<noteq> 0" "num_dead_tasks s < t" using dd less.prems(2) by (auto simp: dead_ok_def)
    note l = line_par [OF inv less.prems(1) t(1)]
    have j: "joinset s (Suc t) = Suc (par s t)"
      using jo less.prems(1) t True by (simp add: joins_ok_def join_entry_def)
    have p: "num_dead_tasks s < par s t"
      using fr_invD(9) [OF inv] less.prems(1) t(2) True by (auto simp: finished_ok_def)
    have "top (g_line g) (g_dead g) t = top (g_line g) (g_dead g) (par s t)"
      using top_dead [OF tr less.prems(1) dd True l(4)] l(1,2) by simp
    then show ?thesis using less.IH [OF l(2,3)] p j lim by (subst find_root.simps) simp
  next
    case False
    have "joinset s (Suc t) = 0"
      using jo less.prems False by (cases "t = 0") (auto simp: joins_ok_def join_entry_def)
    then show ?thesis using top_self [OF tr less.prems(1) dd False] lim by (subst find_root.simps) simp
  qed
qed

text \<open>The join set never leads in a circle.\<close>

lemma find_root_returns:
  assumes inv: "fr_inv s g"
  shows "t \<le> task_id_ctr s \<Longrightarrow> \<exists>r \<le> t. find_root s (Suc t) = Some (Suc r)"
proof (induction t rule: less_induct)
  case (less t)
  have lim: "\<not> MAX_NUM_TASKS < Suc t" using less.prems fr_invD(1) [OF inv] by simp
  have "joinset s (Suc t) = 0 \<or> t \<noteq> 0 \<and> joinset s (Suc t) = Suc (par s t)"
    using fr_invD(8) [OF inv] less.prems by (cases "t = 0") (auto simp: joins_ok_def join_entry_def split: if_splits)
  then show ?case
  proof
    assume "joinset s (Suc t) = 0"
    then show ?thesis using lim by (subst find_root.simps) auto
  next
    assume j: "t \<noteq> 0 \<and> joinset s (Suc t) = Suc (par s t)"
    note l = line_par [OF inv less.prems, of]
    obtain r where "r \<le> par s t" "find_root s (Suc (par s t)) = Some (Suc r)" using less.IH [OF l(2,3)] j by blast
    then show ?thesis using j lim l(2) by (intro exI [of _ r]) (subst find_root.simps, simp)
  qed
qed

section \<open>The comparison\<close>

lemma fork_pos:
  assumes inv: "fr_inv s g" and w: "w \<le> task_id_ctr s" and t: "t \<in> set (g_line g w)" "t \<noteq> w"
  shows "1 \<le> g_fork g (branch (g_line g) w t)" "g_fork g (branch (g_line g) w t) < clock (node s t)"
proof -
  note b = child_line [OF inv w t(1) t(2) [symmetric]]
  have n: "branch (g_line g) w t \<le> task_id_ctr s" using tree_line_le [OF fr_invD(2) [OF inv] w b(3)] .
  have "1 \<le> g_fork g (branch (g_line g) w t) \<and>
      g_fork g (branch (g_line g) w t) < clock (node s (par s (branch (g_line g) w t)))"
    using fr_invD(6) [OF inv] n b(2) by (simp add: forks_ok_def)
  then show "1 \<le> g_fork g (branch (g_line g) w t)" "g_fork g (branch (g_line g) w t) < clock (node s t)"
    using b(1) by simp_all
qed

lemma clock_INT_MAX:
  assumes "fr_inv s g" "t \<le> task_id_ctr s"
  shows "clock (node s t) \<le> INT_MAX"
  using clock_small(2) [OF assms] by (simp add: word_le_nat_alt INT_MAX_def)

lemma access_clock_vis:
  assumes inv: "fr_inv s g" and w: "w \<le> task_id_ctr s" "w \<notin> g_dead g" and t: "t \<le> task_id_ctr s"
    and f: "t = 0 \<or> num_dead_tasks s < t" and c: "1 \<le> c" "c \<le> clock (node s t)"
  obtains a where "access_clock s w (node s w) t = Some a"
    "c \<le> a \<longleftrightarrow> vis (g_line g) (g_fork g) (g_dead g) w t c"
proof -
  let ?l = "g_line g" and ?D = "g_dead g" and ?r = "top (g_line g) (g_dead g) t"
  note tr = fr_invD(2) [OF inv] and dd = fr_invD(3) [OF inv]
  have id: "taskId (node s w) = w" using fr_invD(4) [OF inv w(1)] by (simp add: node_ok_def)
  have zero: "\<not> c \<le> 0" using c(1) by auto
  have big: "c \<le> INT_MAX" using c(2) clock_INT_MAX [OF inv t] by (rule order.trans)
  note pt = parent_clock_eq [OF inv w(1) t] and pr = parent_clock_eq [OF inv w(1) top_le [OF tr t dd]]
  note fr = find_root_eq [OF inv t f]
  consider "w = t" | "w \<noteq> t" "t \<in> set (?l w)" | "w \<noteq> t" "t \<notin> set (?l w)" "?r = w"
    | "w \<noteq> t" "t \<notin> set (?l w)" "?r \<noteq> w" "?r \<in> set (?l w)" | "w \<noteq> t" "t \<notin> set (?l w)" "?r \<noteq> w" "?r \<notin> set (?l w)"
    by blast
  then show thesis
  proof cases
    case 1
    then show ?thesis using that [of "clock (node s t)"] id c(2) by (simp add: access_clock_def)
  next
    case 2
    then have "g_fork g (branch ?l w t) \<noteq> 0" using fork_pos(1) [OF inv w(1) 2(2)] by auto
    then show ?thesis using that [of "g_fork g (branch ?l w t)"] 2 id pt by (simp add: access_clock_def vis_def)
  next
    case 3
    then show ?thesis using that [of INT_MAX] id pt fr big tree_line(6) [OF tr w(1)] by (simp add: access_clock_def vis_def)
  next
    case 4
    then have "g_fork g (branch ?l w ?r) \<noteq> 0" using fork_pos(1) [OF inv w(1) 4(4)] by auto
    then show ?thesis using that [of INT_MAX] 4 id pt pr fr big by (simp add: access_clock_def vis_def)
  next
    case 5
    then show ?thesis using that [of 0] id pt pr fr zero by (simp add: access_clock_def vis_def)
  qed
qed

section \<open>What tasks have seen, along a run\<close>

abbreviation past_ok :: "fastracer \<Rightarrow> task_ghost \<Rightarrow> bool" where
  "past_ok s g \<equiv> pasts_ok (task_id_ctr s) (\<lambda>t. clock (node s t)) g"

lemma inv_ghost_tree: "fr_inv s g \<Longrightarrow> ghost_tree_ok (task_id_ctr s) g"
  by (simp add: ghost_tree_ok_def fr_invD)

lemma sees_own_only:
  assumes inv: "fr_inv s g" and u: "u \<le> task_id_ctr s" and w: "w \<le> task_id_ctr s" "w \<notin> g_dead g"
  shows "sees g u w (clock (node s w)) \<longleftrightarrow> u = w"
proof -
  have "top (g_line g) (g_dead g) w = w" by (rule top_self [OF fr_invD(2) [OF inv] w(1) fr_invD(3) [OF inv] w(2)])
  then show ?thesis using fork_pos(2) [OF inv u, of w] by (auto simp: vis_def not_le [symmetric])
qed

lemma past_spawn:
  assumes inv: "fr_inv s g" and pa: "past_ok s g" and d: "fr_disciplined s g (FrSpawn th t b)"
    and st: "fr_step s (FrSpawn th t b) = Some s'"
  shows "past_ok s' (fr_ghost_step s g (FrSpawn th t b))"
proof -
  obtain p ts where p: "cur s th = p # ts" "p \<le> task_id_ctr s" "p \<notin> g_dead g" and s': "s' = spawned s p t"
    by (rule spawn_result [OF inv d st])
  have "clock (node s u) \<le> clock (node s' u)" if "u \<le> task_id_ctr s" for u
    using less_imp_le [OF clock_small(5) [OF inv p(2)]] by (simp add: s' spawned_node(1) [OF p(2) that])
  then have "pasts_ok (Suc (task_id_ctr s)) (\<lambda>u. clock (node s' u)) (fr_ghost_step s g (FrSpawn th t b))"
    by (rule pasts_spawn [OF inv_ghost_tree [OF inv] pa p(2,3)]) (simp_all add: fr_ghost_step_def p(1))
  then show ?thesis by (simp add: s' spawned_node(3))
qed

lemma past_wait:
  assumes inv: "fr_inv s g" and pa: "past_ok s g" and d: "fr_disciplined s g (FrWait th)"
    and st: "fr_step s (FrWait th) = Some s'"
  shows "past_ok s' (fr_ghost_step s g (FrWait th))"
proof -
  have a: "active s g th" using d by (simp add: fr_disciplined_def)
  obtain p ts where p: "cur s th = p # ts" "p \<le> task_id_ctr s" "p \<notin> g_dead g" "th < NUM_THREADS"
    by (rule active_top [OF inv a])
  have "Some s' = Some (if p = 0 \<and> kids (node s 0) \<noteq> [] then reset_dead 0 s else joined s p (below s g p - g_dead g))"
    using st p(1,4) wait_task_eq [OF inv p(2,3)] by (simp add: Capturewait_for_all_def cur_top_def)
  then have ctr: "task_id_ctr s' = task_id_ctr s" and clk: "clock (node s u) \<le> clock (node s' u)" for u
    using less_imp_le [OF clock_small(5) [OF inv le0]]
    by (auto simp: reset_dead_def clear_list_def upd_node_def Let_def split: if_splits)
  have "pasts_ok (task_id_ctr s) (\<lambda>u. clock (node s' u)) (fr_ghost_step s g (FrWait th))"
    by (rule pasts_wait [OF inv_ghost_tree [OF inv] pa p(2,3) clk])
      (use wait_dead(1) [OF p(1), of g] wait_dead(2,3) [of s g th] in \<open>simp_all add: fr_ghost_step_def p(1)\<close>)
  then show ?thesis by (simp add: ctr)
qed

lemma past_access:
  assumes inv: "fr_inv s g" and pa: "past_ok s g" and d: "fr_disciplined s g (FrAccess th a k)"
    and st: "fr_step s (FrAccess th a k) = Some s'"
  shows "past_ok s' (fr_ghost_step s g (FrAccess th a k))"
proof -
  have ac: "active s g th" using d by (simp add: fr_disciplined_def)
  obtain t ts where t: "cur s th = t # ts" "t \<le> task_id_ctr s" "t \<notin> g_dead g" by (rule active_top [OF inv ac])
  have "RecordMem s th a k = Some s'" using st by simp
  note f = access_frame [OF this]
  have "fr_ghost_step s g (FrAccess th a k) = logs g t (clock (node s t)) a k"
    by (simp add: fr_ghost_step_def logs_def t(1))
  then show ?thesis
    using pasts_access [OF inv_ghost_tree [OF inv] pa t(2,3) clock_small(3) [OF inv t(2)] sees_own_only [OF inv _ t(2,3)], of a k]
    by (simp add: f)
qed

lemma past_frame:
  assumes pa: "past_ok s g" and s': "task_id_ctr s' = task_id_ctr s" "\<And>t. clock (node s' t) = clock (node s t)"
  shows "past_ok s' g"
  using pa by (simp add: pasts_ok_def s')

lemma clock_lock: "lock_id s l = Some (i, s1) \<Longrightarrow> clock (node (upd_node t (\<lambda>x. x\<lparr>lockset := f x\<rparr>) s1) u) = clock (node s u)"
  "lock_id s l = Some (i, s1) \<Longrightarrow> task_id_ctr (upd_node t f' s1) = task_id_ctr s"
  by (simp_all add: upd_node_def lock_id_frame)

lemma fr_step_past:
  assumes inv: "fr_inv s g" and pa: "past_ok s g" and d: "fr_disciplined s g e" and st: "fr_step s e = Some s'"
  shows "past_ok s' (fr_ghost_step s g e)"
proof (cases e)
  case (FrBegin th t)
  then have "task_id_ctr s' = task_id_ctr s" "clock (node s' u) = clock (node s u)" for u
    using st by (auto simp: exec_begin_def Let_def bind_eq_Some_conv upd_node_def split: if_splits)
  then show ?thesis using past_frame [OF pa, of s'] FrBegin by (simp add: fr_ghost_step_def)
next
  case (FrEnd th)
  then show ?thesis
    using st past_frame [OF pa, of s'] by (auto simp: exec_end_def bind_eq_Some_conv fr_ghost_step_def)
next
  case (FrAcquire th l)
  then show ?thesis
    using st past_frame [OF pa, of s'] by (auto simp: CaptureLockAcquire_def bind_eq_Some_conv fr_ghost_step_def clock_lock)
next
  case (FrRelease th l)
  then show ?thesis
    using st past_frame [OF pa, of s'] by (auto simp: CaptureLockRelease_def bind_eq_Some_conv fr_ghost_step_def clock_lock)
next
  case (FrSpawn th t b)
  then show ?thesis using past_spawn [OF inv pa] d st by blast
next
  case (FrWait th)
  then show ?thesis using past_wait [OF inv pa] d st by blast
next
  case (FrAccess th a k)
  then show ?thesis using past_access [OF inv pa] d st by blast
qed

end
