(* ===== verification/FrPaths.thy ===== *)
theory FrPaths
  imports FrHb
begin

text \<open>
  The comparison of clock vectors that decides which of three parallel readers is dropped
  finds where their paths part.
\<close>

section \<open>Where two vectors part\<close>

lemma diverge_spec:
  "i \<le> diverge f g h i n \<and> diverge f g h i n \<le> i + n \<and>
   (\<forall>j. i \<le> j \<and> j < diverge f g h i n \<longrightarrow> f j = g j \<and> f j = h j) \<and>
   (diverge f g h i n < i + n \<longrightarrow> \<not> (f (diverge f g h i n) = g (diverge f g h i n) \<and> f (diverge f g h i n) = h (diverge f g h i n)))"
proof (induction n arbitrary: i)
  case (Suc n)
  show ?case
  proof (cases "f i = g i \<and> f i = h i")
    case True
    let ?d = "diverge f g h (Suc i) n"
    have e: "diverge f g h i (Suc n) = ?d" by (subst diverge.simps) (rule if_P [OF True])
    note ih = Suc [of "Suc i"]
    have "f j = g j \<and> f j = h j" if "i \<le> j" "j < ?d" for j
    proof (cases "j = i")
      case False
      then have "Suc i \<le> j" using that(1) by simp
      then show ?thesis using ih that(2) by blast
    qed (use True in metis)
    then have "\<forall>j. i \<le> j \<and> j < ?d \<longrightarrow> f j = g j \<and> f j = h j" by blast
    moreover have b: "Suc i \<le> ?d" "?d \<le> Suc i + n" "?d < Suc i + n \<longrightarrow> \<not> (f ?d = g ?d \<and> f ?d = h ?d)"
      using ih by blast+
    moreover have "i \<le> ?d" "?d \<le> i + Suc n" using b(1,2) by simp_all
    moreover have "?d < i + Suc n \<longrightarrow> \<not> (f ?d = g ?d \<and> f ?d = h ?d)" using b(3) by (simp only: add_Suc_right add_Suc)
    ultimately show ?thesis unfolding e by blast
  qed auto
qed auto

section \<open>Same clocks, same path\<close>

lemma vc_at:
  assumes inv: "fr_inv s g" and t: "t \<le> task_id_ctr s"
  shows "length (g_line g t) = Suc (depth (node s t))"
    "m_vc (node s t) i = (if i < depth (node s t) then g_fork g (g_line g t ! Suc i) + 1 else 0)"
    "i < depth (node s t) \<Longrightarrow> m_vc (node s t) i \<noteq> 0"
    "i < depth (node s t) \<Longrightarrow> par s (g_line g t ! Suc i) = g_line g t ! i \<and> g_line g t ! Suc i \<noteq> 0 \<and> g_line g t ! Suc i \<le> task_id_ctr s"
proof -
  note tr = fr_invD(2) [OF inv] and n = fr_invD(4) [OF inv t]
  show len: "length (g_line g t) = Suc (depth (node s t))" using n by (simp add: node_ok_def)
  show m: "m_vc (node s t) i = (if i < depth (node s t) then g_fork g (g_line g t ! Suc i) + 1 else 0)"
    using n by (simp add: node_ok_def)
  show p: "par s (g_line g t ! Suc i) = g_line g t ! i \<and> g_line g t ! Suc i \<noteq> 0 \<and> g_line g t ! Suc i \<le> task_id_ctr s"
    if i: "i < depth (node s t)"
  proof -
    let ?p = "g_line g t ! i"
    have on: "?p \<in> set (g_line g t)" "g_line g t ! Suc i \<in> set (g_line g t)" using i len by simp_all
    have l: "g_line g ?p = take (Suc i) (g_line g t)" using tr t i len by (simp add: tree_ok_def)
    then have b: "branch (g_line g) t ?p = g_line g t ! Suc i" using i len by (simp add: branch_def)
    have "length (g_line g ?p) = Suc i" using l i len by simp
    then have ne: "t \<noteq> ?p" using i len by auto
    show ?thesis using child_line(1,2) [OF inv t on(1) ne] b tree_line_le [OF tr t on(2)] by simp
  qed
  show "m_vc (node s t) i \<noteq> 0" if i: "i < depth (node s t)"
  proof -
    let ?c = "g_line g t ! Suc i"
    have "g_fork g ?c < clock (node s (par s ?c))" using fr_invD(6) [OF inv] p [OF i] by (auto simp: forks_ok_def)
    moreover have "unat (clock (node s (par s ?c))) < 2 ^ 31 - 1"
      by (rule clock_small(2) [OF inv]) (use line_par(3) [OF inv, of ?c] p [OF i] in simp)
    ultimately have "unat (g_fork g ?c + 1) = Suc (unat (g_fork g ?c))" by (intro unat_inc) (simp add: word_less_nat_alt)
    then have "g_fork g ?c + 1 \<noteq> 0" by auto
    then show ?thesis using m i by simp
  qed
qed

lemma vc_same:
  assumes inv: "fr_inv s g" and t: "t \<le> task_id_ctr s" "u \<le> task_id_ctr s"
    and i: "i < depth (node s t)" "i < depth (node s u)" and l: "g_line g t ! i = g_line g u ! i"
  shows "m_vc (node s t) i = m_vc (node s u) i \<longleftrightarrow> g_line g t ! Suc i = g_line g u ! Suc i"
proof -
  note a = vc_at(2,4) [OF inv t(1), of i] and b = vc_at(2,4) [OF inv t(2), of i]
  have "g_fork g (g_line g t ! Suc i) = g_fork g (g_line g u ! Suc i) \<longleftrightarrow> g_line g t ! Suc i = g_line g u ! Suc i"
    using fr_invD(6) [OF inv] a(2) [OF i(1)] b(2) [OF i(2)] l unfolding forks_ok_def by metis
  then show ?thesis using a(1) b(1) i by simp
qed

lemma vc_prefix:
  assumes inv: "fr_inv s g" and t: "t \<le> task_id_ctr s" "u \<le> task_id_ctr s"
    and eq: "\<And>j. j < i \<Longrightarrow> m_vc (node s t) j = m_vc (node s u) j" and i: "i \<le> depth (node s t)" "i \<le> depth (node s u)"
  shows "j \<le> i \<Longrightarrow> g_line g t ! j = g_line g u ! j"
proof (induction j)
  case 0
  note tr = fr_invD(2) [OF inv]
  show ?case using tree_line(1,2) [OF tr t(1)] tree_line(1,2) [OF tr t(2)] by (simp add: hd_conv_nth)
next
  case (Suc j)
  then show ?case using vc_same [OF inv t, of j] eq [of j] i by simp
qed

text \<open>A common ancestor of two tasks stands at the same place of both paths.\<close>

lemma common_place:
  assumes inv: "fr_inv s g" and t: "t \<le> task_id_ctr s" and z: "z \<in> set (g_line g t)"
  shows "depth (node s z) \<le> depth (node s t)" "g_line g t ! depth (node s z) = z"
    "\<And>j. j \<le> depth (node s z) \<Longrightarrow> g_line g t ! j = g_line g z ! j"
proof -
  note tr = fr_invD(2) [OF inv] and p = tree_prefix [OF fr_invD(2) [OF inv] t z]
  have zn: "z \<le> task_id_ctr s" using tree_line_le [OF tr t z] .
  note len = vc_at(1) [OF inv t] vc_at(1) [OF inv zn]
  show "depth (node s z) \<le> depth (node s t)" "g_line g t ! depth (node s z) = z" using p(4,5) len by simp_all
  show "g_line g t ! j = g_line g z ! j" if "j \<le> depth (node s z)" for j
    using p(2) len that by (metis less_Suc_eq_le nth_take)
qed

section \<open>The comparison of the readers\<close>

lemma leaves_first_spec:
  assumes inv: "fr_inv s g" and w: "w \<le> task_id_ctr s" and t: "t1 \<le> task_id_ctr s" "t2 \<le> task_id_ctr s"
  obtains b where "leaves_first s (node s w) t1 t2 = Some b"
    "b \<longrightarrow> (\<forall>z. z \<in> set (g_line g w) \<longrightarrow> z \<in> set (g_line g t2) \<longrightarrow> z \<in> set (g_line g t1))"
    "\<not> b \<longrightarrow> (\<exists>a \<in> set (g_line g w). a \<in> set (g_line g t1) \<and> a \<notin> set (g_line g t2) \<or> a \<in> set (g_line g t2) \<and> a \<notin> set (g_line g t1))"
proof -
  let ?x = "node s w" and ?a = "node s t1" and ?b = "node s t2"
  let ?k = "min (min (depth ?a) (depth ?b)) (depth ?x)"
  let ?i = "diverge (m_vc ?a) (m_vc ?b) (m_vc ?x) 0 ?k"
  note sp = diverge_spec [of 0 "m_vc ?a" "m_vc ?b" "m_vc ?x" ?k]
  have i: "?i \<le> depth ?a" "?i \<le> depth ?b" "?i \<le> depth ?x" using sp by simp_all
  have "m_vc ?a j = m_vc ?b j \<and> m_vc ?a j = m_vc ?x j" if "j < ?i" for j
    using sp that le0 by blast
  then have eq: "m_vc ?a j = m_vc ?b j" "m_vc ?x j = m_vc ?a j" "m_vc ?x j = m_vc ?b j" if "j < ?i" for j
    using that by metis+
  have differ: "\<not> (m_vc ?a ?i = m_vc ?b ?i \<and> m_vc ?a ?i = m_vc ?x ?i)" if "?i < depth ?a" "?i < depth ?b" "?i < depth ?x"
    using sp that by simp
  have p1: "g_line g w ! j = g_line g t1 ! j" and p2: "g_line g w ! j = g_line g t2 ! j" if "j \<le> ?i" for j
    by (rule vc_prefix [OF inv w t(1) _ i(3,1) that], rule eq(2), assumption)
      (rule vc_prefix [OF inv w t(2) _ i(3,2) that], rule eq(3), assumption)
  have len: "length (g_line g w) = Suc (depth ?x)" "length (g_line g t1) = Suc (depth ?a)" "length (g_line g t2) = Suc (depth ?b)"
    using vc_at(1) [OF inv] w t by blast+
  have at: "task_at s t1 = Some ?a" "task_at s t2 = Some ?b" using t fr_invD(1) [OF inv] by (simp_all add: task_at_def)
  have d30: "depth ?x \<le> MAX_TASK_DEPTH" using fr_invD(4) [OF inv w] by (simp add: node_ok_def)
  let ?r = "?i = depth ?x \<or> m_vc ?x ?i \<noteq> m_vc ?a ?i \<and> m_vc ?x ?i \<noteq> m_vc ?b ?i"
  have res: "leaves_first s ?x t1 t2 = Some ?r"
    using at i(3) d30 by (auto simp: leaves_first_def Let_def)
  have pos: "\<forall>z. z \<in> set (g_line g w) \<longrightarrow> z \<in> set (g_line g t2) \<longrightarrow> z \<in> set (g_line g t1)" if r: ?r
  proof (intro allI impI)
    fix z assume z: "z \<in> set (g_line g w)" "z \<in> set (g_line g t2)"
    note cw = common_place [OF inv w z(1)] and c2 = common_place [OF inv t(2) z(2)]
    have "depth (node s z) \<le> ?i"
    proof (rule ccontr)
      assume "\<not> depth (node s z) \<le> ?i"
      then have lt: "?i < depth (node s z)" by simp
      then have dx: "?i < depth ?x" "?i < depth ?b" using cw(1) c2(1) by simp_all
      have "g_line g w ! Suc ?i = g_line g t2 ! Suc ?i" using lt cw(3) [of "Suc ?i"] c2(3) [of "Suc ?i"] by simp
      then have "m_vc ?x ?i = m_vc ?b ?i" using vc_same [OF inv w t(2) dx p2] by simp
      then show False using r dx by simp
    qed
    then have "z = g_line g t1 ! depth (node s z)" "depth (node s z) < length (g_line g t1)"
      using p1 cw(2) i(1) len(2) by auto
    then show "z \<in> set (g_line g t1)" using nth_mem by metis
  qed
  have neg: "\<exists>a \<in> set (g_line g w). a \<in> set (g_line g u) \<and> a \<notin> set (g_line g v)"
    if r: "?i < depth ?x" "m_vc ?x ?i = m_vc (node s u) ?i" and u: "u \<le> task_id_ctr s" and v: "v \<le> task_id_ctr s"
      and l: "g_line g w ! ?i = g_line g u ! ?i" "g_line g w ! ?i = g_line g v ! ?i"
      and n: "?i < depth (node s u) \<Longrightarrow> ?i < depth (node s v) \<Longrightarrow> m_vc ?x ?i \<noteq> m_vc (node s v) ?i" for u v
  proof -
    have "m_vc (node s u) ?i \<noteq> 0" using vc_at(3) [OF inv w r(1)] r(2) by simp
    then have iu: "?i < depth (node s u)" using vc_at(2) [OF inv u, of ?i] by (auto split: if_splits)
    let ?a = "g_line g w ! Suc ?i"
    have au: "?a = g_line g u ! Suc ?i" using vc_same [OF inv w u r(1) iu l(1)] r(2) by simp
    have on: "?a \<in> set (g_line g w)" "?a \<in> set (g_line g u)"
      using au r(1) iu len(1) vc_at(1) [OF inv u] by (metis Suc_less_eq nth_mem)+
    have "?a \<notin> set (g_line g v)"
    proof
      assume a: "?a \<in> set (g_line g v)"
      note cv = common_place [OF inv v a] and cw = common_place [OF inv w on(1)]
      have "g_line g w ! depth (node s ?a) = g_line g w ! Suc ?i" using cw(2) .
      then have "depth (node s ?a) = Suc ?i"
        using tree_line(5) [OF fr_invD(2) [OF inv] w] cw(1) len(1) r(1) by (simp add: nth_eq_iff_index_eq)
      then have iv: "?i < depth (node s v)" "g_line g v ! Suc ?i = ?a" using cv by simp_all
      then have "m_vc ?x ?i = m_vc (node s v) ?i" using vc_same [OF inv w v r(1) iv(1) l(2)] by simp
      then show False using n iu iv(1) by blast
    qed
    then show ?thesis using on by blast
  qed
  have "\<exists>a \<in> set (g_line g w). a \<in> set (g_line g t1) \<and> a \<notin> set (g_line g t2) \<or> a \<in> set (g_line g t2) \<and> a \<notin> set (g_line g t1)"
    if r: "\<not> ?r"
  proof -
    have lt: "?i < depth ?x" using r i(3) by simp
    consider "m_vc ?x ?i = m_vc ?a ?i" | "m_vc ?x ?i = m_vc ?b ?i" using r by blast
    then show ?thesis
    proof cases
      case 1
      then show ?thesis using neg [OF lt 1 t p1 p2] differ lt by fastforce
    next
      case 2
      then show ?thesis using neg [OF lt 2 t(2,1) p2 p1] differ lt by fastforce
    qed
  qed
  then show thesis by (intro that [OF res] impI) (rule pos, assumption, assumption)
qed

end
