(* ===== verification/FrReaders.thy ===== *)
theory FrReaders
  imports FrPaths
begin

text \<open>
  Two slots stand for all accesses of a kind: whoever has seen both has seen all of them,
  and whoever will have seen both after a wait will have seen all of them.  This is kept
  by spawns, by waits and by the three ways a reader is stored.
\<close>

section \<open>Epochs\<close>

type_synonym epoch = "nat \<times> 32 word"

definition ep_seen :: "task_ghost \<Rightarrow> nat \<Rightarrow> epoch \<Rightarrow> bool" where
  "ep_seen g w e \<longleftrightarrow> snd e = 0 \<or> sees g w (fst e) (snd e)"

definition ep_pot :: "task_ghost \<Rightarrow> nat \<Rightarrow> epoch \<Rightarrow> bool" where
  "ep_pot g w e \<longleftrightarrow> snd e = 0 \<or> pot (g_line g) (g_fork g) (g_dead g) w (fst e) (snd e)"

definition ep_ok :: "fastracer \<Rightarrow> epoch \<Rightarrow> bool" where
  "ep_ok s e \<longleftrightarrow> fst e \<le> task_id_ctr s \<and> snd e \<le> clock (node s (fst e))"

definition covers :: "fastracer \<Rightarrow> task_ghost \<Rightarrow> epoch set \<Rightarrow> epoch set \<Rightarrow> bool" where
  "covers s g S A \<longleftrightarrow>
     (\<forall>w \<le> task_id_ctr s. w \<notin> g_dead g \<longrightarrow>
        ((\<forall>e \<in> S. ep_seen g w e) \<longrightarrow> (\<forall>e \<in> A. ep_seen g w e)) \<and>
        ((\<forall>e \<in> S. ep_pot g w e) \<longrightarrow> (\<forall>e \<in> A. ep_pot g w e)))"

lemma ep_seen_pot: "ep_seen g w e \<Longrightarrow> ep_pot g w e"
  by (auto simp: ep_seen_def ep_pot_def vis_pot)

lemma ep_zero [simp]: "ep_seen g w (0, 0)" "ep_pot g w (0, 0)"
  by (simp_all add: ep_seen_def ep_pot_def)

lemma covers_all_seen:
  assumes "\<And>w e. w \<le> task_id_ctr s \<Longrightarrow> w \<notin> g_dead g \<Longrightarrow> e \<in> A \<Longrightarrow> ep_seen g w e"
  shows "covers s g S A"
  using assms ep_seen_pot by (auto simp: covers_def)

section \<open>Spawns and waits\<close>

lemma ep_spawn:
  assumes inv: "fr_inv s g" and p: "p \<le> task_id_ctr s" "p \<notin> g_dead g"
    and g': "g_line g' = add_task p (task_id_ctr s) (g_line g)"
      "g_fork g' = (g_fork g)(Suc (task_id_ctr s) := clock (node s p))" "g_dead g' = g_dead g"
    and e: "ep_ok s e" and w: "w \<le> Suc (task_id_ctr s)"
  shows "ep_seen g' w e \<longleftrightarrow> ep_seen g (if w = Suc (task_id_ctr s) then p else w) e"
    "ep_pot g' w e \<longleftrightarrow> (if w = Suc (task_id_ctr s) then ep_seen g p e else ep_pot g w e)"
proof -
  note tr = fr_invD(2) [OF inv] and dd = fr_invD(3) [OF inv]
  have e': "fst e \<le> task_id_ctr s" "fst e = p \<Longrightarrow> snd e \<le> clock (node s p)" using e by (auto simp: ep_ok_def)
  show "ep_seen g' w e \<longleftrightarrow> ep_seen g (if w = Suc (task_id_ctr s) then p else w) e"
  proof (cases "w = Suc (task_id_ctr s)")
    case True
    then show ?thesis using e'(2) by (auto simp: ep_seen_def g' vis_add_new [OF tr p(1) e'(1) dd])
  next
    case False
    then have "w \<le> task_id_ctr s" using w by simp
    then show ?thesis using False by (simp add: ep_seen_def g' vis_add_old [OF tr _ e'(1)])
  qed
  show "ep_pot g' w e \<longleftrightarrow> (if w = Suc (task_id_ctr s) then ep_seen g p e else ep_pot g w e)"
  proof (cases "w = Suc (task_id_ctr s)")
    case True
    then show ?thesis using e'(2) by (auto simp: ep_seen_def ep_pot_def g' pot_add_new [OF tr p(1) e'(1) dd])
  next
    case False
    then have "w \<le> task_id_ctr s" using w by simp
    then show ?thesis using False by (simp add: ep_pot_def g' pot_add_old [OF tr _ e'(1)])
  qed
qed

lemma covers_spawn:
  assumes inv: "fr_inv s g" and p: "p \<le> task_id_ctr s" "p \<notin> g_dead g"
    and g': "g_line g' = add_task p (task_id_ctr s) (g_line g)"
      "g_fork g' = (g_fork g)(Suc (task_id_ctr s) := clock (node s p))" "g_dead g' = g_dead g"
    and s': "task_id_ctr s' = Suc (task_id_ctr s)"
    and ok: "\<forall>e \<in> S \<union> A. ep_ok s e" and c: "covers s g S A"
  shows "covers s' g' S A"
  unfolding covers_def
proof (intro allI impI)
  fix w assume w: "w \<le> task_id_ctr s'" "w \<notin> g_dead g'"
  let ?n = "task_id_ctr s"
  have wn: "w \<le> Suc ?n" using w s' by simp
  have one: "ep_seen g' w e \<longleftrightarrow> ep_seen g (if w = Suc ?n then p else w) e"
    "ep_pot g' w e \<longleftrightarrow> (if w = Suc ?n then ep_seen g p e else ep_pot g w e)" if "e \<in> S \<union> A" for e
    using ep_spawn [OF inv p g' _ wn] ok that by blast+
  have seen: "(\<forall>e \<in> X. ep_seen g' w e) \<longleftrightarrow> (\<forall>e \<in> X. ep_seen g (if w = Suc ?n then p else w) e)"
    and pot: "(\<forall>e \<in> X. ep_pot g' w e) \<longleftrightarrow> (\<forall>e \<in> X. if w = Suc ?n then ep_seen g p e else ep_pot g w e)"
    if "X \<subseteq> S \<union> A" for X
    by (rule ball_cong [OF refl], rule one(1), use that in blast)
      (rule ball_cong [OF refl], rule one(2), use that in blast)
  show "((\<forall>e \<in> S. ep_seen g' w e) \<longrightarrow> (\<forall>e \<in> A. ep_seen g' w e)) \<and> ((\<forall>e \<in> S. ep_pot g' w e) \<longrightarrow> (\<forall>e \<in> A. ep_pot g' w e))"
  proof (cases "w = Suc ?n")
    case True
    have "(\<forall>e \<in> S. ep_seen g p e) \<longrightarrow> (\<forall>e \<in> A. ep_seen g p e)" using c p unfolding covers_def by blast
    then show ?thesis unfolding seen [OF Un_upper1] seen [OF Un_upper2] pot [OF Un_upper1] pot [OF Un_upper2]
      using True by metis
  next
    case False
    then have "w \<le> ?n" "w \<notin> g_dead g" using w s' g' by simp_all
    then have "((\<forall>e \<in> S. ep_seen g w e) \<longrightarrow> (\<forall>e \<in> A. ep_seen g w e)) \<and> ((\<forall>e \<in> S. ep_pot g w e) \<longrightarrow> (\<forall>e \<in> A. ep_pot g w e))"
      using c unfolding covers_def by blast
    then show ?thesis unfolding seen [OF Un_upper1] seen [OF Un_upper2] pot [OF Un_upper1] pot [OF Un_upper2]
      using False by metis
  qed
qed

lemma covers_wait:
  assumes inv: "fr_inv s g" and p: "p \<le> task_id_ctr s" "p \<notin> g_dead g"
    and g': "g_line g' = g_line g" "g_fork g' = g_fork g" "g_dead g' = join_below p (task_id_ctr s) (g_line g) (g_dead g)"
    and s': "task_id_ctr s' = task_id_ctr s" and ok: "\<forall>e \<in> S \<union> A. ep_ok s e" and c: "covers s g S A"
  shows "covers s' g' S A"
  unfolding covers_def
proof (intro allI impI)
  fix w assume w: "w \<le> task_id_ctr s'" "w \<notin> g_dead g'"
  note tr = fr_invD(2) [OF inv] and dd = fr_invD(3) [OF inv]
  have wn: "w \<le> task_id_ctr s" "w \<notin> g_dead g" "w \<notin> join_below p (task_id_ctr s) (g_line g) (g_dead g)"
    using w s' g'(3) by (simp_all add: join_below_def)
  have e: "fst e \<le> task_id_ctr s" if "e \<in> S \<union> A" for e using ok that by (simp add: ep_ok_def)
  have pot: "ep_pot g' w e \<longleftrightarrow> ep_pot g w e" if "e \<in> S \<union> A" for e
    by (simp add: ep_pot_def g' pot_join [OF tr e [OF that] wn(1) dd p(2,1) wn(3)])
  have seen: "ep_seen g' w e \<longleftrightarrow> (if w = p then ep_pot g p e else ep_seen g w e)" if "e \<in> S \<union> A" for e
  proof (cases "w = p")
    case True
    then show ?thesis by (simp add: ep_seen_def ep_pot_def g' vis_join_self [OF tr e [OF that] p(1) dd p(2)])
  next
    case False
    then show ?thesis by (simp add: ep_seen_def g' vis_join_other [OF tr e [OF that] wn(1) dd p(2) wn(3)])
  qed
  have cw: "(\<forall>e \<in> S. ep_seen g w e) \<longrightarrow> (\<forall>e \<in> A. ep_seen g w e)" "(\<forall>e \<in> S. ep_pot g w e) \<longrightarrow> (\<forall>e \<in> A. ep_pot g w e)"
    using c wn(1,2) unfolding covers_def by blast+
  show "((\<forall>e \<in> S. ep_seen g' w e) \<longrightarrow> (\<forall>e \<in> A. ep_seen g' w e)) \<and> ((\<forall>e \<in> S. ep_pot g' w e) \<longrightarrow> (\<forall>e \<in> A. ep_pot g' w e))"
  proof (cases "w = p")
    case True
    then show ?thesis using cw pot seen by auto
  next
    case False
    then show ?thesis using cw pot seen by auto
  qed
qed

section \<open>Storing an access\<close>

text \<open>The access of a live task \<open>w\<close> that is happening now.\<close>

lemma ep_now:
  assumes inv: "fr_inv s g" and w: "w \<le> task_id_ctr s" "w \<notin> g_dead g" and l: "l \<le> task_id_ctr s"
  shows "ep_seen g l (w, clock (node s w)) \<longleftrightarrow> l = w" "ep_pot g l (w, clock (node s w)) \<longleftrightarrow> l \<in> set (g_line g w)"
proof -
  have "clock (node s w) \<noteq> 0" using clock_small(3) [OF inv w(1)] by auto
  then show "ep_seen g l (w, clock (node s w)) \<longleftrightarrow> l = w" "ep_pot g l (w, clock (node s w)) \<longleftrightarrow> l \<in> set (g_line g w)"
    using sees_own_only [OF inv l w] tree_line(6) [OF fr_invD(2) [OF inv] w(1)]
    by (auto simp: ep_seen_def ep_pot_def pot_def)
qed

lemma ep_above:
  assumes inv: "fr_inv s g" and w: "w \<le> task_id_ctr s" and l: "l \<in> set (g_line g w)" and e: "fst e \<le> task_id_ctr s"
    and s: "ep_seen g w e"
  shows "ep_pot g l e"
proof (cases "snd e = 0")
  case False
  then have "sees g w (fst e) (snd e)" using s by (simp add: ep_seen_def)
  then show ?thesis using vis_above [OF fr_invD(2) [OF inv] w e fr_invD(3) [OF inv] l] by (simp add: ep_pot_def)
qed (simp add: ep_pot_def)

lemma covers_insert:
  assumes inv: "fr_inv s g" and w: "w \<le> task_id_ctr s" "w \<notin> g_dead g" and c: "covers s g {x, y} A"
    and new: "\<And>l. l \<le> task_id_ctr s \<Longrightarrow> l \<notin> g_dead g \<Longrightarrow> l \<in> set (g_line g w) \<Longrightarrow> ep_pot g l y \<Longrightarrow> ep_pot g l x"
    and seen: "ep_seen g w y \<Longrightarrow> ep_seen g w x"
  shows "covers s g {(w, clock (node s w)), y} (insert (w, clock (node s w)) A)"
  unfolding covers_def
proof (intro allI impI conjI)
  fix l assume l: "l \<le> task_id_ctr s" "l \<notin> g_dead g"
  note now = ep_now [OF inv w l(1)]
  have c': "(\<forall>e \<in> {x, y}. ep_seen g l e) \<longrightarrow> (\<forall>e \<in> A. ep_seen g l e)" "(\<forall>e \<in> {x, y}. ep_pot g l e) \<longrightarrow> (\<forall>e \<in> A. ep_pot g l e)"
    using c l unfolding covers_def by blast+
  show "\<forall>e \<in> insert (w, clock (node s w)) A. ep_seen g l e" if "\<forall>e \<in> {(w, clock (node s w)), y}. ep_seen g l e"
  proof -
    have "l = w" "ep_seen g l y" "ep_seen g l (w, clock (node s w))" using that now(1) by blast+
    then show ?thesis using c'(1) seen by blast
  qed
  show "\<forall>e \<in> insert (w, clock (node s w)) A. ep_pot g l e" if "\<forall>e \<in> {(w, clock (node s w)), y}. ep_pot g l e"
  proof -
    have "l \<in> set (g_line g w)" "ep_pot g l y" "ep_pot g l (w, clock (node s w))" using that now(2) by blast+
    then show ?thesis using c'(2) new [OF l] by blast
  qed
qed

text \<open>A slot whose access was seen is overwritten.\<close>

lemma covers_replace:
  assumes inv: "fr_inv s g" and w: "w \<le> task_id_ctr s" "w \<notin> g_dead g" and c: "covers s g {x, y} A"
    and x: "fst x \<le> task_id_ctr s" "ep_seen g w x"
  shows "covers s g {(w, clock (node s w)), y} (insert (w, clock (node s w)) A)"
  by (rule covers_insert [OF inv w c]) (use ep_above [OF inv w(1) _ x] x(2) in blast)+

text \<open>The task leaves the common path first: it replaces the first slot.\<close>

lemma covers_drop_first:
  assumes inv: "fr_inv s g" and w: "w \<le> task_id_ctr s" "w \<notin> g_dead g" and c: "covers s g {x, y} A"
    and y: "fst y \<le> task_id_ctr s" "\<not> ep_seen g w y"
    and p: "\<forall>z. z \<in> set (g_line g w) \<longrightarrow> z \<in> set (g_line g (fst y)) \<longrightarrow> z \<in> set (g_line g (fst x))"
  shows "covers s g {(w, clock (node s w)), y} (insert (w, clock (node s w)) A)"
proof (rule covers_insert [OF inv w c])
  fix l assume l: "l \<in> set (g_line g w)" "ep_pot g l y"
  have v: "\<not> sees g w (fst y) (snd y)" and q: "pot (g_line g) (g_fork g) (g_dead g) l (fst y) (snd y)"
    using y(2) l(2) by (auto simp: ep_seen_def ep_pot_def)
  have "pot (g_line g) (g_fork g) (g_dead g) l (fst x) (snd x)"
    by (rule drop_first [OF fr_invD(2) [OF inv] w(1) y(1) l(1) _ q v]) (use p in blast)
  then show "ep_pot g l x" by (simp add: ep_pot_def)
qed (use y(2) in blast)

text \<open>Otherwise it need not be stored.\<close>

lemma covers_drop_current:
  assumes inv: "fr_inv s g" and w: "w \<le> task_id_ctr s" "w \<notin> g_dead g" and c: "covers s g {x, y} A"
    and xy: "fst x \<le> task_id_ctr s" "fst y \<le> task_id_ctr s" "\<not> ep_seen g w x" "\<not> ep_seen g w y"
    and a: "a \<in> set (g_line g w)" "a \<in> set (g_line g (fst x))" "a \<notin> set (g_line g (fst y))"
  shows "covers s g {x, y} (insert (w, clock (node s w)) A)"
  unfolding covers_def
proof (intro allI impI conjI)
  fix l assume l: "l \<le> task_id_ctr s" "l \<notin> g_dead g"
  note now = ep_now [OF inv w l(1)] and tr = fr_invD(2) [OF inv] and dd = fr_invD(3) [OF inv]
  have c': "(\<forall>e \<in> {x, y}. ep_seen g l e) \<longrightarrow> (\<forall>e \<in> A. ep_seen g l e)" "(\<forall>e \<in> {x, y}. ep_pot g l e) \<longrightarrow> (\<forall>e \<in> A. ep_pot g l e)"
    using c l unfolding covers_def by blast+
  have nz: "snd x \<noteq> 0" "snd y \<noteq> 0" and nv: "\<not> sees g w (fst y) (snd y)" using xy(3,4) by (auto simp: ep_seen_def)
  have on: "l \<in> set (g_line g w)" if "ep_pot g l x" "ep_pot g l y"
    using drop_current [OF tr w(1) xy(1,2) l(1) dd w(2) a nv] that nz by (simp add: ep_pot_def)
  show "\<forall>e \<in> insert (w, clock (node s w)) A. ep_pot g l e" if "\<forall>e \<in> {x, y}. ep_pot g l e"
    using that now(2) c'(2) on by blast
  show "\<forall>e \<in> insert (w, clock (node s w)) A. ep_seen g l e" if "\<forall>e \<in> {x, y}. ep_seen g l e"
  proof -
    have "sees g l (fst x) (snd x)" "sees g l (fst y) (snd y)" using that nz by (auto simp: ep_seen_def)
    moreover have "l \<in> set (g_line g w)" using on that ep_seen_pot by blast
    ultimately have False using drop_current_seen [OF tr w(1) xy(1,2) dd w(2) a nv] by blast
    then show ?thesis ..
  qed
qed

section \<open>The code\<close>

text \<open>What the code finds out about a slot the main task's waits have not finished.\<close>

definition unfinished :: "fastracer \<Rightarrow> epoch \<Rightarrow> bool" where
  "unfinished s e \<longleftrightarrow> snd e = 0 \<or> fst e = 0 \<or> num_dead_tasks s < fst e"

lemma slot_clock_seen:
  assumes inv: "fr_inv s g" and w: "w \<le> task_id_ctr s" "w \<notin> g_dead g" and e: "ep_ok s (t, c)" "unfinished s (t, c)"
  obtains a where "slot_clock s w (node s w) t c = Some a" "c \<le> a \<longleftrightarrow> ep_seen g w (t, c)"
proof (cases "c = 0")
  case True
  then show thesis using that [of 0] by (simp add: slot_clock_def ep_seen_def)
next
  case False
  then have c: "0 < c" by (simp only: word_gt_0)
  have "\<not> c < 1" using False by simp
  then have c1: "1 \<le> c" by (simp only: not_less)
  have "t \<le> task_id_ctr s" "t = 0 \<or> num_dead_tasks s < t" "c \<le> clock (node s t)"
    using e False by (auto simp: ep_ok_def unfinished_def)
  then obtain a where "access_clock s w (node s w) t = Some a" "c \<le> a \<longleftrightarrow> sees g w t c"
    using access_clock_vis [OF inv w _ _ c1] by metis
  then show thesis using that [of a] c False by (simp add: slot_clock_def ep_seen_def)
qed

lemma slot_races_seen:
  assumes "fr_inv s g" "w \<le> task_id_ctr s" "w \<notin> g_dead g" "ep_ok s (t, c)" "unfinished s (t, c)"
  shows "slot_races s w (node s w) t c = Some (\<not> ep_seen g w (t, c))"
proof -
  obtain a where a: "slot_clock s w (node s w) t c = Some a" "c \<le> a \<longleftrightarrow> ep_seen g w (t, c)"
    by (rule slot_clock_seen [OF assms])
  have "a < c \<longleftrightarrow> \<not> ep_seen g w (t, c)" unfolding a(2) [symmetric] by (simp only: not_le)
  then show ?thesis using a(1) by (simp add: slot_races_def)
qed

lemma update_readers_covers:
  assumes inv: "fr_inv s g" and w: "w \<le> task_id_ctr s" "w \<notin> g_dead g"
    and r: "ep_ok s (rtid1 x, rc1 x)" "unfinished s (rtid1 x, rc1 x)" "ep_ok s (rtid2 x, rc2 x)" "unfinished s (rtid2 x, rc2 x)"
    and c: "covers s g {(rtid1 x, rc1 x), (rtid2 x, rc2 x)} A"
  obtains x' where "update_readers s w (node s w) x = Some x'"
    "covers s g {(rtid1 x', rc1 x'), (rtid2 x', rc2 x')} (insert (w, clock (node s w)) A)"
    "{(rtid1 x', rc1 x'), (rtid2 x', rc2 x')} \<subseteq> {(rtid1 x, rc1 x), (rtid2 x, rc2 x), (w, clock (node s w))}"
    "ls_lockset x' = ls_lockset x" "wtid1 x' = wtid1 x" "wc1 x' = wc1 x" "wtid2 x' = wtid2 x" "wc2 x' = wc2 x"
proof -
  let ?c = "clock (node s w)" and ?e1 = "(rtid1 x, rc1 x)" and ?e2 = "(rtid2 x, rc2 x)"
  obtain a1 where a1: "slot_clock s w (node s w) (rtid1 x) (rc1 x) = Some a1" "rc1 x \<le> a1 \<longleftrightarrow> ep_seen g w ?e1"
    by (rule slot_clock_seen [OF inv w r(1,2)])
  obtain a2 where a2: "slot_clock s w (node s w) (rtid2 x) (rc2 x) = Some a2" "rc2 x \<le> a2 \<longleftrightarrow> ep_seen g w ?e2"
    by (rule slot_clock_seen [OF inv w r(3,4)])
  have t: "rtid1 x \<le> task_id_ctr s" "rtid2 x \<le> task_id_ctr s" using r(1,3) by (simp_all add: ep_ok_def)
  obtain b where b: "leaves_first s (node s w) (rtid1 x) (rtid2 x) = Some b"
    "b \<longrightarrow> (\<forall>z. z \<in> set (g_line g w) \<longrightarrow> z \<in> set (g_line g (rtid2 x)) \<longrightarrow> z \<in> set (g_line g (rtid1 x)))"
    "\<not> b \<longrightarrow> (\<exists>a \<in> set (g_line g w). a \<in> set (g_line g (rtid1 x)) \<and> a \<notin> set (g_line g (rtid2 x)) \<or>
       a \<in> set (g_line g (rtid2 x)) \<and> a \<notin> set (g_line g (rtid1 x)))"
    by (rule leaves_first_spec [OF inv w(1) t])
  have c2: "covers s g {?e2, ?e1} A" using c by (simp add: insert_commute)
  note ev = update_readers_def a1(1) a2(1) b(1)
  consider "ep_seen g w ?e1" | "\<not> ep_seen g w ?e1" "ep_seen g w ?e2"
    | "\<not> ep_seen g w ?e1" "\<not> ep_seen g w ?e2" b | "\<not> ep_seen g w ?e1" "\<not> ep_seen g w ?e2" "\<not> b" by blast
  then show thesis
  proof cases
    case 1
    show thesis
      by (rule that [of "x\<lparr>rtid1 := w, rc1 := ?c\<rparr>"])
        (use covers_replace [OF inv w c _ 1] t a1(2) 1 in \<open>simp_all add: ev\<close>)
  next
    case 2
    have "covers s g {?e1, (w, ?c)} (insert (w, ?c) A)"
      using covers_replace [OF inv w c2 _ 2(2)] t by (simp add: insert_commute)
    then show thesis
      by (intro that [of "x\<lparr>rtid2 := w, rc2 := ?c\<rparr>"]) (use t a1(2) a2(2) 2 in \<open>simp_all add: ev\<close>)
  next
    case 3
    show thesis
      by (rule that [of "x\<lparr>rtid1 := w, rc1 := ?c\<rparr>"])
        (use covers_drop_first [OF inv w c _ 3(2)] t a1(2) a2(2) 3 b(2) in \<open>simp_all add: ev\<close>)
  next
    case 4
    then obtain a where a: "a \<in> set (g_line g w)" "a \<in> set (g_line g (rtid1 x)) \<and> a \<notin> set (g_line g (rtid2 x)) \<or>
       a \<in> set (g_line g (rtid2 x)) \<and> a \<notin> set (g_line g (rtid1 x))" using b(3) by blast
    have "covers s g {?e1, ?e2} (insert (w, ?c) A)"
      using covers_drop_current [OF inv w c _ _ 4(1,2) a(1)] covers_drop_current [OF inv w c2 _ _ 4(2,1) a(1)] t a(2)
      by (auto simp: insert_commute)
    then show thesis by (intro that [of x]) (use a1(2) a2(2) 4 in \<open>auto simp: ev\<close>)
  qed
qed

end
