(* ===== verification/FrDetect.thy ===== *)
theory FrDetect
  imports FrReaders
begin

text \<open>
  What a shadow cell knows of the accesses so far, in a run without locks: as long as it is
  not marked racy there was no race on it, its one lock state stands for all accesses of
  the cell, and either all of its slots are finished or none is.
\<close>

section \<open>The accesses of a log\<close>

definition epochs :: "log_entry list \<Rightarrow> ADDRINT \<Rightarrow> AccessType \<Rightarrow> epoch set" where
  "epochs l a k = (\<lambda>e. (e_task e, e_clock e)) ` {e \<in> set l. same_cell a (e_addr e) \<and> e_kind e = k}"

lemma epochs_Nil [simp]: "epochs [] a k = {}"
  by (simp add: epochs_def)

lemma epochs_snoc:
  "epochs (l @ [e]) a k = (if same_cell a (e_addr e) \<and> e_kind e = k then insert (e_task e, e_clock e) (epochs l a k) else epochs l a k)"
  by (auto simp: epochs_def)

lemma epochs_index:
  "e \<in> epochs l a k \<longleftrightarrow>
     (\<exists>i < length l. same_cell a (e_addr (l ! i)) \<and> e_kind (l ! i) = k \<and> e = (e_task (l ! i), e_clock (l ! i)))"
  unfolding epochs_def by (simp add: image_iff in_set_conv_nth) metis

lemma epochs_ok:
  assumes "past_ok s g" "e \<in> epochs (g_log g) a k"
  shows "ep_ok s e" "snd e \<noteq> 0"
proof -
  obtain i where i: "i < length (g_log g)" "e = (e_task (g_log g ! i), e_clock (g_log g ! i))"
    using assms(2) by (auto simp: epochs_index)
  show "ep_ok s e" using pasts_okD(1,3) [OF assms(1) i(1)] by (simp add: i(2) ep_ok_def)
  have "\<not> e_clock (g_log g ! i) < 1" using pasts_okD(2) [OF assms(1) i(1)] by (simp only: not_less)
  then show "snd e \<noteq> 0" by (simp add: i(2))
qed

lemma epochs_cell:
  assumes "same_cell a b"
  shows "epochs l a k = epochs l b k"
proof -
  have "same_cell a x \<longleftrightarrow> same_cell b x" for x using assms same_cell_sym same_cell_trans by blast
  then show ?thesis by (simp add: epochs_def)
qed

text \<open>The access of task \<open>w\<close> that is logged next.\<close>

definition now_entry :: "fastracer \<Rightarrow> task_ghost \<Rightarrow> nat \<Rightarrow> ADDRINT \<Rightarrow> AccessType \<Rightarrow> log_entry" where
  "now_entry s g w a k = \<lparr>e_task = w, e_clock = clock (node s w), e_addr = a, e_kind = k, e_past = g_past g w\<rparr>"

lemma seen_past:
  assumes pa: "past_ok s g" and w: "w \<le> task_id_ctr s" "w \<notin> g_dead g" and i: "i < length (g_log g)"
  shows "i \<in> g_past g w \<longleftrightarrow> ep_seen g w (e_task (g_log g ! i), e_clock (g_log g ! i))"
proof -
  have "\<not> e_clock (g_log g ! i) < 1" using pasts_okD(2) [OF pa i] by (simp only: not_less)
  then show ?thesis using pasts_okD(7) [OF pa w i] by (simp add: ep_seen_def)
qed

lemma race_free_now:
  assumes pa: "past_ok s g" and w: "w \<le> task_id_ctr s" "w \<notin> g_dead g" and f: "race_free (g_log g) a"
    and s: "\<And>e. e \<in> epochs (g_log g) a WRITE \<Longrightarrow> ep_seen g w e"
      "\<And>e. k = WRITE \<Longrightarrow> e \<in> epochs (g_log g) a READ \<Longrightarrow> ep_seen g w e"
  shows "race_free (g_log g @ [now_entry s g w a k]) a"
proof -
  have "i \<in> g_past g w"
    if i: "i < length (g_log g)" "same_cell a (e_addr (g_log g ! i))" "e_kind (g_log g ! i) = WRITE \<or> k = WRITE" for i
  proof -
    have "(e_task (g_log g ! i), e_clock (g_log g ! i)) \<in> epochs (g_log g) a (e_kind (g_log g ! i))"
      using i(1,2) unfolding epochs_index by blast
    then have "ep_seen g w (e_task (g_log g ! i), e_clock (g_log g ! i))"
      using s i(3) by (cases "e_kind (g_log g ! i)") auto
    then show ?thesis using seen_past [OF pa w i(1)] by simp
  qed
  then show ?thesis using f unfolding race_free_def race_at_snoc now_entry_def by auto
qed

lemma race_now:
  assumes pa: "past_ok s g" and w: "w \<le> task_id_ctr s" "w \<notin> g_dead g"
    and e: "e \<in> epochs (g_log g) a k'" "\<not> ep_seen g w e" "k = WRITE \<or> k' = WRITE"
  shows "\<not> race_free (g_log g @ [now_entry s g w a k]) a"
proof -
  obtain i where i: "i < length (g_log g)" "same_cell a (e_addr (g_log g ! i))" "e_kind (g_log g ! i) = k'"
    "e = (e_task (g_log g ! i), e_clock (g_log g ! i))" using e(1) by (auto simp: epochs_index)
  have "i \<notin> g_past g w" using seen_past [OF pa w i(1)] e(2) i(4) by simp
  then have "race_at (g_log g @ [now_entry s g w a k]) a i (length (g_log g))"
    using i e(3) by (auto simp: race_at_snoc now_entry_def)
  then show ?thesis by (auto simp: race_free_def)
qed

text \<open>An epoch the task is still in was checked when it was first recorded.\<close>

lemma same_epoch_seen:
  assumes inv: "fr_inv s g" and pa: "past_ok s g" and lo: "log_ok g" and f: "race_free (g_log g) a"
    and w: "w \<le> task_id_ctr s" "w \<notin> g_dead g" and j: "(w, clock (node s w)) \<in> epochs (g_log g) a kj"
    and e: "e \<in> epochs (g_log g) a ki" "ki = WRITE \<or> kj = WRITE"
  shows "ep_seen g w e"
proof -
  obtain j where j: "j < length (g_log g)" "same_cell a (e_addr (g_log g ! j))" "e_kind (g_log g ! j) = kj"
    "e_task (g_log g ! j) = w" "e_clock (g_log g ! j) = clock (node s w)" using j by (auto simp: epochs_index)
  obtain i where i: "i < length (g_log g)" "same_cell a (e_addr (g_log g ! i))" "e_kind (g_log g ! i) = ki"
    "e = (e_task (g_log g ! i), e_clock (g_log g ! i))" using e(1) by (auto simp: epochs_index)
  let ?u = "e_task (g_log g ! i)"
  have "i \<in> g_past g w"
  proof (cases "i < j")
    case True
    then have "i \<in> e_past (g_log g ! j)" using f i j e(2) unfolding race_free_def race_at_def by blast
    then show ?thesis using lo j(1,4) unfolding log_ok_def by blast
  next
    case False
    show ?thesis
    proof (cases "i = j")
      case True
      then show ?thesis using pasts_okD(4) [OF pa j(1)] j(4) by simp
    next
      case ne: False
      then have "j < i" using False by simp
      then have "j \<in> e_past (g_log g ! i)" using f i j e(2) unfolding race_free_def race_at_def by blast
      then have ju: "j \<in> g_past g ?u" using lo i(1) unfolding log_ok_def by blast
      note tr = fr_invD(2) [OF inv] and dd = fr_invD(3) [OF inv] and un = pasts_okD(1) [OF pa i(1)]
      let ?v = "top (g_line g) (g_dead g) ?u"
      have v: "?v \<le> task_id_ctr s" "?v \<notin> g_dead g" using top_le [OF tr un dd] top_live(2) [OF tr un dd] .
      have sub: "g_past g ?u \<subseteq> g_past g ?v" using pasts_okD(6) [OF pa un] .
      then have "sees g ?v w (clock (node s w))" using pasts_okD(7) [OF pa v j(1)] ju j(4,5) by auto
      then have "?v = w" using sees_own_only [OF inv v(1) w] by simp
      then show ?thesis using sub pasts_okD(4) [OF pa i(1)] by auto
    qed
  qed
  then show ?thesis using seen_past [OF pa w i(1)] i(4) by simp
qed

section \<open>Finished accesses\<close>

lemma dead_seen:
  assumes inv: "fr_inv s g" and d: "check_dead s t c" and e: "ep_ok s (t, c)" and w: "w \<le> task_id_ctr s" "w \<notin> g_dead g"
  shows "ep_seen g w (t, c)"
proof -
  note tr = fr_invD(2) [OF inv] and dd = fr_invD(3) [OF inv] and fi = fr_invD(9) [OF inv]
  have nd: "x \<in> g_dead g" if "x \<le> num_dead_tasks s" "x \<noteq> 0" for x using fi that by (auto simp: finished_ok_def)
  have tn: "t \<le> task_id_ctr s" using e by (simp add: ep_ok_def)
  show ?thesis
  proof (cases "t = 0")
    case False
    then have t: "t \<le> num_dead_tasks s" using d by (simp add: check_dead_def)
    note tp = top_live [OF tr tn dd]
    have "top (g_line g) (g_dead g) t \<le> t" using tree_prefix(1) [OF tr tn tp(1)] .
    then have "top (g_line g) (g_dead g) t = 0" using nd [of "top (g_line g) (g_dead g) t"] tp(2) t by linarith
    moreover have "t \<notin> set (g_line g w)" using dead_below [OF dd nd [OF t False] w(1)] w(2) by blast
    ultimately show ?thesis using tree_line(7) [OF tr w(1)] by (simp add: ep_seen_def vis_def)
  next
    case True
    show ?thesis
    proof (cases "w = 0")
      case False
      let ?b = "branch (g_line g) w 0"
      have z: "0 \<in> set (g_line g w)" using tree_line(7) [OF tr w(1)] .
      note b = child_line [OF inv w(1) z False] and bl = live_above [OF inv w b(3)]
      have "num_dead_tasks s < ?b" using nd [of ?b] b(2) bl(2) by (meson not_less)
      then have "dead_clock_value s < g_fork g ?b" using fi bl(1) b(1) by (simp add: finished_ok_def)
      moreover have "c \<le> dead_clock_value s" using d True by (simp add: check_dead_def)
      ultimately have "c \<le> g_fork g ?b" by (meson le_less_trans less_imp_le)
      then show ?thesis using z True False by (simp add: ep_seen_def vis_def)
    qed (simp add: True ep_seen_def)
  qed
qed

section \<open>What a cell stands for\<close>

definition cell_ok :: "fastracer \<Rightarrow> task_ghost \<Rightarrow> ADDRINT \<Rightarrow> VarState \<Rightarrow> bool" where
  "cell_ok s g a v \<longleftrightarrow>
     (\<exists>x xs. var_v v = x # xs \<and> cursize v = 0 \<and> ls_lockset x = 0 \<and> wtid2 x = 0 \<and> wc2 x = 0 \<and>
        (rtid1 x, rc1 x) \<in> insert (0, 0) (epochs (g_log g) a READ) \<and>
        (rtid2 x, rc2 x) \<in> insert (0, 0) (epochs (g_log g) a READ) \<and>
        (wtid1 x, wc1 x) \<in> insert (0, 0) (epochs (g_log g) a WRITE) \<and>
        covers s g {(rtid1 x, rc1 x), (rtid2 x, rc2 x)} (epochs (g_log g) a READ) \<and>
        covers s g {(wtid1 x, wc1 x), (0, 0)} (epochs (g_log g) a WRITE) \<and>
        (entry_dead s x \<or>
         unfinished s (rtid1 x, rc1 x) \<and> unfinished s (rtid2 x, rc2 x) \<and> unfinished s (wtid1 x, wc1 x)))"

lemma ep_ok_zero: "fr_inv s g \<Longrightarrow> ep_ok s (0, 0)"
  by (simp add: ep_ok_def)

lemma slot_ep_ok: "fr_inv s g \<Longrightarrow> past_ok s g \<Longrightarrow> e \<in> insert (0, 0) (epochs (g_log g) a k) \<Longrightarrow> ep_ok s e"
  using epochs_ok(1) ep_ok_zero by (metis insert_iff)

lemma unfinished_now:
  assumes "fr_inv s g" "w \<notin> g_dead g"
  shows "unfinished s (w, c)"
proof -
  have "{1..num_dead_tasks s} \<subseteq> g_dead g" using fr_invD(9) [OF assms(1)] by (simp add: finished_ok_def)
  then have "w \<notin> {1..num_dead_tasks s}" using assms(2) by blast
  then show ?thesis by (auto simp: unfinished_def)
qed

lemma unfinished_zero [simp]: "unfinished s (0, 0)"
  by (simp add: unfinished_def)

text \<open>If all slots are finished, everybody has seen all accesses.\<close>

lemma dead_all_seen:
  assumes inv: "fr_inv s g" and pa: "past_ok s g" and v: "cell_ok s g a v" "var_v v = x # xs" and d: "entry_dead s x"
    and w: "w \<le> task_id_ctr s" "w \<notin> g_dead g" and e: "e \<in> epochs (g_log g) a k"
  shows "ep_seen g w e"
proof -
  have c: "covers s g {(rtid1 x, rc1 x), (rtid2 x, rc2 x)} (epochs (g_log g) a READ)"
    "covers s g {(wtid1 x, wc1 x), (0, 0)} (epochs (g_log g) a WRITE)"
    and sl: "(rtid1 x, rc1 x) \<in> insert (0, 0) (epochs (g_log g) a READ)" "(rtid2 x, rc2 x) \<in> insert (0, 0) (epochs (g_log g) a READ)"
      "(wtid1 x, wc1 x) \<in> insert (0, 0) (epochs (g_log g) a WRITE)"
    using v by (auto simp: cell_ok_def)
  have dd: "check_dead s (rtid1 x) (rc1 x)" "check_dead s (rtid2 x) (rc2 x)" "check_dead s (wtid1 x) (wc1 x)"
    using d by (simp_all add: entry_dead_def)
  have seen: "ep_seen g w (rtid1 x, rc1 x)" "ep_seen g w (rtid2 x, rc2 x)" "ep_seen g w (wtid1 x, wc1 x)"
    using dead_seen [OF inv dd(1) slot_ep_ok [OF inv pa sl(1)] w] dead_seen [OF inv dd(2) slot_ep_ok [OF inv pa sl(2)] w]
      dead_seen [OF inv dd(3) slot_ep_ok [OF inv pa sl(3)] w] .
  show ?thesis
  proof (cases k)
    case READ
    then show ?thesis using c(1) w e seen(1,2) unfolding covers_def by blast
  next
    case WRITE
    then show ?thesis using c(2) w e seen(3) ep_zero(1) unfolding covers_def by blast
  qed
qed

section \<open>An access\<close>

text \<open>The ghost after the access: only its log and the past of \<open>w\<close> have changed.\<close>

definition logged :: "fastracer \<Rightarrow> task_ghost \<Rightarrow> nat \<Rightarrow> ADDRINT \<Rightarrow> AccessType \<Rightarrow> task_ghost" where
  "logged s g w a k =
     g\<lparr>g_past := (g_past g)(w := insert (length (g_log g)) (g_past g w)), g_log := g_log g @ [now_entry s g w a k]\<rparr>"

lemma logged_simps [simp]:
  "g_line (logged s g w a k) = g_line g" "g_fork (logged s g w a k) = g_fork g" "g_dead (logged s g w a k) = g_dead g"
  "g_log (logged s g w a k) = g_log g @ [now_entry s g w a k]"
  by (simp_all add: logged_def)

lemma covers_logged [simp]: "covers s (logged s' g w a k) S A \<longleftrightarrow> covers s g S A"
  by (simp add: covers_def ep_seen_def ep_pot_def)

lemma epochs_now: "same_cell b a \<Longrightarrow> epochs (g_log g @ [now_entry s g w a k]) b k' =
    (if k' = k then insert (w, clock (node s w)) (epochs (g_log g) b k') else epochs (g_log g) b k')"
  by (simp add: epochs_snoc now_entry_def)

text \<open>What the code remembers of the access, seen as the outcome of one step on the cell.\<close>

definition checked :: "fastracer \<Rightarrow> task_ghost \<Rightarrow> ADDRINT \<Rightarrow> VarState \<Rightarrow> (VarState \<times> (nat \<times> AccessType) option) option \<Rightarrow> bool" where
  "checked s g a v r \<longleftrightarrow>
     (\<exists>v' q. r = Some (v', q) \<and>
        (if q = None then is_racy v' = is_racy v \<and> race_free (g_log g) a \<and> cell_ok s g a v'
         else isRacy v' \<and> \<not> race_free (g_log g) a))"

lemma checked_ok: "is_racy v' = is_racy v \<Longrightarrow> race_free (g_log g) a \<Longrightarrow> cell_ok s g a v' \<Longrightarrow> checked s g a v (Some (v', None))"
  by (simp add: checked_def)

lemma checked_race: "\<not> race_free (g_log g) a \<Longrightarrow> checked s g a v (Some (setRacy v, Some q))"
  by (simp add: checked_def setRacy_def isRacy_def)

lemma cell_ok_fresh:
  assumes inv: "fr_inv s g" and w: "w \<le> task_id_ctr s" "w \<notin> g_dead g"
    and seen: "\<And>u e k. u \<le> task_id_ctr s \<Longrightarrow> u \<notin> g_dead g \<Longrightarrow> e \<in> epochs (g_log g) a k \<Longrightarrow> ep_seen g u e"
    and v: "var_v v = x # xs" "cursize v = 0" "ls_lockset x = 0" "wtid2 x = 0" "wc2 x = 0" "rtid2 x = 0" "rc2 x = 0"
      "if k = READ then rtid1 x = w \<and> rc1 x = clock (node s w) \<and> wtid1 x = 0 \<and> wc1 x = 0
       else wtid1 x = w \<and> wc1 x = clock (node s w) \<and> rtid1 x = 0 \<and> rc1 x = 0"
  shows "cell_ok s (logged s g w a k) a v"
proof -
  let ?e = "(w, clock (node s w))"
  have all: "covers s g S (epochs (g_log g) a k')" for S k' using seen by (rule covers_all_seen)
  have new: "covers s g {?e, (0, 0)} (insert ?e (epochs (g_log g) a k'))" for k'
    by (rule covers_insert [OF inv w all [of "{(0, 0), (0, 0)}"]]) simp_all
  have new2: "covers s g {?e, (0, 0)} (epochs (g_log g) a k')" for k' by (rule all)
  have un: "unfinished s ?e" by (rule unfinished_now [OF inv w(2)])
  show ?thesis
    unfolding cell_ok_def
    by (intro exI [of _ x] exI [of _ xs]) (use v un all new new2 in \<open>cases k; simp add: epochs_now\<close>)
qed

lemma var_indices: "cursize v = 0 \<Longrightarrow> indices v = [0]"
  by (simp add: indices_def)

lemma read_checked:
  assumes inv: "fr_inv s g" and pa: "past_ok s g" and lo: "log_ok g" and f: "race_free (g_log g) a"
    and w: "w \<le> task_id_ctr s" "w \<notin> g_dead g" and ls: "lockset (node s w) = 0" and v: "cell_ok s g a v"
  shows "checked s (logged s g w a READ) a v (read_access s w (node s w) v)"
proof -
  obtain x xs where x: "var_v v = x # xs" "cursize v = 0" "ls_lockset x = 0" "wtid2 x = 0" "wc2 x = 0"
    and sl: "(rtid1 x, rc1 x) \<in> insert (0, 0) (epochs (g_log g) a READ)" "(rtid2 x, rc2 x) \<in> insert (0, 0) (epochs (g_log g) a READ)"
      "(wtid1 x, wc1 x) \<in> insert (0, 0) (epochs (g_log g) a WRITE)"
    and c: "covers s g {(rtid1 x, rc1 x), (rtid2 x, rc2 x)} (epochs (g_log g) a READ)"
      "covers s g {(wtid1 x, wc1 x), (0, 0)} (epochs (g_log g) a WRITE)"
    and un: "entry_dead s x \<or> unfinished s (rtid1 x, rc1 x) \<and> unfinished s (rtid2 x, rc2 x) \<and> unfinished s (wtid1 x, wc1 x)"
    using v unfolding cell_ok_def by blast
  let ?e = "(w, clock (node s w))"
  note ok = slot_ep_ok [OF inv pa sl(1)] slot_ep_ok [OF inv pa sl(2)] slot_ep_ok [OF inv pa sl(3)]
  have nz: "clock (node s w) \<noteq> 0" using clock_small(3) [OF inv w(1)] by auto
  have at: "entry_at v 0 = Some x" by (simp add: entry_at_def x)
  have fa: "first_access s v (indices v) = Some (entry_dead s x)" by (simp add: var_indices [OF x(2)] at)
  have free: "race_free (g_log (logged s g w a READ)) a" if "\<And>e. e \<in> epochs (g_log g) a WRITE \<Longrightarrow> ep_seen g w e"
    using race_free_now [OF pa w f, of READ] that by simp
  show ?thesis
  proof (cases "entry_dead s x")
    case True
    note seen = dead_all_seen [OF inv pa v x(1) True]
    let ?y = "new_LockState\<lparr>rtid1 := w, rc1 := clock (node s w), ls_lockset := 0\<rparr>"
    let ?v = "v\<lparr>var_v := ?y # xs, cursize := 0\<rparr>"
    have "read_access s w (node s w) v = Some (?v, None)"
      using True fa by (simp add: read_access_def start_read_def memset_v_def entry_at_def put_entry_def x ls Let_def)
    moreover have "cell_ok s (logged s g w a READ) a ?v"
      by (rule cell_ok_fresh [OF inv w, where x = ?y and xs = xs]) (use seen in \<open>simp_all add: new_LockState_def\<close>)
    ultimately show ?thesis using checked_ok [OF _ free [OF seen [OF w]]] by simp
  next
    case False
    then have un: "unfinished s (rtid1 x, rc1 x)" "unfinished s (rtid2 x, rc2 x)" "unfinished s (wtid1 x, wc1 x)" using un by blast+
    have rw: "race_with_write s w (node s w) x = Some (if ep_seen g w (wtid1 x, wc1 x) then Scanned None else RaceWith (wtid1 x) WRITE)"
      using slot_races_seen [OF inv w ok(3) un(3)] slot_races_seen [OF inv w ep_ok_zero [OF inv] unfinished_zero]
      by (simp add: race_with_write_def x)
    have sc: "scan_read s w (node s w) v 0 None (indices v) = Some (if read_same_epoch w (node s w) x then SameEpoch
        else if ep_seen g w (wtid1 x, wc1 x) then Scanned (Some 0) else RaceWith (wtid1 x) WRITE)"
      by (simp add: var_indices [OF x(2)] at x(3) rw Let_def)
    show ?thesis
    proof (cases "read_same_epoch w (node s w) x")
      case True
      then have "?e \<in> epochs (g_log g) a READ" using sl(1,2) nz by (auto simp: read_same_epoch_def)
      then have same: "insert ?e (epochs (g_log g) a READ) = epochs (g_log g) a READ" by blast
      have "ep_seen g w e" if "e \<in> epochs (g_log g) a WRITE" for e
        using same_epoch_seen [OF inv pa lo f w \<open>?e \<in> _\<close> that] by simp
      moreover have "read_access s w (node s w) v = Some (v, None)"
        using False fa True sc by (simp add: read_access_def ls)
      moreover have "cell_ok s (logged s g w a READ) a v"
        using v by (simp add: cell_ok_def epochs_now same)
      ultimately show ?thesis using checked_ok [OF _ free] by simp
    next
      case ne: False
      show ?thesis
      proof (cases "ep_seen g w (wtid1 x, wc1 x)")
        case False
        then have "(wtid1 x, wc1 x) \<in> epochs (g_log g) a WRITE" using sl(3) by auto
        then have "\<not> race_free (g_log (logged s g w a READ)) a" using race_now [OF pa w _ False] by simp
        moreover have "read_access s w (node s w) v = Some (setRacy v, Some (wtid1 x, WRITE))"
          using \<open>\<not> entry_dead s x\<close> fa ne sc rw False by (simp add: read_access_def ls)
        ultimately show ?thesis using checked_race by simp
      next
        case True
        have seen: "ep_seen g w e" if "e \<in> epochs (g_log g) a WRITE" for e
          using c(2) w that True ep_zero(1) unfolding covers_def by blast
        obtain y where y: "update_readers s w (node s w) x = Some y"
          "covers s g {(rtid1 y, rc1 y), (rtid2 y, rc2 y)} (insert ?e (epochs (g_log g) a READ))"
          "{(rtid1 y, rc1 y), (rtid2 y, rc2 y)} \<subseteq> {(rtid1 x, rc1 x), (rtid2 x, rc2 x), ?e}"
          "ls_lockset y = ls_lockset x" "wtid1 y = wtid1 x" "wc1 y = wc1 x" "wtid2 y = wtid2 x" "wc2 y = wc2 x"
          by (rule update_readers_covers [OF inv w ok(1) un(1) ok(2) un(2) c(1)])
        let ?v = "v\<lparr>var_v := y # xs\<rparr>"
        have "read_access s w (node s w) v = Some (?v, None)"
          using False fa ne sc rw True y(1) by (simp add: read_access_def ls at put_entry_def x)
        moreover have "cell_ok s (logged s g w a READ) a ?v"
        proof -
          have in_slots: "z \<in> insert (0, 0) (insert ?e (epochs (g_log g) a READ)) \<and> unfinished s z"
            if "z \<in> {(rtid1 y, rc1 y), (rtid2 y, rc2 y)}" for z
            using subsetD [OF y(3) that] sl(1,2) un(1,2) unfinished_now [OF inv w(2)] by blast
          show ?thesis
            unfolding cell_ok_def
            by (intro exI [of _ y] exI [of _ xs])
              (use x y(2,4-8) sl(3) c(2) un(3) in_slots [of "(rtid1 y, rc1 y)"] in_slots [of "(rtid2 y, rc2 y)"] in \<open>simp add: epochs_now\<close>)
        qed
        ultimately show ?thesis using checked_ok [OF _ free [OF seen]] by simp
      qed
    qed
  qed
qed

lemma write_checked:
  assumes inv: "fr_inv s g" and pa: "past_ok s g" and lo: "log_ok g" and f: "race_free (g_log g) a"
    and w: "w \<le> task_id_ctr s" "w \<notin> g_dead g" and ls: "lockset (node s w) = 0" and v: "cell_ok s g a v"
  shows "checked s (logged s g w a WRITE) a v (write_access s w (node s w) v)"
proof -
  obtain x xs where x: "var_v v = x # xs" "cursize v = 0" "ls_lockset x = 0" "wtid2 x = 0" "wc2 x = 0"
    and sl: "(rtid1 x, rc1 x) \<in> insert (0, 0) (epochs (g_log g) a READ)" "(rtid2 x, rc2 x) \<in> insert (0, 0) (epochs (g_log g) a READ)"
      "(wtid1 x, wc1 x) \<in> insert (0, 0) (epochs (g_log g) a WRITE)"
    and c: "covers s g {(rtid1 x, rc1 x), (rtid2 x, rc2 x)} (epochs (g_log g) a READ)"
      "covers s g {(wtid1 x, wc1 x), (0, 0)} (epochs (g_log g) a WRITE)"
    and un: "entry_dead s x \<or> unfinished s (rtid1 x, rc1 x) \<and> unfinished s (rtid2 x, rc2 x) \<and> unfinished s (wtid1 x, wc1 x)"
    using v unfolding cell_ok_def by blast
  let ?e = "(w, clock (node s w))"
  note ok = slot_ep_ok [OF inv pa sl(1)] slot_ep_ok [OF inv pa sl(2)] slot_ep_ok [OF inv pa sl(3)]
  have nz: "clock (node s w) \<noteq> 0" using clock_small(3) [OF inv w(1)] by auto
  have at: "entry_at v 0 = Some x" by (simp add: entry_at_def x)
  have fa: "first_access s v (indices v) = Some (entry_dead s x)" by (simp add: var_indices [OF x(2)] at)
  have free: "race_free (g_log (logged s g w a WRITE)) a" if "\<And>e k. e \<in> epochs (g_log g) a k \<Longrightarrow> ep_seen g w e"
    using race_free_now [OF pa w f, of WRITE] that by simp
  show ?thesis
  proof (cases "entry_dead s x")
    case True
    note seen = dead_all_seen [OF inv pa v x(1) True]
    let ?y = "new_LockState\<lparr>wtid1 := w, wc1 := clock (node s w)\<rparr>"
    let ?v = "v\<lparr>var_v := ?y # xs, cursize := 0\<rparr>"
    have "write_access s w (node s w) v = Some (?v, None)"
      using True fa by (simp add: write_access_def start_write_def memset_v_def entry_at_def put_entry_def x ls Let_def)
    moreover have "cell_ok s (logged s g w a WRITE) a ?v"
      by (rule cell_ok_fresh [OF inv w, where x = ?y and xs = xs]) (use seen in \<open>simp_all add: new_LockState_def\<close>)
    ultimately show ?thesis using checked_ok [OF _ free [OF seen [OF w]]] by simp
  next
    case False
    then have un: "unfinished s (rtid1 x, rc1 x)" "unfinished s (rtid2 x, rc2 x)" "unfinished s (wtid1 x, wc1 x)" using un by blast+
    have rw: "race_with_write s w (node s w) x = Some (if ep_seen g w (wtid1 x, wc1 x) then Scanned None else RaceWith (wtid1 x) WRITE)"
      using slot_races_seen [OF inv w ok(3) un(3)] slot_races_seen [OF inv w ep_ok_zero [OF inv] unfinished_zero]
      by (simp add: race_with_write_def x)
    have rr: "race_with_read s w (node s w) x = Some (if \<not> ep_seen g w (rtid1 x, rc1 x) then RaceWith (rtid1 x) READ
        else if \<not> ep_seen g w (rtid2 x, rc2 x) then RaceWith (rtid2 x) READ else Scanned None)"
      using slot_races_seen [OF inv w ok(1) un(1)] slot_races_seen [OF inv w ok(2) un(2)] by (simp add: race_with_read_def)
    have sc: "scan_write s w (node s w) v 0 None (indices v) = Some (if write_same_epoch w (node s w) x then SameEpoch
        else if \<not> ep_seen g w (wtid1 x, wc1 x) then RaceWith (wtid1 x) WRITE
        else if \<not> ep_seen g w (rtid1 x, rc1 x) then RaceWith (rtid1 x) READ
        else if \<not> ep_seen g w (rtid2 x, rc2 x) then RaceWith (rtid2 x) READ else Scanned (Some 0))"
      by (simp add: var_indices [OF x(2)] at x(3) rw rr Let_def)
    have race: ?thesis
      if "e \<in> insert (0, 0) (epochs (g_log g) a k)" "\<not> ep_seen g w e" "write_access s w (node s w) v = Some (setRacy v, Some q)" for e k q
    proof -
      have "e \<in> epochs (g_log g) a k" using that(1,2) by auto
      then have "\<not> race_free (g_log (logged s g w a WRITE)) a" using race_now [OF pa w _ that(2)] by simp
      then show ?thesis using checked_race that(3) by simp
    qed
    consider "write_same_epoch w (node s w) x"
      | "\<not> write_same_epoch w (node s w) x" "\<not> ep_seen g w (wtid1 x, wc1 x)"
      | "\<not> write_same_epoch w (node s w) x" "ep_seen g w (wtid1 x, wc1 x)" "\<not> ep_seen g w (rtid1 x, rc1 x)"
      | "\<not> write_same_epoch w (node s w) x" "ep_seen g w (wtid1 x, wc1 x)" "ep_seen g w (rtid1 x, rc1 x)" "\<not> ep_seen g w (rtid2 x, rc2 x)"
      | "\<not> write_same_epoch w (node s w) x" "ep_seen g w (wtid1 x, wc1 x)" "ep_seen g w (rtid1 x, rc1 x)" "ep_seen g w (rtid2 x, rc2 x)"
      by blast
    then show ?thesis
    proof cases
      case 1
      then have old: "?e \<in> epochs (g_log g) a WRITE" using sl(3) nz x(4,5) by (auto simp: write_same_epoch_def)
      then have same: "insert ?e (epochs (g_log g) a WRITE) = epochs (g_log g) a WRITE" by blast
      have "ep_seen g w e" if "e \<in> epochs (g_log g) a k" for e k
        using same_epoch_seen [OF inv pa lo f w old that] by simp
      moreover have "write_access s w (node s w) v = Some (v, None)"
        using False fa 1 sc by (simp add: write_access_def ls)
      moreover have "cell_ok s (logged s g w a WRITE) a v"
        using v by (simp add: cell_ok_def epochs_now same)
      ultimately show ?thesis using checked_ok [OF _ free] by simp
    next
      case 2
      show ?thesis by (rule race [OF sl(3) 2(2)]) (use False fa sc 2 in \<open>simp add: write_access_def ls\<close>)
    next
      case 3
      show ?thesis by (rule race [OF sl(1) 3(3)]) (use False fa sc 3 in \<open>simp add: write_access_def ls\<close>)
    next
      case 4
      show ?thesis by (rule race [OF sl(2) 4(4)]) (use False fa sc 4 in \<open>simp add: write_access_def ls\<close>)
    next
      case 5
      have seen: "ep_seen g w e" if "e \<in> epochs (g_log g) a k" for e k
      proof (cases k)
        case READ
        then show ?thesis using c(1) w that 5(3,4) unfolding covers_def by blast
      next
        case WRITE
        then show ?thesis using c(2) w that 5(2) ep_zero(1) unfolding covers_def by blast
      qed
      obtain a1 where a1: "slot_clock s w (node s w) (wtid1 x) (wc1 x) = Some a1" "wc1 x \<le> a1 \<longleftrightarrow> ep_seen g w (wtid1 x, wc1 x)"
        by (rule slot_clock_seen [OF inv w ok(3) un(3)])
      let ?y = "x\<lparr>wtid1 := w, wc1 := clock (node s w)\<rparr>"
      let ?v = "v\<lparr>var_v := ?y # xs\<rparr>"
      have "update_writers s w (node s w) x = Some ?y" using a1 5(2) by (simp add: update_writers_def)
      then have "write_access s w (node s w) v = Some (?v, None)"
        using False fa sc 5 by (simp add: write_access_def ls at put_entry_def x)
      moreover have "covers s g {?e, (0, 0)} (insert ?e (epochs (g_log g) a WRITE))"
        using covers_replace [OF inv w c(2) _ 5(2)] ok(3) by (simp add: ep_ok_def)
      then have "cell_ok s (logged s g w a WRITE) a ?v"
        unfolding cell_ok_def
        by (intro exI [of _ ?y] exI [of _ xs])
          (use x sl(1,2) c(1) un(1,2) unfinished_now [OF inv w(2), of "clock (node s w)"] in \<open>simp add: epochs_now\<close>)
      ultimately show ?thesis using checked_ok [OF _ free [OF seen]] by simp
    qed
  qed
qed

end
