(* ===== verification/FrRace.thy ===== *)
theory FrRace
  imports FrDetect
begin

text \<open>
  In a run that takes no locks the violations are exactly the races: a cell is marked racy,
  and its violation recorded, at the first access that completes a race on it.
\<close>

section \<open>Runs without locks\<close>

definition lock_event :: "fr_event \<Rightarrow> bool" where
  "lock_event e = (case e of FrAcquire _ _ \<Rightarrow> True | FrRelease _ _ \<Rightarrow> True | _ \<Rightarrow> False)"

definition unlocked :: "fastracer \<Rightarrow> bool" where
  "unlocked s \<longleftrightarrow> (\<forall>t. lockset (node s t) = 0)"

definition reported :: "fastracer \<Rightarrow> ADDRINT \<Rightarrow> bool" where
  "reported s a \<longleftrightarrow> (\<exists>b. same_cell a b \<and> all_violations s b \<noteq> None)"

definition det_ok :: "fastracer \<Rightarrow> task_ghost \<Rightarrow> bool" where
  "det_ok s g \<longleftrightarrow>
     (\<forall>a. let v = cell_at new_VarState (shadow_space s) a in
        (isRacy v \<longleftrightarrow> reported s a) \<and> (isRacy v \<longleftrightarrow> \<not> race_free (g_log g) a) \<and> (\<not> isRacy v \<longrightarrow> cell_ok s g a v))"

lemma det_okD:
  assumes "det_ok s g"
  shows "isRacy (cell_at new_VarState (shadow_space s) a) \<longleftrightarrow> reported s a"
    "race_free (g_log g) a \<longleftrightarrow> \<not> reported s a"
    "\<not> reported s a \<Longrightarrow> cell_ok s g a (cell_at new_VarState (shadow_space s) a)"
  using assms unfolding det_ok_def Let_def by blast+

lemma det_okI:
  assumes "\<And>a. isRacy (cell_at new_VarState (shadow_space s) a) \<longleftrightarrow> reported s a"
    "\<And>a. race_free (g_log g) a \<longleftrightarrow> \<not> reported s a"
    "\<And>a. \<not> reported s a \<Longrightarrow> cell_ok s g a (cell_at new_VarState (shadow_space s) a)"
  shows "det_ok s g"
  using assms by (simp add: det_ok_def Let_def)

lemma reported_cell: "same_cell a b \<Longrightarrow> reported s a \<longleftrightarrow> reported s b"
  unfolding reported_def using same_cell_sym same_cell_trans by blast

definition fr_ok :: "fastracer \<Rightarrow> task_ghost \<Rightarrow> bool" where
  "fr_ok s g \<longleftrightarrow> fr_inv s g \<and> past_ok s g \<and> log_ok g \<and> unlocked s \<and> det_ok s g"

lemma cell_ok_cell: "same_cell a b \<Longrightarrow> cell_ok s g a v \<longleftrightarrow> cell_ok s g b v"
  unfolding cell_ok_def by (simp only: epochs_cell)

lemma fr_ok_init: "fr_ok TD_Activate ghost_init"
proof -
  have "cell_ok TD_Activate ghost_init a new_VarState" for a
    by (simp add: cell_ok_def new_VarState_def new_LockState_def NUM_FIXED_VAR_ENTRIES_def ghost_init_def covers_def
        numeral_3_eq_3 entry_dead_def check_dead_def)
  moreover have "race_free (g_log ghost_init) a" for a by (simp add: race_free_def race_at_def ghost_init_def)
  moreover have "isRacy new_VarState = False" by (simp add: isRacy_def new_VarState_def)
  moreover have "\<not> reported TD_Activate a" for a by (simp add: reported_def TD_Activate_def)
  ultimately have "det_ok TD_Activate ghost_init" by (intro det_okI) (simp_all add: TD_Activate_def)
  moreover have "log_ok ghost_init" by (simp add: log_ok_def ghost_init_def)
  moreover have "unlocked TD_Activate" by (simp add: unlocked_def TD_Activate_def zero_TaskState_def)
  ultimately show ?thesis using fr_inv_init pasts_ok_init by (simp add: fr_ok_def)
qed

section \<open>Steps that are no accesses\<close>

text \<open>A step keeps what the cells stand for if it keeps coverage and what is finished, or finishes everything.\<close>

definition still :: "fastracer \<Rightarrow> task_ghost \<Rightarrow> fastracer \<Rightarrow> task_ghost \<Rightarrow> bool" where
  "still s g s' g' \<longleftrightarrow>
     g_log g' = g_log g \<and> (\<forall>t. t \<le> task_id_ctr s \<longrightarrow> g_past g t \<subseteq> g_past g' t) \<and>
     shadow_space s' = shadow_space s \<and> all_violations s' = all_violations s \<and>
     (\<forall>S A. (\<forall>e \<in> S \<union> A. ep_ok s e) \<longrightarrow> covers s g S A \<longrightarrow> covers s' g' S A) \<and>
     (num_dead_tasks s' = num_dead_tasks s \<and> dead_clock_value s' = dead_clock_value s \<or>
      (\<forall>t c. ep_ok s (t, c) \<longrightarrow> check_dead s' t c))"

lemma still_log:
  assumes "still s g s' g'" "log_ok g" "past_ok s g"
  shows "log_ok g'"
  using assms(1,2) pasts_okD(1) [OF assms(3)] unfolding still_def log_ok_def by (metis subset_trans)

lemma still_cell:
  assumes st: "still s g s' g'" and inv: "fr_inv s g" and pa: "past_ok s g" and v: "cell_ok s g a v"
  shows "cell_ok s' g' a v"
proof -
  obtain x xs where x: "var_v v = x # xs" "cursize v = 0" "ls_lockset x = 0" "wtid2 x = 0" "wc2 x = 0"
    and sl: "(rtid1 x, rc1 x) \<in> insert (0, 0) (epochs (g_log g) a READ)" "(rtid2 x, rc2 x) \<in> insert (0, 0) (epochs (g_log g) a READ)"
      "(wtid1 x, wc1 x) \<in> insert (0, 0) (epochs (g_log g) a WRITE)"
    and c: "covers s g {(rtid1 x, rc1 x), (rtid2 x, rc2 x)} (epochs (g_log g) a READ)"
      "covers s g {(wtid1 x, wc1 x), (0, 0)} (epochs (g_log g) a WRITE)"
    and un: "entry_dead s x \<or> unfinished s (rtid1 x, rc1 x) \<and> unfinished s (rtid2 x, rc2 x) \<and> unfinished s (wtid1 x, wc1 x)"
    using v unfolding cell_ok_def by blast
  note ok = slot_ep_ok [OF inv pa sl(1)] slot_ep_ok [OF inv pa sl(2)] slot_ep_ok [OF inv pa sl(3)]
  have lg: "g_log g' = g_log g" and cv: "\<And>S A. \<forall>e \<in> S \<union> A. ep_ok s e \<Longrightarrow> covers s g S A \<Longrightarrow> covers s' g' S A"
    using st unfolding still_def by blast+
  have "\<forall>e \<in> epochs (g_log g) a k. ep_ok s e" for k using epochs_ok(1) [OF pa] by blast
  then have c': "covers s' g' {(rtid1 x, rc1 x), (rtid2 x, rc2 x)} (epochs (g_log g) a READ)"
    "covers s' g' {(wtid1 x, wc1 x), (0, 0)} (epochs (g_log g) a WRITE)"
    using cv [OF _ c(1)] cv [OF _ c(2)] ok ep_ok_zero [OF inv] by blast+
  have "entry_dead s' x \<or> unfinished s' (rtid1 x, rc1 x) \<and> unfinished s' (rtid2 x, rc2 x) \<and> unfinished s' (wtid1 x, wc1 x)"
  proof (cases "num_dead_tasks s' = num_dead_tasks s \<and> dead_clock_value s' = dead_clock_value s")
    case True
    then show ?thesis using un by (simp add: entry_dead_def check_dead_def unfinished_def)
  next
    case False
    then have "\<And>t c. ep_ok s (t, c) \<Longrightarrow> check_dead s' t c" using st unfolding still_def by blast
    then have "entry_dead s' x" using ok ep_ok_zero [OF inv] x(4,5) by (simp add: entry_dead_def)
    then show ?thesis ..
  qed
  then show ?thesis unfolding cell_ok_def lg using x sl c' by blast
qed

lemma still_ok:
  assumes st: "still s g s' g'" and ok: "fr_ok s g" and "fr_inv s' g'" "past_ok s' g'" "unlocked s'"
  shows "fr_ok s' g'"
proof -
  have inv: "fr_inv s g" "past_ok s g" and lo: "log_ok g" and det: "det_ok s g" using ok by (simp_all add: fr_ok_def)
  have sp: "shadow_space s' = shadow_space s" "g_log g' = g_log g" and r: "reported s' = reported s"
    using st by (auto simp: still_def reported_def fun_eq_iff)
  have "det_ok s' g'"
    by (rule det_okI) (use det_okD [OF det] still_cell [OF st inv] in \<open>simp_all add: sp r\<close>)
  then show ?thesis using assms still_log [OF st lo inv(2)] by (simp add: fr_ok_def)
qed

lemma still_frame:
  assumes "task_id_ctr s' = task_id_ctr s" "shadow_space s' = shadow_space s" "all_violations s' = all_violations s"
    "num_dead_tasks s' = num_dead_tasks s" "dead_clock_value s' = dead_clock_value s"
  shows "still s g s' g"
  using assms by (simp add: still_def covers_def)

lemma spawn_still:
  assumes inv: "fr_inv s g" and d: "fr_disciplined s g (FrSpawn th t b)" and st: "fr_step s (FrSpawn th t b) = Some s'"
    and u: "unlocked s"
  shows "still s g s' (fr_ghost_step s g (FrSpawn th t b))" "unlocked s'"
proof -
  obtain p ts where p: "cur s th = p # ts" "p \<le> task_id_ctr s" "p \<notin> g_dead g" and s': "s' = spawned s p t"
    by (rule spawn_result [OF inv d st])
  let ?g = "fr_ghost_step s g (FrSpawn th t b)"
  have g': "g_line ?g = add_task p (task_id_ctr s) (g_line g)" "g_fork ?g = (g_fork g)(Suc (task_id_ctr s) := clock (node s p))"
    "g_dead ?g = g_dead g" "g_past ?g = (g_past g)(Suc (task_id_ctr s) := g_past g p)" "g_log ?g = g_log g"
    using p(1) by (simp_all add: fr_ghost_step_def)
  show "still s g s' ?g"
    unfolding still_def
    using covers_spawn [OF inv p(2,3) g'(1-3), of s'] by (auto simp: g'(4,5) s' spawned_def)
  show "unlocked s'" using u by (simp add: unlocked_def s' spawned_def child_node_def spawner_def Let_def)
qed

lemma wait_still:
  assumes inv: "fr_inv s g" and d: "fr_disciplined s g (FrWait th)" and st: "fr_step s (FrWait th) = Some s'"
    and u: "unlocked s"
  shows "still s g s' (fr_ghost_step s g (FrWait th))" "unlocked s'"
proof -
  have a: "active s g th" using d by (simp add: fr_disciplined_def)
  obtain p ts where p: "cur s th = p # ts" "p \<le> task_id_ctr s" "p \<notin> g_dead g" "th < NUM_THREADS"
    by (rule active_top [OF inv a])
  let ?g = "fr_ghost_step s g (FrWait th)"
  have g': "g_line ?g = g_line g" "g_fork ?g = g_fork g" "g_dead ?g = join_below p (task_id_ctr s) (g_line g) (g_dead g)"
    "g_log ?g = g_log g" "g_past g q \<subseteq> g_past ?g q" for q
    using wait_dead(2,3) [of s g th] wait_dead(1) [OF p(1), of g] p(1) by (auto simp: fr_ghost_step_def)
  have s'eq: "s' = (if p = 0 \<and> kids (node s 0) \<noteq> [] then reset_dead 0 s else joined s p (below s g p - g_dead g))"
    using st p(1,4) wait_task_eq [OF inv p(2,3)] by (simp add: Capturewait_for_all_def cur_top_def)
  have ctr: "task_id_ctr s' = task_id_ctr s" and same: "shadow_space s' = shadow_space s" "all_violations s' = all_violations s"
    by (simp_all add: s'eq reset_dead_def clear_list_def upd_node_def Let_def joined_def)
  have ls: "lockset (clear_kids x) = lockset x" for x by (simp add: clear_kids_def)
  show "unlocked s'"
    using u by (simp add: unlocked_def s'eq reset_dead_def clear_list_def upd_node_def Let_def joined_def ls)
  have "num_dead_tasks s' = num_dead_tasks s \<and> dead_clock_value s' = dead_clock_value s \<or> (\<forall>t c. ep_ok s (t, c) \<longrightarrow> check_dead s' t c)"
  proof (cases "p = 0 \<and> kids (node s 0) \<noteq> []")
    case True
    then have "num_dead_tasks s' = task_id_ctr s" "dead_clock_value s' = clock (node s 0)"
      by (simp_all add: s'eq reset_dead_def clear_list_def upd_node_def Let_def)
    then show ?thesis by (auto simp: ep_ok_def check_dead_def)
  next
    case False
    then show ?thesis by (simp only: s'eq if_False joined_simps) simp
  qed
  then show "still s g s' ?g"
    unfolding still_def same g'(4) using covers_wait [OF inv p(2,3) g'(1-3) ctr] g'(5) by blast
qed

section \<open>Accesses\<close>

lemma logged_step:
  assumes "cur s th = w # ws"
  shows "fr_ghost_step s g (FrAccess th a k) = logged s g w a k"
  using assms by (simp add: fr_ghost_step_def logged_def now_entry_def)

lemma log_ok_logged:
  assumes "log_ok g" "past_ok s g" "w \<le> task_id_ctr s"
  shows "log_ok (logged s g w a k)"
proof -
  have "g_past g w \<subseteq> {..<length (g_log g)}" by (rule pasts_okD(5) [OF assms(2,3)])
  then show ?thesis
    using assms(1) by (auto simp: log_ok_def logged_def now_entry_def nth_append less_Suc_eq)
qed

lemma other_cell:
  assumes "\<not> same_cell b a"
  shows "race_free (g_log (logged s g w a k)) b \<longleftrightarrow> race_free (g_log g) b"
    "cell_ok s (logged s g w a k) b v \<longleftrightarrow> cell_ok s g b v"
proof -
  have "epochs (g_log g @ [now_entry s g w a k]) b k' = epochs (g_log g) b k'" for k'
    using assms by (simp add: epochs_snoc now_entry_def)
  then show "cell_ok s (logged s g w a k) b v \<longleftrightarrow> cell_ok s g b v" by (simp add: cell_ok_def)
  show "race_free (g_log (logged s g w a k)) b \<longleftrightarrow> race_free (g_log g) b"
    using assms by (auto simp: race_free_def race_at_snoc now_entry_def)
qed

lemma seen_record:
  assumes w: "cur s th = w # ws" "task_at s w = Some (node s w)" "th < NUM_THREADS"
    and rec: "RecordMem s th a k = Some s'"
  defines "s1 \<equiv> s\<lparr>shadow_space := touch_page new_VarState (shadow_space s) (primary_index a)\<rparr>"
    and "v \<equiv> cell_at new_VarState (shadow_space s) a"
  shows "isRacy v \<Longrightarrow> s' = s1"
    "\<not> isRacy v \<Longrightarrow> (case k of READ \<Rightarrow> read_access s1 w (node s1 w) v | WRITE \<Rightarrow> write_access s1 w (node s1 w) v) = Some (v', q) \<Longrightarrow>
       shadow_space s' = put_cell new_VarState (shadow_space s1) a v' \<and>
       all_violations s' = (case q of None \<Rightarrow> all_violations s
         | Some (t, k') \<Rightarrow> map_insert (all_violations s) a \<lparr>vi_a1 = \<lparr>vd_tid = t, vd_accessType = k'\<rparr>, vi_a2 = \<lparr>vd_tid = w, vd_accessType = k\<rparr>\<rparr>)"
proof -
  show "isRacy v \<Longrightarrow> s' = s1"
    using rec w by (simp add: RecordMem_def Let_def cell_at_touch v_def s1_def)
  show "shadow_space s' = put_cell new_VarState (shadow_space s1) a v' \<and>
       all_violations s' = (case q of None \<Rightarrow> all_violations s
         | Some (t, k') \<Rightarrow> map_insert (all_violations s) a \<lparr>vi_a1 = \<lparr>vd_tid = t, vd_accessType = k'\<rparr>, vi_a2 = \<lparr>vd_tid = w, vd_accessType = k\<rparr>\<rparr>)"
    if "\<not> isRacy v" "(case k of READ \<Rightarrow> read_access s1 w (node s1 w) v | WRITE \<Rightarrow> write_access s1 w (node s1 w) v) = Some (v', q)"
  proof -
    have n: "node s1 w = node s w" by (simp add: s1_def)
    have v1: "cell_at new_VarState (shadow_space s1) a = v" by (simp add: s1_def v_def cell_at_touch)
    have "s' = (case q of None \<Rightarrow> s1\<lparr>shadow_space := put_cell new_VarState (shadow_space s1) a v'\<rparr>
        | Some (t, k') \<Rightarrow> error (s1\<lparr>shadow_space := put_cell new_VarState (shadow_space s1) a v'\<rparr>) a t k' w k)"
      using rec w that v1 unfolding RecordMem_def n by (cases k) (simp_all add: Let_def s1_def [symmetric])
    then show ?thesis by (cases q) (auto simp: error_def s1_def)
  qed
qed

lemma fr_access_ok:
  assumes ok: "fr_ok s g" and d: "fr_disciplined s g (FrAccess th a k)" and st: "fr_step s (FrAccess th a k) = Some s'"
  shows "fr_ok s' (fr_ghost_step s g (FrAccess th a k))"
proof -
  have inv: "fr_inv s g" and pa: "past_ok s g" and lo: "log_ok g" and u: "unlocked s" and det: "det_ok s g"
    using ok by (simp_all add: fr_ok_def)
  have ac: "active s g th" using d by (simp add: fr_disciplined_def)
  obtain w ws where w: "cur s th = w # ws" "w \<le> task_id_ctr s" "w \<notin> g_dead g" "task_at s w = Some (node s w)" "th < NUM_THREADS"
    by (rule active_top [OF inv ac])
  let ?s = "s\<lparr>shadow_space := touch_page new_VarState (shadow_space s) (primary_index a)\<rparr>"
  let ?g = "logged s g w a k" and ?v = "cell_at new_VarState (shadow_space s) a"
  note g' = logged_step [OF w(1), of g a k]
  have rec: "RecordMem s th a k = Some s'" using st by simp
  note fr = access_frame [OF rec]
  have same: "cell_ok ?s = cell_ok s" "cell_ok s' = cell_ok s" "log_ok g" "lockset (node ?s w) = 0" "logged ?s = logged s"
    using lo u by (simp_all add: fun_eq_iff cell_ok_def covers_def entry_dead_def check_dead_def unfinished_def fr unlocked_def logged_def now_entry_def)
  have inv1: "fr_inv ?s g" by (rule fr_inv_frame [OF inv]) (use fr_invD(10,11) [OF inv] in simp_all)
  have pa1: "past_ok ?s g" by (rule past_frame [OF pa]) simp_all
  have w1: "w \<le> task_id_ctr ?s" using w(2) by simp
  note sr = seen_record [OF w(1,4,5) rec]
  have "det_ok s' ?g"
  proof (cases "isRacy ?v")
    case True
    note s' = sr(1) [OF True]
    have r: "reported s' = reported s" by (simp add: s' reported_def fun_eq_iff)
    have ra: "reported s b" if "same_cell b a" for b
      using that True det_okD(1) [OF det] reported_cell by blast
    show ?thesis
    proof (rule det_okI)
      fix b
      show "isRacy (cell_at new_VarState (shadow_space s') b) \<longleftrightarrow> reported s' b"
        using det_okD(1) [OF det, of b] by (simp add: r) (simp add: s' cell_at_touch)
      show "race_free (g_log ?g) b \<longleftrightarrow> \<not> reported s' b"
        using det_okD(2) [OF det, of b] other_cell(1) [of b a] ra [of b] race_stays by (cases "same_cell b a") (simp_all add: r)
      show "cell_ok s' ?g b (cell_at new_VarState (shadow_space s') b)" if "\<not> reported s' b"
        using that det_okD(3) [OF det, of b] ra [of b] other_cell(2) [of b a s g w k]
        by (cases "same_cell b a") (simp_all add: r same(2), simp add: s' cell_at_touch)
    qed
  next
    case False
    then have nr: "\<not> reported s a" using det_okD(1) [OF det] by simp
    then have f: "race_free (g_log g) a" and v: "cell_ok ?s g a ?v"
      using det_okD(2,3) [OF det] by (simp_all add: same(1))
    let ?r = "case k of READ \<Rightarrow> read_access ?s w (node ?s w) ?v | WRITE \<Rightarrow> write_access ?s w (node ?s w) ?v"
    have "checked ?s (logged ?s g w a k) a ?v ?r"
      using read_checked [OF inv1 pa1 lo f w1 w(3) same(4) v] write_checked [OF inv1 pa1 lo f w1 w(3) same(4) v] by (cases k) simp_all
    then obtain v' q where r: "?r = Some (v', q)"
      "if q = None then is_racy v' = is_racy ?v \<and> race_free (g_log ?g) a \<and> cell_ok s ?g a v' else isRacy v' \<and> \<not> race_free (g_log ?g) a"
      unfolding checked_def same(1,5) by blast
    note s' = sr(2) [OF False r(1)]
    have cell: "cell_at new_VarState (shadow_space s') b = (if same_cell a b then v' else cell_at new_VarState (shadow_space s) b)" for b
      using s' by (simp add: cell_at_put cell_at_touch)
    have iq: "isRacy v' \<longleftrightarrow> q \<noteq> None" using r(2) False by (auto simp: isRacy_def split: if_splits)
    have none: "all_violations s a = None" using nr by (auto simp: reported_def)
    have rep: "reported s' b \<longleftrightarrow> (if same_cell a b then q \<noteq> None else reported s b)" for b
    proof (cases "q")
      case None
      then show ?thesis using s' nr reported_cell [of a b s] by (auto simp: reported_def)
    next
      case (Some p)
      then have "all_violations s' c \<noteq> None \<longleftrightarrow> c = a \<or> all_violations s c \<noteq> None" for c
        using s' none by (auto simp: map_insert_fresh split: prod.splits)
      then show ?thesis using Some by (auto simp: reported_def intro: same_cell_sym)
    qed
    have other: "race_free (g_log ?g) b \<longleftrightarrow> race_free (g_log g) b" "cell_ok s ?g b x \<longleftrightarrow> cell_ok s g b x" if "\<not> same_cell a b" for b x
      using that same_cell_sym other_cell [of b a] by blast+
    show ?thesis
    proof (rule det_okI)
      fix b
      show "isRacy (cell_at new_VarState (shadow_space s') b) \<longleftrightarrow> reported s' b"
        using det_okD(1) [OF det, of b] iq by (simp add: rep cell)
      show "race_free (g_log ?g) b \<longleftrightarrow> \<not> reported s' b"
        using det_okD(2) [OF det, of b] other [of b] race_free_cell [of a b "g_log ?g"] r(2)
        by (cases "same_cell a b") (simp_all add: rep split: if_splits)
      show "cell_ok s' ?g b (cell_at new_VarState (shadow_space s') b)" if "\<not> reported s' b"
        using that det_okD(3) [OF det, of b] other [of b] cell_ok_cell [of a b s ?g] r(2)
        unfolding same(2) cell rep by (cases "same_cell a b") (simp_all split: if_splits)
    qed
  qed
  moreover have "unlocked s'" using u by (simp add: unlocked_def fr)
  ultimately show ?thesis
    unfolding g' fr_ok_def
    using fr_step_inv [OF inv d st] fr_step_past [OF inv pa d st] log_ok_logged [OF lo pa w(2)] by (simp add: g')
qed

section \<open>Runs\<close>

lemma fr_step_ok:
  assumes ok: "fr_ok s g" and d: "fr_disciplined s g e" and st: "fr_step s e = Some s'" and l: "\<not> lock_event e"
  shows "fr_ok s' (fr_ghost_step s g e)"
proof -
  have inv: "fr_inv s g" and pa: "past_ok s g" and u: "unlocked s" using ok by (simp_all add: fr_ok_def)
  note keep = still_ok [OF _ ok fr_step_inv [OF inv d st] fr_step_past [OF inv pa d st]]
  show ?thesis
  proof (cases e)
    case (FrSpawn th t b)
    then show ?thesis using keep spawn_still [OF inv _ _ u] d st by blast
  next
    case (FrWait th)
    then show ?thesis using keep wait_still [OF inv _ _ u] d st by blast
  next
    case (FrBegin th t)
    have "still s g s' (fr_ghost_step s g e) \<and> unlocked s'"
      using st u by (auto simp: FrBegin exec_begin_def Let_def bind_eq_Some_conv upd_node_def fr_ghost_step_def unlocked_def
          intro: still_frame split: if_splits)
    then show ?thesis using keep by blast
  next
    case (FrEnd th)
    have "still s g s' (fr_ghost_step s g e) \<and> unlocked s'"
      using st u by (auto simp: FrEnd exec_end_def bind_eq_Some_conv fr_ghost_step_def unlocked_def intro: still_frame)
    then show ?thesis using keep by blast
  next
    case (FrAccess th a k)
    then show ?thesis using fr_access_ok [OF ok] d st by blast
  qed (use l in \<open>simp_all add: lock_event_def\<close>)
qed

lemma fr_reaches_ok:
  assumes "fr_reaches es s g" "list_all (\<lambda>e. \<not> lock_event e) es"
  shows "fr_ok s g"
proof -
  have "run fr_traced p es = Some p' \<Longrightarrow> list_all (\<lambda>e. \<not> lock_event e) es \<Longrightarrow> fr_ok (fst p) (snd p) \<Longrightarrow> fr_ok (fst p') (snd p')" for p p'
  proof (induction es arbitrary: p)
    case (Cons e es)
    from Cons.prems(1) obtain q where q: "fr_traced p e = Some q" "run fr_traced q es = Some p'" by (auto simp: bind_eq_Some_conv)
    have "fr_ok (fst q) (snd q)"
      using q(1) fr_step_ok [OF Cons.prems(3)] Cons.prems(2) by (auto simp: fr_traced_def bind_eq_Some_conv split: if_splits)
    then show ?case using Cons.IH [OF q(2)] Cons.prems(2) by simp
  qed simp
  from this [OF assms(1) [unfolded fr_reaches_def] assms(2)] show ?thesis using fr_ok_init by simp
qed

lemma fr_reports_races:
  assumes "fr_ok s g"
  shows "(\<exists>b. same_cell a b \<and> all_violations s b \<noteq> None) \<longleftrightarrow> (\<exists>i j. race_at (g_log g) a i j)"
proof -
  have "det_ok s g" using assms by (simp add: fr_ok_def)
  then show ?thesis using det_okD(2) [of s g a] by (auto simp: reported_def race_free_def)
qed

end
