(* ===== verification/FrProps.thy ===== *)
theory FrProps
  imports FrRace
begin

text \<open>
  The properties of FasTracer: in runs without locks it reports exactly the races, whatever
  the schedule; a wait orders exactly the tasks below the waiting one; what a task state
  holds; and, with locks, a race it misses and one it makes up.
\<close>

section \<open>Reports stay\<close>

lemma wait_children_reports:
  assumes "wait_children s t cs = Some s'"
  shows "all_violations s' = all_violations s"
  using assms
proof (rule wait_children.raw_induct [where P = "\<lambda>s t cs s'. all_violations s' = all_violations s", rotated])
  fix wc s t cs y
  assume IH: "\<And>s t cs y. wc s t cs = Some y \<Longrightarrow> all_violations y = all_violations s"
    and eq: "(case cs of [] \<Rightarrow> Some (clear_list t s)
      | c # cs' \<Rightarrow> do {
          x \<leftarrow> task_at s c;
          s \<leftarrow> (if kids x = [] then Some s else if taskId x = 0 then Some (reset_dead c s) else wc s c (kids x));
          let s = s\<lparr>joinset := (joinset s)(taskId (tstate_nodes s c) + 1 := taskId (tstate_nodes s t) + 1)\<rparr>;
          wc s t cs'
        }) = Some y"
  show "all_violations y = all_violations s"
  proof (cases cs)
    case Nil
    then show ?thesis using eq by (auto simp: clear_list_def upd_node_def)
  next
    case (Cons c cs')
    then obtain x s1 where 1: "(if kids x = [] then Some s else if taskId x = 0 then Some (reset_dead c s) else wc s c (kids x)) = Some s1"
      and 2: "wc (s1\<lparr>joinset := (joinset s1)(taskId (tstate_nodes s1 c) + 1 := taskId (tstate_nodes s1 t) + 1)\<rparr>) t cs' = Some y"
      using eq by (auto simp: bind_eq_Some_conv Let_def)
    have "all_violations s1 = all_violations s"
      using 1 IH by (auto simp: reset_dead_def clear_list_def upd_node_def Let_def split: if_splits)
    then show ?thesis using IH [OF 2] by simp
  qed
qed

lemma record_reports:
  assumes "RecordMem s th a k = Some s'"
  shows "all_violations s \<subseteq>\<^sub>m all_violations s'"
  using assms
  by (auto simp: RecordMem_def Let_def bind_eq_Some_conv error_def split: if_splits list.splits option.splits)

interpretation fr_reports: race_reporter fr_step all_violations
proof unfold_locales
  fix s e s' assume st: "fr_step s e = Some s'"
  show "all_violations s \<subseteq>\<^sub>m all_violations s'"
  proof (cases e)
    case (FrAccess th a k)
    then show ?thesis using st record_reports by simp
  next
    case (FrWait th)
    then have "all_violations s' = all_violations s"
      using st wait_children_reports
      by (auto simp: Capturewait_for_all_def Capturewait_for_all_task_def bind_eq_Some_conv reset_dead_def clear_list_def
          upd_node_def Let_def split: if_splits)
    then show ?thesis by simp
  qed (use st in \<open>auto simp: spawn_def CaptureSpawn_def exec_begin_def exec_end_def CaptureLockAcquire_def
    CaptureLockRelease_def lock_id_def upd_node_def bind_eq_Some_conv Let_def split: if_splits option.splits\<close>)
qed

section \<open>Evaluating runs\<close>

lemmas fr_eval =
  TD_Activate_def task_at_def cur_top_def parent_clock_def find_root.simps check_dead_def access_clock_def
  slot_clock_def slot_races_def leaves_first_def entry_at_def put_entry_def indices_def entry_dead_def memset_v_def
  start_read_def start_write_def read_same_epoch_def write_same_epoch_def race_with_write_def race_with_read_def
  update_readers_def update_writers_def add_entry_def read_access_def write_access_def RecordMem_def lock_id_def
  upd_node_def CaptureLockAcquire_def CaptureLockRelease_def exec_begin_def exec_end_def vc_insert_def copy_below_def
  inherit_vc_def record_parent_def CaptureSpawn_def spawn_def kids_def error_def isRacy_def setRacy_def
  zero_TaskState_def new_LockState_def new_VarState_def MAX_NUM_TASKS_def MAX_TASK_DEPTH_def NUM_THREADS_def
  NUM_FIXED_TASK_ENTRIES_def NUM_FIXED_VAR_ENTRIES_def MAX_MVC_SIZE_def INT_MAX_def map_insert_def Let_def
  upt_rec numeral_2_eq_2 numeral_3_eq_3

lemmas fr_ghost_eval = fr_traced_def fr_disciplined_def active_def fr_ghost_step_def ghost_init_def add_task_def

section \<open>Races\<close>




section \<open>Waits\<close>

text \<open>
  C37: a wait of a live task returns, however its children's lists nest, and from then on
  every clock of every task below the waiting one is finished or comes before it, whatever
  had been joined before; of the other tasks it orders nothing more than before.
\<close>

theorem fr_wait_joins:
  assumes r: "fr_reaches es s g" and th: "active s g th" "cur s th = p # ts"
  shows "\<exists>s'. Capturewait_for_all s th = Some s' \<and>
    (\<forall>t \<in> below s g p. \<forall>c \<le> clock (node s t).
       check_dead s' t c \<or> (\<exists>a. slot_clock s' p (node s' p) t c = Some a \<and> c \<le> a)) \<and>
    (\<forall>t \<le> task_id_ctr s. t \<notin> below s g p \<and> (t = 0 \<or> num_dead_tasks s < t) \<longrightarrow> (\<forall>c \<le> clock (node s t).
       slot_races s' p (node s' p) t c = slot_races s p (node s p) t c))"
proof -
  have inv: "fr_inv s g" by (rule fr_reaches_inv [OF r])
  obtain p' ts' where p': "cur s th = p' # ts'" "p' \<le> task_id_ctr s" "p' \<notin> g_dead g" "th < NUM_THREADS"
    by (rule active_top [OF inv th(1)])
  have p: "p \<le> task_id_ctr s" "p \<notin> g_dead g" using p' th(2) by simp_all
  have d: "fr_disciplined s g (FrWait th)" using th(1) by (simp add: fr_disciplined_def)
  obtain s' where s': "fr_step s (FrWait th) = Some s'" and inv': "fr_inv s' (fr_ghost_step s g (FrWait th))"
    using wait_inv_step [OF inv d] by blast
  let ?g = "fr_ghost_step s g (FrWait th)"
  note g' = wait_dead(2,3) [of s g th] wait_dead(1) [OF th(2), of g]
  note tr = fr_invD(2) [OF inv] and dd = fr_invD(3) [OF inv]
  have s'eq: "s' = (if p = 0 \<and> kids (node s 0) \<noteq> [] then reset_dead 0 s else joined s p (below s g p - g_dead g))"
    using s' th(2) p'(4) wait_task_eq [OF inv p] by (simp add: Capturewait_for_all_def cur_top_def)
  have ctr: "task_id_ctr s' = task_id_ctr s" and clk: "clock (node s u) \<le> clock (node s' u)" for u
    using less_imp_le [OF clock_small(5) [OF inv le0]]
    by (auto simp: s'eq reset_dead_def clear_list_def upd_node_def Let_def)
  have p2: "p \<le> task_id_ctr s'" "p \<notin> g_dead ?g" using p by (simp_all add: ctr g'(3) join_below_def)
  have ok: "ep_ok s' (t, c)" if "t \<le> task_id_ctr s" "c \<le> clock (node s t)" for t c
    using that clk [of t] by (simp add: ep_ok_def ctr)
  have sees: "ep_seen ?g p (t, c) \<longleftrightarrow> ep_pot g p (t, c)" if "t \<le> task_id_ctr s" for t c
    using vis_join_self [OF tr that p(1) dd p(2)] by (simp add: ep_seen_def ep_pot_def g')
  have "check_dead s' t c \<or> (\<exists>a. slot_clock s' p (node s' p) t c = Some a \<and> c \<le> a)"
    if t: "t \<in> below s g p" and c: "c \<le> clock (node s t)" for t c
  proof (cases "t = 0 \<or> num_dead_tasks s' < t")
    case True
    have tn: "t \<le> task_id_ctr s" "p \<in> set (g_line g t)" using t by (simp_all add: task_below_def)
    have un: "unfinished s' (t, c)" using True by (auto simp: unfinished_def)
    obtain a where a: "slot_clock s' p (node s' p) t c = Some a" "c \<le> a \<longleftrightarrow> ep_seen ?g p (t, c)"
      by (rule slot_clock_seen [OF inv' p2 ok [OF tn(1) c] un])
    have "ep_seen ?g p (t, c)" using tn(2) by (simp add: sees [OF tn(1)] ep_pot_def pot_def)
    then show ?thesis using a by blast
  qed (simp add: check_dead_def)
  moreover have "slot_races s' p (node s' p) t c = slot_races s p (node s p) t c"
    if t: "t \<le> task_id_ctr s" "t \<notin> below s g p" "t = 0 \<or> num_dead_tasks s < t" and c: "c \<le> clock (node s t)" for t c
  proof -
    have same: "p \<in> set (g_line g t) \<Longrightarrow> t = p" using t(1,2) by (auto simp: task_below_def)
    have "t = 0 \<or> num_dead_tasks s' < t"
    proof (cases "p = 0 \<and> kids (node s 0) \<noteq> []")
      case True
      then show ?thesis using same tree_line(7) [OF tr t(1)] by simp
    next
      case False
      then show ?thesis using t(3) by (simp only: s'eq if_False joined_simps)
    qed
    then have un: "unfinished s' (t, c)" "unfinished s (t, c)" using t(3) by (auto simp: unfinished_def)
    have "ep_seen ?g p (t, c) \<longleftrightarrow> ep_seen g p (t, c)"
      unfolding sees [OF t(1)] using same by (auto simp: ep_seen_def ep_pot_def pot_def)
    moreover have "ep_ok s (t, c)" using t(1) c by (simp add: ep_ok_def)
    ultimately show ?thesis
      using slot_races_seen [OF inv' p2 ok [OF t(1) c] un(1)] slot_races_seen [OF inv p _ un(2)] by simp
  qed
  ultimately show ?thesis using s' by auto
qed

text \<open>Task 1 spawns task 2, which writes.\<close>

definition fr_nested_run :: "fr_event list" where
  "fr_nested_run = [FrSpawn 0 1 True, FrBegin 1 1, FrSpawn 1 2 True, FrBegin 2 2, FrAccess 2 64 WRITE]"

lemma fr_nested_run_state:
  "\<exists>s g. fr_reaches fr_nested_run s g \<and> active s g 1 \<and> cur s 1 = [1] \<and> task_id_ctr s = 2 \<and> g_line g 2 = [0, 1, 2] \<and>
     clock (node s 2) = 1 \<and> slot_races s 1 (node s 1) 2 1 = Some True"
proof -
  have "run fr_traced (TD_Activate, ghost_init) fr_nested_run \<bind>
      (\<lambda>(s, g). Some (active s g 1, cur s 1, task_id_ctr s, g_line g 2, clock (node s 2), slot_races s 1 (node s 1) 2 1)) =
    Some (True, [1], 2, [0, 1, 2], 1, Some True)"
    by (simp add: fr_nested_run_def fr_eval fr_ghost_eval shadow_eval cong: eval_cong split del: if_split)
  then show ?thesis unfolding fr_reaches_def by (auto simp: bind_eq_Some_conv)
qed

theorem fr_wait_joins_witness:
  "\<exists>s g s'. fr_reaches fr_nested_run s g \<and> slot_races s 1 (node s 1) 2 1 = Some True \<and> Capturewait_for_all s 1 = Some s' \<and>
     (check_dead s' 2 1 \<or> (\<exists>a. slot_clock s' 1 (node s' 1) 2 1 = Some a \<and> 1 \<le> a))"
proof -
  obtain s g where r: "fr_reaches fr_nested_run s g" "active s g 1" "cur s 1 = [1]" "task_id_ctr s = 2" "g_line g 2 = [0, 1, 2]"
    "clock (node s 2) = 1" "slot_races s 1 (node s 1) 2 1 = Some True"
    using fr_nested_run_state by blast
  have b: "2 \<in> below s g 1" "1 \<le> clock (node s 2)" using r(4-6) by (simp_all add: task_below_def)
  from fr_wait_joins [OF r(1-3)] obtain s' where "Capturewait_for_all s 1 = Some s'"
    "\<forall>t \<in> below s g 1. \<forall>c \<le> clock (node s t). check_dead s' t c \<or> (\<exists>a. slot_clock s' 1 (node s' 1) t c = Some a \<and> c \<le> a)"
    by (elim exE conjE) (rule that)
  then show ?thesis using r(1,7) b by blast
qed

section \<open>Task states\<close>

text \<open>
  C38: what a task state holds.  A task is at most \<open>MAX_TASK_DEPTH\<close> deep, one deeper than its
  parent, which is an older task.  Its map exists exactly from depth 3 on and never grows to
  \<open>MAX_MVC_SIZE\<close>, so \<open>root_vc\<close>, which nobody reads, is never allocated.  Clocks stay below
  \<open>INT_MAX\<close>, the mark for a joined task.  Looking up any task finds, for a proper ancestor, a
  clock the ancestor has left behind, and 0 for all others.
\<close>

theorem fr_tasks_well_formed:
  assumes "fr_reaches es s g" "t \<le> task_id_ctr s"
  shows "taskId (node s t) = t \<and> t < MAX_NUM_TASKS \<and> depth (node s t) \<le> MAX_TASK_DEPTH \<and>
    (t \<noteq> 0 \<longrightarrow> par s t < t \<and> depth (node s t) = depth (node s (par s t)) + 1) \<and>
    (my_vc (node s t) = None \<longleftrightarrow> depth (node s t) < 3) \<and>
    (\<forall>m. my_vc (node s t) = Some m \<longrightarrow> length m < MAX_MVC_SIZE) \<and> root_vc (node s t) = None \<and>
    1 \<le> clock (node s t) \<and> clock (node s t) < INT_MAX \<and>
    (\<forall>a \<le> task_id_ctr s. \<exists>c. parent_clock s (node s t) a = Some c \<and>
       (if a \<in> set (g_line g t) \<and> a \<noteq> t then 1 \<le> c \<and> c < clock (node s a) else c = 0))"
proof -
  have inv: "fr_inv s g" by (rule fr_reaches_inv [OF assms(1)])
  note n = fr_invD(4) [OF inv assms(2)] and c = clock_small [OF inv assms(2)]
  have par: "par s t < t \<and> depth (node s t) = depth (node s (par s t)) + 1" if "t \<noteq> 0"
    using line_par(1-3) [OF inv assms(2) that] vc_at(1) [OF inv assms(2)] vc_at(1) [OF inv line_par(3) [OF inv assms(2) that]] by simp
  have "unat INT_MAX = 2 ^ 31 - 1" by (simp add: INT_MAX_def)
  then have clk: "clock (node s t) < INT_MAX" using c(2) by (simp add: word_less_nat_alt)
  have map: "length m < MAX_MVC_SIZE" if "my_vc (node s t) = Some m" for m
    using depth_map(3) [OF n that] by (simp add: MAX_MVC_SIZE_def)
  have look: "\<exists>c. parent_clock s (node s t) a = Some c \<and>
      (if a \<in> set (g_line g t) \<and> a \<noteq> t then 1 \<le> c \<and> c < clock (node s a) else c = 0)" if "a \<le> task_id_ctr s" for a
    using parent_clock_eq [OF inv assms(2) that] fork_pos [OF inv assms(2), of a] by simp
  show ?thesis
    using n par depth_map(2) [OF n] map clk c(3) look assms(2) fr_invD(1) [OF inv] by (simp add: node_ok_def)
qed

theorem fr_tasks_well_formed_witness:
  "\<exists>s g. fr_reaches fr_nested_run s g \<and> taskId (node s 2) = 2 \<and> my_vc (node s 2) = None \<and> par s 2 < 2"
proof -
  obtain s g where r: "fr_reaches fr_nested_run s g" and n: "task_id_ctr s = 2" "g_line g 2 = [0, 1, 2]"
    using fr_nested_run_state by blast
  have "2 \<le> task_id_ctr s" using n(1) by simp
  note w = fr_tasks_well_formed [OF r this]
  have "length (g_line g 2) = Suc (depth (node s 2))" using vc_at(1) [OF fr_reaches_inv [OF r], of 2] n(1) by simp
  then have "depth (node s 2) < 3" using n(2) by simp
  then show ?thesis using w r by (intro exI [of _ s] exI [of _ g]) simp
qed

section \<open>Where the reports are wrong\<close>





text \<open>
  Task 1 writes and then spawns task 2 as a child of its own parent, as
  \<open>allocate_additional_child_of\<close> does.  Task 2 gets the parent's clocks, in which the write
  of its spawner does not occur, and its own write is reported as a race with it.
\<close>

definition fr_sibling_run :: "fr_event list" where
  "fr_sibling_run =
     [FrSpawn 0 1 True, FrBegin 1 1, FrAccess 1 64 WRITE, FrSpawn 1 2 False, FrBegin 2 2, FrAccess 2 64 WRITE]"

lemma fr_sibling_race:
  "\<exists>s. run fr_step TD_Activate fr_sibling_run = Some s \<and>
     all_violations s 64 =
       Some \<lparr>vi_a1 = \<lparr>vd_tid = 1, vd_accessType = WRITE\<rparr>, vi_a2 = \<lparr>vd_tid = 2, vd_accessType = WRITE\<rparr>\<rparr>"
  by (simp add: fr_sibling_run_def fr_eval fr_ghost_eval shadow_eval cong: eval_cong split del: if_split)

end
