(* ===== verification/DpstWords.thy ===== *)
theory DpstWords
  imports Dpst
begin

text \<open>
  Positions in the program structure tree as words.  The word of a node lists, from the
  root down, one letter per edge: twice the sequence number, plus one for an \<open>ASYNC\<close>
  child.  Two nodes are parallel, or ordered, by the first letters in which their words
  differ, so facts about three or four nodes at once become inductions on lists.
\<close>

section \<open>Words\<close>

fun wpar :: "nat list \<Rightarrow> nat list \<Rightarrow> bool" where
  "wpar (i # u) (j # v) = (if i = j then wpar u v else odd (min i j))"
| "wpar _ _ = False"

fun wser :: "nat list \<Rightarrow> nat list \<Rightarrow> bool" where
  "wser (i # u) (j # v) = (if i = j then wser u v else i < j \<and> even i)"
| "wser _ _ = False"

text \<open>Neither word is a prefix of the other.\<close>

fun fork :: "nat list \<Rightarrow> nat list \<Rightarrow> bool" where
  "fork (i # u) (j # v) = (i = j \<longrightarrow> fork u v)"
| "fork _ _ = False"

text \<open>The length of the longest common prefix.\<close>

fun lcl :: "nat list \<Rightarrow> nat list \<Rightarrow> nat" where
  "lcl (i # u) (j # v) = (if i = j then Suc (lcl u v) else 0)"
| "lcl _ _ = 0"

lemma wpar_fork: "wpar u v \<Longrightarrow> fork u v"
  by (induction u v rule: wpar.induct) (auto split: if_splits)

lemma wser_fork: "wser u v \<Longrightarrow> fork u v"
  by (induction u v rule: wser.induct) (auto split: if_splits)

lemma wpar_sym: "wpar u v \<longleftrightarrow> wpar v u"
  by (induction u v rule: wpar.induct) (auto simp: min.commute)

lemma fork_sym: "fork u v \<longleftrightarrow> fork v u"
  by (induction u v rule: fork.induct) auto

lemma wpar_irrefl [simp]: "\<not> wpar u u"
  by (induction u) auto

lemma wser_irrefl [simp]: "\<not> wser u u"
  by (induction u) auto

lemma fork_cases3: "fork u v \<Longrightarrow> wpar u v \<or> wser u v \<or> wser v u"
  by (induction u v rule: fork.induct) (auto simp: min_def)

lemma wser_not_wpar: "wser u v \<Longrightarrow> \<not> wpar u v"
  by (induction u v rule: wser.induct) (auto split: if_splits)

lemma wser_trans: "wser u v \<Longrightarrow> wser v w \<Longrightarrow> wser u w"
proof (induction u v arbitrary: w rule: wser.induct)
  case (1 i u j v)
  then show ?case by (cases w) (auto split: if_splits)
qed simp_all

text \<open>What follows the difference does not matter; a common prefix does not either.\<close>

lemma fork_append:
  assumes "fork u v"
  shows "fork (u @ a) (v @ b)" "wpar (u @ a) (v @ b) = wpar u v" "wser (u @ a) (v @ b) = wser u v"
    "lcl (u @ a) (v @ b) = lcl u v"
  using assms by (induction u v rule: fork.induct) auto

lemma common_prefix [simp]:
  "fork (w @ u) (w @ v) = fork u v" "wpar (w @ u) (w @ v) = wpar u v" "wser (w @ u) (w @ v) = wser u v"
  "lcl (w @ u) (w @ v) = length w + lcl u v"
  by (induction w) auto

lemma prefix_no_order [simp]:
  "\<not> wpar w (w @ v)" "\<not> wpar (w @ v) w" "\<not> wser w (w @ v)" "\<not> wser (w @ v) w"
  "\<not> fork w (w @ v)" "\<not> fork (w @ v) w"
  by (induction w) auto

lemma word_cases:
  obtains (apart) "fork w x" | (same) "x = w" | (below) k v where "x = w @ k # v"
    | (above) k v where "w = x @ k # v"
proof -
  have "fork w x \<or> x = w \<or> (\<exists>k v. x = w @ k # v) \<or> (\<exists>k v. w = x @ k # v)"
  proof (induction w arbitrary: x)
    case Nil
    then show ?case by (cases x) auto
  next
    case (Cons i w)
    then show ?case by (cases x) auto
  qed
  then show thesis using that by blast
qed

section \<open>Two witnesses for a set of steps\<close>

text \<open>
  What justifies keeping two steps \<open>r1\<close>, \<open>r2\<close> of all those that read (or wrote) a cell:
  for a later step \<open>t\<close>, which is before none of them, a parallel step among the dropped
  ones implies a parallel one among the kept ones.
\<close>

lemma keep_last:
  assumes "fork r s" "\<not> wpar r s" "\<not> wser s r" "wpar t r" "fork t s" "\<not> wser t s"
  shows "wpar t s"
proof (rule ccontr)
  assume "\<not> wpar t s"
  then have "wser s t" using fork_cases3 [OF assms(5)] assms(6) by blast
  moreover have "wser r s" using fork_cases3 [OF assms(1)] assms(2,3) by blast
  ultimately have "wser r t" by (rule wser_trans [rotated])
  then show False using wser_not_wpar assms(4) wpar_sym by blast
qed

lemma keep_wider:
  assumes "lcl r1 s < lcl r1 r2" "wpar r1 s" "wpar t r1"
  shows "wpar t s \<or> wpar t r2"
  using assms
proof (induction r1 r2 arbitrary: s t rule: lcl.induct)
  case (1 i u j v)
  then obtain k s' h t' where st: "s = k # s'" "t = h # t'" by (cases s; cases t) auto
  have ij: "i = j" using 1(2) by (simp split: if_splits)
  show ?case
  proof (cases "k = i \<and> h = i")
    case True
    then show ?thesis using 1 st ij by simp
  next
    case False
    then show ?thesis using 1(3,4) st ij by (auto simp: min.commute split: if_splits)
  qed
qed simp_all

lemma wider_same:
  assumes "lcl r1 s < lcl r1 r2"
  shows "wpar r1 s = wpar r2 s"
  using assms
proof (induction r1 r2 arbitrary: s rule: lcl.induct)
  case (1 i u j v)
  then show ?case by (cases s) (auto split: if_splits)
qed simp_all

lemma inner_covered:
  assumes "lcl r1 r2 \<le> lcl r1 s" "wpar r1 r2" "wpar t s" "\<not> wser t r1" "\<not> wser t r2"
  shows "wpar t r1 \<or> wpar t r2"
  using assms
proof (induction r1 r2 arbitrary: s t rule: lcl.induct)
  case (1 i u j v)
  obtain k s' h t' where st: "s = k # s'" "t = h # t'" using 1(4) by (cases s; cases t) auto
  show ?case
  proof (cases "i = j")
    case True
    then have "k = i" using 1(2) st by (simp split: if_splits)
    then show ?thesis using 1 st True by (cases "h = i") auto
  next
    case False
    then show ?thesis using 1(3,5,6) st by (auto simp: min_def split: if_splits)
  qed
qed simp_all

section \<open>The word of a node\<close>

definition letter :: "AFTask \<Rightarrow> nat" where
  "letter n = 2 * seq_num n + (if type n = ASYNC then 1 else 0)"

definition posn :: "(nat \<Rightarrow> AFTask) \<Rightarrow> nat \<Rightarrow> nat list" where
  "posn ns i = map (\<lambda>j. letter (ns j)) (tl (rev (root_path ns i)))"

lemma even_letter [simp]: "even (letter n) \<longleftrightarrow> type n \<noteq> ASYNC"
  by (simp add: letter_def)

lemma letter_less: "seq_num a < seq_num b \<Longrightarrow> letter a < letter b"
  by (simp add: letter_def)

lemma letter_seq: "letter a = letter b \<Longrightarrow> seq_num a = seq_num b"
proof -
  have "letter n div 2 = seq_num n" for n :: AFTask by (simp add: letter_def)
  then show "letter a = letter b \<Longrightarrow> seq_num a = seq_num b" by metis
qed

lemma posn_root [simp]: "posn ns (Suc 0) = []"
  by (simp add: posn_def root_path_root)

lemma root_path_ne [simp]: "root_path ns i \<noteq> []"
  by (subst root_path.simps) simp

lemma posn_node:
  "wf_tree ns m \<Longrightarrow> 1 < i \<Longrightarrow> i \<le> m \<Longrightarrow> posn ns i = posn ns (parent (ns i)) @ [letter (ns i)]"
  by (simp add: posn_def root_path_node tl_append split: list.split)

lemma posn_anc:
  assumes wf: "wf_tree ns m" and "0 < i" "i \<le> m"
  shows "anc ns x i \<Longrightarrow> \<exists>u. posn ns i = posn ns x @ u"
  using assms
proof (induction i rule: node_induct)
  case root
  then show ?case by simp
next
  case (child i)
  then show ?case
    by (cases "x = i") (auto simp: posn_node [OF wf child.hyps(1,2)] anc_node_iff [OF wf child.hyps(1,2)])
qed

lemma posn_length:
  assumes wf: "wf_tree ns m" and "0 < i" "i \<le> m"
  shows "length (posn ns i) = depth (ns i)"
  using assms
proof (induction i rule: node_induct)
  case root
  then show ?case using wf_tree_root(3) [OF wf] by simp
next
  case (child i)
  then show ?case using wf_tree_node(4) [OF wf child.hyps(1,2)] posn_node [OF wf child.hyps(1,2)] by simp
qed

lemma posn_inj:
  assumes wf: "wf_tree ns m" and i: "0 < i" "i \<le> m"
  shows "0 < j \<Longrightarrow> j \<le> m \<Longrightarrow> posn ns i = posn ns j \<Longrightarrow> i = j"
  using assms
proof (induction i arbitrary: j rule: node_induct)
  case root
  show ?case
  proof (rule ccontr)
    assume "1 \<noteq> j"
    then have "posn ns j \<noteq> []" using posn_node [OF wf, of j] root.prems by auto
    then show False using root.prems by simp
  qed
next
  case (child i)
  have j1: "1 < j"
  proof (rule ccontr)
    assume "\<not> 1 < j"
    then have "j = 1" using child.prems by simp
    then show False using child.prems(3) posn_node [OF wf child.hyps(1,2)] by simp
  qed
  note pj = wf_tree_node(1,2) [OF wf j1 child.prems(2)]
  have *: "posn ns (parent (ns i)) = posn ns (parent (ns j))" "letter (ns i) = letter (ns j)"
    using child.prems(3) posn_node [OF wf child.hyps(1,2)] posn_node [OF wf j1 child.prems(2)] by auto
  have "parent (ns i) = parent (ns j)" using child.IH [OF pj(1) _ *(1)] pj(2) child.prems(2) wf by simp
  then show ?case
    using wf_tree_siblings_distinct [OF wf child.hyps(1,2) j1 child.prems(2)] letter_seq [OF *(2)] by blast
qed

text \<open>A word that extends the word of \<open>q\<close> belongs to a node below \<open>q\<close>.\<close>

lemma posn_below:
  assumes wf: "wf_tree ns m" and q: "0 < q" "q \<le> m" and i: "0 < i" "i \<le> m"
  shows "posn ns i = posn ns q @ k # u \<Longrightarrow>
    \<exists>y. anc ns y i \<and> 1 < y \<and> y \<le> m \<and> parent (ns y) = q \<and> letter (ns y) = k"
  using wf i
proof (induction i arbitrary: u rule: node_induct)
  case root
  then show ?case by simp
next
  case (child i)
  note pi = posn_node [OF wf child.hyps(1,2)]
  show ?case
  proof (cases u rule: rev_cases)
    case Nil
    then have "posn ns (parent (ns i)) = posn ns q" "letter (ns i) = k" using child.prems(1) pi by auto
    then show ?thesis using posn_inj [OF wf child.hyps(3) _ q] child.hyps by auto
  next
    case (snoc u' l)
    then have "posn ns (parent (ns i)) = posn ns q @ k # u'" using child.prems(1) pi by simp
    then show ?thesis using child.IH wf by (auto simp: anc_node_iff [OF wf child.hyps(1,2)])
  qed
qed

lemma posn_prefix_anc:
  assumes wf: "wf_tree ns m" and q: "0 < q" "q \<le> m" and i: "0 < i" "i \<le> m"
    and p: "posn ns i = posn ns q @ u"
  shows "anc ns q i"
proof (cases u)
  case Nil
  then show ?thesis using posn_inj [OF wf i q] p by simp
next
  case (Cons k v)
  then obtain y where y: "anc ns y i" "1 < y" "parent (ns y) = q"
    using posn_below [OF wf q i] p by blast
  show ?thesis using anc_parent [OF wf i y(1,2)] y(3) by simp
qed

lemma posn_branches:
  assumes wf: "wf_tree ns m" and a: "0 < a" "a \<le> m" and b: "0 < b" "b \<le> m"
    and br: "branches ns a b x y"
  obtains u v where "posn ns a = posn ns (parent (ns x)) @ letter (ns x) # u"
    "posn ns b = posn ns (parent (ns x)) @ letter (ns y) # v" "letter (ns x) \<noteq> letter (ns y)"
proof -
  note d = branches_siblings_depth [OF wf a b br]
  have xy: "1 < x" "1 < y" "parent (ns y) = parent (ns x)" "x \<noteq> y" "anc ns x a" "anc ns y b"
    using br by (auto simp: branches_def)
  obtain u where u: "posn ns a = posn ns x @ u" using posn_anc [OF wf a xy(5)] by blast
  obtain v where v: "posn ns b = posn ns y @ v" using posn_anc [OF wf b xy(6)] by blast
  have "letter (ns x) \<noteq> letter (ns y)"
    using letter_seq wf_tree_siblings_distinct [OF wf xy(1) d(2) xy(2) d(3)] xy(3,4) by metis
  then show thesis
    using that u v posn_node [OF wf xy(1) d(2)] posn_node [OF wf xy(2) d(3)] xy(3) by simp
qed

lemma related_nodes:
  assumes "wf_tree ns m" "0 < a" "a \<le> m" "0 < b" "b \<le> m"
  shows "anc ns a b \<or> anc ns b a \<or> (\<exists>x y. branches ns a b x y)"
  using meet_spec [OF assms] by blast

lemma mhp_words:
  assumes wf: "wf_tree ns m" and a: "0 < a" "a \<le> m" and b: "0 < b" "b \<le> m"
  shows "mhp ns a b \<longleftrightarrow> wpar (posn ns a) (posn ns b)"
proof (cases "\<exists>x y. branches ns a b x y")
  case True
  then obtain x y where br: "branches ns a b x y" by blast
  have xy: "1 < x" "1 < y" "parent (ns y) = parent (ns x)" "x \<noteq> y" using br by (auto simp: branches_def)
  note d = branches_siblings_depth [OF wf a b br]
  have sq: "seq_num (ns x) \<noteq> seq_num (ns y)"
    using wf_tree_siblings_distinct [OF wf xy(1) d(2) xy(2) d(3)] xy(3,4) by simp
  obtain u v where w: "posn ns a = posn ns (parent (ns x)) @ letter (ns x) # u"
    "posn ns b = posn ns (parent (ns x)) @ letter (ns y) # v" "letter (ns x) \<noteq> letter (ns y)"
    by (rule posn_branches [OF wf a b br])
  have "min (letter (ns x)) (letter (ns y)) =
      letter (ns (if seq_num (ns y) < seq_num (ns x) then y else x))"
    using letter_less [of "ns x" "ns y"] letter_less [of "ns y" "ns x"] sq by (auto simp: min_def)
  then show ?thesis using w mhp_branches [OF wf a b br] by (simp split del: if_split)
next
  case False
  then have "\<not> wpar (posn ns a) (posn ns b)"
    using related_nodes [OF wf a b] posn_anc [OF wf a, of b] posn_anc [OF wf b, of a] by auto
  then show ?thesis using False mhp_imp_branches by blast
qed

lemma lca_words:
  assumes wf: "wf_tree ns m" and a: "0 < a" "a \<le> m" and b: "0 < b" "b \<le> m"
    and br: "branches ns a b x y" and l: "is_lca ns l a b"
  shows "depth (ns l) = lcl (posn ns a) (posn ns b)"
proof -
  have lx: "l = parent (ns x)" using is_lca_unique [OF wf a l branches_lca [OF wf a b br]] .
  have x: "1 < x" using br by (simp add: branches_def)
  note d = branches_siblings_depth(2) [OF wf a b br]
  have "0 < l" "l \<le> m" using wf_tree_node(1,2) [OF wf x d] d lx by auto
  then have len: "length (posn ns l) = depth (ns l)" by (rule posn_length [OF wf])
  show ?thesis
    by (rule posn_branches [OF wf a b br]) (use lx len in simp)
qed

end
