(* ===== verification/DpstOpen.thy ===== *)
theory DpstOpen
  imports DpstWords ForkJoin
begin

text \<open>
  Nodes that can still grow.  A node is open while it is on a thread's stack or waits in
  \<open>temp_cur_map\<close>; every later step hangs below a node that is open now.  When a thread acts
  for a node only after what it waited for is finished, no open node comes before a
  recorded step, and the parallelism of all later steps with the recorded ones is decided
  by the open nodes.
\<close>

section \<open>Open nodes and what they will make\<close>

definition open_node :: "AFTaskGraph \<Rightarrow> nat \<Rightarrow> bool" where
  "open_node g p \<longleftrightarrow> (\<exists>t. p \<in> set (cur g t)) \<or> (\<exists>k. temp_cur_map g k = Some p)"

text \<open>The word of the next child of \<open>q\<close>, up to its type.\<close>

definition fut :: "AFTaskGraph \<Rightarrow> nat \<Rightarrow> nat list" where
  "fut g q = posn (tgraph_nodes g) q @ [2 * num_children (node g q)]"

abbreviation pos :: "AFTaskGraph \<Rightarrow> nat \<Rightarrow> nat list" where
  "pos g x \<equiv> posn (tgraph_nodes g) x"

text \<open>
  Everything unfinished below \<open>q\<close> was forked off asynchronously: what \<open>q\<close> has waited for
  is finished.
\<close>

definition waited :: "AFTaskGraph \<Rightarrow> nat \<Rightarrow> bool" where
  "waited g q \<longleftrightarrow>
     (\<forall>p. open_node g p \<longrightarrow>
        (\<forall>y \<in> set (root_path (tgraph_nodes g) p).
           1 < y \<and> parent (node g y) = q \<longrightarrow> type (node g y) = ASYNC))"

text \<open>No open node is ordered before another; children made after the current step are no forks.\<close>

definition unordered :: "AFTaskGraph \<Rightarrow> bool" where
  "unordered g \<longleftrightarrow> (\<forall>q p. open_node g q \<and> open_node g p \<longrightarrow> \<not> wser (pos g q) (pos g p))"

definition no_late_fork :: "AFTaskGraph \<Rightarrow> bool" where
  "no_late_fork g \<longleftrightarrow>
     (\<forall>y. allocated g y \<and> y \<noteq> 1 \<and> cur_step (node g (parent (node g y))) < y \<longrightarrow>
        type (node g y) \<noteq> ASYNC)"

text \<open>Nothing to come is before a step of \<open>S\<close>; what is parallel to a step of \<open>A\<close> is to one of \<open>B\<close>.\<close>

definition settled :: "AFTaskGraph \<Rightarrow> nat set \<Rightarrow> bool" where
  "settled g S \<longleftrightarrow> (\<forall>q x. open_node g q \<and> x \<in> S \<longrightarrow> \<not> wser (fut g q) (pos g x))"

definition covers :: "AFTaskGraph \<Rightarrow> nat set \<Rightarrow> nat set \<Rightarrow> bool" where
  "covers g A B \<longleftrightarrow>
     (\<forall>q. open_node g q \<longrightarrow> (\<exists>x \<in> A. wpar (fut g q) (pos g x)) \<longrightarrow>
        (\<exists>x \<in> B. wpar (fut g q) (pos g x)))"

section \<open>Late letters\<close>

lemma late_letter:
  assumes "\<And>k v. x = w @ k # v \<Longrightarrow> k < n" "n \<le> n'"
  shows "wpar (w @ n' # u) x = wpar (w @ [n]) x" "wser (w @ n' # u) x = wser w x"
    "wser (w @ n' # u) x = wser (w @ [n]) x"
proof -
  have "wpar (w @ n' # u) x = wpar (w @ [n]) x \<and> wser (w @ n' # u) x = wser w x \<and>
      wser (w @ n' # u) x = wser (w @ [n]) x"
  proof (cases rule: word_cases [of w x])
    case apart
    then show ?thesis by (simp add: fork_append [OF apart] fork_append [OF apart, of _ "[]", simplified])
  next
    case (below k v)
    then show ?thesis using assms by (auto simp: min_def)
  next
    case (above k v)
    have "\<not> wpar ((x @ k # v) @ z) x" "\<not> wser ((x @ k # v) @ z) x" for z
      using prefix_no_order [of x "k # v @ z"] by simp_all
    then show ?thesis using above prefix_no_order by simp
  qed simp
  then show "wpar (w @ n' # u) x = wpar (w @ [n]) x" "wser (w @ n' # u) x = wser w x"
    "wser (w @ n' # u) x = wser (w @ [n]) x" by auto
qed

text \<open>An existing node below \<open>q\<close> has an earlier letter than the next child of \<open>q\<close>.\<close>

lemma below_child:
  assumes wf: "wf_core g" and q: "allocated g q" and x: "allocated g x"
    and e: "pos g x = pos g q @ k # v"
  obtains y where "anc (tgraph_nodes g) y x" "1 < y" "allocated g y" "parent (node g y) = q"
    "letter (node g y) = k" "k < 2 * num_children (node g q)"
proof -
  note tree = wf_core_tree [OF wf]
  obtain y where y: "anc (tgraph_nodes g) y x" "1 < y" "y \<le> last_allocated_node g"
    "parent (node g y) = q" "letter (node g y) = k"
    using posn_below [OF tree _ _ _ _ e] q x by (auto simp: allocated_def)
  have "seq_num (node g y) < num_children (node g q)" using wf_tree_node(5) [OF tree y(2,3)] y(4) by simp
  then have "k < 2 * num_children (node g q)" using y(5) by (auto simp: letter_def)
  then show thesis using that y by (auto simp: allocated_def)
qed

lemma fut_late:
  assumes "wf_core g" "allocated g q" "allocated g x" "2 * num_children (node g q) \<le> n"
  shows "wpar (pos g q @ n # u) (pos g x) = wpar (fut g q) (pos g x)"
    "wser (pos g q @ n # u) (pos g x) = wser (fut g q) (pos g x)"
    "wser (fut g q) (pos g x) = wser (pos g q) (pos g x)"
proof -
  have k: "k < 2 * num_children (node g q)" if "pos g x = pos g q @ k # v" for k v
    using below_child [OF assms(1-3) that] by blast
  note l = late_letter [of "pos g x" "pos g q" "2 * num_children (node g q)", OF k]
  show "wpar (pos g q @ n # u) (pos g x) = wpar (fut g q) (pos g x)"
    "wser (pos g q @ n # u) (pos g x) = wser (fut g q) (pos g x)"
    unfolding fut_def by (rule l(1) [OF _ assms(4)] l(3) [OF _ assms(4)]; simp)+
  show "wser (fut g q) (pos g x) = wser (pos g q) (pos g x)"
    unfolding fut_def by (rule l(2)) auto
qed

section \<open>Growth below one node\<close>

text \<open>All new nodes hang below \<open>q\<close>, to the right of what was there.\<close>

definition buds :: "AFTaskGraph \<Rightarrow> AFTaskGraph \<Rightarrow> nat \<Rightarrow> bool" where
  "buds g g' q \<longleftrightarrow> extends g g' \<and>
     (\<forall>y. allocated g' y \<and> \<not> allocated g y \<longrightarrow>
        parent (node g' y) = q \<and> num_children (node g q) \<le> seq_num (node g' y) \<or>
        \<not> allocated g (parent (node g' y)))"

lemma buds_extends: "buds g g' q \<Longrightarrow> extends g g'"
  by (simp add: buds_def)

lemma buds_same:
  assumes "extends g g'" "last_allocated_node g' = last_allocated_node g"
  shows "buds g g' q"
  using assms by (auto simp: buds_def allocated_def)

lemma buds_trans:
  assumes "buds g h q" "buds h k p" "p = q \<or> \<not> allocated g p" "allocated g q"
  shows "buds g k q"
  unfolding buds_def
proof (intro conjI allI impI)
  note e1 = buds_extends [OF assms(1)] and e2 = buds_extends [OF assms(2)]
  show "extends g k" using extends_trans [OF e1 e2] .
  have num: "num_children (node g q) \<le> num_children (node h q)"
    using extends_shape [OF e1 assms(4)] by (simp add: shape_le_def)
  fix y assume y: "allocated k y \<and> \<not> allocated g y"
  show "parent (node k y) = q \<and> num_children (node g q) \<le> seq_num (node k y) \<or>
      \<not> allocated g (parent (node k y))"
  proof (cases "allocated h y")
    case True
    then show ?thesis using assms(1) y extends_node(1,4) [OF e2 True] by (auto simp: buds_def)
  next
    case False
    then have "parent (node k y) = p \<and> num_children (node h p) \<le> seq_num (node k y) \<or>
        \<not> allocated h (parent (node k y))" using assms(2) y by (simp add: buds_def)
    then show ?thesis using assms(3) num extends_allocated [OF e1] by (auto intro: order_trans)
  qed
qed

lemma old_pos:
  assumes "wf_core g" "extends g g'" "allocated g x"
  shows "pos g' x = pos g x"
proof -
  note tree = wf_core_tree [OF assms(1)]
  have "letter (node g' j) = letter (node g j)" if "j \<in> set (root_path (tgraph_nodes g) x)" for j
    using extends_node [OF assms(2) anc_allocated [OF tree assms(3) that]] by (simp add: letter_def)
  then show ?thesis
    unfolding posn_def root_path_extends [OF tree assms(2,3)]
    by (intro map_cong refl) (metis list.set_sel(2) set_rev tl_Nil)
qed

lemma new_pos:
  assumes wf: "wf_core g" "wf_core g'" and b: "buds g g' q" and q: "allocated g q"
    and y: "allocated g' y" "\<not> allocated g y"
  shows "\<exists>k u. pos g' y = pos g q @ k # u \<and> 2 * num_children (node g q) \<le> k"
  using y
proof (induction y rule: less_induct)
  case (less y)
  note tree = wf_core_tree [OF wf(2)] and ext = buds_extends [OF b]
  have y1: "1 < y" "y \<le> last_allocated_node g'"
    using less.prems wf_tree_root(1) [OF wf_core_tree [OF wf(1)]] by (auto simp: allocated_def)
  note p = wf_tree_node(1,2) [OF tree y1] and pos = posn_node [OF tree y1]
  have pa: "allocated g' (parent (node g' y))" using p y1 by (simp add: allocated_def)
  show ?case
  proof (cases "allocated g (parent (node g' y))")
    case True
    then have *: "parent (node g' y) = q" "num_children (node g q) \<le> seq_num (node g' y)"
      using b less.prems by (auto simp: buds_def)
    then have "2 * num_children (node g q) \<le> letter (node g' y)" by (simp add: letter_def)
    then show ?thesis using pos * old_pos [OF wf(1) ext q] by simp
  next
    case False
    then show ?thesis using less.IH [OF p(2) pa] pos by auto
  qed
qed

text \<open>What a node open after the growth does to old nodes, one open before did.\<close>

lemma fut_grown:
  assumes wf: "wf_core g" "wf_core g'" and b: "buds g g' q0" and q0: "allocated g q0" "open_node g q0"
    and q: "open_node g q \<and> allocated g q \<or> allocated g' q \<and> \<not> allocated g q"
  obtains p where "open_node g p" "allocated g p"
    "\<And>x. allocated g x \<Longrightarrow> wpar (fut g' q) (pos g' x) = wpar (fut g p) (pos g x) \<and>
       wser (fut g' q) (pos g' x) = wser (fut g p) (pos g x)"
proof -
  note ext = buds_extends [OF b]
  from q show thesis
  proof (elim disjE conjE)
    assume q: "open_node g q" "allocated g q"
    have "num_children (node g q) \<le> num_children (node g' q)"
      using extends_shape [OF ext q(2)] by (simp add: shape_le_def)
    then have "wpar (fut g' q) (pos g' x) = wpar (fut g q) (pos g x) \<and>
       wser (fut g' q) (pos g' x) = wser (fut g q) (pos g x)" if "allocated g x" for x
      using fut_late(1,2) [OF wf(1) q(2) that, of "2 * num_children (node g' q)" "[]"]
        old_pos [OF wf(1) ext q(2)] old_pos [OF wf(1) ext that] by (simp add: fut_def)
    then show thesis using that q by blast
  next
    assume q: "allocated g' q" "\<not> allocated g q"
    obtain k u where k: "pos g' q = pos g q0 @ k # u" "2 * num_children (node g q0) \<le> k"
      using new_pos [OF wf b q0(1) q] by blast
    have "fut g' q = pos g q0 @ k # (u @ [2 * num_children (node g' q)])" using k by (simp add: fut_def)
    then have "wpar (fut g' q) (pos g' x) = wpar (fut g q0) (pos g x) \<and>
       wser (fut g' q) (pos g' x) = wser (fut g q0) (pos g x)" if "allocated g x" for x
      using fut_late(1,2) [OF wf(1) q0(1) that k(2)] old_pos [OF wf(1) ext that] by simp
    then show thesis using that q0 by blast
  qed
qed

lemma grown_settled:
  assumes "wf_core g" "wf_core g'" "buds g g' q0" "allocated g q0" "open_node g q0"
    and "\<And>q. open_node g' q \<Longrightarrow> open_node g q \<and> allocated g q \<or> allocated g' q \<and> \<not> allocated g q"
    and "settled g S" "S \<subseteq> Collect (allocated g)"
  shows "settled g' S"
  unfolding settled_def
proof (intro allI impI, elim conjE)
  fix q x assume q: "open_node g' q" and x: "x \<in> S"
  show "\<not> wser (fut g' q) (pos g' x)"
    by (rule fut_grown [OF assms(1-5) assms(6) [OF q]]) (use assms(7,8) x in \<open>auto simp: settled_def\<close>)
qed

lemma grown_covers:
  assumes "wf_core g" "wf_core g'" "buds g g' q0" "allocated g q0" "open_node g q0"
    and "\<And>q. open_node g' q \<Longrightarrow> open_node g q \<and> allocated g q \<or> allocated g' q \<and> \<not> allocated g q"
    and "covers g A B" "A \<subseteq> Collect (allocated g)" "B \<subseteq> Collect (allocated g)"
  shows "covers g' A B"
  unfolding covers_def
proof (intro allI impI)
  fix q assume q: "open_node g' q" and x: "\<exists>x \<in> A. wpar (fut g' q) (pos g' x)"
  show "\<exists>x \<in> B. wpar (fut g' q) (pos g' x)"
    by (rule fut_grown [OF assms(1-5) assms(6) [OF q]])
      (use assms(7-9) x in \<open>auto simp: covers_def subset_eq\<close>)
qed

text \<open>Open nodes stay unordered when the node that grows has nothing ordered open below it.\<close>

lemma grown_unordered:
  assumes wf: "wf_core g" "wf_core g'" and b: "buds g g' q0" and q0: "allocated g q0" "open_node g q0"
    and opens: "\<And>q. open_node g' q \<Longrightarrow> open_node g q \<and> allocated g q \<or> allocated g' q \<and> \<not> allocated g q"
    and new: "\<And>q p. open_node g' q \<Longrightarrow> open_node g' p \<Longrightarrow> \<not> allocated g q \<Longrightarrow> \<not> allocated g p \<Longrightarrow>
      anc (tgraph_nodes g') q p \<or> anc (tgraph_nodes g') p q"
    and un: "unordered g" and wt: "waited g q0"
  shows "unordered g'"
  unfolding unordered_def
proof (intro allI impI, elim conjE)
  note ext = buds_extends [OF b] and tree' = wf_core_tree [OF wf(2)]
  fix q p assume q: "open_node g' q" and p: "open_node g' p"
  have grown: "\<exists>k u. pos g' z = pos g q0 @ k # u \<and> 2 * num_children (node g q0) \<le> k"
    if "open_node g' z" "\<not> allocated g z" for z
    using new_pos [OF wf b q0(1)] opens [OF that(1)] that(2) by blast
  show "\<not> wser (pos g' q) (pos g' p)"
  proof (cases "allocated g q"; cases "allocated g p")
    assume "allocated g q" "allocated g p"
    then show ?thesis
      using un opens [OF q] opens [OF p] old_pos [OF wf(1) ext] by (auto simp: unordered_def)
  next
    assume qp: "\<not> allocated g q" "allocated g p"
    obtain k u where k: "pos g' q = pos g q0 @ k # u" "2 * num_children (node g q0) \<le> k"
      using grown [OF q qp(1)] by blast
    have "\<not> wser (pos g q0) (pos g p)" using un q0(2) opens [OF p] qp(2) by (simp add: unordered_def)
    then show ?thesis
      using fut_late(2,3) [OF wf(1) q0(1) qp(2)] k old_pos [OF wf(1) ext qp(2)] by simp
  next
    assume qp: "allocated g q" "\<not> allocated g p"
    obtain k u where k: "pos g' p = pos g q0 @ k # u" "2 * num_children (node g q0) \<le> k"
      using grown [OF p qp(2)] by blast
    have oq: "open_node g q" "\<not> wser (pos g q) (pos g q0)"
      using un q0(2) opens [OF q] qp(1) by (auto simp: unordered_def)
    have "\<not> wser (pos g q) (pos g q0 @ k # u)"
    proof (cases rule: word_cases [of "pos g q0" "pos g q"])
      case apart
      then have "fork (pos g q) (pos g q0)" using fork_sym by blast
      then show ?thesis using fork_append(3) [of _ _ "[]"] oq(2) by simp
    next
      case (below l v)
      then obtain y where "anc (tgraph_nodes g) y q" "1 < y" "parent (node g y) = q0"
        "letter (node g y) = l" "l < 2 * num_children (node g q0)"
        using below_child [OF wf(1) q0(1) qp(1)] by blast
      moreover have "odd l" using wt oq(1) calculation by (auto simp: waited_def)
      ultimately show ?thesis using below k(2) by simp
    next
      case (above l v)
      have "\<not> wser (pos g q) (pos g q @ l # v @ k # u)" by simp
      then show ?thesis unfolding above by simp
    qed simp
    then show ?thesis using k old_pos [OF wf(1) ext qp(1)] by simp
  next
    assume qp: "\<not> allocated g q" "\<not> allocated g p"
    have "0 < q" "q \<le> last_allocated_node g'" "0 < p" "p \<le> last_allocated_node g'"
      using opens [OF q] opens [OF p] qp by (auto simp: allocated_def)
    then show ?thesis
      using new [OF q p qp] posn_anc [OF tree', of q p] posn_anc [OF tree', of p q] by auto
  qed
qed

end
