(* ===== verification/DpstFuture.thy ===== *)
theory DpstFuture
  imports DpstOpen
begin

text \<open>
  A step that acts.  For a thread that acts for an open node \<open>q0\<close> in its current step \<open>s\<close>,
  the step stands for everything that comes next below \<open>q0\<close>; from this follow the rules by
  which two kept steps cover all recorded ones.
\<close>

section \<open>The current step stands for the future\<close>

definition acting :: "AFTaskGraph \<Rightarrow> nat \<Rightarrow> nat \<Rightarrow> bool" where
  "acting g q0 s \<longleftrightarrow>
     wf_core g \<and> allocated g q0 \<and> open_node g q0 \<and> waited g q0 \<and> unordered g \<and> no_late_fork g \<and>
     (\<forall>q. open_node g q \<longrightarrow> allocated g q \<and> type (node g q) \<noteq> STEP) \<and> s = cur_step (node g q0) \<and> s \<noteq> 0"

lemma actingD:
  assumes "acting g q0 s"
  shows act_core: "wf_core g" and act_alloc: "allocated g q0" and act_open: "open_node g q0"
    and act_waited: "waited g q0" and act_unordered: "unordered g" and act_forks: "no_late_fork g"
    and act_opens: "open_node g q \<Longrightarrow> allocated g q" "open_node g q \<Longrightarrow> type (node g q) \<noteq> STEP"
    and act_step: "is_step g s" "parent (node g s) = q0" "allocated g s" "1 < s" "s \<noteq> q0"
proof -
  show w: "wf_core g" and a: "allocated g q0" and "open_node g q0" "waited g q0" "unordered g" "no_late_fork g"
    "open_node g q \<Longrightarrow> allocated g q" "open_node g q \<Longrightarrow> type (node g q) \<noteq> STEP"
    using assms unfolding acting_def by blast+
  have "s = cur_step (node g q0)" "s \<noteq> 0" using assms by (auto simp: acting_def)
  then show s: "is_step g s" "parent (node g s) = q0" using wf_core_cur_step [OF w a] by auto
  then show al: "allocated g s" by (simp add: is_step_def)
  have "s \<noteq> 1" using s(1) wf_tree_root(2) [OF wf_core_tree [OF w]] by (auto simp: is_step_def)
  then show "1 < s" using al by (simp add: allocated_def)
  then show "s \<noteq> q0"
    using wf_tree_node(2) [OF wf_core_tree [OF w], of s] al s(2) by (auto simp: allocated_def)
qed

lemma act_pos:
  assumes "acting g q0 s"
  shows "pos g s = pos g q0 @ [letter (node g s)]" "even (letter (node g s))"
    "letter (node g s) < 2 * num_children (node g q0)"
proof -
  note a = actingD [OF assms] and tree = wf_core_tree [OF act_core [OF assms]]
  have s: "1 < s" "s \<le> last_allocated_node g" using a(12,11) by (auto simp: allocated_def)
  show "pos g s = pos g q0 @ [letter (node g s)]" using posn_node [OF tree s] a(10) by simp
  show "even (letter (node g s))" using a(9) by (simp add: is_step_def)
  show "letter (node g s) < 2 * num_children (node g q0)"
    using wf_tree_node(5) [OF tree s] a(10) by (simp add: letter_def)
qed

text \<open>
  A node below \<open>q0\<close> other than \<open>s\<close> leaves \<open>q0\<close> through an older child, or through a
  younger one that is no fork.
\<close>

lemma act_below:
  assumes a: "acting g q0 s" and x: "allocated g x" "x \<noteq> s" and e: "pos g x = pos g q0 @ k # v"
  shows "k \<noteq> letter (node g s)" "k < 2 * num_children (node g q0)"
    "letter (node g s) < k \<Longrightarrow> even k"
proof -
  note wf = act_core [OF a] and tree = wf_core_tree [OF act_core [OF a]]
  obtain y where y: "anc (tgraph_nodes g) y x" "1 < y" "allocated g y" "parent (node g y) = q0"
    "letter (node g y) = k" "k < 2 * num_children (node g q0)"
    by (rule below_child [OF wf act_alloc [OF a] x(1) e])
  have sr: "1 < s" "s \<le> last_allocated_node g" "y \<le> last_allocated_node g" "parent (node g s) = q0"
    using actingD(10-12) [OF a] y(3) by (auto simp: allocated_def)
  have ys: "y \<noteq> s"
  proof
    assume "y = s"
    then have "s = x" using anc_not_step [OF tree, of x s] x(1) y(1) actingD(9) [OF a]
      by (auto simp: allocated_def is_step_def)
    then show False using x(2) by simp
  qed
  then show kl: "k \<noteq> letter (node g s)"
    using wf_tree_siblings_distinct [OF tree y(2) sr(3,1,2)] letter_seq y(4,5) sr(4) by metis
  show "k < 2 * num_children (node g q0)" by (fact y(6))
  show "even k" if "letter (node g s) < k"
  proof -
    have "s < y"
    proof (rule ccontr)
      assume "\<not> s < y"
      then have "seq_num (node g y) < seq_num (node g s)"
        using wf_tree_siblings [OF tree y(2) _ sr(2)] ys y(4) sr(4) by simp
      then show False using letter_less that y(5) by fastforce
    qed
    then have "type (node g y) \<noteq> ASYNC"
      using act_forks [OF a] a y(2-4) by (auto simp: no_late_fork_def acting_def)
    then show "even k" using y(5) by (metis even_letter)
  qed
qed

lemma act_word:
  assumes a: "acting g q0 s" and x: "allocated g x" "x \<noteq> s"
  shows "wpar (fut g q0) (pos g x) = wpar (pos g s) (pos g x)"
    "lcl (pos g x) (fut g q0) = lcl (pos g x) (pos g s)"
proof -
  note p = act_pos [OF a]
  have "wpar (fut g q0) (pos g x) = wpar (pos g s) (pos g x) \<and>
      lcl (pos g x) (fut g q0) = lcl (pos g x) (pos g s)"
  proof (cases rule: word_cases [of "pos g q0" "pos g x"])
    case apart
    then have "fork (pos g x) (pos g q0)" using fork_sym by blast
    then show ?thesis
      using fork_append(2) [OF apart, of _ "[]"] fork_append(4) [of "pos g x" "pos g q0" "[]"]
      by (simp add: p(1) fut_def)
  next
    case same
    then show ?thesis
      using common_prefix(4) [of "pos g q0" "[]"] prefix_no_order by (simp add: p(1) fut_def)
  next
    case (below k v)
    note b = act_below [OF a x below]
    then show ?thesis unfolding fut_def p(1) below using p(2) by (auto simp: min_def)
  next
    case (above k v)
    have "\<not> wpar ((pos g x @ k # v) @ z) (pos g x)" "lcl (pos g x @ []) (pos g x @ k # v @ z) = length (pos g x)" for z
      using prefix_no_order [of "pos g x" "k # v @ z"] common_prefix(4) [of "pos g x" "[]" "k # v @ z"] by simp_all
    then show ?thesis by (simp add: p(1) fut_def above)
  qed
  then show "wpar (fut g q0) (pos g x) = wpar (pos g s) (pos g x)"
    "lcl (pos g x) (fut g q0) = lcl (pos g x) (pos g s)" by auto
qed

lemma act_mhp:
  assumes "acting g q0 s" "allocated g x" "x \<noteq> s"
  shows "mhp (tgraph_nodes g) s x \<longleftrightarrow> wpar (fut g q0) (pos g x)"
  using mhp_words [OF wf_core_tree [OF act_core [OF assms(1)]], of s x] actingD(11) [OF assms(1)]
    act_word(1) [OF assms] assms(2) by (simp add: allocated_def)

text \<open>For an open node, the step \<open>s\<close> is where the future of \<open>q0\<close> is, and not after its own.\<close>

lemma act_open_word:
  assumes a: "acting g q0 s" and q: "open_node g q"
  shows "wpar (fut g q) (pos g s) = wpar (fut g q) (fut g q0)" "\<not> wser (fut g q) (pos g s)"
    "\<not> wser (fut g q) (fut g q0)" "q \<noteq> q0 \<Longrightarrow> fork (fut g q) (fut g q0)"
proof -
  note p = act_pos [OF a] and wf = act_core [OF a]
  have qa: "allocated g q" "type (node g q) \<noteq> STEP" using actingD(7,8) [OF a q] .
  then have qs: "q \<noteq> s" using actingD(9) [OF a] by (auto simp: is_step_def)
  have un: "\<not> wser (pos g q) (pos g q0)"
    using act_unordered [OF a] q act_open [OF a] by (simp add: unordered_def)
  have "wpar (fut g q) (pos g s) = wpar (fut g q) (fut g q0) \<and> \<not> wser (fut g q) (pos g s) \<and>
    \<not> wser (fut g q) (fut g q0) \<and> (q \<noteq> q0 \<longrightarrow> fork (fut g q) (fut g q0))"
  proof (cases rule: word_cases [of "pos g q0" "pos g q"])
    case apart
    then have "fork (pos g q) (pos g q0)" using fork_sym by blast
    then show ?thesis using un by (simp add: p(1) fut_def fork_append)
  next
    case same
    then have "q = q0"
      using posn_inj [OF wf_core_tree [OF wf], of q q0] qa(1) act_alloc [OF a] by (simp add: allocated_def)
    then show ?thesis using p(2,3) by (auto simp: p(1) fut_def min_def)
  next
    case (below k v)
    note b = act_below [OF a qa(1) qs below]
    obtain y where y: "anc (tgraph_nodes g) y q" "1 < y" "parent (node g y) = q0" "letter (node g y) = k"
      using below_child [OF wf act_alloc [OF a] qa(1) below] by blast
    have "odd k" using act_waited [OF a] q y by (auto simp: waited_def)
    moreover from this have "k < letter (node g s)" using b(1,3) linorder_neqE_nat by blast
    ultimately show ?thesis unfolding fut_def p(1) below using b(2) by auto
  next
    case (above k v)
    obtain y where "letter (node g y) = k" "k < 2 * num_children (node g q)"
      by (rule below_child [OF wf qa(1) act_alloc [OF a] above]) auto
    then show ?thesis unfolding fut_def p(1) above by (auto simp: min_def)
  qed
  then show "wpar (fut g q) (pos g s) = wpar (fut g q) (fut g q0)" "\<not> wser (fut g q) (pos g s)"
    "\<not> wser (fut g q) (fut g q0)" "q \<noteq> q0 \<Longrightarrow> fork (fut g q) (fut g q0)" by auto
qed

lemma act_step_fork:
  assumes a: "acting g q0 s" and x: "is_step g x"
  shows "fork (pos g x) (fut g q0)"
proof -
  note wf = act_core [OF a] and tree = wf_core_tree [OF act_core [OF a]]
  have xa: "allocated g x" "type (node g x) = STEP" using x by (simp_all add: is_step_def)
  have no: "\<not> anc (tgraph_nodes g) x q0"
    using anc_not_step [OF tree, of q0 x] act_alloc [OF a] xa(2) actingD(8) [OF a act_open [OF a]]
    by (auto simp: allocated_def)
  show ?thesis
  proof (cases rule: word_cases [of "pos g q0" "pos g x"])
    case apart
    then have "fork (pos g x) (pos g q0)" using fork_sym by blast
    then show ?thesis using fork_append(1) [of "pos g x" "pos g q0" "[]"] by (simp add: fut_def)
  next
    case same
    then show ?thesis
      using posn_prefix_anc [OF tree, of x q0 "[]"] xa(1) act_alloc [OF a] no by (auto simp: allocated_def)
  next
    case (below k v)
    obtain y where "k < 2 * num_children (node g q0)"
      by (rule below_child [OF wf act_alloc [OF a] xa(1) below]) auto
    then show ?thesis unfolding fut_def below by simp
  next
    case (above k v)
    then show ?thesis
      using posn_prefix_anc [OF tree _ _ _ _ above] xa(1) act_alloc [OF a] no by (auto simp: allocated_def)
  qed
qed

lemma act_settled:
  assumes "acting g q0 s" "settled g S"
  shows "settled g (insert s S)"
  using act_open_word(2) [OF assms(1)] assms(2) by (auto simp: settled_def)

section \<open>Two steps cover all\<close>

lemma covers_add: "covers g A B \<Longrightarrow> covers g (insert s A) (insert s B)"
  by (auto simp: covers_def)

lemma covers_mono: "covers g A B \<Longrightarrow> B \<subseteq> C \<Longrightarrow> covers g A C"
  unfolding covers_def by blast

text \<open>\<open>s\<close> is ordered with all kept steps, so it comes after them and replaces them.\<close>

lemma covers_last:
  assumes a: "acting g q0 s" and c: "covers g A B" and B: "\<And>r. r \<in> B \<Longrightarrow> is_step g r"
    and st: "settled g B" and no: "\<And>r. r \<in> B \<Longrightarrow> \<not> mhp (tgraph_nodes g) s r"
  shows "covers g (insert s A) {s}"
proof -
  have "wpar (fut g q) (pos g s)" if q: "open_node g q" and x: "x \<in> A" "wpar (fut g q) (pos g x)" for q x
  proof -
    obtain r where r: "r \<in> B" "wpar (fut g q) (pos g r)" using c q x by (auto simp: covers_def)
    show ?thesis
    proof (cases "r = s")
      case False
      have ra: "allocated g r" using B [OF r(1)] by (simp add: is_step_def)
      have nr: "\<not> wpar (fut g q0) (pos g r)" using no [OF r(1)] act_mhp [OF a ra False] by simp
      then have qq: "q \<noteq> q0" using r(2) by auto
      note o = act_open_word [OF a q]
      have "wpar (fut g q) (fut g q0)"
        by (rule keep_last [OF act_step_fork [OF a B [OF r(1)]] _ _ r(2) o(4) [OF qq] o(3)])
          (use nr wpar_sym st r(1) act_open [OF a] in \<open>auto simp: settled_def\<close>)
      then show ?thesis using o(1) by simp
    qed (use r(2) in simp)
  qed
  then show ?thesis by (auto simp: covers_def)
qed

text \<open>\<open>s\<close> is parallel to \<open>r1\<close> from further out than \<open>r2\<close> is.\<close>

lemma covers_wider:
  assumes a: "acting g q0 s" and c: "covers g A {r1, r2}" and r1: "is_step g r1" and r2: "is_step g r2"
    and par: "mhp (tgraph_nodes g) s r1" and d: "lcl (pos g r1) (pos g s) < lcl (pos g r1) (pos g r2)"
  shows "covers g (insert s A) {s, r2}"
proof -
  have ra: "allocated g r1" using r1 by (simp add: is_step_def)
  note rng = actingD(11) [OF a] ra
  have ne: "r1 \<noteq> s" using par mhp_irrefl [OF wf_core_tree [OF act_core [OF a]], of s] rng by (auto simp: allocated_def)
  have p: "wpar (pos g r1) (fut g q0)" using par act_mhp [OF a ra ne] wpar_sym by blast
  have d': "lcl (pos g r1) (fut g q0) < lcl (pos g r1) (pos g r2)" using d act_word(2) [OF a ra ne] by simp
  have "wpar (fut g q) (pos g s) \<or> wpar (fut g q) (pos g r2)"
    if q: "open_node g q" and x: "x \<in> A" "wpar (fut g q) (pos g x)" for q x
  proof -
    from c q x have "wpar (fut g q) (pos g r1) \<or> wpar (fut g q) (pos g r2)" by (auto simp: covers_def)
    then show ?thesis using keep_wider [OF d' p] act_open_word(1) [OF a q] by blast
  qed
  then show ?thesis by (auto simp: covers_def)
qed

text \<open>\<open>s\<close> is inside what the two kept steps span.\<close>

lemma covers_inner:
  assumes a: "acting g q0 s" and c: "covers g A {r1, r2}" and r: "is_step g r1" "is_step g r2"
    and st: "settled g {r1, r2}" and par: "mhp (tgraph_nodes g) r1 r2"
    and d: "lcl (pos g r1) (pos g r2) \<le> lcl (pos g r1) (pos g s) \<or>
      mhp (tgraph_nodes g) s r1 \<noteq> mhp (tgraph_nodes g) s r2"
  shows "covers g (insert s A) {r1, r2}"
proof (cases "s = r1 \<or> s = r2")
  case True
  then show ?thesis using c by (auto simp: covers_def)
next
  case False
  have ra: "allocated g r1" "allocated g r2" using r by (simp_all add: is_step_def)
  note tree = wf_core_tree [OF act_core [OF a]]
  have p: "wpar (pos g r1) (pos g r2)" using par mhp_words [OF tree, of r1 r2] ra by (simp add: allocated_def)
  have ne: "r1 \<noteq> s" "r2 \<noteq> s" using False by auto
  have d': "lcl (pos g r1) (pos g r2) \<le> lcl (pos g r1) (fut g q0)"
  proof (rule ccontr)
    assume n: "\<not> ?thesis"
    then have "wpar (pos g r1) (fut g q0) = wpar (pos g r2) (fut g q0)" by (intro wider_same) simp
    then have "mhp (tgraph_nodes g) s r1 = mhp (tgraph_nodes g) s r2"
      using act_mhp [OF a ra(1) ne(1)] act_mhp [OF a ra(2) ne(2)] wpar_sym by metis
    then show False using d n act_word(2) [OF a ra(1) ne(1)] by simp
  qed
  have "wpar (fut g q) (pos g r1) \<or> wpar (fut g q) (pos g r2)"
    if q: "open_node g q" and x: "wpar (fut g q) (pos g s)" for q
    by (rule inner_covered [OF d' p]) (use act_open_word(1) [OF a q] x st q in \<open>auto simp: settled_def\<close>)
  then show ?thesis using c by (auto simp: covers_def)
qed

text \<open>A step parallel to a recorded one is parallel to a kept one.\<close>

lemma covers_act:
  assumes a: "acting g q0 s" and c: "covers g A B" and AB: "A \<union> B \<subseteq> Collect (allocated g)"
    and no: "\<And>r. r \<in> B \<Longrightarrow> \<not> mhp (tgraph_nodes g) s r" and x: "x \<in> A"
  shows "\<not> mhp (tgraph_nodes g) s x"
proof
  assume m: "mhp (tgraph_nodes g) s x"
  note tree = wf_core_tree [OF act_core [OF a]]
  have irr: "\<not> mhp (tgraph_nodes g) s s"
    using mhp_irrefl [OF tree] actingD(11) [OF a] by (simp add: allocated_def)
  have "wpar (fut g q0) (pos g x)" using m act_mhp [OF a, of x] irr x AB by auto
  then obtain r where r: "r \<in> B" "wpar (fut g q0) (pos g r)"
    using c act_open [OF a] x by (auto simp: covers_def)
  have "r \<noteq> s"
  proof
    assume "r = s"
    then have "wpar (fut g q0) (fut g q0)" using r(2) act_open_word(1) [OF a act_open [OF a]] by simp
    then show False by simp
  qed
  then show False using no [OF r(1)] act_mhp [OF a, of r] r AB by auto
qed

end
