(* ===== verification/DpstGrow.thy ===== *)
theory DpstGrow
  imports DpstFuture
begin

text \<open>
  The task events keep what \<open>DpstFuture\<close> rests on: each lets the tree grow below one open
  node and keeps open nodes unordered, so what held between open nodes and recorded steps
  holds between the new open nodes and the recorded steps.
\<close>

section \<open>Forks are followed by a step\<close>

text \<open>Outside \<open>X\<close>, no fork is younger than its parent's current step.\<close>

definition late_ok :: "AFTaskGraph \<Rightarrow> nat set \<Rightarrow> bool" where
  "late_ok g X \<longleftrightarrow>
     (\<forall>y. allocated g y \<and> y \<noteq> 1 \<and> parent (node g y) \<notin> X \<and> cur_step (node g (parent (node g y))) < y \<longrightarrow>
        type (node g y) \<noteq> ASYNC)"

lemma no_late_fork_late_ok: "no_late_fork g \<longleftrightarrow> late_ok g {}"
  by (simp add: no_late_fork_def late_ok_def)

lemma late_ok_frame [simp]:
  "late_ok (g\<lparr>cur := c\<rparr>) X = late_ok g X" "late_ok (g\<lparr>temp_cur_map := m\<rparr>) X = late_ok g X"
  "late_ok (g\<lparr>tidToTaskIdMap := ids\<rparr>) X = late_ok g X"
  by (simp_all add: late_ok_def allocated_def)

lemma buds_frame [simp]:
  "buds g (h\<lparr>cur := c\<rparr>) q = buds g h q" "buds g (h\<lparr>temp_cur_map := m\<rparr>) q = buds g h q"
  "buds (g\<lparr>cur := c\<rparr>) h q = buds g h q"
  by (simp_all add: buds_def extends_def allocated_def)

lemma late_ok_upd:
  assumes "late_ok g X" "\<And>n. shape_le n (f n)" "\<And>n. cur_step (f n) = cur_step n"
  shows "late_ok (upd_node g i f) X"
  using assms unfolding late_ok_def shape_le_def by simp

lemma buds_upd:
  assumes "\<And>n. shape_le n (f n)"
  shows "buds g (upd_node g i f) q"
  by (rule buds_same [OF extends_upd_node [OF assms]]) simp

lemma new_child_growth:
  assumes wf: "wf_core g" and p: "allocated g p" "type (node g p) \<noteq> STEP"
    and nc: "new_child g nt tid p = Some (i, g')"
  shows "buds g g' p" "late_ok g X \<Longrightarrow> late_ok g' (if nt = ASYNC then insert p X else X)"
proof -
  have pl: "p \<le> last_allocated_node g" using p(1) by (simp add: allocated_def)
  note e = new_child_eq [OF nc pl] and c = new_child_core [OF wf p nc]
  have i: "i = Suc (last_allocated_node g)" "last_allocated_node g' = i" "p \<noteq> i" "0 < p"
    using e p(1) by (auto simp: allocated_def)
  have ns: "node g' i = \<lparr>taskId = tid, parent = p, cur_step = 0, type = nt,
      depth = depth (node g p) + 1, seq_num = num_children (node g p), num_children = 0,
      young_ns_child = NO_TYPE, sp_root_n_wt_flag = False\<rparr>"
    "\<And>j. allocated g j \<Longrightarrow> cur_step (node g' j) = cur_step (node g j)"
    using e i by (auto simp: allocated_def)
  note ext = grows_extends [OF c(2)]
  show "buds g g' p"
    unfolding buds_def
  proof (intro conjI allI impI)
    fix y assume "allocated g' y \<and> \<not> allocated g y"
    then have "y = i" using i by (auto simp: allocated_def)
    then show "parent (node g' y) = p \<and> num_children (node g p) \<le> seq_num (node g' y) \<or>
        \<not> allocated g (parent (node g' y))" using ns(1) by simp
  qed (rule ext)
  show "late_ok g' (if nt = ASYNC then insert p X else X)" if l: "late_ok g X"
    unfolding late_ok_def
  proof (intro allI impI, elim conjE)
    fix y assume y: "allocated g' y" "y \<noteq> 1" "parent (node g' y) \<notin> (if nt = ASYNC then insert p X else X)"
      "cur_step (node g' (parent (node g' y))) < y"
    show "type (node g' y) \<noteq> ASYNC"
    proof (cases "y = i")
      case True
      then show ?thesis using y(3) c(6,7) by (auto split: if_splits)
    next
      case False
      then have ya: "allocated g y" using y(1) i by (auto simp: allocated_def)
      have "parent (node g' y) \<notin> X" using y(3) by (auto split: if_splits)
      then show ?thesis
        using l y(2,4) ya extends_node(1,2) [OF ext ya] ns(2) [OF parent_allocated [OF wf ya y(2)]]
        by (auto simp: late_ok_def)
    qed
  qed
qed

lemma new_step_growth:
  assumes wf: "wf_core g" and p: "allocated g p" "type (node g p) \<noteq> STEP"
    and ns: "new_step g p = Some g'"
  shows "buds g g' p" "late_ok g X \<Longrightarrow> late_ok g' (X - {p})"
proof -
  from ns obtain s g1 where s: "new_child g STEP (taskId (node g p)) p = Some (s, g1)"
    and g': "g' = upd_node g1 p (\<lambda>n. n\<lparr>cur_step := s\<rparr>)"
    by (auto simp: new_step_def bind_eq_Some_conv)
  note gr = new_child_growth [OF wf p s]
  have pl: "p \<le> last_allocated_node g" using p(1) by (simp add: allocated_def)
  have s1: "s = last_allocated_node g1" using new_child_eq [OF s pl] by simp
  have b: "buds g1 g' p" unfolding g' by (rule buds_upd) (simp add: shape_le_def)
  show "buds g g' p" by (rule buds_trans [OF gr(1) b _ p(1)]) simp
  show "late_ok g' (X - {p})" if l: "late_ok g X"
    using gr(2) [OF l] s1 by (auto simp: late_ok_def g' allocated_def)
qed

section \<open>What an event does\<close>

text \<open>Facts about open nodes and recorded steps survive.\<close>

definition evolves :: "AFTaskGraph \<Rightarrow> AFTaskGraph \<Rightarrow> bool" where
  "evolves g g' \<longleftrightarrow>
     (\<forall>S. settled g S \<and> S \<subseteq> Collect (allocated g) \<longrightarrow> settled g' S) \<and>
     (\<forall>A B. covers g A B \<and> A \<subseteq> Collect (allocated g) \<and> B \<subseteq> Collect (allocated g) \<longrightarrow> covers g' A B) \<and>
     unordered g' \<and> no_late_fork g'"

lemma open_alloc: "wf_graph g \<Longrightarrow> open_node g q \<Longrightarrow> allocated g q \<and> type (node g q) \<noteq> STEP"
  by (auto simp: open_node_def wf_graph_def task_node_def)

lemma evolves_shrink:
  assumes "\<And>q. open_node g' q \<Longrightarrow> open_node g q" "tgraph_nodes g' = tgraph_nodes g"
    "last_allocated_node g' = last_allocated_node g" "unordered g" "no_late_fork g"
  shows "evolves g g'"
  using assms by (auto simp: evolves_def settled_def covers_def unordered_def no_late_fork_def fut_def
      allocated_def)

lemma evolves_growth:
  assumes wf: "wf_graph g" "wf_core g'" and b: "buds g g' q0" and q0: "open_node g q0"
    and opens: "\<And>q. open_node g' q \<Longrightarrow> open_node g q \<or> allocated g' q \<and> \<not> allocated g q"
    and un: "unordered g'" and late: "no_late_fork g'"
  shows "evolves g g'"
proof -
  have o: "open_node g q \<and> allocated g q \<or> allocated g' q \<and> \<not> allocated g q" if "open_node g' q" for q
    using opens [OF that] open_alloc [OF wf(1)] by blast
  note core = wf_graph_core [OF wf(1)] and q0a = open_alloc [OF wf(1) q0, THEN conjunct1]
  show ?thesis
    unfolding evolves_def
    using grown_settled [OF core wf(2) b q0a q0 o] grown_covers [OF core wf(2) b q0a q0 o] un late by blast
qed

lemma CaptureSpawnOnly_buds:
  assumes wf: "wf_graph g" and sp: "CaptureSpawnOnly g t k = Some g'" and i: "thread_top (cur g) t = Some i"
    and late: "no_late_fork g"
  shows "buds g g' i" "no_late_fork g'"
proof -
  note core = wf_graph_core [OF wf]
  have tn: "task_node g i" using wf_graph_top [OF wf i] .
  note p = task_node_allocated [OF tn] task_node_type [OF tn]
  have l0: "late_ok g {}" using late by (simp add: no_late_fork_late_ok)
  have "buds g g' i \<and> late_ok g' {}"
    using sp
  proof (cases rule: CaptureSpawnOnly_cases)
    case (same j a g0 g1 g2)
    then have ji: "j = i" using i by simp
    note same = same [unfolded ji]
    note n = new_child_core [OF core p same(3)] and gn = new_child_growth [OF core p same(3)]
    note b = spawn_branch_async_wf [OF core tn same(3)]
    let ?u = "upd_node g0 i (\<lambda>n. n\<lparr>young_ns_child := ASYNC\<rparr>)"
    have ac: "allocated ?u a" "type (node ?u a) \<noteq> STEP" "allocated ?u i" "type (node ?u i) \<noteq> STEP"
      using b by auto
    have bu: "buds g0 ?u i" by (rule buds_upd) (simp add: shape_le_def)
    have lu: "late_ok ?u {i}" using gn(2) [OF l0] by (intro late_ok_upd) (auto simp: shape_le_def)
    note n1 = new_step_core [OF b(1) ac(1,2) same(4)] and g1 = new_step_growth [OF b(1) ac(1,2) same(4)]
    have i1: "allocated g1 i" "type (node g1 i) \<noteq> STEP"
      using ac n1(2) grows_allocated extends_node(2) [OF grows_extends [OF n1(2)] ac(3)] by auto
    note g2 = new_step_growth [OF n1(1) i1 same(5)]
    have "buds g ?u i" by (rule buds_trans [OF gn(1) bu _ p(1)]) simp
    then have "buds g g1 i" by (rule buds_trans [OF _ g1(1) _ p(1)]) (use n(5) in simp)
    then have "buds g g2 i" by (rule buds_trans [OF _ g2(1) _ p(1)]) simp
    moreover have "late_ok g2 {}" using g2(2) [OF g1(2) [OF lu]] by (rule back_subst) auto
    ultimately show ?thesis using same(6) by simp
  next
    case (scope j f a h0 h1 g1 g2)
    then have ji: "j = i" using i by simp
    note scope = scope [unfolded ji]
    note n = new_child_core [OF core p scope(3)] and gn = new_child_growth [OF core p scope(3)]
    note b = spawn_branch_wf [OF core tn scope(3,4)]
    let ?w = "upd_node h0 i (\<lambda>n. n\<lparr>young_ns_child := FINISH\<rparr>)"
    have w: "wf_core ?w" by (intro wf_core_upd n(1)) (auto simp: shape_le_def)
    have bw: "buds h0 ?w i" by (rule buds_upd) (simp add: shape_le_def)
    have lw: "late_ok ?w {}" using gn(2) [OF l0] by (intro late_ok_upd) (auto simp: shape_le_def)
    have wf': "allocated ?w f" "type (node ?w f) \<noteq> STEP" using n(4,6) by auto
    note m = new_child_core [OF w wf' scope(4)] and gm = new_child_growth [OF w wf' scope(4)]
    let ?v = "upd_node h1 f (\<lambda>n. n\<lparr>young_ns_child := ASYNC\<rparr>)"
    let ?u = "?v\<lparr>cur := push (cur h1) t f\<rparr>"
    have bu: "buds h1 ?u f" unfolding buds_frame by (rule buds_upd) (simp add: shape_le_def)
    have lu: "late_ok ?u {f}" unfolding late_ok_frame
      using gm(2) [OF lw] by (intro late_ok_upd) (auto simp: shape_le_def)
    have u: "wf_core ?u" using b(1) by simp
    have ac: "allocated ?u a" "type (node ?u a) \<noteq> STEP" "allocated ?u f" "type (node ?u f) \<noteq> STEP"
      using b by (auto simp: allocated_def)
    note n1 = new_step_core [OF u ac(1,2) scope(5)] and g1 = new_step_growth [OF u ac(1,2) scope(5)]
    have f1: "allocated g1 f" "type (node g1 f) \<noteq> STEP"
      using ac n1(2) grows_allocated extends_node(2) [OF grows_extends [OF n1(2)] ac(3)] by auto
    note g2 = new_step_growth [OF n1(1) f1 scope(6)]
    have na: "\<not> allocated g a" using m(5) n(2) grows_allocated by auto
    have "buds g ?w i" by (rule buds_trans [OF gn(1) bw _ p(1)]) simp
    then have "buds g h1 i" by (rule buds_trans [OF _ gm(1) _ p(1)]) (use n(5) in simp)
    then have "buds g ?u i" by (rule buds_trans [OF _ bu _ p(1)]) (use n(5) in simp)
    then have "buds g g1 i" by (rule buds_trans [OF _ g1(1) _ p(1)]) (use na in simp)
    then have "buds g g2 i" by (rule buds_trans [OF _ g2(1) _ p(1)]) (use n(5) in simp)
    moreover have "late_ok g2 {}" using g2(2) [OF g1(2) [OF lu]] by (rule back_subst) auto
    ultimately show ?thesis using scope(7) by simp
  qed
  then show "buds g g' i" "no_late_fork g'" by (simp_all add: no_late_fork_late_ok)
qed

lemma CaptureSpawnOnly_evolves:
  assumes wf: "wf_graph g" and sp: "CaptureSpawnOnly g t k = Some g'" and i: "thread_top (cur g) t = Some i"
    and wt: "waited g i" and un: "unordered g" and late: "no_late_fork g"
  shows "evolves g g'"
proof -
  note b = CaptureSpawnOnly_buds [OF wf sp i late] and core' = wf_graph_core [OF conjunct1 [OF CaptureSpawnOnly_wf [OF wf sp]]]
  from sp obtain cs c a where e: "cur g t = i # cs" "temp_cur_map g' = map_insert (temp_cur_map g) k a"
    "\<not> allocated g a" "a \<noteq> 1" "c = i \<and> cur g' = cur g \<or> \<not> allocated g c \<and> cur g' = push (cur g) t c"
    "parent (node g' a) = c" "allocated g' a"
  proof (rule CaptureSpawnOnly_effect [OF wf])
    fix j cs c a
    assume "cur g t = j # cs" "temp_cur_map g' = map_insert (temp_cur_map g) k a" "a \<noteq> 1" "\<not> allocated g a"
      "c = j \<and> checkForStep (node g j) \<and> cur g' = cur g \<or>
       \<not> allocated g c \<and> \<not> own g' c \<and> c \<noteq> 1 \<and> taskId (node g' c) = taskId (node g j) \<and>
       parent (node g' c) = j \<and> type (node g' c) = FINISH \<and> \<not> checkForStep (node g j) \<and> cur g' = push (cur g) t c"
      "parent (node g' a) = c" "allocated g' a"
    moreover from this have "j = i" using i by (auto simp: thread_top_Some)
    ultimately show thesis using that [of cs a c] by blast
  qed
  have ca: "anc (tgraph_nodes g') c a" using child_anc [OF core' e(7,4)] e(6) by simp
  have ac: "allocated g' c" using parent_allocated [OF core' e(7,4)] e(6) by simp
  have q0: "open_node g i" using e(1) by (auto simp: open_node_def intro: exI [of _ t])
  have opens: "open_node g q \<or> q = a \<or> q = c \<and> \<not> allocated g c" if "open_node g' q" for q
    using that e(2,5) by (auto simp: open_node_def push_def elim!: map_insert_cases split: if_splits)
  have o: "open_node g q \<and> allocated g q \<or> allocated g' q \<and> \<not> allocated g q" if "open_node g' q" for q
    using opens [OF that] open_alloc [OF wf] e(3,7) ac by blast
  have "unordered g'"
  proof (rule grown_unordered [OF wf_graph_core [OF wf] core' b(1) _ q0 o _ un wt])
    show "allocated g i" using open_alloc [OF wf q0] by simp
    show "anc (tgraph_nodes g') q p \<or> anc (tgraph_nodes g') p q"
      if "open_node g' q" "open_node g' p" "\<not> allocated g q" "\<not> allocated g p" for q p
      using opens [OF that(1)] opens [OF that(2)] that(3,4) open_alloc [OF wf] ca by auto
  qed
  then show ?thesis
    by (intro evolves_growth [OF wf core' b(1) q0 _ _ b(2)]) (use o in auto)
qed

lemma CaptureSpawnAndWait_evolves:
  assumes wf: "wf_graph g" and sp: "CaptureSpawnAndWait g t k = Some g'" and i: "thread_top (cur g) t = Some i"
    and wt: "waited g i" and un: "unordered g" and late: "no_late_fork g"
  shows "evolves g g'"
proof -
  note core = wf_graph_core [OF wf] and core' = wf_graph_core [OF conjunct1 [OF CaptureSpawnAndWait_wf [OF wf sp]]]
  have tn: "task_node g i" using wf_graph_top [OF wf i] .
  note p = task_node_allocated [OF tn] task_node_type [OF tn]
  obtain f g1 g2 where f: "new_child g FINISH k i = Some (f, g1)"
    and s: "new_step (upd_node (upd_node g1 i (\<lambda>n. n\<lparr>young_ns_child := FINISH\<rparr>)) f
       (\<lambda>n. n\<lparr>sp_root_n_wt_flag := True\<rparr>)) f = Some g2" (is "new_step ?u f = _")
    and g': "g' = g2\<lparr>temp_cur_map := map_insert (temp_cur_map g2) k f\<rparr>"
    by (rule CaptureSpawnAndWait_cases [OF sp]) (use i in auto)
  note n = new_child_core [OF core p f] and gn = new_child_growth [OF core p f]
  have l0: "late_ok g {}" using late by (simp add: no_late_fork_late_ok)
  have u: "wf_core ?u" by (intro wf_core_upd n(1)) (auto simp: shape_le_def)
  have bu: "buds g1 ?u i"
    by (rule buds_same [OF extends_trans [OF extends_upd_node extends_upd_node]]) (simp_all add: shape_le_def)
  have lu: "late_ok ?u {}" using gn(2) [OF l0] by (intro late_ok_upd) (auto simp: shape_le_def)
  have uf: "allocated ?u f" "type (node ?u f) \<noteq> STEP" using n(4,6) by auto
  note n2 = new_step_core [OF u uf s] and g2 = new_step_growth [OF u uf s]
  have "buds g ?u i" by (rule buds_trans [OF gn(1) bu _ p(1)]) simp
  then have "buds g g2 i" by (rule buds_trans [OF _ g2(1) _ p(1)]) (use n(5) in simp)
  then have b: "buds g g' i" by (simp add: g')
  have lf: "no_late_fork g'" using g2(2) [OF lu] by (simp add: g' no_late_fork_late_ok)
  have fr: "cur g2 = cur g" "temp_cur_map g2 = temp_cur_map g" using n(3) n2(3) by (simp_all add: same_frame_def)
  have q0: "open_node g i" using i by (auto simp: open_node_def thread_top_Some intro: exI [of _ t])
  have fa: "allocated g' f" using grows_allocated [OF n2(2) uf(1)] by (simp add: g' allocated_def)
  have opens: "open_node g q \<or> q = f" if "open_node g' q" for q
    using that fr by (auto simp: g' open_node_def elim!: map_insert_cases)
  have o: "open_node g q \<and> allocated g q \<or> allocated g' q \<and> \<not> allocated g q" if "open_node g' q" for q
    using opens [OF that] open_alloc [OF wf] fa n(5) by blast
  have "unordered g'"
    by (rule grown_unordered [OF core core' b p(1) q0 o _ un wt]) (use opens open_alloc [OF wf] in auto)
  then show ?thesis
    by (intro evolves_growth [OF wf core' b q0 _ _ lf]) (use o in auto)
qed

lemma CaptureWaitOnly_evolves:
  assumes wf: "wf_graph g" and w: "CaptureWaitOnly g t = Some g'"
    and un: "unordered g" and late: "no_late_fork g"
  shows "evolves g g'"
proof -
  note core = wf_graph_core [OF wf] and core' = wf_graph_core [OF conjunct1 [OF CaptureWaitOnly_wf [OF wf w]]]
  from w obtain f j cs where f: "cur g t = f # j # cs" and
    s: "new_step (g\<lparr>cur := (cur g)(t := j # cs)\<rparr>) j = Some g'" (is "new_step ?h j = _")
    by (auto simp: CaptureWaitOnly_def bind_eq_Some_conv Let_def pop_Some thread_top_Some)
  have tn: "task_node g j" using wf_graph_stack [OF wf, of j t] f by simp
  have h: "wf_core ?h" "allocated ?h j" "type (node ?h j) \<noteq> STEP"
    using core task_node_allocated [OF tn] task_node_type [OF tn] by (simp_all add: allocated_def)
  note n = new_step_core [OF h s] and gr = new_step_growth [OF h s]
  have b: "buds g g' j" using gr(1) by simp
  have q0: "open_node g j" using f by (auto simp: open_node_def intro: exI [of _ t])
  have "set (cur ?h u) \<subseteq> set (cur g u)" for u using f by auto
  then have opens: "open_node g q" if "open_node g' q" for q
    using that n(3) by (auto simp: open_node_def same_frame_def)
  have "pos g' q = pos g q" if "open_node g q" for q
    using old_pos [OF core buds_extends [OF b]] open_alloc [OF wf that] by blast
  then have "unordered g'" using un opens by (simp add: unordered_def)
  moreover have "no_late_fork g'" using gr(2) [of "{}"] late by (simp add: no_late_fork_late_ok)
  ultimately show ?thesis
    by (intro evolves_growth [OF wf core' b q0]) (use opens in auto)
qed

lemma CaptureExecute_evolves:
  assumes "CaptureExecute g t k = Some g'" "unordered g" "no_late_fork g"
  shows "evolves g g'"
  using assms(1)
  by (intro evolves_shrink [OF _ _ _ assms(2,3)])
    (auto simp: CaptureExecute_def bind_eq_Some_conv Let_def open_node_def push_def split: if_splits)

lemma CaptureReturn_evolves:
  assumes r: "CaptureReturn g t = Some g'" and "unordered g" "no_late_fork g"
  shows "evolves g g'"
proof -
  from r obtain ids st1 st where g': "g' = g\<lparr>tidToTaskIdMap := ids, cur := st\<rparr>" "pop st1 t = Some st"
    "st1 = cur g \<or> pop (cur g) t = Some st1"
    by (auto simp: CaptureReturn_def bind_eq_Some_conv Let_def split: if_splits)
  have sub: "set (v u) \<subseteq> set (w u)" if "pop w t = Some v" for v w :: "THREADID \<Rightarrow> nat list" and u
    using that by (auto simp: pop_Some split: if_splits)
  have "set (st u) \<subseteq> set (cur g u)" for u
    using sub [OF g'(2), of u] g'(3) sub [of "cur g" st1 u] by auto
  then show ?thesis
    by (intro evolves_shrink [OF _ _ _ assms(2,3)]) (auto simp: g'(1) open_node_def)
qed

lemma AFTaskGraph_new_future:
  assumes "AFTaskGraph_new base = Some g"
  shows "unordered g" "no_late_fork g" "settled g {}" "covers g {} B"
  using assms
  by (auto simp: AFTaskGraph_new_def create_node_def initialize_task_def upd_node_def Let_def
      bind_eq_Some_conv unordered_def no_late_fork_def open_node_def allocated_def push_def settled_def
      covers_def split: if_splits)

text \<open>The LCA cache is no part of this.\<close>

lemma evolves_cache:
  assumes "unordered g" "no_late_fork g"
  shows "evolves g (g\<lparr>lcaHashTable := tb\<rparr>)"
  by (intro evolves_shrink [OF _ _ _ assms]) (auto simp: open_node_def)

end
