(* ===== verification/Ptracer.thy ===== *)
theory Ptracer
  imports DpstGrow Spd3Sound
begin

unbundle bit_operations_syntax

text \<open>
  The PTRacer detector (\<open>tdebug-lib/src/DR_Detector.cpp\<close>, \<open>src/Lockset_data.cpp\<close>,
  \<open>src/exec_calls.cpp\<close> and the TBB wrappers of \<open>include/t_debug_task.h\<close>).  Per address it
  keeps, for each lock set with which the address was accessed, two writing and two reading
  steps: three entries in place, further ones in a vector.  Its program structure tree and
  LCA cache are those of \<open>TaskGraph\<close>, except that \<open>CaptureExecute\<close> does not require the
  task to be known; the other assertions that its copy of \<open>AFTaskGraph.cpp\<close> comments out stay
  in the model, and the runs considered have results, so that they hold there.  The loops
  and updates written out twice, in \<open>RecordMem\<close> and in \<open>RecordAccess\<close>, are the same and are
  modelled once.  The handler of an access holds the lock of its cell, the handlers of
  task and lock events the global lock, so each is one step of the model.
\<close>

section \<open>Data\<close>

text \<open>
  A node pointer in an access history.  The vector's entries are local variables of which
  only the lock set and one pointer are assigned before they are stored; the other
  pointers are \<open>Uninit\<close>, and testing one has no defined result.
\<close>

datatype node_ptr = Null | Node nat | Uninit

record Address_data =
  lockset :: "64 word"
  w1_task :: node_ptr
  w2_task :: node_ptr
  r1_task :: node_ptr
  r2_task :: node_ptr

definition NUM_FIXED_ENTRIES :: nat where
  "NUM_FIXED_ENTRIES = 3"

record Dr_Address_Data =
  f_entries :: "Address_data list"
  access_list :: "Address_data list option"

definition zero_entry :: Address_data where
  "zero_entry = \<lparr>lockset = 0, w1_task = Null, w2_task = Null, r1_task = Null, r2_task = Null\<rparr>"

definition zero_history :: Dr_Address_Data where
  "zero_history = \<lparr>f_entries = replicate NUM_FIXED_ENTRIES zero_entry, access_list = None\<rparr>"

text \<open>The locks a task holds: the complement of their bits, and the stack of their identifiers.\<close>

record Lockset_data =
  ld_lockset :: "64 word"
  locks :: "64 word list"

record ptracer =
  taskGraph :: AFTaskGraph
  thd_lockset :: "THREADID \<Rightarrow> Lockset_data list"
  lock_ticker :: nat
  lockid_map :: "ADDRINT \<rightharpoonup> 64 word"
  shadow :: "Dr_Address_Data shadow_space"
  all_violations :: "ADDRINT \<rightharpoonup> violation"
  task_id_ctr :: nat

section \<open>Lock sets\<close>

definition Lockset_data_new :: Lockset_data where
  "Lockset_data_new = \<lparr>ld_lockset = 0xffffffffffffffff, locks = []\<rparr>"

definition createLockset :: "Lockset_data \<Rightarrow> 64 word" where
  "createLockset ld = ld_lockset ld"

text \<open>The shift is defined for the first 64 locks only.\<close>

definition getLockId :: "ptracer \<Rightarrow> ADDRINT \<Rightarrow> (64 word \<times> ptracer) option" where
  "getLockId s lock_held =
     (case lockid_map s lock_held of
        Some lockId \<Rightarrow> Some (lockId, s)
      | None \<Rightarrow>
          if lock_ticker s < 64
          then let lockId = NOT (push_bit (lock_ticker s) 1)
               in Some (lockId, s\<lparr>lock_ticker := lock_ticker s + 1,
                                  lockid_map := map_insert (lockid_map s) lock_held lockId\<rparr>)
          else None)"

definition addLockToLockset :: "ptracer \<Rightarrow> Lockset_data \<Rightarrow> ADDRINT \<Rightarrow> (Lockset_data \<times> ptracer) option" where
  "addLockToLockset s ld lock_held =
     do {
       (lockId, s) \<leftarrow> getLockId s lock_held;
       Some (ld\<lparr>locks := lockId # locks ld, ld_lockset := ld_lockset ld AND lockId\<rparr>, s)
     }"

definition removeLockFromLockset :: "Lockset_data \<Rightarrow> Lockset_data option" where
  "removeLockFromLockset ld =
     do {
       lockId \<leftarrow> stack_top (locks ld);
       rest \<leftarrow> stack_pop (locks ld);
       Some (ld\<lparr>ld_lockset := ld_lockset ld OR NOT lockId, locks := rest\<rparr>)
     }"

definition CaptureLockAcquire :: "ptracer \<Rightarrow> THREADID \<Rightarrow> ADDRINT \<Rightarrow> ptracer option" where
  "CaptureLockAcquire s threadid lock_addr =
     do {
       curLockset \<leftarrow> thread_top (thd_lockset s) threadid;
       (curLockset, s) \<leftarrow> addLockToLockset s curLockset lock_addr;
       rest \<leftarrow> pop (thd_lockset s) threadid;
       Some (s\<lparr>thd_lockset := push rest threadid curLockset\<rparr>)
     }"

definition CaptureLockRelease :: "ptracer \<Rightarrow> THREADID \<Rightarrow> ADDRINT \<Rightarrow> ptracer option" where
  "CaptureLockRelease s threadid lock_addr =
     do {
       curLockset \<leftarrow> thread_top (thd_lockset s) threadid;
       curLockset \<leftarrow> removeLockFromLockset curLockset;
       rest \<leftarrow> pop (thd_lockset s) threadid;
       Some (s\<lparr>thd_lockset := push rest threadid curLockset\<rparr>)
     }"

text \<open>The locks that \<open>RecordAccess\<close> is told were acquired and released around the access.\<close>

fun acquire_all :: "ptracer \<Rightarrow> 64 word \<Rightarrow> ADDRINT list \<Rightarrow> (64 word \<times> ptracer) option" where
  "acquire_all s ls [] = Some (ls, s)"
| "acquire_all s ls (l # rest) =
     do { (lockId, s) \<leftarrow> getLockId s l; acquire_all s (ls AND lockId) rest }"

fun release_all :: "ptracer \<Rightarrow> 64 word \<Rightarrow> ADDRINT list \<Rightarrow> (64 word \<times> ptracer) option" where
  "release_all s ls [] = Some (ls, s)"
| "release_all s ls (l # rest) =
     do { (lockId, s) \<leftarrow> getLockId s l; release_all s (ls OR NOT lockId) rest }"

section \<open>The race checks\<close>

definition TD_Activate :: "nat \<Rightarrow> ptracer option" where
  "TD_Activate base =
     do {
       g \<leftarrow> AFTaskGraph_new base;
       Some \<lparr>taskGraph = g, thd_lockset = push (\<lambda>_. []) 0 Lockset_data_new, lock_ticker = 0,
             lockid_map = Map.empty, shadow = (\<lambda>_. None), all_violations = Map.empty, task_id_ctr = 0\<rparr>
     }"

definition exceptions :: "ptracer \<Rightarrow> THREADID \<Rightarrow> ADDRINT \<Rightarrow> bool" where
  "exceptions s threadid addr \<longleftrightarrow>
     tidToTaskIdMap (taskGraph s) threadid = [] \<or>
     stack_top (tidToTaskIdMap (taskGraph s) threadid) = Some 0 \<or>
     thd_lockset s threadid = [] \<or> all_violations s addr \<noteq> None"

text \<open>\<open>ptr != NULL && areParallel(...)\<close>; the query may fill the LCA cache.\<close>

definition ptr_parallel :: "AFTaskGraph \<Rightarrow> nat \<Rightarrow> node_ptr \<Rightarrow> THREADID \<Rightarrow> (bool \<times> AFTaskGraph) option" where
  "ptr_parallel g tid ptr threadid =
     (case ptr of Null \<Rightarrow> Some (False, g) | Node n \<Rightarrow> areParallel g tid n threadid | Uninit \<Rightarrow> None)"

definition ptr_node :: "node_ptr \<Rightarrow> nat" where
  "ptr_node ptr = (case ptr of Node n \<Rightarrow> n | _ \<Rightarrow> 0)"

text \<open>The checks of one entry, pointer by pointer, up to the first race.\<close>

fun check_ptrs ::
    "AFTaskGraph \<Rightarrow> (ADDRINT \<rightharpoonup> violation) \<Rightarrow> nat \<Rightarrow> THREADID \<Rightarrow> ADDRINT \<Rightarrow> AccessType \<Rightarrow> nat
       \<Rightarrow> (node_ptr \<times> AccessType) list \<Rightarrow> (AFTaskGraph \<times> (ADDRINT \<rightharpoonup> violation) \<times> bool) option" where
  "check_ptrs g viol tid threadid addr at cur_node [] = Some (g, viol, False)"
| "check_ptrs g viol tid threadid addr at cur_node ((p, k) # rest) =
     do {
       (par, g) \<leftarrow> ptr_parallel g tid p threadid;
       if par then Some (g, report viol addr cur_node at (ptr_node p) k, True)
       else check_ptrs g viol tid threadid addr at cur_node rest
     }"

definition entry_ptrs :: "AccessType \<Rightarrow> Address_data \<Rightarrow> (node_ptr \<times> AccessType) list" where
  "entry_ptrs at e =
     [(w1_task e, WRITE), (w2_task e, WRITE)] @
     (if at = WRITE then [(r1_task e, READ), (r2_task e, READ)] else [])"

text \<open>Locks in common are zero bits in both words.\<close>

definition disjoint_locks :: "64 word \<Rightarrow> 64 word \<Rightarrow> bool" where
  "disjoint_locks curLockset ls \<longleftrightarrow> NOT curLockset AND NOT ls = 0"

text \<open>
  The loop over the fixed entries, from index \<open>i\<close> with \<open>f_insert_index = ins\<close> (\<open>-1\<close> is
  \<open>None\<close>).  The result tells whether a race was found and the insertion index.  A race
  ends the loop at once, so its first test never holds.
\<close>

fun scan_fixed ::
    "(ADDRINT \<times> AccessType \<times> nat \<times> nat \<times> THREADID) \<Rightarrow> 64 word \<Rightarrow> AFTaskGraph \<Rightarrow> (ADDRINT \<rightharpoonup> violation)
       \<Rightarrow> nat \<Rightarrow> nat option \<Rightarrow> Address_data list
       \<Rightarrow> (AFTaskGraph \<times> (ADDRINT \<rightharpoonup> violation) \<times> bool \<times> nat option) option" where
  "scan_fixed acc curLockset g viol i ins [] = Some (g, viol, False, ins)"
| "scan_fixed acc curLockset g viol i ins (e # es) =
     (if ins = None \<and> lockset e = 0 then Some (g, viol, False, Some i)
      else do {
        (g, viol, race) \<leftarrow>
          (if lockset e \<noteq> 0 \<and> disjoint_locks curLockset (lockset e)
           then let (addr, at, cur_node, tid, threadid) = acc
                in check_ptrs g viol tid threadid addr at cur_node (entry_ptrs at e)
           else Some (g, viol, False));
        if race then Some (g, viol, True, ins)
        else scan_fixed acc curLockset g viol (i + 1)
               (if lockset e \<noteq> 0 \<and> curLockset = lockset e then Some i else ins) es
      })"

text \<open>The loop over the vector.\<close>

fun scan_list ::
    "(ADDRINT \<times> AccessType \<times> nat \<times> nat \<times> THREADID) \<Rightarrow> 64 word \<Rightarrow> AFTaskGraph \<Rightarrow> (ADDRINT \<rightharpoonup> violation)
       \<Rightarrow> nat \<Rightarrow> nat option \<Rightarrow> Address_data list
       \<Rightarrow> (AFTaskGraph \<times> (ADDRINT \<rightharpoonup> violation) \<times> bool \<times> nat option) option" where
  "scan_list acc curLockset g viol i ins [] = Some (g, viol, False, ins)"
| "scan_list acc curLockset g viol i ins (e # es) =
     do {
       (g, viol, race) \<leftarrow>
         (if disjoint_locks curLockset (lockset e)
          then let (addr, at, cur_node, tid, threadid) = acc
               in check_ptrs g viol tid threadid addr at cur_node (entry_ptrs at e)
          else Some (g, viol, False));
       if race then Some (g, viol, True, ins)
       else scan_list acc curLockset g viol (i + 1) (if curLockset = lockset e then Some i else ins) es
     }"

section \<open>The update of the history\<close>

text \<open>Which two of the two kept steps and the current one are kept.\<close>

definition update_pair ::
    "AFTaskGraph \<Rightarrow> nat \<Rightarrow> THREADID \<Rightarrow> nat \<Rightarrow> node_ptr \<Rightarrow> node_ptr
       \<Rightarrow> (AFTaskGraph \<times> node_ptr \<times> node_ptr) option" where
  "update_pair g tid threadid cur_node p1 p2 =
     do {
       (par1, g) \<leftarrow> ptr_parallel g tid p1 threadid;
       (par2, g) \<leftarrow> ptr_parallel g tid p2 threadid;
       if p1 = Null \<and> p2 = Null \<or> p1 = Null \<and> \<not> par2 \<or> p2 = Null \<and> \<not> par1 \<or> \<not> par1 \<and> \<not> par2 then
         Some (g, Node cur_node, Null)
       else if par1 \<and> par2 then do {
         lca12 \<leftarrow> LCA g (ptr_node p1) (ptr_node p2);
         lca1s \<leftarrow> LCA g (ptr_node p1) cur_node;
         Some (g, if depth (node g lca1s) < depth (node g lca12) then Node cur_node else p1, p2)
       } else if p2 = Null \<and> par1 then Some (g, p1, Node cur_node)
       else Some (g, p1, p2)
     }"

definition update_entry ::
    "AFTaskGraph \<Rightarrow> nat \<Rightarrow> THREADID \<Rightarrow> AccessType \<Rightarrow> nat \<Rightarrow> Address_data
       \<Rightarrow> (AFTaskGraph \<times> Address_data) option" where
  "update_entry g tid threadid at cur_node e =
     (if at = WRITE then do {
        (g, w1, w2) \<leftarrow> update_pair g tid threadid cur_node (w1_task e) (w2_task e);
        Some (g, e\<lparr>w1_task := w1, w2_task := w2\<rparr>)
      } else do {
        (g, r1, r2) \<leftarrow> update_pair g tid threadid cur_node (r1_task e) (r2_task e);
        Some (g, e\<lparr>r1_task := r1, r2_task := r2\<rparr>)
      })"

definition fill_entry :: "64 word \<Rightarrow> AccessType \<Rightarrow> nat \<Rightarrow> Address_data \<Rightarrow> Address_data" where
  "fill_entry curLockset at cur_node e =
     (if at = READ then e\<lparr>lockset := curLockset, r1_task := Node cur_node\<rparr>
      else e\<lparr>lockset := curLockset, w1_task := Node cur_node\<rparr>)"

definition uninit_entry :: Address_data where
  "uninit_entry = \<lparr>lockset = 0, w1_task = Uninit, w2_task = Uninit, r1_task = Uninit, r2_task = Uninit\<rparr>"

definition update_history ::
    "AFTaskGraph \<Rightarrow> nat \<Rightarrow> THREADID \<Rightarrow> AccessType \<Rightarrow> nat \<Rightarrow> 64 word \<Rightarrow> nat option \<Rightarrow> nat option
       \<Rightarrow> Dr_Address_Data \<Rightarrow> (AFTaskGraph \<times> Dr_Address_Data) option" where
  "update_history g tid threadid at cur_node curLockset f_insert_index insert_index d =
     (case f_insert_index of
        Some i \<Rightarrow>
          let f_entry = f_entries d ! i
          in if lockset f_entry = 0
             then Some (g, d\<lparr>f_entries := (f_entries d)[i := fill_entry curLockset at cur_node f_entry]\<rparr>)
             else do {
               (g, e) \<leftarrow> update_entry g tid threadid at cur_node f_entry;
               Some (g, d\<lparr>f_entries := (f_entries d)[i := e]\<rparr>)
             }
      | None \<Rightarrow>
          let es = (case access_list d of None \<Rightarrow> [] | Some es \<Rightarrow> es)
          in case insert_index of
               None \<Rightarrow>
                 Some (g, d\<lparr>access_list := Some (es @ [fill_entry curLockset at cur_node uninit_entry])\<rparr>)
             | Some j \<Rightarrow> do {
                 (g, e) \<leftarrow> update_entry g tid threadid at cur_node (es ! j);
                 Some (g, d\<lparr>access_list := Some (es[j := e])\<rparr>)
               })"

section \<open>The access handlers\<close>

definition process_access ::
    "(ADDRINT \<times> AccessType \<times> nat \<times> nat \<times> THREADID) \<Rightarrow> 64 word \<Rightarrow> AFTaskGraph \<Rightarrow> (ADDRINT \<rightharpoonup> violation)
       \<Rightarrow> Dr_Address_Data \<Rightarrow> (AFTaskGraph \<times> (ADDRINT \<rightharpoonup> violation) \<times> Dr_Address_Data) option" where
  "process_access acc curLockset g viol d =
     do {
       (g, viol, race, f_insert_index) \<leftarrow> scan_fixed acc curLockset g viol 0 None (f_entries d);
       if race then Some (g, viol, d)
       else do {
         (g, viol, race, insert_index) \<leftarrow>
           (case access_list d of
              None \<Rightarrow> Some (g, viol, False, None)
            | Some es \<Rightarrow> scan_list acc curLockset g viol 0 None es);
         if race then Some (g, viol, d)
         else do {
           let (addr, at, cur_node, tid, threadid) = acc;
           (g, d) \<leftarrow> update_history g tid threadid at cur_node curLockset f_insert_index insert_index d;
           Some (g, viol, d)
         }
       }
     }"

text \<open>What \<open>RecordMem\<close> and \<open>RecordAccess\<close> share, once the lock set is known.\<close>

definition record_access ::
    "ptracer \<Rightarrow> THREADID \<Rightarrow> ADDRINT \<Rightarrow> AccessType \<Rightarrow> 64 word \<Rightarrow> ptracer option" where
  "record_access s threadid addr at curLockset =
     do {
       tid \<leftarrow> stack_top (tidToTaskIdMap (taskGraph s) threadid);
       curStepNode \<leftarrow> getCurTask (taskGraph s) threadid;
       let sh = touch_page zero_history (shadow s) (primary_index addr);
       let dr_address_data = cell_at zero_history sh addr;
       (g, viol, d) \<leftarrow> process_access (addr, at, curStepNode, tid, threadid) curLockset (taskGraph s)
                         (all_violations s) dr_address_data;
       Some (s\<lparr>taskGraph := g, all_violations := viol, shadow := put_cell zero_history sh addr d\<rparr>)
     }"

definition RecordMem :: "ptracer \<Rightarrow> THREADID \<Rightarrow> ADDRINT \<Rightarrow> AccessType \<Rightarrow> ptracer option" where
  "RecordMem s threadid addr at =
     (if \<not> threadid < NUM_THREADS then None
      else if exceptions s threadid addr then Some s
      else do {
        ld \<leftarrow> thread_top (thd_lockset s) threadid;
        record_access s threadid addr at (createLockset ld)
      })"

definition RecordAccess ::
    "ptracer \<Rightarrow> THREADID \<Rightarrow> ADDRINT \<Rightarrow> ADDRINT list \<Rightarrow> ADDRINT list \<Rightarrow> AccessType \<Rightarrow> ptracer option" where
  "RecordAccess s threadid addr locks_acq locks_rel at =
     (if \<not> threadid < NUM_THREADS then None
      else if exceptions s threadid addr then Some s
      else do {
        ld \<leftarrow> thread_top (thd_lockset s) threadid;
        (curLockset, s) \<leftarrow> acquire_all s (createLockset ld) locks_acq;
        (curLockset, s) \<leftarrow> release_all s curLockset locks_rel;
        record_access s threadid addr at curLockset
      })"

section \<open>Task events\<close>

text \<open>
  \<open>temp_cur_map[taskId]\<close> is slot 0, the unused node, for a task that was never announced.
\<close>

definition CaptureExecute :: "AFTaskGraph \<Rightarrow> THREADID \<Rightarrow> nat \<Rightarrow> AFTaskGraph option" where
  "CaptureExecute g threadid task_id =
     (let temp_cur = (case temp_cur_map g task_id of None \<Rightarrow> 0 | Some i \<Rightarrow> i);
          g = g\<lparr>temp_cur_map := (temp_cur_map g)(task_id := None)\<rparr>
      in if threadid < NUM_THREADS then
           Some (g\<lparr>cur := push (cur g) threadid temp_cur,
                   tidToTaskIdMap := push (tidToTaskIdMap g) threadid (taskId (node g temp_cur))\<rparr>)
         else None)"

text \<open>The wrappers; the call into TBB is the argument \<open>tbb\<close>, as in \<open>Spd3\<close>.\<close>

definition spawn :: "(nat \<Rightarrow> ptracer \<Rightarrow> ptracer option) \<Rightarrow> ptracer \<Rightarrow> THREADID \<Rightarrow> ptracer option" where
  "spawn tbb s threadid =
     do {
       let t = task_id_ctr s + 1;
       g \<leftarrow> CaptureSetTaskId (taskGraph s) threadid t True;
       tbb t (s\<lparr>task_id_ctr := t, taskGraph := g\<rparr>)
     }"

definition spawn_root_and_wait ::
    "(nat \<Rightarrow> ptracer \<Rightarrow> ptracer option) \<Rightarrow> ptracer \<Rightarrow> THREADID \<Rightarrow> ptracer option" where
  "spawn_root_and_wait tbb s threadid =
     do {
       let root = task_id_ctr s + 1;
       g \<leftarrow> CaptureSetTaskId (taskGraph s) threadid root False;
       tbb root (s\<lparr>task_id_ctr := root, taskGraph := g\<rparr>)
     }"

definition wait_for_all :: "(ptracer \<Rightarrow> ptracer option) \<Rightarrow> ptracer \<Rightarrow> THREADID \<Rightarrow> ptracer option" where
  "wait_for_all tbb s threadid =
     do {
       s \<leftarrow> tbb s;
       g \<leftarrow> CaptureWaitOnly (taskGraph s) threadid;
       Some (s\<lparr>taskGraph := g\<rparr>)
     }"

definition spawn_and_wait_for_all ::
    "(nat \<Rightarrow> ptracer \<Rightarrow> ptracer option) \<Rightarrow> ptracer \<Rightarrow> THREADID \<Rightarrow> ptracer option" where
  "spawn_and_wait_for_all tbb s threadid =
     do {
       let child = task_id_ctr s + 1;
       g \<leftarrow> CaptureSetTaskId (taskGraph s) threadid child True;
       s \<leftarrow> tbb child (s\<lparr>task_id_ctr := child, taskGraph := g\<rparr>);
       g \<leftarrow> CaptureWaitOnly (taskGraph s) threadid;
       Some (s\<lparr>taskGraph := g\<rparr>)
     }"

definition exec_begin :: "ptracer \<Rightarrow> THREADID \<Rightarrow> nat \<Rightarrow> ptracer option" where
  "exec_begin s threadid task_id =
     do {
       g \<leftarrow> CaptureExecute (taskGraph s) threadid task_id;
       Some (s\<lparr>taskGraph := g, thd_lockset := push (thd_lockset s) threadid Lockset_data_new\<rparr>)
     }"

definition exec_end :: "ptracer \<Rightarrow> THREADID \<Rightarrow> ptracer option" where
  "exec_end s threadid =
     do {
       g \<leftarrow> CaptureReturn (taskGraph s) threadid;
       ls \<leftarrow> pop (thd_lockset s) threadid;
       Some (s\<lparr>taskGraph := g, thd_lockset := ls\<rparr>)
     }"

text \<open>Executions are sequences of handler calls, as for \<open>Spd3\<close>.\<close>

datatype event =
    Spawn THREADID
  | SpawnRoot THREADID
  | WaitDone THREADID
  | ExecBegin THREADID nat
  | ExecEnd THREADID
  | LockAcquire THREADID ADDRINT
  | LockRelease THREADID ADDRINT
  | Access THREADID ADDRINT AccessType
  | AccessLocks THREADID ADDRINT "ADDRINT list" "ADDRINT list" AccessType

fun pt_step :: "ptracer \<Rightarrow> event \<Rightarrow> ptracer option" where
  "pt_step s (Spawn t) = spawn (\<lambda>_. Some) s t"
| "pt_step s (SpawnRoot t) = spawn_root_and_wait (\<lambda>_. Some) s t"
| "pt_step s (WaitDone t) = wait_for_all Some s t"
| "pt_step s (ExecBegin t k) = exec_begin s t k"
| "pt_step s (ExecEnd t) = exec_end s t"
| "pt_step s (LockAcquire t l) = CaptureLockAcquire s t l"
| "pt_step s (LockRelease t l) = CaptureLockRelease s t l"
| "pt_step s (Access t a k) = RecordMem s t a k"
| "pt_step s (AccessLocks t a acq rel k) = RecordAccess s t a acq rel k"

lemma pt_spawn_and_wait_for_all_events:
  "spawn_and_wait_for_all tbb s t =
     pt_step s (Spawn t) \<bind> tbb (task_id_ctr s + 1) \<bind> (\<lambda>s. pt_step s (WaitDone t))"
  by (simp add: spawn_and_wait_for_all_def spawn_def wait_for_all_def Let_def bind_assoc)

end
