(* ===== verification/PtSound.thy ===== *)
theory PtSound
  imports Ptracer
begin

text \<open>
  The PTRacer access handler against a reference rule.  The history of a cell stands for
  a list of entries with different lock sets; the rule checks the steps of all entries with
  disjoint lock sets and updates the entry of the current lock set.  The handler, with its
  cache, its two loops and its three places to keep an entry, implements the rule; it has
  no defined result exactly where the rule meets an unassigned pointer.
\<close>

section \<open>The reference rule\<close>

definition ptr_ok :: "AFTaskGraph \<Rightarrow> node_ptr \<Rightarrow> bool" where
  "ptr_ok g p \<longleftrightarrow> (\<forall>n. p = Node n \<longrightarrow> is_step g n)"

definition ptr_mhp :: "(nat \<Rightarrow> AFTask) \<Rightarrow> nat \<Rightarrow> node_ptr \<Rightarrow> bool" where
  "ptr_mhp ns s p \<longleftrightarrow> (case p of Node n \<Rightarrow> mhp ns s n | _ \<Rightarrow> False)"

text \<open>The first racing pointer of a list; \<open>None\<close> if an unassigned one comes first.\<close>

fun ref_check :: "(nat \<Rightarrow> AFTask) \<Rightarrow> nat \<Rightarrow> (node_ptr \<times> AccessType) list
    \<Rightarrow> (nat \<times> AccessType) option option" where
  "ref_check ns s [] = Some None"
| "ref_check ns s ((p, k) # ps) =
     (if p = Uninit then None else if ptr_mhp ns s p then Some (Some (ptr_node p, k)) else ref_check ns s ps)"

definition conflict_ptrs :: "AccessType \<Rightarrow> 64 word \<Rightarrow> Address_data list \<Rightarrow> (node_ptr \<times> AccessType) list" where
  "conflict_ptrs at cl es = concat (map (entry_ptrs at) (filter (\<lambda>e. disjoint_locks cl (lockset e)) es))"

definition ref_pair :: "(nat \<Rightarrow> AFTask) \<Rightarrow> nat \<Rightarrow> node_ptr \<Rightarrow> node_ptr \<Rightarrow> (node_ptr \<times> node_ptr) option" where
  "ref_pair ns s p1 p2 =
     (if p1 = Uninit \<or> p2 = Uninit then None
      else Some (
        if \<not> ptr_mhp ns s p1 \<and> \<not> ptr_mhp ns s p2 then (Node s, Null)
        else if ptr_mhp ns s p1 \<and> ptr_mhp ns s p2 then
          (if depth (ns (ref_lca ns (ptr_node p1) s)) < depth (ns (ref_lca ns (ptr_node p1) (ptr_node p2)))
           then Node s else p1, p2)
        else if p2 = Null then (p1, Node s)
        else (p1, p2)))"

definition ref_entry :: "(nat \<Rightarrow> AFTask) \<Rightarrow> nat \<Rightarrow> AccessType \<Rightarrow> Address_data \<Rightarrow> Address_data option" where
  "ref_entry ns s at e =
     (if at = WRITE
      then map_option (\<lambda>(p, q). e\<lparr>w1_task := p, w2_task := q\<rparr>) (ref_pair ns s (w1_task e) (w2_task e))
      else map_option (\<lambda>(p, q). e\<lparr>r1_task := p, r2_task := q\<rparr>) (ref_pair ns s (r1_task e) (r2_task e)))"

definition find_ls :: "64 word \<Rightarrow> Address_data list \<Rightarrow> nat option" where
  "find_ls cl es =
     (if cl \<in> lockset ` set es then Some (length (takeWhile (\<lambda>e. lockset e \<noteq> cl) es)) else None)"

definition ref_entries :: "(nat \<Rightarrow> AFTask) \<Rightarrow> nat \<Rightarrow> AccessType \<Rightarrow> 64 word \<Rightarrow> Address_data list
    \<Rightarrow> Address_data list option" where
  "ref_entries ns s at cl es =
     (case find_ls cl es of
        Some j \<Rightarrow> map_option (\<lambda>e. es[j := e]) (ref_entry ns s at (es ! j))
      | None \<Rightarrow> Some (es @ [fill_entry cl at s
                  (if length es < NUM_FIXED_ENTRIES then zero_entry else uninit_entry)]))"

section \<open>The entries of a history\<close>

definition used :: "Dr_Address_Data \<Rightarrow> Address_data list" where
  "used d = takeWhile (\<lambda>e. lockset e \<noteq> 0) (f_entries d) @ (case access_list d of None \<Rightarrow> [] | Some es \<Rightarrow> es)"

definition hist_ok :: "Dr_Address_Data \<Rightarrow> bool" where
  "hist_ok d \<longleftrightarrow>
     (\<exists>us n. f_entries d = us @ replicate n zero_entry \<and> length us + n = NUM_FIXED_ENTRIES \<and>
        0 \<notin> lockset ` set us \<and> (access_list d \<noteq> None \<longrightarrow> n = 0)) \<and>
     0 \<notin> lockset ` set (used d) \<and> distinct (map lockset (used d))"

lemma takeWhile_used:
  assumes "0 \<notin> lockset ` set us"
  shows "takeWhile (\<lambda>e. lockset e \<noteq> 0) (us @ replicate n zero_entry) = us"
  using assms by (induction us) (cases n; auto simp: zero_entry_def)+

lemma hist_okE:
  assumes "hist_ok d"
  obtains us n es where "f_entries d = us @ replicate n zero_entry" "length us + n = NUM_FIXED_ENTRIES"
    "0 \<notin> lockset ` set us" "es = (case access_list d of None \<Rightarrow> [] | Some es \<Rightarrow> es)" "es \<noteq> [] \<longrightarrow> n = 0"
    "access_list d \<noteq> None \<longrightarrow> n = 0" "used d = us @ es" "distinct (map lockset (us @ es))" "0 \<notin> lockset ` set (us @ es)"
proof -
  from assms obtain us n where u: "f_entries d = us @ replicate n zero_entry" "length us + n = NUM_FIXED_ENTRIES"
    "0 \<notin> lockset ` set us" "access_list d \<noteq> None \<longrightarrow> n = 0"
    and d: "0 \<notin> lockset ` set (used d)" "distinct (map lockset (used d))"
    by (auto simp: hist_ok_def)
  define es where "es = (case access_list d of None \<Rightarrow> [] | Some es \<Rightarrow> es)"
  have ud: "used d = us @ es" using takeWhile_used [OF u(3)] by (simp add: used_def u(1) es_def)
  have "es \<noteq> [] \<longrightarrow> n = 0" using u(4) by (auto simp: es_def split: option.splits)
  then show thesis by (rule that [OF u(1-3) es_def _ _ ud]) (use u(4) d ud in auto)
qed

lemma used_zero [simp]: "used zero_history = []" "hist_ok zero_history"
proof -
  show u: "used zero_history = []"
    using takeWhile_used [of "[]" 3] by (simp add: used_def zero_history_def NUM_FIXED_ENTRIES_def)
  show "hist_ok zero_history"
    unfolding hist_ok_def u by (auto simp: zero_history_def intro!: exI [of _ "[]"])
qed

lemma find_ls_Cons:
  "find_ls cl (e # es) = (if lockset e = cl then Some 0 else map_option Suc (find_ls cl es))"
  by (auto simp: find_ls_def)

lemma find_ls_Some: "find_ls cl es = Some j \<Longrightarrow> j < length es \<and> lockset (es ! j) = cl"
proof (induction es arbitrary: j)
  case Nil
  then show ?case by (simp add: find_ls_def)
next
  case (Cons e es)
  then show ?case by (auto simp: find_ls_Cons split: if_splits)
qed

lemma find_ls_append:
  "find_ls cl (xs @ ys) =
     (case find_ls cl xs of Some j \<Rightarrow> Some j | None \<Rightarrow> map_option ((+) (length xs)) (find_ls cl ys))"
  by (induction xs) (auto simp: find_ls_Cons option.map_comp comp_def map_option.id [unfolded id_def] split: option.splits,
    simp_all add: find_ls_def)

lemma find_ls_None: "find_ls cl es = None \<longleftrightarrow> cl \<notin> lockset ` set es"
  by (simp add: find_ls_def)

section \<open>The handler implements the rule\<close>

lemma ptr_parallel_cached:
  assumes "running g c t k s" "ptr_ok g p" "wf_core (cached g tb)" "p \<noteq> Uninit"
  obtains tb' where "ptr_parallel (cached g tb) k p t = Some (ptr_mhp (tgraph_nodes g) s p, cached g tb')"
    "wf_core (cached g tb')"
proof (cases p)
  case Null
  then show thesis using that assms(3) by (simp add: ptr_parallel_def ptr_mhp_def)
next
  case (Node n)
  then have "is_step g n" using assms(2) by (simp add: ptr_ok_def)
  then show thesis
    using areParallel_cached [OF assms(1) _ assms(3)] that Node
    by (auto simp: ptr_parallel_def ptr_mhp_def)
qed (use assms(4) in simp)

lemma check_ptrs_cached:
  assumes run: "running g c t k s" and ok: "\<forall>pm \<in> set ps. ptr_ok g (fst pm)"
    and tb: "wf_core (cached g tb)" and new: "viol a = None"
  shows "case ref_check (tgraph_nodes g) s ps of
      None \<Rightarrow> check_ptrs (cached g tb) viol k t a at s ps = None
    | Some r \<Rightarrow> \<exists>tb'. wf_core (cached g tb') \<and>
        check_ptrs (cached g tb) viol k t a at s ps = Some (cached g tb', record_race viol a s at r, r \<noteq> None)"
  using ok tb
proof (induction ps arbitrary: tb)
  case Nil
  then show ?case by (auto simp: record_race_def)
next
  case (Cons pm ps)
  obtain p m where pm: "pm = (p, m)" by (cases pm)
  show ?case
  proof (cases "p = Uninit")
    case True
    then show ?thesis using pm by (simp add: ptr_parallel_def)
  next
    case False
    have "ptr_ok g p" using Cons.prems(1) pm by simp
    then obtain tb1 where 1: "ptr_parallel (cached g tb) k p t =
        Some (ptr_mhp (tgraph_nodes g) s p, cached g tb1)" "wf_core (cached g tb1)"
      using ptr_parallel_cached [OF run _ Cons.prems(2) False] by blast
    have ins: "map_insert viol a w = viol(a \<mapsto> w)" for w using new by (rule map_insert_fresh)
    show ?thesis
    proof (cases "ptr_mhp (tgraph_nodes g) s p")
      case True
      then show ?thesis using pm 1 False by (auto simp: record_race_def report_def ins)
    next
      case no: False
      have "\<forall>pm \<in> set ps. ptr_ok g (fst pm)" using Cons.prems(1) by simp
      from Cons.IH [OF this 1(2)] show ?thesis
        using pm 1 False no by (simp split: option.splits)
    qed
  qed
qed

lemma update_pair_cached:
  assumes run: "running g c t k s" and ok: "ptr_ok g p1" "ptr_ok g p2" and s: "is_step g s"
    and tb: "wf_core (cached g tb)"
  shows "case ref_pair (tgraph_nodes g) s p1 p2 of
      None \<Rightarrow> update_pair (cached g tb) k t s p1 p2 = None
    | Some (q1, q2) \<Rightarrow> \<exists>tb'. wf_core (cached g tb') \<and>
        update_pair (cached g tb) k t s p1 p2 = Some (cached g tb', q1, q2)"
proof (cases "p1 = Uninit")
  case True
  then show ?thesis by (simp add: ref_pair_def update_pair_def ptr_parallel_def)
next
  case u1: False
  obtain tb1 where 1: "ptr_parallel (cached g tb) k p1 t = Some (ptr_mhp (tgraph_nodes g) s p1, cached g tb1)"
    "wf_core (cached g tb1)" by (rule ptr_parallel_cached [OF run ok(1) tb u1])
  show ?thesis
  proof (cases "p2 = Uninit")
    case True
    then have n: "ptr_parallel (cached g tb1) k p2 t = None" by (simp add: ptr_parallel_def)
    show ?thesis using True 1(1) n by (simp add: ref_pair_def update_pair_def)
  next
    case u2: False
    obtain tb2 where 2: "ptr_parallel (cached g tb1) k p2 t = Some (ptr_mhp (tgraph_nodes g) s p2, cached g tb2)"
      "wf_core (cached g tb2)" by (rule ptr_parallel_cached [OF run ok(2) 1(2) u2])
    have nn: "\<not> ptr_mhp (tgraph_nodes g) s Null" by (simp add: ptr_mhp_def)
    show ?thesis
    proof (cases "ptr_mhp (tgraph_nodes g) s p1 \<and> ptr_mhp (tgraph_nodes g) s p2")
      case True
      then obtain n1 n2 where n: "p1 = Node n1" "p2 = Node n2"
        by (auto simp: ptr_mhp_def split: node_ptr.splits)
      then have st: "is_step g n1" "is_step g n2" using ok by (simp_all add: ptr_ok_def)
      show ?thesis
        using True 1(1) 2 n LCA_cached [OF 2(2) st(1) st(2)] LCA_cached [OF 2(2) st(1) s]
        by (auto simp: ref_pair_def update_pair_def ptr_node_def intro: exI [of _ tb2])
    next
      case False
      then show ?thesis using 1(1) 2 u1 u2 nn by (auto simp: ref_pair_def update_pair_def)
    qed
  qed
qed

definition entry_ok :: "AFTaskGraph \<Rightarrow> Address_data \<Rightarrow> bool" where
  "entry_ok g e \<longleftrightarrow> ptr_ok g (w1_task e) \<and> ptr_ok g (w2_task e) \<and> ptr_ok g (r1_task e) \<and> ptr_ok g (r2_task e)"

lemma update_entry_cached:
  assumes run: "running g c t k s" and ok: "entry_ok g e" and s: "is_step g s" and tb: "wf_core (cached g tb)"
  shows "case ref_entry (tgraph_nodes g) s at e of
      None \<Rightarrow> update_entry (cached g tb) k t at s e = None
    | Some e' \<Rightarrow> \<exists>tb'. wf_core (cached g tb') \<and> update_entry (cached g tb) k t at s e = Some (cached g tb', e')"
  using update_pair_cached [OF run _ _ s tb, of "w1_task e" "w2_task e"]
    update_pair_cached [OF run _ _ s tb, of "r1_task e" "r2_task e"] ok
  by (auto simp: entry_ok_def ref_entry_def update_entry_def split: option.splits)

lemma entry_ptrs_ok: "entry_ok g e \<Longrightarrow> \<forall>pm \<in> set (entry_ptrs at e). ptr_ok g (fst pm)"
  by (auto simp: entry_ok_def entry_ptrs_def split: if_splits)

lemma ref_check_append:
  "ref_check ns s (xs @ ys) =
     (case ref_check ns s xs of None \<Rightarrow> None | Some None \<Rightarrow> ref_check ns s ys | Some (Some r) \<Rightarrow> Some (Some r))"
  by (induction xs rule: ref_check.induct) auto

lemma conflict_ptrs_append: "conflict_ptrs at cl (xs @ ys) = conflict_ptrs at cl xs @ conflict_ptrs at cl ys"
  by (simp add: conflict_ptrs_def)

lemma conflict_ptrs_Cons:
  "conflict_ptrs at cl (e # es) =
     (if disjoint_locks cl (lockset e) then entry_ptrs at e else []) @ conflict_ptrs at cl es"
  by (simp add: conflict_ptrs_def)

text \<open>The loops; \<open>ins'\<close> is the insertion index they end with.\<close>

definition last_index :: "64 word \<Rightarrow> nat \<Rightarrow> nat option \<Rightarrow> Address_data list \<Rightarrow> nat option" where
  "last_index cl i ins es = (case find_ls cl es of None \<Rightarrow> ins | Some j \<Rightarrow> Some (i + j))"

lemma last_index_Cons:
  assumes "distinct (map lockset (e # es))"
  shows "last_index cl (Suc i) (if cl = lockset e then Some i else ins) es = last_index cl i ins (e # es)"
proof (cases "cl = lockset e")
  case True
  then have "find_ls cl es = None" using assms by (auto simp: find_ls_None)
  then show ?thesis using True by (simp add: last_index_def find_ls_Cons)
next
  case False
  then show ?thesis by (auto simp: last_index_def find_ls_Cons split: option.splits)
qed

lemma scan_list_cached:
  assumes run: "running g c t k s" and ok: "\<And>e. e \<in> set es \<Longrightarrow> entry_ok g e"
    and tb: "wf_core (cached g tb)" and new: "viol a = None" and d: "distinct (map lockset es)"
  shows "case ref_check (tgraph_nodes g) s (conflict_ptrs at cl es) of
      None \<Rightarrow> scan_list (a, at, s, k, t) cl (cached g tb) viol i ins es = None
    | Some r \<Rightarrow> \<exists>tb' ins'. wf_core (cached g tb') \<and> (r = None \<longrightarrow> ins' = last_index cl i ins es) \<and>
        scan_list (a, at, s, k, t) cl (cached g tb) viol i ins es =
          Some (cached g tb', record_race viol a s at r, r \<noteq> None, ins')"
  using ok tb d
proof (induction es arbitrary: tb i ins)
  case Nil
  then show ?case by (auto simp: conflict_ptrs_def record_race_def last_index_def find_ls_def)
next
  case (Cons e es)
  define ps where "ps = (if disjoint_locks cl (lockset e) then entry_ptrs at e else [])"
  have check: "(if disjoint_locks cl (lockset e)
      then let (addr, at, cur_node, tid, threadid) = (a, at, s, k, t)
           in check_ptrs (cached g tb) viol tid threadid addr at cur_node (entry_ptrs at e)
      else Some (cached g tb, viol, False)) = check_ptrs (cached g tb) viol k t a at s ps"
    by (simp add: ps_def)
  have po: "\<forall>pm \<in> set ps. ptr_ok g (fst pm)"
    using entry_ptrs_ok [of g e at] Cons.prems(1) [of e] by (auto simp: ps_def)
  note C = check_ptrs_cached [where viol = viol and a = a and at = at, OF run po Cons.prems(2) new]
  show ?case
  proof (cases "ref_check (tgraph_nodes g) s ps")
    case None
    then show ?thesis using C by (simp only: scan_list.simps check conflict_ptrs_Cons ps_def [symmetric] ref_check_append) simp
  next
    case (Some r)
    then obtain tb1 where 1: "wf_core (cached g tb1)" "check_ptrs (cached g tb) viol k t a at s ps =
        Some (cached g tb1, record_race viol a s at r, r \<noteq> None)" using C by auto
    show ?thesis
    proof (cases r)
      case r: (Some x)
      then show ?thesis
        using Some 1 by (simp only: scan_list.simps check conflict_ptrs_Cons ps_def [symmetric] ref_check_append) auto
    next
      case None
      have v: "record_race viol a s at None = viol" by (simp add: record_race_def)
      define ins1 where "ins1 = (if cl = lockset e then Some i else ins)"
      have "case ref_check (tgraph_nodes g) s (conflict_ptrs at cl es) of
          None \<Rightarrow> scan_list (a, at, s, k, t) cl (cached g tb1) viol (i + 1) ins1 es = None
        | Some r \<Rightarrow> \<exists>tb' ins'. wf_core (cached g tb') \<and> (r = None \<longrightarrow> ins' = last_index cl (i + 1) ins1 es) \<and>
            scan_list (a, at, s, k, t) cl (cached g tb1) viol (i + 1) ins1 es =
              Some (cached g tb', record_race viol a s at r, r \<noteq> None, ins')"
        by (rule Cons.IH [OF _ 1(1)]) (use Cons.prems in auto)
      then show ?thesis
        using Some None 1(2) v last_index_Cons [OF Cons.prems(3), of cl i ins]
        by (simp only: scan_list.simps check conflict_ptrs_Cons ps_def [symmetric] ins1_def [symmetric] ref_check_append)
          (auto split: option.splits)
    qed
  qed
qed

lemma lockset_zero [simp]: "lockset zero_entry = 0"
  by (simp add: zero_entry_def)

lemma scan_zeros:
  "ins \<noteq> None \<Longrightarrow> scan_fixed acc cl g viol i ins (replicate n zero_entry) = Some (g, viol, False, ins)"
  by (induction n arbitrary: i) auto

lemma scan_fixed_list:
  assumes "0 \<notin> lockset ` set us"
  shows "scan_fixed acc cl g viol i ins (us @ replicate n zero_entry) =
    do {
      (g, viol, race, ins') \<leftarrow> scan_list acc cl g viol i ins us;
      Some (g, viol, race, if \<not> race \<and> ins' = None \<and> 0 < n then Some (i + length us) else ins')
    }"
  using assms
proof (induction us arbitrary: g viol i ins)
  case Nil
  show ?case
  proof (cases "ins = None \<and> 0 < n")
    case True
    then show ?thesis by (cases n) auto
  next
    case False
    then show ?thesis using scan_zeros [of ins] by (cases n) auto
  qed
next
  case (Cons e us)
  then have e: "lockset e \<noteq> 0" and IH: "\<And>g viol i ins. scan_fixed acc cl g viol i ins (us @ replicate n zero_entry) =
    do {
      (g, viol, race, ins') \<leftarrow> scan_list acc cl g viol i ins us;
      Some (g, viol, race, if \<not> race \<and> ins' = None \<and> 0 < n then Some (i + length us) else ins')
    }" by auto
  let ?chk = "if disjoint_locks cl (lockset e)
      then let (addr, at, cur_node, tid, threadid) = acc
           in check_ptrs g viol tid threadid addr at cur_node (entry_ptrs at e)
      else Some (g, viol, False)"
  have "scan_fixed acc cl g viol i ins ((e # us) @ replicate n zero_entry) =
      do { (g, viol, race) \<leftarrow> ?chk;
           if race then Some (g, viol, True, ins)
           else scan_fixed acc cl g viol (i + 1) (if cl = lockset e then Some i else ins) (us @ replicate n zero_entry) }"
    using e by (simp cong: if_cong)
  moreover have len: "i + 1 + length us = i + length (e # us)" by simp
  ultimately show ?case unfolding IH len by (cases ?chk) (auto split: prod.splits)
qed

text \<open>The update of the entry the loops point to.\<close>

lemma hist_okI:
  assumes "f_entries d = us @ replicate n zero_entry" "length us + n = NUM_FIXED_ENTRIES"
    "access_list d \<noteq> None \<Longrightarrow> n = 0" "es = (case access_list d of None \<Rightarrow> [] | Some es \<Rightarrow> es)"
    "distinct (map lockset (us @ es))" "0 \<notin> set (map lockset (us @ es))"
  shows "hist_ok d \<and> used d = us @ es"
proof
  have z: "0 \<notin> lockset ` set us" using assms(6) by auto
  show u: "used d = us @ es" using takeWhile_used [OF z] by (simp add: used_def assms(1,4))
  show "hist_ok d"
    unfolding hist_ok_def u using assms(1-3,5,6) z unfolding set_map by blast
qed

lemma ref_entry_lockset: "ref_entry ns s at e = Some e' \<Longrightarrow> lockset e' = lockset e"
  by (auto simp: ref_entry_def split: if_splits)

lemma fill_entry_lockset [simp]: "lockset (fill_entry cl at s e) = cl"
  by (simp add: fill_entry_def)

lemma map_lockset_update:
  "j < length es \<Longrightarrow> lockset e = lockset (es ! j) \<Longrightarrow> map lockset (es[j := e]) = map lockset es"
  by (rule nth_equalityI) (auto simp: nth_list_update)

lemma update_history_cached:
  assumes run: "running g c t k s" and ok: "\<And>e. e \<in> set (used d) \<Longrightarrow> entry_ok g e" and s: "is_step g s"
    and tb: "wf_core (cached g tb)" and h: "hist_ok d" and cl: "cl \<noteq> 0"
    and f: "f_entries d = us @ replicate n zero_entry" "length us + n = NUM_FIXED_ENTRIES"
    and es: "es = (case access_list d of None \<Rightarrow> [] | Some es \<Rightarrow> es)" and n: "access_list d \<noteq> None \<longrightarrow> n = 0"
    and u: "used d = us @ es"
    and fi: "fi = (case find_ls cl us of Some j \<Rightarrow> Some j | None \<Rightarrow> if 0 < n then Some (length us) else None)"
  shows "case ref_entries (tgraph_nodes g) s at cl (used d) of
      None \<Rightarrow> update_history (cached g tb) k t at s cl fi (find_ls cl es) d = None
    | Some es' \<Rightarrow> \<exists>tb' d'. wf_core (cached g tb') \<and> hist_ok d' \<and> used d' = es' \<and>
        update_history (cached g tb) k t at s cl fi (find_ls cl es) d = Some (cached g tb', d')"
proof -
  have di: "distinct (map lockset (us @ es))" "0 \<notin> set (map lockset (us @ es))"
    using h u by (auto simp: hist_ok_def)
  show ?thesis
  proof (cases "find_ls cl us")
    case (Some j)
    note j = find_ls_Some [OF Some]
    have e: "f_entries d ! j = us ! j" "us ! j \<in> set (used d)" "lockset (us ! j) \<noteq> 0"
      using j f u cl by (auto simp: nth_append)
    have fn: "find_ls cl (used d) = Some j" "used d ! j = us ! j" "fi = Some j"
      using Some j by (simp_all add: u fi find_ls_append nth_append)
    note U = update_entry_cached [OF run ok [OF e(2)] s tb, of at]
    show ?thesis
    proof (cases "ref_entry (tgraph_nodes g) s at (us ! j)")
      case None
      then show ?thesis using U fn e by (simp add: ref_entries_def update_history_def Let_def)
    next
      case (Some e')
      then obtain tb' where tb': "wf_core (cached g tb')"
        "update_entry (cached g tb) k t at s (us ! j) = Some (cached g tb', e')" using U by auto
      let ?d = "d\<lparr>f_entries := (f_entries d)[j := e']\<rparr>"
      have ls: "lockset e' = lockset (us ! j)" using ref_entry_lockset [OF Some] .
      have m: "map lockset (us[j := e']) = map lockset us" using map_lockset_update ls j by blast
      have "hist_ok ?d \<and> used ?d = us[j := e'] @ es"
        by (rule hist_okI [where n = n]) (use f n es di m j in \<open>simp_all add: list_update_append\<close>)
      then show ?thesis
        using tb' Some fn e j by (auto simp: ref_entries_def update_history_def Let_def u list_update_append)
    qed
  next
    case nf: None
    show ?thesis
    proof (cases "0 < n")
      case True
      then have al: "access_list d = None" "es = []" using n es by auto
      have fi': "fi = Some (length us)" using nf True by (simp add: fi)
      obtain n' where n': "n = Suc n'" using True by (cases n) auto
      have e: "f_entries d ! length us = zero_entry" using f n' by (simp add: nth_append)
      let ?e = "fill_entry cl at s zero_entry"
      let ?d = "d\<lparr>f_entries := (f_entries d)[length us := ?e]\<rparr>"
      have "cl \<notin> lockset ` set us" using nf by (simp add: find_ls_None)
      then have "hist_ok ?d \<and> used ?d = (us @ [?e]) @ []"
        by (intro hist_okI [where n = n']) (use f n' al di cl in \<open>simp_all add: list_update_append\<close>)
      moreover have "ref_entries (tgraph_nodes g) s at cl (used d) = Some (us @ [?e])"
        using nf f(2) n' al by (simp add: ref_entries_def u)
      ultimately show ?thesis
        using tb e fi' by (auto simp: update_history_def Let_def zero_entry_def)
    next
      case False
      then have fi': "fi = None" "n = 0" "length us = 3" using nf f(2) by (simp_all add: fi NUM_FIXED_ENTRIES_def)
      show ?thesis
      proof (cases "find_ls cl es")
        case None
        let ?e = "fill_entry cl at s uninit_entry"
        let ?d = "d\<lparr>access_list := Some (es @ [?e])\<rparr>"
        have "cl \<notin> lockset ` set us" "cl \<notin> lockset ` set es" using nf None by (simp_all add: find_ls_None)
        then have "hist_ok ?d \<and> used ?d = us @ es @ [?e]"
          by (intro hist_okI [where n = 0]) (use f fi' di cl in simp_all)
        moreover have "ref_entries (tgraph_nodes g) s at cl (used d) = Some (us @ es @ [?e])"
          using nf None fi'(3) by (simp add: ref_entries_def u find_ls_append NUM_FIXED_ENTRIES_def)
        ultimately show ?thesis
          using tb None fi' es by (auto simp: update_history_def Let_def)
      next
        case (Some j)
        note j = find_ls_Some [OF Some]
        have al: "access_list d = Some es" using es j by (cases "access_list d") auto
        have e: "es ! j \<in> set (used d)" using j u by simp
        have fn: "find_ls cl (used d) = Some (length us + j)" "used d ! (length us + j) = es ! j"
          using nf Some by (simp_all add: u find_ls_append)
        note U = update_entry_cached [OF run ok [OF e] s tb, of at]
        show ?thesis
        proof (cases "ref_entry (tgraph_nodes g) s at (es ! j)")
          case None
          then show ?thesis
            using U fn Some fi' al by (simp add: ref_entries_def update_history_def Let_def)
        next
          case (Some e')
          then obtain tb' where tb': "wf_core (cached g tb')"
            "update_entry (cached g tb) k t at s (es ! j) = Some (cached g tb', e')" using U by auto
          let ?d = "d\<lparr>access_list := Some (es[j := e'])\<rparr>"
          have ls: "lockset e' = lockset (es ! j)" using ref_entry_lockset [OF Some] .
          have m: "map lockset (es[j := e']) = map lockset es" using map_lockset_update ls j by blast
          have "hist_ok ?d \<and> used ?d = us @ es[j := e']"
            by (rule hist_okI [where n = 0]) (use f fi' di m in simp_all)
          then show ?thesis
            using tb' Some fn fi' al \<open>find_ls cl es = Some j\<close>
            by (auto simp: ref_entries_def update_history_def Let_def u list_update_append)
        qed
      qed
    qed
  qed
qed

section \<open>One access\<close>

lemma process_access_cached:
  assumes run: "running g c t k s" and ok: "\<And>e. e \<in> set (used d) \<Longrightarrow> entry_ok g e" and s: "is_step g s"
    and h: "hist_ok d" and cl: "cl \<noteq> 0" and new: "viol a = None"
  shows "case ref_check (tgraph_nodes g) s (conflict_ptrs at cl (used d)) of
      None \<Rightarrow> process_access (a, at, s, k, t) cl g viol d = None
    | Some (Some r) \<Rightarrow> \<exists>tb. wf_core (cached g tb) \<and>
        process_access (a, at, s, k, t) cl g viol d = Some (cached g tb, record_race viol a s at (Some r), d)
    | Some None \<Rightarrow> (case ref_entries (tgraph_nodes g) s at cl (used d) of
        None \<Rightarrow> process_access (a, at, s, k, t) cl g viol d = None
      | Some es \<Rightarrow> \<exists>tb d'. wf_core (cached g tb) \<and> hist_ok d' \<and> used d' = es \<and>
          process_access (a, at, s, k, t) cl g viol d = Some (cached g tb, viol, d'))"
proof -
  obtain us n es where d: "f_entries d = us @ replicate n zero_entry" "length us + n = NUM_FIXED_ENTRIES"
    "0 \<notin> lockset ` set us" "es = (case access_list d of None \<Rightarrow> [] | Some es \<Rightarrow> es)" "es \<noteq> [] \<longrightarrow> n = 0"
    "access_list d \<noteq> None \<longrightarrow> n = 0" "used d = us @ es" "distinct (map lockset (us @ es))" "0 \<notin> lockset ` set (us @ es)"
    by (rule hist_okE [OF h])
  let ?acc = "(a, at, s, k, t)" and ?ns = "tgraph_nodes g"
  have ok': "\<And>e. e \<in> set us \<Longrightarrow> entry_ok g e" "\<And>e. e \<in> set es \<Longrightarrow> entry_ok g e" using ok d(7) by auto
  have di: "distinct (map lockset us)" "distinct (map lockset es)" using d(8) by auto
  have v0: "record_race viol a s at None = viol" by (simp add: record_race_def)
  define fi where "fi = (case find_ls cl us of Some j \<Rightarrow> Some j | None \<Rightarrow> if 0 < n then Some (length us) else None)"
  note F = scan_list_cached [where viol = viol and a = a and at = at and cl = cl and i = 0 and ins = None,
      OF run ok'(1) running_core [OF run] new di(1)]
  have g0: "cached g (lcaHashTable g) = g" by simp
  show ?thesis
  proof (cases "ref_check ?ns s (conflict_ptrs at cl us)")
    case None
    then show ?thesis
      using F by (simp add: process_access_def d(1,7) scan_fixed_list [OF d(3)] conflict_ptrs_append ref_check_append)
  next
    case (Some r)
    then obtain tb1 ins' where 1: "wf_core (cached g tb1)" "r = None \<longrightarrow> ins' = last_index cl 0 None us"
      "scan_list ?acc cl g viol 0 None us = Some (cached g tb1, record_race viol a s at r, r \<noteq> None, ins')"
      using F by auto
    show ?thesis
    proof (cases r)
      case r: (Some x)
      then show ?thesis
        using Some 1 by (auto simp: process_access_def d(1,7) scan_fixed_list [OF d(3)] conflict_ptrs_append ref_check_append)
    next
      case None
      have fixed: "scan_fixed ?acc cl g viol 0 None (f_entries d) = Some (cached g tb1, viol, False, fi)"
        using 1 None v0
        by (auto simp: d(1) scan_fixed_list [OF d(3)] fi_def last_index_def split: option.splits)
      have rc: "ref_check ?ns s (conflict_ptrs at cl (used d)) = ref_check ?ns s (conflict_ptrs at cl es)"
        using Some None by (simp add: d(7) conflict_ptrs_append ref_check_append)
      define sl where "sl = (case access_list d of None \<Rightarrow> Some (cached g tb1, viol, False, None)
        | Some es \<Rightarrow> scan_list ?acc cl (cached g tb1) viol 0 None es)"
      have sl: "sl = scan_list ?acc cl (cached g tb1) viol 0 None es"
        by (auto simp: sl_def d(4) split: option.splits)
      have pa: "process_access ?acc cl g viol d =
          do { (g, viol, race, ii) \<leftarrow> sl;
               if race then Some (g, viol, d)
               else do { (g, d) \<leftarrow> update_history g k t at s cl fi ii d; Some (g, viol, d) } }"
        by (simp add: process_access_def fixed sl_def [symmetric] cong: if_cong)
      note L = scan_list_cached [where viol = viol and a = a and at = at and cl = cl and i = 0 and ins = None,
          OF run ok'(2) 1(1) new di(2)]
      show ?thesis
      proof (cases "ref_check ?ns s (conflict_ptrs at cl es)")
        case None
        then show ?thesis using L rc pa sl by simp
      next
        case (Some r2)
        then obtain tb2 ii where 2: "wf_core (cached g tb2)" "r2 = None \<longrightarrow> ii = last_index cl 0 None es"
          "sl = Some (cached g tb2, record_race viol a s at r2, r2 \<noteq> None, ii)"
          using L sl by auto
        show ?thesis
        proof (cases r2)
          case r2: (Some x)
          then show ?thesis using Some 2 rc pa by auto
        next
          case None
          have ii: "ii = find_ls cl es" using 2(2) None by (simp add: last_index_def split: option.splits)
          have pa': "process_access ?acc cl g viol d =
              do { (g, d) \<leftarrow> update_history (cached g tb2) k t at s cl fi (find_ls cl es) d; Some (g, viol, d) }"
            using pa 2(3) None v0 ii by simp
          note U = update_history_cached [OF run ok s 2(1) h cl d(1,2,4,6,7) fi_def, of at]
          show ?thesis
          proof (cases "ref_entries ?ns s at cl (used d)")
            case None
            then show ?thesis using U pa' Some \<open>r2 = None\<close> rc by simp
          next
            case (Some es')
            then obtain tb3 d' where "wf_core (cached g tb3)" "hist_ok d'" "used d' = es'"
              "update_history (cached g tb2) k t at s cl fi (find_ls cl es) d = Some (cached g tb3, d')"
              using U by auto
            then show ?thesis using pa' Some \<open>ref_check ?ns s (conflict_ptrs at cl es) = Some r2\<close> \<open>r2 = None\<close> rc
              by auto
          qed
        qed
      qed
    qed
  qed
qed

end
