(* ===== verification/PtCover.thy ===== *)
theory PtCover
  imports PtSound
begin

text \<open>
  Why two kept steps per kind and lock set are enough.  A history is complete for the
  accesses made so far when every lock set has its entry and the two kept steps of an
  entry cover the accesses made with its lock set; the reference rule keeps it so, and
  finds a race whenever the current access races with any earlier one.
\<close>

section \<open>Accesses and entries\<close>

type_synonym pt_access = "nat \<times> ADDRINT \<times> AccessType \<times> 64 word"

text \<open>The steps that accessed the cell of \<open>a\<close> in kind \<open>k\<close> with lock set \<open>L\<close>.\<close>

definition steps_of :: "pt_access list \<Rightarrow> ADDRINT \<Rightarrow> AccessType \<Rightarrow> 64 word \<Rightarrow> nat set" where
  "steps_of h a k L = {n. \<exists>b. same_cell a b \<and> (n, b, k, L) \<in> set h}"

definition ptr_set :: "node_ptr \<Rightarrow> node_ptr \<Rightarrow> nat set" where
  "ptr_set p q = {n. p = Node n \<or> q = Node n}"

definition entries_ok :: "pt_access list \<Rightarrow> ADDRINT \<Rightarrow> Address_data list \<Rightarrow> bool" where
  "entries_ok h a es \<longleftrightarrow>
     (\<forall>e \<in> set es.
        (\<exists>k. steps_of h a k (lockset e) \<noteq> {}) \<and>
        ptr_set (w1_task e) (w2_task e) \<subseteq> steps_of h a WRITE (lockset e) \<and>
        ptr_set (r1_task e) (r2_task e) \<subseteq> steps_of h a READ (lockset e))"

definition pair_ok :: "AFTaskGraph \<Rightarrow> nat set \<Rightarrow> node_ptr \<Rightarrow> node_ptr \<Rightarrow> bool" where
  "pair_ok g A p q \<longleftrightarrow>
     p \<noteq> Uninit \<and> q \<noteq> Uninit \<and> (p = Null \<longrightarrow> q = Null) \<and>
     (\<forall>n m. p = Node n \<and> q = Node m \<longrightarrow> mhp (tgraph_nodes g) n m) \<and> covers g A (ptr_set p q)"

definition race_free :: "AFTaskGraph \<Rightarrow> pt_access list \<Rightarrow> ADDRINT \<Rightarrow> bool" where
  "race_free g h a \<longleftrightarrow>
     (\<forall>n k L n' k' L'. n \<in> steps_of h a k L \<and> n' \<in> steps_of h a k' L' \<and> (k = WRITE \<or> k' = WRITE) \<and>
        disjoint_locks L L' \<longrightarrow> \<not> mhp (tgraph_nodes g) n n')"

definition complete :: "AFTaskGraph \<Rightarrow> pt_access list \<Rightarrow> ADDRINT \<Rightarrow> Address_data list \<Rightarrow> bool" where
  "complete g h a es \<longleftrightarrow>
     (\<forall>k L. steps_of h a k L \<noteq> {} \<longrightarrow> L \<in> lockset ` set es) \<and>
     (\<forall>e \<in> set es. pair_ok g (steps_of h a WRITE (lockset e)) (w1_task e) (w2_task e) \<and>
        pair_ok g (steps_of h a READ (lockset e)) (r1_task e) (r2_task e)) \<and>
     race_free g h a"

lemma steps_of_append:
  "steps_of (h @ [(n, b, k, L)]) a k' L' =
     (if same_cell a b \<and> k' = k \<and> L' = L then insert n (steps_of h a k' L') else steps_of h a k' L')"
  by (auto simp: steps_of_def)

lemma steps_of_cell: "same_cell a b \<Longrightarrow> steps_of h a = steps_of h b"
  by (auto simp: steps_of_def fun_eq_iff intro: same_cell_trans same_cell_sym)

lemma steps_of_hist: "n \<in> steps_of h a k L \<Longrightarrow> n \<in> fst ` set h"
  by (force simp: steps_of_def)

lemma ptr_set_simps [simp]:
  "ptr_set Null Null = {}" "ptr_set (Node n) Null = {n}" "ptr_set (Node n) (Node m) = {n, m}"
  by (auto simp: ptr_set_def)

lemma disjoint_locks_sym: "disjoint_locks L L' \<longleftrightarrow> disjoint_locks L' L"
  by (simp add: disjoint_locks_def and.commute)

section \<open>The kept pair\<close>

lemma mhp_step_sym:
  "wf_core g \<Longrightarrow> allocated g a \<Longrightarrow> allocated g b \<Longrightarrow> mhp (tgraph_nodes g) a b \<longleftrightarrow> mhp (tgraph_nodes g) b a"
  using mhp_sym [OF wf_core_tree, of g a b] by (simp add: allocated_def)

lemma ref_lca_depth:
  assumes wf: "wf_core g" and a: "allocated g a" and b: "allocated g b" and m: "mhp (tgraph_nodes g) a b"
  shows "depth (node g (ref_lca (tgraph_nodes g) a b)) = lcl (pos g a) (pos g b)"
proof -
  note tree = wf_core_tree [OF wf]
  have r: "0 < a" "a \<le> last_allocated_node g" "0 < b" "b \<le> last_allocated_node g"
    using a b by (auto simp: allocated_def)
  obtain x y where br: "branches (tgraph_nodes g) a b x y" using mhp_imp_branches [OF m] by blast
  note l = branches_lca [OF tree r br]
  show ?thesis
    using lca_words [OF tree r br l] ref_lca_correct [OF tree r(1,2) l] by simp
qed

lemma pair_ok_update:
  assumes a: "acting g q0 s" and p: "pair_ok g A p q" and st: "\<And>n. n \<in> ptr_set p q \<Longrightarrow> is_step g n"
    and sd: "settled g (ptr_set p q)" and r: "ref_pair (tgraph_nodes g) s p q = Some (p', q')"
  shows "pair_ok g (insert s A) p' q'"
proof -
  let ?ns = "tgraph_nodes g"
  note wf = act_core [OF a] and sa = actingD(11) [OF a]
  have c: "covers g A (ptr_set p q)" and u: "p \<noteq> Uninit" "q \<noteq> Uninit" and pn: "p = Null \<longrightarrow> q = Null"
    using p by (auto simp: pair_ok_def)
  have al: "allocated g n" if "n \<in> ptr_set p q" for n using st [OF that] by (simp add: is_step_def)
  consider (none) "\<not> ptr_mhp ?ns s p" "\<not> ptr_mhp ?ns s q"
    | (one) n where "p = Node n" "q = Null" "mhp ?ns s n"
    | (two) n m where "p = Node n" "q = Node m" "mhp ?ns s n \<or> mhp ?ns s m"
    using u pn by (cases p; cases q) (auto simp: ptr_mhp_def)
  then show ?thesis
  proof cases
    case none
    then have e: "p' = Node s" "q' = Null" using r u by (simp_all add: ref_pair_def)
    have "\<not> mhp ?ns s n" if "n \<in> ptr_set p q" for n
      using none that by (auto simp: ptr_set_def ptr_mhp_def)
    then show ?thesis using covers_last [OF a c st sd] by (simp add: pair_ok_def e)
  next
    case one
    then have e: "p' = Node n" "q' = Node s" using r by (simp_all add: ref_pair_def ptr_mhp_def)
    have "mhp ?ns n s" using one(3) mhp_step_sym [OF wf sa al [of n]] one by simp
    moreover have "covers g (insert s A) {n, s}"
      using covers_add [OF c, of s] one by (simp add: insert_commute)
    ultimately show ?thesis by (simp add: pair_ok_def e)
  next
    case two
    have nm: "is_step g n" "is_step g m" "mhp ?ns n m" "settled g {n, m}" "covers g A {n, m}"
      using two p st sd c by (auto simp: pair_ok_def)
    have na: "allocated g n" "allocated g m" using nm by (simp_all add: is_step_def)
    have d: "depth (node g (ref_lca ?ns n m)) = lcl (pos g n) (pos g m)"
      using ref_lca_depth [OF wf na nm(3)] .
    show ?thesis
    proof (cases "mhp ?ns s n \<and> mhp ?ns s m")
      case True
      then have "mhp ?ns n s" using mhp_step_sym [OF wf sa na(1)] by simp
      then have d': "depth (node g (ref_lca ?ns n s)) = lcl (pos g n) (pos g s)"
        using ref_lca_depth [OF wf na(1) sa] by blast
      show ?thesis
      proof (cases "lcl (pos g n) (pos g s) < lcl (pos g n) (pos g m)")
        case less: True
        then have e: "p' = Node s" "q' = Node m"
          using r two True d d' by (simp_all add: ref_pair_def ptr_mhp_def ptr_node_def)
        show ?thesis
          using covers_wider [OF a nm(5,1,2) _ less] True by (simp add: pair_ok_def e)
      next
        case False
        then have e: "p' = Node n" "q' = Node m"
          using r two True d d' by (simp_all add: ref_pair_def ptr_mhp_def ptr_node_def)
        show ?thesis
          using covers_inner [OF a nm(5,1,2,4,3)] False nm(3) by (simp add: pair_ok_def e)
      qed
    next
      case False
      then have e: "p' = Node n" "q' = Node m"
        using r two by (auto simp: ref_pair_def ptr_mhp_def split: if_splits)
      show ?thesis
        using covers_inner [OF a nm(5,1,2,4,3)] False two(3) nm(3) by (auto simp: pair_ok_def e)
    qed
  qed
qed

lemma ref_pair_sub:
  "ref_pair ns s p q = Some (p', q') \<Longrightarrow> ptr_set p' q' \<subseteq> insert s (ptr_set p q)"
  by (auto simp: ref_pair_def ptr_set_def split: if_splits)

section \<open>The entries after an access\<close>

lemma ref_check_none:
  "ref_check ns s ps = Some None \<Longrightarrow> (p, k) \<in> set ps \<Longrightarrow> p \<noteq> Uninit \<and> \<not> ptr_mhp ns s p"
  by (induction ns s ps rule: ref_check.induct) (auto split: if_splits)

lemma ref_check_some:
  "ref_check ns s ps = Some (Some (n, k)) \<Longrightarrow> \<exists>p. (p, k) \<in> set ps \<and> p = Node n \<and> mhp ns s n"
  by (induction ns s ps rule: ref_check.induct)
    (auto simp: ptr_mhp_def ptr_node_def split: if_splits node_ptr.splits)

lemma ref_check_total:
  "(\<And>p k. (p, k) \<in> set ps \<Longrightarrow> p \<noteq> Uninit) \<Longrightarrow> \<exists>r. ref_check ns s ps = Some r"
proof (induction ps)
  case (Cons pk ps)
  obtain p k where pk: "pk = (p, k)" by (cases pk)
  have "p \<noteq> Uninit" using Cons.prems [of p k] pk by simp
  moreover have "\<exists>r. ref_check ns s ps = Some r" by (rule Cons.IH) (use Cons.prems in auto)
  ultimately show ?case using pk by auto
qed simp

lemma ref_entries_total:
  assumes "\<And>e. e \<in> set es \<Longrightarrow>
    w1_task e \<noteq> Uninit \<and> w2_task e \<noteq> Uninit \<and> r1_task e \<noteq> Uninit \<and> r2_task e \<noteq> Uninit"
  shows "\<exists>es'. ref_entries ns s at cl es = Some es'"
proof (cases "find_ls cl es")
  case (Some j)
  then have "es ! j \<in> set es" using find_ls_Some by (metis nth_mem)
  then show ?thesis using assms Some by (auto simp: ref_entries_def ref_entry_def ref_pair_def)
qed (simp add: ref_entries_def)

lemma conflict_entry:
  "e \<in> set es \<Longrightarrow> disjoint_locks cl (lockset e) \<Longrightarrow> set (entry_ptrs at e) \<subseteq> set (conflict_ptrs at cl es)"
  by (auto simp: conflict_ptrs_def)

lemma conflict_ptrsE:
  assumes "(p, k) \<in> set (conflict_ptrs at cl es)"
  obtains e where "e \<in> set es" "disjoint_locks cl (lockset e)" "(p, k) \<in> set (entry_ptrs at e)"
  using assms by (auto simp: conflict_ptrs_def)

text \<open>What the new list holds: the entry of \<open>cl\<close> changed or added, the others as they were.\<close>

lemma ref_entries_cases:
  assumes r: "ref_entries ns s at cl es = Some es'" and d: "distinct (map lockset es)"
  obtains (old) e e' where "e \<in> set es" "lockset e = cl" "ref_entry ns s at e = Some e'"
      "set es' = insert e' {x \<in> set es. lockset x \<noteq> cl}" "length es' = length es"
      "lockset ` set es' = lockset ` set es"
  | (new) "cl \<notin> lockset ` set es" "es' = es @ [fill_entry cl at s
       (if length es < NUM_FIXED_ENTRIES then zero_entry else uninit_entry)]"
proof (cases "find_ls cl es")
  case None
  then have "cl \<notin> lockset ` set es" by (simp add: find_ls_None)
  then show thesis by (rule new) (use r None in \<open>simp add: ref_entries_def\<close>)
next
  case (Some j)
  note j = find_ls_Some [OF Some]
  from r Some obtain e' where e': "ref_entry ns s at (es ! j) = Some e'" "es' = es[j := e']"
    by (auto simp: ref_entries_def)
  have di: "distinct es" using d by (simp add: distinct_map)
  have ls: "lockset e' = cl" using ref_entry_lockset [OF e'(1)] j by simp
  have others: "{x \<in> set es. lockset x \<noteq> cl} = set es - {es ! j}"
    using j d by (auto simp: distinct_map inj_on_def)
  have "set es' = insert e' (set es - {es ! j})"
    using set_update_distinct [OF di, of j e'] j e'(2) by simp
  moreover have "map lockset es' = map lockset es"
    using map_lockset_update [of j es e'] j ls e'(2) by simp
  then have "lockset ` set es' = lockset ` set es" by (metis set_map)
  ultimately show thesis using old [of "es ! j" e'] j e' others by simp
qed

lemma ref_entry_ptrs:
  assumes "ref_entry ns s at e = Some e'"
  shows "at = WRITE \<Longrightarrow> ref_pair ns s (w1_task e) (w2_task e) = Some (w1_task e', w2_task e') \<and>
      r1_task e' = r1_task e \<and> r2_task e' = r2_task e"
    "at = READ \<Longrightarrow> ref_pair ns s (r1_task e) (r2_task e) = Some (r1_task e', r2_task e') \<and>
      w1_task e' = w1_task e \<and> w2_task e' = w2_task e"
  using assms by (auto simp: ref_entry_def)

lemma fill_entry_ptrs:
  assumes "e = (if b then zero_entry else uninit_entry)"
  shows "ptr_set (w1_task (fill_entry cl at s e)) (w2_task (fill_entry cl at s e)) = (if at = WRITE then {s} else {})"
    "ptr_set (r1_task (fill_entry cl at s e)) (r2_task (fill_entry cl at s e)) = (if at = READ then {s} else {})"
  using assms by (cases at; auto simp: fill_entry_def ptr_set_def zero_entry_def uninit_entry_def)+

lemma entries_ok_mono: "entries_ok h a es \<Longrightarrow> set h \<subseteq> set h' \<Longrightarrow> entries_ok h' a es"
  unfolding entries_ok_def steps_of_def subset_eq by blast

lemma entries_ok_ref:
  assumes ok: "entries_ok h a es" and r: "ref_entries ns s at cl es = Some es'" and d: "distinct (map lockset es)"
    and sa: "same_cell a b"
  shows "entries_ok (h @ [(s, b, at, cl)]) a es'"
proof -
  let ?h = "h @ [(s, b, at, cl)]"
  have ok': "entries_ok ?h a es" by (rule entries_ok_mono [OF ok]) auto
  have s: "s \<in> steps_of ?h a at cl" using sa by (auto simp: steps_of_def)
  from r d show ?thesis
  proof (cases rule: ref_entries_cases)
    case (old e e')
    have ls: "lockset e' = cl" using ref_entry_lockset [OF old(3)] old(2) by simp
    have sub: "ptr_set (w1_task e) (w2_task e) \<subseteq> steps_of ?h a WRITE cl"
      "ptr_set (r1_task e) (r2_task e) \<subseteq> steps_of ?h a READ cl"
      using ok' old(1,2) unfolding entries_ok_def by auto
    have "ptr_set (w1_task e') (w2_task e') \<subseteq> steps_of ?h a WRITE cl \<and>
        ptr_set (r1_task e') (r2_task e') \<subseteq> steps_of ?h a READ cl"
    proof (cases at)
      case WRITE
      then show ?thesis
        using sub s ref_entry_ptrs(1) [OF old(3) WRITE] ref_pair_sub [of ns s "w1_task e" "w2_task e"] by fastforce
    next
      case READ
      then show ?thesis
        using sub s ref_entry_ptrs(2) [OF old(3) READ] ref_pair_sub [of ns s "r1_task e" "r2_task e"] by fastforce
    qed
    then show ?thesis using ok' s ls old(4) unfolding entries_ok_def by auto
  next
    case new
    then show ?thesis
      using ok' s fill_entry_ptrs [OF refl] by (cases at) (auto simp: entries_ok_def)
  qed
qed

lemma complete_other:
  assumes "\<not> same_cell a b"
  shows "complete g (h @ [(s, b, at, cl)]) a es = complete g h a es"
proof -
  have "steps_of (h @ [(s, b, at, cl)]) a = steps_of h a" using assms by (auto simp: steps_of_append fun_eq_iff)
  then show ?thesis by (simp add: complete_def race_free_def)
qed

text \<open>No race found means that there is none.\<close>

lemma race_free_ref:
  assumes a: "acting g q0 s" and c: "complete g h a es" and h: "\<And>n. n \<in> fst ` set h \<Longrightarrow> is_step g n"
    and ok: "entries_ok h a es" and rc: "ref_check (tgraph_nodes g) s (conflict_ptrs at cl es) = Some None"
    and sa: "same_cell a b"
  shows "race_free g (h @ [(s, b, at, cl)]) a"
proof -
  let ?ns = "tgraph_nodes g"
  note wf = act_core [OF a] and al = actingD(11) [OF a]
  have st: "steps_of h a k L \<subseteq> Collect (allocated g)" for k L
    using h steps_of_hist by (fastforce simp: is_step_def)
  have new: "\<not> mhp ?ns s n"
    if n: "n \<in> steps_of h a k L" and kk: "at = WRITE \<or> k = WRITE" and dl: "disjoint_locks cl L" for n k L
  proof -
    obtain e where e: "e \<in> set es" "lockset e = L" using c n unfolding complete_def by blast
    note ce = conflict_entry [OF e(1), of cl at]
    have ptr: "\<not> ptr_mhp ?ns s p" if "(p, k') \<in> set (entry_ptrs at e)" for p k'
      using ref_check_none [OF rc, of p k'] ce dl e(2) that by blast
    have po: "pair_ok g (steps_of h a WRITE L) (w1_task e) (w2_task e)"
      "pair_ok g (steps_of h a READ L) (r1_task e) (r2_task e)"
      using c e unfolding complete_def by auto
    have sub: "ptr_set (w1_task e) (w2_task e) \<subseteq> steps_of h a WRITE L"
      "ptr_set (r1_task e) (r2_task e) \<subseteq> steps_of h a READ L"
      using ok e unfolding entries_ok_def by auto
    show ?thesis
    proof (cases k)
      case WRITE
      have "\<not> mhp ?ns s r" if "r \<in> ptr_set (w1_task e) (w2_task e)" for r
        using that ptr [of "w1_task e" WRITE] ptr [of "w2_task e" WRITE]
        by (auto simp: ptr_set_def entry_ptrs_def ptr_mhp_def)
      then show ?thesis
        using covers_act [OF a _ _ _ n] po(1) sub(1) st WRITE unfolding pair_ok_def by blast
    next
      case READ
      then have "at = WRITE" using kk by simp
      then have "\<not> mhp ?ns s r" if "r \<in> ptr_set (r1_task e) (r2_task e)" for r
        using that ptr [of "r1_task e" READ] ptr [of "r2_task e" READ]
        by (auto simp: ptr_set_def entry_ptrs_def ptr_mhp_def)
      then show ?thesis
        using covers_act [OF a _ _ _ n] po(2) sub(2) st READ unfolding pair_ok_def by blast
    qed
  qed
  have sym: "\<not> mhp ?ns n s" if "n \<in> steps_of h a k L" "k = WRITE \<or> at = WRITE" "disjoint_locks L cl" for n k L
    using new [OF that(1)] that mhp_step_sym [OF wf al, of n] st disjoint_locks_sym by blast
  have irr: "\<not> mhp ?ns s s"
    using mhp_irrefl [OF wf_core_tree [OF wf]] al by (simp add: allocated_def)
  show ?thesis
    unfolding race_free_def
  proof (intro allI impI, elim conjE)
    fix n k L n' k' L'
    assume n: "n \<in> steps_of (h @ [(s, b, at, cl)]) a k L" and n': "n' \<in> steps_of (h @ [(s, b, at, cl)]) a k' L'"
      and kk: "k = WRITE \<or> k' = WRITE" and dl: "disjoint_locks L L'"
    have "n \<in> steps_of h a k L \<or> n = s \<and> k = at \<and> L = cl" "n' \<in> steps_of h a k' L' \<or> n' = s \<and> k' = at \<and> L' = cl"
      using n n' by (auto simp: steps_of_append split: if_splits)
    then show "\<not> mhp ?ns n n'"
      using c new sym irr kk dl unfolding complete_def race_free_def by blast
  qed
qed

lemma complete_ref:
  assumes a: "acting g q0 s" and c: "complete g h a es" and h: "\<And>n. n \<in> fst ` set h \<Longrightarrow> is_step g n"
    and sd: "settled g (fst ` set h)" and ok: "entries_ok h a es"
    and rc: "ref_check (tgraph_nodes g) s (conflict_ptrs at cl es) = Some None"
    and re: "ref_entries (tgraph_nodes g) s at cl es = Some es'" and d: "distinct (map lockset es)"
    and len: "length es' \<le> NUM_FIXED_ENTRIES" and sa: "same_cell a b"
  shows "complete g (h @ [(s, b, at, cl)]) a es'"
proof -
  let ?h = "h @ [(s, b, at, cl)]"
  note sof = steps_of_append [of h s b at cl a]
  have pe: "pair_ok g (steps_of h a WRITE (lockset e)) (w1_task e) (w2_task e) \<and>
      pair_ok g (steps_of h a READ (lockset e)) (r1_task e) (r2_task e)" if "e \<in> set es" for e
    using c that unfolding complete_def by blast
  have stl: "settled g (ptr_set (w1_task e) (w2_task e)) \<and> settled g (ptr_set (r1_task e) (r2_task e)) \<and>
      (\<forall>n \<in> ptr_set (w1_task e) (w2_task e) \<union> ptr_set (r1_task e) (r2_task e). is_step g n)" if "e \<in> set es" for e
  proof -
    have "ptr_set (w1_task e) (w2_task e) \<union> ptr_set (r1_task e) (r2_task e) \<subseteq> fst ` set h"
      using ok that steps_of_hist unfolding entries_ok_def by blast
    then show ?thesis using h sd unfolding settled_def by blast
  qed
  have keep: "pair_ok g (steps_of ?h a WRITE (lockset e)) (w1_task e) (w2_task e) \<and>
      pair_ok g (steps_of ?h a READ (lockset e)) (r1_task e) (r2_task e)" if "e \<in> set es" "lockset e \<noteq> cl" for e
    using pe [OF that(1)] that(2) by (simp add: sof)
  have ls: "L \<in> lockset ` set es" if "steps_of h a k L \<noteq> {}" for k L
    using c that unfolding complete_def by blast
  have rf: "race_free g ?h a" by (rule race_free_ref [OF a c h ok rc sa])
  from re d show ?thesis
  proof (cases rule: ref_entries_cases)
    case (old e e')
    have lse: "lockset e' = cl" using ref_entry_lockset [OF old(3)] old(2) by simp
    note p = pe [OF old(1), unfolded old(2)] and st = stl [OF old(1)]
    have "pair_ok g (steps_of ?h a WRITE cl) (w1_task e') (w2_task e') \<and>
      pair_ok g (steps_of ?h a READ cl) (r1_task e') (r2_task e')"
    proof (cases at)
      case WRITE
      note r = ref_entry_ptrs(1) [OF old(3) WRITE]
      have "pair_ok g (insert s (steps_of h a WRITE cl)) (w1_task e') (w2_task e')"
        by (rule pair_ok_update [OF a]) (use p st r in auto)
      then show ?thesis using p r WRITE sa by (simp add: steps_of_append)
    next
      case READ
      note r = ref_entry_ptrs(2) [OF old(3) READ]
      have "pair_ok g (insert s (steps_of h a READ cl)) (r1_task e') (r2_task e')"
        by (rule pair_ok_update [OF a]) (use p st r in auto)
      then show ?thesis using p r READ sa by (simp add: steps_of_append)
    qed
    then have "\<forall>x \<in> set es'. pair_ok g (steps_of ?h a WRITE (lockset x)) (w1_task x) (w2_task x) \<and>
        pair_ok g (steps_of ?h a READ (lockset x)) (r1_task x) (r2_task x)"
      using old(4) lse keep by auto
    moreover have "L \<in> lockset ` set es'" if "steps_of ?h a k L \<noteq> {}" for k L
      using that ls [of k L] old(1,2,6) by (auto simp: sof split: if_splits)
    ultimately show ?thesis using rf by (simp add: complete_def)
  next
    case new
    have lt: "length es < NUM_FIXED_ENTRIES" using len new(2) by simp
    then have es': "es' = es @ [fill_entry cl at s zero_entry]" using new(2) by simp
    have no: "steps_of h a k cl = {}" for k using ls new(1) by blast
    let ?e = "fill_entry cl at s zero_entry"
    have "pair_ok g (steps_of ?h a WRITE cl) (w1_task ?e) (w2_task ?e) \<and>
        pair_ok g (steps_of ?h a READ cl) (r1_task ?e) (r2_task ?e)"
      using sa no by (cases at) (auto simp: steps_of_append fill_entry_def zero_entry_def pair_ok_def covers_def)
    moreover have "lockset e \<noteq> cl" if "e \<in> set es" for e using new(1) that by auto
    ultimately have "\<forall>x \<in> set es'. pair_ok g (steps_of ?h a WRITE (lockset x)) (w1_task x) (w2_task x) \<and>
        pair_ok g (steps_of ?h a READ (lockset x)) (r1_task x) (r2_task x)"
      using keep es' by auto
    moreover have "L \<in> lockset ` set es'" if "steps_of ?h a k L \<noteq> {}" for k L
      using that ls [of k L] es' by (auto simp: sof split: if_splits)
    ultimately show ?thesis using rf by (simp add: complete_def)
  qed
qed

end
