(* ===== verification/PtRuns.thy ===== *)
theory PtRuns
  imports PtCover
begin

text \<open>
  Runs of the PTRacer detector.  A run is traced: each access the handler examines is
  recorded with the step that made it and the lock set the detector gave it.  The
  discipline asks what the TBB calls guarantee and the code relies on: a thread acts for
  a task only when what that task has waited for is finished; waits close a scope, tasks
  are executed once they are spawned and return with at most one open scope; no task
  holds all 64 locks.
\<close>

section \<open>Traced runs\<close>

definition acts :: "AFTaskGraph \<Rightarrow> THREADID \<Rightarrow> bool" where
  "acts g t \<longleftrightarrow> (case thread_top (cur g) t of None \<Rightarrow> True | Some q \<Rightarrow> waited g q)"

text \<open>The lock set an access is checked with.\<close>

definition access_locks :: "ptracer \<Rightarrow> event \<Rightarrow> 64 word option" where
  "access_locks s e =
     (case e of
        Access t a k \<Rightarrow> map_option createLockset (thread_top (thd_lockset s) t)
      | AccessLocks t a acq rel k \<Rightarrow> do {
          ld \<leftarrow> thread_top (thd_lockset s) t;
          (ls, s') \<leftarrow> acquire_all s (createLockset ld) acq;
          (ls, s') \<leftarrow> release_all s' ls rel;
          Some ls
        }
      | _ \<Rightarrow> None)"

definition disciplined :: "ptracer \<Rightarrow> event \<Rightarrow> bool" where
  "disciplined s e \<longleftrightarrow>
     (let g = taskGraph s
      in case e of
           Spawn t \<Rightarrow> acts g t
         | SpawnRoot t \<Rightarrow> acts g t
         | WaitDone t \<Rightarrow> scope_on_top g (cur g t)
         | ExecBegin t k \<Rightarrow> temp_cur_map g k \<noteq> None
         | ExecEnd t \<Rightarrow> \<not> (scope_on_top g (cur g t) \<and> scope_on_top g (tl (cur g t)))
         | Access t a k \<Rightarrow> acts g t \<and> access_locks s e \<noteq> Some 0
         | AccessLocks t a acq rel k \<Rightarrow> acts g t \<and> access_locks s e \<noteq> Some 0
         | _ \<Rightarrow> True)"

definition accesses :: "ptracer \<Rightarrow> event \<Rightarrow> pt_access list" where
  "accesses s e =
     (let acc = (\<lambda>t a k. if exceptions s t a then []
                         else [(the (getCurTask (taskGraph s) t), a, k, the (access_locks s e))])
      in case e of
           Access t a k \<Rightarrow> acc t a k
         | AccessLocks t a acq rel k \<Rightarrow> acc t a k
         | _ \<Rightarrow> [])"

definition traced_step :: "ptracer \<times> pt_access list \<Rightarrow> event \<Rightarrow> (ptracer \<times> pt_access list) option" where
  "traced_step sh e =
     (if disciplined (fst sh) e
      then do { s' \<leftarrow> pt_step (fst sh) e; Some (s', snd sh @ accesses (fst sh) e) }
      else None)"

definition reachable :: "ptracer \<Rightarrow> pt_access list \<Rightarrow> bool" where
  "reachable s h \<longleftrightarrow>
     (\<exists>base s0 es. TD_Activate base = Some s0 \<and> run traced_step (s0, []) es = Some (s, h))"

section \<open>The invariant\<close>

definition real_race :: "AFTaskGraph \<Rightarrow> pt_access list \<Rightarrow> ADDRINT \<Rightarrow> violation \<Rightarrow> bool" where
  "real_race g h a v \<longleftrightarrow>
     (\<exists>b L L'. (task (a1 v), a, accessType (a1 v), L) \<in> set h \<and> same_cell a b \<and>
        (task (a2 v), b, accessType (a2 v), L') \<in> set h \<and> disjoint_locks L L') \<and>
     (accessType (a1 v) = WRITE \<or> accessType (a2 v) = WRITE) \<and>
     mhp (tgraph_nodes g) (task (a1 v)) (task (a2 v))"

abbreviation history :: "ptracer \<Rightarrow> ADDRINT \<Rightarrow> Dr_Address_Data" where
  "history s a \<equiv> cell_at zero_history (shadow s) a"

text \<open>Nothing reported for the cell, and no entry in the vector.\<close>

definition quiet :: "ptracer \<Rightarrow> ADDRINT \<Rightarrow> bool" where
  "quiet s a \<longleftrightarrow>
     (\<forall>b. same_cell a b \<longrightarrow> all_violations s b = None) \<and> length (used (history s a)) \<le> NUM_FIXED_ENTRIES"

definition pt_inv :: "ptracer \<Rightarrow> pt_access list \<Rightarrow> bool" where
  "pt_inv s h \<longleftrightarrow>
     wf_graph (taskGraph s) \<and> linked (taskGraph s) (task_id_ctr s) \<and>
     unordered (taskGraph s) \<and> no_late_fork (taskGraph s) \<and>
     (\<forall>n \<in> fst ` set h. is_step (taskGraph s) n) \<and> settled (taskGraph s) (fst ` set h) \<and>
     (\<forall>a. hist_ok (history s a) \<and> entries_ok h a (used (history s a)) \<and>
        (quiet s a \<longrightarrow> complete (taskGraph s) h a (used (history s a)))) \<and>
     (\<forall>a v. all_violations s a = Some v \<longrightarrow> real_race (taskGraph s) h a v)"

lemma pt_invD:
  assumes "pt_inv s h"
  shows inv_graph: "wf_graph (taskGraph s)" and inv_linked: "linked (taskGraph s) (task_id_ctr s)"
    and inv_unordered: "unordered (taskGraph s)" and inv_forks: "no_late_fork (taskGraph s)"
    and inv_hist: "n \<in> fst ` set h \<Longrightarrow> is_step (taskGraph s) n"
    and inv_settled: "settled (taskGraph s) (fst ` set h)"
    and inv_hist_ok: "hist_ok (history s a)" and inv_entries: "entries_ok h a (used (history s a))"
    and inv_complete: "quiet s a \<Longrightarrow> complete (taskGraph s) h a (used (history s a))"
    and inv_race: "all_violations s a = Some v \<Longrightarrow> real_race (taskGraph s) h a v"
  using assms unfolding pt_inv_def by blast+

lemma inv_entry_ok:
  assumes "pt_inv s h" "e \<in> set (used (history s a))"
  shows "entry_ok (taskGraph s) e"
proof -
  have "ptr_set (w1_task e) (w2_task e) \<union> ptr_set (r1_task e) (r2_task e) \<subseteq> fst ` set h"
    using inv_entries [OF assms(1), of a] assms(2) steps_of_hist unfolding entries_ok_def by blast
  then have "is_step (taskGraph s) n"
    if "n \<in> ptr_set (w1_task e) (w2_task e) \<union> ptr_set (r1_task e) (r2_task e)" for n
    using inv_hist [OF assms(1)] that by blast
  then show ?thesis by (auto simp: entry_ok_def ptr_ok_def ptr_set_def)
qed

section \<open>Task events\<close>

lemma steps_of_steps: "(\<And>n. n \<in> fst ` set h \<Longrightarrow> is_step g n) \<Longrightarrow> steps_of h a k L \<subseteq> Collect (allocated g)"
  using steps_of_hist by (fastforce simp: is_step_def)

lemma race_free_extends:
  assumes "wf_core g" "extends g g'" "\<And>n. n \<in> fst ` set h \<Longrightarrow> is_step g n" "race_free g h a"
  shows "race_free g' h a"
  unfolding race_free_def
proof (intro allI impI, elim conjE)
  fix n k L n' k' L'
  assume *: "n \<in> steps_of h a k L" "n' \<in> steps_of h a k' L'" "k = WRITE \<or> k' = WRITE" "disjoint_locks L L'"
  then have "allocated g n" "allocated g n'" using steps_of_steps [OF assms(3)] by blast+
  then show "\<not> mhp (tgraph_nodes g') n n'"
    using assms(4) * mhp_extends [OF wf_core_tree [OF assms(1)] assms(2)] unfolding race_free_def by blast
qed

lemma complete_evolves:
  assumes wf: "wf_core g" and ext: "extends g g'" and ev: "evolves g g'"
    and h: "\<And>n. n \<in> fst ` set h \<Longrightarrow> is_step g n" and ok: "entries_ok h a es" and c: "complete g h a es"
  shows "complete g' h a es"
proof -
  note st = steps_of_steps [OF h]
  have po: "pair_ok g' A p q" if p: "pair_ok g A p q" and A: "A \<subseteq> Collect (allocated g)"
    "ptr_set p q \<subseteq> A" for A p q
  proof -
    have "covers g' A (ptr_set p q)" using ev p A unfolding evolves_def pair_ok_def by blast
    moreover have "mhp (tgraph_nodes g') n m" if "p = Node n" "q = Node m" for n m
    proof -
      have "n \<in> ptr_set p q" "m \<in> ptr_set p q" using that by (simp_all add: ptr_set_def)
      then have "allocated g n" "allocated g m" using A by auto
      moreover have "mhp (tgraph_nodes g) n m" using p that by (simp add: pair_ok_def)
      ultimately show ?thesis using mhp_extends [OF wf_core_tree [OF wf] ext] by blast
    qed
    ultimately show ?thesis using p by (simp add: pair_ok_def)
  qed
  have "pair_ok g' (steps_of h a WRITE (lockset e)) (w1_task e) (w2_task e) \<and>
      pair_ok g' (steps_of h a READ (lockset e)) (r1_task e) (r2_task e)" if e: "e \<in> set es" for e
    using c ok e po st unfolding complete_def entries_ok_def by auto
  moreover have "race_free g' h a"
    by (rule race_free_extends [OF wf ext h]) (use c in \<open>simp_all add: complete_def\<close>)
  ultimately show ?thesis using c by (simp add: complete_def)
qed

lemma pt_real_race_extends:
  assumes wf: "wf_core g" and e: "extends g g'" and h: "\<And>n. n \<in> fst ` set h \<Longrightarrow> is_step g n"
    and r: "real_race g h a v" and sub: "set h \<subseteq> set h'"
  shows "real_race g' h' a v"
proof -
  have "task (a1 v) \<in> fst ` set h" "task (a2 v) \<in> fst ` set h" using r unfolding real_race_def by force+
  then have "allocated g (task (a1 v))" "allocated g (task (a2 v))" using h by (simp_all add: is_step_def)
  then show ?thesis
    using r mhp_extends [OF wf_core_tree [OF wf] e] sub unfolding real_race_def by blast
qed

lemma pt_inv_task_event:
  assumes inv: "pt_inv s h" and g: "wf_graph g'" "extends (taskGraph s) g'" "linked g' c" "evolves (taskGraph s) g'"
    and s': "taskGraph s' = g'" "task_id_ctr s' = c" "shadow s' = shadow s"
      "all_violations s' = all_violations s"
  shows "pt_inv s' h"
proof -
  note core = wf_graph_core [OF inv_graph [OF inv]]
  have al: "fst ` set h \<subseteq> Collect (allocated (taskGraph s))"
    using inv_hist [OF inv] by (auto simp: is_step_def)
  have "real_race g' h a v" if "all_violations s a = Some v" for a v
    by (rule pt_real_race_extends [OF core g(2) inv_hist [OF inv] inv_race [OF inv that]]) auto
  moreover have "complete g' h a (used (history s a))" if "quiet s a" for a
    by (rule complete_evolves [OF core g(2,4) inv_hist [OF inv] inv_entries [OF inv] inv_complete [OF inv that]])
  moreover have "quiet s' a = quiet s a" for a by (simp add: quiet_def s')
  moreover have "settled g' (fst ` set h)" "unordered g'" "no_late_fork g'"
    using g(4) inv_settled [OF inv] al unfolding evolves_def by blast+
  ultimately show ?thesis
    using g(1,3) inv_hist_ok [OF inv] inv_entries [OF inv] inv_hist [OF inv] is_step_extends [OF g(2)]
    unfolding pt_inv_def s' by blast
qed

lemma CaptureExecute_known:
  "temp_cur_map g k \<noteq> None \<Longrightarrow> CaptureExecute g t k = TaskGraph.CaptureExecute g t k"
  by (auto simp: CaptureExecute_def TaskGraph.CaptureExecute_def Let_def)

lemma acts_waited: "acts g t \<Longrightarrow> thread_top (cur g) t = Some i \<Longrightarrow> waited g i"
  by (simp add: acts_def)

lemma spawn_top: "CaptureSpawnOnly g t k = Some g' \<Longrightarrow> \<exists>i. thread_top (cur g) t = Some i"
  by (auto simp: CaptureSpawnOnly_def bind_eq_Some_conv)

lemma spawn_root_top: "CaptureSpawnAndWait g t k = Some g' \<Longrightarrow> \<exists>i. thread_top (cur g) t = Some i"
  by (auto simp: CaptureSpawnAndWait_def bind_eq_Some_conv)

lemma pt_spawn_inv:
  assumes inv: "pt_inv s h" and d: "acts (taskGraph s) t" and "spawn (\<lambda>_. Some) s t = Some s'"
  shows "pt_inv s' h"
proof -
  note l = inv_linked [OF inv] and wf = inv_graph [OF inv]
  from assms(3) obtain g where g: "CaptureSpawnOnly (taskGraph s) t (task_id_ctr s + 1) = Some g"
    "s' = s\<lparr>task_id_ctr := task_id_ctr s + 1, taskGraph := g\<rparr>"
    by (auto simp: spawn_def CaptureSetTaskId_def bind_eq_Some_conv Let_def)
  obtain i where i: "thread_top (cur (taskGraph s)) t = Some i" using spawn_top [OF g(1)] by blast
  have "linked g (task_id_ctr s + 1)" by (rule CaptureSpawnOnly_linked [OF wf l _ g(1)]) simp
  moreover have "evolves (taskGraph s) g"
    by (rule CaptureSpawnOnly_evolves [OF wf g(1) i acts_waited [OF d i] inv_unordered [OF inv] inv_forks [OF inv]])
  ultimately show ?thesis
    using pt_inv_task_event [OF inv, of g "task_id_ctr s + 1" s'] grows_extends
      CaptureSpawnOnly_wf [OF wf g(1)] g(2) by simp
qed

lemma pt_spawn_root_inv:
  assumes inv: "pt_inv s h" and d: "acts (taskGraph s) t" and "spawn_root_and_wait (\<lambda>_. Some) s t = Some s'"
  shows "pt_inv s' h"
proof -
  note l = inv_linked [OF inv] and wf = inv_graph [OF inv]
  from assms(3) obtain g where g: "CaptureSpawnAndWait (taskGraph s) t (task_id_ctr s + 1) = Some g"
    "s' = s\<lparr>task_id_ctr := task_id_ctr s + 1, taskGraph := g\<rparr>"
    by (auto simp: spawn_root_and_wait_def CaptureSetTaskId_def bind_eq_Some_conv Let_def)
  obtain i where i: "thread_top (cur (taskGraph s)) t = Some i" using spawn_root_top [OF g(1)] by blast
  have "linked g (task_id_ctr s + 1)" by (rule CaptureSpawnAndWait_linked [OF wf l _ g(1)]) simp
  moreover have "evolves (taskGraph s) g"
    by (rule CaptureSpawnAndWait_evolves [OF wf g(1) i acts_waited [OF d i] inv_unordered [OF inv] inv_forks [OF inv]])
  ultimately show ?thesis
    using pt_inv_task_event [OF inv, of g "task_id_ctr s + 1" s'] grows_extends
      CaptureSpawnAndWait_wf [OF wf g(1)] g(2) by simp
qed

lemma pt_graph_event_inv:
  assumes inv: "pt_inv s h" and s': "taskGraph s' = g" "task_id_ctr s' = task_id_ctr s" "shadow s' = shadow s"
      "all_violations s' = all_violations s"
    and "wf_graph g \<and> grows (taskGraph s) g" "linked g (task_id_ctr s)" "evolves (taskGraph s) g"
  shows "pt_inv s' h"
  by (rule pt_inv_task_event [OF inv, of g "task_id_ctr s"]) (use assms grows_extends in simp_all)

lemma pt_wait_inv:
  assumes inv: "pt_inv s h" and d: "scope_on_top (taskGraph s) (cur (taskGraph s) t)"
    and "wait_for_all Some s t = Some s'"
  shows "pt_inv s' h"
proof -
  note wf = inv_graph [OF inv] and l = inv_linked [OF inv]
  from assms(3) obtain g where g: "CaptureWaitOnly (taskGraph s) t = Some g" "s' = s\<lparr>taskGraph := g\<rparr>"
    by (auto simp: wait_for_all_def bind_eq_Some_conv)
  show ?thesis
    using pt_graph_event_inv [OF inv, of s' g] g(2) CaptureWaitOnly_wf [OF wf g(1)]
      CaptureWaitOnly_linked [OF wf l g(1) d]
      CaptureWaitOnly_evolves [OF wf g(1) inv_unordered [OF inv] inv_forks [OF inv]] by simp
qed

lemma exec_begin_inv:
  assumes inv: "pt_inv s h" and d: "temp_cur_map (taskGraph s) k \<noteq> None" and "exec_begin s t k = Some s'"
  shows "pt_inv s' h"
proof -
  note wf = inv_graph [OF inv] and l = inv_linked [OF inv]
  from assms(3) obtain g where g: "TaskGraph.CaptureExecute (taskGraph s) t k = Some g"
    "taskGraph s' = g" "task_id_ctr s' = task_id_ctr s" "shadow s' = shadow s"
    "all_violations s' = all_violations s"
    using CaptureExecute_known [OF d] by (auto simp: exec_begin_def bind_eq_Some_conv)
  show ?thesis
    using pt_graph_event_inv [OF inv g(2-5)] CaptureExecute_wf [OF wf g(1)]
      CaptureExecute_linked [OF wf l g(1)]
      CaptureExecute_evolves [OF g(1) inv_unordered [OF inv] inv_forks [OF inv]] by simp
qed

lemma exec_end_inv:
  assumes inv: "pt_inv s h"
    and d: "\<not> (scope_on_top (taskGraph s) (cur (taskGraph s) t) \<and> scope_on_top (taskGraph s) (tl (cur (taskGraph s) t)))"
    and "exec_end s t = Some s'"
  shows "pt_inv s' h"
proof -
  note wf = inv_graph [OF inv] and l = inv_linked [OF inv]
  from assms(3) obtain g where g: "CaptureReturn (taskGraph s) t = Some g"
    "taskGraph s' = g" "task_id_ctr s' = task_id_ctr s" "shadow s' = shadow s"
    "all_violations s' = all_violations s"
    by (auto simp: exec_end_def bind_eq_Some_conv)
  have "linked g (task_id_ctr s)" by (rule CaptureReturn_linked [OF wf l g(1)]) (use d in blast)
  then show ?thesis
    using pt_graph_event_inv [OF inv g(2-5)] CaptureReturn_wf [OF wf g(1)]
      CaptureReturn_evolves [OF g(1) inv_unordered [OF inv] inv_forks [OF inv]] by simp
qed

text \<open>Lock events touch neither the tree nor the histories.\<close>

lemma same_inv:
  assumes "pt_inv s h" "taskGraph s' = taskGraph s" "task_id_ctr s' = task_id_ctr s" "shadow s' = shadow s"
    "all_violations s' = all_violations s"
  shows "pt_inv s' h"
  using assms by (simp add: pt_inv_def quiet_def)

definition same_but_locks :: "ptracer \<Rightarrow> ptracer \<Rightarrow> bool" where
  "same_but_locks s s' \<longleftrightarrow>
     taskGraph s' = taskGraph s \<and> task_id_ctr s' = task_id_ctr s \<and> shadow s' = shadow s \<and>
     all_violations s' = all_violations s"

lemma same_but_locks_trans: "same_but_locks s u \<Longrightarrow> same_but_locks u s' \<Longrightarrow> same_but_locks s s'"
  by (simp add: same_but_locks_def)

lemma getLockId_same: "getLockId s l = Some (i, s') \<Longrightarrow> same_but_locks s s'"
  by (auto simp: getLockId_def Let_def same_but_locks_def split: option.splits if_splits)

lemma acquire_all_same: "acquire_all s ls acq = Some (ls', s') \<Longrightarrow> same_but_locks s s'"
proof (induction acq arbitrary: s ls)
  case (Cons l acq)
  then obtain i u where "getLockId s l = Some (i, u)" "acquire_all u (ls AND i) acq = Some (ls', s')"
    by (auto simp: bind_eq_Some_conv)
  then show ?case using Cons.IH getLockId_same same_but_locks_trans by blast
qed (simp add: same_but_locks_def)

lemma release_all_same: "release_all s ls rel = Some (ls', s') \<Longrightarrow> same_but_locks s s'"
proof (induction rel arbitrary: s ls)
  case (Cons l rel)
  then obtain i u where "getLockId s l = Some (i, u)" "release_all u (ls OR NOT i) rel = Some (ls', s')"
    by (auto simp: bind_eq_Some_conv)
  then show ?case using Cons.IH getLockId_same same_but_locks_trans by blast
qed (simp add: same_but_locks_def)

lemma lock_inv:
  assumes "pt_inv s h" "CaptureLockAcquire s t l = Some s' \<or> CaptureLockRelease s t l = Some s'"
  shows "pt_inv s' h"
proof -
  have "same_but_locks s s'"
    using assms(2)
    by (auto simp: CaptureLockAcquire_def CaptureLockRelease_def addLockToLockset_def bind_eq_Some_conv
        dest!: getLockId_same) (auto simp: same_but_locks_def)
  then show ?thesis using same_inv [OF assms(1)] by (simp add: same_but_locks_def)
qed

section \<open>Accesses\<close>

lemma frame_cache [simp]:
  "unordered (cached g tb) = unordered g" "no_late_fork (cached g tb) = no_late_fork g"
  "settled (cached g tb) S = settled g S" "complete (cached g tb) h a es = complete g h a es"
proof -
  have o: "open_node (cached g tb) q = open_node g q" for q by (simp add: open_node_def)
  have c: "covers (cached g tb) A B = covers g A B" for A B by (simp add: covers_def o fut_def)
  show "unordered (cached g tb) = unordered g" "no_late_fork (cached g tb) = no_late_fork g"
    "settled (cached g tb) S = settled g S"
    by (simp_all add: unordered_def no_late_fork_def settled_def o fut_def allocated_def)
  show "complete (cached g tb) h a es = complete g h a es"
    by (simp add: complete_def pair_ok_def race_free_def c)
qed

lemma pt_access_running:
  assumes inv: "pt_inv s h" and x: "\<not> exceptions s t a" and t: "t < NUM_THREADS"
    and d: "acts (taskGraph s) t"
  obtains k n q where "running (taskGraph s) (task_id_ctr s) t k n" "is_step (taskGraph s) n"
    "getCurTask (taskGraph s) t = Some n" "acting (taskGraph s) q n"
proof -
  note wf = inv_graph [OF inv]
  have ne: "tidToTaskIdMap (taskGraph s) t \<noteq> []" using x by (simp add: exceptions_def)
  then obtain k ks where k: "tidToTaskIdMap (taskGraph s) t = k # ks" by (meson neq_Nil_conv)
  show thesis
  proof (rule running_step [OF wf inv_linked [OF inv] ne t])
    fix n assume n: "getCurTask (taskGraph s) t = Some n" "is_step (taskGraph s) n"
    then obtain q where q: "thread_top (cur (taskGraph s)) t = Some q" "n = cur_step (node (taskGraph s) q)"
      by (auto simp: getCurTask_def bind_eq_Some_conv)
    have o: "open_node (taskGraph s) q"
      using q(1) by (auto simp: open_node_def thread_top_Some intro: exI [of _ t])
    have "n \<noteq> 0" using n(2) by (simp add: is_step_def allocated_def)
    then have "acting (taskGraph s) q n"
      using wf_graph_core [OF wf] open_alloc [OF wf] o acts_waited [OF d q(1)] inv_unordered [OF inv]
        inv_forks [OF inv] q(2) unfolding acting_def by blast
    then show thesis
      using that n k t wf inv_linked [OF inv] by (auto simp: running_def)
  qed
qed

lemma record_access_eq:
  assumes "running (taskGraph s) c t k n"
  shows "record_access s t a at cl =
    do {
      (g, viol, d) \<leftarrow> process_access (a, at, n, k, t) cl (taskGraph s) (all_violations s) (history s a);
      Some (s\<lparr>taskGraph := g, all_violations := viol,
              shadow := put_cell zero_history (touch_page zero_history (shadow s) (primary_index a)) a d\<rparr>)
    }"
proof -
  have r: "stack_top (tidToTaskIdMap (taskGraph s) t) = Some k" "getCurTask (taskGraph s) t = Some n"
    using assms by (auto simp: running_def)
  show ?thesis by (simp add: record_access_def r cell_at_touch Let_def del: stack_top_Some)
qed

text \<open>What the handler does, on every branch.\<close>

lemma record_access_cases:
  assumes inv: "pt_inv s h" and run: "running (taskGraph s) (task_id_ctr s) t k n" and n: "is_step (taskGraph s) n"
    and new: "all_violations s a = None" and cl: "cl \<noteq> 0"
  obtains
    (undefined) "ref_check (tgraph_nodes (taskGraph s)) n (conflict_ptrs at cl (used (history s a))) = None \<or>
        ref_check (tgraph_nodes (taskGraph s)) n (conflict_ptrs at cl (used (history s a))) = Some None \<and>
        ref_entries (tgraph_nodes (taskGraph s)) n at cl (used (history s a)) = None"
      "record_access s t a at cl = None"
  | (race) r tb where "ref_check (tgraph_nodes (taskGraph s)) n (conflict_ptrs at cl (used (history s a))) = Some (Some r)"
      "wf_core (cached (taskGraph s) tb)" "record_access s t a at cl =
        Some (s\<lparr>taskGraph := cached (taskGraph s) tb, all_violations := record_race (all_violations s) a n at (Some r),
          shadow := put_cell zero_history (touch_page zero_history (shadow s) (primary_index a)) a (history s a)\<rparr>)"
  | (keep) es d tb where "ref_check (tgraph_nodes (taskGraph s)) n (conflict_ptrs at cl (used (history s a))) = Some None"
      "ref_entries (tgraph_nodes (taskGraph s)) n at cl (used (history s a)) = Some es" "hist_ok d" "used d = es"
      "wf_core (cached (taskGraph s) tb)" "record_access s t a at cl =
        Some (s\<lparr>taskGraph := cached (taskGraph s) tb,
          shadow := put_cell zero_history (touch_page zero_history (shadow s) (primary_index a)) a d\<rparr>)"
proof -
  let ?ns = "tgraph_nodes (taskGraph s)" and ?es = "used (history s a)"
  have ok: "\<And>e. e \<in> set ?es \<Longrightarrow> entry_ok (taskGraph s) e" using inv_entry_ok [OF inv, of _ a] .
  note P = process_access_cached [where viol = "all_violations s" and a = a and at = at and d = "history s a",
      OF run ok n inv_hist_ok [OF inv] cl new]
  note R = record_access_eq [OF run, of a at cl]
  show thesis
  proof (cases "ref_check ?ns n (conflict_ptrs at cl ?es)")
    case None
    then show thesis using undefined P R by auto
  next
    case (Some r)
    show thesis
    proof (cases r)
      case r: (Some x)
      then show thesis using race [of x] Some P R by auto
    next
      case None
      then show thesis
        using undefined keep Some P R by (cases "ref_entries ?ns n at cl ?es") auto
    qed
  qed
qed

text \<open>The access is appended to the history of the run; the graph is as before up to the cache.\<close>

lemma inv_access:
  assumes inv: "pt_inv s h" and tb: "wf_core (cached (taskGraph s) tb)" and n: "is_step (taskGraph s) n"
    and sd: "settled (taskGraph s) (insert n (fst ` set h))"
    and s': "taskGraph s' = cached (taskGraph s) tb" "task_id_ctr s' = task_id_ctr s"
      "shadow s' = put_cell zero_history (touch_page zero_history (shadow s) (primary_index a)) a d"
    and d: "hist_ok d" "\<And>b. same_cell a b \<Longrightarrow> entries_ok (h @ [(n, a, k, cl)]) b (used d)"
    and c: "\<And>b. same_cell a b \<Longrightarrow> quiet s' b \<Longrightarrow> complete (taskGraph s) (h @ [(n, a, k, cl)]) b (used d)"
    and q: "\<And>b. \<not> same_cell a b \<Longrightarrow> quiet s' b \<Longrightarrow> quiet s b"
    and v: "\<And>b w. all_violations s' b = Some w \<Longrightarrow> all_violations s b = Some w \<or>
      real_race (taskGraph s) (h @ [(n, a, k, cl)]) b w"
  shows "pt_inv s' (h @ [(n, a, k, cl)])"
proof -
  let ?h = "h @ [(n, a, k, cl)]"
  have cell: "history s' b = (if same_cell a b then d else history s b)" for b
    by (simp add: s' cell_at_put cell_at_touch)
  have "hist_ok (history s' b) \<and> entries_ok ?h b (used (history s' b)) \<and>
      (quiet s' b \<longrightarrow> complete (taskGraph s) ?h b (used (history s' b)))" for b
  proof (cases "same_cell a b")
    case True
    then show ?thesis using d c cell by simp
  next
    case False
    then have "\<not> same_cell b a" using same_cell_sym by blast
    then show ?thesis
      using False cell inv_hist_ok [OF inv] entries_ok_mono [OF inv_entries [OF inv], of ?h b] q [OF False]
        inv_complete [OF inv, of b] complete_other by auto
  qed
  moreover have "real_race (cached (taskGraph s) tb) ?h b w" if w: "all_violations s' b = Some w" for b w
    using v [OF w] inv_race [OF inv, of b w] by (auto simp: real_race_def)
  ultimately show ?thesis
    unfolding pt_inv_def s'(1,2)
    using wf_graph_cache [OF inv_graph [OF inv] tb] linked_cache [OF inv_linked [OF inv]]
      inv_unordered [OF inv] inv_forks [OF inv] inv_hist [OF inv] n sd by auto
qed

lemma record_access_inv:
  assumes inv: "pt_inv s h" and x: "\<not> exceptions s t a" and t: "t < NUM_THREADS" and d: "acts (taskGraph s) t"
    and cl: "cl \<noteq> 0" and st: "record_access s t a at cl = Some s'"
  shows "pt_inv s' (h @ [(the (getCurTask (taskGraph s) t), a, at, cl)])"
proof -
  obtain k n q where r: "running (taskGraph s) (task_id_ctr s) t k n" "is_step (taskGraph s) n"
    "getCurTask (taskGraph s) t = Some n" "acting (taskGraph s) q n"
    by (rule pt_access_running [OF inv x t d])
  have new: "all_violations s a = None" using x by (simp add: exceptions_def)
  let ?ns = "tgraph_nodes (taskGraph s)" and ?h = "h @ [(n, a, at, cl)]"
  note sd = act_settled [OF r(4) inv_settled [OF inv]]
  have di: "distinct (map lockset (used (history s a)))" using inv_hist_ok [OF inv, of a] by (simp add: hist_ok_def)
  have cell: "history s b = history s a" if "same_cell a b" for b
    using that by (simp add: cell_at_def same_cell_def split: option.split)
  from inv r(1,2) new cl have "pt_inv s' ?h"
  proof (cases rule: record_access_cases [where at = at])
    case undefined
    then show ?thesis using st by simp
  next
    case (race rk tb)
    obtain m km where rk: "rk = (m, km)" by (cases rk)
    obtain p where p: "(p, km) \<in> set (conflict_ptrs at cl (used (history s a)))" "p = Node m" "mhp ?ns n m"
      using ref_check_some race(1) rk by blast
    obtain e where e: "e \<in> set (used (history s a))" "disjoint_locks cl (lockset e)" "(p, km) \<in> set (entry_ptrs at e)"
      by (rule conflict_ptrsE [OF p(1)])
    have sub: "ptr_set (w1_task e) (w2_task e) \<subseteq> steps_of h a WRITE (lockset e)"
      "ptr_set (r1_task e) (r2_task e) \<subseteq> steps_of h a READ (lockset e)"
      using inv_entries [OF inv, of a] e(1) by (simp_all add: entries_ok_def)
    have "km = WRITE \<and> m \<in> ptr_set (w1_task e) (w2_task e) \<or>
        km = READ \<and> at = WRITE \<and> m \<in> ptr_set (r1_task e) (r2_task e)"
      using e(3) p(2) by (auto simp: entry_ptrs_def ptr_set_def split: if_splits)
    then have "m \<in> steps_of h a km (lockset e)" "at = WRITE \<or> km = WRITE" using sub by blast+
    then have rr: "real_race (taskGraph s) ?h a \<lparr>a1 = \<lparr>task = n, accessType = at\<rparr>, a2 = \<lparr>task = m, accessType = km\<rparr>\<rparr>"
      using e(2) p(3) unfolding real_race_def steps_of_def by fastforce
    have s': "s' = s\<lparr>taskGraph := cached (taskGraph s) tb, all_violations := record_race (all_violations s) a n at (Some rk),
        shadow := put_cell zero_history (touch_page zero_history (shadow s) (primary_index a)) a (history s a)\<rparr>"
      using race(3) st by simp
    have viol: "all_violations s' = (all_violations s)
        (a \<mapsto> \<lparr>a1 = \<lparr>task = n, accessType = at\<rparr>, a2 = \<lparr>task = m, accessType = km\<rparr>\<rparr>)"
      by (simp add: s' record_race_def rk)
    have nq: "\<not> quiet s' b" if "same_cell a b" for b
      using same_cell_sym [OF that] viol unfolding quiet_def by fastforce
    show ?thesis
    proof (rule inv_access [OF inv race(2) r(2) sd, where d = "history s a"])
      show "entries_ok ?h b (used (history s a))" if "same_cell a b" for b
        using entries_ok_mono [OF inv_entries [OF inv], of ?h b] cell [OF that] by auto
      show "quiet s b" if "\<not> same_cell a b" "quiet s' b" for b
        using that viol unfolding quiet_def s'
        by (auto simp: cell_at_put cell_at_touch split: if_splits)
    qed (use inv_hist_ok [OF inv] nq viol rr in \<open>auto simp: s' split: if_splits\<close>)
  next
    case (keep es d tb)
    have s': "s' = s\<lparr>taskGraph := cached (taskGraph s) tb,
        shadow := put_cell zero_history (touch_page zero_history (shadow s) (primary_index a)) a d\<rparr>"
      using keep(6) st by simp
    have "length (used (history s a)) \<le> length es"
      by (rule ref_entries_cases [OF keep(2) di]) auto
    then have qs: "quiet s a" if "same_cell a b" "quiet s' b" for b
      using that same_cell_trans [OF same_cell_sym [OF that(1)]] keep(4) unfolding quiet_def s'
      by (auto simp: cell_at_put cell_at_touch)
    have eo: "entries_ok ?h a es"
      by (rule entries_ok_ref [OF inv_entries [OF inv] keep(2) di]) simp
    have sof: "steps_of g b = steps_of g a" if "same_cell a b" for b g
      using steps_of_cell [OF that] by simp
    show ?thesis
    proof (rule inv_access [OF inv keep(5) r(2) sd])
      show "entries_ok ?h b (used d)" if "same_cell a b" for b
        using eo sof [OF that] keep(4) by (simp add: entries_ok_def)
      show "complete (taskGraph s) ?h b (used d)" if b: "same_cell a b" "quiet s' b" for b
      proof -
        have len: "length es \<le> NUM_FIXED_ENTRIES"
          using b keep(4) unfolding quiet_def s' by (simp add: cell_at_put)
        have "complete (taskGraph s) ?h a es"
          by (rule complete_ref [OF r(4) inv_complete [OF inv qs [OF b]] inv_hist [OF inv] inv_settled [OF inv]
                inv_entries [OF inv] keep(1,2) di len]) simp_all
        then show ?thesis using sof [OF b(1)] keep(4) by (simp add: complete_def race_free_def)
      qed
      show "quiet s b" if "\<not> same_cell a b" "quiet s' b" for b
        using that unfolding quiet_def s' by (auto simp: cell_at_put cell_at_touch)
    qed (use keep(3) in \<open>auto simp: s'\<close>)
  qed
  then show ?thesis using r(3) by simp
qed

section \<open>Whole runs\<close>

lemma same_but_locks_inv: "same_but_locks s u \<Longrightarrow> pt_inv s h \<Longrightarrow> pt_inv u h"
  using same_inv by (simp add: same_but_locks_def)

text \<open>The two handlers, once the lock set is known.\<close>

lemma RecordMem_eq:
  assumes "\<not> exceptions s t a" "t < NUM_THREADS"
  shows "RecordMem s t a k =
    (case access_locks s (Access t a k) of None \<Rightarrow> None | Some cl \<Rightarrow> record_access s t a k cl)"
  using assms by (simp add: RecordMem_def access_locks_def split: option.splits)

lemma RecordAccess_eq:
  assumes "\<not> exceptions s t a" "RecordAccess s t a acq rel k = Some s'"
  obtains cl u where "access_locks s (AccessLocks t a acq rel k) = Some cl" "same_but_locks s u"
    "record_access u t a k cl = Some s'" "t < NUM_THREADS"
proof -
  from assms obtain ld cl1 u1 cl u where "t < NUM_THREADS" "thread_top (thd_lockset s) t = Some ld"
    "acquire_all s (createLockset ld) acq = Some (cl1, u1)" "release_all u1 cl1 rel = Some (cl, u)"
    "record_access u t a k cl = Some s'"
    by (auto simp: RecordAccess_def bind_eq_Some_conv split: if_splits)
  moreover from this have "same_but_locks s u"
    using same_but_locks_trans [OF acquire_all_same release_all_same] by blast
  ultimately show thesis using that [of cl u] by (simp add: access_locks_def)
qed

lemma exceptions_same:
  "same_but_locks s u \<Longrightarrow> thd_lockset s t \<noteq> [] \<Longrightarrow> thd_lockset u t \<noteq> [] \<Longrightarrow> exceptions u t a = exceptions s t a"
  by (simp add: same_but_locks_def exceptions_def)

lemma locks_only:
  "getLockId s l = Some (i, u) \<Longrightarrow> thd_lockset u = thd_lockset s"
  "acquire_all s ls acq = Some (ls', u) \<Longrightarrow> thd_lockset u = thd_lockset s"
  "release_all s ls rel = Some (ls', u) \<Longrightarrow> thd_lockset u = thd_lockset s"
proof -
  show g: "getLockId s l = Some (i, u) \<Longrightarrow> thd_lockset u = thd_lockset s" for s l i u
    by (auto simp: getLockId_def Let_def split: option.splits if_splits)
  show "acquire_all s ls acq = Some (ls', u) \<Longrightarrow> thd_lockset u = thd_lockset s"
    by (induction acq arbitrary: s ls) (auto simp: bind_eq_Some_conv dest!: g)
  show "release_all s ls rel = Some (ls', u) \<Longrightarrow> thd_lockset u = thd_lockset s"
    by (induction rel arbitrary: s ls) (auto simp: bind_eq_Some_conv dest!: g)
qed

lemma mem_inv:
  assumes inv: "pt_inv s h" and d: "disciplined s (Access t a k)" and st: "RecordMem s t a k = Some s'"
  shows "pt_inv s' (h @ accesses s (Access t a k))"
proof (cases "exceptions s t a")
  case True
  then show ?thesis using st inv by (auto simp: RecordMem_def accesses_def split: if_splits)
next
  case False
  have t: "t < NUM_THREADS" using st by (simp add: RecordMem_def split: if_splits)
  then obtain cl where cl: "access_locks s (Access t a k) = Some cl" "record_access s t a k cl = Some s'"
    using st RecordMem_eq [OF False t] by (auto split: option.splits)
  have "acts (taskGraph s) t" "cl \<noteq> 0" using d cl(1) by (simp_all add: disciplined_def Let_def)
  then show ?thesis
    using record_access_inv [OF inv False t _ _ cl(2)] False cl(1) by (simp add: accesses_def)
qed

lemma access_locks_inv:
  assumes inv: "pt_inv s h" and d: "disciplined s (AccessLocks t a acq rel k)"
    and st: "RecordAccess s t a acq rel k = Some s'"
  shows "pt_inv s' (h @ accesses s (AccessLocks t a acq rel k))"
proof (cases "exceptions s t a")
  case True
  then show ?thesis using st inv by (auto simp: RecordAccess_def accesses_def split: if_splits)
next
  case False
  from False st obtain cl u where cl: "access_locks s (AccessLocks t a acq rel k) = Some cl" "same_but_locks s u"
    "record_access u t a k cl = Some s'" "t < NUM_THREADS"
    by (rule RecordAccess_eq)
  have x: "\<not> (tidToTaskIdMap (taskGraph s) t = [] \<or> stack_top (tidToTaskIdMap (taskGraph s) t) = Some 0 \<or>
      all_violations s a \<noteq> None)" using False by (simp add: exceptions_def)
  obtain v where v: "same_but_locks s v" "record_access v t a k cl = Some (s'\<lparr>thd_lockset := thd_lockset s\<rparr>)"
    "thd_lockset v = thd_lockset s"
  proof
    let ?v = "u\<lparr>thd_lockset := thd_lockset s\<rparr>"
    show "same_but_locks s ?v" using cl(2) by (simp add: same_but_locks_def)
    show "record_access ?v t a k cl = Some (s'\<lparr>thd_lockset := thd_lockset s\<rparr>)"
      using cl(3) by (auto simp: record_access_def bind_eq_Some_conv Let_def)
  qed simp
  have xv: "\<not> exceptions v t a" using v(1,3) False by (simp add: exceptions_def same_but_locks_def)
  have g: "taskGraph v = taskGraph s" using v(1) by (simp add: same_but_locks_def)
  have "acts (taskGraph s) t" "cl \<noteq> 0" using d cl(1) by (simp_all add: disciplined_def Let_def)
  then have "pt_inv (s'\<lparr>thd_lockset := thd_lockset s\<rparr>) (h @ accesses s (AccessLocks t a acq rel k))"
    using record_access_inv [OF same_but_locks_inv [OF v(1) inv] xv cl(4) _ _ v(2)] False cl(1) g
    by (simp add: accesses_def)
  then show ?thesis by (rule same_inv) simp_all
qed

lemma pt_traced_step_inv:
  assumes "traced_step sh e = Some sh'" "pt_inv (fst sh) (snd sh)"
  shows "pt_inv (fst sh') (snd sh')"
proof -
  from assms(1) have st: "disciplined (fst sh) e" "pt_step (fst sh) e = Some (fst sh')"
    "snd sh' = snd sh @ accesses (fst sh) e"
    by (auto simp: traced_step_def bind_eq_Some_conv split: if_splits)
  note inv = assms(2)
  show ?thesis
  proof (cases e)
    case (Spawn t)
    then show ?thesis using pt_spawn_inv [OF inv] st by (simp add: disciplined_def accesses_def Let_def)
  next
    case (SpawnRoot t)
    then show ?thesis using pt_spawn_root_inv [OF inv] st by (simp add: disciplined_def accesses_def Let_def)
  next
    case (WaitDone t)
    then show ?thesis using pt_wait_inv [OF inv] st by (simp add: disciplined_def accesses_def Let_def)
  next
    case (ExecBegin t k)
    then show ?thesis using exec_begin_inv [OF inv] st by (simp add: disciplined_def accesses_def Let_def)
  next
    case (ExecEnd t)
    then show ?thesis using exec_end_inv [OF inv] st by (simp add: disciplined_def accesses_def Let_def)
  next
    case (LockAcquire t l)
    then show ?thesis using lock_inv [OF inv, of t l "fst sh'"] st by (simp add: accesses_def)
  next
    case (LockRelease t l)
    then show ?thesis using lock_inv [OF inv, of t l "fst sh'"] st by (simp add: accesses_def)
  next
    case (Access t a k)
    then show ?thesis using mem_inv [OF inv] st by simp
  next
    case (AccessLocks t a acq rel k)
    then show ?thesis using access_locks_inv [OF inv] st by simp
  qed
qed

lemma pt_TD_Activate_inv: "TD_Activate base = Some s \<Longrightarrow> pt_inv s []"
proof -
  assume s: "TD_Activate base = Some s"
  then obtain g where g: "AFTaskGraph_new base = Some g" and
    f: "taskGraph s = g" "task_id_ctr s = 0" "shadow s = (\<lambda>_. None)" "all_violations s = Map.empty"
    by (auto simp: TD_Activate_def bind_eq_Some_conv)
  have z: "history s a = zero_history" for a by (simp add: f cell_at_def touch_page_def)
  have no: "steps_of [] a k L = {}" for a k L by (simp add: steps_of_def)
  show ?thesis
    unfolding pt_inv_def f(1,2,4) z
    using AFTaskGraph_new_wf [OF g] AFTaskGraph_new_linked [OF g] AFTaskGraph_new_future [OF g]
    by (simp add: entries_ok_def complete_def no race_free_def)
qed

lemma pt_reachable_inv: "reachable s h \<Longrightarrow> pt_inv s h"
  unfolding reachable_def
  using run_invariant [of traced_step "\<lambda>sh. pt_inv (fst sh) (snd sh)"]
    pt_traced_step_inv pt_TD_Activate_inv by fastforce

text \<open>With at most three lock sets at a cell, no entry goes to the vector.\<close>

lemma few_entries:
  assumes inv: "pt_inv s h" and few: "finite Ls" "card Ls \<le> NUM_FIXED_ENTRIES"
    and sub: "\<And>k L. steps_of h a k L \<noteq> {} \<Longrightarrow> L \<in> Ls"
  shows "length (used (history s a)) \<le> NUM_FIXED_ENTRIES"
proof -
  have "lockset ` set (used (history s a)) \<subseteq> Ls"
    using inv_entries [OF inv, of a] sub unfolding entries_ok_def by blast
  moreover have "distinct (map lockset (used (history s a)))" using inv_hist_ok [OF inv] by (simp add: hist_ok_def)
  ultimately have "length (used (history s a)) \<le> card Ls"
    using card_mono [OF few(1)] by (metis distinct_card length_map set_map)
  then show ?thesis using few(2) by simp
qed

end
