(* ===== verification/PtProps.thy ===== *)
theory PtProps
  imports PtRuns
begin

text \<open>
  The properties of the PTRacer detector, with concrete runs that show them at work, and
  the runs on which the code does not do what it means to do.
\<close>

section \<open>Evaluating runs\<close>

text \<open>The open nodes of a state given by updates of the empty maps.\<close>

definition all_stacks :: "THREADID set \<Rightarrow> (nat \<Rightarrow> bool) \<Rightarrow> (THREADID \<Rightarrow> nat list) \<Rightarrow> bool" where
  "all_stacks T P st \<longleftrightarrow> (\<forall>t. t \<notin> T \<longrightarrow> list_all P (st t))"

definition all_spawned :: "nat set \<Rightarrow> (nat \<Rightarrow> bool) \<Rightarrow> (nat \<rightharpoonup> nat) \<Rightarrow> bool" where
  "all_spawned K P m \<longleftrightarrow> (\<forall>k. k \<notin> K \<longrightarrow> (case m k of None \<Rightarrow> True | Some p \<Rightarrow> P p))"

definition forked :: "AFTaskGraph \<Rightarrow> nat \<Rightarrow> nat \<Rightarrow> bool" where
  "forked g q p \<longleftrightarrow>
     list_all (\<lambda>y. y \<le> 1 \<or> parent (node g y) \<noteq> q \<or> type (node g y) = ASYNC) (root_path (tgraph_nodes g) p)"

lemma all_stacks_eval:
  "all_stacks T P (\<lambda>_. []) = True"
  "all_stacks T P (st(t := xs)) = ((t \<in> T \<or> list_all P xs) \<and> all_stacks (insert t T) P st)"
  by (auto simp: all_stacks_def)

lemma all_spawned_eval:
  "all_spawned K P Map.empty = True"
  "all_spawned K P (m(k := v)) =
     ((k \<in> K \<or> (case v of None \<Rightarrow> True | Some p \<Rightarrow> P p)) \<and> all_spawned (insert k K) P m)"
  by (auto simp: all_spawned_def split: option.splits)

lemma waited_eval:
  "waited g q = (all_stacks {} (forked g q) (cur g) \<and> all_spawned {} (forked g q) (temp_cur_map g))"
proof -
  have f: "forked g q p = (\<forall>y \<in> set (root_path (tgraph_nodes g) p).
      1 < y \<and> parent (node g y) = q \<longrightarrow> type (node g y) = ASYNC)" for p
    by (auto simp: forked_def list_all_iff not_le)
  show ?thesis
    unfolding waited_def open_node_def all_stacks_def all_spawned_def list_all_iff f
    by (auto split: option.splits)
qed

lemma zero_history_eval:
  "zero_history = \<lparr>f_entries = [zero_entry, zero_entry, zero_entry], access_list = None\<rparr>"
  by (simp add: zero_history_def NUM_FIXED_ENTRIES_def numeral_3_eq_3)

lemmas pt_eval = graph_eval
  Ptracer.TD_Activate_def Ptracer.exceptions_def ptr_parallel_def ptr_node_def report_def entry_ptrs_def
  disjoint_locks_def update_pair_def update_entry_def fill_entry_def uninit_entry_def update_history_def
  process_access_def record_access_def Ptracer.RecordMem_def RecordAccess_def Ptracer.CaptureExecute_def
  Ptracer.spawn_def Ptracer.spawn_root_and_wait_def Ptracer.wait_for_all_def Ptracer.exec_begin_def Ptracer.exec_end_def
  Lockset_data_new_def createLockset_def getLockId_def addLockToLockset_def removeLockFromLockset_def
  CaptureLockAcquire_def CaptureLockRelease_def zero_history_eval zero_entry_def NUM_FIXED_ENTRIES_def
  map_insert_def Let_def

lemmas pt_trace_eval = PtRuns.traced_step_def PtRuns.disciplined_def scope_on_top_def PtRuns.accesses_def
  access_locks_def acts_def waited_eval all_stacks_eval all_spawned_eval forked_def root_path.simps

text \<open>A client with one race, as for SPD3.\<close>

definition pt_racy_client :: "event list" where
  "pt_racy_client =
     [SpawnRoot 0, ExecBegin 0 1, Spawn 0, ExecBegin 1 2, Access 1 64 READ, Access 0 64 WRITE]"

lemma pt_racy_client_run:
  "\<exists>s. reachable s [(6, 64, READ, 0xffffffffffffffff), (7, 64, WRITE, 0xffffffffffffffff)] \<and>
     all_violations s 64 =
       Some \<lparr>a1 = \<lparr>task = 7, accessType = WRITE\<rparr>, a2 = \<lparr>task = 6, accessType = READ\<rparr>\<rparr>"
proof -
  have "\<exists>s0 s. TD_Activate 0 = Some s0 \<and>
      run traced_step (s0, []) pt_racy_client =
        Some (s, [(6, 64, READ, 0xffffffffffffffff), (7, 64, WRITE, 0xffffffffffffffff)]) \<and>
      all_violations s 64 =
        Some \<lparr>a1 = \<lparr>task = 7, accessType = WRITE\<rparr>, a2 = \<lparr>task = 6, accessType = READ\<rparr>\<rparr>"
    by (simp add: pt_racy_client_def pt_eval pt_trace_eval shadow_eval cong: eval_cong split del: if_split)
  then show ?thesis unfolding reachable_def by blast
qed

text \<open>The same client before the write.\<close>

definition pt_racy_prefix :: "event list" where
  "pt_racy_prefix = [SpawnRoot 0, ExecBegin 0 1, Spawn 0, ExecBegin 1 2, Access 1 64 READ]"

lemma pt_racy_prefix_run:
  "\<exists>s. reachable s [(6, 64, READ, 0xffffffffffffffff)] \<and> \<not> exceptions s 0 64 \<and>
     disciplined s (Access 0 64 WRITE) \<and> all_violations s = Map.empty \<and>
     getCurTask (taskGraph s) 0 = Some 7 \<and> mhp (tgraph_nodes (taskGraph s)) 7 6"
proof -
  have "\<exists>s0 s. TD_Activate 0 = Some s0 \<and>
      run traced_step (s0, []) pt_racy_prefix = Some (s, [(6, 64, READ, 0xffffffffffffffff)]) \<and>
      \<not> exceptions s 0 64 \<and> disciplined s (Access 0 64 WRITE) \<and> all_violations s = Map.empty \<and>
      getCurTask (taskGraph s) 0 = Some 7 \<and> mhp (tgraph_nodes (taskGraph s)) 7 6"
    by (simp add: pt_racy_prefix_def pt_eval pt_trace_eval shadow_eval mhp_def branches_def
        cong: eval_cong split del: if_split)
  then show ?thesis unfolding reachable_def by blast
qed



section \<open>Correctness\<close>

text \<open>The lock sets with which a cell was accessed.\<close>

definition lock_sets :: "pt_access list \<Rightarrow> ADDRINT \<Rightarrow> 64 word set" where
  "lock_sets h a = {L. \<exists>n b k. same_cell a b \<and> (n, b, k, L) \<in> set h}"

lemma lock_sets_finite: "finite (lock_sets h a)"
proof (rule finite_subset)
  show "lock_sets h a \<subseteq> (\<lambda>(n, b, k, L). L) ` set h" by (force simp: lock_sets_def)
qed simp

lemma few_quiet:
  assumes "reachable s h" "card (lock_sets h a) \<le> NUM_FIXED_ENTRIES"
    and "\<And>b. same_cell a b \<Longrightarrow> all_violations s b = None"
  shows "quiet s a"
proof -
  have "length (used (history s a)) \<le> NUM_FIXED_ENTRIES"
    by (rule few_entries [OF pt_reachable_inv [OF assms(1)] lock_sets_finite assms(2)])
      (auto simp: lock_sets_def steps_of_def)
  then show ?thesis using assms(3) by (simp add: quiet_def)
qed

text \<open>
  C9: every race PTRacer reports in a disciplined run is one: the two recorded steps did
  access, as recorded, the same shadow cell, with disjoint lock sets, at least one of them
  wrote, and the tree says that they may run in parallel.
\<close>

theorem pt_reports_are_races:
  assumes "reachable s h" "all_violations s a = Some v"
  shows "\<exists>b L L'. (task (a1 v), a, accessType (a1 v), L) \<in> set h \<and> same_cell a b \<and>
    (task (a2 v), b, accessType (a2 v), L') \<in> set h \<and> disjoint_locks L L' \<and>
    (accessType (a1 v) = WRITE \<or> accessType (a2 v) = WRITE) \<and>
    mhp (tgraph_nodes (taskGraph s)) (task (a1 v)) (task (a2 v))"
  using inv_race [OF pt_reachable_inv [OF assms(1)] assms(2)] by (auto simp: real_race_def)

theorem pt_reports_are_races_witness:
  "\<exists>s :: ptracer. mhp (tgraph_nodes (taskGraph s)) 7 6 \<and>
     all_violations s 64 =
       Some \<lparr>a1 = \<lparr>task = 7, accessType = WRITE\<rparr>, a2 = \<lparr>task = 6, accessType = READ\<rparr>\<rparr>"
proof -
  obtain s where s: "reachable s [(6, 64, READ, 0xffffffffffffffff), (7, 64, WRITE, 0xffffffffffffffff)]"
    "all_violations s 64 =
       Some \<lparr>a1 = \<lparr>task = 7, accessType = WRITE\<rparr>, a2 = \<lparr>task = 6, accessType = READ\<rparr>\<rparr>"
    using pt_racy_client_run by blast
  show ?thesis using pt_reports_are_races [OF s] s(2) by (intro exI [of _ s]) auto
qed



text \<open>
  C10: the two kept steps stand for all accesses made with their lock set.  When a thread
  acts in a step that may run in parallel with some recorded access of a cell, and nothing
  is reported for the cell yet, the cell's entry for that access's lock set keeps a step
  of the same kind with which the acting step may run in parallel.
\<close>

theorem pt_kept_steps_cover:
  assumes "reachable s h" "card (lock_sets h a) \<le> NUM_FIXED_ENTRIES"
    and "\<And>b. same_cell a b \<Longrightarrow> all_violations s b = None"
    and "\<not> exceptions s t a" "t < NUM_THREADS" "acts (taskGraph s) t" "getCurTask (taskGraph s) t = Some n"
    and "(m, b, k, L) \<in> set h" "same_cell a b" "mhp (tgraph_nodes (taskGraph s)) n m"
  shows "\<exists>e r. e \<in> set (used (history s a)) \<and> lockset e = L \<and>
    r \<in> (if k = WRITE then ptr_set (w1_task e) (w2_task e) else ptr_set (r1_task e) (r2_task e)) \<and>
    mhp (tgraph_nodes (taskGraph s)) n r"
proof (rule ccontr)
  note inv = pt_reachable_inv [OF assms(1)]
  let ?kept = "\<lambda>e. if k = WRITE then ptr_set (w1_task e) (w2_task e) else ptr_set (r1_task e) (r2_task e)"
  assume no: "\<not> ?thesis"
  obtain i q where a: "acting (taskGraph s) q n"
    using pt_access_running [OF inv assms(4-6)] assms(7) by (metis option.inject)
  have m: "m \<in> steps_of h a k L" using assms(8,9) by (auto simp: steps_of_def)
  have c: "complete (taskGraph s) h a (used (history s a))"
    using inv_complete [OF inv few_quiet [OF assms(1-3)]] .
  then obtain e where e: "e \<in> set (used (history s a))" "lockset e = L"
    using m unfolding complete_def by blast
  have "covers (taskGraph s) (steps_of h a k L) (?kept e)"
    using c e unfolding complete_def pair_ok_def by (cases k) auto
  moreover have "?kept e \<subseteq> steps_of h a k L"
    using inv_entries [OF inv, of a] e unfolding entries_ok_def by (cases k) auto
  then have "steps_of h a k L \<union> ?kept e \<subseteq> Collect (allocated (taskGraph s))"
    using steps_of_steps [OF inv_hist [OF inv]] by blast
  ultimately show False using covers_act [OF a _ _ _ m] no e assms(10) by blast
qed

theorem pt_kept_steps_cover_witness:
  "\<exists>s h e r. reachable s h \<and> e \<in> set (used (history s 64)) \<and>
     r \<in> ptr_set (r1_task e) (r2_task e) \<and> mhp (tgraph_nodes (taskGraph s)) 7 r"
proof -
  obtain s where s: "reachable s [(6, 64, READ, 0xffffffffffffffff)]" (is "reachable s ?h")
    "\<not> exceptions s 0 64" "disciplined s (Access 0 64 WRITE)" "all_violations s = Map.empty"
    "getCurTask (taskGraph s) 0 = Some 7" "mhp (tgraph_nodes (taskGraph s)) 7 6"
    using pt_racy_prefix_run by blast
  have "lock_sets ?h 64 \<subseteq> {0xffffffffffffffff}" by (auto simp: lock_sets_def)
  then have few: "card (lock_sets ?h 64) \<le> NUM_FIXED_ENTRIES"
    using card_mono [of "{0xffffffffffffffff}" "lock_sets ?h 64"] by (simp add: NUM_FIXED_ENTRIES_def)
  have "acts (taskGraph s) 0" using s(3) by (simp add: disciplined_def Let_def)
  then show ?thesis
    using pt_kept_steps_cover [OF s(1) few _ s(2) _ _ s(5) _ _ s(6), of 64 READ "0xffffffffffffffff"]
      s(1,4) by (auto simp: NUM_THREADS_def)
qed

text \<open>
  C8: in every state of a disciplined run, for a cell with at most three lock sets and no
  report, the handler of an access that is not skipped returns, and what it does to the
  reports and to the entries of the cell is what the reference rule on the tree says: the
  cache, the shortcuts, the two loops and the places of the entries do not show; the other
  cells and the tree stay as they are.
\<close>

theorem pt_access_refines:
  assumes "reachable s h" "card (lock_sets h a) \<le> NUM_FIXED_ENTRIES"
    and "\<And>b. same_cell a b \<Longrightarrow> all_violations s b = None"
    and "\<not> exceptions s t a" "t < NUM_THREADS" "disciplined s (Access t a k)"
  shows "\<exists>n cl r es s'. getCurTask (taskGraph s) t = Some n \<and> access_locks s (Access t a k) = Some cl \<and>
    ref_check (tgraph_nodes (taskGraph s)) n (conflict_ptrs k cl (used (history s a))) = Some r \<and>
    ref_entries (tgraph_nodes (taskGraph s)) n k cl (used (history s a)) = Some es \<and>
    RecordMem s t a k = Some s' \<and> all_violations s' = record_race (all_violations s) a n k r \<and>
    (\<forall>b. used (history s' b) = (if same_cell a b \<and> r = None then es else used (history s b))) \<and>
    tgraph_nodes (taskGraph s') = tgraph_nodes (taskGraph s)"
proof -
  note inv = pt_reachable_inv [OF assms(1)]
  let ?ns = "tgraph_nodes (taskGraph s)" and ?es = "used (history s a)"
  have d: "acts (taskGraph s) t" "access_locks s (Access t a k) \<noteq> Some 0"
    using assms(6) by (simp_all add: disciplined_def Let_def)
  have "thd_lockset s t \<noteq> []" using assms(4) by (simp add: exceptions_def)
  then obtain cl where cl: "access_locks s (Access t a k) = Some cl" "cl \<noteq> 0"
    using d(2) assms(5) by (auto simp: access_locks_def thread_top_def neq_Nil_conv)
  obtain i n q where r: "running (taskGraph s) (task_id_ctr s) t i n" "is_step (taskGraph s) n"
    "getCurTask (taskGraph s) t = Some n" "acting (taskGraph s) q n"
    by (rule pt_access_running [OF inv assms(4,5) d(1)])
  have c: "complete (taskGraph s) h a ?es" using inv_complete [OF inv few_quiet [OF assms(1-3)]] .
  have init: "w1_task e \<noteq> Uninit \<and> w2_task e \<noteq> Uninit \<and> r1_task e \<noteq> Uninit \<and> r2_task e \<noteq> Uninit"
    if "e \<in> set ?es" for e
    using c that unfolding complete_def pair_ok_def by blast
  have "p \<noteq> Uninit" if pm: "(p, m) \<in> set (conflict_ptrs k cl ?es)" for p m
  proof -
    obtain e where "e \<in> set ?es" "(p, m) \<in> set (entry_ptrs k e)" by (rule conflict_ptrsE [OF pm])
    then show ?thesis using init [of e] by (auto simp: entry_ptrs_def split: if_splits)
  qed
  then obtain rc where rc: "ref_check ?ns n (conflict_ptrs k cl ?es) = Some rc"
    using ref_check_total by blast
  obtain es where es: "ref_entries ?ns n k cl ?es = Some es" using ref_entries_total [OF init] by blast
  have new: "all_violations s a = None" using assms(3) by simp
  have rm: "RecordMem s t a k = record_access s t a k cl" using RecordMem_eq [OF assms(4,5)] cl(1) by simp
  have cell: "history s b = history s a" if "same_cell a b" for b
    by (rule cell_at_same [OF that, symmetric])
  from inv r(1,2) new cl(2) show ?thesis
  proof (cases rule: record_access_cases [where at = k])
    case undefined
    then show ?thesis using rc es by auto
  next
    case (race x tb)
    let ?s = "s\<lparr>taskGraph := cached (taskGraph s) tb, all_violations := record_race (all_violations s) a n k (Some x),
      shadow := put_cell zero_history (touch_page zero_history (shadow s) (primary_index a)) a (history s a)\<rparr>"
    have "rc = Some x" using race(1) rc by simp
    moreover have "RecordMem s t a k = Some ?s" using rm race(3) by simp
    moreover have "history ?s b = history s b" for b
      using cell [of b] by (simp add: cell_at_put cell_at_touch)
    ultimately show ?thesis
      by (intro exI [of _ n] exI [of _ cl] exI [of _ rc] exI [of _ es] exI [of _ ?s]) (simp add: r(3) cl(1) rc es)
  next
    case (keep es' d tb)
    let ?s = "s\<lparr>taskGraph := cached (taskGraph s) tb,
      shadow := put_cell zero_history (touch_page zero_history (shadow s) (primary_index a)) a d\<rparr>"
    have "rc = None" "used d = es" using keep(1,2,4) rc es by simp_all
    moreover have "RecordMem s t a k = Some ?s" using rm keep(6) by simp
    moreover have "history ?s b = (if same_cell a b then d else history s b)" for b
      by (simp add: cell_at_put cell_at_touch)
    ultimately show ?thesis
      by (intro exI [of _ n] exI [of _ cl] exI [of _ rc] exI [of _ es] exI [of _ ?s])
        (simp add: r(3) cl(1) rc es record_race_def)
  qed
qed

theorem pt_access_refines_witness:
  "\<exists>s h s'. reachable s h \<and> RecordMem s 0 64 WRITE = Some s' \<and> all_violations s = Map.empty"
proof -
  obtain s where s: "reachable s [(6, 64, READ, 0xffffffffffffffff)]" (is "reachable s ?h")
    "\<not> exceptions s 0 64" "disciplined s (Access 0 64 WRITE)" "all_violations s = Map.empty"
    using pt_racy_prefix_run by blast
  have "lock_sets ?h 64 \<subseteq> {0xffffffffffffffff}" by (auto simp: lock_sets_def)
  then have few: "card (lock_sets ?h 64) \<le> NUM_FIXED_ENTRIES"
    using card_mono [of "{0xffffffffffffffff}" "lock_sets ?h 64"] by (simp add: NUM_FIXED_ENTRIES_def)
  have "\<exists>s'. RecordMem s 0 64 WRITE = Some s'"
    using pt_access_refines [OF s(1) few _ s(2) _ s(3)] s(4) by (auto simp: NUM_THREADS_def)
  then show ?thesis using s by blast
qed

section \<open>Where the code does not do what it means to do\<close>

text \<open>One task that reads an address under no lock and under three different ones, in turn.\<close>

definition four_lock_sets :: "event list" where
  "four_lock_sets =
     [SpawnRoot 0, ExecBegin 0 1, Access 0 64 READ,
      LockAcquire 0 100, Access 0 64 READ, LockRelease 0 100,
      LockAcquire 0 101, Access 0 64 READ, LockRelease 0 101,
      LockAcquire 0 102, Access 0 64 READ, LockRelease 0 102]"

text \<open>
  C12: the fourth lock set of an address breaks the detector.  A sequential program reads
  an address under no lock and then under three different locks; the entry of the fourth
  lock set goes to the vector with only one of its four pointers assigned, and the next
  access of the address tests an unassigned pointer, so that its handler has no defined
  result, although the access is made with the discipline.
\<close>

theorem pt_fourth_lock_set_undefined:
  "\<exists>s h. reachable s h \<and> \<not> exceptions s 0 64 \<and> disciplined s (Access 0 64 READ) \<and>
     length (used (history s 64)) = 4 \<and> all_violations s = Map.empty \<and>
     RecordMem s 0 64 READ = None \<and> RecordMem s 0 64 WRITE = None"
proof -
  have "\<exists>s0 s h. TD_Activate 0 = Some s0 \<and> run traced_step (s0, []) four_lock_sets = Some (s, h) \<and>
      \<not> exceptions s 0 64 \<and> disciplined s (Access 0 64 READ) \<and> length (used (history s 64)) = 4 \<and>
      all_violations s = Map.empty \<and> RecordMem s 0 64 READ = None \<and> RecordMem s 0 64 WRITE = None"
    by (simp add: four_lock_sets_def used_def pt_eval pt_trace_eval shadow_eval cong: eval_cong split del: if_split)
  then show ?thesis unfolding reachable_def by blast
qed

text \<open>
  Task 1 acquires locks 100 and 101, releases 100 and writes; its child, in parallel,
  writes under the lock \<open>l\<close>.
\<close>

definition release_order :: "ADDRINT \<Rightarrow> event list" where
  "release_order l =
     [SpawnRoot 0, ExecBegin 0 1, Spawn 0, ExecBegin 1 2, LockAcquire 0 100, LockAcquire 0 101,
      LockRelease 0 100, Access 0 64 WRITE, LockAcquire 1 l, Access 1 64 WRITE]"

text \<open>
  C13: a release takes the lock acquired last out of the lock set, not the one that is
  released.  After acquiring 100 and 101 and releasing 100, a task holds 101 and is taken
  to hold 100: the race with a task that writes under 100 is missed, and one is reported
  with a task that writes under 101.
\<close>

theorem pt_release_takes_the_wrong_lock:
  "(\<exists>s h. reachable s h \<and> run pt_step (the (TD_Activate 0)) (release_order 100) = Some s \<and>
      map fst h = [7, 6] \<and> mhp (tgraph_nodes (taskGraph s)) 7 6 \<and> all_violations s 64 = None) \<and>
   (\<exists>s h. reachable s h \<and> run pt_step (the (TD_Activate 0)) (release_order 101) = Some s \<and>
      map fst h = [7, 6] \<and> all_violations s 64 \<noteq> None)"
proof -
  have "\<exists>s0 s h. TD_Activate 0 = Some s0 \<and> run traced_step (s0, []) (release_order 100) = Some (s, h) \<and>
      run pt_step s0 (release_order 100) = Some s \<and> map fst h = [7, 6] \<and>
      mhp (tgraph_nodes (taskGraph s)) 7 6 \<and> all_violations s 64 = None"
    by (simp add: release_order_def pt_eval pt_trace_eval shadow_eval mhp_def branches_def cong: eval_cong split del: if_split)
  moreover have "\<exists>s0 s h. TD_Activate 0 = Some s0 \<and> run traced_step (s0, []) (release_order 101) = Some (s, h) \<and>
      run pt_step s0 (release_order 101) = Some s \<and> map fst h = [7, 6] \<and> all_violations s 64 \<noteq> None"
    by (simp add: release_order_def pt_eval pt_trace_eval shadow_eval cong: eval_cong split del: if_split)
  ultimately show ?thesis unfolding reachable_def by (metis option.sel)
qed

end
