(* ===== verification/PtLocks.thy ===== *)
theory PtLocks
  imports Ptracer
begin

text \<open>
  The lock sets of PTRacer.  Every lock has a bit of its own (\<open>locks_numbered\<close>, an invariant
  of all runs), so that a word stands for a set of locks (\<open>denotes\<close>): an acquire adds the
  lock, the release that matches it takes it out again, and the test of the access handler
  decides whether two sets have a lock in common.  Also the reporter's contract.
\<close>

unbundle bit_operations_syntax

section \<open>The numbers of the locks\<close>

definition lock_id :: "nat \<Rightarrow> 64 word" where
  "lock_id i = NOT (push_bit i 1)"

lemma bit_lock_id: "bit (lock_id i) j \<longleftrightarrow> j < 64 \<and> j \<noteq> i"
  by (auto simp: lock_id_def bit_simps)

lemma lock_id_inject: "i < 64 \<Longrightarrow> lock_id i = lock_id j \<longleftrightarrow> i = j"
  using bit_lock_id [of i i] bit_lock_id [of j i] by auto

definition locks_numbered :: "nat \<Rightarrow> (ADDRINT \<rightharpoonup> 64 word) \<Rightarrow> bool" where
  "locks_numbered n m \<longleftrightarrow> n \<le> 64 \<and> inj_on m (dom m) \<and> (\<forall>l k. m l = Some k \<longrightarrow> (\<exists>i < n. k = lock_id i))"

abbreviation numbered :: "ptracer \<Rightarrow> bool" where
  "numbered s \<equiv> locks_numbered (lock_ticker s) (lockid_map s)"

lemma locks_numberedD:
  assumes "locks_numbered n m" "m l = Some k"
  obtains i where "i < n" "i < 64" "k = lock_id i"
  using assms unfolding locks_numbered_def by fastforce

lemma getLockId_cases:
  assumes "getLockId s l = Some (k, s')"
  obtains (old) "lockid_map s l = Some k" "s' = s"
  | (fresh) "lockid_map s l = None" "lock_ticker s < 64" "k = lock_id (lock_ticker s)"
      "s' = s\<lparr>lock_ticker := lock_ticker s + 1, lockid_map := (lockid_map s)(l \<mapsto> k)\<rparr>"
  using assms by (auto simp: getLockId_def map_insert_def lock_id_def Let_def split: option.splits if_splits)

lemma getLockId_numbered:
  assumes "getLockId s l = Some (k, s')" "numbered s"
  shows "numbered s'" "lockid_map s \<subseteq>\<^sub>m lockid_map s'" "lockid_map s' l = Some k"
    "thd_lockset s' = thd_lockset s" "all_violations s' = all_violations s"
proof -
  have "numbered s'" if *: "lockid_map s l = None" "lock_ticker s < 64"
    "s' = s\<lparr>lock_ticker := lock_ticker s + 1, lockid_map := (lockid_map s)(l \<mapsto> lock_id (lock_ticker s))\<rparr>"
  proof -
    have "lock_id (lock_ticker s) \<noteq> k'" if "lockid_map s l' = Some k'" for l' k'
      by (rule locks_numberedD [OF assms(2) that]) (use *(2) lock_id_inject in auto)
    then have "inj_on (lockid_map s') (dom (lockid_map s'))"
      using assms(2) *(1,3) unfolding locks_numbered_def inj_on_def by (auto simp: dom_def)
    moreover have "\<exists>i < lock_ticker s + 1. k = lock_id i" if m: "lockid_map s' l' = Some k" for l' k
    proof (cases "l' = l")
      case False
      then have "lockid_map s l' = Some k" using m *(3) by simp
      then show ?thesis by (rule locks_numberedD [OF assms(2)]) (auto intro: less_SucI)
    qed (use m *(3) in auto)
    ultimately show ?thesis
      using *(2,3) unfolding locks_numbered_def by simp
  qed
  then show "numbered s'" using assms by (auto elim!: getLockId_cases)
  show "lockid_map s \<subseteq>\<^sub>m lockid_map s'" "lockid_map s' l = Some k"
    "thd_lockset s' = thd_lockset s" "all_violations s' = all_violations s"
    using assms(1) by (auto elim!: getLockId_cases simp: map_le_def)
qed

lemma acquire_all_numbered:
  "acquire_all s w ls = Some (w', s') \<Longrightarrow> numbered s \<Longrightarrow> numbered s' \<and> all_violations s' = all_violations s"
proof (induction ls arbitrary: s w)
  case (Cons l ls)
  then obtain k s1 where st: "getLockId s l = Some (k, s1)"
    and rest: "acquire_all s1 (w AND k) ls = Some (w', s')"
    by (auto simp: bind_eq_Some_conv)
  show ?case using Cons.IH [OF rest] getLockId_numbered [OF st Cons.prems(2)] by simp
qed simp

lemma release_all_numbered:
  "release_all s w ls = Some (w', s') \<Longrightarrow> numbered s \<Longrightarrow> numbered s' \<and> all_violations s' = all_violations s"
proof (induction ls arbitrary: s w)
  case (Cons l ls)
  then obtain k s1 where st: "getLockId s l = Some (k, s1)"
    and rest: "release_all s1 (w OR NOT k) ls = Some (w', s')"
    by (auto simp: bind_eq_Some_conv)
  show ?case using Cons.IH [OF rest] getLockId_numbered [OF st Cons.prems(2)] by simp
qed simp

lemma record_access_numbered:
  "record_access s t a k cl = Some s' \<Longrightarrow> lock_ticker s' = lock_ticker s \<and> lockid_map s' = lockid_map s"
  by (auto simp: record_access_def bind_eq_Some_conv Let_def)

lemma pt_step_numbered:
  assumes "pt_step s e = Some s'" "numbered s"
  shows "numbered s'"
proof (cases e)
  case (LockAcquire t l)
  then show ?thesis
    using assms
    by (auto simp: CaptureLockAcquire_def addLockToLockset_def bind_eq_Some_conv dest: getLockId_numbered)
next
  case (AccessLocks t a acq rel k)
  then show ?thesis
    using assms
    by (auto simp: RecordAccess_def bind_eq_Some_conv split: if_splits
        dest!: acquire_all_numbered release_all_numbered record_access_numbered)
qed (use assms in \<open>auto simp: spawn_def spawn_root_and_wait_def wait_for_all_def exec_begin_def exec_end_def
      CaptureLockRelease_def RecordMem_def Let_def bind_eq_Some_conv split: if_splits
      dest!: record_access_numbered\<close>)

lemma runs_numbered:
  assumes "TD_Activate base = Some s0" "run pt_step s0 es = Some s"
  shows "numbered s"
proof (rule run_invariant [where P = numbered, OF _ assms(2)])
  show "numbered s'" if "pt_step s e = Some s'" "numbered s" for s e s'
    using pt_step_numbered that .
  show "numbered s0"
    using assms(1) by (auto simp: TD_Activate_def bind_eq_Some_conv locks_numbered_def)
qed

section \<open>Words as sets of locks\<close>

definition denotes :: "(ADDRINT \<rightharpoonup> 64 word) \<Rightarrow> 64 word \<Rightarrow> ADDRINT set \<Rightarrow> bool" where
  "denotes m w H \<longleftrightarrow> H \<subseteq> dom m \<and> (\<forall>i < 64. bit w i \<longleftrightarrow> (\<forall>l \<in> H. m l \<noteq> Some (lock_id i)))"

lemma denotes_empty: "denotes m 0xffffffffffffffff {}"
proof -
  have m: "(0xffffffffffffffff :: 64 word) = mask 64" by (simp add: mask_eq_exp_minus_1)
  show ?thesis unfolding denotes_def m by (simp add: bit_mask_iff del: mask_numeral)
qed

lemma denotes_mono:
  assumes "denotes m w H" "m \<subseteq>\<^sub>m m'"
  shows "denotes m' w H"
proof -
  have "m' l = m l" if "l \<in> H" for l
    using assms that unfolding denotes_def map_le_def by (metis subsetD)
  then show ?thesis using assms map_le_implies_dom_le [OF assms(2)] unfolding denotes_def by auto
qed

lemma denotes_insert:
  assumes "denotes m w H" "m l = Some (lock_id i)"
  shows "denotes m (w AND lock_id i) (insert l H)"
proof -
  have "lock_id j = lock_id i \<longleftrightarrow> j = i" if "j < 64" for j using lock_id_inject [OF that] .
  then show ?thesis
    using assms unfolding denotes_def by (auto simp: bit_and_iff bit_lock_id) metis
qed

text \<open>A lock outside the set has its bit set, so that putting it in and taking it out is nothing.\<close>

lemma denotes_restore:
  assumes "locks_numbered n m" "denotes m w H" "m l = Some k" "l \<notin> H"
  shows "(w AND k) OR NOT k = w"
proof -
  obtain i where i: "i < 64" "k = lock_id i" by (rule locks_numberedD [OF assms(1,3)])
  have "m l' \<noteq> Some (lock_id i)" if "l' \<in> H" for l'
  proof
    assume *: "m l' = Some (lock_id i)"
    then have "m l' = m l" using assms(3) i by simp
    then have "l' = l"
      using assms(1,3) * unfolding locks_numbered_def inj_on_def by (metis domI)
    then show False using assms(4) that by simp
  qed
  then have "bit w i" using assms(2) i(1) unfolding denotes_def by blast
  then show ?thesis
    by (intro bit_eqI) (auto simp: i(2) bit_and_iff bit_or_iff bit_not_iff bit_lock_id)
qed

lemma disjoint_locks_denotes:
  assumes "locks_numbered n m" "denotes m w H" "denotes m w' H'"
  shows "disjoint_locks w w' \<longleftrightarrow> H \<inter> H' = {}"
proof -
  have b: "bit (NOT w AND NOT w') i \<longleftrightarrow> i < 64 \<and> \<not> (bit w i \<or> bit w' i)" for i
    by (auto simp: bit_and_iff bit_not_iff)
  have "disjoint_locks w w' \<longleftrightarrow> (\<forall>i < 64. bit w i \<or> bit w' i)"
  proof (intro iffI)
    assume "disjoint_locks w w'"
    then show "\<forall>i < 64. bit w i \<or> bit w' i" using b by (metis disjoint_locks_def bit_0_eq bot_apply bot_bool_def)
  next
    assume "\<forall>i < 64. bit w i \<or> bit w' i"
    then show "disjoint_locks w w'" unfolding disjoint_locks_def by (intro bit_word_eqI) (simp add: b)
  qed
  also have "\<dots> \<longleftrightarrow> (\<forall>i < 64. \<forall>l \<in> H. \<forall>l' \<in> H'. \<not> (m l = Some (lock_id i) \<and> m l' = Some (lock_id i)))"
    using assms(2,3) unfolding denotes_def by meson
  also have "\<dots> \<longleftrightarrow> H \<inter> H' = {}"
  proof (intro iffI)
    assume none: "\<forall>i < 64. \<forall>l \<in> H. \<forall>l' \<in> H'. \<not> (m l = Some (lock_id i) \<and> m l' = Some (lock_id i))"
    have False if "l \<in> H" "l \<in> H'" for l
    proof -
      have "l \<in> dom m" using assms(2) that(1) unfolding denotes_def by blast
      then obtain k where k: "m l = Some k" by blast
      obtain i where "i < 64" "k = lock_id i" by (rule locks_numberedD [OF assms(1) k])
      then show False using none that k by blast
    qed
    then show "H \<inter> H' = {}" by blast
  next
    assume "H \<inter> H' = {}"
    moreover have "l = l'" if "m l = Some k" "m l' = Some k" for l l' k
      using assms(1) that unfolding locks_numbered_def inj_on_def by (metis domI)
    ultimately show "\<forall>i < 64. \<forall>l \<in> H. \<forall>l' \<in> H'. \<not> (m l = Some (lock_id i) \<and> m l' = Some (lock_id i))"
      by blast
  qed
  finally show ?thesis .
qed

section \<open>Nested locks\<close>

lemma acquire_release:
  assumes "numbered s" "thread_top (thd_lockset s) t = Some ld" "CaptureLockAcquire s t l = Some s1"
  obtains k where "lockid_map s \<subseteq>\<^sub>m lockid_map s1" "lockid_map s1 l = Some k" "numbered s1"
    "thread_top (thd_lockset s1) t = Some \<lparr>ld_lockset = ld_lockset ld AND k, locks = k # locks ld\<rparr>"
    "CaptureLockRelease s1 t l =
       Some (s1\<lparr>thd_lockset := push (the (pop (thd_lockset s) t)) t (ld\<lparr>ld_lockset := (ld_lockset ld AND k) OR NOT k\<rparr>)\<rparr>)"
    "push (the (pop (thd_lockset s) t)) t ld = thd_lockset s"
proof -
  obtain k s' rest where a: "getLockId s l = Some (k, s')" "pop (thd_lockset s') t = Some rest"
    "s1 = s'\<lparr>thd_lockset := push rest t (ld\<lparr>locks := k # locks ld, ld_lockset := ld_lockset ld AND k\<rparr>)\<rparr>"
    using assms(2,3)
    by (auto simp: CaptureLockAcquire_def addLockToLockset_def bind_eq_Some_conv dest: getLockId_numbered(4) [OF _ assms(1)])
  note g = getLockId_numbered [OF a(1) assms(1)]
  show thesis
    by (rule that [of k])
      (use assms(2) a(2,3) g in \<open>auto simp: thread_top_def push_def pop_def CaptureLockRelease_def
        removeLockFromLockset_def fun_eq_iff split: if_splits list.splits\<close>)
qed

text \<open>
  C11: locks that are released in the reverse order of their acquisition are accounted for
  exactly.  When a task whose lock set stands for the locks \<open>H\<close> acquires a lock outside \<open>H\<close>,
  its lock set stands for that lock and \<open>H\<close>, every other word stands for what it stood for,
  the test of the access handler says of any of them whether it has a lock in common with
  the new set, and the release gives back the lock sets of all tasks as they were.
\<close>

theorem pt_nested_locks:
  assumes "TD_Activate base = Some s0" "run pt_step s0 es = Some s"
    and "thread_top (thd_lockset s) t = Some ld" "denotes (lockid_map s) (ld_lockset ld) H"
    and "l \<notin> H" "CaptureLockAcquire s t l = Some s1"
  shows "\<exists>ld1 s2. thread_top (thd_lockset s1) t = Some ld1 \<and>
    denotes (lockid_map s1) (ld_lockset ld1) (insert l H) \<and>
    (\<forall>w H'. denotes (lockid_map s) w H' \<longrightarrow> denotes (lockid_map s1) w H' \<and>
      (disjoint_locks (ld_lockset ld1) w \<longleftrightarrow> insert l H \<inter> H' = {})) \<and>
    CaptureLockRelease s1 t l = Some s2 \<and> thd_lockset s2 = thd_lockset s"
proof -
  obtain k where k: "lockid_map s \<subseteq>\<^sub>m lockid_map s1" "lockid_map s1 l = Some k" "numbered s1"
    "thread_top (thd_lockset s1) t = Some \<lparr>ld_lockset = ld_lockset ld AND k, locks = k # locks ld\<rparr>"
    "CaptureLockRelease s1 t l =
       Some (s1\<lparr>thd_lockset := push (the (pop (thd_lockset s) t)) t (ld\<lparr>ld_lockset := (ld_lockset ld AND k) OR NOT k\<rparr>)\<rparr>)"
    "push (the (pop (thd_lockset s) t)) t ld = thd_lockset s"
    by (rule acquire_release [OF runs_numbered [OF assms(1,2)] assms(3,6)])
  note old = denotes_mono [OF _ k(1)]
  obtain i where i: "k = lock_id i" by (rule locks_numberedD [OF k(3,2)])
  have new: "denotes (lockid_map s1) (ld_lockset ld AND k) (insert l H)"
    using denotes_insert [OF old [OF assms(4)]] k(2) i by simp
  moreover have "(ld_lockset ld AND k) OR NOT k = ld_lockset ld"
    by (rule denotes_restore [OF k(3) old [OF assms(4)] k(2) assms(5)])
  ultimately show ?thesis
    using k old disjoint_locks_denotes [OF k(3) new] by simp
qed

theorem pt_nested_locks_witness:
  "\<exists>s s1 s2. run pt_step (the (TD_Activate 0)) [LockAcquire 0 100] = Some s \<and>
     CaptureLockAcquire s 0 101 = Some s1 \<and> CaptureLockRelease s1 0 101 = Some s2 \<and> thd_lockset s2 = thd_lockset s"
proof -
  have "\<exists>s0 s s1. TD_Activate 0 = Some s0 \<and> run pt_step s0 [LockAcquire 0 100] = Some s \<and>
      lockid_map s = [100 \<mapsto> lock_id 0] \<and>
      thread_top (thd_lockset s) 0 = Some \<lparr>ld_lockset = 0xffffffffffffffff AND lock_id 0, locks = [lock_id 0]\<rparr> \<and>
      CaptureLockAcquire s 0 101 = Some s1"
    by (simp add: graph_eval TD_Activate_def CaptureLockAcquire_def addLockToLockset_def getLockId_def
        Lockset_data_new_def lock_id_def map_insert_def Let_def cong: eval_cong split del: if_split)
  then obtain s0 s s1 where s: "TD_Activate 0 = Some s0" "run pt_step s0 [LockAcquire 0 100] = Some s"
    "lockid_map s = [100 \<mapsto> lock_id 0]" "CaptureLockAcquire s 0 101 = Some s1"
    "thread_top (thd_lockset s) 0 = Some \<lparr>ld_lockset = 0xffffffffffffffff AND lock_id 0, locks = [lock_id 0]\<rparr>" by blast
  have "denotes (lockid_map s) (0xffffffffffffffff AND lock_id 0) {100}"
    by (rule denotes_insert [OF denotes_empty]) (simp add: s(3))
  then have "\<exists>s2. CaptureLockRelease s1 0 101 = Some s2 \<and> thd_lockset s2 = thd_lockset s"
    using pt_nested_locks [OF s(1,2,5) _ _ s(4), of "{100}"] by auto
  then show ?thesis using s(1,2,4) by auto
qed

section \<open>The reporter's contract\<close>

lemma check_ptrs_keeps:
  "check_ptrs g viol tid t a k n ps = Some (g', viol', r) \<Longrightarrow> viol \<subseteq>\<^sub>m viol'"
  by (induction g viol tid t a k n ps rule: check_ptrs.induct)
    (auto simp: bind_eq_Some_conv report_def split: if_splits)

lemma entry_check_keeps:
  "(if c then let (addr, at, cur_node, tid, threadid) = acc
              in check_ptrs g viol tid threadid addr at cur_node (entry_ptrs at e)
    else Some (g, viol, False)) = Some (g', viol', r) \<Longrightarrow> viol \<subseteq>\<^sub>m viol'"
  by (auto simp: Let_def split: if_splits prod.splits dest: check_ptrs_keeps)

lemma scan_list_keeps:
  "scan_list acc cl g viol i ins es = Some (g', viol', r) \<Longrightarrow> viol \<subseteq>\<^sub>m viol'"
proof (induction es arbitrary: g viol i ins)
  case (Cons e es)
  from Cons.prems obtain g1 viol1 race where c: "(if disjoint_locks cl (lockset e)
      then let (addr, at, cur_node, tid, threadid) = acc
           in check_ptrs g viol tid threadid addr at cur_node (entry_ptrs at e)
      else Some (g, viol, False)) = Some (g1, viol1, race)"
    and rest: "(if race then Some (g1, viol1, True, ins)
      else scan_list acc cl g1 viol1 (i + 1) (if cl = lockset e then Some i else ins) es) = Some (g', viol', r)"
    by (simp only: scan_list.simps bind_eq_Some_conv) (auto simp only: prod.case)
  have "viol1 \<subseteq>\<^sub>m viol'" using rest Cons.IH by (auto split: if_split_asm)
  with entry_check_keeps [OF c] show ?case by (rule map_le_trans)
qed simp

lemma scan_fixed_keeps:
  "scan_fixed acc cl g viol i ins es = Some (g', viol', r) \<Longrightarrow> viol \<subseteq>\<^sub>m viol'"
proof (induction es arbitrary: g viol i ins)
  case (Cons e es)
  show ?case
  proof (cases "ins = None \<and> lockset e = 0")
    case False
    with Cons.prems obtain g1 viol1 race where c: "(if lockset e \<noteq> 0 \<and> disjoint_locks cl (lockset e)
        then let (addr, at, cur_node, tid, threadid) = acc
             in check_ptrs g viol tid threadid addr at cur_node (entry_ptrs at e)
        else Some (g, viol, False)) = Some (g1, viol1, race)"
      and rest: "(if race then Some (g1, viol1, True, ins)
        else scan_fixed acc cl g1 viol1 (i + 1) (if lockset e \<noteq> 0 \<and> cl = lockset e then Some i else ins) es) =
          Some (g', viol', r)"
      by (simp only: scan_fixed.simps if_False bind_eq_Some_conv) (auto simp only: prod.case)
    have "viol1 \<subseteq>\<^sub>m viol'" using rest Cons.IH by (auto split: if_split_asm)
    with entry_check_keeps [OF c] show ?thesis by (rule map_le_trans)
  qed (use Cons.prems in simp)
qed simp

lemma record_access_keeps:
  assumes "record_access s t a k cl = Some s'"
  shows "all_violations s \<subseteq>\<^sub>m all_violations s'"
proof -
  have "viol \<subseteq>\<^sub>m viol'" if "process_access (a, k, n, i, t) cl g viol d = Some (g', viol', d')"
    for a k n i t g viol d g' viol' d'
    using that unfolding process_access_def
    by (cases "access_list d")
      (auto simp: bind_eq_Some_conv split: if_splits dest!: scan_fixed_keeps scan_list_keeps intro: map_le_trans)
  then show ?thesis
    using assms unfolding record_access_def by (auto simp: bind_eq_Some_conv Let_def)
qed

lemma getLockId_keeps: "getLockId s l = Some (k, s') \<Longrightarrow> all_violations s' = all_violations s"
  by (auto elim!: getLockId_cases)

lemma acquire_all_keeps: "acquire_all s w ls = Some (w', s') \<Longrightarrow> all_violations s' = all_violations s"
  by (induction ls arbitrary: s w) (auto simp: bind_eq_Some_conv dest!: getLockId_keeps)

lemma release_all_keeps: "release_all s w ls = Some (w', s') \<Longrightarrow> all_violations s' = all_violations s"
  by (induction ls arbitrary: s w) (auto simp: bind_eq_Some_conv dest!: getLockId_keeps)

interpretation pt_reports: race_reporter pt_step all_violations
proof
  show "all_violations s \<subseteq>\<^sub>m all_violations s'" if st: "pt_step s e = Some s'" for s s' e
  proof (cases e)
    case (Access t a k)
    then show ?thesis
      using st by (auto simp: RecordMem_def bind_eq_Some_conv split: if_splits dest: record_access_keeps)
  next
    case (AccessLocks t a acq rel k)
    then show ?thesis
      using st by (auto simp: RecordAccess_def bind_eq_Some_conv split: if_splits
          dest!: record_access_keeps acquire_all_keeps release_all_keeps)
  qed (use st in \<open>auto simp: spawn_def spawn_root_and_wait_def wait_for_all_def exec_begin_def exec_end_def
      CaptureLockAcquire_def addLockToLockset_def CaptureLockRelease_def Let_def bind_eq_Some_conv
      split: if_splits dest!: getLockId_keeps\<close>)
qed

lemma pt_first_report_stays:
  "run pt_step s es = Some s' \<Longrightarrow> all_violations s a = Some v \<Longrightarrow> all_violations s' a = Some v"
  by (rule pt_reports.first_report_stays)

end
