(* ===== verification/Spec2Isabelle.thy ===== *)
theory Spec2Isabelle
  imports Spd3Props Locks FtProps FoProps CrProps FrProps PtProps PtLocks
begin

text \<open>
  Dynamic data race detectors for task-parallel programs (\<open>src/fastracer\<close>).  Each detector is
  a library that an instrumented TBB program calls: the wrappers of \<open>t_debug_task\<close> call it
  around every spawn and wait, TBB calls it when a task begins and ends on a thread, and an
  LLVM pass inserts a call of \<open>RecordMem\<close> before every shared access and of
  \<open>CaptureLockAcquire\<close> and \<open>CaptureLockRelease\<close> around locks.  The detector keeps, for every
  address, metadata of the last accesses, and asks of each new access whether it may run in
  parallel with them.

  \<^bold>\<open>Conventions.\<close>  A C++ operation without a defined result is \<open>None\<close> (\<open>Prelude\<close>); a run is a
  list of handler calls, executed in the order in which the locks of the code serialise them,
  and stops at the first without a result.  The call into TBB inside a wrapper is an argument
  of its model, and the identity in runs, where the tasks' own handler calls follow.
  \<open>NDEBUG\<close>, \<open>STATS\<close>, \<open>DEBUG\<close> and the other switches of each \<open>Common.H\<close> are as in the source.

  \<^bold>\<open>SPD3\<close> (\<open>spd3-lib\<close>).  \<open>TaskGraph\<close> is the program structure tree (\<open>AFTaskGraph.cpp\<close>) with its
  thread stacks, \<open>LcaHash\<close> the cache of its queries (\<open>lca_hash.cpp\<close>), \<open>Shadow\<close> the two-level
  shadow table all detectors use, \<open>Spd3\<close> the access handler and the wrappers
  (\<open>DR_Detector.cpp\<close>, \<open>exec_calls.cpp\<close>, \<open>t_debug_task.h\<close>), \<open>Locks\<close> the spin lock as a step
  relation of its atomic instructions and the numbering of threads.  \<open>Dpst\<close> defines the
  reference relation \<open>mhp\<close> on the tree; \<open>DpstOps\<close>, \<open>DpstInv\<close>, \<open>TaskIds\<close>, \<open>TaskStacks\<close> and
  \<open>ForkJoin\<close> show that every operation keeps the tree well formed, what a spawn and a wait do
  to \<open>mhp\<close>, and that the climbing loops and the cache compute it; \<open>Spd3Sound\<close> and \<open>Spd3Runs\<close>
  lift this to the access handler and to all runs; \<open>Spd3Props\<close> holds the properties.

  \<^bold>\<open>FastTrack\<close> (\<open>fasttrack\<close>).  \<open>Epochs\<close> is the packed epoch, \<open>FastTrack\<close> the detector: vector
  clocks, the read and write rules, locks, spawns and waits.  \<open>FtWait\<close> shows that the
  recursive wait joins exactly the descendants; \<open>FtHb\<close>, \<open>FtHbInv\<close> and \<open>FtRuns\<close> carry a set of
  past accesses along a run and show that the clocks agree with it; \<open>FtWrites\<close> shows what the
  write epoch of a variable stands for; \<open>FtProps\<close> holds the properties.  Runs have fewer than
  \<open>2\<^sup>4\<^sup>0\<close> events, so that no clock outgrows its 40 bits.

  \<^bold>\<open>Optimised FastTrack\<close> (\<open>fasttrack-opt\<close>).  \<open>FtOpt\<close> is the detector (\<open>Dr_Detector.cpp\<close>,
  \<open>exec_calls.cpp\<close>, \<open>exec_calls.h\<close>, \<open>t_debug_task.h\<close>): epochs and read vectors per variable as in
  FastTrack, but per task only the clocks of its ancestors, two in arrays, others in a map,
  large maps moved to a map shared with the descendants, and the join set of FasTracer.
  \<open>FoRuns\<close> keeps the tree of tasks and their pasts (\<open>FrTree\<close>, \<open>TaskPast\<close>) along a run without
  locks and states the invariant; \<open>FoSpawn\<close> and \<open>FoWait\<close> show that the handlers keep it and that
  a wait returns, \<open>FoHb\<close> that the compared clock decides happens-before, \<open>FoDetect\<close> and \<open>FoRace\<close>
  what a variable state stands for; \<open>FoProps\<close> holds the properties, those with locks on
  concrete runs.  A run has fewer than \<open>2\<^sup>2\<^sup>2\<close> tasks, which bounds the clocks; the depth is free.

  \<^bold>\<open>C-RACER\<close> (\<open>cracer\<close>).  \<open>OmHeap\<close>, \<open>Blist\<close> and \<open>OmTree\<close> are the order-maintenance structure on
  an explicit memory (\<open>blist.h\<close>, \<open>blist.cpp\<close>, \<open>om.cpp\<close>), \<open>CrStack\<close> the growing array, \<open>Omrd\<close> the
  relabeling protocol over the English and the Hebrew order (\<open>omrd.cpp\<close>), \<open>Cracer\<close> the detector
  (\<open>Dr_Detector.cpp\<close>, \<open>exec_calls.cpp\<close>, \<open>t_debug_task.h\<close>).  Pointer loops are partial functions
  on the memory, so a dangling or null pointer, and a loop that does not end, have no result.
  \<open>OmOrder\<close> to \<open>OmStruct\<close> show, bottom up, that sublists, the tree over them, splitting,
  rebuilding and relabeling keep one sequence of nodes; \<open>OmrdInv\<close> that insertion and comparison
  on both structures refine two sequences.  \<open>CrAccess\<close> shows that two readers and a writer per
  address decide the checks, \<open>CrFork\<close>, \<open>CrSpawn\<close> and \<open>CrWait\<close> what spawns and waits do to the
  orders and the tasks, \<open>CrHb\<close> how the strands of live tasks stand to each other, and \<open>CrRuns\<close>,
  \<open>CrSteps\<close>, \<open>CrDetect\<close>, \<open>CrTrace\<close> and \<open>CrRace\<close> lift this to runs with a log of the accesses;
  \<open>CrProps\<close> holds the properties.  Runs have at most \<open>2\<^sup>2\<^sup>8\<close> events, which insert at most three
  nodes each into an order, so the structures stay below \<open>2\<^sup>3\<^sup>0\<close> nodes.  The shift of \<open>capacity\<close>
  is a parameter, used only below 31.

  \<^bold>\<open>FasTracer\<close> (\<open>fastracer\<close>).  \<open>FasTracer\<close> is the detector (\<open>Dr_Detector.cpp\<close>,
  \<open>exec_calls.cpp\<close>, \<open>exec_calls.h\<close>, \<open>t_debug_task.h\<close>): per task the clocks of its path, two
  levels in arrays and the rest in a map, a join set that leads a joined task to its parent,
  per cell up to three lock states with two reader and two writer slots.  The recursions
  through the join set and the child lists are partial functions.  \<open>FrTree\<close> is the tree of
  tasks they stand for: what a task has seen of another, in terms of paths, joined tasks and
  the clocks of the spawns, \<open>TaskPast\<close> the pasts of the tasks along a run.  \<open>FrRuns\<close> keeps both
  next to the detector and states the invariant; \<open>FrSpawn\<close> and \<open>FrWait\<close> show that the handlers keep it, that the
  clocks never wrap, and that a wait returns; \<open>FrHb\<close> that the clock an access is compared with
  decides happens-before; \<open>FrPaths\<close> what the comparison of two path vectors finds; \<open>FrReaders\<close>
  that two slots stand for all accesses of a kind; \<open>FrDetect\<close> and \<open>FrRace\<close> that in runs without
  locks a cell is marked at its first race and only then; \<open>FrProps\<close> holds the properties.  A
  run has at most \<open>MAX_NUM_TASKS\<close> tasks, which bounds the clocks below \<open>2\<^sup>2\<^sup>4\<close>.

  \<^bold>\<open>PTRacer\<close> (\<open>tdebug-lib\<close>).  \<open>Ptracer\<close> is the detector (\<open>DR_Detector.cpp\<close>, \<open>Lockset_data.cpp\<close>,
  \<open>exec_calls.cpp\<close>, \<open>t_debug_task.h\<close>) on the tree and cache of \<open>TaskGraph\<close>: per cell and lock
  set two writing and two reading steps, three entries in place and the others in a vector.
  \<open>DpstWords\<close> writes a position of the tree as a word of asynchronous and serial letters and
  shows when two of three parallel steps stand for all three; \<open>DpstOpen\<close>, \<open>DpstFuture\<close> and
  \<open>DpstGrow\<close> say which positions the steps of the future can take and that every operation
  of the tree respects it.  \<open>PtSound\<close> shows that the handler is a reference rule on the tree,
  \<open>PtCover\<close> that the rule keeps steps that cover all accesses, \<open>PtRuns\<close> lifts this to runs;
  \<open>PtLocks\<close> shows what the lock sets stand for, \<open>PtProps\<close> holds the other properties.  In a
  disciplined run a task that called \<open>spawn_root_and_wait\<close> does nothing until that task has
  returned, waits close a scope and no access is made with all 64 locks held.  That all
  races are reported is shown for cells with at most three lock sets; with a fourth the
  code reads pointers it never wrote.

  \<^bold>\<open>Interfaces.\<close>  \<open>race_reporter\<close> (\<open>Prelude\<close>) is the contract that a report stays, interpreted on
  each detector; \<open>cell_store\<close> (\<open>Shadow\<close>) the laws of the shadow table; \<open>clock_join\<close> (\<open>FtWait\<close>)
  what joining clocks promises; \<open>order_pair\<close> (\<open>OmrdInv\<close>) what the detector relies on of the two
  orders; each is interpreted on the code's definitions.

  \<^bold>\<open>Not modelled.\<close>  The files of \<open>spd3-lib\<close> that no detector calls and the unmodified copy of
  PTRacer (\<open>tdebug-lib-unmodified\<close>); statistics, timing and printing; the LLVM pass, TBB, the
  benchmarks and the test programs.
\<close>

end
